(* ===== verification/Prelude.thy ===== *)
theory Prelude
  imports Main "HOL-Library.Word" "HOL-Library.AList" "HOL-Library.While_Combinator"
begin

unbundle bit_operations_syntax

text \<open>
  Shared vocabulary of the parity-db development.

  \<^item> machine integers \<open>u8\<close>, \<open>u16\<close>, \<open>u32\<close>, \<open>u64\<close> as words, byte strings as lists of \<open>u8\<close>;
  \<^item> \<open>error\<close> and \<open>'a result\<close>: the crate's \<open>Error\<close> enum (src/src/error.rs), extended with the
    two outcomes a Rust call can have beside \<open>Ok\<close> and \<open>Err\<close>: a panic and not returning;
  \<^item> \<open>and_then\<close>, the meaning of the question mark operator, and \<open>loop_r\<close>, the meaning of an
    unbounded \<open>loop\<close>/\<open>while\<close>, with the rules that the component proofs use;
  \<^item> byte slices (\<open>subslice\<close>, \<open>blit\<close>), the little endian conversions of the standard
    library, and nested association lists for the \<open>HashMap\<close>s of the log.
\<close>

section \<open>Machine integers and errors\<close>

type_synonym u8 = "8 word"
type_synonym u16 = "16 word"
type_synonym u32 = "32 word"
type_synonym u64 = "64 word"
type_synonym bytes = "8 word list"

lemma unat_bounds [simp]:
  "unat (a :: u8) < 256" "unat (b :: u16) < 65536" "unat (c :: u32) < 4294967296"
  "unat (d :: u64) < 18446744073709551616"
  using unsigned_less [of a, where ?'a = nat] unsigned_less [of b, where ?'a = nat]
    unsigned_less [of c, where ?'a = nat] unsigned_less [of d, where ?'a = nat] by simp_all

lemma unat_widen [simp]:
  "unat (ucast (b :: u16) :: u64) = unat b" "unat (ucast (a :: u8) :: u64) = unat a"
  "unat (ucast (a :: u8) :: u16) = unat a"
proof -
  have "take_bit 64 (unat b) = unat b" "take_bit 64 (unat a) = unat a" "take_bit 16 (unat a) = unat a"
    by (rule take_bit_nat_eq_self, rule less_trans [OF unat_bounds(2)], simp)
      (rule take_bit_nat_eq_self, rule less_trans [OF unat_bounds(1)], simp)+
  then show "unat (ucast b :: u64) = unat b" "unat (ucast a :: u64) = unat a"
    "unat (ucast a :: u16) = unat a" by (simp_all add: unsigned_ucast_eq)
qed

lemma bit_unat_less:
  fixes w :: "'a::len word"
  assumes "unat w < 2 ^ k" "bit w n"
  shows "n < k"
proof -
  have "bit (unat w) n" using assms(2) by (auto simp: bit_unsigned_iff dest: bit_imp_possible_bit)
  then have "bit (take_bit k (unat w)) n" using assms(1) by (simp add: take_bit_nat_eq_self)
  then show ?thesis by (simp add: bit_take_bit_iff)
qed

lemma bits_below:
  fixes w :: "'a::len word"
  assumes "drop_bit n w = 0" "bit w j"
  shows "j < n"
proof (rule ccontr)
  assume "\<not> j < n"
  then have "bit (drop_bit n w) (j - n)" using assms(2) by (simp add: bit_drop_bit_eq)
  with assms(1) show False by simp
qed

lemma unat_exp_u64:
  assumes "n < 64"
  shows "unat (2 ^ n :: u64) = 2 ^ n"
proof -
  have "(2::nat) ^ n < 2 ^ 64" using assms by (intro power_strict_increasing) simp_all
  then have "2 ^ n mod (2::nat) ^ 64 = 2 ^ n" by (rule mod_less)
  then show ?thesis using unat_of_nat [of "2 ^ n", where 'a = 64] by simp
qed

lemma le_mask_iff_bits:
  fixes a :: u64
  assumes "n < 64"
  shows "a \<le> mask n \<longleftrightarrow> (\<forall>j. bit a j \<longrightarrow> j < n)"
proof
  assume "a \<le> mask n"
  have "(2 ^ n :: u64) \<noteq> 0"
    using unat_exp_u64 [OF assms] by (metis power_not_zero unat_0 zero_neq_numeral)
  then have "unat (mask n :: u64) = 2 ^ n - 1"
    using unat_exp_u64 [OF assms] by (simp add: mask_eq_exp_minus_1 unat_minus_one)
  moreover have "(0::nat) < 2 ^ n" by simp
  ultimately have "unat a < 2 ^ n" using \<open>a \<le> mask n\<close> unfolding word_le_nat_alt by linarith
  then show "\<forall>j. bit a j \<longrightarrow> j < n" using bit_unat_less by blast
next
  assume "\<forall>j. bit a j \<longrightarrow> j < n"
  then have "a AND mask n = a" by (intro bit_word_eqI) (auto simp: bit_simps)
  then show "a \<le> mask n" by (metis and.commute word_and_le1)
qed

lemma and_255: "(w :: 'a::len word) AND 255 = take_bit 8 w"
  by (simp add: take_bit_eq_mask mask_eq_exp_minus_1)

named_theorems slice_simps "rewrite rules for byte slices"
named_theorems le_simps "rewrite rules for the little endian conversions"
named_theorems result_simps "rewrite rules that take a successful run apart"

datatype io_error = UnexpectedEof | OtherIo

datatype error =
    Io io_error
  | Corruption string
  | InvalidConfiguration string
  | IncompatibleColumnConfig u8 string
  | InvalidInput string
  | InvalidValueData
  | Background error
  | Locked io_error
  | Migration string
  | Compression
  | DatabaseNotFound

datatype 'a result = Ok 'a | Err error | Panic | Diverge

definition and_then :: "'a result \<Rightarrow> ('a \<Rightarrow> 'b result) \<Rightarrow> 'b result" where
  "and_then m f = (case m of Ok x \<Rightarrow> f x | Err e \<Rightarrow> Err e | Panic \<Rightarrow> Panic | Diverge \<Rightarrow> Diverge)"

lemma and_then_simps [simp]:
  "and_then (Ok x) f = f x"
  "and_then (Err e) f = Err e"
  "and_then Panic f = Panic"
  "and_then Diverge f = Diverge"
  by (simp_all add: and_then_def)

lemma and_then_Ok_iff [result_simps]:
  "and_then m f = Ok y \<longleftrightarrow> (\<exists>x. m = Ok x \<and> f x = Ok y)"
  by (cases m) auto

lemma and_then_Err_iff:
  "and_then m f = Err e \<longleftrightarrow> m = Err e \<or> (\<exists>x. m = Ok x \<and> f x = Err e)"
  by (cases m) auto

lemma and_then_assoc: "and_then (and_then m f) g = and_then m (\<lambda>x. and_then (f x) g)"
  by (cases m) auto

lemma and_then_cong [fundef_cong]:
  "m = m' \<Longrightarrow> (\<And>x. m' = Ok x \<Longrightarrow> f x = f' x) \<Longrightarrow> and_then m f = and_then m' f'"
  by (cases m') auto

lemma and_then_cong_weak [cong]: "m = m' \<Longrightarrow> and_then m f = and_then m' f"
  by simp

definition assert_r :: "bool \<Rightarrow> unit result" where
  "assert_r b = (if b then Ok () else Panic)"

lemma assert_r_simps [simp]:
  "assert_r True = Ok ()" "assert_r False = Panic" "assert_r b = Ok u \<longleftrightarrow> b"
  by (simp_all add: assert_r_def)

text \<open>
  A run that neither panics nor diverges. Errors are allowed: they are what the code
  reports through \<open>Result\<close>.
\<close>

definition safe_r :: "'a result \<Rightarrow> bool" where
  "safe_r r = (case r of Ok _ \<Rightarrow> True | Err _ \<Rightarrow> True | Panic \<Rightarrow> False | Diverge \<Rightarrow> False)"

lemma safe_r_simps [simp]:
  "safe_r (Ok x)" "safe_r (Err e)" "\<not> safe_r Panic" "\<not> safe_r Diverge"
  by (simp_all add: safe_r_def)

section \<open>Loops\<close>

text \<open>
  \<open>loop_r body s\<close> is an unbounded \<open>loop\<close> whose body runs in the state \<open>s\<close>: \<open>Ok (Inl s')\<close>
  continues with \<open>s'\<close>, \<open>Ok (Inr r)\<close> leaves the loop with the value \<open>r\<close>, and an error or a
  panic of the body leaves the enclosing function. A loop that never leaves is \<open>Diverge\<close>.
\<close>

definition loops_on :: "('s + 'a) result \<Rightarrow> bool" where
  "loops_on x = (case x of Ok (Inl _) \<Rightarrow> True | _ \<Rightarrow> False)"

definition loop_next :: "('s \<Rightarrow> ('s + 'a) result) \<Rightarrow> ('s + 'a) result \<Rightarrow> ('s + 'a) result" where
  "loop_next body x = and_then x (\<lambda>y. body (projl y))"

definition loop_r :: "('s \<Rightarrow> ('s + 'a) result) \<Rightarrow> 's \<Rightarrow> 'a result" where
  "loop_r body s =
     (case while_option loops_on (loop_next body) (Ok (Inl s)) of
        None \<Rightarrow> Diverge
      | Some x \<Rightarrow> and_then x (\<lambda>y. Ok (projr y)))"

lemma loop_r_unfold:
  "loop_r body s =
     and_then (body s) (\<lambda>x. case x of Inl s' \<Rightarrow> loop_r body s' | Inr r \<Rightarrow> Ok r)"
proof -
  have stop: "while_option loops_on (loop_next body) x = Some x" if "\<not> loops_on x" for x
    using that by (subst while_option_unfold) simp
  have "while_option loops_on (loop_next body) (Ok (Inl s)) =
      while_option loops_on (loop_next body) (body s)"
    by (subst while_option_unfold) (simp add: loops_on_def loop_next_def)
  then show ?thesis
    by (auto simp: loop_r_def stop loops_on_def and_then_def split: result.split sum.split)
qed

text \<open>
  Total correctness: when the body decreases a measure under an invariant, the loop leaves, and
  its outcome is the outcome of the body in the last state. In particular the loop does not
  diverge unless its body does.
\<close>

lemma loop_r_rule:
  fixes \<mu> :: "'s \<Rightarrow> nat"
  assumes "I s"
    and cont: "\<And>s s'. I s \<Longrightarrow> body s = Ok (Inl s') \<Longrightarrow> I s' \<and> \<mu> s' < \<mu> s"
    and ret: "\<And>s r. I s \<Longrightarrow> body s = Ok (Inr r) \<Longrightarrow> Q (Ok r)"
    and err: "\<And>s e. I s \<Longrightarrow> body s = Err e \<Longrightarrow> Q (Err e)"
    and panic: "\<And>s. I s \<Longrightarrow> body s = Panic \<Longrightarrow> Q Panic"
    and div: "\<And>s. I s \<Longrightarrow> body s = Diverge \<Longrightarrow> Q Diverge"
  shows "Q (loop_r body s)"
  using assms(1)
proof (induction "\<mu> s" arbitrary: s rule: less_induct)
  case less
  show ?case
  proof (cases "body s")
    case (Ok x)
    then show ?thesis
    proof (cases x)
      case (Inl s')
      with Ok have "I s'" "\<mu> s' < \<mu> s" using cont less.prems by blast+
      then have "Q (loop_r body s')" using less.hyps by blast
      with Ok Inl show ?thesis by (simp add: loop_r_unfold [of body s])
    next
      case (Inr r)
      with Ok show ?thesis using ret less.prems by (simp add: loop_r_unfold [of body s])
    qed
  qed (use err panic div less.prems in \<open>simp_all add: loop_r_unfold [of body s]\<close>)
qed

text \<open>Partial correctness, when termination is known from elsewhere.\<close>

lemma loop_r_inv:
  assumes "loop_r body s = Ok r" "I s"
    and step: "\<And>s s'. I s \<Longrightarrow> body s = Ok (Inl s') \<Longrightarrow> I s'"
    and stop: "\<And>s r. I s \<Longrightarrow> body s = Ok (Inr r) \<Longrightarrow> Q r"
  shows "Q r"
proof -
  let ?P = "\<lambda>x. (\<forall>s. x = Ok (Inl s) \<longrightarrow> I s) \<and> (\<forall>r. x = Ok (Inr r) \<longrightarrow> Q r)"
  obtain x where x: "while_option loops_on (loop_next body) (Ok (Inl s)) = Some x"
      "and_then x (\<lambda>y. Ok (projr y)) = Ok r"
    using assms(1) by (auto simp: loop_r_def split: option.splits)
  have "?P x"
  proof (rule while_option_rule [OF _ x(1)])
    fix y assume y: "?P y" "loops_on y"
    then obtain s' where s': "y = Ok (Inl s')" by (auto simp: loops_on_def split: result.splits sum.splits)
    with y have "I s'" by blast
    then show "?P (loop_next body y)" using s' step stop by (auto simp: loop_next_def)
  qed (use assms(2) in simp)
  moreover have "\<not> loops_on x" using while_option_stop [OF x(1)] .
  ultimately show ?thesis using x(2)
    by (auto simp: loops_on_def and_then_Ok_iff split: sum.splits)
qed

text \<open>Two loops whose bodies agree up to a translation of the states give related results.\<close>

lemma loop_r_map:
  assumes "\<And>s. body' (h s) = and_then (body s) (\<lambda>x. Ok (map_sum h g x))"
  shows "loop_r body' (h s) = and_then (loop_r body s) (\<lambda>r. Ok (g r))"
proof -
  let ?F = "\<lambda>x. and_then x (\<lambda>y. Ok (map_sum h g y))"
  have "map_option ?F (while_option loops_on (loop_next body) (Ok (Inl s))) =
      while_option loops_on (loop_next body') (?F (Ok (Inl s)))"
  proof (rule while_option_commute)
    show "loops_on x = loops_on (?F x)" for x
      by (auto simp: loops_on_def and_then_def split: result.split sum.split)
    show "?F (loop_next body x) = loop_next body' (?F x)" if "loops_on x" for x
      using that assms by (auto simp: loops_on_def loop_next_def split: result.splits sum.splits)
  qed
  then have e: "while_option loops_on (loop_next body') (Ok (Inl (h s))) =
      map_option ?F (while_option loops_on (loop_next body) (Ok (Inl s)))" by simp
  show ?thesis
  proof (cases "while_option loops_on (loop_next body) (Ok (Inl s))")
    case (Some x)
    with while_option_stop [OF Some] e show ?thesis
      by (cases x) (auto simp: loop_r_def loops_on_def split: sum.splits)
  qed (simp add: loop_r_def e)
qed

section \<open>Postconditions\<close>

text \<open>What holds of the value of a run that succeeds.\<close>

definition ok_post :: "('a \<Rightarrow> bool) \<Rightarrow> 'a result \<Rightarrow> bool" where
  "ok_post Q m \<longleftrightarrow> (\<forall>x. m = Ok x \<longrightarrow> Q x)"

lemma ok_post_and_then:
  "ok_post R m \<Longrightarrow> (\<And>x. R x \<Longrightarrow> ok_post Q (f x)) \<Longrightarrow> ok_post Q (and_then m f)"
  by (auto simp: ok_post_def and_then_Ok_iff)

lemma ok_post_seq: "(\<And>x. ok_post Q (f x)) \<Longrightarrow> ok_post Q (and_then m f)"
  by (auto simp: ok_post_def and_then_Ok_iff)

lemma ok_post_Ok [simp]: "ok_post Q (Ok x) = Q x"
  by (simp add: ok_post_def)

lemma ok_postI: "(\<And>x. m = Ok x \<Longrightarrow> Q x) \<Longrightarrow> ok_post Q m"
  by (simp add: ok_post_def)

lemma ok_postD: "ok_post Q m \<Longrightarrow> m = Ok x \<Longrightarrow> Q x"
  by (simp add: ok_post_def)

section \<open>Byte slices\<close>

definition subslice :: "nat \<Rightarrow> nat \<Rightarrow> 'a list \<Rightarrow> 'a list" where
  "subslice off n xs = take n (drop off xs)"

definition blit :: "nat \<Rightarrow> 'a list \<Rightarrow> 'a list \<Rightarrow> 'a list" where
  "blit off ys xs = take off xs @ ys @ drop (off + length ys) xs"

lemma length_subslice [simp]: "off + n \<le> length xs \<Longrightarrow> length (subslice off n xs) = n"
  by (simp add: subslice_def)

lemma length_blit [simp]: "off + length ys \<le> length xs \<Longrightarrow> length (blit off ys xs) = length xs"
  by (simp add: blit_def)

lemma subslice_0 [simp]: "subslice 0 n xs = take n xs"
  by (simp add: subslice_def)

lemma subslice_zero_len [simp]: "subslice off 0 xs = []"
  by (simp add: subslice_def)

lemma subslice_full: "length xs = n \<Longrightarrow> subslice 0 n xs = xs"
  by simp

lemma nth_blit:
  assumes "off + length ys \<le> length xs" "i < length xs"
  shows "blit off ys xs ! i =
    (if off \<le> i \<and> i < off + length ys then ys ! (i - off) else xs ! i)"
  using assms by (auto simp: blit_def nth_append min_def)

lemma nth_subslice: "i < n \<Longrightarrow> off + n \<le> length xs \<Longrightarrow> subslice off n xs ! i = xs ! (off + i)"
  by (simp add: subslice_def)

lemma subslice_blit_same [slice_simps]:
  "off \<le> length xs \<Longrightarrow> n = length ys \<Longrightarrow> subslice off n (blit off ys xs) = ys"
  by (simp add: subslice_def blit_def)

lemma subslice_blit_disjoint [slice_simps]:
  assumes "off + length ys \<le> length xs" "o2 + n \<le> off \<or> off + length ys \<le> o2"
  shows "subslice o2 n (blit off ys xs) = subslice o2 n xs"
proof (rule nth_equalityI)
  show "length (subslice o2 n (blit off ys xs)) = length (subslice o2 n xs)"
    using assms(1) by (simp add: subslice_def)
next
  fix i
  assume "i < length (subslice o2 n (blit off ys xs))"
  then have i: "i < n" "o2 + i < length xs"
    using assms(1) by (auto simp: subslice_def)
  then have "blit off ys xs ! (o2 + i) = xs ! (o2 + i)"
    using assms by (subst nth_blit) auto
  with i assms(1) show "subslice o2 n (blit off ys xs) ! i = subslice o2 n xs ! i"
    by (simp add: subslice_def)
qed

lemma subslice_append1 [slice_simps]:
  "off + n \<le> length xs \<Longrightarrow> subslice off n (xs @ ys) = subslice off n xs"
  by (simp add: subslice_def)

lemma subslice_append2 [slice_simps]:
  "off = length xs \<Longrightarrow> subslice off n (xs @ ys) = take n ys"
  by (simp add: subslice_def)

lemma subslice_append_skip:
  "length xs \<le> off \<Longrightarrow> subslice off n (xs @ ys) = subslice (off - length xs) n ys"
  by (simp add: subslice_def)

lemma subslice_subslice:
  "o2 + n2 \<le> n \<Longrightarrow> subslice o2 n2 (subslice off n xs) = subslice (off + o2) n2 xs"
  by (simp add: subslice_def drop_take min_def add.commute)

lemma blit_at_end [slice_simps]: "blit (length xs) ys xs = xs @ ys"
  by (simp add: blit_def)

lemma take_blit_ge: "n \<le> off \<Longrightarrow> off \<le> length xs \<Longrightarrow> take n (blit off ys xs) = take n xs"
  by (simp add: blit_def min_def)

section \<open>Little endian conversions\<close>

fun le_bytes :: "nat \<Rightarrow> nat \<Rightarrow> bytes" where
  "le_bytes 0 v = []"
| "le_bytes (Suc n) v = word_of_nat v # le_bytes n (v div 256)"

fun le_nat :: "bytes \<Rightarrow> nat" where
  "le_nat [] = 0"
| "le_nat (b # bs) = unat b + 256 * le_nat bs"

lemma le_bytes_numeral:
  "le_bytes (numeral k) v = word_of_nat v # le_bytes (pred_numeral k) (v div 256)"
  by (simp only: numeral_eq_Suc [of k] le_bytes.simps)

lemma length_le_bytes [simp]: "length (le_bytes n v) = n"
  by (induction n arbitrary: v) auto

lemma le_nat_bound: "le_nat bs < 256 ^ length bs"
proof (induction bs)
  case (Cons b bs)
  have "unat b + 256 * le_nat bs < 256 * (1 + le_nat bs)"
    by (simp add: distrib_left)
  also have "\<dots> \<le> 256 * 256 ^ length bs" using Cons.IH by simp
  finally show ?case by simp
qed simp

lemma le_nat_le_bytes [le_simps]: "le_nat (le_bytes n v) = v mod 256 ^ n"
proof (induction n arbitrary: v)
  case (Suc n)
  have "unat (word_of_nat v :: u8) = v mod 256"
    by (simp add: unat_of_nat)
  with Suc show ?case
    by (simp add: mod_mult2_eq)
qed simp

lemma le_bytes_le_nat [le_simps]: "n = length bs \<Longrightarrow> le_bytes n (le_nat bs) = bs"
proof (induction bs arbitrary: n)
  case (Cons b bs)
  have b: "unat b < 256" by simp
  then have "(unat b + 256 * le_nat bs) div 256 = le_nat bs" by simp
  moreover have "unat (word_of_nat (unat b + 256 * le_nat bs) :: u8) = unat b"
    using b by (simp add: unat_of_nat del: of_nat_add of_nat_mult)
  then have "(word_of_nat (unat b + 256 * le_nat bs) :: u8) = b"
    by (rule unsigned_word_eqI)
  ultimately show ?case using Cons by simp
qed simp

definition u16_to_le :: "u16 \<Rightarrow> bytes" where "u16_to_le w = le_bytes 2 (unat w)"
definition u32_to_le :: "u32 \<Rightarrow> bytes" where "u32_to_le w = le_bytes 4 (unat w)"
definition u64_to_le :: "u64 \<Rightarrow> bytes" where "u64_to_le w = le_bytes 8 (unat w)"
definition u16_from_le :: "bytes \<Rightarrow> u16" where "u16_from_le bs = word_of_nat (le_nat bs)"
definition u32_from_le :: "bytes \<Rightarrow> u32" where "u32_from_le bs = word_of_nat (le_nat bs)"
definition u64_from_le :: "bytes \<Rightarrow> u64" where "u64_from_le bs = word_of_nat (le_nat bs)"
definition u64_from_be :: "bytes \<Rightarrow> u64" where "u64_from_be bs = word_of_nat (le_nat (rev bs))"
definition u64_to_be :: "u64 \<Rightarrow> bytes" where "u64_to_be w = rev (le_bytes 8 (unat w))"

lemmas le_defs = u16_to_le_def u32_to_le_def u64_to_le_def
  u16_from_le_def u32_from_le_def u64_from_le_def u64_from_be_def u64_to_be_def

lemma length_to_le [simp]:
  "length (u16_to_le a) = 2" "length (u32_to_le b) = 4" "length (u64_to_le c) = 8"
  "length (u64_to_be c) = 8"
  by (simp_all add: le_defs)

lemma from_to_le [simp]:
  "u16_from_le (u16_to_le a) = a" "u32_from_le (u32_to_le b) = b"
  "u64_from_le (u64_to_le c) = c" "u64_from_be (u64_to_be c) = c"
  by (simp_all add: le_defs le_simps)

lemma to_from_le:
  "length bs = 2 \<Longrightarrow> u16_to_le (u16_from_le bs) = bs"
  "length bs = 4 \<Longrightarrow> u32_to_le (u32_from_le bs) = bs"
  "length bs = 8 \<Longrightarrow> u64_to_le (u64_from_le bs) = bs"
  using le_nat_bound [of bs] by (simp_all add: le_defs le_simps unat_of_nat)

lemma u16_to_le_inj [simp]: "u16_to_le a = u16_to_le b \<longleftrightarrow> a = b"
  by (metis from_to_le(1))

section \<open>Association lists\<close>

text \<open>
  A \<open>HashMap\<close> is an association list without repeated keys whose order stands for the
  (unspecified) iteration order. \<open>or_default\<close> is \<open>entry(k).or_default()\<close> on a map of maps.
\<close>

definition or_default :: "('k \<times> 'v list) list \<Rightarrow> 'k \<Rightarrow> 'v list" where
  "or_default m k = (case map_of m k of Some x \<Rightarrow> x | None \<Rightarrow> [])"

lemma or_default_update [simp]:
  "or_default (AList.update k x m) k' = (if k' = k then x else or_default m k')"
  by (simp add: or_default_def update_conv)

lemma distinct_update_fst [simp]:
  "distinct (map fst m) \<Longrightarrow> distinct (map fst (AList.update k x m))"
  by (rule distinct_update)

end
