(* ===== verification/Table_File.thy ===== *)
theory Table_File
  imports Prelude
begin

text \<open>
  The file of a value table (src/src/file.rs). The content of an open file is a byte list, a
  missing file is \<open>None\<close>. \<open>read_at\<close> and \<open>write_at\<close> are the positioned reads and writes of the
  unix build; \<open>grow\<close> extends the file by a fixed number of bytes, filled with zeros as
  \<open>set_len\<close> does. Failures of the operating system other than the end of the file are not
  part of the model, and \<open>flush\<close> (fsync) leaves the content as it is.
\<close>

definition GROW_SIZE_BYTES :: nat where "GROW_SIZE_BYTES = 256 * 1024"

record table_file =
  tf_file :: "bytes option"
  tf_capacity :: u64

definition set_len :: "nat \<Rightarrow> bytes \<Rightarrow> bytes" where
  "set_len n f = take n f @ replicate (n - length f) 0"

definition tf_open :: "bytes option \<Rightarrow> u16 \<Rightarrow> table_file" where
  "tf_open disk entry_size =
     (case disk of
        None \<Rightarrow> \<lparr>tf_file = None, tf_capacity = 0\<rparr>
      | Some f \<Rightarrow>
          (if length f = 0 then
             (let capacity = GROW_SIZE_BYTES div unat entry_size in
              \<lparr>tf_file = Some (set_len (capacity * unat entry_size) f),
               tf_capacity = word_of_nat capacity\<rparr>)
           else \<lparr>tf_file = Some f, tf_capacity = word_of_nat (length f div unat entry_size)\<rparr>))"

definition read_at :: "table_file \<Rightarrow> nat \<Rightarrow> nat \<Rightarrow> bytes result" where
  "read_at tf n offset =
     (case tf_file tf of
        None \<Rightarrow> Err (Corruption ''File does not exist.'')
      | Some f \<Rightarrow> if offset + n \<le> length f then Ok (subslice offset n f) else Err (Io UnexpectedEof))"

definition write_at :: "table_file \<Rightarrow> bytes \<Rightarrow> nat \<Rightarrow> table_file result" where
  "write_at tf buf offset =
     (case tf_file tf of
        None \<Rightarrow> Panic
      | Some f \<Rightarrow>
          Ok (tf\<lparr>tf_file := Some (blit offset buf (f @ replicate (offset + length buf - length f) 0))\<rparr>))"

definition grow :: "table_file \<Rightarrow> u16 \<Rightarrow> table_file" where
  "grow tf entry_size =
     (let capacity = tf_capacity tf + word_of_nat (GROW_SIZE_BYTES div unat entry_size);
          f = (case tf_file tf of None \<Rightarrow> [] | Some f \<Rightarrow> f)
      in tf\<lparr>tf_capacity := capacity,
            tf_file := Some (set_len (unat (capacity * ucast entry_size)) f)\<rparr>)"

definition tf_flush :: "table_file \<Rightarrow> table_file" where
  "tf_flush tf = tf"

definition tf_remove :: "table_file \<Rightarrow> table_file" where
  "tf_remove tf = tf\<lparr>tf_file := None\<rparr>"

section \<open>Reads after writes\<close>

lemma write_at_ok:
  assumes "tf_file tf = Some f" "offset + length buf \<le> length f"
  shows "write_at tf buf offset = Ok (tf\<lparr>tf_file := Some (blit offset buf f)\<rparr>)"
  using assms by (simp add: write_at_def)

lemma read_at_write_at_same:
  assumes "write_at tf buf offset = Ok tf'" "n \<le> length buf"
  shows "read_at tf' n offset = Ok (take n buf)"
  using assms
  by (auto simp: write_at_def read_at_def blit_def subslice_def split: option.splits)

lemma read_at_write_at_disjoint:
  assumes "tf_file tf = Some f" "offset + length buf \<le> length f"
    and "write_at tf buf offset = Ok tf'"
    and "o2 + n \<le> offset \<or> offset + length buf \<le> o2"
  shows "read_at tf' n o2 = read_at tf n o2"
  using assms by (auto simp: write_at_def read_at_def subslice_blit_disjoint)

lemma tf_capacity_write_at [simp]:
  "write_at tf buf offset = Ok tf' \<Longrightarrow> tf_capacity tf' = tf_capacity tf"
  by (auto simp: write_at_def split: option.splits)

lemma write_at_length:
  assumes "write_at tf buf offset = Ok tf'" "tf_file tf = Some f"
  shows "\<exists>f'. tf_file tf' = Some f' \<and> length f \<le> length f' \<and> offset + length buf \<le> length f'"
  using assms by (auto simp: write_at_def blit_def)

text \<open>Growing a file keeps every byte that can be read and extends the capacity.\<close>

lemma read_at_grow:
  assumes "read_at tf n offset = Ok bs"
    and "tf_file tf = Some f" "length f \<le> unat ((tf_capacity tf +
           word_of_nat (GROW_SIZE_BYTES div unat entry_size)) * ucast entry_size)"
  shows "read_at (grow tf entry_size) n offset = Ok bs"
  using assms
  by (auto simp: read_at_def grow_def Let_def set_len_def subslice_append1 split: if_splits)

end
