(* ===== verification/Table_Entry.thy ===== *)
theory Table_Entry
  imports Prelude
begin

text \<open>
  The on-disk entry format of the value tables (src/src/table.rs, first half and \<open>mod key\<close>):
  table identifiers, the header entry, the \<open>Entry\<close> cursor with its markers, sizes and integers,
  and the partial keys stored with a value.

  An \<open>Entry\<close> over a fixed array starts uninitialised in the source. The model keeps the
  initialised prefix of the buffer only (\<open>en_buf\<close>) next to the capacity of the array
  (\<open>en_cap\<close>): a read beyond the initialised prefix is a \<open>Panic\<close>, so every theorem about a
  successful run also shows that no uninitialised byte was looked at.
\<close>

section \<open>Constants and table identifiers\<close>

definition SIZE_TIERS_BITS :: nat where [simp]: "SIZE_TIERS_BITS = 8"
definition SIZE_TIERS :: nat where [simp]: "SIZE_TIERS = 256"
definition COMPRESSED_MASK :: u16 where [simp]: "COMPRESSED_MASK = 0x8000"
definition MAX_ENTRY_SIZE :: nat where [simp]: "MAX_ENTRY_SIZE = 0x7ff8"
definition MIN_ENTRY_SIZE :: nat where [simp]: "MIN_ENTRY_SIZE = 32"
definition REFS_SIZE :: nat where [simp]: "REFS_SIZE = 4"
definition SIZE_SIZE :: nat where [simp]: "SIZE_SIZE = 2"
definition INDEX_SIZE :: nat where [simp]: "INDEX_SIZE = 8"
definition MAX_ENTRY_BUF_SIZE :: nat where [simp]: "MAX_ENTRY_BUF_SIZE = 0x8000"
definition TOMBSTONE :: bytes where [simp]: "TOMBSTONE = [0xff, 0xff]"
definition MULTIPART_V4 :: bytes where [simp]: "MULTIPART_V4 = [0xff, 0xfe]"
definition MULTIHEAD_V4 :: bytes where [simp]: "MULTIHEAD_V4 = [0xff, 0xfd]"
definition MULTIPART :: bytes where [simp]: "MULTIPART = [0xfe, 0xff]"
definition MULTIHEAD :: bytes where [simp]: "MULTIHEAD = [0xfd, 0xff]"
definition MULTIHEAD_COMPRESSED :: bytes where [simp]: "MULTIHEAD_COMPRESSED = [0xfd, 0x7f]"
definition LOCKED_REF :: u32 where [simp]: "LOCKED_REF = 0xffffffff"
definition MULTIPART_ENTRY_SIZE :: u16 where [simp]: "MULTIPART_ENTRY_SIZE = 4096"

definition table_id_new :: "u8 \<Rightarrow> u8 \<Rightarrow> u16" where
  "table_id_new col size_tier = push_bit 8 (ucast col) OR ucast size_tier"

definition table_id_col :: "u16 \<Rightarrow> u8" where
  "table_id_col i = ucast (drop_bit 8 i)"

definition table_id_size_tier :: "u16 \<Rightarrow> u8" where
  "table_id_size_tier i = ucast (i AND 0xff)"

section \<open>Header entry\<close>

definition header_default :: bytes where
  "header_default = replicate 16 0"

definition header_last_removed :: "bytes \<Rightarrow> u64" where
  "header_last_removed h = u64_from_le (subslice 0 INDEX_SIZE h)"

definition header_set_last_removed :: "bytes \<Rightarrow> u64 \<Rightarrow> bytes" where
  "header_set_last_removed h last_removed = blit 0 (u64_to_le last_removed) h"

definition header_filled :: "bytes \<Rightarrow> u64" where
  "header_filled h = u64_from_le (subslice INDEX_SIZE INDEX_SIZE h)"

definition header_set_filled :: "bytes \<Rightarrow> u64 \<Rightarrow> bytes" where
  "header_set_filled h filled = blit INDEX_SIZE (u64_to_le filled) h"

section \<open>The Entry cursor\<close>

record ventry =
  en_off :: nat
  en_buf :: bytes
  en_cap :: nat

definition check_remaining_len :: "ventry \<Rightarrow> nat \<Rightarrow> error \<Rightarrow> unit result" where
  "check_remaining_len e len err =
     (if en_off e + len > length (en_buf e) then Err err else Ok ())"

definition entry_new :: "bytes \<Rightarrow> ventry" where
  "entry_new data = \<lparr>en_off = 0, en_buf = data, en_cap = length data\<rparr>"

definition new_uninit_full_entry :: ventry where
  "new_uninit_full_entry = \<lparr>en_off = 0, en_buf = [], en_cap = MAX_ENTRY_BUF_SIZE\<rparr>"

definition new_uninit :: "nat \<Rightarrow> ventry" where
  "new_uninit c = \<lparr>en_off = 0, en_buf = [], en_cap = c\<rparr>"

definition set_offset :: "nat \<Rightarrow> ventry \<Rightarrow> ventry" where
  "set_offset offset e = e\<lparr>en_off := offset\<rparr>"

definition write_slice :: "bytes \<Rightarrow> ventry \<Rightarrow> ventry result" where
  "write_slice buf e =
     (if en_off e \<le> length (en_buf e) \<and> en_off e + length buf \<le> en_cap e
      then Ok (e\<lparr>en_off := en_off e + length buf, en_buf := blit (en_off e) buf (en_buf e)\<rparr>)
      else Panic)"

definition read_slice :: "nat \<Rightarrow> ventry \<Rightarrow> (bytes \<times> ventry) result" where
  "read_slice n e =
     (if en_off e + n \<le> length (en_buf e)
      then Ok (subslice (en_off e) n (en_buf e), e\<lparr>en_off := en_off e + n\<rparr>)
      else Panic)"

definition head_is :: "bytes \<Rightarrow> ventry \<Rightarrow> bool result" where
  "head_is marker e =
     (if SIZE_SIZE \<le> length (en_buf e) then Ok (take SIZE_SIZE (en_buf e) = marker) else Panic)"

definition is_tombstone :: "ventry \<Rightarrow> bool result" where
  "is_tombstone = head_is TOMBSTONE"

definition write_tombstone :: "ventry \<Rightarrow> ventry result" where
  "write_tombstone = write_slice TOMBSTONE"

definition is_multipart :: "ventry \<Rightarrow> bool result" where
  "is_multipart = head_is MULTIPART"

definition is_multipart_v4 :: "ventry \<Rightarrow> bool result" where
  "is_multipart_v4 = head_is MULTIPART_V4"

definition write_multipart :: "ventry \<Rightarrow> ventry result" where
  "write_multipart = write_slice MULTIPART"

definition is_multihead_compressed :: "ventry \<Rightarrow> bool result" where
  "is_multihead_compressed = head_is MULTIHEAD_COMPRESSED"

definition is_multihead :: "ventry \<Rightarrow> bool result" where
  "is_multihead e =
     and_then (is_multihead_compressed e) (\<lambda>c. if c then Ok True else head_is MULTIHEAD e)"

definition is_multihead_v4 :: "ventry \<Rightarrow> bool result" where
  "is_multihead_v4 = head_is MULTIHEAD_V4"

definition write_multihead :: "ventry \<Rightarrow> ventry result" where
  "write_multihead = write_slice MULTIHEAD"

definition write_multihead_compressed :: "ventry \<Rightarrow> ventry result" where
  "write_multihead_compressed = write_slice MULTIHEAD_COMPRESSED"

definition is_multi :: "u32 \<Rightarrow> ventry \<Rightarrow> bool result" where
  "is_multi db_version e =
     and_then (is_multipart e) (\<lambda>p. if p then Ok True else
     and_then (is_multihead e) (\<lambda>h. if h then Ok True else
     if db_version \<le> 4
     then and_then (is_multipart_v4 e) (\<lambda>p4. if p4 then Ok True else is_multihead_v4 e)
     else Ok False))"

definition read_size :: "ventry \<Rightarrow> ((u16 \<times> bool) \<times> ventry) result" where
  "read_size e =
     and_then (read_slice SIZE_SIZE e) (\<lambda>(bs, e').
       let sz = u16_from_le bs; compressed = (sz AND COMPRESSED_MASK > 0)
       in Ok ((sz AND NOT COMPRESSED_MASK, compressed), e'))"

definition skip_size :: "ventry \<Rightarrow> ventry" where
  "skip_size e = e\<lparr>en_off := en_off e + SIZE_SIZE\<rparr>"

definition write_size :: "u16 \<Rightarrow> bool \<Rightarrow> ventry \<Rightarrow> ventry result" where
  "write_size sz compressed =
     write_slice (u16_to_le (if compressed then sz OR COMPRESSED_MASK else sz))"

definition read_u64 :: "ventry \<Rightarrow> (u64 \<times> ventry) result" where
  "read_u64 e = and_then (read_slice 8 e) (\<lambda>(bs, e'). Ok (u64_from_le bs, e'))"

definition read_next :: "ventry \<Rightarrow> (u64 \<times> ventry) result" where
  "read_next = read_u64"

definition skip_u64 :: "ventry \<Rightarrow> ventry" where
  "skip_u64 e = e\<lparr>en_off := en_off e + 8\<rparr>"

definition skip_next :: "ventry \<Rightarrow> ventry" where
  "skip_next = skip_u64"

definition write_u64 :: "u64 \<Rightarrow> ventry \<Rightarrow> ventry result" where
  "write_u64 next_index = write_slice (u64_to_le next_index)"

definition write_next :: "u64 \<Rightarrow> ventry \<Rightarrow> ventry result" where
  "write_next = write_u64"

definition read_u32 :: "ventry \<Rightarrow> (u32 \<times> ventry) result" where
  "read_u32 e = and_then (read_slice REFS_SIZE e) (\<lambda>(bs, e'). Ok (u32_from_le bs, e'))"

definition write_u32 :: "u32 \<Rightarrow> ventry \<Rightarrow> ventry result" where
  "write_u32 next_index = write_slice (u32_to_le next_index)"

definition read_rc :: "ventry \<Rightarrow> (u32 \<times> ventry) result" where
  "read_rc = read_u32"

definition write_rc :: "u32 \<Rightarrow> ventry \<Rightarrow> ventry result" where
  "write_rc rc = write_slice (u32_to_le rc)"

section \<open>Partial keys (mod key)\<close>

type_synonym key = bytes \<comment> \<open>32 bytes\<close>

definition PARTIAL_SIZE :: nat where [simp]: "PARTIAL_SIZE = 26"
definition KEY_SIZE :: nat where [simp]: "KEY_SIZE = 32"

definition read_partial :: "ventry \<Rightarrow> (bytes \<times> ventry) result" where
  "read_partial = read_slice PARTIAL_SIZE"

definition remaining_to :: "nat \<Rightarrow> ventry \<Rightarrow> bytes result" where
  "remaining_to end_off e =
     (if en_off e \<le> end_off \<and> end_off \<le> length (en_buf e)
      then Ok (subslice (en_off e) (end_off - en_off e) (en_buf e)) else Panic)"

definition partial_key :: "key \<Rightarrow> bytes" where
  "partial_key hash = drop 6 hash"

datatype table_key = Partial key | NoHash

definition encoded_size :: "table_key \<Rightarrow> nat" where
  "encoded_size k = (case k of Partial _ \<Rightarrow> PARTIAL_SIZE | NoHash \<Rightarrow> 0)"

definition index_from_partial :: "bytes \<Rightarrow> u64" where
  "index_from_partial partial = u64_from_be (take 8 partial)"

definition compare_key :: "table_key \<Rightarrow> bytes option \<Rightarrow> bool" where
  "compare_key k fetch =
     (case (k, fetch) of
        (Partial k, Some fetch) \<Rightarrow> partial_key k = fetch
      | (NoHash, _) \<Rightarrow> True
      | _ \<Rightarrow> False)"

definition fetch_partial :: "ventry \<Rightarrow> (bytes \<times> ventry) result" where
  "fetch_partial e = (if en_cap e \<ge> PARTIAL_SIZE then read_partial e else Err InvalidValueData)"

definition fetch_key :: "table_key \<Rightarrow> ventry \<Rightarrow> (bytes option \<times> ventry) result" where
  "fetch_key k e =
     (case k of
        Partial _ \<Rightarrow> and_then (fetch_partial e) (\<lambda>(p, e'). Ok (Some p, e'))
      | NoHash \<Rightarrow> Ok (None, e))"

definition write_key :: "table_key \<Rightarrow> ventry \<Rightarrow> ventry result" where
  "write_key k e = (case k of Partial k \<Rightarrow> write_slice (partial_key k) e | NoHash \<Rightarrow> Ok e)"

datatype table_key_query =
    Check table_key
  | Fetch bool \<comment> \<open>\<open>Fetch(Some(_))\<close>: the caller wants the stored partial key\<close>

section \<open>Lemmas\<close>

lemma header_roundtrip:
  "header_last_removed (header_set_filled (header_set_last_removed header_default r) n) = r"
  "header_filled (header_set_filled (header_set_last_removed header_default r) n) = n"
  "length (header_set_filled (header_set_last_removed header_default r) n) = 16"
  by (simp_all add: header_last_removed_def header_filled_def header_set_last_removed_def
      header_set_filled_def header_default_def subslice_def blit_def)

text \<open>A buffer of capacity \<open>c\<close> into which exactly \<open>bs\<close> has been written.\<close>

definition wbuf :: "nat \<Rightarrow> bytes \<Rightarrow> ventry" where
  "wbuf c bs = \<lparr>en_off = length bs, en_buf = bs, en_cap = c\<rparr>"

lemma wbuf_new: "new_uninit_full_entry = wbuf MAX_ENTRY_BUF_SIZE []" "new_uninit c = wbuf c []"
  by (simp_all add: wbuf_def new_uninit_full_entry_def new_uninit_def)

lemma wbuf_fields [simp]:
  "en_off (wbuf c bs) = length bs" "en_buf (wbuf c bs) = bs" "en_cap (wbuf c bs) = c"
  by (simp_all add: wbuf_def)

lemma write_slice_wbuf [simp]:
  "length bs + length xs \<le> c \<Longrightarrow> write_slice xs (wbuf c bs) = Ok (wbuf c (bs @ xs))"
  by (simp add: wbuf_def write_slice_def blit_at_end)

lemma table_id_roundtrip [simp]:
  "table_id_col (table_id_new c t) = c"
  "table_id_size_tier (table_id_new c t) = t"
  "table_id_new (table_id_col i) (table_id_size_tier i) = i"
proof -
  show "table_id_col (table_id_new c t) = c"
    unfolding table_id_new_def table_id_col_def
    by (rule bit_word_eqI; force simp: bit_simps dest: bit_imp_le_length)
  show "table_id_size_tier (table_id_new c t) = t"
    unfolding table_id_new_def table_id_size_tier_def and_255
    by (rule bit_word_eqI; force simp: bit_simps dest: bit_imp_le_length)
  show "table_id_new (table_id_col i) (table_id_size_tier i) = i"
    unfolding table_id_new_def table_id_col_def table_id_size_tier_def and_255
    by (rule bit_word_eqI; force simp: bit_simps dest: bit_imp_le_length)
qed

subsection \<open>Sizes and markers\<close>

lemma marker_words:
  "u16_to_le 0xffff = TOMBSTONE" "u16_to_le 0xfffe = MULTIPART" "u16_to_le 0xfffd = MULTIHEAD"
  "u16_to_le 0x7ffd = MULTIHEAD_COMPRESSED"
  "u16_to_le 0xfeff = MULTIPART_V4" "u16_to_le 0xfdff = MULTIHEAD_V4"
  by (simp_all add: u16_to_le_def le_bytes_numeral)

lemma size_word_roundtrip:
  assumes "unat (s :: u16) < 0x8000"
  shows "(s OR COMPRESSED_MASK) AND NOT COMPRESSED_MASK = s" "s AND NOT COMPRESSED_MASK = s"
    "(s OR COMPRESSED_MASK) AND COMPRESSED_MASK > 0" "s AND COMPRESSED_MASK = 0"
proof -
  have m: "COMPRESSED_MASK = 2 ^ 15" by simp
  have bm: "bit COMPRESSED_MASK n \<longleftrightarrow> n = 15" for n
    by (simp only: m bit_exp_iff) auto
  have bs: "bit s n \<Longrightarrow> n < 15" for n
    using bit_unat_less [of s 15] assms by simp
  show "(s OR COMPRESSED_MASK) AND NOT COMPRESSED_MASK = s" "s AND NOT COMPRESSED_MASK = s"
    "s AND COMPRESSED_MASK = 0"
    by (rule bit_word_eqI; use bs in
        \<open>force simp: bit_and_iff bit_or_iff bit_not_iff bm simp del: COMPRESSED_MASK_def\<close>)+
  have "bit ((s OR COMPRESSED_MASK) AND COMPRESSED_MASK) 15"
    by (simp add: bit_and_iff bit_or_iff bm del: COMPRESSED_MASK_def)
  then have "(s OR COMPRESSED_MASK) AND COMPRESSED_MASK \<noteq> 0"
    by (metis bit_0_eq bot_apply bot_bool_def)
  then show "(s OR COMPRESSED_MASK) AND COMPRESSED_MASK > 0"
    by (simp add: word_gt_0 del: COMPRESSED_MASK_def)
qed

definition size_word :: "u16 \<Rightarrow> bool \<Rightarrow> u16" where
  "size_word sz compressed = (if compressed then sz OR COMPRESSED_MASK else sz)"

lemma size_word_decode:
  assumes "unat sz < 0x8000"
  shows "size_word sz c AND NOT COMPRESSED_MASK = sz"
    and "size_word sz c AND COMPRESSED_MASK > 0 \<longleftrightarrow> c"
  using size_word_roundtrip [OF assms] by (auto simp: size_word_def simp del: COMPRESSED_MASK_def)

text \<open>
  The size word never looks like a marker: sizes up to \<open>0x7ffc\<close>, with or without the
  compression bit, differ from every marker of the current format.
\<close>

lemma size_word_not_marker:
  assumes "unat sz \<le> 0x7ffc"
  shows "u16_to_le (size_word sz c) \<noteq> TOMBSTONE" "u16_to_le (size_word sz c) \<noteq> MULTIPART"
    "u16_to_le (size_word sz c) \<noteq> MULTIHEAD" "u16_to_le (size_word sz c) \<noteq> MULTIHEAD_COMPRESSED"
proof -
  have dec: "size_word sz c AND NOT COMPRESSED_MASK = sz"
      "size_word sz c AND COMPRESSED_MASK > 0 \<longleftrightarrow> c"
    using size_word_decode [of sz c] assms by auto
  have ne: "size_word sz c \<noteq> w" if "unat (w AND NOT COMPRESSED_MASK) > 0x7ffc" for w
    using that dec(1) assms by auto
  show "u16_to_le (size_word sz c) \<noteq> TOMBSTONE" "u16_to_le (size_word sz c) \<noteq> MULTIPART"
    "u16_to_le (size_word sz c) \<noteq> MULTIHEAD" "u16_to_le (size_word sz c) \<noteq> MULTIHEAD_COMPRESSED"
    unfolding marker_words [symmetric] by (simp_all add: ne)
qed

lemma size_word_not_v4:
  assumes "unat sz \<le> 0x7dfe"
  shows "u16_to_le (size_word sz c) \<noteq> MULTIPART_V4" "u16_to_le (size_word sz c) \<noteq> MULTIHEAD_V4"
proof -
  have "size_word sz c AND NOT COMPRESSED_MASK = sz"
    using size_word_decode [of sz c] assms by auto
  then have ne: "size_word sz c \<noteq> w" if "unat (w AND NOT COMPRESSED_MASK) > 0x7dfe" for w
    using that assms by auto
  show "u16_to_le (size_word sz c) \<noteq> MULTIPART_V4" "u16_to_le (size_word sz c) \<noteq> MULTIHEAD_V4"
    unfolding marker_words [symmetric] by (simp_all add: ne)
qed

end
