(* ===== verification/Log_Overlay.thy ===== *)
theory Log_Overlay
  imports Table_Entry
begin

text \<open>
  The in-memory side of the write-ahead log (src/src/log.rs): the overlays that hold the index
  chunks and value entries of records not yet enacted, the change set of the record being
  written, and the \<open>LogQuery\<close> trait through which tables read both.

  A \<open>HashMap\<close> is an association list. A \<open>LogQuery\<close> implementation is a record of lookup
  functions; \<open>writer_query\<close> and \<open>overlays_query\<close> are the two implementations.
\<close>

type_synonym chunk = bytes \<comment> \<open>512 bytes, 64 index entries\<close>
type_synonym index_overlay = "(u64 \<times> (u64 \<times> u64 \<times> chunk)) list" \<comment> \<open>record id, modified mask, chunk\<close>
type_synonym value_overlay = "(u64 \<times> (u64 \<times> bytes)) list" \<comment> \<open>record id, entry\<close>

record log_overlays =
  lo_index :: "(u16 \<times> index_overlay) list"
  lo_value :: "(u16 \<times> value_overlay) list"
  lo_last_record_id :: "(u8 \<times> u64) list"

definition overlays_default :: log_overlays where
  "overlays_default = \<lparr>lo_index = [], lo_value = [], lo_last_record_id = []\<rparr>"

definition last_record_id :: "log_overlays \<Rightarrow> u8 \<Rightarrow> u64" where
  "last_record_id ov col =
     (case map_of (lo_last_record_id ov) col of Some r \<Rightarrow> r | None \<Rightarrow> 0xffffffffffffffff)"

record log_query =
  lq_index :: "u16 \<Rightarrow> u64 \<Rightarrow> chunk option"
  lq_value :: "u16 \<Rightarrow> u64 \<Rightarrow> bytes option"

definition index_lookup :: "(u16 \<times> index_overlay) list \<Rightarrow> u16 \<Rightarrow> u64 \<Rightarrow> chunk option" where
  "index_lookup m table index =
     Option.bind (map_of m table) (\<lambda>ov. map_option (\<lambda>(_, _, data). data) (map_of ov index))"

definition value_lookup :: "(u16 \<times> value_overlay) list \<Rightarrow> u16 \<Rightarrow> u64 \<Rightarrow> bytes option" where
  "value_lookup m table index =
     Option.bind (map_of m table) (\<lambda>ov. map_option (\<lambda>(_, data). data) (map_of ov index))"

definition overlays_query :: "log_overlays \<Rightarrow> log_query" where
  "overlays_query ov = \<lparr>lq_index = index_lookup (lo_index ov), lq_value = value_lookup (lo_value ov)\<rparr>"

text \<open>
  \<open>value(table, index, dest)\<close> copies as many bytes as fit into \<open>dest\<close>: the initialised prefix
  of the destination is the truncated entry.
\<close>

definition log_value :: "log_query \<Rightarrow> u16 \<Rightarrow> u64 \<Rightarrow> nat \<Rightarrow> bytes option" where
  "log_value lq table index dest_len = map_option (take dest_len) (lq_value lq table index)"

section \<open>The record being written\<close>

record log_change =
  lc_local_index :: "(u16 \<times> index_overlay) list"
  lc_local_values :: "(u16 \<times> value_overlay) list"
  lc_record_id :: u64
  lc_dropped_tables :: "u16 list"

definition log_change_new :: "u64 \<Rightarrow> log_change" where
  "log_change_new record_id =
     \<lparr>lc_local_index = [], lc_local_values = [], lc_record_id = record_id, lc_dropped_tables = []\<rparr>"

definition local_values_changes :: "log_change \<Rightarrow> u16 \<Rightarrow> value_overlay option" where
  "local_values_changes c i = map_of (lc_local_values c) i"

record log_writer =
  lw_overlays :: log_overlays
  lw_log :: log_change

definition log_writer_new :: "log_overlays \<Rightarrow> u64 \<Rightarrow> log_writer" where
  "log_writer_new overlays record_id = \<lparr>lw_overlays = overlays, lw_log = log_change_new record_id\<rparr>"

definition lw_record_id :: "log_writer \<Rightarrow> u64" where
  "lw_record_id w = lc_record_id (lw_log w)"

definition insert_index :: "u16 \<Rightarrow> u64 \<Rightarrow> u8 \<Rightarrow> chunk \<Rightarrow> log_writer \<Rightarrow> log_writer" where
  "insert_index table index sub data w =
     (let m = lc_local_index (lw_log w);
          ov = or_default m table;
          msk = (case map_of ov index of Some (_, msk, _) \<Rightarrow> msk | None \<Rightarrow> 0);
          ov' = AList.update index (lw_record_id w, msk OR push_bit (unat sub) 1, data) ov
      in w\<lparr>lw_log := (lw_log w)\<lparr>lc_local_index := AList.update table ov' m\<rparr>\<rparr>)"

definition insert_value :: "u16 \<Rightarrow> u64 \<Rightarrow> bytes \<Rightarrow> log_writer \<Rightarrow> log_writer" where
  "insert_value table index data w =
     (let m = lc_local_values (lw_log w);
          ov' = AList.update index (lw_record_id w, data) (or_default m table)
      in w\<lparr>lw_log := (lw_log w)\<lparr>lc_local_values := AList.update table ov' m\<rparr>\<rparr>)"

definition drop_table :: "u16 \<Rightarrow> log_writer \<Rightarrow> log_writer" where
  "drop_table i w =
     w\<lparr>lw_log := (lw_log w)\<lparr>lc_dropped_tables := lc_dropped_tables (lw_log w) @ [i]\<rparr>\<rparr>"

definition lw_drain :: "log_writer \<Rightarrow> log_change" where
  "lw_drain w = lw_log w"

definition writer_index :: "log_writer \<Rightarrow> u16 \<Rightarrow> u64 \<Rightarrow> chunk option" where
  "writer_index w table index =
     (case index_lookup (lc_local_index (lw_log w)) table index of
        Some data \<Rightarrow> Some data
      | None \<Rightarrow> lq_index (overlays_query (lw_overlays w)) table index)"

definition writer_value :: "log_writer \<Rightarrow> u16 \<Rightarrow> u64 \<Rightarrow> bytes option" where
  "writer_value w table index =
     (case value_lookup (lc_local_values (lw_log w)) table index of
        Some data \<Rightarrow> Some data
      | None \<Rightarrow> lq_value (overlays_query (lw_overlays w)) table index)"

definition writer_query :: "log_writer \<Rightarrow> log_query" where
  "writer_query w = \<lparr>lq_index = writer_index w, lq_value = writer_value w\<rparr>"

text \<open>The entry of a slot in the record being written.\<close>

definition local_value :: "log_writer \<Rightarrow> u16 \<Rightarrow> u64 \<Rightarrow> bytes option" where
  "local_value w = value_lookup (lc_local_values (lw_log w))"

section \<open>Lookups after insertions\<close>

lemma value_lookup_update:
  "value_lookup (AList.update t (AList.update i (r, d) (or_default m t)) m) t' i' =
     (if t' = t \<and> i' = i then Some d else value_lookup m t' i')"
  by (auto simp: value_lookup_def update_conv or_default_def split: option.splits)

lemma index_lookup_update:
  "index_lookup (AList.update t (AList.update i (r, k, d) (or_default m t)) m) t' i' =
     (if t' = t \<and> i' = i then Some d else index_lookup m t' i')"
  by (auto simp: index_lookup_def update_conv or_default_def split: option.splits)

lemma writer_value_insert_value [simp]:
  "writer_value (insert_value t i d w) t' i' =
     (if t' = t \<and> i' = i then Some d else writer_value w t' i')"
  by (simp add: writer_value_def insert_value_def Let_def value_lookup_update split: option.split)

lemma local_value_insert_value [simp]:
  "local_value (insert_value t i d w) t' i' =
     (if t' = t \<and> i' = i then Some d else local_value w t' i')"
  by (simp add: local_value_def insert_value_def Let_def value_lookup_update)

lemma writer_value_local:
  "writer_value w t i =
     (case local_value w t i of Some d \<Rightarrow> Some d | None \<Rightarrow> value_lookup (lo_value (lw_overlays w)) t i)"
  by (simp add: writer_value_def local_value_def overlays_query_def split: option.split)

lemma writer_index_insert_value [simp]: "writer_index (insert_value t i d w) = writer_index w"
  by (simp add: writer_index_def insert_value_def Let_def fun_eq_iff split: option.split)

lemma writer_index_insert_index [simp]:
  "writer_index (insert_index t i s d w) t' i' =
     (if t' = t \<and> i' = i then Some d else writer_index w t' i')"
  by (simp add: writer_index_def insert_index_def Let_def index_lookup_update split: option.split)

lemma writer_value_insert_index [simp]: "writer_value (insert_index t i s d w) = writer_value w"
  by (simp add: writer_value_def insert_index_def Let_def fun_eq_iff split: option.split)

lemma writer_drop_table [simp]:
  "writer_value (drop_table i w) = writer_value w" "writer_index (drop_table i w) = writer_index w"
  by (simp_all add: drop_table_def writer_value_def writer_index_def fun_eq_iff split: option.split)

lemma insert_frames [simp]:
  "lw_overlays (insert_value t i d w) = lw_overlays w"
  "lw_overlays (insert_index t i s c w) = lw_overlays w"
  "lw_record_id (insert_value t i d w) = lw_record_id w"
  "lw_record_id (insert_index t i s c w) = lw_record_id w"
  "lc_local_index (lw_log (insert_value t i d w)) = lc_local_index (lw_log w)"
  "lc_local_values (lw_log (insert_index t i s c w)) = lc_local_values (lw_log w)"
  "lc_dropped_tables (lw_log (insert_value t i d w)) = lc_dropped_tables (lw_log w)"
  by (simp_all add: insert_value_def insert_index_def Let_def lw_record_id_def)

section \<open>The interface of a log to the tables\<close>

text \<open>
  What a table relies on when it plans changes through a log: a slot that was written is read
  back, all other slots are untouched. \<open>write_all\<close> runs a list of writes; the client lemmas say
  what it leaves behind. The \<open>LogWriter\<close> provides this contract, for values and for chunks.
\<close>

locale slot_log =
  fixes query :: "'w \<Rightarrow> 't \<Rightarrow> 'i \<Rightarrow> 'd option"
    and put :: "'t \<Rightarrow> 'i \<Rightarrow> 'd \<Rightarrow> 'w \<Rightarrow> 'w"
  assumes query_put: "query (put t i d w) t' i' = (if t' = t \<and> i' = i then Some d else query w t' i')"
begin

fun write_all :: "'t \<Rightarrow> ('i \<times> 'd) list \<Rightarrow> 'w \<Rightarrow> 'w" where
  "write_all t [] w = w"
| "write_all t ((i, d) # xs) w = write_all t xs (put t i d w)"

lemma write_all_frame:
  "i \<notin> fst ` set xs \<or> t' \<noteq> t \<Longrightarrow> query (write_all t xs w) t' i = query w t' i"
  by (induction t xs w rule: write_all.induct) (auto simp: query_put)

lemma write_all_lookup:
  "distinct (map fst xs) \<Longrightarrow> (i, d) \<in> set xs \<Longrightarrow> query (write_all t xs w) t i = Some d"
proof (induction t xs w rule: write_all.induct)
  case (2 t j e xs w)
  show ?case
  proof (cases "(i, d) = (j, e)")
    case True
    with "2.prems" have "i \<notin> fst ` set xs" by (auto simp: rev_image_eqI)
    with True show ?thesis by (simp add: write_all_frame query_put)
  qed (use 2 in auto)
qed simp

end

interpretation value_log: slot_log writer_value insert_value
  by unfold_locales simp

interpretation index_log: slot_log writer_index "\<lambda>t i d. insert_index t i 0 d"
  by unfold_locales simp

end
