(* ===== verification/Log_Reader.thy ===== *)
theory Log_Reader
  imports Log_Overlay
begin

text \<open>
  Reading a log file back (src/src/log.rs, \<open>LogReader\<close>): a cursor over the bytes of a log file
  that decodes record headers and hands out the payload bytes. The CRC-32 of the \<open>crc32fast\<close>
  crate is a parameter \<open>crc\<close> of the model: the hasher is the list of bytes fed to it and
  \<open>finalize\<close> applies \<open>crc\<close> to them.
\<close>

definition BEGIN_RECORD :: u8 where [simp]: "BEGIN_RECORD = 1"
definition INSERT_INDEX :: u8 where [simp]: "INSERT_INDEX = 2"
definition INSERT_VALUE :: u8 where [simp]: "INSERT_VALUE = 3"
definition END_RECORD :: u8 where [simp]: "END_RECORD = 4"
definition DROP_TABLE :: u8 where [simp]: "DROP_TABLE = 5"

datatype log_action =
    BeginRecord
  | InsertIndex u16 u64
  | InsertValue u16 u64
  | DropTable u16
  | EndRecord

record cleared =
  cl_index :: "(u16 \<times> u64) list"
  cl_values :: "(u16 \<times> u64) list"

record log_reader =
  lr_file :: bytes
  lr_pos :: nat
  lr_record_id :: u64
  lr_read_bytes :: nat
  lr_crc32 :: bytes
  lr_validate :: bool
  lr_cleared :: cleared

definition log_reader_new :: "bytes \<Rightarrow> nat \<Rightarrow> bool \<Rightarrow> log_reader" where
  "log_reader_new file pos validate =
     \<lparr>lr_file = file, lr_pos = pos, lr_record_id = 0, lr_read_bytes = 0, lr_crc32 = [],
      lr_validate = validate, lr_cleared = \<lparr>cl_index = [], cl_values = []\<rparr>\<rparr>"

definition lr_reset :: "log_reader \<Rightarrow> log_reader" where
  "lr_reset r =
     r\<lparr>lr_cleared := \<lparr>cl_index = [], cl_values = []\<rparr>, lr_pos := lr_pos r - lr_read_bytes r,
       lr_read_bytes := 0, lr_record_id := 0, lr_crc32 := []\<rparr>"

definition read_exact :: "log_reader \<Rightarrow> nat \<Rightarrow> (bytes \<times> log_reader) result" where
  "read_exact r n =
     (if lr_pos r + n \<le> length (lr_file r)
      then Ok (subslice (lr_pos r) n (lr_file r),
               r\<lparr>lr_pos := lr_pos r + n, lr_read_bytes := lr_read_bytes r + n\<rparr>)
      else Err (Io UnexpectedEof))"

text \<open>\<open>LogReader::read\<close> and the local \<open>read_buf\<close> of \<open>next\<close>: read and, when validating, hash.\<close>

definition log_read :: "log_reader \<Rightarrow> nat \<Rightarrow> (bytes \<times> log_reader) result" where
  "log_read r n =
     and_then (read_exact r n) (\<lambda>(bs, r').
       Ok (bs, if lr_validate r' then r'\<lparr>lr_crc32 := lr_crc32 r' @ bs\<rparr> else r'))"

definition log_next :: "(bytes \<Rightarrow> u32) \<Rightarrow> log_reader \<Rightarrow> (log_action \<times> log_reader) result" where
  "log_next crc r =
     and_then (log_read r 1) (\<lambda>(buf, r).
     let tag = hd buf in
     if tag = BEGIN_RECORD then
       and_then (log_read r 8) (\<lambda>(buf, r). Ok (BeginRecord, r\<lparr>lr_record_id := u64_from_le buf\<rparr>))
     else if tag = INSERT_INDEX then
       and_then (log_read r 2) (\<lambda>(tbuf, r).
       and_then (log_read r 8) (\<lambda>(ibuf, r).
         let table = u16_from_le tbuf; index = u64_from_le ibuf;
             c = lr_cleared r
         in Ok (InsertIndex table index,
                r\<lparr>lr_cleared := c\<lparr>cl_index := cl_index c @ [(table, index)]\<rparr>\<rparr>)))
     else if tag = INSERT_VALUE then
       and_then (log_read r 2) (\<lambda>(tbuf, r).
       and_then (log_read r 8) (\<lambda>(ibuf, r).
         let table = u16_from_le tbuf; index = u64_from_le ibuf;
             c = lr_cleared r
         in Ok (InsertValue table index,
                r\<lparr>lr_cleared := c\<lparr>cl_values := cl_values c @ [(table, index)]\<rparr>\<rparr>)))
     else if tag = END_RECORD then
       and_then (read_exact r 4) (\<lambda>(buf, r).
         if lr_validate r then
           (if u32_from_le buf \<noteq> crc (lr_crc32 r)
            then Err (Corruption ''Log record CRC-32 mismatch'')
            else Ok (EndRecord, r\<lparr>lr_crc32 := []\<rparr>))
         else Ok (EndRecord, r))
     else if tag = DROP_TABLE then
       and_then (log_read r 2) (\<lambda>(buf, r). Ok (DropTable (u16_from_le buf), r))
     else Err (Corruption ''Bad log entry type''))"

definition lr_drain :: "log_reader \<Rightarrow> cleared" where
  "lr_drain r = lr_cleared r"

section \<open>Reading what was written\<close>

text \<open>
  \<open>at_bytes r bs\<close>: the unread part of the log file starts with \<open>bs\<close>. \<open>advance\<close> is the effect of
  reading \<open>n\<close> payload bytes.
\<close>

definition at_bytes :: "log_reader \<Rightarrow> bytes \<Rightarrow> bool" where
  "at_bytes r bs \<longleftrightarrow> (\<exists>post. drop (lr_pos r) (lr_file r) = bs @ post) \<and> lr_pos r \<le> length (lr_file r)"

definition advance :: "bytes \<Rightarrow> log_reader \<Rightarrow> log_reader" where
  "advance bs r =
     r\<lparr>lr_pos := lr_pos r + length bs, lr_read_bytes := lr_read_bytes r + length bs,
       lr_crc32 := (if lr_validate r then lr_crc32 r @ bs else lr_crc32 r)\<rparr>"

lemma advance_advance [simp]: "advance ys (advance xs r) = advance (xs @ ys) r"
  by (simp add: advance_def)

lemma advance_fields [simp]:
  "lr_file (advance bs r) = lr_file r" "lr_validate (advance bs r) = lr_validate r"
  "lr_record_id (advance bs r) = lr_record_id r" "lr_cleared (advance bs r) = lr_cleared r"
  "lr_read_bytes (advance bs r) = lr_read_bytes r + length bs"
  "lr_pos (advance bs r) = lr_pos r + length bs"
  by (simp_all add: advance_def)

lemma at_bytes_length: "at_bytes r bs \<Longrightarrow> lr_pos r + length bs \<le> length (lr_file r)"
  unfolding at_bytes_def by (metis (no_types, lifting) add.commute le_diff_conv length_append
      length_drop le_add1 Nat.le_diff_conv2)

lemma log_read_at:
  assumes "at_bytes r (bs @ rest)" "n = length bs"
  shows "log_read r n = Ok (bs, advance bs r)"
    and "at_bytes (advance bs r) rest"
proof -
  from assms(1) obtain post where d: "drop (lr_pos r) (lr_file r) = bs @ rest @ post"
    by (auto simp: at_bytes_def)
  have len: "lr_pos r + length bs \<le> length (lr_file r)"
    using at_bytes_length [OF assms(1)] by simp
  then have "subslice (lr_pos r) n (lr_file r) = bs"
    using d assms(2) by (simp add: subslice_def)
  then show "log_read r n = Ok (bs, advance bs r)"
    using len assms(2) by (simp add: log_read_def read_exact_def advance_def)
  have "drop (lr_pos r + length bs) (lr_file r) = rest @ post"
    using d by (metis add.commute append_eq_conv_conj drop_drop)
  then show "at_bytes (advance bs r) rest"
    using len by (auto simp: at_bytes_def)
qed

lemma log_read_eof:
  "length (lr_file r) < lr_pos r + n \<Longrightarrow> log_read r n = Err (Io UnexpectedEof)"
  by (simp add: log_read_def read_exact_def)

lemma at_bytes_append: "at_bytes r (xs @ ys) \<Longrightarrow> at_bytes r xs"
  by (auto simp: at_bytes_def)

text \<open>Reads never move outside the file and never touch it.\<close>

lemma log_read_frame:
  assumes "log_read r n = Ok (bs, r')"
  shows "lr_file r' = lr_file r" "lr_pos r' = lr_pos r + n" "length bs = n"
    "lr_validate r' = lr_validate r" "lr_read_bytes r' = lr_read_bytes r + n"
  using assms by (auto simp: log_read_def read_exact_def result_simps split: if_splits)

end
