(* ===== verification/Value_Table.thy ===== *)
theory Value_Table
  imports Table_File Log_Reader
begin

text \<open>
  Value tables (src/src/table.rs, \<open>impl ValueTable\<close>): a file of fixed-size slots, a free list
  threaded through the removed slots, and chains of slots for values that do not fit into one.
  Every operation that plans a change writes slots into the log record of the caller
  (\<open>log_writer\<close>); \<open>enact_plan\<close> moves a logged slot into the file.

  The atomics of the struct are fields of \<open>value_table\<close>; an operation returns the table with
  the fields it stored. Loops over chains are \<open>loop_r\<close>, so that a chain that runs in a circle is
  \<open>Diverge\<close>. After an error the caller drops the log record and the database stops accepting
  work, so an error carries no state.
\<close>

section \<open>State\<close>

record value_table =
  vt_id :: u16
  vt_entry_size :: u16
  vt_file :: table_file
  vt_filled :: u64
  vt_last_removed :: u64
  vt_dirty_header :: bool
  vt_multipart :: bool
  vt_ref_counted :: bool
  vt_db_version :: u32

abbreviation es :: "value_table \<Rightarrow> nat" where
  "es vt \<equiv> unat (vt_entry_size vt)"

definition slot_offset :: "value_table \<Rightarrow> u64 \<Rightarrow> nat" where
  "slot_offset vt index = unat (index * ucast (vt_entry_size vt))"

definition ref_size :: "value_table \<Rightarrow> nat" where
  "ref_size vt = (if vt_ref_counted vt then REFS_SIZE else 0)"

definition vt_open :: "bytes option \<Rightarrow> u16 \<Rightarrow> u16 option \<Rightarrow> bool \<Rightarrow> u32 \<Rightarrow> value_table result" where
  "vt_open disk i entry_size ref_counted db_version =
     (let (multipart, entry_size) =
        (case entry_size of Some s \<Rightarrow> (False, s) | None \<Rightarrow> (True, MULTIPART_ENTRY_SIZE)) in
      and_then (assert_r (unat entry_size \<ge> MIN_ENTRY_SIZE)) (\<lambda>_.
      and_then (assert_r (unat entry_size \<le> MAX_ENTRY_SIZE)) (\<lambda>_.
      let file = tf_open disk entry_size in
      and_then
        (case tf_file file of
           None \<Rightarrow> Ok (1, 0)
         | Some _ \<Rightarrow>
             and_then (read_at file 16 0) (\<lambda>header.
             let last_removed = header_last_removed header;
                 filled = (if header_filled header = 0 then 1 else header_filled header)
             in if last_removed \<ge> filled then Err (Corruption ''Bad removed ref'')
                else Ok (filled, last_removed)))
        (\<lambda>(filled, last_removed).
           Ok \<lparr>vt_id = i, vt_entry_size = entry_size, vt_file = file, vt_filled = filled,
               vt_last_removed = last_removed, vt_dirty_header = False,
               vt_multipart = multipart, vt_ref_counted = ref_counted,
               vt_db_version = db_version\<rparr>))))"

definition value_size :: "value_table \<Rightarrow> table_key \<Rightarrow> nat option" where
  "value_size vt k =
     (let base = es vt - SIZE_SIZE - ref_size vt; k_encoded = encoded_size k
      in if base < k_encoded then None else Some (base - k_encoded))"

section \<open>Reading\<close>

text \<open>
  The overlay entry if there is one, else the slot of the file, into a buffer of capacity \<open>cap\<close>;
  \<open>flen\<close> bytes are read from the file.
\<close>

definition load_slot :: "value_table \<Rightarrow> log_query \<Rightarrow> u64 \<Rightarrow> nat \<Rightarrow> nat \<Rightarrow> ventry result" where
  "load_slot vt lq index cap flen =
     (case log_value lq (vt_id vt) index cap of
        Some d \<Rightarrow> Ok \<lparr>en_off = 0, en_buf = d, en_cap = cap\<rparr>
      | None \<Rightarrow>
          and_then (read_at (vt_file vt) flen (slot_offset vt index)) (\<lambda>d.
            Ok \<lparr>en_off = 0, en_buf = d, en_cap = cap\<rparr>))"

definition part_extent :: "value_table \<Rightarrow> nat \<Rightarrow> bool \<Rightarrow> ventry \<Rightarrow> (nat \<times> u64 \<times> bool \<times> ventry) result" where
  "part_extent vt part compressed buf =
     and_then (if vt_multipart vt then is_multi (vt_db_version vt) buf else Ok False) (\<lambda>multi.
     if multi then
       and_then (if part = 0 \<and> vt_db_version vt > 6 then is_multihead_compressed buf else Ok False) (\<lambda>c.
       and_then (read_next (skip_size buf)) (\<lambda>(nxt, buf).
         Ok (es vt, nxt, (if c then True else compressed), buf)))
     else
       and_then (read_size buf) (\<lambda>((sz, read_compressed), buf).
         Ok (en_off buf + unat sz, 0,
             (if part = 0 \<or> vt_db_version vt \<le> 6 then read_compressed else compressed), buf)))"

definition part_head ::
    "value_table \<Rightarrow> table_key_query \<Rightarrow> ventry \<Rightarrow> (u32 \<times> bytes option \<times> bool \<times> ventry) result" where
  "part_head vt q buf =
     and_then (if vt_ref_counted vt then read_rc buf else Ok (1, buf)) (\<lambda>(rc, buf).
     case q of
       Fetch True \<Rightarrow> and_then (fetch_partial buf) (\<lambda>(p, buf). Ok (rc, Some p, True, buf))
     | Fetch False \<Rightarrow> Ok (rc, None, True, buf)
     | Check k \<Rightarrow> and_then (fetch_key k buf) (\<lambda>(to_fetch, buf).
                   Ok (rc, None, compare_key k to_fetch, buf)))"

type_synonym 'a parts_state = "u64 \<times> nat \<times> bool \<times> u32 \<times> bytes option \<times> 'a"
type_synonym 'a parts_result = "u32 \<times> bool \<times> bytes option \<times> 'a"

definition for_parts_body ::
    "value_table \<Rightarrow> table_key_query \<Rightarrow> log_query \<Rightarrow> ('a \<Rightarrow> bytes \<Rightarrow> 'a \<times> bool) \<Rightarrow> 'a parts_state
       \<Rightarrow> ('a parts_state + 'a parts_result) result" where
  "for_parts_body vt q lq f = (\<lambda>(index, part, compressed, rc, fetched, acc).
     and_then (load_slot vt lq index MAX_ENTRY_BUF_SIZE (es vt)) (\<lambda>buf.
     and_then (is_tombstone buf) (\<lambda>tombstone.
     if tombstone then Ok (Inr (0, False, fetched, acc)) else
     and_then (if vt_multipart vt \<and> part = 0 then is_multihead buf else Ok True) (\<lambda>hd_ok.
     if \<not> hd_ok then Ok (Inr (0, False, fetched, acc)) else
     and_then (part_extent vt part compressed buf) (\<lambda>(entry_end, nxt, compressed, buf).
     and_then (if part = 0 then part_head vt q buf else Ok (rc, fetched, True, buf))
       (\<lambda>(rc, fetched, matches, buf).
     if \<not> matches then Ok (Inr (0, False, fetched, acc)) else
     if en_off buf > entry_end then Err (Corruption ''Unexpected entry size'') else
     and_then (remaining_to entry_end buf) (\<lambda>data.
     let (acc, go) = f acc data in
     if \<not> go \<or> nxt = 0 then Ok (Inr (rc, compressed, fetched, acc))
     else Ok (Inl (nxt, part + 1, compressed, rc, fetched, acc)))))))))"

definition for_parts ::
    "value_table \<Rightarrow> table_key_query \<Rightarrow> u64 \<Rightarrow> log_query \<Rightarrow> ('a \<Rightarrow> bytes \<Rightarrow> 'a \<times> bool) \<Rightarrow> 'a
       \<Rightarrow> 'a parts_result result" where
  "for_parts vt q index lq f acc =
     loop_r (for_parts_body vt q lq f) (index, 0, False, 1, None, acc)"

definition vt_query ::
    "value_table \<Rightarrow> table_key_query \<Rightarrow> u64 \<Rightarrow> log_query
       \<Rightarrow> (bytes \<times> bool \<times> u32 \<times> bytes option) option result" where
  "vt_query vt q index lq =
     and_then (for_parts vt q index lq (\<lambda>acc buf. (acc @ buf, True)) [])
       (\<lambda>(rc, compressed, fetched, acc).
          Ok (if rc > 0 then Some (acc, compressed, rc, fetched) else None))"

definition vt_get :: "value_table \<Rightarrow> table_key \<Rightarrow> u64 \<Rightarrow> log_query \<Rightarrow> (bytes \<times> bool) option result" where
  "vt_get vt k index lq =
     and_then (vt_query vt (Check k) index lq) (\<lambda>r.
       Ok (map_option (\<lambda>(v, compressed, _, _). (v, compressed)) r))"

definition dump_entry :: "value_table \<Rightarrow> u64 \<Rightarrow> bytes result" where
  "dump_entry vt index = read_at (vt_file vt) (es vt) (slot_offset vt index)"

definition get_with_meta ::
    "value_table \<Rightarrow> u64 \<Rightarrow> log_query \<Rightarrow> (bytes \<times> u32 \<times> bytes \<times> bool) option result" where
  "get_with_meta vt index lq =
     and_then (vt_query vt (Fetch True) index lq) (\<lambda>r.
       Ok (map_option (\<lambda>(v, compressed, rc, fetched).
             (v, rc, (case fetched of Some p \<Rightarrow> p | None \<Rightarrow> replicate PARTIAL_SIZE 0), compressed)) r))"

definition vt_size :: "value_table \<Rightarrow> table_key \<Rightarrow> u64 \<Rightarrow> log_query \<Rightarrow> (u32 \<times> bool) option result" where
  "vt_size vt k index lq =
     and_then (for_parts vt (Check k) index lq (\<lambda>acc buf. (acc + word_of_nat (length buf), True)) 0)
       (\<lambda>(rc, compressed, _, acc). Ok (if rc > 0 then Some (acc, compressed) else None))"

definition partial_key_at :: "value_table \<Rightarrow> u64 \<Rightarrow> log_query \<Rightarrow> bytes option result" where
  "partial_key_at vt index lq =
     and_then (for_parts vt (Fetch True) index lq (\<lambda>acc buf. (acc, False)) ())
       (\<lambda>(rc, _, fetched, _).
          Ok (if rc = 0 then None
              else Some (case fetched of Some p \<Rightarrow> p | None \<Rightarrow> replicate PARTIAL_SIZE 0)))"

definition is_tombstone_at :: "value_table \<Rightarrow> u64 \<Rightarrow> log_query \<Rightarrow> bool result" where
  "is_tombstone_at vt index lq = and_then (load_slot vt lq index 40 40) is_tombstone"

definition has_key_at :: "value_table \<Rightarrow> u64 \<Rightarrow> table_key \<Rightarrow> log_query \<Rightarrow> bool result" where
  "has_key_at vt index k lq =
     (case k of
        Partial k \<Rightarrow>
          and_then (partial_key_at vt index lq) (\<lambda>p.
            Ok (case p of Some existing_key \<Rightarrow> existing_key = partial_key k | None \<Rightarrow> False))
      | NoHash \<Rightarrow> and_then (is_tombstone_at vt index lq) (\<lambda>t. Ok (\<not> t)))"

definition read_next_free :: "value_table \<Rightarrow> u64 \<Rightarrow> log_query \<Rightarrow> u64 result" where
  "read_next_free vt index lq =
     and_then (load_slot vt lq index 10 10) (\<lambda>buf.
     and_then (read_next (skip_size buf)) (\<lambda>(nxt, _).
       if nxt \<ge> vt_filled vt then Err (Corruption ''Bad removed ref'') else Ok nxt))"

definition read_next_part :: "value_table \<Rightarrow> u64 \<Rightarrow> log_query \<Rightarrow> u64 option result" where
  "read_next_part vt index lq =
     and_then (load_slot vt lq index 10 10) (\<lambda>buf.
     and_then (if vt_multipart vt then is_multi (vt_db_version vt) buf else Ok False) (\<lambda>multi.
     if multi then and_then (read_next (skip_size buf)) (\<lambda>(nxt, _). Ok (Some nxt))
     else Ok None))"

section \<open>Planning changes\<close>

definition next_free :: "value_table \<Rightarrow> log_writer \<Rightarrow> (u64 \<times> value_table) result" where
  "next_free vt w =
     (if vt_last_removed vt \<noteq> 0 then
        and_then (read_next_free vt (vt_last_removed vt) (writer_query w)) (\<lambda>next_removed.
          Ok (vt_last_removed vt, vt\<lparr>vt_last_removed := next_removed, vt_dirty_header := True\<rparr>))
      else Ok (vt_filled vt, vt\<lparr>vt_filled := vt_filled vt + 1, vt_dirty_header := True\<rparr>))"

definition clear_slot :: "value_table \<Rightarrow> u64 \<Rightarrow> log_writer \<Rightarrow> (value_table \<times> log_writer) result" where
  "clear_slot vt index w =
     and_then (write_tombstone (new_uninit 10)) (\<lambda>buf.
     and_then (write_next (vt_last_removed vt) buf) (\<lambda>buf.
       Ok (vt\<lparr>vt_last_removed := index, vt_dirty_header := True\<rparr>,
           insert_value (vt_id vt) index (take (en_off buf) (en_buf buf)) w)))"

definition clear_chain_body ::
    "u64 \<times> value_table \<times> log_writer
       \<Rightarrow> ((u64 \<times> value_table \<times> log_writer) + (value_table \<times> log_writer)) result" where
  "clear_chain_body = (\<lambda>(index, vt, w).
     and_then (read_next_part vt index (writer_query w)) (\<lambda>n.
     and_then (clear_slot vt index w) (\<lambda>(vt, w).
     case n of Some nxt \<Rightarrow> Ok (Inl (nxt, vt, w)) | None \<Rightarrow> Ok (Inr (vt, w)))))"

definition clear_chain :: "value_table \<Rightarrow> u64 \<Rightarrow> log_writer \<Rightarrow> (value_table \<times> log_writer) result" where
  "clear_chain vt index w = loop_r clear_chain_body (index, vt, w)"

type_synonym chain_state = "nat \<times> nat \<times> u64 \<times> u64 \<times> bool \<times> value_table \<times> log_writer"

definition overwrite_chain_body ::
    "table_key \<Rightarrow> bytes \<Rightarrow> bool \<Rightarrow> chain_state
       \<Rightarrow> (chain_state + (u64 \<times> value_table \<times> log_writer)) result" where
  "overwrite_chain_body k val compressed = (\<lambda>(remainder, offset, start, index, follow, vt, w).
     and_then (if follow then read_next_part vt index (writer_query w) else Ok None) (\<lambda>link.
     let (next_index, follow) = (case link of Some nxt \<Rightarrow> (nxt, follow) | None \<Rightarrow> (0, False));
         buf = new_uninit_full_entry;
         free_space = es vt - SIZE_SIZE
     in
     and_then
       (if remainder > free_space then
          and_then (if \<not> follow then next_free vt w else Ok (next_index, vt)) (\<lambda>(next_index, vt).
          and_then (if start = 0 then (if compressed then write_multihead_compressed buf
                                       else write_multihead buf)
                    else write_multipart buf) (\<lambda>buf.
          and_then (write_next next_index buf) (\<lambda>buf.
            Ok (free_space - INDEX_SIZE, next_index, vt, buf))))
        else
          and_then (write_size (word_of_nat remainder) compressed buf) (\<lambda>buf.
            Ok (remainder, next_index, vt, buf)))
       (\<lambda>(value_len, next_index, vt, buf).
     let init_offset = en_off buf in
     and_then (if offset = 0
               then and_then (if vt_ref_counted vt then write_rc 1 buf else Ok buf) (write_key k)
               else Ok buf) (\<lambda>buf.
     let header_len = en_off buf - init_offset; n = value_len - header_len in
     and_then (assert_r (header_len \<le> value_len \<and> offset + n \<le> length val)) (\<lambda>_.
     and_then (write_slice (subslice offset n val) buf) (\<lambda>buf.
     let offset = offset + n;
         w = insert_value (vt_id vt) index (take (en_off buf) (en_buf buf)) w;
         remainder = remainder - value_len;
         start = (if start = 0 then index else start)
     in if remainder = 0 then
          (if next_index \<noteq> 0
           then and_then (clear_chain vt next_index w) (\<lambda>(vt, w). Ok (Inr (start, vt, w)))
           else Ok (Inr (start, vt, w)))
        else Ok (Inl (remainder, offset, start, next_index, follow, vt, w))))))))"

definition overwrite_chain ::
    "value_table \<Rightarrow> table_key \<Rightarrow> bytes \<Rightarrow> log_writer \<Rightarrow> u64 option \<Rightarrow> bool
       \<Rightarrow> (u64 \<times> value_table \<times> log_writer) result" where
  "overwrite_chain vt k val w at compressed =
     and_then (assert_r (vt_multipart vt \<or>
                 (case value_size vt k of Some s \<Rightarrow> length val \<le> s | None \<Rightarrow> False))) (\<lambda>_.
     and_then (case at of Some index \<Rightarrow> Ok (index, True, vt)
                        | None \<Rightarrow> and_then (next_free vt w) (\<lambda>(index, vt). Ok (index, False, vt)))
       (\<lambda>(index, follow, vt).
          loop_r (overwrite_chain_body k val compressed)
            (length val + ref_size vt + encoded_size k, 0, 0, index, follow, vt, w)))"

definition write_insert_plan ::
    "value_table \<Rightarrow> table_key \<Rightarrow> bytes \<Rightarrow> log_writer \<Rightarrow> bool
       \<Rightarrow> (u64 \<times> value_table \<times> log_writer) result" where
  "write_insert_plan vt k val w compressed = overwrite_chain vt k val w None compressed"

definition write_replace_plan ::
    "value_table \<Rightarrow> u64 \<Rightarrow> table_key \<Rightarrow> bytes \<Rightarrow> log_writer \<Rightarrow> bool
       \<Rightarrow> (value_table \<times> log_writer) result" where
  "write_replace_plan vt index k val w compressed =
     and_then (overwrite_chain vt k val w (Some index) compressed) (\<lambda>(_, vt, w). Ok (vt, w))"

definition write_remove_plan :: "value_table \<Rightarrow> u64 \<Rightarrow> log_writer \<Rightarrow> (value_table \<times> log_writer) result" where
  "write_remove_plan vt index w =
     (if vt_multipart vt then clear_chain vt index w else clear_slot vt index w)"

definition change_counter :: "u32 \<Rightarrow> int \<Rightarrow> u32 option" where
  "change_counter counter delta =
     (if delta > 0 then
        Some (if counter \<ge> LOCKED_REF - word_of_int delta then LOCKED_REF
              else counter + word_of_int delta)
      else if counter \<noteq> LOCKED_REF then
        (let c = (if counter < word_of_int (- delta) then 0 else counter - word_of_int (- delta))
         in if c = 0 then None else Some c)
      else Some counter)"

definition change_ref :: "value_table \<Rightarrow> u64 \<Rightarrow> int \<Rightarrow> log_writer \<Rightarrow> (bool \<times> log_writer) result" where
  "change_ref vt index delta w =
     and_then (load_slot vt (writer_query w) index MAX_ENTRY_BUF_SIZE (es vt)) (\<lambda>buf.
     and_then (is_tombstone buf) (\<lambda>tombstone.
     if tombstone then Ok (False, w) else
     and_then (if vt_multipart vt then is_multi (vt_db_version vt) buf else Ok False) (\<lambda>multi.
     and_then (if multi then Ok (es vt, skip_next (skip_size buf))
               else and_then (read_size buf) (\<lambda>((sz, _), buf). Ok (en_off buf + unat sz, buf)))
       (\<lambda>(sz, buf).
     let rc_offset = en_off buf in
     and_then (read_rc buf) (\<lambda>(counter, buf).
     case change_counter counter delta of
       None \<Rightarrow> Ok (False, w)
     | Some counter \<Rightarrow>
         and_then (write_rc counter (set_offset rc_offset buf)) (\<lambda>buf.
         and_then (assert_r (sz \<le> length (en_buf buf))) (\<lambda>_.
           Ok (True, insert_value (vt_id vt) index (take sz (en_buf buf)) w))))))))"

definition write_inc_ref :: "value_table \<Rightarrow> u64 \<Rightarrow> log_writer \<Rightarrow> log_writer result" where
  "write_inc_ref vt index w = and_then (change_ref vt index 1 w) (\<lambda>(_, w). Ok w)"

definition write_dec_ref ::
    "value_table \<Rightarrow> u64 \<Rightarrow> log_writer \<Rightarrow> (bool \<times> value_table \<times> log_writer) result" where
  "write_dec_ref vt index w =
     and_then (change_ref vt index (- 1) w) (\<lambda>(changed, w).
     if changed then Ok (True, vt, w)
     else and_then (write_remove_plan vt index w) (\<lambda>(vt, w). Ok (False, vt, w)))"

definition complete_plan :: "value_table \<Rightarrow> log_writer \<Rightarrow> value_table \<times> log_writer" where
  "complete_plan vt w =
     (if vt_dirty_header vt then
        (let buf = header_set_filled (header_set_last_removed header_default (vt_last_removed vt))
                     (vt_filled vt)
         in (vt\<lparr>vt_dirty_header := False\<rparr>, insert_value (vt_id vt) 0 buf w))
      else (vt, w))"

section \<open>Enacting\<close>

definition grow_to :: "value_table \<Rightarrow> u64 \<Rightarrow> value_table result" where
  "grow_to vt index =
     loop_r (\<lambda>vt. if index \<ge> tf_capacity (vt_file vt)
                  then Ok (Inl (vt\<lparr>vt_file := grow (vt_file vt) (vt_entry_size vt)\<rparr>))
                  else Ok (Inr vt)) vt"

definition write_slot :: "value_table \<Rightarrow> bytes \<Rightarrow> u64 \<Rightarrow> value_table result" where
  "write_slot vt buf index =
     and_then (write_at (vt_file vt) buf (slot_offset vt index)) (\<lambda>f. Ok (vt\<lparr>vt_file := f\<rparr>))"

text \<open>The logged bytes of a slot are self-delimiting: how many bytes follow the first two.\<close>

definition slot_tail_len :: "value_table \<Rightarrow> bytes \<Rightarrow> nat result" where
  "slot_tail_len vt head =
     and_then (is_tombstone (entry_new head)) (\<lambda>tombstone.
     if tombstone then Ok INDEX_SIZE else
     and_then (if vt_multipart vt then is_multi (vt_db_version vt) (entry_new head) else Ok False) (\<lambda>multi.
     if multi then Ok (es vt - SIZE_SIZE)
     else and_then (read_size (entry_new head)) (\<lambda>((len, _), _).
          and_then (assert_r (SIZE_SIZE + unat len \<le> MAX_ENTRY_BUF_SIZE)) (\<lambda>_. Ok (unat len)))))"

definition vt_enact_plan ::
    "value_table \<Rightarrow> u64 \<Rightarrow> log_reader \<Rightarrow> (value_table \<times> log_reader) result" where
  "vt_enact_plan vt index r =
     and_then (grow_to vt index) (\<lambda>vt.
     if index = 0 then
       and_then (log_read r 16) (\<lambda>(header, r).
       and_then (write_at (vt_file vt) header 0) (\<lambda>f. Ok (vt\<lparr>vt_file := f\<rparr>, r)))
     else
       and_then (log_read r SIZE_SIZE) (\<lambda>(head, r).
       and_then (slot_tail_len vt head) (\<lambda>n.
       and_then (log_read r n) (\<lambda>(tail, r).
       and_then (write_slot vt (head @ tail) index) (\<lambda>vt. Ok (vt, r))))))"

definition vt_validate_plan :: "value_table \<Rightarrow> u64 \<Rightarrow> log_reader \<Rightarrow> log_reader result" where
  "vt_validate_plan vt index r =
     (if index = 0 then and_then (log_read r 16) (\<lambda>(header, r). Ok r)
      else
        and_then (log_read r SIZE_SIZE) (\<lambda>(head, r).
        and_then (slot_tail_len vt head) (\<lambda>n.
        and_then (log_read r n) (\<lambda>(tail, r). Ok r))))"

definition refresh_metadata :: "value_table \<Rightarrow> value_table result" where
  "refresh_metadata vt =
     (case tf_file (vt_file vt) of
        None \<Rightarrow> Ok vt
      | Some _ \<Rightarrow>
          and_then (read_at (vt_file vt) 16 0) (\<lambda>header.
          let filled = (if header_filled header = 0 then 1 else header_filled header)
          in Ok (vt\<lparr>vt_last_removed := header_last_removed header, vt_filled := filled\<rparr>)))"

section \<open>Whole-table operations\<close>

definition iter_while_body ::
    "value_table \<Rightarrow> log_query \<Rightarrow> ('s \<Rightarrow> u64 \<Rightarrow> u32 \<Rightarrow> bytes \<Rightarrow> bool \<Rightarrow> 's \<times> bool) \<Rightarrow> u64 \<times> 's
       \<Rightarrow> ((u64 \<times> 's) + 's) result" where
  "iter_while_body vt lq f = (\<lambda>(index, s).
     if \<not> index < vt_filled vt then Ok (Inr s) else
     case for_parts vt (Fetch True) index lq (\<lambda>acc buf. (acc @ buf, True)) [] of
       Ok (rc, compressed, _, res) \<Rightarrow>
         (if rc > 0 then
            (let (s, go) = f s index rc res compressed
             in if go then Ok (Inl (index + 1, s)) else Ok (Inr s))
          else Ok (Inl (index + 1, s)))
     | Err InvalidValueData \<Rightarrow> Ok (Inl (index + 1, s))
     | Err e \<Rightarrow> Err e
     | Panic \<Rightarrow> Panic
     | Diverge \<Rightarrow> Diverge)"

definition iter_while ::
    "value_table \<Rightarrow> log_query \<Rightarrow> ('s \<Rightarrow> u64 \<Rightarrow> u32 \<Rightarrow> bytes \<Rightarrow> bool \<Rightarrow> 's \<times> bool) \<Rightarrow> 's \<Rightarrow> 's result" where
  "iter_while vt lq f s = loop_r (iter_while_body vt lq f) (1, s)"

definition is_init :: "value_table \<Rightarrow> bool" where
  "is_init vt = (tf_file (vt_file vt) \<noteq> None)"

definition write_changes :: "value_overlay \<Rightarrow> value_table \<Rightarrow> value_table result" where
  "write_changes change vt =
     foldl (\<lambda>r (at, (_, entry)). and_then r (\<lambda>vt. write_slot vt entry at)) (Ok vt) change"

definition do_init_with_entry :: "value_table \<Rightarrow> bytes \<Rightarrow> value_table result" where
  "do_init_with_entry vt entry =
     (let vt = vt\<lparr>vt_file := grow (vt_file vt) (vt_entry_size vt)\<rparr>;
          log = log_writer_new overlays_default 0
      in and_then (overwrite_chain vt NoHash entry log None False) (\<lambda>(at, vt, log).
         let (vt, log) = complete_plan vt log in
         and_then (assert_r (at = 1)) (\<lambda>_.
         case local_values_changes (lw_drain log) (vt_id vt) of
           None \<Rightarrow> Panic
         | Some change \<Rightarrow> write_changes change vt)))"

definition init_with_entry :: "value_table \<Rightarrow> bytes \<Rightarrow> value_table result \<times> value_table" where
  "init_with_entry vt entry =
     (case do_init_with_entry vt entry of
        Err e \<Rightarrow> (Err e, vt\<lparr>vt_file := tf_remove (grow (vt_file vt) (vt_entry_size vt))\<rparr>)
      | Ok vt' \<Rightarrow> (Ok vt', vt')
      | r \<Rightarrow> (r, vt))"

definition check_free_refs_body :: "value_table \<Rightarrow> u64 \<times> nat \<Rightarrow> ((u64 \<times> nat) + nat) result" where
  "check_free_refs_body vt = (\<lambda>(nxt, len).
     if nxt = 0 then Ok (Inr len)
     else if nxt \<ge> vt_filled vt then Err (Corruption ''Bad removed ref'')
     else
       and_then (read_at (vt_file vt) 10 (slot_offset vt nxt)) (\<lambda>d.
       and_then (read_next (skip_size (entry_new d))) (\<lambda>(nxt, _).
         Ok (Inl (nxt, len + 1)))))"

definition check_free_refs :: "value_table \<Rightarrow> nat result" where
  "check_free_refs vt = loop_r (check_free_refs_body vt) (vt_last_removed vt, 0)"

end
