(* ===== verification/Value_Table_Inv.thy ===== *)
theory Value_Table_Inv
  imports Value_Table
begin

text \<open>
  The invariant of a value table and what the operations do to it. A table is described by its
  free list \<open>fl\<close> and by its live chains \<open>L\<close>, each with the slots it occupies, the stored bytes
  (reference counter, partial key, value) and the compression flag; \<open>table_inv\<close> says that the
  slots between 1 and \<open>filled\<close> are split between the free list and the chains, each slot used
  exactly once. All facts are about the content a reader sees: the log overlay first, then the
  file.
\<close>

section \<open>What a reader sees in a slot\<close>

definition slot_view :: "value_table \<Rightarrow> log_query \<Rightarrow> u64 \<Rightarrow> bytes result" where
  "slot_view vt lq i =
     (case lq_value lq (vt_id vt) i of
        Some d \<Rightarrow> Ok d
      | None \<Rightarrow> read_at (vt_file vt) (es vt) (slot_offset vt i))"

definition slot_prefix :: "value_table \<Rightarrow> log_query \<Rightarrow> u64 \<Rightarrow> bytes \<Rightarrow> bool" where
  "slot_prefix vt lq i bs =
     (case slot_view vt lq i of Ok d \<Rightarrow> take (length bs) d = bs | _ \<Rightarrow> False)"

text \<open>\<open>holds e bs\<close>: the initialised part of the buffer starts with \<open>bs\<close>.\<close>

definition holds :: "ventry \<Rightarrow> bytes \<Rightarrow> bool" where
  "holds e bs \<longleftrightarrow> take (length bs) (en_buf e) = bs"

lemma take_eq_length: "take (length bs) d = bs \<Longrightarrow> length bs \<le> length d"
  by (metis length_take min.cobounded1)

lemma take_eq_take: "take (length bs) d = bs \<Longrightarrow> n \<le> length bs \<Longrightarrow> take n d = take n bs"
  by (metis min.absorb1 take_take)

lemma take_eq_subslice:
  assumes "take (length bs) d = bs" "off + n \<le> length bs"
  shows "subslice off n d = subslice off n bs"
proof -
  have "take n (drop off (take (length bs) d)) = take n (drop off d)"
    using assms(2) by (simp add: drop_take min_def)
  with assms(1) show ?thesis by (simp add: subslice_def)
qed

lemma load_slot_prefix:
  assumes "slot_prefix vt lq i bs" "n \<le> length bs" "n \<le> cap" "n \<le> flen" "flen \<le> es vt"
  shows "\<exists>e. load_slot vt lq i cap flen = Ok e \<and> en_off e = 0 \<and> en_cap e = cap \<and> holds e (take n bs)"
proof (cases "lq_value lq (vt_id vt) i")
  case (Some d)
  with assms(1) have "take (length bs) d = bs" by (simp add: slot_prefix_def slot_view_def)
  then have "take n d = take n bs" "length bs \<le> length d"
    using assms(2) take_eq_take take_eq_length by blast+
  with Some assms show ?thesis
    by (simp add: load_slot_def log_value_def holds_def min_def)
next
  case None
  with assms(1) obtain d where d: "read_at (vt_file vt) (es vt) (slot_offset vt i) = Ok d"
      "take (length bs) d = bs"
    by (auto simp: slot_prefix_def slot_view_def split: result.splits)
  then obtain f where f: "tf_file (vt_file vt) = Some f" "slot_offset vt i + es vt \<le> length f"
      "d = subslice (slot_offset vt i) (es vt) f"
    by (auto simp: read_at_def split: option.splits if_splits)
  have "take n (subslice (slot_offset vt i) flen f) = take n d"
    using f(3) assms(4,5) by (simp add: subslice_def min_def)
  also have "\<dots> = take n bs" using d(2) assms(2) by (rule take_eq_take)
  finally show ?thesis
    using None f assms
    by (simp add: load_slot_def log_value_def read_at_def holds_def min_def)
qed

lemma head_is_holds:
  "holds e bs \<Longrightarrow> 2 \<le> length bs \<Longrightarrow> head_is m e = Ok (take 2 bs = m)"
  using take_eq_take [of bs "en_buf e" 2] take_eq_length [of bs "en_buf e"]
  by (simp add: head_is_def holds_def)

lemma read_slice_holds:
  assumes "holds e bs" "en_off e + n \<le> length bs"
  shows "read_slice n e = Ok (subslice (en_off e) n bs, e\<lparr>en_off := en_off e + n\<rparr>)"
  using assms take_eq_length [of bs "en_buf e"] take_eq_subslice [of bs "en_buf e" "en_off e" n]
  by (simp add: read_slice_def holds_def)

lemma remaining_to_holds:
  assumes "holds e bs" "en_off e \<le> n" "n \<le> length bs"
  shows "remaining_to n e = Ok (subslice (en_off e) (n - en_off e) bs)"
  using assms take_eq_length [of bs "en_buf e"]
    take_eq_subslice [of bs "en_buf e" "en_off e" "n - en_off e"]
  by (simp add: remaining_to_def holds_def)

lemma holds_off [simp]: "holds (e\<lparr>en_off := n\<rparr>) bs = holds e bs"
  by (simp add: holds_def)

lemma holds_take: "holds e bs \<Longrightarrow> holds e (take n bs)"
  using take_eq_take [of bs "en_buf e" n]
  by (cases "n \<le> length bs") (simp_all add: holds_def min_def)

lemmas head_tests = is_tombstone_def is_multipart_def is_multihead_compressed_def is_multihead_def
  is_multipart_v4_def is_multihead_v4_def is_multi_def

definition wf_table :: "value_table \<Rightarrow> bool" where
  "wf_table vt \<longleftrightarrow>
     MIN_ENTRY_SIZE \<le> es vt \<and> es vt \<le> MAX_ENTRY_SIZE \<and>
     (vt_multipart vt \<longrightarrow> vt_entry_size vt = MULTIPART_ENTRY_SIZE)"

lemma wf_table_bounds:
  assumes "wf_table vt"
  shows "32 \<le> es vt" "es vt \<le> 0x7ff8" "vt_multipart vt \<Longrightarrow> es vt = 4096"
  using assms by (auto simp: wf_table_def)

section \<open>Chains of slots\<close>

definition head_marker :: "bool \<Rightarrow> bytes" where
  "head_marker c = (if c then MULTIHEAD_COMPRESSED else MULTIHEAD)"

definition last_part :: "bytes \<Rightarrow> bool \<Rightarrow> bytes" where
  "last_part D c = u16_to_le (size_word (word_of_nat (length D)) c) @ D"

definition multi_part :: "bytes \<Rightarrow> u64 \<Rightarrow> bytes \<Rightarrow> bytes" where
  "multi_part mk j P = mk @ u64_to_le j @ P"

fun chain_from :: "value_table \<Rightarrow> log_query \<Rightarrow> bytes \<Rightarrow> u64 list \<Rightarrow> bytes \<Rightarrow> bool \<Rightarrow> bool" where
  "chain_from vt lq mk [] D c = False"
| "chain_from vt lq mk [i] D c =
     (length D \<le> es vt - SIZE_SIZE \<and> slot_prefix vt lq i (last_part D c))"
| "chain_from vt lq mk (i # j # js) D c =
     (vt_multipart vt \<and> length D > es vt - SIZE_SIZE \<and> j \<noteq> 0 \<and>
      slot_prefix vt lq i (multi_part mk j (take (es vt - 10) D)) \<and>
      chain_from vt lq MULTIPART (j # js) (drop (es vt - 10) D) c)"

lemma last_part_facts:
  assumes "wf_table vt" "length D \<le> es vt - SIZE_SIZE"
  shows "length (last_part D c) = 2 + length D"
    and "take 2 (last_part D c) \<notin> {TOMBSTONE, MULTIPART, MULTIHEAD, MULTIHEAD_COMPRESSED}"
    and "vt_multipart vt \<Longrightarrow> take 2 (last_part D c) \<notin> {MULTIPART_V4, MULTIHEAD_V4}"
    and "u16_from_le (take 2 (last_part D c)) AND NOT COMPRESSED_MASK = word_of_nat (length D)"
    and "u16_from_le (take 2 (last_part D c)) AND COMPRESSED_MASK > 0 \<longleftrightarrow> c"
    and "unat (word_of_nat (length D) :: u16) = length D"
proof -
  have n: "length D \<le> 0x7ff6" using assms wf_table_bounds [OF assms(1)] by simp
  then have u: "unat (word_of_nat (length D) :: u16) = length D" by (simp add: unat_of_nat)
  have t: "take 2 (last_part D c) = u16_to_le (size_word (word_of_nat (length D)) c)"
    by (simp add: last_part_def)
  show "length (last_part D c) = 2 + length D" by (simp add: last_part_def)
  show "unat (word_of_nat (length D) :: u16) = length D" by (fact u)
  show "take 2 (last_part D c) \<notin> {TOMBSTONE, MULTIPART, MULTIHEAD, MULTIHEAD_COMPRESSED}"
    using size_word_not_marker [of "word_of_nat (length D)" c] n u t by auto
  show "take 2 (last_part D c) \<notin> {MULTIPART_V4, MULTIHEAD_V4}" if "vt_multipart vt"
    using size_word_not_v4 [of "word_of_nat (length D)" c] n u t assms(2)
      wf_table_bounds(3) [OF assms(1) that] by auto
  show "u16_from_le (take 2 (last_part D c)) AND NOT COMPRESSED_MASK = word_of_nat (length D)"
    "u16_from_le (take 2 (last_part D c)) AND COMPRESSED_MASK > 0 \<longleftrightarrow> c"
    unfolding t from_to_le using size_word_decode [of "word_of_nat (length D)" c] n u by auto
qed

lemma part_extent_last:
  assumes "wf_table vt" "length D \<le> es vt - SIZE_SIZE" "holds e (last_part D c)" "en_off e = 0"
  shows "part_extent vt part cmp e =
    Ok (2 + length D, 0, (if part = 0 \<or> vt_db_version vt \<le> 6 then c else cmp), e\<lparr>en_off := 2\<rparr>)"
proof -
  note f = last_part_facts [OF assms(1,2)]
  have h: "head_is m e = Ok (take 2 (last_part D c) = m)" for m
    using head_is_holds [OF assms(3)] f(1) by simp
  have m: "(if vt_multipart vt then is_multi (vt_db_version vt) e else Ok False) = Ok False"
    using f(2,3) by (auto simp: head_tests h)
  have "read_slice 2 e = Ok (take 2 (last_part D c), e\<lparr>en_off := 2\<rparr>)"
    using read_slice_holds [OF assms(3), of 2] f(1) assms(4) by simp
  then have "read_size e = Ok ((word_of_nat (length D), c), e\<lparr>en_off := 2\<rparr>)"
    using f(4,5) by (simp add: read_size_def Let_def del: COMPRESSED_MASK_def)
  with m f(6) show ?thesis by (simp add: part_extent_def)
qed

lemma length_multi_part [simp]: "length (multi_part mk j P) = length mk + 8 + length P"
  by (simp add: multi_part_def)

definition markers :: "bytes set" where
  "markers = {MULTIPART, MULTIHEAD, MULTIHEAD_COMPRESSED}"

lemma markers_facts:
  "mk \<in> markers \<Longrightarrow> length mk = 2" "mk \<in> markers \<Longrightarrow> mk \<noteq> TOMBSTONE"
  "MULTIPART \<in> markers" "head_marker c \<in> markers" "head_marker c \<noteq> MULTIPART"
  "head_marker c = MULTIHEAD_COMPRESSED \<longleftrightarrow> c" "head_marker c = MULTIHEAD \<longleftrightarrow> \<not> c"
  by (auto simp: markers_def head_marker_def)

lemma multi_part_head:
  "mk \<in> markers \<Longrightarrow> take 2 (multi_part mk j P) = mk"
  "mk \<in> markers \<Longrightarrow> subslice 2 8 (multi_part mk j P) = u64_to_le j"
  using markers_facts(1) [of mk] by (simp_all add: multi_part_def subslice_def)

lemma skip_size_0: "en_off e = 0 \<Longrightarrow> skip_size e = e\<lparr>en_off := 2\<rparr>"
  by (simp add: skip_size_def numeral_2_eq_2)

lemma part_extent_multi:
  assumes "vt_multipart vt" "mk \<in> markers" "holds e (multi_part mk j P)" "en_off e = 0"
  shows "part_extent vt part cmp e =
    Ok (es vt, j, (if part = 0 \<and> vt_db_version vt > 6 \<and> mk = MULTIHEAD_COMPRESSED then True else cmp),
        e\<lparr>en_off := 10\<rparr>)"
proof -
  have h: "head_is m e = Ok (mk = m)" for m
    using head_is_holds [OF assms(3)] multi_part_head(1) [OF assms(2)] markers_facts(1) [OF assms(2)]
    by simp
  have m: "is_multi (vt_db_version vt) e = Ok True"
    using assms(2) unfolding markers_def insert_iff empty_iff
    by (elim disjE) (simp_all add: head_tests h)
  have "read_slice 8 (e\<lparr>en_off := 2\<rparr>) = Ok (u64_to_le j, e\<lparr>en_off := 10\<rparr>)"
    using read_slice_holds [of "e\<lparr>en_off := 2\<rparr>" "multi_part mk j P" 8] assms(3)
      multi_part_head(2) [OF assms(2)] markers_facts(1) [OF assms(2)] by simp
  then have "read_next (skip_size e) = Ok (j, e\<lparr>en_off := 10\<rparr>)"
    using assms(4) by (simp add: read_next_def read_u64_def skip_size_0)
  with m assms(1) show ?thesis by (simp add: part_extent_def is_multihead_compressed_def h)
qed

lemma load_last:
  assumes "wf_table vt" "length D \<le> es vt - SIZE_SIZE" "slot_prefix vt lq i (last_part D c)"
  shows "\<exists>e. load_slot vt lq i MAX_ENTRY_BUF_SIZE (es vt) = Ok e \<and> en_off e = 0 \<and>
    en_cap e = MAX_ENTRY_BUF_SIZE \<and> holds e (last_part D c)"
proof -
  have l: "length (last_part D c) = 2 + length D" by (rule last_part_facts(1) [OF assms(1,2)])
  have n: "2 + length D \<le> es vt" "es vt \<le> 0x7ff8" using assms(2) wf_table_bounds [OF assms(1)] by auto
  show ?thesis
    using load_slot_prefix [OF assms(3), of "2 + length D" MAX_ENTRY_BUF_SIZE "es vt"] l n by simp
qed

lemma load_multi:
  assumes "wf_table vt" "mk \<in> markers" "length P \<le> es vt - 10" "slot_prefix vt lq i (multi_part mk j P)"
  shows "\<exists>e. load_slot vt lq i MAX_ENTRY_BUF_SIZE (es vt) = Ok e \<and> en_off e = 0 \<and>
    en_cap e = MAX_ENTRY_BUF_SIZE \<and> holds e (multi_part mk j P)"
proof -
  have l: "length (multi_part mk j P) = 10 + length P" using markers_facts(1) [OF assms(2)] by simp
  have n: "10 + length P \<le> es vt" "es vt \<le> 0x7ff8"
    using assms(3) wf_table_bounds [OF assms(1)] by auto
  show ?thesis
    using load_slot_prefix [OF assms(4), of "10 + length P" MAX_ENTRY_BUF_SIZE "es vt"] l n by simp
qed

section \<open>Reading a chain\<close>

abbreviation collect :: "bytes \<Rightarrow> bytes \<Rightarrow> bytes \<times> bool" where
  "collect acc buf \<equiv> (acc @ buf, True)"

lemma for_parts_body_last:
  assumes "wf_table vt" "length D \<le> es vt - SIZE_SIZE" "slot_prefix vt lq i (last_part D c)" "0 < part"
  shows "for_parts_body vt q lq collect (i, part, cmp, rc, ft, acc) =
    Ok (Inr (rc, (if vt_db_version vt \<le> 6 then c else cmp), ft, acc @ D))"
proof -
  obtain e where e: "load_slot vt lq i MAX_ENTRY_BUF_SIZE (es vt) = Ok e" "en_off e = 0"
      "holds e (last_part D c)" using load_last [OF assms(1-3)] by blast
  note f = last_part_facts [OF assms(1,2)]
  have t: "is_tombstone e = Ok False"
    using head_is_holds [OF e(3)] f(1,2) by (simp add: is_tombstone_def)
  have r: "remaining_to (2 + length D) (e\<lparr>en_off := 2\<rparr>) = Ok D"
    using remaining_to_holds [of "e\<lparr>en_off := 2\<rparr>" "last_part D c" "2 + length D"] e(3) f(1)
    by (simp add: last_part_def subslice_def)
  show ?thesis
    using e(1) t r assms(4) part_extent_last [OF assms(1,2) e(3,2), of part cmp]
    by (simp add: for_parts_body_def)
qed

lemma for_parts_body_multi:
  assumes "wf_table vt" "vt_multipart vt" "length P = es vt - 10" "j \<noteq> 0"
    and "slot_prefix vt lq i (multi_part MULTIPART j P)" "0 < part"
  shows "for_parts_body vt q lq collect (i, part, cmp, rc, ft, acc) =
    Ok (Inl (j, part + 1, cmp, rc, ft, acc @ P))"
proof -
  note mk = markers_facts(3)
  obtain e where e: "load_slot vt lq i MAX_ENTRY_BUF_SIZE (es vt) = Ok e" "en_off e = 0"
      "holds e (multi_part MULTIPART j P)" using load_multi [OF assms(1) mk _ assms(5)] assms(3) by auto
  have t: "is_tombstone e = Ok False"
    using head_is_holds [OF e(3)] multi_part_head(1) [OF mk] by (simp add: is_tombstone_def)
  have n: "10 + length P = es vt" using assms(3) wf_table_bounds(1) [OF assms(1)] by simp
  have r: "remaining_to (es vt) (e\<lparr>en_off := 10\<rparr>) = Ok P"
    using remaining_to_holds [of "e\<lparr>en_off := 10\<rparr>" "multi_part MULTIPART j P" "es vt"] e(3) n
    by (simp add: multi_part_def subslice_def)
  show ?thesis
    using e(1) t r assms(4,6) n part_extent_multi [OF assms(2) mk e(3,2), of part cmp]
    by (auto simp: for_parts_body_def)
qed

lemma for_parts_tail:
  assumes "wf_table vt"
  shows "chain_from vt lq MULTIPART is D c \<Longrightarrow> 0 < part \<Longrightarrow>
    loop_r (for_parts_body vt q lq collect) (hd is, part, cmp, rc, ft, acc) =
    Ok (rc, (if vt_db_version vt \<le> 6 then c else cmp), ft, acc @ D)"
proof (induction "is" arbitrary: D part acc)
  case (Cons i js)
  note unfold = loop_r_unfold [of "for_parts_body vt q lq collect" "(i, part, cmp, rc, ft, acc)"]
  show ?case
  proof (cases js)
    case Nil
    with Cons.prems show ?thesis
      using for_parts_body_last [OF assms, of D lq i c part q cmp rc ft acc] by (simp add: unfold)
  next
    case (Cons j js')
    let ?P = "take (es vt - 10) D"
    from Cons Cons.prems have c: "vt_multipart vt" "length D > es vt - 2" "j \<noteq> 0"
        "slot_prefix vt lq i (multi_part MULTIPART j ?P)"
        "chain_from vt lq MULTIPART js (drop (es vt - 10) D) c"
      by simp_all
    have "length ?P = es vt - 10" using c(2) wf_table_bounds [OF assms] by simp
    then have "for_parts_body vt q lq collect (i, part, cmp, rc, ft, acc) =
        Ok (Inl (j, part + 1, cmp, rc, ft, acc @ ?P))"
      using for_parts_body_multi [OF assms c(1) _ c(3,4) Cons.prems(2)] by simp
    moreover have "loop_r (for_parts_body vt q lq collect) (hd js, part + 1, cmp, rc, ft, acc @ ?P) =
        Ok (rc, (if vt_db_version vt \<le> 6 then c else cmp), ft, (acc @ ?P) @ drop (es vt - 10) D)"
      using Cons.IH [OF c(5), of "part + 1"] by simp
    ultimately show ?thesis using Cons by (simp add: unfold)
  qed
qed simp

definition key_bytes :: "table_key \<Rightarrow> bytes" where
  "key_bytes k = (case k of Partial h \<Rightarrow> partial_key h | NoHash \<Rightarrow> [])"

definition rc_bytes :: "value_table \<Rightarrow> u32 \<Rightarrow> bytes" where
  "rc_bytes vt rc = (if vt_ref_counted vt then u32_to_le rc else [])"

definition entry_data :: "value_table \<Rightarrow> u32 \<Rightarrow> table_key \<Rightarrow> bytes \<Rightarrow> bytes" where
  "entry_data vt rc k v = rc_bytes vt rc @ key_bytes k @ v"

definition stored_rc :: "value_table \<Rightarrow> u32 \<Rightarrow> u32" where
  "stored_rc vt rc = (if vt_ref_counted vt then rc else 1)"

definition valid_key :: "table_key \<Rightarrow> bool" where
  "valid_key k = (case k of Partial h \<Rightarrow> length h = KEY_SIZE | NoHash \<Rightarrow> True)"

text \<open>What a key query gets from a stored key: the fetched partial key and whether it matches.\<close>

definition key_answer :: "table_key_query \<Rightarrow> table_key \<Rightarrow> (bytes option \<times> bool) option" where
  "key_answer q k =
     (case (q, k) of
        (Check (Partial h), Partial h') \<Rightarrow> Some (None, partial_key h = partial_key h')
      | (Fetch True, Partial h') \<Rightarrow> Some (Some (partial_key h'), True)
      | (Check NoHash, NoHash) \<Rightarrow> Some (None, True)
      | (Fetch False, _) \<Rightarrow> Some (None, True)
      | _ \<Rightarrow> None)"

definition key_consumed :: "table_key_query \<Rightarrow> table_key \<Rightarrow> nat" where
  "key_consumed q k = (case q of Fetch False \<Rightarrow> 0 | _ \<Rightarrow> encoded_size k)"

lemma entry_data_lengths:
  assumes "valid_key k"
  shows "length (rc_bytes vt rc) = ref_size vt" "length (key_bytes k) = encoded_size k"
    "length (entry_data vt rc k v) = ref_size vt + encoded_size k + length v"
    "ref_size vt + encoded_size k \<le> 30"
  using assms
  by (auto simp: rc_bytes_def key_bytes_def entry_data_def ref_size_def encoded_size_def
      valid_key_def partial_key_def split: table_key.splits)

lemma part_head_ok:
  assumes "holds e (pre @ rc_bytes vt rc @ key_bytes k @ v)" "en_off e = length pre"
    and "en_cap e = MAX_ENTRY_BUF_SIZE" "valid_key k" "key_answer q k = Some (ft, m)"
  shows "part_head vt q e =
    Ok (stored_rc vt rc, ft, m, e\<lparr>en_off := length pre + ref_size vt + key_consumed q k\<rparr>)"
proof -
  let ?e = "e\<lparr>en_off := length pre + ref_size vt\<rparr>"
  have r: "(if vt_ref_counted vt then read_rc e else Ok (1, e)) = Ok (stored_rc vt rc, ?e)"
  proof (cases "vt_ref_counted vt")
    case True
    then have "read_slice 4 e = Ok (u32_to_le rc, ?e)"
      using read_slice_holds [OF assms(1), of 4] assms(2)
      by (simp add: rc_bytes_def ref_size_def subslice_def)
    with True show ?thesis by (simp add: read_rc_def read_u32_def stored_rc_def)
  next
    case False
    with assms(2) show ?thesis by (simp add: stored_rc_def ref_size_def)
  qed
  have k: "fetch_partial ?e = Ok (partial_key h, ?e\<lparr>en_off := length pre + ref_size vt + 26\<rparr>)"
    if "k = Partial h" for h
  proof -
    have "length (partial_key h) = 26" using assms(4) that by (simp add: valid_key_def partial_key_def)
    then have "read_slice 26 ?e = Ok (partial_key h, ?e\<lparr>en_off := length pre + ref_size vt + 26\<rparr>)"
      using read_slice_holds [of ?e "pre @ rc_bytes vt rc @ key_bytes k @ v" 26] assms(1)
        entry_data_lengths(1) [OF assms(4), of vt rc] that
      by (simp add: key_bytes_def subslice_def)
    with assms(3) show ?thesis by (simp add: fetch_partial_def read_partial_def)
  qed
  show ?thesis
    using r k assms(2,5)
    by (auto simp: part_head_def key_answer_def fetch_key_def compare_key_def key_consumed_def
        encoded_size_def split: table_key_query.splits table_key.splits bool.splits)
qed

definition value_chain :: "value_table \<Rightarrow> log_query \<Rightarrow> u64 list \<Rightarrow> bytes \<Rightarrow> bool \<Rightarrow> bool" where
  "value_chain vt lq is D c \<longleftrightarrow>
     chain_from vt lq (head_marker c) is D c \<and> (vt_multipart vt \<longrightarrow> length D > es vt - SIZE_SIZE)"

lemma value_chain_cases:
  assumes "value_chain vt lq is D c" "wf_table vt"
  obtains (single) i where "is = [i]" "\<not> vt_multipart vt" "length D \<le> es vt - SIZE_SIZE"
      "slot_prefix vt lq i (last_part D c)"
    | (multi) i j js where "is = i # j # js" "vt_multipart vt" "es vt = 4096" "length D > 4094" "j \<noteq> 0"
      "slot_prefix vt lq i (multi_part (head_marker c) j (take 4086 D))"
      "chain_from vt lq MULTIPART (j # js) (drop 4086 D) c"
  using assms wf_table_bounds(3) [OF assms(2)]
  by (cases "(vt, lq, head_marker c, is, D, c)" rule: chain_from.cases)
    (fastforce simp: value_chain_def)+

lemma for_parts_first_single:
  assumes "wf_table vt" "\<not> vt_multipart vt" "length (entry_data vt rc k v) \<le> es vt - SIZE_SIZE"
    and "slot_prefix vt lq i (last_part (entry_data vt rc k v) c)"
    and "valid_key k" "key_answer q k = Some (ft, m)" "key_consumed q k = encoded_size k"
  shows "for_parts_body vt q lq f (i, 0, False, 1, None, acc) =
    Ok (Inr (if m then (stored_rc vt rc, c, ft, fst (f acc v)) else (0, False, ft, acc)))"
proof -
  let ?D = "entry_data vt rc k v" and ?h = "ref_size vt + encoded_size k"
  let ?pre = "u16_to_le (size_word (word_of_nat (length ?D)) c)"
  obtain e where e: "load_slot vt lq i MAX_ENTRY_BUF_SIZE (es vt) = Ok e" "en_off e = 0"
      "en_cap e = MAX_ENTRY_BUF_SIZE" "holds e (last_part ?D c)"
    using load_last [OF assms(1,3,4)] by blast
  note l = last_part_facts [OF assms(1,3)]
  have t: "is_tombstone e = Ok False"
    using head_is_holds [OF e(4)] l(1,2) by (simp add: is_tombstone_def)
  have "part_head vt q (e\<lparr>en_off := 2\<rparr>) = Ok (stored_rc vt rc, ft, m, e\<lparr>en_off := 2 + ?h\<rparr>)"
    using part_head_ok [of "e\<lparr>en_off := 2\<rparr>" ?pre vt rc k v q ft m] e(3,4) assms(5-7)
    by (simp add: last_part_def entry_data_def)
  moreover have "remaining_to (2 + length ?D) (e\<lparr>en_off := 2 + ?h\<rparr>) = Ok v"
    using remaining_to_holds [of "e\<lparr>en_off := 2 + ?h\<rparr>" "last_part ?D c" "2 + length ?D"] e(4)
      l(1) entry_data_lengths [OF assms(5)]
    by (simp add: last_part_def entry_data_def subslice_def)
  ultimately show ?thesis
    using e(1) t assms(2) part_extent_last [OF assms(1,3) e(4,2), of 0 False]
      entry_data_lengths(3) [OF assms(5), of vt rc v]
    by (simp add: for_parts_body_def split: prod.split)
qed

lemma for_parts_first_multi:
  assumes "wf_table vt" "vt_multipart vt" "es vt = 4096" "length (entry_data vt rc k v) > 4094" "j \<noteq> 0"
    and "slot_prefix vt lq i (multi_part (head_marker c) j (take 4086 (entry_data vt rc k v)))"
    and "valid_key k" "key_answer q k = Some (ft, m)" "key_consumed q k = encoded_size k"
  shows "for_parts_body vt q lq f (i, 0, False, 1, None, acc) =
    (if m then
       (let (acc', go) = f acc (take (4086 - (ref_size vt + encoded_size k)) v);
            cmp = (c \<and> vt_db_version vt > 6)
        in if go then Ok (Inl (j, 1, cmp, stored_rc vt rc, ft, acc'))
           else Ok (Inr (stored_rc vt rc, cmp, ft, acc')))
     else Ok (Inr (0, False, ft, acc)))"
proof -
  let ?h = "ref_size vt + encoded_size k"
  let ?v = "take (4086 - ?h) v"
  let ?pre = "head_marker c @ u64_to_le j"
  note el = entry_data_lengths [OF assms(7)]
  have P: "take 4086 (entry_data vt rc k v) = rc_bytes vt rc @ key_bytes k @ ?v"
    using el(1) [of vt rc] el(2) el(4) [of vt] by (simp add: entry_data_def)
  have lv: "length ?v = 4086 - ?h" using assms(4) el(3) [of vt rc v] el(4) [of vt] by simp
  let ?B = "?pre @ rc_bytes vt rc @ key_bytes k @ ?v"
  have mk: "head_marker c \<in> markers" by (rule markers_facts(4))
  have lB: "length ?B = 4096" using lv el(1,2) el(4) [of vt] markers_facts(1) [OF mk] by simp
  obtain e where e: "load_slot vt lq i MAX_ENTRY_BUF_SIZE (es vt) = Ok e" "en_off e = 0"
      "en_cap e = MAX_ENTRY_BUF_SIZE" "holds e (multi_part (head_marker c) j (rc_bytes vt rc @ key_bytes k @ ?v))"
    using load_multi [OF assms(1) mk _ assms(6)] assms(3) unfolding P [symmetric] by auto
  then have hB: "holds e ?B" by (simp add: multi_part_def)
  have h: "head_is m e = Ok (head_marker c = m)" for m
    using head_is_holds [OF e(4)] multi_part_head(1) [OF mk] markers_facts(1) [OF mk] by simp
  have t: "is_tombstone e = Ok False" "is_multihead e = Ok True"
    by (auto simp: is_tombstone_def is_multihead_def is_multihead_compressed_def h head_marker_def)
  have "part_head vt q (e\<lparr>en_off := 10\<rparr>) = Ok (stored_rc vt rc, ft, m, e\<lparr>en_off := 10 + ?h\<rparr>)"
    using part_head_ok [of "e\<lparr>en_off := 10\<rparr>" ?pre vt rc k ?v q ft m] hB e(3) assms(7-9)
      markers_facts(1) [OF mk] by simp
  moreover have "remaining_to 4096 (e\<lparr>en_off := 10 + ?h\<rparr>) = Ok ?v"
    using remaining_to_holds [of "e\<lparr>en_off := 10 + ?h\<rparr>" ?B 4096] hB lB el(1,2)
      el(4) [of vt] markers_facts(1) [OF mk] by (simp add: subslice_def)
  ultimately show ?thesis
    using e(1) t assms(2,3,5) el(4) [of vt] markers_facts(6) [of c]
      part_extent_multi [OF assms(2) mk e(4,2), of 0 False]
    by (auto simp: for_parts_body_def Let_def split: prod.splits)
qed

lemma for_parts_chain:
  assumes "wf_table vt" "value_chain vt lq is (entry_data vt rc k v) c"
    and "valid_key k" "key_answer q k = Some (ft, m)" "key_consumed q k = encoded_size k"
  shows "for_parts vt q (hd is) lq collect [] =
    Ok (if m then (stored_rc vt rc, c, ft, v) else (0, False, ft, []))"
  using assms(2,1)
proof (cases rule: value_chain_cases)
  case (single i)
  with assms show ?thesis
    by (simp add: for_parts_def loop_r_unfold for_parts_first_single [OF assms(1) single(2-4)])
next
  case (multi i j js)
  let ?h = "ref_size vt + encoded_size k"
  let ?v = "take (4086 - ?h) v"
  note el = entry_data_lengths [OF assms(3)]
  note body = for_parts_first_multi [OF assms(1) multi(2-6) assms(3-5), of collect "[]"]
  have D: "drop 4086 (entry_data vt rc k v) = drop (4086 - ?h) v"
    using el(1) [of vt rc] el(2) el(4) [of vt] by (simp add: entry_data_def)
  have "loop_r (for_parts_body vt q lq collect) (j, 1, c \<and> vt_db_version vt > 6, stored_rc vt rc, ft, ?v) =
      Ok (stored_rc vt rc, c, ft, v)"
    using for_parts_tail [OF assms(1) multi(7), of 1 q "c \<and> vt_db_version vt > 6" "stored_rc vt rc" ft ?v]
    by (auto simp: D split: if_splits)
  then show ?thesis
    using multi(1) body
    by (simp add: for_parts_def loop_r_unfold [of "for_parts_body vt q lq collect" "(i, 0, False, 1, None, [])"])
qed

lemma vt_query_chain:
  assumes "wf_table vt" "value_chain vt lq is (entry_data vt rc k v) c"
    and "valid_key k" "key_answer q k = Some (ft, m)" "key_consumed q k = encoded_size k"
  shows "vt_query vt q (hd is) lq =
    Ok (if m \<and> stored_rc vt rc > 0 then Some (v, c, stored_rc vt rc, ft) else None)"
  using for_parts_chain [OF assms] by (simp add: vt_query_def)

lemma vt_get_chain:
  assumes "wf_table vt" "value_chain vt lq is (entry_data vt rc k v) c" "valid_key k"
    and "stored_rc vt rc > 0"
  shows "vt_get vt k (hd is) lq = Ok (Some (v, c))"
proof -
  have "key_answer (Check k) k = Some (None, True)" "key_consumed (Check k) k = encoded_size k"
    by (simp_all add: key_answer_def key_consumed_def split: table_key.split)
  with assms show ?thesis by (simp add: vt_get_def vt_query_chain)
qed

lemma partial_key_at_chain:
  assumes "wf_table vt" "value_chain vt lq is (entry_data vt rc (Partial h) v) c"
    and "length h = KEY_SIZE" "stored_rc vt rc > 0"
  shows "partial_key_at vt (hd is) lq = Ok (Some (partial_key h))"
proof -
  have k: "valid_key (Partial h)" "key_answer (Fetch True) (Partial h) = Some (Some (partial_key h), True)"
      "key_consumed (Fetch True) (Partial h) = encoded_size (Partial h)"
    using assms(3) by (simp_all add: valid_key_def key_answer_def key_consumed_def)
  let ?f = "\<lambda>(acc :: unit) buf. (acc, False)"
  have "\<exists>cmp. for_parts_body vt (Fetch True) lq ?f (hd is, 0, False, 1, None, ()) =
      Ok (Inr (stored_rc vt rc, cmp, Some (partial_key h), ()))"
    using assms(2,1)
  proof (cases rule: value_chain_cases)
    case (single i)
    then show ?thesis using for_parts_first_single [OF assms(1) single(2-4) k, of ?f "()"] by simp
  next
    case (multi i j js)
    then show ?thesis using for_parts_first_multi [OF assms(1) multi(2-6) k, of ?f "()"] by simp
  qed
  then show ?thesis
    using assms(4) by (auto simp: partial_key_at_def for_parts_def loop_r_unfold word_gt_0)
qed

lemma has_key_at_chain:
  assumes "wf_table vt" "value_chain vt lq is (entry_data vt rc (Partial h) v) c"
    and "length h = KEY_SIZE" "stored_rc vt rc > 0"
  shows "has_key_at vt (hd is) (Partial h') lq = Ok (partial_key h = partial_key h')"
  using partial_key_at_chain [OF assms] by (simp add: has_key_at_def)

section \<open>Free slots\<close>

definition free_entry :: "u64 \<Rightarrow> bytes" where
  "free_entry n = TOMBSTONE @ u64_to_le n"

fun hd0 :: "u64 list \<Rightarrow> u64" where
  "hd0 [] = 0"
| "hd0 (i # _) = i"

fun free_list :: "value_table \<Rightarrow> log_query \<Rightarrow> u64 list \<Rightarrow> bool" where
  "free_list vt lq [] = True"
| "free_list vt lq (i # js) \<longleftrightarrow> (slot_prefix vt lq i (free_entry (hd0 js)) \<and> free_list vt lq js)"

lemma free_entry_simps [simp]:
  "length (free_entry n) = 10" "take 2 (free_entry n) = TOMBSTONE" "subslice 2 8 (free_entry n) = u64_to_le n"
  by (simp_all add: free_entry_def subslice_def)

lemma vt_query_free:
  assumes "wf_table vt" "slot_prefix vt lq i (free_entry n)"
  shows "vt_query vt q i lq = Ok None"
proof -
  obtain e where "load_slot vt lq i MAX_ENTRY_BUF_SIZE (es vt) = Ok e" "holds e (free_entry n)"
    using load_slot_prefix [OF assms(2), of 10 MAX_ENTRY_BUF_SIZE "es vt"] wf_table_bounds [OF assms(1)]
    by auto
  moreover from this have "is_tombstone e = Ok True"
    using head_is_holds [of e "free_entry n" TOMBSTONE] by (simp add: is_tombstone_def)
  ultimately show ?thesis
    by (simp add: vt_query_def for_parts_def loop_r_unfold for_parts_body_def)
qed

section \<open>Allocation\<close>

text \<open>Two tables that differ in the allocation state only.\<close>

definition same_table :: "value_table \<Rightarrow> value_table \<Rightarrow> bool" where
  "same_table vt vt' \<longleftrightarrow>
     vt_id vt' = vt_id vt \<and> vt_entry_size vt' = vt_entry_size vt \<and> vt_file vt' = vt_file vt \<and>
     vt_multipart vt' = vt_multipart vt \<and> vt_ref_counted vt' = vt_ref_counted vt \<and>
     vt_db_version vt' = vt_db_version vt"

lemma same_table_refl [simp]: "same_table vt vt"
  by (simp add: same_table_def)

lemma same_table_trans: "same_table a b \<Longrightarrow> same_table b c \<Longrightarrow> same_table a c"
  by (simp add: same_table_def)

lemma same_table_alloc [simp]:
  "same_table vt (vt\<lparr>vt_last_removed := a, vt_dirty_header := d\<rparr>)"
  "same_table vt (vt\<lparr>vt_filled := a, vt_dirty_header := d\<rparr>)"
  by (simp_all add: same_table_def)

lemma slot_view_same: "same_table vt vt' \<Longrightarrow> slot_view vt' lq i = slot_view vt lq i"
  by (simp add: same_table_def slot_view_def slot_offset_def split: option.split)

lemma same_table_view:
  assumes "same_table vt vt'"
  shows "slot_prefix vt' lq = slot_prefix vt lq" "wf_table vt' = wf_table vt"
    "ref_size vt' = ref_size vt" "rc_bytes vt' = rc_bytes vt" "entry_data vt' = entry_data vt"
    "stored_rc vt' = stored_rc vt"
  using assms slot_view_same [OF assms, of lq]
  by (simp_all add: same_table_def slot_prefix_def wf_table_def
      ref_size_def rc_bytes_def entry_data_def stored_rc_def fun_eq_iff)

lemma chain_from_Cons:
  "chain_from vt lq mk (i # is) D c =
     (if is = [] then length D \<le> es vt - SIZE_SIZE \<and> slot_prefix vt lq i (last_part D c)
      else vt_multipart vt \<and> length D > es vt - SIZE_SIZE \<and> hd is \<noteq> 0 \<and>
        slot_prefix vt lq i (multi_part mk (hd is) (take (es vt - 10) D)) \<and>
        chain_from vt lq MULTIPART is (drop (es vt - 10) D) c)"
  by (cases "is") auto

lemma chain_from_same:
  assumes "same_table vt vt'"
  shows "chain_from vt' lq mk is D c = chain_from vt lq mk is D c"
proof (induction "is" arbitrary: mk D)
  case (Cons i "is")
  have "vt_entry_size vt' = vt_entry_size vt" "vt_multipart vt' = vt_multipart vt"
    using assms by (simp_all add: same_table_def)
  with Cons show ?case by (simp add: chain_from_Cons same_table_view(1) [OF assms])
qed simp

lemma value_chain_same: "same_table vt vt' \<Longrightarrow> value_chain vt' lq is D c = value_chain vt lq is D c"
  using chain_from_same [of vt vt' lq "head_marker c" "is" D c]
  by (simp add: value_chain_def same_table_def)

lemma free_list_same: "same_table vt vt' \<Longrightarrow> free_list vt' lq fl = free_list vt lq fl"
  by (induction fl) (simp_all add: same_table_view(1))

text \<open>Two logs that agree on the slots in use give the same chains.\<close>

lemma slot_prefix_cong:
  "lq_value lq' (vt_id vt) i = lq_value lq (vt_id vt) i \<Longrightarrow> slot_prefix vt lq' i bs = slot_prefix vt lq i bs"
  by (simp add: slot_prefix_def slot_view_def)

lemma chain_from_cong:
  "(\<And>i. i \<in> set is \<Longrightarrow> lq_value lq' (vt_id vt) i = lq_value lq (vt_id vt) i) \<Longrightarrow>
   chain_from vt lq' mk is D c = chain_from vt lq mk is D c"
proof (induction "is" arbitrary: mk D)
  case (Cons i "is")
  have "slot_prefix vt lq' i bs = slot_prefix vt lq i bs" for bs
    using Cons.prems by (intro slot_prefix_cong) simp
  with Cons show ?case by (simp add: chain_from_Cons)
qed simp

lemma value_chain_cong:
  "(\<And>i. i \<in> set is \<Longrightarrow> lq_value lq' (vt_id vt) i = lq_value lq (vt_id vt) i) \<Longrightarrow>
   value_chain vt lq' is D c = value_chain vt lq is D c"
  using chain_from_cong [of "is" lq' vt lq "head_marker c" D c] by (simp add: value_chain_def)

lemma free_list_cong:
  "(\<And>i. i \<in> set fl \<Longrightarrow> lq_value lq' (vt_id vt) i = lq_value lq (vt_id vt) i) \<Longrightarrow>
   free_list vt lq' fl = free_list vt lq fl"
proof (induction fl)
  case (Cons i fl)
  have "slot_prefix vt lq' i bs = slot_prefix vt lq i bs" for bs
    using Cons.prems by (intro slot_prefix_cong) simp
  with Cons show ?case by simp
qed simp

lemma lq_value_writer [simp]: "lq_value (writer_query w) = writer_value w"
  by (simp add: writer_query_def)

lemma slot_prefix_insert_same:
  "slot_prefix vt (writer_query (insert_value (vt_id vt) i d w)) i bs = (take (length bs) d = bs)"
  by (simp add: slot_prefix_def slot_view_def)

definition alloc_inv :: "value_table \<Rightarrow> log_query \<Rightarrow> u64 list \<Rightarrow> u64 list \<Rightarrow> bool" where
  "alloc_inv vt lq fl used \<longleftrightarrow>
     wf_table vt \<and> vt_last_removed vt = hd0 fl \<and> free_list vt lq fl \<and> 0 < vt_filled vt \<and>
     distinct (fl @ used) \<and> set (fl @ used) = {i. 0 < i \<and> i < vt_filled vt}"

lemma alloc_inv_insert_value:
  assumes "alloc_inv vt (writer_query w) fl used" "i \<in> set used"
  shows "alloc_inv vt (writer_query (insert_value (vt_id vt) i d w)) fl used"
proof -
  have "i \<notin> set fl" using assms by (auto simp: alloc_inv_def)
  then have "free_list vt (writer_query (insert_value (vt_id vt) i d w)) fl = free_list vt (writer_query w) fl"
    by (intro free_list_cong) auto
  with assms(1) show ?thesis by (simp add: alloc_inv_def)
qed

lemma read_next_free_ok:
  assumes "wf_table vt" "slot_prefix vt lq i (free_entry n)" "n < vt_filled vt"
  shows "read_next_free vt i lq = Ok n"
proof -
  obtain e where e: "load_slot vt lq i 10 10 = Ok e" "en_off e = 0" "holds e (free_entry n)"
    using load_slot_prefix [OF assms(2), of 10 10 10] wf_table_bounds [OF assms(1)] by auto
  then have "read_slice 8 (e\<lparr>en_off := 2\<rparr>) = Ok (u64_to_le n, e\<lparr>en_off := 10\<rparr>)"
    using read_slice_holds [of "e\<lparr>en_off := 2\<rparr>" "free_entry n" 8] by simp
  with e assms(3) show ?thesis
    by (simp add: read_next_free_def read_next_def read_u64_def skip_size_0)
qed

lemma word_less_plus_one:
  fixes n :: u64
  assumes "n + 1 \<noteq> 0"
  shows "i < n + 1 \<longleftrightarrow> i < n \<or> i = n"
proof -
  have "unat (n + 1) = unat n + 1" using assms by (simp add: unatSuc add.commute)
  then show ?thesis by (auto simp: word_less_nat_alt word_unat_eq_iff)
qed

lemma next_free_ok:
  assumes inv: "alloc_inv vt (writer_query w) fl used" and room: "vt_filled vt + 1 \<noteq> 0"
  shows "\<exists>i vt' fl'. next_free vt w = Ok (i, vt') \<and> same_table vt vt' \<and> i \<noteq> 0 \<and>
    alloc_inv vt' (writer_query w) fl' (i # used) \<and> unat (vt_filled vt') \<le> unat (vt_filled vt) + 1"
proof (cases fl)
  case Nil
  let ?vt = "vt\<lparr>vt_filled := vt_filled vt + 1, vt_dirty_header := True\<rparr>"
  have st: "same_table vt ?vt" by simp
  have u: "unat (vt_filled vt + 1) = unat (vt_filled vt) + 1"
    using room by (simp add: unatSuc add.commute)
  have iv: "distinct used" "set used = {i. 0 < i \<and> i < vt_filled vt}" "0 < vt_filled vt"
      "vt_last_removed vt = 0" "wf_table ?vt"
    using inv Nil same_table_view(2) [OF st] by (simp_all add: alloc_inv_def)
  have "{i. 0 < i \<and> i < vt_filled vt + 1} = insert (vt_filled vt) {i. 0 < i \<and> i < vt_filled vt}"
    using iv(3) word_less_plus_one [OF room] by auto
  moreover have "0 < vt_filled vt + 1" using room by (simp add: word_gt_0)
  ultimately have "alloc_inv ?vt (writer_query w) [] (vt_filled vt # used)"
    using iv by (simp add: alloc_inv_def)
  moreover have "next_free vt w = Ok (vt_filled vt, ?vt)" using iv(4) by (simp add: next_free_def)
  ultimately show ?thesis using iv(3) st u by (auto simp: word_gt_0)
next
  case (Cons i fl')
  let ?vt = "vt\<lparr>vt_last_removed := hd0 fl', vt_dirty_header := True\<rparr>"
  have st: "same_table vt ?vt" by simp
  have i: "0 < i" "vt_last_removed vt = i" "slot_prefix vt (writer_query w) i (free_entry (hd0 fl'))"
      "free_list vt (writer_query w) fl'" "wf_table vt"
    using inv Cons by (auto simp: alloc_inv_def)
  have "hd0 fl' < vt_filled vt" using inv Cons by (cases fl') (auto simp: alloc_inv_def)
  then have "next_free vt w = Ok (i, ?vt)"
    using read_next_free_ok [OF i(5,3)] i(1,2) by (simp add: next_free_def word_gt_0)
  moreover have "alloc_inv ?vt (writer_query w) fl' (i # used)"
    using inv Cons i same_table_view(2) [OF st] free_list_same [OF st]
    by (auto simp: alloc_inv_def)
  ultimately show ?thesis using i(1) st by (auto simp: word_gt_0)
qed

section \<open>Logged entries\<close>

text \<open>
  The forms an entry has in the log: a freed slot, a value or last part, or a full part with a
  link. They are self-delimiting, which is what enacting and validating rely on.
\<close>

definition slot_data :: "value_table \<Rightarrow> bytes \<Rightarrow> bool" where
  "slot_data vt d \<longleftrightarrow>
     (\<exists>n. d = free_entry n) \<or> (\<exists>D c. length D \<le> es vt - SIZE_SIZE \<and> d = last_part D c) \<or>
     (\<exists>mk j P. vt_multipart vt \<and> mk \<in> markers \<and> length P = es vt - 10 \<and> d = multi_part mk j P)"

lemma slot_dataI:
  "slot_data vt (free_entry n)"
  "length D \<le> es vt - SIZE_SIZE \<Longrightarrow> slot_data vt (last_part D c)"
  "vt_multipart vt \<Longrightarrow> mk \<in> markers \<Longrightarrow> length P = es vt - 10 \<Longrightarrow> slot_data vt (multi_part mk j P)"
  unfolding slot_data_def by blast+

lemma slot_data_same: "same_table vt vt' \<Longrightarrow> slot_data vt' = slot_data vt"
  by (simp add: slot_data_def same_table_def fun_eq_iff)

end
