(* ===== verification/Value_Table_Plan.thy ===== *)
theory Value_Table_Plan
  imports Value_Table_Inv
begin

text \<open>
  What the planning operations of a value table do to its invariant: insertion, removal,
  replacement and reference counting, in terms of the free list and the live chains of
  \<open>Value_Table_Inv\<close>.
\<close>

section \<open>Writing one part\<close>

abbreviation obody :: "table_key \<Rightarrow> bytes \<Rightarrow> bool \<Rightarrow> chain_state
    \<Rightarrow> (chain_state + (u64 \<times> value_table \<times> log_writer)) result" where
  "obody \<equiv> overwrite_chain_body"

lemma write_size_wbuf:
  "write_size sz c (wbuf MAX_ENTRY_BUF_SIZE []) =
     Ok (wbuf MAX_ENTRY_BUF_SIZE (u16_to_le (size_word sz c)))"
  by (simp add: write_size_def size_word_def)

lemma write_head_key:
  assumes "valid_key k" "length bs \<le> 10"
  shows "and_then (if vt_ref_counted vt then write_rc 1 (wbuf MAX_ENTRY_BUF_SIZE bs)
                   else Ok (wbuf MAX_ENTRY_BUF_SIZE bs)) (write_key k) =
    Ok (wbuf MAX_ENTRY_BUF_SIZE (bs @ rc_bytes vt 1 @ key_bytes k))"
proof -
  have "length (partial_key h) = 26" if "k = Partial h" for h
    using assms(1) that by (simp add: valid_key_def partial_key_def)
  with assms(2) show ?thesis
    by (cases k) (simp_all add: write_rc_def write_key_def rc_bytes_def key_bytes_def)
qed

text \<open>
  The link of a slot that is overwritten: in an existing chain the next slot is reused, otherwise
  (\<open>None\<close>) a free slot is taken. \<open>link_of\<close> and \<open>link_target\<close> are the two steps of the loop body.
\<close>

definition link_of :: "value_table \<Rightarrow> u64 \<Rightarrow> bool \<Rightarrow> log_writer \<Rightarrow> u64 option \<Rightarrow> bool" where
  "link_of vt index follow w link \<longleftrightarrow>
     (if follow then read_next_part vt index (writer_query w) else Ok None) = Ok link"

definition link_target :: "value_table \<Rightarrow> log_writer \<Rightarrow> u64 option \<Rightarrow> (u64 \<times> value_table) result" where
  "link_target vt w link = (case link of Some j \<Rightarrow> Ok (j, vt) | None \<Rightarrow> next_free vt w)"

lemma link_of_fresh [simp]: "link_of vt index False w None"
  by (simp add: link_of_def)

lemma link_Some:
  assumes "link_of vt index follow w (Some i)" "link_target vt w (Some i) = Ok (j, vt')"
  shows "follow" "i = j" "vt' = vt" "read_next_part vt index (writer_query w) = Ok (Some j)"
  using assms by (auto simp: link_of_def link_target_def split: if_splits)

lemma obody_last:
  assumes "wf_table vt" "offset \<noteq> 0" "rem = length val - offset" "0 < rem" "rem \<le> es vt - SIZE_SIZE"
    and "start \<noteq> 0" "link_of vt index follow w link"
  shows "obody k val c (rem, offset, start, index, follow, vt, w) =
    (let w' = insert_value (vt_id vt) index (last_part (drop offset val) c) w in
     if link \<noteq> None \<and> link \<noteq> Some 0
     then and_then (clear_chain vt (the link) w') (\<lambda>(vt, w). Ok (Inr (start, vt, w)))
     else Ok (Inr (start, vt, w')))"
proof -
  have "rem \<le> 0x7ff6" using assms(5) wf_table_bounds [OF assms(1)] by simp
  then have "write_slice (subslice offset rem val)
      (wbuf MAX_ENTRY_BUF_SIZE (u16_to_le (size_word (word_of_nat rem) c))) =
      Ok (wbuf MAX_ENTRY_BUF_SIZE (last_part (drop offset val) c))"
    using assms(3) by (simp add: subslice_def last_part_def)
  moreover have "\<not> es vt - SIZE_SIZE < rem" using assms(5) by simp
  ultimately show ?thesis
    using assms(2-4,6,7) write_size_wbuf [of "word_of_nat rem" c]
    by (cases link) (simp_all add: link_of_def overwrite_chain_body_def wbuf_new Let_def)
qed

lemma obody_first_last:
  assumes "wf_table vt" "valid_key k" "rem = length val + ref_size vt + encoded_size k"
    and "rem \<le> es vt - SIZE_SIZE" "link_of vt index follow w None"
  shows "obody k val c (rem, 0, 0, index, follow, vt, w) =
    Ok (Inr (index, vt, insert_value (vt_id vt) index (last_part (entry_data vt 1 k val) c) w))"
proof -
  have n: "rem \<le> 0x7ff6" using assms(4) wf_table_bounds [OF assms(1)] by simp
  have el: "length (rc_bytes vt 1) = ref_size vt" "length (key_bytes k) = encoded_size k"
    using entry_data_lengths [OF assms(2)] by simp_all
  have r: "length (entry_data vt 1 k val) = rem" "rem - (ref_size vt + encoded_size k) = length val"
      "ref_size vt + encoded_size k \<le> rem" using el assms(3) by (simp_all add: entry_data_def)
  let ?s = "u16_to_le (size_word (word_of_nat rem) c)"
  have "write_slice (subslice 0 (length val) val)
      (wbuf MAX_ENTRY_BUF_SIZE (?s @ rc_bytes vt 1 @ key_bytes k)) =
      Ok (wbuf MAX_ENTRY_BUF_SIZE (?s @ entry_data vt 1 k val))"
    using r(1) n by (simp add: entry_data_def)
  then have "write_slice (subslice 0 (length val) val)
      (wbuf MAX_ENTRY_BUF_SIZE (?s @ rc_bytes vt 1 @ key_bytes k)) =
      Ok (wbuf MAX_ENTRY_BUF_SIZE (last_part (entry_data vt 1 k val) c))"
    by (simp only: last_part_def r(1))
  moreover have "\<not> es vt - SIZE_SIZE < rem" using assms(4) by simp
  ultimately show ?thesis
    using assms(5) el r(2,3) write_size_wbuf [of "word_of_nat rem" c] write_head_key [OF assms(2), of ?s vt]
    by (simp add: link_of_def overwrite_chain_body_def wbuf_new Let_def del: MAX_ENTRY_BUF_SIZE_def split del: if_split)
qed

lemma obody_multi:
  assumes "wf_table vt" "offset \<noteq> 0" "rem = length val - offset" "es vt - SIZE_SIZE < rem"
    and "start \<noteq> 0" "link_of vt index follow w link"
    and "link_target vt w link = Ok (j, vt')" "same_table vt vt'"
  shows "obody k val c (rem, offset, start, index, follow, vt, w) =
    Ok (Inl (rem - (es vt - 10), offset + (es vt - 10), start, j, link \<noteq> None, vt',
         insert_value (vt_id vt) index (multi_part MULTIPART j (take (es vt - 10) (drop offset val))) w))"
proof -
  have n: "es vt - 10 \<le> 0x7ff6" "10 \<le> es vt" using wf_table_bounds [OF assms(1)] by simp_all
  have st: "vt_id vt' = vt_id vt" using assms(8) by (simp add: same_table_def)
  have w: "write_slice (subslice offset (es vt - 10) val)
      (wbuf MAX_ENTRY_BUF_SIZE (MULTIPART @ u64_to_le j)) =
      Ok (wbuf MAX_ENTRY_BUF_SIZE (multi_part MULTIPART j (take (es vt - 10) (drop offset val))))"
    using n by (simp add: subslice_def multi_part_def)
  have "offset + (es vt - 10) \<le> length val" "rem - (es vt - 10) \<noteq> 0" using assms(3,4) n(2) by simp_all
  note facts = this w assms(2,4,5) n st
  show ?thesis
  proof (cases link)
    case None
    with facts assms(6,7) show ?thesis
      by (simp add: link_of_def link_target_def overwrite_chain_body_def wbuf_new Let_def
          write_multipart_def write_next_def write_u64_def)
  next
    case (Some i)
    from link_Some [OF assms(6,7) [unfolded Some]] Some facts show ?thesis
      by (simp add: overwrite_chain_body_def wbuf_new Let_def
          write_multipart_def write_next_def write_u64_def)
  qed
qed

lemma obody_first_multi:
  assumes "wf_table vt" "vt_multipart vt" "valid_key k" "rem = length val + ref_size vt + encoded_size k"
    and "es vt - SIZE_SIZE < rem" "link_of vt index follow w link"
    and "link_target vt w link = Ok (j, vt')" "same_table vt vt'"
  shows "obody k val c (rem, 0, 0, index, follow, vt, w) =
    Ok (Inl (rem - (es vt - 10), es vt - 10 - (ref_size vt + encoded_size k), index, j, link \<noteq> None, vt',
         insert_value (vt_id vt) index
           (multi_part (head_marker c) j (take (es vt - 10) (entry_data vt 1 k val))) w))"
proof -
  have n: "es vt = 4096" using wf_table_bounds [OF assms(1)] assms(2) by simp
  have el: "length (rc_bytes vt 1) = ref_size vt" "length (key_bytes k) = encoded_size k"
      "ref_size vt + encoded_size k \<le> 30"
    using entry_data_lengths [OF assms(3)] by (auto simp: ref_size_def encoded_size_def split: table_key.split)
  have st: "vt_id vt' = vt_id vt" "vt_ref_counted vt' = vt_ref_counted vt" "rc_bytes vt' = rc_bytes vt"
    using assms(8) by (simp_all add: same_table_def rc_bytes_def fun_eq_iff)
  let ?h = "ref_size vt + encoded_size k"
  have w: "write_slice (subslice 0 (4086 - ?h) val)
      (wbuf MAX_ENTRY_BUF_SIZE ((head_marker c @ u64_to_le j) @ rc_bytes vt 1 @ key_bytes k)) =
      Ok (wbuf MAX_ENTRY_BUF_SIZE (multi_part (head_marker c) j (take 4086 (entry_data vt 1 k val))))"
    using el markers_facts(1) [OF markers_facts(4), of c] by (simp add: multi_part_def entry_data_def)
  have b: "4086 - ?h \<le> length val" "4086 < rem" using assms(4,5) n el(3) by simp_all
  have m: "(if c then write_multihead_compressed (wbuf MAX_ENTRY_BUF_SIZE [])
      else write_multihead (wbuf MAX_ENTRY_BUF_SIZE [])) = Ok (wbuf MAX_ENTRY_BUF_SIZE (head_marker c))"
    by (simp add: write_multihead_compressed_def write_multihead_def head_marker_def)
  have wn: "write_next j (wbuf MAX_ENTRY_BUF_SIZE (head_marker c)) =
      Ok (wbuf MAX_ENTRY_BUF_SIZE (head_marker c @ u64_to_le j))"
    using markers_facts(1) [OF markers_facts(4), of c] by (simp add: write_next_def write_u64_def)
  have wk: "and_then (if vt_ref_counted vt then write_rc 1 (wbuf MAX_ENTRY_BUF_SIZE (head_marker c @ u64_to_le j))
      else Ok (wbuf MAX_ENTRY_BUF_SIZE (head_marker c @ u64_to_le j))) (write_key k) =
      Ok (wbuf MAX_ENTRY_BUF_SIZE ((head_marker c @ u64_to_le j) @ rc_bytes vt 1 @ key_bytes k))"
    using markers_facts(1) [OF markers_facts(4), of c] by (intro write_head_key assms(3)) simp
  note facts = w m wn wk el b assms(2,5) n st
  show ?thesis
  proof (cases link)
    case None
    with facts assms(6,7) show ?thesis
      by (simp add: link_of_def link_target_def overwrite_chain_body_def wbuf_new Let_def
          del: MAX_ENTRY_BUF_SIZE_def)
  next
    case (Some i)
    from link_Some [OF assms(6,7) [unfolded Some]] Some facts show ?thesis
      by (simp add: overwrite_chain_body_def wbuf_new Let_def del: MAX_ENTRY_BUF_SIZE_def)
  qed
qed

section \<open>Writing a whole chain into fresh slots\<close>

text \<open>
  The writer \<open>w'\<close> differs from \<open>w\<close> in the entries of the slots \<open>S\<close> of the table \<open>vt\<close> only, and
  the new entries have one of the forms of logged entries.
\<close>

definition writes_only :: "value_table \<Rightarrow> u64 set \<Rightarrow> log_writer \<Rightarrow> log_writer \<Rightarrow> bool" where
  "writes_only vt S w w' \<longleftrightarrow>
     lw_overlays w' = lw_overlays w \<and> lw_record_id w' = lw_record_id w \<and>
     lc_local_index (lw_log w') = lc_local_index (lw_log w) \<and>
     lc_dropped_tables (lw_log w') = lc_dropped_tables (lw_log w) \<and>
     (\<forall>t i. local_value w' t i = local_value w t i \<or>
            t = vt_id vt \<and> i \<in> S \<and> (\<exists>d. local_value w' t i = Some d \<and> slot_data vt d))"

lemma writes_only_refl [simp]: "writes_only vt S w w"
  by (simp add: writes_only_def)

lemma writes_only_insert:
  "i \<in> S \<Longrightarrow> slot_data vt d \<Longrightarrow> writes_only vt S w (insert_value (vt_id vt) i d w)"
  by (auto simp: writes_only_def)

lemma writes_only_trans:
  "writes_only vt S w w1 \<Longrightarrow> writes_only vt S' w1 w2 \<Longrightarrow> S \<subseteq> T \<Longrightarrow> S' \<subseteq> T \<Longrightarrow> writes_only vt T w w2"
  unfolding writes_only_def by (metis subset_iff)

lemma writes_only_same: "same_table vt vt' \<Longrightarrow> writes_only vt' = writes_only vt"
  using slot_data_same [of vt vt'] by (simp add: writes_only_def same_table_def fun_eq_iff)

lemma writes_only_value:
  assumes "writes_only vt S w w'" "t \<noteq> vt_id vt \<or> i \<notin> S"
  shows "writer_value w' t i = writer_value w t i"
proof -
  have "local_value w' t i = local_value w t i" "lw_overlays w' = lw_overlays w"
    using assms unfolding writes_only_def by blast+
  then show ?thesis by (simp add: writer_value_local split: option.split)
qed

lemma writes_only_index: "writes_only vt S w w' \<Longrightarrow> writer_index w' = writer_index w"
  by (simp add: writes_only_def writer_index_def fun_eq_iff split: option.split)

lemma slot_prefix_frame:
  "writes_only vt S w w' \<Longrightarrow> i \<notin> S \<Longrightarrow>
   slot_prefix vt (writer_query w') i bs = slot_prefix vt (writer_query w) i bs"
  by (intro slot_prefix_cong) (simp add: writes_only_value)

lemma chain_from_frame:
  "writes_only vt S w w' \<Longrightarrow> set is \<inter> S = {} \<Longrightarrow>
   chain_from vt (writer_query w') mk is D c = chain_from vt (writer_query w) mk is D c"
  by (rule chain_from_cong, simp, rule writes_only_value) auto

lemma value_chain_frame:
  "writes_only vt S w w' \<Longrightarrow> set is \<inter> S = {} \<Longrightarrow>
   value_chain vt (writer_query w') is D c = value_chain vt (writer_query w) is D c"
  by (rule value_chain_cong, simp, rule writes_only_value) auto

lemma alloc_inv_perm:
  "alloc_inv vt lq fl used \<Longrightarrow> set used' = set used \<Longrightarrow> distinct used' \<Longrightarrow> alloc_inv vt lq fl used'"
  by (auto simp: alloc_inv_def)

lemma room_next: 
  assumes "unat n + m < 2 ^ 64" "0 < m"
  shows "(n :: u64) + 1 \<noteq> 0"
proof -
  have "unat (n + 1) = unat n + 1" using assms by (simp add: unat_word_ariths)
  then show ?thesis by (metis add_eq_0_iff_both_eq_0 one_neq_zero unat_0)
qed

lemma overwrite_fresh_tail:
  assumes "offset \<noteq> 0" "rem = length val - offset" "0 < rem" "start \<noteq> 0" "vt_multipart vt"
    and "alloc_inv vt (writer_query w) fl (index # used)" "unat (vt_filled vt) + rem < 2 ^ 64"
  shows "\<exists>vt' w' fl' is. loop_r (obody k val c) (rem, offset, start, index, False, vt, w) = Ok (start, vt', w') \<and>
    same_table vt vt' \<and> alloc_inv vt' (writer_query w') fl' (index # is @ used) \<and>
    chain_from vt (writer_query w') MULTIPART (index # is) (drop offset val) c \<and>
    writes_only vt (set (index # is)) w w' \<and> unat (vt_filled vt') \<le> unat (vt_filled vt) + rem"
  using assms
proof (induction rem arbitrary: offset index vt w fl used rule: less_induct)
  case (less rem)
  have wf: "wf_table vt" using less.prems(6) by (simp add: alloc_inv_def)
  let ?st = "(rem, offset, start, index, False, vt, w)" and ?D = "drop offset val"
  show ?case
  proof (cases "rem \<le> es vt - SIZE_SIZE")
    case True
    let ?w = "insert_value (vt_id vt) index (last_part ?D c) w"
    have "loop_r (obody k val c) ?st = Ok (start, vt, ?w)"
      using obody_last [OF wf less.prems(1-3) True less.prems(4) link_of_fresh] by (simp add: loop_r_unfold Let_def)
    moreover have "alloc_inv vt (writer_query ?w) fl (index # [] @ used)"
      using alloc_inv_insert_value [OF less.prems(6)] by simp
    moreover have "chain_from vt (writer_query ?w) MULTIPART [index] ?D c"
      using True less.prems(2) by (simp add: slot_prefix_insert_same)
    moreover have "writes_only vt (set [index]) w ?w"
      using True less.prems(2) by (intro writes_only_insert slot_dataI(2)) simp_all
    ultimately show ?thesis using same_table_refl le_add1 by blast
  next
    case False
    let ?n = "es vt - 10"
    have n: "?n < rem" "0 < ?n" using False wf_table_bounds(1) [OF wf] by simp_all
    obtain j vt1 fl1 where nf: "next_free vt w = Ok (j, vt1)" "same_table vt vt1" "j \<noteq> 0"
        "alloc_inv vt1 (writer_query w) fl1 (j # index # used)" "unat (vt_filled vt1) \<le> unat (vt_filled vt) + 1"
      using next_free_ok [OF less.prems(6) room_next [OF less.prems(7,3)]] by auto
    have id: "vt_id vt1 = vt_id vt" "vt_multipart vt1" using nf(2) less.prems(5) by (simp_all add: same_table_def)
    let ?w1 = "insert_value (vt_id vt) index (multi_part MULTIPART j (take ?n ?D)) w"
    have i1: "alloc_inv vt1 (writer_query ?w1) fl1 (j # index # used)"
      using alloc_inv_insert_value [OF nf(4), of index] id(1) by simp
    have sd: "slot_data vt (multi_part MULTIPART j (take ?n ?D))"
      using n less.prems(2,5) by (intro slot_dataI(3) markers_facts(3)) simp_all
    have "rem - ?n = length val - (offset + ?n)" "0 < rem - ?n" "rem - ?n < rem"
        "unat (vt_filled vt1) + (rem - ?n) < 2 ^ 64" "offset + ?n \<noteq> 0"
      using less.prems(1,2,7) n nf(5) by simp_all
    from less.IH [OF this(3,5,1,2) less.prems(4) id(2) i1 this(4)]
    obtain vt' w' fl' "is" where ih:
        "loop_r (obody k val c) (rem - ?n, offset + ?n, start, j, False, vt1, ?w1) = Ok (start, vt', w')"
        "same_table vt1 vt'" "alloc_inv vt' (writer_query w') fl' (j # is @ index # used)"
        "chain_from vt1 (writer_query w') MULTIPART (j # is) (drop (offset + ?n) val) c"
        "writes_only vt1 (set (j # is)) ?w1 w'"
        "unat (vt_filled vt') \<le> unat (vt_filled vt1) + (rem - ?n)"
      by blast
    have "index \<notin> set (j # is)" using ih(3) by (auto simp: alloc_inv_def)
    then have "slot_prefix vt (writer_query w') index (multi_part MULTIPART j (take ?n ?D))"
      using slot_prefix_frame [of vt "set (j # is)" ?w1 w' index] ih(5)
      by (simp add: slot_prefix_insert_same writes_only_same [OF nf(2)])
    then have "chain_from vt (writer_query w') MULTIPART (index # j # is) ?D c"
      using False less.prems(2,5) nf(3) ih(4) chain_from_same [OF nf(2)] by (simp add: add.commute)
    moreover have "alloc_inv vt' (writer_query w') fl' (index # (j # is) @ used)"
      by (rule alloc_inv_perm [OF ih(3)]) (use ih(3) in \<open>auto simp: alloc_inv_def\<close>)
    moreover have "writes_only vt (set (index # j # is)) w w'"
      by (rule writes_only_trans [of _ "{index}" _ ?w1 "set (j # is)"])
        (use ih(5) sd in \<open>auto simp: writes_only_insert writes_only_same [OF nf(2)]\<close>)
    moreover have "loop_r (obody k val c) ?st = Ok (start, vt', w')"
      using obody_multi [OF wf less.prems(1,2) _ less.prems(4) link_of_fresh _ nf(2)] nf(1) False ih(1)
      by (simp add: loop_r_unfold [of _ ?st] link_target_def)
    moreover have "unat (vt_filled vt') \<le> unat (vt_filled vt) + rem" using ih(6) nf(5) n by simp
    ultimately show ?thesis using same_table_trans [OF nf(2) ih(2)] by blast
  qed
qed

section \<open>Clearing a chain\<close>

lemma read_next_part_last:
  assumes "wf_table vt" "length D \<le> es vt - SIZE_SIZE" "slot_prefix vt lq i (last_part D c)"
  shows "read_next_part vt i lq = Ok None"
proof -
  note f = last_part_facts [OF assms(1,2)]
  have t: "take 2 (last_part D c) = u16_to_le (size_word (word_of_nat (length D)) c)"
    by (simp add: last_part_def)
  obtain e where e: "load_slot vt lq i 10 10 = Ok e" "holds e (take 2 (last_part D c))"
    using load_slot_prefix [OF assms(3), of 2 10 10] f(1) wf_table_bounds [OF assms(1)] by auto
  then have "head_is m e = Ok (take 2 (last_part D c) = m)" for m
    using head_is_holds [OF e(2)] by (simp add: t)
  then have "(if vt_multipart vt then is_multi (vt_db_version vt) e else Ok False) = Ok False"
    using f(2,3) by (auto simp: head_tests)
  with e(1) show ?thesis by (simp add: read_next_part_def)
qed

lemma read_next_part_multi:
  assumes "wf_table vt" "vt_multipart vt" "mk \<in> markers" "slot_prefix vt lq i (multi_part mk j P)"
  shows "read_next_part vt i lq = Ok (Some j)"
proof -
  let ?B = "multi_part mk j []"
  have B: "take 10 (multi_part mk j P) = ?B" using markers_facts(1) [OF assms(3)] by (simp add: multi_part_def)
  obtain e where e: "load_slot vt lq i 10 10 = Ok e" "en_off e = 0" "holds e ?B"
    using load_slot_prefix [OF assms(4), of 10 10 10] markers_facts(1) [OF assms(3)]
      wf_table_bounds [OF assms(1)] by (auto simp: B)
  have h: "head_is m e = Ok (mk = m)" for m
    using head_is_holds [OF e(3)] multi_part_head(1) [OF assms(3)] markers_facts(1) [OF assms(3)] by simp
  have "is_multi (vt_db_version vt) e = Ok True"
    using assms(3) unfolding markers_def insert_iff empty_iff
    by (elim disjE) (simp_all add: head_tests h)
  moreover have "read_slice 8 (e\<lparr>en_off := 2\<rparr>) = Ok (u64_to_le j, e\<lparr>en_off := 10\<rparr>)"
    using read_slice_holds [of "e\<lparr>en_off := 2\<rparr>" ?B 8] e(3)
      multi_part_head(2) [OF assms(3)] markers_facts(1) [OF assms(3)] by simp
  ultimately show ?thesis
    using e(1,2) assms(2) by (simp add: read_next_part_def read_next_def read_u64_def skip_size_0)
qed

lemma read_next_part_chain:
  assumes "wf_table vt" "mk \<in> markers" "chain_from vt lq mk (i # js) D c"
  shows "read_next_part vt i lq = Ok (case js of [] \<Rightarrow> None | j # _ \<Rightarrow> Some j)"
  using assms read_next_part_last [OF assms(1)] read_next_part_multi [OF assms(1)]
  by (cases js) auto

lemma clear_slot_run:
  "clear_slot vt i w =
     Ok (vt\<lparr>vt_last_removed := i, vt_dirty_header := True\<rparr>,
         insert_value (vt_id vt) i (free_entry (vt_last_removed vt)) w)"
  by (simp add: clear_slot_def wbuf_new write_tombstone_def write_next_def write_u64_def free_entry_def)

lemma clear_slot_ok:
  assumes "alloc_inv vt (writer_query w) fl (i # used)"
  shows "\<exists>vt' w'. clear_slot vt i w = Ok (vt', w') \<and> same_table vt vt' \<and> vt_filled vt' = vt_filled vt \<and>
    alloc_inv vt' (writer_query w') (i # fl) used \<and> writes_only vt {i} w w'"
proof -
  let ?vt = "vt\<lparr>vt_last_removed := i, vt_dirty_header := True\<rparr>"
    and ?w = "insert_value (vt_id vt) i (free_entry (vt_last_removed vt)) w"
  have st: "same_table vt ?vt" by simp
  have "free_list ?vt (writer_query ?w) (i # fl)"
    using alloc_inv_insert_value [OF assms, of i] assms free_list_same [OF st] same_table_view(1) [OF st]
    by (simp add: alloc_inv_def slot_prefix_insert_same)
  then have "alloc_inv ?vt (writer_query ?w) (i # fl) used"
    using assms same_table_view(2) [OF st] by (auto simp: alloc_inv_def)
  then show ?thesis using st by (simp add: clear_slot_run writes_only_insert slot_dataI)
qed

lemma clear_chain_ok:
  assumes "mk \<in> markers" "chain_from vt (writer_query w) mk is D c"
    and "alloc_inv vt (writer_query w) fl (is @ used)"
  shows "\<exists>vt' w'. clear_chain vt (hd is) w = Ok (vt', w') \<and> same_table vt vt' \<and>
    vt_filled vt' = vt_filled vt \<and>
    alloc_inv vt' (writer_query w') (rev is @ fl) used \<and> writes_only vt (set is) w w'"
  using assms
proof (induction "is" arbitrary: mk vt w fl D)
  case (Cons i js)
  have wf: "wf_table vt" using Cons.prems(3) by (simp add: alloc_inv_def)
  have nx: "read_next_part vt i (writer_query w) = Ok (case js of [] \<Rightarrow> None | j # _ \<Rightarrow> Some j)"
    by (rule read_next_part_chain [OF wf Cons.prems(1,2)])
  obtain vt1 w1 where c: "clear_slot vt i w = Ok (vt1, w1)" "same_table vt vt1" "vt_filled vt1 = vt_filled vt"
      "alloc_inv vt1 (writer_query w1) (i # fl) (js @ used)" "writes_only vt {i} w w1"
    using clear_slot_ok [of vt w fl i "js @ used"] Cons.prems(3) by auto
  note unfold = loop_r_unfold [of clear_chain_body "(i, vt, w)"]
  have body: "clear_chain_body (i, vt, w) =
      Ok (case js of [] \<Rightarrow> Inr (vt1, w1) | j # _ \<Rightarrow> Inl (j, vt1, w1))"
    using nx c(1) by (simp add: clear_chain_body_def split: list.split)
  show ?case
  proof (cases js)
    case Nil
    with body c show ?thesis by (simp add: clear_chain_def unfold)
  next
    case js: (Cons j js')
    have "i \<notin> set js" using Cons.prems(3) by (auto simp: alloc_inv_def)
    then have "chain_from vt (writer_query w1) MULTIPART js (drop (es vt - 10) D) c"
      using Cons.prems(2) js by (simp add: chain_from_frame [OF c(5)])
    then have "chain_from vt1 (writer_query w1) MULTIPART js (drop (es vt - 10) D) c"
      by (simp add: chain_from_same [OF c(2)])
    from Cons.IH [OF markers_facts(3) this c(4)]
    obtain vt' w' where ih: "clear_chain vt1 (hd js) w1 = Ok (vt', w')" "same_table vt1 vt'"
        "vt_filled vt' = vt_filled vt1"
        "alloc_inv vt' (writer_query w') (rev js @ i # fl) used" "writes_only vt1 (set js) w1 w'"
      by blast
    have "clear_chain vt i w = Ok (vt', w')"
      using body js ih(1) by (simp add: clear_chain_def unfold)
    moreover have "writes_only vt (set (i # js)) w w'"
      using ih(5) by (intro writes_only_trans [OF c(5)]) (auto simp: writes_only_same [OF c(2)])
    ultimately show ?thesis
      using same_table_trans [OF c(2) ih(2)] ih(3,4) c(3) by simp
  qed
qed simp

section \<open>The table invariant and the planning operations\<close>

text \<open>
  A live value: the slots of its chain, the reference counter, the key, the bytes and the
  compression flag. The address of a value is the first slot of its chain.
\<close>

type_synonym live = "u64 list \<times> u32 \<times> table_key \<times> bytes \<times> bool"

definition live_ok :: "value_table \<Rightarrow> log_query \<Rightarrow> live \<Rightarrow> bool" where
  "live_ok vt lq = (\<lambda>(is, rc, k, v, c).
     value_chain vt lq is (entry_data vt rc k v) c \<and> valid_key k \<and> stored_rc vt rc > 0)"

definition table_inv :: "value_table \<Rightarrow> log_query \<Rightarrow> u64 list \<Rightarrow> live list \<Rightarrow> bool" where
  "table_inv vt lq fl L \<longleftrightarrow>
     alloc_inv vt lq fl (concat (map fst L)) \<and> (\<forall>x\<in>set L. live_ok vt lq x)"

text \<open>A value fits a table: one slot of a sized table, more than one slot of the multipart table.\<close>

definition fits :: "value_table \<Rightarrow> table_key \<Rightarrow> bytes \<Rightarrow> bool" where
  "fits vt k v \<longleftrightarrow>
     (let n = ref_size vt + encoded_size k + length v
      in if vt_multipart vt then n > es vt - SIZE_SIZE else n \<le> es vt - SIZE_SIZE)"

lemma live_ok_same: "same_table vt vt' \<Longrightarrow> live_ok vt' lq x = live_ok vt lq x"
  by (cases x) (simp add: live_ok_def value_chain_same same_table_view)

lemma live_ok_frame:
  "writes_only vt S w w' \<Longrightarrow> set (fst x) \<inter> S = {} \<Longrightarrow>
   live_ok vt (writer_query w') x = live_ok vt (writer_query w) x"
  by (cases x) (simp add: live_ok_def value_chain_frame)

lemma fits_overwrite:
  assumes "fits vt k v" "wf_table vt"
  shows "vt_multipart vt \<or> (case value_size vt k of Some s \<Rightarrow> length v \<le> s | None \<Rightarrow> False)"
  using assms wf_table_bounds [OF assms(2)]
  by (auto simp: fits_def Let_def value_size_def split: if_splits)

lemma overwrite_fresh:
  assumes "alloc_inv vt (writer_query w) fl (i # used)" "valid_key k" "fits vt k v"
    and "unat (vt_filled vt) + length v + 64 < 2 ^ 64" "i \<noteq> 0"
  shows "\<exists>vt' w' fl' is. loop_r (obody k v c) (length v + ref_size vt + encoded_size k, 0, 0, i, False, vt, w)
      = Ok (i, vt', w') \<and> same_table vt vt' \<and>
    alloc_inv vt' (writer_query w') fl' (i # is @ used) \<and>
    value_chain vt (writer_query w') (i # is) (entry_data vt 1 k v) c \<and>
    writes_only vt (set (i # is)) w w'"
proof -
  let ?rem = "length v + ref_size vt + encoded_size k" and ?D = "entry_data vt 1 k v"
  let ?st = "(?rem, 0, 0, i, False, vt, w)"
  note el = entry_data_lengths [OF assms(2)]
  have wf: "wf_table vt" using assms(1) by (simp add: alloc_inv_def)
  have D: "length ?D = ?rem" using el(3) [of vt 1 v] by simp
  show ?thesis
  proof (cases "vt_multipart vt")
    case False
    let ?w = "insert_value (vt_id vt) i (last_part ?D c) w"
    have n: "?rem \<le> es vt - SIZE_SIZE" using assms(3) False by (simp add: fits_def Let_def ac_simps)
    have "loop_r (obody k v c) ?st = Ok (i, vt, ?w)"
      using obody_first_last [OF wf assms(2) refl n link_of_fresh]
      by (simp add: loop_r_unfold [of _ ?st])
    moreover have "alloc_inv vt (writer_query ?w) fl (i # [] @ used)"
      using alloc_inv_insert_value [OF assms(1)] by simp
    moreover have "value_chain vt (writer_query ?w) [i] ?D c"
      using n D False by (simp add: value_chain_def slot_prefix_insert_same)
    moreover have "writes_only vt (set [i]) w ?w"
      using n D by (intro writes_only_insert slot_dataI(2)) simp_all
    ultimately show ?thesis using same_table_refl by blast
  next
    case True
    have e: "es vt = 4096" using wf_table_bounds(3) [OF wf True] .
    have n: "es vt - SIZE_SIZE < ?rem" using assms(3) True by (simp add: fits_def Let_def ac_simps)
    obtain j vt1 fl1 where nf: "next_free vt w = Ok (j, vt1)" "same_table vt vt1" "j \<noteq> 0"
        "alloc_inv vt1 (writer_query w) fl1 (j # i # used)" "unat (vt_filled vt1) \<le> unat (vt_filled vt) + 1"
      using next_free_ok [OF assms(1) room_next [of _ "length v + 64"]] assms(4) by auto
    have id: "vt_id vt1 = vt_id vt" "vt_multipart vt1" using nf(2) True by (simp_all add: same_table_def)
    let ?h = "ref_size vt + encoded_size k"
    let ?w1 = "insert_value (vt_id vt) i (multi_part (head_marker c) j (take 4086 ?D)) w"
    have b: "obody k v c ?st = Ok (Inl (?rem - 4086, 4086 - ?h, i, j, False, vt1, ?w1))"
      using obody_first_multi [OF wf True assms(2) refl n link_of_fresh _ nf(2)] nf(1) e
      by (simp add: link_target_def)
    have i1: "alloc_inv vt1 (writer_query ?w1) fl1 (j # i # used)"
      using alloc_inv_insert_value [OF nf(4), of i] id(1) by simp
    have sd: "slot_data vt (multi_part (head_marker c) j (take 4086 ?D))"
      using n e D True by (intro slot_dataI(3) markers_facts(4)) simp_all
    have r: "4086 - ?h \<noteq> 0" "?rem - 4086 = length v - (4086 - ?h)" "0 < ?rem - 4086"
        "unat (vt_filled vt1) + (?rem - 4086) < 2 ^ 64"
      using n e el(4) [of vt] assms(4) nf(5) by simp_all
    obtain vt' w' fl' "is" where ih:
        "loop_r (obody k v c) (?rem - 4086, 4086 - ?h, i, j, False, vt1, ?w1) = Ok (i, vt', w')"
        "same_table vt1 vt'" "alloc_inv vt' (writer_query w') fl' (j # is @ i # used)"
        "chain_from vt1 (writer_query w') MULTIPART (j # is) (drop (4086 - ?h) v) c"
        "writes_only vt1 (set (j # is)) ?w1 w'"
      using overwrite_fresh_tail [OF r(1-3) assms(5) id(2) i1 r(4), of k c] by blast
    have ni: "i \<notin> set (j # is)" using ih(3) by (auto simp: alloc_inv_def)
    have dr: "drop 4086 ?D = drop (4086 - ?h) v" using el(1) [of vt 1] el(2) el(4) [of vt] by (simp add: entry_data_def)
    have "slot_prefix vt (writer_query w') i (multi_part (head_marker c) j (take 4086 ?D))"
      using slot_prefix_frame [of vt "set (j # is)" ?w1 w' i] ni ih(5)
      by (simp add: slot_prefix_insert_same writes_only_same [OF nf(2)])
    then have "value_chain vt (writer_query w') (i # j # is) ?D c"
      using n D e True nf(3) ih(4) chain_from_same [OF nf(2)] dr by (simp add: value_chain_def)
    moreover have "alloc_inv vt' (writer_query w') fl' (i # (j # is) @ used)"
      by (rule alloc_inv_perm [OF ih(3)]) (use ih(3) in \<open>auto simp: alloc_inv_def\<close>)
    moreover have "writes_only vt (set (i # j # is)) w w'"
      by (rule writes_only_trans [of _ "{i}" _ ?w1 "set (j # is)"])
        (use ih(5) sd in \<open>auto simp: writes_only_insert writes_only_same [OF nf(2)]\<close>)
    moreover have "loop_r (obody k v c) ?st = Ok (i, vt', w')"
      using b ih(1) by (simp add: loop_r_unfold [of _ ?st])
    ultimately show ?thesis using same_table_trans [OF nf(2) ih(2)] by blast
  qed
qed

lemma writes_only_mono: "writes_only vt S w w' \<Longrightarrow> S \<subseteq> T \<Longrightarrow> writes_only vt T w w'"
  unfolding writes_only_def by blast

lemma alloc_inv_disjoint:
  "alloc_inv vt lq fl (xs @ used) \<Longrightarrow> set xs \<inter> set used = {}"
  by (auto simp: alloc_inv_def)

section \<open>Overwriting an existing chain\<close>

lemma obody_follow_end:
  "link_of vt index True w None \<Longrightarrow>
   loop_r (obody k v c) (rem, offset, start, index, True, vt, w) =
   loop_r (obody k v c) (rem, offset, start, index, False, vt, w)"
  unfolding loop_r_unfold [of _ "(rem, offset, start, index, True, vt, w)"]
    loop_r_unfold [of _ "(rem, offset, start, index, False, vt, w)"]
  by (simp add: overwrite_chain_body_def link_of_def)

lemma link_of_chain:
  "wf_table vt \<Longrightarrow> mk \<in> markers \<Longrightarrow> chain_from vt (writer_query w) mk (i # js) D c \<Longrightarrow>
   link_of vt i True w (case js of [] \<Rightarrow> None | j # _ \<Rightarrow> Some j)"
  by (simp add: link_of_def read_next_part_chain)

text \<open>The last part of the new value goes into a slot that had a successor: the rest is freed.\<close>

lemma overwrite_shrink:
  assumes "offset \<noteq> 0" "rem = length v - offset" "0 < rem" "rem \<le> es vt - SIZE_SIZE" "start \<noteq> 0"
    and "chain_from vt (writer_query w) MULTIPART (index # j # js) D0 c0"
    and "alloc_inv vt (writer_query w) fl (index # (j # js) @ used)"
  shows "\<exists>vt' w' fl'. loop_r (obody k v c) (rem, offset, start, index, True, vt, w) = Ok (start, vt', w') \<and>
    same_table vt vt' \<and> alloc_inv vt' (writer_query w') fl' (index # used) \<and>
    chain_from vt (writer_query w') MULTIPART [index] (drop offset v) c \<and>
    writes_only vt (- set used) w w'"
proof -
  have wf: "wf_table vt" and ni: "index \<notin> set (j # js)" "index \<notin> set used" "set (j # js) \<inter> set used = {}"
    using assms(7) by (auto simp: alloc_inv_def)
  let ?st = "(rem, offset, start, index, True, vt, w)"
  let ?w1 = "insert_value (vt_id vt) index (last_part (drop offset v) c) w"
  have wo: "writes_only vt {index} w ?w1"
    using assms(2,4) by (intro writes_only_insert slot_dataI(2)) simp_all
  have "chain_from vt (writer_query ?w1) MULTIPART (j # js) (drop (es vt - 10) D0) c0"
    using assms(6) ni(1) chain_from_frame [OF wo, of "j # js"] by simp
  moreover have "alloc_inv vt (writer_query ?w1) fl ((j # js) @ index # used)"
    using alloc_inv_insert_value [OF assms(7), of index]
    by (rule alloc_inv_perm) (use assms(7) in \<open>auto simp: alloc_inv_def\<close>)
  ultimately have "\<exists>vt' w'. clear_chain vt (hd (j # js)) ?w1 = Ok (vt', w') \<and> same_table vt vt' \<and>
      vt_filled vt' = vt_filled vt \<and> alloc_inv vt' (writer_query w') (rev (j # js) @ fl) (index # used) \<and>
      writes_only vt (set (j # js)) ?w1 w'"
    by (rule clear_chain_ok [OF markers_facts(3)])
  then obtain vt' w' where c: "clear_chain vt j ?w1 = Ok (vt', w')" "same_table vt vt'"
      "alloc_inv vt' (writer_query w') (rev (j # js) @ fl) (index # used)"
      "writes_only vt (set (j # js)) ?w1 w'" by auto
  have j: "j \<noteq> 0" "link_of vt index True w (Some j)"
    using assms(6) link_of_chain [OF wf markers_facts(3) assms(6)] by simp_all
  have "loop_r (obody k v c) ?st = Ok (start, vt', w')"
    using obody_last [OF wf assms(1-5) j(2), of k c] j(1) c(1) by (simp add: loop_r_unfold [of _ ?st] Let_def)
  moreover have "chain_from vt (writer_query w') MULTIPART [index] (drop offset v) c"
    using slot_prefix_frame [OF c(4) ni(1)] assms(2,4) by (simp add: slot_prefix_insert_same)
  moreover have "writes_only vt (- set used) w w'"
    using ni(2,3) by (intro writes_only_trans [OF wo c(4)]) auto
  ultimately show ?thesis using c(2,3) by blast
qed

lemma overwrite_follow_tail:
  assumes "offset \<noteq> 0" "rem = length v - offset" "0 < rem" "start \<noteq> 0" "vt_multipart vt"
    and "chain_from vt (writer_query w) MULTIPART (index # olds) D0 c0"
    and "alloc_inv vt (writer_query w) fl (index # olds @ used)" "unat (vt_filled vt) + rem < 2 ^ 64"
  shows "\<exists>vt' w' fl' is. loop_r (obody k v c) (rem, offset, start, index, True, vt, w) = Ok (start, vt', w') \<and>
    same_table vt vt' \<and> alloc_inv vt' (writer_query w') fl' (index # is @ used) \<and>
    chain_from vt (writer_query w') MULTIPART (index # is) (drop offset v) c \<and>
    writes_only vt (- set used) w w'"
  using assms
proof (induction olds arbitrary: rem offset index w D0 used)
  case Nil
  have wf: "wf_table vt" using Nil.prems(7) by (simp add: alloc_inv_def)
  have "alloc_inv vt (writer_query w) fl (index # used)" using Nil.prems(7) by simp
  from overwrite_fresh_tail [OF Nil.prems(1-5) this Nil.prems(8), of k c]
  obtain vt' w' fl' "is" where ih:
      "loop_r (obody k v c) (rem, offset, start, index, False, vt, w) = Ok (start, vt', w')"
      "same_table vt vt'" "alloc_inv vt' (writer_query w') fl' (index # is @ used)"
      "chain_from vt (writer_query w') MULTIPART (index # is) (drop offset v) c"
      "writes_only vt (set (index # is)) w w'" by blast
  moreover have "link_of vt index True w None"
    using link_of_chain [OF wf markers_facts(3) Nil.prems(6)] by simp
  moreover have "writes_only vt (- set used) w w'"
    by (rule writes_only_mono [OF ih(5)]) (use ih(3) in \<open>auto simp: alloc_inv_def\<close>)
  ultimately show ?case using obody_follow_end by metis
next
  case (Cons j js)
  have wf: "wf_table vt" and ni: "index \<notin> set (j # js @ used)" using Cons.prems(7) by (auto simp: alloc_inv_def)
  let ?st = "(rem, offset, start, index, True, vt, w)" and ?n = "es vt - 10" and ?D = "drop offset v"
  show ?case
  proof (cases "rem \<le> es vt - SIZE_SIZE")
    case True
    from overwrite_shrink [OF Cons.prems(1-3) True Cons.prems(4,6), of fl used k c] Cons.prems(7)
    obtain vt' w' fl' where "loop_r (obody k v c) ?st = Ok (start, vt', w')" "same_table vt vt'"
        "alloc_inv vt' (writer_query w') fl' (index # [] @ used)"
        "chain_from vt (writer_query w') MULTIPART (index # []) (drop offset v) c"
        "writes_only vt (- set used) w w'" by auto
    then show ?thesis by blast
  next
    case False
    let ?w1 = "insert_value (vt_id vt) index (multi_part MULTIPART j (take ?n ?D)) w"
    have wo: "writes_only vt {index} w ?w1" using False Cons.prems(2,5)
      by (intro writes_only_insert slot_dataI(3) markers_facts(3)) simp_all
    have l: "link_of vt index True w (Some j)" "link_target vt w (Some j) = Ok (j, vt)" "j \<noteq> 0"
      using link_of_chain [OF wf markers_facts(3) Cons.prems(6)] Cons.prems(6) by (simp_all add: link_target_def)
    have b: "obody k v c ?st = Ok (Inl (rem - ?n, offset + ?n, start, j, True, vt, ?w1))"
      using obody_multi [OF wf Cons.prems(1,2) _ Cons.prems(4) l(1,2) same_table_refl] False by simp
    have r: "rem - ?n = length v - (offset + ?n)" "0 < rem - ?n" "unat (vt_filled vt) + (rem - ?n) < 2 ^ 64"
        "offset + ?n \<noteq> 0"
      using Cons.prems(1,2,8) False wf_table_bounds(1) [OF wf] by simp_all
    have ch: "chain_from vt (writer_query ?w1) MULTIPART (j # js) (drop ?n D0) c0"
      using Cons.prems(6) ni chain_from_frame [OF wo, of "j # js"] by simp
    have "alloc_inv vt (writer_query ?w1) fl (j # js @ index # used)"
      using alloc_inv_insert_value [OF Cons.prems(7), of index]
      by (rule alloc_inv_perm) (use Cons.prems(7) in \<open>auto simp: alloc_inv_def\<close>)
    from Cons.IH [OF r(4,1,2) Cons.prems(4,5) ch this r(3)]
    obtain vt' w' fl' "is" where ih:
        "loop_r (obody k v c) (rem - ?n, offset + ?n, start, j, True, vt, ?w1) = Ok (start, vt', w')"
        "same_table vt vt'" "alloc_inv vt' (writer_query w') fl' (j # is @ index # used)"
        "chain_from vt (writer_query w') MULTIPART (j # is) (drop (offset + ?n) v) c"
        "writes_only vt (- set (index # used)) ?w1 w'" by blast
    have "slot_prefix vt (writer_query w') index (multi_part MULTIPART j (take ?n ?D))"
      using slot_prefix_frame [OF ih(5)] by (simp add: slot_prefix_insert_same)
    then have "chain_from vt (writer_query w') MULTIPART (index # j # is) ?D c"
      using False Cons.prems(2,5) l(3) ih(4) by (simp add: add.commute)
    moreover have "alloc_inv vt' (writer_query w') fl' (index # (j # is) @ used)"
      by (rule alloc_inv_perm [OF ih(3)]) (use ih(3) in \<open>auto simp: alloc_inv_def\<close>)
    moreover have "writes_only vt (- set used) w w'"
      using ni by (intro writes_only_trans [OF wo ih(5)]) auto
    moreover have "loop_r (obody k v c) ?st = Ok (start, vt', w')"
      using b ih(1) by (simp add: loop_r_unfold [of _ ?st])
    ultimately show ?thesis using ih(2) by blast
  qed
qed

lemma overwrite_existing_multi:
  assumes "chain_from vt (writer_query w) (head_marker c0) (i # j # js) D0 c0" "vt_multipart vt"
    and "alloc_inv vt (writer_query w) fl (i # j # js @ used)" "valid_key k" "fits vt k v"
    and "unat (vt_filled vt) + length v + 64 < 2 ^ 64"
  shows "\<exists>vt' w' fl' is. loop_r (obody k v c) (length v + ref_size vt + encoded_size k, 0, 0, i, True, vt, w)
      = Ok (i, vt', w') \<and> same_table vt vt' \<and>
    alloc_inv vt' (writer_query w') fl' (i # is @ used) \<and>
    value_chain vt (writer_query w') (i # is) (entry_data vt 1 k v) c \<and>
    writes_only vt (- set used) w w'"
proof -
  let ?rem = "length v + ref_size vt + encoded_size k" and ?D = "entry_data vt 1 k v"
  let ?st = "(?rem, 0, 0, i, True, vt, w)" and ?h = "ref_size vt + encoded_size k"
  let ?w1 = "insert_value (vt_id vt) i (multi_part (head_marker c) j (take 4086 ?D)) w"
  note el = entry_data_lengths [OF assms(4)]
  have wf: "wf_table vt" and ni: "i \<notin> set (j # js @ used)" "i \<noteq> 0" using assms(3) by (auto simp: alloc_inv_def)
  have D: "length ?D = ?rem" using el(3) [of vt 1 v] by simp
  have e: "es vt = 4096" using wf_table_bounds(3) [OF wf assms(2)] .
  have n: "es vt - SIZE_SIZE < ?rem" using assms(2,5) by (simp add: fits_def Let_def ac_simps)
  have l: "link_of vt i True w (Some j)" "link_target vt w (Some j) = Ok (j, vt)" "j \<noteq> 0"
    using link_of_chain [OF wf markers_facts(4) assms(1)] assms(1) by (simp_all add: link_target_def)
  have b: "obody k v c ?st = Ok (Inl (?rem - 4086, 4086 - ?h, i, j, True, vt, ?w1))"
    using obody_first_multi [OF wf assms(2,4) refl n l(1,2) same_table_refl] e by simp
  have wo: "writes_only vt {i} w ?w1" using assms(2) n e D
    by (intro writes_only_insert slot_dataI(3) markers_facts(4)) simp_all
  have ch: "chain_from vt (writer_query ?w1) MULTIPART (j # js) (drop 4086 D0) c0"
    using assms(1) e ni chain_from_frame [OF wo, of "j # js"] by simp
  have i1: "alloc_inv vt (writer_query ?w1) fl (j # js @ i # used)"
    using alloc_inv_insert_value [OF assms(3), of i]
    by (rule alloc_inv_perm) (use assms(3) in \<open>auto simp: alloc_inv_def\<close>)
  have r: "4086 - ?h \<noteq> 0" "?rem - 4086 = length v - (4086 - ?h)" "0 < ?rem - 4086"
      "unat (vt_filled vt) + (?rem - 4086) < 2 ^ 64"
    using n e el(4) [of vt] assms(6) by simp_all
  obtain vt' w' fl' "is" where ih:
      "loop_r (obody k v c) (?rem - 4086, 4086 - ?h, i, j, True, vt, ?w1) = Ok (i, vt', w')"
      "same_table vt vt'" "alloc_inv vt' (writer_query w') fl' (j # is @ i # used)"
      "chain_from vt (writer_query w') MULTIPART (j # is) (drop (4086 - ?h) v) c"
      "writes_only vt (- set (i # used)) ?w1 w'"
    using overwrite_follow_tail [OF r(1-3) ni(2) assms(2) ch i1 r(4), of k c] by blast
  have dr: "drop 4086 ?D = drop (4086 - ?h) v"
    using el(1) [of vt 1] el(2) el(4) [of vt] by (simp add: entry_data_def)
  have "slot_prefix vt (writer_query w') i (multi_part (head_marker c) j (take 4086 ?D))"
    using slot_prefix_frame [OF ih(5)] by (simp add: slot_prefix_insert_same)
  then have "value_chain vt (writer_query w') (i # j # is) ?D c"
    using n D e assms(2) l(3) ih(4) dr by (simp add: value_chain_def)
  moreover have "alloc_inv vt' (writer_query w') fl' (i # (j # is) @ used)"
    by (rule alloc_inv_perm [OF ih(3)]) (use ih(3) in \<open>auto simp: alloc_inv_def\<close>)
  moreover have "writes_only vt (- set used) w w'"
    using ni by (intro writes_only_trans [OF wo ih(5)]) auto
  moreover have "loop_r (obody k v c) ?st = Ok (i, vt', w')"
    using b ih(1) by (simp add: loop_r_unfold [of _ ?st])
  ultimately show ?thesis using ih(2) by blast
qed

lemma overwrite_existing:
  assumes "alloc_inv vt (writer_query w) fl (is @ used)" "value_chain vt (writer_query w) is D0 c0"
    and "valid_key k" "fits vt k v" "unat (vt_filled vt) + length v + 64 < 2 ^ 64"
  shows "\<exists>vt' w' fl' is'.
    loop_r (obody k v c) (length v + ref_size vt + encoded_size k, 0, 0, hd is, True, vt, w)
      = Ok (hd is, vt', w') \<and> same_table vt vt' \<and>
    alloc_inv vt' (writer_query w') fl' (hd is # is' @ used) \<and>
    value_chain vt (writer_query w') (hd is # is') (entry_data vt 1 k v) c \<and>
    writes_only vt (- set used) w w'"
proof -
  have wf: "wf_table vt" using assms(1) by (simp add: alloc_inv_def)
  from assms(2) wf show ?thesis
  proof (cases rule: value_chain_cases)
    case (single i)
    have ai: "alloc_inv vt (writer_query w) fl (i # used)" and i0: "i \<noteq> 0"
      using assms(1) single(1) by (auto simp: alloc_inv_def)
    have "link_of vt i True w None"
      using read_next_part_last [OF wf single(3,4)] by (simp add: link_of_def)
    note eq = obody_follow_end [OF this, of k v c]
    obtain vt' w' fl' is' where o: "loop_r (obody k v c)
          (length v + ref_size vt + encoded_size k, 0, 0, i, False, vt, w) = Ok (i, vt', w')"
        "same_table vt vt'" "alloc_inv vt' (writer_query w') fl' (i # is' @ used)"
        "value_chain vt (writer_query w') (i # is') (entry_data vt 1 k v) c"
        "writes_only vt (set (i # is')) w w'"
      using overwrite_fresh [OF ai assms(3-5) i0, of c] by blast
    have "writes_only vt (- set used) w w'"
      by (rule writes_only_mono [OF o(5)]) (use o(3) in \<open>auto simp: alloc_inv_def\<close>)
    with o single(1) eq show ?thesis by auto
  next
    case (multi i j js)
    from multi(1) assms(1,2) have "chain_from vt (writer_query w) (head_marker c0) (i # j # js) D0 c0"
        "alloc_inv vt (writer_query w) fl (i # j # js @ used)" by (simp_all add: value_chain_def)
    from overwrite_existing_multi [OF this(1) multi(2) this(2) assms(3-5)] multi(1)
    show ?thesis by auto
  qed
qed

end
