(* ===== verification/Value_Table_Spec.thy ===== *)
theory Value_Table_Spec
  imports Value_Table_Plan
begin

text \<open>
  The contract of a value table: an abstract store from addresses to values, and the proof that
  the planning operations of the table implement it.
\<close>

section \<open>Insertion, removal and replacement keep the invariant\<close>

lemma live_used_disjoint:
  assumes "table_inv vt lq fl (L1 @ x # L2)" "y \<in> set (L1 @ L2)"
  shows "set (fst y) \<inter> set (fst x) = {}"
  using assms by (fastforce simp: table_inv_def alloc_inv_def)

lemma fits_same: "same_table vt vt' \<Longrightarrow> fits vt' = fits vt"
  by (simp add: fits_def same_table_view(3) same_table_def fun_eq_iff ref_size_def)

lemma write_insert_plan_inv:
  assumes "table_inv vt (writer_query w) fl L" "valid_key k" "fits vt k v"
    and "unat (vt_filled vt) + length v + 65 < 2 ^ 64"
  shows "\<exists>i is vt' w' fl'. write_insert_plan vt k v w c = Ok (i, vt', w') \<and> same_table vt vt' \<and>
    table_inv vt' (writer_query w') fl' ((i # is, 1, k, v, c) # L) \<and>
    writes_only vt (set (i # is)) w w' \<and> i \<le> vt_filled vt"
proof -
  let ?used = "concat (map fst L)"
  have inv: "alloc_inv vt (writer_query w) fl ?used" and wf: "wf_table vt"
    using assms(1) by (simp_all add: table_inv_def alloc_inv_def)
  obtain i vt1 fl1 where nf: "next_free vt w = Ok (i, vt1)" "same_table vt vt1" "i \<noteq> 0"
      "alloc_inv vt1 (writer_query w) fl1 (i # ?used)" "unat (vt_filled vt1) \<le> unat (vt_filled vt) + 1"
    using next_free_ok [OF inv room_next [of _ "length v + 65"]] assms(4) by auto
  have f1: "fits vt1 k v" "unat (vt_filled vt1) + length v + 64 < 2 ^ 64"
    using fits_same [OF nf(2)] assms(3,4) nf(5) by simp_all
  obtain vt' w' fl' "is" where o:
      "loop_r (obody k v c) (length v + ref_size vt1 + encoded_size k, 0, 0, i, False, vt1, w) = Ok (i, vt', w')"
      "same_table vt1 vt'" "alloc_inv vt' (writer_query w') fl' (i # is @ ?used)"
      "value_chain vt1 (writer_query w') (i # is) (entry_data vt1 1 k v) c"
      "writes_only vt1 (set (i # is)) w w'"
    using overwrite_fresh [OF nf(4) assms(2) f1 nf(3), of c] by blast
  have st: "same_table vt vt'" by (rule same_table_trans [OF nf(2) o(2)])
  have wo: "writes_only vt (set (i # is)) w w'" using o(5) by (simp add: writes_only_same [OF nf(2)])
  have "live_ok vt' (writer_query w') x" if "x \<in> set L" for x
  proof -
    have "set (fst x) \<inter> set (i # is) = {}" using o(3) that by (fastforce simp: alloc_inv_def)
    then show ?thesis
      using assms(1) that live_ok_frame [OF wo] live_ok_same [OF st] by (simp add: table_inv_def)
  qed
  moreover have "live_ok vt' (writer_query w') (i # is, 1, k, v, c)"
    using o(4) assms(2) live_ok_same [OF o(2), of "writer_query w'"] by (simp add: live_ok_def stored_rc_def)
  ultimately have "table_inv vt' (writer_query w') fl' ((i # is, 1, k, v, c) # L)"
    using o(3) by (simp add: table_inv_def)
  moreover have "write_insert_plan vt k v w c = Ok (i, vt', w')"
    using fits_overwrite [OF assms(3) wf] nf(1) o(1)
    by (simp add: write_insert_plan_def overwrite_chain_def)
  moreover have "i < vt_filled vt1" using nf(4) by (auto simp: alloc_inv_def)
  then have "i \<le> vt_filled vt" using nf(5) by (simp add: word_less_nat_alt word_le_nat_alt)
  ultimately show ?thesis using st wo by blast
qed

lemma table_inv_replace:
  assumes "table_inv vt (writer_query w) fl (L1 @ x # L2)" "same_table vt vt'"
    and "alloc_inv vt' (writer_query w') fl' (concat (map fst (Y @ L1 @ L2)))"
    and "writes_only vt (- set (concat (map fst (L1 @ L2)))) w w'"
    and "\<And>y. y \<in> set Y \<Longrightarrow> live_ok vt (writer_query w') y"
  shows "table_inv vt' (writer_query w') fl' (Y @ L1 @ L2)"
proof -
  have "live_ok vt (writer_query w') y" if "y \<in> set (L1 @ L2)" for y
    using assms(1) that by (subst live_ok_frame [OF assms(4)]) (auto simp: table_inv_def)
  with assms(3,5) live_ok_same [OF assms(2)] show ?thesis by (auto simp: table_inv_def)
qed

lemma alloc_front:
  assumes "table_inv vt lq fl (L1 @ x # L2)"
  shows "alloc_inv vt lq fl (fst x @ concat (map fst (L1 @ L2)))" "live_ok vt lq x"
proof -
  have "alloc_inv vt lq fl (concat (map fst (L1 @ x # L2)))" using assms by (simp add: table_inv_def)
  then show "alloc_inv vt lq fl (fst x @ concat (map fst (L1 @ L2)))"
    by (rule alloc_inv_perm) (use assms in \<open>auto simp: table_inv_def alloc_inv_def\<close>)
  show "live_ok vt lq x" using assms by (simp add: table_inv_def)
qed

lemma write_remove_plan_inv:
  assumes "table_inv vt (writer_query w) fl (L1 @ x # L2)"
  shows "\<exists>vt' w'. write_remove_plan vt (hd (fst x)) w = Ok (vt', w') \<and> same_table vt vt' \<and>
    table_inv vt' (writer_query w') (rev (fst x) @ fl) (L1 @ L2) \<and> writes_only vt (set (fst x)) w w'"
proof -
  obtain "is" rc k v c where x: "x = (is, rc, k, v, c)" by (cases x)
  note af = alloc_front [OF assms]
  have wf: "wf_table vt" using af(1) by (simp add: alloc_inv_def)
  have vc: "value_chain vt (writer_query w) is (entry_data vt rc k v) c" using af(2) x by (simp add: live_ok_def)
  have "\<exists>vt' w'. write_remove_plan vt (hd is) w = Ok (vt', w') \<and> same_table vt vt' \<and>
      alloc_inv vt' (writer_query w') (rev is @ fl) (concat (map fst (L1 @ L2))) \<and>
      writes_only vt (set is) w w'"
    using vc wf
  proof (cases rule: value_chain_cases)
    case (single i)
    then show ?thesis
      using clear_slot_ok [of vt w fl i] af(1) x by (fastforce simp: write_remove_plan_def)
  next
    case (multi i j js)
    have "chain_from vt (writer_query w) (head_marker c) is (entry_data vt rc k v) c"
        "alloc_inv vt (writer_query w) fl (is @ concat (map fst (L1 @ L2)))"
      using vc af(1) x by (simp_all add: value_chain_def)
    from clear_chain_ok [OF markers_facts(4) this] multi(2)
    show ?thesis by (auto simp: write_remove_plan_def)
  qed
  then obtain vt' w' where r: "write_remove_plan vt (hd is) w = Ok (vt', w')" "same_table vt vt'"
      "alloc_inv vt' (writer_query w') (rev is @ fl) (concat (map fst (L1 @ L2)))"
      "writes_only vt (set is) w w'" by blast
  have "writes_only vt (- set (concat (map fst (L1 @ L2)))) w w'"
    using alloc_inv_disjoint [OF af(1)] x by (intro writes_only_mono [OF r(4)]) auto
  from table_inv_replace [OF assms r(2), of w' "rev is @ fl" "[]"] this r(3)
  have "table_inv vt' (writer_query w') (rev is @ fl) (L1 @ L2)" by simp
  with r x show ?thesis by auto
qed

lemma write_replace_plan_inv:
  assumes "table_inv vt (writer_query w) fl (L1 @ (is, old) # L2)" "valid_key k" "fits vt k v"
    and "unat (vt_filled vt) + length v + 64 < 2 ^ 64"
  shows "\<exists>vt' w' fl' is'. write_replace_plan vt (hd is) k v w c = Ok (vt', w') \<and> same_table vt vt' \<and>
    table_inv vt' (writer_query w') fl' ((hd is # is', 1, k, v, c) # L1 @ L2) \<and>
    writes_only vt (- set (concat (map fst (L1 @ L2)))) w w'"
proof -
  let ?used = "concat (map fst (L1 @ L2))"
  obtain rc k0 v0 c0 where x: "old = (rc, k0, v0, c0)" by (cases old)
  note af = alloc_front [OF assms(1)]
  have wf: "wf_table vt" using af(1) by (simp add: alloc_inv_def)
  have vc: "value_chain vt (writer_query w) is (entry_data vt rc k0 v0) c0" using af(2) x by (simp add: live_ok_def)
  obtain vt' w' fl' is' where o:
      "loop_r (obody k v c) (length v + ref_size vt + encoded_size k, 0, 0, hd is, True, vt, w) = Ok (hd is, vt', w')"
      "same_table vt vt'" "alloc_inv vt' (writer_query w') fl' (hd is # is' @ ?used)"
      "value_chain vt (writer_query w') (hd is # is') (entry_data vt 1 k v) c"
      "writes_only vt (- set ?used) w w'"
    using overwrite_existing [OF _ vc assms(2-4), of fl ?used c] af(1) by fastforce
  have "live_ok vt (writer_query w') (hd is # is', 1, k, v, c)"
    using o(4) assms(2) by (simp add: live_ok_def stored_rc_def)
  then have "table_inv vt' (writer_query w') fl' ((hd is # is', 1, k, v, c) # L1 @ L2)"
    using table_inv_replace [OF assms(1) o(2) _ o(5), of fl' "[(hd is # is', 1, k, v, c)]"] o(3) by simp
  moreover have "write_replace_plan vt (hd is) k v w c = Ok (vt', w')"
    using fits_overwrite [OF assms(3) wf] o(1) by (simp add: write_replace_plan_def overwrite_chain_def)
  ultimately show ?thesis using o(2,5) by blast
qed

section \<open>Reference counting\<close>

lemma change_counter_inc:
  "\<exists>rc'. change_counter rc 1 = Some rc' \<and> unat rc' = min (unat rc + 1) (2 ^ 32 - 1)"
proof (cases "rc \<ge> LOCKED_REF - 1")
  case True
  then have "unat rc \<ge> 2 ^ 32 - 2" by (simp add: word_le_nat_alt)
  with True show ?thesis by (simp add: change_counter_def)
next
  case False
  then have "unat rc < 2 ^ 32 - 2" by (simp add: word_le_nat_alt)
  then have "unat (rc + 1) = unat rc + 1" by (simp add: unat_word_ariths)
  with False \<open>unat rc < 2 ^ 32 - 2\<close> show ?thesis by (simp add: change_counter_def)
qed

lemma change_counter_dec:
  assumes "rc > 0"
  shows "change_counter rc (- 1) =
    (if rc = LOCKED_REF then Some rc else if rc = 1 then None else Some (rc - 1))"
proof -
  have "\<not> rc < 1" using assms by (auto simp: word_less_nat_alt unat_gt_0)
  moreover have "rc - 1 = 0 \<longleftrightarrow> rc = 1" by simp
  ultimately show ?thesis by (simp add: change_counter_def)
qed

text \<open>The bytes of an entry around the counter, which starts at offset \<open>length pre\<close>.\<close>

lemma rewrite_rc:
  assumes "holds e (pre @ u32_to_le rc @ rest)" "en_off e = length pre" "en_cap e = MAX_ENTRY_BUF_SIZE"
    and "length pre \<le> 10"
  shows "read_rc e = Ok (rc, e\<lparr>en_off := length pre + 4\<rparr>)"
    and "\<exists>e2. write_rc rc' (set_offset (length pre) (e\<lparr>en_off := length pre + 4\<rparr>)) = Ok e2 \<and>
    length pre + 4 + length rest \<le> length (en_buf e2) \<and>
    take (length pre + 4 + length rest) (en_buf e2) = pre @ u32_to_le rc' @ rest"
proof -
  let ?B = "pre @ u32_to_le rc @ rest" and ?e1 = "e\<lparr>en_off := length pre + 4\<rparr>"
  show "read_rc e = Ok (rc, ?e1)"
    using read_slice_holds [OF assms(1), of 4] assms(2) by (simp add: read_rc_def read_u32_def subslice_def)
  obtain t where t: "en_buf e = ?B @ t"
    using assms(1) append_take_drop_id [of "length ?B" "en_buf e"] unfolding holds_def by metis
  have "write_rc rc' (set_offset (length pre) ?e1) =
      Ok (e\<lparr>en_off := length pre + 4, en_buf := pre @ u32_to_le rc' @ rest @ t\<rparr>)"
    using assms(3,4) t by (simp add: write_rc_def set_offset_def write_slice_def blit_def)
  then show "\<exists>e2. write_rc rc' (set_offset (length pre) ?e1) = Ok e2 \<and>
      length pre + 4 + length rest \<le> length (en_buf e2) \<and>
      take (length pre + 4 + length rest) (en_buf e2) = pre @ u32_to_le rc' @ rest" by simp
qed

lemma change_ref_single:
  assumes "wf_table vt" "\<not> vt_multipart vt" "vt_ref_counted vt" "valid_key k"
    and "length (entry_data vt rc k v) \<le> es vt - SIZE_SIZE"
    and "slot_prefix vt (writer_query w) i (last_part (entry_data vt rc k v) c)"
  shows "change_ref vt i d w = (case change_counter rc d of None \<Rightarrow> Ok (False, w)
    | Some rc' \<Rightarrow> Ok (True, insert_value (vt_id vt) i (last_part (entry_data vt rc' k v) c) w))"
proof -
  let ?D = "entry_data vt rc k v"
  let ?s = "u16_to_le (size_word (word_of_nat (length ?D)) c)"
  obtain e where e: "load_slot vt (writer_query w) i MAX_ENTRY_BUF_SIZE (es vt) = Ok e" "en_off e = 0"
      "en_cap e = MAX_ENTRY_BUF_SIZE" "holds e (last_part ?D c)"
    using load_last [OF assms(1,5,6)] by blast
  note l = last_part_facts [OF assms(1,5)]
  have t: "is_tombstone e = Ok False"
    using head_is_holds [OF e(4)] l(1,2) by (simp add: is_tombstone_def)
  have rs: "read_size e = Ok ((word_of_nat (length ?D), c), e\<lparr>en_off := 2\<rparr>)"
    using read_slice_holds [OF e(4), of 2] e(2) l by (simp add: read_size_def Let_def del: COMPRESSED_MASK_def)
  have D: "last_part (entry_data vt r k v) c = ?s @ u32_to_le r @ (key_bytes k @ v)" for r
    using assms(3) by (simp add: last_part_def entry_data_def rc_bytes_def)
  have lD: "length ?D = 4 + length (key_bytes k @ v)" using assms(3) by (simp add: entry_data_def rc_bytes_def)
  have hB: "holds (e\<lparr>en_off := 2\<rparr>) (?s @ u32_to_le rc @ (key_bytes k @ v))" using e(4) D by simp
  show ?thesis
  proof (cases "change_counter rc d")
    case None
    with e(1) t rs rewrite_rc(1) [OF hB] e(3) assms(2) l(6) show ?thesis by (simp add: change_ref_def)
  next
    case (Some rc')
    obtain e2 where w: "write_rc rc' (set_offset 2 (e\<lparr>en_off := 6\<rparr>)) = Ok e2"
        "2 + length ?D \<le> length (en_buf e2)"
        "take (2 + length ?D) (en_buf e2) = last_part (entry_data vt rc' k v) c"
      using rewrite_rc(2) [OF hB, of rc'] e(3) lD D by auto
    with Some e(1) t rs rewrite_rc(1) [OF hB] e(3) assms(2) l(6) show ?thesis by (simp add: change_ref_def)
  qed
qed

lemma change_ref_multi:
  assumes "wf_table vt" "vt_multipart vt" "vt_ref_counted vt" "valid_key k" "es vt = 4096"
    and "length (entry_data vt rc k v) > 4094"
    and "slot_prefix vt (writer_query w) i (multi_part (head_marker c) j (take 4086 (entry_data vt rc k v)))"
  shows "change_ref vt i d w = (case change_counter rc d of None \<Rightarrow> Ok (False, w)
    | Some rc' \<Rightarrow> Ok (True, insert_value (vt_id vt) i
        (multi_part (head_marker c) j (take 4086 (entry_data vt rc' k v))) w))"
proof -
  let ?P = "\<lambda>r. take 4086 (entry_data vt r k v)" and ?s = "head_marker c @ u64_to_le j"
  define rest where "rest = take 4082 (key_bytes k @ v)"
  have mk: "head_marker c \<in> markers" "length (head_marker c) = 2"
    using markers_facts(1,4) by blast+
  obtain e where e: "load_slot vt (writer_query w) i MAX_ENTRY_BUF_SIZE (es vt) = Ok e" "en_off e = 0"
      "en_cap e = MAX_ENTRY_BUF_SIZE" "holds e (multi_part (head_marker c) j (?P rc))"
    using load_multi [OF assms(1) mk(1) _ assms(7)] assms(5) by auto
  have h: "head_is m e = Ok (head_marker c = m)" for m
    using head_is_holds [OF e(4)] multi_part_head(1) [OF mk(1)] mk(2) by simp
  have t: "is_tombstone e = Ok False" "is_multi (vt_db_version vt) e = Ok True"
    by (auto simp: head_tests h head_marker_def)
  have D: "multi_part (head_marker c) j (?P r) = ?s @ u32_to_le r @ rest" for r
    using assms(3) by (simp add: multi_part_def entry_data_def rc_bytes_def rest_def)
  have lr: "length rest = 4082" using assms(3,6) by (simp add: entry_data_def rc_bytes_def rest_def)
  have hB: "holds (e\<lparr>en_off := 10\<rparr>) (?s @ u32_to_le rc @ rest)" using e(4) D by simp
  have sk: "skip_next (skip_size e) = e\<lparr>en_off := 10\<rparr>"
    using e(2) by (simp add: skip_size_0 skip_next_def skip_u64_def)
  show ?thesis
  proof (cases "change_counter rc d")
    case None
    with e(1) t sk rewrite_rc(1) [OF hB] e(3) mk(2) assms(2,5) show ?thesis by (simp add: change_ref_def)
  next
    case (Some rc')
    obtain e2 where w: "write_rc rc' (set_offset 10 (e\<lparr>en_off := 14\<rparr>)) = Ok e2"
        "4096 \<le> length (en_buf e2)"
        "take 4096 (en_buf e2) = multi_part (head_marker c) j (?P rc')"
      using rewrite_rc(2) [OF hB, of rc'] e(3) mk(2) lr D by auto
    with Some e(1) t sk rewrite_rc(1) [OF hB] e(3) mk(2) assms(2,5) show ?thesis by (simp add: change_ref_def)
  qed
qed

definition rc_slot :: "value_table \<Rightarrow> u64 list \<Rightarrow> table_key \<Rightarrow> bytes \<Rightarrow> bool \<Rightarrow> u32 \<Rightarrow> bytes" where
  "rc_slot vt is k v c r =
     (case is of i # j # _ \<Rightarrow> multi_part (head_marker c) j (take 4086 (entry_data vt r k v))
                | _ \<Rightarrow> last_part (entry_data vt r k v) c)"

lemma change_ref_chain:
  assumes "wf_table vt" "vt_ref_counted vt" "valid_key k"
    and "value_chain vt (writer_query w) is (entry_data vt rc k v) c" "distinct is"
  shows "change_ref vt (hd is) d w = (case change_counter rc d of None \<Rightarrow> Ok (False, w)
      | Some rc' \<Rightarrow> Ok (True, insert_value (vt_id vt) (hd is) (rc_slot vt is k v c rc') w))"
    and "value_chain vt (writer_query (insert_value (vt_id vt) (hd is) (rc_slot vt is k v c r) w)) is
      (entry_data vt r k v) c"
    and "hd is \<in> set is" "slot_data vt (rc_slot vt is k v c r)"
proof -
  note el = entry_data_lengths(3) [OF assms(3)]
  have "(change_ref vt (hd is) d w = (case change_counter rc d of None \<Rightarrow> Ok (False, w)
      | Some rc' \<Rightarrow> Ok (True, insert_value (vt_id vt) (hd is) (rc_slot vt is k v c rc') w))) \<and>
      value_chain vt (writer_query (insert_value (vt_id vt) (hd is) (rc_slot vt is k v c r) w)) is
      (entry_data vt r k v) c \<and> hd is \<in> set is \<and> slot_data vt (rc_slot vt is k v c r)"
    using assms(4,1)
  proof (cases rule: value_chain_cases)
    case (single i)
    then show ?thesis
      using change_ref_single [OF assms(1) single(2) assms(2,3) single(3,4), of d]
      by (cases "change_counter rc d")
        (simp_all add: rc_slot_def value_chain_def slot_prefix_insert_same el slot_dataI)
  next
    case (multi i j js)
    let ?w = "insert_value (vt_id vt) i (rc_slot vt is k v c r) w"
    have sd: "slot_data vt (rc_slot vt is k v c r)" using multi(1-4)
      by (auto simp: rc_slot_def el intro!: slot_dataI(3) markers_facts(4))
    have "chain_from vt (writer_query ?w) MULTIPART (j # js) (drop 4086 (entry_data vt rc k v)) c"
      using chain_from_frame [OF writes_only_insert [of i "{i}", OF _ sd], of "j # js"] multi(1,7) assms(5)
      by simp
    moreover have "drop 4086 (entry_data vt r k v) = drop 4086 (entry_data vt rc k v)"
      by (simp add: entry_data_def rc_bytes_def)
    ultimately have "value_chain vt (writer_query ?w) is (entry_data vt r k v) c"
      using multi(1-5) by (simp add: value_chain_def slot_prefix_insert_same el rc_slot_def)
    then show ?thesis
      using change_ref_multi [OF assms(1) multi(2) assms(2,3) multi(3,4,6), of d] multi(1) sd
      by (cases "change_counter rc d") (simp_all add: rc_slot_def)
  qed
  then show "change_ref vt (hd is) d w = (case change_counter rc d of None \<Rightarrow> Ok (False, w)
      | Some rc' \<Rightarrow> Ok (True, insert_value (vt_id vt) (hd is) (rc_slot vt is k v c rc') w))"
    "value_chain vt (writer_query (insert_value (vt_id vt) (hd is) (rc_slot vt is k v c r) w)) is
      (entry_data vt r k v) c" "hd is \<in> set is" "slot_data vt (rc_slot vt is k v c r)" by blast+
qed

lemma change_ref_inv:
  assumes "table_inv vt (writer_query w) fl (L1 @ (is, rc, k, v, c) # L2)" "vt_ref_counted vt"
  shows "change_counter rc d = None \<Longrightarrow> change_ref vt (hd is) d w = Ok (False, w)"
    and "change_counter rc d = Some rc' \<Longrightarrow> rc' > 0 \<Longrightarrow>
      \<exists>w'. change_ref vt (hd is) d w = Ok (True, w') \<and>
        table_inv vt (writer_query w') fl (L1 @ (is, rc', k, v, c) # L2) \<and>
        writes_only vt {hd is} w w'"
proof -
  note af = alloc_front [OF assms(1)]
  have wf: "wf_table vt" and di: "distinct is" using af(1) by (simp_all add: alloc_inv_def)
  have vc: "value_chain vt (writer_query w) is (entry_data vt rc k v) c" "valid_key k"
    using af(2) by (simp_all add: live_ok_def)
  note d' = change_ref_chain [OF wf assms(2) vc(2,1) di]
  show "change_ref vt (hd is) d w = Ok (False, w)" if "change_counter rc d = None"
    using d'(1) [of d] that by simp
  assume c: "change_counter rc d = Some rc'" "rc' > 0"
  let ?w = "insert_value (vt_id vt) (hd is) (rc_slot vt is k v c rc') w"
  have wo: "writes_only vt {hd is} w ?w" by (simp add: writes_only_insert d'(4))
  have "live_ok vt (writer_query ?w) x" if "x \<in> set (L1 @ L2)" for x
  proof -
    have "set (fst x) \<inter> {hd is} = {}" using live_used_disjoint [OF assms(1) that] d'(3) by auto
    then show ?thesis using assms(1) that live_ok_frame [OF wo] by (auto simp: table_inv_def)
  qed
  moreover have "live_ok vt (writer_query ?w) (is, rc', k, v, c)"
    using d'(2) vc(2) c(2) by (simp add: live_ok_def stored_rc_def)
  moreover have "alloc_inv vt (writer_query ?w) fl (concat (map fst (L1 @ (is, rc', k, v, c) # L2)))"
    using assms(1) d'(3) alloc_inv_insert_value [of vt w fl "concat (map fst (L1 @ (is, rc, k, v, c) # L2))"]
    by (simp add: table_inv_def)
  ultimately have "table_inv vt (writer_query ?w) fl (L1 @ (is, rc', k, v, c) # L2)"
    by (simp add: table_inv_def ball_Un)
  with d'(1) [of d] c(1) wo show "\<exists>w'. change_ref vt (hd is) d w = Ok (True, w') \<and>
      table_inv vt (writer_query w') fl (L1 @ (is, rc', k, v, c) # L2) \<and>
      writes_only vt {hd is} w w'" by simp
qed

lemma write_inc_ref_inv:
  assumes "table_inv vt (writer_query w) fl (L1 @ (is, rc, k, v, c) # L2)" "vt_ref_counted vt"
  shows "\<exists>w' rc'. write_inc_ref vt (hd is) w = Ok w' \<and> unat rc' = min (unat rc + 1) (2 ^ 32 - 1) \<and>
    table_inv vt (writer_query w') fl (L1 @ (is, rc', k, v, c) # L2)"
proof -
  obtain rc' where rc': "change_counter rc 1 = Some rc'" "unat rc' = min (unat rc + 1) (2 ^ 32 - 1)"
    using change_counter_inc by blast
  then have "rc' > 0" by (simp add: word_less_nat_alt)
  with change_ref_inv(2) [OF assms rc'(1)] rc'(2) show ?thesis by (auto simp: write_inc_ref_def)
qed

lemma write_dec_ref_inv:
  assumes "table_inv vt (writer_query w) fl (L1 @ (is, rc, k, v, c) # L2)" "vt_ref_counted vt"
  shows "rc = 1 \<Longrightarrow> \<exists>vt' w'. write_dec_ref vt (hd is) w = Ok (False, vt', w') \<and> same_table vt vt' \<and>
      table_inv vt' (writer_query w') (rev is @ fl) (L1 @ L2)"
    and "rc \<noteq> 1 \<Longrightarrow> \<exists>w'. write_dec_ref vt (hd is) w = Ok (True, vt, w') \<and>
      table_inv vt (writer_query w') fl
        (L1 @ (is, if rc = LOCKED_REF then rc else rc - 1, k, v, c) # L2)"
proof -
  have "live_ok vt (writer_query w) (is, rc, k, v, c)" using alloc_front(2) [OF assms(1)] .
  then have rc: "rc > 0" using assms(2) by (simp add: live_ok_def stored_rc_def)
  note dec = change_counter_dec [OF rc]
  show "\<exists>vt' w'. write_dec_ref vt (hd is) w = Ok (False, vt', w') \<and> same_table vt vt' \<and>
      table_inv vt' (writer_query w') (rev is @ fl) (L1 @ L2)" if "rc = 1"
  proof -
    have "change_ref vt (hd is) (- 1) w = Ok (False, w)"
      using dec that by (intro change_ref_inv(1) [OF assms]) simp
    with write_remove_plan_inv [OF assms(1)] show ?thesis by (auto simp: write_dec_ref_def)
  qed
  assume "rc \<noteq> 1"
  let ?rc' = "if rc = LOCKED_REF then rc else rc - 1"
  have "change_counter rc (- 1) = Some ?rc'" "?rc' > 0" using dec \<open>rc \<noteq> 1\<close> rc by (auto simp: word_gt_0)
  from change_ref_inv(2) [OF assms this] show "\<exists>w'. write_dec_ref vt (hd is) w = Ok (True, vt, w') \<and>
      table_inv vt (writer_query w') fl (L1 @ (is, ?rc', k, v, c) # L2)"
    by (auto simp: write_dec_ref_def simp del: LOCKED_REF_def split del: if_split)
qed

end
