(* ===== verification/Value_Table_Enact.thy ===== *)
theory Value_Table_Enact
  imports Value_Table_Spec
begin

text \<open>
  Enacting logged changes: growing the file, writing a logged slot into it, and the header. The
  entry a slot has in the log and the bytes it has in the file after enacting are read alike,
  although the file keeps the rest of the slot's old content behind the entry.
\<close>

section \<open>Growing\<close>

definition file_inv :: "value_table \<Rightarrow> bool" where
  "file_inv vt \<longleftrightarrow>
     (case tf_file (vt_file vt) of
        None \<Rightarrow> tf_capacity (vt_file vt) = 0
      | Some f \<Rightarrow> unat (tf_capacity (vt_file vt)) = length f div es vt \<and> length f < 2 ^ 64)"

text \<open>\<open>grown vt v\<close>: \<open>v\<close> is \<open>vt\<close> with a file in which everything can be read as before.\<close>

definition grown :: "value_table \<Rightarrow> value_table \<Rightarrow> bool" where
  "grown vt v \<longleftrightarrow>
     v = vt\<lparr>vt_file := vt_file v\<rparr> \<and> file_inv v \<and>
     (\<forall>n off bs. read_at (vt_file vt) n off = Ok bs \<longrightarrow> read_at (vt_file v) n off = Ok bs)"

lemma grow_slots: "wf_table vt \<Longrightarrow> 8 \<le> GROW_SIZE_BYTES div es vt"
  using div_le_mono2 [of "es vt" "0x7ff8" "GROW_SIZE_BYTES"] wf_table_bounds [of vt]
  by (simp add: GROW_SIZE_BYTES_def)

lemma grow_once:
  assumes "wf_table vt" "file_inv vt" "unat (tf_capacity (vt_file vt)) * es vt + GROW_SIZE_BYTES < 2 ^ 64"
  defines "v \<equiv> vt\<lparr>vt_file := grow (vt_file vt) (vt_entry_size vt)\<rparr>"
  shows "unat (tf_capacity (vt_file v)) = unat (tf_capacity (vt_file vt)) + GROW_SIZE_BYTES div es vt"
    and "grown vt v" and "tf_file (vt_file v) \<noteq> None"
proof -
  let ?c = "unat (tf_capacity (vt_file vt))" and ?g = "GROW_SIZE_BYTES div es vt"
  let ?f = "case tf_file (vt_file vt) of None \<Rightarrow> [] | Some f \<Rightarrow> f"
  have e: "32 \<le> es vt" using wf_table_bounds [OF assms(1)] by simp
  have "?g * es vt \<le> GROW_SIZE_BYTES" by simp
  then have le: "(?c + ?g) * es vt < 2 ^ 64" using assms(3) unfolding distrib_right by linarith
  moreover have "?c + ?g \<le> (?c + ?g) * es vt" using e by simp
  ultimately have cg: "?c + ?g < 2 ^ 64" by linarith
  have g64: "?g < 2 ^ 64" using cg by linarith
  have u1: "unat (tf_capacity (vt_file vt) + word_of_nat ?g) = ?c + ?g"
    using cg g64 by (simp add: unat_word_ariths unat_of_nat)
  then have u2: "unat ((tf_capacity (vt_file vt) + word_of_nat ?g) * ucast (vt_entry_size vt)) = (?c + ?g) * es vt"
    using le by (simp add: unat_word_ariths)
  have fl: "length ?f < (?c + 1) * es vt"
    using assms(2) e dividend_less_times_div [of "es vt" "length ?f"]
    by (auto simp: file_inv_def mult.commute split: option.splits)
  have "1 \<le> ?g" using grow_slots [OF assms(1)] by simp
  then have "(?c + 1) * es vt \<le> (?c + ?g) * es vt" by (intro mult_le_mono1) simp
  with fl have fl2: "length ?f \<le> (?c + ?g) * es vt" by linarith
  have gr: "tf_file (vt_file v) = Some (?f @ replicate ((?c + ?g) * es vt - length ?f) 0)"
      "tf_capacity (vt_file v) = tf_capacity (vt_file vt) + word_of_nat ?g"
    using fl2 u2 by (simp_all add: v_def grow_def Let_def set_len_def)
  show "unat (tf_capacity (vt_file v)) = ?c + ?g" using gr(2) u1 by simp
  have lv: "length (?f @ replicate ((?c + ?g) * es vt - length ?f) 0) = (?c + ?g) * es vt" using fl2 by simp
  have "file_inv v" using gr u1 lv e le by (simp add: file_inv_def v_def)
  moreover have "read_at (vt_file v) n off = Ok bs" if "read_at (vt_file vt) n off = Ok bs" for n off bs
    using that gr(1) by (auto simp: read_at_def subslice_append1 split: option.splits if_splits)
  ultimately show "grown vt v" by (simp add: grown_def v_def)
  show "tf_file (vt_file v) \<noteq> None" using gr(1) by simp
qed

lemma grown_refl: "file_inv vt \<Longrightarrow> grown vt vt"
  by (simp add: grown_def)

lemma grown_trans: "grown a b \<Longrightarrow> grown b c \<Longrightarrow> grown a c"
  unfolding grown_def by (smt (verit, ccfv_threshold) value_table.surjective value_table.update_convs(3))

lemma grow_to_ok:
  assumes "wf_table vt" "file_inv vt" "unat index * es vt + GROW_SIZE_BYTES < 2 ^ 64"
  shows "\<exists>v. grow_to vt index = Ok v \<and> grown vt v \<and> index < tf_capacity (vt_file v)"
  unfolding grow_to_def
proof (rule loop_r_rule [where I = "\<lambda>v. grown vt v" and
      \<mu> = "\<lambda>v. Suc (unat index) - unat (tf_capacity (vt_file v))"])
  show "grown vt vt" by (rule grown_refl [OF assms(2)])
next
  fix v v'
  assume g: "grown vt v" and b: "(if index \<ge> tf_capacity (vt_file v)
      then Ok (Inl (v\<lparr>vt_file := grow (vt_file v) (vt_entry_size v)\<rparr>)) else Ok (Inr v)) = Ok (Inl v')"
  have v: "wf_table v" "file_inv v" "es v = es vt"
    using g assms(1) unfolding grown_def by (metis value_table.select_convs value_table.surjective
        value_table.update_convs(3) wf_table_def)+
  from b have c: "tf_capacity (vt_file v) \<le> index" "v' = v\<lparr>vt_file := grow (vt_file v) (vt_entry_size v)\<rparr>"
    by (auto split: if_splits)
  have "unat (tf_capacity (vt_file v)) * es vt \<le> unat index * es vt"
    using c(1) by (intro mult_le_mono1) (simp add: word_le_nat_alt)
  then have "unat (tf_capacity (vt_file v)) * es v + GROW_SIZE_BYTES < 2 ^ 64"
    unfolding v(3) using assms(3) by linarith
  from grow_once [OF v(1,2) this] c grow_slots [OF v(1)] grown_trans [OF g]
  show "grown vt v' \<and> Suc (unat index) - unat (tf_capacity (vt_file v')) <
      Suc (unat index) - unat (tf_capacity (vt_file v))"
    by (auto simp: word_le_nat_alt)
qed (auto split: if_splits)

section \<open>Logged entries are self-delimiting\<close>

lemma head_is_take2: "2 \<le> length d \<Longrightarrow> head_is m (entry_new (take 2 d)) = Ok (take 2 d = m)"
  by (simp add: head_is_def entry_new_def)

lemma slot_data_length:
  assumes "wf_table vt" "slot_data vt d"
  shows "2 \<le> length d" "length d \<le> es vt"
proof -
  have e: "32 \<le> es vt" "es vt \<le> 0x7ff8" using wf_table_bounds [OF assms(1)] by simp_all
  have "2 \<le> length d \<and> length d \<le> es vt"
    using assms(2) unfolding slot_data_def
  proof (elim disjE exE conjE)
    fix D c assume "length D \<le> es vt - SIZE_SIZE" "d = last_part D c"
    then show ?thesis using last_part_facts(1) [OF assms(1), of D c] e by simp
  qed (use e markers_facts(1) in auto)
  then show "2 \<le> length d" "length d \<le> es vt" by simp_all
qed

lemma slot_tail_len_ok:
  assumes "wf_table vt" "slot_data vt d"
  shows "slot_tail_len vt (take 2 d) = Ok (length d - 2)"
proof -
  have e: "32 \<le> es vt" "es vt \<le> 0x7ff8" using wf_table_bounds [OF assms(1)] by simp_all
  have h: "head_is m (entry_new (take 2 d)) = Ok (take 2 d = m)" for m
    by (rule head_is_take2 [OF slot_data_length(1) [OF assms]])
  show ?thesis
    using assms(2) unfolding slot_data_def
  proof (elim disjE exE conjE)
    fix n assume "d = free_entry n"
    with h show ?thesis by (simp add: slot_tail_len_def is_tombstone_def)
  next
    fix D c assume D: "length D \<le> es vt - SIZE_SIZE" "d = last_part D c"
    note f = last_part_facts [OF assms(1) D(1)]
    have "read_size (entry_new (take 2 d)) = Ok ((word_of_nat (length D), c), entry_new (take 2 d)\<lparr>en_off := 2\<rparr>)"
      using f(1,4,5) [of c] D(2)
      by (simp add: read_size_def read_slice_def entry_new_def Let_def del: COMPRESSED_MASK_def)
    moreover have "(if vt_multipart vt then is_multi (vt_db_version vt) (entry_new (take 2 d)) else Ok False) = Ok False"
      using f(2,3) [of c] D(2) h by (auto simp: head_tests)
    moreover have "is_tombstone (entry_new (take 2 d)) = Ok False"
      using f(2) [of c] D(2) h by (simp add: is_tombstone_def)
    moreover have "length d = 2 + length D" using f(1) [of c] D(2) by simp
    moreover have "length D \<le> 32766" using D(1) e by simp
    ultimately show ?thesis using f(6) by (simp add: slot_tail_len_def split del: if_split)
  next
    fix mk j P assume m: "vt_multipart vt" "mk \<in> markers" "length P = es vt - 10" "d = multi_part mk j P"
    have t: "take 2 d = mk" using multi_part_head(1) [OF m(2)] m(4) by simp
    have "is_multi (vt_db_version vt) (entry_new (take 2 d)) = Ok True"
      using m(2) h t unfolding markers_def insert_iff empty_iff
      by (elim disjE) (simp_all add: head_tests)
    moreover have "is_tombstone (entry_new (take 2 d)) = Ok False"
      using h t markers_facts(2) [OF m(2)] by (simp add: is_tombstone_def)
    ultimately show ?thesis
      using m markers_facts(1) [OF m(2)] e by (simp add: slot_tail_len_def)
  qed
qed

lemma log_read_split:
  assumes "at_bytes r (d @ rest)" "2 \<le> length d"
  shows "log_read r 2 = Ok (take 2 d, advance (take 2 d) r)"
    and "log_read (advance (take 2 d) r) (length d - 2) = Ok (drop 2 d, advance d r)"
    and "at_bytes (advance d r) rest"
proof -
  have a: "at_bytes r (take 2 d @ drop 2 d @ rest)" using assms(1) by (metis append.assoc append_take_drop_id)
  show "log_read r 2 = Ok (take 2 d, advance (take 2 d) r)"
    using log_read_at(1) [OF a] assms(2) by simp
  have b: "at_bytes (advance (take 2 d) r) (drop 2 d @ rest)"
    using log_read_at(2) [OF a refl] .
  show "log_read (advance (take 2 d) r) (length d - 2) = Ok (drop 2 d, advance d r)"
    using log_read_at(1) [OF b] by simp
  show "at_bytes (advance d r) rest" using log_read_at(2) [OF b refl] by simp
qed

text \<open>Validating consumes exactly the bytes of the entry.\<close>

lemma vt_validate_plan_ok:
  assumes "wf_table vt" "slot_data vt d" "at_bytes r (d @ rest)" "i \<noteq> 0"
  shows "vt_validate_plan vt i r = Ok (advance d r)"
  using log_read_split [OF assms(3) slot_data_length(1) [OF assms(1,2)]] slot_tail_len_ok [OF assms(1,2)] assms(4)
  by (simp add: vt_validate_plan_def)

section \<open>Enacting a slot\<close>

lemma slot_offset_le:
  assumes "unat i * es vt < 2 ^ 64"
  shows "slot_offset vt i = unat i * es vt"
  using assms by (simp add: slot_offset_def unat_word_ariths)

lemma slot_in_file:
  assumes "wf_table vt" "file_inv vt" "i < tf_capacity (vt_file vt)"
  shows "\<exists>f. tf_file (vt_file vt) = Some f \<and> unat i * es vt + es vt \<le> length f \<and> length f < 2 ^ 64"
proof -
  have ui: "unat i < unat (tf_capacity (vt_file vt))" using assms(3) by (simp add: word_less_nat_alt)
  then obtain f where f: "tf_file (vt_file vt) = Some f" "unat (tf_capacity (vt_file vt)) = length f div es vt"
      "length f < 2 ^ 64" using assms(2) by (auto simp: file_inv_def split: option.splits)
  have "(unat i + 1) * es vt \<le> (length f div es vt) * es vt" using ui f(2) by (intro mult_le_mono1) simp
  also have "\<dots> \<le> length f" by simp
  finally show ?thesis using f by simp
qed

lemma write_slot_ok:
  assumes "wf_table vt" "file_inv vt" "i < tf_capacity (vt_file vt)" "length d \<le> es vt"
  shows "\<exists>v. write_slot vt d i = Ok v \<and> v = vt\<lparr>vt_file := vt_file v\<rparr> \<and> file_inv v \<and>
    (\<exists>t. read_at (vt_file v) (es vt) (slot_offset vt i) = Ok (d @ t)) \<and>
    (\<forall>j n. j \<noteq> i \<longrightarrow> unat j * es vt < 2 ^ 64 \<longrightarrow> n \<le> es vt \<longrightarrow>
       read_at (vt_file v) n (slot_offset vt j) = read_at (vt_file vt) n (slot_offset vt j))"
proof -
  obtain f where f: "tf_file (vt_file vt) = Some f" "unat i * es vt + es vt \<le> length f" "length f < 2 ^ 64"
    using slot_in_file [OF assms(1-3)] by blast
  have so: "slot_offset vt i = unat i * es vt" using f by (intro slot_offset_le) linarith
  let ?f = "blit (unat i * es vt) d f" and ?o = "unat i * es vt"
  let ?v = "vt\<lparr>vt_file := (vt_file vt)\<lparr>tf_file := Some ?f\<rparr>\<rparr>"
  have le: "?o + length d \<le> length f" using f(2) assms(4) by linarith
  have w: "write_at (vt_file vt) d ?o = Ok ((vt_file vt)\<lparr>tf_file := Some ?f\<rparr>)"
    by (rule write_at_ok [OF f(1) le])
  then have "write_slot vt d i = Ok ?v" by (simp add: write_slot_def so)
  moreover have "file_inv ?v" using assms(2) f(1,3) le by (simp add: file_inv_def)
  moreover have "subslice ?o (es vt) ?f = d @ take (es vt - length d) (drop (?o + length d) f)"
    using le assms(4) by (simp add: subslice_def blit_def)
  then have "read_at (vt_file ?v) (es vt) (slot_offset vt i) =
      Ok (d @ take (es vt - length d) (drop (?o + length d) f))"
    using f(2) le by (simp add: read_at_def so)
  moreover have "read_at (vt_file ?v) n (slot_offset vt j) = read_at (vt_file vt) n (slot_offset vt j)"
    if j: "j \<noteq> i" "unat j * es vt < 2 ^ 64" "n \<le> es vt" for j n
  proof -
    have "unat j \<noteq> unat i" using j(1) by (metis unsigned_word_eqI)
    then consider "unat j + 1 \<le> unat i" | "unat i + 1 \<le> unat j" by linarith
    then have "unat j * es vt + es vt \<le> ?o \<or> ?o + es vt \<le> unat j * es vt"
      using mult_le_mono1 [of "unat j + 1" "unat i" "es vt"] mult_le_mono1 [of "unat i + 1" "unat j" "es vt"]
      by cases auto
    then have "unat j * es vt + n \<le> ?o \<or> ?o + length d \<le> unat j * es vt" using j(3) assms(4) by linarith
    from read_at_write_at_disjoint [OF f(1) le w this] slot_offset_le [OF j(2)] show ?thesis by simp
  qed
  ultimately show ?thesis
    by (intro exI [of _ ?v]) auto
qed

lemma chain_from_mono:
  assumes "\<And>i bs. i \<in> set is \<Longrightarrow> slot_prefix vt lq i bs \<Longrightarrow> slot_prefix v lq' i bs"
    and "vt_entry_size v = vt_entry_size vt" "vt_multipart v = vt_multipart vt"
    and "chain_from vt lq mk is D c"
  shows "chain_from v lq' mk is D c"
  using assms by (induction "is" arbitrary: mk D) (auto simp: chain_from_Cons split: if_splits)

lemma table_inv_mono:
  assumes "table_inv vt lq fl L" "v = vt\<lparr>vt_file := f\<rparr>"
    and mono: "\<And>i bs. 0 < i \<Longrightarrow> i < vt_filled vt \<Longrightarrow> slot_prefix vt lq i bs \<Longrightarrow> slot_prefix v lq' i bs"
  shows "table_inv v lq' fl L"
proof -
  let ?used = "concat (map fst L)"
  have al: "alloc_inv vt lq fl ?used" using assms(1) by (simp add: table_inv_def)
  have sl: "0 < i \<and> i < vt_filled vt" if "i \<in> set fl \<union> set ?used" for i
    using al that by (auto simp: alloc_inv_def)
  have "free_list vt lq fl' \<Longrightarrow> set fl' \<subseteq> set fl \<Longrightarrow> free_list v lq' fl'" for fl'
    using mono sl by (induction fl') auto
  then have "free_list v lq' fl" using al by (simp add: alloc_inv_def)
  then have "alloc_inv v lq' fl ?used" using al assms(2) by (simp add: alloc_inv_def wf_table_def)
  moreover have "live_ok v lq' x" if x: "x \<in> set L" for x
  proof -
    obtain "is" rc k val c where e: "x = (is, rc, k, val, c)" by (cases x)
    have lo: "value_chain vt lq is (entry_data vt rc k val) c" "valid_key k" "stored_rc vt rc > 0"
      using assms(1) x e by (auto simp: table_inv_def live_ok_def)
    have "slot_prefix v lq' i bs" if "i \<in> set is" "slot_prefix vt lq i bs" for i bs
    proof -
      have "i \<in> set ?used" using that(1) x e by force
      then show ?thesis using mono [OF _ _ that(2)] sl by blast
    qed
    from chain_from_mono [OF this, of "is"] lo(1) assms(2)
    have "value_chain v lq' is (entry_data vt rc k val) c" by (auto simp: value_chain_def)
    with lo(2,3) e assms(2) show ?thesis
      by (simp add: live_ok_def entry_data_def rc_bytes_def stored_rc_def)
  qed
  ultimately show ?thesis by (simp add: table_inv_def)
qed

lemma slot_prefix_grown:
  assumes "grown vt v" "slot_prefix vt lq i bs"
  shows "slot_prefix v lq i bs"
proof -
  have m: "vt_id v = vt_id vt" "vt_entry_size v = vt_entry_size vt"
    using assms(1) unfolding grown_def
    by (metis value_table.select_convs(1,2) value_table.surjective value_table.update_convs(3))+
  have "read_at (vt_file v) n off = Ok b" if "read_at (vt_file vt) n off = Ok b" for n off b
    using assms(1) that by (auto simp: grown_def)
  with assms(2) m show ?thesis
    by (auto simp: slot_prefix_def slot_view_def slot_offset_def split: option.splits result.splits)
qed

lemma slot_tail_len_file: "slot_tail_len (vt\<lparr>vt_file := f\<rparr>) = slot_tail_len vt"
  by (simp add: slot_tail_len_def fun_eq_iff cong: if_cong and_then_cong)

lemma vt_enact_slot:
  assumes "wf_table vt" "file_inv vt" "slot_data vt d" "at_bytes r (d @ rest)" "i \<noteq> 0"
    and "unat i * es vt + GROW_SIZE_BYTES < 2 ^ 64"
  shows "\<exists>v t. vt_enact_plan vt i r = Ok (v, advance d r) \<and> at_bytes (advance d r) rest \<and>
    v = vt\<lparr>vt_file := vt_file v\<rparr> \<and> file_inv v \<and>
    read_at (vt_file v) (es vt) (slot_offset vt i) = Ok (d @ t) \<and>
    (\<forall>j lq bs. j \<noteq> i \<longrightarrow> unat j * es vt < 2 ^ 64 \<longrightarrow> slot_prefix vt lq j bs \<longrightarrow> slot_prefix v lq j bs)"
proof -
  obtain g where g: "grow_to vt i = Ok g" "grown vt g" "i < tf_capacity (vt_file g)"
    using grow_to_ok [OF assms(1,2,6)] by blast
  have gm: "g = vt\<lparr>vt_file := vt_file g\<rparr>" "file_inv g" using g(2) by (auto simp: grown_def)
  then obtain F where F: "g = vt\<lparr>vt_file := F\<rparr>" by blast
  have m: "wf_table g" "vt_entry_size g = vt_entry_size vt" "vt_id g = vt_id vt" "slot_tail_len g = slot_tail_len vt"
      "slot_offset g = slot_offset vt"
    using assms(1) by (simp_all add: F wf_table_def slot_tail_len_file fun_eq_iff slot_offset_def)
  have l2: "2 \<le> length d" "length d \<le> es g" using slot_data_length [OF assms(1,3)] m(2) by simp_all
  obtain v t where v: "write_slot g d i = Ok v" "v = g\<lparr>vt_file := vt_file v\<rparr>" "file_inv v"
      "read_at (vt_file v) (es g) (slot_offset g i) = Ok (d @ t)"
      "\<And>j n. j \<noteq> i \<Longrightarrow> unat j * es g < 2 ^ 64 \<Longrightarrow> n \<le> es g \<Longrightarrow>
         read_at (vt_file v) n (slot_offset g j) = read_at (vt_file g) n (slot_offset g j)"
    using write_slot_ok [OF m(1) gm(2) g(3) l2(2)] by blast
  note ls = log_read_split [OF assms(4) l2(1)]
  have "vt_enact_plan vt i r = Ok (v, advance d r)"
    using g(1) assms(5) ls slot_tail_len_ok [OF assms(1,3)] m(4) v(1) by (simp add: vt_enact_plan_def)
  moreover have "v = vt\<lparr>vt_file := vt_file v\<rparr>"
    using v(2) gm(1) by (metis value_table.surjective value_table.update_convs(3))
  moreover have "slot_prefix v lq j bs" if "j \<noteq> i" "unat j * es vt < 2 ^ 64" "slot_prefix vt lq j bs" for j lq bs
  proof -
    obtain F where F: "v = g\<lparr>vt_file := F\<rparr>" using v(2) by blast
    then have "vt_id v = vt_id g" "vt_entry_size v = vt_entry_size g" "slot_offset v = slot_offset g"
      by (simp_all add: slot_offset_def fun_eq_iff)
    then have "slot_view v lq j = slot_view g lq j"
      using v(5) [OF that(1), of "es g"] that(2) m(2) by (simp add: slot_view_def split: option.split)
    then show ?thesis using slot_prefix_grown [OF g(2) that(3)] by (simp add: slot_prefix_def)
  qed
  ultimately show ?thesis using ls(3) v(3,4) m(2,5) by auto
qed

lemma vt_enact_transparent:
  assumes inv: "table_inv vt lq fl L" and finv: "file_inv vt" and sd: "slot_data vt d"
    and atb: "at_bytes r (d @ rest)" and i: "0 < i" "i < vt_filled vt"
    and room: "unat (vt_filled vt) * es vt + GROW_SIZE_BYTES < 2 ^ 64"
    and ov: "lq_value lq (vt_id vt) i = Some d'"
    and cl: "lq_value lq' (vt_id vt) i = Some d' \<or> d' = d \<and> lq_value lq' (vt_id vt) i = None"
    and fr: "\<And>j. j \<noteq> i \<Longrightarrow> lq_value lq' (vt_id vt) j = lq_value lq (vt_id vt) j"
  shows "\<exists>v. vt_enact_plan vt i r = Ok (v, advance d r) \<and> at_bytes (advance d r) rest \<and>
    v = vt\<lparr>vt_file := vt_file v\<rparr> \<and> file_inv v \<and> table_inv v lq' fl L"
proof -
  have wf: "wf_table vt" using inv by (simp add: table_inv_def alloc_inv_def)
  have b: "unat j * es vt \<le> unat (vt_filled vt) * es vt" if "j < vt_filled vt" for j
    using that by (intro mult_le_mono1) (simp add: word_less_nat_alt)
  have "unat i * es vt + GROW_SIZE_BYTES < 2 ^ 64" using b [OF i(2)] room by linarith
  from vt_enact_slot [OF wf finv sd atb _ this] i(1)
  obtain v t where v: "vt_enact_plan vt i r = Ok (v, advance d r)" "at_bytes (advance d r) rest"
      "v = vt\<lparr>vt_file := vt_file v\<rparr>" "file_inv v"
      "read_at (vt_file v) (es vt) (slot_offset vt i) = Ok (d @ t)"
      "\<And>j lq bs. j \<noteq> i \<Longrightarrow> unat j * es vt < 2 ^ 64 \<Longrightarrow> slot_prefix vt lq j bs \<Longrightarrow> slot_prefix v lq j bs"
    by (auto simp: word_gt_0)
  obtain F where F: "v = vt\<lparr>vt_file := F\<rparr>" using v(3) by blast
  then have m: "vt_id v = vt_id vt" "vt_entry_size v = vt_entry_size vt" "slot_offset v = slot_offset vt"
    by (simp_all add: slot_offset_def fun_eq_iff)
  have "slot_prefix v lq' j bs" if "0 < j" "j < vt_filled vt" "slot_prefix vt lq j bs" for j bs
  proof (cases "j = i")
    case True
    have "take (length bs) d' = bs" using that(3) True ov by (simp add: slot_prefix_def slot_view_def)
    moreover from this have "length bs \<le> length d'" by (rule take_eq_length)
    ultimately show ?thesis
      using cl True v(5) m by (auto simp: slot_prefix_def slot_view_def)
  next
    case False
    have "unat j * es vt < 2 ^ 64" using b [OF that(2)] room by linarith
    from v(6) [OF False this that(3)] fr [OF False] m(1) show ?thesis
      by (simp add: slot_prefix_def slot_view_def)
  qed
  from table_inv_mono [OF inv v(3) this] v(1-4) show ?thesis by blast
qed

section \<open>The header\<close>

definition header_of :: "value_table \<Rightarrow> bytes" where
  "header_of vt = header_set_filled (header_set_last_removed header_default (vt_last_removed vt)) (vt_filled vt)"

lemma header_of_fields [simp]:
  "header_last_removed (header_of vt) = vt_last_removed vt" "header_filled (header_of vt) = vt_filled vt"
  "length (header_of vt) = 16"
  by (simp_all add: header_of_def header_roundtrip)

lemma complete_plan_header:
  "vt_dirty_header vt \<Longrightarrow>
   complete_plan vt w = (vt\<lparr>vt_dirty_header := False\<rparr>, insert_value (vt_id vt) 0 (header_of vt) w)"
  by (simp add: complete_plan_def header_of_def Let_def)

lemma vt_enact_header:
  assumes "wf_table vt" "file_inv vt" "at_bytes r (h @ rest)" "length h = 16"
  shows "\<exists>v t. vt_enact_plan vt 0 r = Ok (v, advance h r) \<and> at_bytes (advance h r) rest \<and>
    v = vt\<lparr>vt_file := vt_file v\<rparr> \<and> file_inv v \<and> read_at (vt_file v) 16 0 = Ok h \<and>
    (\<forall>j lq bs. j \<noteq> 0 \<longrightarrow> unat j * es vt < 2 ^ 64 \<longrightarrow> slot_prefix vt lq j bs \<longrightarrow> slot_prefix v lq j bs)"
proof -
  have e: "32 \<le> es vt" using wf_table_bounds [OF assms(1)] by simp
  obtain g where g: "grow_to vt 0 = Ok g" "grown vt g" "0 < tf_capacity (vt_file g)"
    using grow_to_ok [OF assms(1,2), of 0] by (auto simp: GROW_SIZE_BYTES_def)
  have gm: "g = vt\<lparr>vt_file := vt_file g\<rparr>" "file_inv g" using g(2) by (auto simp: grown_def)
  then obtain F where F: "g = vt\<lparr>vt_file := F\<rparr>" by blast
  have m: "wf_table g" "vt_entry_size g = vt_entry_size vt" "slot_offset g = slot_offset vt" "vt_id g = vt_id vt"
    using assms(1) by (simp_all add: F wf_table_def fun_eq_iff slot_offset_def)
  obtain v t where v: "write_slot g h 0 = Ok v" "v = g\<lparr>vt_file := vt_file v\<rparr>" "file_inv v"
      "read_at (vt_file v) (es g) (slot_offset g 0) = Ok (h @ t)"
      "\<And>j n. j \<noteq> 0 \<Longrightarrow> unat j * es g < 2 ^ 64 \<Longrightarrow> n \<le> es g \<Longrightarrow>
         read_at (vt_file v) n (slot_offset g j) = read_at (vt_file g) n (slot_offset g j)"
    using write_slot_ok [OF m(1) gm(2) g(3), of h] e m(2) assms(4) by auto
  have so: "slot_offset g 0 = 0" by (simp add: slot_offset_def)
  have "vt_enact_plan vt 0 r = Ok (v, advance h r)"
    using g(1) log_read_at(1) [OF assms(3)] assms(4) v(1) so
    by (auto simp: vt_enact_plan_def write_slot_def result_simps)
  moreover have "read_at (vt_file v) 16 0 = Ok h"
    using v(4) so assms(4) e m(2)
    by (auto simp: read_at_def subslice_def split: option.splits if_splits)
      (metis append_eq_conv_conj append_take_drop_id take_add take_take)
  moreover have "v = vt\<lparr>vt_file := vt_file v\<rparr>"
    using v(2) gm(1) by (metis value_table.surjective value_table.update_convs(3))
  moreover have "slot_prefix v lq j bs" if "j \<noteq> 0" "unat j * es vt < 2 ^ 64" "slot_prefix vt lq j bs" for j lq bs
  proof -
    obtain F where F: "v = g\<lparr>vt_file := F\<rparr>" using v(2) by blast
    then have "vt_id v = vt_id g" "vt_entry_size v = vt_entry_size g" "slot_offset v = slot_offset g"
      by (simp_all add: slot_offset_def fun_eq_iff)
    then have "slot_view v lq j = slot_view g lq j"
      using v(5) [OF that(1), of "es g"] that(2) m(2) by (simp add: slot_view_def split: option.split)
    then show ?thesis using slot_prefix_grown [OF g(2) that(3)] by (simp add: slot_prefix_def)
  qed
  ultimately show ?thesis using log_read_at(2) [OF assms(3) refl] v(3) by blast
qed

text \<open>Reopening a file whose header has been enacted gives the allocation state of the writer.\<close>

lemma vt_open_header:
  assumes "alloc_inv vt lq fl used" "file_inv vt" "tf_file (vt_file vt) = Some f"
    and "read_at (vt_file vt) 16 0 = Ok (header_of vt)"
  shows "vt_open (Some f) (vt_id vt) (if vt_multipart vt then None else Some (vt_entry_size vt))
      (vt_ref_counted vt) (vt_db_version vt) = Ok (vt\<lparr>vt_dirty_header := False\<rparr>)"
proof -
  have wf: "wf_table vt" and a: "0 < vt_filled vt" "vt_last_removed vt < vt_filled vt"
    using assms(1) by (auto simp: alloc_inv_def) (cases fl; force)
  have sz: "(case if vt_multipart vt then None else Some (vt_entry_size vt) of
      Some s \<Rightarrow> (False, s) | None \<Rightarrow> (True, MULTIPART_ENTRY_SIZE)) = (vt_multipart vt, vt_entry_size vt)"
    using wf by (simp add: wf_table_def)
  have "16 \<le> length f" using assms(3,4) by (simp add: read_at_def split: if_splits)
  then have ne: "length f \<noteq> 0" by linarith
  have "length f div es vt = unat (tf_capacity (vt_file vt))" using assms(2,3) by (simp add: file_inv_def)
  then have cap: "word_of_nat (length f div es vt) = tf_capacity (vt_file vt)" by simp
  have tf: "tf_open (Some f) (vt_entry_size vt) = vt_file vt"
    using ne cap assms(3) by (simp add: tf_open_def)
  have "MIN_ENTRY_SIZE \<le> es vt" "es vt \<le> MAX_ENTRY_SIZE" using wf by (simp_all add: wf_table_def)
  moreover have "vt_filled vt \<noteq> 0" using a(1) by (simp add: word_gt_0)
  ultimately show ?thesis
    using assms(3,4) a(2) unfolding vt_open_def sz
    by (simp add: tf Let_def linorder_not_le del: MIN_ENTRY_SIZE_def MAX_ENTRY_SIZE_def)
qed

lemma refresh_metadata_header:
  assumes "0 < vt_filled u" "tf_file (vt_file vt) \<noteq> None" "read_at (vt_file vt) 16 0 = Ok (header_of u)"
  shows "refresh_metadata vt = Ok (vt\<lparr>vt_last_removed := vt_last_removed u, vt_filled := vt_filled u\<rparr>)"
  using assms by (auto simp: refresh_metadata_def Let_def word_gt_0)

end
