(* ===== verification/Value_Store.thy ===== *)
theory Value_Store
  imports Value_Table_Spec Value_Table_Enact
begin

text \<open>
  The contract of a value table: a store that maps addresses to entries (reference counter, key,
  bytes, compression flag). \<open>store_rel\<close> relates a table and the log it is read through to the
  abstract store; each planning operation is shown to implement the abstract operation, to touch
  no other table, and to leave the index side of the log alone.
\<close>

type_synonym entry_val = "u32 \<times> table_key \<times> bytes \<times> bool"

definition live_map :: "live list \<Rightarrow> u64 \<Rightarrow> entry_val option" where
  "live_map L = map_of (map (\<lambda>x. (hd (fst x), snd x)) L)"

definition store_rel :: "value_table \<Rightarrow> log_query \<Rightarrow> (u64 \<Rightarrow> entry_val option) \<Rightarrow> bool" where
  "store_rel vt lq m \<longleftrightarrow> (\<exists>fl L. table_inv vt lq fl L \<and> m = live_map L)"

text \<open>The writer changes in the values of the table \<open>t\<close> only.\<close>

definition frame_w :: "u16 \<Rightarrow> log_writer \<Rightarrow> log_writer \<Rightarrow> bool" where
  "frame_w t w w' \<longleftrightarrow> (\<forall>t' i. t' \<noteq> t \<longrightarrow> writer_value w' t' i = writer_value w t' i) \<and>
     writer_index w' = writer_index w \<and> lw_record_id w' = lw_record_id w"

lemma writes_only_frame: "writes_only vt S w w' \<Longrightarrow> frame_w (vt_id vt) w w'"
  by (simp add: frame_w_def writes_only_value writes_only_index) (simp add: writes_only_def)

lemma frame_w_refl [simp]: "frame_w t w w"
  by (simp add: frame_w_def)

section \<open>The live map\<close>

lemma live_chain: "table_inv vt lq fl L \<Longrightarrow> x \<in> set L \<Longrightarrow> fst x \<noteq> [] \<and> set (fst x) \<subseteq> {i. 0 < i \<and> i < vt_filled vt}"
proof -
  assume i: "table_inv vt lq fl L" and x: "x \<in> set L"
  then have "live_ok vt lq x" by (simp add: table_inv_def)
  then have "fst x \<noteq> []" by (cases x) (auto simp: live_ok_def value_chain_def)
  moreover have "set (fst x) \<subseteq> set (concat (map fst L))" using x by auto
  ultimately show ?thesis using i by (fastforce simp: table_inv_def alloc_inv_def)
qed

lemma live_head_distinct:
  assumes "table_inv vt lq fl (L1 @ x # L2)" "y \<in> set (L1 @ L2)"
  shows "hd (fst y) \<noteq> hd (fst x)"
proof -
  have "fst x \<noteq> []" "fst y \<noteq> []" using live_chain [OF assms(1)] assms(2) by auto
  with live_used_disjoint [OF assms] show ?thesis by (metis disjoint_iff hd_in_set)
qed

lemma live_map_split:
  "live_map L i = Some e \<Longrightarrow> \<exists>L1 is L2. L = L1 @ (is, e) # L2 \<and> hd is = i"
  by (auto simp: live_map_def dest!: map_of_SomeD) (metis split_list)

lemma live_map_other: "(\<And>y. y \<in> set L \<Longrightarrow> hd (fst y) \<noteq> i) \<Longrightarrow> live_map L i = None"
  unfolding live_map_def map_of_eq_None_iff set_map image_image fst_conv by blast

lemma live_map_insert:
  "(\<And>y. y \<in> set L1 \<Longrightarrow> hd (fst y) \<noteq> hd (fst x)) \<Longrightarrow>
   live_map (L1 @ x # L2) = (live_map (L1 @ L2))(hd (fst x) \<mapsto> snd x)"
proof (induction L1)
  case (Cons y L1)
  have "hd (fst y) \<noteq> hd (fst x)" "live_map (L1 @ x # L2) = (live_map (L1 @ L2))(hd (fst x) \<mapsto> snd x)"
    using Cons.prems [of y] by (simp, intro Cons.IH Cons.prems) simp
  then show ?case by (auto simp: live_map_def fun_eq_iff)
qed (simp add: live_map_def)

lemma live_map_mid:
  assumes "table_inv vt lq fl (L1 @ (is, e) # L2)"
  shows "live_map (L1 @ (is, e') # L2) = (live_map (L1 @ (is, e) # L2))(hd is \<mapsto> e')"
    and "live_map (L1 @ L2) = (live_map (L1 @ (is, e) # L2))(hd is := None)"
    and "(live_map (L1 @ L2))(hd is \<mapsto> e') = (live_map (L1 @ (is, e) # L2))(hd is \<mapsto> e')"
proof -
  have d: "y \<in> set (L1 @ L2) \<Longrightarrow> hd (fst y) \<noteq> hd is" for y
    using live_head_distinct [OF assms] by simp
  have i: "live_map (L1 @ (is, a) # L2) = (live_map (L1 @ L2))(hd is \<mapsto> a)" for a
    using live_map_insert [of L1 "(is, a)" L2] d by simp
  have n: "live_map (L1 @ L2) (hd is) = None" using d by (rule live_map_other)
  show "live_map (L1 @ (is, e') # L2) = (live_map (L1 @ (is, e) # L2))(hd is \<mapsto> e')"
    "(live_map (L1 @ L2))(hd is \<mapsto> e') = (live_map (L1 @ (is, e) # L2))(hd is \<mapsto> e')"
    by (simp_all add: i)
  show "live_map (L1 @ L2) = (live_map (L1 @ (is, e) # L2))(hd is := None)" using n by (simp add: i fun_upd_idem)
qed

lemma store_rel_key:
  assumes "store_rel vt lq m" "m i = Some (rc, k, v, c)"
  shows "valid_key k" "stored_rc vt rc > 0" "0 < i" "i < vt_filled vt" "wf_table vt"
proof -
  from assms obtain fl L1 "is" L2 where L: "table_inv vt lq fl (L1 @ (is, rc, k, v, c) # L2)" "hd is = i"
    by (auto simp: store_rel_def dest!: live_map_split)
  then have "live_ok vt lq (is, rc, k, v, c)" by (simp add: table_inv_def)
  then show "valid_key k" "stored_rc vt rc > 0" by (simp_all add: live_ok_def)
  have "is \<noteq> []" "set is \<subseteq> {i. 0 < i \<and> i < vt_filled vt}"
    using live_chain [OF L(1), of "(is, rc, k, v, c)"] by simp_all
  then show "0 < i" "i < vt_filled vt" using L(2) hd_in_set by blast+
  show "wf_table vt" using L(1) by (simp add: table_inv_def alloc_inv_def)
qed

section \<open>The operations implement the store\<close>

lemma store_insert:
  assumes "store_rel vt (writer_query w) m" "valid_key k" "fits vt k v"
    and "unat (vt_filled vt) + length v + 65 < 2 ^ 64"
  shows "\<exists>i vt' w'. write_insert_plan vt k v w c = Ok (i, vt', w') \<and> same_table vt vt' \<and> m i = None \<and>
    store_rel vt' (writer_query w') (m(i \<mapsto> (1, k, v, c))) \<and> frame_w (vt_id vt) w w' \<and> i \<le> vt_filled vt"
proof -
  from assms(1) obtain fl L where L: "table_inv vt (writer_query w) fl L" "m = live_map L"
    by (auto simp: store_rel_def)
  from write_insert_plan_inv [OF L(1) assms(2-4), of c] obtain i "is" vt' w' fl' where
    o: "write_insert_plan vt k v w c = Ok (i, vt', w')" "same_table vt vt'"
      "table_inv vt' (writer_query w') fl' ((i # is, 1, k, v, c) # L)" "writes_only vt (set (i # is)) w w'"
      "i \<le> vt_filled vt"
    by blast
  have "live_map ((i # is, 1, k, v, c) # L) = m(i \<mapsto> (1, k, v, c))" by (simp add: live_map_def L)
  moreover have "hd (fst y) \<noteq> i" if "y \<in> set L" for y
    using live_head_distinct [of vt' _ fl' "[]" "(i # is, 1, k, v, c)" L y] o(3) that by simp
  then have "m i = None" unfolding L(2) by (rule live_map_other)
  ultimately show ?thesis using o writes_only_frame [OF o(4)] by (metis store_rel_def)
qed

lemma store_remove:
  assumes "store_rel vt (writer_query w) m" "m i = Some e"
  shows "\<exists>vt' w'. write_remove_plan vt i w = Ok (vt', w') \<and> same_table vt vt' \<and>
    store_rel vt' (writer_query w') (m(i := None)) \<and> frame_w (vt_id vt) w w'"
proof -
  from assms obtain fl L1 "is" L2 where L: "table_inv vt (writer_query w) fl (L1 @ (is, e) # L2)"
      "m = live_map (L1 @ (is, e) # L2)" "hd is = i"
    by (auto simp: store_rel_def dest!: live_map_split)
  from write_remove_plan_inv [OF L(1)] obtain vt' w' where
    o: "write_remove_plan vt i w = Ok (vt', w')" "same_table vt vt'"
      "table_inv vt' (writer_query w') (rev is @ fl) (L1 @ L2)" "writes_only vt (set is) w w'"
    using L(3) by auto
  have "m(i := None) = live_map (L1 @ L2)" using live_map_mid(2) [OF L(1)] L(2,3) by simp
  then show ?thesis using o writes_only_frame [OF o(4)] by (metis store_rel_def)
qed

lemma store_replace:
  assumes "store_rel vt (writer_query w) m" "m i = Some e" "valid_key k" "fits vt k v"
    and "unat (vt_filled vt) + length v + 65 < 2 ^ 64"
  shows "\<exists>vt' w'. write_replace_plan vt i k v w c = Ok (vt', w') \<and> same_table vt vt' \<and>
    store_rel vt' (writer_query w') (m(i \<mapsto> (1, k, v, c))) \<and> frame_w (vt_id vt) w w'"
proof -
  from assms(1,2) obtain fl L1 "is" L2 where L: "table_inv vt (writer_query w) fl (L1 @ (is, e) # L2)"
      "m = live_map (L1 @ (is, e) # L2)" "hd is = i"
    by (auto simp: store_rel_def dest!: live_map_split)
  from write_replace_plan_inv [OF L(1) assms(3,4), of c] assms(5) L(3) obtain vt' w' fl' is' where
    o: "write_replace_plan vt i k v w c = Ok (vt', w')" "same_table vt vt'"
      "table_inv vt' (writer_query w') fl' ((i # is', 1, k, v, c) # L1 @ L2)"
      "writes_only vt (- set (concat (map fst (L1 @ L2)))) w w'"
    by auto
  have "live_map ((i # is', 1, k, v, c) # L1 @ L2) = m(i \<mapsto> (1, k, v, c))"
    using live_map_mid(3) [OF L(1)] L(2,3) by (simp add: live_map_def)
  then show ?thesis using o writes_only_frame [OF o(4)] by (metis store_rel_def)
qed

lemma change_ref_frame:
  "change_ref vt i d w = Ok (b, w') \<Longrightarrow> frame_w (vt_id vt) w w'"
  by (auto simp: change_ref_def result_simps frame_w_def split: if_splits option.splits)

lemma store_inc_ref:
  assumes "store_rel vt (writer_query w) m" "m i = Some (rc, k, v, c)" "vt_ref_counted vt"
  shows "\<exists>w' rc'. write_inc_ref vt i w = Ok w' \<and> unat rc' = min (unat rc + 1) (2 ^ 32 - 1) \<and>
    store_rel vt (writer_query w') (m(i \<mapsto> (rc', k, v, c))) \<and> frame_w (vt_id vt) w w'"
proof -
  from assms(1,2) obtain fl L1 "is" L2 where L: "table_inv vt (writer_query w) fl (L1 @ (is, rc, k, v, c) # L2)"
      "m = live_map (L1 @ (is, rc, k, v, c) # L2)" "hd is = i"
    by (auto simp: store_rel_def dest!: live_map_split)
  from write_inc_ref_inv [OF L(1) assms(3), unfolded L(3)] obtain w' rc' where
    o: "write_inc_ref vt i w = Ok w'" "unat rc' = min (unat rc + 1) (2 ^ 32 - 1)"
      "table_inv vt (writer_query w') fl (L1 @ (is, rc', k, v, c) # L2)" by blast
  obtain b where "change_ref vt i 1 w = Ok (b, w')"
    using o(1) unfolding write_inc_ref_def and_then_Ok_iff by auto
  then have "frame_w (vt_id vt) w w'" by (rule change_ref_frame)
  moreover have "live_map (L1 @ (is, rc', k, v, c) # L2) = m(i \<mapsto> (rc', k, v, c))"
    using live_map_mid(1) [OF L(1), of "(rc', k, v, c)"] L(2,3) by simp
  then have "store_rel vt (writer_query w') (m(i \<mapsto> (rc', k, v, c)))" using o(3) store_rel_def by metis
  ultimately show ?thesis using o(1,2) by blast
qed

lemma frame_w_trans: "frame_w t w w1 \<Longrightarrow> frame_w t w1 w2 \<Longrightarrow> frame_w t w w2"
  by (simp add: frame_w_def)

lemma store_dec_ref:
  assumes "store_rel vt (writer_query w) m" "m i = Some (rc, k, v, c)" "vt_ref_counted vt"
  shows "rc = 1 \<Longrightarrow> \<exists>vt' w'. write_dec_ref vt i w = Ok (False, vt', w') \<and> same_table vt vt' \<and>
      store_rel vt' (writer_query w') (m(i := None)) \<and> frame_w (vt_id vt) w w'"
    and "rc \<noteq> 1 \<Longrightarrow> \<exists>w'. write_dec_ref vt i w = Ok (True, vt, w') \<and>
      store_rel vt (writer_query w')
        (m(i \<mapsto> (if rc = LOCKED_REF then rc else rc - 1, k, v, c))) \<and> frame_w (vt_id vt) w w'"
proof -
  from assms(1,2) obtain fl L1 "is" L2 where L: "table_inv vt (writer_query w) fl (L1 @ (is, rc, k, v, c) # L2)"
      "m = live_map (L1 @ (is, rc, k, v, c) # L2)" "hd is = i"
    by (auto simp: store_rel_def dest!: live_map_split)
  show "\<exists>vt' w'. write_dec_ref vt i w = Ok (False, vt', w') \<and> same_table vt vt' \<and>
      store_rel vt' (writer_query w') (m(i := None)) \<and> frame_w (vt_id vt) w w'" if "rc = 1"
  proof -
    from write_dec_ref_inv(1) [OF L(1) assms(3) that] L(3) obtain vt' w' where
      o: "write_dec_ref vt i w = Ok (False, vt', w')" "same_table vt vt'"
        "table_inv vt' (writer_query w') (rev is @ fl) (L1 @ L2)" by auto
    from o(1) obtain w1 where w1: "change_ref vt i (- 1) w = Ok (False, w1)"
        "write_remove_plan vt i w1 = Ok (vt', w')"
      by (auto simp: write_dec_ref_def result_simps split: if_splits)
    then have "w1 = w" by (auto simp: change_ref_def result_simps split: if_splits option.splits)
    with store_remove [OF assms(1,2)] w1 have "frame_w (vt_id vt) w w'" by auto
    moreover have "m(i := None) = live_map (L1 @ L2)" using live_map_mid(2) [OF L(1)] L(2,3) by simp
    ultimately show ?thesis using o by (metis store_rel_def)
  qed
  show "\<exists>w'. write_dec_ref vt i w = Ok (True, vt, w') \<and> store_rel vt (writer_query w')
        (m(i \<mapsto> (if rc = LOCKED_REF then rc else rc - 1, k, v, c))) \<and> frame_w (vt_id vt) w w'" if "rc \<noteq> 1"
  proof -
    from write_dec_ref_inv(2) [OF L(1) assms(3) that] L(3) obtain w' where
      o: "write_dec_ref vt i w = Ok (True, vt, w')" "table_inv vt (writer_query w') fl
        (L1 @ (is, if rc = LOCKED_REF then rc else rc - 1, k, v, c) # L2)" by auto
    have "frame_w (vt_id vt) w w'"
      using o(1) change_ref_frame by (auto simp: write_dec_ref_def result_simps split: if_splits)
    moreover have "store_rel vt (writer_query w')
        (m(i \<mapsto> (if rc = LOCKED_REF then rc else rc - 1, k, v, c)))"
      unfolding store_rel_def using o(2)
        live_map_mid(1) [OF L(1), of "(if rc = LOCKED_REF then rc else rc - 1, k, v, c)", unfolded L(3)] L(2)
      by metis
    ultimately show ?thesis using o(1) by blast
  qed
qed

section \<open>Reading at any slot\<close>

text \<open>The slots of a chain after the first one never look like the head of a value.\<close>

lemma chain_tail_slot:
  assumes "wf_table vt" "chain_from vt lq mk is D c" "j \<in> set (tl is)"
  shows "vt_multipart vt \<and> (\<exists>p. slot_prefix vt lq j p \<and> 2 \<le> length p \<and>
    take 2 p \<notin> {TOMBSTONE, MULTIHEAD, MULTIHEAD_COMPRESSED})"
  using assms
proof (induction vt lq mk "is" D c rule: chain_from.induct)
  case (3 vt lq mk a b js D c)
  have mp: "vt_multipart vt" and ch: "chain_from vt lq MULTIPART (b # js) (drop (es vt - 10) D) c"
    using "3.prems"(2) by simp_all
  show ?case
  proof (cases "j = b")
    case False
    then have "j \<in> set (tl (b # js))" using "3.prems"(3) by simp
    with "3.IH" [OF "3.prems"(1) ch] show ?thesis by blast
  next
    case True
    show ?thesis
    proof (cases js)
      case Nil
      then have l: "length (drop (es vt - 10) D) \<le> es vt - SIZE_SIZE"
          "slot_prefix vt lq j (last_part (drop (es vt - 10) D) c)" using ch True by simp_all
      have "take 2 (last_part (drop (es vt - 10) D) c) \<notin> {TOMBSTONE, MULTIPART, MULTIHEAD, MULTIHEAD_COMPRESSED}"
        using last_part_facts(2) [OF "3.prems"(1) l(1)] by simp
      moreover have "2 \<le> length (last_part (drop (es vt - 10) D) c)" by (simp add: last_part_def)
      ultimately show ?thesis using l(2) mp by blast
    next
      case (Cons b' js')
      let ?p = "multi_part MULTIPART b' (take (es vt - 10) (drop (es vt - 10) D))"
      have "slot_prefix vt lq j ?p" using ch True Cons by simp
      moreover have "take 2 ?p = MULTIPART" by (rule multi_part_head(1) [OF markers_facts(3)])
      ultimately show ?thesis using mp by (intro conjI exI [of _ ?p]) simp_all
    qed
  qed
qed simp_all


lemma tail_slot_load:
  assumes "wf_table vt" "vt_multipart vt" "slot_prefix vt lq j p" "2 \<le> length p"
    and "take 2 p \<notin> {TOMBSTONE, MULTIHEAD, MULTIHEAD_COMPRESSED}"
  shows "for_parts_body vt q lq f (j, 0, False, 1, None, acc) = Ok (Inr (0, False, None, acc))"
proof -
  obtain e where e: "load_slot vt lq j MAX_ENTRY_BUF_SIZE (es vt) = Ok e" "holds e (take 2 p)"
    using load_slot_prefix [OF assms(3), of 2 MAX_ENTRY_BUF_SIZE "es vt"] assms(4)
      wf_table_bounds(1) [OF assms(1)] by auto
  have "head_is m e = Ok (take 2 p = m)" for m using head_is_holds [OF e(2)] assms(4) by simp
  then have "is_tombstone e = Ok False" "is_multihead e = Ok False" using assms(5) by (auto simp: head_tests)
  with e(1) assms(2) show ?thesis by (simp add: for_parts_body_def)
qed

text \<open>
  A slot of an allocated table is the head of a live value, a later slot of a chain, or free. In
  the last two cases every query answers that there is nothing.
\<close>

lemma slot_cases:
  assumes "table_inv vt lq fl L" "0 < i" "i < vt_filled vt"
  obtains (live) "is" e where "(is, e) \<in> set L" "hd is = i" "live_map L i = Some e"
    | (tail) p where "live_map L i = None" "vt_multipart vt" "slot_prefix vt lq i p" "2 \<le> length p"
        "take 2 p \<notin> {TOMBSTONE, MULTIHEAD, MULTIHEAD_COMPRESSED}"
    | (free) n where "live_map L i = None" "slot_prefix vt lq i (free_entry n)"
proof -
  have inv: "alloc_inv vt lq fl (concat (map fst L))" and wf: "wf_table vt"
    using assms(1) by (simp_all add: table_inv_def alloc_inv_def)
  then have "i \<in> set fl \<or> i \<in> set (concat (map fst L))" using assms(2,3) by (auto simp: alloc_inv_def)
  then show thesis
  proof
    assume f: "i \<in> set fl"
    then have nl: "i \<notin> set (concat (map fst L))" using inv by (auto simp: alloc_inv_def)
    have "hd (fst y) \<noteq> i" if "y \<in> set L" for y
      using live_chain [OF assms(1) that] nl that hd_in_set by fastforce
    then have "live_map L i = None" by (rule live_map_other)
    moreover have "free_list vt lq fl" using inv by (simp add: alloc_inv_def)
    then have "\<exists>n. slot_prefix vt lq i (free_entry n)" using f
      by (induction vt lq fl rule: free_list.induct) auto
    ultimately show thesis using free by blast
  next
    assume "i \<in> set (concat (map fst L))"
    then obtain x where x: "x \<in> set L" "i \<in> set (fst x)" by auto
    then obtain L1 L2 where L: "L = L1 @ x # L2" by (meson split_list)
    obtain "is" e where xe: "x = (is, e)" by (cases x)
    have ne: "is \<noteq> []" using live_chain [OF assms(1) x(1)] xe by simp
    show thesis
    proof (cases "hd is = i")
      case True
      have "live_map L i = Some e"
        using live_map_mid(1) [of vt lq fl L1 "is" e L2 e] assms(1) L xe True by (metis fun_upd_same)
      with x xe True show thesis by (intro live) auto
    next
      case False
      then have t: "i \<in> set (tl is)" using x(2) xe ne by (cases "is") auto
      have "hd (fst y) \<noteq> i" if y: "y \<in> set L" for y
      proof (cases "y = x")
        case False
        then have "y \<in> set (L1 @ L2)" using y L by auto
        then have "set (fst y) \<inter> set (fst x) = {}" using live_used_disjoint assms(1) L by blast
        moreover have "fst y \<noteq> []" using live_chain [OF assms(1) y] by simp
        ultimately show ?thesis using x(2) hd_in_set by blast
      qed (use False xe in simp)
      then have "live_map L i = None" by (rule live_map_other)
      moreover obtain D mk c where "chain_from vt lq mk is D c"
        using assms(1) x(1) xe by (cases e) (auto simp: table_inv_def live_ok_def value_chain_def)
      ultimately show thesis using chain_tail_slot [OF wf _ t] tail by blast
    qed
  qed
qed

definition hashed :: "(u64 \<Rightarrow> entry_val option) \<Rightarrow> bool" where
  "hashed m \<longleftrightarrow> (\<forall>i rc k v c. m i = Some (rc, k, v, c) \<longrightarrow> (\<exists>h. k = Partial h))"

text \<open>What a query for a hashed key finds at an address of the store.\<close>

definition store_find :: "(u64 \<Rightarrow> entry_val option) \<Rightarrow> key \<Rightarrow> u64 \<Rightarrow> (u32 \<times> bytes \<times> bool) option" where
  "store_find m h i =
     (case m i of
        Some (rc, Partial h', v, c) \<Rightarrow> if partial_key h = partial_key h' then Some (rc, v, c) else None
      | _ \<Rightarrow> None)"

lemma store_query:
  assumes "store_rel vt lq m" "hashed m" "0 < i" "i < vt_filled vt"
  shows "vt_query vt (Check (Partial h)) i lq =
      Ok (map_option (\<lambda>(rc, v, c). (v, c, stored_rc vt rc, None)) (store_find m h i))"
    and "has_key_at vt i (Partial h) lq = Ok (store_find m h i \<noteq> None)"
proof -
  from assms(1) obtain fl L where inv: "table_inv vt lq fl L" and m: "m = live_map L"
    by (auto simp: store_rel_def)
  have wf: "wf_table vt" using inv by (simp add: table_inv_def alloc_inv_def)
  have "vt_query vt (Check (Partial h)) i lq =
      Ok (map_option (\<lambda>(rc, v, c). (v, c, stored_rc vt rc, None)) (store_find m h i)) \<and>
    has_key_at vt i (Partial h) lq = Ok (store_find m h i \<noteq> None)"
    using inv assms(3,4)
  proof (cases rule: slot_cases)
    case (live "is" e)
    obtain rc k v c where e: "e = (rc, k, v, c)" by (cases e)
    obtain h' where k: "k = Partial h'" using assms(2) live(3) e m unfolding hashed_def by blast
    have ok: "value_chain vt lq is (entry_data vt rc (Partial h') v) c" "valid_key (Partial h')"
        "stored_rc vt rc > 0"
      using inv live(1) e k by (auto simp: table_inv_def live_ok_def)
    have f: "store_find m h i = (if partial_key h = partial_key h' then Some (rc, v, c) else None)"
      using live(3) m e k by (simp add: store_find_def)
    have ka: "key_answer (Check (Partial h)) (Partial h') = Some (None, partial_key h = partial_key h')"
        "key_consumed (Check (Partial h)) (Partial h') = encoded_size (Partial h')"
      by (simp_all add: key_answer_def key_consumed_def encoded_size_def)
    have "length h' = KEY_SIZE" using ok(2) by (simp add: valid_key_def)
    then show ?thesis unfolding f
      using vt_query_chain [OF wf ok(1,2) ka] has_key_at_chain [OF wf ok(1) _ ok(3), of h] live(2) ok(3)
      by auto
  next
    case (tail p)
    have "store_find m h i = None" using tail(1) m by (simp add: store_find_def)
    then show ?thesis
      by (simp add: vt_query_def has_key_at_def partial_key_at_def for_parts_def loop_r_unfold
          tail_slot_load [OF wf tail(2-5)])
  next
    case (free n)
    have "store_find m h i = None" using free(1) m by (simp add: store_find_def)
    moreover obtain ee where "load_slot vt lq i MAX_ENTRY_BUF_SIZE (es vt) = Ok ee" "holds ee (free_entry n)"
      using load_slot_prefix [OF free(2), of 10 MAX_ENTRY_BUF_SIZE "es vt"] wf_table_bounds [OF wf] by auto
    moreover from this have "is_tombstone ee = Ok True"
      using head_is_holds [of ee "free_entry n" TOMBSTONE] by (simp add: is_tombstone_def)
    ultimately show ?thesis
      by (simp add: vt_query_free [OF wf free(2)] has_key_at_def partial_key_at_def for_parts_def
          loop_r_unfold for_parts_body_def)
  qed
  then show "vt_query vt (Check (Partial h)) i lq =
      Ok (map_option (\<lambda>(rc, v, c). (v, c, stored_rc vt rc, None)) (store_find m h i))"
    "has_key_at vt i (Partial h) lq = Ok (store_find m h i \<noteq> None)" by blast+
qed

section \<open>Several stores behind one log\<close>

text \<open>
  The contract a column relies on: tables that plan insertions and removals through a common
  log, each of which keeps its own slots and leaves the other tables alone. The client lemmas are
  about a list of such tables, as a column has it.
\<close>

locale slot_store =
  fixes rel :: "'t \<Rightarrow> 'w \<Rightarrow> (u64 \<Rightarrow> 'e option) \<Rightarrow> bool"
    and ident :: "'t \<Rightarrow> u16"
    and frame :: "u16 \<Rightarrow> 'w \<Rightarrow> 'w \<Rightarrow> bool"
    and can_put :: "'t \<Rightarrow> 'e \<Rightarrow> bool"
    and put :: "'t \<Rightarrow> 'e \<Rightarrow> 'w \<Rightarrow> (u64 \<times> 't \<times> 'w) result"
    and del :: "'t \<Rightarrow> u64 \<Rightarrow> 'w \<Rightarrow> ('t \<times> 'w) result"
  assumes put_ok: "rel t w m \<Longrightarrow> can_put t e \<Longrightarrow>
      \<exists>i t' w'. put t e w = Ok (i, t', w') \<and> ident t' = ident t \<and> m i = None \<and>
        rel t' w' (m(i \<mapsto> e)) \<and> frame (ident t) w w'"
    and del_ok: "rel t w m \<Longrightarrow> m i = Some e \<Longrightarrow>
      \<exists>t' w'. del t i w = Ok (t', w') \<and> ident t' = ident t \<and> rel t' w' (m(i := None)) \<and>
        frame (ident t) w w'"
    and rel_frame: "rel t w m \<Longrightarrow> frame j w w' \<Longrightarrow> j \<noteq> ident t \<Longrightarrow> rel t w' m"
begin

definition stores_rel :: "'t list \<Rightarrow> 'w \<Rightarrow> (u64 \<Rightarrow> 'e option) list \<Rightarrow> bool" where
  "stores_rel ts w ms \<longleftrightarrow> length ms = length ts \<and> distinct (map ident ts) \<and>
     (\<forall>i<length ts. rel (ts ! i) w (ms ! i))"

lemma stores_upd:
  assumes "stores_rel ts w ms" "a < length ts" "ident t' = ident (ts ! a)" "rel t' w' m'"
    and "frame (ident (ts ! a)) w w'"
  shows "stores_rel (ts[a := t']) w' (ms[a := m'])"
proof -
  have "map ident (ts[a := t']) = map ident ts"
    using assms(3) by (simp add: map_update list_update_same_conv assms(2))
  moreover have "rel (ts[a := t'] ! i) w' (ms[a := m'] ! i)" if i: "i < length ts" for i
  proof (cases "i = a")
    case False
    then have "ident (ts ! a) \<noteq> ident (ts ! i)"
      using assms(1,2) i by (auto simp: stores_rel_def distinct_conv_nth)
    then show ?thesis using assms(1,5) i False rel_frame by (auto simp: stores_rel_def)
  qed (use assms in \<open>simp add: stores_rel_def\<close>)
  ultimately show ?thesis using assms(1) by (simp add: stores_rel_def)
qed

lemma put_stores:
  assumes "stores_rel ts w ms" "a < length ts" "can_put (ts ! a) e"
  shows "\<exists>i t' w'. put (ts ! a) e w = Ok (i, t', w') \<and> (ms ! a) i = None \<and>
    stores_rel (ts[a := t']) w' (ms[a := (ms ! a)(i \<mapsto> e)])"
proof -
  have "rel (ts ! a) w (ms ! a)" using assms by (simp add: stores_rel_def)
  from put_ok [OF this assms(3)] show ?thesis using stores_upd [OF assms(1,2)] by blast
qed

lemma del_stores:
  assumes "stores_rel ts w ms" "a < length ts" "(ms ! a) i = Some e"
  shows "\<exists>t' w'. del (ts ! a) i w = Ok (t', w') \<and> ident t' = ident (ts ! a) \<and>
    stores_rel (ts[a := t']) w' (ms[a := (ms ! a)(i := None)])"
proof -
  have "rel (ts ! a) w (ms ! a)" using assms by (simp add: stores_rel_def)
  from del_ok [OF this assms(3)] show ?thesis using stores_upd [OF assms(1,2)] by blast
qed

text \<open>A value that moves to another table: removed here, inserted there.\<close>

lemma move_stores:
  assumes "stores_rel ts w ms" "a < length ts" "b < length ts" "a \<noteq> b" "(ms ! a) i = Some e"
    and "can_put (ts ! b) e'"
  shows "\<exists>t' w' j u' w''. del (ts ! a) i w = Ok (t', w') \<and> put (ts ! b) e' w' = Ok (j, u', w'') \<and>
    (ms ! b) j = None \<and>
    stores_rel (ts[a := t', b := u']) w'' (ms[a := (ms ! a)(i := None), b := (ms ! b)(j \<mapsto> e')])"
proof -
  from del_stores [OF assms(1,2,5)] obtain t' w' where d: "del (ts ! a) i w = Ok (t', w')"
      "stores_rel (ts[a := t']) w' (ms[a := (ms ! a)(i := None)])" by blast
  from put_stores [OF d(2), of b e'] assms(3,4,6) d(1) show ?thesis by fastforce
qed

end

definition can_insert :: "value_table \<Rightarrow> entry_val \<Rightarrow> bool" where
  "can_insert vt = (\<lambda>(rc, k, v, c). rc = 1 \<and> valid_key k \<and> fits vt k v \<and>
     unat (vt_filled vt) + length v + 65 < 2 ^ 64)"

lemma slot_prefix_other:
  "frame_w j w w' \<Longrightarrow> j \<noteq> vt_id vt \<Longrightarrow> slot_prefix vt (writer_query w') i p = slot_prefix vt (writer_query w) i p"
  by (simp add: slot_prefix_def slot_view_def frame_w_def writer_query_def)

lemma store_rel_frame:
  assumes "store_rel vt (writer_query w) m" "frame_w j w w'" "j \<noteq> vt_id vt"
  shows "store_rel vt (writer_query w') m"
proof -
  from assms(1) obtain fl L where L: "table_inv vt (writer_query w) fl L" "m = live_map L"
    by (auto simp: store_rel_def)
  have "table_inv (vt\<lparr>vt_file := vt_file vt\<rparr>) (writer_query w') fl L"
    using table_inv_mono [OF L(1) refl, of "vt_file vt" "writer_query w'"]
      slot_prefix_other [OF assms(2,3)] by simp
  with L(2) show ?thesis by (auto simp: store_rel_def)
qed

lemma same_table_id: "same_table vt vt' \<Longrightarrow> vt_id vt' = vt_id vt"
  by (simp add: same_table_def)

interpretation value_stores: slot_store
  "\<lambda>vt w m. store_rel vt (writer_query w) m" vt_id frame_w can_insert
  "\<lambda>vt (rc, k, v, c) w. write_insert_plan vt k v w c" write_remove_plan
proof
  fix vt w m and e :: entry_val
  assume a: "store_rel vt (writer_query w) m" "can_insert vt e"
  obtain rc k v c where e: "e = (rc, k, v, c)" by (cases e)
  from store_insert [OF a(1), of k v c] a(2) e
  show "\<exists>i t' w'. (case e of (rc, k, v, c) \<Rightarrow> \<lambda>w. write_insert_plan vt k v w c) w = Ok (i, t', w') \<and>
      vt_id t' = vt_id vt \<and> m i = None \<and> store_rel t' (writer_query w') (m(i \<mapsto> e)) \<and>
      frame_w (vt_id vt) w w'"
    using same_table_id by (fastforce simp: can_insert_def)
next
  fix vt w m i and e :: entry_val
  assume "store_rel vt (writer_query w) m" "m i = Some e"
  from store_remove [OF this] show "\<exists>t' w'. write_remove_plan vt i w = Ok (t', w') \<and> vt_id t' = vt_id vt \<and>
      store_rel t' (writer_query w') (m(i := None)) \<and> frame_w (vt_id vt) w w'"
    using same_table_id by blast
next
  fix vt w m j w'
  assume "store_rel vt (writer_query w) m" "frame_w j w w'" "j \<noteq> vt_id vt"
  then show "store_rel vt (writer_query w') m" by (rule store_rel_frame)
qed

end
