(* ===== verification/Examples.thy ===== *)
theory Examples imports Value_Store begin

text \<open>
  Small concrete states: an empty value table, and one that holds a single value whose slot is
  still in the log. The properties are applied to them.
\<close>

definition ex_key :: key where
  "ex_key = replicate 32 5"

definition ex_table0 :: value_table where
  "ex_table0 = \<lparr>vt_id = 3, vt_entry_size = 64, vt_file = \<lparr>tf_file = None, tf_capacity = 0\<rparr>,
     vt_filled = 1, vt_last_removed = 0, vt_dirty_header = False, vt_multipart = False,
     vt_ref_counted = True, vt_db_version = 8\<rparr>"

definition ex_log0 :: log_writer where
  "ex_log0 = log_writer_new overlays_default 1"

definition ex_slot :: bytes where
  "ex_slot = last_part (u32_to_le 1 @ replicate 26 5 @ [7, 8]) False"

definition ex_table :: value_table where
  "ex_table = ex_table0\<lparr>vt_filled := 2, vt_dirty_header := True\<rparr>"

definition ex_log :: log_writer where
  "ex_log = insert_value 3 1 ex_slot ex_log0"

definition ex_store :: "u64 \<Rightarrow> entry_val option" where
  "ex_store = [1 \<mapsto> (1, Partial ex_key, [7, 8], False)]"

lemma below_2: "{i :: u64. 0 < i \<and> i < 2} = {1}"
proof -
  have "(0 < i \<and> i < 2) = (i = 1)" for i :: u64
  proof
    assume "0 < i \<and> i < 2"
    then have "unat i = 1" by (simp add: word_less_nat_alt)
    then show "i = 1" by (metis unsigned_1 word_unat_eq_iff)
  qed simp
  then show ?thesis by auto
qed

lemma ex_table0_inv: "table_inv ex_table0 (writer_query ex_log0) [] []"
  by (auto simp: table_inv_def alloc_inv_def ex_table0_def wf_table_def)

lemma ex_store0: "store_rel ex_table0 (writer_query ex_log0) (\<lambda>_. None)"
  using ex_table0_inv by (auto simp: store_rel_def live_map_def)

lemma ex_table_inv: "table_inv ex_table (writer_query ex_log) [] [([1], 1, Partial ex_key, [7, 8], False)]"
proof -
  have "wf_table ex_table" by (simp add: wf_table_def ex_table_def ex_table0_def)
  moreover have "slot_prefix ex_table (writer_query ex_log) 1 ex_slot"
    by (simp add: slot_prefix_def slot_view_def ex_table_def ex_table0_def ex_log_def writer_query_def)
  moreover have "entry_data ex_table 1 (Partial ex_key) [7, 8] = u32_to_le 1 @ replicate 26 5 @ [7, 8]"
    by (simp add: entry_data_def rc_bytes_def key_bytes_def ex_table_def ex_table0_def ex_key_def partial_key_def)
  ultimately show ?thesis
    using below_2
    by (simp add: table_inv_def alloc_inv_def live_ok_def value_chain_def ex_slot_def
        valid_key_def stored_rc_def ex_table_def ex_table0_def ex_key_def)
qed

lemma ex_store_rel: "store_rel ex_table (writer_query ex_log) ex_store"
  unfolding store_rel_def by (rule exI, rule exI, rule conjI, rule ex_table_inv) (simp add: live_map_def ex_store_def)

lemma ex_log0_value: "writer_value ex_log0 t i = None"
  by (simp add: ex_log0_def log_writer_new_def log_change_new_def overlays_default_def writer_value_def
      value_lookup_def overlays_query_def)

lemmas ex_defs = ex_table_def ex_table0_def ex_store_def ex_key_def

end
