(* ===== verification/Value_Props.thy ===== *)
theory Value_Props
  imports Examples
begin

text \<open>
  The properties of value tables. A table together with the log it is read through implements an
  abstract store from addresses to entries (\<open>store_rel\<close>); the properties say what each operation of
  src/src/table.rs does to that store, and that moving entries from the log into the file is not
  visible through it.
\<close>

section \<open>The table implements a store\<close>

text \<open>C18: Inserting a value never fails and never panics on a well-formed table that has room: it
  returns an address at which the store had nothing, the table afterwards holds exactly the old
  entries and the new one (with reference count one) at that address, and no slot of another table
  and no index chunk changes in the log.\<close>

theorem insert_refines:
  assumes "store_rel vt (writer_query w) m" "valid_key k" "fits vt k v"
    and "unat (vt_filled vt) + length v + 65 < 2 ^ 64"
  shows "\<exists>i vt' w'. write_insert_plan vt k v w c = Ok (i, vt', w') \<and> m i = None \<and>
    store_rel vt' (writer_query w') (m(i \<mapsto> (1, k, v, c))) \<and> frame_w (vt_id vt) w w'"
  using store_insert [OF assms] by blast

theorem insert_refines_witness:
  "\<exists>i vt' w'. write_insert_plan ex_table (Partial ex_key) [9] ex_log False = Ok (i, vt', w') \<and>
    ex_store i = None \<and>
    store_rel vt' (writer_query w') (ex_store(i \<mapsto> (1, Partial ex_key, [9], False))) \<and> frame_w 3 ex_log w'"
proof -
  have "valid_key (Partial ex_key)" "fits ex_table (Partial ex_key) [9]"
      "unat (vt_filled ex_table) + length [9 :: u8] + 65 < 2 ^ 64" "vt_id ex_table = 3"
    by (simp_all add: ex_defs valid_key_def fits_def ref_size_def encoded_size_def)
  with insert_refines [OF ex_store_rel, of "Partial ex_key" "[9]" False] show ?thesis by simp
qed

text \<open>C19: Removing a value succeeds for every address that holds one, in the multipart table for the
  whole chain of its slots: afterwards the store has nothing at the address and is unchanged
  elsewhere, and other tables are untouched.\<close>

theorem remove_refines:
  assumes "store_rel vt (writer_query w) m" "m i = Some e"
  shows "\<exists>vt' w'. write_remove_plan vt i w = Ok (vt', w') \<and>
    store_rel vt' (writer_query w') (m(i := None)) \<and> frame_w (vt_id vt) w w'"
  using store_remove [OF assms] by blast

theorem remove_refines_witness:
  "\<exists>vt' w'. write_remove_plan ex_table 1 ex_log = Ok (vt', w') \<and>
    store_rel vt' (writer_query w') (ex_store(1 := None)) \<and> frame_w 3 ex_log w'"
  using remove_refines [OF ex_store_rel, of 1] by (simp add: ex_defs)

text \<open>C20: Replacing a value in place keeps its address: whatever the lengths of the old and the new
  value (the chain of slots grows, shrinks or stays), the store afterwards maps the address to the
  new value and nothing else changes.\<close>

theorem replace_refines:
  assumes "store_rel vt (writer_query w) m" "m i = Some e" "valid_key k" "fits vt k v"
    and "unat (vt_filled vt) + length v + 65 < 2 ^ 64"
  shows "\<exists>vt' w'. write_replace_plan vt i k v w c = Ok (vt', w') \<and>
    store_rel vt' (writer_query w') (m(i \<mapsto> (1, k, v, c))) \<and> frame_w (vt_id vt) w w'"
  using store_replace [OF assms] by blast

theorem replace_refines_witness:
  "\<exists>vt' w'. write_replace_plan ex_table 1 (Partial ex_key) [9] ex_log False = Ok (vt', w') \<and>
    store_rel vt' (writer_query w') (ex_store(1 \<mapsto> (1, Partial ex_key, [9], False))) \<and> frame_w 3 ex_log w'"
proof -
  have "valid_key (Partial ex_key)" "fits ex_table (Partial ex_key) [9]" "ex_store 1 = Some (1, Partial ex_key, [7, 8], False)"
      "unat (vt_filled ex_table) + length [9 :: u8] + 65 < 2 ^ 64" "vt_id ex_table = 3"
    by (simp_all add: ex_defs valid_key_def fits_def ref_size_def encoded_size_def)
  with replace_refines [OF ex_store_rel, of 1 _ "Partial ex_key" "[9]" False] show ?thesis by simp
qed

text \<open>C24: Incrementing the reference count of a value adds one and sticks at the locked value
  $2^{32}-1$; the value, its key and the rest of the store stay.\<close>

theorem inc_ref_refines:
  assumes "store_rel vt (writer_query w) m" "m i = Some (rc, k, v, c)" "vt_ref_counted vt"
  shows "\<exists>w' rc'. write_inc_ref vt i w = Ok w' \<and> unat rc' = min (unat rc + 1) (2 ^ 32 - 1) \<and>
    store_rel vt (writer_query w') (m(i \<mapsto> (rc', k, v, c)))"
  using store_inc_ref [OF assms] by blast

theorem inc_ref_refines_witness:
  "\<exists>w' rc'. write_inc_ref ex_table 1 ex_log = Ok w' \<and> unat rc' = min (unat (1 :: u32) + 1) (2 ^ 32 - 1) \<and>
    store_rel ex_table (writer_query w') (ex_store(1 \<mapsto> (rc', Partial ex_key, [7, 8], False)))"
proof -
  have "ex_store 1 = Some (1, Partial ex_key, [7, 8], False)" "vt_ref_counted ex_table" by (simp_all add: ex_defs)
  from inc_ref_refines [OF ex_store_rel this] show ?thesis .
qed

text \<open>C25: Decrementing the reference count of a value removes the value exactly when the count was
  one and reports whether it is still there; otherwise the count goes down by one, except for a
  locked count, which stays.\<close>

theorem dec_ref_refines:
  assumes "store_rel vt (writer_query w) m" "m i = Some (rc, k, v, c)" "vt_ref_counted vt"
  shows "\<exists>vt' w'. write_dec_ref vt i w = Ok (rc \<noteq> 1, vt', w') \<and>
    store_rel vt' (writer_query w')
      (m(i := if rc = 1 then None else Some (if rc = LOCKED_REF then rc else rc - 1, k, v, c)))"
  using store_dec_ref [OF assms] by (cases "rc = 1") auto

theorem dec_ref_refines_witness:
  "\<exists>vt' w'. write_dec_ref ex_table 1 ex_log = Ok (False, vt', w') \<and>
    store_rel vt' (writer_query w') (ex_store(1 := None))"
proof -
  have "ex_store 1 = Some (1, Partial ex_key, [7, 8], False)" "vt_ref_counted ex_table" by (simp_all add: ex_defs)
  from dec_ref_refines [OF ex_store_rel this] show ?thesis by simp
qed

text \<open>C21: A query for a hashed key at any allocated address of a table whose entries are hashed
  gives the stored bytes, the compression flag and the count when a value with the same partial
  key starts there, and nothing otherwise (a free slot, a later slot of a chain, another key). It
  never fails, panics or runs forever, and \<open>has_key_at\<close> agrees with it.\<close>

theorem query_refines:
  assumes "store_rel vt lq m" "hashed m" "0 < i" "i < vt_filled vt"
  shows "vt_query vt (Check (Partial h)) i lq =
      Ok (map_option (\<lambda>(rc, v, c). (v, c, stored_rc vt rc, None)) (store_find m h i)) \<and>
    has_key_at vt i (Partial h) lq = Ok (store_find m h i \<noteq> None)"
  using store_query [OF assms] by blast

theorem query_refines_witness:
  "vt_query ex_table (Check (Partial ex_key)) 1 (writer_query ex_log) = Ok (Some ([7, 8], False, 1, None)) \<and>
   has_key_at ex_table 1 (Partial ex_key) (writer_query ex_log) = Ok True"
proof -
  have "hashed ex_store" "(0 :: u64) < 1" "1 < vt_filled ex_table" by (simp_all add: hashed_def ex_defs)
  from query_refines [OF ex_store_rel this, of ex_key] show ?thesis
    by (simp add: ex_defs store_find_def stored_rc_def)
qed

section \<open>From the log into the file\<close>

text \<open>C22: Enacting a logged slot is transparent: for a slot that the overlay shows, moving the bytes
  of its log record into the file and then clearing the overlay entry (or keeping it, when a
  later record has overwritten it) leaves the table in the same abstract state, and the reader
  stands right behind the bytes of the slot.\<close>

theorem enact_transparent:
  assumes "table_inv vt lq fl L" "file_inv vt" "slot_data vt d" "at_bytes r (d @ rest)"
    and "0 < i" "i < vt_filled vt" "unat (vt_filled vt) * es vt + GROW_SIZE_BYTES < 2 ^ 64"
    and "lq_value lq (vt_id vt) i = Some d'"
    and "lq_value lq' (vt_id vt) i = Some d' \<or> d' = d \<and> lq_value lq' (vt_id vt) i = None"
    and "\<forall>j. j \<noteq> i \<longrightarrow> lq_value lq' (vt_id vt) j = lq_value lq (vt_id vt) j"
  shows "\<exists>v. vt_enact_plan vt i r = Ok (v, advance d r) \<and> at_bytes (advance d r) rest \<and>
    file_inv v \<and> table_inv v lq' fl L"
  using vt_enact_transparent [OF assms(1-9)] assms(10) by blast

definition ex_reader :: "bytes \<Rightarrow> log_reader" where
  "ex_reader bs = log_reader_new bs 0 True"

theorem enact_transparent_witness:
  "\<exists>v. vt_enact_plan ex_table 1 (ex_reader ex_slot) = Ok (v, advance ex_slot (ex_reader ex_slot)) \<and>
    at_bytes (advance ex_slot (ex_reader ex_slot)) [] \<and> file_inv v \<and>
    table_inv v (writer_query ex_log0) [] [([1], 1, Partial ex_key, [7, 8], False)]"
proof (rule enact_transparent [OF ex_table_inv, of _ _ _ _ ex_slot])
  show "file_inv ex_table" by (simp add: file_inv_def ex_defs)
  show "slot_data ex_table ex_slot"
    unfolding ex_slot_def by (rule slot_dataI) (simp_all add: ex_defs)
  show "at_bytes (ex_reader ex_slot) (ex_slot @ [])"
    by (simp add: at_bytes_def ex_reader_def log_reader_new_def)
  show "lq_value (writer_query ex_log) (vt_id ex_table) 1 = Some ex_slot"
    by (simp add: writer_query_def ex_log_def ex_defs)
qed (simp_all add: ex_defs writer_query_def ex_log_def ex_log0_value GROW_SIZE_BYTES_def)

text \<open>C36: Opening a table file whose header was enacted gives back the table: the same allocation
  state, with a clean header.\<close>

theorem reopen_roundtrip:
  assumes "alloc_inv vt lq fl used" "file_inv vt" "tf_file (vt_file vt) = Some f"
    and "read_at (vt_file vt) 16 0 = Ok (header_of vt)"
  shows "vt_open (Some f) (vt_id vt) (if vt_multipart vt then None else Some (vt_entry_size vt))
      (vt_ref_counted vt) (vt_db_version vt) = Ok (vt\<lparr>vt_dirty_header := False\<rparr>)"
  by (rule vt_open_header [OF assms])

definition ex_file :: bytes where
  "ex_file = u64_to_le 0 @ u64_to_le 1 @ replicate 48 0"

definition ex_table_disk :: value_table where
  "ex_table_disk = ex_table0\<lparr>vt_file := \<lparr>tf_file = Some ex_file, tf_capacity = 1\<rparr>\<rparr>"

theorem reopen_roundtrip_witness:
  "vt_open (Some ex_file) 3 (Some 64) True 8 = Ok ex_table_disk"
proof -
  have "alloc_inv ex_table_disk (writer_query ex_log0) [] []"
    by (auto simp: alloc_inv_def ex_table_disk_def ex_table0_def wf_table_def)
  moreover have "file_inv ex_table_disk"
    by (simp add: file_inv_def ex_table_disk_def ex_table0_def ex_file_def)
  moreover have "read_at (vt_file ex_table_disk) 16 0 = Ok (header_of ex_table_disk)"
    by (simp add: ex_table_disk_def ex_table0_def ex_file_def read_at_def header_of_def subslice_def
        header_default_def header_set_filled_def header_set_last_removed_def blit_def)
  moreover have "tf_file (vt_file ex_table_disk) = Some ex_file" by (simp add: ex_table_disk_def)
  ultimately show ?thesis
    using reopen_roundtrip [of ex_table_disk "writer_query ex_log0" "[]" "[]" ex_file]
    by (simp add: ex_table_disk_def ex_table0_def)
qed

end
