(* ===== verification/Index_Table.thy ===== *)
theory Index_Table
  imports Table_File Log_Reader
begin

text \<open>
  Index tables (src/src/index.rs): a memory-mapped hash table of chunks with 64 entries of 64
  bits. An entry packs an address of a value with as many bits of the key as fit; the chunk
  number is given by the leading bits of the key.

  \<open>Entry\<close> and \<open>Address\<close> are newtypes over \<open>u64\<close> and stay \<open>u64\<close> here. The number of index bits is
  an \<open>u8\<close>; shifts are meant for 1 to 49 index bits (the code creates tables with 16 bits or
  more, and a shift by 64 or more is an overflow in Rust). The memory map is the byte list of the
  file, \<open>None\<close> while the file does not exist. A write through the raw pointer of \<open>enact_plan\<close>
  outside of the map, which Rust does not define, is \<open>Panic\<close>.
\<close>

section \<open>Entries and addresses\<close>

type_synonym ientry = u64
type_synonym address = u64

definition CHUNK_ENTRIES_BITS :: u8 where [simp]: "CHUNK_ENTRIES_BITS = 6"
definition CHUNK_ENTRIES :: nat where [simp]: "CHUNK_ENTRIES = 64"
definition ENTRY_BYTES :: nat where [simp]: "ENTRY_BYTES = 8"
definition CHUNK_LEN :: nat where [simp]: "CHUNK_LEN = 512"
definition HEADER_SIZE :: nat where [simp]: "HEADER_SIZE = 512"
definition META_SIZE :: nat where [simp]: "META_SIZE = 16 * 1024"
definition EMPTY_CHUNK :: chunk where "EMPTY_CHUNK = replicate CHUNK_LEN 0"

definition address_bits :: "u8 \<Rightarrow> u8" where
  "address_bits index_bits = index_bits + CHUNK_ENTRIES_BITS + 8"

definition entry_pack :: "address \<Rightarrow> u64 \<Rightarrow> u8 \<Rightarrow> ientry" where
  "entry_pack address pkey index_bits =
     push_bit (unat (address_bits index_bits)) pkey OR address"

definition last_address :: "u8 \<Rightarrow> u64" where
  "last_address index_bits = push_bit (unat (address_bits index_bits)) 1 - 1"

definition entry_address :: "ientry \<Rightarrow> u8 \<Rightarrow> address" where
  "entry_address e index_bits = e AND last_address index_bits"

definition entry_partial_key :: "ientry \<Rightarrow> u8 \<Rightarrow> u64" where
  "entry_partial_key e index_bits = drop_bit (unat (address_bits index_bits)) e"

definition extract_key :: "u64 \<Rightarrow> u8 \<Rightarrow> u64" where
  "extract_key key_prefix index_bits =
     drop_bit (unat (address_bits index_bits)) (push_bit (unat index_bits) key_prefix)"

definition entry_is_empty :: "ientry \<Rightarrow> bool" where
  "entry_is_empty e = (e = 0)"

definition entry_empty :: ientry where
  "entry_empty = 0"

definition addr_new :: "u64 \<Rightarrow> u8 \<Rightarrow> address" where
  "addr_new offset size_tier = push_bit 8 offset OR ucast size_tier"

definition addr_offset :: "address \<Rightarrow> u64" where
  "addr_offset a = drop_bit 8 a"

definition addr_size_tier :: "address \<Rightarrow> u8" where
  "addr_size_tier a = ucast (a AND (push_bit 8 1 - 1))"

datatype plan_outcome = Written | NeedReindex | Skipped

definition total_chunks :: "u8 \<Rightarrow> u64" where
  "total_chunks index_bits = push_bit (unat index_bits) 1"

definition total_entries :: "u8 \<Rightarrow> u64" where
  "total_entries index_bits = total_chunks index_bits * 64"

definition file_size :: "u8 \<Rightarrow> u64" where
  "file_size index_bits = total_entries index_bits * 8 + 16 * 1024"

definition index_id_new :: "u8 \<Rightarrow> u8 \<Rightarrow> u16" where
  "index_id_new col index_bits = push_bit 8 (ucast col) OR ucast index_bits"

definition index_id_col :: "u16 \<Rightarrow> u8" where
  "index_id_col i = ucast (drop_bit 8 i)"

definition index_id_bits :: "u16 \<Rightarrow> u8" where
  "index_id_bits i = ucast (i AND 0xff)"

section \<open>The table\<close>

record index_table =
  it_id :: u16
  it_map :: "bytes option"

abbreviation ibits :: "index_table \<Rightarrow> u8" where
  "ibits t \<equiv> index_id_bits (it_id t)"

definition it_open_existing :: "bytes option \<Rightarrow> u16 \<Rightarrow> index_table option" where
  "it_open_existing disk i =
     map_option (\<lambda>f. \<lparr>it_id = i, it_map = Some (set_len (unat (file_size (index_id_bits i))) f)\<rparr>) disk"

definition it_create_new :: "u16 \<Rightarrow> index_table" where
  "it_create_new i = \<lparr>it_id = i, it_map = None\<rparr>"

definition chunk_at :: "u64 \<Rightarrow> bytes \<Rightarrow> chunk result" where
  "chunk_at index m =
     (let offset = META_SIZE + unat index * CHUNK_LEN
      in if offset + CHUNK_LEN \<le> length m then Ok (subslice offset CHUNK_LEN m) else Panic)"

definition write_entry :: "ientry \<Rightarrow> nat \<Rightarrow> chunk \<Rightarrow> chunk" where
  "write_entry e at c = blit (at * 8) (u64_to_le e) c"

definition read_entry :: "chunk \<Rightarrow> nat \<Rightarrow> ientry" where
  "read_entry c at = u64_from_le (subslice (at * 8) 8 c)"

definition transmute_chunk :: "chunk \<Rightarrow> ientry list" where
  "transmute_chunk c = map (read_entry c) [0..<CHUNK_ENTRIES]"

definition chunk_index :: "index_table \<Rightarrow> u64 \<Rightarrow> u64" where
  "chunk_index t key_prefix = drop_bit (64 - unat (ibits t)) key_prefix"

subsection \<open>Searching a chunk\<close>

definition find_entry_base :: "index_table \<Rightarrow> u64 \<Rightarrow> nat \<Rightarrow> chunk \<Rightarrow> ientry \<times> nat" where
  "find_entry_base t key_prefix sub_index c =
     (let pkey = extract_key key_prefix (ibits t) in
      case List.find (\<lambda>i. entry_partial_key (read_entry c i) (ibits t) = pkey \<and>
                          \<not> entry_is_empty (read_entry c i)) [sub_index..<CHUNK_ENTRIES] of
        Some i \<Rightarrow> (read_entry c i, i)
      | None \<Rightarrow> (entry_empty, 0))"

text \<open>
  The SSE2 instructions: a 128-bit register is a pair of 64-bit lanes, the low lane first;
  \<open>dword v k\<close> is the 32-bit lane \<open>k\<close>.
\<close>

type_synonym m128 = "u64 \<times> u64"

definition dword :: "m128 \<Rightarrow> nat \<Rightarrow> u32" where
  "dword v k = (let q = (if k < 2 then fst v else snd v) in ucast (drop_bit (32 * (k mod 2)) q))"

definition of_dwords :: "u32 \<Rightarrow> u32 \<Rightarrow> u32 \<Rightarrow> u32 \<Rightarrow> m128" where
  "of_dwords a b c d = (ucast a OR push_bit 32 (ucast b), ucast c OR push_bit 32 (ucast d))"

definition mm_loadu_si128 :: "bytes \<Rightarrow> m128" where
  "mm_loadu_si128 bs = (u64_from_le (take 8 bs), u64_from_le (subslice 8 8 bs))"

definition mm_srl_epi64 :: "m128 \<Rightarrow> nat \<Rightarrow> m128" where
  "mm_srl_epi64 v n = (drop_bit n (fst v), drop_bit n (snd v))"

text \<open>The immediate \<open>0b11011000\<close>: lanes 0, 2, 1, 3.\<close>

definition mm_shuffle_epi32_d8 :: "m128 \<Rightarrow> m128" where
  "mm_shuffle_epi32_d8 v = of_dwords (dword v 0) (dword v 2) (dword v 1) (dword v 3)"

definition mm_unpacklo_epi64 :: "m128 \<Rightarrow> m128 \<Rightarrow> m128" where
  "mm_unpacklo_epi64 a b = (fst a, fst b)"

text \<open>\<open>_mm_movemask_epi8(_mm_cmpeq_epi32(v, set1(target)))\<close>: four bits for each equal lane.\<close>

definition mm_cmpeq_movemask :: "m128 \<Rightarrow> u32 \<Rightarrow> u32" where
  "mm_cmpeq_movemask v target =
     (if dword v 0 = target then 0x000f else 0) OR (if dword v 1 = target then 0x00f0 else 0) OR
     (if dword v 2 = target then 0x0f00 else 0) OR (if dword v 3 = target then 0xf000 else 0)"

definition trailing_zeros32 :: "u32 \<Rightarrow> nat" where
  "trailing_zeros32 w = length (takeWhile (\<lambda>i. \<not> bit w i) [0..<32])"

function sse2_loop :: "u64 \<Rightarrow> nat \<Rightarrow> chunk \<Rightarrow> nat \<Rightarrow> nat \<Rightarrow> ientry \<times> nat" where
  "sse2_loop pk shift c i skip =
     (if i + 4 \<le> CHUNK_ENTRIES then
        (let first_two = mm_shuffle_epi32_d8 (mm_srl_epi64 (mm_loadu_si128 (drop (i * 8) c)) shift);
             last_two = mm_shuffle_epi32_d8 (mm_srl_epi64 (mm_loadu_si128 (drop ((i + 2) * 8) c)) shift);
             current = mm_unpacklo_epi64 first_two last_two;
             cmp = drop_bit (skip * 4) (mm_cmpeq_movemask current (ucast pk))
         in if cmp \<noteq> 0 then
              (let position = i + skip + trailing_zeros32 cmp div 4
               in (read_entry c position, position))
            else sse2_loop pk shift c (i + 4) 0)
      else (entry_empty, 0))"
  by pat_completeness auto
termination by (relation "measure (\<lambda>(_, _, _, i, _). 64 - i)") auto

definition find_entry_sse2 :: "index_table \<Rightarrow> u64 \<Rightarrow> nat \<Rightarrow> chunk \<Rightarrow> ientry \<times> nat" where
  "find_entry_sse2 t key_prefix sub_index c =
     (let shift = max 32 (unat (address_bits (ibits t)));
          pk = drop_bit shift (push_bit (unat (ibits t)) key_prefix)
      in if pk = 0 then find_entry_base t key_prefix sub_index c
         else (let i = sub_index div 4 * 4 in sse2_loop pk shift c i (sub_index - i)))"

text \<open>The x86-64 build.\<close>

definition find_entry :: "index_table \<Rightarrow> u64 \<Rightarrow> nat \<Rightarrow> chunk \<Rightarrow> ientry \<times> nat" where
  "find_entry = find_entry_sse2"

definition recover_key_prefix :: "index_table \<Rightarrow> u64 \<Rightarrow> ientry \<Rightarrow> key" where
  "recover_key_prefix t chunk e =
     (let pkey = entry_partial_key e (ibits t);
          k = 64 - unat (address_bits (ibits t));
          index_key = push_bit (64 - unat (ibits t)) chunk OR
                      push_bit (64 - k - unat (ibits t)) pkey
      in u64_to_be index_key @ replicate 24 0)"

definition it_get :: "index_table \<Rightarrow> key \<Rightarrow> nat \<Rightarrow> log_query \<Rightarrow> (ientry \<times> nat) result" where
  "it_get t k sub_index lq =
     (let key = index_from_partial k; ci = chunk_index t key in
      case lq_index lq (it_id t) ci of
        Some c \<Rightarrow> Ok (find_entry t key sub_index c)
      | None \<Rightarrow>
          (case it_map t of
             Some m \<Rightarrow> and_then (chunk_at ci m) (\<lambda>c. Ok (find_entry t key sub_index c))
           | None \<Rightarrow> Ok (entry_empty, 0)))"

definition it_entries :: "index_table \<Rightarrow> u64 \<Rightarrow> log_query \<Rightarrow> ientry list result" where
  "it_entries t ci lq =
     (case lq_index lq (it_id t) ci of
        Some c \<Rightarrow> Ok (transmute_chunk c)
      | None \<Rightarrow>
          (case it_map t of
             Some m \<Rightarrow> and_then (chunk_at ci m) (\<lambda>c. Ok (transmute_chunk c))
           | None \<Rightarrow> Ok (transmute_chunk EMPTY_CHUNK)))"

fun all_entries :: "bytes \<Rightarrow> nat list \<Rightarrow> ientry list result" where
  "all_entries m [] = Ok []"
| "all_entries m (ci # cis) =
     and_then (chunk_at (word_of_nat ci) m) (\<lambda>c.
     and_then (all_entries m cis) (\<lambda>es.
       Ok (filter (\<lambda>e. \<not> entry_is_empty e) (transmute_chunk c) @ es)))"

definition sorted_entries :: "index_table \<Rightarrow> ientry list result" where
  "sorted_entries t =
     (case it_map t of
        None \<Rightarrow> Ok []
      | Some m \<Rightarrow>
          and_then (all_entries m [0..<unat (total_chunks (ibits t))]) (\<lambda>target.
            Ok (sort_key (\<lambda>e. let a = entry_address e (ibits t)
                              in unat (addr_size_tier a) * 2 ^ 64 + unat (addr_offset a)) target)))"

subsection \<open>Planning\<close>

definition plan_insert_chunk ::
    "index_table \<Rightarrow> u64 \<Rightarrow> address \<Rightarrow> chunk \<Rightarrow> nat option \<Rightarrow> log_writer
       \<Rightarrow> (plan_outcome \<times> log_writer) result" where
  "plan_insert_chunk t key_prefix address source sub_index w =
     (let ci = chunk_index t key_prefix in
      if address > last_address (ibits t) then Ok (NeedReindex, w) else
      let pkey = extract_key key_prefix (ibits t);
          new_entry = entry_pack address pkey (ibits t)
      in case sub_index of
           Some i \<Rightarrow>
             and_then (assert_r (entry_partial_key (read_entry source i) (ibits t) =
                                 entry_partial_key new_entry (ibits t))) (\<lambda>_.
               Ok (Written, insert_index (it_id t) ci (word_of_nat i) (write_entry new_entry i source) w))
         | None \<Rightarrow>
             (case List.find (\<lambda>i. entry_is_empty (read_entry source i)) [0..<CHUNK_ENTRIES] of
                Some i \<Rightarrow>
                  Ok (Written, insert_index (it_id t) ci (word_of_nat i) (write_entry new_entry i source) w)
              | None \<Rightarrow> Ok (NeedReindex, w)))"

definition it_write_insert_plan ::
    "index_table \<Rightarrow> key \<Rightarrow> address \<Rightarrow> nat option \<Rightarrow> log_writer \<Rightarrow> (plan_outcome \<times> log_writer) result" where
  "it_write_insert_plan t k address sub_index w =
     (let key_prefix = index_from_partial k; ci = chunk_index t key_prefix in
      case writer_index w (it_id t) ci of
        Some c \<Rightarrow> plan_insert_chunk t key_prefix address c sub_index w
      | None \<Rightarrow>
          (case it_map t of
             Some m \<Rightarrow> and_then (chunk_at ci m) (\<lambda>c. plan_insert_chunk t key_prefix address c sub_index w)
           | None \<Rightarrow> plan_insert_chunk t key_prefix address EMPTY_CHUNK sub_index w))"

definition plan_remove_chunk ::
    "index_table \<Rightarrow> u64 \<Rightarrow> chunk \<Rightarrow> nat \<Rightarrow> log_writer \<Rightarrow> (plan_outcome \<times> log_writer) result" where
  "plan_remove_chunk t key_prefix source sub_index w =
     (let ci = chunk_index t key_prefix;
          pkey = extract_key key_prefix (ibits t);
          e = read_entry source sub_index
      in if \<not> entry_is_empty e \<and> entry_partial_key e (ibits t) = pkey
         then Ok (Written, insert_index (it_id t) ci (word_of_nat sub_index)
                             (write_entry entry_empty sub_index source) w)
         else Ok (Skipped, w))"

definition it_write_remove_plan ::
    "index_table \<Rightarrow> key \<Rightarrow> nat \<Rightarrow> log_writer \<Rightarrow> (plan_outcome \<times> log_writer) result" where
  "it_write_remove_plan t k sub_index w =
     (let key_prefix = index_from_partial k; ci = chunk_index t key_prefix in
      case writer_index w (it_id t) ci of
        Some c \<Rightarrow> plan_remove_chunk t key_prefix c sub_index w
      | None \<Rightarrow>
          (case it_map t of
             Some m \<Rightarrow> and_then (chunk_at ci m) (\<lambda>c. plan_remove_chunk t key_prefix c sub_index w)
           | None \<Rightarrow> Ok (Skipped, w)))"

subsection \<open>Enacting\<close>

definition trailing_zeros :: "u64 \<Rightarrow> nat" where
  "trailing_zeros w = length (takeWhile (\<lambda>i. \<not> bit w i) [0..<64])"

text \<open>
  The loop \<open>while mask != 0 { let i = mask.trailing_zeros(); mask &= !(1 << i); ... }\<close> visits the
  positions \<open>mask_positions mask\<close> in this order.
\<close>

lemma trailing_zeros_bit:
  assumes "w \<noteq> 0"
  shows "trailing_zeros w < 64" "bit w (trailing_zeros w)" "\<And>j. j < trailing_zeros w \<Longrightarrow> \<not> bit w j"
proof -
  let ?P = "\<lambda>i. \<not> bit w i" and ?xs = "[0..<64]"
  obtain n where n: "bit w n" using assms by (metis bit_eq_iff bit_0_eq bot_apply bot_bool_def)
  then have "n < 64" using bit_imp_le_length by fastforce
  then have "\<exists>x\<in>set ?xs. \<not> ?P x" using n by auto
  then have l: "length (takeWhile ?P ?xs) < length ?xs"
    by (metis length_takeWhile_le le_neq_implies_less takeWhile_eq_all_conv takeWhile_eq_take take_all_iff)
  then show "trailing_zeros w < 64" by (simp add: trailing_zeros_def)
  have "\<not> ?P (?xs ! length (takeWhile ?P ?xs))" by (rule nth_length_takeWhile [OF l])
  then show "bit w (trailing_zeros w)" using l by (simp add: trailing_zeros_def)
  show "\<not> bit w j" if "j < trailing_zeros w" for j
  proof -
    have "takeWhile ?P ?xs ! j = ?xs ! j" using that by (intro takeWhile_nth) (simp add: trailing_zeros_def)
    moreover have "?P (takeWhile ?P ?xs ! j)"
      using that by (metis nth_mem set_takeWhileD trailing_zeros_def)
    ultimately show ?thesis using that l by (simp add: trailing_zeros_def)
  qed
qed

function mask_positions :: "u64 \<Rightarrow> nat list" where
  "mask_positions msk =
     (if msk = 0 then []
      else (let i = trailing_zeros msk in i # mask_positions (msk AND NOT (push_bit i 1))))"
  by pat_completeness auto
termination
proof (relation "measure unat")
  fix msk :: u64 and i
  assume "msk \<noteq> 0" "i = trailing_zeros msk"
  then have "bit msk i" using trailing_zeros_bit by blast
  moreover from this have "\<not> bit (msk AND NOT (push_bit i 1)) i"
    using bit_imp_le_length by (fastforce simp: bit_simps)
  ultimately have "msk AND NOT (push_bit i 1) \<noteq> msk" by auto
  moreover have "msk AND NOT (push_bit i 1) \<le> msk" by (rule word_and_le2)
  ultimately have "msk AND NOT (push_bit i 1) < msk" by simp
  then show "(msk AND NOT (push_bit i 1), msk) \<in> measure unat" by (simp add: word_less_nat_alt)
qed simp

fun enact_entries :: "nat list \<Rightarrow> nat \<Rightarrow> bytes \<Rightarrow> log_reader \<Rightarrow> (bytes \<times> log_reader) result" where
  "enact_entries [] offset m r = Ok (m, r)"
| "enact_entries (i # js) offset m r =
     and_then (log_read r ENTRY_BYTES) (\<lambda>(bs, r).
       enact_entries js offset (blit (offset + i * ENTRY_BYTES) bs m) r)"

definition it_enact_plan :: "index_table \<Rightarrow> u64 \<Rightarrow> log_reader \<Rightarrow> (index_table \<times> log_reader) result" where
  "it_enact_plan t index r =
     (let m = (case it_map t of Some m \<Rightarrow> m | None \<Rightarrow> set_len (unat (file_size (ibits t))) []);
          offset = META_SIZE + unat index * CHUNK_LEN
      in and_then (assert_r (offset + CHUNK_LEN \<le> length m)) (\<lambda>_.
         and_then (log_read r 8) (\<lambda>(mask_buf, r).
         and_then (enact_entries (mask_positions (u64_from_le mask_buf)) offset m r) (\<lambda>(m, r).
           Ok (t\<lparr>it_map := Some m\<rparr>, r)))))"

fun skip_entries :: "nat list \<Rightarrow> log_reader \<Rightarrow> log_reader result" where
  "skip_entries [] r = Ok r"
| "skip_entries (i # js) r = and_then (log_read r 8) (\<lambda>(_, r). skip_entries js r)"

definition it_skip_plan :: "log_reader \<Rightarrow> log_reader result" where
  "it_skip_plan r =
     and_then (log_read r 8) (\<lambda>(buf, r). skip_entries (mask_positions (u64_from_le buf)) r)"

definition it_validate_plan :: "index_table \<Rightarrow> u64 \<Rightarrow> log_reader \<Rightarrow> log_reader result" where
  "it_validate_plan t index r =
     (if index \<ge> total_entries (ibits t) then Err (Corruption ''Bad index'')
      else and_then (log_read r 8) (\<lambda>(buf, r). skip_entries (mask_positions (u64_from_le buf)) r))"

definition it_drop_file :: "index_table \<Rightarrow> index_table" where
  "it_drop_file t = t\<lparr>it_map := None\<rparr>"

definition it_flush :: "index_table \<Rightarrow> index_table" where
  "it_flush t = t"

end
