(* ===== verification/Index_Spec.thy ===== *)
theory Index_Spec
  imports Index_Table
begin

text \<open>
  Correctness of the index table: packing of entries, the vectorised search against the plain
  one, what insertions and removals do to the entries of a chunk, and which part of the key an
  index entry determines.
\<close>

section \<open>Packing\<close>

definition valid_bits :: "u8 \<Rightarrow> bool" where
  "valid_bits b \<longleftrightarrow> 1 \<le> unat b \<and> unat b \<le> 49"

lemma unat_address_bits: "valid_bits b \<Longrightarrow> unat (address_bits b) = unat b + 14"
  by (simp add: valid_bits_def address_bits_def unat_word_ariths)

lemma last_address_mask: "valid_bits b \<Longrightarrow> last_address b = mask (unat b + 14)"
  by (simp add: last_address_def unat_address_bits mask_eq_exp_minus_1 push_bit_eq_mult)

lemma entry_unpack:
  assumes "valid_bits b" "a \<le> last_address b" "drop_bit (64 - (unat b + 14)) pk = 0"
  shows "entry_address (entry_pack a pk b) b = a" "entry_partial_key (entry_pack a pk b) b = pk"
proof -
  let ?n = "unat b + 14"
  have n: "?n < 64" using assms(1) by (simp add: valid_bits_def)
  have a: "bit a j \<Longrightarrow> j < ?n" for j
    using assms(2) le_mask_iff_bits [OF n, of a] last_address_mask [OF assms(1)] by simp
  have p: "bit pk j \<Longrightarrow> j < 64 - ?n" for j
    using bits_below [OF assms(3)] .
  note d = unat_address_bits [OF assms(1)] last_address_mask [OF assms(1)]
  show "entry_address (entry_pack a pk b) b = a"
    unfolding entry_address_def entry_pack_def d
    by (rule bit_word_eqI) (use a in \<open>auto simp: bit_simps\<close>)
  show "entry_partial_key (entry_pack a pk b) b = pk"
    unfolding entry_partial_key_def entry_pack_def d
    by (rule bit_word_eqI) (use a p n in \<open>fastforce simp: bit_simps\<close>)
qed

lemma extract_key_small:
  assumes "valid_bits b"
  shows "drop_bit (64 - (unat b + 14)) (extract_key kp b) = 0"
  unfolding extract_key_def unat_address_bits [OF assms]
  by (rule bit_word_eqI) (use assms in \<open>auto simp: bit_simps valid_bits_def dest: bit_imp_le_length\<close>)

lemma addr_roundtrip:
  assumes "drop_bit 56 offset = 0"
  shows "addr_offset (addr_new offset tier) = offset" "addr_size_tier (addr_new offset tier) = tier"
proof -
  have o: "bit offset j \<Longrightarrow> j < 56" for j
    using bits_below [OF assms] .
  show "addr_offset (addr_new offset tier) = offset"
    unfolding addr_offset_def addr_new_def
    by (rule bit_word_eqI) (use o in \<open>fastforce simp: bit_simps dest: bit_imp_le_length\<close>)
  have m: "push_bit 8 1 - 1 = (mask 8 :: u64)" by (simp add: mask_eq_exp_minus_1 push_bit_eq_mult)
  show "addr_size_tier (addr_new offset tier) = tier"
    unfolding addr_size_tier_def addr_new_def m
    by (rule bit_word_eqI) (auto simp: bit_simps dest: bit_imp_le_length)
qed

lemma addr_new_le_last:
  assumes "valid_bits b" "drop_bit (unat b + 6) offset = 0"
  shows "addr_new offset tier \<le> last_address b"
proof -
  have n: "unat b + 14 < 64" using assms(1) by (simp add: valid_bits_def)
  have o: "bit offset j \<Longrightarrow> j < unat b + 6" for j
    using bits_below [OF assms(2)] .
  show ?thesis
    unfolding last_address_mask [OF assms(1)] le_mask_iff_bits [OF n] addr_new_def
    using o by (fastforce simp: bit_simps dest: bit_imp_le_length)
qed

lemma index_id_roundtrip [simp]:
  "index_id_col (index_id_new c b) = c" "index_id_bits (index_id_new c b) = b"
proof -
  show "index_id_col (index_id_new c b) = c"
    unfolding index_id_new_def index_id_col_def
    by (rule bit_word_eqI; force simp: bit_simps dest: bit_imp_le_length)
  show "index_id_bits (index_id_new c b) = b"
    unfolding index_id_new_def index_id_bits_def and_255
    by (rule bit_word_eqI; force simp: bit_simps dest: bit_imp_le_length)
qed

section \<open>Entries of a chunk\<close>

lemma length_write_entry [simp]: "length c = 512 \<Longrightarrow> i < 64 \<Longrightarrow> length (write_entry e i c) = 512"
  by (simp add: write_entry_def)

lemma read_write_entry:
  assumes "length c = 512" "i < 64" "j < 64"
  shows "read_entry (write_entry e i c) j = (if j = i then e else read_entry c j)"
proof (cases "j = i")
  case True
  then show ?thesis using assms by (simp add: read_entry_def write_entry_def subslice_blit_same)
next
  case False
  then have "j * 8 + 8 \<le> i * 8 \<or> i * 8 + 8 \<le> j * 8" by linarith
  then show ?thesis using assms False by (simp add: read_entry_def write_entry_def subslice_blit_disjoint)
qed

lemma read_empty_chunk [simp]: "i < 64 \<Longrightarrow> read_entry EMPTY_CHUNK i = 0"
proof -
  assume "i < 64"
  then have "subslice (i * 8) 8 EMPTY_CHUNK = replicate 8 0" by (simp add: EMPTY_CHUNK_def subslice_def)
  moreover have "u64_from_le (replicate 8 0) = 0" by (simp add: u64_from_le_def numeral_eq_Suc)
  ultimately show ?thesis by (simp add: read_entry_def)
qed

lemma transmute_write_entry:
  "length c = 512 \<Longrightarrow> i < 64 \<Longrightarrow> transmute_chunk (write_entry e i c) = (transmute_chunk c)[i := e]"
  by (rule nth_equalityI) (auto simp: transmute_chunk_def read_write_entry nth_list_update)

lemma nth_transmute [simp]: "i < 64 \<Longrightarrow> transmute_chunk c ! i = read_entry c i"
  by (simp add: transmute_chunk_def)

lemma length_transmute [simp]: "length (transmute_chunk c) = 64"
  by (simp add: transmute_chunk_def)

section \<open>Searching\<close>

text \<open>The reference: the first position from \<open>sub\<close> on whose entry satisfies \<open>P\<close>.\<close>

definition first_match :: "(ientry \<Rightarrow> bool) \<Rightarrow> chunk \<Rightarrow> nat \<Rightarrow> ientry \<times> nat" where
  "first_match P c sub =
     (case List.find (\<lambda>i. P (read_entry c i)) [sub..<64] of
        Some i \<Rightarrow> (read_entry c i, i) | None \<Rightarrow> (entry_empty, 0))"

definition base_match :: "u8 \<Rightarrow> u64 \<Rightarrow> ientry \<Rightarrow> bool" where
  "base_match b kp e \<longleftrightarrow> entry_partial_key e b = extract_key kp b \<and> e \<noteq> 0"

lemma find_entry_base_first:
  "find_entry_base t kp sub c = first_match (base_match (ibits t) kp) c sub"
  by (simp add: find_entry_base_def first_match_def base_match_def entry_is_empty_def Let_def)

lemma find_upt_Some:
  assumes "s \<le> i" "i < n" "P i" "\<And>j. s \<le> j \<Longrightarrow> j < i \<Longrightarrow> \<not> P j"
  shows "List.find P [s..<n] = Some i"
proof -
  have "[s..<n] = [s..<i] @ i # [Suc i..<n]" using assms(1,2) upt_add_eq_append [of s i "n - i"]
    by (simp add: upt_conv_Cons)
  moreover have "filter P [s..<i] = []" using assms(4) by (auto simp: filter_empty_conv)
  ultimately show ?thesis
    using assms(3) by (auto simp: find_dropWhile dropWhile_append dropWhile_eq_Nil_conv filter_empty_conv)
qed

lemma find_upt_skip:
  assumes "s \<le> m" "m \<le> n" "\<And>j. s \<le> j \<Longrightarrow> j < m \<Longrightarrow> \<not> P j"
  shows "List.find P [s..<n] = List.find P [m..<n]"
proof -
  have "[s..<n] = [s..<m] @ [m..<n]" using assms(1,2) upt_add_eq_append [of s m "n - m"] by simp
  then show ?thesis using assms(3) by (simp add: find_dropWhile dropWhile_append)
qed

lemma trailing_zeros32_bit:
  assumes "w \<noteq> 0"
  shows "bit w (trailing_zeros32 w)" "\<And>j. j < trailing_zeros32 w \<Longrightarrow> \<not> bit w j"
proof -
  let ?P = "\<lambda>i. \<not> bit w i" and ?xs = "[0..<32]"
  obtain n where n: "bit w n" using assms by (metis bit_eq_iff bit_0_eq bot_apply bot_bool_def)
  then have "n < 32" using bit_imp_le_length by fastforce
  then have "\<exists>x\<in>set ?xs. \<not> ?P x" using n by auto
  then have l: "length (takeWhile ?P ?xs) < length ?xs"
    by (metis length_takeWhile_le le_neq_implies_less takeWhile_eq_all_conv takeWhile_eq_take take_all_iff)
  have "\<not> ?P (?xs ! length (takeWhile ?P ?xs))" by (rule nth_length_takeWhile [OF l])
  then show "bit w (trailing_zeros32 w)" using l by (simp add: trailing_zeros32_def)
  show "\<not> bit w j" if "j < trailing_zeros32 w" for j
  proof -
    have "takeWhile ?P ?xs ! j = ?xs ! j" using that by (intro takeWhile_nth) (simp add: trailing_zeros32_def)
    moreover have "?P (takeWhile ?P ?xs ! j)"
      using that by (metis nth_mem set_takeWhileD trailing_zeros32_def)
    ultimately show ?thesis using that l by (simp add: trailing_zeros32_def)
  qed
qed

lemma bit_cmpeq_movemask:
  "bit (mm_cmpeq_movemask v t) n \<longleftrightarrow> n < 16 \<and> dword v (n div 4) = t"
proof -
  have m: "(0x000f :: u32) = mask 4" "(0x00f0 :: u32) = push_bit 4 (mask 4)"
    "(0x0f00 :: u32) = push_bit 8 (mask 4)" "(0xf000 :: u32) = push_bit 12 (mask 4)"
    by (simp_all add: mask_eq_exp_minus_1 push_bit_eq_mult)
  consider "n < 4" | "4 \<le> n" "n < 8" | "8 \<le> n" "n < 12" | "12 \<le> n" "n < 16" | "16 \<le> n" by linarith
  then show ?thesis
  proof cases
    case 1
    then have "n div 4 = 0" by simp
    with 1 show ?thesis unfolding mm_cmpeq_movemask_def m by (auto simp: bit_simps)
  next
    case 2
    then have "n div 4 = 1" by simp
    with 2 show ?thesis unfolding mm_cmpeq_movemask_def m by (auto simp: bit_simps)
  next
    case 3
    then have "n div 4 = 2" by simp
    with 3 show ?thesis unfolding mm_cmpeq_movemask_def m by (auto simp: bit_simps)
  next
    case 4
    then have "n div 4 = 3" by simp
    with 4 show ?thesis unfolding mm_cmpeq_movemask_def m by (auto simp: bit_simps)
  next
    case 5
    then show ?thesis unfolding mm_cmpeq_movemask_def m by (auto simp: bit_simps)
  qed
qed

text \<open>The comparison mask of one block, read at the offset \<open>skip\<close>.\<close>

lemma cmp_block:
  fixes v :: m128 and t :: u32
  assumes "skip < 4"
  defines "cmp \<equiv> drop_bit (skip * 4) (mm_cmpeq_movemask v t)"
  shows "cmp = 0 \<longleftrightarrow> (\<forall>k. skip \<le> k \<longrightarrow> k < 4 \<longrightarrow> dword v k \<noteq> t)"
    and "cmp \<noteq> 0 \<Longrightarrow> skip + trailing_zeros32 cmp div 4 < 4 \<and> dword v (skip + trailing_zeros32 cmp div 4) = t"
    and "cmp \<noteq> 0 \<Longrightarrow> skip \<le> k \<Longrightarrow> k < skip + trailing_zeros32 cmp div 4 \<Longrightarrow> dword v k \<noteq> t"
proof -
  have b: "bit cmp n \<longleftrightarrow> n + skip * 4 < 16 \<and> dword v (n div 4 + skip) = t" for n
  proof -
    have "(skip * 4 + n) div 4 = n div 4 + skip" by simp
    then show ?thesis by (simp add: cmp_def bit_drop_bit_eq bit_cmpeq_movemask add.commute)
  qed
  have bk: "bit cmp ((k - skip) * 4) \<longleftrightarrow> dword v k = t" if "skip \<le> k" "k < 4" for k
  proof -
    have "(k - skip) * 4 + skip * 4 < 16" "(k - skip) * 4 div 4 + skip = k" using that by simp_all
    then show ?thesis using b [of "(k - skip) * 4"] by simp
  qed
  show "cmp = 0 \<longleftrightarrow> (\<forall>k. skip \<le> k \<longrightarrow> k < 4 \<longrightarrow> dword v k \<noteq> t)"
  proof
    assume "cmp = 0"
    with bk show "\<forall>k. skip \<le> k \<longrightarrow> k < 4 \<longrightarrow> dword v k \<noteq> t" by auto
  next
    assume a: "\<forall>k. skip \<le> k \<longrightarrow> k < 4 \<longrightarrow> dword v k \<noteq> t"
    have "\<not> bit cmp n" for n
    proof
      assume "bit cmp n"
      then have "n + skip * 4 < 16" "dword v (n div 4 + skip) = t" by (simp_all add: b)
      moreover from this have "n div 4 + skip < 4" by linarith
      ultimately show False using a by simp
    qed
    then show "cmp = 0" by (simp add: bit_eq_iff)
  qed
  show "skip + trailing_zeros32 cmp div 4 < 4 \<and> dword v (skip + trailing_zeros32 cmp div 4) = t" if "cmp \<noteq> 0"
    using trailing_zeros32_bit(1) [OF that] by (simp add: b add.commute) linarith
  show "dword v k \<noteq> t" if "cmp \<noteq> 0" "skip \<le> k" "k < skip + trailing_zeros32 cmp div 4"
  proof -
    have "(k - skip) * 4 < trailing_zeros32 cmp" "k < 4"
      using that trailing_zeros32_bit(1) [OF that(1)] by (simp_all add: b) linarith+
    then show ?thesis using trailing_zeros32_bit(2) [OF that(1)] bk that(2) by blast
  qed
qed

lemma lanes_of_pair:
  fixes a b :: u32
  shows "ucast (ucast a OR push_bit 32 (ucast b :: u64)) = a"
    and "ucast (drop_bit 32 (ucast a OR push_bit 32 (ucast b :: u64))) = b"
  by (rule bit_word_eqI; force simp: bit_simps dest: bit_imp_le_length)+

lemma dword_current:
  assumes "k < 4"
  shows "dword (mm_unpacklo_epi64 (mm_shuffle_epi32_d8 (x0, x1)) (mm_shuffle_epi32_d8 (y0, y1))) k =
    ucast ([x0, x1, y0, y1] ! k)"
proof -
  have "k \<in> {0, 1, 2, 3}" using assms by auto
  then show ?thesis
    by (elim insertE emptyE; simp add: dword_def mm_unpacklo_epi64_def mm_shuffle_epi32_d8_def of_dwords_def
        lanes_of_pair Let_def del: drop_bit_or)
qed

lemma ucast_eq_32:
  fixes x y :: u64
  assumes "drop_bit 32 x = 0" "drop_bit 32 y = 0"
  shows "(ucast x :: u32) = ucast y \<longleftrightarrow> x = y"
proof
  assume e: "(ucast x :: u32) = ucast y"
  show "x = y"
  proof (rule bit_word_eqI)
    fix n :: nat
    show "bit x n = bit y n"
      using e bits_below [OF assms(1)] bits_below [OF assms(2)] bit_ucast_iff [where 'a = 32 and 'b = 64, of _ n]
      by (cases "n < 32") (auto simp: bit_eq_iff bit_simps)
  qed
qed simp

lemma load_two:
  assumes "length c = 512" "i + 1 < 64"
  shows "mm_loadu_si128 (drop (i * 8) c) = (read_entry c i, read_entry c (i + 1))"
  by (simp add: mm_loadu_si128_def read_entry_def subslice_def add.commute)

lemma sse2_block:
  fixes skip :: nat
  assumes "length c = 512" "32 \<le> shift" "drop_bit 32 pk = 0" "i + 4 \<le> 64"
  defines "cur \<equiv> mm_unpacklo_epi64
      (mm_shuffle_epi32_d8 (mm_srl_epi64 (mm_loadu_si128 (drop (i * 8) c)) shift))
      (mm_shuffle_epi32_d8 (mm_srl_epi64 (mm_loadu_si128 (drop ((i + 2) * 8) c)) shift))"
  assumes "k < 4"
  shows "dword cur k = ucast pk \<longleftrightarrow> drop_bit shift (read_entry c (i + k)) = pk"
proof -
  have l: "mm_loadu_si128 (drop (i * 8) c) = (read_entry c i, read_entry c (i + 1))"
      "mm_loadu_si128 (drop ((i + 2) * 8) c) = (read_entry c (i + 2), read_entry c (i + 3))"
    using load_two [OF assms(1), of i] load_two [OF assms(1), of "i + 2"] assms(4) by (simp_all add: numeral_3_eq_3)
  have "k \<in> {0, 1, 2, 3}" using assms(6) by auto
  then have "dword cur k = ucast (drop_bit shift (read_entry c (i + k)))"
    unfolding cur_def l mm_srl_epi64_def fst_conv snd_conv dword_current [OF assms(6)]
    by (elim insertE emptyE) simp_all
  moreover have "drop_bit 32 (drop_bit shift (read_entry c (i + k))) = 0"
    by (rule bit_word_eqI) (use assms(2) in \<open>auto simp: bit_simps dest: bit_imp_le_length\<close>)
  ultimately show ?thesis using ucast_eq_32 [OF _ assms(3)] by simp
qed

lemma sse2_loop_first:
  assumes "length c = 512" "32 \<le> shift" "drop_bit 32 pk = 0"
  shows "i \<le> 64 \<Longrightarrow> 4 dvd i \<Longrightarrow> skip < 4 \<Longrightarrow> i < 64 \<or> skip = 0 \<Longrightarrow>
    sse2_loop pk shift c i skip = first_match (\<lambda>e. drop_bit shift e = pk) c (i + skip)"
proof (induction "64 - i" arbitrary: i skip rule: less_induct)
  case less
  let ?P = "\<lambda>e. drop_bit shift e = pk"
  show ?case
  proof (cases "i + 4 \<le> 64")
    case False
    then have "i = 64" using less.prems(1,2) by presburger
    then show ?thesis using less.prems(4) by (simp add: first_match_def)
  next
    case True
    define cur where "cur = mm_unpacklo_epi64
      (mm_shuffle_epi32_d8 (mm_srl_epi64 (mm_loadu_si128 (drop (i * 8) c)) shift))
      (mm_shuffle_epi32_d8 (mm_srl_epi64 (mm_loadu_si128 (drop ((i + 2) * 8) c)) shift))"
    define cmp where "cmp = drop_bit (skip * 4) (mm_cmpeq_movemask cur (ucast pk))"
    note blk = sse2_block [OF assms True, folded cur_def]
    note cb = cmp_block [OF less.prems(3), of cur "ucast pk", folded cmp_def]
    have step: "sse2_loop pk shift c i skip =
        (if cmp \<noteq> 0 then (let p = i + skip + trailing_zeros32 cmp div 4 in (read_entry c p, p))
         else sse2_loop pk shift c (i + 4) 0)"
      using True by (subst sse2_loop.simps) (simp add: cur_def cmp_def Let_def)
    show ?thesis
    proof (cases "cmp = 0")
      case c0: True
      have "\<not> ?P (read_entry c j)" if "i + skip \<le> j" "j < i + 4" for j
        using cb(1) c0 blk [of "j - i"] that by auto
      then have "List.find (\<lambda>i. ?P (read_entry c i)) [i + skip..<64] = List.find (\<lambda>i. ?P (read_entry c i)) [i + 4..<64]"
        using less.prems(3) True by (intro find_upt_skip) auto
      moreover have "sse2_loop pk shift c (i + 4) 0 = first_match ?P c (i + 4)"
        using less.hyps [of "i + 4" 0] True less.prems(2) by simp
      ultimately show ?thesis using step c0 by (simp add: first_match_def)
    next
      case False
      let ?k = "skip + trailing_zeros32 cmp div 4"
      have "List.find (\<lambda>i. ?P (read_entry c i)) [i + skip..<64] = Some (i + ?k)"
      proof (rule find_upt_Some)
        show "?P (read_entry c (i + ?k))" "i + ?k < 64" using cb(2) [OF False] blk [of ?k] True by auto
        show "\<not> ?P (read_entry c j)" if "i + skip \<le> j" "j < i + ?k" for j
        proof -
          have "skip \<le> j - i" "j - i < ?k" "j - i < 4" "i + (j - i) = j" using that cb(2) [OF False] by auto
          then show ?thesis using cb(3) [OF False, of "j - i"] blk [of "j - i"] by simp
        qed
      qed simp
      then show ?thesis using step False by (simp add: first_match_def Let_def add.assoc)
    qed
  qed
qed

text \<open>
  What the x86-64 build matches: the leading 32 bits of the partial key when the partial key is
  longer than that (16 and 17 index bits), the whole partial key otherwise; a key whose leading
  bits are all zero goes through the plain search.
\<close>

definition sse2_match :: "u8 \<Rightarrow> u64 \<Rightarrow> ientry \<Rightarrow> bool" where
  "sse2_match b kp e \<longleftrightarrow>
     (let shift = max 32 (unat b + 14); pk = drop_bit shift (push_bit (unat b) kp)
      in if pk = 0 then base_match b kp e else drop_bit shift e = pk)"

lemma find_entry_first:
  assumes "valid_bits (ibits t)" "length c = 512" "sub < 64"
  shows "find_entry t kp sub c = first_match (sse2_match (ibits t) kp) c sub"
proof -
  let ?shift = "max 32 (unat (ibits t) + 14)"
  let ?pk = "drop_bit ?shift (push_bit (unat (ibits t)) kp)"
  have pk: "drop_bit 32 ?pk = 0"
    by (rule bit_word_eqI) (auto simp: bit_simps dest: bit_imp_le_length)
  have "sse2_loop ?pk ?shift c (sub div 4 * 4) (sub - sub div 4 * 4) =
      first_match (\<lambda>e. drop_bit ?shift e = ?pk) c (sub div 4 * 4 + (sub - sub div 4 * 4))"
    by (rule sse2_loop_first [OF assms(2) _ pk]) (use assms(3) in auto)
  moreover have "sse2_match (ibits t) kp =
      (if ?pk = 0 then base_match (ibits t) kp else (\<lambda>e. drop_bit ?shift e = ?pk))"
    by (rule ext) (simp add: sse2_match_def Let_def)
  ultimately show ?thesis
    by (simp add: find_entry_def find_entry_sse2_def Let_def unat_address_bits [OF assms(1)]
        find_entry_base_first del: sse2_loop.simps)
qed

lemma sse2_match_facts:
  assumes "valid_bits b"
  shows "base_match b kp e \<Longrightarrow> sse2_match b kp e" "sse2_match b kp e \<Longrightarrow> e \<noteq> 0"
    "18 \<le> unat b \<Longrightarrow> sse2_match b kp = base_match b kp"
proof -
  let ?n = "unat b + 14"
  let ?s = "max 32 ?n"
  have ab: "unat (address_bits b) = ?n" by (rule unat_address_bits [OF assms])
  have "drop_bit ?s x = drop_bit (?s - ?n) (drop_bit ?n x)" for x :: u64 by simp
  then show "base_match b kp e \<Longrightarrow> sse2_match b kp e"
    unfolding base_match_def sse2_match_def Let_def entry_partial_key_def extract_key_def ab by metis
  show "sse2_match b kp e \<Longrightarrow> e \<noteq> 0"
    by (auto simp: sse2_match_def base_match_def Let_def split: if_splits)
  assume "18 \<le> unat b"
  then have s: "?s = ?n" by simp
  show "sse2_match b kp = base_match b kp"
    unfolding sse2_match_def base_match_def Let_def entry_partial_key_def extract_key_def ab s
    by (rule ext) auto
qed

lemma first_match_SomeD:
  assumes "first_match P c sub = (e, i)" "e \<noteq> 0"
  shows "sub \<le> i" "i < 64" "e = read_entry c i" "P e" "\<And>j. sub \<le> j \<Longrightarrow> j < i \<Longrightarrow> \<not> P (read_entry c j)"
proof -
  obtain k where k: "List.find (\<lambda>i. P (read_entry c i)) [sub..<64] = Some k" "e = read_entry c k" "i = k"
  proof (cases "List.find (\<lambda>i. P (read_entry c i)) [sub..<64]")
    case None
    with assms show ?thesis by (simp add: first_match_def entry_empty_def)
  next
    case (Some k)
    with assms(1) have "e = read_entry c k" "i = k" by (auto simp: first_match_def)
    with Some that show ?thesis by blast
  qed
  then obtain n0 where "n0 < length [sub..<64]" "P (read_entry c ([sub..<64] ! n0))" "k = [sub..<64] ! n0"
      "\<forall>j<n0. \<not> P (read_entry c ([sub..<64] ! j))"
    unfolding find_Some_iff by blast
  then obtain n where n: "n < 64 - sub" "P (read_entry c (sub + n))" "k = sub + n"
      "\<And>j. j < n \<Longrightarrow> \<not> P (read_entry c (sub + j))"
    by simp
  show "sub \<le> i" "i < 64" "e = read_entry c i" using n(1,3) k(2,3) by simp_all
  show "P e" using n(2,3) k(2) by simp
  show "\<not> P (read_entry c j)" if "sub \<le> j" "j < i" for j
    using n(4) [of "j - sub"] n(3) k(3) that by simp
qed

lemma first_match_None:
  assumes "first_match P c sub = (0, i)" "\<And>e. P e \<Longrightarrow> e \<noteq> 0" "sub \<le> j" "j < 64"
  shows "\<not> P (read_entry c j)"
proof
  assume "P (read_entry c j)"
  then have "List.find (\<lambda>i. P (read_entry c i)) [sub..<64] \<noteq> None"
    using assms(3,4) by (auto simp: find_None_iff)
  then obtain k where k: "List.find (\<lambda>i. P (read_entry c i)) [sub..<64] = Some k" by blast
  then have "P (read_entry c k)" by (auto simp: find_Some_iff)
  with k assms(1,2) show False by (simp add: first_match_def)
qed

section \<open>Which key an entry belongs to\<close>

lemma le_nat_inj: "length xs = length ys \<Longrightarrow> le_nat xs = le_nat ys \<Longrightarrow> xs = ys"
  by (metis le_bytes_le_nat)

lemma index_from_partial_prefix:
  assumes "length k = 32" "length k' = 32"
    and "drop_bit 16 (index_from_partial k) = drop_bit 16 (index_from_partial k')"
  shows "take 6 k = take 6 k'"
proof -
  have v: "unat (drop_bit 16 (index_from_partial x)) = le_nat (rev (take 6 x))" if "length x = 32" for x
  proof -
    have "take 8 x = take 6 x @ [x ! 6, x ! 7]"
      using that take_Suc_conv_app_nth [of 7 x] take_Suc_conv_app_nth [of 6 x] by (simp add: eval_nat_numeral)
    then have r: "rev (take 8 x) = x ! 7 # x ! 6 # rev (take 6 x)" by simp
    let ?n = "le_nat (rev (take 8 x))"
    have "?n < 256 ^ 8" using le_nat_bound [of "rev (take 8 x)"] that by simp
    then have "unat (index_from_partial x) = ?n"
      by (simp add: index_from_partial_def u64_from_be_def unat_of_nat)
    then have "unat (drop_bit 16 (index_from_partial x)) = ?n div 65536"
      by (simp add: drop_bit_eq_div unat_div)
    also have "\<dots> = (unat (x ! 7) + 256 * (unat (x ! 6) + 256 * le_nat (rev (take 6 x)))) div 65536"
      by (simp add: r)
    also have "\<dots> = (unat (x ! 7) + 256 * unat (x ! 6) + 65536 * le_nat (rev (take 6 x))) div 65536"
      by (simp add: algebra_simps)
    also have "\<dots> = le_nat (rev (take 6 x)) + (unat (x ! 7) + 256 * unat (x ! 6)) div 65536"
      by (rule div_mult_self2) simp
    also have "unat (x ! 7) + 256 * unat (x ! 6) < 65536"
      using unat_bounds(1) [of "x ! 7"] unat_bounds(1) [of "x ! 6"] by linarith
    then have "le_nat (rev (take 6 x)) + (unat (x ! 7) + 256 * unat (x ! 6)) div 65536 = le_nat (rev (take 6 x))"
      by simp
    finally show ?thesis .
  qed
  have "le_nat (rev (take 6 k)) = le_nat (rev (take 6 k'))" using v assms by metis
  then show ?thesis using le_nat_inj [of "rev (take 6 k)" "rev (take 6 k')"] assms(1,2) by simp
qed

lemma match_prefix:
  assumes "valid_bits (ibits t)" "16 \<le> unat (ibits t)"
    and "chunk_index t kp = chunk_index t kp0" "a \<le> last_address (ibits t)"
    and "sse2_match (ibits t) kp (entry_pack a (extract_key kp0 (ibits t)) (ibits t))"
  shows "drop_bit 16 kp = drop_bit 16 kp0"
proof -
  let ?b = "unat (ibits t)"
  let ?s = "max 32 (?b + 14)" and ?e = "entry_pack a (extract_key kp0 (ibits t)) (ibits t)"
  note ab = unat_address_bits [OF assms(1)]
  have pk: "drop_bit (?b + 14) ?e = drop_bit (?b + 14) (push_bit ?b kp0)"
    using entry_unpack(2) [OF assms(1,4) extract_key_small [OF assms(1)]]
    unfolding entry_partial_key_def extract_key_def ab .
  have split: "drop_bit ?s x = drop_bit (?s - (?b + 14)) (drop_bit (?b + 14) x)" for x :: u64 by simp
  have "drop_bit ?s (push_bit ?b kp) = drop_bit ?s (push_bit ?b kp0)"
  proof (cases "drop_bit ?s (push_bit ?b kp) = 0")
    case True
    have "drop_bit (?b + 14) ?e = drop_bit (?b + 14) (push_bit ?b kp)"
      using assms(5)
      unfolding sse2_match_def base_match_def entry_partial_key_def extract_key_def ab Let_def True
      by (simp only: if_True simp_thms)
    then have "drop_bit (?b + 14) (push_bit ?b kp) = drop_bit (?b + 14) (push_bit ?b kp0)"
      using pk by (simp only:)
    then show ?thesis by (simp only: split [of "push_bit ?b kp"] split [of "push_bit ?b kp0"])
  next
    case False
    have "drop_bit ?s ?e = drop_bit ?s (push_bit ?b kp)"
      using assms(5) unfolding sse2_match_def Let_def by (simp only: False if_False)
    moreover have "drop_bit ?s ?e = drop_bit ?s (push_bit ?b kp0)"
      by (simp only: split [of ?e] split [of "push_bit ?b kp0"] pk)
    ultimately show ?thesis by (simp only:)
  qed
  then have m: "bit (push_bit ?b kp) (?s + n) = bit (push_bit ?b kp0) (?s + n)" for n
    using bit_drop_bit_eq [of ?s "push_bit ?b kp"] bit_drop_bit_eq [of ?s "push_bit ?b kp0"]
    unfolding comp_def fun_eq_iff by simp
  have ci: "bit kp (64 - ?b + n) = bit kp0 (64 - ?b + n)" for n
    using assms(3) bit_drop_bit_eq [of "64 - ?b" kp] bit_drop_bit_eq [of "64 - ?b" kp0]
    unfolding chunk_index_def comp_def fun_eq_iff by simp
  show ?thesis
  proof (rule bit_word_eqI)
    fix n assume "n < LENGTH(64)"
    have b: "?b \<le> 49" "16 \<le> ?b" using assms(1,2) by (simp_all add: valid_bits_def)
    show "bit (drop_bit 16 kp) n = bit (drop_bit 16 kp0) n"
    proof (cases "16 + n + ?b < 64")
      case True
      moreover from this b have "?s + (16 + n + ?b - ?s) = 16 + n + ?b" by simp
      ultimately have "bit (push_bit ?b kp) (16 + n + ?b) = bit (push_bit ?b kp0) (16 + n + ?b)"
        using m [of "16 + n + ?b - ?s"] by (simp only:)
      with True show ?thesis by (simp add: bit_push_bit_iff bit_drop_bit_eq)
    next
      case False
      then have "64 - ?b + (16 + n + ?b - 64) = 16 + n" using b by simp
      then show ?thesis using ci [of "16 + n + ?b - 64"] by (simp add: bit_drop_bit_eq)
    qed
  qed
qed

lemma key_identity:
  assumes "valid_bits (ibits t)" "16 \<le> unat (ibits t)" "length k = 32" "length k0 = 32"
    and "chunk_index t (index_from_partial k) = chunk_index t (index_from_partial k0)"
    and "a \<le> last_address (ibits t)"
    and "sse2_match (ibits t) (index_from_partial k)
          (entry_pack a (extract_key (index_from_partial k0) (ibits t)) (ibits t))"
    and "partial_key k = partial_key k0"
  shows "k = k0"
proof -
  have "take 6 k = take 6 k0"
    by (rule index_from_partial_prefix [OF assms(3,4) match_prefix [OF assms(1,2,5-7)]])
  with assms(8) show ?thesis unfolding partial_key_def by (metis append_take_drop_id)
qed

section \<open>Planning\<close>

text \<open>
  What a reader with the log \<open>lq\<close> sees of a chunk. \<open>map_ok\<close> says that the mapped file has the
  size of a table with this number of bits.
\<close>

definition chunk_view :: "index_table \<Rightarrow> log_query \<Rightarrow> u64 \<Rightarrow> chunk result" where
  "chunk_view t lq ci =
     (case lq_index lq (it_id t) ci of
        Some c \<Rightarrow> Ok c
      | None \<Rightarrow> (case it_map t of Some m \<Rightarrow> chunk_at ci m | None \<Rightarrow> Ok EMPTY_CHUNK))"

definition map_ok :: "index_table \<Rightarrow> bool" where
  "map_ok t \<longleftrightarrow> (case it_map t of Some m \<Rightarrow> length m = unat (file_size (ibits t)) | None \<Rightarrow> True)"

definition log_chunks_ok :: "log_query \<Rightarrow> bool" where
  "log_chunks_ok lq \<longleftrightarrow> (\<forall>t i c. lq_index lq t i = Some c \<longrightarrow> length c = 512)"

lemma unat_file_size:
  assumes "valid_bits b"
  shows "unat (total_chunks b) = 2 ^ unat b" "unat (file_size b) = 2 ^ unat b * 512 + 16384"
proof -
  have b: "unat b \<le> 49" using assms by (simp add: valid_bits_def)
  then show c: "unat (total_chunks b) = 2 ^ unat b"
    using unat_exp_u64 [of "unat b"] by (simp add: total_chunks_def push_bit_eq_mult)
  have le: "(2::nat) ^ unat b \<le> 2 ^ 49" using b by (intro power_increasing) simp_all
  then have "2 ^ unat b * 64 < (2::nat) ^ 64" by simp
  then have e: "unat (total_entries b) = 2 ^ unat b * 64" using c by (simp add: total_entries_def unat_word_ariths)
  have "2 ^ unat b * 512 + 16384 < (2::nat) ^ 64" using le by simp
  then show "unat (file_size b) = 2 ^ unat b * 512 + 16384"
    using e by (simp add: file_size_def unat_word_ariths)
qed

lemma chunk_index_bound:
  assumes "valid_bits (ibits t)"
  shows "unat (chunk_index t kp) < 2 ^ unat (ibits t)"
proof -
  let ?b = "unat (ibits t)"
  have b: "?b \<le> 49" using assms by (simp add: valid_bits_def)
  have "unat kp < 2 ^ (64 - ?b) * 2 ^ ?b" using b by (simp add: power_add [symmetric])
  then have "unat kp div 2 ^ (64 - ?b) < 2 ^ ?b" by (simp add: div_less_iff_less_mult mult.commute)
  moreover have "unat (2 ^ (64 - ?b) :: u64) = 2 ^ (64 - ?b)"
    using assms by (intro unat_exp_u64) (simp add: valid_bits_def)
  ultimately show ?thesis by (simp add: chunk_index_def drop_bit_eq_div unat_div)
qed

lemma chunk_at_ok:
  assumes "unat ci < n" "length m = n * 512 + 16384"
  shows "chunk_at ci m = Ok (subslice (16384 + unat ci * 512) 512 m)"
    "length (subslice (16384 + unat ci * 512) 512 m) = 512"
proof -
  have "(unat ci + 1) * 512 \<le> n * 512" using assms(1) by (intro mult_le_mono1) simp
  then have "16384 + unat ci * 512 + 512 \<le> length m" using assms(2) by simp
  then show "chunk_at ci m = Ok (subslice (16384 + unat ci * 512) 512 m)"
    "length (subslice (16384 + unat ci * 512) 512 m) = 512" by (simp_all add: chunk_at_def Let_def)
qed

lemma chunk_view_ok:
  assumes "valid_bits (ibits t)" "map_ok t" "log_chunks_ok lq" "unat ci < 2 ^ unat (ibits t)"
  shows "\<exists>c. chunk_view t lq ci = Ok c \<and> length c = 512"
  using assms chunk_at_ok [OF assms(4)] unat_file_size(2) [OF assms(1)]
  by (auto simp: chunk_view_def map_ok_def log_chunks_ok_def EMPTY_CHUNK_def split: option.splits)

lemma it_entries_view:
  "it_entries t ci lq = and_then (chunk_view t lq ci) (\<lambda>c. Ok (transmute_chunk c))"
  by (simp add: it_entries_def chunk_view_def split: option.split)

lemma it_get_view:
  assumes "valid_bits (ibits t)" "sub < 64"
  shows "it_get t k sub lq =
    and_then (chunk_view t lq (chunk_index t (index_from_partial k)))
      (\<lambda>c. Ok (find_entry t (index_from_partial k) sub c))"
proof -
  have "find_entry t (index_from_partial k) sub EMPTY_CHUNK = (entry_empty, 0)"
  proof -
    have "find_entry t (index_from_partial k) sub EMPTY_CHUNK =
        first_match (sse2_match (ibits t) (index_from_partial k)) EMPTY_CHUNK sub"
      by (rule find_entry_first [OF assms(1) _ assms(2)]) (simp add: EMPTY_CHUNK_def)
    moreover have "List.find (\<lambda>i. sse2_match (ibits t) (index_from_partial k) (read_entry EMPTY_CHUNK i)) [sub..<64] = None"
      using sse2_match_facts(2) [OF assms(1), of "index_from_partial k" 0] by (auto simp: find_None_iff)
    ultimately show ?thesis by (simp add: first_match_def)
  qed
  then show ?thesis by (simp add: it_get_def chunk_view_def Let_def split: option.split)
qed

lemma it_write_insert_plan_view:
  "it_write_insert_plan t k a sub w =
    and_then (chunk_view t (writer_query w) (chunk_index t (index_from_partial k)))
      (\<lambda>c. plan_insert_chunk t (index_from_partial k) a c sub w)"
  by (simp add: it_write_insert_plan_def chunk_view_def Let_def writer_query_def split: option.split)

definition key_entry :: "index_table \<Rightarrow> key \<Rightarrow> address \<Rightarrow> ientry" where
  "key_entry t k a = entry_pack a (extract_key (index_from_partial k) (ibits t)) (ibits t)"

text \<open>Insertion at a free position: the effect on the visible chunk, and when it is refused.\<close>

lemma it_insert_free:
  assumes "valid_bits (ibits t)" "chunk_view t (writer_query w) (chunk_index t (index_from_partial k)) = Ok c"
    and "length c = 512"
  shows "it_write_insert_plan t k a None w =
    (if a \<le> last_address (ibits t) \<and> (\<exists>i<64. read_entry c i = 0)
     then (let i = (LEAST i. read_entry c i = 0)
           in Ok (Written, insert_index (it_id t) (chunk_index t (index_from_partial k)) (word_of_nat i)
                             (write_entry (key_entry t k a) i c) w))
     else Ok (NeedReindex, w))"
proof -
  let ?P = "\<lambda>i. read_entry c i = 0"
  have "List.find (\<lambda>i. entry_is_empty (read_entry c i)) [0..<64] =
      (if \<exists>i<64. ?P i then Some (LEAST i. ?P i) else None)"
  proof (cases "\<exists>i<64. ?P i")
    case True
    then obtain i where "i < 64" "?P i" by blast
    then have l: "?P (LEAST i. ?P i)" "(LEAST i. ?P i) < 64"
      using LeastI [of ?P i] Least_le [of ?P i] by simp_all
    have "List.find (\<lambda>i. entry_is_empty (read_entry c i)) [0..<64] = Some (LEAST i. ?P i)"
      by (rule find_upt_Some) (use l not_less_Least in \<open>auto simp: entry_is_empty_def\<close>)
    with True show ?thesis by simp
  next
    case False
    then show ?thesis by (auto simp: find_None_iff entry_is_empty_def)
  qed
  then show ?thesis
    using assms(2)
    by (cases "\<exists>i<64. ?P i"; cases "a \<le> last_address (ibits t)")
      (simp_all add: it_write_insert_plan_view plan_insert_chunk_def key_entry_def Let_def linorder_not_less)
qed

lemma chunk_view_insert_index:
  "chunk_view t (writer_query (insert_index (it_id t) ci s c w)) ci' =
    (if ci' = ci then Ok c else chunk_view t (writer_query w) ci')"
  by (simp add: chunk_view_def writer_query_def)

text \<open>The entry made for a key is found by a search for the key.\<close>

lemma key_entry_match:
  assumes "valid_bits (ibits t)" "a \<le> last_address (ibits t)" "a \<noteq> 0"
  shows "sse2_match (ibits t) (index_from_partial k) (key_entry t k a)"
    and "entry_address (key_entry t k a) (ibits t) = a" "key_entry t k a \<noteq> 0"
proof -
  note u = entry_unpack [OF assms(1,2) extract_key_small [OF assms(1)], of "index_from_partial k"]
  show a: "entry_address (key_entry t k a) (ibits t) = a" using u(1) by (simp add: key_entry_def)
  then show n: "key_entry t k a \<noteq> 0" using assms(3) by (auto simp: entry_address_def)
  show "sse2_match (ibits t) (index_from_partial k) (key_entry t k a)"
    using u(2) n by (intro sse2_match_facts(1) [OF assms(1)]) (simp add: base_match_def key_entry_def)
qed

end
