(* ===== verification/Index_Enact.thy ===== *)
theory Index_Enact
  imports Index_Spec
begin

text \<open>
  Logged index chunks: a chunk is logged as a mask of modified entries and these entries.
  Enacting writes them into the mapped file, validating and skipping consume the same bytes.
\<close>

section \<open>The mask loop\<close>

lemma clear_lowest:
  assumes "i < 64"
  shows "bit (msk AND NOT (push_bit i 1) :: u64) n \<longleftrightarrow> bit msk n \<and> n \<noteq> i"
  using assms by (auto simp: bit_simps dest: bit_imp_le_length)

lemma mask_positions_filter: "mask_positions msk = filter (bit msk) [0..<64]"
proof (induction msk rule: mask_positions.induct)
  case (1 msk)
  show ?case
  proof (cases "msk = 0")
    case False
    let ?i = "trailing_zeros msk"
    let ?m = "msk AND NOT (push_bit ?i 1)"
    note tz = trailing_zeros_bit [OF False]
    have u: "[0..<64] = [0..<?i] @ ?i # [Suc ?i..<64]"
      using tz(1) upt_add_eq_append [of 0 ?i "64 - ?i"] by (simp add: upt_conv_Cons)
    have b: "bit ?m n \<longleftrightarrow> bit msk n \<and> n \<noteq> ?i" for n using clear_lowest [OF tz(1)] .
    have "filter (bit msk) [0..<?i] = []" "filter (bit ?m) [0..<?i] = []"
      using tz(3) b by (auto simp: filter_empty_conv)
    moreover have "filter (bit msk) [Suc ?i..<64] = filter (bit ?m) [Suc ?i..<64]"
      by (rule filter_cong) (use b in auto)
    moreover have "bit msk ?i" "\<not> bit ?m ?i" using tz(2) b by auto
    ultimately have "filter (bit msk) [0..<64] = ?i # filter (bit ?m) [0..<64]"
      unfolding u filter_append filter.simps by simp
    with False 1 show ?thesis by (subst mask_positions.simps) (simp add: Let_def)
  qed (subst mask_positions.simps, simp)
qed

declare mask_positions.simps [simp del]

lemma set_mask_positions: "set (mask_positions msk) = {i. i < 64 \<and> bit msk i}" "distinct (mask_positions msk)"
  by (auto simp: mask_positions_filter)

section \<open>The logged form of a chunk\<close>

definition entry_bytes :: "chunk \<Rightarrow> nat \<Rightarrow> bytes" where
  "entry_bytes c i = subslice (i * ENTRY_BYTES) ENTRY_BYTES c"

definition index_payload :: "u64 \<Rightarrow> chunk \<Rightarrow> bytes" where
  "index_payload msk c = u64_to_le msk @ concat (map (entry_bytes c) (mask_positions msk))"

lemma length_entry_bytes: "length c = 512 \<Longrightarrow> i < 64 \<Longrightarrow> length (entry_bytes c i) = 8"
  by (simp add: entry_bytes_def)

lemma skip_entries_ok:
  assumes "length c = 512"
  shows "(\<forall>i\<in>set is. i < 64) \<Longrightarrow> at_bytes r (concat (map (entry_bytes c) is) @ rest) \<Longrightarrow>
    skip_entries is r = Ok (advance (concat (map (entry_bytes c) is)) r) \<and>
    at_bytes (advance (concat (map (entry_bytes c) is)) r) rest"
proof (induction "is" arbitrary: r)
  case Nil
  then show ?case by (simp add: advance_def)
next
  case (Cons i "is")
  have l: "8 = length (entry_bytes c i)" using length_entry_bytes [OF assms] Cons.prems(1) by simp
  have "at_bytes r (entry_bytes c i @ concat (map (entry_bytes c) is) @ rest)" using Cons.prems(2) by simp
  note lr = log_read_at [OF this l]
  from lr(1) Cons.IH [OF _ lr(2)] Cons.prems(1) show ?case by simp
qed

lemma enact_entries_ok:
  assumes "length c = 512"
  shows "(\<forall>i\<in>set is. i < 64) \<Longrightarrow> at_bytes r (concat (map (entry_bytes c) is) @ rest) \<Longrightarrow>
    enact_entries is offset m r =
      Ok (foldl (\<lambda>m i. blit (offset + i * 8) (entry_bytes c i) m) m is,
          advance (concat (map (entry_bytes c) is)) r) \<and>
    at_bytes (advance (concat (map (entry_bytes c) is)) r) rest"
proof (induction "is" arbitrary: r m)
  case Nil
  then show ?case by (simp add: advance_def)
next
  case (Cons i "is")
  have l: "8 = length (entry_bytes c i)" using length_entry_bytes [OF assms] Cons.prems(1) by simp
  have "at_bytes r (entry_bytes c i @ concat (map (entry_bytes c) is) @ rest)" using Cons.prems(2) by simp
  note lr = log_read_at [OF this l]
  from lr(1) Cons.IH [OF _ lr(2)] Cons.prems(1) show ?case by simp
qed

lemma subslice_eq_nth:
  assumes "off + n \<le> length xs" "off + n \<le> length ys"
  shows "subslice off n xs = subslice off n ys \<longleftrightarrow> (\<forall>j<n. xs ! (off + j) = ys ! (off + j))"
  using assms by (auto simp: list_eq_iff_nth_eq nth_subslice)

lemma subslice_replicate: "off + n \<le> len \<Longrightarrow> subslice off n (replicate len x) = replicate n x"
  by (simp add: subslice_def)

lemma fold_blit_nth:
  assumes "length c = 512" "offset + 512 \<le> length m"
  shows "(\<forall>i\<in>set is. i < 64) \<Longrightarrow> p < length m \<Longrightarrow>
    length (foldl (\<lambda>m i. blit (offset + i * 8) (entry_bytes c i) m) m is) = length m \<and>
    foldl (\<lambda>m i. blit (offset + i * 8) (entry_bytes c i) m) m is ! p =
      (if offset \<le> p \<and> p < offset + 512 \<and> (p - offset) div 8 \<in> set is then c ! (p - offset) else m ! p)"
  using assms(2)
proof (induction "is" arbitrary: m)
  case (Cons i "is")
  let ?m = "blit (offset + i * 8) (entry_bytes c i) m"
  have i: "i < 64" using Cons.prems(1) by simp
  have le: "length (entry_bytes c i) = 8" by (rule length_entry_bytes [OF assms(1) i])
  have lm: "length ?m = length m" using Cons.prems(3) i le by simp
  have "?m ! p = (if offset + i * 8 \<le> p \<and> p < offset + i * 8 + 8 then c ! (p - offset) else m ! p)"
    using Cons.prems(2,3) i le assms(1)
    by (subst nth_blit) (auto simp: entry_bytes_def nth_subslice)
  moreover have "offset + i * 8 \<le> p \<and> p < offset + i * 8 + 8 \<longleftrightarrow> offset \<le> p \<and> (p - offset) div 8 = i"
    by (auto simp: div_nat_eqI)
  ultimately show ?case
    using Cons.IH [of ?m] Cons.prems lm i by (auto split: if_splits)
qed simp

text \<open>
  Enacting a logged chunk. Where the mask is clear the file already agrees with the logged chunk,
  since a chunk enters the log as a copy of the visible one with the marked entries changed.
\<close>

lemma it_enact_plan_ok:
  assumes "valid_bits (ibits t)" "map_ok t" "unat ci < 2 ^ unat (ibits t)" "length c = 512"
    and "at_bytes r (index_payload msk c @ rest)"
    and "chunk_view t \<lparr>lq_index = \<lambda>_ _. None, lq_value = \<lambda>_ _. None\<rparr> ci = Ok old"
    and "\<And>i. i < 64 \<Longrightarrow> \<not> bit msk i \<Longrightarrow> read_entry old i = read_entry c i"
  shows "\<exists>t'. it_enact_plan t ci r = Ok (t', advance (index_payload msk c) r) \<and>
    at_bytes (advance (index_payload msk c) r) rest \<and> it_id t' = it_id t \<and> map_ok t' \<and> it_map t' \<noteq> None \<and>
    (\<forall>lq ci'. unat ci' < 2 ^ unat (ibits t) \<longrightarrow> lq_index lq (it_id t) ci = None \<longrightarrow>
       chunk_view t' lq ci' = (if ci' = ci then Ok c else chunk_view t lq ci'))"
proof -
  let ?N = "2 ^ unat (ibits t)" and ?o = "16384 + unat ci * 512"
  define m where "m = (case it_map t of Some m \<Rightarrow> m | None \<Rightarrow> set_len (unat (file_size (ibits t))) [])"
  have lm: "length m = ?N * 512 + 16384"
    using assms(2) unat_file_size(2) [OF assms(1)] by (auto simp: m_def map_ok_def set_len_def split: option.splits)
  have view: "chunk_view t lq ci' = Ok (subslice (16384 + unat ci' * 512) 512 m)"
    if "unat ci' < ?N" "lq_index lq (it_id t) ci' = None" for lq ci'
  proof (cases "it_map t")
    case None
    have "16384 + unat ci' * 512 + 512 \<le> length m"
      using that(1) lm mult_le_mono1 [of "unat ci' + 1" ?N 512] by simp
    moreover have "m = replicate (length m) 0" using None by (simp add: m_def set_len_def)
    ultimately have "subslice (16384 + unat ci' * 512) 512 m = EMPTY_CHUNK"
      by (metis (no_types, lifting) subslice_replicate EMPTY_CHUNK_def CHUNK_LEN_def)
    with None that(2) show ?thesis by (simp add: chunk_view_def)
  next
    case (Some m0)
    then have "m0 = m" by (simp add: m_def)
    with Some chunk_at_ok(1) [OF that(1) lm] that(2) show ?thesis by (simp add: chunk_view_def)
  qed
  have om: "?o + 512 \<le> length m"
    using assms(3) lm mult_le_mono1 [of "unat ci + 1" ?N 512] by simp
  let ?is = "mask_positions msk"
  let ?m' = "foldl (\<lambda>m i. blit (?o + i * 8) (entry_bytes c i) m) m ?is"
  have is64: "\<forall>i\<in>set ?is. i < 64" by (simp add: set_mask_positions)
  have at2: "at_bytes r (u64_to_le msk @ concat (map (entry_bytes c) ?is) @ rest)"
    using assms(5) by (simp add: index_payload_def)
  note lr = log_read_at [OF at2, of 8, simplified]
  note en = enact_entries_ok [OF assms(4) is64 lr(2), of ?o m]
  have run: "it_enact_plan t ci r = Ok (t\<lparr>it_map := Some ?m'\<rparr>, advance (index_payload msk c) r)"
    "at_bytes (advance (index_payload msk c) r) rest"
    using lr(1) en om by (simp_all add: it_enact_plan_def Let_def m_def [symmetric] index_payload_def)
  note nth = fold_blit_nth [OF assms(4) om is64]
  have lm': "length ?m' = length m" using nth [of 0] om by (cases m) auto
  have old: "old = subslice ?o 512 m" using assms(6) view [OF assms(3)] by simp
  have "c ! q = m ! (?o + q)" if q: "q < 512" "q div 8 \<notin> set ?is" for q
  proof -
    have i: "q div 8 < 64" "\<not> bit msk (q div 8)" using q by (auto simp: set_mask_positions)
    have lo: "length old = 512" using old om by simp
    have l: "length (subslice (q div 8 * 8) 8 old) = 8" "length (subslice (q div 8 * 8) 8 c) = 8"
      using i(1) lo assms(4) by simp_all
    have "u64_from_le (subslice (q div 8 * 8) 8 old) = u64_from_le (subslice (q div 8 * 8) 8 c)"
      using assms(7) [OF i] unfolding read_entry_def .
    then have "subslice (q div 8 * 8) 8 old = subslice (q div 8 * 8) 8 c"
      using to_from_le(3) [OF l(1)] to_from_le(3) [OF l(2)] by metis
    then have "subslice (q div 8 * 8) 8 old ! (q mod 8) = subslice (q div 8 * 8) 8 c ! (q mod 8)" by (rule arg_cong)
    then have "old ! q = c ! q" using i(1) lo assms(4) by (simp add: nth_subslice)
    then show ?thesis using old om q(1) by (simp add: nth_subslice)
  qed
  then have same: "subslice ?o 512 ?m' = c"
    using nth om lm' assms(4) by (intro nth_equalityI) (auto simp: nth_subslice)
  have other: "subslice (16384 + unat ci' * 512) 512 ?m' = subslice (16384 + unat ci' * 512) 512 m"
    if "ci' \<noteq> ci" "unat ci' < ?N" for ci'
  proof (rule nth_equalityI)
    have "unat ci' \<noteq> unat ci" using that(1) by (metis unsigned_word_eqI)
    have le: "16384 + unat ci' * 512 + 512 \<le> length m"
      using that(2) lm mult_le_mono1 [of "unat ci' + 1" ?N 512] by simp
    show "length (subslice (16384 + unat ci' * 512) 512 ?m') = length (subslice (16384 + unat ci' * 512) 512 m)"
      using le lm' by simp
    fix q assume "q < length (subslice (16384 + unat ci' * 512) 512 ?m')"
    then have "q < 512" using le lm' by simp
    with \<open>unat ci' \<noteq> unat ci\<close> nth [of "16384 + unat ci' * 512 + q"] le lm'
    show "subslice (16384 + unat ci' * 512) 512 ?m' ! q = subslice (16384 + unat ci' * 512) 512 m ! q"
      by (auto simp: nth_subslice)
  qed
  have view': "chunk_view (t\<lparr>it_map := Some ?m'\<rparr>) lq ci' = (if ci' = ci then Ok c else chunk_view t lq ci')"
    if "unat ci' < ?N" "lq_index lq (it_id t) ci = None" for lq ci'
  proof (cases "lq_index lq (it_id t) ci'")
    case None
    have "chunk_at ci' ?m' = Ok (subslice (16384 + unat ci' * 512) 512 ?m')"
      using lm lm' by (intro chunk_at_ok(1) [OF that(1)]) simp
    then have v: "chunk_view (t\<lparr>it_map := Some ?m'\<rparr>) lq ci' = Ok (subslice (16384 + unat ci' * 512) 512 ?m')"
      using None by (simp add: chunk_view_def)
    show ?thesis
    proof (cases "ci' = ci")
      case True
      then show ?thesis using v same by simp
    next
      case False
      then show ?thesis using v other [OF False that(1)] view [OF that(1) None] by simp
    qed
  next
    case (Some c')
    with that(2) show ?thesis by (auto simp: chunk_view_def)
  qed
  have "map_ok (t\<lparr>it_map := Some ?m'\<rparr>)" using lm lm' unat_file_size(2) [OF assms(1)] by (simp add: map_ok_def)
  with run view' show ?thesis by (intro exI [of _ "t\<lparr>it_map := Some ?m'\<rparr>"]) auto
qed

text \<open>Validating and skipping consume exactly what enacting consumes.\<close>

lemma it_skip_plan_ok:
  assumes "length c = 512" "at_bytes r (index_payload msk c @ rest)"
  shows "it_skip_plan r = Ok (advance (index_payload msk c) r)"
proof -
  have at2: "at_bytes r (u64_to_le msk @ concat (map (entry_bytes c) (mask_positions msk)) @ rest)"
    using assms(2) by (simp add: index_payload_def)
  note lr = log_read_at [OF at2, of 8, simplified]
  have is64: "\<forall>i\<in>set (mask_positions msk). i < 64" by (simp add: set_mask_positions)
  from lr(1) skip_entries_ok [OF assms(1) is64 lr(2)] show ?thesis
    by (simp add: it_skip_plan_def index_payload_def)
qed

lemma it_validate_plan_skip:
  "it_validate_plan t ci r =
     (if ci \<ge> total_entries (ibits t) then Err (Corruption ''Bad index'') else it_skip_plan r)"
  by (simp add: it_validate_plan_def it_skip_plan_def)

section \<open>Recovering a key\<close>

text \<open>
  From the chunk number and an entry the leading 50 bits of the key can be recovered (the
  comment in the source says 54).
\<close>

lemma recover_key_prefix_bits:
  assumes "valid_bits (ibits t)" "a \<le> last_address (ibits t)"
  shows "index_from_partial (recover_key_prefix t (chunk_index t (index_from_partial k)) (key_entry t k a)) =
    index_from_partial k AND NOT (mask 14)"
proof -
  let ?b = "unat (ibits t)" and ?kp = "index_from_partial k"
  have b: "1 \<le> ?b" "?b \<le> 49" using assms(1) by (simp_all add: valid_bits_def)
  note ab = unat_address_bits [OF assms(1)]
  have pk: "entry_partial_key (key_entry t k a) (ibits t) = extract_key ?kp (ibits t)"
    unfolding key_entry_def by (rule entry_unpack(2) [OF assms extract_key_small [OF assms(1)]])
  have i: "index_from_partial (recover_key_prefix t ci e) =
      push_bit (64 - ?b) ci OR push_bit 14 (entry_partial_key e (ibits t))" for ci e
    using b by (simp add: recover_key_prefix_def index_from_partial_def Let_def ab)
  show ?thesis
    unfolding i pk chunk_index_def extract_key_def ab
  proof (rule bit_word_eqI)
    fix n assume "n < LENGTH(64)"
    then show "bit (push_bit (64 - ?b) (drop_bit (64 - ?b) ?kp) OR
        push_bit 14 (drop_bit (?b + 14) (push_bit ?b ?kp))) n = bit (?kp AND NOT (mask 14)) n"
      using b by (cases "n + ?b < 64") (auto simp: bit_simps)
  qed
qed

end
