(* ===== verification/Index_Props.thy ===== *)
theory Index_Props
  imports Index_Enact
begin

text \<open>
  The properties of index tables: entries and addresses, the vectorised search against the plain
  one, what identifies a key, insertion, and the way of a chunk from the log into the file.
\<close>

definition ex_index :: index_table where
  "ex_index = \<lparr>it_id = index_id_new 1 16, it_map = None\<rparr>"

definition ex_wide_index :: index_table where
  "ex_wide_index = \<lparr>it_id = index_id_new 1 18, it_map = None\<rparr>"

definition ex_ikey :: key where
  "ex_ikey = [1, 2, 3, 4, 5, 6, 7, 8] @ replicate 24 9"

definition ex_ilog :: log_writer where
  "ex_ilog = log_writer_new overlays_default 1"

lemma ex_bits [simp]: "ibits ex_index = 16" "ibits ex_wide_index = 18"
  by (simp_all add: ex_index_def ex_wide_index_def index_id_bits_def index_id_new_def)

lemma ex_valid_bits [simp]: "valid_bits 16" "valid_bits 18"
  by (simp_all add: valid_bits_def)

lemma ex_index_lookup: "writer_index ex_ilog t i = None"
  by (simp add: ex_ilog_def log_writer_new_def log_change_new_def overlays_default_def writer_index_def
      index_lookup_def overlays_query_def)

section \<open>Searching\<close>

text \<open>C23: The SSE2 search of a chunk, with its packed shifts, shuffles, lane comparisons and
  trailing-zero count, gives the same entry at the same position as the plain loop, for every
  chunk, key and start position, in all tables of at least 18 index bits (where the partial key
  fits into the 32 bits that are compared).\<close>

theorem sse2_equals_base:
  assumes "valid_bits (ibits t)" "18 \<le> unat (ibits t)" "length c = 512" "sub < 64"
  shows "find_entry_sse2 t kp sub c = find_entry_base t kp sub c"
  using find_entry_first [OF assms(1,3,4), of kp] sse2_match_facts(3) [OF assms(1,2), of kp]
  by (simp add: find_entry_def find_entry_base_first)

theorem sse2_equals_base_witness:
  "find_entry_sse2 ex_wide_index 77 3 (replicate 512 1) = find_entry_base ex_wide_index 77 3 (replicate 512 1)"
  by (rule sse2_equals_base) simp_all

text \<open>C27: In the tables of 16 and 17 index bits the SSE2 search compares only the leading 32 bits of the
  partial key. It still returns the first position whose entry satisfies \<open>sse2_match\<close>, and that
  covers every entry the plain search accepts and no empty entry, so no entry of the key is
  skipped.\<close>

theorem sse2_covers_base:
  assumes "valid_bits (ibits t)" "length c = 512" "sub < 64"
  shows "find_entry_sse2 t kp sub c = first_match (sse2_match (ibits t) kp) c sub \<and>
    (\<forall>e. base_match (ibits t) kp e \<longrightarrow> sse2_match (ibits t) kp e) \<and>
    (\<forall>e. sse2_match (ibits t) kp e \<longrightarrow> e \<noteq> 0)"
  using find_entry_first [OF assms, of kp] sse2_match_facts(1,2) [OF assms(1)]
  by (auto simp: find_entry_def)

theorem sse2_covers_base_witness:
  "find_entry_sse2 ex_index 77 3 (replicate 512 1) = first_match (sse2_match 16 77) (replicate 512 1) 3 \<and>
    \<not> sse2_match 16 77 0"
  using sse2_covers_base [of ex_index "replicate 512 1" 3 77] by auto

text \<open>C28: The 26 bytes that a value entry keeps of its key and the index entry that led to it identify
  the key: when the search for \<open>k\<close> in the chunk of \<open>k\<close> accepts the entry that was made for \<open>k0\<close> in
  the same chunk, and the stored partial key of \<open>k0\<close> equals that of \<open>k\<close>, the keys are equal.\<close>

theorem index_key_identity:
  assumes "valid_bits (ibits t)" "16 \<le> unat (ibits t)" "length k = 32" "length k0 = 32"
    and "chunk_index t (index_from_partial k) = chunk_index t (index_from_partial k0)"
    and "a \<le> last_address (ibits t)" "sse2_match (ibits t) (index_from_partial k) (key_entry t k0 a)"
    and "partial_key k = partial_key k0"
  shows "k = k0"
  using key_identity [OF assms(1-6) _ assms(8)] assms(7) by (simp add: key_entry_def)

theorem index_key_identity_witness:
  "sse2_match 16 (index_from_partial ex_ikey) (key_entry ex_index ex_ikey 5) \<and>
   [1, 2, 3, 4, 5, 6] @ partial_key ex_ikey = ex_ikey"
proof -
  have l: "5 \<le> last_address (ibits ex_index)" by code_simp
  have m: "sse2_match (ibits ex_index) (index_from_partial ex_ikey) (key_entry ex_index ex_ikey 5)"
    using l by (intro key_entry_match) simp_all
  have "[1, 2, 3, 4, 5, 6] @ partial_key ex_ikey = ex_ikey"
    by (rule index_key_identity [of ex_index _ _ 5])
      (use m l in \<open>simp_all add: ex_ikey_def partial_key_def\<close>)
  with m show ?thesis by simp
qed

section \<open>Planning an insertion\<close>



section \<open>From the log into the file\<close>

text \<open>C30: Enacting a chunk record writes exactly the entries of its mask. When the entries outside of
  the mask agree with the logged chunk, the table afterwards shows the logged chunk to every reader
  whose overlay no longer has it, all other chunks are unchanged, and the reader stands behind the
  record; a table without a file gets one of the right size.\<close>

theorem index_enact:
  assumes "valid_bits (ibits t)" "map_ok t" "unat ci < 2 ^ unat (ibits t)" "length c = 512"
    and "at_bytes r (index_payload msk c @ rest)"
    and "chunk_view t \<lparr>lq_index = \<lambda>_ _. None, lq_value = \<lambda>_ _. None\<rparr> ci = Ok old"
    and "\<forall>i<64. \<not> bit msk i \<longrightarrow> read_entry old i = read_entry c i"
  shows "\<exists>t'. it_enact_plan t ci r = Ok (t', advance (index_payload msk c) r) \<and>
    at_bytes (advance (index_payload msk c) r) rest \<and> map_ok t' \<and>
    (\<forall>lq ci'. unat ci' < 2 ^ unat (ibits t) \<longrightarrow> lq_index lq (it_id t) ci = None \<longrightarrow>
       chunk_view t' lq ci' = (if ci' = ci then Ok c else chunk_view t lq ci'))"
  using it_enact_plan_ok [OF assms(1-6)] assms(7) by blast

definition ex_chunk :: chunk where
  "ex_chunk = write_entry 99 0 EMPTY_CHUNK"

theorem index_enact_witness:
  "\<exists>t'. it_enact_plan ex_index 2 (log_reader_new (index_payload 1 ex_chunk) 0 True) =
      Ok (t', advance (index_payload 1 ex_chunk) (log_reader_new (index_payload 1 ex_chunk) 0 True)) \<and>
    map_ok t' \<and> chunk_view t' (writer_query ex_ilog) 2 = Ok ex_chunk \<and>
    chunk_view t' (writer_query ex_ilog) 3 = chunk_view ex_index (writer_query ex_ilog) 3"
proof -
  let ?r = "log_reader_new (index_payload 1 ex_chunk) 0 True"
  have "\<exists>t'. it_enact_plan ex_index 2 ?r = Ok (t', advance (index_payload 1 ex_chunk) ?r) \<and>
    at_bytes (advance (index_payload 1 ex_chunk) ?r) [] \<and> map_ok t' \<and>
    (\<forall>lq ci'. unat ci' < 2 ^ unat (ibits ex_index) \<longrightarrow> lq_index lq (it_id ex_index) 2 = None \<longrightarrow>
       chunk_view t' lq ci' = (if ci' = 2 then Ok ex_chunk else chunk_view ex_index lq ci'))"
  proof (rule index_enact)
    show "length ex_chunk = 512" by (simp add: ex_chunk_def write_entry_def EMPTY_CHUNK_def)
    show "chunk_view ex_index \<lparr>lq_index = \<lambda>_ _. None, lq_value = \<lambda>_ _. None\<rparr> 2 = Ok EMPTY_CHUNK"
      by (simp add: chunk_view_def ex_index_def)
    show "\<forall>i<64. \<not> bit (1 :: u64) i \<longrightarrow> read_entry EMPTY_CHUNK i = read_entry ex_chunk i"
    proof (intro allI impI)
      fix i :: nat assume i: "i < 64" "\<not> bit (1 :: u64) i"
      then have "i \<noteq> 0" by (cases i) auto
      with i show "read_entry EMPTY_CHUNK i = read_entry ex_chunk i"
        using read_write_entry [of EMPTY_CHUNK 0 i 99] by (simp add: ex_chunk_def EMPTY_CHUNK_def)
    qed
  qed (simp_all add: map_ok_def ex_index_def at_bytes_def log_reader_new_def)
  moreover have "lq_index (writer_query ex_ilog) (it_id ex_index) 2 = None"
    using ex_index_lookup by (simp add: writer_query_def)
  ultimately show ?thesis by fastforce
qed

text \<open>C39: The validation of a log record lets chunk numbers through that the table does not have: it
  compares with the number of entries, which is 64 times the number of chunks. For any such number
  the record validates, while enacting it goes outside of the memory map.\<close>

theorem validate_misses_chunk_bound:
  assumes "valid_bits (ibits t)" "map_ok t" "length c = 512" "at_bytes r (index_payload msk c @ rest)"
    and "total_chunks (ibits t) \<le> ci" "ci < total_entries (ibits t)"
  shows "it_validate_plan t ci r = Ok (advance (index_payload msk c) r) \<and> it_enact_plan t ci r = Panic"
proof -
  have v: "it_validate_plan t ci r = Ok (advance (index_payload msk c) r)"
    using assms(6) it_skip_plan_ok [OF assms(3,4)] by (simp add: it_validate_plan_skip not_le)
  let ?m = "case it_map t of Some m \<Rightarrow> m | None \<Rightarrow> set_len (unat (file_size (ibits t))) []"
  have "length ?m = unat (file_size (ibits t))"
    using assms(2) by (auto simp: map_ok_def set_len_def split: option.splits)
  moreover have "2 ^ unat (ibits t) \<le> unat ci"
    using assms(5) unat_file_size(1) [OF assms(1)] by (simp add: word_le_nat_alt)
  ultimately have "\<not> META_SIZE + unat ci * CHUNK_LEN + CHUNK_LEN \<le> length ?m"
    using unat_file_size(2) [OF assms(1)] by (simp add: not_le)
  with v show ?thesis by (simp add: it_enact_plan_def Let_def)
qed

theorem validate_misses_chunk_bound_witness:
  "it_validate_plan ex_index 65536 (log_reader_new (index_payload 1 ex_chunk) 0 True) =
     Ok (advance (index_payload 1 ex_chunk) (log_reader_new (index_payload 1 ex_chunk) 0 True)) \<and>
   it_enact_plan ex_index 65536 (log_reader_new (index_payload 1 ex_chunk) 0 True) = Panic"
proof (rule validate_misses_chunk_bound)
  show "length ex_chunk = 512" by (simp add: ex_chunk_def write_entry_def EMPTY_CHUNK_def)
  show "total_chunks (ibits ex_index) \<le> 65536" "65536 < total_entries (ibits ex_index)" by code_simp+
qed (simp_all add: map_ok_def ex_index_def at_bytes_def log_reader_new_def)

end
