(* ===== verification/Log_File.thy ===== *)
theory Log_File
  imports Index_Table
begin

text \<open>
  The write-ahead log on disk (src/src/log.rs, \<open>LogChange::flush_to_file\<close> and \<open>Log\<close>): records
  are appended to a log file, log files move from \<open>appending\<close> through the read queue to
  \<open>reading\<close>, from there to the cleanup queue and back into the pool. A file handle is its
  number with the content of the file; \<open>reading\<close> also has a position. Locks are not part of the
  model: an operation runs to its end. \<open>sync_data\<close>/\<open>sync_all\<close> leave the content unchanged.
\<close>

section \<open>Writing a record\<close>

definition index_record :: "u16 \<Rightarrow> u64 \<Rightarrow> u64 \<Rightarrow> chunk \<Rightarrow> bytes" where
  "index_record i index msk c =
     [INSERT_INDEX] @ u16_to_le i @ u64_to_le index @ u64_to_le msk @
     concat (map (\<lambda>e. subslice (e * ENTRY_BYTES) ENTRY_BYTES c) (mask_positions msk))"

definition value_record :: "u16 \<Rightarrow> u64 \<Rightarrow> bytes \<Rightarrow> bytes" where
  "value_record i index val = [INSERT_VALUE] @ u16_to_le i @ u64_to_le index @ val"

definition drop_record :: "u16 \<Rightarrow> bytes" where
  "drop_record i = [DROP_TABLE] @ u16_to_le i"

definition index_records :: "(u16 \<times> index_overlay) list \<Rightarrow> bytes" where
  "index_records m =
     concat (map (\<lambda>(i, ov). concat (map (\<lambda>(index, (_, msk, c)). index_record i index msk c) ov)) m)"

definition value_records :: "(u16 \<times> value_overlay) list \<Rightarrow> bytes" where
  "value_records m =
     concat (map (\<lambda>(i, ov). concat (map (\<lambda>(index, (_, val)). value_record i index val) ov)) m)"

text \<open>The bytes that the checksum covers, and the whole record.\<close>

definition record_body :: "log_change \<Rightarrow> bytes" where
  "record_body c =
     [BEGIN_RECORD] @ u64_to_le (lc_record_id c) @
     index_records (lc_local_index c) @ value_records (lc_local_values c) @
     concat (map drop_record (lc_dropped_tables c)) @ [END_RECORD]"

definition flush_to_file :: "(bytes \<Rightarrow> u32) \<Rightarrow> log_change \<Rightarrow> bytes \<Rightarrow> bytes \<times> u64" where
  "flush_to_file crc c file =
     (let body = record_body c; out = body @ u32_to_le (crc body)
      in (file @ out, word_of_nat (length out)))"

section \<open>State\<close>

record log_state =
  lg_overlays :: log_overlays
  lg_appending :: "(u32 \<times> bytes \<times> u64) option"
  lg_reading :: "(u32 \<times> bytes \<times> nat) option"
  lg_read_queue :: "(u32 \<times> bytes) list"
  lg_next_record_id :: u64
  lg_dirty :: bool
  lg_log_pool :: "(u32 \<times> bytes) list"
  lg_cleanup_queue :: "(u32 \<times> bytes) list"
  lg_replay_queue :: "(u32 \<times> u64 \<times> bytes) list"
  lg_next_log_id :: u32
  lg_sync :: bool

definition MAX_LOG_POOL_SIZE :: nat where [simp]: "MAX_LOG_POOL_SIZE = 16"

definition read_first_record_id :: "bytes \<Rightarrow> u64 result" where
  "read_first_record_id file =
     (if 9 \<le> length file then Ok (u64_from_le (subslice 1 8 file)) else Err (Io UnexpectedEof))"

definition open_log_file :: "bytes \<Rightarrow> (bytes \<times> u64 option) result" where
  "open_log_file file =
     (if length file = 0 then Ok (file, None)
      else case read_first_record_id file of
             Err (Io UnexpectedEof) \<Rightarrow> Ok (file, None)
           | Err e \<Rightarrow> Err e
           | Ok i \<Rightarrow> Ok (file, Some i)
           | Panic \<Rightarrow> Panic
           | Diverge \<Rightarrow> Diverge)"

text \<open>
  \<open>open\<close> gets the log files of the directory as numbers with contents, in the order in which
  the directory lists them.
\<close>

fun open_logs :: "(u32 \<times> bytes) list \<Rightarrow> ((u32 \<times> u64 \<times> bytes) list \<times> u32) result" where
  "open_logs [] = Ok ([], 0)"
| "open_logs ((nlog, f) # rest) =
     and_then (open_log_file f) (\<lambda>(file, record_id).
     and_then (open_logs rest) (\<lambda>(logs, max_log_id).
       case record_id of
         Some record_id \<Rightarrow> Ok ((nlog, record_id, file) # logs, max nlog max_log_id)
       | None \<Rightarrow> Ok (logs, max_log_id)))"

definition log_open :: "(u32 \<times> bytes) list \<Rightarrow> bool \<Rightarrow> log_state result" where
  "log_open dir sync_wal =
     and_then (open_logs dir) (\<lambda>(logs, max_log_id).
     let logs = sort_key (\<lambda>(_, record_id, _). record_id) logs;
         next_log_id = (if logs = [] then 0 else max_log_id + 1)
     in Ok \<lparr>lg_overlays = overlays_default, lg_appending = None, lg_reading = None,
            lg_read_queue = [], lg_next_record_id = 1, lg_dirty = True, lg_log_pool = [],
            lg_cleanup_queue = [], lg_replay_queue = logs, lg_next_log_id = next_log_id,
            lg_sync = sync_wal\<rparr>)"

definition replay_record_id :: "log_state \<Rightarrow> u64 option" where
  "replay_record_id lg =
     (case lg_replay_queue lg of [] \<Rightarrow> None | (_, record_id, _) # _ \<Rightarrow> Some record_id)"

definition reading_file :: "u32 \<times> bytes \<times> nat \<Rightarrow> u32 \<times> bytes" where
  "reading_file r = (fst r, fst (snd r))"

definition clear_replay_logs :: "log_state \<Rightarrow> log_state" where
  "clear_replay_logs lg =
     lg\<lparr>lg_reading := None,
        lg_cleanup_queue := lg_cleanup_queue lg @
          (case lg_reading lg of Some r \<Rightarrow> [reading_file r] | None \<Rightarrow> []) @
          map (\<lambda>(i, _, f). (i, f)) (lg_replay_queue lg),
        lg_replay_queue := [], lg_overlays := overlays_default, lg_dirty := False\<rparr>"

definition begin_record :: "log_state \<Rightarrow> log_writer \<times> log_state" where
  "begin_record lg =
     (log_writer_new (lg_overlays lg) (lg_next_record_id lg),
      lg\<lparr>lg_next_record_id := lg_next_record_id lg + 1\<rparr>)"

section \<open>Finishing a record\<close>

definition extend_map :: "('k \<times> 'v) list \<Rightarrow> ('k \<times> 'v) list \<Rightarrow> ('k \<times> 'v) list" where
  "extend_map m new = foldl (\<lambda>m (k, v). AList.update k v m) m new"

definition extend_overlay ::
    "('i \<times> ('k \<times> 'v) list) list \<Rightarrow> ('i \<times> ('k \<times> 'v) list) list \<Rightarrow> ('i \<times> ('k \<times> 'v) list) list" where
  "extend_overlay m new =
     foldl (\<lambda>m (i, ov). AList.update i (extend_map (or_default m i) ov) m) m new"

definition activate_appending :: "log_state \<Rightarrow> (u32 \<times> bytes \<times> u64) \<times> log_state" where
  "activate_appending lg =
     (case lg_appending lg of
        Some a \<Rightarrow> (a, lg)
      | None \<Rightarrow>
          (case lg_log_pool lg of
             (i, f) # pool \<Rightarrow> ((i, f, 0), lg\<lparr>lg_log_pool := pool\<rparr>)
           | [] \<Rightarrow> ((lg_next_log_id lg, [], 0), lg\<lparr>lg_next_log_id := lg_next_log_id lg + 1\<rparr>)))"

definition end_record :: "(bytes \<Rightarrow> u32) \<Rightarrow> log_change \<Rightarrow> log_state \<Rightarrow> (u64 \<times> log_state) result" where
  "end_record crc c lg =
     and_then (assert_r (lc_record_id c + 1 = lg_next_record_id lg)) (\<lambda>_.
     let ((i, file, sz), lg) = activate_appending lg;
         (file, bytes) = flush_to_file crc c file;
         ov = lg_overlays lg;
         ov = ov\<lparr>lo_index := extend_overlay (lo_index ov) (lc_local_index c),
                 lo_value := extend_overlay (lo_value ov) (lc_local_values c),
                 lo_last_record_id :=
                   foldl (\<lambda>m (t, _). AList.update (table_id_col t) (lc_record_id c) m)
                     (lo_last_record_id ov) (lc_local_values c)\<rparr>
     in Ok (bytes, lg\<lparr>lg_overlays := ov, lg_appending := Some (i, file, sz + bytes), lg_dirty := True\<rparr>))"

definition remove_cleared ::
    "('v \<Rightarrow> u64) \<Rightarrow> u64 \<Rightarrow> (u16 \<times> u64) list \<Rightarrow> (u16 \<times> (u64 \<times> 'v) list) list \<Rightarrow> (u16 \<times> (u64 \<times> 'v) list) list" where
  "remove_cleared rid record_id cl m =
     foldl (\<lambda>m (table, index).
         case map_of m table of
           Some ov \<Rightarrow>
             (case map_of ov index of
                Some e \<Rightarrow> if rid e = record_id then AList.update table (AList.delete index ov) m else m
              | None \<Rightarrow> m)
         | None \<Rightarrow> m) m cl"

definition end_read :: "cleared \<Rightarrow> u64 \<Rightarrow> log_state \<Rightarrow> log_state" where
  "end_read cl record_id lg =
     (let lg = (if record_id \<ge> lg_next_record_id lg
                then lg\<lparr>lg_next_record_id := record_id + 1\<rparr> else lg);
          ov = lg_overlays lg;
          ov = ov\<lparr>lo_index := filter (\<lambda>(_, o'). o' \<noteq> [])
                                (remove_cleared fst record_id (cl_index cl) (lo_index ov)),
                  lo_value := remove_cleared fst record_id (cl_values cl) (lo_value ov)\<rparr>
      in lg\<lparr>lg_overlays := ov\<rparr>)"

section \<open>Queues of log files\<close>

definition flush_one :: "u64 \<Rightarrow> log_state \<Rightarrow> bool \<times> log_state" where
  "flush_one min_size lg =
     (let cur_size = (case lg_appending lg of Some (_, _, sz) \<Rightarrow> sz | None \<Rightarrow> 0) in
      if cur_size > min_size then
        (True, case lg_appending lg of
                 Some (i, file, _) \<Rightarrow>
                   lg\<lparr>lg_appending := None, lg_read_queue := lg_read_queue lg @ [(i, file)]\<rparr>
               | None \<Rightarrow> lg)
      else (False, lg))"

definition replay_next :: "log_state \<Rightarrow> u32 option \<times> log_state" where
  "replay_next lg =
     (let lg = (case lg_reading lg of
                  Some r \<Rightarrow> lg\<lparr>lg_reading := None,
                               lg_cleanup_queue := lg_cleanup_queue lg @ [reading_file r]\<rparr>
                | None \<Rightarrow> lg)
      in case lg_replay_queue lg of
           (i, _, file) # q \<Rightarrow> (Some i, lg\<lparr>lg_replay_queue := q, lg_reading := Some (i, file, 0)\<rparr>)
         | [] \<Rightarrow> (None, lg))"

text \<open>A cleaned file is truncated. Files that do not fit into the pool are deleted from disk.\<close>

definition log_clean_logs :: "nat \<Rightarrow> log_state \<Rightarrow> bool \<times> log_state" where
  "log_clean_logs max_count lg =
     (let count = min max_count (length (lg_cleanup_queue lg));
          cleaned = map (\<lambda>(i, _). (i, [])) (take count (lg_cleanup_queue lg));
          pool = sort_key fst (lg_log_pool lg @ cleaned);
          queue = drop count (lg_cleanup_queue lg)
      in (queue \<noteq> [], lg\<lparr>lg_cleanup_queue := queue, lg_log_pool := take MAX_LOG_POOL_SIZE pool\<rparr>))"

definition num_dirty_logs :: "log_state \<Rightarrow> nat" where
  "num_dirty_logs lg = length (lg_cleanup_queue lg)"

definition has_log_files_to_read :: "log_state \<Rightarrow> bool" where
  "has_log_files_to_read lg = (length (lg_read_queue lg) > 0)"

text \<open>
  \<open>read_next\<close> returns a reader that holds the lock on \<open>reading\<close>; \<open>close_reader\<close> is the state when
  that reader is dropped, with the position it has reached.
\<close>

definition close_reader :: "log_reader \<Rightarrow> log_state \<Rightarrow> log_state" where
  "close_reader r lg =
     lg\<lparr>lg_reading := map_option (\<lambda>(i, f, _). (i, f, lr_pos r)) (lg_reading lg)\<rparr>"

definition read_next_record ::
    "(bytes \<Rightarrow> u32) \<Rightarrow> bool \<Rightarrow> log_state \<Rightarrow> (log_reader option \<times> log_state) result" where
  "read_next_record crc validate lg =
     (let lg = (case lg_reading lg of
                  Some _ \<Rightarrow> lg
                | None \<Rightarrow>
                    (case lg_read_queue lg of
                       (i, file) # q \<Rightarrow> lg\<lparr>lg_read_queue := q, lg_reading := Some (i, file, 0)\<rparr>
                     | [] \<Rightarrow> lg))
      in case lg_reading lg of
           None \<Rightarrow> Ok (None, lg)
         | Some (i, file, pos) \<Rightarrow>
             (case log_next crc (log_reader_new file pos validate) of
                Ok (BeginRecord, r) \<Rightarrow> Ok (Some r, close_reader r lg)
              | Ok _ \<Rightarrow> Err (Corruption ''Bad log record structure'')
              | Err (Io UnexpectedEof) \<Rightarrow>
                  Ok (None, lg\<lparr>lg_reading := None,
                               lg_cleanup_queue := lg_cleanup_queue lg @ [(i, file)]\<rparr>)
              | Err e \<Rightarrow> Err e
              | Panic \<Rightarrow> Panic
              | Diverge \<Rightarrow> Diverge))"

definition log_kill_logs :: "log_state \<Rightarrow> log_state" where
  "log_kill_logs lg = lg\<lparr>lg_log_pool := [], lg_reading := None\<rparr>"

end
