(* ===== verification/Log_Spec.thy ===== *)
theory Log_Spec
  imports Log_File Index_Enact
begin

text \<open>
  Correctness of the log: what the overlays hold after a record is finished and after it has been
  enacted, and that a record is read back as it was written.
\<close>

section \<open>Maps\<close>

lemma map_of_extend:
  "distinct (map fst new) \<Longrightarrow> map_of (extend_map m new) = map_of m ++ map_of new"
proof (induction new arbitrary: m)
  case (Cons kv new)
  obtain k v where kv: "kv = (k, v)" by (cases kv)
  have "map_of (extend_map m (kv # new)) = map_of (AList.update k v m) ++ map_of new"
    using Cons kv by (simp add: extend_map_def)
  also have "map_of new k = None" using Cons.prems kv by (simp add: map_of_eq_None_iff)
  then have "map_of (AList.update k v m) ++ map_of new = map_of m ++ map_of (kv # new)"
    using kv by (auto simp: update_conv' fun_eq_iff map_add_def split: option.split)
  finally show ?case .
qed (simp add: extend_map_def)

text \<open>A map of maps without repeated keys, as a \<open>HashMap\<close> of \<open>HashMap\<close>s is.\<close>

definition hash_maps :: "('i \<times> ('k \<times> 'v) list) list \<Rightarrow> bool" where
  "hash_maps m \<longleftrightarrow> distinct (map fst m) \<and> (\<forall>ov\<in>snd ` set m. distinct (map fst ov))"

definition lookup2 :: "('i \<times> ('k \<times> 'v) list) list \<Rightarrow> 'i \<Rightarrow> 'k \<Rightarrow> 'v option" where
  "lookup2 m i k = Option.bind (map_of m i) (\<lambda>ov. map_of ov k)"

lemma value_lookup_lookup2: "value_lookup m t i = map_option snd (lookup2 m t i)"
  by (cases "map_of m t") (simp_all add: value_lookup_def lookup2_def case_prod_unfold)

lemma index_lookup_lookup2: "index_lookup m t i = map_option (\<lambda>x. snd (snd x)) (lookup2 m t i)"
  by (cases "map_of m t") (simp_all add: index_lookup_def lookup2_def case_prod_unfold)

lemma or_default_lookup2: "map_of (or_default m i) k = lookup2 m i k"
  by (cases "map_of m i") (simp_all add: or_default_def lookup2_def)

lemma lookup2_update: "lookup2 (AList.update i ov m) i' k = (if i' = i then map_of ov k else lookup2 m i' k)"
  by (simp add: lookup2_def update_conv')

lemma lookup2_extend_overlay:
  "hash_maps new \<Longrightarrow>
   lookup2 (extend_overlay m new) i k = (case lookup2 new i k of Some v \<Rightarrow> Some v | None \<Rightarrow> lookup2 m i k)"
proof (induction new arbitrary: m)
  case (Cons x new)
  obtain j ov where x: "x = (j, ov)" by (cases x)
  have h: "hash_maps new" "distinct (map fst ov)" "j \<notin> fst ` set new"
    using Cons.prems x by (auto simp: hash_maps_def)
  let ?m = "AList.update j (extend_map (or_default m j) ov) m"
  have "lookup2 (extend_overlay m (x # new)) i k =
      (case lookup2 new i k of Some v \<Rightarrow> Some v | None \<Rightarrow> lookup2 ?m i k)"
    using Cons.IH [OF h(1)] x by (simp add: extend_overlay_def)
  moreover have "map_of new j = None" using h(3) by (simp add: map_of_eq_None_iff)
  then have "lookup2 new j k = None" by (simp add: lookup2_def)
  moreover have "lookup2 (x # new) i k = (if i = j then map_of ov k else lookup2 new i k)"
    using x by (simp add: lookup2_def)
  ultimately show ?case
    using h(2) by (simp add: lookup2_update map_of_extend map_add_def or_default_lookup2 split: option.split)
qed (simp add: extend_overlay_def lookup2_def)

section \<open>Finishing a record\<close>

definition change_wf :: "log_change \<Rightarrow> bool" where
  "change_wf c \<longleftrightarrow> hash_maps (lc_local_index c) \<and> hash_maps (lc_local_values c)"

lemma hash_maps_update:
  assumes "hash_maps m" "distinct (map fst ov)"
  shows "hash_maps (AList.update i ov m)"
proof -
  have "snd ` set (AList.update i ov m) \<subseteq> insert ov (snd ` set m)"
    by (induction m) auto
  moreover have "distinct (map fst (AList.update i ov m))"
    using assms(1) by (simp add: hash_maps_def)
  ultimately show ?thesis using assms unfolding hash_maps_def by blast
qed

lemma hash_maps_default: "hash_maps m \<Longrightarrow> distinct (map fst (or_default m i))"
  by (auto simp: hash_maps_def or_default_def dest: map_of_SomeD split: option.split)

lemma change_wf_new: "change_wf (lw_log (log_writer_new ov r))"
  by (simp add: log_writer_new_def log_change_new_def change_wf_def hash_maps_def)

lemma change_wf_insert:
  "change_wf (lw_log w) \<Longrightarrow> change_wf (lw_log (insert_value t i d w))"
  "change_wf (lw_log w) \<Longrightarrow> change_wf (lw_log (insert_index t i s c w))"
  "change_wf (lw_log w) \<Longrightarrow> change_wf (lw_log (drop_table t w))"
  by (auto simp: change_wf_def insert_value_def insert_index_def drop_table_def Let_def
      intro!: hash_maps_update hash_maps_default distinct_update_fst)

lemma end_record_overlays:
  assumes "change_wf (lw_log w)" "lw_overlays w = lg_overlays lg"
    and "end_record crc (lw_drain w) lg = Ok (n, lg')"
  shows "overlays_query (lg_overlays lg') = writer_query w"
proof -
  have ao: "lg_overlays (snd (activate_appending lg)) = lg_overlays lg"
    by (simp add: activate_appending_def split: option.split list.split)
  have ov: "lo_index (lg_overlays lg') = extend_overlay (lo_index (lg_overlays lg)) (lc_local_index (lw_log w))"
      "lo_value (lg_overlays lg') = extend_overlay (lo_value (lg_overlays lg)) (lc_local_values (lw_log w))"
    using assms(3) ao by (auto simp: end_record_def lw_drain_def Let_def result_simps split: prod.splits)
  have h: "hash_maps (lc_local_index (lw_log w))" "hash_maps (lc_local_values (lw_log w))"
    using assms(1) by (simp_all add: change_wf_def)
  have "index_lookup (lo_index (lg_overlays lg')) t i = writer_index w t i" for t i
    unfolding ov(1) writer_index_def index_lookup_lookup2 lookup2_extend_overlay [OF h(1)]
    by (simp add: overlays_query_def assms(2) index_lookup_lookup2 split: option.split)
  moreover have "value_lookup (lo_value (lg_overlays lg')) t i = writer_value w t i" for t i
    unfolding ov(2) writer_value_def value_lookup_lookup2 lookup2_extend_overlay [OF h(2)]
    by (simp add: overlays_query_def assms(2) value_lookup_lookup2 split: option.split)
  ultimately show ?thesis by (simp add: overlays_query_def writer_query_def fun_eq_iff)
qed

section \<open>After a record has been enacted\<close>

lemma lookup2_remove_step:
  fixes rid :: "'v \<Rightarrow> u64" and m :: "(u16 \<times> (u64 \<times> 'v) list) list" and t :: u16 and j r :: u64
  assumes "hash_maps m"
  defines "m' \<equiv> (case map_of m t of
           Some ov \<Rightarrow>
             (case map_of ov j of
                Some e \<Rightarrow> if rid e = r then AList.update t (AList.delete j ov) m else m
              | None \<Rightarrow> m)
         | None \<Rightarrow> m)"
  shows "hash_maps m'"
    and "lookup2 m' t' i = (if t' = t \<and> i = j \<and> (\<exists>e. lookup2 m t j = Some e \<and> rid e = r) then None else lookup2 m t' i)"
proof -
  have "distinct (map fst ov)" if "map_of m t = Some ov" for ov
    using assms(1) that by (auto simp: hash_maps_def dest: map_of_SomeD)
  then show "hash_maps m'"
    using assms(1) by (auto simp: m'_def intro!: hash_maps_update distinct_delete split: option.split)
  show "lookup2 m' t' i = (if t' = t \<and> i = j \<and> (\<exists>e. lookup2 m t j = Some e \<and> rid e = r) then None else lookup2 m t' i)"
  proof (cases "lookup2 m t j")
    case None
    then have "m' = m" by (auto simp: m'_def lookup2_def split: option.splits)
    with None show ?thesis by simp
  next
    case (Some e)
    then obtain ov where ov: "map_of m t = Some ov" "map_of ov j = Some e"
      by (cases "map_of m t") (auto simp: lookup2_def)
    then have m': "m' = (if rid e = r then AList.update t (AList.delete j ov) m else m)" by (simp add: m'_def)
    have "lookup2 m t i = map_of ov i" for i using ov by (simp add: lookup2_def)
    with Some show ?thesis unfolding m' by (auto simp: lookup2_update delete_conv')
  qed
qed

lemma lookup2_remove_cleared:
  "hash_maps m \<Longrightarrow> lookup2 (remove_cleared rid r cl m) t i =
    (if (t, i) \<in> set cl \<and> (\<exists>e. lookup2 m t i = Some e \<and> rid e = r) then None else lookup2 m t i)"
proof (induction cl arbitrary: m)
  case (Cons x cl)
  obtain t0 j where x: "x = (t0, j)" by (cases x)
  note st = lookup2_remove_step [OF Cons.prems, where t = t0 and j = j and rid = rid and r = r]
  have "remove_cleared rid r (x # cl) m = remove_cleared rid r cl (case map_of m t0 of
           Some ov \<Rightarrow>
             (case map_of ov j of
                Some e \<Rightarrow> if rid e = r then AList.update t0 (AList.delete j ov) m else m
              | None \<Rightarrow> m)
         | None \<Rightarrow> m)" by (simp add: remove_cleared_def x)
  then show ?case
    using Cons.IH [OF st(1)] st(2) x by auto
qed (simp add: remove_cleared_def)

lemma lookup2_filter_nonempty:
  "distinct (map fst m) \<Longrightarrow> lookup2 (filter (\<lambda>(_, ov). ov \<noteq> []) m) t i = lookup2 m t i"
proof (induction m)
  case (Cons x m)
  obtain a ov where x: "x = (a, ov)" by (cases x)
  have "map_of m a = None" using Cons.prems x by (simp add: map_of_eq_None_iff)
  then have "lookup2 m a i = None" by (simp add: lookup2_def)
  moreover have "lookup2 (x # m) t i = (if t = a then map_of ov i else lookup2 m t i)" for m
    using x by (simp add: lookup2_def)
  ultimately show ?case using Cons x by (cases "ov = []") simp_all
qed simp

definition overlays_wf :: "log_overlays \<Rightarrow> bool" where
  "overlays_wf ov \<longleftrightarrow> hash_maps (lo_index ov) \<and> hash_maps (lo_value ov)"

lemma end_read_lookup:
  assumes "overlays_wf (lg_overlays lg)"
  shows "lookup2 (lo_value (lg_overlays (end_read cl r lg))) t i =
      (if (t, i) \<in> set (cl_values cl) \<and> (\<exists>e. lookup2 (lo_value (lg_overlays lg)) t i = Some e \<and> fst e = r)
       then None else lookup2 (lo_value (lg_overlays lg)) t i)"
    and "lookup2 (lo_index (lg_overlays (end_read cl r lg))) t i =
      (if (t, i) \<in> set (cl_index cl) \<and> (\<exists>e. lookup2 (lo_index (lg_overlays lg)) t i = Some e \<and> fst e = r)
       then None else lookup2 (lo_index (lg_overlays lg)) t i)"
proof -
  have h: "hash_maps (lo_index (lg_overlays lg))" "hash_maps (lo_value (lg_overlays lg))"
    using assms by (simp_all add: overlays_wf_def)
  have "hash_maps m \<Longrightarrow> hash_maps (remove_cleared fst r cl m)" for cl and m :: "(u16 \<times> (u64 \<times> u64 \<times> 'b) list) list"
    by (induction cl arbitrary: m) (auto simp: remove_cleared_def lookup2_remove_step(1))
  from this [OF h(1), of "cl_index cl"]
  have d: "distinct (map fst (remove_cleared fst r (cl_index cl) (lo_index (lg_overlays lg))))"
    by (simp add: hash_maps_def)
  show "lookup2 (lo_value (lg_overlays (end_read cl r lg))) t i =
      (if (t, i) \<in> set (cl_values cl) \<and> (\<exists>e. lookup2 (lo_value (lg_overlays lg)) t i = Some e \<and> fst e = r)
       then None else lookup2 (lo_value (lg_overlays lg)) t i)"
    by (auto simp: end_read_def Let_def lookup2_remove_cleared [OF h(2)])
  show "lookup2 (lo_index (lg_overlays (end_read cl r lg))) t i =
      (if (t, i) \<in> set (cl_index cl) \<and> (\<exists>e. lookup2 (lo_index (lg_overlays lg)) t i = Some e \<and> fst e = r)
       then None else lookup2 (lo_index (lg_overlays lg)) t i)"
    by (auto simp: end_read_def Let_def lookup2_filter_nonempty [OF d] lookup2_remove_cleared [OF h(1)])
qed

section \<open>Reading a record back\<close>

lemma at_bytes_fields [simp]:
  "at_bytes (r\<lparr>lr_cleared := c\<rparr>) bs = at_bytes r bs" "at_bytes (r\<lparr>lr_record_id := i\<rparr>) bs = at_bytes r bs"
  by (simp_all add: at_bytes_def)

lemma log_read_1:
  assumes "at_bytes r (tag # rest)"
  shows "log_read r 1 = Ok ([tag], advance [tag] r)" "at_bytes (advance [tag] r) rest"
  using log_read_at [of r "[tag]" rest 1] assms by simp_all

lemma log_read_u16:
  "at_bytes r (u16_to_le x @ rest) \<Longrightarrow> log_read r 2 = Ok (u16_to_le x, advance (u16_to_le x) r)"
  "at_bytes r (u16_to_le x @ rest) \<Longrightarrow> at_bytes (advance (u16_to_le x) r) rest"
  using log_read_at [of r "u16_to_le x" rest 2] by simp_all

lemma log_read_u64:
  "at_bytes r (u64_to_le x @ rest) \<Longrightarrow> log_read r 8 = Ok (u64_to_le x, advance (u64_to_le x) r)"
  "at_bytes r (u64_to_le x @ rest) \<Longrightarrow> at_bytes (advance (u64_to_le x) r) rest"
  using log_read_at [of r "u64_to_le x" rest 8] by simp_all

lemma log_next_begin:
  assumes "at_bytes r ([BEGIN_RECORD] @ u64_to_le i @ rest)"
  shows "log_next crc r = Ok (BeginRecord, (advance ([BEGIN_RECORD] @ u64_to_le i) r)\<lparr>lr_record_id := i\<rparr>)"
    and "at_bytes (advance ([BEGIN_RECORD] @ u64_to_le i) r) rest"
proof -
  note a = log_read_1 [of r BEGIN_RECORD "u64_to_le i @ rest"]
  note b = log_read_u64 [of "advance [BEGIN_RECORD] r" i rest]
  show "log_next crc r = Ok (BeginRecord, (advance ([BEGIN_RECORD] @ u64_to_le i) r)\<lparr>lr_record_id := i\<rparr>)"
    "at_bytes (advance ([BEGIN_RECORD] @ u64_to_le i) r) rest"
    using assms a b by (simp_all add: log_next_def Let_def)
qed

definition push_index :: "u16 \<Rightarrow> u64 \<Rightarrow> log_reader \<Rightarrow> log_reader" where
  "push_index t i r = r\<lparr>lr_cleared := (lr_cleared r)\<lparr>cl_index := cl_index (lr_cleared r) @ [(t, i)]\<rparr>\<rparr>"

definition push_value :: "u16 \<Rightarrow> u64 \<Rightarrow> log_reader \<Rightarrow> log_reader" where
  "push_value t i r = r\<lparr>lr_cleared := (lr_cleared r)\<lparr>cl_values := cl_values (lr_cleared r) @ [(t, i)]\<rparr>\<rparr>"

lemma at_bytes_push [simp]:
  "at_bytes (push_index t i r) bs = at_bytes r bs" "at_bytes (push_value t i r) bs = at_bytes r bs"
  by (simp_all add: push_index_def push_value_def)

lemma log_next_insert_index:
  assumes "at_bytes r ([INSERT_INDEX] @ u16_to_le t @ u64_to_le i @ rest)"
  shows "log_next crc r = Ok (InsertIndex t i, push_index t i (advance ([INSERT_INDEX] @ u16_to_le t @ u64_to_le i) r))"
    and "at_bytes (advance ([INSERT_INDEX] @ u16_to_le t @ u64_to_le i) r) rest"
proof -
  note a = log_read_1 [of r INSERT_INDEX "u16_to_le t @ u64_to_le i @ rest"]
  note b = log_read_u16 [of "advance [INSERT_INDEX] r" t "u64_to_le i @ rest"]
  note c = log_read_u64 [of "advance ([INSERT_INDEX] @ u16_to_le t) r" i rest]
  show "log_next crc r = Ok (InsertIndex t i, push_index t i (advance ([INSERT_INDEX] @ u16_to_le t @ u64_to_le i) r))"
    "at_bytes (advance ([INSERT_INDEX] @ u16_to_le t @ u64_to_le i) r) rest"
    using assms a b c by (simp_all add: log_next_def Let_def push_index_def)
qed

lemma log_next_insert_value:
  assumes "at_bytes r ([INSERT_VALUE] @ u16_to_le t @ u64_to_le i @ rest)"
  shows "log_next crc r = Ok (InsertValue t i, push_value t i (advance ([INSERT_VALUE] @ u16_to_le t @ u64_to_le i) r))"
    and "at_bytes (advance ([INSERT_VALUE] @ u16_to_le t @ u64_to_le i) r) rest"
proof -
  note a = log_read_1 [of r INSERT_VALUE "u16_to_le t @ u64_to_le i @ rest"]
  note b = log_read_u16 [of "advance [INSERT_VALUE] r" t "u64_to_le i @ rest"]
  note c = log_read_u64 [of "advance ([INSERT_VALUE] @ u16_to_le t) r" i rest]
  show "log_next crc r = Ok (InsertValue t i, push_value t i (advance ([INSERT_VALUE] @ u16_to_le t @ u64_to_le i) r))"
    "at_bytes (advance ([INSERT_VALUE] @ u16_to_le t @ u64_to_le i) r) rest"
    using assms a b c by (simp_all add: log_next_def Let_def push_value_def)
qed

lemma log_next_drop:
  assumes "at_bytes r (drop_record t @ rest)"
  shows "log_next crc r = Ok (DropTable t, advance (drop_record t) r)"
    and "at_bytes (advance (drop_record t) r) rest"
proof -
  note a = log_read_1 [of r DROP_TABLE "u16_to_le t @ rest"]
  note b = log_read_u16 [of "advance [DROP_TABLE] r" t rest]
  show "log_next crc r = Ok (DropTable t, advance (drop_record t) r)" "at_bytes (advance (drop_record t) r) rest"
    using assms a b by (simp_all add: log_next_def Let_def drop_record_def)
qed

lemma log_next_end:
  assumes "at_bytes r ([END_RECORD] @ u32_to_le x @ rest)"
  shows "log_next crc r =
    (if lr_validate r \<and> x \<noteq> crc (lr_crc32 r @ [END_RECORD]) then Err (Corruption ''Log record CRC-32 mismatch'')
     else Ok (EndRecord, (advance [END_RECORD] r)\<lparr>lr_pos := lr_pos r + 5, lr_read_bytes := lr_read_bytes r + 5,
       lr_crc32 := (if lr_validate r then [] else lr_crc32 r)\<rparr>))"
proof -
  note a = log_read_1 [of r END_RECORD "u32_to_le x @ rest"]
  have at2: "at_bytes (advance [END_RECORD] r) (u32_to_le x @ rest)" using a assms by simp
  then obtain post where "drop (lr_pos r + 1) (lr_file r) = u32_to_le x @ rest @ post" "lr_pos r + 1 \<le> length (lr_file r)"
    by (auto simp: at_bytes_def)
  moreover from at_bytes_length [OF at2] have "lr_pos r + 5 \<le> length (lr_file r)" by simp
  ultimately have "read_exact (advance [END_RECORD] r) 4 = Ok (u32_to_le x,
      (advance [END_RECORD] r)\<lparr>lr_pos := lr_pos r + 5, lr_read_bytes := lr_read_bytes r + 5\<rparr>)"
    by (simp add: read_exact_def subslice_def)
  with a assms show ?thesis by (simp add: log_next_def Let_def advance_def)
qed

end
