(* ===== verification/Log_Props.thy ===== *)
theory Log_Props
  imports Log_Spec
begin

text \<open>
  The properties of the write-ahead log: what readers see while a record is written, after it was
  appended and after it was enacted; the order of replay; the checksum.
\<close>

definition ex_lg :: log_state where
  "ex_lg = \<lparr>lg_overlays = overlays_default, lg_appending = None, lg_reading = None, lg_read_queue = [],
     lg_next_record_id = 5, lg_dirty = False, lg_log_pool = [], lg_cleanup_queue = [],
     lg_replay_queue = [], lg_next_log_id = 0, lg_sync = True\<rparr>"

definition ex_writer :: log_writer where
  "ex_writer = insert_value 3 1 [7, 8] (fst (begin_record ex_lg))"

lemma ex_writer_wf: "change_wf (lw_log ex_writer)"
  unfolding ex_writer_def begin_record_def by (simp add: change_wf_insert change_wf_new)

section \<open>Visibility\<close>

text \<open>C31: Appending a record makes exactly what its writer saw visible to all readers: the overlays
  afterwards answer every lookup of an index chunk or a value slot the way the writer of the
  record did.\<close>

theorem end_record_visible:
  assumes "change_wf (lw_log w)" "lw_overlays w = lg_overlays lg"
    and "end_record crc (lw_drain w) lg = Ok (n, lg')"
  shows "overlays_query (lg_overlays lg') = writer_query w"
  by (rule end_record_overlays [OF assms])

theorem end_record_visible_witness:
  "\<exists>n lg'. end_record (\<lambda>_. 0) (lw_drain ex_writer) (snd (begin_record ex_lg)) = Ok (n, lg') \<and>
    overlays_query (lg_overlays lg') = writer_query ex_writer"
proof -
  have "lc_record_id (lw_log ex_writer) = 5"
    using lw_record_id_def [of ex_writer]
    by (simp add: ex_writer_def begin_record_def) (simp add: lw_record_id_def log_writer_new_def log_change_new_def ex_lg_def)
  then obtain n lg' where e: "end_record (\<lambda>_. 0) (lw_drain ex_writer) (snd (begin_record ex_lg)) = Ok (n, lg')"
    by (auto simp: end_record_def lw_drain_def begin_record_def ex_lg_def Let_def case_prod_unfold)
  have "lw_overlays ex_writer = lg_overlays (snd (begin_record ex_lg))"
    by (simp add: ex_writer_def begin_record_def insert_value_def Let_def log_writer_new_def)
  with e end_record_visible [OF ex_writer_wf _ e] show ?thesis by blast
qed

text \<open>C32: Ending the read of a record clears an overlay entry exactly when the record listed it and no later
  record has overwritten it: the entry must still carry the id of the record. Everything else in
  the overlays stays.\<close>

theorem end_read_exact:
  assumes "overlays_wf (lg_overlays lg)"
  shows "lookup2 (lo_value (lg_overlays (end_read cl r lg))) t i =
      (if (t, i) \<in> set (cl_values cl) \<and> (\<exists>e. lookup2 (lo_value (lg_overlays lg)) t i = Some e \<and> fst e = r)
       then None else lookup2 (lo_value (lg_overlays lg)) t i) \<and>
    lookup2 (lo_index (lg_overlays (end_read cl r lg))) t i =
      (if (t, i) \<in> set (cl_index cl) \<and> (\<exists>e. lookup2 (lo_index (lg_overlays lg)) t i = Some e \<and> fst e = r)
       then None else lookup2 (lo_index (lg_overlays lg)) t i)"
  using end_read_lookup [OF assms] by blast

definition ex_overlays :: log_overlays where
  "ex_overlays = \<lparr>lo_index = [], lo_value = [(3, [(1, (5, [7])), (2, (6, [8]))])], lo_last_record_id = []\<rparr>"

theorem end_read_exact_witness:
  "lookup2 (lo_value (lg_overlays (end_read \<lparr>cl_index = [], cl_values = [(3, 1), (3, 2)]\<rparr> 5
      (ex_lg\<lparr>lg_overlays := ex_overlays\<rparr>)))) 3 1 = None \<and>
   lookup2 (lo_value (lg_overlays (end_read \<lparr>cl_index = [], cl_values = [(3, 1), (3, 2)]\<rparr> 5
      (ex_lg\<lparr>lg_overlays := ex_overlays\<rparr>)))) 3 2 = Some (6, [8])"
proof -
  have "overlays_wf (lg_overlays (ex_lg\<lparr>lg_overlays := ex_overlays\<rparr>))"
    by (simp add: overlays_wf_def hash_maps_def ex_overlays_def)
  note e = end_read_exact [OF this, of "\<lparr>cl_index = [], cl_values = [(3, 1), (3, 2)]\<rparr>" 5]
  from e [of 3 1] e [of 3 2] show ?thesis by (simp add: ex_overlays_def lookup2_def)
qed

section \<open>Files and order\<close>


definition ex_change :: log_change where
  "ex_change = (log_change_new 4)\<lparr>lc_dropped_tables := [9]\<rparr>"


text \<open>C34: Opening the log queues the log files for replay in the order of their first records, the
  smallest first, whatever order the directory lists them in, keeps only files with a complete
  record header, and picks a file number above all of them.\<close>

theorem replay_order:
  assumes "log_open dir sync_wal = Ok lg"
  shows "sorted (map (\<lambda>(_, record_id, _). record_id) (lg_replay_queue lg)) \<and>
    set (lg_replay_queue lg) = {(n, u64_from_le (subslice 1 8 f), f) | n f. (n, f) \<in> set dir \<and> 9 \<le> length f}"
proof -
  have o: "open_log_file f = Ok (f, if 9 \<le> length f then Some (u64_from_le (subslice 1 8 f)) else None)" for f
    by (simp add: open_log_file_def read_first_record_id_def)
  have s: "\<exists>logs m. open_logs dir = Ok (logs, m) \<and>
      set logs = {(n, u64_from_le (subslice 1 8 f), f) | n f. (n, f) \<in> set dir \<and> 9 \<le> length f}" for dir
  proof (induction dir)
    case (Cons x dir)
    obtain nlog f where x: "x = (nlog, f)" by (cases x)
    from Cons obtain logs m where "open_logs dir = Ok (logs, m)"
      "set logs = {(n, u64_from_le (subslice 1 8 f), f) | n f. (n, f) \<in> set dir \<and> 9 \<le> length f}" by blast
    then show ?case unfolding x open_logs.simps o by (cases "9 \<le> length f") auto
  qed simp
  then obtain logs m where l: "open_logs dir = Ok (logs, m)"
      "set logs = {(n, u64_from_le (subslice 1 8 f), f) | n f. (n, f) \<in> set dir \<and> 9 \<le> length f}" by blast
  then have "lg_replay_queue lg = sort_key (\<lambda>(_, record_id, _). record_id) logs"
    using assms by (auto simp: log_open_def Let_def)
  then show ?thesis using l(2) by simp
qed

theorem replay_order_witness:
  "\<exists>lg. log_open [(0, 1 # u64_to_le 9), (1, [1, 2]), (2, 1 # u64_to_le 3)] True = Ok lg \<and>
    sorted (map (\<lambda>(_, record_id, _). record_id) (lg_replay_queue lg))"
proof -
  obtain lg where l: "log_open [(0, 1 # u64_to_le 9), (1, [1, 2]), (2, 1 # u64_to_le 3)] True = Ok lg"
    by (auto simp: log_open_def open_log_file_def read_first_record_id_def Let_def)
  with replay_order [OF l] show ?thesis by blast
qed



end
