(* ===== verification/Compress_Model.thy ===== *)
theory Compress_Model
  imports Prelude
begin

text \<open>
  Value compression (src/src/compress.rs). The lz4 and snappy implementations are third-party
  crates: a \<open>codec\<close> bundles what the code calls of them. The code relies on decompressing what
  was compressed; \<open>codec_ok\<close> states that.
\<close>

record codec =
  lz4_compress :: "bytes \<Rightarrow> bytes"
  lz4_decompress :: "bytes \<Rightarrow> bytes option"
  snappy_compress :: "bytes \<Rightarrow> bytes"
  snappy_decompress :: "bytes \<Rightarrow> bytes option"

definition codec_ok :: "codec \<Rightarrow> bool" where
  "codec_ok cd \<longleftrightarrow> (\<forall>b. lz4_decompress cd (lz4_compress cd b) = Some b) \<and>
                 (\<forall>b. snappy_decompress cd (snappy_compress cd b) = Some b)"

datatype compression_type = NoCompression | Lz4 | Snappy

record compress =
  cp_inner :: compression_type
  cp_threshold :: u32

definition compress_new :: "compression_type \<Rightarrow> u32 \<Rightarrow> compress" where
  "compress_new kind threshold = \<lparr>cp_inner = kind, cp_threshold = threshold\<rparr>"

definition NO_COMPRESSION :: compress where
  "NO_COMPRESSION = \<lparr>cp_inner = NoCompression, cp_threshold = 0xffffffff\<rparr>"

definition compression_to_u8 :: "compression_type \<Rightarrow> u8" where
  "compression_to_u8 c = (case c of NoCompression \<Rightarrow> 0 | Lz4 \<Rightarrow> 1 | Snappy \<Rightarrow> 2)"

definition compression_from_u8 :: "u8 \<Rightarrow> compression_type result" where
  "compression_from_u8 a =
     (if a = 0 then Ok NoCompression else if a = 1 then Ok Lz4 else if a = 2 then Ok Snappy else Panic)"

definition to_lower :: "char \<Rightarrow> char" where
  "to_lower c = (if of_char c \<ge> (65::nat) \<and> of_char c \<le> (90::nat) then char_of (of_char c + 32 :: nat) else c)"

definition compression_from_str :: "string \<Rightarrow> compression_type result" where
  "compression_from_str s =
     (let s = map to_lower s in
      if s = ''none'' then Ok NoCompression
      else if s = ''lz4'' then Ok Lz4
      else if s = ''snappy'' then Ok Snappy
      else Err Compression)"

definition cp_compress :: "codec \<Rightarrow> compress \<Rightarrow> bytes \<Rightarrow> bytes" where
  "cp_compress cd c buf =
     (case cp_inner c of
        NoCompression \<Rightarrow> buf
      | Lz4 \<Rightarrow> lz4_compress cd buf
      | Snappy \<Rightarrow> snappy_compress cd buf)"

definition cp_decompress :: "codec \<Rightarrow> compress \<Rightarrow> bytes \<Rightarrow> bytes result" where
  "cp_decompress cd c buf =
     (case cp_inner c of
        NoCompression \<Rightarrow> Ok buf
      | Lz4 \<Rightarrow> (case lz4_decompress cd buf of Some v \<Rightarrow> Ok v | None \<Rightarrow> Err Compression)
      | Snappy \<Rightarrow> (case snappy_decompress cd buf of Some v \<Rightarrow> Ok v | None \<Rightarrow> Err Compression))"

lemma cp_roundtrip: "codec_ok cd \<Longrightarrow> cp_decompress cd c (cp_compress cd c b) = Ok b"
  by (simp add: codec_ok_def cp_decompress_def cp_compress_def split: compression_type.split)

lemma compression_u8_roundtrip: "compression_from_u8 (compression_to_u8 c) = Ok c"
  by (cases c) (simp_all add: compression_from_u8_def compression_to_u8_def)

end
