(* ===== verification/Options_Meta.thy ===== *)
theory Options_Meta
  imports Compress_Model
begin

text \<open>
  Database options and the metadata file (src/src/options.rs). The file is a string; the hex
  encoding of the salt is a third-party crate and a parameter \<open>hx\<close> of the definitions, as is the
  random salt of a new database. The text of the error messages that contain formatted values is
  shortened to its fixed part.
\<close>

section \<open>Text\<close>

text \<open>\<open>str::split\<close> with a non-empty separator: leftmost matches, no overlap.\<close>

fun split_go :: "string \<Rightarrow> nat \<Rightarrow> string \<Rightarrow> string \<Rightarrow> string list" where
  "split_go sep 0 acc s = [rev acc @ s]"
| "split_go sep (Suc fuel) acc s =
     (if take (length sep) s = sep then rev acc # split_go sep fuel [] (drop (length sep) s)
      else case s of [] \<Rightarrow> [rev acc] | c # cs \<Rightarrow> split_go sep fuel (c # acc) cs)"

definition split_str :: "string \<Rightarrow> string \<Rightarrow> string list" where
  "split_str sep s = split_go sep (Suc (length s)) [] s"

fun join_str :: "string \<Rightarrow> string list \<Rightarrow> string" where
  "join_str sep [] = []"
| "join_str sep [x] = x"
| "join_str sep (x # y # ys) = x @ sep @ join_str sep (y # ys)"

definition show_bool :: "bool \<Rightarrow> string" where
  "show_bool b = (if b then ''true'' else ''false'')"

definition parse_bool :: "string \<Rightarrow> bool option" where
  "parse_bool s = (if s = ''true'' then Some True else if s = ''false'' then Some False else None)"

definition digit :: "nat \<Rightarrow> char" where
  "digit d = char_of (48 + d :: nat)"

definition digit_val :: "char \<Rightarrow> nat option" where
  "digit_val c = (let n = (of_char c :: nat) in if 48 \<le> n \<and> n \<le> 57 then Some (n - 48) else None)"

fun show_nat :: "nat \<Rightarrow> string" where
  "show_nat n = (if n < 10 then [digit n] else show_nat (n div 10) @ [digit (n mod 10)])"

declare show_nat.simps [simp del]

fun parse_digits :: "nat \<Rightarrow> string \<Rightarrow> nat option" where
  "parse_digits acc [] = Some acc"
| "parse_digits acc (c # cs) = Option.bind (digit_val c) (\<lambda>d. parse_digits (acc * 10 + d) cs)"

text \<open>\<open>FromStr\<close> of the unsigned integers: an optional plus sign, at least one digit, no overflow.\<close>

definition parse_uint :: "nat \<Rightarrow> string \<Rightarrow> nat option" where
  "parse_uint bound s =
     (let ds = (case s of CHR ''+'' # cs \<Rightarrow> cs | _ \<Rightarrow> s) in
      if ds = [] then None
      else case parse_digits 0 ds of Some n \<Rightarrow> if n < bound then Some n else None | None \<Rightarrow> None)"

section \<open>Column options\<close>

record column_options =
  co_preimage :: bool
  co_uniform :: bool
  co_ref_counted :: bool
  co_compression :: compression_type
  co_btree_index :: bool

definition column_options_default :: column_options where
  "column_options_default =
     \<lparr>co_preimage = False, co_uniform = False, co_ref_counted = False,
      co_compression = NoCompression, co_btree_index = False\<rparr>"

definition as_string :: "column_options \<Rightarrow> string" where
  "as_string o' =
     ''preimage: '' @ show_bool (co_preimage o') @
     '', uniform: '' @ show_bool (co_uniform o') @
     '', refc: '' @ show_bool (co_ref_counted o') @
     '', compression: '' @ show_nat (unat (compression_to_u8 (co_compression o'))) @
     '', ordered: '' @ show_bool (co_btree_index o')"

definition co_is_valid :: "column_options \<Rightarrow> bool" where
  "co_is_valid o' = (\<not> (co_ref_counted o' \<and> \<not> co_preimage o'))"

fun pair_of :: "string list \<Rightarrow> (string \<times> string) option" where
  "pair_of (a # b # _) = Some (a, b)"
| "pair_of _ = None"

text \<open>\<open>collect\<close> into a \<open>HashMap\<close>: a later pair replaces an earlier one.\<close>

definition vals_map :: "string \<Rightarrow> string \<Rightarrow> string option" where
  "vals_map s = map_of (rev (List.map_filter (\<lambda>p. pair_of (split_str '': '' p)) (split_str '', '' s)))"

definition from_string :: "string \<Rightarrow> column_options option result" where
  "from_string s =
     (let vals = vals_map (hd (split_str ''sizes: '' s)) in
      case Option.bind (vals ''preimage'') parse_bool of None \<Rightarrow> Ok None | Some preimage \<Rightarrow>
      case Option.bind (vals ''uniform'') parse_bool of None \<Rightarrow> Ok None | Some uniform \<Rightarrow>
      case Option.bind (vals ''refc'') parse_bool of None \<Rightarrow> Ok None | Some ref_counted \<Rightarrow>
      let compression = (case Option.bind (vals ''compression'') (parse_uint 256) of Some c \<Rightarrow> c | None \<Rightarrow> 0);
          btree_index = (case Option.bind (vals ''ordered'') parse_bool of Some b \<Rightarrow> b | None \<Rightarrow> False)
      in and_then (compression_from_u8 (word_of_nat compression)) (\<lambda>c.
           Ok (Some \<lparr>co_preimage = preimage, co_uniform = uniform, co_ref_counted = ref_counted,
                     co_compression = c, co_btree_index = btree_index\<rparr>)))"

section \<open>Database options and metadata\<close>

definition CURRENT_VERSION :: u32 where [simp]: "CURRENT_VERSION = 8"
definition LAST_SUPPORTED_VERSION :: u32 where [simp]: "LAST_SUPPORTED_VERSION = 4"
definition DEFAULT_COMPRESSION_THRESHOLD :: u32 where [simp]: "DEFAULT_COMPRESSION_THRESHOLD = 4096"

type_synonym salt = bytes

record options =
  op_columns :: "column_options list"
  op_sync_wal :: bool
  op_sync_data :: bool
  op_stats :: bool
  op_salt :: "salt option"
  op_compression_threshold :: "(u8 \<times> u32) list"

definition options_with_columns :: "u8 \<Rightarrow> options" where
  "options_with_columns num_columns =
     \<lparr>op_columns = replicate (unat num_columns) column_options_default, op_sync_wal = True,
      op_sync_data = True, op_stats = True, op_salt = None, op_compression_threshold = []\<rparr>"

record metadata =
  md_salt :: salt
  md_version :: u32
  md_columns :: "column_options list"

record hex_codec =
  hx_encode :: "bytes \<Rightarrow> string"
  hx_decode :: "string \<Rightarrow> bytes option"

definition options_is_valid :: "options \<Rightarrow> bool" where
  "options_is_valid opt = list_all co_is_valid (op_columns opt)"

definition metadata_text :: "hex_codec \<Rightarrow> options \<Rightarrow> salt \<Rightarrow> u32 option \<Rightarrow> string" where
  "metadata_text hx opt salt version =
     join_str [CHR 0x0A]
       ([''version='' @ show_nat (unat (case version of Some v \<Rightarrow> v | None \<Rightarrow> CURRENT_VERSION)),
         ''salt='' @ hx_encode hx salt] @
        map (\<lambda>i. ''col'' @ show_nat i @ ''='' @ as_string (op_columns opt ! i)) [0..<length (op_columns opt)])"

definition strip_cr :: "string \<Rightarrow> string" where
  "strip_cr l = (if l \<noteq> [] \<and> last l = CHR 0x0D then butlast l else l)"

text \<open>\<open>BufRead::lines\<close>: no line after a final newline, a carriage return before it removed.\<close>

definition lines_of :: "string \<Rightarrow> string list" where
  "lines_of s =
     (let ls = split_str [CHR 0x0A] s in
      map strip_cr (if last ls = [] then butlast ls else ls))"

type_synonym load_state = "salt option \<times> column_options list \<times> u32"

definition load_line :: "hex_codec \<Rightarrow> string \<Rightarrow> load_state \<Rightarrow> load_state result" where
  "load_line hx l = (\<lambda>(salt, columns, version).
     case pair_of (split_str ''='' l) of
       None \<Rightarrow> Err (Corruption ''Bad metadata'')
     | Some (k, v) \<Rightarrow>
         (if k = ''version'' then
            (case parse_uint (2 ^ 32) v of
               Some n \<Rightarrow> Ok (salt, columns, word_of_nat n)
             | None \<Rightarrow> Err (Corruption ''Bad version string''))
          else if k = ''salt'' then
            (case hx_decode hx v of
               None \<Rightarrow> Err (Corruption ''Bad salt string'')
             | Some s \<Rightarrow> if length s = 32 then Ok (Some s, columns, version) else Panic)
          else if take 3 k = ''col'' then
            and_then (from_string v) (\<lambda>c.
              case c of None \<Rightarrow> Err (Corruption ''Bad column metadata'')
                      | Some col \<Rightarrow> Ok (salt, columns @ [col], version))
          else Ok (salt, columns, version)))"

fun load_lines :: "hex_codec \<Rightarrow> string list \<Rightarrow> load_state \<Rightarrow> load_state result" where
  "load_lines hx [] st = Ok st"
| "load_lines hx (l # ls) st = and_then (load_line hx l st) (load_lines hx ls)"

definition load_metadata_file :: "hex_codec \<Rightarrow> string option \<Rightarrow> metadata option result" where
  "load_metadata_file hx file =
     (case file of
        None \<Rightarrow> Ok None
      | Some text \<Rightarrow>
          and_then (load_lines hx (lines_of text) (None, [], 0)) (\<lambda>(salt, columns, version).
          if version < LAST_SUPPORTED_VERSION
          then Err (InvalidConfiguration ''Unsupported database version'')
          else case salt of
                 None \<Rightarrow> Err (InvalidConfiguration ''Missing salt value'')
               | Some s \<Rightarrow> Ok (Some \<lparr>md_salt = s, md_version = version, md_columns = columns\<rparr>)))"

text \<open>
  The result is the metadata together with the content of the metadata file afterwards; \<open>rnd\<close>
  is the salt that the random generator gives.
\<close>

definition load_and_validate_metadata ::
    "hex_codec \<Rightarrow> salt \<Rightarrow> options \<Rightarrow> bool \<Rightarrow> string option \<Rightarrow> (metadata \<times> string option) result" where
  "load_and_validate_metadata hx rnd opt create file =
     and_then (load_metadata_file hx file) (\<lambda>meta.
     case meta of
       Some meta \<Rightarrow>
         (if length (md_columns meta) \<noteq> length (op_columns opt)
          then Err (InvalidConfiguration ''Column config mismatch'')
          else case List.find (\<lambda>c. md_columns meta ! c \<noteq> op_columns opt ! c) [0..<length (md_columns meta)] of
                 Some c \<Rightarrow> Err (IncompatibleColumnConfig (word_of_nat c) ''Column config mismatch'')
               | None \<Rightarrow> Ok (meta, file))
     | None \<Rightarrow>
         (if create then
            (let s = (case op_salt opt of Some s \<Rightarrow> s | None \<Rightarrow> rnd)
             in Ok (\<lparr>md_salt = s, md_version = CURRENT_VERSION, md_columns = op_columns opt\<rparr>,
                    Some (metadata_text hx opt s None)))
          else Err DatabaseNotFound))"

section \<open>Splitting\<close>

lemma split_go_none:
  "x \<in> set sep \<Longrightarrow> x \<notin> set s \<Longrightarrow> length s < fuel \<Longrightarrow> split_go sep fuel acc s = [rev acc @ s]"
proof (induction fuel arbitrary: acc s)
  case (Suc fuel)
  have "take (length sep) s \<noteq> sep" using Suc.prems(1,2) by (metis in_set_takeD)
  with Suc show ?case by (cases s) auto
qed simp

lemma split_str_none: "x \<in> set sep \<Longrightarrow> x \<notin> set s \<Longrightarrow> split_str sep s = [s]"
  using split_go_none [of x sep s "Suc (length s)" "[]"] by (simp add: split_str_def)

lemma split_go_fuel:
  assumes "sep \<noteq> []"
  shows "length s < fuel \<Longrightarrow> length s < fuel' \<Longrightarrow> split_go sep fuel acc s = split_go sep fuel' acc s"
proof (induction fuel arbitrary: fuel' acc s)
  case (Suc fuel)
  then obtain f' where f': "fuel' = Suc f'" by (cases fuel') auto
  have l: "0 < length sep" using assms by simp
  show ?case
  proof (cases "take (length sep) s = sep")
    case True
    then have "length sep \<le> length s" by (metis length_take min.cobounded1)
    with Suc.prems f' l have "length s - length sep < fuel" "length s - length sep < f'" by linarith+
    then have "length (drop (length sep) s) < fuel" "length (drop (length sep) s) < f'" by simp_all
    from Suc.IH [OF this] True f' show ?thesis by simp
  next
    case False
    show ?thesis
    proof (cases s)
      case (Cons c cs)
      then have "split_go sep fuel (c # acc) cs = split_go sep f' (c # acc) cs"
        using Suc.prems f' by (intro Suc.IH) simp_all
      with False Cons f' show ?thesis by simp
    qed (use False f' in simp)
  qed
qed simp

lemma split_go_sep:
  assumes "sep = x # sep'"
  shows "x \<notin> set a \<Longrightarrow> length (a @ sep @ b) < fuel \<Longrightarrow>
    split_go sep fuel acc (a @ sep @ b) = (rev acc @ a) # split_str sep b"
proof (induction a arbitrary: fuel acc)
  case Nil
  then obtain f where f: "fuel = Suc f" by (cases fuel) auto
  have "split_go sep f [] b = split_go sep (Suc (length b)) [] b"
    using Nil f assms by (intro split_go_fuel) auto
  with f show ?case by (simp add: split_str_def)
next
  case (Cons c a)
  then obtain f where f: "fuel = Suc f" by (cases fuel) auto
  have "take (length sep) (c # a @ sep @ b) \<noteq> sep" using Cons.prems(1) assms by auto
  with Cons f show ?case by simp
qed

lemma split_str_sep:
  "x \<notin> set a \<Longrightarrow> split_str (x # sep') (a @ (x # sep') @ b) = a # split_str (x # sep') b"
  using split_go_sep [of "x # sep'" x sep' a b "Suc (length (a @ (x # sep') @ b))" "[]"]
  by (simp add: split_str_def)

lemma split_join:
  "ls \<noteq> [] \<Longrightarrow> (\<forall>l\<in>set ls. x \<notin> set l) \<Longrightarrow> split_str (x # sep') (join_str (x # sep') ls) = ls"
proof (induction "x # sep'" ls rule: join_str.induct)
  case (2 y)
  then show ?case using split_str_none [of x "x # sep'" y] by simp
next
  case (3 y z ys)
  then show ?case using split_str_sep [of x y sep' "join_str (x # sep') (z # ys)"] by simp
qed simp

section \<open>Round trips\<close>

lemma digit_val_digit: "d < 10 \<Longrightarrow> digit_val (digit d) = Some d"
  by (simp add: digit_val_def digit_def)

lemma parse_digits_append:
  "parse_digits acc (xs @ ys) = Option.bind (parse_digits acc xs) (\<lambda>a. parse_digits a ys)"
  by (induction xs arbitrary: acc) (auto split: Option.bind_splits)

lemma parse_show_digits: "parse_digits 0 (show_nat n) = Some n"
proof (induction n rule: show_nat.induct)
  case (1 n)
  then show ?case
    by (subst show_nat.simps) (simp add: parse_digits_append digit_val_digit)
qed

lemma show_nat_chars: "c \<in> set (show_nat n) \<Longrightarrow> c \<in> digit ` {..<10}"
proof (induction n rule: show_nat.induct)
  case (1 n)
  then show ?case by (subst (asm) show_nat.simps) (auto split: if_splits)
qed

lemma digit_not:
  "d < 10 \<Longrightarrow> digit d \<noteq> CHR ''+''" "d < 10 \<Longrightarrow> digit d \<noteq> CHR ''=''" "d < 10 \<Longrightarrow> digit d \<noteq> CHR 0x0A"
  "d < 10 \<Longrightarrow> digit d \<noteq> CHR 0x0D" "d < 10 \<Longrightarrow> digit d \<noteq> CHR '',''" "d < 10 \<Longrightarrow> digit d \<noteq> CHR '':''"
  "d < 10 \<Longrightarrow> digit d \<noteq> CHR ''z''"
proof -
  assume d: "d < 10"
  have e: "of_char (digit d) = 48 + d" using d by (simp add: digit_def)
  show "digit d \<noteq> CHR ''+''" "digit d \<noteq> CHR ''=''" "digit d \<noteq> CHR 0x0A" "digit d \<noteq> CHR 0x0D"
    "digit d \<noteq> CHR '',''" "digit d \<noteq> CHR '':''" "digit d \<noteq> CHR ''z''"
    using e d by (auto simp del: of_char_Char dest!: arg_cong [where f = "of_char :: char \<Rightarrow> nat"]) auto
qed

lemma show_nat_ne: "show_nat n \<noteq> []"
  by (subst show_nat.simps) simp

lemma parse_uint_show: "n < bound \<Longrightarrow> parse_uint bound (show_nat n) = Some n"
proof -
  assume n: "n < bound"
  obtain c cs where c: "show_nat n = c # cs" using show_nat_ne [of n] by (cases "show_nat n") auto
  then have "c \<in> digit ` {..<10}" using show_nat_chars [of c n] by simp
  then have "c \<noteq> CHR ''+''" using digit_not(1) by auto
  then have "(case show_nat n of CHR ''+'' # cs \<Rightarrow> cs | _ \<Rightarrow> show_nat n) = show_nat n"
    unfolding c by (simp split: char.split bool.split)
  then show ?thesis using n show_nat_ne [of n] parse_show_digits [of n] by (simp add: parse_uint_def Let_def)
qed

lemma show_nat_digit: "n < 10 \<Longrightarrow> show_nat n = [digit n]"
  by (simp add: show_nat.simps)

definition option_pairs :: "column_options \<Rightarrow> (string \<times> string) list" where
  "option_pairs o' =
     [(''preimage'', show_bool (co_preimage o')), (''uniform'', show_bool (co_uniform o')),
      (''refc'', show_bool (co_ref_counted o')),
      (''compression'', show_nat (unat (compression_to_u8 (co_compression o')))),
      (''ordered'', show_bool (co_btree_index o'))]"

lemma as_string_join: "as_string o' = join_str '', '' (map (\<lambda>(k, v). k @ '': '' @ v) (option_pairs o'))"
  by (simp add: as_string_def option_pairs_def)

lemma show_bool_chars: "set (show_bool b) \<subseteq> set ''truefalse''"
  by (simp add: show_bool_def)

lemma show_nat_free: "c \<notin> digit ` {..<10} \<Longrightarrow> c \<notin> set (show_nat n)"
  using show_nat_chars by blast

lemma not_digit: "CHR '','' \<notin> digit ` {..<10}" "CHR '':'' \<notin> digit ` {..<10}" "CHR ''z'' \<notin> digit ` {..<10}"
  "CHR ''='' \<notin> digit ` {..<10}" "CHR 0x0A \<notin> digit ` {..<10}" "CHR 0x0D \<notin> digit ` {..<10}"
  using digit_not by (auto simp: image_iff) metis+

lemma option_pairs_chars:
  assumes "(k, v) \<in> set (option_pairs o')" "c \<in> set '',:z=''  \<union> {CHR 0x0A, CHR 0x0D}"
  shows "c \<notin> set k" "c \<notin> set v"
proof -
  have "c \<notin> digit ` {..<10}" using assms(2) by (auto simp: digit_not)
  then have n: "c \<notin> set (show_nat n)" for n by (rule show_nat_free)
  have b: "c \<notin> set (show_bool b)" for b using assms(2) by (auto simp: show_bool_def)
  have k: "c \<notin> set ''preimageuniformrefccompressionordered''" using assms(2) by auto
  show "c \<notin> set k" using assms(1) k by (auto simp: option_pairs_def)
  show "c \<notin> set v" using assms(1) n b by (auto simp: option_pairs_def)
qed

lemma split_option_pair:
  "(k, v) \<in> set (option_pairs o') \<Longrightarrow> pair_of (split_str '': '' (k @ '': '' @ v)) = Some (k, v)"
  using split_str_sep [of "CHR '':''" k "'' ''" v] split_str_none [of "CHR '':''" "'': ''" v]
    option_pairs_chars [of k v o' "CHR '':''"] by simp

lemma as_string_free:
  assumes "c \<in> set ''z='' \<union> {CHR 0x0A, CHR 0x0D}"
  shows "c \<notin> set (as_string o')"
proof -
  have "c \<notin> digit ` {..<10}" using assms by (auto simp: digit_not)
  then have n: "c \<notin> set (show_nat n)" for n by (rule show_nat_free)
  have b: "c \<notin> set (show_bool b)" for b using assms by (auto simp: show_bool_def)
  have k: "c \<notin> set ''preimageuniformrefccompressionordered:, ''" using assms by auto
  show ?thesis using k n b by (auto simp: as_string_def)
qed

lemma map_filter_option_pairs:
  "set xs \<subseteq> set (option_pairs o') \<Longrightarrow>
   List.map_filter (\<lambda>p. pair_of (split_str '': '' p)) (map (\<lambda>(k, v). k @ '': '' @ v) xs) = xs"
  by (induction xs) (auto simp: List.map_filter_simps split_option_pair [of _ _ o', simplified])

lemma vals_map_as_string: "vals_map (as_string o') = map_of (rev (option_pairs o'))"
proof -
  have "split_str '', '' (as_string o') = map (\<lambda>(k, v). k @ '': '' @ v) (option_pairs o')"
    unfolding as_string_join
    using option_pairs_chars [of _ _ o' "CHR '',''"] by (intro split_join) (auto simp: option_pairs_def)
  then show ?thesis unfolding vals_map_def
    by (simp only: map_filter_option_pairs [of _ o', OF subset_refl])
qed

lemma from_string_as_string: "from_string (as_string o') = Ok (Some o')"
proof -
  have h: "hd (split_str ''sizes: '' (as_string o')) = as_string o'"
    using split_str_none [of "CHR ''z''" "''sizes: ''" "as_string o'"] as_string_free [of "CHR ''z''" o'] by simp
  have b: "\<And>b. parse_bool (show_bool b) = Some b" by (simp add: parse_bool_def show_bool_def)
  have c: "parse_uint 256 (show_nat (unat (compression_to_u8 (co_compression o')))) =
      Some (unat (compression_to_u8 (co_compression o')))"
    using parse_uint_show unsigned_less [of "compression_to_u8 (co_compression o')"] by simp
  show ?thesis unfolding from_string_def h vals_map_as_string
    by (simp add: option_pairs_def b c Let_def compression_u8_roundtrip)
qed


definition hex_ok :: "hex_codec \<Rightarrow> salt \<Rightarrow> bool" where
  "hex_ok hx s \<longleftrightarrow> hx_decode hx (hx_encode hx s) = Some s \<and>
     list_all (\<lambda>c. c \<noteq> CHR ''='' \<and> c \<noteq> CHR 0x0A \<and> c \<noteq> CHR 0x0D) (hx_encode hx s)"

lemma pair_of_split_eq:
  "CHR ''='' \<notin> set k \<Longrightarrow> CHR ''='' \<notin> set v \<Longrightarrow> pair_of (split_str ''='' (k @ ''='' @ v)) = Some (k, v)"
  using split_str_sep [of "CHR ''=''" k "[]" v] split_str_none [of "CHR ''=''" "''=''" v] by simp

definition col_line :: "options \<Rightarrow> nat \<Rightarrow> string" where
  "col_line opt i = (''col'' @ show_nat i) @ ''='' @ as_string (op_columns opt ! i)"

lemma load_line_col:
  "load_line hx (col_line opt i) (salt, columns, version) = Ok (salt, columns @ [op_columns opt ! i], version)"
proof -
  have "pair_of (split_str ''='' (col_line opt i)) = Some (''col'' @ show_nat i, as_string (op_columns opt ! i))"
    unfolding col_line_def
    using show_nat_free [OF not_digit(4), of i] as_string_free [of "CHR ''=''" "op_columns opt ! i"]
    by (intro pair_of_split_eq) auto
  then show ?thesis by (simp add: load_line_def from_string_as_string)
qed

lemma load_lines_append: "load_lines hx (xs @ ys) st = and_then (load_lines hx xs st) (load_lines hx ys)"
  by (induction xs arbitrary: st) (simp_all add: and_then_def split: result.splits)

lemma load_lines_cols:
  "n \<le> length (op_columns opt) \<Longrightarrow>
   load_lines hx (map (col_line opt) [0..<n]) (salt, [], version) = Ok (salt, take n (op_columns opt), version)"
  by (induction n) (simp_all add: load_lines_append load_line_col take_Suc_conv_app_nth)

lemma load_line_version:
  "load_line hx (''version='' @ show_nat (unat (v :: u32))) (salt, cs, v0) = Ok (salt, cs, v)"
proof -
  have "pair_of (split_str ''='' (''version'' @ ''='' @ show_nat (unat v))) = Some (''version'', show_nat (unat v))"
    using show_nat_free [OF not_digit(4), of "unat v"] by (intro pair_of_split_eq) auto
  moreover have "parse_uint (2 ^ 32) (show_nat (unat v)) = Some (unat v)"
    using parse_uint_show unsigned_less [of v] by simp
  ultimately show ?thesis by (simp add: load_line_def)
qed

lemma load_line_salt:
  "hex_ok hx s \<Longrightarrow> length s = 32 \<Longrightarrow>
   load_line hx (''salt='' @ hx_encode hx s) (salt, cs, v) = Ok (Some s, cs, v)"
proof -
  assume h: "hex_ok hx s" "length s = 32"
  have "pair_of (split_str ''='' (''salt'' @ ''='' @ hx_encode hx s)) = Some (''salt'', hx_encode hx s)"
    using h(1) by (intro pair_of_split_eq) (auto simp: hex_ok_def list_all_iff)
  with h show ?thesis by (simp add: load_line_def hex_ok_def)
qed

lemma strip_cr_free: "CHR 0x0D \<notin> set l \<Longrightarrow> strip_cr l = l"
  by (metis last_in_set strip_cr_def)

lemma lines_of_join:
  assumes "ls \<noteq> []" "\<forall>l\<in>set ls. l \<noteq> [] \<and> CHR 0x0A \<notin> set l \<and> CHR 0x0D \<notin> set l"
  shows "lines_of (join_str [CHR 0x0A] ls) = ls"
proof -
  have "split_str [CHR 0x0A] (join_str [CHR 0x0A] ls) = ls" using assms by (intro split_join) auto
  moreover have "last ls \<noteq> []" using assms last_in_set by blast
  moreover have "map strip_cr ls = ls" using assms by (auto intro: map_idI strip_cr_free)
  ultimately show ?thesis by (simp add: lines_of_def Let_def)
qed

lemma load_metadata_roundtrip:
  assumes hx: "hex_ok hx s" and len: "length s = 32"
    and v: "LAST_SUPPORTED_VERSION \<le> (case version of Some v \<Rightarrow> v | None \<Rightarrow> CURRENT_VERSION)"
  shows "load_metadata_file hx (Some (metadata_text hx opt s version)) =
    Ok (Some \<lparr>md_salt = s, md_version = (case version of Some v \<Rightarrow> v | None \<Rightarrow> CURRENT_VERSION),
              md_columns = op_columns opt\<rparr>)"
proof -
  define v' where "v' = (case version of Some v \<Rightarrow> v | None \<Rightarrow> CURRENT_VERSION)"
  define vl where "vl = ''version='' @ show_nat (unat v')"
  define sl where "sl = ''salt='' @ hx_encode hx s"
  define cl where "cl = map (col_line opt) [0..<length (op_columns opt)]"
  have t: "metadata_text hx opt s version = join_str [CHR 0x0A] ([vl, sl] @ cl)"
    by (simp add: metadata_text_def vl_def sl_def cl_def v'_def col_line_def cong: map_cong)
  have n: "CHR 0x0A \<notin> set (show_nat n)" "CHR 0x0D \<notin> set (show_nat n)" for n
    using show_nat_free not_digit(5,6) by blast+
  have a: "CHR 0x0A \<notin> set (as_string c)" "CHR 0x0D \<notin> set (as_string c)" for c
    by (auto intro!: as_string_free)
  have "lines_of (metadata_text hx opt s version) = [vl, sl] @ cl" unfolding t
    using hx n a by (intro lines_of_join) (auto simp: vl_def sl_def cl_def col_line_def hex_ok_def list_all_iff)
  moreover have "load_lines hx ([vl, sl] @ cl) (None, [], 0) = Ok (Some s, op_columns opt, v')"
    using load_lines_cols [of _ opt hx "Some s" v', OF order.refl]
    by (simp add: vl_def sl_def cl_def load_line_version [simplified] load_line_salt [OF hx len, simplified])
  ultimately show ?thesis using v by (simp add: load_metadata_file_def v'_def [symmetric] not_less)
qed

end
