(* ===== verification/Stats.thy ===== *)
theory Stats
  imports Index_Table
begin

text \<open>
  Column statistics (src/src/stats.rs) and their place in the header of an index file
  (src/src/index.rs, \<open>load_stats\<close> and \<open>write_stats\<close>). The atomics are fields with wrapping
  arithmetic; an \<open>i64\<close> is its two's complement word. The text report is not modelled.
\<close>

definition HISTOGRAM_BUCKETS :: nat where [simp]: "HISTOGRAM_BUCKETS = 1024"
definition TOTAL_SIZE :: nat where [simp]: "TOTAL_SIZE = 4 * 1024 + 8 * 1024 + 8 * 256 + 8 * 13"

record column_stats =
  st_value_histogram :: "u32 list"
  st_query_histogram :: "u64 list"
  st_oversized :: u64
  st_oversized_bytes :: u64
  st_total_values :: u64
  st_total_bytes :: u64
  st_commits :: u64
  st_inserted_new :: u64
  st_inserted_overwrite :: u64
  st_reference_increase_hit :: u64
  st_reference_increase_miss :: u64
  st_removed_hit :: u64
  st_removed_miss :: u64
  st_queries_miss :: u64
  st_uncompressed_bytes :: u64
  st_compression_delta :: "u64 list"

definition st_read_u32 :: "bytes \<Rightarrow> (u32 \<times> bytes) result" where
  "st_read_u32 c = (if 4 \<le> length c then Ok (u32_from_le (take 4 c), drop 4 c) else Panic)"

definition st_read_u64 :: "bytes \<Rightarrow> (u64 \<times> bytes) result" where
  "st_read_u64 c = (if 8 \<le> length c then Ok (u64_from_le (take 8 c), drop 8 c) else Panic)"

fun repeat_read :: "(bytes \<Rightarrow> ('a \<times> bytes) result) \<Rightarrow> nat \<Rightarrow> bytes \<Rightarrow> ('a list \<times> bytes) result" where
  "repeat_read f 0 c = Ok ([], c)"
| "repeat_read f (Suc n) c =
     and_then (f c) (\<lambda>(x, c). and_then (repeat_read f n c) (\<lambda>(xs, c). Ok (x # xs, c)))"

definition value_histogram_index :: "u32 \<Rightarrow> nat option" where
  "value_histogram_index sz =
     (let bucket = unat sz div 32 in if bucket < HISTOGRAM_BUCKETS then Some bucket else None)"

definition stats_from_slice :: "bytes \<Rightarrow> column_stats result" where
  "stats_from_slice data =
     and_then (repeat_read st_read_u32 HISTOGRAM_BUCKETS data) (\<lambda>(value_histogram, c).
     and_then (repeat_read st_read_u64 256 c) (\<lambda>(query_histogram, c).
     and_then (repeat_read st_read_u64 11 c) (\<lambda>(ws, c).
     and_then (repeat_read st_read_u64 HISTOGRAM_BUCKETS c) (\<lambda>(compression_delta, c).
     and_then (st_read_u64 c) (\<lambda>(reference_increase_hit, c).
     and_then (st_read_u64 c) (\<lambda>(reference_increase_miss, c).
       Ok \<lparr>st_value_histogram = value_histogram, st_query_histogram = query_histogram,
           st_oversized = ws ! 0, st_oversized_bytes = ws ! 1, st_total_values = ws ! 2,
           st_total_bytes = ws ! 3, st_commits = ws ! 4, st_inserted_new = ws ! 5,
           st_inserted_overwrite = ws ! 6, st_reference_increase_hit = reference_increase_hit,
           st_reference_increase_miss = reference_increase_miss, st_removed_hit = ws ! 7,
           st_removed_miss = ws ! 8, st_queries_miss = ws ! 9, st_uncompressed_bytes = ws ! 10,
           st_compression_delta = compression_delta\<rparr>))))))"

definition stats_empty :: column_stats where
  "stats_empty =
     \<lparr>st_value_histogram = replicate HISTOGRAM_BUCKETS 0, st_query_histogram = replicate 256 0,
      st_oversized = 0, st_oversized_bytes = 0, st_total_values = 0, st_total_bytes = 0,
      st_commits = 0, st_inserted_new = 0, st_inserted_overwrite = 0, st_reference_increase_hit = 0,
      st_reference_increase_miss = 0, st_removed_hit = 0, st_removed_miss = 0, st_queries_miss = 0,
      st_uncompressed_bytes = 0, st_compression_delta = replicate HISTOGRAM_BUCKETS 0\<rparr>"

definition stats_clear :: "column_stats \<Rightarrow> column_stats" where
  "stats_clear st =
     \<lparr>st_value_histogram = map (\<lambda>_. 0) (st_value_histogram st),
      st_query_histogram = map (\<lambda>_. 0) (st_query_histogram st),
      st_oversized = 0, st_oversized_bytes = 0, st_total_values = 0, st_total_bytes = 0,
      st_commits = 0, st_inserted_new = 0, st_inserted_overwrite = 0, st_reference_increase_hit = 0,
      st_reference_increase_miss = 0, st_removed_hit = 0, st_removed_miss = 0, st_queries_miss = 0,
      st_uncompressed_bytes = 0,
      st_compression_delta = map (\<lambda>_. 0) (st_compression_delta st)\<rparr>"

record stat_summary =
  ss_total_values :: u64
  ss_total_bytes :: u64
  ss_uncompressed_bytes :: u64

definition stats_summary :: "column_stats \<Rightarrow> stat_summary" where
  "stats_summary st =
     \<lparr>ss_total_values = st_total_values st, ss_total_bytes = st_total_bytes st,
      ss_uncompressed_bytes = st_uncompressed_bytes st\<rparr>"

definition stats_bytes :: "column_stats \<Rightarrow> bytes" where
  "stats_bytes st =
     concat (map u32_to_le (st_value_histogram st)) @
     concat (map u64_to_le (st_query_histogram st)) @
     concat (map u64_to_le
       [st_oversized st, st_oversized_bytes st, st_total_values st, st_total_bytes st,
        st_commits st, st_inserted_new st, st_inserted_overwrite st, st_removed_hit st,
        st_removed_miss st, st_queries_miss st, st_uncompressed_bytes st]) @
     concat (map u64_to_le (st_compression_delta st)) @
     u64_to_le (st_reference_increase_hit st) @ u64_to_le (st_reference_increase_miss st)"

definition stats_to_slice :: "column_stats \<Rightarrow> bytes \<Rightarrow> bytes result" where
  "stats_to_slice st data =
     (if length (stats_bytes st) \<le> length data then Ok (blit 0 (stats_bytes st) data) else Panic)"

section \<open>Counting\<close>

definition query_hit :: "u8 \<Rightarrow> column_stats \<Rightarrow> column_stats" where
  "query_hit tier st =
     st\<lparr>st_query_histogram := (st_query_histogram st)[unat tier := st_query_histogram st ! unat tier + 1]\<rparr>"

definition query_miss :: "column_stats \<Rightarrow> column_stats" where
  "query_miss st = st\<lparr>st_queries_miss := st_queries_miss st + 1\<rparr>"

definition stats_insert :: "u32 \<Rightarrow> u32 \<Rightarrow> column_stats \<Rightarrow> column_stats" where
  "stats_insert sz compressed st =
     (let st = (case value_histogram_index sz of
          Some i \<Rightarrow>
            st\<lparr>st_value_histogram := (st_value_histogram st)[i := st_value_histogram st ! i + 1],
               st_compression_delta := (st_compression_delta st)
                 [i := st_compression_delta st ! i + (ucast sz - ucast compressed)]\<rparr>
        | None \<Rightarrow>
            st\<lparr>st_oversized := st_oversized st + 1,
               st_oversized_bytes := st_oversized_bytes st + ucast compressed\<rparr>)
      in st\<lparr>st_total_values := st_total_values st + 1,
            st_total_bytes := st_total_bytes st + ucast compressed,
            st_uncompressed_bytes := st_uncompressed_bytes st + ucast sz\<rparr>)"

definition stats_remove :: "u32 \<Rightarrow> u32 \<Rightarrow> column_stats \<Rightarrow> column_stats" where
  "stats_remove sz compressed st =
     (let st = (case value_histogram_index sz of
          Some i \<Rightarrow>
            st\<lparr>st_value_histogram := (st_value_histogram st)[i := st_value_histogram st ! i - 1],
               st_compression_delta := (st_compression_delta st)
                 [i := st_compression_delta st ! i - (ucast sz - ucast compressed)]\<rparr>
        | None \<Rightarrow>
            st\<lparr>st_oversized := st_oversized st - 1,
               st_oversized_bytes := st_oversized_bytes st - ucast compressed\<rparr>)
      in st\<lparr>st_total_values := st_total_values st - 1,
            st_total_bytes := st_total_bytes st - ucast compressed,
            st_uncompressed_bytes := st_uncompressed_bytes st - ucast sz\<rparr>)"

definition insert_val :: "u32 \<Rightarrow> u32 \<Rightarrow> column_stats \<Rightarrow> column_stats" where
  "insert_val sz compressed st =
     stats_insert sz compressed (st\<lparr>st_inserted_new := st_inserted_new st + 1\<rparr>)"

definition remove_val :: "u32 \<Rightarrow> u32 \<Rightarrow> column_stats \<Rightarrow> column_stats" where
  "remove_val sz compressed st =
     stats_remove sz compressed (st\<lparr>st_removed_hit := st_removed_hit st + 1\<rparr>)"

definition reference_increase :: "column_stats \<Rightarrow> column_stats" where
  "reference_increase st = st\<lparr>st_reference_increase_hit := st_reference_increase_hit st + 1\<rparr>"

definition reference_increase_miss :: "column_stats \<Rightarrow> column_stats" where
  "reference_increase_miss st = st\<lparr>st_reference_increase_miss := st_reference_increase_miss st + 1\<rparr>"

definition remove_miss :: "column_stats \<Rightarrow> column_stats" where
  "remove_miss st = st\<lparr>st_removed_miss := st_removed_miss st + 1\<rparr>"

definition replace_val :: "u32 \<Rightarrow> u32 \<Rightarrow> u32 \<Rightarrow> u32 \<Rightarrow> column_stats \<Rightarrow> column_stats" where
  "replace_val old old_compressed new new_compressed st =
     stats_insert new new_compressed (stats_remove old old_compressed
       (st\<lparr>st_inserted_overwrite := st_inserted_overwrite st + 1\<rparr>))"

definition stats_commit :: "column_stats \<Rightarrow> column_stats" where
  "stats_commit st = st\<lparr>st_commits := st_commits st + 1\<rparr>"

section \<open>Statistics in the index file\<close>

definition load_stats :: "index_table \<Rightarrow> column_stats result" where
  "load_stats t =
     (case it_map t of
        Some m \<Rightarrow>
          (if HEADER_SIZE + TOTAL_SIZE \<le> length m
           then stats_from_slice (subslice HEADER_SIZE TOTAL_SIZE m) else Panic)
      | None \<Rightarrow> Ok stats_empty)"

definition write_stats :: "column_stats \<Rightarrow> index_table \<Rightarrow> index_table result" where
  "write_stats st t =
     (case it_map t of
        Some m \<Rightarrow>
          (if HEADER_SIZE + TOTAL_SIZE \<le> length m
           then and_then (stats_to_slice st (subslice HEADER_SIZE TOTAL_SIZE m)) (\<lambda>s.
                  Ok (t\<lparr>it_map := Some (blit HEADER_SIZE s m)\<rparr>))
           else Panic)
      | None \<Rightarrow> Ok t)"

section \<open>Round trip\<close>

definition stats_wf :: "column_stats \<Rightarrow> bool" where
  "stats_wf st \<longleftrightarrow> length (st_value_histogram st) = HISTOGRAM_BUCKETS \<and>
     length (st_query_histogram st) = 256 \<and> length (st_compression_delta st) = HISTOGRAM_BUCKETS"

lemma repeat_read_u32:
  "repeat_read st_read_u32 (length xs) (concat (map u32_to_le xs) @ rest) = Ok (xs, rest)"
  by (induction xs) (simp_all add: st_read_u32_def)

lemma repeat_read_u64:
  "repeat_read st_read_u64 (length xs) (concat (map u64_to_le xs) @ rest) = Ok (xs, rest)"
  by (induction xs) (simp_all add: st_read_u64_def)

lemma length_concat_le:
  "length (concat (map u32_to_le xs)) = 4 * length xs" "length (concat (map u64_to_le ys)) = 8 * length ys"
  by (induction xs, simp_all) (induction ys, simp_all)

lemma length_stats_bytes: "stats_wf st \<Longrightarrow> length (stats_bytes st) = TOTAL_SIZE"
  by (simp add: stats_bytes_def stats_wf_def length_concat_le)

lemma stats_from_bytes:
  assumes "stats_wf st"
  shows "stats_from_slice (stats_bytes st) = Ok st"
proof -
  let ?ws = "[st_oversized st, st_oversized_bytes st, st_total_values st, st_total_bytes st,
        st_commits st, st_inserted_new st, st_inserted_overwrite st, st_removed_hit st,
        st_removed_miss st, st_queries_miss st, st_uncompressed_bytes st]"
  have r: "repeat_read st_read_u32 HISTOGRAM_BUCKETS (concat (map u32_to_le (st_value_histogram st)) @ x) =
      Ok (st_value_histogram st, x)"
    "repeat_read st_read_u64 256 (concat (map u64_to_le (st_query_histogram st)) @ x) = Ok (st_query_histogram st, x)"
    "repeat_read st_read_u64 11 (concat (map u64_to_le ?ws) @ x) = Ok (?ws, x)"
    "repeat_read st_read_u64 HISTOGRAM_BUCKETS (concat (map u64_to_le (st_compression_delta st)) @ x) =
      Ok (st_compression_delta st, x)" for x
    using assms repeat_read_u32 [of "st_value_histogram st" x] repeat_read_u64 [of "st_query_histogram st" x]
      repeat_read_u64 [of "st_compression_delta st" x] repeat_read_u64 [of ?ws x]
    unfolding stats_wf_def by (simp_all only: list.size) (simp_all add: numeral_eq_Suc)
  have w: "st_read_u64 (u64_to_le a @ x) = Ok (a, x)" "st_read_u64 (u64_to_le a) = Ok (a, [])" for a x
    by (simp_all add: st_read_u64_def)
  show ?thesis
    unfolding stats_bytes_def stats_from_slice_def r and_then_simps prod.case w by simp
qed

end
