(* ===== verification/Meta_Props.thy ===== *)
theory Meta_Props
  imports Options_Meta Stats
begin

text \<open>
  The properties of the files around the tables: the metadata file with the options of the columns
  and the statistics block of an index file.
\<close>

text \<open>C40: Loading the metadata file that was written for a set of columns, a salt and a supported version
  gives back exactly these, for every hex codec that decodes what it encodes into characters other
  than the separators of the file.\<close>

theorem metadata_roundtrip:
  assumes "hex_ok hx s" "length s = 32"
    and "LAST_SUPPORTED_VERSION \<le> (case version of Some v \<Rightarrow> v | None \<Rightarrow> CURRENT_VERSION)"
  shows "load_metadata_file hx (Some (metadata_text hx opt s version)) =
    Ok (Some \<lparr>md_salt = s, md_version = (case version of Some v \<Rightarrow> v | None \<Rightarrow> CURRENT_VERSION),
              md_columns = op_columns opt\<rparr>)"
  by (rule load_metadata_roundtrip [OF assms])

text \<open>A codec with two letters for each byte.\<close>

definition nibble :: "nat \<Rightarrow> char" where
  "nibble n = char_of (97 + n :: nat)"

definition hex_letters :: "bytes \<Rightarrow> string" where
  "hex_letters bs = concat (map (\<lambda>b. [nibble (unat b div 16), nibble (unat b mod 16)]) bs)"

fun unhex_letters :: "string \<Rightarrow> bytes option" where
  "unhex_letters [] = Some []"
| "unhex_letters [c] = None"
| "unhex_letters (c # d # cs) =
     map_option ((#) (word_of_nat ((of_char c - 97) * 16 + (of_char d - 97)))) (unhex_letters cs)"

definition ex_hex :: hex_codec where
  "ex_hex = \<lparr>hx_encode = hex_letters, hx_decode = unhex_letters\<rparr>"

lemma unhex_hex: "unhex_letters (hex_letters bs) = Some bs"
proof (induction bs)
  case (Cons b bs)
  have u: "unat b < 256" using unsigned_less [of b] by simp
  have c: "of_char (nibble n) = (97 + n :: nat)" if "n < 16" for n using that by (simp add: nibble_def)
  have "unat b div 16 < 16" "unat b mod 16 < 16" using u by linarith+
  then have "(of_char (nibble (unat b div 16)) - 97) * 16 + (of_char (nibble (unat b mod 16)) - 97) = unat b"
    using c by (simp only: add_diff_cancel_left' div_mult_mod_eq)
  with Cons show ?case by (simp add: hex_letters_def)
qed (simp add: hex_letters_def)

theorem metadata_roundtrip_witness:
  "load_metadata_file ex_hex (Some (metadata_text ex_hex (options_with_columns 2) (replicate 32 0xab) None)) =
    Ok (Some \<lparr>md_salt = replicate 32 0xab, md_version = 8,
              md_columns = [column_options_default, column_options_default]\<rparr>)"
proof -
  have "hex_ok ex_hex (replicate 32 0xab)"
    using unhex_hex by (simp add: hex_ok_def ex_hex_def) (code_simp)
  moreover have "replicate 2 x = [x, x]" for x :: column_options by (simp add: numeral_2_eq_2)
  then have "op_columns (options_with_columns 2) = [column_options_default, column_options_default]"
    by (simp add: options_with_columns_def)
  ultimately show ?thesis using metadata_roundtrip [of ex_hex "replicate 32 0xab" None "options_with_columns 2"] by simp
qed

text \<open>The statistics written into the header of an index file are read back unchanged.\<close>

lemma stats_roundtrip:
  assumes "stats_wf st" "it_map t = Some m" "HEADER_SIZE + TOTAL_SIZE \<le> length m"
  shows "\<exists>t'. write_stats st t = Ok t' \<and> load_stats t' = Ok st \<and> it_id t' = it_id t"
proof -
  note l = length_stats_bytes [OF assms(1)]
  have "length (subslice HEADER_SIZE TOTAL_SIZE m) = TOTAL_SIZE"
    unfolding subslice_def using assms(3) by (simp del: TOTAL_SIZE_def)
  then have "stats_to_slice st (subslice HEADER_SIZE TOTAL_SIZE m) = Ok (stats_bytes st)"
    using l by (simp add: stats_to_slice_def blit_def del: TOTAL_SIZE_def)
  then have w: "write_stats st t = Ok (t\<lparr>it_map := Some (blit HEADER_SIZE (stats_bytes st) m)\<rparr>)"
    using assms(2,3) by (simp add: write_stats_def)
  have "load_stats (t\<lparr>it_map := Some (blit HEADER_SIZE (stats_bytes st) m)\<rparr>) = Ok st"
    using assms(3) l stats_from_bytes [OF assms(1)] subslice_blit_same [of HEADER_SIZE m TOTAL_SIZE "stats_bytes st"]
    by (simp add: load_stats_def del: TOTAL_SIZE_def HEADER_SIZE_def)
  with w show ?thesis by simp
qed

lemma list_update_undo: "xs[a := xs[a := xs ! a + d] ! a - d] = (xs :: 'a::group_add list)"
  by (cases "a < length xs") (simp_all add: list_update_beyond)

text \<open>Removing a value from the statistics undoes its insertion, wrapping arithmetic included.\<close>

lemma stats_remove_insert:
  "stats_remove sz csz (stats_insert sz csz st) = st"
  by (cases "value_histogram_index sz")
    (simp_all add: stats_remove_def stats_insert_def Let_def list_update_undo)

end
