(* ===== verification/Hash_Column.thy ===== *)
theory Hash_Column
  imports Value_Table Index_Table Stats Options_Meta
begin

text \<open>
  Hash columns (src/src/column.rs): an index table, the index tables that are still being
  re-indexed into it, and 256 value tables of growing entry size. A lookup goes from the hashed
  key through an index entry to the slot of a value table; a change is planned into the log
  record of the caller and enacted from the log later.

  The hash functions and the compression algorithms are third-party crates, passed in as
  \<open>hashers\<close> and \<open>codec\<close>. The fields behind locks and atomics are fields of the records; an
  operation returns the records it changed. The directory of the database is a function from
  table ids to file contents. Log messages are left out.
\<close>

section \<open>Constants and state\<close>

definition MIN_INDEX_BITS :: u8 where [simp]: "MIN_INDEX_BITS = 16"
definition MAX_REINDEX_BATCH :: nat where [simp]: "MAX_REINDEX_BATCH = 8192"

definition SIZES :: "u16 list" where
  "SIZES =
     [32, 33, 34, 35, 36, 37, 38, 39, 40, 41, 42, 43, 44, 46, 47, 48, 50, 51, 52, 54, 55, 57, 58,
      60, 62, 63, 65, 67, 69, 71, 73, 75, 77, 79, 81, 83, 85, 88, 90, 93, 95, 98, 101, 103, 106,
      109, 112, 115, 119, 122, 125, 129, 132, 136, 140, 144, 148, 152, 156, 160, 165, 169, 174,
      179, 183, 189, 194, 199, 205, 210, 216, 222, 228, 235, 241, 248, 255, 262, 269, 276, 284,
      292, 300, 308, 317, 325, 334, 344, 353, 363, 373, 383, 394, 405, 416, 428, 439, 452, 464,
      477, 490, 504, 518, 532, 547, 562, 577, 593, 610, 627, 644, 662, 680, 699, 718, 738, 758,
      779, 801, 823, 846, 869, 893, 918, 943, 969, 996, 1024, 1052, 1081, 1111, 1142, 1174, 1206,
      1239, 1274, 1309, 1345, 1382, 1421, 1460, 1500, 1542, 1584, 1628, 1673, 1720, 1767, 1816,
      1866, 1918, 1971, 2025, 2082, 2139, 2198, 2259, 2322, 2386, 2452, 2520, 2589, 2661, 2735,
      2810, 2888, 2968, 3050, 3134, 3221, 3310, 3402, 3496, 3593, 3692, 3794, 3899, 4007, 4118,
      4232, 4349, 4469, 4593, 4720, 4850, 4984, 5122, 5264, 5410, 5559, 5713, 5871, 6034, 6200,
      6372, 6548, 6729, 6916, 7107, 7303, 7506, 7713, 7927, 8146, 8371, 8603, 8841, 9085, 9337,
      9595, 9860, 10133, 10413, 10702, 10998, 11302, 11614, 11936, 12266, 12605, 12954, 13312,
      13681, 14059, 14448, 14848, 15258, 15681, 16114, 16560, 17018, 17489, 17973, 18470, 18981,
      19506, 20046, 20600, 21170, 21756, 22358, 22976, 23612, 24265, 24936, 25626, 26335, 27064,
      27812, 28582, 29372, 30185, 31020, 31878, 32760]"

record tables =
  tb_index :: index_table
  tb_value :: "value_table list"

record reindex =
  rx_queue :: "index_table list"
  rx_progress :: u64

record hash_column =
  hc_col :: u8
  hc_tables :: tables
  hc_reindex :: reindex
  hc_preimage :: bool
  hc_uniform_keys :: bool
  hc_collect_stats :: bool
  hc_ref_counted :: bool
  hc_salt :: salt
  hc_stats :: column_stats
  hc_compression :: compress
  hc_db_version :: u32

record tables_ref =
  tr_tables :: "value_table list"
  tr_compression :: compress
  tr_col :: u8
  tr_preimage :: bool
  tr_ref_counted :: bool

definition hc_as_ref :: "hash_column \<Rightarrow> tables_ref" where
  "hc_as_ref hc =
     \<lparr>tr_tables = tb_value (hc_tables hc), tr_compression = hc_compression hc, tr_col = hc_col hc,
      tr_preimage = hc_preimage hc, tr_ref_counted = hc_ref_counted hc\<rparr>"

text \<open>\<open>Operation\<close> of src/src/db.rs, the change a transaction asks for.\<close>

datatype ('k, 'v) operation = Set 'k 'v | Dereference 'k | Reference 'k

fun op_key :: "('k, 'v) operation \<Rightarrow> 'k" where
  "op_key (Set k _) = k"
| "op_key (Dereference k) = k"
| "op_key (Reference k) = k"

section \<open>Hashing\<close>

record hashers =
  hs_sip128 :: "bytes \<Rightarrow> bytes \<Rightarrow> u64 \<times> u64" \<comment> \<open>SipHash 1-3 with a 16 byte key\<close>
  hs_blake2 :: "bytes \<Rightarrow> bytes \<Rightarrow> bytes" \<comment> \<open>keyed Blake2b with 32 bytes of output\<close>

definition hash_key :: "hashers \<Rightarrow> bytes \<Rightarrow> salt \<Rightarrow> bool \<Rightarrow> u32 \<Rightarrow> key result" where
  "hash_key hs key salt uniform db_version =
     (if uniform then
        (if db_version \<le> 5 then
           and_then (assert_r (32 \<le> length key)) (\<lambda>_. Ok (take 32 key))
         else if db_version \<le> 7 then
           and_then (assert_r (32 \<le> length key)) (\<lambda>_. Ok (map2 (XOR) (take 32 key) salt))
         else
           (let (h1, h2) = hs_sip128 hs (take 16 salt) key
            in and_then (assert_r (length key = 32)) (\<lambda>_.
                 Ok (u64_to_le h1 @ u64_to_le h2 @ drop 16 key))))
      else Ok (hs_blake2 hs salt key))"

section \<open>Values of a column\<close>

definition get_value ::
    "codec \<Rightarrow> table_key_query \<Rightarrow> address \<Rightarrow> tables_ref \<Rightarrow> log_query \<Rightarrow> (u8 \<times> bytes) option result" where
  "get_value cd q address tables lq =
     (let size_tier = unat (addr_size_tier address) in
      and_then (assert_r (size_tier < length (tr_tables tables))) (\<lambda>_.
      and_then (vt_query (tr_tables tables ! size_tier) q (addr_offset address) lq) (\<lambda>r.
      case r of
        Some (value, compressed, _, _) \<Rightarrow>
          and_then (if compressed then cp_decompress cd (tr_compression tables) value else Ok value)
            (\<lambda>value. Ok (Some (word_of_nat size_tier, value)))
      | None \<Rightarrow> Ok None)))"

definition position :: "('a \<Rightarrow> bool) \<Rightarrow> 'a list \<Rightarrow> nat option" where
  "position p xs = List.find (\<lambda>i. p (xs ! i)) [0..<length xs]"

definition column_compress ::
    "codec \<Rightarrow> compress \<Rightarrow> table_key \<Rightarrow> bytes \<Rightarrow> value_table list \<Rightarrow> bytes option \<times> nat" where
  "column_compress cd compression k value tables =
     (let (len, result) =
        (if length value > unat (cp_threshold compression) then
           (let cvalue = cp_compress cd compression value in
            if length cvalue < length value then (length cvalue, Some cvalue)
            else (length value, None))
         else (length value, None))
      in (result,
          case position (\<lambda>t. case value_size t k of Some s \<Rightarrow> len \<le> s | None \<Rightarrow> False) tables of
            Some tier \<Rightarrow> tier
          | None \<Rightarrow> length tables - 1))"

definition fetch_size ::
    "codec \<Rightarrow> table_key \<Rightarrow> tables_ref \<Rightarrow> address \<Rightarrow> log_writer \<Rightarrow> (u32 \<times> u32) result" where
  "fetch_size cd k tables address w =
     (let tier = unat (addr_size_tier address); vt = tr_tables tables ! tier in
      and_then (vt_size vt k (addr_offset address) (writer_query w)) (\<lambda>sz.
      let (cur_size, compressed) = (case sz of Some p \<Rightarrow> p | None \<Rightarrow> (0, False)) in
      if compressed then
        and_then (vt_get vt k (addr_offset address) (writer_query w)) (\<lambda>r.
        case r of
          None \<Rightarrow> Panic
        | Some (compressed, _) \<Rightarrow>
            and_then (cp_decompress cd (tr_compression tables) compressed) (\<lambda>uncompressed.
              Ok (cur_size, word_of_nat (length uncompressed))))
      else Ok (cur_size, cur_size)))"

type_synonym plan_state = "value_table list \<times> log_writer \<times> column_stats option"

text \<open>The value that is stored and whether it is compressed.\<close>

definition stored_form :: "bytes option \<Rightarrow> bytes \<Rightarrow> bytes \<times> bool" where
  "stored_form cval val = (case cval of Some c \<Rightarrow> (c, True) | None \<Rightarrow> (val, False))"

definition write_existing_value_plan ::
    "codec \<Rightarrow> table_key \<Rightarrow> tables_ref \<Rightarrow> address \<Rightarrow> ('k, bytes) operation \<Rightarrow> log_writer
       \<Rightarrow> column_stats option \<Rightarrow> bool
       \<Rightarrow> ((plan_outcome option \<times> address option) \<times> plan_state) result" where
  "write_existing_value_plan cd k tables address change w stats ref_counted =
     (let tier = unat (addr_size_tier address); offset = addr_offset address; vts = tr_tables tables in
      and_then (assert_r (tier < length vts)) (\<lambda>_.
      case change of
        Reference _ \<Rightarrow>
          (if ref_counted then
             and_then (write_inc_ref (vts ! tier) offset w) (\<lambda>w.
               Ok ((Some Written, None), vts, w, map_option reference_increase stats))
           else Ok ((Some Skipped, None), vts, w, stats))
      | Set _ val \<Rightarrow>
          (if ref_counted then
             and_then (write_inc_ref (vts ! tier) offset w) (\<lambda>w.
               Ok ((Some Written, None), vts, w, stats))
           else if tr_preimage tables then Ok ((Some Skipped, None), vts, w, stats)
           else
             (let (cval, target_tier) = column_compress cd (tr_compression tables) k val vts;
                  (cval, compressed) = stored_form cval val
              in and_then
                   (case stats of
                      None \<Rightarrow> Ok None
                    | Some st \<Rightarrow>
                        and_then (fetch_size cd k tables address w) (\<lambda>(cur_size, uncompressed).
                          Ok (Some (replace_val cur_size uncompressed (word_of_nat (length val))
                                      (word_of_nat (length cval)) st)))) (\<lambda>stats.
                 if tier = target_tier then
                   and_then (write_replace_plan (vts ! target_tier) offset k cval w compressed) (\<lambda>(vt, w).
                     Ok ((Some Written, None), vts[target_tier := vt], w, stats))
                 else
                   and_then (write_remove_plan (vts ! tier) offset w) (\<lambda>(vt, w).
                   let vts = vts[tier := vt] in
                   and_then (write_insert_plan (vts ! target_tier) k cval w compressed) (\<lambda>(new_offset, vt, w).
                     Ok ((None, Some (addr_new new_offset (word_of_nat target_tier))),
                         vts[target_tier := vt], w, stats))))))
      | Dereference _ \<Rightarrow>
          and_then (case stats of
                      None \<Rightarrow> Ok None
                    | Some _ \<Rightarrow> and_then (fetch_size cd k tables address w) (\<lambda>s. Ok (Some s))) (\<lambda>cur_size.
          and_then
            (if ref_counted then
               and_then (write_dec_ref (vts ! tier) offset w) (\<lambda>(kept, vt, w). Ok (\<not> kept, vt, w))
             else
               and_then (write_remove_plan (vts ! tier) offset w) (\<lambda>(vt, w). Ok (True, vt, w)))
            (\<lambda>(remove, vt, w).
               let vts = vts[tier := vt] in
               if remove then
                 Ok ((None, None), vts, w,
                     (case cur_size of
                        Some (compressed_size, uncompressed_size) \<Rightarrow>
                          map_option (remove_val uncompressed_size compressed_size) stats
                      | None \<Rightarrow> stats))
               else Ok ((Some Written, None), vts, w, stats)))))"

definition write_new_value_plan ::
    "codec \<Rightarrow> table_key \<Rightarrow> tables_ref \<Rightarrow> bytes \<Rightarrow> log_writer \<Rightarrow> column_stats option
       \<Rightarrow> (address \<times> plan_state) result" where
  "write_new_value_plan cd k tables val w stats =
     (let (cval, target_tier) = column_compress cd (tr_compression tables) k val (tr_tables tables);
          (cval, compressed) = stored_form cval val
      in and_then (write_insert_plan (tr_tables tables ! target_tier) k cval w compressed)
           (\<lambda>(offset, vt, w).
              Ok (addr_new offset (word_of_nat target_tier),
                  (tr_tables tables)[target_tier := vt], w,
                  map_option (insert_val (word_of_nat (length val)) (word_of_nat (length cval))) stats)))"

section \<open>Opening\<close>

definition open_table :: "(u16 \<Rightarrow> bytes option) \<Rightarrow> u8 \<Rightarrow> u8 \<Rightarrow> column_options \<Rightarrow> u32 \<Rightarrow> value_table result" where
  "open_table vfiles col tier opt db_version =
     (let i = table_id_new col tier;
          entry_size = (if unat tier < length SIZES then Some (SIZES ! unat tier) else None)
      in vt_open (vfiles i) i entry_size (co_ref_counted opt) db_version)"

fun open_tables :: "(u16 \<Rightarrow> bytes option) \<Rightarrow> u8 \<Rightarrow> column_options \<Rightarrow> u32 \<Rightarrow> nat list \<Rightarrow> value_table list result" where
  "open_tables vfiles col opt db_version [] = Ok []"
| "open_tables vfiles col opt db_version (i # js) =
     and_then (open_table vfiles col (word_of_nat i) opt db_version) (\<lambda>t.
     and_then (open_tables vfiles col opt db_version js) (\<lambda>ts. Ok (t # ts)))"

fun open_index_loop ::
    "(u16 \<Rightarrow> bytes option) \<Rightarrow> u8 \<Rightarrow> nat list \<Rightarrow> index_table option \<times> index_table list \<times> column_stats
       \<Rightarrow> (index_table option \<times> index_table list \<times> column_stats) result" where
  "open_index_loop ifiles col [] st = Ok st"
| "open_index_loop ifiles col (bits # bs) (top_table, reindexing, stats) =
     (let i = index_id_new col (word_of_nat bits) in
      case it_open_existing (ifiles i) i of
        None \<Rightarrow> open_index_loop ifiles col bs (top_table, reindexing, stats)
      | Some table \<Rightarrow>
          (case top_table of
             None \<Rightarrow> and_then (load_stats table) (\<lambda>stats.
                       open_index_loop ifiles col bs (Some table, reindexing, stats))
           | Some _ \<Rightarrow> open_index_loop ifiles col bs (top_table, table # reindexing, stats)))"

definition open_index ::
    "(u16 \<Rightarrow> bytes option) \<Rightarrow> u8 \<Rightarrow> (index_table \<times> index_table list \<times> column_stats) result" where
  "open_index ifiles col =
     and_then (open_index_loop ifiles col (rev [unat MIN_INDEX_BITS..<65]) (None, [], stats_empty))
       (\<lambda>(top_table, reindexing, stats).
          Ok (case top_table of Some table \<Rightarrow> table | None \<Rightarrow> it_create_new (index_id_new col MIN_INDEX_BITS),
              reindexing, stats))"

definition hc_open ::
    "(u16 \<Rightarrow> bytes option) \<Rightarrow> u8 \<Rightarrow> value_table list \<Rightarrow> options \<Rightarrow> metadata \<Rightarrow> hash_column result" where
  "hc_open ifiles col value opt meta =
     and_then (open_index ifiles col) (\<lambda>(index, reindexing, stats).
     and_then (assert_r (unat col < length (md_columns meta))) (\<lambda>_.
     let col_options = md_columns meta ! unat col in
     Ok \<lparr>hc_col = col, hc_tables = \<lparr>tb_index = index, tb_value = value\<rparr>,
         hc_reindex = \<lparr>rx_queue = reindexing, rx_progress = 0\<rparr>,
         hc_preimage = co_preimage col_options, hc_uniform_keys = co_uniform col_options,
         hc_collect_stats = op_stats opt, hc_ref_counted = co_ref_counted col_options,
         hc_salt = md_salt meta, hc_stats = stats,
         hc_compression = compress_new (co_compression col_options)
           (case map_of (op_compression_threshold opt) col of
              Some t \<Rightarrow> t | None \<Rightarrow> DEFAULT_COMPRESSION_THRESHOLD),
         hc_db_version = md_version meta\<rparr>))"

definition hc_hash_key :: "hashers \<Rightarrow> hash_column \<Rightarrow> bytes \<Rightarrow> key result" where
  "hc_hash_key hs hc key = hash_key hs key (hc_salt hc) (hc_uniform_keys hc) (hc_db_version hc)"

definition hc_flush :: "hash_column \<Rightarrow> hash_column" where
  "hc_flush hc =
     hc\<lparr>hc_tables := \<lparr>tb_index = it_flush (tb_index (hc_tables hc)),
                      tb_value = map (\<lambda>t. t\<lparr>vt_file := tf_flush (vt_file t)\<rparr>) (tb_value (hc_tables hc))\<rparr>\<rparr>"

section \<open>Lookup\<close>

text \<open>
  The three searches of a chunk share one loop: the entries that match the key, in the order of
  the chunk, until \<open>visit\<close> gives an answer for the address of an entry.
\<close>

definition index_search ::
    "key \<Rightarrow> index_table \<Rightarrow> log_query \<Rightarrow> (nat \<Rightarrow> address \<Rightarrow> 'a option result) \<Rightarrow> 'a option result" where
  "index_search k index lq visit =
     and_then (it_get index k 0 lq) (\<lambda>start.
     loop_r (\<lambda>(e, sub_index).
       if entry_is_empty e then Ok (Inr None)
       else
         and_then (visit sub_index (entry_address e (ibits index))) (\<lambda>r.
         case r of
           Some x \<Rightarrow> Ok (Inr (Some x))
         | None \<Rightarrow> and_then (it_get index k (sub_index + 1) lq) (\<lambda>nxt. Ok (Inl nxt)))) start)"

definition get_in_index ::
    "codec \<Rightarrow> key \<Rightarrow> index_table \<Rightarrow> tables_ref \<Rightarrow> log_query \<Rightarrow> (u8 \<times> bytes) option result" where
  "get_in_index cd k index tables lq =
     index_search k index lq (\<lambda>_ address. get_value cd (Check (Partial k)) address tables lq)"

fun get_in_indexes ::
    "codec \<Rightarrow> key \<Rightarrow> index_table list \<Rightarrow> tables_ref \<Rightarrow> log_query \<Rightarrow> (u8 \<times> bytes) option result" where
  "get_in_indexes cd k [] tables lq = Ok None"
| "get_in_indexes cd k (index # queue) tables lq =
     and_then (get_in_index cd k index tables lq) (\<lambda>r.
     case r of Some x \<Rightarrow> Ok (Some x) | None \<Rightarrow> get_in_indexes cd k queue tables lq)"

text \<open>The value and the column, whose statistics count the query.\<close>

definition hc_get :: "codec \<Rightarrow> hash_column \<Rightarrow> key \<Rightarrow> log_query \<Rightarrow> (bytes option \<times> hash_column) result" where
  "hc_get cd hc k lq =
     and_then (get_in_indexes cd k (tb_index (hc_tables hc) # rx_queue (hc_reindex hc)) (hc_as_ref hc) lq)
       (\<lambda>r. case r of
          Some (tier, value) \<Rightarrow>
            Ok (Some value, if hc_collect_stats hc then hc\<lparr>hc_stats := query_hit tier (hc_stats hc)\<rparr> else hc)
        | None \<Rightarrow>
            Ok (None, if hc_collect_stats hc then hc\<lparr>hc_stats := query_miss (hc_stats hc)\<rparr> else hc))"

definition hc_get_size :: "codec \<Rightarrow> hash_column \<Rightarrow> key \<Rightarrow> log_query \<Rightarrow> (u32 option \<times> hash_column) result" where
  "hc_get_size cd hc k lq =
     and_then (hc_get cd hc k lq) (\<lambda>(v, hc). Ok (map_option (\<lambda>v. word_of_nat (length v)) v, hc))"

definition search_index ::
    "key \<Rightarrow> index_table \<Rightarrow> tables \<Rightarrow> log_writer \<Rightarrow> (index_table \<times> nat \<times> address) option result" where
  "search_index k index tables w =
     index_search k index (writer_query w) (\<lambda>sub_index address.
       let tier = unat (addr_size_tier address) in
       and_then (assert_r (tier < length (tb_value tables))) (\<lambda>_.
       and_then (has_key_at (tb_value tables ! tier) (addr_offset address) (Partial k) (writer_query w))
         (\<lambda>found. Ok (if found then Some (index, sub_index, address) else None))))"

definition contains_partial_key_with_address ::
    "key \<Rightarrow> address \<Rightarrow> index_table \<Rightarrow> log_writer \<Rightarrow> bool result" where
  "contains_partial_key_with_address k address index w =
     and_then
       (index_search k index (writer_query w) (\<lambda>_ existing. Ok (if existing = address then Some () else None)))
       (\<lambda>r. Ok (r \<noteq> None))"

fun search_indexes ::
    "key \<Rightarrow> index_table list \<Rightarrow> tables \<Rightarrow> log_writer \<Rightarrow> (index_table \<times> nat \<times> address) option result" where
  "search_indexes k [] tables w = Ok None"
| "search_indexes k (index # queue) tables w =
     and_then (search_index k index tables w) (\<lambda>r.
     case r of Some x \<Rightarrow> Ok (Some x) | None \<Rightarrow> search_indexes k queue tables w)"

definition search_all_indexes ::
    "key \<Rightarrow> tables \<Rightarrow> reindex \<Rightarrow> log_writer \<Rightarrow> (index_table \<times> nat \<times> address) option result" where
  "search_all_indexes k tables reindex w =
     search_indexes k (tb_index tables # rx_queue reindex) tables w"

section \<open>Planning\<close>

definition trigger_reindex :: "tables \<Rightarrow> reindex \<Rightarrow> tables \<times> reindex" where
  "trigger_reindex tables reindex =
     (let i = it_id (tb_index tables);
          new_table = it_create_new (index_id_new (index_id_col i) (index_id_bits i + 1))
      in (tables\<lparr>tb_index := new_table\<rparr>,
          reindex\<lparr>rx_queue := rx_queue reindex @ [tb_index tables]\<rparr>))"

text \<open>The loop of \<open>write_reindex_plan_locked\<close> and of \<open>write_plan_new\<close>.\<close>

definition insert_or_reindex ::
    "key \<Rightarrow> address \<Rightarrow> tables \<Rightarrow> reindex \<Rightarrow> log_writer
       \<Rightarrow> (plan_outcome \<times> tables \<times> reindex \<times> log_writer) result" where
  "insert_or_reindex k address tables reindex w =
     loop_r (\<lambda>(outcome, tables, reindex, w).
       and_then (it_write_insert_plan (tb_index tables) k address None w) (\<lambda>(r, w).
         case r of
           NeedReindex \<Rightarrow>
             (let (tables, reindex) = trigger_reindex tables reindex
              in Ok (Inl (NeedReindex, tables, reindex, w)))
         | _ \<Rightarrow> Ok (Inr (outcome, tables, reindex, w)))) (Written, tables, reindex, w)"

definition write_reindex_plan ::
    "hash_column \<Rightarrow> key \<Rightarrow> address \<Rightarrow> log_writer \<Rightarrow> (plan_outcome \<times> hash_column \<times> log_writer) result" where
  "write_reindex_plan hc k address w =
     and_then (contains_partial_key_with_address k address (tb_index (hc_tables hc)) w) (\<lambda>found.
     if found then Ok (Skipped, hc, w)
     else
       and_then (insert_or_reindex k address (hc_tables hc) (hc_reindex hc) w)
         (\<lambda>(outcome, tables, reindex, w).
            Ok (outcome, hc\<lparr>hc_tables := tables, hc_reindex := reindex\<rparr>, w)))"

definition hc_stats_opt :: "hash_column \<Rightarrow> column_stats option" where
  "hc_stats_opt hc = (if hc_collect_stats hc then Some (hc_stats hc) else None)"

text \<open>What a plan on the value tables leaves in the column.\<close>

definition hc_with_values :: "hash_column \<Rightarrow> value_table list \<Rightarrow> column_stats option \<Rightarrow> hash_column" where
  "hc_with_values hc vts stats =
     hc\<lparr>hc_tables := (hc_tables hc)\<lparr>tb_value := vts\<rparr>,
        hc_stats := (case stats of Some st \<Rightarrow> st | None \<Rightarrow> hc_stats hc)\<rparr>"

text \<open>
  \<open>index.write_remove_plan\<close> and \<open>tables.index.write_insert_plan\<close> leave the tables alone: their
  effect is in the log record.
\<close>

definition write_plan_existing ::
    "codec \<Rightarrow> hash_column \<Rightarrow> (key, bytes) operation \<Rightarrow> log_writer \<Rightarrow> index_table \<Rightarrow> nat \<Rightarrow> address
       \<Rightarrow> (plan_outcome \<times> hash_column \<times> log_writer) result" where
  "write_plan_existing cd hc change w index sub_index existing_address =
     (let k = op_key change in
      and_then (write_existing_value_plan cd (Partial k) (hc_as_ref hc) existing_address change w
                  (hc_stats_opt hc) (hc_ref_counted hc)) (\<lambda>(r, vts, w, stats).
      let hc = hc_with_values hc vts stats; top_table = tb_index (hc_tables hc) in
      case r of
        (Some outcome, _) \<Rightarrow> Ok (outcome, hc, w)
      | (None, Some value_address) \<Rightarrow>
          (let sub_index = (if it_id index = it_id top_table then Some sub_index else None) in
           and_then (it_write_insert_plan top_table k value_address sub_index w) (\<lambda>(outcome, w).
             Ok (outcome, hc, w)))
      | (None, None) \<Rightarrow>
          and_then (it_write_remove_plan index k sub_index w) (\<lambda>(_, w). Ok (Written, hc, w))))"

definition write_plan_new ::
    "codec \<Rightarrow> hash_column \<Rightarrow> key \<Rightarrow> bytes \<Rightarrow> log_writer \<Rightarrow> (plan_outcome \<times> hash_column \<times> log_writer) result" where
  "write_plan_new cd hc k value w =
     and_then (write_new_value_plan cd (Partial k) (hc_as_ref hc) value w (hc_stats_opt hc))
       (\<lambda>(address, vts, w, stats).
     let hc = hc_with_values hc vts stats in
     and_then (insert_or_reindex k address (hc_tables hc) (hc_reindex hc) w)
       (\<lambda>(outcome, tables, reindex, w).
          Ok (outcome, hc\<lparr>hc_tables := tables, hc_reindex := reindex\<rparr>, w)))"

definition hc_write_plan ::
    "codec \<Rightarrow> hash_column \<Rightarrow> (key, bytes) operation \<Rightarrow> log_writer
       \<Rightarrow> (plan_outcome \<times> hash_column \<times> log_writer) result" where
  "hc_write_plan cd hc change w =
     and_then (search_all_indexes (op_key change) (hc_tables hc) (hc_reindex hc) w) (\<lambda>existing.
     case existing of
       Some (table, sub_index, existing_address) \<Rightarrow>
         write_plan_existing cd hc change w table sub_index existing_address
     | None \<Rightarrow>
         (case change of
            Set k value \<Rightarrow> write_plan_new cd hc k value w
          | Dereference _ \<Rightarrow>
              Ok (Skipped, if hc_collect_stats hc then hc\<lparr>hc_stats := remove_miss (hc_stats hc)\<rparr> else hc, w)
          | Reference _ \<Rightarrow>
              Ok (Skipped, if hc_collect_stats hc
                           then hc\<lparr>hc_stats := reference_increase_miss (hc_stats hc)\<rparr> else hc, w)))"

section \<open>Enacting and validating\<close>

definition hc_find_index :: "hash_column \<Rightarrow> u16 \<Rightarrow> nat option" where
  "hc_find_index hc table = position (\<lambda>r. it_id r = table) (rx_queue (hc_reindex hc))"

definition hc_enact_plan ::
    "hash_column \<Rightarrow> log_action \<Rightarrow> log_reader \<Rightarrow> (hash_column \<times> log_reader) result" where
  "hc_enact_plan hc action r =
     (let tables = hc_tables hc; reindex = hc_reindex hc in
      case action of
        InsertIndex table index \<Rightarrow>
          (if it_id (tb_index tables) = table then
             and_then (it_enact_plan (tb_index tables) index r) (\<lambda>(t, r).
               Ok (hc\<lparr>hc_tables := tables\<lparr>tb_index := t\<rparr>\<rparr>, r))
           else case hc_find_index hc table of
             Some i \<Rightarrow>
               and_then (it_enact_plan (rx_queue reindex ! i) index r) (\<lambda>(t, r).
                 Ok (hc\<lparr>hc_reindex := reindex\<lparr>rx_queue := (rx_queue reindex)[i := t]\<rparr>\<rparr>, r))
           | None \<Rightarrow> and_then (it_skip_plan r) (\<lambda>r. Ok (hc, r)))
      | InsertValue table index \<Rightarrow>
          (let tier = unat (table_id_size_tier table) in
           and_then (assert_r (tier < length (tb_value tables))) (\<lambda>_.
           and_then (vt_enact_plan (tb_value tables ! tier) index r) (\<lambda>(vt, r).
             Ok (hc\<lparr>hc_tables := tables\<lparr>tb_value := (tb_value tables)[tier := vt]\<rparr>\<rparr>, r))))
      | _ \<Rightarrow> Err (Corruption ''Unexpected log action''))"

definition hc_trigger_reindex :: "hash_column \<Rightarrow> hash_column" where
  "hc_trigger_reindex hc =
     (let (tables, reindex) = trigger_reindex (hc_tables hc) (hc_reindex hc)
      in hc\<lparr>hc_tables := tables, hc_reindex := reindex\<rparr>)"

text \<open>
  \<open>validate_plan\<close> starts a re-index and calls itself again until the table of the record is
  there. The column it leaves is returned beside the result: the caller goes on with it when the
  record turns out to be invalid.
\<close>

definition relaunch_body :: "u16 \<Rightarrow> hash_column \<Rightarrow> (hash_column + hash_column \<times> index_table option) result" where
  "relaunch_body table hc =
     (if it_id (tb_index (hc_tables hc)) = table then Ok (Inr (hc, Some (tb_index (hc_tables hc))))
      else case hc_find_index hc table of
        Some i \<Rightarrow> Ok (Inr (hc, Some (rx_queue (hc_reindex hc) ! i)))
      | None \<Rightarrow>
          (if index_id_bits table < ibits (tb_index (hc_tables hc)) then Ok (Inr (hc, None))
           else Ok (Inl (hc_trigger_reindex hc))))"

definition hc_validate_plan ::
    "hash_column \<Rightarrow> log_action \<Rightarrow> log_reader \<Rightarrow> hash_column \<times> log_reader result" where
  "hc_validate_plan hc action r =
     (case action of
        InsertIndex table index \<Rightarrow>
          (case loop_r (relaunch_body table) hc of
             Ok (hc', Some t) \<Rightarrow> (hc', it_validate_plan t index r)
           | Ok (hc', None) \<Rightarrow> (hc', Err (Corruption ''Unexpected log index id''))
           | Err e \<Rightarrow> (hc, Err e)
           | Panic \<Rightarrow> (hc, Panic)
           | Diverge \<Rightarrow> (hc, Diverge))
      | InsertValue table index \<Rightarrow>
          (let tier = unat (table_id_size_tier table); vts = tb_value (hc_tables hc)
           in (hc, if tier < length vts then vt_validate_plan (vts ! tier) index r else Panic))
      | _ \<Rightarrow> (hc, Err (Corruption ''Unexpected log action'')))"

fun complete_plans :: "value_table list \<Rightarrow> log_writer \<Rightarrow> value_table list \<times> log_writer" where
  "complete_plans [] w = ([], w)"
| "complete_plans (t # ts) w =
     (let (t, w) = complete_plan t w; (ts, w) = complete_plans ts w in (t # ts, w))"

definition hc_complete_plan :: "hash_column \<Rightarrow> log_writer \<Rightarrow> hash_column \<times> log_writer" where
  "hc_complete_plan hc w =
     (let (vts, w) = complete_plans (tb_value (hc_tables hc)) w;
          hc = hc\<lparr>hc_tables := (hc_tables hc)\<lparr>tb_value := vts\<rparr>\<rparr>
      in (if hc_collect_stats hc then hc\<lparr>hc_stats := stats_commit (hc_stats hc)\<rparr> else hc, w))"

fun refresh_tables :: "value_table list \<Rightarrow> value_table list result" where
  "refresh_tables [] = Ok []"
| "refresh_tables (t # ts) =
     and_then (refresh_metadata t) (\<lambda>t. and_then (refresh_tables ts) (\<lambda>ts. Ok (t # ts)))"

definition hc_refresh_metadata :: "hash_column \<Rightarrow> hash_column result" where
  "hc_refresh_metadata hc =
     and_then (refresh_tables (tb_value (hc_tables hc))) (\<lambda>vts.
       Ok (hc\<lparr>hc_tables := (hc_tables hc)\<lparr>tb_value := vts\<rparr>\<rparr>))"

section \<open>Statistics\<close>

definition hc_stat_summary :: "hash_column \<Rightarrow> stat_summary" where
  "hc_stat_summary hc = stats_summary (hc_stats hc)"

definition hc_clear_stats :: "hash_column \<Rightarrow> hash_column result" where
  "hc_clear_stats hc =
     (let st = stats_clear (hc_stats hc) in
      and_then (write_stats st (tb_index (hc_tables hc))) (\<lambda>t.
        Ok (hc\<lparr>hc_stats := st, hc_tables := (hc_tables hc)\<lparr>tb_index := t\<rparr>\<rparr>)))"

section \<open>Iteration\<close>

text \<open>
  The callbacks thread a state and say whether to go on. \<open>decompress\<close> failing in \<open>iter_values\<close>
  ends the iteration of the table, not the function.
\<close>

fun iter_values_loop ::
    "codec \<Rightarrow> compress \<Rightarrow> value_table list \<Rightarrow> log_query \<Rightarrow> ('s \<Rightarrow> u32 \<Rightarrow> bytes \<Rightarrow> 's \<times> bool) \<Rightarrow> 's \<Rightarrow> 's result" where
  "iter_values_loop cd c [] lq f s = Ok s"
| "iter_values_loop cd c (t # ts) lq f s =
     and_then (iter_while t lq (\<lambda>s _ rc value compressed.
       if compressed then
         (case cp_decompress cd c value of Ok v \<Rightarrow> f s rc v | _ \<Rightarrow> (s, False))
       else f s rc value) s) (iter_values_loop cd c ts lq f)"

definition hc_iter_values ::
    "codec \<Rightarrow> hash_column \<Rightarrow> log_overlays \<Rightarrow> ('s \<Rightarrow> u32 \<Rightarrow> bytes \<Rightarrow> 's \<times> bool) \<Rightarrow> 's \<Rightarrow> 's result" where
  "hc_iter_values cd hc ov f s =
     iter_values_loop cd (hc_compression hc) (tb_value (hc_tables hc)) (overlays_query ov) f s"

record corrupted_index_entry_info =
  ci_chunk_index :: u64
  ci_sub_index :: u32
  ci_entry :: ientry
  ci_value_entry :: "bytes option"
  ci_error :: "error option"

record iter_state =
  is_item_index :: u64
  is_total_items :: u64
  is_key :: key
  is_rc :: u32
  is_value :: bytes

datatype iter_state_or_corrupted = Item iter_state | Corrupted corrupted_index_entry_info

definition result_ok :: "'a result \<Rightarrow> 'a option" where
  "result_ok r = (case r of Ok x \<Rightarrow> Some x | _ \<Rightarrow> None)"

text \<open>
  The part that \<open>iter_index_internal\<close> and \<open>iter_index_fast\<close> share: look the value of an entry up
  and pass it, or what is wrong with it, to the callback. \<open>key_of\<close> builds the key that is
  reported from the stored partial key.
\<close>

definition visit_entry ::
    "codec \<Rightarrow> hash_column \<Rightarrow> log_query \<Rightarrow> ('s \<Rightarrow> iter_state_or_corrupted \<Rightarrow> ('s \<times> bool) result)
       \<Rightarrow> u64 \<Rightarrow> u64 \<Rightarrow> u32 \<Rightarrow> (bytes \<Rightarrow> key) \<Rightarrow> ientry \<Rightarrow> 's \<Rightarrow> ('s \<times> bool) result" where
  "visit_entry cd hc lq f total_items item_index sub_index key_of e s =
     (let address = entry_address e (ibits (tb_index (hc_tables hc)));
          offset = addr_offset address;
          tier = unat (addr_size_tier address);
          vts = tb_value (hc_tables hc);
          corrupted = (\<lambda>value_entry err. Corrupted
            \<lparr>ci_chunk_index = item_index, ci_sub_index = sub_index, ci_entry = e,
             ci_value_entry = value_entry, ci_error = err\<rparr>)
      in and_then (assert_r (tier < length vts)) (\<lambda>_.
         case get_with_meta (vts ! tier) offset lq of
           Ok (Some (value, rc, pk, compressed)) \<Rightarrow>
             and_then (if compressed then cp_decompress cd (hc_compression hc) value else Ok value) (\<lambda>value.
               f s (Item \<lparr>is_item_index = item_index, is_total_items = total_items, is_key = key_of pk,
                          is_rc = rc, is_value = value\<rparr>))
         | Ok None \<Rightarrow> f s (corrupted (result_ok (dump_entry (vts ! tier) offset)) None)
         | Err err \<Rightarrow>
             f s (corrupted (case err of Corruption _ \<Rightarrow> result_ok (dump_entry (vts ! tier) offset) | _ \<Rightarrow> None)
                    (Some err))
         | Panic \<Rightarrow> Panic
         | Diverge \<Rightarrow> Diverge))"

fun visit_chunk ::
    "codec \<Rightarrow> hash_column \<Rightarrow> log_query \<Rightarrow> ('s \<Rightarrow> iter_state_or_corrupted \<Rightarrow> ('s \<times> bool) result)
       \<Rightarrow> u64 \<Rightarrow> nat \<Rightarrow> ientry list \<Rightarrow> 's \<Rightarrow> ('s \<times> bool) result" where
  "visit_chunk cd hc lq f c sub_index [] s = Ok (s, True)"
| "visit_chunk cd hc lq f c sub_index (e # entries) s =
     (if entry_is_empty e then visit_chunk cd hc lq f c (sub_index + 1) entries s
      else
        (let source = tb_index (hc_tables hc) in
         and_then (visit_entry cd hc lq f (total_chunks (ibits source)) c (word_of_nat sub_index)
                     (\<lambda>pk. take 6 (recover_key_prefix source c e) @ pk) e s) (\<lambda>(s, go).
         if go then visit_chunk cd hc lq f c (sub_index + 1) entries s else Ok (s, False))))"

definition iter_index_internal ::
    "codec \<Rightarrow> hash_column \<Rightarrow> log_overlays \<Rightarrow> ('s \<Rightarrow> iter_state_or_corrupted \<Rightarrow> ('s \<times> bool) result)
       \<Rightarrow> u64 \<Rightarrow> 's \<Rightarrow> 's result" where
  "iter_index_internal cd hc ov f start_chunk s =
     (let source = tb_index (hc_tables hc); lq = overlays_query ov in
      loop_r (\<lambda>(c, s).
        if c < total_chunks (ibits source) then
          and_then (it_entries source c lq) (\<lambda>entries.
          and_then (visit_chunk cd hc lq f c 0 entries s) (\<lambda>(s, go).
            Ok (if go then Inl (c + 1, s) else Inr s)))
        else Ok (Inr s)) (start_chunk, s))"

definition hc_iter_index ::
    "codec \<Rightarrow> hash_column \<Rightarrow> log_overlays \<Rightarrow> ('s \<Rightarrow> iter_state \<Rightarrow> 's \<times> bool) \<Rightarrow> 's \<Rightarrow> 's result" where
  "hc_iter_index cd hc ov f s =
     iter_index_internal cd hc ov (\<lambda>s st. case st of
        Item item \<Rightarrow> Ok (f s item)
      | Corrupted _ \<Rightarrow> Err (Corruption ''Missing indexed value'')) 0 s"

fun visit_sorted ::
    "codec \<Rightarrow> hash_column \<Rightarrow> log_query \<Rightarrow> ('s \<Rightarrow> iter_state_or_corrupted \<Rightarrow> ('s \<times> bool) result)
       \<Rightarrow> u64 \<Rightarrow> nat \<Rightarrow> ientry list \<Rightarrow> 's \<Rightarrow> 's result" where
  "visit_sorted cd hc lq f total_items sub_index [] s = Ok s"
| "visit_sorted cd hc lq f total_items sub_index (e # entries) s =
     and_then (visit_entry cd hc lq f total_items (word_of_nat sub_index) (word_of_nat sub_index)
                 (\<lambda>_. replicate KEY_SIZE 0) e s) (\<lambda>(s, go).
     if go then visit_sorted cd hc lq f total_items (sub_index + 1) entries s else Ok s)"

definition iter_index_fast ::
    "codec \<Rightarrow> hash_column \<Rightarrow> log_overlays \<Rightarrow> ('s \<Rightarrow> iter_state_or_corrupted \<Rightarrow> ('s \<times> bool) result)
       \<Rightarrow> u64 \<Rightarrow> 's \<Rightarrow> 's result" where
  "iter_index_fast cd hc ov f start_chunk s =
     and_then (sorted_entries (tb_index (hc_tables hc))) (\<lambda>entries.
       visit_sorted cd hc (overlays_query ov) f (word_of_nat (length entries)) 0 entries s)"

section \<open>Re-indexing\<close>

definition chunk_plan :: "index_table \<Rightarrow> u64 \<Rightarrow> ientry list \<Rightarrow> (key \<times> address) list" where
  "chunk_plan source source_index entries =
     map (\<lambda>e. (recover_key_prefix source source_index e, entry_address e (ibits source)))
       (filter (\<lambda>e. \<not> entry_is_empty e) entries)"

definition reindex_loop ::
    "index_table \<Rightarrow> log_query \<Rightarrow> u64 \<Rightarrow> (u64 \<times> (key \<times> address) list) result" where
  "reindex_loop source lq progress =
     loop_r (\<lambda>(source_index, plan).
       if source_index < total_chunks (ibits source) \<and> length plan < MAX_REINDEX_BATCH then
         and_then (it_entries source source_index lq) (\<lambda>entries.
           Ok (Inl (source_index + 1, plan @ chunk_plan source source_index entries)))
       else Ok (Inr (source_index, plan))) (progress, [])"

record reindex_batch =
  rb_drop_index :: "u16 option"
  rb_batch :: "(key \<times> address) list"

definition hc_reindex_batch :: "hash_column \<Rightarrow> log_overlays \<Rightarrow> (reindex_batch \<times> hash_column) result" where
  "hc_reindex_batch hc ov =
     (let reindex = hc_reindex hc in
      case rx_queue reindex of
        [] \<Rightarrow> Ok (\<lparr>rb_drop_index = None, rb_batch = []\<rparr>, hc)
      | source # _ \<Rightarrow>
          (if rx_progress reindex \<noteq> total_chunks (ibits source) then
             and_then (reindex_loop source (overlays_query ov) (rx_progress reindex)) (\<lambda>(source_index, plan).
               Ok (\<lparr>rb_drop_index = (if source_index = total_chunks (ibits source)
                                     then Some (it_id source) else None),
                    rb_batch = plan\<rparr>,
                   hc\<lparr>hc_reindex := reindex\<lparr>rx_progress := source_index\<rparr>\<rparr>))
           else Ok (\<lparr>rb_drop_index = None, rb_batch = []\<rparr>, hc)))"

text \<open>The column and the table whose file is removed.\<close>

definition hc_drop_index :: "hash_column \<Rightarrow> u16 \<Rightarrow> hash_column \<times> index_table option" where
  "hc_drop_index hc i =
     (let reindex = hc_reindex hc in
      case rx_queue reindex of
        index # queue \<Rightarrow>
          (if it_id index = i
           then (hc\<lparr>hc_reindex := \<lparr>rx_queue = queue, rx_progress = 0\<rparr>\<rparr>, Some (it_drop_file index))
           else (hc, None))
      | [] \<Rightarrow> (hc, None))"

end
