(* ===== verification/Column_Search.thy ===== *)
theory Column_Search
  imports Hash_Column Index_Spec
begin

text \<open>
  The search loop of a hash column over one chunk of an index: it visits the matching entries of
  the visible chunk in order, terminates, and returns the first answer.
\<close>

lemma find_entry_first_le:
  assumes "valid_bits (ibits t)" "length c = 512" "sub \<le> 64"
  shows "find_entry t kp sub c = first_match (sse2_match (ibits t) kp) c sub"
proof (cases "sub = 64")
  case True
  then show ?thesis
    by (simp add: find_entry_def find_entry_sse2_def first_match_def Let_def sse2_loop.simps [of _ _ _ 64]
        find_entry_base_def)
next
  case False
  with assms show ?thesis by (intro find_entry_first) simp_all
qed

fun first_some :: "('i \<Rightarrow> 'a option) \<Rightarrow> 'i list \<Rightarrow> 'a option" where
  "first_some f [] = None"
| "first_some f (i # js) = (case f i of Some x \<Rightarrow> Some x | None \<Rightarrow> first_some f js)"

lemma filter_upt_Cons:
  "filter Q [a..<b] = i # js \<Longrightarrow>
   a \<le> i \<and> i < b \<and> Q i \<and> js = filter Q [Suc i..<b] \<and> List.find Q [a..<b] = Some i"
proof (induction "b - a" arbitrary: a)
  case (Suc n)
  then have ab: "a < b" by simp
  then have u: "[a..<b] = a # [Suc a..<b]" by (rule upt_conv_Cons)
  show ?case
  proof (cases "Q a")
    case False
    with Suc.prems u have "filter Q [Suc a..<b] = i # js" by simp
    moreover have "n = b - Suc a" using Suc.hyps(2) by simp
    ultimately have "Suc a \<le> i \<and> i < b \<and> Q i \<and> js = filter Q [Suc i..<b] \<and> List.find Q [Suc a..<b] = Some i"
      using Suc.hyps(1) by blast
    with False u show ?thesis by simp
  next
    case True
    have "a # filter Q [Suc a..<b] = i # js" using Suc.prems [unfolded u filter.simps] True by (simp only: if_True)
    then have "a = i \<and> filter Q [Suc a..<b] = js" by (rule list.inject [THEN iffD1])
    then have e: "i = a" "js = filter Q [Suc a..<b]" by blast+
    show ?thesis unfolding e u using True ab by simp
  qed
qed simp

lemma first_match_cases:
  "filter (\<lambda>i. P (read_entry c i)) [sub..<64] = [] \<Longrightarrow> first_match P c sub = (entry_empty, 0)"
  "filter (\<lambda>i. P (read_entry c i)) [sub..<64] = i # js \<Longrightarrow> first_match P c sub = (read_entry c i, i)"
proof -
  assume "filter (\<lambda>i. P (read_entry c i)) [sub..<64] = []"
  then have "List.find (\<lambda>i. P (read_entry c i)) [sub..<64] = None" by (simp add: find_None_iff filter_empty_conv)
  then show "first_match P c sub = (entry_empty, 0)" by (simp add: first_match_def)
next
  assume "filter (\<lambda>i. P (read_entry c i)) [sub..<64] = i # js"
  from filter_upt_Cons [OF this] show "first_match P c sub = (read_entry c i, i)" by (simp add: first_match_def)
qed

lemma it_get_chunk:
  assumes "valid_bits (ibits t)" "chunk_view t lq (chunk_index t (index_from_partial k)) = Ok c" "length c = 512"
    and "sub \<le> 64"
  shows "it_get t k sub lq = Ok (first_match (sse2_match (ibits t) (index_from_partial k)) c sub)"
proof -
  let ?kp = "index_from_partial k"
  have e: "find_entry t ?kp sub EMPTY_CHUNK = (entry_empty, 0)"
  proof -
    have "first_match (sse2_match (ibits t) ?kp) EMPTY_CHUNK sub = (entry_empty, 0)"
      using sse2_match_facts(2) [OF assms(1)] by (intro first_match_cases) (auto simp: filter_empty_conv)
    then show ?thesis using find_entry_first_le [OF assms(1) _ assms(4), of EMPTY_CHUNK ?kp] by (simp add: EMPTY_CHUNK_def)
  qed
  have f: "find_entry t ?kp sub c = first_match (sse2_match (ibits t) ?kp) c sub"
    by (rule find_entry_first_le [OF assms(1,3,4)])
  show ?thesis using assms(2) e f
    by (auto simp: it_get_def chunk_view_def Let_def and_then_Ok_iff split: option.splits)
qed

definition matches :: "index_table \<Rightarrow> key \<Rightarrow> chunk \<Rightarrow> nat list" where
  "matches t k c = filter (\<lambda>i. sse2_match (ibits t) (index_from_partial k) (read_entry c i)) [0..<64]"

lemma index_search_run:
  assumes vb: "valid_bits (ibits t)"
    and cv: "chunk_view t lq (chunk_index t (index_from_partial k)) = Ok c" and len: "length c = 512"
    and visit: "\<And>i. i < 64 \<Longrightarrow> sse2_match (ibits t) (index_from_partial k) (read_entry c i) \<Longrightarrow>
      visit i (entry_address (read_entry c i) (ibits t)) = Ok (f i)"
  shows "index_search k t lq visit = Ok (first_some f (matches t k c))"
proof -
  let ?P = "sse2_match (ibits t) (index_from_partial k)"
  let ?Q = "\<lambda>i. ?P (read_entry c i)"
  let ?body = "\<lambda>(e, sub_index).
       if entry_is_empty e then Ok (Inr None)
       else and_then (visit sub_index (entry_address e (ibits t))) (\<lambda>r.
         case r of Some x \<Rightarrow> Ok (Inr (Some x))
         | None \<Rightarrow> and_then (it_get t k (sub_index + 1) lq) (\<lambda>nxt. Ok (Inl nxt)))"
  have "loop_r ?body (first_match ?P c sub) = Ok (first_some f (filter ?Q [sub..<64]))" if "sub \<le> 64" for sub
    using that
  proof (induction "64 - sub" arbitrary: sub rule: less_induct)
    case less
    show ?case
    proof (cases "filter ?Q [sub..<64]")
      case Nil
      then show ?thesis by (subst loop_r_unfold) (simp add: first_match_cases entry_is_empty_def entry_empty_def)
    next
      case (Cons i js)
      note u = filter_upt_Cons [OF Cons]
      have ne: "\<not> entry_is_empty (read_entry c i)" using u sse2_match_facts(2) [OF vb] by (auto simp: entry_is_empty_def)
      have v: "visit i (entry_address (read_entry c i) (ibits t)) = Ok (f i)" using u visit by blast
      have g: "it_get t k (i + 1) lq = Ok (first_match ?P c (i + 1))"
        using u by (intro it_get_chunk [OF vb cv len]) simp
      have "loop_r ?body (first_match ?P c (i + 1)) = Ok (first_some f (filter ?Q [i + 1..<64]))"
        using u by (intro less.hyps) auto
      then show ?thesis unfolding first_match_cases(2) [OF Cons]
        using ne v g u Cons by (subst loop_r_unfold) (cases "f i"; simp)
    qed
  qed
  from this [of 0] it_get_chunk [OF vb cv len, of 0] show ?thesis
    by (simp add: index_search_def matches_def)
qed

end
