(* ===== verification/Value_Filled.thy ===== *)
theory Value_Filled
  imports Value_Store
begin

text \<open>
  The number of filled slots of a value table never shrinks: an address that was allocated once
  can always be queried, even after its value was removed. The column relies on this for index
  entries that outlive their values.
\<close>

section \<open>The number of filled slots never shrinks\<close>

lemma clear_slot_filled: "clear_slot vt i w = Ok (vt', w') \<Longrightarrow> vt_filled vt' = vt_filled vt"
  by (auto simp: clear_slot_def result_simps)

lemma clear_chain_body_filled:
  assumes "clear_chain_body (i, v, w) = Ok x"
  shows "case x of Inl (_, v', _) \<Rightarrow> vt_filled v' = vt_filled v | Inr (v', _) \<Rightarrow> vt_filled v' = vt_filled v"
proof -
  from assms obtain n p where p: "clear_slot v i w = Ok p"
      "(case p of (v', w') \<Rightarrow> case n of Some nxt \<Rightarrow> Ok (Inl (nxt, v', w')) | None \<Rightarrow> Ok (Inr (v', w'))) = Ok x"
    unfolding clear_chain_body_def prod.case and_then_Ok_iff by blast
  obtain v' w' where "p = (v', w')" by (cases p)
  with p have n: "clear_slot v i w = Ok (v', w')"
      "(case n of Some nxt \<Rightarrow> Ok (Inl (nxt, v', w')) | None \<Rightarrow> Ok (Inr (v', w'))) = Ok x" by simp_all
  with clear_slot_filled [OF n(1)] show ?thesis by (cases n) auto
qed

lemma clear_chain_filled:
  assumes "clear_chain vt i w = Ok (vt', w')"
  shows "vt_filled vt' = vt_filled vt"
proof -
  let ?I = "\<lambda>s :: u64 \<times> value_table \<times> log_writer. vt_filled (fst (snd s)) = vt_filled vt"
  have "vt_filled (fst (vt', w')) = vt_filled vt"
    using assms [unfolded clear_chain_def]
  proof (rule loop_r_inv [where I = ?I])
    fix s s' assume "?I s" "clear_chain_body s = Ok (Inl s')"
    then show "?I s'" using clear_chain_body_filled [of "fst s" "fst (snd s)" "snd (snd s)" "Inl s'"]
      by (simp add: case_prod_unfold)
  next
    fix s r assume "?I s" "clear_chain_body s = Ok (Inr r)"
    then show "vt_filled (fst r) = vt_filled vt"
      using clear_chain_body_filled [of "fst s" "fst (snd s)" "snd (snd s)" "Inr r"]
      by (simp add: case_prod_unfold)
  qed simp
  then show ?thesis by simp
qed

lemma next_free_filled:
  "next_free vt w = Ok (i, vt') \<Longrightarrow> vt_filled vt' = vt_filled vt \<or> vt_filled vt' = vt_filled vt + 1"
  by (auto simp: next_free_def result_simps split: if_splits)

lemma next_free_size:
  "next_free vt w = Ok (i, vt') \<Longrightarrow> vt_entry_size vt' = vt_entry_size vt"
  "next_free vt w = Ok (i, vt') \<Longrightarrow> ref_size vt' = ref_size vt"
  by (auto simp: next_free_def result_simps ref_size_def split: if_splits)

lemma filled_step:
  fixes a b :: u64
  assumes "b = a \<or> b = a + 1" "unat a + n < 2 ^ 64" "0 < n"
  shows "a \<le> b" "unat b \<le> unat a + 1"
proof -
  have "unat (a + 1) = unat a + 1" using assms(2,3) by (simp add: unat_word_ariths)
  with assms(1) show "a \<le> b" "unat b \<le> unat a + 1" by (auto simp: word_le_nat_alt)
qed

definition filled_after :: "value_table \<Rightarrow> nat \<Rightarrow> chain_state + u64 \<times> value_table \<times> log_writer \<Rightarrow> bool" where
  "filled_after vt n x =
     (case x of
        Inl (r', _, _, _, _, vt', _) \<Rightarrow> vt_filled vt \<le> vt_filled vt' \<and> es vt' = es vt \<and>
          unat (vt_filled vt') + r' < n
      | Inr (_, vt', _) \<Rightarrow> vt_filled vt \<le> vt_filled vt' \<and> unat (vt_filled vt') < n)"

lemma obody_filled:
  assumes e: "32 \<le> es vt" and r: "unat (vt_filled vt) + remainder < n" and n: "n \<le> 2 ^ 64"
  shows "ok_post (filled_after vt n)
    (overwrite_chain_body k val c (remainder, offset, start, index, follow, vt, w))"
  unfolding overwrite_chain_body_def prod.case
proof (rule ok_post_seq, goal_cases)
  case (1 link)
  let ?fs = "es vt - SIZE_SIZE"
  obtain n0 f' where nf: "(case link of Some nxt \<Rightarrow> (nxt, follow) | None \<Rightarrow> (0, False)) = (n0, f')"
    by (cases "case link of Some nxt \<Rightarrow> (nxt, follow) | None \<Rightarrow> (0, False)")
  let ?R = "\<lambda>(value_len, ni :: u64, vt1, buf :: ventry). vt_filled vt \<le> vt_filled vt1 \<and> es vt1 = es vt \<and>
      unat (vt_filled vt1) + (remainder - value_len) < n"
  show ?case
    unfolding nf Let_def prod.case
  proof (rule ok_post_and_then [where R = ?R], goal_cases)
    case 1
    show ?case
    proof (rule ok_postI)
      fix x assume x: "(if remainder > ?fs then
          and_then (if \<not> f' then next_free vt w else Ok (n0, vt)) (\<lambda>(next_index, vt).
          and_then (if start = 0 then (if c then write_multihead_compressed new_uninit_full_entry
                                       else write_multihead new_uninit_full_entry)
                    else write_multipart new_uninit_full_entry) (\<lambda>buf.
          and_then (write_next next_index buf) (\<lambda>buf.
            Ok (?fs - INDEX_SIZE, next_index, vt, buf))))
        else and_then (write_size (word_of_nat remainder) c new_uninit_full_entry) (\<lambda>buf.
            Ok (remainder, n0, vt, buf))) = Ok x"
      show "?R x"
      proof (cases "remainder > es vt - SIZE_SIZE")
        case True
        with x obtain ni vt1 buf where y: "x = (es vt - SIZE_SIZE - INDEX_SIZE, ni, vt1, buf)"
            "vt1 = vt \<or> next_free vt w = Ok (ni, vt1)"
          by (auto simp: and_then_Ok_iff split: if_splits)
        have f: "vt_filled vt1 = vt_filled vt \<or> vt_filled vt1 = vt_filled vt + 1" "es vt1 = es vt"
          using y(2) next_free_filled next_free_size(1) by auto
        have p: "0 < remainder" "0 < es vt - SIZE_SIZE - INDEX_SIZE" using True e by simp_all
        have "remainder - (es vt - SIZE_SIZE - INDEX_SIZE) + 1 \<le> remainder" using p by linarith
        moreover have "unat (vt_filled vt) + remainder < 2 ^ 64" using r n by linarith
        note filled_step [OF f(1) this p(1)]
        ultimately show ?thesis using f(2) r y(1) by auto
      next
        case False
        with x r show ?thesis by (auto simp: and_then_Ok_iff)
      qed
    qed
  next
    case (2 x)
    obtain value_len ni vt1 buf where x: "x = (value_len, ni, vt1, buf)" by (cases x)
    show ?case unfolding x prod.case
    proof (intro ok_post_seq, goal_cases)
      case (1 b1 b2 b3)
      have "ok_post (filled_after vt n) (and_then (clear_chain vt1 ni w') (\<lambda>(v, w). Ok (Inr (s, v, w))))" for w' s
        using 2 x clear_chain_filled by (intro ok_postI) (auto simp: and_then_Ok_iff filled_after_def)
      with 2 x show ?case by (auto simp: filled_after_def)
    qed
  qed
qed


lemma overwrite_chain_filled:
  assumes "overwrite_chain vt k v w at c = Ok (i, vt', w')" "32 \<le> es vt"
    and "unat (vt_filled vt) + length v + 65 < N" "N \<le> 2 ^ 64"
  shows "vt_filled vt \<le> vt_filled vt'" "unat (vt_filled vt') < N"
proof -
  let ?n = "length v + ref_size vt + encoded_size k"
  have n: "?n \<le> length v + 30" by (simp add: ref_size_def encoded_size_def split: table_key.split)
  obtain j f vt1 where a: "vt_filled vt1 = vt_filled vt \<or> vt_filled vt1 = vt_filled vt + 1" "es vt1 = es vt"
      "ref_size vt1 = ref_size vt"
      "loop_r (overwrite_chain_body k v c) (?n, 0, 0, j, f, vt1, w) = Ok (i, vt', w')"
  proof (cases at)
    case None
    with assms(1) obtain j vt1 where "next_free vt w = Ok (j, vt1)"
        "loop_r (overwrite_chain_body k v c) (length v + ref_size vt1 + encoded_size k, 0, 0, j, False, vt1, w) = Ok (i, vt', w')"
      by (auto simp: overwrite_chain_def and_then_Ok_iff)
    with next_free_filled next_free_size show thesis by (intro that [of vt1 j False]) auto
  next
    case (Some j)
    with assms(1) show thesis by (intro that [of vt j True]) (auto simp: overwrite_chain_def and_then_Ok_iff)
  qed
  have f1: "vt_filled vt \<le> vt_filled vt1" "unat (vt_filled vt1) \<le> unat (vt_filled vt) + 1"
    using filled_step [OF a(1), of "length v + 65"] assms(3,4) by simp_all
  let ?I = "\<lambda>(r, _, _, _, _, v, _). vt_filled vt \<le> vt_filled v \<and> 32 \<le> es v \<and> unat (vt_filled v) + r < N"
  let ?Q = "\<lambda>x :: u64 \<times> value_table \<times> log_writer. vt_filled vt \<le> vt_filled (fst (snd x)) \<and> unat (vt_filled (fst (snd x))) < N"
  have "?Q (i, vt', w')"
    using a(4)
  proof (rule loop_r_inv [where I = ?I])
    show "?I (?n, 0, 0, j, f, vt1, w)" using f1 a(2) assms(2,3) n by simp
  next
    fix s s' assume s: "?I s" "overwrite_chain_body k v c s = Ok (Inl s')"
    obtain r o' st ix fo v1 w1 where e: "s = (r, o', st, ix, fo, v1, w1)" by (cases s)
    from ok_postD [OF obody_filled [OF _ _ assms(4)] s(2) [unfolded e]] s(1) e show "?I s'"
      by (auto simp: filled_after_def)
  next
    fix s x assume s: "?I s" "overwrite_chain_body k v c s = Ok (Inr x)"
    obtain r o' st ix fo v1 w1 where e: "s = (r, o', st, ix, fo, v1, w1)" by (cases s)
    from ok_postD [OF obody_filled [OF _ _ assms(4)] s(2) [unfolded e]] s(1) e show "?Q x"
      by (auto simp: filled_after_def)
  qed
  then show "vt_filled vt \<le> vt_filled vt'" "unat (vt_filled vt') < N" by simp_all
qed

lemma plan_filled:
  assumes "32 \<le> es vt" "unat (vt_filled vt) + length v + 65 < 2 ^ 64"
  shows "write_insert_plan vt k v w c = Ok (i, vt', w') \<Longrightarrow> vt_filled vt \<le> vt_filled vt'"
    and "write_replace_plan vt j k v w c = Ok (vt', w') \<Longrightarrow> vt_filled vt \<le> vt_filled vt'"
  using overwrite_chain_filled(1) [OF _ assms order_refl]
  by (auto simp: write_insert_plan_def write_replace_plan_def and_then_Ok_iff)

text \<open>A value takes at most as many new slots as it has bytes, and a few for its header.\<close>

lemma insert_filled_bound:
  assumes "write_insert_plan vt k v w c = Ok (i, vt', w')" "32 \<le> es vt" "unat (vt_filled vt) + length v + 65 < 2 ^ 64"
  shows "unat (vt_filled vt') \<le> unat (vt_filled vt) + length v + 65"
  using overwrite_chain_filled(2) [of vt k v w None c i vt' w' "unat (vt_filled vt) + length v + 66"] assms
  by (auto simp: write_insert_plan_def and_then_Ok_iff)

lemma remove_filled: "write_remove_plan vt i w = Ok (vt', w') \<Longrightarrow> vt_filled vt' = vt_filled vt"
  by (auto simp: write_remove_plan_def clear_slot_filled clear_chain_filled split: if_splits)

lemma dec_ref_filled: "write_dec_ref vt i w = Ok (b, vt', w') \<Longrightarrow> vt_filled vt' = vt_filled vt"
  by (auto simp: write_dec_ref_def and_then_Ok_iff dest: remove_filled split: if_splits)

end
