(* ===== verification/Column_Inv.thy ===== *)
theory Column_Inv
  imports Column_Search Value_Filled
begin

text \<open>
  The invariant of a hash column, over the indexes and value tables as they are seen through a
  log: the value tables implement 256 stores, index entries point to allocated slots, every
  stored value is found through some index, and no two stored keys share the 26 bytes that the
  value tables keep of them. A lookup is then exact, although indexes may hold entries of values
  that are gone: re-indexing copies entries, and a value that moves leaves its old entry in the
  index it was found in unless that is the newest one.
\<close>

section \<open>The size of a value\<close>

lemma for_parts_map:
  assumes "\<And>a d. f' (h a) d = (h (fst (f a d)), snd (f a d))"
  shows "for_parts vt q i lq f' (h a) =
    and_then (for_parts vt q i lq f a) (\<lambda>(rc, c, ft, acc). Ok (rc, c, ft, h acc))"
proof -
  let ?h = "\<lambda>(i, p, c, rc, ft, a). (i, p, c, rc, ft, h a)" and ?g = "\<lambda>(rc, c, ft, a). (rc, c, ft, h a)"
  have "for_parts_body vt q lq f' (?h s) = and_then (for_parts_body vt q lq f s) (\<lambda>x. Ok (map_sum ?h ?g x))" for s
  proof -
    obtain i p c rc ft a where s: "s = (i, p, c, rc, ft, a)" by (cases s)
    show ?thesis unfolding s for_parts_body_def prod.case and_then_assoc
      by (intro and_then_cong refl) (auto simp: and_then_assoc assms case_prod_unfold Let_def intro!: and_then_cong)
  qed
  from loop_r_map [of "for_parts_body vt q lq f'" ?h "for_parts_body vt q lq f" ?g, OF this,
      of "(i, 0, False, 1, None, a)"]
  show ?thesis by (auto simp: for_parts_def intro!: and_then_cong split: prod.split)
qed

lemma vt_size_query:
  "vt_size vt k i lq =
    and_then (vt_query vt (Check k) i lq) (\<lambda>r. Ok (map_option (\<lambda>(v, c, _, _). (word_of_nat (length v), c)) r))"
proof -
  have "for_parts vt (Check k) i lq (\<lambda>acc buf. (acc + word_of_nat (length buf), True)) (0 :: u32) =
      and_then (for_parts vt (Check k) i lq (\<lambda>acc buf. (acc @ buf, True)) [])
        (\<lambda>(rc, c, ft, acc). Ok (rc, c, ft, word_of_nat (length acc)))"
    using for_parts_map [of "\<lambda>acc buf. (acc + word_of_nat (length buf), True)" "\<lambda>v. word_of_nat (length v)"
        "\<lambda>acc buf. (acc @ buf, True)" vt "Check k" i lq "[]"] by simp
  then show ?thesis unfolding vt_size_def vt_query_def
    by (simp only: and_then_assoc) (auto split: prod.split intro!: and_then_cong)
qed

section \<open>The invariant\<close>

abbreviation indexes :: "hash_column \<Rightarrow> index_table list" where
  "indexes hc \<equiv> tb_index (hc_tables hc) # rx_queue (hc_reindex hc)"

abbreviation values_of :: "hash_column \<Rightarrow> value_table list" where
  "values_of hc \<equiv> tb_value (hc_tables hc)"

type_synonym stores = "(u64 \<Rightarrow> entry_val option) list"

definition tiers_ok :: "u8 \<Rightarrow> bool \<Rightarrow> value_table list \<Rightarrow> bool" where
  "tiers_ok col rcd vts \<longleftrightarrow> length vts = 256 \<and>
     (\<forall>i<256. vt_id (vts ! i) = table_id_new col (word_of_nat i) \<and> vt_ref_counted (vts ! i) = rcd \<and>
        vt_multipart (vts ! i) = (i = 255) \<and>
        vt_entry_size (vts ! i) = (if i < 255 then SIZES ! i else MULTIPART_ENTRY_SIZE))"

definition live_at :: "stores \<Rightarrow> address \<Rightarrow> entry_val option" where
  "live_at ms a = (ms ! unat (addr_size_tier a)) (addr_offset a)"

definition key_at :: "stores \<Rightarrow> key \<Rightarrow> address \<Rightarrow> (u32 \<times> bytes \<times> bool) option" where
  "key_at ms k a =
     (case live_at ms a of
        Some (rc, Partial h, v, c) \<Rightarrow> if h = k then Some (rc, v, c) else None
      | _ \<Rightarrow> None)"

text \<open>No other stored key ends in the 26 bytes that \<open>k\<close> ends in.\<close>

definition tail_unique :: "stores \<Rightarrow> key \<Rightarrow> bool" where
  "tail_unique ms k \<longleftrightarrow>
     (\<forall>a rc h v c. live_at ms a = Some (rc, Partial h, v, c) \<longrightarrow> partial_key k = partial_key h \<longrightarrow> h = k)"

definition tails_distinct :: "stores \<Rightarrow> bool" where
  "tails_distinct ms \<longleftrightarrow>
     (\<forall>a b rc rc' h h' v v' c c'. live_at ms a = Some (rc, Partial h, v, c) \<longrightarrow>
        live_at ms b = Some (rc', Partial h', v', c') \<longrightarrow> partial_key h = partial_key h' \<longrightarrow> a = b)"

definition small_store :: "(u64 \<Rightarrow> entry_val option) \<Rightarrow> bool" where
  "small_store m \<longleftrightarrow> hashed m \<and> (\<forall>i. m i \<noteq> None \<longrightarrow> drop_bit 56 i = 0)"

definition values_inv :: "u8 \<Rightarrow> bool \<Rightarrow> value_table list \<Rightarrow> log_writer \<Rightarrow> stores \<Rightarrow> bool" where
  "values_inv col rcd vts w ms \<longleftrightarrow>
     tiers_ok col rcd vts \<and> value_stores.stores_rel vts w ms \<and> (\<forall>m\<in>set ms. small_store m) \<and> tails_distinct ms"

definition index_inv :: "u8 \<Rightarrow> index_table \<Rightarrow> bool" where
  "index_inv col t \<longleftrightarrow> valid_bits (ibits t) \<and> 16 \<le> unat (ibits t) \<and> map_ok t \<and>
     it_id t = index_id_new col (ibits t)"

definition indexes_inv :: "u8 \<Rightarrow> index_table list \<Rightarrow> log_writer \<Rightarrow> bool" where
  "indexes_inv col ts w \<longleftrightarrow>
     ts \<noteq> [] \<and> (\<forall>t\<in>set ts. index_inv col t) \<and> distinct (map it_id ts) \<and>
     (\<forall>t\<in>set ts. ibits t \<le> ibits (hd ts)) \<and> log_chunks_ok (writer_query w) \<and>
     (\<forall>b ci. ibits (hd ts) < b \<longrightarrow> writer_index w (index_id_new col b) ci = None)"

text \<open>The entry \<open>e\<close> is visible at position \<open>i\<close> of the chunk \<open>ci\<close>.\<close>

definition entry_at :: "index_table \<Rightarrow> log_query \<Rightarrow> u64 \<Rightarrow> nat \<Rightarrow> ientry \<Rightarrow> bool" where
  "entry_at t lq ci i e \<longleftrightarrow> unat ci < 2 ^ unat (ibits t) \<and> i < 64 \<and>
     (\<exists>c. chunk_view t lq ci = Ok c \<and> read_entry c i = e)"

definition key_chunk :: "index_table \<Rightarrow> key \<Rightarrow> u64" where
  "key_chunk t k = chunk_index t (index_from_partial k)"

definition indexed :: "index_table \<Rightarrow> log_query \<Rightarrow> key \<Rightarrow> address \<Rightarrow> bool" where
  "indexed t lq k a \<longleftrightarrow> a \<le> last_address (ibits t) \<and> (\<exists>i. entry_at t lq (key_chunk t k) i (key_entry t k a))"

text \<open>Entries point to allocated slots, and every stored value is indexed.\<close>

definition pointers_ok :: "index_table list \<Rightarrow> value_table list \<Rightarrow> log_query \<Rightarrow> bool" where
  "pointers_ok ts vts lq \<longleftrightarrow>
     (\<forall>t\<in>set ts. \<forall>ci i e. entry_at t lq ci i e \<longrightarrow> e \<noteq> 0 \<longrightarrow>
        0 < addr_offset (entry_address e (ibits t)) \<and>
        addr_offset (entry_address e (ibits t)) <
          vt_filled (vts ! unat (addr_size_tier (entry_address e (ibits t)))))"

definition complete :: "index_table list \<Rightarrow> log_query \<Rightarrow> stores \<Rightarrow> bool" where
  "complete ts lq ms \<longleftrightarrow>
     (\<forall>a rc k v c. live_at ms a = Some (rc, Partial k, v, c) \<longrightarrow> (\<exists>t\<in>set ts. indexed t lq k a))"

definition col_inv :: "hash_column \<Rightarrow> log_writer \<Rightarrow> stores \<Rightarrow> bool" where
  "col_inv hc w ms \<longleftrightarrow>
     values_inv (hc_col hc) (hc_ref_counted hc) (values_of hc) w ms \<and>
     indexes_inv (hc_col hc) (indexes hc) w \<and>
     pointers_ok (indexes hc) (values_of hc) (writer_query w) \<and>
     complete (indexes hc) (writer_query w) ms"

text \<open>Without completeness: a lookup runs, but may miss a value.\<close>

definition col_base :: "hash_column \<Rightarrow> log_writer \<Rightarrow> stores \<Rightarrow> bool" where
  "col_base hc w ms \<longleftrightarrow>
     values_inv (hc_col hc) (hc_ref_counted hc) (values_of hc) w ms \<and>
     indexes_inv (hc_col hc) (indexes hc) w \<and> pointers_ok (indexes hc) (values_of hc) (writer_query w)"

lemma col_inv_base: "col_inv hc w ms \<Longrightarrow> col_base hc w ms"
  by (simp add: col_inv_def col_base_def)

lemma col_inv_values: "col_inv hc w ms \<Longrightarrow> values_inv (hc_col hc) (hc_ref_counted hc) (values_of hc) w ms"
  by (simp add: col_inv_def)

section \<open>Searching\<close>

lemma store_find_key_at:
  "tail_unique ms k \<Longrightarrow> store_find (ms ! unat (addr_size_tier a)) k (addr_offset a) = key_at ms k a"
  unfolding tail_unique_def store_find_def key_at_def live_at_def
  by (fastforce split: option.split table_key.split)

lemma key_at_unique:
  "values_inv col rcd vts w ms \<Longrightarrow> key_at ms k a \<noteq> None \<Longrightarrow> key_at ms k b \<noteq> None \<Longrightarrow> a = b"
  unfolding values_inv_def tails_distinct_def key_at_def
  by (clarsimp split: option.splits table_key.splits if_splits)

lemma first_some_None: "first_some f is = None \<longleftrightarrow> (\<forall>i\<in>set is. f i = None)"
  by (induction "is") (auto split: option.splits)

lemma first_some_in: "first_some f is = Some x \<Longrightarrow> \<exists>i\<in>set is. f i = Some x"
  by (induction "is") (auto split: option.splits)

text \<open>An entry that the search for \<open>k\<close> visits.\<close>

definition visits :: "index_table \<Rightarrow> log_query \<Rightarrow> key \<Rightarrow> nat \<Rightarrow> ientry \<Rightarrow> bool" where
  "visits t lq k i e \<longleftrightarrow> entry_at t lq (key_chunk t k) i e \<and> sse2_match (ibits t) (index_from_partial k) e"

lemma index_search_visits:
  assumes inv: "index_inv col t" "log_chunks_ok lq"
    and visit: "\<And>i e. visits t lq k i e \<Longrightarrow>
      visit i (entry_address e (ibits t)) = Ok (F i (entry_address e (ibits t)))"
  shows "\<exists>r. index_search k t lq visit = Ok r \<and>
    (r = None \<longleftrightarrow> (\<forall>i e. visits t lq k i e \<longrightarrow> F i (entry_address e (ibits t)) = None)) \<and>
    (\<forall>x. r = Some x \<longrightarrow> (\<exists>i e. visits t lq k i e \<and> F i (entry_address e (ibits t)) = Some x))"
proof -
  have vb: "valid_bits (ibits t)" and mo: "map_ok t" using inv(1) by (simp_all add: index_inv_def)
  note ci = chunk_index_bound [OF vb, of "index_from_partial k"]
  obtain c where c: "chunk_view t lq (chunk_index t (index_from_partial k)) = Ok c" "length c = 512"
    using chunk_view_ok [OF vb mo inv(2) ci] by blast
  have v: "visits t lq k i e \<longleftrightarrow> i \<in> set (matches t k c) \<and> e = read_entry c i" for i e
    using c(1) ci by (auto simp: visits_def entry_at_def key_chunk_def matches_def)
  let ?f = "\<lambda>i. F i (entry_address (read_entry c i) (ibits t))"
  have "index_search k t lq visit = Ok (first_some ?f (matches t k c))"
    by (rule index_search_run [OF vb c]) (use visit v in \<open>simp add: matches_def\<close>)
  then show ?thesis unfolding v using first_some_None [of ?f "matches t k c"] first_some_in [of ?f "matches t k c"] by force
qed

lemma visits_nonzero: "index_inv col t \<Longrightarrow> visits t lq k i e \<Longrightarrow> e \<noteq> 0"
  using sse2_match_facts(2) by (auto simp: index_inv_def visits_def)

lemma tier_lt [simp]: "unat (addr_size_tier a) < 256"
  using unat_bounds by simp

lemma col_base_index: "col_base hc w ms \<Longrightarrow> t \<in> set (indexes hc) \<Longrightarrow> index_inv (hc_col hc) t"
  unfolding col_base_def indexes_inv_def by blast

lemmas col_inv_index = col_base_index [OF col_inv_base]

lemma col_base_chunks: "col_base hc w ms \<Longrightarrow> log_chunks_ok (writer_query w)"
  by (simp add: col_base_def indexes_inv_def)

lemma values_inv_facts:
  assumes "values_inv col rcd vts w ms"
  shows "length vts = 256" "length ms = 256"
    and "t < 256 \<Longrightarrow> store_rel (vts ! t) (writer_query w) (ms ! t)" "t < 256 \<Longrightarrow> hashed (ms ! t)"
    and "t < 256 \<Longrightarrow> vt_ref_counted (vts ! t) = rcd"
proof -
  show l: "length vts = 256" "length ms = 256"
    using assms by (auto simp: values_inv_def tiers_ok_def value_stores.stores_rel_def)
  then show "store_rel (vts ! t) (writer_query w) (ms ! t)" "hashed (ms ! t)" "vt_ref_counted (vts ! t) = rcd" if "t < 256"
    using assms that by (simp_all add: values_inv_def value_stores.stores_rel_def tiers_ok_def small_store_def)
qed

text \<open>What the value tables answer at the address of a visible entry.\<close>

lemma visited_value:
  assumes inv: "col_base hc w ms" and t: "t \<in> set (indexes hc)" and tu: "tail_unique ms k"
    and v: "visits t (writer_query w) k i e"
  defines "a \<equiv> entry_address e (ibits t)"
  shows "has_key_at (values_of hc ! unat (addr_size_tier a)) (addr_offset a) (Partial k) (writer_query w) =
      Ok (key_at ms k a \<noteq> None)"
    and "vt_query (values_of hc ! unat (addr_size_tier a)) (Check (Partial k)) (addr_offset a) (writer_query w) =
      Ok (map_option (\<lambda>(rc, v, c). (v, c, stored_rc (values_of hc ! unat (addr_size_tier a)) rc, None)) (key_at ms k a))"
proof -
  let ?T = "unat (addr_size_tier a)"
  have vi: "values_inv (hc_col hc) (hc_ref_counted hc) (values_of hc) w ms" using inv by (simp add: col_base_def)
  have n: "e \<noteq> 0" using visits_nonzero [OF col_base_index [OF inv t] v] .
  have "0 < addr_offset a" "addr_offset a < vt_filled (values_of hc ! ?T)"
    using inv t v n unfolding col_base_def pointers_ok_def visits_def a_def by blast+
  from store_query [OF values_inv_facts(3,4) [OF vi] this, of k, simplified]
  show "has_key_at (values_of hc ! ?T) (addr_offset a) (Partial k) (writer_query w) = Ok (key_at ms k a \<noteq> None)"
    "vt_query (values_of hc ! ?T) (Check (Partial k)) (addr_offset a) (writer_query w) =
      Ok (map_option (\<lambda>(rc, v, c). (v, c, stored_rc (values_of hc ! ?T) rc, None)) (key_at ms k a))"
    by (simp_all add: store_find_key_at [OF tu])
qed

text \<open>Both searches go through the indexes until one of them has an answer.\<close>

fun first_ok :: "('t \<Rightarrow> 'a option result) \<Rightarrow> 't list \<Rightarrow> 'a option result" where
  "first_ok f [] = Ok None"
| "first_ok f (t # ts) =
     and_then (f t) (\<lambda>r. case r of Some x \<Rightarrow> Ok (Some x) | None \<Rightarrow> first_ok f ts)"

lemma first_ok_rule:
  assumes "\<And>t. t \<in> set ts \<Longrightarrow> \<exists>r. f t = Ok r \<and> (r = None \<longleftrightarrow> N t) \<and> (\<forall>x. r = Some x \<longrightarrow> S t x)"
  shows "\<exists>r. first_ok f ts = Ok r \<and> (r = None \<longleftrightarrow> (\<forall>t\<in>set ts. N t)) \<and>
    (\<forall>x. r = Some x \<longrightarrow> (\<exists>t\<in>set ts. S t x))"
  using assms
proof (induction ts)
  case (Cons t ts)
  obtain r where r: "f t = Ok r" "r = None \<longleftrightarrow> N t" "\<And>x. r = Some x \<Longrightarrow> S t x"
    using Cons.prems [of t, OF list.set_intros(1)] by blast
  have "\<exists>r. first_ok f ts = Ok r \<and> (r = None \<longleftrightarrow> (\<forall>t\<in>set ts. N t)) \<and>
      (\<forall>x. r = Some x \<longrightarrow> (\<exists>t\<in>set ts. S t x))"
    by (rule Cons.IH, rule Cons.prems) simp
  then obtain r' where r': "first_ok f ts = Ok r'" "r' = None \<longleftrightarrow> (\<forall>t\<in>set ts. N t)"
      "\<And>x. r' = Some x \<Longrightarrow> \<exists>t\<in>set ts. S t x" by blast
  show ?case
  proof (cases r)
    case None
    then show ?thesis using r r' by (intro exI [of _ r']) auto
  next
    case (Some x)
    then show ?thesis using r by (intro exI [of _ r]) auto
  qed
qed simp

lemma search_indexes_first: "search_indexes k ts tables w = first_ok (\<lambda>t. search_index k t tables w) ts"
  by (induction ts) (auto intro!: and_then_cong split: option.split)

lemma get_in_indexes_first: "get_in_indexes cd k ts tables lq = first_ok (\<lambda>t. get_in_index cd k t tables lq) ts"
  by (induction ts) (auto intro!: and_then_cong split: option.split)

lemma addr_offset_0 [simp]: "addr_offset 0 = 0"
  by (simp add: addr_offset_def)

lemma live_entry:
  assumes "values_inv col rcd vts w ms" "live_at ms a = Some (rc, Partial k, v, c)"
  shows "a \<noteq> 0" "length k = 32" "addr_offset a < vt_filled (vts ! unat (addr_size_tier a))"
    "0 < stored_rc (vts ! unat (addr_size_tier a)) rc"
proof -
  from assms(2) have m: "(ms ! unat (addr_size_tier a)) (addr_offset a) = Some (rc, Partial k, v, c)"
    by (simp add: live_at_def)
  note f = store_rel_key [OF values_inv_facts(3) [OF assms(1) tier_lt] m]
  from f(3) show "a \<noteq> 0" by auto
  from f(1) show "length k = 32" by (simp add: valid_key_def)
  show "addr_offset a < vt_filled (vts ! unat (addr_size_tier a))" by (rule f(4))
  show "0 < stored_rc (vts ! unat (addr_size_tier a)) rc" by (rule f(2))
qed

lemma key_at_live: "key_at ms k a = Some (rc, v, c) \<longleftrightarrow> live_at ms a = Some (rc, Partial k, v, c)"
  by (auto simp: key_at_def split: option.split table_key.split)

lemma key_at_found: "key_at ms k a \<noteq> None \<Longrightarrow> \<exists>rc v c. live_at ms a = Some (rc, Partial k, v, c)"
  by (auto simp: key_at_def split: option.splits table_key.splits if_splits)

lemma live_visited:
  assumes "col_inv hc w ms" "key_at ms k a \<noteq> None"
  shows "\<exists>t\<in>set (indexes hc). \<exists>i e. visits t (writer_query w) k i e \<and> entry_address e (ibits t) = a"
proof -
  obtain rc v c where l: "live_at ms a = Some (rc, Partial k, v, c)" using key_at_found [OF assms(2)] by blast
  have "complete (indexes hc) (writer_query w) ms" using assms(1) by (simp add: col_inv_def)
  then obtain t i where t: "t \<in> set (indexes hc)" "a \<le> last_address (ibits t)"
      "entry_at t (writer_query w) (key_chunk t k) i (key_entry t k a)"
    using l unfolding complete_def indexed_def by blast
  have "valid_bits (ibits t)" using col_inv_index [OF assms(1) t(1)] by (simp add: index_inv_def)
  moreover have "a \<noteq> 0" by (rule live_entry(1) [OF col_inv_values [OF assms(1)] l])
  ultimately show ?thesis using key_entry_match [OF _ t(2)] t(1,3) unfolding visits_def by blast
qed

lemma unvisited_iff:
  assumes "col_inv hc w ms"
  shows "(\<forall>t\<in>set (indexes hc). \<forall>i e. visits t (writer_query w) k i e \<longrightarrow>
      key_at ms k (entry_address e (ibits t)) = None) \<longleftrightarrow> (\<forall>a. key_at ms k a = None)"
  using live_visited [OF assms, of k] by metis

lemma search_all_indexes_spec:
  assumes inv: "col_inv hc w ms" and tu: "tail_unique ms k"
  shows "\<exists>r. search_all_indexes k (hc_tables hc) (hc_reindex hc) w = Ok r \<and>
    (r = None \<longleftrightarrow> (\<forall>a. key_at ms k a = None)) \<and>
    (\<forall>t i a. r = Some (t, i, a) \<longrightarrow> t \<in> set (indexes hc) \<and> key_at ms k a \<noteq> None \<and>
       (\<exists>e. visits t (writer_query w) k i e \<and> a = entry_address e (ibits t)))"
proof -
  let ?lq = "writer_query w"
  let ?N = "\<lambda>t. \<forall>i e. visits t ?lq k i e \<longrightarrow> key_at ms k (entry_address e (ibits t)) = None"
  let ?S = "\<lambda>t (t', i, a). t' = t \<and> key_at ms k a \<noteq> None \<and> (\<exists>e. visits t ?lq k i e \<and> a = entry_address e (ibits t))"
  have "\<exists>r. search_index k t (hc_tables hc) w = Ok r \<and> (r = None \<longleftrightarrow> ?N t) \<and> (\<forall>x. r = Some x \<longrightarrow> ?S t x)"
    if t: "t \<in> set (indexes hc)" for t
  proof -
    let ?F = "\<lambda>i a. map_option (\<lambda>_. (t, i, a)) (key_at ms k a)"
    have l: "length (values_of hc) = 256" by (rule values_inv_facts(1) [OF col_inv_values [OF inv]])
    have "\<exists>r. index_search k t ?lq (\<lambda>sub_index address.
        let tier = unat (addr_size_tier address) in
        and_then (assert_r (tier < length (values_of hc))) (\<lambda>_.
        and_then (has_key_at (values_of hc ! tier) (addr_offset address) (Partial k) ?lq)
          (\<lambda>found. Ok (if found then Some (t, sub_index, address) else None)))) = Ok r \<and>
      (r = None \<longleftrightarrow> (\<forall>i e. visits t ?lq k i e \<longrightarrow> ?F i (entry_address e (ibits t)) = None)) \<and>
      (\<forall>x. r = Some x \<longrightarrow> (\<exists>i e. visits t ?lq k i e \<and> ?F i (entry_address e (ibits t)) = Some x))"
      by (rule index_search_visits [OF col_inv_index [OF inv t] col_base_chunks [OF col_inv_base [OF inv]]])
        (simp add: visited_value(1) [OF col_inv_base [OF inv] t tu] l Let_def option.case_eq_if map_option_case)
    then obtain r where r: "search_index k t (hc_tables hc) w = Ok r"
        "r = None \<longleftrightarrow> (\<forall>i e. visits t ?lq k i e \<longrightarrow> ?F i (entry_address e (ibits t)) = None)"
        "\<And>x. r = Some x \<Longrightarrow> \<exists>i e. visits t ?lq k i e \<and> ?F i (entry_address e (ibits t)) = Some x"
      unfolding search_index_def by blast
    have "?S t x" if "r = Some x" for x using r(3) [OF that] by auto
    with r(1,2) [unfolded map_option_is_None] show ?thesis by blast
  qed
  from first_ok_rule [of "indexes hc" "\<lambda>t. search_index k t (hc_tables hc) w" ?N ?S, OF this]
  obtain r where r: "search_all_indexes k (hc_tables hc) (hc_reindex hc) w = Ok r"
      "r = None \<longleftrightarrow> (\<forall>t\<in>set (indexes hc). ?N t)" "\<And>x. r = Some x \<Longrightarrow> \<exists>t\<in>set (indexes hc). ?S t x"
    unfolding search_all_indexes_def search_indexes_first by blast
  then show ?thesis unfolding unvisited_iff [OF inv, symmetric] by (intro exI [of _ r]) fastforce
qed

section \<open>Lookup\<close>

text \<open>The value as the client sees it. Stored compressed values can be decompressed.\<close>

definition plain :: "codec \<Rightarrow> compress \<Rightarrow> bytes \<Rightarrow> bool \<Rightarrow> bytes result" where
  "plain cd cp v c = (if c then cp_decompress cd cp v else Ok v)"

definition decodable :: "codec \<Rightarrow> hash_column \<Rightarrow> stores \<Rightarrow> bool" where
  "decodable cd hc ms \<longleftrightarrow>
     (\<forall>a rc k v c. live_at ms a = Some (rc, k, v, c) \<longrightarrow> (\<exists>x. plain cd (hc_compression hc) v c = Ok x))"

lemma get_in_indexes_run:
  assumes inv: "col_base hc w ms" and tu: "tail_unique ms k" and dec: "decodable cd hc ms"
  shows "\<exists>r. get_in_indexes cd k (indexes hc) (hc_as_ref hc) (writer_query w) = Ok r \<and>
    (r = None \<longleftrightarrow> (\<forall>t\<in>set (indexes hc). \<forall>i e. visits t (writer_query w) k i e \<longrightarrow>
      key_at ms k (entry_address e (ibits t)) = None)) \<and>
    (\<forall>y. r = Some y \<longrightarrow> (\<exists>a rc v c. key_at ms k a = Some (rc, v, c) \<and>
      y = (addr_size_tier a, case plain cd (hc_compression hc) v c of Ok x \<Rightarrow> x | _ \<Rightarrow> [])))"
proof -
  let ?lq = "writer_query w"
  let ?val = "\<lambda>v c. case plain cd (hc_compression hc) v c of Ok x \<Rightarrow> x | _ \<Rightarrow> []"
  let ?F = "\<lambda>a. map_option (\<lambda>(rc, v, c). (addr_size_tier a, ?val v c)) (key_at ms k a)"
  let ?N = "\<lambda>t. \<forall>i e. visits t ?lq k i e \<longrightarrow> key_at ms k (entry_address e (ibits t)) = None"
  let ?S = "\<lambda>t x. \<exists>a. ?F a = Some x"
  have "\<exists>r. get_in_index cd k t (hc_as_ref hc) ?lq = Ok r \<and> (r = None \<longleftrightarrow> ?N t) \<and> (\<forall>x. r = Some x \<longrightarrow> ?S t x)"
    if t: "t \<in> set (indexes hc)" for t
  proof -
    have l: "length (values_of hc) = 256" using inv values_inv_facts(1) unfolding col_base_def by blast
    have gv: "get_value cd (Check (Partial k)) a (hc_as_ref hc) ?lq = Ok (?F a)"
      if v: "visits t ?lq k i e" "a = entry_address e (ibits t)" for i e a
    proof (cases "key_at ms k a")
      case None
      then show ?thesis
        using visited_value(2) [OF inv t tu v(1)] v(2) by (simp add: get_value_def hc_as_ref_def l Let_def)
    next
      case (Some y)
      obtain rc v' c where y: "y = (rc, v', c)" by (cases y)
      with Some have "live_at ms a = Some (rc, Partial k, v', c)" by (simp add: key_at_live)
      with dec obtain x where "plain cd (hc_compression hc) v' c = Ok x" unfolding decodable_def by blast
      with Some y v(2) visited_value(2) [OF inv t tu v(1)] show ?thesis
        by (simp add: get_value_def hc_as_ref_def l Let_def plain_def split: if_splits)
    qed
    have "\<exists>r. index_search k t ?lq (\<lambda>_ a. get_value cd (Check (Partial k)) a (hc_as_ref hc) ?lq) = Ok r \<and>
      (r = None \<longleftrightarrow> (\<forall>i e. visits t ?lq k i e \<longrightarrow> ?F (entry_address e (ibits t)) = None)) \<and>
      (\<forall>x. r = Some x \<longrightarrow> (\<exists>i e. visits t ?lq k i e \<and> ?F (entry_address e (ibits t)) = Some x))"
      by (rule index_search_visits [OF col_base_index [OF inv t] col_base_chunks [OF inv]]) (rule gv, assumption, rule refl)
    then show ?thesis unfolding get_in_index_def map_option_is_None by blast
  qed
  from first_ok_rule [of "indexes hc" "\<lambda>t. get_in_index cd k t (hc_as_ref hc) ?lq" ?N ?S, OF this]
  obtain r where r: "get_in_indexes cd k (indexes hc) (hc_as_ref hc) ?lq = Ok r"
      "r = None \<longleftrightarrow> (\<forall>t\<in>set (indexes hc). ?N t)" "\<And>x. r = Some x \<Longrightarrow> \<exists>a. ?F a = Some x"
    unfolding get_in_indexes_first by blast
  have "\<exists>a rc v c. key_at ms k a = Some (rc, v, c) \<and> y = (addr_size_tier a, ?val v c)" if "r = Some y" for y
    using r(3) [OF that] by (auto split: prod.splits)
  with r(1,2) show ?thesis by blast
qed

lemma get_in_indexes_spec:
  assumes inv: "col_inv hc w ms" and tu: "tail_unique ms k" and dec: "decodable cd hc ms"
  shows "(\<forall>a. key_at ms k a = None) \<Longrightarrow>
      get_in_indexes cd k (indexes hc) (hc_as_ref hc) (writer_query w) = Ok None"
    and "key_at ms k a = Some (rc, v, c) \<Longrightarrow> plain cd (hc_compression hc) v c = Ok x \<Longrightarrow>
      get_in_indexes cd k (indexes hc) (hc_as_ref hc) (writer_query w) = Ok (Some (addr_size_tier a, x))"
proof -
  let ?lq = "writer_query w"
  obtain r where r: "get_in_indexes cd k (indexes hc) (hc_as_ref hc) ?lq = Ok r"
      "r = None \<longleftrightarrow> (\<forall>a. key_at ms k a = None)"
      "\<And>y. r = Some y \<Longrightarrow> \<exists>a rc v c. key_at ms k a = Some (rc, v, c) \<and>
        y = (addr_size_tier a, case plain cd (hc_compression hc) v c of Ok x \<Rightarrow> x | _ \<Rightarrow> [])"
    using get_in_indexes_run [OF col_inv_base [OF inv] tu dec] unfolding unvisited_iff [OF inv] by blast
  show "get_in_indexes cd k (indexes hc) (hc_as_ref hc) ?lq = Ok None" if "\<forall>a. key_at ms k a = None"
    using r(1,2) that by simp
  show "get_in_indexes cd k (indexes hc) (hc_as_ref hc) ?lq = Ok (Some (addr_size_tier a, x))"
    if "key_at ms k a = Some (rc, v, c)" "plain cd (hc_compression hc) v c = Ok x"
  proof -
    have "\<not> (\<forall>a. key_at ms k a = None)" using that(1) by (auto intro!: exI [of _ a])
    with r(2) obtain y where y: "r = Some y" by (cases r) auto
    with r(3) obtain b rc' v' c' where b: "key_at ms k b = Some (rc', v', c')"
        "y = (addr_size_tier b, case plain cd (hc_compression hc) v' c' of Ok x \<Rightarrow> x | _ \<Rightarrow> [])" by blast
    then have "b = a" using key_at_unique [OF col_inv_values [OF inv], of k b a] that(1) by auto
    with b that y r(1) show ?thesis by auto
  qed
qed

section \<open>The map of a column\<close>

text \<open>\<open>M k\<close> is the reference counter and the plain value of the key \<open>k\<close>.\<close>

definition col_map :: "codec \<Rightarrow> compress \<Rightarrow> stores \<Rightarrow> (key \<Rightarrow> (u32 \<times> bytes) option) \<Rightarrow> bool" where
  "col_map cd cp ms M \<longleftrightarrow>
     (\<forall>k rc x. M k = Some (rc, x) \<longleftrightarrow>
        (\<exists>a v c. live_at ms a = Some (rc, Partial k, v, c) \<and> plain cd cp v c = Ok x))"

definition col_rel :: "codec \<Rightarrow> hash_column \<Rightarrow> log_writer \<Rightarrow> (key \<Rightarrow> (u32 \<times> bytes) option) \<Rightarrow> bool" where
  "col_rel cd hc w M \<longleftrightarrow>
     (\<exists>ms. col_inv hc w ms \<and> decodable cd hc ms \<and> col_map cd (hc_compression hc) ms M)"

definition no_collision :: "(key \<Rightarrow> 'a option) \<Rightarrow> key \<Rightarrow> bool" where
  "no_collision M k \<longleftrightarrow> (\<forall>h. M h \<noteq> None \<longrightarrow> partial_key k = partial_key h \<longrightarrow> h = k)"

lemma col_map_live:
  assumes "decodable cd hc ms" "col_map cd (hc_compression hc) ms M" "live_at ms a = Some (rc, Partial k, v, c)"
  shows "\<exists>x. M k = Some (rc, x) \<and> plain cd (hc_compression hc) v c = Ok x"
  using assms unfolding decodable_def col_map_def by blast

lemma no_collision_tail:
  assumes "decodable cd hc ms" "col_map cd (hc_compression hc) ms M" "no_collision M k"
  shows "tail_unique ms k"
  using col_map_live [OF assms(1,2)] assms(3) unfolding tail_unique_def no_collision_def by blast

lemma col_map_None:
  assumes "decodable cd hc ms" "col_map cd (hc_compression hc) ms M"
  shows "M k = None \<longleftrightarrow> (\<forall>a. key_at ms k a = None)"
proof
  assume "M k = None"
  then show "\<forall>a. key_at ms k a = None" using col_map_live [OF assms] key_at_found by fastforce
next
  assume n: "\<forall>a. key_at ms k a = None"
  show "M k = None"
  proof (cases "M k")
    case (Some y)
    then obtain a v c where "live_at ms a = Some (fst y, Partial k, v, c)"
      using assms(2) unfolding col_map_def by (metis prod.collapse)
    with n [rule_format, of a] show ?thesis by (simp add: key_at_def)
  qed
qed

lemma hc_get_rel:
  assumes "col_rel cd hc w M" "no_collision M k"
  shows "\<exists>st. hc_get cd hc k (writer_query w) = Ok (map_option snd (M k), hc\<lparr>hc_stats := st\<rparr>)"
proof -
  from assms(1) obtain ms where ms: "col_inv hc w ms" "decodable cd hc ms" "col_map cd (hc_compression hc) ms M"
    unfolding col_rel_def by blast
  note tu = no_collision_tail [OF ms(2,3) assms(2)]
  show ?thesis
  proof (cases "M k")
    case None
    then have "\<forall>a. key_at ms k a = None" using col_map_None [OF ms(2,3)] by blast
    from get_in_indexes_spec(1) [OF ms(1) tu ms(2) this] None show ?thesis
      by (cases "hc_collect_stats hc") (auto simp: hc_get_def intro: exI [of _ "hc_stats hc"])
  next
    case (Some y)
    obtain rc x where y: "y = (rc, x)" by (cases y)
    then obtain a v c where a: "live_at ms a = Some (rc, Partial k, v, c)" "plain cd (hc_compression hc) v c = Ok x"
      using Some ms(3) unfolding col_map_def by blast
    from get_in_indexes_spec(2) [OF ms(1) tu ms(2) a(1) [folded key_at_live] a(2)] Some y show ?thesis
      by (cases "hc_collect_stats hc") (auto simp: hc_get_def intro: exI [of _ "hc_stats hc"])
  qed
qed

end
