(* ===== verification/Column_Write.thy ===== *)
theory Column_Write
  imports Column_Inv
begin

text \<open>
  The value tables of a column: what updating one store does to the stores of all tiers, and the
  tier and the stored form that are chosen for a value.
\<close>

section \<open>Addresses\<close>

lemma addr_new_parts [simp]: "addr_new (addr_offset a) (addr_size_tier a) = a"
proof -
  have m: "push_bit 8 1 - 1 = (mask 8 :: u64)" by (simp add: mask_eq_exp_minus_1 push_bit_eq_mult)
  show ?thesis unfolding addr_offset_def addr_new_def addr_size_tier_def m
    by (rule bit_word_eqI) (auto simp: bit_simps dest: bit_imp_le_length, metis add_diff_inverse_nat)
qed

lemma live_at_upd:
  assumes "length ms = 256" "t < 256" "drop_bit 56 i = 0"
  shows "live_at (ms[t := (ms ! t)(i := x)]) = (live_at ms)(addr_new i (word_of_nat t) := x)"
proof
  fix a
  have w: "unat (word_of_nat t :: u8) = t" using assms(2) by (simp add: unat_of_nat)
  show "live_at (ms[t := (ms ! t)(i := x)]) a = ((live_at ms)(addr_new i (word_of_nat t) := x)) a"
  proof (cases "a = addr_new i (word_of_nat t)")
    case True
    then show ?thesis using assms w addr_roundtrip [OF assms(3), of "word_of_nat t"] by (simp add: live_at_def)
  next
    case False
    then have "\<not> (addr_offset a = i \<and> unat (addr_size_tier a) = t)" using addr_new_parts [of a] w
      by (metis word_unat_eq_iff)
    with False assms show ?thesis by (auto simp: live_at_def nth_list_update)
  qed
qed

section \<open>Value tables\<close>

lemma store_rel_values:
  assumes "writer_value w' (vt_id vt) = writer_value w (vt_id vt)" "store_rel vt (writer_query w) m"
  shows "store_rel vt (writer_query w') m"
proof -
  from assms(2) obtain fl L where L: "table_inv vt (writer_query w) fl L" "m = live_map L"
    by (auto simp: store_rel_def)
  have "slot_prefix vt (writer_query w') i p = slot_prefix vt (writer_query w) i p" for i p
    using assms(1) by (simp add: slot_prefix_def slot_view_def writer_query_def)
  then have "table_inv (vt\<lparr>vt_file := vt_file vt\<rparr>) (writer_query w') fl L"
    using table_inv_mono [OF L(1) refl, of "vt_file vt" "writer_query w'"] by simp
  with L(2) show ?thesis by (auto simp: store_rel_def)
qed

lemma values_inv_index_write:
  assumes "writer_value w' = writer_value w" "values_inv col rcd vts w ms"
  shows "values_inv col rcd vts w' ms"
  using assms(2) store_rel_values [of w' _ w] assms(1)
  by (simp add: values_inv_def value_stores.stores_rel_def)

lemma tails_distinct_upd:
  assumes "tails_distinct ms" "live_at ms' = (live_at ms)(a := x)"
    and "\<And>rc h v c b rc' h' v' c'. x = Some (rc, Partial h, v, c) \<Longrightarrow> b \<noteq> a \<Longrightarrow>
      live_at ms b = Some (rc', Partial h', v', c') \<Longrightarrow> partial_key h \<noteq> partial_key h'"
  shows "tails_distinct ms'"
  unfolding tails_distinct_def assms(2)
  using assms(1) [unfolded tails_distinct_def] assms(3) by (auto simp: fun_upd_apply split: if_splits) metis+

lemma tiers_ok_upd:
  "tiers_ok col rcd vts \<Longrightarrow> same_table (vts ! t) vt' \<Longrightarrow> tiers_ok col rcd (vts[t := vt'])"
proof -
  assume a: "tiers_ok col rcd vts" "same_table (vts ! t) vt'"
  have "same_table (vts ! i) (vts[t := vt'] ! i)" if "i < length vts" for i
    using a(2) that by (cases "i = t") simp_all
  with a(1) show ?thesis by (simp add: tiers_ok_def same_table_def)
qed

lemma values_inv_upd:
  assumes vi: "values_inv col rcd vts w ms" and t: "t < 256" and st: "same_table (vts ! t) vt'"
    and sr: "store_rel vt' (writer_query w') ((ms ! t)(i := x))" and fr: "frame_w (vt_id (vts ! t)) w w'"
    and sm: "drop_bit 56 i = 0" and hx: "x = None \<or> (\<exists>rc h v c. x = Some (rc, Partial h, v, c))"
    and td: "\<And>rc h v c b rc' h' v' c'. x = Some (rc, Partial h, v, c) \<Longrightarrow> b \<noteq> addr_new i (word_of_nat t) \<Longrightarrow>
      live_at ms b = Some (rc', Partial h', v', c') \<Longrightarrow> partial_key h \<noteq> partial_key h'"
  shows "values_inv col rcd (vts[t := vt']) w' (ms[t := (ms ! t)(i := x)])"
    and "live_at (ms[t := (ms ! t)(i := x)]) = (live_at ms)(addr_new i (word_of_nat t) := x)"
proof -
  note f = values_inv_facts [OF vi]
  show l: "live_at (ms[t := (ms ! t)(i := x)]) = (live_at ms)(addr_new i (word_of_nat t) := x)"
    by (rule live_at_upd [OF f(2) t sm])
  have "value_stores.stores_rel (vts[t := vt']) w' (ms[t := (ms ! t)(i := x)])"
    using vi t f(1) same_table_id [OF st] sr fr by (intro value_stores.stores_upd) (simp_all add: values_inv_def)
  moreover have "small_store m" if m: "m \<in> set (ms[t := (ms ! t)(i := x)])" for m
  proof -
    have "small_store (ms ! t)" using vi t f(2) by (simp add: values_inv_def)
    then have "small_store ((ms ! t)(i := x))" using sm hx by (auto simp: small_store_def hashed_def)
    then show ?thesis using m vi set_update_subset_insert [of ms t] unfolding values_inv_def by blast
  qed
  moreover have "tails_distinct (ms[t := (ms ! t)(i := x)])"
    using vi by (intro tails_distinct_upd [OF _ l td]) (simp add: values_inv_def)
  ultimately show "values_inv col rcd (vts[t := vt']) w' (ms[t := (ms ! t)(i := x)])"
    using vi tiers_ok_upd [OF _ st] by (simp add: values_inv_def)
qed

section \<open>The tier of a value\<close>

lemma length_SIZES: "length SIZES = 255"
  by (simp add: SIZES_def)

lemma SIZES_last: "SIZES ! 254 = 32760"
proof -
  have "SIZES ! 254 = last SIZES" using length_SIZES by (subst last_conv_nth) auto
  also have "\<dots> = 32760" by (simp add: SIZES_def)
  finally show ?thesis .
qed

lemma SIZES_large: "i < 255 \<Longrightarrow> 32 \<le> SIZES ! i"
proof -
  have "list_all (\<lambda>n. 32 \<le> n) SIZES" by (simp add: SIZES_def)
  then show "i < 255 \<Longrightarrow> 32 \<le> SIZES ! i" by (simp add: list_all_length length_SIZES)
qed

lemma value_size_fits:
  assumes "\<not> vt_multipart vt" "32 \<le> es vt"
  shows "(case value_size vt k of Some s \<Rightarrow> length v \<le> s | None \<Rightarrow> False) \<longleftrightarrow> fits vt k v"
  using assms by (auto simp: value_size_def fits_def Let_def ref_size_def)

lemma position_spec:
  "position p xs = Some i \<Longrightarrow> i < length xs \<and> p (xs ! i) \<and> (\<forall>j<i. \<not> p (xs ! j))"
  "position p xs = None \<Longrightarrow> (\<forall>j<length xs. \<not> p (xs ! j))"
  by (auto simp: position_def find_Some_iff find_None_iff)

lemma tier_fits:
  assumes "tiers_ok col rcd vts"
  shows "let t = (case position (\<lambda>t. case value_size t k of Some s \<Rightarrow> length v \<le> s | None \<Rightarrow> False) vts of
      Some tier \<Rightarrow> tier | None \<Rightarrow> length vts - 1) in t < 256 \<and> fits (vts ! t) k v"
proof -
  let ?p = "\<lambda>t. case value_size t k of Some s \<Rightarrow> length v \<le> s | None \<Rightarrow> False"
  have len: "length vts = 256" using assms by (simp add: tiers_ok_def)
  have big: "fits (vts ! 255) k v" if "\<not> ?p (vts ! 254)"
  proof -
    have t: "es (vts ! 254) = 32760" "ref_size (vts ! 254) = ref_size (vts ! 255)" "\<not> vt_multipart (vts ! 254)"
        "vt_multipart (vts ! 255)" "es (vts ! 255) = 4096"
      using assms SIZES_last by (simp_all add: tiers_ok_def ref_size_def)
    have "\<not> fits (vts ! 254) k v"
      using that value_size_fits [OF t(3), where v = v and k = k] t(1) by simp
    then show ?thesis using t by (simp add: fits_def)
  qed
  show ?thesis
  proof (cases "position ?p vts")
    case None
    then have "\<not> ?p (vts ! 254)" using position_spec(2) [OF None] len by simp
    then show ?thesis using big None len by (simp add: Let_def)
  next
    case (Some i)
    note pos = position_spec(1) [OF Some]
    show ?thesis
    proof (cases "i = 255")
      case True
      then have "\<not> ?p (vts ! 254)" using pos by simp
      then show ?thesis using big Some True by (simp add: Let_def)
    next
      case False
      then have "i < 255" using pos len by simp
      then have "\<not> vt_multipart (vts ! i)" "32 \<le> es (vts ! i)" using assms SIZES_large [of i]
        by (simp_all add: tiers_ok_def word_le_nat_alt)
      then show ?thesis using value_size_fits [of "vts ! i", where v = v and k = k] pos Some len by (simp add: Let_def)
    qed
  qed
qed

lemma column_compress_spec:
  assumes "tiers_ok col rcd vts" "codec_ok cd" "column_compress cd cp k val vts = (cv, t)"
    and "stored_form cv val = (sv, c)"
  shows "t < 256" "fits (vts ! t) k sv" "plain cd cp sv c = Ok val" "length sv \<le> length val"
proof -
  obtain len where sv: "length sv = len" "length sv \<le> length val" "plain cd cp sv c = Ok val"
      "t = (case position (\<lambda>t. case value_size t k of Some s \<Rightarrow> len \<le> s | None \<Rightarrow> False) vts of
        Some tier \<Rightarrow> tier | None \<Rightarrow> length vts - 1)"
  proof -
    let ?c = "cp_compress cd cp val"
    consider "length val > unat (cp_threshold cp)" "length ?c < length val"
      | "\<not> (length val > unat (cp_threshold cp) \<and> length ?c < length val)" by blast
    then show thesis
    proof cases
      case 1
      with assms(3,4) have "sv = ?c" "c" by (auto simp: column_compress_def stored_form_def Let_def)
      with 1 assms(2,3) show thesis
        by (intro that [of "length ?c"]) (auto simp: column_compress_def Let_def plain_def cp_roundtrip)
    next
      case 2
      with assms(3,4) have "sv = val" "\<not> c" by (auto simp: column_compress_def stored_form_def Let_def split: if_splits)
      with 2 assms(3) show thesis
        by (intro that [of "length val"]) (auto simp: column_compress_def Let_def plain_def split: if_splits)
    qed
  qed
  from tier_fits [OF assms(1), where k = k and v = sv] show "t < 256" "fits (vts ! t) k sv"
    unfolding sv(1) sv(4) [symmetric] Let_def by blast+
  from sv show "plain cd cp sv c = Ok val" "length sv \<le> length val" by blast+
qed

end
