(* ===== verification/Column_Index.thy ===== *)
theory Column_Index
  imports Column_Write
begin

text \<open>
  The indexes of a column: what one rewritten entry changes, and that inserting an entry ends,
  with as many larger indexes as it takes, and keeps everything that was indexed.
\<close>

section \<open>Index tables\<close>

lemma it_write_remove_plan_view:
  assumes "sub < 64"
  shows "it_write_remove_plan t k sub w =
    and_then (chunk_view t (writer_query w) (key_chunk t k)) (\<lambda>c. plan_remove_chunk t (index_from_partial k) c sub w)"
  using assms by (simp add: it_write_remove_plan_def chunk_view_def Let_def writer_query_def key_chunk_def
      plan_remove_chunk_def entry_is_empty_def split: option.split)

lemma indexes_invD:
  assumes "indexes_inv col ts w" "t \<in> set ts"
  shows "index_inv col t" "ibits t \<le> ibits (hd ts)" "log_chunks_ok (writer_query w)"
    and "t' \<in> set ts \<Longrightarrow> it_id t' = it_id t \<Longrightarrow> t' = t"
  using assms by (auto simp: indexes_inv_def distinct_map dest: inj_onD)

lemma key_chunk_view:
  assumes "indexes_inv col ts w" "t \<in> set ts"
  obtains c where "chunk_view t (writer_query w) (key_chunk t k) = Ok c" "length c = 512"
    "unat (key_chunk t k) < 2 ^ unat (ibits t)"
proof -
  note i = indexes_invD [OF assms]
  have vb: "valid_bits (ibits t)" "map_ok t" using i(1) by (simp_all add: index_inv_def)
  note ci = chunk_index_bound [OF vb(1), of "index_from_partial k"]
  from chunk_view_ok [OF vb i(3) ci] ci show thesis using that by (auto simp: key_chunk_def)
qed

text \<open>One entry of a chunk is rewritten through the log.\<close>

definition index_write ::
    "u8 \<Rightarrow> index_table list \<Rightarrow> index_table \<Rightarrow> log_writer \<Rightarrow> u64 \<Rightarrow> nat \<Rightarrow> ientry \<Rightarrow> chunk \<Rightarrow> log_writer \<Rightarrow> bool" where
  "index_write col ts t w ci i e c w' \<longleftrightarrow>
     indexes_inv col ts w \<and> t \<in> set ts \<and> i < 64 \<and> chunk_view t (writer_query w) ci = Ok c \<and> length c = 512 \<and>
     w' = insert_index (it_id t) ci (word_of_nat i) (write_entry e i c) w"

lemma index_writeD:
  assumes "index_write col ts t w ci i e c w'"
  shows "indexes_inv col ts w" "t \<in> set ts" "i < 64" "chunk_view t (writer_query w) ci = Ok c" "length c = 512"
    "w' = insert_index (it_id t) ci (word_of_nat i) (write_entry e i c) w"
  using assms unfolding index_write_def by blast+

lemma entry_at_write:
  assumes iw: "index_write col ts t w ci i e c w'" and t': "t' \<in> set ts"
  shows "entry_at t' (writer_query w') cj j x \<longleftrightarrow>
    (if t' = t \<and> cj = ci \<and> j = i then unat ci < 2 ^ unat (ibits t) \<and> x = e else entry_at t' (writer_query w) cj j x)"
proof (cases "it_id t' = it_id t")
  case True
  then have e: "t' = t" using indexes_invD(4) [OF index_writeD(1,2) [OF iw] t'] by blast
  show ?thesis
  proof (cases "cj = ci")
    case False
    then have "chunk_view t (writer_query w') cj = chunk_view t (writer_query w) cj"
      by (simp add: index_writeD(6) [OF iw] chunk_view_insert_index)
    with e False show ?thesis by (simp add: entry_at_def)
  next
    case True
    then have "chunk_view t (writer_query w') cj = Ok (write_entry e i c)"
      by (simp add: index_writeD(6) [OF iw] chunk_view_insert_index)
    with True e index_writeD(3-5) [OF iw] show ?thesis by (auto simp: entry_at_def read_write_entry)
  qed
next
  case False
  then have "chunk_view t' (writer_query w') cj = chunk_view t' (writer_query w) cj"
    by (auto simp: index_writeD(6) [OF iw] chunk_view_def writer_query_def split: option.split)
  with False show ?thesis by (auto simp: entry_at_def)
qed

lemma indexes_inv_write:
  assumes iw: "index_write col ts t w ci i e c w'"
  shows "indexes_inv col ts w'"
proof -
  note d = index_writeD [OF iw]
  have "log_chunks_ok (writer_query w')"
    using d by (auto simp: indexes_inv_def log_chunks_ok_def writer_query_def split: if_splits)
  moreover have "index_id_new col b \<noteq> it_id t" if "ibits (hd ts) < b" for b
    using indexes_invD(2) [OF d(1,2)] that index_id_roundtrip(2) [of col b] by (metis leD)
  then have "\<forall>b ci. ibits (hd ts) < b \<longrightarrow> writer_index w' (index_id_new col b) ci = None"
    using d(1) by (simp add: indexes_inv_def d(6))
  ultimately show ?thesis using d(1) by (simp add: indexes_inv_def)
qed

definition points_into :: "value_table list \<Rightarrow> address \<Rightarrow> bool" where
  "points_into vts a \<longleftrightarrow> 0 < addr_offset a \<and> addr_offset a < vt_filled (vts ! unat (addr_size_tier a))"

lemma pointers_okD:
  "pointers_ok ts vts lq \<Longrightarrow> t \<in> set ts \<Longrightarrow> entry_at t lq ci i e \<Longrightarrow> e \<noteq> 0 \<Longrightarrow>
   points_into vts (entry_address e (ibits t))"
  unfolding pointers_ok_def points_into_def by blast

lemma pointers_ok_write:
  assumes iw: "index_write col ts t w ci i e c w'" and p: "pointers_ok ts vts (writer_query w)"
    and e: "e \<noteq> 0 \<Longrightarrow> points_into vts (entry_address e (ibits t))"
  shows "pointers_ok ts vts (writer_query w')"
  unfolding pointers_ok_def points_into_def [symmetric]
proof (intro ballI allI impI)
  fix t' cj j x assume t': "t' \<in> set ts" and x: "entry_at t' (writer_query w') cj j x" "x \<noteq> 0"
  note x = x(1) [unfolded entry_at_write [OF iw t']] x(2)
  show "points_into vts (entry_address x (ibits t'))"
  proof (cases "t' = t \<and> cj = ci \<and> j = i")
    case True
    with x e show ?thesis by auto
  next
    case False
    with x(1) have "entry_at t' (writer_query w) cj j x" by (simp only: if_False)
    from pointers_okD [OF p t' this x(2)] show ?thesis .
  qed
qed

lemma indexed_write:
  assumes iw: "index_write col ts t w ci i e c w'" and t': "t' \<in> set ts"
    and k: "indexed t' (writer_query w) k a" "a \<noteq> entry_address (read_entry c i) (ibits t)" "a \<noteq> 0"
  shows "indexed t' (writer_query w') k a"
proof -
  from k(1) obtain j where j: "a \<le> last_address (ibits t')"
      "entry_at t' (writer_query w) (key_chunk t' k) j (key_entry t' k a)" unfolding indexed_def by blast
  have vb: "valid_bits (ibits t')" using indexes_invD(1) [OF index_writeD(1) [OF iw] t'] by (simp add: index_inv_def)
  have "\<not> (t' = t \<and> key_chunk t' k = ci \<and> j = i)"
  proof
    assume p: "t' = t \<and> key_chunk t' k = ci \<and> j = i"
    then have "read_entry c i = key_entry t' k a" using j(2) index_writeD(4) [OF iw] by (auto simp: entry_at_def)
    with p k(2) key_entry_match(2) [OF vb j(1) k(3), of k] show False by simp
  qed
  then have "entry_at t' (writer_query w') (key_chunk t' k) j (key_entry t' k a)"
    unfolding entry_at_write [OF iw t'] using j(2) by (simp only: if_False)
  with j(1) show ?thesis unfolding indexed_def by blast
qed

lemma indexed_new:
  assumes iw: "index_write col ts t w (key_chunk t k) i (key_entry t k a) c w'" and a: "a \<le> last_address (ibits t)"
  shows "indexed t (writer_query w') k a"
proof -
  note d = index_writeD [OF iw]
  have "valid_bits (ibits t)" using indexes_invD(1) [OF d(1,2)] by (simp add: index_inv_def)
  from chunk_index_bound [OF this] have "unat (key_chunk t k) < 2 ^ unat (ibits t)" by (simp add: key_chunk_def)
  then have "entry_at t (writer_query w') (key_chunk t k) i (key_entry t k a)"
    unfolding entry_at_write [OF iw d(2)] by simp
  with a show ?thesis unfolding indexed_def by blast
qed

section \<open>A larger index\<close>

lemma new_index:
  assumes inv: "indexes_inv col (t # q) w" and b: "unat (ibits t) < 49"
  defines "nt \<equiv> it_create_new (index_id_new (index_id_col (it_id t)) (ibits t + 1))"
  shows "ibits nt = ibits t + 1" "unat (ibits nt) = unat (ibits t) + 1" "indexes_inv col (nt # q @ [t]) w"
    and "\<not> (entry_at nt (writer_query w) ci i e \<and> e \<noteq> 0)"
proof -
  have it: "index_inv col t" using inv by (simp add: indexes_inv_def)
  then have c: "it_id t = index_id_new col (ibits t)" by (simp add: index_inv_def)
  then have cc: "index_id_col (it_id t) = col" by (metis index_id_roundtrip(1))
  show ib: "ibits nt = ibits t + 1" by (simp add: nt_def it_create_new_def)
  show ub: "unat (ibits nt) = unat (ibits t) + 1" using b by (simp add: ib unat_word_ariths)
  have lt: "ibits t < ibits nt" using ub by (simp add: word_less_nat_alt)
  have nid: "it_id nt = index_id_new col (ibits nt)" "it_map nt = None"
    by (simp_all add: ib cc nt_def it_create_new_def)
  have "index_inv col nt"
    using it b ub nid by (simp add: index_inv_def valid_bits_def map_ok_def)
  moreover have "it_id nt \<notin> it_id ` set (t # q)"
  proof
    assume "it_id nt \<in> it_id ` set (t # q)"
    then obtain u where u: "u \<in> set (t # q)" "it_id nt = it_id u" by (rule imageE)
    then have "ibits u = ibits nt" by simp
    with u(1) inv lt show False unfolding indexes_inv_def by auto
  qed
  moreover have "ibits u \<le> ibits nt" if "u \<in> set (t # q)" for u
    using inv that lt unfolding indexes_inv_def by (auto intro: order.trans less_imp_le)
  ultimately show "indexes_inv col (nt # q @ [t]) w"
    using inv lt by (auto simp: indexes_inv_def)
  have "writer_index w (it_id nt) ci = None"
    by (subst nid(1)) (use inv lt in \<open>simp add: indexes_inv_def\<close>)
  then show "\<not> (entry_at nt (writer_query w) ci i e \<and> e \<noteq> 0)"
    by (auto simp: entry_at_def chunk_view_def writer_query_def nid(2))
qed

text \<open>
  What inserting an entry does to the indexes, with as many new indexes as it takes: the entry is
  in the newest index, and everything that was indexed still is.
\<close>

definition entry_added ::
    "u8 \<Rightarrow> value_table list \<Rightarrow> key \<Rightarrow> address \<Rightarrow> index_table list \<Rightarrow> log_writer \<Rightarrow> index_table list \<Rightarrow> log_writer \<Rightarrow> bool" where
  "entry_added col vts k a ts w ts' w' \<longleftrightarrow>
     indexes_inv col ts' w' \<and> pointers_ok ts' vts (writer_query w') \<and> writer_value w' = writer_value w \<and>
     set ts \<subseteq> set ts' \<and> indexed (hd ts') (writer_query w') k a \<and>
     (\<forall>t\<in>set ts. \<forall>k' a'. a' \<noteq> 0 \<longrightarrow> indexed t (writer_query w) k' a' \<longrightarrow> indexed t (writer_query w') k' a')"

lemma insert_written:
  assumes inv: "indexes_inv col (t # q) w" and p: "pointers_ok (t # q) vts (writer_query w)"
    and a: "points_into vts a" "a \<le> last_address (ibits t)"
    and c: "chunk_view t (writer_query w) (key_chunk t k) = Ok c" "length c = 512" "i < 64" "read_entry c i = 0"
    and w': "w' = insert_index (it_id t) (key_chunk t k) (word_of_nat i) (write_entry (key_entry t k a) i c) w"
  shows "entry_added col vts k a (t # q) w (t # q) w'"
proof -
  have iw: "index_write col (t # q) t w (key_chunk t k) i (key_entry t k a) c w'"
    using inv c w' by (simp add: index_write_def)
  have a0: "a \<noteq> 0" using a(1) by (auto simp: points_into_def)
  have vb: "valid_bits (ibits t)" using inv by (simp add: indexes_inv_def index_inv_def)
  have "pointers_ok (t # q) vts (writer_query w')"
    using key_entry_match(2) [OF vb a(2) a0] a(1) by (intro pointers_ok_write [OF iw p]) simp
  moreover have "indexed u (writer_query w') k' a'" if "u \<in> set (t # q)" "a' \<noteq> 0" "indexed u (writer_query w) k' a'" for u k' a'
    using that c(4) by (intro indexed_write [OF iw]) (simp_all add: entry_address_def)
  moreover have "writer_value w' = writer_value w" by (simp add: w')
  ultimately show ?thesis
    using indexes_inv_write [OF iw] indexed_new [OF iw a(2)] unfolding entry_added_def list.sel by blast
qed

lemma entry_added_trigger:
  assumes inv: "indexes_inv col (t # q) w" and b: "unat (ibits t) < 49"
    and nt: "nt = it_create_new (index_id_new (index_id_col (it_id t)) (ibits t + 1))"
    and e: "entry_added col vts k a (nt # q @ [t]) w ts' w'"
  shows "entry_added col vts k a (t # q) w ts' w'"
  using e unfolding entry_added_def by auto

lemma insert_or_reindex_spec:
  assumes "indexes_inv col (tb_index tb # rx_queue rx) w" "pointers_ok (tb_index tb # rx_queue rx) vts (writer_query w)"
    and a: "points_into vts a" "drop_bit 55 (addr_offset a) = 0"
    and "unat (ibits (tb_index tb)) \<le> 48"
  shows "\<exists>outcome tb' rx' w'. insert_or_reindex k a tb rx w = Ok (outcome, tb', rx', w') \<and> outcome \<noteq> Skipped \<and>
    tb_value tb' = tb_value tb \<and> rx_progress rx' = rx_progress rx \<and>
    entry_added col vts k a (tb_index tb # rx_queue rx) w (tb_index tb' # rx_queue rx') w'"
proof -
  let ?body = "\<lambda>(outcome, tables, reindex, w).
       and_then (it_write_insert_plan (tb_index tables) k a None w) (\<lambda>(r, w).
         case r of
           NeedReindex \<Rightarrow>
             (let (tables, reindex) = trigger_reindex tables reindex
              in Ok (Inl (NeedReindex, tables, reindex, w)))
         | _ \<Rightarrow> Ok (Inr (outcome, tables, reindex, w)))"
  have "\<exists>outcome tb' rx' w'. loop_r ?body (out, tb, rx, w) = Ok (outcome, tb', rx', w') \<and> outcome \<noteq> Skipped \<and>
      tb_value tb' = tb_value tb \<and> rx_progress rx' = rx_progress rx \<and>
      entry_added col vts k a (tb_index tb # rx_queue rx) w (tb_index tb' # rx_queue rx') w'"
    if "indexes_inv col (tb_index tb # rx_queue rx) w" "pointers_ok (tb_index tb # rx_queue rx) vts (writer_query w)"
      "unat (ibits (tb_index tb)) \<le> 48 \<or>
        (\<forall>i e. entry_at (tb_index tb) (writer_query w) (key_chunk (tb_index tb) k) i e \<longrightarrow> e = 0)" "out \<noteq> Skipped"
    for tb rx out w
    using that
  proof (induction "49 - unat (ibits (tb_index tb))" arbitrary: tb rx out rule: less_induct)
    case less
    note inv = less.prems(1) and p = less.prems(2)
    let ?t = "tb_index tb"
    have vb: "valid_bits (ibits ?t)" using inv by (simp add: indexes_inv_def index_inv_def)
    obtain c where c: "chunk_view ?t (writer_query w) (key_chunk ?t k) = Ok c" "length c = 512"
        "unat (key_chunk ?t k) < 2 ^ unat (ibits ?t)"
      using key_chunk_view [OF inv list.set_intros(1)] by blast
    note ins = it_insert_free [OF vb c(1) [unfolded key_chunk_def] c(2), of a]
    show ?case
    proof (cases "a \<le> last_address (ibits ?t) \<and> (\<exists>i<64. read_entry c i = 0)")
      case True
      then obtain i0 where "i0 < 64" "read_entry c i0 = 0" by blast
      then have i: "(LEAST i. read_entry c i = 0) < 64" "read_entry c (LEAST i. read_entry c i = 0) = 0"
        using Least_le [of "\<lambda>i. read_entry c i = 0" i0] LeastI [of "\<lambda>i. read_entry c i = 0" i0] by simp_all
      let ?w = "insert_index (it_id ?t) (key_chunk ?t k) (word_of_nat (LEAST i. read_entry c i = 0))
          (write_entry (key_entry ?t k a) (LEAST i. read_entry c i = 0) c) w"
      have "loop_r ?body (out, tb, rx, w) = Ok (out, tb, rx, ?w)"
        by (subst loop_r_unfold) (simp add: ins True Let_def key_chunk_def)
      moreover have "entry_added col vts k a (?t # rx_queue rx) w (?t # rx_queue rx) ?w"
        using True by (intro insert_written [OF inv p a(1) _ c(1,2) i refl]) simp
      ultimately show ?thesis using less.prems(4) by blast
    next
      case False
      have b: "unat (ibits ?t) < 49"
      proof (rule ccontr)
        assume "\<not> unat (ibits ?t) < 49"
        then have b49: "unat (ibits ?t) = 49" using vb by (simp add: valid_bits_def)
        with less.prems(3) c have "read_entry c 0 = 0" by (auto simp: entry_at_def)
        moreover have "a \<le> last_address (ibits ?t)"
          using addr_new_le_last [OF vb, of "addr_offset a" "addr_size_tier a"] a(2) b49 by simp
        moreover have "(0::nat) < 64" by simp
        ultimately show False using False by blast
      qed
      let ?nt = "it_create_new (index_id_new (index_id_col (it_id ?t)) (ibits ?t + 1))"
      let ?tb = "tb\<lparr>tb_index := ?nt\<rparr>" and ?rx = "rx\<lparr>rx_queue := rx_queue rx @ [?t]\<rparr>"
      note n = new_index [OF inv b]
      have l: "loop_r ?body (out, tb, rx, w) = loop_r ?body (NeedReindex, ?tb, ?rx, w)"
        by (subst loop_r_unfold) (simp add: ins False Let_def trigger_reindex_def)
      have "pointers_ok (?nt # rx_queue rx @ [?t]) vts (writer_query w)"
        using p n(4) unfolding pointers_ok_def by (simp only: set_simps set_append Un_iff insert_iff empty_iff) blast
      moreover have "49 - unat (ibits ?nt) < 49 - unat (ibits ?t)" using n(2) b by simp
      ultimately obtain outcome tb' rx' w' where "loop_r ?body (NeedReindex, ?tb, ?rx, w) = Ok (outcome, tb', rx', w')"
          "outcome \<noteq> Skipped" "tb_value tb' = tb_value ?tb" "rx_progress rx' = rx_progress ?rx"
          "entry_added col vts k a (?nt # rx_queue rx @ [?t]) w (tb_index tb' # rx_queue rx') w'"
        using less.hyps [of ?tb ?rx NeedReindex] n(3,4) by auto
      with entry_added_trigger [OF inv b refl] l show ?thesis by auto
    qed
  qed
  from this [OF assms(1,2) disjI1 [OF assms(5)], of Written] show ?thesis
    unfolding insert_or_reindex_def by simp
qed

end
