(* ===== verification/Column_Plan.thy ===== *)
theory Column_Plan
  imports Column_Index
begin

text \<open>
  Planning a change of a hash column: each case of \<open>write_plan\<close> runs to its end, keeps the
  invariant of the column and changes the stored values as it should.
\<close>

section \<open>Changes of the value tables\<close>

lemma index_view_same:
  assumes "writer_index w' = writer_index w"
  shows "entry_at t (writer_query w') = entry_at t (writer_query w)"
    and "indexed t (writer_query w') = indexed t (writer_query w)"
proof -
  have "chunk_view t (writer_query w') = chunk_view t (writer_query w)"
    using assms by (simp add: chunk_view_def writer_query_def fun_eq_iff)
  then show e: "entry_at t (writer_query w') = entry_at t (writer_query w)" by (simp add: entry_at_def fun_eq_iff)
  then show "indexed t (writer_query w') = indexed t (writer_query w)" by (simp add: indexed_def fun_eq_iff)
qed

definition filled_mono :: "value_table list \<Rightarrow> value_table list \<Rightarrow> bool" where
  "filled_mono vts vts' \<longleftrightarrow> (\<forall>t<256. vt_filled (vts ! t) \<le> vt_filled (vts' ! t))"

lemma filled_mono_upd:
  "vt_filled (vts ! t) \<le> vt_filled vt' \<Longrightarrow> filled_mono vts (vts[t := vt'])"
  unfolding filled_mono_def
proof (intro allI impI)
  fix j assume "vt_filled (vts ! t) \<le> vt_filled vt'"
  then show "vt_filled (vts ! j) \<le> vt_filled (vts[t := vt'] ! j)"
    by (cases "j = t"; cases "t < length vts") (simp_all add: list_update_beyond)
qed

lemma values_step:
  assumes "indexes_inv col ts w" "pointers_ok ts vts (writer_query w)" "writer_index w' = writer_index w"
    and "filled_mono vts vts'"
  shows "indexes_inv col ts w'" "pointers_ok ts vts' (writer_query w')"
proof -
  show "indexes_inv col ts w'"
    using assms(1,3) by (simp add: indexes_inv_def log_chunks_ok_def writer_query_def)
  have "vt_filled (vts ! unat (addr_size_tier a)) \<le> vt_filled (vts' ! unat (addr_size_tier a))" for a
    using assms(4) by (simp add: filled_mono_def)
  then show "pointers_ok ts vts' (writer_query w')"
    using assms(2) unfolding pointers_ok_def index_view_same(1) [OF assms(3)] by (meson order_less_le_trans)
qed

lemma frame_index: "frame_w t w w' \<Longrightarrow> writer_index w' = writer_index w"
  by (simp add: frame_w_def)

text \<open>Room for a value of length \<open>n\<close> in every table, and for another index.\<close>

definition room :: "hash_column \<Rightarrow> nat \<Rightarrow> bool" where
  "room hc n \<longleftrightarrow> (\<forall>t<256. unat (vt_filled (values_of hc ! t)) + n + 65 < 2 ^ 55) \<and>
     unat (ibits (tb_index (hc_tables hc))) \<le> 48"

text \<open>What an operation leaves alone.\<close>

definition same_column :: "hash_column \<Rightarrow> hash_column \<Rightarrow> bool" where
  "same_column hc hc' \<longleftrightarrow>
     hc_col hc' = hc_col hc \<and> hc_preimage hc' = hc_preimage hc \<and> hc_uniform_keys hc' = hc_uniform_keys hc \<and>
     hc_collect_stats hc' = hc_collect_stats hc \<and> hc_ref_counted hc' = hc_ref_counted hc \<and>
     hc_salt hc' = hc_salt hc \<and> hc_compression hc' = hc_compression hc \<and> hc_db_version hc' = hc_db_version hc"

lemma small_offset:
  fixes i f :: u64
  assumes "i \<le> f" "unat f < 2 ^ 55"
  shows "drop_bit 55 i = 0" "drop_bit 56 i = 0"
proof -
  have u: "unat i < 2 ^ 55" using assms by (simp add: word_le_nat_alt)
  have "unat (drop_bit 55 i) = 0" "unat (drop_bit 56 i) = 0"
    using u by (simp_all only: unat_drop_bit_eq) (simp_all add: drop_bit_eq_div)
  then show "drop_bit 55 i = 0" "drop_bit 56 i = 0" by (simp_all add: unat_eq_0)
qed

section \<open>A new key\<close>

lemma insert_value_tier:
  assumes vi: "values_inv col rcd vts w ms" and t: "t < 256" and k: "length k = 32" "fits (vts ! t) (Partial k) sv"
    and tu: "tail_unique ms k" "\<forall>a. key_at ms k a = None"
    and r: "unat (vt_filled (vts ! t)) + length sv + 65 < 2 ^ 55"
  shows "\<exists>i vt' w' a ms'. write_insert_plan (vts ! t) (Partial k) sv w c = Ok (i, vt', w') \<and>
    a = addr_new i (word_of_nat t) \<and> values_inv col rcd (vts[t := vt']) w' ms' \<and> live_at ms a = None \<and>
    live_at ms' = (live_at ms)(a \<mapsto> (1, Partial k, sv, c)) \<and> writer_index w' = writer_index w \<and>
    filled_mono vts (vts[t := vt']) \<and> points_into (vts[t := vt']) a \<and> drop_bit 55 (addr_offset a) = 0 \<and>
    unat (vt_filled vt') \<le> unat (vt_filled (vts ! t)) + length sv + 65"
proof -
  note f = values_inv_facts [OF vi]
  note sr = f(3) [OF t]
  have r64: "unat (vt_filled (vts ! t)) + length sv + 65 < 2 ^ 64" using r by simp
  have "valid_key (Partial k)" using k(1) by (simp add: valid_key_def)
  from store_insert [OF sr this k(2) r64, of c] obtain i vt' w' where
    o: "write_insert_plan (vts ! t) (Partial k) sv w c = Ok (i, vt', w')" "same_table (vts ! t) vt'"
      "(ms ! t) i = None" "store_rel vt' (writer_query w') ((ms ! t)(i \<mapsto> (1, Partial k, sv, c)))"
      "frame_w (vt_id (vts ! t)) w w'" "i \<le> vt_filled (vts ! t)" by blast
  have "unat (vt_filled (vts ! t)) < 2 ^ 55" using r by simp
  note small = small_offset [OF o(6) this]
  have wt: "unat (word_of_nat t :: u8) = t" using t by (simp add: unat_of_nat)
  note ar = addr_roundtrip [OF small(2), of "word_of_nat t"]
  have "partial_key k \<noteq> partial_key h'" if "live_at ms b = Some (rc', Partial h', v', c')" for b rc' h' v' c'
  proof
    assume "partial_key k = partial_key h'"
    with that tu(1) have "h' = k" unfolding tail_unique_def by blast
    with that tu(2) [rule_format, of b] show False by (simp add: key_at_def)
  qed
  note u = values_inv_upd [OF vi t o(2,4,5) small(2), simplified, OF this]
  have wf: "wf_table (vts ! t)" using sr by (auto simp: store_rel_def table_inv_def alloc_inv_def)
  have "vt_filled (vts ! t) \<le> vt_filled vt'"
    by (rule plan_filled(1) [OF wf_table_bounds(1) [OF wf] r64 o(1)])
  moreover have "0 < i" "i < vt_filled vt'" using store_rel_key [OF o(4), of i] by simp_all
  moreover have "unat (vt_filled vt') \<le> unat (vt_filled (vts ! t)) + length sv + 65"
    by (rule insert_filled_bound [OF o(1) wf_table_bounds(1) [OF wf] r64])
  ultimately show ?thesis
    using o(1,3,5) u t f(1) ar wt small(1) filled_mono_upd [of vts t vt'] frame_index [OF o(5)]
    by (intro exI [of _ i] exI [of _ vt'] exI [of _ w'] exI [of _ "addr_new i (word_of_nat t)"]
        exI [of _ "ms[t := (ms ! t)(i \<mapsto> (1, Partial k, sv, c))]"])
      (simp add: points_into_def live_at_def [of ms])
qed

text \<open>The column after its value tables changed.\<close>

lemma hc_with_values_simps [simp]:
  "values_of (hc_with_values hc vts st) = vts" "indexes (hc_with_values hc vts st) = indexes hc"
  "same_column hc (hc_with_values hc vts st)" "hc_col (hc_with_values hc vts st) = hc_col hc"
  "hc_ref_counted (hc_with_values hc vts st) = hc_ref_counted hc"
  by (simp_all add: hc_with_values_def same_column_def)

lemma same_column_refl [simp]: "same_column hc hc"
  by (simp add: same_column_def)

lemma complete_step:
  assumes "complete ts lq ms" "live_at ms' = (live_at ms)(a := x)" "\<And>b k. b \<noteq> a \<Longrightarrow> key_at ms k b \<noteq> None \<Longrightarrow>
      \<exists>t\<in>set ts. indexed t lq k b \<Longrightarrow> \<exists>t\<in>set ts'. indexed t lq' k b"
    and "\<And>rc k v c. x = Some (rc, Partial k, v, c) \<Longrightarrow> \<exists>t\<in>set ts'. indexed t lq' k a"
  shows "complete ts' lq' ms'"
  unfolding complete_def assms(2)
proof (intro allI impI)
  fix b rc k v c assume l: "((live_at ms)(a := x)) b = Some (rc, Partial k, v, c)"
  show "\<exists>t\<in>set ts'. indexed t lq' k b"
  proof (cases "b = a")
    case True
    with l assms(4) show ?thesis by simp
  next
    case False
    with l have m: "live_at ms b = Some (rc, Partial k, v, c)" by simp
    then have "\<exists>t\<in>set ts. indexed t lq k b" using assms(1) unfolding complete_def by blast
    moreover have "key_at ms k b \<noteq> None" using m by (simp add: key_at_def)
    ultimately show ?thesis using assms(3) False by blast
  qed
qed

lemma write_plan_new_spec:
  assumes inv: "col_inv hc w ms" and cd: "codec_ok cd" and k: "length k = 32"
    and tu: "tail_unique ms k" "\<forall>a. key_at ms k a = None" and r: "room hc (length val)"
  shows "\<exists>outcome hc' w' ms' a sv c. write_plan_new cd hc k val w = Ok (outcome, hc', w') \<and> outcome \<noteq> Skipped \<and>
    col_inv hc' w' ms' \<and> same_column hc hc' \<and> live_at ms a = None \<and> live_at ms' = (live_at ms)(a \<mapsto> (1, Partial k, sv, c)) \<and>
    plain cd (hc_compression hc) sv c = Ok val"
proof -
  let ?vts = "values_of hc"
  note vi = col_inv_values [OF inv]
  obtain cv t where ct: "column_compress cd (hc_compression hc) (Partial k) val ?vts = (cv, t)"
    by (cases "column_compress cd (hc_compression hc) (Partial k) val ?vts")
  obtain sv c where sv: "stored_form cv val = (sv, c)" by (cases "stored_form cv val")
  have tok: "tiers_ok (hc_col hc) (hc_ref_counted hc) ?vts" using vi by (simp add: values_inv_def)
  note cc = column_compress_spec [OF tok cd ct sv]
  have "unat (vt_filled (?vts ! t)) + length sv + 65 < 2 ^ 55" using r cc(1,4) by (fastforce simp: room_def)
  from insert_value_tier [OF vi cc(1) k cc(2) tu this, of c] obtain i vt' w1 a ms' where
    o: "write_insert_plan (?vts ! t) (Partial k) sv w c = Ok (i, vt', w1)" "a = addr_new i (word_of_nat t)"
      "values_inv (hc_col hc) (hc_ref_counted hc) (?vts[t := vt']) w1 ms'" "live_at ms a = None"
      "live_at ms' = (live_at ms)(a \<mapsto> (1, Partial k, sv, c))" "writer_index w1 = writer_index w"
      "filled_mono ?vts (?vts[t := vt'])" "points_into (?vts[t := vt']) a" "drop_bit 55 (addr_offset a) = 0"
    by blast
  let ?st = "map_option (insert_val (word_of_nat (length val)) (word_of_nat (length sv))) (hc_stats_opt hc)"
  let ?hc = "hc_with_values hc (?vts[t := vt']) ?st"
  have nv: "write_new_value_plan cd (Partial k) (hc_as_ref hc) val w (hc_stats_opt hc) = Ok (a, ?vts[t := vt'], w1, ?st)"
    using ct sv o(1,2) by (simp add: write_new_value_plan_def hc_as_ref_def)
  have ii: "indexes_inv (hc_col hc) (indexes hc) w" "pointers_ok (indexes hc) ?vts (writer_query w)"
      "complete (indexes hc) (writer_query w) ms" using inv by (simp_all add: col_inv_def)
  note st = values_step [OF ii(1,2) o(6,7)]
  have ix: "indexes ?hc = indexes hc" "tb_index (hc_tables ?hc) = tb_index (hc_tables hc)"
    by (simp_all add: hc_with_values_def)
  have "unat (ibits (tb_index (hc_tables ?hc))) \<le> 48" using r by (simp add: room_def ix)
  from insert_or_reindex_spec [OF st [folded ix(1)] o(8,9) this, of k] obtain outcome tb' rx' w' where
    p: "insert_or_reindex k a (hc_tables ?hc) (hc_reindex ?hc) w1 = Ok (outcome, tb', rx', w')" "outcome \<noteq> Skipped"
      "tb_value tb' = tb_value (hc_tables ?hc)"
      "entry_added (hc_col hc) (?vts[t := vt']) k a (indexes hc) w1 (tb_index tb' # rx_queue rx') w'"
    unfolding ix(1) by blast
  let ?hc' = "?hc\<lparr>hc_tables := tb', hc_reindex := rx'\<rparr>"
  have run: "write_plan_new cd hc k val w = Ok (outcome, ?hc', w')"
    using nv p(1) by (simp add: write_plan_new_def Let_def)
  have ea: "indexes_inv (hc_col hc) (indexes ?hc') w'" "pointers_ok (indexes ?hc') (?vts[t := vt']) (writer_query w')"
      "writer_value w' = writer_value w1" "set (indexes hc) \<subseteq> set (indexes ?hc')"
      "indexed (tb_index tb') (writer_query w') k a"
      "\<And>t k' a'. t \<in> set (indexes hc) \<Longrightarrow> a' \<noteq> 0 \<Longrightarrow> indexed t (writer_query w) k' a' \<Longrightarrow> indexed t (writer_query w') k' a'"
    using p(4) unfolding entry_added_def index_view_same(2) [OF o(6)] by auto
  have "complete (indexes ?hc') (writer_query w') ms'"
  proof (rule complete_step [OF ii(3) o(5)])
    show "\<exists>t\<in>set (indexes ?hc'). indexed t (writer_query w') k' b"
      if "key_at ms k' b \<noteq> None" "\<exists>t\<in>set (indexes hc). indexed t (writer_query w) k' b" for b k'
      using that ea(4,6) live_entry(1) [OF vi] key_at_found [OF that(1)] by blast
  qed (use ea(5) in auto)
  then have "col_inv ?hc' w' ms'"
    using ea values_inv_index_write [OF ea(3) o(3)] p(3) by (simp add: col_inv_def hc_with_values_def)
  moreover have "same_column hc ?hc'" by (simp add: same_column_def hc_with_values_def)
  ultimately show ?thesis using run p(2) o(4,5) cc(3) by blast
qed

end
