(* ===== verification/Column_Existing.thy ===== *)
theory Column_Existing
  imports Column_Plan
begin

text \<open>
  Planning a change of a key that is stored: the cases of \<open>write_existing_value_plan\<close> and what
  \<open>write_plan_existing\<close> makes of them in the index.
\<close>

section \<open>The stored value\<close>

lemma offset_small [simp]: "drop_bit 56 (addr_offset a) = 0"
  by (simp add: addr_offset_def)

lemma tier_back [simp]: "word_of_nat (unat (addr_size_tier a)) = addr_size_tier a"
  by simp

lemma hc_as_ref_simps [simp]:
  "tr_tables (hc_as_ref hc) = values_of hc" "tr_compression (hc_as_ref hc) = hc_compression hc"
  "tr_preimage (hc_as_ref hc) = hc_preimage hc"
  by (simp_all add: hc_as_ref_def)

lemma live_change:
  assumes inv: "col_inv hc w ms" and l: "live_at ms a = Some (rc, Partial k, v, c)"
    and st: "same_table (values_of hc ! unat (addr_size_tier a)) vt'"
    and sr: "store_rel vt' (writer_query w') ((ms ! unat (addr_size_tier a))(addr_offset a := x))"
    and fr: "frame_w (vt_id (values_of hc ! unat (addr_size_tier a))) w w'"
    and fm: "vt_filled (values_of hc ! unat (addr_size_tier a)) \<le> vt_filled vt'"
    and x: "x = None \<or> (\<exists>rc v c. x = Some (rc, Partial k, v, c))"
  shows "\<exists>ms'. values_inv (hc_col hc) (hc_ref_counted hc) ((values_of hc)[unat (addr_size_tier a) := vt']) w' ms' \<and>
      live_at ms' = (live_at ms)(a := x) \<and>
      col_inv (hc_with_values hc ((values_of hc)[unat (addr_size_tier a) := vt']) stats) w' ms'"
proof -
  let ?t = "unat (addr_size_tier a)" and ?vts = "values_of hc"
  note vi = col_inv_values [OF inv]
  have td: "partial_key h \<noteq> partial_key h'"
    if "x = Some (rc1, Partial h, v1, c1)" "b \<noteq> addr_new (addr_offset a) (word_of_nat ?t)"
      "live_at ms b = Some (rc', Partial h', v', c')" for rc1 h v1 c1 b rc' h' v' c'
    using that x l vi unfolding values_inv_def tails_distinct_def by auto
  have x': "x = None \<or> (\<exists>rc h v c. x = Some (rc, Partial h, v, c))" using x by blast
  note u = values_inv_upd [OF vi tier_lt st sr fr offset_small x' td, simplified]
  note wi = frame_index [OF fr]
  have ii: "indexes_inv (hc_col hc) (indexes hc) w" "pointers_ok (indexes hc) ?vts (writer_query w)"
      "complete (indexes hc) (writer_query w) ms" using inv by (simp_all add: col_inv_def)
  note vs = values_step [OF ii(1,2) wi filled_mono_upd [OF fm]]
  have "complete (indexes hc) (writer_query w') (ms[?t := (ms ! ?t)(addr_offset a := x)])"
    using ii(3) l x by (intro complete_step [OF ii(3) u(2)]) (auto simp: index_view_same(2) [OF wi] complete_def)
  then show ?thesis using u vs by (intro exI [of _ "ms[?t := (ms ! ?t)(addr_offset a := x)]"]) (simp add: col_inv_def)
qed

text \<open>Statistics need the current sizes of the value.\<close>

lemma live_query:
  assumes vi: "values_inv col rcd vts w ms" and tu: "tail_unique ms k" and l: "live_at ms a = Some (rc, Partial k, v, c)"
  shows "vt_query (vts ! unat (addr_size_tier a)) (Check (Partial k)) (addr_offset a) (writer_query w) =
    Ok (Some (v, c, stored_rc (vts ! unat (addr_size_tier a)) rc, None))"
proof -
  note f = values_inv_facts [OF vi]
  have m: "(ms ! unat (addr_size_tier a)) (addr_offset a) = Some (rc, Partial k, v, c)" using l by (simp add: live_at_def)
  note b = store_rel_key [OF f(3) [OF tier_lt] m]
  have "key_at ms k a = Some (rc, v, c)" using l by (simp add: key_at_live)
  then show ?thesis
    using store_query(1) [OF f(3,4) [OF tier_lt] b(3,4), of k] store_find_key_at [OF tu, of a] by simp
qed

lemma fetch_size_ok:
  assumes "col_inv hc w ms" "tail_unique ms k" "live_at ms a = Some (rc, Partial k, v, c)" "decodable cd hc ms"
  shows "\<exists>p. fetch_size cd (Partial k) (hc_as_ref hc) a w = Ok p"
proof -
  note q = live_query [OF col_inv_values [OF assms(1)] assms(2,3)]
  obtain x where "plain cd (hc_compression hc) v c = Ok x" using assms(3,4) unfolding decodable_def by blast
  then show ?thesis using q
    by (simp add: fetch_size_def vt_size_query vt_get_def Let_def plain_def split: if_splits)
qed

section \<open>Reference counts\<close>

lemma existing_inc_ref:
  assumes inv: "col_inv hc w ms" and l: "live_at ms a = Some (rc, Partial k, v, c)" and r: "hc_ref_counted hc"
    and ch: "change = Reference k \<or> (\<exists>val. change = Set k val)"
  shows "\<exists>hc' w' ms' rc'. write_plan_existing cd hc change w t sub a = Ok (Written, hc', w') \<and>
    col_inv hc' w' ms' \<and> same_column hc hc' \<and> live_at ms' = (live_at ms)(a \<mapsto> (rc', Partial k, v, c)) \<and>
    unat rc' = min (unat rc + 1) (2 ^ 32 - 1)"
proof -
  let ?t = "unat (addr_size_tier a)" and ?vts = "values_of hc"
  note f = values_inv_facts [OF col_inv_values [OF inv]]
  have m: "(ms ! ?t) (addr_offset a) = Some (rc, Partial k, v, c)" using l by (simp add: live_at_def)
  have "vt_ref_counted (?vts ! ?t)" using f(5) [OF tier_lt] r by simp
  from store_inc_ref [OF f(3) [OF tier_lt] m this] obtain w' rc' where
    o: "write_inc_ref (?vts ! ?t) (addr_offset a) w = Ok w'" "unat rc' = min (unat rc + 1) (2 ^ 32 - 1)"
      "store_rel (?vts ! ?t) (writer_query w') ((ms ! ?t)(addr_offset a \<mapsto> (rc', Partial k, v, c)))"
      "frame_w (vt_id (?vts ! ?t)) w w'" by blast
  obtain st where st: "write_existing_value_plan cd (Partial k) (hc_as_ref hc) a change w (hc_stats_opt hc) True =
      Ok ((Some Written, None), ?vts, w', st)"
    using ch o(1) f(1) r by (auto simp: write_existing_value_plan_def Let_def)
  have "op_key change = k" using ch by auto
  with st r have run: "write_plan_existing cd hc change w t sub a = Ok (Written, hc_with_values hc ?vts st, w')"
    by (simp add: write_plan_existing_def Let_def)
  from live_change [OF inv l same_table_refl o(3,4), of st] obtain ms' where
    "live_at ms' = (live_at ms)(a \<mapsto> (rc', Partial k, v, c))" "col_inv (hc_with_values hc ?vts st) w' ms'"
    by auto
  with run o(2) show ?thesis by (metis hc_with_values_simps(3))
qed

section \<open>Removing\<close>

text \<open>The entry of an index at the position where the value was found is cleared, or left.\<close>

lemma index_remove:
  assumes inv: "indexes_inv col ts w" "t \<in> set ts" and p: "pointers_ok ts vts (writer_query w)" and sub: "sub < 64"
    and e: "entry_at t (writer_query w) (key_chunk t k) sub e"
  shows "\<exists>r w'. it_write_remove_plan t k sub w = Ok (r, w') \<and> writer_value w' = writer_value w \<and>
    indexes_inv col ts w' \<and> pointers_ok ts vts (writer_query w') \<and>
    (\<forall>u\<in>set ts. \<forall>k' a. a \<noteq> 0 \<longrightarrow> a \<noteq> entry_address e (ibits t) \<longrightarrow> indexed u (writer_query w) k' a \<longrightarrow>
      indexed u (writer_query w') k' a)"
proof -
  obtain c where c: "chunk_view t (writer_query w) (key_chunk t k) = Ok c" "length c = 512"
    using key_chunk_view [OF inv] by blast
  then have re: "read_entry c sub = e" using e by (auto simp: entry_at_def)
  note run = it_write_remove_plan_view [OF sub, of t k w, unfolded c(1), simplified]
  show ?thesis
  proof (cases "\<not> entry_is_empty e \<and> entry_partial_key e (ibits t) = extract_key (index_from_partial k) (ibits t)")
    case False
    then have "it_write_remove_plan t k sub w = Ok (Skipped, w)"
      unfolding run plan_remove_chunk_def re Let_def by (simp only: if_False)
    with inv p show ?thesis by blast
  next
    case True
    let ?w = "insert_index (it_id t) (key_chunk t k) (word_of_nat sub) (write_entry entry_empty sub c) w"
    have o: "it_write_remove_plan t k sub w = Ok (Written, ?w)"
      unfolding run plan_remove_chunk_def re Let_def using True by (simp add: key_chunk_def)
    have iw: "index_write col ts t w (key_chunk t k) sub entry_empty c ?w"
      using inv c sub by (simp add: index_write_def)
    have "pointers_ok ts vts (writer_query ?w)" by (rule pointers_ok_write [OF iw p]) (simp add: entry_empty_def)
    moreover have "indexed u (writer_query ?w) k' a" if "u \<in> set ts" "a \<noteq> 0" "a \<noteq> entry_address e (ibits t)"
        "indexed u (writer_query w) k' a" for u k' a
      using that re by (intro indexed_write [OF iw]) simp_all
    moreover have "writer_value ?w = writer_value w" by simp
    ultimately show ?thesis using o indexes_inv_write [OF iw] by blast
  qed
qed

lemma existing_remove:
  assumes inv: "col_inv hc w ms" and l: "live_at ms a = Some (rc, Partial k, v, c)"
    and t: "t \<in> set (indexes hc)" "visits t (writer_query w) k sub e" "a = entry_address e (ibits t)"
    and tu: "tail_unique ms k" and dec: "decodable cd hc ms" and r: "hc_ref_counted hc \<Longrightarrow> rc = 1"
  shows "\<exists>hc' w' ms'. write_plan_existing cd hc (Dereference k) w t sub a = Ok (Written, hc', w') \<and>
    col_inv hc' w' ms' \<and> same_column hc hc' \<and> live_at ms' = (live_at ms)(a := None)"
proof -
  let ?t = "unat (addr_size_tier a)" and ?vts = "values_of hc"
  note vi = col_inv_values [OF inv]
  note f = values_inv_facts [OF vi]
  have m: "(ms ! ?t) (addr_offset a) = Some (rc, Partial k, v, c)" using l by (simp add: live_at_def)
  obtain vt' w1 where
    o: "(if hc_ref_counted hc then
           and_then (write_dec_ref (?vts ! ?t) (addr_offset a) w) (\<lambda>(kept, vt, w). Ok (\<not> kept, vt, w))
         else and_then (write_remove_plan (?vts ! ?t) (addr_offset a) w) (\<lambda>(vt, w). Ok (True, vt, w))) = Ok (True, vt', w1)"
      "same_table (?vts ! ?t) vt'" "store_rel vt' (writer_query w1) ((ms ! ?t)(addr_offset a := None))"
      "frame_w (vt_id (?vts ! ?t)) w w1" "vt_filled vt' = vt_filled (?vts ! ?t)"
  proof (cases "hc_ref_counted hc")
    case True
    with f(5) [OF tier_lt] have "vt_ref_counted (?vts ! ?t)" by simp
    from store_dec_ref(1) [OF f(3) [OF tier_lt] m this r [OF True]] True dec_ref_filled show thesis
      by (auto intro: that)
  next
    case False
    from store_remove [OF f(3) [OF tier_lt] m] False remove_filled show thesis by (auto intro: that)
  qed
  obtain sz where "(case hc_stats_opt hc of None \<Rightarrow> Ok None
      | Some _ \<Rightarrow> and_then (fetch_size cd (Partial k) (hc_as_ref hc) a w) (\<lambda>s. Ok (Some s))) = Ok sz"
    using fetch_size_ok [OF inv tu l dec] by (cases "hc_stats_opt hc") auto
  then obtain st where "write_existing_value_plan cd (Partial k) (hc_as_ref hc) a (Dereference k) w (hc_stats_opt hc)
      (hc_ref_counted hc) = Ok ((None, None), ?vts[?t := vt'], w1, st)"
    using o(1) f(1) by (simp add: write_existing_value_plan_def Let_def)
  then have run: "write_plan_existing cd hc (Dereference k) w t sub a =
      and_then (it_write_remove_plan t k sub w1) (\<lambda>(_, w). Ok (Written, hc_with_values hc (?vts[?t := vt']) st, w))"
    by (simp add: write_plan_existing_def Let_def)
  let ?hc = "hc_with_values hc (?vts[?t := vt']) st"
  from live_change [OF inv l o(2-4), of st] o(5) obtain ms' where
    ms': "live_at ms' = (live_at ms)(a := None)" "col_inv ?hc w1 ms'" by auto
  have e: "entry_at t (writer_query w1) (key_chunk t k) sub e" "sub < 64"
    using t(2) by (simp_all add: index_view_same(1) [OF frame_index [OF o(4)]] visits_def entry_at_def)
  have ii: "indexes_inv (hc_col hc) (indexes hc) w1" "pointers_ok (indexes hc) (?vts[?t := vt']) (writer_query w1)"
      "complete (indexes hc) (writer_query w1) ms'" "values_inv (hc_col hc) (hc_ref_counted hc) (?vts[?t := vt']) w1 ms'"
    using ms'(2) by (simp_all add: col_inv_def)
  from index_remove [OF ii(1) t(1) ii(2) e(2,1)] obtain q w' where
    w': "it_write_remove_plan t k sub w1 = Ok (q, w')" "writer_value w' = writer_value w1"
      "indexes_inv (hc_col hc) (indexes hc) w'" "pointers_ok (indexes hc) (?vts[?t := vt']) (writer_query w')"
      "\<And>u k' b. u \<in> set (indexes hc) \<Longrightarrow> b \<noteq> 0 \<Longrightarrow> b \<noteq> a \<Longrightarrow> indexed u (writer_query w1) k' b \<Longrightarrow>
        indexed u (writer_query w') k' b"
    unfolding t(3) by blast
  have "complete (indexes hc) (writer_query w') ms'"
  proof (unfold complete_def, intro allI impI)
    fix b rc' k' v' c' assume lb: "live_at ms' b = Some (rc', Partial k', v', c')"
    then have "b \<noteq> a" "b \<noteq> 0" using ms'(1) live_entry(1) [OF ii(4) lb] by auto
    then show "\<exists>u\<in>set (indexes hc). indexed u (writer_query w') k' b"
      using ii(3) lb w'(5) unfolding complete_def by blast
  qed
  with w'(3,4) values_inv_index_write [OF w'(2) ii(4)] have "col_inv ?hc w' ms'" by (simp add: col_inv_def)
  with run w'(1) ms'(1) show ?thesis by (metis (no_types, lifting) and_then_simps(1) hc_with_values_simps(3) case_prod_conv)
qed

lemma existing_dec_ref:
  assumes inv: "col_inv hc w ms" and l: "live_at ms a = Some (rc, Partial k, v, c)"
    and tu: "tail_unique ms k" and dec: "decodable cd hc ms" and r: "hc_ref_counted hc" "rc \<noteq> 1"
  shows "\<exists>hc' w' ms'. write_plan_existing cd hc (Dereference k) w t sub a = Ok (Written, hc', w') \<and>
    col_inv hc' w' ms' \<and> same_column hc hc' \<and>
    live_at ms' = (live_at ms)(a \<mapsto> (if rc = LOCKED_REF then rc else rc - 1, Partial k, v, c))"
proof -
  let ?t = "unat (addr_size_tier a)" and ?vts = "values_of hc"
  let ?x = "(if rc = LOCKED_REF then rc else rc - 1, Partial k, v, c)"
  note f = values_inv_facts [OF col_inv_values [OF inv]]
  have m: "(ms ! ?t) (addr_offset a) = Some (rc, Partial k, v, c)" using l by (simp add: live_at_def)
  have "vt_ref_counted (?vts ! ?t)" using f(5) [OF tier_lt] r(1) by simp
  from store_dec_ref(2) [OF f(3) [OF tier_lt] m this r(2)] obtain w' where
    o: "write_dec_ref (?vts ! ?t) (addr_offset a) w = Ok (True, ?vts ! ?t, w')"
      "store_rel (?vts ! ?t) (writer_query w') ((ms ! ?t)(addr_offset a \<mapsto> ?x))" "frame_w (vt_id (?vts ! ?t)) w w'"
    by blast
  obtain sz where "(case hc_stats_opt hc of None \<Rightarrow> Ok None
      | Some _ \<Rightarrow> and_then (fetch_size cd (Partial k) (hc_as_ref hc) a w) (\<lambda>s. Ok (Some s))) = Ok sz"
    using fetch_size_ok [OF inv tu l dec] by (cases "hc_stats_opt hc") auto
  then have "write_existing_value_plan cd (Partial k) (hc_as_ref hc) a (Dereference k) w (hc_stats_opt hc) True =
      Ok ((Some Written, None), ?vts, w', hc_stats_opt hc)"
    using o(1) f(1) by (simp add: write_existing_value_plan_def Let_def)
  then have run: "write_plan_existing cd hc (Dereference k) w t sub a =
      Ok (Written, hc_with_values hc ?vts (hc_stats_opt hc), w')"
    using r(1) by (simp add: write_plan_existing_def Let_def)
  have "Some ?x = None \<or> (\<exists>rc v c. Some ?x = Some (rc, Partial k, v, c))" by blast
  from live_change [OF inv l same_table_refl o(2,3) order_refl this, of "hc_stats_opt hc"] obtain ms' where
    "live_at ms' = (live_at ms)(a \<mapsto> ?x)" "col_inv (hc_with_values hc ?vts (hc_stats_opt hc)) w' ms'" by auto
  with run show ?thesis by (metis hc_with_values_simps(3))
qed

end
