(* ===== verification/Column_Move.thy ===== *)
theory Column_Move
  imports Column_Existing
begin

text \<open>
  Overwriting a value of a column without reference counts: in place when the new value belongs
  to the same tier, else the value moves to another table and the index entry follows.
\<close>

lemma stats_replaced:
  assumes "col_inv hc w ms" "tail_unique ms k" "live_at ms a = Some (rc, Partial k, v, c)" "decodable cd hc ms"
  obtains stats where "(case hc_stats_opt hc of None \<Rightarrow> Ok None
      | Some st \<Rightarrow> and_then (fetch_size cd (Partial k) (hc_as_ref hc) a w) (\<lambda>(cur_size, uncompressed).
          Ok (Some (replace_val cur_size uncompressed n n' st)))) = Ok stats"
  using fetch_size_ok [OF assms] by (cases "hc_stats_opt hc") auto

lemma existing_replace:
  assumes inv: "col_inv hc w ms" and l: "live_at ms a = Some (rc, Partial k, v, c)"
    and tu: "tail_unique ms k" and dec: "decodable cd hc ms" and cd: "codec_ok cd" and r: "room hc (length val)"
    and nr: "\<not> hc_ref_counted hc" "\<not> hc_preimage hc"
    and tier: "snd (column_compress cd (hc_compression hc) (Partial k) val (values_of hc)) = unat (addr_size_tier a)"
  shows "\<exists>hc' w' ms' sv c'. write_plan_existing cd hc (Set k val) w t sub a = Ok (Written, hc', w') \<and>
    col_inv hc' w' ms' \<and> same_column hc hc' \<and> live_at ms' = (live_at ms)(a \<mapsto> (1, Partial k, sv, c')) \<and>
    plain cd (hc_compression hc) sv c' = Ok val"
proof -
  let ?t = "unat (addr_size_tier a)" and ?vts = "values_of hc"
  note vi = col_inv_values [OF inv]
  note f = values_inv_facts [OF vi]
  obtain cv where ct: "column_compress cd (hc_compression hc) (Partial k) val ?vts = (cv, ?t)"
    using tier by (cases "column_compress cd (hc_compression hc) (Partial k) val ?vts") simp
  obtain sv c' where sv: "stored_form cv val = (sv, c')" by (cases "stored_form cv val")
  have tok: "tiers_ok (hc_col hc) (hc_ref_counted hc) ?vts" using vi by (simp add: values_inv_def)
  note cc = column_compress_spec [OF tok cd ct sv]
  have m: "(ms ! ?t) (addr_offset a) = Some (rc, Partial k, v, c)" using l by (simp add: live_at_def)
  note key = store_rel_key [OF f(3) [OF tier_lt] m]
  have "unat (vt_filled (?vts ! ?t)) + length val + 65 < 2 ^ 55" using r tier_lt by (simp add: room_def)
  then have r64: "unat (vt_filled (?vts ! ?t)) + length sv + 65 < 2 ^ 64" using cc(4) by simp
  from store_replace [OF f(3) [OF tier_lt] m key(1) cc(2) r64, of c'] obtain vt' w' where
    o: "write_replace_plan (?vts ! ?t) (addr_offset a) (Partial k) sv w c' = Ok (vt', w')" "same_table (?vts ! ?t) vt'"
      "store_rel vt' (writer_query w') ((ms ! ?t)(addr_offset a \<mapsto> (1, Partial k, sv, c')))"
      "frame_w (vt_id (?vts ! ?t)) w w'" by blast
  have fm: "vt_filled (?vts ! ?t) \<le> vt_filled vt'"
    by (rule plan_filled(2) [OF wf_table_bounds(1) [OF key(5)] r64 o(1)])
  obtain st where "(case hc_stats_opt hc of None \<Rightarrow> Ok None
      | Some st \<Rightarrow> and_then (fetch_size cd (Partial k) (hc_as_ref hc) a w) (\<lambda>(cur_size, uncompressed).
          Ok (Some (replace_val cur_size uncompressed (word_of_nat (length val)) (word_of_nat (length sv)) st)))) = Ok st"
    using stats_replaced [OF inv tu l dec] by blast
  then have "write_existing_value_plan cd (Partial k) (hc_as_ref hc) a (Set k val) w (hc_stats_opt hc) False =
      Ok ((Some Written, None), ?vts[?t := vt'], w', st)"
    using o(1) f(1) nr ct sv by (simp add: write_existing_value_plan_def Let_def)
  then have run: "write_plan_existing cd hc (Set k val) w t sub a = Ok (Written, hc_with_values hc (?vts[?t := vt']) st, w')"
    using nr(1) by (simp add: write_plan_existing_def Let_def)
  from live_change [OF inv l o(2-4) fm, of st] obtain ms' where
    "live_at ms' = (live_at ms)(a \<mapsto> (1, Partial k, sv, c'))" "col_inv (hc_with_values hc (?vts[?t := vt']) st) w' ms'"
    by auto
  with run cc(3) show ?thesis by (metis hc_with_values_simps(3))
qed

section \<open>The index entry of a value that moved\<close>

text \<open>The searches that visit an entry of another key prefix: only indexes below 18 bits have any.\<close>

definition prefix_exact :: "hash_column \<Rightarrow> log_writer \<Rightarrow> key \<Rightarrow> bool" where
  "prefix_exact hc w k \<longleftrightarrow> (\<forall>t\<in>set (indexes hc). \<forall>i e. visits t (writer_query w) k i e \<longrightarrow>
     base_match (ibits t) (index_from_partial k) e)"

lemma prefix_exact_large:
  assumes "col_inv hc w ms" "\<And>t. t \<in> set (indexes hc) \<Longrightarrow> 18 \<le> unat (ibits t)"
  shows "prefix_exact hc w k"
  unfolding prefix_exact_def
proof (intro ballI allI impI)
  fix t i e assume t: "t \<in> set (indexes hc)" "visits t (writer_query w) k i e"
  have "valid_bits (ibits t)" using col_inv_index [OF assms(1) t(1)] by (simp add: index_inv_def)
  with sse2_match_facts(3) [OF this assms(2) [OF t(1)]] t(2) show "base_match (ibits t) (index_from_partial k) e"
    by (simp add: visits_def)
qed

definition entry_replaced ::
    "u8 \<Rightarrow> index_table list \<Rightarrow> value_table list \<Rightarrow> key \<Rightarrow> address \<Rightarrow> address \<Rightarrow> log_writer \<Rightarrow> log_writer \<Rightarrow> bool" where
  "entry_replaced col ts vts k a old w w' \<longleftrightarrow>
     writer_value w' = writer_value w \<and> indexes_inv col ts w' \<and> pointers_ok ts vts (writer_query w') \<and>
     indexed (hd ts) (writer_query w') k a \<and>
     (\<forall>u\<in>set ts. \<forall>k' b. b \<noteq> 0 \<longrightarrow> b \<noteq> old \<longrightarrow> indexed u (writer_query w) k' b \<longrightarrow> indexed u (writer_query w') k' b)"

lemma entry_replaced_write:
  assumes inv: "indexes_inv col (t # q) w" and p: "pointers_ok (t # q) vts (writer_query w)"
    and a: "points_into vts a" "a \<le> last_address (ibits t)"
    and c: "chunk_view t (writer_query w) (key_chunk t k) = Ok c" "length c = 512"
    and i: "i < 64" "read_entry c i = 0 \<or> entry_address (read_entry c i) (ibits t) = old"
  shows "entry_replaced col (t # q) vts k a old w
    (insert_index (it_id t) (key_chunk t k) (word_of_nat i) (write_entry (key_entry t k a) i c) w)"
    (is "entry_replaced _ _ _ _ _ _ _ ?w")
proof -
  have iw: "index_write col (t # q) t w (key_chunk t k) i (key_entry t k a) c ?w"
    using inv c i(1) by (simp add: index_write_def)
  have vb: "valid_bits (ibits t)" using inv by (simp add: indexes_inv_def index_inv_def)
  have a0: "a \<noteq> 0" using a(1) by (auto simp: points_into_def)
  have "pointers_ok (t # q) vts (writer_query ?w)"
    using key_entry_match(2) [OF vb a(2) a0] a(1) by (intro pointers_ok_write [OF iw p]) simp
  moreover have "indexed u (writer_query ?w) k' b" if "u \<in> set (t # q)" "b \<noteq> 0" "b \<noteq> old"
      "indexed u (writer_query w) k' b" for u k' b
    using that i(2) by (intro indexed_write [OF iw]) (auto simp: entry_address_def)
  ultimately show ?thesis
    using indexes_inv_write [OF iw] indexed_new [OF iw a(2)] unfolding entry_replaced_def by auto
qed

lemma index_replace:
  assumes inv: "indexes_inv col (t # q) w" and p: "pointers_ok (t # q) vts (writer_query w)" and a: "points_into vts a"
    and sub: "\<And>i. sub = Some i \<Longrightarrow> \<exists>e. entry_at t (writer_query w) (key_chunk t k) i e \<and>
      base_match (ibits t) (index_from_partial k) e \<and> entry_address e (ibits t) = old"
  shows "it_write_insert_plan t k a sub w = Ok (NeedReindex, w) \<or>
    (\<exists>w'. it_write_insert_plan t k a sub w = Ok (Written, w') \<and> entry_replaced col (t # q) vts k a old w w' \<and>
      (sub = None \<longrightarrow> (\<exists>i. entry_at t (writer_query w) (key_chunk t k) i 0)))"
proof -
  have vb: "valid_bits (ibits t)" using inv by (simp add: indexes_inv_def index_inv_def)
  obtain c where c: "chunk_view t (writer_query w) (key_chunk t k) = Ok c" "length c = 512"
      and bound: "unat (key_chunk t k) < 2 ^ unat (ibits t)"
    using key_chunk_view [OF inv list.set_intros(1)] by blast
  note view = it_write_insert_plan_view [of t k a sub w, folded key_chunk_def, unfolded c(1), simplified]
  note defs = plan_insert_chunk_def Let_def key_entry_def [symmetric] key_chunk_def [symmetric]
  show ?thesis
  proof (cases "a \<le> last_address (ibits t)")
    case False
    then show ?thesis unfolding view by (simp add: plan_insert_chunk_def Let_def not_le)
  next
    case True
    note wr = entry_replaced_write [OF inv p a True c]
    show ?thesis
    proof (cases sub)
      case (Some i)
      then obtain e where e: "i < 64" "read_entry c i = e" "base_match (ibits t) (index_from_partial k) e"
          "entry_address e (ibits t) = old"
        using sub [OF Some] c(1) by (auto simp: entry_at_def)
      have "entry_partial_key e (ibits t) = entry_partial_key (key_entry t k a) (ibits t)"
        using e(3) entry_unpack(2) [OF vb True extract_key_small [OF vb]] by (simp add: base_match_def key_entry_def)
      then show ?thesis unfolding view using wr [OF e(1)] e(2,4) True Some by (simp add: defs)
    next
      case None
      show ?thesis
      proof (cases "List.find (\<lambda>i. entry_is_empty (read_entry c i)) [0..<64]")
        case (Some i)
        then have i: "i < 64" "read_entry c i = 0" by (auto simp: find_Some_iff entry_is_empty_def)
        then have "entry_at t (writer_query w) (key_chunk t k) i 0" using c(1) bound by (simp add: entry_at_def)
        then have ex: "\<exists>i. entry_at t (writer_query w) (key_chunk t k) i 0" by blast
        show ?thesis unfolding view using wr [of i] i ex Some None True by (simp add: defs)
      qed (use None True view in \<open>simp add: plan_insert_chunk_def Let_def\<close>)
    qed
  qed
qed

section \<open>Moving\<close>

lemma addr_new_tier: "addr_size_tier (addr_new i tier) = tier"
proof -
  have m: "push_bit 8 1 - 1 = (mask 8 :: u64)" by (simp add: mask_eq_exp_minus_1 push_bit_eq_mult)
  show ?thesis unfolding addr_new_def addr_size_tier_def m
    by (rule bit_word_eqI) (auto simp: bit_simps dest: bit_imp_le_length)
qed

text \<open>The value tables after a value moved to the tier of its new form.\<close>

lemma values_moved:
  assumes inv: "col_inv hc w ms" and l: "live_at ms a = Some (rc, Partial k, v, c)" and tu: "tail_unique ms k"
    and t: "t < 256" "t \<noteq> unat (addr_size_tier a)" and fit: "fits (values_of hc ! t) (Partial k) sv"
    and r: "unat (vt_filled (values_of hc ! t)) + length sv + 65 < 2 ^ 55"
  shows "\<exists>vt1 w1 i vt2 w2 a' ms'. write_remove_plan (values_of hc ! unat (addr_size_tier a)) (addr_offset a) w = Ok (vt1, w1) \<and>
    write_insert_plan (values_of hc ! t) (Partial k) sv w1 c' = Ok (i, vt2, w2) \<and> a' = addr_new i (word_of_nat t) \<and>
    values_inv (hc_col hc) (hc_ref_counted hc) ((values_of hc)[unat (addr_size_tier a) := vt1, t := vt2]) w2 ms' \<and>
    filled_mono (values_of hc) ((values_of hc)[unat (addr_size_tier a) := vt1, t := vt2]) \<and>
    points_into ((values_of hc)[unat (addr_size_tier a) := vt1, t := vt2]) a' \<and>
    writer_index w2 = writer_index w \<and> live_at ms' = (live_at ms)(a := None, a' \<mapsto> (1, Partial k, sv, c')) \<and> a' \<noteq> a \<and>
    live_at ms a' = None"
proof -
  let ?t = "unat (addr_size_tier a)" and ?vts = "values_of hc"
  note vi = col_inv_values [OF inv]
  note f = values_inv_facts [OF vi]
  have m: "(ms ! ?t) (addr_offset a) = Some (rc, Partial k, v, c)" using l by (simp add: live_at_def)
  from store_remove [OF f(3) [OF tier_lt] m] obtain vt1 w1 where
    o: "write_remove_plan (?vts ! ?t) (addr_offset a) w = Ok (vt1, w1)" "same_table (?vts ! ?t) vt1"
      "store_rel vt1 (writer_query w1) ((ms ! ?t)(addr_offset a := None))" "frame_w (vt_id (?vts ! ?t)) w w1" by blast
  have fm1: "vt_filled (?vts ! ?t) \<le> vt_filled vt1" using remove_filled [OF o(1)] by simp
  from live_change [OF inv l o(2-4) fm1 disjI1 [OF refl]] obtain ms1 where
    ms1: "values_inv (hc_col hc) (hc_ref_counted hc) (?vts[?t := vt1]) w1 ms1" "live_at ms1 = (live_at ms)(a := None)"
    by blast
  have tu1: "tail_unique ms1 k" using tu by (auto simp: tail_unique_def ms1(2))
  have n1: "\<forall>b. key_at ms1 k b = None"
  proof
    fix b
    have "key_at ms k a \<noteq> None" "key_at ms1 k b = (if b = a then None else key_at ms k b)"
      using l by (simp_all add: key_at_def ms1(2))
    with key_at_unique [OF vi, of k a b] show "key_at ms1 k b = None" by (metis (full_types))
  qed
  have e: "?vts[?t := vt1] ! t = ?vts ! t" using t(2) by simp
  from insert_value_tier [OF ms1(1) t(1) live_entry(2) [OF vi l] _ tu1 n1, unfolded e, OF fit r, of c']
  obtain i vt2 w2 a' ms' where
    q: "write_insert_plan (?vts ! t) (Partial k) sv w1 c' = Ok (i, vt2, w2)" "a' = addr_new i (word_of_nat t)"
      "values_inv (hc_col hc) (hc_ref_counted hc) (?vts[?t := vt1, t := vt2]) w2 ms'"
      "live_at ms' = (live_at ms1)(a' \<mapsto> (1, Partial k, sv, c'))" "writer_index w2 = writer_index w1"
      "filled_mono (?vts[?t := vt1]) (?vts[?t := vt1, t := vt2])" "points_into (?vts[?t := vt1, t := vt2]) a'"
      "live_at ms1 a' = None"
    by blast
  have "filled_mono ?vts (?vts[?t := vt1, t := vt2])"
    using q(6) filled_mono_upd [OF fm1] unfolding filled_mono_def by (meson order_trans)
  moreover have ne: "a' \<noteq> a"
    using t addr_new_tier [of i "word_of_nat t"] q(2) by (auto simp: unat_of_nat)
  moreover have "live_at ms a' = None" using q(8) ne by (simp add: ms1(2))
  ultimately show ?thesis using o(1) q(1-7) ms1(2) frame_index [OF o(4)] by metis
qed

lemma existing_move:
  assumes inv: "col_inv hc w ms" and l: "live_at ms a = Some (rc, Partial k, v, c)"
    and v: "t \<in> set (indexes hc)" "visits t (writer_query w) k sub e" "a = entry_address e (ibits t)"
    and tu: "tail_unique ms k" and dec: "decodable cd hc ms" and cd: "codec_ok cd" and r: "room hc (length val)"
    and nr: "\<not> hc_ref_counted hc" "\<not> hc_preimage hc" and px: "prefix_exact hc w k"
    and tier: "snd (column_compress cd (hc_compression hc) (Partial k) val (values_of hc)) \<noteq> unat (addr_size_tier a)"
  shows "\<exists>outcome hc' w' ms' a' sv c'. write_plan_existing cd hc (Set k val) w t sub a = Ok (outcome, hc', w') \<and>
    same_column hc hc' \<and> live_at ms' = (live_at ms)(a := None, a' \<mapsto> (1, Partial k, sv, c')) \<and> a' \<noteq> a \<and>
    live_at ms a' = None \<and> plain cd (hc_compression hc) sv c' = Ok val \<and> indexes hc' = indexes hc \<and>
    (outcome = Written \<and> col_inv hc' w' ms' \<or>
     outcome = NeedReindex \<and> writer_index w' = writer_index w \<and> filled_mono (values_of hc) (values_of hc') \<and>
     values_inv (hc_col hc) (hc_ref_counted hc) (values_of hc') w' ms') \<and>
    (outcome = Written \<longrightarrow> it_id t = it_id (tb_index (hc_tables hc)) \<or>
      (\<exists>i. entry_at (tb_index (hc_tables hc)) (writer_query w) (key_chunk (tb_index (hc_tables hc)) k) i 0))"
proof -
  let ?t = "unat (addr_size_tier a)" and ?vts = "values_of hc" and ?top = "tb_index (hc_tables hc)"
  note vi = col_inv_values [OF inv]
  note f = values_inv_facts [OF vi]
  obtain cv tt where ct: "column_compress cd (hc_compression hc) (Partial k) val ?vts = (cv, tt)" "tt \<noteq> ?t"
    using tier by (cases "column_compress cd (hc_compression hc) (Partial k) val ?vts") simp
  obtain sv c' where sv: "stored_form cv val = (sv, c')" by (cases "stored_form cv val")
  have tok: "tiers_ok (hc_col hc) (hc_ref_counted hc) ?vts" using vi by (simp add: values_inv_def)
  note cc = column_compress_spec [OF tok cd ct(1) sv]
  have "unat (vt_filled (?vts ! tt)) + length sv + 65 < 2 ^ 55" using r cc(1,4) by (fastforce simp: room_def)
  from values_moved [OF inv l tu cc(1) ct(2) cc(2) this, of c'] obtain vt1 w1 i vt2 w2 a' ms' where
    o: "write_remove_plan (?vts ! ?t) (addr_offset a) w = Ok (vt1, w1)"
      "write_insert_plan (?vts ! tt) (Partial k) sv w1 c' = Ok (i, vt2, w2)" "a' = addr_new i (word_of_nat tt)"
      "values_inv (hc_col hc) (hc_ref_counted hc) (?vts[?t := vt1, tt := vt2]) w2 ms'"
      "filled_mono ?vts (?vts[?t := vt1, tt := vt2])" "points_into (?vts[?t := vt1, tt := vt2]) a'"
      "writer_index w2 = writer_index w" "live_at ms' = (live_at ms)(a := None, a' \<mapsto> (1, Partial k, sv, c'))" "a' \<noteq> a"
      "live_at ms a' = None"
    by blast
  obtain st where "(case hc_stats_opt hc of None \<Rightarrow> Ok None
      | Some st \<Rightarrow> and_then (fetch_size cd (Partial k) (hc_as_ref hc) a w) (\<lambda>(cur_size, uncompressed).
          Ok (Some (replace_val cur_size uncompressed (word_of_nat (length val)) (word_of_nat (length sv)) st)))) = Ok st"
    using stats_replaced [OF inv tu l dec] by blast
  then have "write_existing_value_plan cd (Partial k) (hc_as_ref hc) a (Set k val) w (hc_stats_opt hc) False =
      Ok ((None, Some a'), ?vts[?t := vt1, tt := vt2], w2, st)"
    using o(1-3) f(1) nr ct sv by (simp add: write_existing_value_plan_def Let_def)
  moreover have top: "tb_index (hc_tables (hc_with_values hc vts st)) = ?top" for vts by (simp add: hc_with_values_def)
  ultimately have run: "write_plan_existing cd hc (Set k val) w t sub a =
      and_then (it_write_insert_plan ?top k a' (if it_id t = it_id ?top then Some sub else None) w2) (\<lambda>(outcome, w).
        Ok (outcome, hc_with_values hc (?vts[?t := vt1, tt := vt2]) st, w))"
    using nr(1) by (simp add: write_plan_existing_def Let_def)
  let ?hc = "hc_with_values hc (?vts[?t := vt1, tt := vt2]) st"
  have ii: "indexes_inv (hc_col hc) (indexes hc) w" "pointers_ok (indexes hc) ?vts (writer_query w)"
      "complete (indexes hc) (writer_query w) ms" using inv by (simp_all add: col_inv_def)
  note vs = values_step [OF ii(1,2) o(7,5)]
  have sub: "\<exists>e. entry_at ?top (writer_query w2) (key_chunk ?top k) i e \<and>
      base_match (ibits ?top) (index_from_partial k) e \<and> entry_address e (ibits ?top) = a"
    if "(if it_id t = it_id ?top then Some sub else None) = Some i" for i
  proof -
    have "t = ?top" "i = sub" using that indexes_invD(4) [OF ii(1) _ v(1), of ?top] by (simp_all split: if_splits)
    then show ?thesis using v px unfolding prefix_exact_def index_view_same(1) [OF o(7)] visits_def by auto
  qed
  have id: "indexes ?hc = indexes hc" "values_of ?hc = ?vts[?t := vt1, tt := vt2]" "same_column hc ?hc" by simp_all
  have "it_write_insert_plan ?top k a' (if it_id t = it_id ?top then Some sub else None) w2 = Ok (NeedReindex, w2) \<or>
      (\<exists>w'. it_write_insert_plan ?top k a' (if it_id t = it_id ?top then Some sub else None) w2 = Ok (Written, w') \<and>
        entry_replaced (hc_col hc) (indexes hc) (?vts[?t := vt1, tt := vt2]) k a' a w2 w' \<and>
        ((if it_id t = it_id ?top then Some sub else None) = None \<longrightarrow>
          (\<exists>i. entry_at ?top (writer_query w2) (key_chunk ?top k) i 0)))"
    by (rule index_replace [OF vs o(6)]) (rule sub)
  then show ?thesis
  proof (elim disjE exE conjE)
    assume "it_write_insert_plan ?top k a' (if it_id t = it_id ?top then Some sub else None) w2 = Ok (NeedReindex, w2)"
    with run have "write_plan_existing cd hc (Set k val) w t sub a = Ok (NeedReindex, ?hc, w2)" by simp
    then show ?thesis using o(4,5,7,8-10) cc(3) id
      by (intro exI [of _ NeedReindex] exI [of _ ?hc] exI [of _ w2] exI [of _ ms'] exI [of _ a'] exI [of _ sv] exI [of _ c'])
        simp
  next
    fix w' assume w': "it_write_insert_plan ?top k a' (if it_id t = it_id ?top then Some sub else None) w2 = Ok (Written, w')"
      and er: "entry_replaced (hc_col hc) (indexes hc) (?vts[?t := vt1, tt := vt2]) k a' a w2 w'"
      and free: "(if it_id t = it_id ?top then Some sub else None) = None \<longrightarrow>
          (\<exists>i. entry_at ?top (writer_query w2) (key_chunk ?top k) i 0)"
    have "complete (indexes hc) (writer_query w') ms'"
      unfolding complete_def o(8)
    proof (intro allI impI)
      fix b rc' k' v' c'' assume lb: "((live_at ms)(a := None, a' \<mapsto> (1, Partial k, sv, c'))) b = Some (rc', Partial k', v', c'')"
      show "\<exists>u\<in>set (indexes hc). indexed u (writer_query w') k' b"
      proof (cases "b = a'")
        case False
        with lb have b: "b \<noteq> a" "live_at ms b = Some (rc', Partial k', v', c'')" by (auto split: if_splits)
        with ii(3) obtain u where "u \<in> set (indexes hc)" "indexed u (writer_query w2) k' b"
          unfolding complete_def index_view_same(2) [OF o(7)] by blast
        with er b(1) live_entry(1) [OF vi b(2)] show ?thesis unfolding entry_replaced_def by blast
      qed (use lb er in \<open>auto simp: entry_replaced_def\<close>)
    qed
    then have "col_inv ?hc w' ms'"
      using er values_inv_index_write [OF _ o(4), of w'] by (simp add: col_inv_def entry_replaced_def)
    moreover from run w' have "write_plan_existing cd hc (Set k val) w t sub a = Ok (Written, ?hc, w')" by simp
    moreover have "it_id t = it_id ?top \<or> (\<exists>i. entry_at ?top (writer_query w) (key_chunk ?top k) i 0)"
      using free unfolding index_view_same(1) [OF o(7)] by auto
    ultimately show ?thesis using o(8-10) cc(3) id
      by (intro exI [of _ Written] exI [of _ ?hc] exI [of _ w'] exI [of _ ms'] exI [of _ a'] exI [of _ sv] exI [of _ c'])
        simp
  qed
qed

end
