(* ===== verification/Column_Spec.thy ===== *)
theory Column_Spec
  imports Column_Move
begin

text \<open>
  A hash column implements a map from hashed keys to a reference counter and a plain value. The
  lemmas cover every case of \<open>hc_write_plan\<close>; the map changes as the operation says, and the
  column, its log record and the map stay related.
\<close>

section \<open>Changes of the map\<close>

lemma col_map_key_at:
  "col_map cd cp ms M \<longleftrightarrow>
    (\<forall>k rc x. M k = Some (rc, x) \<longleftrightarrow> (\<exists>a v c. key_at ms k a = Some (rc, v, c) \<and> plain cd cp v c = Ok x))"
  by (simp add: col_map_def key_at_live)

lemma key_at_upd:
  assumes "live_at ms' = (live_at ms)(a := None, a' \<mapsto> (rc, Partial k, v, c))"
  shows "key_at ms' h b = (if b = a' then if h = k then Some (rc, v, c) else None
    else if b = a then None else key_at ms h b)"
  by (simp add: key_at_def assms)

lemma col_map_set:
  assumes m: "col_map cd cp ms M" and l: "live_at ms' = (live_at ms)(a := None, a' \<mapsto> (rc, Partial k, v, c))"
    and other: "\<And>h. h \<noteq> k \<Longrightarrow> key_at ms h a = None" "\<And>h. h \<noteq> k \<Longrightarrow> key_at ms h a' = None"
    and uniq: "\<And>b. key_at ms k b \<noteq> None \<Longrightarrow> b = a" and x: "plain cd cp v c = Ok x"
  shows "col_map cd cp ms' (M(k \<mapsto> (rc, x)))"
  unfolding col_map_key_at
proof (intro allI)
  fix h rc' x'
  show "(M(k \<mapsto> (rc, x))) h = Some (rc', x') \<longleftrightarrow> (\<exists>b v c. key_at ms' h b = Some (rc', v, c) \<and> plain cd cp v c = Ok x')"
  proof (cases "h = k")
    case True
    have "key_at ms' k b = (if b = a' then Some (rc, v, c) else None)" for b
      unfolding key_at_upd [OF l] using uniq [of b] by (metis (full_types))
    then show ?thesis using True x by auto
  next
    case False
    have "key_at ms' h b = key_at ms h b" for b
      unfolding key_at_upd [OF l] using other False by auto
    then show ?thesis using False m unfolding col_map_key_at by simp
  qed
qed

lemma col_map_del:
  assumes m: "col_map cd cp ms M" and l: "live_at ms' = (live_at ms)(a := None)"
    and other: "\<And>h. h \<noteq> k \<Longrightarrow> key_at ms h a = None" and uniq: "\<And>b. key_at ms k b \<noteq> None \<Longrightarrow> b = a"
  shows "col_map cd cp ms' (M(k := None))"
  unfolding col_map_key_at
proof (intro allI)
  fix h rc' x'
  have e: "key_at ms' h b = (if b = a then None else key_at ms h b)" for b by (simp add: key_at_def l)
  show "(M(k := None)) h = Some (rc', x') \<longleftrightarrow> (\<exists>b v c. key_at ms' h b = Some (rc', v, c) \<and> plain cd cp v c = Ok x')"
  proof (cases "h = k")
    case True
    then have "key_at ms' h b = None" for b unfolding e using uniq [of b] by (metis (full_types))
    then show ?thesis using True by simp
  next
    case False
    have "key_at ms' h b = key_at ms h b" for b unfolding e using other False by auto
    then show ?thesis using False m unfolding col_map_key_at by simp
  qed
qed

lemma decodable_upd:
  assumes "decodable cd hc ms" "live_at ms' = (live_at ms)(a := None, a' := z)"
    and "\<And>rc k v c. z = Some (rc, k, v, c) \<Longrightarrow> \<exists>x. plain cd (hc_compression hc) v c = Ok x"
    and "hc_compression hc' = hc_compression hc"
  shows "decodable cd hc' ms'"
  using assms(1,3) unfolding decodable_def assms(2,4) by (auto split: if_splits)

text \<open>How a key is stored.\<close>

lemma stored_once:
  assumes "values_inv col rcd vts w ms" "live_at ms a = Some (rc, Partial k, v, c)"
  shows "h \<noteq> k \<Longrightarrow> key_at ms h a = None" "key_at ms k b \<noteq> None \<Longrightarrow> b = a" "key_at ms k a = Some (rc, v, c)"
  using assms(2) key_at_unique [OF assms(1), of k b a] by (auto simp: key_at_def)

lemma col_rel_stored:
  assumes "col_rel cd hc w M" "no_collision M k" "M k = Some (rc, x)"
  obtains ms a v c where "col_inv hc w ms" "decodable cd hc ms" "col_map cd (hc_compression hc) ms M"
    "tail_unique ms k" "live_at ms a = Some (rc, Partial k, v, c)" "plain cd (hc_compression hc) v c = Ok x"
proof -
  from assms(1) obtain ms where ms: "col_inv hc w ms" "decodable cd hc ms" "col_map cd (hc_compression hc) ms M"
    unfolding col_rel_def by blast
  then obtain a v c where "live_at ms a = Some (rc, Partial k, v, c)" "plain cd (hc_compression hc) v c = Ok x"
    using assms(3) unfolding col_map_def by blast
  with ms no_collision_tail [OF ms(2,3) assms(2)] show thesis by (rule that)
qed

lemma search_stored:
  assumes "col_inv hc w ms" "tail_unique ms k" "live_at ms a = Some (rc, Partial k, v, c)"
  obtains t i e where "search_all_indexes k (hc_tables hc) (hc_reindex hc) w = Ok (Some (t, i, a))"
    "t \<in> set (indexes hc)" "visits t (writer_query w) k i e" "a = entry_address e (ibits t)"
proof -
  have ka: "key_at ms k a \<noteq> None" using assms(3) by (simp add: key_at_def)
  obtain r where r: "search_all_indexes k (hc_tables hc) (hc_reindex hc) w = Ok r"
      "r = None \<longleftrightarrow> (\<forall>a. key_at ms k a = None)"
      "\<And>t i a. r = Some (t, i, a) \<Longrightarrow> t \<in> set (indexes hc) \<and> key_at ms k a \<noteq> None \<and>
        (\<exists>e. visits t (writer_query w) k i e \<and> a = entry_address e (ibits t))"
    using search_all_indexes_spec [OF assms(1,2)] by blast
  have "r \<noteq> None" using r(2) ka by (metis (full_types))
  then obtain t i b where s: "r = Some (t, i, b)" by auto
  with r(3) key_at_unique [OF col_inv_values [OF assms(1)] ka] have "b = a" by blast
  with r(1,3) s that show thesis by blast
qed

section \<open>The operations\<close>

definition more_refs :: "u32 \<Rightarrow> u32" where
  "more_refs rc = (if rc = LOCKED_REF then rc else rc + 1)"

definition fewer_refs :: "u32 \<Rightarrow> u32" where
  "fewer_refs rc = (if rc = LOCKED_REF then rc else rc - 1)"

text \<open>What an operation does to the map of a column with or without counters and overwriting.\<close>

fun apply_op ::
    "bool \<Rightarrow> bool \<Rightarrow> (key, bytes) operation \<Rightarrow> (key \<Rightarrow> (u32 \<times> bytes) option) \<Rightarrow> key \<Rightarrow> (u32 \<times> bytes) option" where
  "apply_op rcd pre (Set k v) M =
     (case M k of
        None \<Rightarrow> M(k \<mapsto> (1, v))
      | Some (rc, x) \<Rightarrow> if rcd then M(k \<mapsto> (more_refs rc, x)) else if pre then M else M(k \<mapsto> (1, v)))"
| "apply_op rcd pre (Dereference k) M =
     (case M k of
        None \<Rightarrow> M
      | Some (rc, x) \<Rightarrow> if rcd \<and> rc \<noteq> 1 then M(k \<mapsto> (fewer_refs rc, x)) else M(k := None))"
| "apply_op rcd pre (Reference k) M =
     (case M k of None \<Rightarrow> M | Some (rc, x) \<Rightarrow> if rcd then M(k \<mapsto> (more_refs rc, x)) else M)"

lemma more_refs_unat: "unat rc' = min (unat rc + 1) (2 ^ 32 - 1) \<Longrightarrow> rc' = more_refs rc"
proof -
  assume a: "unat rc' = min (unat rc + 1) (2 ^ 32 - 1)"
  have "unat (more_refs rc) = min (unat rc + 1) (2 ^ 32 - 1)"
  proof (cases "rc = LOCKED_REF")
    case True
    then show ?thesis by (simp add: more_refs_def LOCKED_REF_def)
  next
    case False
    then have "unat rc \<noteq> unat LOCKED_REF" by (metis word_unat_eq_iff)
    moreover have "unat LOCKED_REF = 4294967295" by simp
    ultimately have "unat rc < 4294967295" using unat_bounds(3) [of rc] by linarith
    then show ?thesis using False by (simp add: more_refs_def unat_word_ariths)
  qed
  with a show ?thesis by (simp add: word_unat_eq_iff)
qed

lemma relI:
  assumes "col_inv hc' w' ms'" "same_column hc hc'" "decodable cd hc ms"
    and "live_at ms' = (live_at ms)(a := None, a' := z)"
    and "\<And>rc k v c. z = Some (rc, k, v, c) \<Longrightarrow> \<exists>x. plain cd (hc_compression hc) v c = Ok x"
    and "col_map cd (hc_compression hc) ms' M'"
  shows "col_rel cd hc' w' M'"
proof -
  have c: "hc_compression hc' = hc_compression hc" using assms(2) by (simp add: same_column_def)
  from assms(1,6) decodable_upd [OF assms(3-5) c] show ?thesis
    unfolding col_rel_def by (intro exI [of _ ms']) (simp add: c)
qed

lemma plan_unknown_key:
  assumes "col_rel cd hc w M" "no_collision M k" "M k = None" "op_key op = k"
  shows "hc_write_plan cd hc op w =
    (case op of
       Set _ v \<Rightarrow> write_plan_new cd hc k v w
     | Dereference _ \<Rightarrow>
         Ok (Skipped, if hc_collect_stats hc then hc\<lparr>hc_stats := remove_miss (hc_stats hc)\<rparr> else hc, w)
     | Reference _ \<Rightarrow>
         Ok (Skipped, if hc_collect_stats hc then hc\<lparr>hc_stats := reference_increase_miss (hc_stats hc)\<rparr> else hc, w))"
proof -
  from assms(1) obtain ms where ms: "col_inv hc w ms" "decodable cd hc ms" "col_map cd (hc_compression hc) ms M"
    unfolding col_rel_def by blast
  have "\<forall>a. key_at ms k a = None" using assms(3) col_map_None [OF ms(2,3)] by blast
  then have "search_all_indexes k (hc_tables hc) (hc_reindex hc) w = Ok None"
    using search_all_indexes_spec [OF ms(1) no_collision_tail [OF ms(2,3) assms(2)]] by (metis (full_types))
  with assms(4) show ?thesis by (cases op) (simp_all add: hc_write_plan_def)
qed

lemma col_rel_stats: "col_rel cd (hc\<lparr>hc_stats := st\<rparr>) w M = col_rel cd hc w M"
  by (simp add: col_rel_def col_inv_def decodable_def)

lemma plan_new:
  assumes "col_rel cd hc w M" "no_collision M k" "M k = None" "codec_ok cd" "length k = 32" "room hc (length v)"
  shows "\<exists>outcome hc' w'. hc_write_plan cd hc (Set k v) w = Ok (outcome, hc', w') \<and> same_column hc hc' \<and>
    col_rel cd hc' w' (M(k \<mapsto> (1, v)))"
proof -
  from assms(1) obtain ms where ms: "col_inv hc w ms" "decodable cd hc ms" "col_map cd (hc_compression hc) ms M"
    unfolding col_rel_def by blast
  have n: "\<forall>a. key_at ms k a = None" using assms(3) col_map_None [OF ms(2,3)] by blast
  from write_plan_new_spec [OF ms(1) assms(4,5) no_collision_tail [OF ms(2,3) assms(2)] n assms(6)]
  obtain outcome hc' w' ms' a sv c where
    o: "write_plan_new cd hc k v w = Ok (outcome, hc', w')" "col_inv hc' w' ms'" "same_column hc hc'"
      "live_at ms a = None" "live_at ms' = (live_at ms)(a \<mapsto> (1, Partial k, sv, c))"
      "plain cd (hc_compression hc) sv c = Ok v" by blast
  have l: "live_at ms' = (live_at ms)(a := None, a \<mapsto> (1, Partial k, sv, c))" by (simp add: o(5))
  have "col_map cd (hc_compression hc) ms' (M(k \<mapsto> (1, v)))"
    using o(4) n by (intro col_map_set [OF ms(3) l _ _ _ o(6)]) (simp_all add: key_at_def)
  then have "col_rel cd hc' w' (M(k \<mapsto> (1, v)))" using o(6) by (intro relI [OF o(2,3) ms(2) l]) auto
  with o(1,3) plan_unknown_key [OF assms(1-3), of "Set k v"] show ?thesis by simp
qed

lemma plan_counted:
  assumes "col_rel cd hc w M" "no_collision M k" "M k = Some (rc, x)" "hc_ref_counted hc"
    and "op = Reference k \<or> op = Set k v"
  shows "\<exists>hc' w'. hc_write_plan cd hc op w = Ok (Written, hc', w') \<and> same_column hc hc' \<and>
    col_rel cd hc' w' (M(k \<mapsto> (more_refs rc, x)))"
proof -
  obtain ms a val c where ms: "col_inv hc w ms" "decodable cd hc ms" "col_map cd (hc_compression hc) ms M"
      "tail_unique ms k" "live_at ms a = Some (rc, Partial k, val, c)" "plain cd (hc_compression hc) val c = Ok x"
    by (rule col_rel_stored [OF assms(1-3)])
  obtain t i where s: "search_all_indexes k (hc_tables hc) (hc_reindex hc) w = Ok (Some (t, i, a))"
    by (rule search_stored [OF ms(1,4,5)])
  have "op = Reference k \<or> (\<exists>val. op = Set k val)" "op_key op = k" using assms(5) by auto
  from existing_inc_ref [OF ms(1,5) assms(4) this(1), of cd t i] obtain hc' w' ms' rc' where
    o: "write_plan_existing cd hc op w t i a = Ok (Written, hc', w')" "col_inv hc' w' ms'" "same_column hc hc'"
      "live_at ms' = (live_at ms)(a \<mapsto> (rc', Partial k, val, c))" "unat rc' = min (unat rc + 1) (2 ^ 32 - 1)" by blast
  have l: "live_at ms' = (live_at ms)(a := None, a \<mapsto> (rc', Partial k, val, c))" by (simp add: o(4))
  note once = stored_once [OF col_inv_values [OF ms(1)] ms(5)]
  have "col_map cd (hc_compression hc) ms' (M(k \<mapsto> (rc', x)))"
    by (rule col_map_set [OF ms(3) l once(1) once(1) once(2) ms(6)])
  then have "col_rel cd hc' w' (M(k \<mapsto> (rc', x)))" using ms(6) by (intro relI [OF o(2,3) ms(2) l]) auto
  with more_refs_unat [OF o(5)] o(1,3) s \<open>op_key op = k\<close> show ?thesis by (simp add: hc_write_plan_def)
qed

lemma plan_dereferenced:
  assumes "col_rel cd hc w M" "no_collision M k" "M k = Some (rc, x)"
  shows "\<exists>hc' w'. hc_write_plan cd hc (Dereference k) w = Ok (Written, hc', w') \<and> same_column hc hc' \<and>
    col_rel cd hc' w' (if hc_ref_counted hc \<and> rc \<noteq> 1 then M(k \<mapsto> (fewer_refs rc, x)) else M(k := None))"
proof -
  obtain ms a val c where ms: "col_inv hc w ms" "decodable cd hc ms" "col_map cd (hc_compression hc) ms M"
      "tail_unique ms k" "live_at ms a = Some (rc, Partial k, val, c)" "plain cd (hc_compression hc) val c = Ok x"
    by (rule col_rel_stored [OF assms])
  obtain t i e where s: "search_all_indexes k (hc_tables hc) (hc_reindex hc) w = Ok (Some (t, i, a))"
      "t \<in> set (indexes hc)" "visits t (writer_query w) k i e" "a = entry_address e (ibits t)"
    by (rule search_stored [OF ms(1,4,5)])
  note once = stored_once [OF col_inv_values [OF ms(1)] ms(5)]
  show ?thesis
  proof (cases "hc_ref_counted hc \<and> rc \<noteq> 1")
    case True
    then obtain hc' w' ms' where
      o: "write_plan_existing cd hc (Dereference k) w t i a = Ok (Written, hc', w')" "col_inv hc' w' ms'"
        "same_column hc hc'" "live_at ms' = (live_at ms)(a \<mapsto> (fewer_refs rc, Partial k, val, c))"
      using existing_dec_ref [OF ms(1,5,4,2)] unfolding fewer_refs_def by blast
    have l: "live_at ms' = (live_at ms)(a := None, a \<mapsto> (fewer_refs rc, Partial k, val, c))" by (simp add: o(4))
    have "col_map cd (hc_compression hc) ms' (M(k \<mapsto> (fewer_refs rc, x)))"
      by (rule col_map_set [OF ms(3) l once(1) once(1) once(2) ms(6)])
    then have "col_rel cd hc' w' (M(k \<mapsto> (fewer_refs rc, x)))" using ms(6) by (intro relI [OF o(2,3) ms(2) l]) auto
    with True o(1,3) s(1) show ?thesis by (simp add: hc_write_plan_def)
  next
    case False
    then have "hc_ref_counted hc \<Longrightarrow> rc = 1" by blast
    from existing_remove [OF ms(1,5) s(2-4) ms(4,2) this] obtain hc' w' ms' where
      o: "write_plan_existing cd hc (Dereference k) w t i a = Ok (Written, hc', w')" "col_inv hc' w' ms'"
        "same_column hc hc'" "live_at ms' = (live_at ms)(a := None)" by blast
    have l: "live_at ms' = (live_at ms)(a := None, a := None)" by (simp add: o(4))
    have "col_map cd (hc_compression hc) ms' (M(k := None))" by (rule col_map_del [OF ms(3) o(4) once(1,2)])
    then have "col_rel cd hc' w' (M(k := None))" by (intro relI [OF o(2,3) ms(2) l]) auto
    with o(1,3) s(1) show ?thesis unfolding if_not_P [OF False] by (simp add: hc_write_plan_def)
  qed
qed

text \<open>
  Overwriting: the new value is in the map unless the value had to move and the newest index had
  no place for its new address. The outcome \<open>NeedReindex\<close> says so; nothing else reacts to it.
\<close>

lemma plan_overwritten:
  assumes "col_rel cd hc w M" "no_collision M k" "M k = Some (rc, x)" "codec_ok cd" "room hc (length v)"
    and "\<not> hc_ref_counted hc" "\<not> hc_preimage hc" "prefix_exact hc w k"
  shows "\<exists>outcome hc' w'. hc_write_plan cd hc (Set k v) w = Ok (outcome, hc', w') \<and> same_column hc hc' \<and>
    (outcome = Written \<and> col_rel cd hc' w' (M(k \<mapsto> (1, v))) \<or>
     outcome = NeedReindex \<and> writer_index w' = writer_index w \<and> indexes hc' = indexes hc \<and>
       (\<exists>ms ms' a a' sv c. col_inv hc w ms \<and> values_inv (hc_col hc) (hc_ref_counted hc) (values_of hc') w' ms' \<and>
          key_at ms k a \<noteq> None \<and> live_at ms' = (live_at ms)(a := None, a' \<mapsto> (1, Partial k, sv, c)) \<and>
          plain cd (hc_compression hc) sv c = Ok v \<and> live_at ms a' = None \<and> a' \<noteq> a))"
proof -
  obtain ms a val c where ms: "col_inv hc w ms" "decodable cd hc ms" "col_map cd (hc_compression hc) ms M"
      "tail_unique ms k" "live_at ms a = Some (rc, Partial k, val, c)" "plain cd (hc_compression hc) val c = Ok x"
    by (rule col_rel_stored [OF assms(1-3)])
  obtain t i e where s: "search_all_indexes k (hc_tables hc) (hc_reindex hc) w = Ok (Some (t, i, a))"
      "t \<in> set (indexes hc)" "visits t (writer_query w) k i e" "a = entry_address e (ibits t)"
    by (rule search_stored [OF ms(1,4,5)])
  have run: "hc_write_plan cd hc (Set k v) w = write_plan_existing cd hc (Set k v) w t i a"
    using s(1) by (simp add: hc_write_plan_def)
  note once = stored_once [OF col_inv_values [OF ms(1)] ms(5)]
  show ?thesis
  proof (cases "snd (column_compress cd (hc_compression hc) (Partial k) v (values_of hc)) = unat (addr_size_tier a)")
    case True
    from existing_replace [OF ms(1,5,4,2) assms(4-7) True, of t i] obtain hc' w' ms' sv c' where
      o: "write_plan_existing cd hc (Set k v) w t i a = Ok (Written, hc', w')" "col_inv hc' w' ms'" "same_column hc hc'"
        "live_at ms' = (live_at ms)(a \<mapsto> (1, Partial k, sv, c'))" "plain cd (hc_compression hc) sv c' = Ok v" by blast
    have l: "live_at ms' = (live_at ms)(a := None, a \<mapsto> (1, Partial k, sv, c'))" by (simp add: o(4))
    have "col_map cd (hc_compression hc) ms' (M(k \<mapsto> (1, v)))"
      by (rule col_map_set [OF ms(3) l once(1) once(1) once(2) o(5)])
    then have "col_rel cd hc' w' (M(k \<mapsto> (1, v)))" using o(5) by (intro relI [OF o(2,3) ms(2) l]) auto
    with o(1,3) run show ?thesis by simp
  next
    case False
    from existing_move [OF ms(1,5) s(2-4) ms(4,2) assms(4-8) False] obtain outcome hc' w' ms' a' sv c' where
      o: "write_plan_existing cd hc (Set k v) w t i a = Ok (outcome, hc', w')" "same_column hc hc'"
        "live_at ms' = (live_at ms)(a := None, a' \<mapsto> (1, Partial k, sv, c'))" "a' \<noteq> a" "live_at ms a' = None"
        "plain cd (hc_compression hc) sv c' = Ok v" "indexes hc' = indexes hc"
        "outcome = Written \<and> col_inv hc' w' ms' \<or> outcome = NeedReindex \<and> writer_index w' = writer_index w \<and>
          values_inv (hc_col hc) (hc_ref_counted hc) (values_of hc') w' ms'" by blast
    from o(8) show ?thesis
    proof
      assume w: "outcome = Written \<and> col_inv hc' w' ms'"
      have "key_at ms h a' = None" for h using o(5) by (simp add: key_at_def)
      then have "col_map cd (hc_compression hc) ms' (M(k \<mapsto> (1, v)))"
        by (intro col_map_set [OF ms(3) o(3) once(1) _ once(2) o(6)])
      then have "col_rel cd hc' w' (M(k \<mapsto> (1, v)))" using w o(6) by (intro relI [OF _ o(2) ms(2) o(3)]) auto
      with o(1,2) w run show ?thesis by simp
    next
      assume "outcome = NeedReindex \<and> writer_index w' = writer_index w \<and>
          values_inv (hc_col hc) (hc_ref_counted hc) (values_of hc') w' ms'"
      moreover have "key_at ms k a \<noteq> None" by (simp add: once(3))
      ultimately show ?thesis using o(1-7) run ms(1) by metis
    qed
  qed
qed

lemma plan_unchanged:
  assumes "col_rel cd hc w M" "no_collision M k" "M k = Some (rc, x)" "\<not> hc_ref_counted hc"
    and "op = Reference k \<or> op = Set k v \<and> hc_preimage hc"
  shows "\<exists>hc'. hc_write_plan cd hc op w = Ok (Skipped, hc', w) \<and> same_column hc hc' \<and> col_rel cd hc' w M"
proof -
  obtain ms a val c where ms: "col_inv hc w ms" "decodable cd hc ms" "col_map cd (hc_compression hc) ms M"
      "tail_unique ms k" "live_at ms a = Some (rc, Partial k, val, c)" "plain cd (hc_compression hc) val c = Ok x"
    by (rule col_rel_stored [OF assms(1-3)])
  obtain t i where s: "search_all_indexes k (hc_tables hc) (hc_reindex hc) w = Ok (Some (t, i, a))"
    by (rule search_stored [OF ms(1,4,5)])
  note f = values_inv_facts [OF col_inv_values [OF ms(1)]]
  let ?hc = "hc_with_values hc (values_of hc) (hc_stats_opt hc)"
  have "op_key op = k" using assms(5) by auto
  moreover have "write_existing_value_plan cd (Partial k) (hc_as_ref hc) a op w (hc_stats_opt hc) False =
      Ok ((Some Skipped, None), values_of hc, w, hc_stats_opt hc)"
    using assms(5) f(1) by (auto simp: write_existing_value_plan_def Let_def)
  ultimately have "hc_write_plan cd hc op w = Ok (Skipped, ?hc, w)"
    using s assms(4) by (simp add: hc_write_plan_def write_plan_existing_def Let_def)
  moreover have "?hc = hc\<lparr>hc_stats := hc_stats ?hc\<rparr>" by (simp add: hc_with_values_def)
  then have "col_rel cd ?hc w M" using assms(1) col_rel_stats by metis
  ultimately show ?thesis by (metis hc_with_values_simps(3))
qed

lemma plan_missing:
  assumes "col_rel cd hc w M" "no_collision M k" "M k = None" "op = Reference k \<or> op = Dereference k"
  shows "\<exists>hc'. hc_write_plan cd hc op w = Ok (Skipped, hc', w) \<and> same_column hc hc' \<and> col_rel cd hc' w M"
proof -
  have "op_key op = k" using assms(4) by auto
  from plan_unknown_key [OF assms(1-3) this] assms(1,4) show ?thesis
    by (auto simp: same_column_def col_rel_stats)
qed

lemma write_plan_rel:
  assumes "col_rel cd hc w M" "codec_ok cd" "no_collision M (op_key op)" "length (op_key op) = 32"
    and "\<And>v. op = Set (op_key op) v \<Longrightarrow> room hc (length v)" "prefix_exact hc w (op_key op)"
  shows "\<exists>outcome hc' w'. hc_write_plan cd hc op w = Ok (outcome, hc', w') \<and> same_column hc hc' \<and>
    (outcome = NeedReindex \<and> M (op_key op) \<noteq> None \<or>
     col_rel cd hc' w' (apply_op (hc_ref_counted hc) (hc_preimage hc) op M))"
proof (cases op)
  case (Set k v)
  with assms have a: "no_collision M k" "length k = 32" "room hc (length v)" "prefix_exact hc w k" by simp_all
  show ?thesis
  proof (cases "M k")
    case None
    from plan_new [OF assms(1) a(1) None assms(2) a(2,3)] None Set show ?thesis by auto
  next
    case (Some y)
    obtain rc x where y: "y = (rc, x)" by (cases y)
    note m = Some [unfolded y]
    consider "hc_ref_counted hc" | "\<not> hc_ref_counted hc" "hc_preimage hc" | "\<not> hc_ref_counted hc" "\<not> hc_preimage hc" by blast
    then show ?thesis
    proof cases
      case 1
      from plan_counted [OF assms(1) a(1) m 1, of "Set k v" v] m 1 Set show ?thesis by auto
    next
      case 2
      from plan_unchanged [OF assms(1) a(1) m 2(1), of "Set k v" v] m 2 Set show ?thesis by auto
    next
      case 3
      from plan_overwritten [OF assms(1) a(1) m assms(2) a(3) 3 a(4)] m 3 Set show ?thesis by auto
    qed
  qed
next
  case (Dereference k)
  with assms(3) have a: "no_collision M k" by simp
  show ?thesis
  proof (cases "M k")
    case None
    from plan_missing [OF assms(1) a None, of op] None Dereference show ?thesis by auto
  next
    case (Some y)
    obtain rc x where y: "y = (rc, x)" by (cases y)
    from plan_dereferenced [OF assms(1) a Some [unfolded y]] Some y Dereference show ?thesis by auto
  qed
next
  case (Reference k)
  with assms(3) have a: "no_collision M k" by simp
  show ?thesis
  proof (cases "M k")
    case None
    from plan_missing [OF assms(1) a None, of op] None Reference show ?thesis by auto
  next
    case (Some y)
    obtain rc x where y: "y = (rc, x)" by (cases y)
    show ?thesis
    proof (cases "hc_ref_counted hc")
      case True
      from plan_counted [OF assms(1) a Some [unfolded y] True, of op] Some y True Reference show ?thesis by auto
    next
      case False
      from plan_unchanged [OF assms(1) a Some [unfolded y] False, of op] Some y False Reference show ?thesis by auto
    qed
  qed
qed

end
