(* ===== verification/Column_Open.thy ===== *)
theory Column_Open
  imports Column_Spec
begin

text \<open>A column without files opens as the empty map.\<close>

definition fresh_table :: "u8 \<Rightarrow> bool \<Rightarrow> u32 \<Rightarrow> nat \<Rightarrow> value_table" where
  "fresh_table col rcd version i =
     \<lparr>vt_id = table_id_new col (word_of_nat i),
      vt_entry_size = (if i < 255 then SIZES ! i else MULTIPART_ENTRY_SIZE),
      vt_file = \<lparr>tf_file = None, tf_capacity = 0\<rparr>, vt_filled = 1, vt_last_removed = 0,
      vt_dirty_header = False, vt_multipart = (i = 255), vt_ref_counted = rcd, vt_db_version = version\<rparr>"

lemma SIZES_bounds: "i < 255 \<Longrightarrow> 32 \<le> unat (SIZES ! i) \<and> unat (SIZES ! i) \<le> 32760"
proof -
  assume "i < 255"
  moreover have "list_all (\<lambda>s. 32 \<le> unat s \<and> unat s \<le> 32760) SIZES" by (simp add: SIZES_def)
  ultimately show ?thesis by (simp add: list_all_length length_SIZES)
qed

lemma open_fresh_table:
  assumes "i < 256"
  shows "open_table (\<lambda>_. None) col (word_of_nat i) opt version = Ok (fresh_table col (co_ref_counted opt) version i)"
proof -
  have u: "unat (word_of_nat i :: u8) = i" using assms by (simp add: unat_of_nat)
  show ?thesis
  proof (cases "i < 255")
    case True
    with SIZES_bounds [OF True] u show ?thesis
      by (simp add: open_table_def vt_open_def fresh_table_def Let_def length_SIZES tf_open_def)
  next
    case False
    with assms have "i = 255" by simp
    with u show ?thesis
      by (simp add: open_table_def vt_open_def fresh_table_def Let_def length_SIZES tf_open_def)
  qed
qed

lemma open_fresh_tables:
  "\<forall>i\<in>set js. i < 256 \<Longrightarrow>
   open_tables (\<lambda>_. None) col opt version js = Ok (map (fresh_table col (co_ref_counted opt) version) js)"
  by (induction js) (simp_all add: open_fresh_table)

lemma open_fresh_index:
  "open_index (\<lambda>_. None) col = Ok (it_create_new (index_id_new col 16), [], stats_empty)"
proof -
  have "open_index_loop (\<lambda>_. None) col bs st = Ok st" for bs st
    by (induction bs arbitrary: st) (auto simp: it_open_existing_def)
  then show ?thesis unfolding open_index_def by (simp only: and_then_simps prod.case option.case MIN_INDEX_BITS_def)
qed

lemma fresh_store: "i < 256 \<Longrightarrow> store_rel (fresh_table col rcd version i) lq (\<lambda>_. None)"
proof -
  assume "i < 256"
  then have "wf_table (fresh_table col rcd version i)"
    using SIZES_bounds [of i] by (auto simp: wf_table_def fresh_table_def)
  then have "table_inv (fresh_table col rcd version i) lq [] []"
    by (auto simp: table_inv_def alloc_inv_def fresh_table_def)
  then show ?thesis by (auto simp: store_rel_def live_map_def)
qed

lemma table_id_new_inj: "table_id_new col t = table_id_new col t' \<Longrightarrow> t = t'"
  by (metis table_id_roundtrip(2))

lemma empty_log [simp]:
  "writer_index (log_writer_new overlays_default rid) t i = None"
  "writer_value (log_writer_new overlays_default rid) t i = None"
  by (simp_all add: log_writer_new_def log_change_new_def overlays_default_def writer_value_def writer_index_def
      value_lookup_def index_lookup_def overlays_query_def)

text \<open>A column that has just been created, with no options set but those given.\<close>

definition fresh_column :: "u8 \<Rightarrow> options \<Rightarrow> metadata \<Rightarrow> hash_column result" where
  "fresh_column col opt meta =
     and_then (open_tables (\<lambda>_. None) col (md_columns meta ! unat col) (md_version meta) [0..<256])
       (\<lambda>vts. hc_open (\<lambda>_. None) col vts opt meta)"

lemma fresh_column_ok:
  assumes "unat col < length (md_columns meta)"
  shows "\<exists>hc. fresh_column col opt meta = Ok hc \<and> hc_col hc = col \<and>
    values_of hc = map (fresh_table col (co_ref_counted (md_columns meta ! unat col)) (md_version meta)) [0..<256] \<and>
    indexes hc = [it_create_new (index_id_new col 16)] \<and>
    hc_ref_counted hc = co_ref_counted (md_columns meta ! unat col) \<and>
    hc_preimage hc = co_preimage (md_columns meta ! unat col)"
proof -
  let ?opt = "md_columns meta ! unat col"
  have t: "open_tables (\<lambda>_. None) col ?opt (md_version meta) [0..<256] =
      Ok (map (fresh_table col (co_ref_counted ?opt) (md_version meta)) [0..<256])"
    by (rule open_fresh_tables) simp
  show ?thesis unfolding fresh_column_def t
    using assms by (simp add: hc_open_def open_fresh_index Let_def del: upt_rec_numeral)
qed

lemma fresh_values:
  "values_inv col rcd (map (fresh_table col rcd version) [0..<256]) w (replicate 256 (\<lambda>_. None))"
proof -
  have "distinct (map vt_id (map (fresh_table col rcd version) [0..<256]))"
  proof -
    have "inj_on (\<lambda>i. vt_id (fresh_table col rcd version i)) {0..<256}"
    proof (rule inj_onI)
      fix i j assume "i \<in> {0..<256}" "j \<in> {0..<256}" "vt_id (fresh_table col rcd version i) = vt_id (fresh_table col rcd version j)"
      then have "(word_of_nat i :: u8) = word_of_nat j" "i < 256" "j < 256"
        by (auto simp: fresh_table_def dest: table_id_new_inj)
      then have "unat (word_of_nat i :: u8) = unat (word_of_nat j :: u8)" by simp
      with \<open>i < 256\<close> \<open>j < 256\<close> show "i = j" by (simp add: unat_of_nat)
    qed
    then show ?thesis by (simp add: distinct_map o_def del: upt_rec_numeral)
  qed
  moreover have "tiers_ok col rcd (map (fresh_table col rcd version) [0..<256])"
    by (auto simp: tiers_ok_def fresh_table_def simp del: upt_rec_numeral)
  moreover have "tails_distinct (replicate 256 (\<lambda>_. None))" by (simp add: tails_distinct_def live_at_def)
  ultimately show ?thesis
    by (simp add: values_inv_def value_stores.stores_rel_def fresh_store small_store_def hashed_def del: upt_rec_numeral)
qed

lemma fresh_column_rel:
  assumes "fresh_column col opt meta = Ok hc" "unat col < length (md_columns meta)"
  shows "col_rel cd hc (log_writer_new overlays_default rid) (\<lambda>_. None)" "n < 2 ^ 54 \<Longrightarrow> room hc n"
    "prefix_exact hc (log_writer_new overlays_default rid) k"
proof -
  let ?w = "log_writer_new overlays_default rid" and ?ms = "replicate 256 (\<lambda>_. None) :: stores"
  let ?t = "it_create_new (index_id_new col 16)"
  from fresh_column_ok [OF assms(2), of opt] assms(1) have hc: "hc_col hc = col"
      "values_of hc = map (fresh_table col (hc_ref_counted hc) (md_version meta)) [0..<256]" "indexes hc = [?t]"
    by (auto simp del: upt_rec_numeral)
  have b: "ibits ?t = 16" "it_map ?t = None" by (simp_all add: it_create_new_def)
  have e0: "entry_at ?t (writer_query ?w) ci i e \<Longrightarrow> e = 0" for ci i e
    by (auto simp: entry_at_def chunk_view_def writer_query_def b)
  have "index_inv col ?t" by (simp add: index_inv_def b valid_bits_def map_ok_def) (simp add: it_create_new_def)
  then have "indexes_inv (hc_col hc) (indexes hc) ?w"
    by (simp add: indexes_inv_def hc log_chunks_ok_def writer_query_def)
  moreover have "pointers_ok (indexes hc) (values_of hc) (writer_query ?w)" using e0 unfolding pointers_ok_def hc(3) by auto
  moreover have nl: "live_at ?ms a = None" for a by (simp add: live_at_def)
  then have "complete (indexes hc) (writer_query ?w) ?ms" by (simp add: complete_def)
  ultimately have "col_inv hc ?w ?ms" using fresh_values [of col] unfolding col_inv_def hc(1,2) by blast
  moreover have "decodable cd hc ?ms" "col_map cd (hc_compression hc) ?ms (\<lambda>_. None)"
    by (simp_all add: decodable_def col_map_def nl)
  ultimately show "col_rel cd hc ?w (\<lambda>_. None)" unfolding col_rel_def by blast
  have "tb_index (hc_tables hc) = ?t" using hc(3) by simp
  then show "room hc n" if "n < 2 ^ 54"
    using that by (simp add: room_def b hc(2) fresh_table_def del: upt_rec_numeral)
  show "prefix_exact hc ?w k"
    unfolding prefix_exact_def hc(3)
  proof (intro ballI allI impI)
    fix t i e assume t: "t \<in> set [?t]" "visits t (writer_query ?w) k i e"
    then have "entry_at ?t (writer_query ?w) (key_chunk ?t k) i e" by (simp add: visits_def)
    then have "e = 0" by (rule e0)
    moreover have "valid_bits (ibits t)" using t(1) b by (simp add: valid_bits_def)
    ultimately show "base_match (ibits t) (index_from_partial k) e"
      using t(2) sse2_match_facts(2) unfolding visits_def by blast
  qed
qed

end
