(* ===== verification/Column_Reindex.thy ===== *)
theory Column_Reindex
  imports Column_Open Index_Enact
begin

text \<open>
  Re-indexing: the entries of an old index are copied into the newest one by the leading bits of
  their keys, which is all an index keeps of a key. The stored values stay as they are, and once
  every entry is copied the old index can go.
\<close>

section \<open>Only the leading bits of a key matter to an index\<close>

lemma leading_bits:
  assumes "drop_bit 14 (index_from_partial k) = drop_bit 14 (index_from_partial k')" "valid_bits (ibits t)"
  shows "key_chunk t k = key_chunk t k'" "key_entry t k a = key_entry t k' a"
    "sse2_match (ibits t) (index_from_partial k) = sse2_match (ibits t) (index_from_partial k')"
    "base_match (ibits t) (index_from_partial k) = base_match (ibits t) (index_from_partial k')"
proof -
  let ?b = "unat (ibits t)"
  let ?p = "index_from_partial k" and ?q = "index_from_partial k'"
  have b: "?b \<le> 49" using assms(2) by (simp add: valid_bits_def)
  have bits: "bit ?p j = bit ?q j" if "14 \<le> j" for j
    using arg_cong [OF assms(1), of "\<lambda>x. bit x (j - 14)"] that by (simp add: bit_drop_bit_eq)
  show "key_chunk t k = key_chunk t k'"
    unfolding key_chunk_def chunk_index_def by (rule bit_word_eqI) (use b bits in \<open>simp add: bit_drop_bit_eq\<close>)
  have d: "drop_bit s (push_bit ?b ?p) = drop_bit s (push_bit ?b ?q)" if "?b + 14 \<le> s" for s
    by (rule bit_word_eqI) (use that bits in \<open>auto simp: bit_simps\<close>)
  have e: "extract_key ?p (ibits t) = extract_key ?q (ibits t)"
    using d [of "?b + 14"] by (simp add: extract_key_def unat_address_bits [OF assms(2)])
  then show "key_entry t k a = key_entry t k' a" by (simp add: key_entry_def)
  from e show bm: "base_match (ibits t) ?p = base_match (ibits t) ?q" by (simp add: base_match_def fun_eq_iff)
  show "sse2_match (ibits t) ?p = sse2_match (ibits t) ?q"
    using d [of "max 32 (?b + 14)"] bm by (simp add: sse2_match_def fun_eq_iff Let_def)
qed

lemma entry_determined:
  assumes "valid_bits b" "entry_address e b = a" "entry_partial_key e b = pk"
  shows "e = entry_pack a pk b"
proof -
  have m: "last_address b = mask (unat b + 14)" by (rule last_address_mask [OF assms(1)])
  show ?thesis unfolding assms(2,3) [symmetric] entry_pack_def entry_address_def entry_partial_key_def
      unat_address_bits [OF assms(1)] m
    by (rule bit_word_eqI) (auto simp: bit_simps not_less)
qed

section \<open>Copying an entry\<close>

lemma contains_entry:
  assumes inv: "indexes_inv col (t # q) w"
  shows "\<exists>found. contains_partial_key_with_address k a t w = Ok found \<and>
    (found \<longleftrightarrow> (\<exists>i e. visits t (writer_query w) k i e \<and> entry_address e (ibits t) = a))"
proof -
  let ?F = "\<lambda>(i :: nat) x. if x = a then Some () else None"
  have it: "index_inv col t" "log_chunks_ok (writer_query w)" using inv by (simp_all add: indexes_inv_def)
  have "\<exists>r. index_search k t (writer_query w) (\<lambda>_ existing. Ok (if existing = a then Some () else None)) = Ok r \<and>
      (r = None \<longleftrightarrow> (\<forall>i e. visits t (writer_query w) k i e \<longrightarrow> ?F i (entry_address e (ibits t)) = None)) \<and>
      (\<forall>x. r = Some x \<longrightarrow> (\<exists>i e. visits t (writer_query w) k i e \<and> ?F i (entry_address e (ibits t)) = Some x))"
    by (rule index_search_visits [OF it]) simp
  then obtain r where "index_search k t (writer_query w) (\<lambda>_ existing. Ok (if existing = a then Some () else None)) = Ok r"
      "r = None \<longleftrightarrow> (\<forall>i e. visits t (writer_query w) k i e \<longrightarrow> ?F i (entry_address e (ibits t)) = None)"
    by blast
  then show ?thesis by (auto simp: contains_partial_key_with_address_def)
qed

lemma col_inv_added:
  assumes inv: "col_inv hc w ms"
    and ea: "entry_added (hc_col hc) (values_of hc) k a (indexes hc) w (tb_index tb # rx_queue rx) w'"
    and tb: "tb_value tb = values_of hc"
  shows "col_inv (hc\<lparr>hc_tables := tb, hc_reindex := rx\<rparr>) w' ms"
proof -
  note e = ea [unfolded entry_added_def]
  have vi: "values_inv (hc_col hc) (hc_ref_counted hc) (values_of hc) w' ms"
    using e by (intro values_inv_index_write [OF _ col_inv_values [OF inv]]) blast
  have "complete (tb_index tb # rx_queue rx) (writer_query w') ms"
    unfolding complete_def
  proof (intro allI impI)
    fix b rc h v c assume l: "live_at ms b = Some (rc, Partial h, v, c)"
    then obtain t where "t \<in> set (indexes hc)" "indexed t (writer_query w) h b"
      using inv unfolding col_inv_def complete_def by blast
    with e live_entry(1) [OF col_inv_values [OF inv] l]
    show "\<exists>t\<in>set (tb_index tb # rx_queue rx). indexed t (writer_query w') h b" by blast
  qed
  with vi e tb show ?thesis by (simp add: col_inv_def)
qed

text \<open>
  \<open>write_reindex_plan\<close> on what \<open>chunk_plan\<close> reads from an entry of an index: the stored values
  stay, and the key of the entry is indexed in the newest index afterwards. The key is known by
  its leading bits only.
\<close>

lemma reindex_entry:
  assumes inv: "col_inv hc w ms" and src: "src \<in> set (indexes hc)" and l: "live_at ms a = Some (rc, Partial h, v, c)"
    and e: "entry_at src (writer_query w) (key_chunk src h) i (key_entry src h a)" "a \<le> last_address (ibits src)"
    and r: "room hc 0" and px: "\<And>j x. visits (tb_index (hc_tables hc)) (writer_query w) h j x \<Longrightarrow>
      base_match (ibits (tb_index (hc_tables hc))) (index_from_partial h) x"
  defines "k \<equiv> recover_key_prefix src (key_chunk src h) (key_entry src h a)"
  shows "\<exists>outcome hc' w'. write_reindex_plan hc k a w = Ok (outcome, hc', w') \<and> same_column hc hc' \<and>
    col_inv hc' w' ms \<and> indexed (tb_index (hc_tables hc')) (writer_query w') h a \<and>
    (\<forall>t\<in>set (indexes hc). \<forall>h b. b \<noteq> 0 \<longrightarrow> indexed t (writer_query w) h b \<longrightarrow> indexed t (writer_query w') h b)"
proof -
  let ?t = "tb_index (hc_tables hc)" and ?lq = "writer_query w"
  have ii: "indexes_inv (hc_col hc) (indexes hc) w" "pointers_ok (indexes hc) (values_of hc) ?lq"
    using inv by (simp_all add: col_inv_def)
  have vbs: "valid_bits (ibits src)" using col_inv_index [OF inv src] by (simp add: index_inv_def)
  have vbt: "valid_bits (ibits t)" if "t \<in> set (indexes hc)" for t
    using col_inv_index [OF inv that] by (simp add: index_inv_def)
  have kh: "drop_bit 14 (index_from_partial k) = drop_bit 14 (index_from_partial h)"
    unfolding k_def key_chunk_def recover_key_prefix_bits [OF vbs e(2)]
    by (rule bit_word_eqI) (fastforce simp: bit_simps dest: bit_imp_le_length)
  note lead = leading_bits [OF kh]
  note a0 = live_entry(1) [OF col_inv_values [OF inv] l]
  obtain found where f: "contains_partial_key_with_address k a ?t w = Ok found"
      "found \<longleftrightarrow> (\<exists>i e. visits ?t ?lq k i e \<and> entry_address e (ibits ?t) = a)"
    using contains_entry [OF ii(1)] by blast
  show ?thesis
  proof (cases found)
    case True
    then obtain j x where x: "visits ?t ?lq k j x" "entry_address x (ibits ?t) = a" using f(2) by blast
    then have vh: "visits ?t ?lq h j x" using lead(1,3) [OF vbt, of ?t] by (simp add: visits_def)
    from px [OF vh] have "base_match (ibits ?t) (index_from_partial h) x" .
    then have "x = key_entry ?t h a"
      unfolding key_entry_def by (intro entry_determined [OF vbt x(2)]) (simp_all add: base_match_def)
    moreover have "a \<le> last_address (ibits ?t)"
      using x(2) by (auto simp: entry_address_def word_and_le1)
    ultimately have "indexed ?t ?lq h a" using vh unfolding indexed_def visits_def by blast
    moreover have "write_reindex_plan hc k a w = Ok (Skipped, hc, w)" using f(1) True by (simp add: write_reindex_plan_def)
    ultimately show ?thesis using inv same_column_refl by blast
  next
    case False
    have pi: "points_into (values_of hc) a"
      using pointers_okD [OF ii(2) src e(1)] key_entry_match(2,3) [OF vbs e(2) a0] by simp
    then have "addr_offset a \<le> vt_filled (values_of hc ! unat (addr_size_tier a))"
      by (simp add: points_into_def less_imp_le)
    moreover have "unat (vt_filled (values_of hc ! unat (addr_size_tier a))) < 2 ^ 55"
      using r tier_lt [of a] unfolding room_def by (meson add_lessD1)
    ultimately have sm: "drop_bit 55 (addr_offset a) = 0" by (rule small_offset(1))
    have "unat (ibits ?t) \<le> 48" using r by (simp add: room_def)
    from insert_or_reindex_spec [OF ii pi sm this, of k] obtain outcome tb rx w' where
      o: "insert_or_reindex k a (hc_tables hc) (hc_reindex hc) w = Ok (outcome, tb, rx, w')"
        "tb_value tb = values_of hc"
        "entry_added (hc_col hc) (values_of hc) k a (indexes hc) w (tb_index tb # rx_queue rx) w'" by blast
    let ?hc = "hc\<lparr>hc_tables := tb, hc_reindex := rx\<rparr>"
    have "write_reindex_plan hc k a w = Ok (outcome, ?hc, w')" using f(1) False o(1) by (simp add: write_reindex_plan_def)
    moreover have ci: "col_inv ?hc w' ms" by (rule col_inv_added [OF inv o(3,2)])
    have "valid_bits (ibits (tb_index tb))" using col_inv_index [OF ci, of "tb_index tb"] by (simp add: index_inv_def)
    then have "indexed (tb_index tb) (writer_query w') h a"
      using o(3) lead(1,2) unfolding entry_added_def indexed_def by simp
    moreover have "same_column hc ?hc" by (simp add: same_column_def)
    ultimately show ?thesis using ci o(3) unfolding entry_added_def by auto
  qed
qed

section \<open>Dropping an index\<close>

lemma drop_index_keeps:
  assumes inv: "col_inv hc w ms" and q: "rx_queue (hc_reindex hc) = src # q"
    and moved: "\<And>a rc h v c. live_at ms a = Some (rc, Partial h, v, c) \<Longrightarrow> indexed src (writer_query w) h a \<Longrightarrow>
      \<exists>t\<in>set (tb_index (hc_tables hc) # q). indexed t (writer_query w) h a"
  shows "col_inv (fst (hc_drop_index hc (it_id src))) w ms" "indexes (fst (hc_drop_index hc (it_id src))) = tb_index (hc_tables hc) # q"
proof -
  let ?hc = "hc\<lparr>hc_reindex := \<lparr>rx_queue = q, rx_progress = 0\<rparr>\<rparr>"
  have d: "fst (hc_drop_index hc (it_id src)) = ?hc" by (simp add: hc_drop_index_def q)
  then show "indexes (fst (hc_drop_index hc (it_id src))) = tb_index (hc_tables hc) # q" by simp
  have "complete (indexes ?hc) (writer_query w) ms"
    unfolding complete_def
  proof (intro allI impI)
    fix a rc h v c assume l: "live_at ms a = Some (rc, Partial h, v, c)"
    then obtain t where t: "t \<in> set (indexes hc)" "indexed t (writer_query w) h a"
      using inv unfolding col_inv_def complete_def by blast
    show "\<exists>t\<in>set (indexes ?hc). indexed t (writer_query w) h a"
      using t moved [OF l] q by (cases "t = src") auto
  qed
  moreover have "indexes_inv (hc_col hc) (indexes ?hc) w" "pointers_ok (indexes ?hc) (values_of hc) (writer_query w)"
    using inv q by (auto simp: col_inv_def indexes_inv_def pointers_ok_def)
  ultimately show "col_inv (fst (hc_drop_index hc (it_id src))) w ms"
    unfolding d using inv by (simp add: col_inv_def)
qed

end
