(* ===== verification/Column_Example.thy ===== *)
theory Column_Example
  imports Column_Reindex Examples
begin

text \<open>
  Concrete columns: one that was just created, one whose only value is in the first value table
  and in the first index, and one with a larger empty index on top. The properties are applied to
  them.
\<close>

definition ex_cd :: codec where
  "ex_cd = \<lparr>lz4_compress = (\<lambda>b. b), lz4_decompress = Some, snappy_compress = (\<lambda>b. b), snappy_decompress = Some\<rparr>"

definition ex_meta :: metadata where
  "ex_meta = \<lparr>md_salt = replicate 32 0, md_version = 8, md_columns = [column_options_default]\<rparr>"

lemma ex_cd_ok: "codec_ok ex_cd"
  by (simp add: codec_ok_def ex_cd_def)

lemma ex_key_length: "length ex_key = 32"
  by (simp add: ex_key_def)

definition ex_column :: hash_column where
  "ex_column = (case fresh_column 0 (options_with_columns 1) ex_meta of Ok hc \<Rightarrow> hc)"

definition ex_index :: index_table where
  "ex_index = it_create_new (index_id_new 0 16)"

lemma ex_column_facts:
  "fresh_column 0 (options_with_columns 1) ex_meta = Ok ex_column"
  "col_rel cd ex_column ex_log0 (\<lambda>_. None)" "n < 2 ^ 54 \<Longrightarrow> room ex_column n"
  "prefix_exact ex_column ex_log0 k" "\<not> hc_ref_counted ex_column" "\<not> hc_preimage ex_column"
  "hc_col ex_column = 0" "indexes ex_column = [ex_index]"
  "values_of ex_column = map (fresh_table 0 False 8) [0..<256]"
proof -
  have c: "unat (0 :: u8) < length (md_columns ex_meta)" by (simp add: ex_meta_def)
  have e: "md_columns ex_meta ! unat (0 :: u8) = column_options_default" "md_version ex_meta = 8" by (simp_all add: ex_meta_def)
  from fresh_column_ok [OF c, of "options_with_columns 1", unfolded e] obtain hc where
    hc: "fresh_column 0 (options_with_columns 1) ex_meta = Ok hc" "hc_col hc = 0"
      "values_of hc = map (fresh_table 0 (co_ref_counted column_options_default) 8) [0..<256]"
      "indexes hc = [it_create_new (index_id_new 0 16)]"
      "hc_ref_counted hc = co_ref_counted column_options_default" "hc_preimage hc = co_preimage column_options_default" by blast
  have d: "co_ref_counted column_options_default = False" "co_preimage column_options_default = False"
    by (simp_all add: column_options_default_def)
  from hc(1) show f: "fresh_column 0 (options_with_columns 1) ex_meta = Ok ex_column" by (simp add: ex_column_def)
  with hc(1) have "hc = ex_column" by simp
  note hc = hc [unfolded this d]
  show "hc_col ex_column = 0" "indexes ex_column = [ex_index]" "\<not> hc_ref_counted ex_column" "\<not> hc_preimage ex_column"
    "values_of ex_column = map (fresh_table 0 False 8) [0..<256]"
    using hc unfolding ex_index_def by blast+
  from fresh_column_rel [OF f c] show "col_rel cd ex_column ex_log0 (\<lambda>_. None)" "n < 2 ^ 54 \<Longrightarrow> room ex_column n"
    "prefix_exact ex_column ex_log0 k" unfolding ex_log0_def by blast+
qed

lemma ex_index_facts: "ibits ex_index = 16" "it_map ex_index = None" "it_id ex_index = index_id_new 0 16"
  by (simp_all add: ex_index_def it_create_new_def)

lemma ex_log0_index [simp]: "writer_index ex_log0 t i = None"
  by (simp add: ex_log0_def)

text \<open>One value, in the first value table and in the only index.\<close>

lemma ex_stored:
  obtains hc w ms a i where "col_inv hc w ms" "live_at ms = [a \<mapsto> (1, Partial ex_key, [7, 8], False)]"
    "indexes hc = [ex_index]" "a \<le> last_address 16"
    "entry_at ex_index (writer_query w) (key_chunk ex_index ex_key) i (key_entry ex_index ex_key a)"
    "\<And>t b ci. b \<noteq> 16 \<Longrightarrow> writer_index w (index_id_new 0 b) ci = None" "same_column ex_column hc"
    "\<And>t. t < 256 \<Longrightarrow> unat (vt_filled (values_of hc ! t)) \<le> 68" "unat (addr_size_tier a) = 0"
    "\<And>ci j e. entry_at ex_index (writer_query w) ci j e \<Longrightarrow> e = 0 \<or> e = key_entry ex_index ex_key a"
proof -
  let ?vts = "values_of ex_column" and ?ms = "replicate 256 (\<lambda>_. None) :: stores" and ?t = ex_index
  note c = ex_column_facts
  have vi: "values_inv 0 False ?vts ex_log0 ?ms" unfolding c(9) by (rule fresh_values)
  have nl: "live_at ?ms = (\<lambda>_. None)" by (rule ext) (simp add: live_at_def)
  have t0: "?vts ! 0 = fresh_table 0 False 8 0" by (simp add: c(9) del: upt_rec_numeral)
  have "SIZES ! 0 = 32" by (simp add: SIZES_def)
  then have f: "fits (?vts ! 0) (Partial ex_key) [7, 8]" "unat (vt_filled (?vts ! 0)) = 1"
    by (simp_all add: t0 fresh_table_def fits_def ref_size_def encoded_size_def)
  have u: "tail_unique ?ms ex_key" "\<forall>a. key_at ?ms ex_key a = None" by (simp_all add: tail_unique_def key_at_def nl)
  from insert_value_tier [OF vi _ ex_key_length f(1) u, of False] f(2) obtain i vt w1 a ms where
    o: "values_inv 0 False (?vts[0 := vt]) w1 ms" "live_at ms = (live_at ?ms)(a \<mapsto> (1, Partial ex_key, [7, 8], False))"
      "writer_index w1 = writer_index ex_log0" "points_into (?vts[0 := vt]) a" "unat (vt_filled vt) \<le> 68"
      "a = addr_new i (word_of_nat 0)" by auto
  have len: "length ?vts = 256" by (simp add: c(9))
  have tier: "unat (addr_size_tier a) = 0" by (simp add: o(6) addr_new_tier)
  have "addr_offset a < vt_filled vt" using o(4) tier len by (simp add: points_into_def)
  then have "unat (addr_offset a) < 68" using o(5) by (simp add: word_less_nat_alt)
  then have "unat (drop_bit 22 (addr_offset a)) = 0" by (simp only: unat_drop_bit_eq) (simp add: drop_bit_eq_div)
  then have "drop_bit 22 (addr_offset a) = 0" by (simp add: unat_eq_0)
  then have al: "a \<le> last_address 16"
    using addr_new_le_last [of 16 "addr_offset a" "addr_size_tier a"] by (simp add: valid_bits_def)
  let ?w = "insert_index (it_id ?t) (key_chunk ?t ex_key) (word_of_nat 0) (write_entry (key_entry ?t ex_key a) 0 EMPTY_CHUNK) w1"
  have idx: "index_inv 0 ?t" by (simp add: index_inv_def ex_index_facts valid_bits_def map_ok_def)
  then have ii: "indexes_inv 0 [?t] w1"
    by (simp add: indexes_inv_def log_chunks_ok_def writer_query_def o(3))
  have cv: "chunk_view ?t (writer_query w1) ci = Ok EMPTY_CHUNK" for ci
    by (simp add: chunk_view_def writer_query_def o(3) ex_index_facts)
  have p: "pointers_ok [?t] (?vts[0 := vt]) (writer_query w1)"
    by (auto simp: pointers_ok_def entry_at_def cv)
  have le: "length EMPTY_CHUNK = 512" by (simp add: EMPTY_CHUNK_def)
  have ea: "entry_added 0 (?vts[0 := vt]) ex_key a [?t] w1 [?t] ?w"
    using al le by (intro insert_written [OF ii p o(4) _ cv _ _ _ refl]) (simp_all add: ex_index_facts)
  let ?hc = "ex_column\<lparr>hc_tables := (hc_tables ex_column)\<lparr>tb_value := ?vts[0 := vt]\<rparr>\<rparr>"
  have l: "live_at ms = [a \<mapsto> (1, Partial ex_key, [7, 8], False)]" using o(2) nl by simp
  have id: "indexes ?hc = [?t]" "values_of ?hc = ?vts[0 := vt]" using c(8) by simp_all
  have "complete [?t] (writer_query ?w) ms"
    using ea by (auto simp: complete_def l entry_added_def split: if_splits)
  moreover have "values_inv 0 False (?vts[0 := vt]) ?w ms" by (rule values_inv_index_write [OF _ o(1)]) simp
  ultimately have ci: "col_inv ?hc ?w ms" using ea c(5,7) unfolding col_inv_def id entry_added_def by simp
  from ea obtain j where "entry_at ?t (writer_query ?w) (key_chunk ?t ex_key) j (key_entry ?t ex_key a)"
    unfolding entry_added_def indexed_def by auto
  moreover have "writer_index ?w (index_id_new 0 b) cj = None" if "b \<noteq> 16" for b cj
  proof -
    have "index_id_new 0 b \<noteq> it_id ?t" using that ex_index_facts(3) by (metis index_id_roundtrip(2))
    then show ?thesis by (simp add: o(3))
  qed
  moreover have "unat (vt_filled (values_of ?hc ! t)) \<le> 68" if "t < 256" for t
    using that o(5) len by (cases "t = 0") (simp_all add: id c(9) fresh_table_def del: upt_rec_numeral)
  moreover have "same_column ex_column ?hc" by (simp add: same_column_def)
  moreover have "e = 0 \<or> e = key_entry ?t ex_key a" if "entry_at ?t (writer_query ?w) cj j e" for cj j e
  proof -
    have "chunk_view ?t (writer_query ?w) cj =
        (if cj = key_chunk ?t ex_key then Ok (write_entry (key_entry ?t ex_key a) 0 EMPTY_CHUNK) else Ok EMPTY_CHUNK)"
      by (simp add: chunk_view_insert_index cv)
    with that show ?thesis by (auto simp: entry_at_def read_write_entry [OF le] split: if_splits)
  qed
  ultimately show thesis using that [OF ci l id(1) al] tier by blast
qed

text \<open>A larger index on top of it, still empty.\<close>

lemma ex_larger:
  obtains hc w ms a i where "col_inv hc w ms" "live_at ms = [a \<mapsto> (1, Partial ex_key, [7, 8], False)]"
    "ex_index \<in> set (indexes hc)" "a \<le> last_address 16"
    "entry_at ex_index (writer_query w) (key_chunk ex_index ex_key) i (key_entry ex_index ex_key a)"
    "room hc 0" "ibits (tb_index (hc_tables hc)) = 17"
    "\<And>j x. visits (tb_index (hc_tables hc)) (writer_query w) ex_key j x \<Longrightarrow> False"
proof (rule ex_stored)
  fix hc w ms a i
  assume a: "col_inv hc w ms" "live_at ms = [a \<mapsto> (1, Partial ex_key, [7, 8], False)]" "indexes hc = [ex_index]"
    "a \<le> last_address 16" "entry_at ex_index (writer_query w) (key_chunk ex_index ex_key) i (key_entry ex_index ex_key a)"
    "\<And>t. t < 256 \<Longrightarrow> unat (vt_filled (values_of hc ! t)) \<le> 68"
  let ?hc = "hc_trigger_reindex hc"
  let ?nt = "it_create_new (index_id_new (index_id_col (it_id ex_index)) (ibits ex_index + 1))"
  have id: "indexes ?hc = [?nt, ex_index]" "values_of ?hc = values_of hc" "hc_col ?hc = hc_col hc"
      "hc_ref_counted ?hc = hc_ref_counted hc" "tb_index (hc_tables ?hc) = ?nt"
    using a(3) by (simp_all add: hc_trigger_reindex_def trigger_reindex_def Let_def)
  have ii: "indexes_inv (hc_col hc) [ex_index] w" "pointers_ok [ex_index] (values_of hc) (writer_query w)"
      "complete [ex_index] (writer_query w) ms" using a(1) by (simp_all add: col_inv_def a(3))
  have "unat (ibits ex_index) < 49" by (simp add: ex_index_facts)
  note n = new_index [OF ii(1) this, unfolded append_Nil]
  have ne: "e = 0" if "entry_at ?nt (writer_query w) ci j e" for ci j e using n(4) that by blast
  have "pointers_ok [?nt, ex_index] (values_of hc) (writer_query w)"
    using ii(2) ne unfolding pointers_ok_def by (simp only: set_simps insert_iff empty_iff) blast
  moreover have "complete [?nt, ex_index] (writer_query w) ms" using ii(3) by (simp add: complete_def)
  ultimately have "col_inv ?hc w ms"
    using n(3) col_inv_values [OF a(1)] unfolding col_inv_def id(1-4) by blast
  moreover have b: "ibits (tb_index (hc_tables ?hc)) = 17" unfolding id(5) n(1) by (simp add: ex_index_facts)
  have "unat (vt_filled (values_of hc ! t)) + 0 + 65 < 2 ^ 55" if "t < 256" for t using a(6) [OF that] by simp
  with b have "room ?hc 0" unfolding room_def id(2) by simp
  moreover have "visits (tb_index (hc_tables ?hc)) (writer_query w) ex_key j x \<Longrightarrow> False" for j x
  proof -
    assume v: "visits (tb_index (hc_tables ?hc)) (writer_query w) ex_key j x"
    have "index_inv (hc_col hc) ?nt" using n(3) by (simp add: indexes_inv_def)
    from visits_nonzero [OF this v [unfolded id(5)]] v ne show False unfolding id(5) visits_def by blast
  qed
  ultimately show thesis using that a(2,4,5) id(1) b by (metis list.set_intros)
qed

end
