(* ===== verification/Column_Lost.thy ===== *)
theory Column_Lost
  imports Column_Example
begin

text \<open>
  A value that is overwritten may be lost: when the new value belongs to another value table and
  the newest index has no room in the chunk of the key, \<open>write_plan_existing\<close> reports
  \<open>NeedReindex\<close> without having indexed the new address, and the caller goes on.
\<close>

definition full_chunk :: "ientry \<Rightarrow> chunk" where
  "full_chunk e = concat (replicate 64 (u64_to_le e))"

lemma full_chunk_entries: "i < 64 \<Longrightarrow> read_entry (full_chunk e) i = e" "length (full_chunk e) = 512"
proof -
  have c: "subslice (i * 8) 8 (concat (replicate n (u64_to_le e))) = u64_to_le e" if "i < n" for i n
    using that
  proof (induction n arbitrary: i)
    case (Suc n)
    show ?case
    proof (cases i)
      case (Suc j)
      then have "j < n" using Suc.prems by simp
      with Suc.IH [of j] Suc show ?thesis by (simp add: subslice_def)
    qed (simp add: subslice_def)
  qed simp
  then show "i < 64 \<Longrightarrow> read_entry (full_chunk e) i = e" by (simp add: read_entry_def full_chunk_def)
  show "length (full_chunk e) = 512" by (simp add: full_chunk_def length_concat sum_list_replicate map_replicate_const o_def)
qed

lemma ex_key_prefix: "unat (index_from_partial ex_key) = 361700864190383365"
proof -
  have "take 8 ex_key = replicate 8 5" by (simp add: ex_key_def)
  also have "\<dots> = [5, 5, 5, 5, 5, 5, 5, 5]" by (simp add: numeral_eq_Suc)
  finally have "le_nat (rev (take 8 ex_key)) = 361700864190383365" by simp
  then show ?thesis by (simp add: index_from_partial_def u64_from_be_def unat_of_nat)
qed

lemma lost_entry:
  assumes "a \<le> last_address 16"
  shows "\<not> sse2_match 17 (index_from_partial ex_key) a" "entry_address a 17 = a"
proof -
  have "a \<le> mask 30" using assms last_address_mask [of 16] by (simp add: valid_bits_def)
  then have b: "bit a j \<Longrightarrow> j < 30" for j using le_mask_iff_bits [of 30 a] by simp
  have "drop_bit 32 a = 0" by (rule bit_word_eqI) (use b in \<open>fastforce simp: bit_simps\<close>)
  moreover have "drop_bit 32 (push_bit 17 (index_from_partial ex_key)) \<noteq> 0"
  proof
    assume z: "drop_bit 32 (push_bit 17 (index_from_partial ex_key)) = 0"
    have "bit (unat (index_from_partial ex_key)) 16" unfolding ex_key_prefix by (simp add: bit_iff_odd)
    then have "bit (index_from_partial ex_key) 16" by (simp add: bit_unsigned_iff)
    then have "bit (drop_bit 32 (push_bit 17 (index_from_partial ex_key))) 1" by (simp add: bit_simps)
    with z show False by simp
  qed
  ultimately show "\<not> sse2_match 17 (index_from_partial ex_key) a"
    by (simp add: sse2_match_def Let_def)
  have "last_address 17 = mask 31" using last_address_mask [of 17] by (simp add: valid_bits_def)
  then show "entry_address a 17 = a" unfolding entry_address_def
    by (intro bit_word_eqI) (use b in \<open>fastforce simp: bit_simps\<close>)
qed

text \<open>The value is in the old index only; the chunk of its key in the newest index is full.\<close>

lemma ex_full:
  obtains hc w ms a where "col_inv hc w ms" "live_at ms = [a \<mapsto> (1, Partial ex_key, [7, 8], False)]"
    "same_column ex_column hc" "prefix_exact hc w ex_key" "room hc 5" "unat (addr_size_tier a) = 0"
    "\<And>j x. visits (tb_index (hc_tables hc)) (writer_query w) ex_key j x \<Longrightarrow> False"
    "\<And>j x. entry_at (tb_index (hc_tables hc)) (writer_query w) (key_chunk (tb_index (hc_tables hc)) ex_key) j x \<Longrightarrow> x \<noteq> 0"
    "\<And>t j x. t \<in> set (indexes hc) \<Longrightarrow> visits t (writer_query w) ex_key j x \<Longrightarrow> entry_address x (ibits t) = a"
proof (rule ex_stored)
  fix hc w ms a i
  assume a: "col_inv hc w ms" "live_at ms = [a \<mapsto> (1, Partial ex_key, [7, 8], False)]" "indexes hc = [ex_index]"
    "a \<le> last_address 16" "entry_at ex_index (writer_query w) (key_chunk ex_index ex_key) i (key_entry ex_index ex_key a)"
    "\<And>t. t < 256 \<Longrightarrow> unat (vt_filled (values_of hc ! t)) \<le> 68" "unat (addr_size_tier a) = 0" "same_column ex_column hc"
    "\<And>ci j e. entry_at ex_index (writer_query w) ci j e \<Longrightarrow> e = 0 \<or> e = key_entry ex_index ex_key a"
  let ?hc = "hc_trigger_reindex hc"
  let ?nt = "it_create_new (index_id_new (index_id_col (it_id ex_index)) (ibits ex_index + 1))"
  let ?w = "insert_index (it_id ?nt) (key_chunk ?nt ex_key) 0 (full_chunk a) w"
  have id: "indexes ?hc = [?nt, ex_index]" "values_of ?hc = values_of hc" "hc_col ?hc = hc_col hc"
      "hc_ref_counted ?hc = hc_ref_counted hc" and top: "tb_index (hc_tables ?hc) = ?nt"
    using a(3) by (simp_all add: hc_trigger_reindex_def trigger_reindex_def Let_def)
  have ii: "indexes_inv (hc_col hc) [ex_index] w" "pointers_ok [ex_index] (values_of hc) (writer_query w)"
      "complete [ex_index] (writer_query w) ms" using a(1) by (simp_all add: col_inv_def a(3))
  have "unat (ibits ex_index) < 49" by (simp add: ex_index_facts)
  note n = new_index [OF ii(1) this, unfolded append_Nil]
  have b: "ibits ?nt = 17" unfolding n(1) by (simp add: ex_index_facts)
  have ne: "it_id ex_index \<noteq> it_id ?nt" using n(3) by (auto simp: indexes_inv_def)
  have old: "entry_at ex_index (writer_query ?w) = entry_at ex_index (writer_query w)"
    using ne by (auto simp: entry_at_def chunk_view_def writer_query_def fun_eq_iff)
  have new: "x = (if ci = key_chunk ?nt ex_key then a else 0)" if "entry_at ?nt (writer_query ?w) ci j x" for ci j x
  proof (cases "ci = key_chunk ?nt ex_key")
    case True
    with that show ?thesis by (auto simp: entry_at_def chunk_view_insert_index full_chunk_entries)
  next
    case False
    then have "entry_at ?nt (writer_query w) ci j x" using that by (simp add: entry_at_def chunk_view_insert_index)
    then show ?thesis using n(4) False by auto
  qed
  note l = lost_entry [OF a(4)]
  have live: "live_at ms a = Some (1, Partial ex_key, [7, 8], False)" by (simp add: a(2))
  have a0: "a \<noteq> 0" by (rule live_entry(1) [OF col_inv_values [OF a(1)] live])
  have vb: "valid_bits (ibits ex_index)" by (simp add: ex_index_facts valid_bits_def)
  have al: "a \<le> last_address (ibits ex_index)" using a(4) by (simp add: ex_index_facts)
  note km = key_entry_match [OF vb al a0, of ex_key]
  have pa: "points_into (values_of hc) a"
    using pointers_okD [OF ii(2) _ a(5)] km(2,3) by simp
  have "pointers_ok [?nt, ex_index] (values_of hc) (writer_query ?w)"
    unfolding pointers_ok_def points_into_def [symmetric]
  proof (intro ballI allI impI)
    fix t ci j x assume t: "t \<in> set [?nt, ex_index]" and x: "entry_at t (writer_query ?w) ci j x" "x \<noteq> 0"
    show "points_into (values_of hc) (entry_address x (ibits t))"
    proof (cases "t = ?nt")
      case True
      with new [OF x(1) [unfolded True]] x(2) have "x = a" by (simp split: if_splits)
      with pa l(2) True b show ?thesis by simp
    next
      case False
      with t have te: "t = ex_index" by simp
      with x(1) old have "entry_at ex_index (writer_query w) ci j x" by simp
      with a(9) x(2) have "x = key_entry ex_index ex_key a" by blast
      with te km(2) pa show ?thesis by simp
    qed
  qed
  moreover have "indexed ex_index (writer_query ?w) ex_key a" using a(5) al unfolding indexed_def old by blast
  then have "complete [?nt, ex_index] (writer_query ?w) ms" by (auto simp: complete_def a(2) split: if_splits)
  moreover have "indexes_inv (hc_col hc) [?nt, ex_index] ?w"
  proof -
    have "index_id_new (hc_col hc) b \<noteq> it_id ?nt" if "ibits ?nt < b" for b
      using that by (metis index_id_roundtrip(2) less_irrefl)
    with n(3) show ?thesis
      by (auto simp: indexes_inv_def log_chunks_ok_def writer_query_def full_chunk_entries split: if_splits)
  qed
  moreover have "values_inv (hc_col hc) (hc_ref_counted hc) (values_of hc) ?w ms"
    by (rule values_inv_index_write [OF _ col_inv_values [OF a(1)]]) simp
  ultimately have ci: "col_inv ?hc ?w ms" unfolding col_inv_def id by blast
  have nv: "\<not> visits ?nt (writer_query ?w) ex_key j x" for j x
    using new [of "key_chunk ?nt ex_key" j x] l(1) b by (auto simp: visits_def)
  have ov: "x = key_entry ex_index ex_key a" if "visits ex_index (writer_query ?w) ex_key j x" for j x
  proof -
    have "index_inv (hc_col hc) ex_index" using ii(1) by (simp add: indexes_inv_def)
    from visits_nonzero [OF this that] that a(9) show ?thesis unfolding visits_def old by blast
  qed
  have px: "prefix_exact ?hc ?w ex_key"
  proof -
    have "base_match (ibits ex_index) (index_from_partial ex_key) (key_entry ex_index ex_key a)"
      using entry_unpack(2) [OF vb al extract_key_small [OF vb]] km(3) by (simp add: base_match_def key_entry_def)
    with nv ov show ?thesis unfolding prefix_exact_def id(1) by (metis empty_iff empty_set set_ConsD)
  qed
  have "unat (vt_filled (values_of hc ! t)) + 5 + 65 < 2 ^ 55" if "t < 256" for t using a(6) [OF that] by simp
  then have rm: "room ?hc 5" unfolding room_def id(2) top using b by simp
  have sc: "same_column ex_column ?hc"
    using a(8) by (simp add: same_column_def hc_trigger_reindex_def case_prod_unfold Let_def)
  have addr: "entry_address x (ibits t) = a" if "t \<in> set [?nt, ex_index]" "visits t (writer_query ?w) ex_key j x" for t j x
    using that nv ov km(2) by (metis empty_iff empty_set set_ConsD)
  have nz: "x \<noteq> 0" if "entry_at ?nt (writer_query ?w) (key_chunk ?nt ex_key) j x" for j x using new [OF that] a0 by simp
  show thesis
  proof (rule that [OF ci a(2) sc px rm a(7)])
    fix j x
    show "visits (tb_index (hc_tables ?hc)) (writer_query ?w) ex_key j x \<Longrightarrow> False" using nv unfolding top by blast
    show "entry_at (tb_index (hc_tables ?hc)) (writer_query ?w) (key_chunk (tb_index (hc_tables ?hc)) ex_key) j x \<Longrightarrow> x \<noteq> 0"
      unfolding top by (rule nz)
    show "t \<in> set (indexes ?hc) \<Longrightarrow> visits t (writer_query ?w) ex_key j x \<Longrightarrow> entry_address x (ibits t) = a" for t
      unfolding id(1) by (rule addr)
  qed
qed

lemma other_tier:
  assumes "tiers_ok col False vts" "length v = 5"
  shows "snd (column_compress ex_cd cp (Partial k) v vts) \<noteq> 0"
proof -
  let ?p = "\<lambda>t. case value_size t (Partial k) of Some s \<Rightarrow> 5 \<le> s | None \<Rightarrow> False"
  have c: "cp_compress ex_cd cp v = v" for v by (simp add: cp_compress_def ex_cd_def split: compression_type.split)
  have "SIZES ! 0 = 32" by (simp add: SIZES_def)
  then have t0: "\<not> ?p (vts ! 0)" using assms(1) by (simp add: tiers_ok_def value_size_def ref_size_def encoded_size_def Let_def)
  have "position ?p vts \<noteq> Some 0" using position_spec(1) [of ?p vts 0] t0 by blast
  moreover have "length vts = 256" using assms(1) by (simp add: tiers_ok_def)
  moreover have "snd (column_compress ex_cd cp (Partial k) v vts) =
      (case position ?p vts of Some tier \<Rightarrow> tier | None \<Rightarrow> length vts - 1)"
    unfolding column_compress_def c Let_def using assms(2) by simp
  ultimately show ?thesis by (cases "position ?p vts") auto
qed

lemma lost_value:
  "\<exists>hc w hc' w' st. col_rel ex_cd hc w [ex_key \<mapsto> (1, [7, 8])] \<and>
    hc_write_plan ex_cd hc (Set ex_key (replicate 5 1)) w = Ok (NeedReindex, hc', w') \<and>
    hc_get ex_cd hc' ex_key (writer_query w') = Ok (None, st)"
proof (rule ex_full)
  fix hc w ms a
  assume f: "col_inv hc w ms" "live_at ms = [a \<mapsto> (1, Partial ex_key, [7, 8], False)]"
    "same_column ex_column hc" "prefix_exact hc w ex_key" "room hc 5" "unat (addr_size_tier a) = 0"
    "\<And>j x. visits (tb_index (hc_tables hc)) (writer_query w) ex_key j x \<Longrightarrow> False"
    "\<And>j x. entry_at (tb_index (hc_tables hc)) (writer_query w) (key_chunk (tb_index (hc_tables hc)) ex_key) j x \<Longrightarrow> x \<noteq> 0"
    "\<And>t j x. t \<in> set (indexes hc) \<Longrightarrow> visits t (writer_query w) ex_key j x \<Longrightarrow> entry_address x (ibits t) = a"
  let ?v = "replicate 5 1 :: bytes" and ?top = "tb_index (hc_tables hc)"
  have dec: "decodable ex_cd hc ms" "col_map ex_cd (hc_compression hc) ms [ex_key \<mapsto> (1, [7, 8])]"
    by (auto simp: decodable_def col_map_def f(2) plain_def split: if_splits)
  have rel: "col_rel ex_cd hc w [ex_key \<mapsto> (1, [7, 8])]" using f(1) dec unfolding col_rel_def by blast
  have l: "live_at ms a = Some (1, Partial ex_key, [7, 8], False)" by (simp add: f(2))
  have tu: "tail_unique ms ex_key" by (simp add: tail_unique_def f(2))
  obtain t i e where s: "search_all_indexes ex_key (hc_tables hc) (hc_reindex hc) w = Ok (Some (t, i, a))"
      "t \<in> set (indexes hc)" "visits t (writer_query w) ex_key i e" "a = entry_address e (ibits t)"
    by (rule search_stored [OF f(1) tu l])
  have "\<not> hc_ref_counted hc" "\<not> hc_preimage hc" using f(3) ex_column_facts(5,6) by (simp_all add: same_column_def)
  note nr = this
  have "tiers_ok (hc_col hc) False (values_of hc)" using col_inv_values [OF f(1)] nr by (simp add: values_inv_def)
  then have tier: "snd (column_compress ex_cd (hc_compression hc) (Partial ex_key) ?v (values_of hc)) \<noteq> unat (addr_size_tier a)"
    unfolding f(6) by (rule other_tier) simp
  have r: "room hc (length ?v)" using f(5) by simp
  from existing_move [OF f(1) l s(2-4) tu dec(1) ex_cd_ok r nr f(4) tier] obtain outcome hc' w' ms' a' sv c' where
    o: "write_plan_existing ex_cd hc (Set ex_key ?v) w t i a = Ok (outcome, hc', w')" "same_column hc hc'"
      "live_at ms' = (live_at ms)(a := None, a' \<mapsto> (1, Partial ex_key, sv, c'))" "a' \<noteq> a"
      "plain ex_cd (hc_compression hc) sv c' = Ok ?v" "indexes hc' = indexes hc"
      "outcome = Written \<and> col_inv hc' w' ms' \<or> outcome = NeedReindex \<and> writer_index w' = writer_index w \<and>
        filled_mono (values_of hc) (values_of hc') \<and> values_inv (hc_col hc) (hc_ref_counted hc) (values_of hc') w' ms'"
      "outcome = Written \<longrightarrow> it_id t = it_id ?top \<or> (\<exists>i. entry_at ?top (writer_query w) (key_chunk ?top ex_key) i 0)"
    by blast
  have ii: "indexes_inv (hc_col hc) (indexes hc) w" "pointers_ok (indexes hc) (values_of hc) (writer_query w)"
    using f(1) by (simp_all add: col_inv_def)
  have "it_id t \<noteq> it_id ?top" using indexes_invD(4) [OF ii(1) _ s(2), of ?top] s(3) f(7) by auto
  then have out: "outcome = NeedReindex" using o(7,8) f(8) by blast
  then have w': "writer_index w' = writer_index w" "filled_mono (values_of hc) (values_of hc')"
      "values_inv (hc_col hc) (hc_ref_counted hc) (values_of hc') w' ms'" using o(7) by auto
  have sc: "hc_col hc' = hc_col hc" "hc_ref_counted hc' = hc_ref_counted hc" "hc_compression hc' = hc_compression hc"
    using o(2) by (simp_all add: same_column_def)
  have base: "col_base hc' w' ms'"
    using w'(3) values_step [OF ii w'(1,2)] unfolding col_base_def o(6) sc by blast
  have tu': "tail_unique ms' ex_key" by (auto simp: tail_unique_def o(3) f(2))
  have dec': "decodable ex_cd hc' ms'" using o(5) by (auto simp: decodable_def o(3) f(2) sc)
  have "key_at ms' ex_key (entry_address x (ibits u)) = None"
    if "u \<in> set (indexes hc)" "visits u (writer_query w') ex_key j x" for u j x
  proof -
    have "visits u (writer_query w) ex_key j x" using that(2) unfolding visits_def index_view_same(1) [OF w'(1)] .
    from f(9) [OF that(1) this] o(4) show ?thesis by (simp add: key_at_def o(3) f(2))
  qed
  with get_in_indexes_run [OF base tu' dec'] have "get_in_indexes ex_cd ex_key (indexes hc') (hc_as_ref hc') (writer_query w') = Ok None"
    unfolding o(6) by (metis (full_types))
  then have "\<exists>st. hc_get ex_cd hc' ex_key (writer_query w') = Ok (None, st)" by (simp add: hc_get_def)
  moreover have "hc_write_plan ex_cd hc (Set ex_key ?v) w = Ok (NeedReindex, hc', w')"
    using s(1) o(1) out by (simp add: hc_write_plan_def)
  ultimately show ?thesis using rel by blast
qed

end
