(* ===== verification/Column_Props.thy ===== *)
theory Column_Props
  imports Column_Lost
begin

text \<open>
  The properties of hash columns, their interface to the database, and the concrete column they
  are applied to: one that was just created and then got one value.
\<close>

section \<open>The interface of a column\<close>

text \<open>
  What a transaction relies on: a lookup gives the value of the map, and a planned operation
  changes the map as it says. The client lemmas are about a list of operations on a column.
\<close>

locale key_value =
  fixes rel :: "'s \<Rightarrow> (key \<Rightarrow> 'v option) \<Rightarrow> bool"
    and get :: "'s \<Rightarrow> key \<Rightarrow> 'b option result"
    and plan :: "'s \<Rightarrow> 'o \<Rightarrow> 's result"
    and val_of :: "'v \<Rightarrow> 'b"
    and known :: "(key \<Rightarrow> 'v option) \<Rightarrow> key \<Rightarrow> bool"
    and can :: "'s \<Rightarrow> (key \<Rightarrow> 'v option) \<Rightarrow> 'o \<Rightarrow> bool"
    and step :: "'o \<Rightarrow> (key \<Rightarrow> 'v option) \<Rightarrow> key \<Rightarrow> 'v option"
  assumes get_ok: "rel s M \<Longrightarrow> known M k \<Longrightarrow> get s k = Ok (map_option val_of (M k))"
    and plan_ok: "rel s M \<Longrightarrow> can s M op \<Longrightarrow> \<exists>s'. plan s op = Ok s' \<and> rel s' (step op M)"
begin

fun run :: "'o list \<Rightarrow> 's \<Rightarrow> 's result" where
  "run [] s = Ok s"
| "run (op # ops) s = and_then (plan s op) (run ops)"

fun can_all :: "'s \<Rightarrow> (key \<Rightarrow> 'v option) \<Rightarrow> 'o list \<Rightarrow> bool" where
  "can_all s M [] = True"
| "can_all s M (op # ops) =
     (can s M op \<and> (case plan s op of Ok s' \<Rightarrow> can_all s' (step op M) ops | _ \<Rightarrow> False))"

lemma run_ok:
  "rel s M \<Longrightarrow> can_all s M ops \<Longrightarrow> \<exists>s'. run ops s = Ok s' \<and> rel s' (fold step ops M)"
proof (induction ops arbitrary: s M)
  case (Cons op ops)
  then have "can s M op" by simp
  with plan_ok Cons.prems(1) obtain s1 where s1: "plan s op = Ok s1" "rel s1 (step op M)" by blast
  with Cons show ?case by auto
qed simp

lemma get_after_run:
  assumes "rel s M" "can_all s M ops" "run ops s = Ok s'" "known (fold step ops M) k"
  shows "get s' k = Ok (map_option val_of (fold step ops M k))"
  using run_ok [OF assms(1,2)] assms(3,4) get_ok by auto

end

text \<open>Hash columns provide it. A column and the record being written are its state.\<close>

definition hash_rel :: "codec \<Rightarrow> bool \<Rightarrow> bool \<Rightarrow> hash_column \<times> log_writer \<Rightarrow> (key \<Rightarrow> (u32 \<times> bytes) option) \<Rightarrow> bool" where
  "hash_rel cd rcd pre = (\<lambda>(hc, w) M. codec_ok cd \<and> col_rel cd hc w M \<and> hc_ref_counted hc = rcd \<and> hc_preimage hc = pre)"

definition hash_get :: "codec \<Rightarrow> hash_column \<times> log_writer \<Rightarrow> key \<Rightarrow> bytes option result" where
  "hash_get cd = (\<lambda>(hc, w) k. and_then (hc_get cd hc k (writer_query w)) (\<lambda>(v, _). Ok v))"

definition hash_plan ::
    "codec \<Rightarrow> hash_column \<times> log_writer \<Rightarrow> (key, bytes) operation \<Rightarrow> (hash_column \<times> log_writer) result" where
  "hash_plan cd = (\<lambda>(hc, w) op. and_then (hc_write_plan cd hc op w) (\<lambda>(_, hc, w). Ok (hc, w)))"

text \<open>
  What an operation needs: no other key with the same last 26 bytes, room, and for a value that
  moves a place in the newest index.
\<close>

definition hash_can ::
    "codec \<Rightarrow> hash_column \<times> log_writer \<Rightarrow> (key \<Rightarrow> (u32 \<times> bytes) option) \<Rightarrow> (key, bytes) operation \<Rightarrow> bool" where
  "hash_can cd = (\<lambda>(hc, w) M op. no_collision M (op_key op) \<and> length (op_key op) = 32 \<and>
     (\<forall>v. op = Set (op_key op) v \<longrightarrow> room hc (length v)) \<and> prefix_exact hc w (op_key op) \<and>
     (M (op_key op) \<noteq> None \<longrightarrow> (\<forall>hc' w'. hc_write_plan cd hc op w \<noteq> Ok (NeedReindex, hc', w'))))"

interpretation hash_kv: key_value "hash_rel cd rcd pre" "hash_get cd" "hash_plan cd" snd no_collision "hash_can cd"
  "apply_op rcd pre" for cd rcd pre
proof
  fix s M k assume "hash_rel cd rcd pre s M" "no_collision M k"
  then show "hash_get cd s k = Ok (map_option snd (M k))"
    using hc_get_rel [of cd "fst s" "snd s" M k] by (auto simp: hash_rel_def hash_get_def case_prod_unfold)
next
  fix s M op assume a: "hash_rel cd rcd pre s M" "hash_can cd s M op"
  obtain hc w where s: "s = (hc, w)" by (cases s)
  from a s have r: "col_rel cd hc w M" "codec_ok cd" "hc_ref_counted hc = rcd" "hc_preimage hc = pre"
    by (simp_all add: hash_rel_def)
  from a(2) [unfolded s] have c: "no_collision M (op_key op)" "length (op_key op) = 32"
      "\<And>v. op = Set (op_key op) v \<Longrightarrow> room hc (length v)" "prefix_exact hc w (op_key op)"
      "\<And>hc' w'. M (op_key op) \<noteq> None \<Longrightarrow> hc_write_plan cd hc op w \<noteq> Ok (NeedReindex, hc', w')"
    unfolding hash_can_def prod.case by blast+
  from write_plan_rel [OF r(1,2) c(1-4)] obtain outcome hc' w' where
    o: "hc_write_plan cd hc op w = Ok (outcome, hc', w')" "same_column hc hc'"
      "outcome = NeedReindex \<and> M (op_key op) \<noteq> None \<or> col_rel cd hc' w' (apply_op (hc_ref_counted hc) (hc_preimage hc) op M)"
    by blast
  have "\<not> (outcome = NeedReindex \<and> M (op_key op) \<noteq> None)" using c(5) o(1) by blast
  with o(2,3) r have "hash_rel cd rcd pre (hc', w') (apply_op rcd pre op M)"
    unfolding hash_rel_def same_column_def by auto
  moreover have "hash_plan cd s op = Ok (hc', w')" by (simp add: hash_plan_def s o(1))
  ultimately show "\<exists>s'. hash_plan cd s op = Ok s' \<and> hash_rel cd rcd pre s' (apply_op rcd pre op M)" by blast
qed

lemma ex_no_collision: "no_collision (\<lambda>_. None :: (u32 \<times> bytes) option) k" "no_collision [ex_key \<mapsto> (1 :: u32, v :: bytes)] ex_key"
  by (simp_all add: no_collision_def)

lemma ex_stored_rel:
  obtains hc w where "col_rel ex_cd hc w [ex_key \<mapsto> (1, [7, 8])]" "same_column ex_column hc"
proof (rule ex_stored)
  fix hc w ms a assume a: "col_inv hc w ms" "live_at ms = [a \<mapsto> (1, Partial ex_key, [7, 8], False)]" "same_column ex_column hc"
  have "decodable ex_cd hc ms" "col_map ex_cd (hc_compression hc) ms [ex_key \<mapsto> (1, [7, 8])]"
    by (auto simp: decodable_def col_map_def a(2) plain_def split: if_splits)
  with a(1) have "col_rel ex_cd hc w [ex_key \<mapsto> (1, [7, 8])]" unfolding col_rel_def by blast
  with a(3) show thesis by (intro that)
qed

section \<open>Properties\<close>

text \<open>C3: A lookup in a hash column that stores the map \<open>M\<close>, through the log record being written,
  returns the plain value of the key or nothing. It changes the statistics only. No other stored
  key may end in the same 26 bytes: this is all a value table keeps of a key.\<close>

theorem column_get:
  assumes "col_rel cd hc w M" "no_collision M k"
  shows "\<exists>st. hc_get cd hc k (writer_query w) = Ok (map_option snd (M k), hc\<lparr>hc_stats := st\<rparr>)"
  by (rule hc_get_rel [OF assms])

theorem column_get_witness:
  "\<exists>hc w st. hc_get ex_cd hc ex_key (writer_query w) = Ok (Some [7, 8], hc\<lparr>hc_stats := st\<rparr>)"
proof (rule ex_stored_rel)
  fix hc w assume "col_rel ex_cd hc w [ex_key \<mapsto> (1, [7, 8])]"
  from column_get [OF this ex_no_collision(2)] show ?thesis by auto
qed





text \<open>C26: A column without files opens with 256 value tables and an empty index of 16 bits, and stores the
  empty map.\<close>

theorem column_opens_empty:
  assumes "unat col < length (md_columns meta)"
  shows "\<exists>vts hc. open_tables (\<lambda>_. None) col (md_columns meta ! unat col) (md_version meta) [0..<256] = Ok vts \<and>
    hc_open (\<lambda>_. None) col vts opt meta = Ok hc \<and> col_rel cd hc (log_writer_new overlays_default rid) (\<lambda>_. None)"
proof -
  from fresh_column_ok [OF assms, of opt] obtain hc where hc: "fresh_column col opt meta = Ok hc" by blast
  with fresh_column_rel(1) [OF hc assms, of cd rid] show ?thesis unfolding fresh_column_def and_then_Ok_iff by blast
qed

theorem column_opens_empty_witness:
  "\<exists>vts hc. open_tables (\<lambda>_. None) 0 column_options_default 8 [0..<256] = Ok vts \<and>
    hc_open (\<lambda>_. None) 0 vts (options_with_columns 1) ex_meta = Ok hc \<and> col_rel ex_cd hc ex_log0 (\<lambda>_. None)"
proof -
  have c: "unat (0 :: u8) < length (md_columns ex_meta)" by (simp add: ex_meta_def)
  have e: "md_columns ex_meta ! unat (0 :: u8) = column_options_default" "md_version ex_meta = 8" by (simp_all add: ex_meta_def)
  from column_opens_empty [OF c, of "options_with_columns 1" ex_cd 1, unfolded e] show ?thesis unfolding ex_log0_def .
qed

text \<open>C17: Re-indexing an entry of an index by the leading key bits that can be recovered from it keeps the
  map of the column, keeps everything that was indexed, and leaves the value indexed in the newest
  index.\<close>

theorem reindex_keeps_map:
  assumes "col_inv hc w ms" "src \<in> set (tb_index (hc_tables hc) # rx_queue (hc_reindex hc))"
    and "live_at ms a = Some (rc, Partial h, v, c)"
    and "entry_at src (writer_query w) (key_chunk src h) i (key_entry src h a)" "a \<le> last_address (ibits src)"
    and "room hc 0"
    and "\<And>j x. visits (tb_index (hc_tables hc)) (writer_query w) h j x \<Longrightarrow>
      base_match (ibits (tb_index (hc_tables hc))) (index_from_partial h) x"
  shows "\<exists>outcome hc' w'. write_reindex_plan hc (recover_key_prefix src (key_chunk src h) (key_entry src h a)) a w =
      Ok (outcome, hc', w') \<and> same_column hc hc' \<and> col_inv hc' w' ms \<and>
    indexed (tb_index (hc_tables hc')) (writer_query w') h a \<and>
    (\<forall>t h b. t \<in> set (tb_index (hc_tables hc) # rx_queue (hc_reindex hc)) \<longrightarrow> b \<noteq> 0 \<longrightarrow>
       indexed t (writer_query w) h b \<longrightarrow> indexed t (writer_query w') h b)"
  using reindex_entry [OF assms(1-6)] assms(7) by blast

theorem reindex_keeps_map_witness:
  "\<exists>hc w a outcome hc' w' ms.
     write_reindex_plan hc (recover_key_prefix ex_index (key_chunk ex_index ex_key) (key_entry ex_index ex_key a)) a w =
       Ok (outcome, hc', w') \<and> col_inv hc' w' ms \<and> live_at ms a = Some (1, Partial ex_key, [7, 8], False) \<and>
     ibits (tb_index (hc_tables hc)) = 17 \<and> indexed (tb_index (hc_tables hc')) (writer_query w') ex_key a"
proof (rule ex_larger)
  fix hc w ms a i
  assume a: "col_inv hc w ms" "live_at ms = [a \<mapsto> (1, Partial ex_key, [7, 8], False)]" "ex_index \<in> set (indexes hc)"
    "a \<le> last_address 16" "entry_at ex_index (writer_query w) (key_chunk ex_index ex_key) i (key_entry ex_index ex_key a)"
    "room hc 0" "ibits (tb_index (hc_tables hc)) = 17"
    "\<And>j x. visits (tb_index (hc_tables hc)) (writer_query w) ex_key j x \<Longrightarrow> False"
  have l: "live_at ms a = Some (1, Partial ex_key, [7, 8], False)" by (simp add: a(2))
  from a(4) have al: "a \<le> last_address (ibits ex_index)" by (simp add: ex_index_facts)
  from reindex_keeps_map [OF a(1,3) l a(5) al a(6)] a(7,8) l show ?thesis by blast
qed

text \<open>C13: Overwriting a value can lose it. There is a column that stores a value, without counters or
  preimages, in which a set of the key to a longer value succeeds, with an outcome that the caller
  takes for a started re-index, and leaves the key without any value: the old one is removed, the new
  one is stored in another value table but not indexed.\<close>

theorem overwrite_can_lose_value:
  "\<exists>hc w hc' w' st. col_rel ex_cd hc w [ex_key \<mapsto> (1, [7, 8])] \<and>
    hc_write_plan ex_cd hc (Set ex_key (replicate 5 1)) w = Ok (NeedReindex, hc', w') \<and>
    hc_get ex_cd hc' ex_key (writer_query w') = Ok (None, st)"
  by (rule lost_value)

end
