(* ===== verification/Btree_Node.thy ===== *)
theory Btree_Node
  imports Hash_Column "HOL-Library.List_Lexorder"
begin

text \<open>
  Nodes of btree columns (src/src/btree/mod.rs \<open>Entry\<close>, src/src/btree/node.rs): the encoding of a
  node and of the tree header, and the operations on the two arrays of a node.

  A node has \<open>ORDER\<close> separators and \<open>ORDER_CHILD\<close> children, arrays whose used part is a prefix.
  They are lists of that length here; an index out of range is a \<open>Panic\<close>. The growing buffer that
  \<open>Entry\<close> writes to is the \<open>ventry\<close> of the value tables. Keys are ordered as Rust orders slices,
  which is the lexicographic order of \<open>List_Lexorder\<close>. The number in the message of an error is
  left out.
\<close>

section \<open>Constants and data\<close>

definition ORDER :: nat where [simp]: "ORDER = 8"
definition ORDER_CHILD :: nat where [simp]: "ORDER_CHILD = 9"
definition NULL_ADDRESS :: address where [simp]: "NULL_ADDRESS = 0"
definition BTREE_HEADER_SIZE :: nat where [simp]: "BTREE_HEADER_SIZE = 12"
definition HEADER_ADDRESS :: address where "HEADER_ADDRESS = addr_new 1 0"

record btree_header =
  bh_root :: address
  bh_depth :: u32

record separator_inner =
  si_key :: bytes
  si_value :: address

record separator =
  sp_modified :: bool
  sp_separator :: "separator_inner option"

record child =
  ch_moved :: bool
  ch_entry_index :: "address option"

record node =
  nd_separators :: "separator list"
  nd_children :: "child list"
  nd_changed :: bool

definition separator_default :: separator where
  "separator_default = \<lparr>sp_modified = False, sp_separator = None\<rparr>"

definition child_default :: child where
  "child_default = \<lparr>ch_moved = False, ch_entry_index = None\<rparr>"

definition node_default :: node where
  "node_default = \<lparr>nd_separators = replicate ORDER separator_default,
     nd_children = replicate ORDER_CHILD child_default, nd_changed = True\<rparr>"

section \<open>Encoding\<close>

definition resize_by :: "nat \<Rightarrow> ventry \<Rightarrow> ventry" where
  "resize_by n e = e\<lparr>en_buf := en_buf e @ replicate n 0, en_cap := length (en_buf e) + n\<rparr>"

definition read_separator :: "ventry \<Rightarrow> (separator_inner option \<times> ventry) result" where
  "read_separator e =
     (if en_off e = length (en_buf e) then Ok (None, e)
      else
        and_then (check_remaining_len e (8 + 1) (Corruption ''Unaligned separator'')) (\<lambda>_.
        and_then (read_u64 e) (\<lambda>(val, e).
        and_then (read_slice 1 e) (\<lambda>(head, e).
        and_then
          (if head ! 0 = 255 then
             and_then (check_remaining_len e 4 (Corruption ''Cannot read size of key'')) (\<lambda>_.
             and_then (read_u32 e) (\<lambda>(n, e). Ok (unat n, e)))
           else Ok (unat (head ! 0), e)) (\<lambda>(n, e).
        and_then (check_remaining_len e n (Corruption ''Entry too small for key'')) (\<lambda>_.
        and_then (read_slice n e) (\<lambda>(k, e).
          Ok (if val = 0 then None else Some \<lparr>si_key = k, si_value = val\<rparr>, e))))))))"

definition write_separator :: "bytes \<Rightarrow> address \<Rightarrow> ventry \<Rightarrow> ventry result" where
  "write_separator k val e =
     (let n = length k;
          e = (if n \<ge> 255 then resize_by (8 + 1 + 4 + n) e else resize_by (8 + 1 + n) e)
      in and_then (write_u64 val e) (\<lambda>e.
         and_then (if n \<ge> 255 then
                     and_then (write_slice [255] e) (\<lambda>e. write_u32 (word_of_nat n) e)
                   else write_slice [word_of_nat n] e) (\<lambda>e.
         write_slice k e)))"

definition read_child_index :: "ventry \<Rightarrow> (address option \<times> ventry) result" where
  "read_child_index e =
     and_then (check_remaining_len e 8 (Corruption ''Entry too small for Index'')) (\<lambda>_.
     and_then (read_u64 e) (\<lambda>(index, e). Ok (if index = 0 then None else Some index, e)))"

definition write_child_index :: "address \<Rightarrow> ventry \<Rightarrow> ventry result" where
  "write_child_index index e = write_u64 index (resize_by 8 e)"

definition write_header :: "btree_header \<Rightarrow> ventry \<Rightarrow> ventry result" where
  "write_header h e =
     (let e = e\<lparr>en_off := 0, en_buf := take 12 (en_buf e) @ replicate (12 - length (en_buf e)) 0,
               en_cap := 12\<rparr>
      in and_then (write_u64 (bh_root h) e) (write_u32 (bh_depth h)))"

text \<open>
  \<open>write_node_plan\<close> writes child, separator, child and so on up to the first absent separator;
  \<open>from_encoded\<close> reads them back. The separator index equals the child index in both loops.
\<close>

fun encode_loop :: "child list \<Rightarrow> separator list \<Rightarrow> ventry \<Rightarrow> ventry result" where
  "encode_loop [] seps e = Panic"
| "encode_loop (c # cs) seps e =
     and_then (write_child_index (case ch_entry_index c of Some index \<Rightarrow> index | None \<Rightarrow> NULL_ADDRESS) e) (\<lambda>e.
     if cs = [] then Ok e
     else case seps of
       [] \<Rightarrow> Panic
     | s # ss \<Rightarrow>
         (case sp_separator s of
            Some sep \<Rightarrow> and_then (write_separator (si_key sep) (si_value sep) e) (encode_loop cs ss)
          | None \<Rightarrow> Ok e))"

definition encode_node :: "node \<Rightarrow> bytes result" where
  "encode_node n =
     and_then (encode_loop (nd_children n) (nd_separators n) (entry_new [])) (\<lambda>e. Ok (en_buf e))"

text \<open>The first argument counts the children that are still to be read.\<close>

fun decode_loop :: "nat \<Rightarrow> nat \<Rightarrow> node \<Rightarrow> ventry \<Rightarrow> node result" where
  "decode_loop 0 i n e = Ok n"
| "decode_loop (Suc k) i n e =
     and_then (read_child_index e) (\<lambda>(c, e).
     let n = (case c of
                Some index \<Rightarrow>
                  n\<lparr>nd_children := (nd_children n)[i := (nd_children n ! i)\<lparr>ch_entry_index := Some index\<rparr>]\<rparr>
              | None \<Rightarrow> n)
     in if k = 0 then Ok n
        else and_then (read_separator e) (\<lambda>(s, e).
          case s of
            Some sep \<Rightarrow>
              decode_loop k (i + 1)
                (n\<lparr>nd_separators := (nd_separators n)[i := (nd_separators n ! i)\<lparr>sp_separator := Some sep\<rparr>]\<rparr>) e
          | None \<Rightarrow> Ok n))"

definition from_encoded :: "bytes \<Rightarrow> node result" where
  "from_encoded enc = decode_loop ORDER_CHILD 0 (node_default\<lparr>nd_changed := False\<rparr>) (entry_new enc)"

section \<open>Queries on a node\<close>

definition last_separator_index :: "node \<Rightarrow> nat option" where
  "last_separator_index n =
     List.find (\<lambda>i. sp_separator (nd_separators n ! i) \<noteq> None) (rev [0..<length (nd_separators n)])"

definition has_separator :: "node \<Rightarrow> nat \<Rightarrow> bool" where
  "has_separator n at = (sp_separator (nd_separators n ! at) \<noteq> None)"

definition separator_key :: "node \<Rightarrow> nat \<Rightarrow> bytes option result" where
  "separator_key n at =
     and_then (assert_r (at < length (nd_separators n))) (\<lambda>_.
       Ok (map_option si_key (sp_separator (nd_separators n ! at))))"

definition separator_address :: "node \<Rightarrow> nat \<Rightarrow> address option result" where
  "separator_address n at =
     and_then (assert_r (at < length (nd_separators n))) (\<lambda>_.
       Ok (map_option si_value (sp_separator (nd_separators n ! at))))"

fun number_loop :: "separator list \<Rightarrow> nat \<Rightarrow> nat" where
  "number_loop [] i = i"
| "number_loop (s # ss) i = (case sp_separator s of Some _ \<Rightarrow> number_loop ss (i + 1) | None \<Rightarrow> i)"

definition number_separator :: "node \<Rightarrow> nat" where
  "number_separator n = number_loop (nd_separators n) 0"

fun position_loop :: "bytes \<Rightarrow> separator list \<Rightarrow> nat \<Rightarrow> bool \<times> nat" where
  "position_loop k [] i = (False, i)"
| "position_loop k (s # ss) i =
     (case sp_separator s of
        Some sep \<Rightarrow>
          (if k < si_key sep then (False, i)
           else if k = si_key sep then (True, i)
           else position_loop k ss (i + 1))
      | None \<Rightarrow> (False, i))"

definition node_position :: "node \<Rightarrow> bytes \<Rightarrow> bool \<times> nat" where
  "node_position n k = position_loop k (nd_separators n) 0"

definition need_rebalance :: "node \<Rightarrow> bool" where
  "need_rebalance n = (let middle = ORDER div 2 in \<not> has_separator n (middle - 1))"

section \<open>Changes of a node\<close>

definition put_separator :: "nat \<Rightarrow> separator \<Rightarrow> node \<Rightarrow> node result" where
  "put_separator at sep n =
     and_then (assert_r (at < length (nd_separators n))) (\<lambda>_.
       Ok (n\<lparr>nd_separators := (nd_separators n)[at := sep]\<rparr>))"

definition put_child :: "nat \<Rightarrow> child \<Rightarrow> node \<Rightarrow> node result" where
  "put_child at c n =
     and_then (assert_r (at < length (nd_children n))) (\<lambda>_.
       Ok (n\<lparr>nd_children := (nd_children n)[at := c]\<rparr>))"

definition remove_separator :: "nat \<Rightarrow> node \<Rightarrow> (separator \<times> node) result" where
  "remove_separator at n =
     and_then (put_separator at \<lparr>sp_modified = True, sp_separator = None\<rparr> (n\<lparr>nd_changed := True\<rparr>)) (\<lambda>n'.
       Ok ((nd_separators n ! at)\<lparr>sp_modified := True\<rparr>, n'))"

definition remove_child :: "nat \<Rightarrow> node \<Rightarrow> (child \<times> node) result" where
  "remove_child at n =
     and_then (put_child at \<lparr>ch_moved = True, ch_entry_index = None\<rparr> (n\<lparr>nd_changed := True\<rparr>)) (\<lambda>n'.
       Ok ((nd_children n ! at)\<lparr>ch_moved := True\<rparr>, n'))"

definition set_separator :: "nat \<Rightarrow> separator \<Rightarrow> node \<Rightarrow> node result" where
  "set_separator at sep n = put_separator at (sep\<lparr>sp_modified := True\<rparr>) (n\<lparr>nd_changed := True\<rparr>)"

definition new_child :: "address option \<Rightarrow> child" where
  "new_child index = \<lparr>ch_moved = True, ch_entry_index = index\<rparr>"

definition set_child :: "nat \<Rightarrow> child \<Rightarrow> node \<Rightarrow> node result" where
  "set_child at c n = put_child at (c\<lparr>ch_moved := True\<rparr>) (n\<lparr>nd_changed := True\<rparr>)"

text \<open>
  The rippling loops of \<open>shift_from\<close>: \<open>current\<close> was taken out of position \<open>i\<close> and goes to the
  next one, until an absent element was taken out. The element that falls off the end of the
  array is lost.
\<close>

function shift_separators :: "nat \<Rightarrow> separator \<Rightarrow> separator list \<Rightarrow> separator list" where
  "shift_separators i current ss =
     (if sp_separator current = None then ss
      else if Suc i \<ge> length ss then ss
      else shift_separators (Suc i) (ss ! Suc i) (ss[Suc i := current\<lparr>sp_modified := True\<rparr>]))"
  by pat_completeness auto
termination by (relation "measure (\<lambda>(i, _, ss). length ss - i)") auto

function shift_children :: "nat \<Rightarrow> child \<Rightarrow> child list \<Rightarrow> child list" where
  "shift_children i current cs =
     (if ch_entry_index current = None then cs
      else if Suc i \<ge> length cs then cs
      else shift_children (Suc i) (cs ! Suc i) (cs[Suc i := current\<lparr>ch_moved := True\<rparr>]))"
  by pat_completeness auto
termination by (relation "measure (\<lambda>(i, _, cs). length cs - i)") auto

declare shift_separators.simps [simp del] shift_children.simps [simp del]

definition shift_from :: "nat \<Rightarrow> bool \<Rightarrow> bool \<Rightarrow> node \<Rightarrow> node result" where
  "shift_from from has_child with_left_child n =
     and_then (remove_separator from (n\<lparr>nd_changed := True\<rparr>)) (\<lambda>(current, n).
     let n = n\<lparr>nd_separators := shift_separators from current (nd_separators n)\<rparr> in
     if has_child then
       (let i = (if with_left_child then from else from + 1) in
        and_then (remove_child i n) (\<lambda>(current, n).
          Ok (n\<lparr>nd_children := shift_children i current (nd_children n)\<rparr>)))
     else Ok n)"

function drop_separators :: "nat \<Rightarrow> separator list \<Rightarrow> separator list" where
  "drop_separators i ss =
     (if i < length ss - 1 then
        (let ss' = ss[i := (ss ! Suc i)\<lparr>sp_modified := True\<rparr>,
                      Suc i := \<lparr>sp_modified = True, sp_separator = None\<rparr>]
         in if sp_separator (ss ! Suc i) = None then ss' else drop_separators (Suc i) ss')
      else ss)"
  by pat_completeness auto
termination by (relation "measure (\<lambda>(i, ss). length ss - i)") auto

function drop_children :: "nat \<Rightarrow> child list \<Rightarrow> child list" where
  "drop_children i cs =
     (if i < length cs - 1 then
        (let cs' = cs[i := (cs ! Suc i)\<lparr>ch_moved := True\<rparr>,
                      Suc i := \<lparr>ch_moved = True, ch_entry_index = None\<rparr>]
         in if ch_entry_index (cs ! Suc i) = None then cs' else drop_children (Suc i) cs')
      else cs)"
  by pat_completeness auto
termination by (relation "measure (\<lambda>(i, cs). length cs - i)") auto

declare drop_separators.simps [simp del] drop_children.simps [simp del]

definition remove_from :: "nat \<Rightarrow> bool \<Rightarrow> bool \<Rightarrow> node \<Rightarrow> node" where
  "remove_from from has_child with_left_child n =
     (let n = n\<lparr>nd_changed := True, nd_separators := drop_separators from (nd_separators n)\<rparr> in
      if has_child then
        n\<lparr>nd_children := drop_children (if with_left_child then from else from + 1) (nd_children n)\<rparr>
      else n)"

text \<open>The two loops of \<open>split\<close>, over the indices from the split point on.\<close>

fun split_separators ::
    "nat list \<Rightarrow> nat \<Rightarrow> (nat \<times> separator) option \<Rightarrow> nat \<Rightarrow> node \<Rightarrow> node
       \<Rightarrow> ((nat \<times> separator) option \<times> node \<times> node) result" where
  "split_separators [] right_start ins off self right = Ok (ins, self, right)"
| "split_separators (i # is) right_start ins off self right =
     and_then (remove_separator i self) (\<lambda>(sep, self).
     and_then
       (case ins of
          Some (at, s) \<Rightarrow>
            (if at = i then
               and_then (put_separator (i - right_start) s right) (\<lambda>right. Ok (None, 1, right))
             else Ok (ins, off, right))
        | None \<Rightarrow> Ok (ins, off, right)) (\<lambda>(ins, off, right).
     and_then (put_separator (i + off - right_start) sep right) (\<lambda>right.
       split_separators is right_start ins off self right)))"

fun split_children ::
    "nat list \<Rightarrow> nat \<Rightarrow> (nat \<times> child) option \<Rightarrow> nat \<Rightarrow> node \<Rightarrow> node
       \<Rightarrow> ((nat \<times> child) option \<times> node \<times> node) result" where
  "split_children [] right_start ins off self right = Ok (ins, self, right)"
| "split_children (i # is) right_start ins off self right =
     and_then (remove_child i self) (\<lambda>(c, self).
     and_then
       (case ins of
          Some (at, s) \<Rightarrow>
            (if at + 1 = i then
               and_then (put_child (i - right_start) (s\<lparr>ch_moved := True\<rparr>) right) (\<lambda>right.
                 Ok (None, 1, right))
             else Ok (ins, off, right))
        | None \<Rightarrow> Ok (ins, off, right)) (\<lambda>(ins, off, right).
     and_then (put_child (i + off - right_start) c right) (\<lambda>right.
       split_children is right_start ins off self right)))"

definition node_split ::
    "nat \<Rightarrow> bool \<Rightarrow> (nat \<times> separator) option \<Rightarrow> (nat \<times> child) option \<Rightarrow> bool \<Rightarrow> node
       \<Rightarrow> ((node \<times> address option) \<times> node) result" where
  "node_split at skip_left_child insert_right insert_right_child has_child self =
     and_then (split_separators [at..<ORDER] at insert_right 0 self node_default) (\<lambda>(ins, self, right).
     and_then (case ins of
                 Some (i, sep) \<Rightarrow>
                   and_then (assert_r (i = ORDER)) (\<lambda>_. put_separator (i - at) sep right)
               | None \<Rightarrow> Ok right) (\<lambda>right.
     if has_child then
       and_then (split_children [at + (if skip_left_child then 1 else 0)..<ORDER_CHILD] at
                   insert_right_child 0 self right) (\<lambda>(ins, self, right).
       and_then (case ins of
                   Some (i, c) \<Rightarrow>
                     and_then (assert_r (i = ORDER)) (\<lambda>_.
                       put_child (i + 1 - at) (c\<lparr>ch_moved := True\<rparr>) right)
                 | None \<Rightarrow> Ok right) (\<lambda>right.
         Ok ((right, None), self)))
     else Ok ((right, None), self)))"

end
