(* ===== verification/Btree_Tree.thy ===== *)
theory Btree_Tree
  imports Btree_Node
begin

text \<open>
  Trees in the value tables of a column (src/src/btree/node.rs, src/src/btree/btree.rs and the
  node functions of src/src/btree/mod.rs). A node is a value stored without a key; its address is
  kept by its parent, the address of the root in the header entry. \<open>node_change\<close> descends with a
  sorted list of operations, splits full nodes and merges or refills nodes that became too small.

  The tables and the log record being written are the state \<open>tree_env\<close>. The recursion of \<open>change\<close>
  over the depth is primitive recursion; its loop over the operations and the descent of \<open>get\<close>,
  which follows whatever the nodes say, are \<open>loop_r\<close>.
\<close>

section \<open>Nodes in value tables\<close>

type_synonym tree_env = "tables_ref \<times> log_writer"

definition env_query :: "tree_env \<Rightarrow> log_query" where
  "env_query env = writer_query (snd env)"

text \<open>The two planning functions of the column, with the keys and statistics a tree passes.\<close>

definition tree_existing ::
    "codec \<Rightarrow> address \<Rightarrow> ('k, bytes) operation \<Rightarrow> bool \<Rightarrow> tree_env
       \<Rightarrow> ((plan_outcome option \<times> address option) \<times> tree_env) result" where
  "tree_existing cd address change ref_counted env =
     and_then (write_existing_value_plan cd NoHash (fst env) address change (snd env) None ref_counted)
       (\<lambda>(r, vts, w, _). Ok (r, (fst env)\<lparr>tr_tables := vts\<rparr>, w))"

definition tree_new_value :: "codec \<Rightarrow> bytes \<Rightarrow> tree_env \<Rightarrow> (address \<times> tree_env) result" where
  "tree_new_value cd val env =
     and_then (write_new_value_plan cd NoHash (fst env) val (snd env) None)
       (\<lambda>(address, vts, w, _). Ok (address, (fst env)\<lparr>tr_tables := vts\<rparr>, w))"

definition get_encoded_entry :: "codec \<Rightarrow> address \<Rightarrow> log_query \<Rightarrow> tables_ref \<Rightarrow> bytes result" where
  "get_encoded_entry cd at lq tables =
     and_then (get_value cd (Check NoHash) at tables lq) (\<lambda>r.
     case r of
       Some (_, val) \<Rightarrow> Ok val
     | None \<Rightarrow> Err (Corruption ''Missing btree entry''))"

definition fetch_child :: "codec \<Rightarrow> node \<Rightarrow> nat \<Rightarrow> tables_ref \<Rightarrow> log_query \<Rightarrow> node option result" where
  "fetch_child cd n i tables lq =
     and_then (assert_r (i < length (nd_children n))) (\<lambda>_.
     case ch_entry_index (nd_children n ! i) of
       Some ix \<Rightarrow>
         and_then (get_encoded_entry cd ix lq tables) (\<lambda>enc.
         and_then (from_encoded enc) (\<lambda>c. Ok (Some c)))
     | None \<Rightarrow> Ok None)"

abbreviation env_fetch_child :: "codec \<Rightarrow> node \<Rightarrow> nat \<Rightarrow> tree_env \<Rightarrow> node option result" where
  "env_fetch_child cd n i env \<equiv> fetch_child cd n i (fst env) (env_query env)"

definition write_plan_remove_node :: "codec \<Rightarrow> address \<Rightarrow> tree_env \<Rightarrow> tree_env result" where
  "write_plan_remove_node cd node_index env =
     and_then (tree_existing cd node_index (Dereference ()) False env) (\<lambda>(_, env). Ok env)"

fun moved_children :: "child list \<Rightarrow> bool" where
  "moved_children [] = False"
| "moved_children (c # cs) =
     (if ch_moved c then True else if ch_entry_index c = None then False else moved_children cs)"

fun modified_separators :: "separator list \<Rightarrow> bool" where
  "modified_separators [] = False"
| "modified_separators (s # ss) =
     (if sp_modified s then True else if sp_separator s = None then False else modified_separators ss)"

definition write_node_plan ::
    "codec \<Rightarrow> node \<Rightarrow> address option \<Rightarrow> tree_env \<Rightarrow> (address option \<times> tree_env) result" where
  "write_node_plan cd n node_id env =
     (if \<not> (nd_changed n \<or> moved_children (nd_children n) \<or> modified_separators (nd_separators n))
      then Ok (None, env)
      else
        and_then (encode_node n) (\<lambda>enc.
        let old_comp = tr_compression (fst env);
            env = ((fst env)\<lparr>tr_compression := NO_COMPRESSION\<rparr>, snd env)
        in and_then
             (case node_id of
                Some existing \<Rightarrow>
                  and_then (tree_existing cd existing (Set () enc) False env) (\<lambda>((_, new_index), env).
                    Ok (new_index, env))
              | None \<Rightarrow>
                  and_then (tree_new_value cd enc env) (\<lambda>(address, env). Ok (Some address, env)))
             (\<lambda>(r, env). Ok (r, (fst env)\<lparr>tr_compression := old_comp\<rparr>, snd env))))"

definition write_child :: "codec \<Rightarrow> node \<Rightarrow> nat \<Rightarrow> node \<Rightarrow> tree_env \<Rightarrow> (node \<times> tree_env) result" where
  "write_child cd self i c env =
     (if nd_changed c then
        and_then (assert_r (i < length (nd_children self))) (\<lambda>_.
        and_then (write_node_plan cd c (ch_entry_index (nd_children self ! i)) env) (\<lambda>(new_index, env).
          Ok (if new_index \<noteq> None then
                self\<lparr>nd_changed := True,
                     nd_children := (nd_children self)[i :=
                       (nd_children self ! i)\<lparr>ch_entry_index := new_index\<rparr>]\<rparr>
              else self, env)))
      else Ok (self, env))"

definition write_split_child ::
    "codec \<Rightarrow> address option \<Rightarrow> node \<Rightarrow> tree_env \<Rightarrow> (child \<times> tree_env) result" where
  "write_split_child cd right_ix right env =
     and_then (write_node_plan cd right right_ix env) (\<lambda>(new_index, env).
       Ok (new_child (if new_index \<noteq> None then new_index else right_ix), env))"

definition create_separator ::
    "codec \<Rightarrow> bytes \<Rightarrow> bytes \<Rightarrow> address option \<Rightarrow> tree_env \<Rightarrow> (separator \<times> tree_env) result" where
  "create_separator cd k val existing env =
     and_then
       (case existing of
          Some address \<Rightarrow>
            and_then (tree_existing cd address (Set () val) (tr_ref_counted (fst env)) env)
              (\<lambda>((_, moved), env). Ok (case moved of Some a \<Rightarrow> a | None \<Rightarrow> address, env))
        | None \<Rightarrow> tree_new_value cd val env)
       (\<lambda>(v, env).
          Ok (\<lparr>sp_modified = (Some v \<noteq> existing), sp_separator = Some \<lparr>si_key = k, si_value = v\<rparr>\<rparr>, env))"

section \<open>Splitting\<close>

definition insert_node ::
    "codec \<Rightarrow> node \<Rightarrow> nat \<Rightarrow> nat \<Rightarrow> separator \<Rightarrow> child \<Rightarrow> tree_env
       \<Rightarrow> ((separator \<times> child) option \<times> node \<times> tree_env) result" where
  "insert_node cd self depth at sep right_child env =
     and_then (assert_r (depth \<noteq> 0)) (\<lambda>_.
     if has_separator self (ORDER - 1) then
       (let middle = ORDER div 2 in
        if at = middle then
          and_then (node_split middle True None None True self) (\<lambda>((right, right_ix), self).
          and_then (set_child 0 right_child right) (\<lambda>right.
          and_then (write_split_child cd right_ix right env) (\<lambda>(right, env).
            Ok (Some (sep, right), self, env))))
        else if at < middle then
          and_then (node_split middle False None None True self) (\<lambda>((right, right_ix), self).
          and_then (remove_separator (middle - 1) self) (\<lambda>(up, self).
          and_then (shift_from at True False self) (\<lambda>self.
          and_then (set_separator at sep self) (\<lambda>self.
          and_then (set_child (at + 1) right_child self) (\<lambda>self.
          and_then (write_split_child cd right_ix right env) (\<lambda>(right, env).
            Ok (Some (up, right), self, env)))))))
        else
          and_then (node_split (middle + 1) False (Some (at, sep)) (Some (at, right_child)) True self)
            (\<lambda>((right, right_ix), self).
          and_then (remove_separator middle self) (\<lambda>(up, self).
          and_then (write_split_child cd right_ix right env) (\<lambda>(right, env).
            Ok (Some (up, right), self, env)))))
     else
       and_then (shift_from at True False self) (\<lambda>self.
       and_then (set_separator at sep self) (\<lambda>self.
       and_then (set_child (at + 1) right_child self) (\<lambda>self.
         Ok (None, self, env)))))"

text \<open>The part of \<open>insert\<close> for a leaf that has not got the key.\<close>

definition insert_leaf ::
    "codec \<Rightarrow> node \<Rightarrow> nat \<Rightarrow> bytes \<Rightarrow> bytes \<Rightarrow> tree_env
       \<Rightarrow> ((separator \<times> child) option \<times> node \<times> tree_env) result" where
  "insert_leaf cd self i k val env =
     (if has_separator self (ORDER - 1) then
        (let middle = ORDER div 2 in
         and_then (create_separator cd k val None env) (\<lambda>(sep, env).
         if i = middle then
           and_then (node_split middle True None None False self) (\<lambda>((right, right_ix), self).
           and_then (write_split_child cd right_ix right env) (\<lambda>(right, env).
             Ok (Some (sep, right), self, env)))
         else if i < middle then
           and_then (node_split middle False None None False self) (\<lambda>((right, right_ix), self).
           and_then (remove_separator (middle - 1) self) (\<lambda>(up, self).
           and_then (shift_from i False False self) (\<lambda>self.
           and_then (set_separator i sep self) (\<lambda>self.
           and_then (write_split_child cd right_ix right env) (\<lambda>(right, env).
             Ok (Some (up, right), self, env))))))
         else
           and_then (node_split (middle + 1) False (Some (i, sep)) None False self)
             (\<lambda>((right, right_ix), self).
           and_then (remove_separator middle self) (\<lambda>(up, self).
           and_then (write_split_child cd right_ix right env) (\<lambda>(right, env).
             Ok (Some (up, right), self, env))))))
      else
        and_then (shift_from i False False self) (\<lambda>self.
        and_then (create_separator cd k val None env) (\<lambda>(sep, env).
        and_then (set_separator i sep self) (\<lambda>self. Ok (None, self, env)))))"

section \<open>Rebalancing\<close>

text \<open>\<open>Option::unwrap\<close>.\<close>

definition unwrap :: "'a option \<Rightarrow> 'a result" where
  "unwrap m = (case m of Some x \<Rightarrow> Ok x | None \<Rightarrow> Panic)"

text \<open>Take the last separator of the left sibling.\<close>

definition balance_from_left ::
    "codec \<Rightarrow> node \<Rightarrow> bool \<Rightarrow> nat \<Rightarrow> node \<Rightarrow> tree_env \<Rightarrow> (node \<times> tree_env) result" where
  "balance_from_left cd self has_child at left env =
     and_then (unwrap (last_separator_index left)) (\<lambda>last_sibling.
     and_then (if has_child
               then and_then (remove_child (last_sibling + 1) left) (\<lambda>(c, left). Ok (Some c, left))
               else Ok (None, left)) (\<lambda>(c, left).
     and_then (remove_separator last_sibling left) (\<lambda>(separator2, left).
     and_then (remove_separator (at - 1) self) (\<lambda>(sep, self).
     and_then (set_separator (at - 1) separator2 self) (\<lambda>self.
     and_then (env_fetch_child cd self at env) (\<lambda>right.
     and_then (unwrap right) (\<lambda>right.
     and_then (shift_from 0 has_child True right) (\<lambda>right.
     and_then (case c of Some c \<Rightarrow> set_child 0 c right | None \<Rightarrow> Ok right) (\<lambda>right.
     and_then (set_separator 0 sep right) (\<lambda>right.
     and_then (write_child cd self (at - 1) left env) (\<lambda>(self, env).
       write_child cd self at right env)))))))))))"

text \<open>Take the first separator of the right sibling.\<close>

definition balance_from_right ::
    "codec \<Rightarrow> node \<Rightarrow> bool \<Rightarrow> nat \<Rightarrow> node \<Rightarrow> tree_env \<Rightarrow> (node \<times> tree_env) result" where
  "balance_from_right cd self has_child at right env =
     and_then (if has_child
               then and_then (remove_child 0 right) (\<lambda>(c, right). Ok (Some c, right))
               else Ok (None, right)) (\<lambda>(c, right).
     and_then (remove_separator 0 right) (\<lambda>(separator2, right).
     let right = remove_from 0 has_child True right in
     and_then (remove_separator at self) (\<lambda>(sep, self).
     and_then (set_separator at separator2 self) (\<lambda>self.
     and_then (env_fetch_child cd self at env) (\<lambda>left.
     and_then (unwrap left) (\<lambda>left.
     let last_left = number_separator left in
     and_then (set_separator last_left sep left) (\<lambda>left.
     and_then (case c of Some c \<Rightarrow> set_child (last_left + 1) c left | None \<Rightarrow> Ok left) (\<lambda>left.
     and_then (write_child cd self at left env) (\<lambda>(self, env).
       write_child cd self (at + 1) right env)))))))))"

text \<open>Move the separators (and children) \<open>right_i..<right_len\<close> of \<open>right\<close> to position \<open>i\<close> of \<open>left\<close>.\<close>

fun merge_loop :: "bool \<Rightarrow> nat list \<Rightarrow> nat \<Rightarrow> node \<Rightarrow> node \<Rightarrow> (nat \<times> node \<times> node) result" where
  "merge_loop has_child [] i left right = Ok (i, left, right)"
| "merge_loop has_child (right_i # is) i left right =
     and_then (if has_child
               then and_then (remove_child right_i right) (\<lambda>(c, right). Ok (Some c, right))
               else Ok (None, right)) (\<lambda>(c, right).
     and_then (remove_separator right_i right) (\<lambda>(sep, right).
     and_then (set_separator i sep left) (\<lambda>left.
     and_then (case c of Some c \<Rightarrow> set_child i c left | None \<Rightarrow> Ok left) (\<lambda>left.
       merge_loop has_child is (i + 1) left right))))"

text \<open>Merge the children \<open>at\<close> and \<open>at_right\<close> of \<open>self\<close> and the separator between them.\<close>

definition merge_children ::
    "codec \<Rightarrow> node \<Rightarrow> bool \<Rightarrow> nat \<Rightarrow> nat \<Rightarrow> node option \<Rightarrow> node option \<Rightarrow> tree_env
       \<Rightarrow> (node \<times> tree_env) result" where
  "merge_children cd self has_child at at_right left right env =
     and_then (unwrap left) (\<lambda>left.
     and_then (remove_separator at self) (\<lambda>(sep, self).
     let i = number_separator left in
     and_then (set_separator i sep left) (\<lambda>left.
     and_then (unwrap right) (\<lambda>right.
     let right_len = number_separator right in
     and_then (merge_loop has_child [0..<right_len] (i + 1) left right) (\<lambda>(i, left, right).
     and_then (if has_child then
                 and_then (remove_child right_len right) (\<lambda>(c, right). set_child i c left)
               else Ok left) (\<lambda>left.
     and_then (remove_child at_right self) (\<lambda>(removed, self).
     and_then (case ch_entry_index removed of
                 Some index \<Rightarrow> write_plan_remove_node cd index env
               | None \<Rightarrow> Ok env) (\<lambda>env.
     and_then (write_child cd self at left env) (\<lambda>(self, env).
       Ok (remove_from at True False self, env))))))))))"

definition rebalance :: "codec \<Rightarrow> node \<Rightarrow> nat \<Rightarrow> nat \<Rightarrow> tree_env \<Rightarrow> (node \<times> tree_env) result" where
  "rebalance cd self depth at env =
     and_then (assert_r (0 < depth)) (\<lambda>_.
     let has_child = (depth - 1 \<noteq> 0); middle = ORDER div 2 in
     and_then (if at > 0 then env_fetch_child cd self (at - 1) env else Ok None) (\<lambda>left.
     if (case left of Some n \<Rightarrow> has_separator n middle | None \<Rightarrow> False) then
       and_then (unwrap left) (\<lambda>left. balance_from_left cd self has_child at left env)
     else
       let number_child = number_separator self + 1 in
       and_then (if at + 1 < number_child then env_fetch_child cd self (at + 1) env else Ok None) (\<lambda>right.
       if (case right of Some n \<Rightarrow> has_separator n middle | None \<Rightarrow> False) then
         and_then (unwrap right) (\<lambda>right. balance_from_right cd self has_child at right env)
       else if at + 1 = number_child then
         and_then (env_fetch_child cd self at env) (\<lambda>right.
         and_then (assert_r (0 < at)) (\<lambda>_.
           merge_children cd self has_child (at - 1) at left right env))
       else
         and_then (env_fetch_child cd self at env) (\<lambda>left.
         and_then (if right = None then env_fetch_child cd self (at + 1) env else Ok right) (\<lambda>right.
           merge_children cd self has_child at (at + 1) left right env)))))"

definition need_remove_root ::
    "codec \<Rightarrow> node \<Rightarrow> tree_env \<Rightarrow> ((address option \<times> node) option \<times> node) result" where
  "need_remove_root cd self env =
     (if number_separator self = 0 then
        and_then (env_fetch_child cd self 0 env) (\<lambda>c.
        case c of
          Some n \<Rightarrow>
            and_then (remove_child 0 self) (\<lambda>(c, self). Ok (Some (ch_entry_index c, n), self))
        | None \<Rightarrow> Ok (None, self))
      else Ok (None, self))"

text \<open>Remove the greatest separator of the subtree. The recursion is over the depth.\<close>

primrec remove_last ::
    "nat \<Rightarrow> codec \<Rightarrow> node \<Rightarrow> tree_env \<Rightarrow> ((bool \<times> separator option) \<times> node \<times> tree_env) result" where
  "remove_last 0 = (\<lambda>cd self env.
     case last_separator_index self of
       None \<Rightarrow> Ok ((False, None), self, env)
     | Some i \<Rightarrow>
         and_then (remove_separator i self) (\<lambda>(r, self).
           Ok ((need_rebalance self, Some r), self, env)))"
| "remove_last (Suc d) = (\<lambda>cd self env.
     case last_separator_index self of
       None \<Rightarrow> Ok ((False, None), self, env)
     | Some i \<Rightarrow>
         and_then (env_fetch_child cd self (i + 1) env) (\<lambda>c.
         case c of
           None \<Rightarrow> Ok ((False, None), self, env)
         | Some c \<Rightarrow>
             and_then (remove_last d cd c env) (\<lambda>(r, c, env).
             and_then (write_child cd self (i + 1) c env) (\<lambda>(self, env).
             if fst r then
               and_then (rebalance cd self (Suc d) (i + 1) env) (\<lambda>(self, env).
                 Ok ((need_rebalance self, snd r), self, env))
             else Ok (r, self, env)))))"

section \<open>Applying operations\<close>

type_synonym changes = "(bytes, bytes) operation list"
type_synonym change_out = "((separator \<times> child) option \<times> bool) \<times> node \<times> changes \<times> tree_env"
type_synonym change_fn = "(node \<times> nat) option \<Rightarrow> node \<Rightarrow> changes \<Rightarrow> tree_env \<Rightarrow> change_out result"

text \<open>
  The descent that \<open>insert\<close> and \<open>on_existing\<close> share. \<open>change\<close> is \<open>Node::change\<close> at the depth of the
  child.
\<close>

definition change_child ::
    "codec \<Rightarrow> change_fn \<Rightarrow> nat \<Rightarrow> node \<Rightarrow> nat \<Rightarrow> changes \<Rightarrow> tree_env \<Rightarrow> change_out result" where
  "change_child cd change depth self i changes env =
     and_then (env_fetch_child cd self i env) (\<lambda>c.
     case c of
       None \<Rightarrow> Ok ((None, False), self, changes, env)
     | Some c \<Rightarrow>
         and_then (change (Some (self, i)) c changes env) (\<lambda>(r, c, changes, env).
         and_then (write_child cd self i c env) (\<lambda>(self, env).
         case r of
           (Some (sep, right), _) \<Rightarrow>
             and_then (insert_node cd self depth i sep right env) (\<lambda>(r, self, env).
               Ok ((r, False), self, changes, env))
         | (None, True) \<Rightarrow>
             and_then (rebalance cd self depth i env) (\<lambda>(self, env).
               Ok ((None, need_rebalance self), self, changes, env))
         | (None, False) \<Rightarrow> Ok ((None, False), self, changes, env))))"

definition node_insert ::
    "codec \<Rightarrow> change_fn \<Rightarrow> nat \<Rightarrow> node \<Rightarrow> bytes \<Rightarrow> bytes \<Rightarrow> changes \<Rightarrow> tree_env \<Rightarrow> change_out result" where
  "node_insert cd change depth self k val changes env =
     (let has_child = (depth \<noteq> 0); (at, i) = node_position self k in
      if \<not> at then
        (if has_child then change_child cd change depth self i changes env
         else
           and_then (insert_leaf cd self i k val env) (\<lambda>(r, self, env).
             Ok ((r, False), self, changes, env)))
      else
        and_then (separator_address self i) (\<lambda>existing.
        and_then (create_separator cd k val existing env) (\<lambda>(sep, env).
        and_then (set_separator i sep self) (\<lambda>self.
          Ok ((None, False), self, changes, env)))))"

text \<open>The separator \<open>i\<close> lost its value: close the gap, in an inner node with the greatest separator below it.\<close>

definition remove_existing :: "codec \<Rightarrow> nat \<Rightarrow> node \<Rightarrow> nat \<Rightarrow> tree_env \<Rightarrow> (node \<times> tree_env) result" where
  "remove_existing cd depth self i env =
     and_then (remove_separator i self) (\<lambda>(_, self).
     if depth \<noteq> 0 then
       and_then (env_fetch_child cd self i env) (\<lambda>c.
       case c of
         None \<Rightarrow> Ok (self, env)
       | Some c \<Rightarrow>
           and_then (remove_last (depth - 1) cd c env) (\<lambda>((need_balance, sep), c, env).
           and_then (write_child cd self i c env) (\<lambda>(self, env).
           and_then (case sep of Some sep \<Rightarrow> set_separator i sep self | None \<Rightarrow> Ok self) (\<lambda>self.
             if need_balance then rebalance cd self depth i env else Ok (self, env)))))
     else Ok (remove_from i False True self, env))"

definition on_existing ::
    "codec \<Rightarrow> change_fn \<Rightarrow> nat \<Rightarrow> node \<Rightarrow> (bytes, bytes) operation \<Rightarrow> changes \<Rightarrow> tree_env
       \<Rightarrow> change_out result" where
  "on_existing cd change depth self op changes env =
     (let (at, i) = node_position self (op_key op) in
      if at then
        and_then (separator_address self i) (\<lambda>existing.
        and_then
          (case existing of
             None \<Rightarrow> Ok (self, env)
           | Some address \<Rightarrow>
               and_then (tree_existing cd address op (tr_ref_counted (fst env)) env)
                 (\<lambda>((outcome, _), env).
                    if outcome = None then remove_existing cd depth self i env else Ok (self, env)))
          (\<lambda>(self, env). Ok ((None, need_rebalance self), self, changes, env)))
      else if depth = 0 then Ok ((None, False), self, changes, env)
      else change_child cd change depth self i changes env)"

text \<open>One turn of the loop of \<open>change\<close>.\<close>

definition change_body ::
    "codec \<Rightarrow> change_fn \<Rightarrow> nat \<Rightarrow> (node \<times> nat) option \<Rightarrow> node \<times> changes \<times> tree_env
       \<Rightarrow> ((node \<times> changes \<times> tree_env) + change_out) result" where
  "change_body cd change depth parent = (\<lambda>(self, changes, env).
     case changes of
       [] \<Rightarrow> Panic
     | op # rest \<Rightarrow>
         (if \<not> tr_ref_counted (fst env)
             \<and> (case rest of
                  nxt # _ \<Rightarrow> (case nxt of Reference _ \<Rightarrow> False | _ \<Rightarrow> op_key op = op_key nxt)
                | [] \<Rightarrow> False)
          then Ok (Inl (self, rest, env))
          else
            and_then
              (case op of
                 Set k val \<Rightarrow> node_insert cd change depth self k val changes env
               | _ \<Rightarrow> on_existing cd change depth self op changes env)
              (\<lambda>(r, self, changes, env).
                 if fst r \<noteq> None \<or> snd r then Ok (Inr (r, self, changes, env))
                 else
                   case (changes, parent) of
                     (_ # nxt # _, Some (parent, p)) \<Rightarrow>
                       (let (at, i) = node_position self (op_key nxt) in
                        if at \<or> i < number_separator self then Ok (Inl (self, tl changes, env))
                        else
                          (let (at, i) = node_position parent (op_key nxt) in
                           if \<not> at \<and> i = p \<and> i < number_separator parent
                           then Ok (Inl (self, tl changes, env))
                           else Ok (Inr ((None, False), self, changes, env))))
                   | _ \<Rightarrow> Ok (Inr ((None, False), self, changes, env)))))"

primrec node_change :: "nat \<Rightarrow> codec \<Rightarrow> change_fn" where
  "node_change 0 = (\<lambda>cd parent self changes env.
     loop_r (change_body cd (\<lambda>_ _ _ _. Panic) 0 parent) (self, changes, env))"
| "node_change (Suc d) = (\<lambda>cd parent self changes env.
     loop_r (change_body cd (node_change d cd) (Suc d) parent) (self, changes, env))"

section \<open>Lookup\<close>

definition node_get :: "codec \<Rightarrow> node \<Rightarrow> bytes \<Rightarrow> tables_ref \<Rightarrow> log_query \<Rightarrow> address option result" where
  "node_get cd n k tables lq =
     loop_r (\<lambda>n.
       let (at, i) = node_position n k in
       if at then and_then (separator_address n i) (\<lambda>a. Ok (Inr a))
       else and_then (fetch_child cd n i tables lq) (\<lambda>c.
         Ok (case c of Some c \<Rightarrow> Inl c | None \<Rightarrow> Inr None))) n"

section \<open>Trees\<close>

record btree =
  bt_depth :: u32
  bt_root_index :: "address option"
  bt_record_id :: u64

definition btree_header_of :: "codec \<Rightarrow> log_query \<Rightarrow> tables_ref \<Rightarrow> btree_header result" where
  "btree_header_of cd lq tables =
     and_then (get_value cd (Fetch False) HEADER_ADDRESS tables lq) (\<lambda>r.
     case r of
       Some (_, encoded) \<Rightarrow>
         (let buf = entry_new encoded in
          and_then (check_remaining_len buf (8 + 4) (Corruption ''Invalid header length.'')) (\<lambda>_.
          and_then (read_u64 buf) (\<lambda>(root, buf).
          and_then (read_u32 buf) (\<lambda>(depth, buf).
            Ok \<lparr>bh_root = root, bh_depth = depth\<rparr>))))
     | None \<Rightarrow> Ok \<lparr>bh_root = NULL_ADDRESS, bh_depth = 0\<rparr>)"

definition btree_open :: "codec \<Rightarrow> tables_ref \<Rightarrow> log_query \<Rightarrow> u64 \<Rightarrow> btree result" where
  "btree_open cd tables lq record_id =
     and_then (btree_header_of cd lq tables) (\<lambda>h.
       Ok \<lparr>bt_depth = bh_depth h,
           bt_root_index = (if bh_root h = NULL_ADDRESS then None else Some (bh_root h)),
           bt_record_id = record_id\<rparr>)"

definition root_or_null :: "btree \<Rightarrow> address" where
  "root_or_null t = (case bt_root_index t of Some a \<Rightarrow> a | None \<Rightarrow> NULL_ADDRESS)"

definition fetch_root :: "codec \<Rightarrow> address \<Rightarrow> tables_ref \<Rightarrow> log_query \<Rightarrow> node result" where
  "fetch_root cd root tables lq =
     (if root = NULL_ADDRESS then Ok node_default
      else and_then (get_encoded_entry cd root lq tables) from_encoded)"

definition btree_get :: "codec \<Rightarrow> btree \<Rightarrow> bytes \<Rightarrow> tables_ref \<Rightarrow> log_query \<Rightarrow> bytes option result" where
  "btree_get cd t k tables lq =
     and_then (fetch_root cd (root_or_null t) tables lq) (\<lambda>root.
     and_then (node_get cd root k tables lq) (\<lambda>a.
     case a of
       Some address \<Rightarrow>
         and_then (get_value cd (Fetch False) address tables lq) (\<lambda>r. Ok (map_option snd r))
     | None \<Rightarrow> Ok None))"

definition sorted_changes_body ::
    "codec \<Rightarrow> btree \<times> node \<times> changes \<times> tree_env
       \<Rightarrow> ((btree \<times> node \<times> changes \<times> tree_env) + (btree \<times> node \<times> tree_env)) result" where
  "sorted_changes_body cd = (\<lambda>(t, root, changes, env).
     if changes = [] then Ok (Inr (t, root, env))
     else
       and_then (node_change (unat (bt_depth t)) cd None root changes env) (\<lambda>(r, root, changes, env).
       and_then
         (case r of
            (Some (sep, right), _) \<Rightarrow>
              and_then (assert_r (bt_depth t \<noteq> 0xffffffff)) (\<lambda>_.
              let left_index = bt_root_index t in
              and_then (write_node_plan cd root left_index env) (\<lambda>(new_index, env).
              let new_index = (if new_index \<noteq> None then new_index else left_index) in
              and_then (set_child 0 (new_child new_index) node_default) (\<lambda>root.
              and_then (set_child 1 right root) (\<lambda>root.
              and_then (set_separator 0 sep root) (\<lambda>root.
                Ok (t\<lparr>bt_depth := bt_depth t + 1, bt_root_index := None\<rparr>, root, env))))))
          | (None, True) \<Rightarrow>
              and_then (need_remove_root cd root env) (\<lambda>(removed, root).
              case removed of
                None \<Rightarrow> Ok (t, root, env)
              | Some (node_index, n) \<Rightarrow>
                  and_then (assert_r (bt_depth t \<noteq> 0)) (\<lambda>_.
                  and_then (case bt_root_index t of
                              Some index \<Rightarrow> write_plan_remove_node cd index env
                            | None \<Rightarrow> Ok env) (\<lambda>env.
                    Ok (t\<lparr>bt_depth := bt_depth t - 1, bt_root_index := node_index\<rparr>, n, env))))
          | (None, False) \<Rightarrow> Ok (t, root, env)) (\<lambda>(t, root, env).
         and_then (assert_r (changes \<noteq> [])) (\<lambda>_. Ok (Inl (t, root, tl changes, env))))))"

definition write_sorted_changes ::
    "codec \<Rightarrow> btree \<Rightarrow> changes \<Rightarrow> tree_env \<Rightarrow> (btree \<times> tree_env) result" where
  "write_sorted_changes cd t changes env =
     and_then (fetch_root cd (root_or_null t) (fst env) (env_query env)) (\<lambda>root.
     and_then (loop_r (sorted_changes_body cd) (t, root, changes, env)) (\<lambda>(t, root, env).
     if nd_changed root then
       and_then (write_node_plan cd root (bt_root_index t) env) (\<lambda>(new_index, env).
         Ok (if new_index \<noteq> None then t\<lparr>bt_root_index := new_index\<rparr> else t, env))
     else Ok (t, env)))"

end
