(* ===== verification/Btree_Table.thy ===== *)
theory Btree_Table
  imports Btree_Tree
begin

text \<open>
  Btree columns (src/src/btree/mod.rs \<open>BTreeTable\<close> and the planning part of \<open>BTreeChangeSet\<close>): the
  value tables of the column, the tree header in slot 1 of the first of them, and the operations a
  column offers to the database.
\<close>

record btree_table =
  bc_id :: u8
  bc_tables :: "value_table list"
  bc_ref_counted :: bool
  bc_compression :: compress

definition encode_header :: "btree_header \<Rightarrow> bytes result" where
  "encode_header h = and_then (write_header h (entry_new [])) (\<lambda>e. Ok (en_buf e))"

text \<open>The table after a failed initialisation is lost with the error.\<close>

definition bc_open :: "u8 \<Rightarrow> value_table list \<Rightarrow> options \<Rightarrow> metadata \<Rightarrow> btree_table result" where
  "bc_open i values opt meta =
     (let size_tier = unat (addr_size_tier HEADER_ADDRESS) in
      and_then (assert_r (size_tier < length values)) (\<lambda>_.
      and_then
        (if is_init (values ! size_tier) then Ok values
         else
           and_then (encode_header \<lparr>bh_root = NULL_ADDRESS, bh_depth = 0\<rparr>) (\<lambda>entry.
           and_then (fst (init_with_entry (values ! size_tier) entry)) (\<lambda>vt.
             Ok (values[size_tier := vt])))) (\<lambda>values.
      and_then (assert_r (unat i < length (md_columns meta))) (\<lambda>_.
      let col_options = md_columns meta ! unat i in
      Ok \<lparr>bc_id = i, bc_tables = values, bc_ref_counted = co_ref_counted col_options,
          bc_compression = compress_new (co_compression col_options)
            (case map_of (op_compression_threshold opt) i of
               Some t \<Rightarrow> t | None \<Rightarrow> DEFAULT_COMPRESSION_THRESHOLD)\<rparr>))))"

definition bc_locked :: "btree_table \<Rightarrow> tables_ref" where
  "bc_locked bc =
     \<lparr>tr_tables = bc_tables bc, tr_compression = bc_compression bc, tr_col = bc_id bc,
      tr_preimage = False, tr_ref_counted = bc_ref_counted bc\<rparr>"

definition get_at_value_index ::
    "codec \<Rightarrow> btree_table \<Rightarrow> table_key_query \<Rightarrow> address \<Rightarrow> log_query \<Rightarrow> (u8 \<times> bytes) option result" where
  "get_at_value_index cd bc q address lq = get_value cd q address (bc_locked bc) lq"

definition bc_flush :: "btree_table \<Rightarrow> btree_table" where
  "bc_flush bc = bc\<lparr>bc_tables := map (\<lambda>t. t\<lparr>vt_file := tf_flush (vt_file t)\<rparr>) (bc_tables bc)\<rparr>"

definition bc_get :: "codec \<Rightarrow> bytes \<Rightarrow> log_query \<Rightarrow> tables_ref \<Rightarrow> bytes option result" where
  "bc_get cd k lq values =
     and_then (btree_header_of cd lq values) (\<lambda>h.
     if bh_root h = NULL_ADDRESS then Ok None
     else btree_get cd \<lparr>bt_depth = bh_depth h, bt_root_index = Some (bh_root h), bt_record_id = 0\<rparr> k
            values lq)"

definition bc_enact_plan ::
    "btree_table \<Rightarrow> log_action \<Rightarrow> log_reader \<Rightarrow> (btree_table \<times> log_reader) result" where
  "bc_enact_plan bc action r =
     (case action of
        InsertValue table index \<Rightarrow>
          (let tier = unat (table_id_size_tier table) in
           and_then (assert_r (tier < length (bc_tables bc))) (\<lambda>_.
           and_then (vt_enact_plan (bc_tables bc ! tier) index r) (\<lambda>(vt, r).
             Ok (bc\<lparr>bc_tables := (bc_tables bc)[tier := vt]\<rparr>, r))))
      | _ \<Rightarrow> Panic)"

definition bc_validate_plan :: "btree_table \<Rightarrow> log_action \<Rightarrow> log_reader \<Rightarrow> log_reader result" where
  "bc_validate_plan bc action r =
     (case action of
        InsertValue table index \<Rightarrow>
          (let tier = unat (table_id_size_tier table) in
           and_then (assert_r (tier < length (bc_tables bc))) (\<lambda>_.
             vt_validate_plan (bc_tables bc ! tier) index r))
      | _ \<Rightarrow> Err (Corruption ''Unexpected log action''))"

definition bc_complete_plan :: "btree_table \<Rightarrow> log_writer \<Rightarrow> btree_table \<times> log_writer" where
  "bc_complete_plan bc w =
     (let (vts, w) = complete_plans (bc_tables bc) w in (bc\<lparr>bc_tables := vts\<rparr>, w))"

definition bc_refresh_metadata :: "btree_table \<Rightarrow> btree_table result" where
  "bc_refresh_metadata bc = and_then (refresh_tables (bc_tables bc)) (\<lambda>vts. Ok (bc\<lparr>bc_tables := vts\<rparr>))"

text \<open>
  \<open>BTreeChangeSet::write_plan\<close>. The operations are sorted by key, stably; their number is added to
  \<open>ops\<close>.
\<close>

definition bc_write_plan ::
    "codec \<Rightarrow> changes \<Rightarrow> btree_table \<Rightarrow> log_writer \<Rightarrow> u64 \<Rightarrow> (btree_table \<times> log_writer \<times> u64) result" where
  "bc_write_plan cd changes bc w ops =
     (let locked = bc_locked bc in
      and_then (btree_open cd locked (writer_query w) (lw_record_id w)) (\<lambda>tree.
      let old_header = \<lparr>bh_root = root_or_null tree, bh_depth = bt_depth tree\<rparr>;
          changes = sort_key op_key changes in
      and_then (write_sorted_changes cd tree changes (locked, w)) (\<lambda>(tree, env).
      let header = \<lparr>bh_root = root_or_null tree, bh_depth = bt_depth tree\<rparr> in
      and_then
        (if old_header \<noteq> header then
           and_then (encode_header header) (\<lambda>entry.
           and_then (tree_existing cd HEADER_ADDRESS (Set () (take BTREE_HEADER_SIZE entry)) False env)
             (\<lambda>(_, env). Ok env))
         else Ok env) (\<lambda>env.
        Ok (bc\<lparr>bc_tables := tr_tables (fst env)\<rparr>, snd env, ops + word_of_nat (length changes))))))"

end
