(* ===== verification/Btree_Iter.thy ===== *)
theory Btree_Iter
  imports Btree_Table
begin

text \<open>
  Iteration over a btree column (src/src/btree/iter.rs): a stack of nodes from the root down with a
  position in each, and an iterator that merges the entries of the tree with the commit overlay.

  \<open>state\<close> of the source is a vector whose last element is the top of the stack; here the top is
  the head of the list. The table, the log overlays and the commit overlay are behind references
  in the source and arguments here, read anew at every call.
\<close>

section \<open>Data\<close>

datatype iter_direction = Backward | Forward

datatype seek_to = SeekInclude bytes | SeekExclude bytes | SeekLast

definition seek_key :: "seek_to \<Rightarrow> bytes option" where
  "seek_key s = (case s of SeekInclude k \<Rightarrow> Some k | SeekExclude k \<Rightarrow> Some k | SeekLast \<Rightarrow> None)"

datatype last_key = LkStart | LkEnd | LkAt bytes | LkSeeked bytes

datatype last_index = LiSeeked nat | LiAt nat | LiBefore nat | LiDescend nat

type_synonym iter_stack = "(last_index \<times> node) list"

record btree_iter_state =
  bi_state :: iter_stack
  bi_record_id :: u64

record pending_backend =
  pb_next_item :: "(bytes \<times> bytes) option"
  pb_direction :: iter_direction

record btree_iterator =
  it_tree :: btree
  it_iter :: btree_iter_state
  it_col :: u8
  it_pending :: "pending_backend option"
  it_last_key :: last_key

text \<open>\<open>BTreeCommitOverlay\<close>: record id and value (or removal) by key. A range of a \<open>BTreeMap\<close> is sorted.\<close>

type_synonym btree_overlay = "(bytes \<times> (u64 \<times> bytes option)) list"

definition overlay_range :: "(bytes \<Rightarrow> bool) \<Rightarrow> btree_overlay \<Rightarrow> (bytes \<times> bytes option) list" where
  "overlay_range p m = map (\<lambda>(k, (_, v)). (k, v)) (filter (\<lambda>(k, _). p k) (sort_key fst m))"

definition first_of :: "'a list \<Rightarrow> 'a option" where
  "first_of xs = (case xs of [] \<Rightarrow> None | x # _ \<Rightarrow> Some x)"

definition btree_next :: "btree_overlay \<Rightarrow> last_key \<Rightarrow> (bytes \<times> bytes option) option" where
  "btree_next m last_key =
     (case last_key of
        LkStart \<Rightarrow> first_of (overlay_range (\<lambda>_. True) m)
      | LkEnd \<Rightarrow> None
      | LkAt k \<Rightarrow> first_of (overlay_range (\<lambda>k'. k < k') m)
      | LkSeeked k \<Rightarrow> first_of (overlay_range (\<lambda>k'. k \<le> k') m))"

definition btree_prev :: "btree_overlay \<Rightarrow> last_key \<Rightarrow> (bytes \<times> bytes option) option" where
  "btree_prev m last_key =
     (case last_key of
        LkEnd \<Rightarrow> first_of (rev (overlay_range (\<lambda>_. True) m))
      | LkStart \<Rightarrow> None
      | LkAt k \<Rightarrow> first_of (rev (overlay_range (\<lambda>k'. k' < k) m))
      | LkSeeked k \<Rightarrow> first_of (rev (overlay_range (\<lambda>k'. k' \<le> k) m)))"

section \<open>Positions in the tree\<close>

text \<open>\<open>Node::seek\<close>, which descends at most \<open>depth\<close> levels.\<close>

primrec node_seek ::
    "nat \<Rightarrow> codec \<Rightarrow> node \<Rightarrow> seek_to \<Rightarrow> tables_ref \<Rightarrow> log_query \<Rightarrow> iter_stack \<Rightarrow> iter_stack result" where
  "node_seek 0 = (\<lambda>cd from seek_to values lq stack.
     let (at, i) = (case seek_key seek_to of
                      Some k \<Rightarrow> node_position from k
                    | None \<Rightarrow> (False, case last_separator_index from of Some i \<Rightarrow> i + 1 | None \<Rightarrow> 0))
     in if at then
          (case seek_to of
             SeekExclude _ \<Rightarrow> Ok ((LiAt i, from) # stack)
           | SeekInclude _ \<Rightarrow> Ok ((LiSeeked i, from) # stack)
           | SeekLast \<Rightarrow> Panic)
        else Ok ((LiBefore i, from) # stack))"
| "node_seek (Suc d) = (\<lambda>cd from seek_to values lq stack.
     let (at, i) = (case seek_key seek_to of
                      Some k \<Rightarrow> node_position from k
                    | None \<Rightarrow> (False, case last_separator_index from of Some i \<Rightarrow> i + 1 | None \<Rightarrow> 0))
     in if at then
          (case seek_to of
             SeekExclude _ \<Rightarrow> Ok ((LiAt i, from) # stack)
           | SeekInclude _ \<Rightarrow> Ok ((LiSeeked i, from) # stack)
           | SeekLast \<Rightarrow> Panic)
        else
          and_then (fetch_child cd from i values lq) (\<lambda>c.
          case c of
            Some c \<Rightarrow> node_seek d cd c seek_to values lq ((LiDescend i, from) # stack)
          | None \<Rightarrow> Err (Corruption ''A btree node is missing a child'')))"

definition node_start :: "node \<Rightarrow> iter_direction \<Rightarrow> bool \<Rightarrow> last_index" where
  "node_start n direction is_leaf =
     (let ix = (case direction of
                  Forward \<Rightarrow> 0
                | Backward \<Rightarrow> (case last_separator_index n of Some i \<Rightarrow> i + 1 | None \<Rightarrow> 0))
      in if is_leaf then LiBefore ix else LiDescend ix)"

text \<open>
  Leave a node: the next position of the nearest ancestor that has one. True if there is none. \<open>Panic\<close> is
  the debug assertion that an ancestor was descended from; a build without it clears the stack there.
\<close>

fun iter_exit :: "iter_direction \<Rightarrow> iter_stack \<Rightarrow> (bool \<times> iter_stack) result" where
  "iter_exit direction [] = Ok (True, [])"
| "iter_exit direction [_] = Ok (True, [])"
| "iter_exit direction (_ # (ix, n) # rest) =
     (case ix of
        LiDescend c \<Rightarrow>
          (case direction of
             Backward \<Rightarrow>
               (if c = 0 then iter_exit direction ((ix, n) # rest)
                else Ok (False, (LiBefore c, n) # rest))
           | Forward \<Rightarrow>
               (if c = ORDER \<or> sp_separator (nd_separators n ! c) = None
                then iter_exit direction ((ix, n) # rest)
                else Ok (False, (LiBefore c, n) # rest)))
      | _ \<Rightarrow> Panic)"

type_synonym iter_item = "(bytes \<times> bytes) option"

text \<open>\<open>if self.exit(direction) { break } else { continue }\<close>.\<close>

definition exit_or_go_on ::
    "iter_direction \<Rightarrow> iter_stack \<Rightarrow> (iter_stack + (iter_item \<times> iter_stack)) result" where
  "exit_or_go_on direction st =
     and_then (iter_exit direction st) (\<lambda>(ended, st). Ok (if ended then Inr (None, st) else Inl st))"

text \<open>Where to go from a position: \<open>None\<close> leaves the node.\<close>

definition next_index :: "iter_direction \<Rightarrow> bool \<Rightarrow> last_index \<Rightarrow> last_index option" where
  "next_index direction is_leaf ix =
     (case (direction, ix) of
        (_, LiDescend sep) \<Rightarrow> Some (LiDescend sep)
      | (_, LiSeeked sep) \<Rightarrow> Some (LiAt sep)
      | (Forward, LiAt sep) \<Rightarrow>
          (if is_leaf \<and> sep + 1 = ORDER then None
           else if is_leaf then Some (LiAt (sep + 1)) else Some (LiDescend (sep + 1)))
      | (Forward, LiBefore sep) \<Rightarrow> (if sep = ORDER then None else Some (LiAt sep))
      | (Backward, LiAt sep) \<Rightarrow>
          (if is_leaf \<and> sep = 0 then None
           else if is_leaf then Some (LiAt (sep - 1)) else Some (LiDescend sep))
      | (Backward, LiBefore sep) \<Rightarrow> (if sep = 0 then None else Some (LiAt (sep - 1))))"

definition iter_next_body ::
    "codec \<Rightarrow> btree \<Rightarrow> btree_table \<Rightarrow> log_query \<Rightarrow> iter_direction \<Rightarrow> iter_stack
       \<Rightarrow> (iter_stack + (iter_item \<times> iter_stack)) result" where
  "iter_next_body cd t bc lq direction st =
     (case st of
        [] \<Rightarrow> Ok (Inr (None, st))
      | (ix, n) # rest \<Rightarrow>
          (let is_leaf = (unat (bt_depth t) + 1 = length st) in
           case next_index direction is_leaf ix of
             None \<Rightarrow> exit_or_go_on direction st
           | Some (LiAt at) \<Rightarrow>
               and_then (separator_address n at) (\<lambda>a.
               case a of
                 Some address \<Rightarrow>
                   and_then (separator_key n at) (\<lambda>k.
                   and_then (unwrap k) (\<lambda>k.
                   and_then (get_at_value_index cd bc (Fetch False) address lq) (\<lambda>r.
                     Ok (Inr (map_option (\<lambda>r. (k, snd r)) r, (LiAt at, n) # rest)))))
               | None \<Rightarrow> exit_or_go_on direction st)
           | Some (LiDescend child_ix) \<Rightarrow>
               and_then (fetch_child cd n child_ix (bc_locked bc) lq) (\<lambda>c.
               case c of
                 Some c \<Rightarrow>
                   (let is_child_leaf = (unat (bt_depth t) = length st)
                    in Ok (Inl ((node_start c direction is_child_leaf, c) # (LiDescend child_ix, n) # rest)))
               | None \<Rightarrow> exit_or_go_on direction st)
           | Some _ \<Rightarrow> Panic))"

definition iter_next ::
    "codec \<Rightarrow> btree \<Rightarrow> btree_table \<Rightarrow> log_query \<Rightarrow> iter_direction \<Rightarrow> btree_iter_state
       \<Rightarrow> (iter_item \<times> btree_iter_state) result" where
  "iter_next cd t bc lq direction iter =
     and_then
       (if bi_state iter = [] then
          and_then (fetch_root cd (root_or_null t) (bc_locked bc) lq) (\<lambda>root.
            Ok [(node_start root direction (bt_depth t = 0), root)])
        else Ok (bi_state iter)) (\<lambda>st.
     and_then (loop_r (iter_next_body cd t bc lq direction) st) (\<lambda>(item, st).
       Ok (item, iter\<lparr>bi_state := st\<rparr>)))"

definition iter_seek ::
    "codec \<Rightarrow> btree \<Rightarrow> btree_table \<Rightarrow> log_query \<Rightarrow> seek_to \<Rightarrow> btree_iter_state \<Rightarrow> btree_iter_state result" where
  "iter_seek cd t bc lq seek_to iter =
     and_then (fetch_root cd (root_or_null t) (bc_locked bc) lq) (\<lambda>root.
     and_then (node_seek (unat (bt_depth t)) cd root seek_to (bc_locked bc) lq []) (\<lambda>st.
       Ok (iter\<lparr>bi_state := st\<rparr>)))"

definition iter_seek_to_last ::
    "codec \<Rightarrow> btree \<Rightarrow> btree_table \<Rightarrow> log_query \<Rightarrow> btree_iter_state \<Rightarrow> btree_iter_state result" where
  "iter_seek_to_last cd t bc lq iter = iter_seek cd t bc lq SeekLast iter"

section \<open>The iterator\<close>

definition iterator_new :: "codec \<Rightarrow> btree_table \<Rightarrow> u8 \<Rightarrow> log_overlays \<Rightarrow> btree_iterator result" where
  "iterator_new cd bc col ov =
     (let record_id = last_record_id ov col in
      and_then (btree_open cd (bc_locked bc) (overlays_query ov) record_id) (\<lambda>tree.
        Ok \<lparr>it_tree = tree, it_iter = \<lparr>bi_state = [], bi_record_id = bt_record_id tree\<rparr>, it_col = col,
            it_pending = None, it_last_key = LkStart\<rparr>))"

text \<open>The tree is opened again when a record has changed the column.\<close>

definition reopen_tree ::
    "codec \<Rightarrow> btree_table \<Rightarrow> log_query \<Rightarrow> u64 \<Rightarrow> btree_iterator \<Rightarrow> btree_iterator result" where
  "reopen_tree cd bc lq record_id it =
     (if record_id \<noteq> bt_record_id (it_tree it) then
        and_then (btree_open cd (bc_locked bc) lq record_id) (\<lambda>tree.
          Ok (it\<lparr>it_tree := tree, it_iter := (it_iter it)\<lparr>bi_record_id := record_id\<rparr>\<rparr>))
      else Ok it)"

definition seek_backend ::
    "codec \<Rightarrow> seek_to \<Rightarrow> u64 \<Rightarrow> btree_table \<Rightarrow> log_query \<Rightarrow> btree_iterator \<Rightarrow> btree_iterator result" where
  "seek_backend cd seek_to record_id bc lq it =
     and_then (reopen_tree cd bc lq record_id it) (\<lambda>it.
     and_then (iter_seek cd (it_tree it) bc lq seek_to (it_iter it)) (\<lambda>iter.
       Ok (it\<lparr>it_iter := iter\<rparr>)))"

definition seek_backend_to_last ::
    "codec \<Rightarrow> u64 \<Rightarrow> btree_table \<Rightarrow> log_query \<Rightarrow> btree_iterator \<Rightarrow> btree_iterator result" where
  "seek_backend_to_last cd record_id bc lq it =
     and_then (reopen_tree cd bc lq record_id it) (\<lambda>it.
     and_then (iter_seek_to_last cd (it_tree it) bc lq (it_iter it)) (\<lambda>iter.
       Ok (it\<lparr>it_iter := iter\<rparr>)))"

definition iterator_seek ::
    "codec \<Rightarrow> btree_table \<Rightarrow> log_overlays \<Rightarrow> bytes \<Rightarrow> btree_iterator \<Rightarrow> btree_iterator result" where
  "iterator_seek cd bc ov k it =
     seek_backend cd (SeekInclude k) (last_record_id ov (it_col it)) bc (overlays_query ov)
       (it\<lparr>it_last_key := LkSeeked k, it_pending := None\<rparr>)"

definition seek_to_first :: "codec \<Rightarrow> btree_table \<Rightarrow> log_overlays \<Rightarrow> btree_iterator \<Rightarrow> btree_iterator result" where
  "seek_to_first cd bc ov it = iterator_seek cd bc ov [] it"

definition seek_to_last :: "codec \<Rightarrow> btree_table \<Rightarrow> log_overlays \<Rightarrow> btree_iterator \<Rightarrow> btree_iterator result" where
  "seek_to_last cd bc ov it =
     seek_backend_to_last cd (last_record_id ov (it_col it)) bc (overlays_query ov)
       (it\<lparr>it_last_key := LkEnd\<rparr>)"

definition next_backend ::
    "codec \<Rightarrow> u64 \<Rightarrow> btree_table \<Rightarrow> log_query \<Rightarrow> iter_direction \<Rightarrow> btree_iterator
       \<Rightarrow> (iter_item \<times> btree_iterator) result" where
  "next_backend cd record_id bc lq direction it =
     and_then
       (if record_id \<noteq> bt_record_id (it_tree it) then
          and_then (btree_open cd (bc_locked bc) lq record_id) (\<lambda>tree.
          and_then
            (case it_last_key it of
               LkAt k \<Rightarrow> iter_seek cd tree bc lq (SeekExclude k) (it_iter it)
             | LkSeeked k \<Rightarrow> iter_seek cd tree bc lq (SeekInclude k) (it_iter it)
             | LkStart \<Rightarrow> iter_seek cd tree bc lq (SeekInclude []) (it_iter it)
             | LkEnd \<Rightarrow> iter_seek_to_last cd tree bc lq (it_iter it)) (\<lambda>iter.
            Ok (it\<lparr>it_tree := tree, it_iter := iter\<lparr>bi_record_id := record_id\<rparr>\<rparr>)))
        else Ok it) (\<lambda>it.
     and_then (iter_next cd (it_tree it) bc lq direction (it_iter it)) (\<lambda>(item, iter).
       Ok (item, it\<lparr>it_iter := iter\<rparr>)))"

text \<open>
  What to do with the next entry of the commit overlay and the next entry of the tree: the item
  that is returned, or \<open>Inl k\<close> to go on behind the removed key \<open>k\<close>; and the new pending entry.
\<close>

definition merge_next ::
    "iter_direction \<Rightarrow> (bytes \<times> bytes option) option \<Rightarrow> iter_item
       \<Rightarrow> (bytes + iter_item) \<times> pending_backend option" where
  "merge_next direction next_commit next_tree =
     (case (next_commit, next_tree) of
        (Some (ck, cv), Some (bk, bv)) \<Rightarrow>
          (if ck = bk then
             (case cv of Some v \<Rightarrow> (Inr (Some (bk, v)), None) | None \<Rightarrow> (Inl ck, None))
           else if (case direction of Backward \<Rightarrow> bk < ck | Forward \<Rightarrow> ck < bk) then
             (case cv of Some v \<Rightarrow> Inr (Some (ck, v)) | None \<Rightarrow> Inl ck,
              Some \<lparr>pb_next_item = Some (bk, bv), pb_direction = direction\<rparr>)
           else (Inr (Some (bk, bv)), None))
      | (Some (ck, cv), None) \<Rightarrow>
          (case cv of Some v \<Rightarrow> Inr (Some (ck, v)) | None \<Rightarrow> Inl ck,
           Some \<lparr>pb_next_item = None, pb_direction = direction\<rparr>)
      | (None, Some (bk, bv)) \<Rightarrow> (Inr (Some (bk, bv)), None)
      | (None, None) \<Rightarrow> (Inr None, Some \<lparr>pb_next_item = None, pb_direction = direction\<rparr>))"

definition iter_inner_body ::
    "codec \<Rightarrow> btree_table \<Rightarrow> log_overlays \<Rightarrow> btree_overlay option \<Rightarrow> iter_direction \<Rightarrow> btree_iterator
       \<Rightarrow> (btree_iterator + (iter_item \<times> btree_iterator)) result" where
  "iter_inner_body cd bc ov overlay direction it =
     (let next_commit =
            (case overlay of
               None \<Rightarrow> None
             | Some m \<Rightarrow>
                 (case direction of
                    Forward \<Rightarrow> btree_next m (it_last_key it)
                  | Backward \<Rightarrow> btree_prev m (it_last_key it)));
          record_id = last_record_id ov (it_col it);
          pending = (if record_id \<noteq> bi_record_id (it_iter it) then None else it_pending it);
          it = it\<lparr>it_pending := None\<rparr>
      in and_then
           (case pending of
              Some p \<Rightarrow>
                (if pb_direction p = direction then Ok (pb_next_item p, it)
                 else next_backend cd record_id bc (overlays_query ov) direction it)
            | None \<Rightarrow> next_backend cd record_id bc (overlays_query ov) direction it) (\<lambda>(next_tree, it).
         let (r, pending) = merge_next direction next_commit next_tree;
             it = it\<lparr>it_pending := pending\<rparr>
         in Ok (case r of
                  Inl k \<Rightarrow> Inl (it\<lparr>it_last_key := LkAt k\<rparr>)
                | Inr (Some (k, v)) \<Rightarrow> Inr (Some (k, v), it\<lparr>it_last_key := LkAt k\<rparr>)
                | Inr None \<Rightarrow>
                    Inr (None, it\<lparr>it_last_key := (case direction of Backward \<Rightarrow> LkStart | Forward \<Rightarrow> LkEnd)\<rparr>))))"

definition iter_inner ::
    "codec \<Rightarrow> btree_table \<Rightarrow> log_overlays \<Rightarrow> btree_overlay option \<Rightarrow> iter_direction \<Rightarrow> btree_iterator
       \<Rightarrow> (iter_item \<times> btree_iterator) result" where
  "iter_inner cd bc ov overlay direction it = loop_r (iter_inner_body cd bc ov overlay direction) it"

definition iterator_next ::
    "codec \<Rightarrow> btree_table \<Rightarrow> log_overlays \<Rightarrow> btree_overlay option \<Rightarrow> btree_iterator
       \<Rightarrow> (iter_item \<times> btree_iterator) result" where
  "iterator_next cd bc ov overlay it = iter_inner cd bc ov overlay Forward it"

definition iterator_prev ::
    "codec \<Rightarrow> btree_table \<Rightarrow> log_overlays \<Rightarrow> btree_overlay option \<Rightarrow> btree_iterator
       \<Rightarrow> (iter_item \<times> btree_iterator) result" where
  "iterator_prev cd bc ov overlay it = iter_inner cd bc ov overlay Backward it"

end
