(* ===== verification/Db_Overlay.thy ===== *)
theory Db_Overlay
  imports Btree_Iter
begin

text \<open>
  Columns and change sets of a database (src/src/db.rs \<open>CommitOverlay\<close>, \<open>CommitChangeSet\<close>,
  \<open>IndexedChangeSet\<close>; \<open>BTreeChangeSet\<close> of src/src/btree/mod.rs; the \<open>Column\<close> enum of
  src/src/column.rs). A commit is a set of operations per column; the commit overlay of a column
  answers lookups for the keys of the commits that are still queued.

  A \<open>HashMap\<close> or \<open>BTreeMap\<close> is an association list with distinct keys; the iteration order of a
  \<open>HashMap\<close> is the order of the list. Reference counted buffers are their bytes. An operation that
  can fail half way through returns what it has changed beside the result.
\<close>

section \<open>The two kinds of columns\<close>

datatype column = Hash hash_column | Tree btree_table

definition column_open ::
    "(u16 \<Rightarrow> bytes option) \<Rightarrow> (u16 \<Rightarrow> bytes option) \<Rightarrow> u8 \<Rightarrow> options \<Rightarrow> metadata \<Rightarrow> column result" where
  "column_open vfiles ifiles col opt meta =
     and_then (assert_r (unat col < length (md_columns meta))) (\<lambda>_.
     let column_options = md_columns meta ! unat col in
     and_then (open_tables vfiles col column_options (md_version meta) [0..<SIZE_TIERS]) (\<lambda>values.
     if co_btree_index column_options
     then and_then (bc_open col values opt meta) (\<lambda>bc. Ok (Tree bc))
     else and_then (hc_open ifiles col values opt meta) (\<lambda>hc. Ok (Hash hc))))"

definition column_complete_plan :: "column \<Rightarrow> log_writer \<Rightarrow> column \<times> log_writer" where
  "column_complete_plan c w =
     (case c of
        Hash hc \<Rightarrow> (let (hc, w) = hc_complete_plan hc w in (Hash hc, w))
      | Tree bc \<Rightarrow> (let (bc, w) = bc_complete_plan bc w in (Tree bc, w)))"

definition column_validate_plan :: "column \<Rightarrow> log_action \<Rightarrow> log_reader \<Rightarrow> column \<times> log_reader result" where
  "column_validate_plan c action r =
     (case c of
        Hash hc \<Rightarrow> (let (hc, r) = hc_validate_plan hc action r in (Hash hc, r))
      | Tree bc \<Rightarrow> (Tree bc, bc_validate_plan bc action r))"

definition column_enact_plan :: "column \<Rightarrow> log_action \<Rightarrow> log_reader \<Rightarrow> (column \<times> log_reader) result" where
  "column_enact_plan c action r =
     (case c of
        Hash hc \<Rightarrow> and_then (hc_enact_plan hc action r) (\<lambda>(hc, r). Ok (Hash hc, r))
      | Tree bc \<Rightarrow> and_then (bc_enact_plan bc action r) (\<lambda>(bc, r). Ok (Tree bc, r)))"

definition column_flush :: "column \<Rightarrow> column" where
  "column_flush c = (case c of Hash hc \<Rightarrow> Hash (hc_flush hc) | Tree bc \<Rightarrow> Tree (bc_flush bc))"

definition column_refresh_metadata :: "column \<Rightarrow> column result" where
  "column_refresh_metadata c =
     (case c of
        Hash hc \<Rightarrow> and_then (hc_refresh_metadata hc) (\<lambda>hc. Ok (Hash hc))
      | Tree bc \<Rightarrow> and_then (bc_refresh_metadata bc) (\<lambda>bc. Ok (Tree bc)))"

definition column_clear_stats :: "column \<Rightarrow> column result" where
  "column_clear_stats c =
     (case c of Hash hc \<Rightarrow> and_then (hc_clear_stats hc) (\<lambda>hc. Ok (Hash hc)) | Tree bc \<Rightarrow> Ok (Tree bc))"

definition column_stat_summary :: "column \<Rightarrow> stat_summary option" where
  "column_stat_summary c = (case c of Hash hc \<Rightarrow> Some (hc_stat_summary hc) | Tree _ \<Rightarrow> None)"

section \<open>The commit overlay\<close>

type_synonym indexed_overlay = "(key \<times> (u64 \<times> bytes option)) list"

record commit_overlay =
  cv_indexed :: indexed_overlay
  cv_btree :: btree_overlay

definition commit_overlay_new :: commit_overlay where
  "commit_overlay_new = \<lparr>cv_indexed = [], cv_btree = []\<rparr>"

definition cv_get :: "commit_overlay \<Rightarrow> key \<Rightarrow> bytes option option" where
  "cv_get ov k = map_option snd (map_of (cv_indexed ov) k)"

definition cv_get_size :: "commit_overlay \<Rightarrow> key \<Rightarrow> u32 option option" where
  "cv_get_size ov k = map_option (map_option (\<lambda>v. word_of_nat (length v))) (cv_get ov k)"

definition cv_btree_get :: "commit_overlay \<Rightarrow> bytes \<Rightarrow> bytes option option" where
  "cv_btree_get ov k = map_option snd (map_of (cv_btree ov) k)"

section \<open>Change sets\<close>

record indexed_change_set =
  ic_col :: u8
  ic_changes :: "(key, bytes) operation list"

record btree_change_set =
  bs_col :: u8
  bs_changes :: changes

record commit_change_set =
  cs_indexed :: "(u8 \<times> indexed_change_set) list"
  cs_btree :: "(u8 \<times> btree_change_set) list"

definition hash_operation ::
    "(bytes \<Rightarrow> key result) \<Rightarrow> (bytes, bytes) operation \<Rightarrow> (key, bytes) operation result" where
  "hash_operation h op =
     (case op of
        Set k v \<Rightarrow> and_then (h k) (\<lambda>k. Ok (Set k v))
      | Dereference k \<Rightarrow> and_then (h k) (\<lambda>k. Ok (Dereference k))
      | Reference k \<Rightarrow> and_then (h k) (\<lambda>k. Ok (Reference k)))"

definition indexed_push ::
    "hashers \<Rightarrow> options \<Rightarrow> u32 \<Rightarrow> (bytes, bytes) operation \<Rightarrow> indexed_change_set \<Rightarrow> indexed_change_set result" where
  "indexed_push hs opt db_version change s =
     (let salt = (case op_salt opt of Some s \<Rightarrow> s | None \<Rightarrow> replicate 32 0) in
      and_then (assert_r (unat (ic_col s) < length (op_columns opt))) (\<lambda>_.
      and_then (hash_operation
                  (\<lambda>k. hash_key hs k salt (co_uniform (op_columns opt ! unat (ic_col s))) db_version) change)
        (\<lambda>change. Ok (s\<lparr>ic_changes := ic_changes s @ [change]\<rparr>))))"

definition btree_push :: "(bytes, bytes) operation \<Rightarrow> btree_change_set \<Rightarrow> btree_change_set" where
  "btree_push change s = s\<lparr>bs_changes := bs_changes s @ [change]\<rparr>"

text \<open>\<open>copy_to_overlay\<close> of both kinds, with the size of the commit so far.\<close>

fun copy_indexed ::
    "bool \<Rightarrow> u64 \<Rightarrow> (key, bytes) operation list \<Rightarrow> indexed_overlay \<times> nat \<Rightarrow> unit result \<times> indexed_overlay \<times> nat" where
  "copy_indexed ref_counted record_id [] (ov, bytes) = (Ok (), ov, bytes)"
| "copy_indexed ref_counted record_id (Set k v # ops) (ov, bytes) =
     copy_indexed ref_counted record_id ops
       (AList.update k (record_id, Some v) ov, bytes + length k + length v)"
| "copy_indexed ref_counted record_id (Dereference k # ops) (ov, bytes) =
     copy_indexed ref_counted record_id ops
       (if \<not> ref_counted then AList.update k (record_id, None) ov else ov, bytes)"
| "copy_indexed ref_counted record_id (Reference k # ops) (ov, bytes) =
     (if \<not> ref_counted then (Err (InvalidInput ''No Rc for column''), ov, bytes)
      else copy_indexed ref_counted record_id ops (ov, bytes))"

fun copy_btree ::
    "bool \<Rightarrow> u64 \<Rightarrow> changes \<Rightarrow> btree_overlay \<times> nat \<Rightarrow> unit result \<times> btree_overlay \<times> nat" where
  "copy_btree ref_counted record_id [] (ov, bytes) = (Ok (), ov, bytes)"
| "copy_btree ref_counted record_id (Set k v # ops) (ov, bytes) =
     copy_btree ref_counted record_id ops
       (AList.update k (record_id, Some v) ov, bytes + length k + length v)"
| "copy_btree ref_counted record_id (Dereference k # ops) (ov, bytes) =
     copy_btree ref_counted record_id ops
       (if \<not> ref_counted then (AList.update k (record_id, None) ov, bytes + length k) else (ov, bytes))"
| "copy_btree ref_counted record_id (Reference k # ops) (ov, bytes) =
     (if \<not> ref_counted then (Err (InvalidInput ''No Rc for column''), ov, bytes)
      else copy_btree ref_counted record_id ops (ov, bytes))"

type_synonym overlay_state = "commit_overlay list \<times> nat"

definition indexed_copy_to_overlay ::
    "options \<Rightarrow> u64 \<Rightarrow> u8 \<times> indexed_change_set \<Rightarrow> overlay_state \<Rightarrow> unit result \<times> overlay_state" where
  "indexed_copy_to_overlay opt record_id = (\<lambda>(c, s) (ovs, bytes).
     if \<not> (unat c < length ovs \<and> unat (ic_col s) < length (op_columns opt)) then (Panic, ovs, bytes)
     else
       (let (r, ov, bytes) =
              copy_indexed (co_ref_counted (op_columns opt ! unat (ic_col s))) record_id (ic_changes s)
                (cv_indexed (ovs ! unat c), bytes)
        in (r, ovs[unat c := (ovs ! unat c)\<lparr>cv_indexed := ov\<rparr>], bytes)))"

definition btree_copy_to_overlay ::
    "options \<Rightarrow> u64 \<Rightarrow> u8 \<times> btree_change_set \<Rightarrow> overlay_state \<Rightarrow> unit result \<times> overlay_state" where
  "btree_copy_to_overlay opt record_id = (\<lambda>(c, s) (ovs, bytes).
     if \<not> (unat c < length ovs \<and> unat (bs_col s) < length (op_columns opt)) then (Panic, ovs, bytes)
     else
       (let (r, ov, bytes) =
              copy_btree (co_ref_counted (op_columns opt ! unat (bs_col s))) record_id (bs_changes s)
                (cv_btree (ovs ! unat c), bytes)
        in (r, ovs[unat c := (ovs ! unat c)\<lparr>cv_btree := ov\<rparr>], bytes)))"

text \<open>Run a failing step on each element, keeping the state reached at the first failure.\<close>

fun for_each :: "('a \<Rightarrow> 's \<Rightarrow> unit result \<times> 's) \<Rightarrow> 'a list \<Rightarrow> 's \<Rightarrow> unit result \<times> 's" where
  "for_each f [] s = (Ok (), s)"
| "for_each f (x # xs) s = (let (r, s) = f x s in case r of Ok _ \<Rightarrow> for_each f xs s | _ \<Rightarrow> (r, s))"

definition copy_change_set ::
    "options \<Rightarrow> u64 \<Rightarrow> commit_change_set \<Rightarrow> overlay_state \<Rightarrow> unit result \<times> overlay_state" where
  "copy_change_set opt record_id cs st =
     (let (r, st) = for_each (indexed_copy_to_overlay opt record_id) (cs_indexed cs) st
      in case r of
           Ok _ \<Rightarrow> for_each (btree_copy_to_overlay opt record_id) (cs_btree cs) st
         | _ \<Rightarrow> (r, st))"

text \<open>\<open>clean_overlay\<close>: an entry goes only when the record that is done has written it.\<close>

definition remove_own :: "u64 \<Rightarrow> 'k \<Rightarrow> ('k \<times> (u64 \<times> 'v)) list \<Rightarrow> ('k \<times> (u64 \<times> 'v)) list" where
  "remove_own record_id k ov =
     (case map_of ov k of
        Some (r, _) \<Rightarrow> if r = record_id then AList.delete k ov else ov
      | None \<Rightarrow> ov)"

fun clean_indexed :: "u64 \<Rightarrow> (key, bytes) operation list \<Rightarrow> indexed_overlay \<Rightarrow> indexed_overlay" where
  "clean_indexed record_id [] ov = ov"
| "clean_indexed record_id (Set k v # ops) ov = clean_indexed record_id ops (remove_own record_id k ov)"
| "clean_indexed record_id (Dereference k # ops) ov = clean_indexed record_id ops (remove_own record_id k ov)"
| "clean_indexed record_id (Reference k # ops) ov = clean_indexed record_id ops ov"

fun clean_btree :: "u64 \<Rightarrow> changes \<Rightarrow> btree_overlay \<Rightarrow> btree_overlay" where
  "clean_btree record_id [] ov = ov"
| "clean_btree record_id (op # ops) ov = clean_btree record_id ops (remove_own record_id (op_key op) ov)"

definition clean_change_set :: "u64 \<Rightarrow> commit_change_set \<Rightarrow> commit_overlay list \<Rightarrow> commit_overlay list" where
  "clean_change_set record_id cs ovs =
     (let ovs = foldl (\<lambda>ovs (c, s). ovs[unat c := (ovs ! unat c)\<lparr>cv_indexed :=
                  clean_indexed record_id (ic_changes s) (cv_indexed (ovs ! unat c))\<rparr>]) ovs (cs_indexed cs)
      in foldl (\<lambda>ovs (c, s). ovs[unat c := (ovs ! unat c)\<lparr>cv_btree :=
                  clean_btree record_id (bs_changes s) (cv_btree (ovs ! unat c))\<rparr>]) ovs (cs_btree cs))"

section \<open>Planning a commit\<close>

text \<open>The operations are counted in \<open>ops\<close>; the flag says that an index has to be re-indexed.\<close>

fun plan_changes ::
    "codec \<Rightarrow> (key, bytes) operation list \<Rightarrow> hash_column \<Rightarrow> log_writer \<Rightarrow> u64 \<Rightarrow> bool
       \<Rightarrow> (hash_column \<times> log_writer \<times> u64 \<times> bool) result" where
  "plan_changes cd [] hc w ops reindex = Ok (hc, w, ops, reindex)"
| "plan_changes cd (op # rest) hc w ops reindex =
     and_then (hc_write_plan cd hc op w) (\<lambda>(outcome, hc, w).
       plan_changes cd rest hc w (ops + 1) (reindex \<or> outcome = NeedReindex))"

type_synonym commit_plan = "column list \<times> log_writer \<times> u64 \<times> bool"

definition indexed_write_plan ::
    "codec \<Rightarrow> u8 \<times> indexed_change_set \<Rightarrow> commit_plan \<Rightarrow> commit_plan result" where
  "indexed_write_plan cd = (\<lambda>(c, s) (cols, w, ops, reindex).
     and_then (assert_r (unat c < length cols)) (\<lambda>_.
     case cols ! unat c of
       Hash hc \<Rightarrow>
         and_then (plan_changes cd (ic_changes s) hc w ops reindex) (\<lambda>(hc, w, ops, reindex).
           Ok (cols[unat c := Hash hc], w, ops, reindex))
     | Tree _ \<Rightarrow> Ok (cols, w, ops, reindex)))"

definition btree_write_plan ::
    "codec \<Rightarrow> u8 \<times> btree_change_set \<Rightarrow> commit_plan \<Rightarrow> commit_plan result" where
  "btree_write_plan cd = (\<lambda>(c, s) (cols, w, ops, reindex).
     and_then (assert_r (unat c < length cols)) (\<lambda>_.
     case cols ! unat c of
       Hash _ \<Rightarrow> Err (InvalidConfiguration ''Not an indexed column.'')
     | Tree bc \<Rightarrow>
         and_then (bc_write_plan cd (bs_changes s) bc w ops) (\<lambda>(bc, w, ops).
           Ok (cols[unat c := Tree bc], w, ops, reindex))))"

fun complete_columns :: "column list \<Rightarrow> log_writer \<Rightarrow> column list \<times> log_writer" where
  "complete_columns [] w = ([], w)"
| "complete_columns (c # cs) w =
     (let (c, w) = column_complete_plan c w; (cs, w) = complete_columns cs w in (c # cs, w))"

definition plan_change_set ::
    "codec \<Rightarrow> commit_change_set \<Rightarrow> column list \<Rightarrow> log_writer \<Rightarrow> commit_plan result" where
  "plan_change_set cd cs cols w =
     and_then (foldl (\<lambda>r s. and_then r (indexed_write_plan cd s)) (Ok (cols, w, 0, False)) (cs_indexed cs)) (\<lambda>st.
     and_then (foldl (\<lambda>r s. and_then r (btree_write_plan cd s)) (Ok st) (cs_btree cs)) (\<lambda>(cols, w, ops, reindex).
       let (cols, w) = complete_columns cols w in Ok (cols, w, ops, reindex)))"

end
