(* ===== verification/Db.thy ===== *)
theory Db
  imports Db_Overlay Log_File
begin

text \<open>
  The database (src/src/db.rs \<open>DbInner\<close> and \<open>Db\<close>): a commit is queued and copied to the commit
  overlay; the queue is planned into log records; records are flushed, read back and enacted;
  finished log files are cleaned. Opening replays the log files that are left, closing drains all
  queues.

  Every field of \<open>DbInner\<close> that changes is a field of \<open>db_inner\<close>; a flag of a \<open>WaitCondvar\<close> is a
  \<open>bool\<close>. Operations are the code between two waits: \<open>commit_raw\<close> begins after the wait for room in
  the queue, \<open>process_commits\<close> after the wait for the log queue, and \<open>enact_logs\<close> ends before the
  wait for the clean-up of log files. None of these waits checks its condition again in a way that
  changes what is done next. The waits of the workers are in \<open>Db_Workers\<close>.

  An operation returns its result and the database. When planning or enacting a record fails, the
  columns stay as they were: a planned record that was not logged is not visible, an enacted one is
  covered by the log overlays, and the error ends all processing.
\<close>

section \<open>State\<close>

definition MAX_COMMIT_QUEUE_BYTES :: nat where [simp]: "MAX_COMMIT_QUEUE_BYTES = 16 * 1024 * 1024"
definition MAX_LOG_QUEUE_BYTES :: int where [simp]: "MAX_LOG_QUEUE_BYTES = 128 * 1024 * 1024"
definition MIN_LOG_SIZE_BYTES :: u64 where [simp]: "MIN_LOG_SIZE_BYTES = 64 * 1024 * 1024"
definition KEEP_LOGS :: nat where [simp]: "KEEP_LOGS = 16"

record commit =
  cm_id :: u64
  cm_bytes :: nat
  cm_changeset :: commit_change_set

record commit_queue =
  cq_record_id :: u64
  cq_bytes :: nat
  cq_commits :: "commit list"

record db_inner =
  db_columns :: "column list"
  db_options :: options
  db_shutdown :: bool
  db_log :: log_state
  db_commit_queue :: commit_queue
  db_log_work :: bool
  db_commit_work :: bool
  db_commit_overlay :: "commit_overlay list"
  db_log_queue :: int
  db_flush_work :: bool
  db_cleanup_work :: bool
  db_cleanup_done :: bool
  db_last_enacted :: u64
  db_next_reindex :: u64
  db_bg_err :: "error option"
  db_ver :: u32

datatype opening_mode = Create | Write | ReadOnly

section \<open>Opening\<close>

text \<open>What is on disk: the files of the tables by id, the log files by number, the metadata file.\<close>

record disk =
  dk_is_dir :: bool
  dk_lock_free :: bool
  dk_metadata :: "string option"
  dk_values :: "u16 \<Rightarrow> bytes option"
  dk_indexes :: "u16 \<Rightarrow> bytes option"
  dk_logs :: "(u32 \<times> bytes) list"

fun open_columns :: "disk \<Rightarrow> options \<Rightarrow> metadata \<Rightarrow> nat list \<Rightarrow> column list result" where
  "open_columns dk opt meta [] = Ok []"
| "open_columns dk opt meta (c # cs) =
     and_then (column_open (dk_values dk) (dk_indexes dk) (word_of_nat c) opt meta) (\<lambda>col.
     and_then (open_columns dk opt meta cs) (\<lambda>cols. Ok (col # cols)))"

definition db_inner_open ::
    "hex_codec \<Rightarrow> salt \<Rightarrow> options \<Rightarrow> opening_mode \<Rightarrow> disk \<Rightarrow> (db_inner \<times> disk) result" where
  "db_inner_open hx rnd opt mode dk =
     (if mode \<noteq> Create \<and> \<not> dk_is_dir dk then Err DatabaseNotFound
      else if \<not> dk_lock_free dk then Err (Locked OtherIo)
      else
        and_then (load_and_validate_metadata hx rnd opt (mode = Create) (dk_metadata dk)) (\<lambda>(meta, mfile).
        and_then (log_open (dk_logs dk) (op_sync_wal opt)) (\<lambda>lg.
        let last_enacted = (case replay_record_id lg of Some r \<Rightarrow> r | None \<Rightarrow> 2) - 1 in
        and_then (open_columns dk opt meta [0..<length (md_columns meta)]) (\<lambda>cols.
          Ok (\<lparr>db_columns = cols,
               db_options = (if op_salt opt = None then opt\<lparr>op_salt := Some (md_salt meta)\<rparr> else opt),
               db_shutdown = False, db_log = lg,
               db_commit_queue = \<lparr>cq_record_id = 0, cq_bytes = 0, cq_commits = []\<rparr>,
               db_log_work = False, db_commit_work = False,
               db_commit_overlay = replicate (length (md_columns meta)) commit_overlay_new,
               db_log_queue = 0, db_flush_work = False, db_cleanup_work = False,
               db_cleanup_done = False, db_last_enacted = last_enacted, db_next_reindex = 1,
               db_bg_err = None, db_ver = md_version meta\<rparr>,
              dk\<lparr>dk_is_dir := True, dk_metadata := mfile\<rparr>)))))"

section \<open>Reading\<close>

definition overlay_answer :: "db_inner \<Rightarrow> u8 \<Rightarrow> (commit_overlay \<Rightarrow> 'a option) \<Rightarrow> 'a option" where
  "overlay_answer db col f =
     (if unat col < length (db_commit_overlay db) then f (db_commit_overlay db ! unat col) else None)"

definition put_column :: "u8 \<Rightarrow> column \<Rightarrow> db_inner \<Rightarrow> db_inner" where
  "put_column col c db = db\<lparr>db_columns := (db_columns db)[unat col := c]\<rparr>"

text \<open>A lookup changes the statistics of a hash column.\<close>

definition db_get :: "codec \<Rightarrow> hashers \<Rightarrow> db_inner \<Rightarrow> u8 \<Rightarrow> bytes \<Rightarrow> (bytes option \<times> db_inner) result" where
  "db_get cd hs db col k =
     and_then (assert_r (unat col < length (db_columns db))) (\<lambda>_.
     case db_columns db ! unat col of
       Hash hc \<Rightarrow>
         and_then (hc_hash_key hs hc k) (\<lambda>k.
         case overlay_answer db col (\<lambda>o'. cv_get o' k) of
           Some v \<Rightarrow> Ok (v, db)
         | None \<Rightarrow>
             and_then (hc_get cd hc k (overlays_query (lg_overlays (db_log db)))) (\<lambda>(v, hc).
               Ok (v, put_column col (Hash hc) db)))
     | Tree bc \<Rightarrow>
         (case overlay_answer db col (\<lambda>o'. cv_btree_get o' k) of
            Some v \<Rightarrow> Ok (v, db)
          | None \<Rightarrow>
              and_then (bc_get cd k (overlays_query (lg_overlays (db_log db))) (bc_locked bc)) (\<lambda>v.
                Ok (v, db))))"

definition db_get_size :: "codec \<Rightarrow> hashers \<Rightarrow> db_inner \<Rightarrow> u8 \<Rightarrow> bytes \<Rightarrow> (u32 option \<times> db_inner) result" where
  "db_get_size cd hs db col k =
     and_then (assert_r (unat col < length (db_columns db))) (\<lambda>_.
     case db_columns db ! unat col of
       Hash hc \<Rightarrow>
         and_then (hc_hash_key hs hc k) (\<lambda>k.
         case overlay_answer db col (\<lambda>o'. cv_get_size o' k) of
           Some v \<Rightarrow> Ok (v, db)
         | None \<Rightarrow>
             and_then (hc_get_size cd hc k (overlays_query (lg_overlays (db_log db)))) (\<lambda>(v, hc).
               Ok (v, put_column col (Hash hc) db)))
     | Tree bc \<Rightarrow>
         (case overlay_answer db col (\<lambda>o'. cv_btree_get o' k) of
            Some v \<Rightarrow> Ok (map_option (\<lambda>v. word_of_nat (length v)) v, db)
          | None \<Rightarrow>
              and_then (bc_get cd k (overlays_query (lg_overlays (db_log db))) (bc_locked bc)) (\<lambda>v.
                Ok (map_option (\<lambda>v. word_of_nat (length v)) v, db))))"

definition db_btree_iter :: "codec \<Rightarrow> db_inner \<Rightarrow> u8 \<Rightarrow> btree_iterator result" where
  "db_btree_iter cd db col =
     and_then (assert_r (unat col < length (db_columns db))) (\<lambda>_.
     case db_columns db ! unat col of
       Hash _ \<Rightarrow> Err (InvalidConfiguration ''Not an indexed column.'')
     | Tree bc \<Rightarrow> iterator_new cd bc col (lg_overlays (db_log db)))"

section \<open>Committing\<close>

definition queue_commit :: "commit \<Rightarrow> commit_queue \<Rightarrow> commit_queue" where
  "queue_commit c q = q\<lparr>cq_commits := cq_commits q @ [c], cq_bytes := cq_bytes q + cm_bytes c\<rparr>"

definition commit_raw :: "commit_change_set \<Rightarrow> db_inner \<Rightarrow> unit result \<times> db_inner" where
  "commit_raw cs db =
     (case db_bg_err db of
        Some err \<Rightarrow> (Err (Background err), db)
      | None \<Rightarrow>
          (let queue = (db_commit_queue db)\<lparr>cq_record_id := cq_record_id (db_commit_queue db) + 1\<rparr>;
               record_id = cq_record_id queue + 1;
               (r, ovs, bytes) = copy_change_set (db_options db) record_id cs (db_commit_overlay db, 0);
               db = db\<lparr>db_commit_queue := queue, db_commit_overlay := ovs\<rparr>
           in case r of
                Ok _ \<Rightarrow>
                  (Ok (), db\<lparr>db_commit_queue :=
                               queue_commit \<lparr>cm_id = record_id, cm_bytes = bytes, cm_changeset = cs\<rparr> queue,
                             db_log_work := True\<rparr>)
              | _ \<Rightarrow> (r, db)))"

definition add_change ::
    "hashers \<Rightarrow> db_inner \<Rightarrow> u8 \<times> (bytes, bytes) operation \<Rightarrow> commit_change_set \<Rightarrow> commit_change_set result" where
  "add_change hs db = (\<lambda>(col, change) cs.
     and_then (assert_r (unat col < length (op_columns (db_options db)))) (\<lambda>_.
     if co_btree_index (op_columns (db_options db) ! unat col) then
       (let s = (case map_of (cs_btree cs) col of Some s \<Rightarrow> s | None \<Rightarrow> \<lparr>bs_col = col, bs_changes = []\<rparr>)
        in Ok (cs\<lparr>cs_btree := AList.update col (btree_push change s) (cs_btree cs)\<rparr>))
     else
       (let s = (case map_of (cs_indexed cs) col of Some s \<Rightarrow> s | None \<Rightarrow> \<lparr>ic_col = col, ic_changes = []\<rparr>)
        in and_then (indexed_push hs (db_options db) (db_ver db) change s) (\<lambda>s.
             Ok (cs\<lparr>cs_indexed := AList.update col s (cs_indexed cs)\<rparr>)))))"

definition change_set_of ::
    "hashers \<Rightarrow> db_inner \<Rightarrow> (u8 \<times> (bytes, bytes) operation) list \<Rightarrow> commit_change_set result" where
  "change_set_of hs db tx =
     foldl (\<lambda>r ch. and_then r (add_change hs db ch)) (Ok \<lparr>cs_indexed = [], cs_btree = []\<rparr>) tx"

definition commit_changes ::
    "hashers \<Rightarrow> (u8 \<times> (bytes, bytes) operation) list \<Rightarrow> db_inner \<Rightarrow> unit result \<times> db_inner" where
  "commit_changes hs tx db =
     (case change_set_of hs db tx of
        Ok cs \<Rightarrow> commit_raw cs db
      | Err e \<Rightarrow> (Err e, db)
      | Panic \<Rightarrow> (Panic, db)
      | Diverge \<Rightarrow> (Diverge, db))"

definition tx_operation :: "u8 \<times> bytes \<times> bytes option \<Rightarrow> u8 \<times> (bytes, bytes) operation" where
  "tx_operation = (\<lambda>(c, k, v). (c, case v of Some v \<Rightarrow> Set k v | None \<Rightarrow> Dereference k))"

definition db_commit :: "hashers \<Rightarrow> (u8 \<times> bytes \<times> bytes option) list \<Rightarrow> db_inner \<Rightarrow> unit result \<times> db_inner" where
  "db_commit hs tx db = commit_changes hs (map tx_operation tx) db"

section \<open>Writing the log\<close>

text \<open>\<open>process_commits\<close> in the three parts between which other threads may commit.\<close>

definition pop_commit :: "db_inner \<Rightarrow> commit option \<times> db_inner" where
  "pop_commit db =
     (let q = db_commit_queue db in
      case cq_commits q of
        [] \<Rightarrow> (None, db)
      | c # cs \<Rightarrow> (Some c, db\<lparr>db_commit_queue := q\<lparr>cq_commits := cs, cq_bytes := cq_bytes q - cm_bytes c\<rparr>\<rparr>))"

definition log_commit ::
    "(bytes \<Rightarrow> u32) \<Rightarrow> codec \<Rightarrow> commit \<Rightarrow> db_inner \<Rightarrow> (u64 \<times> bool) result \<times> db_inner" where
  "log_commit crc cd c db =
     (let (w, lg) = begin_record (db_log db); failed = db\<lparr>db_log := lg\<rparr> in
      case plan_change_set cd (cm_changeset c) (db_columns db) w of
        Ok (cols, w, _, reindex) \<Rightarrow>
          (case end_record crc (lw_drain w) lg of
             Ok (bytes, lg) \<Rightarrow>
               (Ok (lw_record_id w, reindex),
                db\<lparr>db_columns := cols, db_log := lg, db_log_queue := db_log_queue db + uint bytes,
                   db_flush_work := True\<rparr>)
           | Err e \<Rightarrow> (Err e, failed) | Panic \<Rightarrow> (Panic, failed) | Diverge \<Rightarrow> (Diverge, failed))
      | Err e \<Rightarrow> (Err e, failed) | Panic \<Rightarrow> (Panic, failed) | Diverge \<Rightarrow> (Diverge, failed))"

definition clean_commit :: "commit \<Rightarrow> db_inner \<Rightarrow> db_inner" where
  "clean_commit c db =
     db\<lparr>db_commit_overlay := clean_change_set (cm_id c) (cm_changeset c) (db_commit_overlay db)\<rparr>"

definition start_reindex :: "u64 \<Rightarrow> db_inner \<Rightarrow> db_inner" where
  "start_reindex record_id db = db\<lparr>db_next_reindex := record_id\<rparr>"

definition finish_commit :: "commit \<Rightarrow> u64 \<times> bool \<Rightarrow> db_inner \<Rightarrow> db_inner" where
  "finish_commit c = (\<lambda>(record_id, reindex) db.
     let db = clean_commit c db in if reindex then start_reindex record_id db else db)"

definition process_commits :: "(bytes \<Rightarrow> u32) \<Rightarrow> codec \<Rightarrow> db_inner \<Rightarrow> bool result \<times> db_inner" where
  "process_commits crc cd db =
     (case pop_commit db of
        (None, db) \<Rightarrow> (Ok False, db)
      | (Some c, db) \<Rightarrow>
          (case log_commit crc cd c db of
             (Ok r, db) \<Rightarrow> (Ok True, finish_commit c r db)
           | (Err e, db) \<Rightarrow> (Err e, db) | (Panic, db) \<Rightarrow> (Panic, db) | (Diverge, db) \<Rightarrow> (Diverge, db)))"

fun reindex_changes ::
    "(key \<times> address) list \<Rightarrow> hash_column \<Rightarrow> log_writer \<Rightarrow> bool \<Rightarrow> (hash_column \<times> log_writer \<times> bool) result" where
  "reindex_changes [] hc w again = Ok (hc, w, again)"
| "reindex_changes ((k, address) # batch) hc w again =
     and_then (write_reindex_plan hc k address w) (\<lambda>(outcome, hc, w).
       reindex_changes batch hc w (again \<or> outcome = NeedReindex))"

text \<open>The record of one batch of a column: the bytes written and whether another re-index started.\<close>

definition reindex_record ::
    "(bytes \<Rightarrow> u32) \<Rightarrow> reindex_batch \<Rightarrow> hash_column \<Rightarrow> log_state
       \<Rightarrow> (hash_column \<times> u64 \<times> u64 \<times> bool \<times> log_state) result" where
  "reindex_record crc rb hc lg =
     (let (w, lg) = begin_record lg in
      and_then (reindex_changes (rb_batch rb) hc w False) (\<lambda>(hc, w, again).
      let w = (case rb_drop_index rb of Some t \<Rightarrow> drop_table t w | None \<Rightarrow> w) in
      and_then (end_record crc (lw_drain w) lg) (\<lambda>(bytes, lg).
        Ok (hc, lw_record_id w, bytes, again, lg))))"

fun reindex_columns :: "(bytes \<Rightarrow> u32) \<Rightarrow> nat list \<Rightarrow> db_inner \<Rightarrow> (bool \<times> db_inner) result" where
  "reindex_columns crc [] db = Ok (False, db\<lparr>db_next_reindex := 0\<rparr>)"
| "reindex_columns crc (c # cs) db =
     (case db_columns db ! c of
        Tree _ \<Rightarrow> reindex_columns crc cs db
      | Hash hc \<Rightarrow>
          and_then (hc_reindex_batch hc (lg_overlays (db_log db))) (\<lambda>(rb, hc).
          let db = db\<lparr>db_columns := (db_columns db)[c := Hash hc]\<rparr> in
          if rb_batch rb \<noteq> [] \<or> rb_drop_index rb \<noteq> None then
            and_then (reindex_record crc rb hc (db_log db)) (\<lambda>(hc, record_id, bytes, again, lg).
            let db = db\<lparr>db_columns := (db_columns db)[c := Hash hc], db_log := lg,
                        db_log_queue := db_log_queue db + uint bytes\<rparr>;
                db = (if again then start_reindex record_id db else db)
            in Ok (True, db\<lparr>db_flush_work := True\<rparr>))
          else reindex_columns crc cs db))"

definition process_reindex :: "(bytes \<Rightarrow> u32) \<Rightarrow> db_inner \<Rightarrow> (bool \<times> db_inner) result" where
  "process_reindex crc db =
     (if db_next_reindex db = 0 \<or> db_next_reindex db > db_last_enacted db then Ok (False, db)
      else reindex_columns crc [0..<length (db_columns db)] db)"

section \<open>Enacting the log\<close>

text \<open>
  Validation of a record. A failed read leaves the log as it is; anything else that is wrong ends
  the replay. The columns may have started a re-index.
\<close>

datatype validation = Valid log_reader | Unreadable | Invalid

definition validate_body ::
    "(bytes \<Rightarrow> u32) \<Rightarrow> column list \<times> log_reader
       \<Rightarrow> ((column list \<times> log_reader) + (validation \<times> column list)) result" where
  "validate_body crc = (\<lambda>(cols, r).
     let check = (\<lambda>action table r.
           let col = unat (table_id_col table) in
           if \<not> col < length cols then Ok (Inr (Invalid, cols))
           else (case column_validate_plan (cols ! col) action r of
                   (c, Ok r) \<Rightarrow> Ok (Inl (cols[col := c], r))
                 | (c, Err _) \<Rightarrow> Ok (Inr (Invalid, cols[col := c]))
                 | (_, Panic) \<Rightarrow> Panic
                 | (_, Diverge) \<Rightarrow> Diverge))
     in case log_next crc r of
          Ok (BeginRecord, r) \<Rightarrow> Ok (Inr (Invalid, cols))
        | Ok (EndRecord, r) \<Rightarrow> Ok (Inr (Valid r, cols))
        | Ok (InsertIndex table index, r) \<Rightarrow> check (InsertIndex table index) table r
        | Ok (InsertValue table index, r) \<Rightarrow> check (InsertValue table index) table r
        | Ok (DropTable _, r) \<Rightarrow> Ok (Inl (cols, r))
        | Err _ \<Rightarrow> Ok (Inr (Unreadable, cols))
        | Panic \<Rightarrow> Panic
        | Diverge \<Rightarrow> Diverge)"

definition enact_body ::
    "(bytes \<Rightarrow> u32) \<Rightarrow> db_inner \<times> log_reader
       \<Rightarrow> ((db_inner \<times> log_reader) + (db_inner \<times> log_reader)) result" where
  "enact_body crc = (\<lambda>(db, r).
     let enact = (\<lambda>action table r.
           let col = unat (table_id_col table) in
           and_then (assert_r (col < length (db_columns db))) (\<lambda>_.
           and_then (column_enact_plan (db_columns db ! col) action r) (\<lambda>(c, r).
             Ok (Inl (db\<lparr>db_columns := (db_columns db)[col := c]\<rparr>, r)))))
     in and_then (log_next crc r) (\<lambda>(action, r).
        case action of
          BeginRecord \<Rightarrow> Err (Corruption ''Bad log record'')
        | EndRecord \<Rightarrow> Ok (Inr (db, r))
        | InsertIndex table index \<Rightarrow> enact (InsertIndex table index) table r
        | InsertValue table index \<Rightarrow> enact (InsertValue table index) table r
        | DropTable i \<Rightarrow>
            (let col = unat (index_id_col i) in
             and_then (assert_r (col < length (db_columns db))) (\<lambda>_.
             case db_columns db ! col of
               Hash hc \<Rightarrow>
                 (let (hc, _) = hc_drop_index hc i
                  in Ok (Inl (start_reindex (lr_record_id r)
                        (db\<lparr>db_columns := (db_columns db)[col := Hash hc]\<rparr>), r)))
             | Tree _ \<Rightarrow> Ok (Inl (db, r))))))"

definition enact_record :: "(bytes \<Rightarrow> u32) \<Rightarrow> bool \<Rightarrow> log_reader \<Rightarrow> db_inner \<Rightarrow> db_inner result" where
  "enact_record crc validation_mode r db =
     and_then (loop_r (enact_body crc) (db, r)) (\<lambda>(db, r).
     let record_id = lr_record_id r;
         db = db\<lparr>db_last_enacted := record_id, db_log := end_read (lr_drain r) record_id (close_reader r (db_log db))\<rparr>
     in Ok (if validation_mode then db
            else db\<lparr>db_log_queue := db_log_queue db - int (lr_read_bytes r)\<rparr>))"

definition end_replay :: "db_inner \<Rightarrow> db_inner" where
  "end_replay db = db\<lparr>db_log := clear_replay_logs (db_log db)\<rparr>"

definition enact_logs :: "(bytes \<Rightarrow> u32) \<Rightarrow> bool \<Rightarrow> db_inner \<Rightarrow> (bool \<times> db_inner) result" where
  "enact_logs crc validation_mode db =
     (case read_next_record crc validation_mode (db_log db) of
        Err (Corruption e) \<Rightarrow> if validation_mode then Ok (False, end_replay db) else Err (Corruption e)
      | Err e \<Rightarrow> Err e
      | Panic \<Rightarrow> Panic
      | Diverge \<Rightarrow> Diverge
      | Ok (None, lg) \<Rightarrow> Ok (False, db\<lparr>db_log := lg\<rparr>)
      | Ok (Some r, lg) \<Rightarrow>
          (let db = db\<lparr>db_log := lg\<rparr> in
           if \<not> validation_mode then and_then (enact_record crc False r db) (\<lambda>db. Ok (True, db))
           else if lr_record_id r \<noteq> db_last_enacted db + 1 then Ok (False, end_replay db)
           else
             and_then (loop_r (validate_body crc) (db_columns db, r)) (\<lambda>(v, cols).
             let db = db\<lparr>db_columns := cols\<rparr> in
             case v of
               Invalid \<Rightarrow> Ok (False, end_replay db)
             | Unreadable \<Rightarrow> Ok (False, db)
             | Valid r \<Rightarrow>
                 and_then (log_next crc (lr_reset r)) (\<lambda>(_, r).
                 and_then (enact_record crc True r db) (\<lambda>db. Ok (True, db))))))"

section \<open>Log files\<close>

definition flush_logs :: "u64 \<Rightarrow> db_inner \<Rightarrow> bool \<times> db_inner" where
  "flush_logs min_log_size db =
     (let (has_flushed, lg) = flush_one min_log_size (db_log db);
          db = db\<lparr>db_log := lg\<rparr>
      in (has_flushed, if has_flushed then db\<lparr>db_commit_work := True\<rparr> else db))"

definition clean_logs :: "db_inner \<Rightarrow> bool \<times> db_inner" where
  "clean_logs db =
     (let keep_logs = (if op_sync_data (db_options db) then 0 else KEEP_LOGS);
          num_cleanup = num_dirty_logs (db_log db);
          (r, db) =
            (if num_cleanup > keep_logs then
               (let cols = (if op_sync_data (db_options db) then map column_flush (db_columns db)
                            else db_columns db);
                    (r, lg) = log_clean_logs (num_cleanup - keep_logs) (db_log db)
                in (r, db\<lparr>db_columns := cols, db_log := lg\<rparr>))
             else (False, db))
      in (r, db\<lparr>db_cleanup_done := True\<rparr>))"

definition clean_all_logs :: "db_inner \<Rightarrow> db_inner" where
  "clean_all_logs db =
     db\<lparr>db_columns := map column_flush (db_columns db),
        db_log := snd (log_clean_logs (num_dirty_logs (db_log db)) (db_log db))\<rparr>"

text \<open>\<open>while self.op()? {}\<close>.\<close>

definition while_more :: "('s \<Rightarrow> (bool \<times> 's) result) \<Rightarrow> 's \<Rightarrow> 's result" where
  "while_more f s = loop_r (\<lambda>s. and_then (f s) (\<lambda>(again, s). Ok (if again then Inl s else Inr s))) s"

fun refresh_columns :: "column list \<Rightarrow> column list result" where
  "refresh_columns [] = Ok []"
| "refresh_columns (c # cs) =
     and_then (column_refresh_metadata c) (\<lambda>c. and_then (refresh_columns cs) (\<lambda>cs. Ok (c # cs)))"

definition replay_all_logs :: "(bytes \<Rightarrow> u32) \<Rightarrow> db_inner \<Rightarrow> db_inner result" where
  "replay_all_logs crc db =
     and_then
       (while_more (\<lambda>db.
          let (i, lg) = replay_next (db_log db); db = db\<lparr>db_log := lg\<rparr> in
          case i of
            None \<Rightarrow> Ok (False, db)
          | Some _ \<Rightarrow> and_then (while_more (enact_logs crc True) db) (\<lambda>db. Ok (True, db))) db) (\<lambda>db.
     and_then (refresh_columns (db_columns db)) (\<lambda>cols. Ok (db\<lparr>db_columns := cols\<rparr>)))"

section \<open>Opening and closing\<close>

definition db_open_inner ::
    "hex_codec \<Rightarrow> (bytes \<Rightarrow> u32) \<Rightarrow> salt \<Rightarrow> options \<Rightarrow> opening_mode \<Rightarrow> disk
       \<Rightarrow> (db_inner \<times> bool \<times> disk) result" where
  "db_open_inner hx crc rnd opt mode dk =
     and_then (assert_r (options_is_valid opt)) (\<lambda>_.
     and_then (db_inner_open hx rnd opt mode dk) (\<lambda>(db, dk).
     and_then (replay_all_logs crc db) (\<lambda>db.
     let db = clean_all_logs (end_replay db);
         db = db\<lparr>db_log := log_kill_logs (db_log db)\<rparr>;
         start_threads = (mode \<noteq> ReadOnly)
     in Ok (db, start_threads, dk))))"

definition db_open ::
    "hex_codec \<Rightarrow> (bytes \<Rightarrow> u32) \<Rightarrow> salt \<Rightarrow> options \<Rightarrow> disk \<Rightarrow> (db_inner \<times> bool \<times> disk) result" where
  "db_open hx crc rnd opt dk = db_open_inner hx crc rnd opt Write dk"

definition db_open_or_create ::
    "hex_codec \<Rightarrow> (bytes \<Rightarrow> u32) \<Rightarrow> salt \<Rightarrow> options \<Rightarrow> disk \<Rightarrow> (db_inner \<times> bool \<times> disk) result" where
  "db_open_or_create hx crc rnd opt dk = db_open_inner hx crc rnd opt Create dk"

definition db_open_read_only ::
    "hex_codec \<Rightarrow> (bytes \<Rightarrow> u32) \<Rightarrow> salt \<Rightarrow> options \<Rightarrow> disk \<Rightarrow> (db_inner \<times> bool \<times> disk) result" where
  "db_open_read_only hx crc rnd opt dk = db_open_inner hx crc rnd opt ReadOnly dk"

definition shutdown :: "db_inner \<Rightarrow> db_inner" where
  "shutdown db = db\<lparr>db_shutdown := True, db_flush_work := True, db_log_work := True,
                    db_commit_work := True, db_cleanup_work := True\<rparr>"

definition store_err :: "'a result \<Rightarrow> db_inner \<Rightarrow> db_inner" where
  "store_err r db =
     (case r of
        Err e \<Rightarrow> (if db_bg_err db = None then shutdown (db\<lparr>db_bg_err := Some e\<rparr>) else db)
      | _ \<Rightarrow> db)"

definition process_commits_r :: "(bytes \<Rightarrow> u32) \<Rightarrow> codec \<Rightarrow> db_inner \<Rightarrow> (bool \<times> db_inner) result" where
  "process_commits_r crc cd db = (let (r, db) = process_commits crc cd db in and_then r (\<lambda>again. Ok (again, db)))"

definition kill_logs :: "(bytes \<Rightarrow> u32) \<Rightarrow> codec \<Rightarrow> db_inner \<Rightarrow> db_inner result" where
  "kill_logs crc cd db =
     (case db_bg_err db of
        Some err \<Rightarrow> Ok (db\<lparr>db_log := snd (log_clean_logs (num_dirty_logs (db_log db)) (db_log db))\<rparr>)
      | None \<Rightarrow>
          and_then (while_more (enact_logs crc False) db) (\<lambda>db.
          let (_, db) = flush_logs 0 db in
          and_then (while_more (process_commits_r crc cd) db) (\<lambda>db.
          and_then (while_more (enact_logs crc False) db) (\<lambda>db.
          let (_, db) = flush_logs 0 db in
          and_then (while_more (enact_logs crc False) db) (\<lambda>db.
          let db = clean_all_logs db in
          Ok (db\<lparr>db_log := log_kill_logs (db_log db)\<rparr>))))))"

section \<open>Statistics and iteration\<close>

fun clear_columns :: "column list \<Rightarrow> column list result" where
  "clear_columns [] = Ok []"
| "clear_columns (c # cs) =
     and_then (column_clear_stats c) (\<lambda>c. and_then (clear_columns cs) (\<lambda>cs. Ok (c # cs)))"

definition db_clear_stats :: "u8 option \<Rightarrow> db_inner \<Rightarrow> db_inner result" where
  "db_clear_stats column db =
     (case column of
        Some col \<Rightarrow>
          and_then (assert_r (unat col < length (db_columns db))) (\<lambda>_.
          and_then (column_clear_stats (db_columns db ! unat col)) (\<lambda>c. Ok (put_column col c db)))
      | None \<Rightarrow> and_then (clear_columns (db_columns db)) (\<lambda>cols. Ok (db\<lparr>db_columns := cols\<rparr>)))"

definition db_stats :: "db_inner \<Rightarrow> stat_summary option list" where
  "db_stats db = map column_stat_summary (db_columns db)"

definition iter_column_while ::
    "codec \<Rightarrow> db_inner \<Rightarrow> u8 \<Rightarrow> ('s \<Rightarrow> u32 \<Rightarrow> bytes \<Rightarrow> 's \<times> bool) \<Rightarrow> 's \<Rightarrow> 's result" where
  "iter_column_while cd db c f s =
     and_then (assert_r (unat c < length (db_columns db))) (\<lambda>_.
     case db_columns db ! unat c of
       Hash hc \<Rightarrow> hc_iter_values cd hc (lg_overlays (db_log db)) f s
     | Tree _ \<Rightarrow> Panic)"

definition iter_column_index_while ::
    "codec \<Rightarrow> db_inner \<Rightarrow> u8 \<Rightarrow> ('s \<Rightarrow> iter_state \<Rightarrow> 's \<times> bool) \<Rightarrow> 's \<Rightarrow> 's result" where
  "iter_column_index_while cd db c f s =
     and_then (assert_r (unat c < length (db_columns db))) (\<lambda>_.
     case db_columns db ! unat c of
       Hash hc \<Rightarrow> hc_iter_index cd hc (lg_overlays (db_log db)) f s
     | Tree _ \<Rightarrow> Panic)"

text \<open>\<open>Db::add_column\<close>: the options and the metadata file afterwards.\<close>

definition add_column ::
    "hex_codec \<Rightarrow> (bytes \<Rightarrow> u32) \<Rightarrow> salt \<Rightarrow> column_options \<Rightarrow> options \<Rightarrow> disk \<Rightarrow> (options \<times> string) result" where
  "add_column hx crc rnd new_column_options opt dk =
     and_then (db_open hx crc rnd opt dk) (\<lambda>(db, _, _).
     let opt' = opt\<lparr>op_columns := op_columns opt @ [new_column_options]\<rparr> in
     case op_salt (db_options db) of
       Some salt \<Rightarrow> Ok (opt', metadata_text hx opt' salt (Some CURRENT_VERSION))
     | None \<Rightarrow> Panic)"

end
