(* ===== verification/Db_Workers.thy ===== *)
theory Db_Workers
  imports Db
begin

text \<open>
  The background threads of a database (src/src/db.rs \<open>commit_worker\<close>, \<open>log_worker\<close>,
  \<open>flush_worker\<close>, \<open>cleanup_worker\<close>, \<open>Drop for Db\<close>) and the threads that commit, as a step relation.

  The state is the database and a program counter per worker. A step is what a worker does between
  two points at which it can be interrupted: \<open>process_commits\<close> is three steps, since commits can
  arrive while it plans a record; a test of a flag and the wait behind it are two. A worker waits in
  a \<open>...Wait\<close> counter until its flag is set and then clears it. An error is stored and shuts the
  database down. A worker that panics is gone.
\<close>

section \<open>Program counters\<close>

text \<open>\<open>LogLoop\<close> carries \<open>more_commits\<close> and \<open>more_reindex\<close>, \<open>LogReindex\<close> the former.\<close>

datatype log_pc =
    LogStart
  | LogLoop bool bool
  | LogWait
  | LogCommits
  | LogPlan commit
  | LogClean commit "u64 \<times> bool"
  | LogReindex bool
  | LogFailed commit
  | LogDone

datatype commit_pc = ComLoop bool | ComCheck | ComWait | ComEnact | ComDone
datatype flush_pc = FlushLoop bool | FlushWait | FlushRun | FlushDone
datatype cleanup_pc = CleanLoop bool | CleanWait | CleanRun | CleanDone

record system =
  sy_db :: db_inner
  sy_log :: log_pc
  sy_commit :: commit_pc
  sy_flush :: flush_pc
  sy_cleanup :: cleanup_pc

section \<open>Steps of the workers\<close>

text \<open>An operation returned an error: it is stored and the worker ends. A panic ends the worker.\<close>

inductive worker_fails :: "'a result \<Rightarrow> db_inner \<Rightarrow> db_inner \<Rightarrow> bool" where
  failed_err: "worker_fails (Err e) db (store_err (Err e :: unit result) db)"
| failed_panic: "worker_fails Panic db db"

inductive log_step ::
    "(bytes \<Rightarrow> u32) \<Rightarrow> codec \<Rightarrow> db_inner \<times> log_pc \<Rightarrow> db_inner \<times> log_pc \<Rightarrow> bool" for crc cd where
  log_start:
    "process_reindex crc db = Ok (again, db') \<Longrightarrow> log_step crc cd (db, LogStart) (db', LogLoop False again)"
| log_start_fails:
    "worker_fails (process_reindex crc db) db db' \<Longrightarrow> log_step crc cd (db, LogStart) (db', LogDone)"
| log_stop:
    "db_shutdown db \<Longrightarrow> log_step crc cd (db, LogLoop False r) (db, LogDone)"
| log_idle:
    "\<not> db_shutdown db \<Longrightarrow> log_step crc cd (db, LogLoop False False) (db, LogWait)"
| log_again:
    "\<not> db_shutdown db \<or> c \<Longrightarrow> c \<or> r \<Longrightarrow> log_step crc cd (db, LogLoop c r) (db, LogCommits)"
| log_woken:
    "db_log_work db \<Longrightarrow> log_step crc cd (db, LogWait) (db\<lparr>db_log_work := False\<rparr>, LogCommits)"
| log_no_commit:
    "pop_commit db = (None, db') \<Longrightarrow> log_step crc cd (db, LogCommits) (db', LogReindex False)"
| log_pop:
    "pop_commit db = (Some c, db') \<Longrightarrow> log_step crc cd (db, LogCommits) (db', LogPlan c)"
| log_plan:
    "log_commit crc cd c db = (Ok r, db') \<Longrightarrow> log_step crc cd (db, LogPlan c) (db', LogClean c r)"
| log_plan_fails:
    "log_commit crc cd c db = (r, db1) \<Longrightarrow> worker_fails r db1 db' \<Longrightarrow>
     log_step crc cd (db, LogPlan c) (db', LogFailed c)"
| log_clean:
    "log_step crc cd (db, LogClean c r) (finish_commit c r db, LogReindex True)"
| log_reindex:
    "process_reindex crc db = Ok (again, db') \<Longrightarrow> log_step crc cd (db, LogReindex c) (db', LogLoop c again)"
| log_reindex_fails:
    "worker_fails (process_reindex crc db) db db' \<Longrightarrow> log_step crc cd (db, LogReindex c) (db', LogDone)"

inductive commit_step :: "(bytes \<Rightarrow> u32) \<Rightarrow> db_inner \<times> commit_pc \<Rightarrow> db_inner \<times> commit_pc \<Rightarrow> bool" for crc where
  commit_stop:
    "db_shutdown db \<Longrightarrow> commit_step crc (db, ComLoop False) (db, ComDone)"
| commit_more:
    "commit_step crc (db, ComLoop True) (db, ComEnact)"
| commit_idle:
    "\<not> db_shutdown db \<Longrightarrow> commit_step crc (db, ComLoop False) (db\<lparr>db_cleanup_work := True\<rparr>, ComCheck)"
| commit_files:
    "has_log_files_to_read (db_log db) \<Longrightarrow> commit_step crc (db, ComCheck) (db, ComEnact)"
| commit_no_files:
    "\<not> has_log_files_to_read (db_log db) \<Longrightarrow> commit_step crc (db, ComCheck) (db, ComWait)"
| commit_woken:
    "db_commit_work db \<Longrightarrow> commit_step crc (db, ComWait) (db\<lparr>db_commit_work := False\<rparr>, ComEnact)"
| commit_enact:
    "enact_logs crc False db = Ok (again, db') \<Longrightarrow> commit_step crc (db, ComEnact) (db', ComLoop again)"
| commit_enact_fails:
    "worker_fails (enact_logs crc False db) db db' \<Longrightarrow> commit_step crc (db, ComEnact) (db', ComDone)"

inductive flush_step :: "u64 \<Rightarrow> db_inner \<times> flush_pc \<Rightarrow> db_inner \<times> flush_pc \<Rightarrow> bool" for min_log_size where
  flush_stop:
    "db_shutdown db \<Longrightarrow> flush_step min_log_size (db, FlushLoop m) (db, FlushDone)"
| flush_more:
    "\<not> db_shutdown db \<Longrightarrow> flush_step min_log_size (db, FlushLoop True) (db, FlushRun)"
| flush_idle:
    "\<not> db_shutdown db \<Longrightarrow> flush_step min_log_size (db, FlushLoop False) (db, FlushWait)"
| flush_woken:
    "db_flush_work db \<Longrightarrow> flush_step min_log_size (db, FlushWait) (db\<lparr>db_flush_work := False\<rparr>, FlushRun)"
| flush_run:
    "flush_logs min_log_size db = (again, db') \<Longrightarrow> flush_step min_log_size (db, FlushRun) (db', FlushLoop again)"

inductive cleanup_step :: "db_inner \<times> cleanup_pc \<Rightarrow> db_inner \<times> cleanup_pc \<Rightarrow> bool" where
  cleanup_stop:
    "db_shutdown db \<Longrightarrow> cleanup_step (db, CleanLoop False) (db, CleanDone)"
| cleanup_more:
    "cleanup_step (db, CleanLoop True) (db, CleanRun)"
| cleanup_idle:
    "\<not> db_shutdown db \<Longrightarrow> cleanup_step (db, CleanLoop False) (db, CleanWait)"
| cleanup_woken:
    "db_cleanup_work db \<Longrightarrow> cleanup_step (db, CleanWait) (db\<lparr>db_cleanup_work := False\<rparr>, CleanRun)"
| cleanup_run:
    "clean_logs db = (again, db') \<Longrightarrow> cleanup_step (db, CleanRun) (db', CleanLoop again)"

section \<open>Steps of the system\<close>

text \<open>
  What \<open>commit\<close> asks of its caller: columns that exist and no \<open>Reference\<close> for a column without
  counters. A change set that breaks the second rule fails half way (\<open>failed_commit_visible\<close>).
\<close>

definition countable :: "bool \<Rightarrow> ('k, 'v) operation \<Rightarrow> bool" where
  "countable ref_counted op = (case op of Reference _ \<Rightarrow> ref_counted | _ \<Rightarrow> True)"

definition set_allowed :: "options \<Rightarrow> nat \<Rightarrow> u8 \<Rightarrow> u8 \<Rightarrow> ('k, 'v) operation list \<Rightarrow> bool" where
  "set_allowed opt n c col ops =
     (c = col \<and> unat c < n \<and> unat c < length (op_columns opt) \<and>
      list_all (countable (co_ref_counted (op_columns opt ! unat c))) ops)"

definition change_set_allowed :: "options \<Rightarrow> nat \<Rightarrow> commit_change_set \<Rightarrow> bool" where
  "change_set_allowed opt n cs =
     (distinct (map fst (cs_indexed cs)) \<and> distinct (map fst (cs_btree cs)) \<and>
      list_all (\<lambda>(c, s). set_allowed opt n c (ic_col s) (ic_changes s)) (cs_indexed cs) \<and>
      list_all (\<lambda>(c, s). set_allowed opt n c (bs_col s) (bs_changes s)) (cs_btree cs))"

text \<open>The commit counter does not wrap around.\<close>

definition ids_left :: "db_inner \<Rightarrow> bool" where
  "ids_left db = (cq_record_id (db_commit_queue db) < 0xfffffffffffffff0)"

inductive system_step ::
    "(bytes \<Rightarrow> u32) \<Rightarrow> codec \<Rightarrow> u64 \<Rightarrow> system \<Rightarrow> system \<Rightarrow> bool" for crc cd min_log_size where
  client_commit:
    "change_set_allowed (db_options (sy_db s)) (length (db_commit_overlay (sy_db s))) cs \<Longrightarrow>
     ids_left (sy_db s) \<Longrightarrow> commit_raw cs (sy_db s) = (r, db') \<Longrightarrow>
     system_step crc cd min_log_size s (s\<lparr>sy_db := db'\<rparr>)"
| client_drop:
    "system_step crc cd min_log_size s (s\<lparr>sy_db := shutdown (sy_db s)\<rparr>)"
| log_worker:
    "log_step crc cd (sy_db s, sy_log s) (db', pc) \<Longrightarrow>
     system_step crc cd min_log_size s (s\<lparr>sy_db := db', sy_log := pc\<rparr>)"
| commit_worker:
    "commit_step crc (sy_db s, sy_commit s) (db', pc) \<Longrightarrow>
     system_step crc cd min_log_size s (s\<lparr>sy_db := db', sy_commit := pc\<rparr>)"
| flush_worker:
    "flush_step min_log_size (sy_db s, sy_flush s) (db', pc) \<Longrightarrow>
     system_step crc cd min_log_size s (s\<lparr>sy_db := db', sy_flush := pc\<rparr>)"
| cleanup_worker:
    "cleanup_step (sy_db s, sy_cleanup s) (db', pc) \<Longrightarrow>
     system_step crc cd min_log_size s (s\<lparr>sy_db := db', sy_cleanup := pc\<rparr>)"

text \<open>The threads start on a database that was just opened.\<close>

definition fresh_db :: "db_inner \<Rightarrow> bool" where
  "fresh_db db =
     (cq_commits (db_commit_queue db) = [] \<and> cq_record_id (db_commit_queue db) = 0 \<and>
      list_all (\<lambda>o'. o' = commit_overlay_new) (db_commit_overlay db) \<and>
      lg_appending (db_log db) = None \<and> lg_read_queue (db_log db) = [] \<and>
      lg_cleanup_queue (db_log db) = [] \<and> db_bg_err db = None \<and> \<not> db_shutdown db)"

definition system_start :: "db_inner \<Rightarrow> system" where
  "system_start db =
     \<lparr>sy_db = db, sy_log = LogStart, sy_commit = ComLoop False, sy_flush = FlushLoop False,
      sy_cleanup = CleanLoop True\<rparr>"

inductive reachable :: "(bytes \<Rightarrow> u32) \<Rightarrow> codec \<Rightarrow> u64 \<Rightarrow> db_inner \<Rightarrow> system \<Rightarrow> bool" for crc cd min_log_size db where
  start: "reachable crc cd min_log_size db (system_start db)"
| step: "reachable crc cd min_log_size db s \<Longrightarrow> system_step crc cd min_log_size s s' \<Longrightarrow>
    reachable crc cd min_log_size db s'"

end
