(* ===== verification/Db_Pending.thy ===== *)
theory Db_Pending
  imports Db_Workers
begin

text \<open>
  The commit overlay as a map. \<open>writes\<close> is what the operations of a commit leave in the overlay of a
  column; the overlay of a list of pending commits is the sum of their maps, later ones first. This
  theory shows that copying a change set adds its map and that cleaning takes it away again,
  whatever was committed in between.
\<close>

section \<open>Maps of operations\<close>

type_synonym 'k overlay_map = "'k \<Rightarrow> (u64 \<times> bytes option) option"

fun write_op :: "bool \<Rightarrow> u64 \<Rightarrow> ('k, bytes) operation \<Rightarrow> 'k overlay_map \<Rightarrow> 'k overlay_map" where
  "write_op ref_counted i (Set k v) m = m(k \<mapsto> (i, Some v))"
| "write_op ref_counted i (Dereference k) m = (if ref_counted then m else m(k \<mapsto> (i, None)))"
| "write_op ref_counted i (Reference k) m = m"

definition writes :: "bool \<Rightarrow> u64 \<Rightarrow> ('k, bytes) operation list \<Rightarrow> 'k overlay_map" where
  "writes ref_counted i ops = fold (write_op ref_counted i) ops Map.empty"

lemma write_op_add: "write_op rc i op (m ++ m') = m ++ write_op rc i op m'"
  by (cases op) auto

lemma fold_write_op: "fold (write_op rc i) ops (m ++ m') = m ++ fold (write_op rc i) ops m'"
  by (induction ops arbitrary: m') (simp_all add: write_op_add)

lemma fold_writes: "fold (write_op rc i) ops m = m ++ writes rc i ops"
  using fold_write_op [of rc i ops m Map.empty] by (simp add: writes_def)

lemma writes_simps [simp]:
  "writes rc i [] = Map.empty"
  "writes rc i (op # ops) = write_op rc i op Map.empty ++ writes rc i ops"
  using fold_writes [of rc i ops "write_op rc i op Map.empty"] by (simp_all add: writes_def)

lemma upd_add: "m(k \<mapsto> x) ++ m' = m ++ ([k \<mapsto> x] ++ m')"
  by (rule ext) (simp add: map_add_def split: option.split)

lemma writes_id: "writes rc i ops k = Some e \<Longrightarrow> fst e = i"
proof (induction ops)
  case (Cons op ops)
  then show ?case by (cases op) (auto simp: map_add_Some_iff split: if_splits)
qed simp

lemma writes_key: "writes rc i ops k \<noteq> None \<Longrightarrow> \<exists>op \<in> set ops. op_key op = k \<and> \<not> (\<exists>k'. op = Reference k')"
proof (induction ops)
  case (Cons op ops)
  then show ?case by (cases op) (auto simp: map_add_Some_iff split: if_splits)
qed simp

section \<open>Copying\<close>

lemma copy_indexed_ok:
  assumes "list_all (countable rc) ops"
  shows "\<exists>ov' b'. copy_indexed rc i ops (ov, b) = (Ok (), ov', b') \<and> map_of ov' = map_of ov ++ writes rc i ops"
  using assms
proof (induction ops arbitrary: ov b)
  case (Cons op ops)
  then have ops: "list_all (countable rc) ops" by simp
  show ?case
  proof (cases op)
    case (Set k v)
    from Cons.IH [OF ops, of "AList.update k (i, Some v) ov" "b + length k + length v"] show ?thesis
      by (simp only: Set copy_indexed.simps update_conv' upd_add [of "map_of ov"] writes_simps write_op.simps)
  next
    case (Dereference k)
    from Cons.IH [OF ops, of "if \<not> rc then AList.update k (i, None) ov else ov" b] show ?thesis
      by (cases rc) (simp_all only: Dereference copy_indexed.simps not_True_eq_False not_False_eq_True if_True if_False
          update_conv' upd_add [of "map_of ov"] writes_simps write_op.simps empty_map_add)
  next
    case (Reference k)
    with Cons.prems have "rc" by (simp add: countable_def)
    with Cons.IH [OF ops, of ov b] show ?thesis by (simp add: Reference)
  qed
qed simp

lemma copy_btree_ok:
  assumes "list_all (countable rc) ops"
  shows "\<exists>ov' b'. copy_btree rc i ops (ov, b) = (Ok (), ov', b') \<and> map_of ov' = map_of ov ++ writes rc i ops"
  using assms
proof (induction ops arbitrary: ov b)
  case (Cons op ops)
  then have ops: "list_all (countable rc) ops" by simp
  show ?case
  proof (cases op)
    case (Set k v)
    from Cons.IH [OF ops, of "AList.update k (i, Some v) ov" "b + length k + length v"] show ?thesis
      by (simp only: Set copy_btree.simps update_conv' upd_add [of "map_of ov"] writes_simps write_op.simps)
  next
    case (Dereference k)
    from Cons.IH [OF ops, of "if \<not> rc then AList.update k (i, None) ov else ov" "if \<not> rc then b + length k else b"]
    show ?thesis
      by (cases rc) (simp_all only: Dereference copy_btree.simps not_True_eq_False not_False_eq_True if_True if_False
          update_conv' upd_add [of "map_of ov"] writes_simps write_op.simps empty_map_add)
  next
    case (Reference k)
    with Cons.prems have "rc" by (simp add: countable_def)
    with Cons.IH [OF ops, of ov b] show ?thesis by (simp add: Reference)
  qed
qed simp

text \<open>The two overlays of a column, and the operations of a change set for it.\<close>

definition overlay_map :: "bool \<Rightarrow> commit_overlay \<Rightarrow> bytes overlay_map" where
  "overlay_map indexed ov = map_of (if indexed then cv_indexed ov else cv_btree ov)"

definition set_ops :: "bool \<Rightarrow> commit_change_set \<Rightarrow> nat \<Rightarrow> (bytes, bytes) operation list" where
  "set_ops indexed cs c =
     (if indexed then (case map_of (cs_indexed cs) (word_of_nat c) of Some s \<Rightarrow> ic_changes s | None \<Rightarrow> [])
      else (case map_of (cs_btree cs) (word_of_nat c) of Some s \<Rightarrow> bs_changes s | None \<Rightarrow> []))"

definition rc_of :: "options \<Rightarrow> nat \<Rightarrow> bool" where
  "rc_of opt c = co_ref_counted (op_columns opt ! c)"

lemma unat_word_of_nat_u8: "c < 256 \<Longrightarrow> unat (word_of_nat c :: u8) = c"
  by (simp add: unat_of_nat)

text \<open>Copying the sets of one kind: the sets are of different columns.\<close>

lemma for_each_indexed:
  assumes "distinct (map fst sets)" "list_all (\<lambda>(c, s). set_allowed opt (length ovs) c (ic_col s) (ic_changes s)) sets"
  shows "\<exists>ovs' b'. for_each (indexed_copy_to_overlay opt i) sets (ovs, b) = (Ok (), ovs', b') \<and>
    length ovs' = length ovs \<and>
    (\<forall>c < min 256 (length ovs). cv_btree (ovs' ! c) = cv_btree (ovs ! c) \<and>
       map_of (cv_indexed (ovs' ! c)) = map_of (cv_indexed (ovs ! c)) ++
         writes (rc_of opt c) i (case map_of sets (word_of_nat c) of Some s \<Rightarrow> ic_changes s | None \<Rightarrow> []))"
  using assms
proof (induction sets arbitrary: ovs b)
  case (Cons a sets)
  obtain c s where a: "a = (c, s)" by (cases a)
  with Cons.prems have al: "c = ic_col s" "unat c < length ovs" "unat c < length (op_columns opt)"
      "list_all (countable (rc_of opt (unat c))) (ic_changes s)" and c: "c \<notin> fst ` set sets"
    by (auto simp: set_allowed_def rc_of_def)
  obtain ov' b' where o: "copy_indexed (rc_of opt (unat c)) i (ic_changes s) (cv_indexed (ovs ! unat c), b) = (Ok (), ov', b')"
      "map_of ov' = map_of (cv_indexed (ovs ! unat c)) ++ writes (rc_of opt (unat c)) i (ic_changes s)"
    using copy_indexed_ok [OF al(4)] by blast
  let ?ovs = "ovs[unat c := (ovs ! unat c)\<lparr>cv_indexed := ov'\<rparr>]"
  have first: "indexed_copy_to_overlay opt i a (ovs, b) = (Ok (), ?ovs, b')"
    using al o(1) by (simp add: indexed_copy_to_overlay_def a rc_of_def)
  have "distinct (map fst sets)"
      "list_all (\<lambda>(c, s). set_allowed opt (length ?ovs) c (ic_col s) (ic_changes s)) sets"
    using Cons.prems by simp_all
  from Cons.IH [OF this, of b'] obtain ovs2 b2 where
    rest: "for_each (indexed_copy_to_overlay opt i) sets (?ovs, b') = (Ok (), ovs2, b2)" "length ovs2 = length ovs"
      "\<And>d. d < min 256 (length ovs) \<Longrightarrow> cv_btree (ovs2 ! d) = cv_btree (?ovs ! d) \<and>
         map_of (cv_indexed (ovs2 ! d)) = map_of (cv_indexed (?ovs ! d)) ++
           writes (rc_of opt d) i (case map_of sets (word_of_nat d) of Some s \<Rightarrow> ic_changes s | None \<Rightarrow> [])"
    unfolding length_list_update by blast
  have "cv_btree (ovs2 ! d) = cv_btree (ovs ! d) \<and>
       map_of (cv_indexed (ovs2 ! d)) = map_of (cv_indexed (ovs ! d)) ++
         writes (rc_of opt d) i (case map_of (a # sets) (word_of_nat d) of Some s \<Rightarrow> ic_changes s | None \<Rightarrow> [])"
    if d: "d < min 256 (length ovs)" for d
  proof (cases "d = unat c")
    case True
    then have "word_of_nat d = c" "map_of sets c = None" using c by (auto simp: map_of_eq_None_iff)
    with rest(3) [OF d] True al(2) o(2) show ?thesis by (simp add: a)
  next
    case False
    then have "word_of_nat d \<noteq> c" using d unat_word_of_nat_u8 [of d] by auto
    with rest(3) [OF d] False show ?thesis by (simp add: a)
  qed
  with first rest(1,2) show ?case by auto
qed simp

lemma for_each_btree:
  assumes "distinct (map fst sets)" "list_all (\<lambda>(c, s). set_allowed opt (length ovs) c (bs_col s) (bs_changes s)) sets"
  shows "\<exists>ovs' b'. for_each (btree_copy_to_overlay opt i) sets (ovs, b) = (Ok (), ovs', b') \<and>
    length ovs' = length ovs \<and>
    (\<forall>c < min 256 (length ovs). cv_indexed (ovs' ! c) = cv_indexed (ovs ! c) \<and>
       map_of (cv_btree (ovs' ! c)) = map_of (cv_btree (ovs ! c)) ++
         writes (rc_of opt c) i (case map_of sets (word_of_nat c) of Some s \<Rightarrow> bs_changes s | None \<Rightarrow> []))"
  using assms
proof (induction sets arbitrary: ovs b)
  case (Cons a sets)
  obtain c s where a: "a = (c, s)" by (cases a)
  with Cons.prems have al: "c = bs_col s" "unat c < length ovs" "unat c < length (op_columns opt)"
      "list_all (countable (rc_of opt (unat c))) (bs_changes s)" and c: "c \<notin> fst ` set sets"
    by (auto simp: set_allowed_def rc_of_def)
  obtain ov' b' where o: "copy_btree (rc_of opt (unat c)) i (bs_changes s) (cv_btree (ovs ! unat c), b) = (Ok (), ov', b')"
      "map_of ov' = map_of (cv_btree (ovs ! unat c)) ++ writes (rc_of opt (unat c)) i (bs_changes s)"
    using copy_btree_ok [OF al(4)] by blast
  let ?ovs = "ovs[unat c := (ovs ! unat c)\<lparr>cv_btree := ov'\<rparr>]"
  have first: "btree_copy_to_overlay opt i a (ovs, b) = (Ok (), ?ovs, b')"
    using al o(1) by (simp add: btree_copy_to_overlay_def a rc_of_def)
  have "distinct (map fst sets)"
      "list_all (\<lambda>(c, s). set_allowed opt (length ?ovs) c (bs_col s) (bs_changes s)) sets"
    using Cons.prems by simp_all
  from Cons.IH [OF this, of b'] obtain ovs2 b2 where
    rest: "for_each (btree_copy_to_overlay opt i) sets (?ovs, b') = (Ok (), ovs2, b2)" "length ovs2 = length ovs"
      "\<And>d. d < min 256 (length ovs) \<Longrightarrow> cv_indexed (ovs2 ! d) = cv_indexed (?ovs ! d) \<and>
         map_of (cv_btree (ovs2 ! d)) = map_of (cv_btree (?ovs ! d)) ++
           writes (rc_of opt d) i (case map_of sets (word_of_nat d) of Some s \<Rightarrow> bs_changes s | None \<Rightarrow> [])"
    unfolding length_list_update by blast
  have "cv_indexed (ovs2 ! d) = cv_indexed (ovs ! d) \<and>
       map_of (cv_btree (ovs2 ! d)) = map_of (cv_btree (ovs ! d)) ++
         writes (rc_of opt d) i (case map_of (a # sets) (word_of_nat d) of Some s \<Rightarrow> bs_changes s | None \<Rightarrow> [])"
    if d: "d < min 256 (length ovs)" for d
  proof (cases "d = unat c")
    case True
    then have "word_of_nat d = c" "map_of sets c = None" using c by (auto simp: map_of_eq_None_iff)
    with rest(3) [OF d] True al(2) o(2) show ?thesis by (simp add: a)
  next
    case False
    then have "word_of_nat d \<noteq> c" using d unat_word_of_nat_u8 [of d] by auto
    with rest(3) [OF d] False show ?thesis by (simp add: a)
  qed
  with first rest(1,2) show ?case by auto
qed simp

theorem copy_change_set_ok:
  assumes "change_set_allowed opt (length ovs) cs"
  shows "\<exists>ovs' b'. copy_change_set opt i cs (ovs, b) = (Ok (), ovs', b') \<and> length ovs' = length ovs \<and>
    (\<forall>c < min 256 (length ovs). \<forall>ix. overlay_map ix (ovs' ! c) =
       overlay_map ix (ovs ! c) ++ writes (rc_of opt c) i (set_ops ix cs c))"
proof -
  from assms have a: "distinct (map fst (cs_indexed cs))" "distinct (map fst (cs_btree cs))"
      "list_all (\<lambda>(c, s). set_allowed opt (length ovs) c (ic_col s) (ic_changes s)) (cs_indexed cs)"
      "list_all (\<lambda>(c, s). set_allowed opt (length ovs) c (bs_col s) (bs_changes s)) (cs_btree cs)"
    by (simp_all add: change_set_allowed_def)
  from for_each_indexed [OF a(1,3), of i b] obtain ovs1 b1 where
    1: "for_each (indexed_copy_to_overlay opt i) (cs_indexed cs) (ovs, b) = (Ok (), ovs1, b1)" "length ovs1 = length ovs"
      "\<And>c. c < min 256 (length ovs) \<Longrightarrow> cv_btree (ovs1 ! c) = cv_btree (ovs ! c) \<and>
         map_of (cv_indexed (ovs1 ! c)) = map_of (cv_indexed (ovs ! c)) ++ writes (rc_of opt c) i (set_ops True cs c)"
    by (auto simp: set_ops_def)
  from for_each_btree [of "cs_btree cs" opt ovs1 i b1] a(2,4) 1(2) obtain ovs2 b2 where
    2: "for_each (btree_copy_to_overlay opt i) (cs_btree cs) (ovs1, b1) = (Ok (), ovs2, b2)" "length ovs2 = length ovs1"
      "\<And>c. c < min 256 (length ovs) \<Longrightarrow> cv_indexed (ovs2 ! c) = cv_indexed (ovs1 ! c) \<and>
         map_of (cv_btree (ovs2 ! c)) = map_of (cv_btree (ovs1 ! c)) ++ writes (rc_of opt c) i (set_ops False cs c)"
    by (auto simp: set_ops_def)
  have "overlay_map ix (ovs2 ! c) = overlay_map ix (ovs ! c) ++ writes (rc_of opt c) i (set_ops ix cs c)"
    if "c < min 256 (length ovs)" for c ix
    using 1(3) [OF that] 2(3) [OF that] by (cases ix) (simp_all add: overlay_map_def)
  with 1(1,2) 2(1,2) show ?thesis by (simp add: copy_change_set_def)
qed

section \<open>Cleaning\<close>

lemma map_of_remove_own:
  "map_of (remove_own i k ov) =
     (\<lambda>k'. if k' = k \<and> (\<exists>v. map_of ov k = Some (i, v)) then None else map_of ov k')"
  by (auto simp: remove_own_def delete_conv' split: option.splits)

text \<open>Entries of record \<open>i\<close> go when their key is among the keys, all others stay.\<close>

definition cleaned :: "u64 \<Rightarrow> 'k set \<Rightarrow> ('k \<Rightarrow> (u64 \<times> 'v) option) \<Rightarrow> 'k \<Rightarrow> (u64 \<times> 'v) option" where
  "cleaned i K m = (\<lambda>k. if k \<in> K \<and> (\<exists>v. m k = Some (i, v)) then None else m k)"

lemma cleaned_cleaned: "cleaned i K (cleaned i K' m) = cleaned i (K \<union> K') m"
  by (rule ext) (auto simp: cleaned_def)

lemma clean_indexed_map:
  "map_of (clean_indexed i ops ov) = cleaned i (op_key ` {op \<in> set ops. \<not> (\<exists>k. op = Reference k)}) (map_of ov)"
proof (induction ops arbitrary: ov)
  case (Cons op ops)
  have "map_of (remove_own i k ov) = cleaned i {k} (map_of ov)" for k
    by (rule ext) (auto simp: map_of_remove_own cleaned_def)
  moreover have "op_key ` {o' \<in> set (op # ops). \<not> (\<exists>k. o' = Reference k)} =
      op_key ` {o' \<in> set ops. \<not> (\<exists>k. o' = Reference k)} \<union> (if \<exists>k. op = Reference k then {} else {op_key op})"
    by auto
  ultimately show ?case using Cons.IH by (cases op) (simp_all add: cleaned_cleaned)
qed (simp add: cleaned_def)

lemma clean_btree_map: "map_of (clean_btree i ops ov) = cleaned i (op_key ` set ops) (map_of ov)"
proof (induction ops arbitrary: ov)
  case (Cons op ops)
  have "map_of (remove_own i k ov) = cleaned i {k} (map_of ov)" for k
    by (rule ext) (auto simp: map_of_remove_own cleaned_def)
  with Cons.IH show ?case by (simp add: cleaned_cleaned)
qed (simp add: cleaned_def)

text \<open>Cleaning undoes the writes of its own record below whatever was written by others.\<close>

lemma cleaned_writes:
  assumes "\<And>k. writes rc i ops k \<noteq> None \<Longrightarrow> k \<in> K" "\<And>k e. B k = Some e \<Longrightarrow> fst e \<noteq> i"
  shows "cleaned i K (writes rc i ops ++ B) = B"
proof
  fix k
  show "cleaned i K (writes rc i ops ++ B) k = B k"
    using assms writes_id [of rc i ops k]
    by (cases "B k"; cases "writes rc i ops k") (fastforce simp: cleaned_def map_add_def)+
qed

lemma cleaned_indexed_writes:
  assumes "\<And>k e. B k = Some e \<Longrightarrow> fst e \<noteq> i"
  shows "cleaned i (op_key ` {op \<in> set ops. \<not> (\<exists>k. op = Reference k)}) (writes rc i ops ++ B) = B"
  by (rule cleaned_writes [OF _ assms]) (use writes_key in \<open>force+\<close>)

lemma cleaned_btree_writes:
  assumes "\<And>k e. B k = Some e \<Longrightarrow> fst e \<noteq> i"
  shows "cleaned i (op_key ` set ops) (writes rc i ops ++ B) = B"
  by (rule cleaned_writes [OF _ assms]) (use writes_key in \<open>force+\<close>)

lemma cleaned_empty: "cleaned i {} m = m"
  by (simp add: cleaned_def)

text \<open>The keys that a change set cleans in a column.\<close>

definition clean_keys :: "bool \<Rightarrow> commit_change_set \<Rightarrow> nat \<Rightarrow> bytes set" where
  "clean_keys ix cs c =
     (if ix then op_key ` {op \<in> set (set_ops True cs c). \<not> (\<exists>k. op = Reference k)}
      else op_key ` set (set_ops False cs c))"

lemma foldl_sets:
  assumes "distinct (map fst sets)" "c < min 256 (length ovs)"
    and f: "\<And>c s o'. sel (f (c, s) o') = g s (sel o')"
  shows "length (foldl (\<lambda>ovs (c, s). ovs[unat c := f (c :: u8, s) (ovs ! unat c)]) ovs sets) = length ovs \<and>
    sel (foldl (\<lambda>ovs (c, s). ovs[unat c := f (c, s) (ovs ! unat c)]) ovs sets ! c) =
      (case map_of sets (word_of_nat c) of Some s \<Rightarrow> g s (sel (ovs ! c)) | None \<Rightarrow> sel (ovs ! c))"
  using assms(1,2)
proof (induction sets arbitrary: ovs)
  case (Cons a sets)
  obtain d s where a: "a = (d, s)" by (cases a)
  let ?ovs = "ovs[unat d := f a (ovs ! unat d)]"
  have IH: "length (foldl (\<lambda>ovs (c, s). ovs[unat c := f (c, s) (ovs ! unat c)]) ?ovs sets) = length ovs \<and>
    sel (foldl (\<lambda>ovs (c, s). ovs[unat c := f (c, s) (ovs ! unat c)]) ?ovs sets ! c) =
      (case map_of sets (word_of_nat c) of Some s \<Rightarrow> g s (sel (?ovs ! c)) | None \<Rightarrow> sel (?ovs ! c))"
    using Cons.IH [of ?ovs] Cons.prems by simp
  show ?case
  proof (cases "c = unat d")
    case True
    then have "word_of_nat c = d" "map_of sets d = None" using Cons.prems a by (auto simp: map_of_eq_None_iff)
    with IH True Cons.prems a f show ?thesis by simp
  next
    case False
    then have "word_of_nat c \<noteq> d" using Cons.prems(2) unat_word_of_nat_u8 [of c] by auto
    moreover have "?ovs ! c = ovs ! c" using False by simp
    ultimately show ?thesis using IH by (cases "map_of sets (word_of_nat c)") (simp_all add: a)
  qed
qed simp

lemma foldl_sets_frame:
  assumes "\<And>c s o'. sel (f (c, s) o') = sel o'"
  shows "length (foldl (\<lambda>ovs (c, s). ovs[unat c := f (c :: u8, s) (ovs ! unat c)]) ovs sets) = length ovs \<and>
    (c < length ovs \<longrightarrow>
      sel (foldl (\<lambda>ovs (c, s). ovs[unat c := f (c, s) (ovs ! unat c)]) ovs sets ! c) = sel (ovs ! c))"
proof (induction sets arbitrary: ovs)
  case (Cons a sets)
  obtain d s where a: "a = (d, s)" by (cases a)
  show ?case using Cons.IH [of "ovs[unat d := f a (ovs ! unat d)]"] assms
    by (cases "c = unat d") (simp_all add: a)
qed simp

lemma foldl_length: "(\<And>xs y. length (h xs y) = length xs) \<Longrightarrow> length (foldl h xs ys) = length xs"
  by (induction ys arbitrary: xs) simp_all

lemma clean_change_set_length [simp]: "length (clean_change_set i cs ovs) = length ovs"
  unfolding clean_change_set_def Let_def by (simp add: foldl_length split: prod.split)

theorem clean_change_set_map:
  assumes "distinct (map fst (cs_indexed cs))" "distinct (map fst (cs_btree cs))" "c < min 256 (length ovs)"
  shows "overlay_map ix (clean_change_set i cs ovs ! c) = cleaned i (clean_keys ix cs c) (overlay_map ix (ovs ! c))"
proof -
  let ?f = "\<lambda>(c :: u8, s) o'. o'\<lparr>cv_indexed := clean_indexed i (ic_changes s) (cv_indexed o')\<rparr>"
  let ?g = "\<lambda>(c :: u8, s) o'. o'\<lparr>cv_btree := clean_btree i (bs_changes s) (cv_btree o')\<rparr>"
  define ovs1 where "ovs1 = foldl (\<lambda>ovs (c, s). ovs[unat c := ?f (c, s) (ovs ! unat c)]) ovs (cs_indexed cs)"
  have cl: "clean_change_set i cs ovs = foldl (\<lambda>ovs (c, s). ovs[unat c := ?g (c, s) (ovs ! unat c)]) ovs1 (cs_btree cs)"
    by (simp add: clean_change_set_def ovs1_def)
  have 1: "length ovs1 = length ovs" "cv_indexed (ovs1 ! c) =
      (case map_of (cs_indexed cs) (word_of_nat c) of
         Some s \<Rightarrow> clean_indexed i (ic_changes s) (cv_indexed (ovs ! c)) | None \<Rightarrow> cv_indexed (ovs ! c))"
    using foldl_sets [OF assms(1,3), of cv_indexed ?f "\<lambda>s. clean_indexed i (ic_changes s)"]
    unfolding ovs1_def by simp_all
  have 2: "cv_btree (ovs1 ! c) = cv_btree (ovs ! c)"
    using foldl_sets_frame [of cv_btree ?f ovs "cs_indexed cs" c] assms(3) unfolding ovs1_def by simp
  have 3: "cv_btree (clean_change_set i cs ovs ! c) =
      (case map_of (cs_btree cs) (word_of_nat c) of
         Some s \<Rightarrow> clean_btree i (bs_changes s) (cv_btree (ovs1 ! c)) | None \<Rightarrow> cv_btree (ovs1 ! c))"
    using foldl_sets [OF assms(2), of c ovs1 cv_btree ?g "\<lambda>s. clean_btree i (bs_changes s)"] assms(3) 1(1)
    unfolding cl by simp
  have 4: "cv_indexed (clean_change_set i cs ovs ! c) = cv_indexed (ovs1 ! c)"
    using foldl_sets_frame [of cv_indexed ?g ovs1 "cs_btree cs" c] assms(3) 1(1) unfolding cl by simp
  show "overlay_map ix (clean_change_set i cs ovs ! c) = cleaned i (clean_keys ix cs c) (overlay_map ix (ovs ! c))"
    using 1(2) 2 3 4
    by (cases ix) (auto simp: overlay_map_def clean_keys_def set_ops_def clean_indexed_map clean_btree_map
        cleaned_empty split: option.splits)
qed

end
