(* ===== verification/Db_System.thy ===== *)
theory Db_System
  imports Db_Pending
begin

text \<open>
  Invariants of the database with its background threads, by rule induction over the step relation
  of \<open>Db_Workers\<close>: the commit overlay holds the writes of the pending commits and nothing else, and
  no worker sleeps while there is work for it.
\<close>

section \<open>What the operations leave alone\<close>

text \<open>The side of the database that commits work on.\<close>

definition front :: "db_inner \<Rightarrow> options \<times> commit_queue \<times> commit_overlay list" where
  "front db = (db_options db, db_commit_queue db, db_commit_overlay db)"

text \<open>The flags of the log worker, shutdown, and errors.\<close>

definition control :: "db_inner \<Rightarrow> bool \<times> bool \<times> bool \<times> bool \<times> error option" where
  "control db = (db_shutdown db, db_log_work db, db_commit_work db, db_cleanup_work db, db_bg_err db)"

lemma front_simps [simp]:
  "front (db\<lparr>db_columns := a\<rparr>) = front db" "front (db\<lparr>db_log := b\<rparr>) = front db"
  "front (db\<lparr>db_log_queue := c\<rparr>) = front db" "front (db\<lparr>db_flush_work := d\<rparr>) = front db"
  "front (db\<lparr>db_log_work := d\<rparr>) = front db" "front (db\<lparr>db_commit_work := d\<rparr>) = front db"
  "front (db\<lparr>db_cleanup_work := d\<rparr>) = front db" "front (db\<lparr>db_cleanup_done := d\<rparr>) = front db"
  "front (db\<lparr>db_last_enacted := e\<rparr>) = front db" "front (db\<lparr>db_next_reindex := e\<rparr>) = front db"
  "front (db\<lparr>db_bg_err := f\<rparr>) = front db" "front (db\<lparr>db_shutdown := d\<rparr>) = front db"
  "front (start_reindex e db) = front db" "front (shutdown db) = front db" "front (store_err r db) = front db"
  by (simp_all add: front_def start_reindex_def shutdown_def store_err_def split: result.split)

lemma control_simps [simp]:
  "control (db\<lparr>db_columns := a\<rparr>) = control db" "control (db\<lparr>db_log := b\<rparr>) = control db"
  "control (db\<lparr>db_log_queue := c\<rparr>) = control db" "control (db\<lparr>db_flush_work := d\<rparr>) = control db"
  "control (db\<lparr>db_cleanup_done := d\<rparr>) = control db"
  "control (db\<lparr>db_last_enacted := e\<rparr>) = control db" "control (db\<lparr>db_next_reindex := e\<rparr>) = control db"
  "control (start_reindex e db) = control db" "control (db\<lparr>db_commit_overlay := g\<rparr>) = control db"
  "control (db\<lparr>db_commit_queue := h\<rparr>) = control db"
  by (simp_all add: control_def start_reindex_def)

lemma reindex_columns_frame:
  "reindex_columns crc cs db = Ok (b, db') \<Longrightarrow> front db' = front db \<and> control db' = control db"
proof (induction crc cs db rule: reindex_columns.induct)
  case (2 crc c cs db)
  then show ?case
    by (auto simp: and_then_Ok_iff Let_def split: column.splits if_splits prod.splits)
qed auto

lemma process_reindex_frame:
  "process_reindex crc db = Ok (b, db') \<Longrightarrow> front db' = front db \<and> control db' = control db"
  using reindex_columns_frame by (auto simp: process_reindex_def split: if_splits)

text \<open>Enacting changes the columns and may schedule a re-index, nothing else before the end of the record.\<close>

definition only_columns :: "db_inner \<Rightarrow> db_inner \<Rightarrow> bool" where
  "only_columns db db' = (db' = db\<lparr>db_columns := db_columns db', db_next_reindex := db_next_reindex db'\<rparr>)"

lemma only_columns_upd [simp]:
  "only_columns db db"
  "only_columns d db \<Longrightarrow> only_columns d (db\<lparr>db_columns := cols\<rparr>)"
  "only_columns d db \<Longrightarrow> only_columns d (start_reindex i db)"
  by (cases d; cases db; simp add: only_columns_def start_reindex_def)+

lemma only_columns_frame:
  assumes "only_columns d db"
  shows "front db = front d" "control db = control d" "db_log db = db_log d" "db_flush_work db = db_flush_work d"
  using assms by (cases d; cases db; simp add: only_columns_def front_def control_def)+

lemma enact_body_columns:
  assumes "enact_body crc (db, r) = Ok x" "only_columns d db"
  shows "only_columns d (case x of Inl (db', _) \<Rightarrow> db' | Inr (db', _) \<Rightarrow> db')"
proof -
  obtain action r' where n: "log_next crc r = Ok (action, r')"
    using assms(1) by (auto simp: enact_body_def Let_def and_then_Ok_iff)
  show ?thesis
    using assms by (cases action) (auto simp: enact_body_def n Let_def and_then_Ok_iff split: column.splits prod.splits)
qed

lemma enact_record_frame:
  assumes "enact_record crc v r db = Ok db'"
  shows "front db' = front db \<and> control db' = control db \<and>
    lg_read_queue (db_log db') = lg_read_queue (db_log db) \<and> lg_appending (db_log db') = lg_appending (db_log db) \<and>
    lg_cleanup_queue (db_log db') = lg_cleanup_queue (db_log db) \<and> db_flush_work db' = db_flush_work db"
proof -
  obtain d r' where d: "loop_r (enact_body crc) (db, r) = Ok (d, r')"
      "db' = (let d = d\<lparr>db_last_enacted := lr_record_id r',
                        db_log := end_read (lr_drain r') (lr_record_id r') (close_reader r' (db_log d))\<rparr>
              in if v then d else d\<lparr>db_log_queue := db_log_queue d - int (lr_read_bytes r')\<rparr>)"
    using assms by (auto simp: enact_record_def and_then_Ok_iff Let_def)
  have "only_columns db (fst (d, r'))"
  proof (rule loop_r_inv [OF d(1), where I = "\<lambda>s. only_columns db (fst s)"])
    show "only_columns db (fst s')" if "only_columns db (fst s)" "enact_body crc s = Ok (Inl s')" for s s'
      using enact_body_columns [of crc "fst s" "snd s" "Inl s'" db] that by (auto split: prod.splits)
    show "only_columns db (fst r)" if "only_columns db (fst s)" "enact_body crc s = Ok (Inr r)" for s r
      using enact_body_columns [of crc "fst s" "snd s" "Inr r" db] that by (auto split: prod.splits)
  qed simp
  then show ?thesis using only_columns_frame [of db d] by (simp add: d(2) Let_def end_read_def close_reader_def)
qed

lemma read_next_record_frame:
  "read_next_record crc v lg = Ok (r, lg') \<Longrightarrow> lg_appending lg' = lg_appending lg \<and>
     (lg_read_queue lg = [] \<longrightarrow> lg_read_queue lg' = [])"
  by (auto simp: read_next_record_def Let_def close_reader_def split: option.splits list.splits result.splits prod.splits
      log_action.splits error.splits io_error.splits)

lemma enact_logs_frame:
  assumes "enact_logs crc False db = Ok (b, db')"
  shows "front db' = front db \<and> control db' = control db \<and> db_flush_work db' = db_flush_work db \<and>
    lg_appending (db_log db') = lg_appending (db_log db) \<and>
    (lg_read_queue (db_log db) = [] \<longrightarrow> lg_read_queue (db_log db') = [])"
proof -
  obtain r lg where r: "read_next_record crc False (db_log db) = Ok (r, lg)"
    using assms by (auto simp: enact_logs_def split: result.splits error.splits prod.splits option.splits)
  note lg = read_next_record_frame [OF r]
  show ?thesis
  proof (cases r)
    case None
    with assms r lg show ?thesis by (auto simp: enact_logs_def)
  next
    case (Some rd)
    with assms r have "enact_record crc False rd (db\<lparr>db_log := lg\<rparr>) = Ok db'"
      by (auto simp: enact_logs_def Let_def and_then_Ok_iff)
    from enact_record_frame [OF this] lg show ?thesis by simp
  qed
qed

lemma log_commit_frame:
  "log_commit crc cd c db = (r, db') \<Longrightarrow> front db' = front db \<and> control db' = control db"
  by (auto simp: log_commit_def Let_def split: result.splits prod.splits)

lemma flush_logs_frame:
  "flush_logs n db = (b, db') \<Longrightarrow> front db' = front db \<and> db_shutdown db' = db_shutdown db \<and>
     db_log_work db' = db_log_work db \<and> db_cleanup_work db' = db_cleanup_work db"
  by (auto simp: flush_logs_def Let_def split: prod.splits if_splits)

lemma clean_logs_frame:
  "clean_logs db = (b, db') \<Longrightarrow> front db' = front db \<and> control db' = control db \<and> db_flush_work db' = db_flush_work db \<and>
     lg_appending (db_log db') = lg_appending (db_log db) \<and> lg_read_queue (db_log db') = lg_read_queue (db_log db)"
  by (auto simp: clean_logs_def Let_def log_clean_logs_def split: prod.splits if_splits)

section \<open>Pending commits\<close>

definition in_flight :: "log_pc \<Rightarrow> commit list" where
  "in_flight pc = (case pc of LogPlan c \<Rightarrow> [c] | LogClean c _ \<Rightarrow> [c] | LogFailed c \<Rightarrow> [c] | _ \<Rightarrow> [])"

text \<open>The commits that are accepted and not yet in the log with their overlay entries removed.\<close>

definition pending :: "system \<Rightarrow> commit list" where
  "pending s = in_flight (sy_log s) @ cq_commits (db_commit_queue (sy_db s))"

primrec pending_map :: "options \<Rightarrow> bool \<Rightarrow> nat \<Rightarrow> commit list \<Rightarrow> bytes overlay_map" where
  "pending_map opt ix c [] = Map.empty"
| "pending_map opt ix c (cm # cms) =
     writes (rc_of opt c) (cm_id cm) (set_ops ix (cm_changeset cm) c) ++ pending_map opt ix c cms"

lemma pending_map_append: "pending_map opt ix c (xs @ ys) = pending_map opt ix c xs ++ pending_map opt ix c ys"
  by (induction xs) simp_all

lemma pending_map_id: "pending_map opt ix c cms k = Some e \<Longrightarrow> fst e \<in> cm_id ` set cms"
  by (induction cms) (auto simp: map_add_Some_iff dest: writes_id)

definition queue_inv :: "options \<Rightarrow> commit_overlay list \<Rightarrow> u64 \<Rightarrow> commit list \<Rightarrow> bool" where
  "queue_inv opt ovs rid cms \<longleftrightarrow>
     (\<forall>cm \<in> set cms. change_set_allowed opt (length ovs) (cm_changeset cm) \<and> unat (cm_id cm) \<le> unat rid + 1) \<and>
     distinct (map cm_id cms) \<and>
     (\<forall>c < min 256 (length ovs). \<forall>ix. overlay_map ix (ovs ! c) = pending_map opt ix c cms)"

definition overlay_inv :: "system \<Rightarrow> bool" where
  "overlay_inv s =
     queue_inv (db_options (sy_db s)) (db_commit_overlay (sy_db s)) (cq_record_id (db_commit_queue (sy_db s))) (pending s)"

lemma overlay_inv_map:
  assumes "overlay_inv s" "unat (col :: u8) < length (db_commit_overlay (sy_db s))"
  shows "overlay_map ix (db_commit_overlay (sy_db s) ! unat col) =
    pending_map (db_options (sy_db s)) ix (unat col) (pending s)"
proof -
  have "unat col < 256" by simp
  with assms show ?thesis unfolding overlay_inv_def queue_inv_def by simp
qed

lemma queue_inv_commit:
  assumes inv: "queue_inv opt ovs rid cms" and al: "change_set_allowed opt (length ovs) cs" and rid: "rid < 0xfffffffffffffff0"
    and copy: "copy_change_set opt (rid + 1 + 1) cs (ovs, 0) = (r, ovs', b)"
  shows "r = Ok () \<and> queue_inv opt ovs' (rid + 1) (cms @ [\<lparr>cm_id = rid + 1 + 1, cm_bytes = b, cm_changeset = cs\<rparr>])"
proof -
  from copy_change_set_ok [OF al, of "rid + 1 + 1" 0] copy have c: "r = Ok ()" "length ovs' = length ovs"
      "\<And>c ix. c < min 256 (length ovs) \<Longrightarrow> overlay_map ix (ovs' ! c) =
         overlay_map ix (ovs ! c) ++ writes (rc_of opt c) (rid + 1 + 1) (set_ops ix cs c)"
    by auto
  have "unat rid < 18446744073709551600" using rid by (simp add: word_less_nat_alt)
  then have u: "unat (rid + 1) = unat rid + 1" "unat (rid + 1 + 1) = unat rid + 2"
    by (simp_all add: unat_word_ariths)
  have "cm_id cm \<noteq> rid + 1 + 1" if "cm \<in> set cms" for cm
  proof
    assume "cm_id cm = rid + 1 + 1"
    with u(2) have "unat (cm_id cm) = unat rid + 2" by simp
    moreover have "unat (cm_id cm) \<le> unat rid + 1" using inv that by (auto simp: queue_inv_def)
    ultimately show False by simp
  qed
  moreover have "unat (cm_id cm) \<le> unat (rid + 1) + 1" if "cm \<in> set cms" for cm
    using inv that u(1) by (fastforce simp: queue_inv_def)
  ultimately show ?thesis using inv al c u
    by (auto simp: queue_inv_def pending_map_append)
qed

lemma queue_inv_clean:
  assumes inv: "queue_inv opt ovs rid (cm # cms)"
  shows "queue_inv opt (clean_change_set (cm_id cm) (cm_changeset cm) ovs) rid cms"
proof -
  let ?ovs = "clean_change_set (cm_id cm) (cm_changeset cm) ovs"
  have al: "distinct (map fst (cs_indexed (cm_changeset cm)))" "distinct (map fst (cs_btree (cm_changeset cm)))"
    using inv by (auto simp: queue_inv_def change_set_allowed_def)
  have "overlay_map ix (?ovs ! c) = pending_map opt ix c cms" if c: "c < min 256 (length ovs)" for c ix
  proof -
    have i: "fst e \<noteq> cm_id cm" if "pending_map opt ix c cms k = Some e" for k e
      using pending_map_id [OF that] inv by (auto simp: queue_inv_def)
    have "cleaned (cm_id cm) (clean_keys ix (cm_changeset cm) c)
        (writes (rc_of opt c) (cm_id cm) (set_ops ix (cm_changeset cm) c) ++ pending_map opt ix c cms) = pending_map opt ix c cms"
    proof (cases ix)
      case True
      have "clean_keys ix (cm_changeset cm) c = op_key ` {op \<in> set (set_ops ix (cm_changeset cm) c). \<not> (\<exists>k. op = Reference k)}"
        using True by (simp add: clean_keys_def)
      then show ?thesis using cleaned_indexed_writes [OF i] by simp
    next
      case False
      have "clean_keys ix (cm_changeset cm) c = op_key ` set (set_ops ix (cm_changeset cm) c)"
        using False by (simp add: clean_keys_def)
      then show ?thesis using cleaned_btree_writes [OF i] by simp
    qed
    moreover have "overlay_map ix (ovs ! c) =
        writes (rc_of opt c) (cm_id cm) (set_ops ix (cm_changeset cm) c) ++ pending_map opt ix c cms"
      using inv c by (simp add: queue_inv_def)
    ultimately show ?thesis using clean_change_set_map [OF al c, where i = "cm_id cm" and ix = ix] by simp
  qed
  with inv show ?thesis by (auto simp: queue_inv_def)
qed

lemma pop_commit_front:
  "pop_commit db = (Some c, db') \<Longrightarrow>
     cq_commits (db_commit_queue db) = c # cq_commits (db_commit_queue db') \<and> db_options db' = db_options db \<and>
     db_commit_overlay db' = db_commit_overlay db \<and> cq_record_id (db_commit_queue db') = cq_record_id (db_commit_queue db) \<and>
     control db' = control db \<and> db_flush_work db' = db_flush_work db \<and> db_log db' = db_log db"
  by (auto simp: pop_commit_def Let_def control_def split: list.splits)

lemma pop_commit_none: "pop_commit db = (None, db') \<Longrightarrow> db' = db \<and> cq_commits (db_commit_queue db) = []"
  by (auto simp: pop_commit_def Let_def split: list.splits)

lemma worker_fails_front: "worker_fails r db db' \<Longrightarrow> front db' = front db"
  by (erule worker_fails.cases) simp_all

lemma overlay_inv_front:
  assumes "overlay_inv s" "front (sy_db s') = front (sy_db s)" "in_flight (sy_log s') = in_flight (sy_log s)"
  shows "overlay_inv s'"
  using assms by (simp add: overlay_inv_def pending_def front_def)

lemma log_step_overlay:
  assumes "log_step crc cd (db, pc) (db', pc')" "overlay_inv s" "sy_db s = db" "sy_log s = pc"
  shows "overlay_inv (s\<lparr>sy_db := db', sy_log := pc'\<rparr>)"
  using assms(1)
proof (cases rule: log_step.cases)
  case (log_pop c)
  from pop_commit_front [OF log_pop(3)] log_pop assms(2-) show ?thesis
    by (simp add: overlay_inv_def pending_def in_flight_def)
next
  case (log_clean c r)
  with assms(2-) have "queue_inv (db_options db) (db_commit_overlay db) (cq_record_id (db_commit_queue db))
      (c # cq_commits (db_commit_queue db))"
    by (simp add: overlay_inv_def pending_def in_flight_def)
  from queue_inv_clean [OF this] log_clean show ?thesis
    by (auto simp: overlay_inv_def pending_def in_flight_def finish_commit_def clean_commit_def start_reindex_def Let_def
        split: prod.splits)
next
  case (log_plan c r)
  with log_commit_frame [OF log_plan(3)] assms(2-) show ?thesis
    by (auto intro!: overlay_inv_front [OF assms(2)] simp: in_flight_def)
next
  case (log_plan_fails c r db1)
  with log_commit_frame [OF log_plan_fails(3)] worker_fails_front [OF log_plan_fails(4)] assms(2-) show ?thesis
    by (auto intro!: overlay_inv_front [OF assms(2)] simp: in_flight_def)
qed (use assms(2-) in \<open>auto intro!: overlay_inv_front [OF assms(2)] simp: in_flight_def
      dest: process_reindex_frame worker_fails_front pop_commit_none\<close>)

lemma commit_step_front: "commit_step crc (db, pc) (db', pc') \<Longrightarrow> front db' = front db"
  by (erule commit_step.cases) (auto dest: enact_logs_frame worker_fails_front)

lemma flush_step_front: "flush_step n (db, pc) (db', pc') \<Longrightarrow> front db' = front db"
  by (erule flush_step.cases) (auto dest: flush_logs_frame)

lemma cleanup_step_front: "cleanup_step (db, pc) (db', pc') \<Longrightarrow> front db' = front db"
  by (erule cleanup_step.cases) (auto dest: clean_logs_frame)

lemma commit_raw_overlay:
  assumes "overlay_inv s" "change_set_allowed (db_options (sy_db s)) (length (db_commit_overlay (sy_db s))) cs"
    "ids_left (sy_db s)" "commit_raw cs (sy_db s) = (r, db')"
  shows "overlay_inv (s\<lparr>sy_db := db'\<rparr>)"
proof (cases "db_bg_err (sy_db s)")
  case None
  let ?db = "sy_db s" and ?rid = "cq_record_id (db_commit_queue (sy_db s))"
  obtain ro ovs b where copy: "copy_change_set (db_options ?db) (?rid + 1 + 1) cs (db_commit_overlay ?db, 0) = (ro, ovs, b)"
    by (metis prod_cases3)
  have "?rid < 0xfffffffffffffff0" using assms(3) by (simp add: ids_left_def)
  from queue_inv_commit [OF assms(1) [unfolded overlay_inv_def] assms(2) this copy]
  have q: "ro = Ok ()" "queue_inv (db_options ?db) ovs (?rid + 1)
      (pending s @ [\<lparr>cm_id = ?rid + 1 + 1, cm_bytes = b, cm_changeset = cs\<rparr>])" by simp_all
  with assms(4) None copy show ?thesis
    by (auto simp: commit_raw_def Let_def overlay_inv_def pending_def queue_commit_def)
next
  case (Some e)
  with assms(4) show ?thesis by (intro overlay_inv_front [OF assms(1)]) (simp_all add: commit_raw_def)
qed

lemma system_step_overlay:
  assumes "system_step crc cd n s s'" "overlay_inv s"
  shows "overlay_inv s'"
  using assms(1)
proof (cases rule: system_step.cases)
  case (client_commit cs r db')
  with commit_raw_overlay [OF assms(2)] show ?thesis by blast
next
  case (log_worker db' pc)
  with log_step_overlay [OF _ assms(2)] show ?thesis by blast
qed (use assms(2) commit_step_front flush_step_front cleanup_step_front in
    \<open>auto intro!: overlay_inv_front [OF assms(2)]\<close>)

lemma fresh_overlay_inv: "fresh_db db \<Longrightarrow> overlay_inv (system_start db)"
  by (auto simp: overlay_inv_def queue_inv_def pending_def in_flight_def system_start_def fresh_db_def overlay_map_def
      list_all_length commit_overlay_new_def)

lemma reachable_overlay: "reachable crc cd n db s \<Longrightarrow> fresh_db db \<Longrightarrow> overlay_inv s"
  by (induction rule: reachable.induct) (auto intro: fresh_overlay_inv system_step_overlay)

end
