(* ===== verification/Db_Wake.thy ===== *)
theory Db_Wake
  imports Db_System
begin

text \<open>
  No lost wake-ups: a worker that waits on a cleared flag has nothing to do, and after a shutdown no
  worker waits on a cleared flag. The log worker empties the queue of commits.
\<close>

section \<open>The invariant\<close>

definition appending_size :: "log_state \<Rightarrow> u64" where
  "appending_size lg = (case lg_appending lg of Some (_, _, sz) \<Rightarrow> sz | None \<Rightarrow> 0)"

text \<open>The log worker has seen an empty queue, or has not looked yet, and does not look again before it waits.\<close>

fun may_sleep :: "log_pc \<Rightarrow> bool" where
  "may_sleep LogStart = True"
| "may_sleep (LogLoop c _) = (\<not> c)"
| "may_sleep LogWait = True"
| "may_sleep (LogReindex c) = (\<not> c)"
| "may_sleep _ = False"

definition log_awake :: "db_inner \<Rightarrow> log_pc \<Rightarrow> bool" where
  "log_awake db pc \<longleftrightarrow>
     (may_sleep pc \<and> \<not> db_log_work db \<longrightarrow> cq_commits (db_commit_queue db) = []) \<and>
     (db_shutdown db \<and> pc = LogWait \<longrightarrow> db_log_work db)"

definition commit_awake :: "db_inner \<Rightarrow> commit_pc \<Rightarrow> bool" where
  "commit_awake db pc \<longleftrightarrow>
     (pc = ComWait \<and> \<not> db_commit_work db \<longrightarrow> lg_read_queue (db_log db) = []) \<and>
     (db_shutdown db \<and> (pc = ComCheck \<or> pc = ComWait) \<longrightarrow> db_commit_work db)"

definition flush_awake :: "u64 \<Rightarrow> db_inner \<Rightarrow> flush_pc \<Rightarrow> bool" where
  "flush_awake n db pc \<longleftrightarrow>
     ((pc = FlushWait \<or> pc = FlushLoop False) \<and> \<not> db_flush_work db \<longrightarrow> appending_size (db_log db) \<le> n) \<and>
     (db_shutdown db \<and> pc = FlushWait \<longrightarrow> db_flush_work db)"

definition cleanup_awake :: "db_inner \<Rightarrow> cleanup_pc \<Rightarrow> bool" where
  "cleanup_awake db pc \<longleftrightarrow> (db_shutdown db \<and> pc = CleanWait \<longrightarrow> db_cleanup_work db)"

lemmas awake_defs = log_awake_def commit_awake_def flush_awake_def cleanup_awake_def

definition awake :: "u64 \<Rightarrow> system \<Rightarrow> bool" where
  "awake n s \<longleftrightarrow> log_awake (sy_db s) (sy_log s) \<and> commit_awake (sy_db s) (sy_commit s) \<and>
     flush_awake n (sy_db s) (sy_flush s) \<and> cleanup_awake (sy_db s) (sy_cleanup s)"

section \<open>How the operations treat the other workers\<close>

text \<open>
  \<open>others_kept\<close>: the waiting conditions of the commit, flush and clean-up workers stay; either no flag
  is cleared and no work is added without its flag, or the database is shut down with all flags set.
\<close>

definition others_kept :: "db_inner \<Rightarrow> db_inner \<Rightarrow> bool" where
  "others_kept db db' \<longleftrightarrow>
     (db_shutdown db' = db_shutdown db \<or> db_flush_work db' \<and> db_commit_work db' \<and> db_cleanup_work db') \<and>
     (db_commit_work db \<longrightarrow> db_commit_work db') \<and> (db_cleanup_work db \<longrightarrow> db_cleanup_work db') \<and>
     (db_flush_work db \<longrightarrow> db_flush_work db') \<and>
     (db_commit_work db' \<or> (lg_read_queue (db_log db) = [] \<longrightarrow> lg_read_queue (db_log db') = [])) \<and>
     (db_flush_work db' \<or> appending_size (db_log db') = appending_size (db_log db))"

lemma others_kept_awake:
  assumes "others_kept db db'"
  shows "commit_awake db pc1 \<Longrightarrow> commit_awake db' pc1" "flush_awake n db pc2 \<Longrightarrow> flush_awake n db' pc2"
    "cleanup_awake db pc3 \<Longrightarrow> cleanup_awake db' pc3"
  using assms by (auto simp: others_kept_def awake_defs)

lemma begin_record_log [simp]:
  "lg_read_queue (snd (begin_record lg)) = lg_read_queue lg" "lg_appending (snd (begin_record lg)) = lg_appending lg"
  by (simp_all add: begin_record_def)

lemma end_record_read_queue:
  "end_record crc c lg = Ok (b, lg') \<Longrightarrow> lg_read_queue lg' = lg_read_queue lg"
  by (auto simp: end_record_def and_then_Ok_iff Let_def activate_appending_def flush_to_file_def
      split: option.splits list.splits prod.splits)

lemma log_commit_others: "log_commit crc cd c db = (r, db') \<Longrightarrow> others_kept db db' \<and> db_log_work db' = db_log_work db"
  by (auto simp: log_commit_def Let_def others_kept_def appending_size_def end_record_read_queue begin_record_def
      split: result.splits prod.splits)

lemma reindex_record_read_queue:
  "reindex_record crc rb hc lg = Ok (hc', i, b, m, lg') \<Longrightarrow> lg_read_queue lg' = lg_read_queue lg"
  by (auto simp: reindex_record_def begin_record_def and_then_Ok_iff Let_def dest: end_record_read_queue)

lemma reindex_columns_log:
  "reindex_columns crc cs db = Ok (b, db') \<Longrightarrow> lg_read_queue (db_log db') = lg_read_queue (db_log db) \<and>
     (db_flush_work db' \<or> db_log db' = db_log db \<and> db_flush_work db' = db_flush_work db)"
proof (induction crc cs db rule: reindex_columns.induct)
  case (2 crc c cs db)
  show ?case
  proof (cases "db_columns db ! c")
    case (Hash hc)
    with 2(3) obtain rb hc1 where rb: "hc_reindex_batch hc (lg_overlays (db_log db)) = Ok (rb, hc1)"
      by (auto simp: and_then_Ok_iff)
    let ?db = "db\<lparr>db_columns := (db_columns db)[c := Hash hc1]\<rparr>"
    show ?thesis
    proof (cases "rb_batch rb \<noteq> [] \<or> rb_drop_index rb \<noteq> None")
      case True
      with 2(3) Hash rb obtain hc2 i n again lg where r: "reindex_record crc rb hc1 (db_log db) = Ok (hc2, i, n, again, lg)"
          "db_log db' = lg" "db_flush_work db'"
        by (auto simp: and_then_Ok_iff Let_def start_reindex_def)
      with reindex_record_read_queue [OF r(1)] show ?thesis by simp
    next
      case False
      with 2(3) Hash rb have "reindex_columns crc cs ?db = Ok (b, db')" by (simp add: Let_def)
      from 2(1) [OF Hash rb refl refl False this] show ?thesis by simp
    qed
  qed (use 2 in simp)
qed auto

lemma process_reindex_others:
  assumes "process_reindex crc db = Ok (b, db')"
  shows "others_kept db db'"
proof -
  have c: "control db' = control db" using process_reindex_frame [OF assms] by simp
  have "lg_read_queue (db_log db') = lg_read_queue (db_log db) \<and>
     (db_flush_work db' \<or> db_log db' = db_log db \<and> db_flush_work db' = db_flush_work db)"
    using assms reindex_columns_log [of crc "[0..<length (db_columns db)]" db b db']
    by (simp add: process_reindex_def split: if_splits)
  with c show ?thesis unfolding others_kept_def control_def by auto
qed

lemma worker_fails_cases:
  assumes "worker_fails r db db'"
  obtains "db' = db" | e where "db_bg_err db = None" "db' = shutdown (db\<lparr>db_bg_err := Some e\<rparr>)"
  using assms by (auto elim!: worker_fails.cases simp: store_err_def split: if_splits)

lemma worker_fails_others:
  "worker_fails r db db' \<Longrightarrow> others_kept db db' \<and> (db_log_work db \<longrightarrow> db_log_work db') \<and>
     (db_shutdown db' = db_shutdown db \<or> db_log_work db')"
  by (erule worker_fails_cases) (auto simp: others_kept_def shutdown_def)

lemma shutdown_others: "others_kept db (shutdown db) \<and> db_log_work (shutdown db)"
  by (auto simp: others_kept_def shutdown_def)

lemma others_kept_trans: "others_kept a b \<Longrightarrow> others_kept b c \<Longrightarrow> others_kept a c"
  unfolding others_kept_def by metis

section \<open>Steps keep the invariant\<close>

lemma log_step_others: "log_step crc cd (db, pc) (db', pc') \<Longrightarrow> others_kept db db'"
proof (erule log_step.cases, goal_cases)
  case 8 then show ?case using pop_commit_front by (force simp: others_kept_def control_def)
next
  case 10 then show ?case using log_commit_others worker_fails_others others_kept_trans by blast
next
  case 11 then show ?case
    by (auto simp: others_kept_def finish_commit_def clean_commit_def start_reindex_def Let_def split: prod.splits)
qed (auto simp: others_kept_def dest: process_reindex_others worker_fails_others pop_commit_none log_commit_others)

lemma log_step_awake:
  assumes "log_step crc cd (db, pc) (db', pc')" "log_awake db pc"
  shows "log_awake db' pc'"
  using assms
proof (cases rule: log_step.cases)
  case (log_start b)
  with process_reindex_frame [of crc db b db'] assms(2) show ?thesis by (auto simp: log_awake_def front_def control_def)
next
  case (log_reindex b c)
  with process_reindex_frame [of crc db b db'] assms(2) show ?thesis by (auto simp: log_awake_def front_def control_def)
qed (auto simp: log_awake_def dest: pop_commit_none)

lemma commit_raw_awake:
  assumes "commit_raw cs db = (r, db')" "log_awake db pc"
  shows "others_kept db db' \<and> log_awake db' pc"
  using assms
  by (auto simp: commit_raw_def Let_def others_kept_def log_awake_def queue_commit_def
      split: option.splits prod.splits result.splits)

lemma kept_log_awake:
  assumes "front db' = front db" "db_shutdown db' = db_shutdown db \<or> db_log_work db'"
    "db_log_work db \<longrightarrow> db_log_work db'" "log_awake db pc"
  shows "log_awake db' pc"
  using assms by (auto simp: log_awake_def front_def)

lemma commit_step_awake:
  assumes "commit_step crc (db, pc) (db', pc')" "commit_awake db pc"
  shows "commit_awake db' pc' \<and> (\<forall>lpc. log_awake db lpc \<longrightarrow> log_awake db' lpc) \<and>
    (\<forall>fpc. flush_awake n db fpc \<longrightarrow> flush_awake n db' fpc) \<and> (\<forall>cpc. cleanup_awake db cpc \<longrightarrow> cleanup_awake db' cpc)"
  using assms
proof (cases rule: commit_step.cases)
  case (commit_enact b)
  with enact_logs_frame [of crc db b db'] assms(2) show ?thesis
    by (auto simp: awake_defs front_def control_def appending_size_def)
next
  case commit_enact_fails
  from worker_fails_others [OF this(3)] worker_fails_front [OF this(3)] show ?thesis
    using others_kept_awake(2,3) kept_log_awake commit_enact_fails by (auto simp: commit_awake_def)
qed (auto simp: awake_defs has_log_files_to_read_def)

lemma flush_step_awake:
  assumes "flush_step n (db, pc) (db', pc')" "flush_awake n db pc"
  shows "flush_awake n db' pc' \<and> (\<forall>lpc. log_awake db lpc \<longrightarrow> log_awake db' lpc) \<and>
    (\<forall>cpc. commit_awake db cpc \<longrightarrow> commit_awake db' cpc) \<and> (\<forall>cpc. cleanup_awake db cpc \<longrightarrow> cleanup_awake db' cpc)"
  using assms
proof (cases rule: flush_step.cases)
  case (flush_run b)
  then show ?thesis
    by (auto simp: awake_defs flush_logs_def flush_one_def Let_def appending_size_def
        split: if_splits option.splits prod.splits)
qed (auto simp: awake_defs)

lemma cleanup_step_awake:
  assumes "cleanup_step (db, pc) (db', pc')" "cleanup_awake db pc"
  shows "cleanup_awake db' pc' \<and> (\<forall>lpc. log_awake db lpc \<longrightarrow> log_awake db' lpc) \<and>
    (\<forall>cpc. commit_awake db cpc \<longrightarrow> commit_awake db' cpc) \<and> (\<forall>fpc. flush_awake n db fpc \<longrightarrow> flush_awake n db' fpc)"
  using assms
proof (cases rule: cleanup_step.cases)
  case (cleanup_run b)
  with clean_logs_frame [of db b db'] show ?thesis
    by (auto simp: awake_defs front_def control_def appending_size_def)
qed (auto simp: awake_defs)

lemma system_step_awake:
  assumes "system_step crc cd n s s'" "awake n s"
  shows "awake n s'"
  using assms(1)
proof (cases rule: system_step.cases)
  case (client_commit cs r db')
  with commit_raw_awake [of cs "sy_db s" r db' "sy_log s"] others_kept_awake [of "sy_db s" db'] assms(2)
  show ?thesis by (auto simp: awake_def)
next
  case client_drop
  have "log_awake (shutdown (sy_db s)) (sy_log s)" by (simp add: log_awake_def shutdown_def)
  with client_drop shutdown_others [of "sy_db s"] others_kept_awake [of "sy_db s" "shutdown (sy_db s)"] assms(2) show ?thesis by (auto simp: awake_def)
next
  case (log_worker db' pc)
  with log_step_others [OF log_worker(2)] log_step_awake [OF log_worker(2)] others_kept_awake [of "sy_db s" db'] assms(2)
  show ?thesis by (auto simp: awake_def)
next
  case (commit_worker db' pc)
  with commit_step_awake [of crc "sy_db s" "sy_commit s" db' pc n] assms(2) show ?thesis by (auto simp: awake_def)
next
  case (flush_worker db' pc)
  with flush_step_awake [of n "sy_db s" "sy_flush s" db' pc] assms(2) show ?thesis by (auto simp: awake_def)
next
  case (cleanup_worker db' pc)
  with cleanup_step_awake [of "sy_db s" "sy_cleanup s" db' pc n] assms(2) show ?thesis by (auto simp: awake_def)
qed

lemma reachable_awake: "reachable crc cd n db s \<Longrightarrow> fresh_db db \<Longrightarrow> awake n s"
proof (induction rule: reachable.induct)
  case start
  then show ?case by (auto simp: awake_def awake_defs system_start_def fresh_db_def appending_size_def)
qed (auto intro: system_step_awake)

section \<open>The log worker empties the queue\<close>

text \<open>The worker is inside an operation that does not return.\<close>

definition log_stuck :: "(bytes \<Rightarrow> u32) \<Rightarrow> codec \<Rightarrow> db_inner \<Rightarrow> log_pc \<Rightarrow> bool" where
  "log_stuck crc cd db pc =
     (case pc of
        LogPlan c \<Rightarrow> fst (log_commit crc cd c db) = Diverge
      | LogStart \<Rightarrow> process_reindex crc db = Diverge
      | LogReindex _ \<Rightarrow> process_reindex crc db = Diverge
      | _ \<Rightarrow> False)"

text \<open>Where the worker comes to rest: the queue is empty, or the worker has ended.\<close>

definition log_rest :: "(bytes \<Rightarrow> u32) \<Rightarrow> codec \<Rightarrow> db_inner \<Rightarrow> log_pc \<Rightarrow> bool" where
  "log_rest crc cd db pc \<longleftrightarrow>
     in_flight pc = [] \<and> cq_commits (db_commit_queue db) = [] \<or> pc = LogDone \<or> (\<exists>c. pc = LogFailed c) \<or>
     log_stuck crc cd db pc"

abbreviation log_run :: "(bytes \<Rightarrow> u32) \<Rightarrow> codec \<Rightarrow> db_inner \<times> log_pc \<Rightarrow> db_inner \<times> log_pc \<Rightarrow> bool" where
  "log_run crc cd \<equiv> (log_step crc cd)\<^sup>*\<^sup>*"

lemma step_run: "log_step crc cd a b \<Longrightarrow> log_run crc cd b c \<Longrightarrow> log_run crc cd a c"
  by (rule converse_rtranclp_into_rtranclp)

lemma result_fails:
  assumes "\<And>x. r \<noteq> Ok x" "r \<noteq> Diverge"
  obtains db' where "worker_fails r db db'"
  using assms worker_fails.intros by (cases r) blast+

text \<open>After the current record the worker looks at the queue again, unless it ends.\<close>

lemma reindex_to_loop:
  assumes "pc = LogReindex c \<or> pc = LogStart \<and> \<not> c"
  shows "(\<exists>db' again. log_step crc cd (db, pc) (db', LogLoop c again) \<and> front db' = front db) \<or>
    (\<exists>db' pc'. log_run crc cd (db, pc) (db', pc') \<and> log_rest crc cd db' pc')"
proof (cases "process_reindex crc db")
  case (Ok x)
  obtain again db' where x: "x = (again, db')" by (cases x)
  with Ok have p: "process_reindex crc db = Ok (again, db')" by simp
  then have "log_step crc cd (db, pc) (db', LogLoop c again)" using assms by (auto intro: log_start log_reindex)
  with process_reindex_frame [OF p] show ?thesis by blast
next
  case Diverge
  then have "log_rest crc cd db pc" using assms by (auto simp: log_rest_def log_stuck_def)
  then show ?thesis by blast
next
  case (Err e)
  then have "log_step crc cd (db, pc) (store_err (Err e :: unit result) db, LogDone)"
    using assms by (auto intro!: log_start_fails log_reindex_fails worker_fails.intros)
  then show ?thesis by (auto simp: log_rest_def dest!: r_into_rtranclp [of "log_step crc cd"])
next
  case Panic
  then have "log_step crc cd (db, pc) (db, LogDone)"
    using assms by (auto intro!: log_start_fails log_reindex_fails worker_fails.intros)
  then show ?thesis by (auto simp: log_rest_def dest!: r_into_rtranclp [of "log_step crc cd"])
qed

lemma drain_from_commits:
  "\<exists>db' pc'. log_run crc cd (db, LogCommits) (db', pc') \<and> log_rest crc cd db' pc'"
proof (induction "length (cq_commits (db_commit_queue db))" arbitrary: db)
  case 0
  then have "log_rest crc cd db LogCommits" by (simp add: log_rest_def in_flight_def)
  then show ?case by blast
next
  case (Suc n)
  then obtain c q where "cq_commits (db_commit_queue db) = c # q" by (cases "cq_commits (db_commit_queue db)") auto
  then obtain db1 where pop: "pop_commit db = (Some c, db1)" "cq_commits (db_commit_queue db1) = q"
    by (auto simp: pop_commit_def Let_def)
  with Suc.hyps(2) \<open>cq_commits _ = c # q\<close> have n: "length (cq_commits (db_commit_queue db1)) = n" by simp
  from log_step.log_pop [OF pop(1)] have s1: "log_step crc cd (db, LogCommits) (db1, LogPlan c)" .
  obtain r db2 where lc: "log_commit crc cd c db1 = (r, db2)" by (cases "log_commit crc cd c db1")
  show ?case
  proof (cases "\<exists>x. r = Ok x")
    case True
    then obtain x where r: "r = Ok x" by blast
    let ?db3 = "finish_commit c x db2"
    have s2: "log_step crc cd (db1, LogPlan c) (db2, LogClean c x)" using lc r by (auto intro: log_plan)
    have s3: "log_step crc cd (db2, LogClean c x) (?db3, LogReindex True)" by (rule log_clean)
    have "db_commit_queue ?db3 = db_commit_queue db1"
      using log_commit_frame [OF lc]
      by (auto simp: finish_commit_def clean_commit_def start_reindex_def Let_def front_def split: prod.split)
    with n have n3: "length (cq_commits (db_commit_queue ?db3)) = n" by simp
    note run3 = step_run [OF s1 step_run [OF s2 step_run [OF s3]]]
    consider (loop) db4 again where "log_step crc cd (?db3, LogReindex True) (db4, LogLoop True again)" "front db4 = front ?db3"
      | (rest) db4 pc4 where "log_run crc cd (?db3, LogReindex True) (db4, pc4)" "log_rest crc cd db4 pc4"
      using reindex_to_loop [of "LogReindex True" True crc cd ?db3] by blast
    then show ?thesis
    proof cases
      case loop
      then have "n = length (cq_commits (db_commit_queue db4))" using n3 by (simp add: front_def)
      from Suc.hyps(1) [OF this] obtain db' pc' where
        d: "log_run crc cd (db4, LogCommits) (db', pc')" "log_rest crc cd db' pc'" by blast
      have "log_step crc cd (db4, LogLoop True again) (db4, LogCommits)" by (rule log_again) simp_all
      from run3 [OF step_run [OF loop(1) step_run [OF this d(1)]]] d(2) show ?thesis by blast
    next
      case rest
      with run3 show ?thesis by blast
    qed
  next
    case False
    show ?thesis
    proof (cases "r = Diverge")
      case True
      with lc have "log_rest crc cd db1 (LogPlan c)" by (simp add: log_rest_def log_stuck_def)
      with s1 show ?thesis by blast
    next
      case div: False
      with False obtain db3 where "worker_fails r db2 db3" using result_fails by metis
      from log_plan_fails [OF lc this] have "log_step crc cd (db1, LogPlan c) (db3, LogFailed c)" .
      from step_run [OF s1 step_run [OF this rtranclp.rtrancl_refl]] show ?thesis by (auto simp: log_rest_def)
    qed
  qed
qed

lemma drain_from_loop:
  assumes "log_awake db (LogLoop c r)"
  shows "\<exists>db' pc'. log_run crc cd (db, LogLoop c r) (db', pc') \<and> log_rest crc cd db' pc'"
proof -
  consider (stop) "db_shutdown db" "\<not> c" | (again) "\<not> db_shutdown db \<or> c" "c \<or> r" | (idle) "\<not> db_shutdown db" "\<not> c" "\<not> r"
    by blast
  then show ?thesis
  proof cases
    case stop
    with log_stop [of db crc cd r] have "log_step crc cd (db, LogLoop c r) (db, LogDone)" by simp
    then show ?thesis by (auto simp: log_rest_def dest!: r_into_rtranclp [of "log_step crc cd"])
  next
    case again
    from step_run [OF log_again [OF this]] drain_from_commits show ?thesis by meson
  next
    case idle
    with log_idle [of db crc cd] have w: "log_step crc cd (db, LogLoop c r) (db, LogWait)" by simp
    show ?thesis
    proof (cases "db_log_work db")
      case True
      from step_run [OF w step_run [OF log_woken [OF True]]] drain_from_commits show ?thesis by meson
    next
      case False
      with assms idle have "log_rest crc cd db LogWait" by (simp add: log_awake_def log_rest_def in_flight_def)
      with w show ?thesis by blast
    qed
  qed
qed

lemma drain_from_reindex:
  assumes "log_awake db pc" "pc = LogReindex c \<or> pc = LogStart \<and> \<not> c"
  shows "\<exists>db' pc'. log_run crc cd (db, pc) (db', pc') \<and> log_rest crc cd db' pc'"
proof -
  consider (loop) db1 again where "log_step crc cd (db, pc) (db1, LogLoop c again)"
    | (rest) db1 pc1 where "log_run crc cd (db, pc) (db1, pc1)" "log_rest crc cd db1 pc1"
    using reindex_to_loop [OF assms(2), of crc cd db] by blast
  then show ?thesis
  proof cases
    case loop
    from drain_from_loop [OF log_step_awake [OF loop assms(1)]] step_run [OF loop] show ?thesis by meson
  qed blast
qed

lemma drain_from_clean: "\<exists>db' pc'. log_run crc cd (db, LogClean c x) (db', pc') \<and> log_rest crc cd db' pc'"
proof -
  have "log_awake (finish_commit c x db) (LogReindex True)" by (simp add: log_awake_def)
  from drain_from_reindex [OF this, of True] step_run [OF log_clean] show ?thesis by meson
qed

lemma drain_from_plan: "\<exists>db' pc'. log_run crc cd (db, LogPlan c) (db', pc') \<and> log_rest crc cd db' pc'"
proof -
  obtain r db2 where lc: "log_commit crc cd c db = (r, db2)" by (cases "log_commit crc cd c db")
  consider (ok) x where "r = Ok x" | (div) "r = Diverge" | (fails) db3 where "worker_fails r db2 db3"
    by (metis result_fails)
  then show ?thesis
  proof cases
    case ok
    with lc have "log_step crc cd (db, LogPlan c) (db2, LogClean c x)" by (auto intro: log_plan)
    from step_run [OF this] drain_from_clean show ?thesis by meson
  next
    case div
    with lc have "log_rest crc cd db (LogPlan c)" by (simp add: log_rest_def log_stuck_def)
    then show ?thesis by blast
  next
    case fails
    from step_run [OF log_plan_fails [OF lc fails] rtranclp.rtrancl_refl] show ?thesis by (auto simp: log_rest_def)
  qed
qed

lemma log_worker_reaches_rest:
  assumes "log_awake db pc"
  shows "\<exists>db' pc'. log_run crc cd (db, pc) (db', pc') \<and> log_rest crc cd db' pc'"
proof (cases pc)
  case LogWait
  show ?thesis
  proof (cases "db_log_work db")
    case True
    from step_run [OF log_woken [OF True]] drain_from_commits LogWait show ?thesis by meson
  next
    case False
    with assms LogWait have "log_rest crc cd db pc" by (simp add: log_awake_def log_rest_def in_flight_def)
    then show ?thesis by blast
  qed
next
  case (LogLoop c r)
  with drain_from_loop assms show ?thesis by simp
next
  case LogStart
  with drain_from_reindex [OF assms, of False] show ?thesis by simp
next
  case (LogReindex c)
  with drain_from_reindex [OF assms, of c] show ?thesis by simp
qed (use drain_from_commits drain_from_plan drain_from_clean in \<open>auto simp: log_rest_def\<close>)

end
