(* ===== verification/Db_Open.thy ===== *)
theory Db_Open
  imports Db_Wake
begin

text \<open>
  Opening a database ends with empty queues, whatever was replayed, and every column keeps its kind:
  a btree column where the options ask for one, a hash column elsewhere, with an overlay each.
\<close>

section \<open>Kinds of columns\<close>

definition is_tree :: "column \<Rightarrow> bool" where
  "is_tree c = (case c of Tree _ \<Rightarrow> True | Hash _ \<Rightarrow> False)"

definition kinds :: "column list \<Rightarrow> bool list" where
  "kinds cols = map is_tree cols"

lemma is_tree_simps [simp]: "is_tree (Hash hc) = False" "is_tree (Tree bc) = True"
  by (simp_all add: is_tree_def)

lemma kinds_nth: "i < length cols \<Longrightarrow> kinds cols ! i = is_tree (cols ! i)"
  by (simp add: kinds_def)

lemma kinds_length: "kinds a = kinds b \<Longrightarrow> length a = length b"
  unfolding kinds_def by (metis length_map)

lemma kinds_update: "i < length cols \<longrightarrow> is_tree c = is_tree (cols ! i) \<Longrightarrow> kinds (cols[i := c]) = kinds cols"
  by (cases "i < length cols") (simp_all add: kinds_def map_update list_update_same_conv list_update_beyond)

lemma column_kind [simp]:
  "is_tree (fst (column_complete_plan c w)) = is_tree c"
  "is_tree (fst (column_validate_plan c a r)) = is_tree c"
  "is_tree (column_flush c) = is_tree c"
  by (cases c; simp add: column_complete_plan_def column_validate_plan_def column_flush_def split: prod.split)+

lemma column_enact_kind: "column_enact_plan c a r = Ok (c', r') \<Longrightarrow> is_tree c' = is_tree c"
  by (cases c) (auto simp: column_enact_plan_def and_then_Ok_iff)

lemma column_refresh_kind: "column_refresh_metadata c = Ok c' \<Longrightarrow> is_tree c' = is_tree c"
  by (cases c) (auto simp: column_refresh_metadata_def and_then_Ok_iff)

lemma complete_columns_kinds: "complete_columns cols w = (cols', w') \<Longrightarrow> kinds cols' = kinds cols"
proof (induction cols arbitrary: w cols' w')
  case (Cons c cols)
  obtain c1 w1 where c1: "column_complete_plan c w = (c1, w1)" by (cases "column_complete_plan c w")
  obtain cols1 w2 where r: "complete_columns cols w1 = (cols1, w2)" by (cases "complete_columns cols w1")
  have "is_tree c1 = is_tree c" using column_kind(1) [of c w] c1 by simp
  with Cons.IH [OF r] Cons.prems c1 r show ?case by (auto simp: kinds_def)
qed (simp add: kinds_def)

lemma refresh_columns_kinds: "refresh_columns cols = Ok cols' \<Longrightarrow> kinds cols' = kinds cols"
  by (induction cols arbitrary: cols') (auto simp: and_then_Ok_iff kinds_def column_refresh_kind)

lemma foldl_err: "foldl (\<lambda>r s. and_then r (f s)) m xs = Ok y \<Longrightarrow> \<exists>x. m = Ok x"
proof (induction xs arbitrary: m)
  case (Cons x xs)
  then have "foldl (\<lambda>r s. and_then r (f s)) (and_then m (f x)) xs = Ok y" by simp
  from Cons.IH [OF this] show ?case by (auto simp: and_then_Ok_iff)
qed simp

lemma foldl_and_then_inv:
  assumes "foldl (\<lambda>r s. and_then r (f s)) (Ok a) xs = Ok b" "P a" "\<And>s a b. P a \<Longrightarrow> f s a = Ok b \<Longrightarrow> P b"
  shows "P b"
  using assms(1,2)
proof (induction xs arbitrary: a)
  case (Cons x xs)
  then have "foldl (\<lambda>r s. and_then r (f s)) (f x a) xs = Ok b" by simp
  with foldl_err [of f "f x a" xs b] obtain a' where "f x a = Ok a'" "foldl (\<lambda>r s. and_then r (f s)) (Ok a') xs = Ok b"
    by auto
  with Cons assms(3) show ?case by blast
qed simp

lemma plan_change_set_kinds:
  assumes "plan_change_set cd cs cols w = Ok (cols', w', ops, reindex)"
  shows "kinds cols' = kinds cols"
proof -
  let ?P = "\<lambda>st :: commit_plan. kinds (fst st) = kinds cols"
  obtain st1 st2 where st: "foldl (\<lambda>r s. and_then r (indexed_write_plan cd s)) (Ok (cols, w, 0, False)) (cs_indexed cs) = Ok st1"
      "foldl (\<lambda>r s. and_then r (btree_write_plan cd s)) (Ok st1) (cs_btree cs) = Ok st2"
      "cols' = fst (complete_columns (fst st2) (fst (snd st2)))"
    using assms unfolding plan_change_set_def and_then_Ok_iff Let_def
    by (auto simp: case_prod_unfold)
  have "?P st1"
  proof (rule foldl_and_then_inv [OF st(1), of ?P])
    show "?P b" if "?P a" "indexed_write_plan cd s a = Ok b" for s a b
      using that by (auto simp: indexed_write_plan_def and_then_Ok_iff split: prod.splits column.splits intro!: trans [OF kinds_update])
  qed simp
  have "?P st2"
  proof (rule foldl_and_then_inv [OF st(2), of ?P])
    show "?P st1" by fact
    show "?P b" if "?P a" "btree_write_plan cd s a = Ok b" for s a b
      using that by (auto simp: btree_write_plan_def and_then_Ok_iff split: prod.splits column.splits intro!: trans [OF kinds_update])
  qed
  then show ?thesis
    using complete_columns_kinds [of "fst st2" "fst (snd st2)"] st(3)
    by (cases "complete_columns (fst st2) (fst (snd st2))") simp
qed

lemma log_commit_kinds: "log_commit crc cd c db = (r, db') \<Longrightarrow> kinds (db_columns db') = kinds (db_columns db)"
  by (auto simp: log_commit_def Let_def split: result.splits prod.splits dest: plan_change_set_kinds)

lemma reindex_columns_kinds: "reindex_columns crc cs db = Ok (b, db') \<Longrightarrow> kinds (db_columns db') = kinds (db_columns db)"
proof (induction crc cs db rule: reindex_columns.induct)
  case (2 crc c cs db)
  show ?case
  proof (cases "db_columns db ! c")
    case (Hash hc)
    with 2(3) obtain rb hc1 where rb: "hc_reindex_batch hc (lg_overlays (db_log db)) = Ok (rb, hc1)"
      by (auto simp: and_then_Ok_iff)
    have k: "kinds ((db_columns db)[c := Hash x]) = kinds (db_columns db)" for x
      by (rule kinds_update) (simp add: Hash)
    show ?thesis
    proof (cases "rb_batch rb \<noteq> [] \<or> rb_drop_index rb \<noteq> None")
      case True
      with 2(3) Hash rb obtain hc2 where "db_columns db' = (db_columns db)[c := Hash hc2]"
        by (auto simp: and_then_Ok_iff Let_def start_reindex_def)
      with k show ?thesis by simp
    next
      case False
      with 2(3) Hash rb have "reindex_columns crc cs (db\<lparr>db_columns := (db_columns db)[c := Hash hc1]\<rparr>) = Ok (b, db')"
        by (simp add: Let_def)
      from 2(1) [OF Hash rb refl refl False this] k show ?thesis by simp
    qed
  qed (use 2 in simp)
qed auto

lemma process_reindex_kinds: "process_reindex crc db = Ok (b, db') \<Longrightarrow> kinds (db_columns db') = kinds (db_columns db)"
  using reindex_columns_kinds by (auto simp: process_reindex_def split: if_splits)

lemma enact_body_kinds:
  assumes "enact_body crc (db, r) = Ok x" "kinds (db_columns db) = ks"
  shows "kinds (db_columns (case x of Inl (db', _) \<Rightarrow> db' | Inr (db', _) \<Rightarrow> db')) = ks"
proof -
  obtain action r' where n: "log_next crc r = Ok (action, r')"
    using assms(1) by (auto simp: enact_body_def Let_def and_then_Ok_iff)
  show ?thesis
    using assms
    by (cases action)
      (auto simp: enact_body_def n Let_def and_then_Ok_iff start_reindex_def column_enact_kind
        split: column.splits prod.splits intro!: kinds_update [of _ "db_columns db"])
qed

lemma enact_record_kinds:
  assumes "enact_record crc v r db = Ok db'"
  shows "kinds (db_columns db') = kinds (db_columns db)"
proof -
  let ?P = "\<lambda>s. kinds (db_columns (fst s)) = kinds (db_columns db)"
  obtain d r' where d: "loop_r (enact_body crc) (db, r) = Ok (d, r')" "db_columns db' = db_columns d"
    using assms by (auto simp: enact_record_def and_then_Ok_iff Let_def)
  have "?P (d, r')"
  proof (rule loop_r_inv [OF d(1), where I = ?P])
    show "?P s'" if "?P s" "enact_body crc s = Ok (Inl s')" for s s'
      using enact_body_kinds [of crc "fst s" "snd s" "Inl s'"] that by (auto split: prod.splits)
    show "?P r" if "?P s" "enact_body crc s = Ok (Inr r)" for s r
      using enact_body_kinds [of crc "fst s" "snd s" "Inr r"] that by (auto split: prod.splits)
  qed simp
  with d(2) show ?thesis by simp
qed

lemma validate_kinds:
  assumes "loop_r (validate_body crc) (cols, r) = Ok (v, cols')"
  shows "kinds cols' = kinds cols"
proof -
  have check: "kinds (cols[i := fst (column_validate_plan (cols ! i) a r)]) = kinds cols" for cols i a r
    by (rule kinds_update) simp
  have body: "kinds (case x of Inl (cols', _) \<Rightarrow> cols' | Inr (_, cols') \<Rightarrow> cols') = kinds cols"
    if "validate_body crc (cols, r) = Ok x" for cols r x
  proof (cases "log_next crc r")
    case (Ok y)
    obtain action r' where "y = (action, r')" by (cases y)
    with Ok that show ?thesis
      using check [of cols "unat (table_id_col _)"]
      by (cases action) (auto simp: validate_body_def Let_def split: if_splits result.splits prod.splits, (metis check fst_conv)+)
  qed (use that in \<open>auto simp: validate_body_def Let_def\<close>)
  have "kinds (snd (v, cols')) = kinds cols"
  proof (rule loop_r_inv [OF assms, where I = "\<lambda>s. kinds (fst s) = kinds cols"])
    show "kinds (fst s') = kinds cols" if "kinds (fst s) = kinds cols" "validate_body crc s = Ok (Inl s')" for s s'
      using body [of "fst s" "snd s" "Inl s'"] that by (auto split: prod.splits)
    show "kinds (snd r) = kinds cols" if "kinds (fst s) = kinds cols" "validate_body crc s = Ok (Inr r)" for s r
      using body [of "fst s" "snd s" "Inr r"] that by (auto split: prod.splits)
  qed simp
  then show ?thesis by simp
qed

section \<open>A database that is not working\<close>

text \<open>Nothing is queued or appended; the columns have the kinds \<open>ks\<close>.\<close>

definition quiet :: "bool list \<Rightarrow> db_inner \<Rightarrow> bool" where
  "quiet ks db \<longleftrightarrow>
     cq_commits (db_commit_queue db) = [] \<and> cq_record_id (db_commit_queue db) = 0 \<and>
     db_commit_overlay db = replicate (length ks) commit_overlay_new \<and> \<not> db_shutdown db \<and> db_bg_err db = None \<and>
     lg_appending (db_log db) = None \<and> lg_read_queue (db_log db) = [] \<and> kinds (db_columns db) = ks"

lemma quiet_frame:
  assumes "quiet ks db" "front db' = front db" "control db' = control db"
    "lg_appending (db_log db') = None" "lg_read_queue (db_log db') = []" "kinds (db_columns db') = ks"
  shows "quiet ks db'"
  using assms by (auto simp: quiet_def front_def control_def)

lemma end_replay_quiet: "quiet ks db \<Longrightarrow> quiet ks (end_replay db)"
  by (simp add: quiet_def end_replay_def clear_replay_logs_def)

lemma enact_record_quiet:
  assumes "enact_record crc v r db = Ok db'" "quiet ks db"
  shows "quiet ks db'"
  using enact_record_frame [OF assms(1)] enact_record_kinds [OF assms(1)] assms(2)
  by (intro quiet_frame [OF assms(2)]) (auto simp: quiet_def)

lemma enact_logs_quiet:
  assumes "enact_logs crc True db = Ok (b, db')" and q: "quiet ks db"
  shows "quiet ks db'"
proof (cases "read_next_record crc True (db_log db)")
  case (Ok x)
  obtain r lg where x: "x = (r, lg)" by (cases x)
  let ?db = "db\<lparr>db_log := lg\<rparr>"
  have q1: "quiet ks ?db"
    using read_next_record_frame [of crc True "db_log db" r lg] Ok x q by (auto simp: quiet_def)
  show ?thesis
  proof (cases r)
    case None
    with assms Ok x q1 show ?thesis by (auto simp: enact_logs_def)
  next
    case (Some rd)
    show ?thesis
    proof (cases "lr_record_id rd = db_last_enacted db + 1")
      case False
      with assms Ok x Some have "db' = end_replay ?db" by (auto simp: enact_logs_def Let_def)
      with end_replay_quiet [OF q1] show ?thesis by simp
    next
      case True
      with assms Ok x Some obtain v cols where v: "loop_r (validate_body crc) (db_columns db, rd) = Ok (v, cols)"
        by (auto simp: enact_logs_def Let_def and_then_Ok_iff)
      have q2: "quiet ks (?db\<lparr>db_columns := cols\<rparr>)" using q1 validate_kinds [OF v] by (auto simp: quiet_def)
      show ?thesis
      proof (cases v)
        case (Valid r1)
        with assms Ok x Some True v obtain y r2 where "enact_record crc True r2 (?db\<lparr>db_columns := cols\<rparr>) = Ok db'"
          by (auto simp: enact_logs_def Let_def and_then_Ok_iff)
        from enact_record_quiet [OF this q2] show ?thesis .
      qed (use assms Ok x Some True v q2 end_replay_quiet [OF q2] in \<open>auto simp: enact_logs_def Let_def\<close>)
    qed
  qed
qed (use assms end_replay_quiet [OF q] in \<open>auto simp: enact_logs_def split: error.splits\<close>)

lemma while_more_inv:
  assumes "while_more f s = Ok s'" "P s" "\<And>s b s'. P s \<Longrightarrow> f s = Ok (b, s') \<Longrightarrow> P s'"
  shows "P s'"
proof (rule loop_r_inv [OF assms(1) [unfolded while_more_def], where I = P])
  show "P s'" if "P s" "and_then (f s) (\<lambda>(again, s). Ok (if again then Inl s else Inr s)) = Ok (Inl s')" for s s'
    using that assms(3) by (auto simp: and_then_Ok_iff split: if_splits)
  show "P r" if "P s" "and_then (f s) (\<lambda>(again, s). Ok (if again then Inl s else Inr s)) = Ok (Inr r)" for s r
    using that assms(3) by (auto simp: and_then_Ok_iff split: if_splits)
qed (rule assms(2))

lemma replay_next_log:
  "lg_appending (snd (replay_next lg)) = lg_appending lg" "lg_read_queue (snd (replay_next lg)) = lg_read_queue lg"
  by (auto simp: replay_next_def Let_def split: option.splits list.splits)

lemma replay_all_logs_quiet:
  assumes "replay_all_logs crc db = Ok db'" "quiet ks db"
  shows "quiet ks db'"
proof -
  let ?f = "\<lambda>db. let (i, lg) = replay_next (db_log db); db = db\<lparr>db_log := lg\<rparr> in
      case i of None \<Rightarrow> Ok (False, db) | Some _ \<Rightarrow> and_then (while_more (enact_logs crc True) db) (\<lambda>db. Ok (True, db))"
  obtain d cols where d: "while_more ?f db = Ok d" "refresh_columns (db_columns d) = Ok cols" "db' = d\<lparr>db_columns := cols\<rparr>"
    using assms(1) by (auto simp: replay_all_logs_def and_then_Ok_iff)
  have "quiet ks d"
  proof (rule while_more_inv [OF d(1), where P = "quiet ks"])
    show "quiet ks db" by (rule assms(2))
  next
    fix s b s' assume s: "quiet ks s" "?f s = Ok (b, s')"
    obtain i lg where i: "replay_next (db_log s) = (i, lg)" by (cases "replay_next (db_log s)")
    have q: "quiet ks (s\<lparr>db_log := lg\<rparr>)"
      using s(1) replay_next_log [of "db_log s"] i by (simp add: quiet_def)
    show "quiet ks s'"
    proof (cases i)
      case None
      with s(2) i q show ?thesis by (simp add: Let_def)
    next
      case (Some n)
      with s(2) i have "while_more (enact_logs crc True) (s\<lparr>db_log := lg\<rparr>) = Ok s'"
        by (auto simp: Let_def and_then_Ok_iff)
      from while_more_inv [OF this, where P = "quiet ks"] q enact_logs_quiet show ?thesis by blast
    qed
  qed
  with d(2,3) refresh_columns_kinds show ?thesis by (auto simp: quiet_def)
qed

lemma column_open_kind:
  "column_open v i col opt meta = Ok c \<Longrightarrow> is_tree c = co_btree_index (md_columns meta ! unat col)"
  by (auto simp: column_open_def and_then_Ok_iff Let_def split: if_splits)

lemma open_columns_kinds:
  assumes "open_columns dk opt meta is = Ok cols" "\<forall>i \<in> set is. i < 256"
  shows "kinds cols = map (\<lambda>i. co_btree_index (md_columns meta ! i)) is"
  using assms
proof (induction "is" arbitrary: cols)
  case (Cons i "is")
  then obtain c cs where c: "column_open (dk_values dk) (dk_indexes dk) (word_of_nat i) opt meta = Ok c"
      "open_columns dk opt meta is = Ok cs" "cols = c # cs"
    by (auto simp: and_then_Ok_iff)
  with column_open_kind [OF c(1)] Cons.IH [OF c(2)] Cons.prems(2) show ?case
    by (simp add: kinds_def unat_word_of_nat_u8)
qed (simp add: kinds_def)

lemma metadata_columns:
  assumes "load_and_validate_metadata hx rnd opt create file = Ok (meta, file')"
  shows "md_columns meta = op_columns opt"
proof (cases "load_metadata_file hx file")
  case (Ok m)
  show ?thesis
  proof (cases m)
    case (Some meta')
    with assms Ok have l: "length (md_columns meta') = length (op_columns opt)" "meta = meta'"
        "List.find (\<lambda>c. md_columns meta' ! c \<noteq> op_columns opt ! c) [0..<length (md_columns meta')] = None"
      by (auto simp: load_and_validate_metadata_def split: if_splits option.splits)
    then show ?thesis by (intro nth_equalityI) (auto simp: find_None_iff)
  qed (use assms Ok in \<open>auto simp: load_and_validate_metadata_def Let_def split: if_splits\<close>)
qed (use assms in \<open>auto simp: load_and_validate_metadata_def\<close>)

lemma db_inner_open_quiet:
  assumes "db_inner_open hx rnd opt mode dk = Ok (db, dk')" "length (op_columns opt) \<le> 256"
  shows "quiet (map co_btree_index (op_columns opt)) db \<and> op_columns (db_options db) = op_columns opt"
proof -
  obtain meta mfile lg cols where o: "load_and_validate_metadata hx rnd opt (mode = Create) (dk_metadata dk) = Ok (meta, mfile)"
      "log_open (dk_logs dk) (op_sync_wal opt) = Ok lg"
      "open_columns dk opt meta [0..<length (md_columns meta)] = Ok cols"
    and db: "db_columns db = cols" "db_log db = lg" "db_commit_queue db = \<lparr>cq_record_id = 0, cq_bytes = 0, cq_commits = []\<rparr>"
      "db_commit_overlay db = replicate (length (md_columns meta)) commit_overlay_new" "\<not> db_shutdown db" "db_bg_err db = None"
      "db_options db = (if op_salt opt = None then opt\<lparr>op_salt := Some (md_salt meta)\<rparr> else opt)"
    using assms(1) by (auto simp: db_inner_open_def and_then_Ok_iff Let_def split: if_splits)
  have m: "md_columns meta = op_columns opt" by (rule metadata_columns [OF o(1)])
  have "kinds cols = map (\<lambda>i. co_btree_index (op_columns opt ! i)) [0..<length (op_columns opt)]"
    using open_columns_kinds [OF o(3)] m assms(2) by simp
  also have "\<dots> = map co_btree_index (op_columns opt)" by (rule nth_equalityI) simp_all
  finally have "kinds cols = map co_btree_index (op_columns opt)" .
  moreover have "lg_appending lg = None" "lg_read_queue lg = []"
    using o(2) by (auto simp: log_open_def and_then_Ok_iff Let_def)
  ultimately show ?thesis by (simp add: quiet_def db m)
qed

theorem opened_quiet:
  assumes "db_open_inner hx crc rnd opt mode dk = Ok (db, threads, dk')" "length (op_columns opt) \<le> 256"
  shows "quiet (map co_btree_index (op_columns opt)) db \<and> lg_cleanup_queue (db_log db) = [] \<and> fresh_db db"
proof -
  let ?ks = "map co_btree_index (op_columns opt)"
  obtain db0 dk0 db1 where o: "db_inner_open hx rnd opt mode dk = Ok (db0, dk0)" "replay_all_logs crc db0 = Ok db1"
      "db = (let db = clean_all_logs (end_replay db1) in db\<lparr>db_log := log_kill_logs (db_log db)\<rparr>)"
    using assms(1) by (auto simp: db_open_inner_def and_then_Ok_iff Let_def)
  have "quiet ?ks (end_replay db1)"
    using db_inner_open_quiet [OF o(1) assms(2)] replay_all_logs_quiet [OF o(2)] end_replay_quiet by blast
  moreover have "kinds (map column_flush cols) = kinds cols" for cols by (simp add: kinds_def)
  ultimately have "quiet ?ks db" "lg_cleanup_queue (db_log db) = []"
    by (simp_all add: quiet_def o(3) Let_def clean_all_logs_def log_kill_logs_def log_clean_logs_def num_dirty_logs_def)
  then show ?thesis by (simp add: quiet_def fresh_db_def list_all_length)
qed

section \<open>The kinds stay\<close>

lemma worker_fails_columns: "worker_fails r db db' \<Longrightarrow> db_columns db' = db_columns db"
  by (erule worker_fails.cases) (auto simp: store_err_def shutdown_def)

lemma pop_finish_columns:
  "pop_commit db = (c, db') \<Longrightarrow> db_columns db' = db_columns db"
  "db_columns (finish_commit cm x db) = db_columns db"
  by (auto simp: pop_commit_def finish_commit_def clean_commit_def start_reindex_def Let_def split: list.splits prod.splits)

lemma log_step_kinds:
  assumes "log_step crc cd (db, pc) (db', pc')"
  shows "kinds (db_columns db') = kinds (db_columns db)"
  using assms
proof (cases rule: log_step.cases)
  case (log_plan_fails c r db1)
  then show ?thesis using log_commit_kinds [OF log_plan_fails(3)] worker_fails_columns [OF log_plan_fails(4)] by simp
next
  case (log_plan c r)
  then show ?thesis using log_commit_kinds [OF log_plan(3)] by simp
next
  case (log_clean c r)
  then show ?thesis by (simp add: pop_finish_columns(2))
qed (simp_all add: process_reindex_kinds worker_fails_columns pop_finish_columns(1))

lemma enact_logs_kinds:
  assumes "enact_logs crc False db = Ok (b, db')"
  shows "kinds (db_columns db') = kinds (db_columns db)"
  using assms by (auto simp: enact_logs_def Let_def and_then_Ok_iff split: result.splits error.splits prod.splits option.splits
      dest!: enact_record_kinds)

lemma commit_step_kinds: "commit_step crc (db, pc) (db', pc') \<Longrightarrow> kinds (db_columns db') = kinds (db_columns db)"
  by (erule commit_step.cases) (auto dest: enact_logs_kinds worker_fails_columns)

lemma flush_step_kinds: "flush_step n (db, pc) (db', pc') \<Longrightarrow> kinds (db_columns db') = kinds (db_columns db)"
  by (erule flush_step.cases) (auto simp: flush_logs_def Let_def split: prod.splits if_splits)

lemma cleanup_step_kinds: "cleanup_step (db, pc) (db', pc') \<Longrightarrow> kinds (db_columns db') = kinds (db_columns db)"
  by (erule cleanup_step.cases) (auto simp: clean_logs_def Let_def kinds_def split: prod.splits if_splits)

lemma commit_raw_kinds: "commit_raw cs db = (r, db') \<Longrightarrow> db_columns db' = db_columns db \<and> db_options db' = db_options db"
  by (auto simp: commit_raw_def Let_def split: option.splits prod.splits result.splits)

lemma reachable_kinds:
  "reachable crc cd n db s \<Longrightarrow> kinds (db_columns (sy_db s)) = kinds (db_columns db)"
proof (induction rule: reachable.induct)
  case (step s s')
  from step(2) have "kinds (db_columns (sy_db s')) = kinds (db_columns (sy_db s))"
    by (cases rule: system_step.cases)
      (auto simp: shutdown_def dest: commit_raw_kinds log_step_kinds commit_step_kinds flush_step_kinds cleanup_step_kinds)
  with step(3) show ?case by simp
qed (simp add: system_start_def)

text \<open>The commit side of the state: options never change, there is an overlay per column.\<close>

lemma log_step_options:
  assumes "log_step crc cd (db, pc) (db', pc')"
  shows "db_options db' = db_options db \<and> length (db_commit_overlay db') = length (db_commit_overlay db)"
proof -
  have f: ?thesis if "front db' = front db" using that by (simp add: front_def)
  show ?thesis using assms
  proof (cases rule: log_step.cases)
    case (log_plan_fails c r db1)
    then show ?thesis using log_commit_frame [OF log_plan_fails(3)] worker_fails_front [OF log_plan_fails(4)] f by simp
  next
    case (log_plan c r)
    then show ?thesis using log_commit_frame [OF log_plan(3)] f by simp
  next
    case (log_clean c r)
    then show ?thesis by (auto simp: finish_commit_def clean_commit_def start_reindex_def Let_def split: prod.splits)
  next
    case (log_pop c)
    then show ?thesis using pop_commit_front [OF log_pop(3)] by simp
  next
    case log_no_commit
    then show ?thesis using pop_commit_none [OF log_no_commit(3)] by simp
  qed (rule f, simp add: process_reindex_frame worker_fails_front)+
qed

lemma reachable_options:
  assumes "reachable crc cd n db s" "fresh_db db"
  shows "db_options (sy_db s) = db_options db \<and> length (db_commit_overlay (sy_db s)) = length (db_commit_overlay db)"
  using assms(1)
proof (induction rule: reachable.induct)
  case (step s s')
  from step(2) have "db_options (sy_db s') = db_options (sy_db s) \<and>
      length (db_commit_overlay (sy_db s')) = length (db_commit_overlay (sy_db s))"
  proof (cases rule: system_step.cases)
    case (client_commit cs r db')
    obtain ovs b where c: "copy_change_set (db_options (sy_db s)) (cq_record_id (db_commit_queue (sy_db s)) + 1 + 1) cs
        (db_commit_overlay (sy_db s), 0) = (Ok (), ovs, b)" "length ovs = length (db_commit_overlay (sy_db s))"
      using copy_change_set_ok [OF client_commit(2)] by blast
    with client_commit show ?thesis
      by (auto simp: commit_raw_def Let_def split: option.splits)
  next
    case client_drop
    then show ?thesis by (simp add: shutdown_def)
  next
    case (log_worker db' pc)
    with log_step_options show ?thesis by auto
  qed (auto simp: front_def dest: commit_step_front flush_step_front cleanup_step_front)
  with step(3) show ?case by simp
qed (simp add: system_start_def)

end
