(* ===== verification/Db_Props.thy ===== *)
theory Db_Props
  imports Db_Open Column_Props
begin

text \<open>
  The properties of the database and its threads, and a concrete database with one empty hash column
  that they are applied to.
\<close>

section \<open>A concrete database\<close>

definition ex_crc :: "bytes \<Rightarrow> u32" where
  "ex_crc bs = 0"

definition ex_hs :: hashers where
  "ex_hs = \<lparr>hs_sip128 = (\<lambda>_ _. (0, 0)), hs_blake2 = (\<lambda>salt k. k)\<rparr>"

text \<open>A hash function that depends on the salt.\<close>

definition ex_salted :: hashers where
  "ex_salted = \<lparr>hs_sip128 = (\<lambda>_ _. (0, 0)), hs_blake2 = (\<lambda>salt k. salt)\<rparr>"

definition ex_log_state :: log_state where
  "ex_log_state =
     \<lparr>lg_overlays = overlays_default, lg_appending = None, lg_reading = None, lg_read_queue = [],
      lg_next_record_id = 1, lg_dirty = False, lg_log_pool = [], lg_cleanup_queue = [],
      lg_replay_queue = [], lg_next_log_id = 0, lg_sync = True\<rparr>"

definition ex_db :: "salt \<Rightarrow> db_inner" where
  "ex_db salt =
     \<lparr>db_columns = [Hash ex_column], db_options = (options_with_columns 1)\<lparr>op_salt := Some salt\<rparr>,
      db_shutdown = False, db_log = ex_log_state,
      db_commit_queue = \<lparr>cq_record_id = 0, cq_bytes = 0, cq_commits = []\<rparr>, db_log_work = False,
      db_commit_work = False, db_commit_overlay = [commit_overlay_new], db_log_queue = 0,
      db_flush_work = False, db_cleanup_work = False, db_cleanup_done = False, db_last_enacted = 0,
      db_next_reindex = 1, db_bg_err = None, db_ver = 8\<rparr>"

definition ex_commit :: commit_change_set where
  "ex_commit = \<lparr>cs_indexed = [(0, \<lparr>ic_col = 0, ic_changes = [Set ex_key [7, 8]]\<rparr>)], cs_btree = []\<rparr>"

lemma ex_db_fresh: "fresh_db (ex_db salt)"
  by (simp add: fresh_db_def ex_db_def ex_log_state_def)

lemma ex_options: "op_columns (options_with_columns 1) = [column_options_default]"
  by (simp add: options_with_columns_def)

lemma ex_allowed: "change_set_allowed (db_options (ex_db salt)) 1 ex_commit"
  by (simp add: change_set_allowed_def ex_commit_def set_allowed_def ex_db_def ex_options countable_def)

lemma hc_open_salt:
  "hc_open ifiles col vts opt meta = Ok hc \<Longrightarrow>
     hc_salt hc = md_salt meta \<and> hc_uniform_keys hc = co_uniform (md_columns meta ! unat col)"
  by (auto simp: hc_open_def and_then_Ok_iff Let_def)

lemma ex_column_hash:
  "hc_salt ex_column = replicate 32 0" "\<not> hc_uniform_keys ex_column"
  using ex_column_facts(1) hc_open_salt
  unfolding fresh_column_def and_then_Ok_iff by (force simp: ex_meta_def column_options_default_def)+

lemma ex_hash: "hc_hash_key ex_hs ex_column k = Ok k"
  by (simp add: hc_hash_key_def hash_key_def ex_column_hash(2) ex_hs_def)

text \<open>The database after the commit: it is reachable and the commit is pending.\<close>

definition ex_committed :: system where
  "ex_committed = (system_start (ex_db []))\<lparr>sy_db := snd (commit_raw ex_commit (ex_db []))\<rparr>"

lemma ex_committed_reachable: "reachable ex_crc ex_cd 0 (ex_db []) ex_committed"
proof -
  have "system_step ex_crc ex_cd 0 (system_start (ex_db [])) ex_committed"
    unfolding ex_committed_def
  proof (rule client_commit [where r = "fst (commit_raw ex_commit (ex_db []))" and cs = ex_commit])
    show "change_set_allowed (db_options (sy_db (system_start (ex_db [])))) (length (db_commit_overlay (sy_db (system_start (ex_db []))))) ex_commit"
      using ex_allowed [of "[]"] by (simp add: system_start_def ex_db_def)
    show "ids_left (sy_db (system_start (ex_db [])))" by (simp add: ids_left_def system_start_def ex_db_def)
  qed (simp add: system_start_def)
  with start show ?thesis by (rule step)
qed

lemma ex_committed_db:
  "db_columns (sy_db ex_committed) = [Hash ex_column]"
  "db_commit_overlay (sy_db ex_committed) = [\<lparr>cv_indexed = [(ex_key, (2, Some [7, 8]))], cv_btree = []\<rparr>]"
  "map (set_ops True \<circ> cm_changeset) (pending ex_committed) = [set_ops True ex_commit]"
  by (simp_all add: ex_committed_def commit_raw_def ex_db_def ex_commit_def copy_change_set_def indexed_copy_to_overlay_def
      ex_options commit_overlay_new_def Let_def column_options_default_def pending_def in_flight_def system_start_def queue_commit_def)

section \<open>Properties\<close>

text \<open>C1: At every moment, whatever the threads do, a lookup in a hash column returns what the last
  pending commit wrote for the key, and asks the column when no pending commit wrote it. Pending
  are the commits in the queue and the one that the log worker is working on, until its overlay
  entries are removed: a value is visible from the moment its commit returns, cleaning one commit
  never removes what a later one wrote, and no entry is left behind.\<close>

theorem lookup_sees_pending:
  assumes "fresh_db db" "reachable crc cd n db s" "unat col < length (db_commit_overlay (sy_db s))"
    and "unat col < length (db_columns (sy_db s))" "db_columns (sy_db s) ! unat col = Hash hc" "hc_hash_key hs hc k = Ok h"
  shows "db_get cd hs (sy_db s) col k =
    (case pending_map (db_options (sy_db s)) True (unat col) (pending s) h of
       Some (_, v) \<Rightarrow> Ok (v, sy_db s)
     | None \<Rightarrow> and_then (hc_get cd hc h (overlays_query (lg_overlays (db_log (sy_db s)))))
                 (\<lambda>(v, hc). Ok (v, put_column col (Hash hc) (sy_db s))))"
proof -
  have "map_of (cv_indexed (db_commit_overlay (sy_db s) ! unat col)) =
      pending_map (db_options (sy_db s)) True (unat col) (pending s)"
    using overlay_inv_map [OF reachable_overlay [OF assms(2,1)] assms(3), of True] by (simp add: overlay_map_def)
  then show ?thesis using assms(3-)
    by (auto simp: db_get_def overlay_answer_def cv_get_def split: option.split)
qed

theorem lookup_sees_pending_witness:
  "db_get ex_cd ex_hs (sy_db ex_committed) 0 ex_key = Ok (Some [7, 8], sy_db ex_committed)"
proof -
  have p: "pending_map (db_options (sy_db ex_committed)) True (unat (0 :: u8)) (pending ex_committed) = [ex_key \<mapsto> (2, Some [7, 8])]"
    using overlay_inv_map [OF reachable_overlay [OF ex_committed_reachable ex_db_fresh], of 0 True]
    by (simp add: overlay_map_def ex_committed_db)
  have c: "unat (0 :: u8) < length (db_commit_overlay (sy_db ex_committed))" "unat (0 :: u8) < length (db_columns (sy_db ex_committed))"
      "db_columns (sy_db ex_committed) ! unat (0 :: u8) = Hash ex_column"
    by (simp_all add: ex_committed_db)
  from lookup_sees_pending [OF ex_db_fresh ex_committed_reachable c ex_hash] p show ?thesis by simp
qed


lemma ex_waiting_reachable:
  "reachable ex_crc ex_cd 0 (ex_db []) ((system_start (ex_db []))\<lparr>sy_log := LogWait\<rparr>)"
proof -
  let ?s0 = "system_start (ex_db [])"
  have "process_reindex ex_crc (ex_db []) = Ok (False, ex_db [])" by (simp add: process_reindex_def ex_db_def)
  from log_start [OF this, of ex_cd] have "log_step ex_crc ex_cd (sy_db ?s0, sy_log ?s0) (ex_db [], LogLoop False False)"
    by (simp add: system_start_def)
  from log_worker [OF this, of 0] have 1: "system_step ex_crc ex_cd 0 ?s0 (?s0\<lparr>sy_log := LogLoop False False\<rparr>)"
    by (simp add: system_start_def)
  have "log_step ex_crc ex_cd (ex_db [], LogLoop False False) (ex_db [], LogWait)" by (rule log_idle) (simp add: ex_db_def)
  then have "system_step ex_crc ex_cd 0 (?s0\<lparr>sy_log := LogLoop False False\<rparr>) (?s0\<lparr>sy_log := LogWait\<rparr>)"
    using log_worker [of ex_crc ex_cd "?s0\<lparr>sy_log := LogLoop False False\<rparr>" "ex_db []" LogWait 0] by (simp add: system_start_def)
  with 1 start show ?thesis by (blast intro: step)
qed




text \<open>C12: A database that opens has the columns of its options, each of the kind the options ask for,
  with an empty commit overlay each and nothing queued; and every state its threads reach keeps the
  number and kinds of columns, the options, and an overlay per column.\<close>

theorem column_kinds_kept:
  assumes "db_open_inner hx crc rnd opt mode dk = Ok (db, threads, dk')" "length (op_columns opt) \<le> 256"
    and "reachable crc cd n db s"
  shows "fresh_db db \<and> map is_tree (db_columns (sy_db s)) = map co_btree_index (op_columns opt) \<and>
    length (db_commit_overlay (sy_db s)) = length (op_columns opt) \<and> db_options (sy_db s) = db_options db"
proof -
  have q: "quiet (map co_btree_index (op_columns opt)) db" "fresh_db db" using opened_quiet [OF assms(1,2)] by simp_all
  with reachable_kinds [OF assms(3)] reachable_options [OF assms(3) q(2)] show ?thesis
    by (simp add: quiet_def kinds_def)
qed

definition ex_hex :: hex_codec where
  "ex_hex = \<lparr>hx_encode = (\<lambda>_. []), hx_decode = (\<lambda>_. None)\<rparr>"

definition ex_disk :: disk where
  "ex_disk = \<lparr>dk_is_dir = False, dk_lock_free = True, dk_metadata = None, dk_values = (\<lambda>_. None),
    dk_indexes = (\<lambda>_. None), dk_logs = []\<rparr>"

lemma ex_open:
  obtains db where "db_open_inner ex_hex ex_crc (replicate 32 0) (options_with_columns 1) Create ex_disk =
    Ok (db, True, ex_disk\<lparr>dk_is_dir := True, dk_metadata := Some (metadata_text ex_hex (options_with_columns 1) (replicate 32 0) None)\<rparr>)"
proof -
  let ?meta = "\<lparr>md_salt = replicate 32 0, md_version = CURRENT_VERSION, md_columns = op_columns (options_with_columns 1)\<rparr>"
  have m: "load_and_validate_metadata ex_hex (replicate 32 0) (options_with_columns 1) True None =
      Ok (?meta, Some (metadata_text ex_hex (options_with_columns 1) (replicate 32 0) None))"
    by (simp add: load_and_validate_metadata_def load_metadata_file_def options_with_columns_def Let_def)
  have e: "?meta = ex_meta" by (simp add: ex_meta_def ex_options)
  have c: "unat (0 :: u8) < length (md_columns ex_meta)" by (simp add: ex_meta_def)
  obtain vts where v: "open_tables (\<lambda>_. None) 0 (md_columns ex_meta ! 0) (md_version ex_meta) [0..<256] = Ok vts"
      "hc_open (\<lambda>_. None) 0 vts (options_with_columns 1) ex_meta = Ok ex_column"
    using ex_column_facts(1) unfolding fresh_column_def and_then_Ok_iff by auto
  have o: "column_open (dk_values ex_disk) (dk_indexes ex_disk) 0 (options_with_columns 1) ex_meta = Ok (Hash ex_column)"
    using v c by (simp add: column_open_def ex_disk_def ex_meta_def column_options_default_def del: upt_rec_numeral)
  obtain cols where cols: "open_columns ex_disk (options_with_columns 1) ex_meta [0..<length (md_columns ex_meta)] = Ok cols"
      "cols = [Hash ex_column]"
    using o by (simp add: ex_meta_def)
  have d: "dk_lock_free ex_disk" "dk_metadata ex_disk = None" "dk_logs ex_disk = []" by (simp_all add: ex_disk_def)
  let ?dk = "ex_disk\<lparr>dk_is_dir := True,
    dk_metadata := Some (metadata_text ex_hex (options_with_columns 1) (replicate 32 0) None)\<rparr>"
  obtain db0 where db0: "db_inner_open ex_hex (replicate 32 0) (options_with_columns 1) Create ex_disk = Ok (db0, ?dk)"
      "lg_replay_queue (db_log db0) = []" "lg_reading (db_log db0) = None" "db_columns db0 = [Hash ex_column]"
    using m cols unfolding e [symmetric] by (simp add: db_inner_open_def d log_open_def Let_def)
  have "replay_next (db_log db0) = (None, db_log db0)" by (simp add: replay_next_def db0)
  moreover have "refresh_tables (map (fresh_table 0 False 8) xs) = Ok (map (fresh_table 0 False 8) xs)" for xs
    by (induction xs) (simp_all add: refresh_metadata_def fresh_table_def)
  then have "refresh_columns [Hash ex_column] = Ok [Hash ex_column]"
    by (simp add: column_refresh_metadata_def hc_refresh_metadata_def ex_column_facts(9))
  ultimately have r: "replay_all_logs ex_crc db0 = Ok db0"
    by (simp add: replay_all_logs_def while_more_def loop_r_unfold db0(4))
  have "options_is_valid (options_with_columns 1)"
    by (simp add: options_is_valid_def options_with_columns_def co_is_valid_def column_options_default_def)
  then show thesis by (intro that) (simp add: db_open_inner_def db0(1) r Let_def)
qed

theorem column_kinds_kept_witness:
  "\<exists>db. map is_tree (db_columns (sy_db (system_start db))) = [False] \<and>
     length (db_commit_overlay (sy_db (system_start db))) = 1 \<and> fresh_db db"
proof (rule ex_open)
  fix db
  assume o: "db_open_inner ex_hex ex_crc (replicate 32 0) (options_with_columns 1) Create ex_disk =
    Ok (db, True, ex_disk\<lparr>dk_is_dir := True, dk_metadata := Some (metadata_text ex_hex (options_with_columns 1) (replicate 32 0) None)\<rparr>)"
  have l: "length (op_columns (options_with_columns 1)) \<le> 256" by (simp add: ex_options)
  have r: "reachable ex_crc ex_cd 0 db (system_start db)" by (rule start)
  from column_kinds_kept [OF o l r] show ?thesis
    by (intro exI [of _ db]) (simp add: ex_options column_options_default_def)
qed

text \<open>C14: A commit that fails is visible. A commit with a \<open>Set\<close> followed by a \<open>Reference\<close>, in a column
  without counters, is refused with an error and not queued, but the value of the \<open>Set\<close> stays in the
  commit overlay: the next lookup of the key returns it.\<close>

theorem failed_commit_visible:
  assumes "db_bg_err db = None" "unat col < length (db_columns db)" "unat col < length (db_commit_overlay db)"
    and "unat col < length (op_columns (db_options db))" "\<not> co_ref_counted (op_columns (db_options db) ! unat col)"
    and "db_columns db ! unat col = Hash hc" "hc_hash_key hs hc k = Ok h"
  shows "\<exists>db'. commit_raw \<lparr>cs_indexed = [(col, \<lparr>ic_col = col, ic_changes = [Set h v, Reference h']\<rparr>)], cs_btree = []\<rparr> db =
      (Err (InvalidInput ''No Rc for column''), db') \<and>
    cq_commits (db_commit_queue db') = cq_commits (db_commit_queue db) \<and> db_get cd hs db' col k = Ok (Some v, db')"
  using assms
  by (simp add: commit_raw_def Let_def copy_change_set_def indexed_copy_to_overlay_def db_get_def overlay_answer_def
      cv_get_def update_conv')

theorem failed_commit_visible_witness:
  "\<exists>db'. commit_raw \<lparr>cs_indexed = [(0, \<lparr>ic_col = 0, ic_changes = [Set ex_key [7], Reference ex_key]\<rparr>)], cs_btree = []\<rparr> (ex_db []) =
      (Err (InvalidInput ''No Rc for column''), db') \<and> db_get ex_cd ex_hs db' 0 ex_key = Ok (Some [7], db')"
  using failed_commit_visible [of "ex_db []" 0 ex_column ex_hs ex_key ex_key "[7]" ex_key ex_cd] ex_hash [of ex_key]
  by (auto simp: ex_db_def ex_options column_options_default_def)

text \<open>C15: A salt in the options that is not the salt of the metadata separates writes from reads. The key
  of a commit is hashed with the salt of the options, the key of a lookup with the salt of the
  column: the commit succeeds, and a lookup of its key answers as before.\<close>

theorem salt_override_hides_commit:
  assumes "op_salt (db_options db) = Some salt" "db_bg_err db = None"
    and "unat col < length (db_columns db)" "length (db_commit_overlay db) = length (db_columns db)"
    and "length (op_columns (db_options db)) = length (db_columns db)"
    and "\<not> co_btree_index (op_columns (db_options db) ! unat col)" "\<not> co_uniform (op_columns (db_options db) ! unat col)"
    and "db_columns db ! unat col = Hash hc" "\<not> hc_uniform_keys hc"
    and "hs_blake2 hs salt k \<noteq> hs_blake2 hs (hc_salt hc) k"
  shows "\<exists>db'. commit_changes hs [(col, Set k v)] db = (Ok (), db') \<and>
    and_then (db_get cd hs db' col k) (\<lambda>(v, _). Ok v) = and_then (db_get cd hs db col k) (\<lambda>(v, _). Ok v)"
proof -
  let ?cs = "\<lparr>cs_indexed = [(col, \<lparr>ic_col = col, ic_changes = [Set (hs_blake2 hs salt k) v]\<rparr>)], cs_btree = []\<rparr>"
  have "change_set_of hs db [(col, Set k v)] = Ok ?cs"
    using assms by (simp add: change_set_of_def add_change_def indexed_push_def hash_operation_def hash_key_def Let_def)
  moreover obtain db' where c: "commit_raw ?cs db = (Ok (), db')" "db_columns db' = db_columns db" "db_log db' = db_log db"
      "db_commit_overlay db' = (db_commit_overlay db)[unat col := (db_commit_overlay db ! unat col)\<lparr>cv_indexed :=
        AList.update (hs_blake2 hs salt k) (cq_record_id (db_commit_queue db) + 1 + 1, Some v) (cv_indexed (db_commit_overlay db ! unat col))\<rparr>]"
    using assms by (simp add: commit_raw_def Let_def copy_change_set_def indexed_copy_to_overlay_def)
  ultimately have cc: "commit_changes hs [(col, Set k v)] db = (Ok (), db')" by (simp add: commit_changes_def)
  have h: "hc_hash_key hs hc k = Ok (hs_blake2 hs (hc_salt hc) k)" using assms(9) by (simp add: hc_hash_key_def hash_key_def)
  have o: "overlay_answer db' col (\<lambda>o'. cv_get o' (hs_blake2 hs (hc_salt hc) k)) =
      overlay_answer db col (\<lambda>o'. cv_get o' (hs_blake2 hs (hc_salt hc) k))"
    using assms(3,4,10) c(4) by (simp add: overlay_answer_def cv_get_def update_conv')
  have "and_then (db_get cd hs db' col k) (\<lambda>(v, _). Ok v) = and_then (db_get cd hs db col k) (\<lambda>(v, _). Ok v)"
    using assms(3,8)
    by (cases "hc_get cd hc (hs_blake2 hs (hc_salt hc) k) (overlays_query (lg_overlays (db_log db)))")
      (auto simp: db_get_def c(2,3) h o split: option.split)
  with cc show ?thesis by blast
qed

theorem salt_override_hides_commit_witness:
  "\<exists>db'. commit_changes ex_salted [(0, Set ex_key [7])] (ex_db [1]) = (Ok (), db') \<and>
    and_then (db_get ex_cd ex_salted db' 0 ex_key) (\<lambda>(v, _). Ok v) =
    and_then (db_get ex_cd ex_salted (ex_db [1]) 0 ex_key) (\<lambda>(v, _). Ok v)"
proof (rule salt_override_hides_commit)
  show "hs_blake2 ex_salted [1] ex_key \<noteq> hs_blake2 ex_salted (hc_salt ex_column) ex_key"
    using arg_cong [of "[1]" "replicate 32 0" length] by (auto simp: ex_salted_def ex_column_hash)
qed (simp_all add: ex_db_def ex_options column_options_default_def ex_column_hash)

end
