(* ===== verification/Migration.thy ===== *)
theory Migration
  imports Db_Props
begin

text \<open>
  Migration of a database to other column options (src/src/migration.rs): which columns have to be
  re-populated, the closure that turns the items of a source column into commits of the destination,
  and the files that are moved, copied or removed with a column. Closing and opening the two databases
  in between is that of \<open>Db\<close> and left out here, as are log messages and the counter \<open>ncommits\<close> they print.
\<close>

section \<open>Columns to migrate\<close>

definition COMMIT_SIZE :: u64 where "COMMIT_SIZE = 10240"

definition columns_to_migrate :: "metadata \<Rightarrow> u8 list" where
  "columns_to_migrate meta = []"

fun check_hash_columns :: "column_options list \<Rightarrow> column_options list \<Rightarrow> u8 list \<Rightarrow> unit result" where
  "check_hash_columns source to [] = Ok ()"
| "check_hash_columns source to (c # cs) =
     and_then (assert_r (unat c < length source)) (\<lambda>_.
     if co_btree_index (source ! unat c) \<or> co_btree_index (to ! unat c)
     then Err (Migration ''Migrate only implemented for hash indexed column to hash indexed column'')
     else check_hash_columns source to cs)"

text \<open>
  The options of both databases and the set of columns to migrate, in the order of a \<open>BTreeSet\<close>. The
  salt of the destination is always set, so the check for a changed salt that follows cannot fail.
\<close>

definition migrate_setup ::
    "metadata option \<Rightarrow> options \<Rightarrow> u8 list \<Rightarrow> (options \<times> options \<times> u8 list) result" where
  "migrate_setup meta to force_migrate =
     (case meta of
        None \<Rightarrow> Err (Migration ''Error loading source metadata'')
      | Some source_meta \<Rightarrow>
          if length (md_columns source_meta) \<noteq> length (op_columns to)
          then Err (Migration ''Source and dest columns mismatch'')
          else
            (let n = unat (word_of_nat (length (md_columns source_meta)) :: u8);
                 to = to\<lparr>op_salt := Some (md_salt source_meta)\<rparr>;
                 source_options = (options_with_columns (word_of_nat (length (md_columns source_meta))))
                   \<lparr>op_salt := Some (md_salt source_meta), op_columns := md_columns source_meta\<rparr>;
                 changed = filter (\<lambda>c. md_columns source_meta ! unat c \<noteq> op_columns to ! unat c)
                   (map word_of_nat [0..<n]);
                 to_migrate = sort (remdups (columns_to_migrate source_meta @ force_migrate @ changed))
             in and_then (check_hash_columns (md_columns source_meta) (op_columns to) to_migrate) (\<lambda>_.
                  Ok (source_options, to, to_migrate))))"

section \<open>Re-populating a column\<close>

text \<open>
  What the closure captures: the change set being filled, its number of operations, the destination.
  \<open>mg_stop\<close> is how the closure was left when it did not return.
\<close>

record migration =
  mg_commit :: commit_change_set
  mg_nb_commit :: u64
  mg_dest :: db_inner
  mg_stop :: "unit result"

definition change_set_default :: commit_change_set where
  "change_set_default = \<lparr>cs_indexed = [], cs_btree = []\<rparr>"

definition push_set :: "u8 \<Rightarrow> key \<Rightarrow> bytes \<Rightarrow> commit_change_set \<Rightarrow> commit_change_set" where
  "push_set c k value cs =
     (let s = (case map_of (cs_indexed cs) c of Some s \<Rightarrow> s | None \<Rightarrow> \<lparr>ic_col = c, ic_changes = []\<rparr>)
      in cs\<lparr>cs_indexed := AList.update c (s\<lparr>ic_changes := ic_changes s @ [Set k value]\<rparr>) (cs_indexed cs)\<rparr>)"

text \<open>The value is taken out of its variable in every round, so that only the first round has it.\<close>

fun migrate_item :: "u8 \<Rightarrow> key \<Rightarrow> nat \<Rightarrow> bytes \<Rightarrow> migration \<Rightarrow> migration \<times> bool" where
  "migrate_item c k 0 value m = (m, True)"
| "migrate_item c k (Suc rc) value m =
     (let m = m\<lparr>mg_commit := push_set c k value (mg_commit m), mg_nb_commit := mg_nb_commit m + 1\<rparr>
      in if mg_nb_commit m = COMMIT_SIZE then
           (let (r, dest) = commit_raw (mg_commit m) (mg_dest m);
                m = m\<lparr>mg_commit := change_set_default, mg_dest := dest\<rparr>
            in case r of
                 Ok _ \<Rightarrow> migrate_item c k rc [] (m\<lparr>mg_nb_commit := 0\<rparr>)
               | Err _ \<Rightarrow> (m, False)
               | Panic \<Rightarrow> (m\<lparr>mg_stop := Panic\<rparr>, False)
               | Diverge \<Rightarrow> (m\<lparr>mg_stop := Diverge\<rparr>, False))
         else migrate_item c k rc [] m)"

definition migrate_column :: "codec \<Rightarrow> db_inner \<Rightarrow> u8 \<Rightarrow> migration \<Rightarrow> migration result" where
  "migrate_column cd source c m =
     and_then (iter_column_index_while cd source c
                 (\<lambda>m st. migrate_item c (is_key st) (unat (is_rc st)) (is_value st) m) m) (\<lambda>m.
     and_then (mg_stop m) (\<lambda>_. Ok m))"

text \<open>The last commit.\<close>

definition migrate_finish :: "migration \<Rightarrow> unit result \<times> db_inner" where
  "migrate_finish m = commit_raw (mg_commit m) (mg_dest m)"

section \<open>Files of a column\<close>

text \<open>
  \<open>deplace_column\<close>: the files whose names belong to the column, in the first directory and afterwards in
  both.
\<close>

definition deplace_files ::
    "(u16 \<Rightarrow> u8) \<Rightarrow> u8 \<Rightarrow> bool \<Rightarrow> (u16 \<Rightarrow> bytes option) \<Rightarrow> (u16 \<Rightarrow> bytes option)
       \<Rightarrow> (u16 \<Rightarrow> bytes option) \<times> (u16 \<Rightarrow> bytes option)" where
  "deplace_files col_of c copy from to =
     ((\<lambda>i. if col_of i = c \<and> \<not> copy then None else from i),
      (\<lambda>i. if col_of i = c \<and> from i \<noteq> None then from i else to i))"

definition deplace_column :: "u8 \<Rightarrow> disk \<Rightarrow> disk \<Rightarrow> bool \<Rightarrow> disk \<times> disk" where
  "deplace_column c from to copy =
     (let (fi, ti) = deplace_files index_id_col c copy (dk_indexes from) (dk_indexes to);
          (fv, tv) = deplace_files table_id_col c copy (dk_values from) (dk_values to)
      in (from\<lparr>dk_indexes := fi, dk_values := fv\<rparr>, to\<lparr>dk_indexes := ti, dk_values := tv\<rparr>))"

definition move_column :: "u8 \<Rightarrow> disk \<Rightarrow> disk \<Rightarrow> disk \<times> disk" where
  "move_column c from to = deplace_column c from to False"

definition copy_column :: "u8 \<Rightarrow> disk \<Rightarrow> disk \<Rightarrow> disk \<times> disk" where
  "copy_column c from to = deplace_column c from to True"

text \<open>The last part of \<open>clear_column\<close>, after the database was opened and closed to enact its logs.\<close>

definition remove_column_files :: "u8 \<Rightarrow> disk \<Rightarrow> disk" where
  "remove_column_files column dk =
     dk\<lparr>dk_indexes := (\<lambda>i. if index_id_col i = column then None else dk_indexes dk i),
        dk_values := (\<lambda>i. if table_id_col i = column then None else dk_values dk i)\<rparr>"

section \<open>What the destination receives\<close>

text \<open>The operations on a column that were committed and not yet logged, and those still collected.\<close>

definition migrated_ops :: "u8 \<Rightarrow> migration \<Rightarrow> (key, bytes) operation list" where
  "migrated_ops c m =
     concat (map (\<lambda>cm. set_ops True (cm_changeset cm) (unat c)) (cq_commits (db_commit_queue (mg_dest m))))
     @ set_ops True (mg_commit m) (unat c)"

definition migration_ok :: "u8 \<Rightarrow> migration \<Rightarrow> bool" where
  "migration_ok c m \<longleftrightarrow>
     (let dest = mg_dest m in
      db_bg_err dest = None \<and> unat c < length (db_commit_overlay dest) \<and>
      unat c < length (op_columns (db_options dest)) \<and>
      change_set_allowed (db_options dest) (length (db_commit_overlay dest)) (mg_commit m)) \<and>
     mg_nb_commit m < COMMIT_SIZE \<and> mg_stop m = Ok ()"

lemma default_allowed: "change_set_allowed opt n change_set_default"
  by (simp add: change_set_allowed_def change_set_default_def)

lemma default_ops: "set_ops True change_set_default c = []"
  by (simp add: set_ops_def change_set_default_def)

lemma list_all_update:
  "\<lbrakk>list_all P xs; P (k, v)\<rbrakk> \<Longrightarrow> list_all P (AList.update k v xs)"
  by (induction xs) auto

lemma push_set_ops: "set_ops True (push_set c k v cs) (unat c) = set_ops True cs (unat c) @ [Set k v]"
  by (simp add: set_ops_def push_set_def Let_def update_conv' split: option.split)

lemma push_set_allowed:
  assumes "change_set_allowed opt n cs" "unat c < n" "unat c < length (op_columns opt)"
  shows "change_set_allowed opt n (push_set c k v cs)"
proof -
  have "set_allowed opt n c (ic_col s) (ic_changes s)" if "map_of (cs_indexed cs) c = Some s" for s
    using assms(1) map_of_SomeD [OF that] by (auto simp: change_set_allowed_def list_all_iff)
  with assms show ?thesis
    by (auto simp: change_set_allowed_def push_set_def Let_def set_allowed_def countable_def distinct_update
        intro!: list_all_update split: option.split)
qed

text \<open>A commit of an allowed change set is accepted and queued last.\<close>

lemma commit_raw_queued:
  assumes "db_bg_err db = None" "change_set_allowed (db_options db) (length (db_commit_overlay db)) cs"
  shows "\<exists>db' cm. commit_raw cs db = (Ok (), db') \<and> db_bg_err db' = None \<and> db_options db' = db_options db \<and>
    length (db_commit_overlay db') = length (db_commit_overlay db) \<and>
    cq_commits (db_commit_queue db') = cq_commits (db_commit_queue db) @ [cm] \<and> cm_changeset cm = cs"
proof -
  obtain ovs b where "copy_change_set (db_options db) (cq_record_id (db_commit_queue db) + 1 + 1) cs (db_commit_overlay db, 0) = (Ok (), ovs, b)"
      "length ovs = length (db_commit_overlay db)"
    using copy_change_set_ok [OF assms(2)] by blast
  with assms(1) show ?thesis by (auto simp: commit_raw_def Let_def queue_commit_def)
qed

section \<open>The operations of an item\<close>

fun item_ops :: "key \<Rightarrow> nat \<Rightarrow> bytes \<Rightarrow> (key, bytes) operation list" where
  "item_ops k 0 v = []"
| "item_ops k (Suc n) v = Set k v # item_ops k n []"

lemma migrate_item_ops:
  "migration_ok c m \<Longrightarrow> \<exists>m'. migrate_item c k n v m = (m', True) \<and> migration_ok c m' \<and>
     migrated_ops c m' = migrated_ops c m @ item_ops k n v"
proof (induction n arbitrary: v m)
  case (Suc n)
  let ?dest = "mg_dest m" and ?cs = "push_set c k v (mg_commit m)"
  have cs: "change_set_allowed (db_options ?dest) (length (db_commit_overlay ?dest)) ?cs"
    using Suc.prems by (auto simp: migration_ok_def Let_def intro: push_set_allowed)
  show ?case
  proof (cases "mg_nb_commit m + 1 = COMMIT_SIZE")
    case True
    obtain db' cm where d: "commit_raw ?cs ?dest = (Ok (), db')" "db_bg_err db' = None" "db_options db' = db_options ?dest"
        "length (db_commit_overlay db') = length (db_commit_overlay ?dest)"
        "cq_commits (db_commit_queue db') = cq_commits (db_commit_queue ?dest) @ [cm]" "cm_changeset cm = ?cs"
      using commit_raw_queued [OF _ cs] Suc.prems by (auto simp: migration_ok_def Let_def)
    let ?m = "m\<lparr>mg_commit := change_set_default, mg_dest := db', mg_nb_commit := 0\<rparr>"
    have "migration_ok c ?m" using Suc.prems d by (simp add: migration_ok_def Let_def default_allowed COMMIT_SIZE_def)
    moreover have "migrated_ops c ?m = migrated_ops c m @ [Set k v]"
      using d by (simp add: migrated_ops_def default_ops push_set_ops)
    ultimately show ?thesis using Suc.IH [of ?m "[]"] True d(1) by (auto simp: Let_def)
  next
    case False
    let ?m = "m\<lparr>mg_commit := ?cs, mg_nb_commit := mg_nb_commit m + 1\<rparr>"
    have "mg_nb_commit m + 1 \<le> COMMIT_SIZE" using Suc.prems by (auto simp: migration_ok_def inc_le)
    with False Suc.prems cs have "migration_ok c ?m" by (simp add: migration_ok_def Let_def)
    moreover have "migrated_ops c ?m = migrated_ops c m @ [Set k v]" by (simp add: migrated_ops_def push_set_ops)
    ultimately show ?thesis using Suc.IH [of ?m "[]"] False by (auto simp: Let_def)
  qed
qed simp

text \<open>What further Sets of a stored key do to the map of the destination column.\<close>

lemma item_ops_stored:
  "\<lbrakk>M k = Some (rc, x); unat rc + n < 2 ^ 32\<rbrakk> \<Longrightarrow>
     fold (apply_op rcd pre) (item_ops k n []) M =
       (if rcd then M(k \<mapsto> (rc + word_of_nat n, x)) else if pre \<or> n = 0 then M else M(k \<mapsto> (1, [])))"
proof (induction n arbitrary: M rc x)
  case (Suc n)
  show ?case
  proof (cases rcd)
    case True
    have "rc \<noteq> LOCKED_REF" using Suc.prems(2) by (auto simp: LOCKED_REF_def)
    then have "more_refs rc = rc + 1" by (simp add: more_refs_def)
    moreover have "unat (rc + 1) + n < 2 ^ 32" using Suc.prems(2) by (simp add: unat_word_ariths)
    ultimately have "fold (apply_op rcd pre) (item_ops k n []) (M(k \<mapsto> (more_refs rc, x))) = M(k \<mapsto> (rc + 1 + word_of_nat n, x))"
      using Suc.IH [of "M(k \<mapsto> (rc + 1, x))" "rc + 1" x] True by (simp only: fun_upd_same fun_upd_upd if_True)
    then show ?thesis using Suc.prems(1) True by (simp del: fun_upd_apply add: add.assoc)
  next
    case False
    show ?thesis
    proof (cases pre)
      case True
      with False Suc.IH [of M rc x] Suc.prems show ?thesis by simp
    next
      case pre: False
      have "unat (1 :: u32) + n < 2 ^ 32" using Suc.prems(2) by simp
      then have "fold (apply_op rcd pre) (item_ops k n []) (M(k \<mapsto> (1, []))) = M(k \<mapsto> (1, []))"
        using Suc.IH [of "M(k \<mapsto> (1, []))" 1 "[]"] False pre by (simp only: fun_upd_same fun_upd_upd if_False if_cancel simp_thms)
      then show ?thesis using False pre Suc.prems(1) by (simp del: fun_upd_apply)
    qed
  qed
qed (auto simp: fun_upd_idem)

lemma item_ops_new:
  assumes "M k = None" "0 < rc"
  shows "fold (apply_op rcd pre) (item_ops k (unat rc) v) M =
    M(k \<mapsto> if rcd then (rc, v) else if pre \<or> rc = 1 then (1, v) else (1, []))"
proof -
  obtain n where n: "unat rc = Suc n" using assms(2) by (metis gr0_implies_Suc unat_gt_0 word_neq_0_conv)
  have "unat rc < 2 ^ 32" using unsigned_less [of rc, where ?'a = nat] by simp
  then have l: "unat (1 :: u32) + n < 2 ^ 32" using n by simp
  have w: "1 + word_of_nat n = rc" using arg_cong [OF n, of "word_of_nat :: nat \<Rightarrow> u32"] by simp
  have z: "n = 0 \<longleftrightarrow> rc = 1" using n unsigned_word_eqI [of rc 1, where ?'a = nat] by auto
  have "fold (apply_op rcd pre) (item_ops k n []) (M(k \<mapsto> (1, v))) =
      M(k \<mapsto> if rcd then (rc, v) else if pre \<or> rc = 1 then (1, v) else (1, []))"
    using item_ops_stored [of "M(k \<mapsto> (1, v))" k 1 v n rcd pre, OF fun_upd_same l] w z by (auto simp del: fun_upd_apply)
  with assms(1) n show ?thesis by (simp del: fun_upd_apply)
qed

section \<open>The property\<close>

text \<open>C37: The closure of \<open>migrate\<close> hands an item of the source to the destination without failing, across
  commits: with the operations committed and collected before giving the map \<open>M\<close> without the key, those
  of the item add it. A destination that counts references gets the counter and the value of the item,
  one that keeps stored values gets the value. A destination that does neither gets the value only of an
  item with a single reference; of any other item it gets the empty value, since the value is taken out
  of its variable in the first round of the loop.
\<close>

theorem migrate_item_content:
  assumes "migration_ok c m" "M = fold (apply_op rcd pre) (migrated_ops c m) (\<lambda>_. None)" "M k = None" "0 < rc"
  shows "\<exists>m'. migrate_item c k (unat rc) v m = (m', True) \<and> migration_ok c m' \<and>
    fold (apply_op rcd pre) (migrated_ops c m') (\<lambda>_. None) =
      M(k \<mapsto> if rcd then (rc, v) else if pre \<or> rc = 1 then (1, v) else (1, []))"
  using migrate_item_ops [OF assms(1), of k "unat rc" v] item_ops_new [of M k rc rcd pre v, OF assms(3,4)] assms(2)
  by (auto simp del: fun_upd_apply)

theorem migrate_item_content_witness:
  "\<exists>m'. migrate_item 0 ex_key 3 [7, 8] \<lparr>mg_commit = change_set_default, mg_nb_commit = 10238, mg_dest = ex_db [], mg_stop = Ok ()\<rparr>
      = (m', True) \<and> fold (apply_op False False) (migrated_ops 0 m') (\<lambda>_. None) = [ex_key \<mapsto> (1, [])]"
proof -
  let ?m = "\<lparr>mg_commit = change_set_default, mg_nb_commit = 10238, mg_dest = ex_db [], mg_stop = Ok ()\<rparr>"
  have "migration_ok 0 ?m"
    by (simp add: migration_ok_def ex_db_def ex_options default_allowed COMMIT_SIZE_def)
  moreover have "(\<lambda>_. None) = fold (apply_op False False) (migrated_ops 0 ?m) (\<lambda>_. None)"
    by (simp add: migrated_ops_def ex_db_def default_ops)
  ultimately show ?thesis
    using migrate_item_content [of 0 ?m "\<lambda>_. None" False False ex_key 3 "[7, 8]"] by auto
qed

end
