(* ===== verification/Btree_Codec.thy ===== *)
theory Btree_Codec
  imports Btree_Node
begin

text \<open>
  The encoding of btree nodes: \<open>encode_node\<close> writes the used part of a node, and \<open>from_encoded\<close>
  reads exactly that part back.

  \<open>node_has n ss cs\<close> is the abstraction of a node that the rest of the development works with: the
  separators \<open>ss\<close> and the children \<open>cs\<close> fill the front of the two arrays. A leaf has no children.
\<close>

section \<open>The content of a node\<close>

definition node_has :: "node \<Rightarrow> separator_inner list \<Rightarrow> address list \<Rightarrow> bool" where
  "node_has n ss cs \<longleftrightarrow> length ss \<le> ORDER \<and> length cs \<le> ORDER_CHILD \<and>
     map sp_separator (nd_separators n) = map Some ss @ replicate (ORDER - length ss) None \<and>
     map ch_entry_index (nd_children n) = map Some cs @ replicate (ORDER_CHILD - length cs) None"

definition loaded_separator :: "separator_inner \<Rightarrow> separator" where
  "loaded_separator s = \<lparr>sp_modified = False, sp_separator = Some s\<rparr>"

definition loaded_child :: "address \<Rightarrow> child" where
  "loaded_child a = \<lparr>ch_moved = False, ch_entry_index = (if a = 0 then None else Some a)\<rparr>"

text \<open>The node that \<open>from_encoded\<close> returns.\<close>

definition loaded :: "separator_inner list \<Rightarrow> address list \<Rightarrow> node" where
  "loaded ss ws =
     \<lparr>nd_separators = map loaded_separator ss @ replicate (ORDER - length ss) separator_default,
      nd_children = map loaded_child ws @ replicate (ORDER_CHILD - length ws) child_default,
      nd_changed = False\<rparr>"

text \<open>The address that is written for each child.\<close>

definition child_words :: "separator_inner list \<Rightarrow> address list \<Rightarrow> address list" where
  "child_words ss cs = cs @ replicate (length ss + 1 - length cs) 0"

definition shaped :: "separator_inner list \<Rightarrow> address list \<Rightarrow> bool" where
  "shaped ss cs \<longleftrightarrow> length ss \<le> ORDER \<and> (cs = [] \<or> length cs = length ss + 1) \<and> 0 \<notin> set cs"

definition encodable :: "separator_inner list \<Rightarrow> bool" where
  "encodable ss \<longleftrightarrow> (\<forall>s\<in>set ss. si_value s \<noteq> 0 \<and> length (si_key s) < 2 ^ 32)"

section \<open>Bytes\<close>

definition separator_bytes :: "separator_inner \<Rightarrow> bytes" where
  "separator_bytes s =
     u64_to_le (si_value s) @
     (if length (si_key s) \<ge> 255 then 255 # u32_to_le (word_of_nat (length (si_key s)))
      else [word_of_nat (length (si_key s))]) @ si_key s"

fun node_bytes :: "separator_inner list \<Rightarrow> address list \<Rightarrow> bytes" where
  "node_bytes ss [] = []"
| "node_bytes [] (w # ws) = u64_to_le w"
| "node_bytes (s # ss) (w # ws) = u64_to_le w @ separator_bytes s @ node_bytes ss ws"

text \<open>A buffer whose offset stands behind \<open>p\<close>.\<close>

definition cursor :: "bytes \<Rightarrow> bytes \<Rightarrow> nat \<Rightarrow> ventry" where
  "cursor p q c = \<lparr>en_off = length p, en_buf = p @ q, en_cap = c\<rparr>"

lemma read_slice_cursor: "length x = n \<Longrightarrow> read_slice n (cursor p (x @ q) c) = Ok (x, cursor (p @ x) q c)"
  by (simp add: cursor_def read_slice_def subslice_def)

lemma read_u64_cursor: "read_u64 (cursor p (u64_to_le a @ q) c) = Ok (a, cursor (p @ u64_to_le a) q c)"
  by (simp add: read_u64_def read_slice_cursor)

lemma read_u32_cursor: "read_u32 (cursor p (u32_to_le a @ q) c) = Ok (a, cursor (p @ u32_to_le a) q c)"
  by (simp add: read_u32_def read_slice_cursor)

lemma check_cursor: "check_remaining_len (cursor p q c) n err = (if n \<le> length q then Ok () else Err err)"
  by (simp add: cursor_def check_remaining_len_def)

lemma read_child_index_cursor:
  "read_child_index (cursor p (u64_to_le w @ q) c) = Ok (if w = 0 then None else Some w, cursor (p @ u64_to_le w) q c)"
  by (simp add: read_child_index_def check_cursor read_u64_cursor)

lemma cursor_end: "en_off (cursor p q c) = length (en_buf (cursor p q c)) \<longleftrightarrow> q = []"
  by (simp add: cursor_def)

lemma read_separator_cursor:
  assumes "si_value s \<noteq> 0" "length (si_key s) < 2 ^ 32"
  shows "read_separator (cursor p (separator_bytes s @ q) c) = Ok (Some s, cursor (p @ separator_bytes s) q c)"
proof -
  let ?n = "length (si_key s)"
  have b: "si_key s \<noteq> [] \<or> ?n = 0" by auto
  have n: "unat (word_of_nat ?n :: u32) = ?n" using assms(2) by (simp add: unat_of_nat)
  have k: "read_slice ?n (cursor p (si_key s @ q) c) = Ok (si_key s, cursor (p @ si_key s) q c)" for p
    by (rule read_slice_cursor) simp
  have s: "\<lparr>si_key = si_key s, si_value = si_value s\<rparr> = s" by simp
  have h: "read_slice (Suc 0) (cursor p (x # q) c) = Ok ([x], cursor (p @ [x]) q c)" for p q and x :: u8
    using read_slice_cursor [of "[x]" 1 p q c] by simp
  show ?thesis
  proof (cases "?n \<ge> 255")
    case True
    then have e: "separator_bytes s @ q = u64_to_le (si_value s) @ 255 # u32_to_le (word_of_nat ?n) @ si_key s @ q"
      by (simp add: separator_bytes_def)
    show ?thesis
      using True assms
      by (simp add: read_separator_def cursor_end e check_cursor read_u64_cursor h read_u32_cursor n k s)
        (simp add: separator_bytes_def)
  next
    case False
    then have e: "separator_bytes s @ q = u64_to_le (si_value s) @ word_of_nat ?n # si_key s @ q"
      by (simp add: separator_bytes_def)
    have w: "unat (word_of_nat ?n :: u8) = ?n" using False by (simp add: unat_of_nat)
    then have "(word_of_nat ?n :: u8) \<noteq> 255" using False by auto
    with w show ?thesis
      using False assms
      by (simp add: read_separator_def cursor_end e check_cursor read_u64_cursor h k s)
        (simp add: separator_bytes_def)
  qed
qed

lemma write_slice_cursor:
  "length x \<le> n \<Longrightarrow> length p + length x \<le> c \<Longrightarrow>
     write_slice x (cursor p (replicate n 0) c) = Ok (cursor (p @ x) (replicate (n - length x) 0) c)"
  by (simp add: cursor_def write_slice_def blit_def)

lemma resize_cursor: "resize_by n (cursor p [] c) = cursor p (replicate n 0) (length p + n)"
  by (simp add: cursor_def resize_by_def)

lemma write_child_index_cursor: "write_child_index w (cursor p [] c) = Ok (cursor (p @ u64_to_le w) [] (length p + 8))"
  by (simp add: write_child_index_def write_u64_def resize_cursor write_slice_cursor)

lemma write_separator_cursor:
  "\<exists>c'. write_separator (si_key s) (si_value s) (cursor p [] c) = Ok (cursor (p @ separator_bytes s) [] c')"
proof -
  have "write_slice [x] (cursor p (0 # replicate n 0) c) = Ok (cursor (p @ [x]) (replicate n 0) c)"
    if "length p < c" for x p c and n :: nat
    using write_slice_cursor [of "[x]" "Suc n" p c] that by simp
  then show ?thesis
    by (auto simp: write_separator_def write_u64_def write_u32_def resize_cursor write_slice_cursor separator_bytes_def Let_def)
qed

section \<open>The loops\<close>

lemma encode_loop_bytes:
  assumes "map sp_separator seps = map Some ss @ replicate m None" "length seps < length cs"
    and "length ss \<le> length seps" "length seps + 1 = length cs"
    and "take (Suc (length ss)) (map (\<lambda>c. case ch_entry_index c of Some a \<Rightarrow> a | None \<Rightarrow> 0) cs) = ws"
  shows "\<exists>c'. encode_loop cs seps (cursor p [] c) = Ok (cursor (p @ node_bytes ss ws) [] c')"
  using assms
proof (induction cs seps "cursor p [] c" arbitrary: ss ws p c rule: encode_loop.induct)
  case (2 x cs seps)
  let ?w = "case ch_entry_index x of Some a \<Rightarrow> a | None \<Rightarrow> NULL_ADDRESS"
  have wr: "write_child_index ?w (cursor p [] c) = Ok (cursor (p @ u64_to_le ?w) [] (length p + 8))"
    by (rule write_child_index_cursor)
  show ?case
  proof (cases ss)
    case Nil
    then show ?thesis using 2(2-) wr
      by (cases seps; cases m) (auto simp: option.case_eq_if split: if_splits)
  next
    case (Cons s ss')
    then obtain sp seps' where sp: "seps = sp # seps'" "sp_separator sp = Some s"
        "map sp_separator seps' = map Some ss' @ replicate m None"
      using 2(2) by auto
    have c: "cs \<noteq> []" using 2(5) sp(1) by auto
    obtain c1 where w: "write_separator (si_key s) (si_value s) (cursor (p @ u64_to_le ?w) [] (length p + 8)) =
        Ok (cursor ((p @ u64_to_le ?w) @ separator_bytes s) [] c1)"
      using write_separator_cursor by blast
    have ws: "ws = ?w # take (Suc (length ss')) (map (\<lambda>c. case ch_entry_index c of Some a \<Rightarrow> a | None \<Rightarrow> 0) cs)"
      using 2(6) Cons by (auto split: option.split)
    have "\<exists>c'. encode_loop cs seps' (cursor ((p @ u64_to_le ?w) @ separator_bytes s) [] c1) =
        Ok (cursor (((p @ u64_to_le ?w) @ separator_bytes s) @
          node_bytes ss' (take (Suc (length ss')) (map (\<lambda>c. case ch_entry_index c of Some a \<Rightarrow> a | None \<Rightarrow> 0) cs))) [] c')"
      using 2 Cons sp by (intro 2(1) [OF wr c sp(1,2) w]) auto
    then show ?thesis using wr c sp w Cons ws by simp
  qed
qed simp


lemma node_has_length:
  assumes "node_has n ss cs"
  shows "length (nd_separators n) = 8" "length (nd_children n) = 9"
proof -
  from assms have "length (map sp_separator (nd_separators n)) = 8" "length (map ch_entry_index (nd_children n)) = 9"
    unfolding node_has_def by simp_all
  then show "length (nd_separators n) = 8" "length (nd_children n) = 9" by simp_all
qed

lemma encode_node_bytes:
  assumes "node_has n ss cs" "shaped ss cs"
  shows "encode_node n = Ok (node_bytes ss (child_words ss cs))"
proof -
  note l = node_has_length [OF assms(1)]
  let ?f = "\<lambda>m. case m of Some a \<Rightarrow> a | None \<Rightarrow> (0 :: address)"
  have "map (\<lambda>c. ?f (ch_entry_index c)) (nd_children n) = map ?f (map ch_entry_index (nd_children n))" by simp
  also have "\<dots> = cs @ replicate (9 - length cs) 0" using assms(1) by (simp add: node_has_def map_idI)
  finally have w: "take (Suc (length ss)) (map (\<lambda>c. ?f (ch_entry_index c)) (nd_children n)) = child_words ss cs"
    using assms by (auto simp: shaped_def child_words_def)
  have s: "map sp_separator (nd_separators n) = map Some ss @ replicate (8 - length ss) None" "length ss \<le> 8"
    using assms(1) by (simp_all add: node_has_def)
  obtain c' where "encode_loop (nd_children n) (nd_separators n) (cursor [] [] 0) = Ok (cursor ([] @ node_bytes ss (child_words ss cs)) [] c')"
    using encode_loop_bytes [OF s(1) _ _ _ w] l s(2) by fastforce
  then show ?thesis by (simp add: encode_node_def entry_new_def cursor_def)
qed

lemma loaded_children:
  assumes "length ws < 9"
  shows "nd_children (loaded ss (ws @ [w])) =
    (if w = 0 then nd_children (loaded ss ws)
     else (nd_children (loaded ss ws))[length ws := (nd_children (loaded ss ws) ! length ws)\<lparr>ch_entry_index := Some w\<rparr>])"
proof -
  have r: "replicate (9 - length ws) child_default = child_default # replicate (8 - length ws) child_default"
    using assms by (simp flip: replicate_Suc add: Suc_diff_le)
  have "loaded_child 0 = child_default" "w \<noteq> 0 \<Longrightarrow> child_default\<lparr>ch_entry_index := Some w\<rparr> = loaded_child w"
    by (simp_all add: loaded_child_def child_default_def)
  then show ?thesis by (simp add: loaded_def r nth_append list_update_append)
qed

lemma loaded_separators:
  assumes "length ss < 8"
  shows "nd_separators (loaded (ss @ [s]) ws) =
    (nd_separators (loaded ss ws))[length ss := (nd_separators (loaded ss ws) ! length ss)\<lparr>sp_separator := Some s\<rparr>]"
proof -
  have r: "replicate (8 - length ss) separator_default = separator_default # replicate (7 - length ss) separator_default"
    using assms by (simp flip: replicate_Suc add: Suc_diff_le)
  have "separator_default\<lparr>sp_separator := Some s\<rparr> = loaded_separator s"
    by (simp add: loaded_separator_def separator_default_def)
  then show ?thesis by (simp add: loaded_def r nth_append list_update_append)
qed

lemma loaded_more:
  "nd_separators (loaded ss ws) = nd_separators (loaded ss ws')" "nd_children (loaded ss ws) = nd_children (loaded ss' ws)"
  "nd_changed (loaded ss ws) = False"
  by (simp_all add: loaded_def)

lemma decode_loop_loaded:
  assumes "length ws = length ss + 1" "length ss1 = length ws1" "length ss1 + length ss \<le> 8" "encodable ss"
  shows "decode_loop (9 - length ss1) (length ss1) (loaded ss1 ws1) (cursor p (node_bytes ss ws) c) =
    Ok (loaded (ss1 @ ss) (ws1 @ ws))"
  using assms
proof (induction ss arbitrary: ws ss1 ws1 p)
  case Nil
  then obtain w where w: "ws = [w]" by (cases ws) auto
  obtain k where k: "9 - length ss1 = Suc k" using Nil by (cases "9 - length ss1") auto
  have n: "(case if w = 0 then None else Some w of
      Some index \<Rightarrow> (loaded ss1 ws1)\<lparr>nd_children := (nd_children (loaded ss1 ws1))[length ss1 := (nd_children (loaded ss1 ws1) ! length ss1)\<lparr>ch_entry_index := Some index\<rparr>]\<rparr>
    | None \<Rightarrow> loaded ss1 ws1) = loaded ss1 (ws1 @ [w])"
    using loaded_children [of ws1 ss1 w] Nil by (intro node.equality) (auto simp: loaded_more)
  have "read_separator (cursor p [] c) = Ok (None, cursor p [] c)" for p by (simp add: read_separator_def cursor_def)
  then show ?case using w k n read_child_index_cursor [of p w "[]" c] by (simp add: Let_def)
next
  case (Cons s ss)
  then obtain w ws' where w: "ws = w # ws'" "length ws' = length ss + 1" by (cases ws) auto
  obtain k where k: "9 - length ss1 = Suc k" "k \<noteq> 0" "k = 9 - length (ss1 @ [s])" using Cons by (cases "9 - length ss1") auto
  let ?n = "loaded ss1 (ws1 @ [w])"
  have n: "(case if w = 0 then None else Some w of
      Some index \<Rightarrow> (loaded ss1 ws1)\<lparr>nd_children := (nd_children (loaded ss1 ws1))[length ss1 := (nd_children (loaded ss1 ws1) ! length ss1)\<lparr>ch_entry_index := Some index\<rparr>]\<rparr>
    | None \<Rightarrow> loaded ss1 ws1) = ?n"
    using loaded_children [of ws1 ss1 w] Cons by (intro node.equality) (auto simp: loaded_more)
  have m: "?n\<lparr>nd_separators := (nd_separators ?n)[length ss1 := (nd_separators ?n ! length ss1)\<lparr>sp_separator := Some s\<rparr>]\<rparr> =
      loaded (ss1 @ [s]) (ws1 @ [w])"
    using loaded_separators [of ss1 s "ws1 @ [w]"] Cons by (intro node.equality) (simp_all add: loaded_more)
  have r: "read_separator (cursor q (separator_bytes s @ node_bytes ss ws') c) =
      Ok (Some s, cursor (q @ separator_bytes s) (node_bytes ss ws') c)" for q
    using Cons.prems(4) by (intro read_separator_cursor) (simp_all add: encodable_def)
  have "decode_loop (9 - length (ss1 @ [s])) (length (ss1 @ [s])) (loaded (ss1 @ [s]) (ws1 @ [w]))
      (cursor ((p @ u64_to_le w) @ separator_bytes s) (node_bytes ss ws') c) = Ok (loaded ((ss1 @ [s]) @ ss) ((ws1 @ [w]) @ ws'))"
    using Cons.prems w by (intro Cons.IH) (auto simp: encodable_def)
  then show ?case using w k n m r [of "p @ u64_to_le w"] read_child_index_cursor [of p w "separator_bytes s @ node_bytes ss ws'" c]
    by (simp add: Let_def)
qed

lemma from_encoded_bytes:
  assumes "shaped ss cs" "encodable ss"
  shows "from_encoded (node_bytes ss (child_words ss cs)) = Ok (loaded ss (child_words ss cs))"
proof -
  have "loaded [] [] = node_default\<lparr>nd_changed := False\<rparr>" by (simp add: loaded_def node_default_def)
  moreover have "entry_new b = cursor [] b (length b)" for b by (simp add: entry_new_def cursor_def)
  ultimately show ?thesis
    using decode_loop_loaded [of "child_words ss cs" ss "[]" "[]" "[]"] assms
    by (auto simp: from_encoded_def child_words_def shaped_def)
qed

lemma loaded_has:
  assumes "shaped ss cs"
  shows "node_has (loaded ss (child_words ss cs)) ss cs"
proof -
  have "map ch_entry_index (map loaded_child cs) = map Some cs" using assms by (auto simp: shaped_def loaded_child_def)
  moreover have "map sp_separator (map loaded_separator ss) = map Some ss" by (simp add: loaded_separator_def)
  ultimately show ?thesis using assms
    by (auto simp: node_has_def loaded_def shaped_def child_words_def separator_default_def child_default_def loaded_child_def
        replicate_add [symmetric])
qed

end
