(* ===== verification/Btree_List.thy ===== *)
theory Btree_List
  imports Btree_Codec
begin

text \<open>
  The operations on the arrays of a node as operations on the lists of its separators and
  children: insertion, removal, the search for a position, and splitting a full node.
\<close>

section \<open>Arrays filled from the front\<close>

definition fill :: "nat \<Rightarrow> 'a list \<Rightarrow> 'a option list" where
  "fill N xs = map Some xs @ replicate (N - length xs) None"

definition ins :: "nat \<Rightarrow> 'a \<Rightarrow> 'a list \<Rightarrow> 'a list" where
  "ins i x xs = take i xs @ x # drop i xs"

definition del :: "nat \<Rightarrow> 'a list \<Rightarrow> 'a list" where
  "del i xs = take i xs @ drop (Suc i) xs"

abbreviation sep_list :: "node \<Rightarrow> separator_inner option list" where
  "sep_list n \<equiv> map sp_separator (nd_separators n)"

abbreviation kid_list :: "node \<Rightarrow> address option list" where
  "kid_list n \<equiv> map ch_entry_index (nd_children n)"

lemma length_ins [simp]: "i \<le> length xs \<Longrightarrow> length (ins i x xs) = Suc (length xs)"
  by (simp add: ins_def)

lemma length_del [simp]: "i < length xs \<Longrightarrow> length (del i xs) = length xs - 1"
  by (simp add: del_def)

lemma length_fill [simp]: "length xs \<le> N \<Longrightarrow> length (fill N xs) = N"
  by (simp add: fill_def)

lemma node_has_fill:
  "node_has n ss cs \<longleftrightarrow> length ss \<le> 8 \<and> length cs \<le> 9 \<and> sep_list n = fill 8 ss \<and> kid_list n = fill 9 cs"
  by (auto simp: node_has_def fill_def)

lemma fill_nth: "i < N \<Longrightarrow> length xs \<le> N \<Longrightarrow> fill N xs ! i = (if i < length xs then Some (xs ! i) else None)"
  by (simp add: fill_def nth_append)

lemma fill_eq_iff: "length xs \<le> N \<Longrightarrow> length ys \<le> N \<Longrightarrow> fill N xs = fill N ys \<longleftrightarrow> xs = ys"
proof -
  assume l: "length xs \<le> N" "length ys \<le> N"
  have "map the (takeWhile (\<lambda>x. x \<noteq> None) (fill N zs)) = zs" for zs :: "'a list"
    by (simp add: fill_def takeWhile_append map_idI)
  then show ?thesis by metis
qed

lemma fill_upd: "i < length xs \<Longrightarrow> (fill N xs)[i := Some x] = fill N (xs[i := x])"
  by (simp add: fill_def list_update_append map_update)

lemma replicate_less: "n < N \<Longrightarrow> replicate (N - n) x = x # replicate (N - Suc n) x"
  by (metis Suc_diff_Suc replicate_Suc)

lemma fill_snoc: "length xs < N \<Longrightarrow> (fill N xs)[length xs := Some x] = fill N (xs @ [x])"
  by (simp add: fill_def list_update_append replicate_less)

lemma fill_butlast: "length xs < N \<Longrightarrow> (fill N (xs @ [x]))[length xs := None] = fill N xs"
  by (simp add: fill_def list_update_append replicate_less)

section \<open>Shifting\<close>

function shift_list :: "nat \<Rightarrow> 'a option \<Rightarrow> 'a option list \<Rightarrow> 'a option list" where
  "shift_list i cur xs =
     (if cur = None \<or> Suc i \<ge> length xs then xs
      else shift_list (Suc i) (xs ! Suc i) (xs[Suc i := cur]))"
  by pat_completeness auto
termination by (relation "measure (\<lambda>(i, _, xs). length xs - i)") auto

function drop_list :: "nat \<Rightarrow> 'a option list \<Rightarrow> 'a option list" where
  "drop_list i xs =
     (if i < length xs - 1 then
        (let xs' = xs[i := xs ! Suc i, Suc i := None]
         in if xs ! Suc i = None then xs' else drop_list (Suc i) xs')
      else xs)"
  by pat_completeness auto
termination by (relation "measure (\<lambda>(i, xs). length xs - i)") auto

declare shift_list.simps [simp del] drop_list.simps [simp del]

lemma shift_separators_list: "map sp_separator (shift_separators i c ss) = shift_list i (sp_separator c) (map sp_separator ss)"
proof (induction i c ss rule: shift_separators.induct)
  case (1 i c ss)
  show ?case
  proof (cases "sp_separator c = None \<or> Suc i \<ge> length ss")
    case True
    then show ?thesis by (auto simp: shift_separators.simps [of i c] shift_list.simps [of i])
  next
    case False
    with 1 show ?thesis
      by (auto simp: shift_separators.simps [of i c] shift_list.simps [of i "sp_separator c"] map_update)
  qed
qed

lemma shift_children_list: "map ch_entry_index (shift_children i c cs) = shift_list i (ch_entry_index c) (map ch_entry_index cs)"
proof (induction i c cs rule: shift_children.induct)
  case (1 i c cs)
  show ?case
  proof (cases "ch_entry_index c = None \<or> Suc i \<ge> length cs")
    case True
    then show ?thesis by (auto simp: shift_children.simps [of i c] shift_list.simps [of i])
  next
    case False
    with 1 show ?thesis
      by (auto simp: shift_children.simps [of i c] shift_list.simps [of i "ch_entry_index c"] map_update)
  qed
qed

lemma drop_separators_list: "map sp_separator (drop_separators i ss) = drop_list i (map sp_separator ss)"
proof (induction i ss rule: drop_separators.induct)
  case (1 i ss)
  show ?case
  proof (cases "i < length ss - 1")
    case True
    with 1 show ?thesis
      by (simp add: drop_separators.simps [of i] drop_list.simps [of i "map sp_separator ss"] map_update Let_def)
  qed (simp add: drop_separators.simps [of i] drop_list.simps [of i])
qed

lemma drop_children_list: "map ch_entry_index (drop_children i cs) = drop_list i (map ch_entry_index cs)"
proof (induction i cs rule: drop_children.induct)
  case (1 i cs)
  show ?case
  proof (cases "i < length cs - 1")
    case True
    with 1 show ?thesis
      by (simp add: drop_children.simps [of i] drop_list.simps [of i "map ch_entry_index cs"] map_update Let_def)
  qed (simp add: drop_children.simps [of i] drop_list.simps [of i])
qed

lemma shift_list_gap:
  "shift_list (length ps) (Some c) (ps @ x # map Some zs @ replicate (Suc m) None) =
     ps @ x # Some c # map Some zs @ replicate m None"
proof (induction zs arbitrary: ps x c)
  case Nil
  then show ?case by (simp add: shift_list.simps [of "length ps"] shift_list.simps [of "Suc (length ps)" None] nth_append list_update_append)
next
  case (Cons z zs)
  have "shift_list (length (ps @ [x])) (Some z) ((ps @ [x]) @ Some c # map Some zs @ replicate (Suc m) None) =
      (ps @ [x]) @ Some c # Some z # map Some zs @ replicate m None" by (rule Cons.IH)
  then show ?case by (simp add: shift_list.simps [of "length ps"] nth_append list_update_append)
qed

lemma shift_list_ins:
  assumes "i \<le> length xs" "length xs < N"
  shows "(shift_list i (fill N xs ! i) ((fill N xs)[i := None]))[i := Some x] = fill N (ins i x xs)"
proof (cases "drop i xs")
  case Nil
  with assms have "i = length xs" by simp
  then show ?thesis using assms by (simp add: fill_nth shift_list.simps fill_snoc ins_def)
next
  case (Cons z zs)
  then have i: "i < length xs" by (cases "i < length xs") auto
  have xs: "xs = take i xs @ z # zs" using Cons by (metis append_take_drop_id)
  have l: "length xs = i + Suc (length zs)" using arg_cong [OF Cons, of length] i by simp
  obtain m where m: "N - length xs = Suc m" using assms(2) by (cases "N - length xs") auto
  have f: "(fill N xs)[i := None] = map Some (take i xs) @ None # map Some zs @ replicate (Suc m) None" "fill N xs ! i = Some z"
    using i l m by (subst xs, simp add: fill_def list_update_append nth_append)+
  have "shift_list i (Some z) ((fill N xs)[i := None]) = map Some (take i xs) @ None # Some z # map Some zs @ replicate m None"
    unfolding f using shift_list_gap [of "map Some (take i xs)" z None zs m] i by simp
  moreover have "N - Suc (length xs) = m" using m by simp
  ultimately show ?thesis using i l unfolding f(2) by (simp add: fill_def ins_def Cons list_update_append)
qed

lemma drop_list_gap:
  "drop_list (length ps) (ps @ None # map Some zs @ replicate m None) = ps @ map Some zs @ replicate (Suc m) None"
proof (induction zs arbitrary: ps)
  case Nil
  then show ?case
    by (cases m) (simp_all add: drop_list.simps [of "length ps"] nth_append list_update_append Let_def)
next
  case (Cons z zs)
  have "drop_list (length (ps @ [Some z])) ((ps @ [Some z]) @ None # map Some zs @ replicate m None) =
      (ps @ [Some z]) @ map Some zs @ replicate (Suc m) None" by (rule Cons.IH)
  then show ?case by (simp add: drop_list.simps [of "length ps"] nth_append list_update_append Let_def)
qed

lemma drop_list_del:
  assumes "i < length xs" "length xs \<le> N"
  shows "drop_list i ((fill N xs)[i := None]) = fill N (del i xs)"
proof -
  have xs: "xs = take i xs @ xs ! i # drop (Suc i) xs" using assms(1) by (rule id_take_nth_drop)
  have "(fill N xs)[i := None] = map Some (take i xs) @ None # map Some (drop (Suc i) xs) @ replicate (N - length xs) None"
    using assms(1) by (subst xs) (simp add: fill_def list_update_append)
  moreover have "length (map Some (take i xs)) = i" using assms(1) by simp
  moreover have "N - (length xs - 1) = Suc (N - length xs)" using assms by simp
  ultimately show ?thesis
    using drop_list_gap [of "map Some (take i xs)" "drop (Suc i) xs" "N - length xs"] assms(1)
    by (simp add: fill_def del_def length_del [unfolded del_def])
qed


section \<open>Operations on a node\<close>

definition array_sizes :: "node \<Rightarrow> bool" where
  "array_sizes n \<longleftrightarrow> length (nd_separators n) = 8 \<and> length (nd_children n) = 9"

lemma node_has_sizes: "node_has n ss cs \<Longrightarrow> array_sizes n"
  by (simp add: array_sizes_def node_has_length)

lemma remove_separator_lists:
  assumes "array_sizes n" "i < 8"
  obtains r n' where "remove_separator i n = Ok (r, n')" "sp_separator r = sep_list n ! i" "array_sizes n'"
    "sep_list n' = (sep_list n)[i := None]" "kid_list n' = kid_list n" "nd_changed n'"
  using assms by (simp add: remove_separator_def put_separator_def array_sizes_def map_update)

lemma remove_child_lists:
  assumes "array_sizes n" "i < 9"
  obtains r n' where "remove_child i n = Ok (r, n')" "ch_entry_index r = kid_list n ! i" "array_sizes n'"
    "sep_list n' = sep_list n" "kid_list n' = (kid_list n)[i := None]" "nd_changed n'"
  using assms by (simp add: remove_child_def put_child_def array_sizes_def map_update)

lemma set_separator_lists:
  assumes "array_sizes n" "i < 8"
  obtains n' where "set_separator i s n = Ok n'" "array_sizes n'"
    "sep_list n' = (sep_list n)[i := sp_separator s]" "kid_list n' = kid_list n" "nd_changed n'"
  using assms by (simp add: set_separator_def put_separator_def array_sizes_def map_update)

lemma set_child_lists:
  assumes "array_sizes n" "i < 9"
  obtains n' where "set_child i c n = Ok n'" "array_sizes n'"
    "sep_list n' = sep_list n" "kid_list n' = (kid_list n)[i := ch_entry_index c]" "nd_changed n'"
  using assms by (simp add: set_child_def put_child_def array_sizes_def map_update)

lemma shift_from_lists:
  assumes "array_sizes n" "i < 8"
  obtains n' where "shift_from i hc wl n = Ok n'" "array_sizes n'"
    "sep_list n' = shift_list i (sep_list n ! i) ((sep_list n)[i := None])"
    "kid_list n' = (if hc then let j = (if wl then i else i + 1) in shift_list j (kid_list n ! j) ((kid_list n)[j := None])
       else kid_list n)" "nd_changed n'"
proof -
  have l: "length (shift_list j c xs) = length xs" for j and c :: "'a option" and xs
    by (induction j c xs rule: shift_list.induct) (subst shift_list.simps, auto)
  have ls: "length (shift_separators j c xs) = length xs" for j c xs
    using arg_cong [OF shift_separators_list, of length j c xs] by (simp add: l)
  have lc: "length (shift_children j c xs) = length xs" for j c xs
    using arg_cong [OF shift_children_list, of length j c xs] by (simp add: l)
  show thesis using assms
    by (intro that [of "let s = shift_separators i ((nd_separators n ! i)\<lparr>sp_modified := True\<rparr>) ((nd_separators n)[i := \<lparr>sp_modified = True, sp_separator = None\<rparr>]);
          j = (if wl then i else i + 1)
        in n\<lparr>nd_changed := True, nd_separators := s, nd_children := if hc then shift_children j ((nd_children n ! j)\<lparr>ch_moved := True\<rparr>)
              ((nd_children n)[j := \<lparr>ch_moved = True, ch_entry_index = None\<rparr>]) else nd_children n\<rparr>"])
      (simp_all add: shift_from_def remove_separator_def put_separator_def remove_child_def put_child_def array_sizes_def
        map_update shift_separators_list shift_children_list Let_def ls lc)
qed

lemma remove_from_lists:
  assumes "array_sizes n"
  shows "sep_list (remove_from i hc wl n) = drop_list i (sep_list n)"
    "kid_list (remove_from i hc wl n) = (if hc then drop_list (if wl then i else i + 1) (kid_list n) else kid_list n)"
    "nd_changed (remove_from i hc wl n)"
  by (simp_all add: remove_from_def drop_separators_list drop_children_list Let_def)

text \<open>Insertion of a separator, alone or with the child to its right or left.\<close>

lemma node_insert_separator:
  assumes "node_has n ss cs" "i \<le> length ss" "length ss < 8" "sp_separator s = Some x"
  obtains n1 n' where "shift_from i False False n = Ok n1" "set_separator i s n1 = Ok n'" "node_has n' (ins i x ss) cs" "nd_changed n'"
proof -
  note h = assms(1) [unfolded node_has_fill]
  obtain n1 where 1: "shift_from i False False n = Ok n1" "array_sizes n1"
      "sep_list n1 = shift_list i (sep_list n ! i) ((sep_list n)[i := None])" "kid_list n1 = kid_list n"
    using shift_from_lists [OF node_has_sizes [OF assms(1)], of i False False] assms(2,3) by auto
  obtain n' where 2: "set_separator i s n1 = Ok n'" "sep_list n' = (sep_list n1)[i := sp_separator s]" "kid_list n' = kid_list n1" "nd_changed n'"
    using set_separator_lists [OF 1(2), of i] assms(2,3) by auto
  have "node_has n' (ins i x ss) cs"
    using h 1(3,4) 2(2,3) assms(2-4) shift_list_ins [of i ss 8 x] by (simp add: node_has_fill)
  with 1(1) 2(1,4) show thesis by (intro that)
qed

lemma node_insert_right:
  assumes "node_has n ss cs" "i \<le> length ss" "length ss < 8" "length cs = Suc (length ss)"
    and "sp_separator s = Some x" "ch_entry_index c = Some a"
  obtains n1 n2 n' where "shift_from i True False n = Ok n1" "set_separator i s n1 = Ok n2" "set_child (i + 1) c n2 = Ok n'"
    "node_has n' (ins i x ss) (ins (i + 1) a cs)" "nd_changed n'"
proof -
  note h = assms(1) [unfolded node_has_fill]
  obtain n1 where 1: "shift_from i True False n = Ok n1" "array_sizes n1"
      "sep_list n1 = shift_list i (sep_list n ! i) ((sep_list n)[i := None])"
      "kid_list n1 = shift_list (i + 1) (kid_list n ! (i + 1)) ((kid_list n)[i + 1 := None])"
    using shift_from_lists [OF node_has_sizes [OF assms(1)], of i True False] assms(2,3) by auto
  obtain n2 where 2: "set_separator i s n1 = Ok n2" "array_sizes n2" "sep_list n2 = (sep_list n1)[i := sp_separator s]" "kid_list n2 = kid_list n1"
    using set_separator_lists [OF 1(2), of i] assms(2,3) by auto
  obtain n' where 3: "set_child (i + 1) c n2 = Ok n'" "sep_list n' = sep_list n2" "kid_list n' = (kid_list n2)[i + 1 := ch_entry_index c]" "nd_changed n'"
    using set_child_lists [OF 2(2), of "i + 1"] assms(2,3) by auto
  have "node_has n' (ins i x ss) (ins (i + 1) a cs)"
    using h 1(3,4) 2(3,4) 3(2,3) assms(2-) shift_list_ins [of i ss 8 x] shift_list_ins [of "i + 1" cs 9 a]
    by (simp add: node_has_fill)
  with 1(1) 2(1) 3(1,4) show thesis by (intro that)
qed

lemma node_delete_separator:
  assumes "node_has n ss cs" "i < length ss"
  obtains r n1 where "remove_separator i n = Ok (r, n1)" "sp_separator r = Some (ss ! i)"
    "node_has (remove_from i False True n1) (del i ss) cs" "nd_changed (remove_from i False True n1)"
proof -
  note h = assms(1) [unfolded node_has_fill]
  obtain r n1 where 1: "remove_separator i n = Ok (r, n1)" "sp_separator r = sep_list n ! i" "array_sizes n1"
      "sep_list n1 = (sep_list n)[i := None]" "kid_list n1 = kid_list n"
    by (rule remove_separator_lists [OF node_has_sizes [OF assms(1)], of i]) (use h assms(2) in auto)
  have "sp_separator r = Some (ss ! i)" using 1(2) h assms(2) by (simp add: fill_nth)
  moreover have "node_has (remove_from i False True n1) (del i ss) cs"
    using h 1(4,5) assms(2) drop_list_del [of i ss 8] by (auto simp: node_has_fill remove_from_lists [OF 1(3)])
  ultimately show thesis using 1(1) remove_from_lists(3) [OF 1(3)] by (intro that)
qed

section \<open>Queries\<close>

lemma number_separator_has: "node_has n ss cs \<Longrightarrow> number_separator n = length ss"
proof -
  have "number_loop xs i = i + length (takeWhile (\<lambda>x. x \<noteq> None) (map sp_separator xs))" for xs i
    by (induction xs arbitrary: i) (auto split: option.split)
  moreover assume "node_has n ss cs"
  ultimately show ?thesis by (simp add: number_separator_def node_has_fill fill_def takeWhile_append)
qed

lemma has_separator_has: "node_has n ss cs \<Longrightarrow> i < 8 \<Longrightarrow> has_separator n i \<longleftrightarrow> i < length ss"
proof -
  assume a: "node_has n ss cs" "i < 8"
  then have "sp_separator (nd_separators n ! i) = sep_list n ! i" using node_has_length [OF a(1)] by simp
  with a show ?thesis by (simp add: has_separator_def node_has_fill fill_nth)
qed

lemma need_rebalance_has: "node_has n ss cs \<Longrightarrow> need_rebalance n \<longleftrightarrow> length ss < 4"
  using has_separator_has [of n ss cs 3] by (auto simp: need_rebalance_def)

lemma separator_address_has: "node_has n ss cs \<Longrightarrow> i < length ss \<Longrightarrow> separator_address n i = Ok (Some (si_value (ss ! i)))"
proof -
  assume a: "node_has n ss cs" "i < length ss"
  then have "sp_separator (nd_separators n ! i) = sep_list n ! i" using node_has_length [OF a(1)] node_has_def [of n ss cs] by (subst nth_map) auto
  with a show ?thesis using node_has_length [OF a(1)] by (simp add: separator_address_def node_has_fill fill_nth)
qed

lemma last_separator_index_has:
  assumes "node_has n ss cs"
  shows "last_separator_index n = (if ss = [] then None else Some (length ss - 1))"
proof -
  have f: "List.find P (rev [0..<m]) = (if \<exists>i<m. P i then Some (GREATEST i. i < m \<and> P i) else None)" for P and m :: nat
  proof (induction m)
    case (Suc m)
    show ?case
    proof (cases "P m")
      case True
      then have "(GREATEST i. i < Suc m \<and> P i) = m" by (intro Greatest_equality) auto
      with True show ?thesis by auto
    next
      case False
      then have "(i < Suc m \<and> P i) = (i < m \<and> P i)" for i by (auto simp: less_Suc_eq)
      with False Suc show ?thesis by (simp add: less_Suc_eq)
    qed
  qed simp
  have l: "sp_separator (nd_separators n ! i) \<noteq> None \<longleftrightarrow> i < length ss" if "i < 8" for i
    using has_separator_has [OF assms that] by (simp add: has_separator_def)
  have le: "length ss \<le> 8" using assms by (simp add: node_has_def)
  have "(GREATEST i. i < 8 \<and> sp_separator (nd_separators n ! i) \<noteq> None) = length ss - 1" if "ss \<noteq> []"
    using that le l by (intro Greatest_equality) (auto, fastforce)
  moreover have "(\<exists>i<8. sp_separator (nd_separators n ! i) \<noteq> None) \<longleftrightarrow> ss \<noteq> []"
    using l le l [of 0] by (metis length_greater_0_conv less_nat_zero_code zero_less_numeral list.size(3))
  ultimately show ?thesis unfolding last_separator_index_def f node_has_length [OF assms] by simp
qed


text \<open>The index of the first separator that is not below the key.\<close>

definition pos :: "bytes \<Rightarrow> separator_inner list \<Rightarrow> nat" where
  "pos k ss = length (takeWhile (\<lambda>s. si_key s < k) ss)"

lemma pos_simps [simp]:
  "pos k [] = 0" "pos k (s # ss) = (if si_key s < k then Suc (pos k ss) else 0)"
  by (simp_all add: pos_def)

lemma pos_le [simp]: "pos k ss \<le> length ss"
  by (simp add: pos_def length_takeWhile_le)

lemma position_loop_pos:
  "map sp_separator xs = map Some ss @ replicate m None \<Longrightarrow>
     position_loop k xs i = (pos k ss < length ss \<and> si_key (ss ! pos k ss) = k, i + pos k ss)"
proof (induction xs arbitrary: i ss)
  case Nil
  then show ?case by simp
next
  case (Cons x xs)
  show ?case
  proof (cases ss)
    case Nil
    with Cons.prems have "sp_separator x = None" by (cases m) auto
    with Nil show ?thesis by simp
  next
    case (Cons s ss')
    with Cons.prems have x: "sp_separator x = Some s" "map sp_separator xs = map Some ss' @ replicate m None" by auto
    note ih = Cons.IH [OF x(2), of "i + 1"]
    consider "k < si_key s" | "k = si_key s" | "si_key s < k" by (meson linorder_neqE)
    then show ?thesis using x(1) ih Cons by cases auto
  qed
qed

lemma node_position_has:
  "node_has n ss cs \<Longrightarrow> node_position n k = (pos k ss < length ss \<and> si_key (ss ! pos k ss) = k, pos k ss)"
  using position_loop_pos [of "nd_separators n" ss "8 - length ss" k 0] by (simp add: node_position_def node_has_def)

lemma pos_sorted:
  assumes "sorted_wrt (<) (map si_key ss)"
  shows "\<forall>s\<in>set (take (pos k ss) ss). si_key s < k" "\<forall>s\<in>set (drop (pos k ss) ss). k \<le> si_key s"
proof -
  have t: "take (pos k ss) ss = takeWhile (\<lambda>s. si_key s < k) ss" unfolding pos_def by (rule takeWhile_eq_take [symmetric])
  then show "\<forall>s\<in>set (take (pos k ss) ss). si_key s < k" by (auto dest: set_takeWhileD)
  have d: "drop (pos k ss) ss = dropWhile (\<lambda>s. si_key s < k) ss" unfolding pos_def by (rule dropWhile_eq_drop [symmetric])
  show "\<forall>s\<in>set (drop (pos k ss) ss). k \<le> si_key s"
  proof (cases "drop (pos k ss) ss")
    case (Cons x xs)
    then have x: "k \<le> si_key x" using hd_dropWhile [of "\<lambda>s. si_key s < k" ss] d by (simp add: not_less)
    have "sorted_wrt (<) (map si_key (drop (pos k ss) ss))" using assms by (metis drop_map sorted_wrt_drop)
    then have "\<forall>y\<in>set xs. si_key x < si_key y" using Cons by auto
    with x Cons show ?thesis by auto
  qed simp
qed

section \<open>Splitting a full node\<close>

lemma list_of_8: "length xs = 8 \<Longrightarrow> \<exists>a b c d e f g h. xs = [a, b, c, d, e, f, g, h]"
  by (auto simp: numeral_eq_Suc length_Suc_conv)

lemma list_of_9: "length xs = 9 \<Longrightarrow> \<exists>a b c d e f g h i. xs = [a, b, c, d, e, f, g, h, i]"
  by (auto simp: numeral_eq_Suc length_Suc_conv)

lemma upt_concrete: "[4..<8] = [4, 5, 6, 7]" "[5..<8] = [5, 6, 7]" "[4..<9] = [4, 5, 6, 7, 8]" "[5..<9] = [5, 6, 7, 8]"
  by (simp_all add: upt_rec)

lemmas split_simps = node_split_def upt_concrete remove_separator_def put_separator_def remove_child_def put_child_def
  node_default_def separator_default_def child_default_def node_has_fill fill_def ins_def

lemma full_lists:
  assumes "node_has n ss cs" "length ss = 8"
  obtains a b c d e f g h x0 x1 x2 x3 x4 x5 x6 x7 where "ss = [a, b, c, d, e, f, g, h]"
    "nd_separators n = [x0, x1, x2, x3, x4, x5, x6, x7]"
    "sp_separator x0 = Some a" "sp_separator x1 = Some b" "sp_separator x2 = Some c" "sp_separator x3 = Some d"
    "sp_separator x4 = Some e" "sp_separator x5 = Some f" "sp_separator x6 = Some g" "sp_separator x7 = Some h"
proof -
  obtain a b c d e f g h where s: "ss = [a, b, c, d, e, f, g, h]" using list_of_8 [OF assms(2)] by blast
  obtain x0 x1 x2 x3 x4 x5 x6 x7 where x: "nd_separators n = [x0, x1, x2, x3, x4, x5, x6, x7]"
    using list_of_8 [OF node_has_length(1) [OF assms(1)]] by blast
  show thesis using assms(1) s x by (intro that [OF s x]) (simp_all add: node_has_fill fill_def)
qed

lemma full_children:
  assumes "node_has n ss cs" "length cs = 9"
  obtains a b c d e f g h i x0 x1 x2 x3 x4 x5 x6 x7 x8 where "cs = [a, b, c, d, e, f, g, h, i]"
    "nd_children n = [x0, x1, x2, x3, x4, x5, x6, x7, x8]"
    "ch_entry_index x0 = Some a" "ch_entry_index x1 = Some b" "ch_entry_index x2 = Some c" "ch_entry_index x3 = Some d"
    "ch_entry_index x4 = Some e" "ch_entry_index x5 = Some f" "ch_entry_index x6 = Some g" "ch_entry_index x7 = Some h"
    "ch_entry_index x8 = Some i"
proof -
  obtain a b c d e f g h i where s: "cs = [a, b, c, d, e, f, g, h, i]" using list_of_9 [OF assms(2)] by blast
  obtain x0 x1 x2 x3 x4 x5 x6 x7 x8 where x: "nd_children n = [x0, x1, x2, x3, x4, x5, x6, x7, x8]"
    using list_of_9 [OF node_has_length(2) [OF assms(1)]] by blast
  show thesis using assms(1) s x by (intro that [OF s x]) (simp_all add: node_has_fill fill_def)
qed

lemma split_leaf_before:
  assumes "node_has n ss []" "length ss = 8"
  obtains right n' where "node_split 4 b None None False n = Ok ((right, None), n')"
    "node_has n' (take 4 ss) []" "node_has right (drop 4 ss) []" "nd_changed n'" "nd_changed right"
proof (rule full_lists [OF assms], goal_cases)
  case 1
  have k: "kid_list n = replicate 9 None" using assms(1) by (simp add: node_has_fill fill_def)
  show thesis by (rule that, (simp add: split_simps 1 numeral_eq_Suc) [1], simp_all add: split_simps 1 k numeral_eq_Suc)
qed

lemma split_leaf_after:
  assumes "node_has n ss []" "length ss = 8" "4 < i" "i \<le> 8" "sp_separator s = Some x"
  obtains right n' where "node_split 5 False (Some (i, s)) None False n = Ok ((right, None), n')"
    "node_has n' (take 5 ss) []" "node_has right (drop 5 (ins i x ss)) []" "nd_changed n'" "nd_changed right"
proof (rule full_lists [OF assms(1,2)], goal_cases)
  case 1
  have k: "kid_list n = replicate 9 None" using assms(1) by (simp add: node_has_fill fill_def)
  consider "i = 5" | "i = 6" | "i = 7" | "i = 8" using assms(3,4) by linarith
  then show thesis
    by cases (rule that, (simp add: split_simps 1 numeral_eq_Suc) [1], simp_all add: split_simps 1 k assms(5) numeral_eq_Suc)+
qed

lemma split_node_at:
  assumes "node_has n ss cs" "length ss = 8" "length cs = 9" "ch_entry_index c = Some a"
  obtains right right' n' where "node_split 4 True None None True n = Ok ((right, None), n')" "set_child 0 c right = Ok right'"
    "node_has n' (take 4 ss) (take 5 cs)" "node_has right' (drop 4 ss) (a # drop 5 cs)" "nd_changed n'" "nd_changed right'"
proof (rule full_lists [OF assms(1,2)], rule full_children [OF assms(1,3)], goal_cases)
  case 1
  show thesis by (rule that, (simp add: split_simps 1 numeral_eq_Suc) [1], (simp add: set_child_def put_child_def) [1],
    simp_all add: split_simps 1 assms(4) numeral_eq_Suc)
qed

lemma split_node_before:
  assumes "node_has n ss cs" "length ss = 8" "length cs = 9"
  obtains right n' where "node_split 4 False None None True n = Ok ((right, None), n')"
    "node_has n' (take 4 ss) (take 4 cs)" "node_has right (drop 4 ss) (drop 4 cs)" "nd_changed n'" "nd_changed right"
proof (rule full_lists [OF assms(1,2)], rule full_children [OF assms(1,3)], goal_cases)
  case 1
  show thesis by (rule that, (simp add: split_simps 1 numeral_eq_Suc) [1], simp_all add: split_simps 1 numeral_eq_Suc)
qed

lemma split_node_after:
  assumes "node_has n ss cs" "length ss = 8" "length cs = 9" "4 < i" "i \<le> 8"
    and "sp_separator s = Some x" "ch_entry_index c = Some a"
  obtains right n' where "node_split 5 False (Some (i, s)) (Some (i, c)) True n = Ok ((right, None), n')"
    "node_has n' (take 5 ss) (take 5 cs)" "node_has right (drop 5 (ins i x ss)) (drop 5 (ins (i + 1) a cs))"
    "nd_changed n'" "nd_changed right"
proof (rule full_lists [OF assms(1,2)], rule full_children [OF assms(1,3)], goal_cases)
  case 1
  consider "i = 5" | "i = 6" | "i = 7" | "i = 8" using assms(4,5) by linarith
  then show thesis
    by cases (rule that, (simp add: split_simps 1 numeral_eq_Suc) [1], simp_all add: split_simps 1 assms(6,7) numeral_eq_Suc)+
qed

end
