(* ===== verification/Btree_Store.thy ===== *)
theory Btree_Store
  imports Btree_Tree Btree_List Column_Spec
begin

text \<open>
  The value tables of a btree column as a heap: an address holds a reference counter and a value.
  \<open>heap_view\<close> is the heap that a lookup sees through the log, \<open>heap_rel\<close> the heap of the tables and
  the record being planned. Each planning call of the tree is shown to change the heap at one
  address and to need no more room than the size of the value.
\<close>

type_synonym heap = "address \<Rightarrow> (u32 \<times> bytes) option"

text \<open>Entries without a key, whose values can be decompressed with \<open>cp\<close>.\<close>

definition heap_of :: "codec \<Rightarrow> compress \<Rightarrow> stores \<Rightarrow> heap \<Rightarrow> bool" where
  "heap_of cd cp ms H \<longleftrightarrow> length ms = 256 \<and>
     (\<forall>m\<in>set ms. \<forall>i rc k v c. m i = Some (rc, k, v, c) \<longrightarrow> k = NoHash \<and> drop_bit 56 i = 0) \<and>
     (\<forall>a. case live_at ms a of
            None \<Rightarrow> H a = None
          | Some (rc, k, v, c) \<Rightarrow> \<exists>x. plain cd cp v c = Ok x \<and> H a = Some (rc, x))"

definition heap_view :: "codec \<Rightarrow> compress \<Rightarrow> tables_ref \<Rightarrow> log_query \<Rightarrow> heap \<Rightarrow> bool" where
  "heap_view cd cp tables lq H \<longleftrightarrow>
     (\<exists>ms. length (tr_tables tables) = 256 \<and> heap_of cd cp ms H \<and>
        (\<forall>t<256. store_rel (tr_tables tables ! t) lq (ms ! t)))"

definition heap_rel :: "codec \<Rightarrow> compress \<Rightarrow> tree_env \<Rightarrow> heap \<Rightarrow> bool" where
  "heap_rel cd cp env H \<longleftrightarrow>
     tr_compression (fst env) \<in> {cp, NO_COMPRESSION} \<and> \<not> tr_preimage (fst env) \<and>
     tiers_ok (tr_col (fst env)) (tr_ref_counted (fst env)) (tr_tables (fst env)) \<and>
     (\<exists>ms. value_stores.stores_rel (tr_tables (fst env)) (snd env) ms \<and> heap_of cd cp ms H)"

text \<open>Room for \<open>n\<close> more slots in every table, and what planning leaves alone.\<close>

definition space :: "tree_env \<Rightarrow> nat \<Rightarrow> bool" where
  "space env n \<longleftrightarrow> (\<forall>t<256. unat (vt_filled (tr_tables (fst env) ! t)) + n < 2 ^ 55)"

definition same_env :: "tree_env \<Rightarrow> tree_env \<Rightarrow> bool" where
  "same_env env env' \<longleftrightarrow> (\<exists>vts. fst env' = (fst env)\<lparr>tr_tables := vts\<rparr>)"

lemma same_env_refl [simp]: "same_env env env"
  unfolding same_env_def by (intro exI [of _ "tr_tables (fst env)"]) simp

lemma same_env_trans [trans]: "same_env env env1 \<Longrightarrow> same_env env1 env2 \<Longrightarrow> same_env env env2"
  by (force simp: same_env_def)

lemma same_env_fields:
  "same_env env env' \<Longrightarrow> tr_ref_counted (fst env') = tr_ref_counted (fst env)"
  "same_env env env' \<Longrightarrow> tr_compression (fst env') = tr_compression (fst env)"
  "same_env env env' \<Longrightarrow> tr_col (fst env') = tr_col (fst env)"
  by (auto simp: same_env_def)

lemma space_mono: "space env n \<Longrightarrow> m \<le> n \<Longrightarrow> space env m"
  by (force simp: space_def)

lemma heap_rel_view: "heap_rel cd cp env H \<Longrightarrow> heap_view cd cp (fst env) (env_query env) H"
  unfolding heap_rel_def heap_view_def value_stores.stores_rel_def tiers_ok_def env_query_def by metis

section \<open>Reading\<close>

lemma heap_of_live:
  assumes h: "heap_of cd cp ms H" and a: "H a = Some (rc, x)"
  obtains v c where "live_at ms a = Some (rc, NoHash, v, c)" "plain cd cp v c = Ok x"
proof -
  from h have c: "case live_at ms a of None \<Rightarrow> H a = None
      | Some (rc, k, v, c) \<Rightarrow> \<exists>x. plain cd cp v c = Ok x \<and> H a = Some (rc, x)" by (simp add: heap_of_def)
  obtain rc' k v c where l: "live_at ms a = Some (rc', k, v, c)" using c a by (cases "live_at ms a") auto
  with c a have p: "rc' = rc" "plain cd cp v c = Ok x" by auto
  have "ms ! unat (addr_size_tier a) \<in> set ms" using h tier_lt by (simp add: heap_of_def)
  moreover have "(ms ! unat (addr_size_tier a)) (addr_offset a) = Some (rc', k, v, c)" using l by (simp add: live_at_def)
  ultimately have "k = NoHash" using h unfolding heap_of_def by blast
  with l p that show thesis by blast
qed

lemma heap_of_None:
  assumes "heap_of cd cp ms H" "live_at ms a = None"
  shows "H a = None"
proof -
  have "case live_at ms a of None \<Rightarrow> H a = None
      | Some (rc, k, v, c) \<Rightarrow> \<exists>x. plain cd cp v c = Ok x \<and> H a = Some (rc, x)" using assms(1) by (simp add: heap_of_def)
  with assms(2) show ?thesis by simp
qed

lemma address_nonzero: "0 < addr_offset a \<Longrightarrow> a \<noteq> 0"
  by (auto simp: addr_offset_def)

lemma live_slot:
  assumes "live_at ms a = Some e" "\<And>t. t < 256 \<Longrightarrow> store_rel (vts ! t) lq (ms ! t)"
  shows "0 < addr_offset a" "a \<noteq> 0" "wf_table (vts ! unat (addr_size_tier a))"
proof -
  obtain rc k v c where e: "e = (rc, k, v, c)" by (cases e)
  have "(ms ! unat (addr_size_tier a)) (addr_offset a) = Some (rc, k, v, c)" using assms(1) e by (simp add: live_at_def)
  from store_rel_key [OF assms(2) [OF tier_lt] this] show "0 < addr_offset a" "wf_table (vts ! unat (addr_size_tier a))" by simp_all
  then show "a \<noteq> 0" by (simp add: address_nonzero)
qed

lemma heap_read:
  assumes "heap_view cd cp tables lq H" "tr_compression tables = cp" "H a = Some (rc, x)"
    and "q = Check NoHash \<or> q = Fetch False"
  shows "get_value cd q a tables lq = Ok (Some (addr_size_tier a, x))"
proof -
  let ?t = "unat (addr_size_tier a)"
  obtain ms where ms: "length (tr_tables tables) = 256" "heap_of cd cp ms H"
      "\<And>t. t < 256 \<Longrightarrow> store_rel (tr_tables tables ! t) lq (ms ! t)"
    using assms(1) unfolding heap_view_def by blast
  obtain v c where l: "live_at ms a = Some (rc, NoHash, v, c)" "plain cd cp v c = Ok x" by (rule heap_of_live [OF ms(2) assms(3)])
  have m: "(ms ! ?t) (addr_offset a) = Some (rc, NoHash, v, c)" using l(1) by (simp add: live_at_def)
  from ms(3) [OF tier_lt, of a] obtain fl L where inv: "table_inv (tr_tables tables ! ?t) lq fl L" "ms ! ?t = live_map L"
    by (auto simp: store_rel_def)
  from live_map_split [of L "addr_offset a"] m inv(2) obtain L1 "is" L2 where
    L: "L = L1 @ (is, rc, NoHash, v, c) # L2" "hd is = addr_offset a" by fastforce
  have ok: "value_chain (tr_tables tables ! ?t) lq is (entry_data (tr_tables tables ! ?t) rc NoHash v) c" "valid_key NoHash"
      "stored_rc (tr_tables tables ! ?t) rc > 0" "wf_table (tr_tables tables ! ?t)"
    using inv(1) L(1) by (auto simp: table_inv_def live_ok_def alloc_inv_def)
  have "vt_query (tr_tables tables ! ?t) q (addr_offset a) lq = Ok (Some (v, c, stored_rc (tr_tables tables ! ?t) rc, None))"
    using vt_query_chain [OF ok(4,1,2), of q None True] assms(4) ok(3) L(2) by (auto simp: key_answer_def key_consumed_def encoded_size_def)
  then show ?thesis using l(2) assms(2) ms(1) by (simp add: get_value_def plain_def Let_def split: if_splits)
qed

section \<open>Planning\<close>

lemma heap_of_upd:
  assumes h: "heap_of cd cp ms H" and t: "t < 256" "drop_bit 56 i = 0"
    and x: "case x of None \<Rightarrow> y = None | Some (rc, k, v, c) \<Rightarrow> k = NoHash \<and> (\<exists>z. plain cd cp v c = Ok z \<and> y = Some (rc, z))"
  shows "heap_of cd cp (ms[t := (ms ! t)(i := x)]) (H(addr_new i (word_of_nat t) := y))"
proof -
  have l: "length ms = 256" using h by (simp add: heap_of_def)
  note u = live_at_upd [OF l t, of x]
  have k: "k = NoHash \<and> drop_bit 56 j = 0" if m: "m \<in> set (ms[t := (ms ! t)(i := x)])" "m j = Some (rc, k, v, c)" for m j rc k v c
  proof (cases "m \<in> set ms")
    case True
    with m(2) h show ?thesis unfolding heap_of_def by blast
  next
    case False
    then have "m = (ms ! t)(i := x)" using m(1) set_update_subset_insert by fastforce
    with m(2) x t(2) show ?thesis
    proof (cases "j = i")
      case False
      with m(2) \<open>m = _\<close> have "(ms ! t) j = Some (rc, k, v, c)" by simp
      moreover have "ms ! t \<in> set ms" using l t(1) by simp
      ultimately show ?thesis using h unfolding heap_of_def by blast
    qed auto
  qed
  have "case (live_at (ms[t := (ms ! t)(i := x)])) a of
      None \<Rightarrow> (H(addr_new i (word_of_nat t) := y)) a = None
    | Some (rc, k, v, c) \<Rightarrow> \<exists>z. plain cd cp v c = Ok z \<and> (H(addr_new i (word_of_nat t) := y)) a = Some (rc, z)" for a
  proof (cases "a = addr_new i (word_of_nat t)")
    case True
    then show ?thesis unfolding u using x by (auto split: option.splits)
  next
    case False
    have "case live_at ms a of None \<Rightarrow> H a = None
      | Some (rc, k, v, c) \<Rightarrow> \<exists>x. plain cd cp v c = Ok x \<and> H a = Some (rc, x)" using h by (simp add: heap_of_def)
    with False show ?thesis unfolding u by (auto split: option.splits)
  qed
  with k l show ?thesis unfolding heap_of_def by auto
qed

definition put_table :: "nat \<Rightarrow> value_table \<Rightarrow> log_writer \<Rightarrow> tree_env \<Rightarrow> tree_env" where
  "put_table t vt w env = ((fst env)\<lparr>tr_tables := (tr_tables (fst env))[t := vt]\<rparr>, w)"

lemma heap_rel_upd:
  assumes h: "heap_rel cd cp env H" and ms: "value_stores.stores_rel (tr_tables (fst env)) (snd env) ms" "heap_of cd cp ms H"
    and t: "t < 256" "drop_bit 56 i = 0" and st: "same_table (tr_tables (fst env) ! t) vt"
    and sr: "store_rel vt (writer_query w) ((ms ! t)(i := x))" and fr: "frame_w (vt_id (tr_tables (fst env) ! t)) (snd env) w"
    and x: "case x of None \<Rightarrow> y = None | Some (rc, k, v, c) \<Rightarrow> k = NoHash \<and> (\<exists>z. plain cd cp v c = Ok z \<and> y = Some (rc, z))"
  shows "heap_rel cd cp (put_table t vt w env) (H(addr_new i (word_of_nat t) := y))"
    "value_stores.stores_rel (tr_tables (fst (put_table t vt w env))) w (ms[t := (ms ! t)(i := x)])"
    "heap_of cd cp (ms[t := (ms ! t)(i := x)]) (H(addr_new i (word_of_nat t) := y))"
proof -
  have l: "length (tr_tables (fst env)) = 256" using h by (simp add: heap_rel_def tiers_ok_def)
  show 1: "value_stores.stores_rel (tr_tables (fst (put_table t vt w env))) w (ms[t := (ms ! t)(i := x)])"
    using value_stores.stores_upd [OF ms(1) _ same_table_id [OF st] sr fr] t l by (simp add: put_table_def)
  show 2: "heap_of cd cp (ms[t := (ms ! t)(i := x)]) (H(addr_new i (word_of_nat t) := y))"
    by (rule heap_of_upd [OF ms(2) t x])
  from h 1 2 tiers_ok_upd [OF _ st] show "heap_rel cd cp (put_table t vt w env) (H(addr_new i (word_of_nat t) := y))"
    unfolding heap_rel_def by (auto simp: put_table_def)
qed


lemma heap_stores:
  assumes "heap_rel cd cp env H" "value_stores.stores_rel (tr_tables (fst env)) (snd env) ms" "t < 256"
  shows "store_rel (tr_tables (fst env) ! t) (writer_query (snd env)) (ms ! t)"
    "vt_ref_counted (tr_tables (fst env) ! t) = tr_ref_counted (fst env)" "32 \<le> es (tr_tables (fst env) ! t)"
proof -
  have t: "tiers_ok (tr_col (fst env)) (tr_ref_counted (fst env)) (tr_tables (fst env))" using assms by (simp add: heap_rel_def)
  then show s: "store_rel (tr_tables (fst env) ! t) (writer_query (snd env)) (ms ! t)"
    using assms(2,3) by (simp add: value_stores.stores_rel_def tiers_ok_def)
  then show "32 \<le> es (tr_tables (fst env) ! t)"
    using wf_table_bounds(1) by (fastforce simp: store_rel_def table_inv_def alloc_inv_def)
  show "vt_ref_counted (tr_tables (fst env) ! t) = tr_ref_counted (fst env)" using t assms(3) by (simp add: tiers_ok_def)
qed

lemma stored_plain:
  assumes "heap_rel cd cp env H" "codec_ok cd"
    and "column_compress cd (tr_compression (fst env)) k val (tr_tables (fst env)) = (cv, t)" "stored_form cv val = (sv, c)"
  shows "t < 256" "fits (tr_tables (fst env) ! t) k sv" "plain cd cp sv c = Ok val" "length sv \<le> length val"
proof -
  have t: "tiers_ok (tr_col (fst env)) (tr_ref_counted (fst env)) (tr_tables (fst env))" using assms(1) by (simp add: heap_rel_def)
  note s = column_compress_spec [OF t assms(2-4)]
  show "t < 256" "fits (tr_tables (fst env) ! t) k sv" "length sv \<le> length val" by (rule s)+
  have "tr_compression (fst env) = cp \<or> tr_compression (fst env) = NO_COMPRESSION" using assms(1) by (simp add: heap_rel_def)
  then show "plain cd cp sv c = Ok val"
  proof
    assume "tr_compression (fst env) = NO_COMPRESSION"
    then have "cv = None" using assms(3) by (auto simp: column_compress_def NO_COMPRESSION_def cp_compress_def Let_def split: if_splits)
    then show ?thesis using assms(4) by (simp add: stored_form_def plain_def)
  qed (use s(3) in simp)
qed

lemma space_put:
  assumes "space env n" "t < 256" "unat (vt_filled vt) + m \<le> unat (vt_filled (tr_tables (fst env) ! t)) + n" "m \<le> n"
  shows "space (put_table t vt w env) m"
  unfolding space_def
proof (intro allI impI)
  fix j :: nat assume j: "j < 256"
  then have "unat (vt_filled (tr_tables (fst env) ! j)) + n < 2 ^ 55" using assms(1) by (simp add: space_def)
  then show "unat (vt_filled (tr_tables (fst (put_table t vt w env)) ! j)) + m < 2 ^ 55"
    using assms(3,4) by (cases "j = t"; cases "t < length (tr_tables (fst env))") (simp_all add: put_table_def list_update_beyond)
qed

lemma same_env_put [simp]: "same_env env (put_table t vt w env)"
  by (auto simp: same_env_def put_table_def)

lemma heap_insert:
  assumes h: "heap_rel cd cp env H" and t: "t < 256" "fits (tr_tables (fst env) ! t) NoHash sv" "plain cd cp sv c = Ok val"
    and sp: "space env (n + length sv + 65)"
  obtains i vt w where "write_insert_plan (tr_tables (fst env) ! t) NoHash sv (snd env) c = Ok (i, vt, w)"
    "H (addr_new i (word_of_nat t)) = None" "addr_new i (word_of_nat t) \<noteq> 0"
    "heap_rel cd cp (put_table t vt w env) (H(addr_new i (word_of_nat t) \<mapsto> (1, val)))" "space (put_table t vt w env) n"
    "unat (addr_size_tier (addr_new i (word_of_nat t))) = t"
proof -
  let ?vt = "tr_tables (fst env) ! t"
  obtain ms where ms: "value_stores.stores_rel (tr_tables (fst env)) (snd env) ms" "heap_of cd cp ms H"
    using h by (auto simp: heap_rel_def)
  note hs = heap_stores [OF h ms(1) t(1)]
  have r: "unat (vt_filled ?vt) + (n + length sv + 65) < 2 ^ 55" using sp t(1) by (simp add: space_def)
  then have r64: "unat (vt_filled ?vt) + length sv + 65 < 2 ^ 64" "unat (vt_filled ?vt) < 2 ^ 55" by simp_all
  have "valid_key NoHash" by (simp add: valid_key_def)
  from store_insert [OF hs(1) this t(2) r64(1), of c] obtain i vt w where
    o: "write_insert_plan ?vt NoHash sv (snd env) c = Ok (i, vt, w)" "same_table ?vt vt" "(ms ! t) i = None"
      "store_rel vt (writer_query w) ((ms ! t)(i \<mapsto> (1, NoHash, sv, c)))" "frame_w (vt_id ?vt) (snd env) w" "i \<le> vt_filled ?vt"
    by blast
  note small = small_offset(2) [OF o(6) r64(2)]
  have w: "unat (word_of_nat t :: u8) = t" using t(1) by (simp add: unat_of_nat)
  note ar = addr_roundtrip [OF small, of "word_of_nat t"]
  have "live_at ms (addr_new i (word_of_nat t)) = None" using o(3) ar w by (simp add: live_at_def)
  then have n: "H (addr_new i (word_of_nat t)) = None" by (rule heap_of_None [OF ms(2)])
  have "0 < i" using store_rel_key(3) [OF o(4), of i] by simp
  then have nz: "addr_new i (word_of_nat t) \<noteq> 0" using ar(1) address_nonzero by simp
  have x: "case Some (1 :: u32, NoHash, sv, c) of None \<Rightarrow> Some (1 :: u32, val) = None
      | Some (rc, k, v, c) \<Rightarrow> k = NoHash \<and> (\<exists>z. plain cd cp v c = Ok z \<and> Some (1, val) = Some (rc, z))" using t(3) by simp
  have f: "unat (vt_filled vt) \<le> unat (vt_filled ?vt) + length sv + 65"
    by (rule insert_filled_bound [OF o(1) hs(3) r64(1)])
  have "space (put_table t vt w env) n" using f by (intro space_put [OF sp t(1)]) simp_all
  moreover have "unat (addr_size_tier (addr_new i (word_of_nat t))) = t" using ar(2) w by simp
  ultimately show thesis by (rule that [OF o(1) n nz heap_rel_upd(1) [OF h ms(1,2) t(1) small o(2,4,5) x]])
qed


lemma heap_delete:
  assumes h: "heap_rel cd cp env H" and a: "H a = Some e" and sp: "space env n"
  obtains vt w where "write_remove_plan (tr_tables (fst env) ! unat (addr_size_tier a)) (addr_offset a) (snd env) = Ok (vt, w)"
    "heap_rel cd cp (put_table (unat (addr_size_tier a)) vt w env) (H(a := None))" "space (put_table (unat (addr_size_tier a)) vt w env) n"
proof -
  let ?t = "unat (addr_size_tier a)"
  obtain ms where ms: "value_stores.stores_rel (tr_tables (fst env)) (snd env) ms" "heap_of cd cp ms H"
    using h by (auto simp: heap_rel_def)
  obtain rc x where e: "e = (rc, x)" by (cases e)
  obtain v c where l: "live_at ms a = Some (rc, NoHash, v, c)" by (rule heap_of_live [OF ms(2) a [unfolded e]])
  then have m: "(ms ! ?t) (addr_offset a) = Some (rc, NoHash, v, c)" by (simp add: live_at_def)
  from store_remove [OF heap_stores(1) [OF h ms(1) tier_lt] m] obtain vt w where
    o: "write_remove_plan (tr_tables (fst env) ! ?t) (addr_offset a) (snd env) = Ok (vt, w)" "same_table (tr_tables (fst env) ! ?t) vt"
      "store_rel vt (writer_query w) ((ms ! ?t)(addr_offset a := None))" "frame_w (vt_id (tr_tables (fst env) ! ?t)) (snd env) w"
    by blast
  have x: "case None :: entry_val option of None \<Rightarrow> None = None
      | Some (rc, k, v, c) \<Rightarrow> k = NoHash \<and> (\<exists>z. plain cd cp v c = Ok z \<and> None = Some (rc, z))" by simp
  note u = heap_rel_upd(1) [OF h ms tier_lt offset_small o(2-4) x, simplified]
  have "space (put_table ?t vt w env) n" using remove_filled [OF o(1)] by (intro space_put [OF sp tier_lt]) simp_all
  with o(1) u show thesis by (rule that)
qed

lemma replace_filled_bound:
  assumes "write_replace_plan vt i k v w c = Ok (vt', w')" "32 \<le> es vt" "unat (vt_filled vt) + length v + 65 < 2 ^ 64"
  shows "unat (vt_filled vt') \<le> unat (vt_filled vt) + length v + 65"
  using overwrite_chain_filled(2) [of vt k v w "Some i" c _ vt' w' "unat (vt_filled vt) + length v + 66"] assms
  by (auto simp: write_replace_plan_def and_then_Ok_iff)

lemma heap_replace:
  assumes h: "heap_rel cd cp env H" and a: "H a = Some e" and f: "fits (tr_tables (fst env) ! unat (addr_size_tier a)) NoHash sv"
    and v: "plain cd cp sv c = Ok val" and sp: "space env (n + length sv + 65)"
  obtains vt w where "write_replace_plan (tr_tables (fst env) ! unat (addr_size_tier a)) (addr_offset a) NoHash sv (snd env) c = Ok (vt, w)"
    "heap_rel cd cp (put_table (unat (addr_size_tier a)) vt w env) (H(a \<mapsto> (1, val)))" "space (put_table (unat (addr_size_tier a)) vt w env) n"
proof -
  let ?t = "unat (addr_size_tier a)" and ?vt = "tr_tables (fst env) ! unat (addr_size_tier a)"
  obtain ms where ms: "value_stores.stores_rel (tr_tables (fst env)) (snd env) ms" "heap_of cd cp ms H"
    using h by (auto simp: heap_rel_def)
  note hs = heap_stores [OF h ms(1) tier_lt, of a]
  obtain rc x where e: "e = (rc, x)" by (cases e)
  obtain v' c' where l: "live_at ms a = Some (rc, NoHash, v', c')" by (rule heap_of_live [OF ms(2) a [unfolded e]])
  then have m: "(ms ! ?t) (addr_offset a) = Some (rc, NoHash, v', c')" by (simp add: live_at_def)
  have "unat (vt_filled ?vt) + (n + length sv + 65) < 2 ^ 55" using sp tier_lt by (simp add: space_def)
  then have r64: "unat (vt_filled ?vt) + length sv + 65 < 2 ^ 64" by simp
  have "valid_key NoHash" by (simp add: valid_key_def)
  from store_replace [OF hs(1) m this f r64, of c] obtain vt w where
    o: "write_replace_plan ?vt (addr_offset a) NoHash sv (snd env) c = Ok (vt, w)" "same_table ?vt vt"
      "store_rel vt (writer_query w) ((ms ! ?t)(addr_offset a \<mapsto> (1, NoHash, sv, c)))" "frame_w (vt_id ?vt) (snd env) w"
    by blast
  have x: "case Some (1 :: u32, NoHash, sv, c) of None \<Rightarrow> Some (1 :: u32, val) = None
      | Some (rc, k, v, c) \<Rightarrow> k = NoHash \<and> (\<exists>z. plain cd cp v c = Ok z \<and> Some (1, val) = Some (rc, z))" using v by simp
  note u = heap_rel_upd(1) [OF h ms tier_lt offset_small o(2-4) x, simplified]
  have "space (put_table ?t vt w env) n"
    using replace_filled_bound [OF o(1) hs(3) r64] by (intro space_put [OF sp tier_lt]) simp_all
  with o(1) u show thesis by (rule that)
qed

lemma heap_count:
  assumes h: "heap_rel cd cp env H" and a: "H a = Some (rc, x)" and r: "tr_ref_counted (fst env)" and sp: "space env n"
  obtains w where "write_inc_ref (tr_tables (fst env) ! unat (addr_size_tier a)) (addr_offset a) (snd env) = Ok w"
    "heap_rel cd cp (fst env, w) (H(a \<mapsto> (more_refs rc, x)))"
proof -
  let ?t = "unat (addr_size_tier a)" and ?vt = "tr_tables (fst env) ! unat (addr_size_tier a)"
  obtain ms where ms: "value_stores.stores_rel (tr_tables (fst env)) (snd env) ms" "heap_of cd cp ms H"
    using h by (auto simp: heap_rel_def)
  note hs = heap_stores [OF h ms(1) tier_lt, of a]
  obtain v c where l: "live_at ms a = Some (rc, NoHash, v, c)" "plain cd cp v c = Ok x" by (rule heap_of_live [OF ms(2) a])
  then have m: "(ms ! ?t) (addr_offset a) = Some (rc, NoHash, v, c)" by (simp add: live_at_def)
  from store_inc_ref [OF hs(1) m] hs(2) r obtain w rc' where
    o: "write_inc_ref ?vt (addr_offset a) (snd env) = Ok w" "unat rc' = min (unat rc + 1) (2 ^ 32 - 1)"
      "store_rel ?vt (writer_query w) ((ms ! ?t)(addr_offset a \<mapsto> (rc', NoHash, v, c)))" "frame_w (vt_id ?vt) (snd env) w"
    by blast
  have x: "case Some (rc', NoHash, v, c) of None \<Rightarrow> Some (rc', x) = None
      | Some (rc, k, v, c) \<Rightarrow> k = NoHash \<and> (\<exists>z. plain cd cp v c = Ok z \<and> Some (rc', x) = Some (rc, z))" using l(2) by simp
  note u = heap_rel_upd(1) [OF h ms tier_lt offset_small same_table_refl o(3,4) x, simplified]
  have "put_table ?t ?vt w env = (fst env, w)" by (simp add: put_table_def)
  with u o(1) more_refs_unat [OF o(2)] show thesis by (intro that) simp_all
qed

lemma heap_uncount:
  assumes h: "heap_rel cd cp env H" and a: "H a = Some (rc, x)" and r: "tr_ref_counted (fst env)" and sp: "space env n"
  obtains kept vt w where "write_dec_ref (tr_tables (fst env) ! unat (addr_size_tier a)) (addr_offset a) (snd env) = Ok (kept, vt, w)"
    "kept \<longleftrightarrow> rc \<noteq> 1" "heap_rel cd cp (put_table (unat (addr_size_tier a)) vt w env) (H(a := if rc = 1 then None else Some (fewer_refs rc, x)))"
    "space (put_table (unat (addr_size_tier a)) vt w env) n"
proof -
  let ?t = "unat (addr_size_tier a)" and ?vt = "tr_tables (fst env) ! unat (addr_size_tier a)"
  obtain ms where ms: "value_stores.stores_rel (tr_tables (fst env)) (snd env) ms" "heap_of cd cp ms H"
    using h by (auto simp: heap_rel_def)
  note hs = heap_stores [OF h ms(1) tier_lt, of a]
  obtain v c where l: "live_at ms a = Some (rc, NoHash, v, c)" "plain cd cp v c = Ok x" by (rule heap_of_live [OF ms(2) a])
  then have m: "(ms ! ?t) (addr_offset a) = Some (rc, NoHash, v, c)" by (simp add: live_at_def)
  have rt: "vt_ref_counted ?vt" using hs(2) r by simp
  show thesis
  proof (cases "rc = 1")
    case True
    from store_dec_ref(1) [OF hs(1) m rt True] obtain vt w where
      o: "write_dec_ref ?vt (addr_offset a) (snd env) = Ok (False, vt, w)" "same_table ?vt vt"
        "store_rel vt (writer_query w) ((ms ! ?t)(addr_offset a := None))" "frame_w (vt_id ?vt) (snd env) w"
      by blast
    have y: "case None :: entry_val option of None \<Rightarrow> None = None
      | Some (rc, k, v, c) \<Rightarrow> k = NoHash \<and> (\<exists>z. plain cd cp v c = Ok z \<and> None = Some (rc, z))" by simp
    note u = heap_rel_upd(1) [OF h ms tier_lt offset_small o(2-4) y, simplified]
    have "space (put_table ?t vt w env) n" using dec_ref_filled [OF o(1)] by (intro space_put [OF sp tier_lt]) simp_all
    with u True show thesis by (intro that [OF o(1)]) simp_all
  next
    case False
    from store_dec_ref(2) [OF hs(1) m rt False] obtain w where
      o: "write_dec_ref ?vt (addr_offset a) (snd env) = Ok (True, ?vt, w)"
        "store_rel ?vt (writer_query w) ((ms ! ?t)(addr_offset a \<mapsto> (fewer_refs rc, NoHash, v, c)))" "frame_w (vt_id ?vt) (snd env) w"
      unfolding fewer_refs_def by blast
    have y: "case Some (fewer_refs rc, NoHash, v, c) of None \<Rightarrow> Some (fewer_refs rc, x) = None
      | Some (rc', k, v, c) \<Rightarrow> k = NoHash \<and> (\<exists>z. plain cd cp v c = Ok z \<and> Some (fewer_refs rc, x) = Some (rc', z))" using l(2) by simp
    note u = heap_rel_upd(1) [OF h ms tier_lt offset_small same_table_refl o(2,3) y, simplified]
    have "space (put_table ?t ?vt w env) n" by (intro space_put [OF sp tier_lt]) simp_all
    with u False show thesis by (intro that [OF o(1)]) simp_all
  qed
qed

section \<open>The calls of the tree\<close>

lemma tree_new_heap:
  assumes h: "heap_rel cd cp env H" and cd: "codec_ok cd" and sp: "space env (n + length val + 65)"
  obtains a env' where "tree_new_value cd val env = Ok (a, env')" "H a = None" "a \<noteq> 0"
    "heap_rel cd cp env' (H(a \<mapsto> (1, val)))" "same_env env env'" "space env' n"
proof -
  obtain cv t where ct: "column_compress cd (tr_compression (fst env)) NoHash val (tr_tables (fst env)) = (cv, t)"
    by (cases "column_compress cd (tr_compression (fst env)) NoHash val (tr_tables (fst env))")
  obtain sv c where sv: "stored_form cv val = (sv, c)" by (cases "stored_form cv val")
  note p = stored_plain [OF h cd ct sv]
  have "space env (n + length sv + 65)" using p(4) by (intro space_mono [OF sp]) simp
  from heap_insert [OF h p(1-3) this] obtain i vt w where
    o: "write_insert_plan (tr_tables (fst env) ! t) NoHash sv (snd env) c = Ok (i, vt, w)"
      "H (addr_new i (word_of_nat t)) = None" "addr_new i (word_of_nat t) \<noteq> 0"
      "heap_rel cd cp (put_table t vt w env) (H(addr_new i (word_of_nat t) \<mapsto> (1, val)))" "space (put_table t vt w env) n"
    by blast
  have "tree_new_value cd val env = Ok (addr_new i (word_of_nat t), put_table t vt w env)"
    using ct sv o(1) by (simp add: tree_new_value_def write_new_value_plan_def put_table_def)
  then show thesis using o(2-5) by (intro that) simp_all
qed

lemma tree_set_heap:
  assumes h: "heap_rel cd cp env H" and cd: "codec_ok cd" and a: "H a = Some e" and sp: "space env (n + length val + 65)"
  obtains r a' env' where "tree_existing cd a (Set u val) False env = Ok ((r, if a' = a then None else Some a'), env')"
    "a' = a \<or> H a' = None" "a' \<noteq> 0" "heap_rel cd cp env' (H(a := None, a' \<mapsto> (1, val)))" "same_env env env'" "space env' n"
proof -
  let ?t = "unat (addr_size_tier a)"
  obtain cv t where ct: "column_compress cd (tr_compression (fst env)) NoHash val (tr_tables (fst env)) = (cv, t)"
    by (cases "column_compress cd (tr_compression (fst env)) NoHash val (tr_tables (fst env))")
  obtain sv c where sv: "stored_form cv val = (sv, c)" by (cases "stored_form cv val")
  note p = stored_plain [OF h cd ct sv]
  have sp': "space env (n + length sv + 65)" using p(4) by (intro space_mono [OF sp]) simp
  have len: "length (tr_tables (fst env)) = 256" "\<not> tr_preimage (fst env)" using h by (simp_all add: heap_rel_def tiers_ok_def)
  show thesis
  proof (cases "?t = t")
    case True
    from heap_replace [OF h a p(2) [folded True] p(3) sp'] obtain vt w where
      o: "write_replace_plan (tr_tables (fst env) ! ?t) (addr_offset a) NoHash sv (snd env) c = Ok (vt, w)"
        "heap_rel cd cp (put_table ?t vt w env) (H(a \<mapsto> (1, val)))" "space (put_table ?t vt w env) n" by blast
    have "tree_existing cd a (Set u val) False env = Ok ((Some Written, None), put_table ?t vt w env)"
      using ct sv o(1) True len p(1) by (simp add: tree_existing_def write_existing_value_plan_def put_table_def Let_def)
    moreover have "a \<noteq> 0"
    proof -
      obtain ms where ms: "value_stores.stores_rel (tr_tables (fst env)) (snd env) ms" "heap_of cd cp ms H"
        using h by (auto simp: heap_rel_def)
      obtain rc x where e: "e = (rc, x)" by (cases e)
      obtain v c where "live_at ms a = Some (rc, NoHash, v, c)" by (rule heap_of_live [OF ms(2) a [unfolded e]])
      then show ?thesis using live_slot(2) heap_stores(1) [OF h ms(1)] by blast
    qed
    ultimately show thesis using o(2,3) by (intro that [of "Some Written" a "put_table ?t vt w env"]) simp_all
  next
    case False
    from heap_delete [OF h a sp'] obtain vt1 w1 where
      d: "write_remove_plan (tr_tables (fst env) ! ?t) (addr_offset a) (snd env) = Ok (vt1, w1)"
        "heap_rel cd cp (put_table ?t vt1 w1 env) (H(a := None))" "space (put_table ?t vt1 w1 env) (n + length sv + 65)" by blast
    let ?e = "put_table ?t vt1 w1 env"
    have tt: "tr_tables (fst ?e) ! t = tr_tables (fst env) ! t" "snd ?e = w1" using False by (simp_all add: put_table_def)
    from heap_insert [OF d(2) p(1) _ p(3) d(3)] p(2) obtain i vt w where
      o: "write_insert_plan (tr_tables (fst env) ! t) NoHash sv w1 c = Ok (i, vt, w)"
        "(H(a := None)) (addr_new i (word_of_nat t)) = None" "addr_new i (word_of_nat t) \<noteq> 0"
        "heap_rel cd cp (put_table t vt w ?e) (H(a := None, addr_new i (word_of_nat t) \<mapsto> (1, val)))" "space (put_table t vt w ?e) n"
        "unat (addr_size_tier (addr_new i (word_of_nat t))) = t"
      unfolding tt by blast
    have na: "addr_new i (word_of_nat t) \<noteq> a" using o(6) False by auto
    have "tree_existing cd a (Set u val) False env = Ok ((None, Some (addr_new i (word_of_nat t))), put_table t vt w ?e)"
      using ct sv d(1) o(1) False len by (simp add: tree_existing_def write_existing_value_plan_def put_table_def Let_def)
    moreover have "same_env env (put_table t vt w ?e)" using same_env_trans same_env_put by blast
    ultimately show thesis using o(2-5) na
      by (intro that [of None "addr_new i (word_of_nat t)" "put_table t vt w ?e"]) simp_all
  qed
qed


lemma heap_length: "heap_rel cd cp env H \<Longrightarrow> length (tr_tables (fst env)) = 256"
  by (simp add: heap_rel_def tiers_ok_def)

lemma tree_remove_heap:
  assumes h: "heap_rel cd cp env H" and a: "H a = Some e" and sp: "space env n"
  obtains env' where "tree_existing cd a (Dereference u) False env = Ok ((None, None), env')"
    "heap_rel cd cp env' (H(a := None))" "same_env env env'" "space env' n"
proof -
  let ?t = "unat (addr_size_tier a)"
  obtain vt w where o: "write_remove_plan (tr_tables (fst env) ! ?t) (addr_offset a) (snd env) = Ok (vt, w)"
    "heap_rel cd cp (put_table ?t vt w env) (H(a := None))" "space (put_table ?t vt w env) n"
    by (rule heap_delete [OF h a sp])
  have "tree_existing cd a (Dereference u) False env = Ok ((None, None), put_table ?t vt w env)"
    using o(1) heap_length [OF h] by (simp add: tree_existing_def write_existing_value_plan_def put_table_def Let_def)
  then show thesis using o(2,3) by (intro that) simp_all
qed

lemma tree_deref_heap:
  assumes h: "heap_rel cd cp env H" and a: "H a = Some (rc, x)" and r: "tr_ref_counted (fst env)" and sp: "space env n"
  obtains env' where "tree_existing cd a (Dereference u) True env = Ok ((if rc = 1 then None else Some Written, None), env')"
    "heap_rel cd cp env' (H(a := if rc = 1 then None else Some (fewer_refs rc, x)))" "same_env env env'" "space env' n"
proof -
  let ?t = "unat (addr_size_tier a)"
  obtain kept vt w where o: "write_dec_ref (tr_tables (fst env) ! ?t) (addr_offset a) (snd env) = Ok (kept, vt, w)"
      "kept \<longleftrightarrow> rc \<noteq> 1" "heap_rel cd cp (put_table ?t vt w env) (H(a := if rc = 1 then None else Some (fewer_refs rc, x)))"
      "space (put_table ?t vt w env) n"
    by (rule heap_uncount [OF h a r sp])
  have "tree_existing cd a (Dereference u) True env = Ok ((if rc = 1 then None else Some Written, None), put_table ?t vt w env)"
    using o(1,2) heap_length [OF h] by (simp add: tree_existing_def write_existing_value_plan_def put_table_def Let_def)
  then show thesis using o(3,4) by (intro that) simp_all
qed

lemma tree_ref_heap:
  assumes h: "heap_rel cd cp env H" and a: "H a = Some (rc, x)" and r: "tr_ref_counted (fst env)" and sp: "space env n"
    and ch: "change = Reference u \<or> change = Set u val"
  obtains env' where "tree_existing cd a change True env = Ok ((Some Written, None), env')"
    "heap_rel cd cp env' (H(a \<mapsto> (more_refs rc, x)))" "same_env env env'" "space env' n"
proof -
  obtain w where o: "write_inc_ref (tr_tables (fst env) ! unat (addr_size_tier a)) (addr_offset a) (snd env) = Ok w"
      "heap_rel cd cp (fst env, w) (H(a \<mapsto> (more_refs rc, x)))"
    by (rule heap_count [OF h a r sp])
  have "tree_existing cd a change True env = Ok ((Some Written, None), (fst env, w))"
    using o(1) heap_length [OF h] ch by (auto simp: tree_existing_def write_existing_value_plan_def Let_def)
  moreover have "same_env env (fst env, w)" using same_env_refl [of env] unfolding same_env_def by simp
  moreover have "space (fst env, w) n" using sp by (simp add: space_def)
  ultimately show thesis using o(2) by (intro that) simp_all
qed

lemma tree_ref_skipped:
  "heap_rel cd cp env H \<Longrightarrow> tree_existing cd a (Reference u) False env = Ok ((Some Skipped, None), env)"
  using heap_length [of cd cp env H] by (cases env) (simp add: tree_existing_def write_existing_value_plan_def Let_def)

section \<open>Nodes\<close>

definition nbytes :: "separator_inner list \<Rightarrow> address list \<Rightarrow> bytes" where
  "nbytes ss cs = node_bytes ss (child_words ss cs)"

text \<open>A node whose keys have at most \<open>K\<close> bytes takes at most \<open>node_limit K\<close> bytes.\<close>

definition node_limit :: "nat \<Rightarrow> nat" where
  "node_limit K = 72 + 8 * (13 + K)"

lemma nbytes_length:
  assumes "shaped ss cs" "\<forall>s\<in>set ss. length (si_key s) \<le> K"
  shows "length (nbytes ss cs) \<le> node_limit K"
proof -
  have "length (node_bytes ss ws) \<le> length ws * 8 + length ss * (13 + K)" if "\<forall>s\<in>set ss. length (si_key s) \<le> K" for ws
    using that by (induction ss ws rule: node_bytes.induct) (auto simp: separator_bytes_def)
  then have "length (nbytes ss cs) \<le> length (child_words ss cs) * 8 + length ss * (13 + K)"
    unfolding nbytes_def using assms(2) by blast
  also have "\<dots> \<le> 9 * 8 + 8 * (13 + K)"
    using assms(1) by (intro add_mono mult_le_mono) (auto simp: shaped_def child_words_def)
  finally show ?thesis by (simp add: node_limit_def)
qed

lemma node_changed_write:
  assumes "node_has n ss cs" "shaped ss cs" "nd_changed n"
  shows "write_node_plan cd n node_id env =
    and_then (case node_id of
        Some existing \<Rightarrow> and_then (tree_existing cd existing (Set () (nbytes ss cs)) False ((fst env)\<lparr>tr_compression := NO_COMPRESSION\<rparr>, snd env))
            (\<lambda>((_, new_index), env). Ok (new_index, env))
      | None \<Rightarrow> and_then (tree_new_value cd (nbytes ss cs) ((fst env)\<lparr>tr_compression := NO_COMPRESSION\<rparr>, snd env))
            (\<lambda>(address, env). Ok (Some address, env)))
      (\<lambda>(r, env'). Ok (r, (fst env')\<lparr>tr_compression := tr_compression (fst env)\<rparr>, snd env'))"
  using assms encode_node_bytes [OF assms(1,2)] by (cases node_id) (simp_all add: write_node_plan_def nbytes_def Let_def)

lemma uncompressed_env:
  assumes "heap_rel cd cp env H"
  shows "heap_rel cd cp ((fst env)\<lparr>tr_compression := NO_COMPRESSION\<rparr>, snd env) H"
    "space ((fst env)\<lparr>tr_compression := NO_COMPRESSION\<rparr>, snd env) n = space env n"
  using assms by (simp_all add: heap_rel_def space_def)

lemma recompressed_env:
  assumes "heap_rel cd cp env H" "same_env ((fst env)\<lparr>tr_compression := NO_COMPRESSION\<rparr>, snd env) env'" "heap_rel cd cp env' H'"
  shows "heap_rel cd cp ((fst env')\<lparr>tr_compression := tr_compression (fst env)\<rparr>, snd env') H'"
    "same_env env ((fst env')\<lparr>tr_compression := tr_compression (fst env)\<rparr>, snd env')"
    "space ((fst env')\<lparr>tr_compression := tr_compression (fst env)\<rparr>, snd env') n = space env' n"
proof -
  obtain vts where v: "fst env' = (fst env)\<lparr>tr_compression := NO_COMPRESSION, tr_tables := vts\<rparr>" using assms(2) by (auto simp: same_env_def)
  then show "heap_rel cd cp ((fst env')\<lparr>tr_compression := tr_compression (fst env)\<rparr>, snd env') H'"
    using assms(1,3) by (simp add: heap_rel_def)
  show "same_env env ((fst env')\<lparr>tr_compression := tr_compression (fst env)\<rparr>, snd env')"
    unfolding same_env_def v by (intro exI [of _ vts]) simp
qed (simp add: space_def)

lemma write_node_new:
  assumes n: "node_has n ss cs" "shaped ss cs" "nd_changed n" and h: "heap_rel cd cp env H" and cd: "codec_ok cd"
    and sp: "space env (m + length (nbytes ss cs) + 65)"
  obtains a env' where "write_node_plan cd n None env = Ok (Some a, env')" "H a = None" "a \<noteq> 0"
    "heap_rel cd cp env' (H(a \<mapsto> (1, nbytes ss cs)))" "same_env env env'" "space env' m"
proof -
  note u = uncompressed_env [OF h]
  obtain a env1 where 1: "tree_new_value cd (nbytes ss cs) ((fst env)\<lparr>tr_compression := NO_COMPRESSION\<rparr>, snd env) = Ok (a, env1)"
      "H a = None" "a \<noteq> 0" "heap_rel cd cp env1 (H(a \<mapsto> (1, nbytes ss cs)))"
      "same_env ((fst env)\<lparr>tr_compression := NO_COMPRESSION\<rparr>, snd env) env1" "space env1 m"
    by (rule tree_new_heap [OF u(1) cd sp [folded u(2)]])
  note r = recompressed_env [OF h 1(5,4)]
  show thesis using 1(1-3,6) r
    by (intro that [of a "((fst env1)\<lparr>tr_compression := tr_compression (fst env)\<rparr>, snd env1)"]) (simp_all add: node_changed_write [OF n])
qed

lemma write_node_at:
  assumes n: "node_has n ss cs" "shaped ss cs" "nd_changed n" and h: "heap_rel cd cp env H" and cd: "codec_ok cd"
    and a: "H a = Some e" and sp: "space env (m + length (nbytes ss cs) + 65)"
  obtains a' env' where "write_node_plan cd n (Some a) env = Ok (if a' = a then None else Some a', env')"
    "a' = a \<or> H a' = None" "a' \<noteq> 0" "heap_rel cd cp env' (H(a := None, a' \<mapsto> (1, nbytes ss cs)))" "same_env env env'" "space env' m"
proof -
  note u = uncompressed_env [OF h]
  obtain r a' env1 where 1: "tree_existing cd a (Set () (nbytes ss cs)) False ((fst env)\<lparr>tr_compression := NO_COMPRESSION\<rparr>, snd env) =
        Ok ((r, if a' = a then None else Some a'), env1)"
      "a' = a \<or> H a' = None" "a' \<noteq> 0" "heap_rel cd cp env1 (H(a := None, a' \<mapsto> (1, nbytes ss cs)))"
      "same_env ((fst env)\<lparr>tr_compression := NO_COMPRESSION\<rparr>, snd env) env1" "space env1 m"
    by (rule tree_set_heap [OF u(1) cd a sp [folded u(2)]])
  note r = recompressed_env [OF h 1(5,4)]
  show thesis using 1(1-3,6) r
    by (intro that [of a' "((fst env1)\<lparr>tr_compression := tr_compression (fst env)\<rparr>, snd env1)"]) (simp_all add: node_changed_write [OF n])
qed

lemma fetch_child_heap:
  assumes "heap_view cd cp tables lq H" "tr_compression tables = cp" "node_has n ss cs" "i < length cs"
    and "H (cs ! i) = Some (rc, nbytes ss' cs')" "shaped ss' cs'" "encodable ss'"
  shows "fetch_child cd n i tables lq = Ok (Some (loaded ss' (child_words ss' cs')))"
proof -
  have l: "length (nd_children n) = 9" "length cs \<le> 9" using node_has_length [OF assms(3)] assms(3) by (simp_all add: node_has_def)
  then have "ch_entry_index (nd_children n ! i) = kid_list n ! i" using assms(4) by simp
  also have "\<dots> = Some (cs ! i)" using assms(3,4) l by (simp add: node_has_fill fill_nth)
  finally have "ch_entry_index (nd_children n ! i) = Some (cs ! i)" .
  then show ?thesis using l assms(4) heap_read [OF assms(1,2,5), of "Check NoHash"] from_encoded_bytes [OF assms(6,7)]
    by (simp add: fetch_child_def get_encoded_entry_def nbytes_def)
qed

lemma fetch_child_none:
  assumes "node_has n ss cs" "length cs \<le> i" "i < 9"
  shows "fetch_child cd n i tables lq = Ok None"
proof -
  have l: "length (nd_children n) = 9" using node_has_length [OF assms(1)] by simp
  then have "ch_entry_index (nd_children n ! i) = kid_list n ! i" using assms(3) by simp
  also have "\<dots> = None" using assms by (simp add: node_has_fill fill_nth)
  finally show ?thesis using l assms(3) by (simp add: fetch_child_def)
qed

end
