(* ===== verification/Btree_Shape.thy ===== *)
theory Btree_Shape
  imports Btree_Store "HOL-Library.Multiset"
begin

text \<open>
  The trees that are stored in a heap: \<open>ntree\<close> is a node with its separators, the addresses of its
  children and the children. \<open>inorder\<close> lists the separators in the order of an iteration, \<open>foot\<close> the
  addresses a tree occupies, \<open>held\<close> says that a heap holds the nodes below a node and the values of
  all separators, each at an address of its own.
\<close>

section \<open>Trees\<close>

datatype ntree = Branch (nt_seps: "separator_inner list") (nt_addrs: "address list") (nt_kids: "ntree list")

fun weave :: "'a list \<Rightarrow> 'a list list \<Rightarrow> 'a list" where
  "weave ss [] = ss"
| "weave ss (x # xs) = x @ concat (map2 (#) ss xs)"

fun inorder :: "ntree \<Rightarrow> separator_inner list" where
  "inorder (Branch ss as cs) = weave ss (map inorder cs)"

fun bal :: "nat \<Rightarrow> ntree \<Rightarrow> bool" where
  "bal 0 (Branch ss as cs) \<longleftrightarrow> as = [] \<and> cs = []"
| "bal (Suc d) (Branch ss as cs) \<longleftrightarrow>
     length as = Suc (length ss) \<and> length cs = Suc (length ss) \<and> (\<forall>c\<in>set cs. bal d c)"

text \<open>Nodes below the root are at least half full.\<close>

fun fat :: "ntree \<Rightarrow> bool" where
  "fat (Branch ss as cs) \<longleftrightarrow> 4 \<le> length ss \<and> length ss \<le> 8 \<and> (\<forall>c\<in>set cs. fat c)"

definition kids_fat :: "ntree \<Rightarrow> bool" where
  "kids_fat t \<longleftrightarrow> length (nt_seps t) \<le> 8 \<and> (\<forall>c\<in>set (nt_kids t). fat c)"

lemma fat_kids: "fat t \<Longrightarrow> kids_fat t"
  by (cases t) (simp add: kids_fat_def)

lemma bal_Suc_kids: "bal (Suc d) t \<Longrightarrow> length (nt_addrs t) = Suc (length (nt_seps t)) \<and> length (nt_kids t) = Suc (length (nt_seps t)) \<and>
    (\<forall>c\<in>set (nt_kids t). bal d c)"
  by (cases t) simp

lemma bal_lengths: "bal d (Branch ss as cs) \<Longrightarrow> length as = length cs"
  by (cases d) simp_all

section \<open>The order of the separators\<close>

definition lpart :: "'a list \<Rightarrow> 'a list list \<Rightarrow> 'a list" where
  "lpart ss xs = concat (map2 (\<lambda>s x. x @ [s]) ss xs)"

definition rpart :: "'a list \<Rightarrow> 'a list list \<Rightarrow> 'a list" where
  "rpart ss xs = concat (map2 (#) ss xs)"

lemma lpart_simps [simp]:
  "lpart [] xs = []" "lpart (s # ss) (x # xs) = x @ s # lpart ss xs"
  "length ss = length xs \<Longrightarrow> lpart (ss @ ss') (xs @ xs') = lpart ss xs @ lpart ss' xs'"
  by (simp_all add: lpart_def)

lemma rpart_simps [simp]:
  "rpart [] xs = []" "rpart (s # ss) (x # xs) = s # x @ rpart ss xs"
  "length ss = length xs \<Longrightarrow> rpart (ss @ ss') (xs @ xs') = rpart ss xs @ rpart ss' xs'"
  by (simp_all add: rpart_def)

lemma weave_Cons: "weave ss (x # xs) = x @ rpart ss xs"
  by (simp add: rpart_def)

lemma weave_focus:
  assumes "length ss = length xs"
  shows "weave (ss @ ss') (xs @ x # xs') = lpart ss xs @ x @ rpart ss' xs'"
  using assms
proof (induction ss xs arbitrary: rule: list_induct2)
  case (Cons s ss y ys)
  then show ?case by (cases ys) (simp_all add: weave_Cons del: weave.simps)
qed (simp add: weave_Cons del: weave.simps)

lemma weave_split:
  assumes "length xs = Suc (length ss)"
  shows "weave (ss @ s # ss') (xs @ x # xs') = weave ss xs @ s # weave ss' (x # xs')"
proof -
  obtain ys y where xs: "xs = ys @ [y]" "length ys = length ss" using assms by (cases xs rule: rev_cases) auto
  have "weave (ss @ s # ss') (xs @ x # xs') = lpart ss ys @ y @ rpart (s # ss') (x # xs')"
    using weave_focus [of ss ys "s # ss'" y "x # xs'"] xs by simp
  also have "\<dots> = weave (ss @ []) (ys @ y # []) @ s # weave ss' (x # xs')"
    using weave_focus [of ss ys "[]" y "[]"] xs(2) by (simp add: weave_Cons del: weave.simps)
  finally show ?thesis using xs(1) by simp
qed

section \<open>Footprints\<close>

fun foot :: "ntree \<Rightarrow> address multiset" where
  "foot (Branch ss as cs) = mset (map si_value ss) + mset as + sum_list (map foot cs)"

definition footl :: "address list \<Rightarrow> ntree list \<Rightarrow> address multiset" where
  "footl as cs = mset as + sum_list (map foot cs)"

abbreviation vals :: "separator_inner list \<Rightarrow> address multiset" where
  "vals ss \<equiv> mset (map si_value ss)"

lemma foot_Branch: "foot (Branch ss as cs) = vals ss + footl as cs"
  by (simp add: footl_def)

lemma footl_simps [simp]:
  "footl [] [] = {#}" "footl (a # as) (c # cs) = {#a#} + foot c + footl as cs"
  "footl (as @ as') (cs @ cs') = footl as cs + footl as' cs'"
  by (simp_all add: footl_def)

definition owns :: "heap \<Rightarrow> address multiset \<Rightarrow> bool" where
  "owns H M \<longleftrightarrow> (\<forall>a. count M a \<le> 1) \<and> set_mset M \<subseteq> dom H"

text \<open>The heap changes from \<open>H\<close> to \<open>H'\<close>, and only where an owner gave up \<open>M\<close> for \<open>M'\<close>.\<close>

definition xfer :: "heap \<Rightarrow> address multiset \<Rightarrow> heap \<Rightarrow> address multiset \<Rightarrow> bool" where
  "xfer H M H' M' \<longleftrightarrow> H |` (- set_mset M) = H' |` (- set_mset M') \<and> owns H M \<and> owns H' M'"

lemma owns_union:
  "owns H (M + N) \<longleftrightarrow> owns H M \<and> owns H N \<and> set_mset M \<inter> set_mset N = {}"
proof -
  have "(\<forall>a. count M a + count N a \<le> 1) \<longleftrightarrow>
      (\<forall>a. count M a \<le> 1) \<and> (\<forall>a. count N a \<le> 1) \<and> set_mset M \<inter> set_mset N = {}" (is "?l \<longleftrightarrow> ?r")
  proof
    assume l: ?l
    have "a \<notin># N" if "a \<in># M" for a
    proof -
      have "count M a \<ge> 1" using that by simp
      then have "count N a = 0" using l [rule_format, of a] by linarith
      then show ?thesis by (simp add: not_in_iff)
    qed
    then show ?r using l by (auto intro: le_trans [OF le_add1] le_trans [OF le_add2])
  next
    assume r: ?r
    show ?l
    proof
      fix a
      have "count M a = 0 \<or> count N a = 0" using r by (metis disjoint_iff not_in_iff)
      then show "count M a + count N a \<le> 1" using r by auto
    qed
  qed
  then show ?thesis by (auto simp: owns_def)
qed

lemma xfer_refl: "owns H M \<Longrightarrow> xfer H M H M"
  by (simp add: xfer_def)

lemma xfer_trans [trans]: "xfer H M H1 M1 \<Longrightarrow> xfer H1 M1 H2 M2 \<Longrightarrow> xfer H M H2 M2"
  by (simp add: xfer_def)

lemma xfer_outside:
  assumes "xfer H M H' M'" "a \<notin># M" "H a \<noteq> None"
  shows "H' a = H a" "a \<notin># M'"
proof -
  have r: "(H |` (- set_mset M)) a = (H' |` (- set_mset M')) a" using assms(1) by (simp add: xfer_def)
  then have "H a = (H' |` (- set_mset M')) a" using assms(2) by simp
  then show "a \<notin># M'" "H' a = H a" using assms(3) by (auto simp: restrict_map_def split: if_splits)
qed

text \<open>What is owned beside \<open>M\<close> stays.\<close>

lemma xfer_frame:
  assumes x: "xfer H M H' M'" and o: "owns H (M + N)"
  shows "xfer H (M + N) H' (M' + N)" "\<forall>a\<in>#N. H' a = H a"
proof -
  have N: "a \<notin># M \<and> H a \<noteq> None" if "a \<in># N" for a
    using o that unfolding owns_union by (auto simp: owns_def)
  show same: "\<forall>a\<in>#N. H' a = H a" using xfer_outside(1) [OF x] N by blast
  have "set_mset M' \<inter> set_mset N = {}" using xfer_outside(2) [OF x] N by blast
  moreover have "owns H' N" using o N same unfolding owns_union by (auto simp: owns_def)
  ultimately have o': "owns H' (M' + N)" using x unfolding owns_union by (simp add: xfer_def)
  have "H |` (- set_mset (M + N)) = (H |` (- set_mset M)) |` (- set_mset N)" by (simp add: restrict_restrict Int_commute)
  also have "\<dots> = (H' |` (- set_mset M')) |` (- set_mset N)" using x by (simp add: xfer_def)
  also have "\<dots> = H' |` (- set_mset (M' + N))" by (simp add: restrict_restrict Int_commute)
  finally show "xfer H (M + N) H' (M' + N)" using o o' by (simp add: xfer_def)
qed

lemma xfer_new: "H a = None \<Longrightarrow> xfer H {#} (H(a \<mapsto> x)) {#a#}"
  by (auto simp: xfer_def owns_def restrict_map_def fun_eq_iff)

lemma xfer_drop: "H a \<noteq> None \<Longrightarrow> xfer H {#a#} (H(a := None)) {#}"
  by (auto simp: xfer_def owns_def restrict_map_def fun_eq_iff)

lemma xfer_move: "H a \<noteq> None \<Longrightarrow> a' = a \<or> H a' = None \<Longrightarrow> xfer H {#a#} (H(a := None, a' \<mapsto> x)) {#a'#}"
  by (auto simp: xfer_def owns_def restrict_map_def fun_eq_iff)


section \<open>Stored trees\<close>

definition tbytes :: "ntree \<Rightarrow> bytes" where
  "tbytes t = nbytes (nt_seps t) (nt_addrs t)"

fun stored :: "heap \<Rightarrow> ntree \<Rightarrow> bool" where
  "stored H (Branch ss as cs) \<longleftrightarrow>
     list_all2 (\<lambda>a c. H a = Some (1, tbytes c)) as cs \<and> (\<forall>c\<in>set cs. stored H c)"

definition heldl :: "heap \<Rightarrow> address list \<Rightarrow> ntree list \<Rightarrow> bool" where
  "heldl H as cs \<longleftrightarrow> list_all2 (\<lambda>a c. H a = Some (1, tbytes c)) as cs \<and> (\<forall>c\<in>set cs. stored H c)"

definition held :: "heap \<Rightarrow> ntree \<Rightarrow> bool" where
  "held H t \<longleftrightarrow> stored H t \<and> owns H (foot t)"

lemma held_Branch: "held H (Branch ss as cs) \<longleftrightarrow> heldl H as cs \<and> owns H (vals ss + footl as cs)"
  by (simp add: held_def heldl_def footl_def add.assoc)

lemma heldl_length: "heldl H as cs \<Longrightarrow> length as = length cs"
  by (auto simp: heldl_def dest: list_all2_lengthD)

lemma heldl_simps [simp]:
  "heldl H [] []"
  "heldl H (a # as) (c # cs) \<longleftrightarrow> H a = Some (1, tbytes c) \<and> stored H c \<and> heldl H as cs"
  "length as = length cs \<Longrightarrow> heldl H (as @ as') (cs @ cs') \<longleftrightarrow> heldl H as cs \<and> heldl H as' cs'"
  by (auto simp: heldl_def list_all2_append)

lemma in_sum_list: "x \<in># sum_list Ms \<longleftrightarrow> (\<exists>M\<in>set Ms. x \<in># M)"
  by (induction Ms) auto

lemma stored_frame: "stored H t \<Longrightarrow> (\<forall>a\<in>#foot t. H' a = H a) \<Longrightarrow> stored H' t"
proof (induction H t rule: stored.induct)
  case (1 H ss as cs)
  have "list_all2 (\<lambda>a c. H' a = Some (1, tbytes c)) as cs"
    using 1(2,3) by (auto simp: list_all2_conv_all_nth)
  moreover have "stored H' c" if "c \<in> set cs" for c
  proof (rule 1(1) [OF that])
    show "\<forall>a\<in>#foot c. H' a = H a" using 1(3) that by (auto simp: in_sum_list)
  qed (use 1(2) that in simp)
  ultimately show ?case by simp
qed

lemma heldl_frame: "heldl H as cs \<Longrightarrow> (\<forall>a\<in>#footl as cs. H' a = H a) \<Longrightarrow> heldl H' as cs"
  using stored_frame [of H "Branch [] as cs" H'] by (simp add: heldl_def footl_def)

text \<open>Separators and children in the middle of a node are replaced by others; \<open>E\<close> is set free.\<close>

lemma held_middle:
  assumes h: "held H (Branch (s1 @ sm @ s2) (a1 @ am @ a2) (c1 @ cm @ c2))"
    and l: "length a1 = length c1" "length am = length cm" "length am' = length cm'"
    and x: "xfer H (vals sm + footl am cm) H' (vals sm' + footl am' cm' + E)" and m: "heldl H' am' cm'"
  shows "held H' (Branch (s1 @ sm' @ s2) (a1 @ am' @ a2) (c1 @ cm' @ c2))"
    "xfer H (foot (Branch (s1 @ sm @ s2) (a1 @ am @ a2) (c1 @ cm @ c2))) H' (foot (Branch (s1 @ sm' @ s2) (a1 @ am' @ a2) (c1 @ cm' @ c2)) + E)"
    "\<forall>a\<in>#vals s1 + vals s2 + footl a1 c1 + footl a2 c2. H' a = H a"
proof -
  let ?N = "vals s1 + vals s2 + footl a1 c1 + footl a2 c2"
  have f: "foot (Branch (s1 @ sm @ s2) (a1 @ am @ a2) (c1 @ cm @ c2)) = (vals sm + footl am cm) + ?N"
    "foot (Branch (s1 @ sm' @ s2) (a1 @ am' @ a2) (c1 @ cm' @ c2)) = vals sm' + footl am' cm' + ?N"
    by (simp_all add: foot_Branch del: foot.simps)
  have "owns H ((vals sm + footl am cm) + ?N)" using h unfolding held_def f(1) by blast
  note fr = xfer_frame [OF x this]
  show "xfer H (foot (Branch (s1 @ sm @ s2) (a1 @ am @ a2) (c1 @ cm @ c2))) H' (foot (Branch (s1 @ sm' @ s2) (a1 @ am' @ a2) (c1 @ cm' @ c2)) + E)"
    unfolding f using fr(1) by (simp add: ac_simps)
  show same: "\<forall>a\<in>#?N. H' a = H a" by (rule fr(2))
  have "heldl H (a1 @ am @ a2) (c1 @ cm @ c2)" using h unfolding held_Branch by blast
  then have hl: "heldl H a1 c1" "heldl H a2 c2" using l by simp_all
  have "heldl H' a1 c1" by (rule heldl_frame [OF hl(1)]) (use same in simp)
  moreover have "heldl H' a2 c2" by (rule heldl_frame [OF hl(2)]) (use same in simp)
  ultimately have "heldl H' (a1 @ am' @ a2) (c1 @ cm' @ c2)" using m l by simp
  moreover have "owns H' (foot (Branch (s1 @ sm' @ s2) (a1 @ am' @ a2) (c1 @ cm' @ c2)))"
  proof -
    have "vals sm' + footl am' cm' + E + ?N = (vals sm' + footl am' cm' + ?N) + E" by (simp add: ac_simps)
    then have "owns H' ((vals sm' + footl am' cm' + ?N) + E)" using fr(1) unfolding xfer_def by metis
    then show ?thesis unfolding f(2) owns_union [of _ _ E] by blast
  qed
  ultimately show "held H' (Branch (s1 @ sm' @ s2) (a1 @ am' @ a2) (c1 @ cm' @ c2))"
    unfolding held_def heldl_def stored.simps by blast
qed

section \<open>Content\<close>

type_synonym content = "(bytes \<times> (u32 \<times> bytes)) list"

definition cont :: "heap \<Rightarrow> separator_inner list \<Rightarrow> content" where
  "cont H ss = map (\<lambda>s. (si_key s, the (H (si_value s)))) ss"

lemma cont_simps [simp]:
  "cont H [] = []" "cont H (s # ss) = (si_key s, the (H (si_value s))) # cont H ss"
  "cont H (ss @ ss') = cont H ss @ cont H ss'" "map fst (cont H ss) = map si_key ss"
  by (simp_all add: cont_def)

lemma cont_frame: "(\<forall>a\<in>#vals ss. H' a = H a) \<Longrightarrow> cont H' ss = cont H ss"
  by (simp add: cont_def)

lemma set_weave: "length xs = Suc (length ss) \<or> xs = [] \<Longrightarrow> set (weave ss xs) = set ss \<union> (\<Union>x\<in>set xs. set x)"
proof (cases xs)
  case (Cons x xs')
  assume "length xs = Suc (length ss) \<or> xs = []"
  then have "length ss = length xs'" using Cons by simp
  then have "set (rpart ss xs') = set ss \<union> (\<Union>x\<in>set xs'. set x)"
    by (induction ss xs' rule: list_induct2) auto
  then show ?thesis using Cons by (auto simp: weave_Cons simp del: weave.simps)
qed simp

lemma inorder_values: "bal d t \<Longrightarrow> s \<in> set (inorder t) \<Longrightarrow> si_value s \<in># foot t"
proof (induction d arbitrary: t)
  case 0
  then show ?case by (cases t) auto
next
  case (Suc d)
  obtain ss as cs where t: "t = Branch ss as cs" by (cases t)
  have "s \<in> set ss \<or> (\<exists>c\<in>set cs. s \<in> set (inorder c))"
    using Suc.prems t set_weave [of "map inorder cs" ss] by auto
  then show ?case using Suc t by (auto simp: in_sum_list)
qed

lemma vals_part:
  assumes "length ss = length cs" "\<forall>c\<in>set cs. bal d c"
  shows "set_mset (vals (lpart ss (map inorder cs))) \<subseteq> set_mset (vals ss) \<union> set_mset (sum_list (map foot cs))"
    "set_mset (vals (rpart ss (map inorder cs))) \<subseteq> set_mset (vals ss) \<union> set_mset (sum_list (map foot cs))"
  using assms by (induction ss cs rule: list_induct2) (auto dest: inorder_values)

text \<open>The order of a node with children, around child \<open>i\<close>.\<close>

lemma inorder_focus:
  "length s1 = length c1 \<Longrightarrow> inorder (Branch (s1 @ s2) as (c1 @ c # c2)) =
     lpart s1 (map inorder c1) @ inorder c @ rpart s2 (map inorder c2)"
  using weave_focus [of s1 "map inorder c1" s2 "inorder c" "map inorder c2"] by simp

end
