(* ===== verification/Btree_Lookup.thy ===== *)
theory Btree_Lookup
  imports Btree_Shape Btree_Table
begin

text \<open>
  Lookup in a stored tree: the descent from a node finds the address of the value of a key, and a
  btree column answers with the content of its tree.
\<close>

section \<open>Keys around a child\<close>

abbreviation sorted_keys :: "separator_inner list \<Rightarrow> bool" where
  "sorted_keys ss \<equiv> sorted_wrt (<) (map si_key ss)"

lemma lpart_last: "length s1 = length xs \<Longrightarrow> s1 \<noteq> [] \<Longrightarrow> \<exists>l. lpart s1 xs = l @ [last s1]"
proof (induction s1 xs rule: list_induct2)
  case (Cons s ss x xs)
  show ?case
  proof (cases "ss = []")
    case False
    with Cons.IH obtain l where "lpart ss xs = l @ [last ss]" by blast
    with False show ?thesis by (intro exI [of _ "x @ s # l"]) simp
  qed (use Cons.hyps in auto)
qed simp

lemma rpart_hd: "length s2 = length xs \<Longrightarrow> s2 \<noteq> [] \<Longrightarrow> \<exists>r. rpart s2 xs = hd s2 # r"
  by (cases s2; cases xs) auto

lemma focus_bounds:
  assumes "sorted_keys (lpart s1 xs @ y @ rpart s2 zs)" "length s1 = length xs" "length s2 = length zs"
    and "\<forall>s\<in>set s1. si_key s < k" "\<forall>s\<in>set s2. k < si_key s"
  shows "\<forall>s\<in>set (lpart s1 xs). si_key s < k" "\<forall>s\<in>set (rpart s2 zs). k < si_key s"
proof -
  show "\<forall>s\<in>set (lpart s1 xs). si_key s < k"
  proof (cases "s1 = []")
    case False
    then obtain l where l: "lpart s1 xs = l @ [last s1]" using lpart_last [OF assms(2)] by blast
    have "si_key (last s1) < k" using assms(4) False by simp
    moreover have "\<forall>s\<in>set l. si_key s < si_key (last s1)" using assms(1) unfolding l by (simp add: sorted_wrt_append)
    ultimately show ?thesis using l by (auto intro: less_trans)
  qed simp
  show "\<forall>s\<in>set (rpart s2 zs). k < si_key s"
  proof (cases "s2 = []")
    case False
    then obtain r where r: "rpart s2 zs = hd s2 # r" using rpart_hd [OF assms(3)] by blast
    have "k < si_key (hd s2)" using assms(5) False by simp
    moreover have "\<forall>s\<in>set r. si_key (hd s2) < si_key s" using assms(1) unfolding r by (simp add: sorted_wrt_append)
    ultimately show ?thesis using r by (auto intro: less_trans)
  qed simp
qed

lemma set_parts:
  assumes "length ss = length xs"
  shows "set ss \<subseteq> set (lpart ss xs)" "set ss \<subseteq> set (rpart ss xs)"
  using assms by (induction ss xs rule: list_induct2) auto

lemma sorted_parts:
  assumes "length ss = length xs"
  shows "sorted_keys (lpart ss xs) \<Longrightarrow> sorted_keys ss" "sorted_keys (rpart ss xs) \<Longrightarrow> sorted_keys ss"
  using assms
  by (induction ss xs rule: list_induct2) (use set_parts in \<open>fastforce simp: sorted_wrt_append\<close>)+

lemma sorted_subseqs:
  assumes "sorted_keys (lpart s1 xs @ y @ rpart s2 zs)" "length s1 = length xs" "length s2 = length zs"
  shows "sorted_keys (s1 @ s2)" "sorted_keys y"
proof -
  have a: "sorted_keys (lpart s1 xs)" "sorted_keys (rpart s2 zs)"
      "\<forall>s\<in>set (lpart s1 xs). \<forall>s'\<in>set (rpart s2 zs). si_key s < si_key s'"
    using assms(1) by (simp_all add: sorted_wrt_append)
  then have "\<forall>s\<in>set s1. \<forall>s'\<in>set s2. si_key s < si_key s'" using set_parts(1) [OF assms(2)] set_parts(2) [OF assms(3)] by blast
  then show "sorted_keys (s1 @ s2)" using sorted_parts(1) [OF assms(2) a(1)] sorted_parts(2) [OF assms(3) a(2)] by (simp add: sorted_wrt_append)
  show "sorted_keys y" using assms(1) by (simp add: sorted_wrt_append)
qed

lemma pos_strict:
  assumes "sorted_keys ss" "\<not> (pos k ss < length ss \<and> si_key (ss ! pos k ss) = k)"
  shows "\<forall>s\<in>set (drop (pos k ss) ss). k < si_key s"
proof (cases "pos k ss < length ss")
  case True
  have d: "drop (pos k ss) ss = ss ! pos k ss # drop (Suc (pos k ss)) ss" by (rule Cons_nth_drop_Suc [OF True, symmetric])
  have "k \<noteq> si_key (ss ! pos k ss)" "k \<le> si_key (ss ! pos k ss)" using assms(2) True pos_sorted(2) [OF assms(1), of k] unfolding d by auto
  then have "k < si_key (ss ! pos k ss)" by simp
  moreover have "sorted_keys (drop (pos k ss) ss)" using sorted_wrt_drop [OF assms(1), of "pos k ss"] by (simp add: drop_map)
  then have "\<forall>s\<in>set (drop (Suc (pos k ss)) ss). si_key (ss ! pos k ss) < si_key s" unfolding d by simp
  ultimately show ?thesis unfolding d by (auto intro: less_trans)
qed simp

text \<open>The position of a key in a node splits the order of the tree.\<close>

lemma pos_focus:
  fixes k :: bytes
  assumes s: "sorted_keys (inorder (Branch ss as cs))" and b: "bal (Suc d) (Branch ss as cs)"
    and i_def: "i = pos k ss"
  shows "i < length cs" "inorder (Branch ss as cs) = lpart (take i ss) (map inorder (take i cs)) @ inorder (cs ! i) @ rpart (drop i ss) (map inorder (drop (Suc i) cs))"
    "sorted_keys (inorder (cs ! i))" "sorted_keys ss"
    "\<forall>s\<in>set (lpart (take i ss) (map inorder (take i cs))). si_key s < k"
    "\<not> (i < length ss \<and> si_key (ss ! i) = k) \<Longrightarrow> \<forall>s\<in>set (rpart (drop i ss) (map inorder (drop (Suc i) cs))). k < si_key s"
proof -
  have i: "i \<le> length ss" by (simp add: i_def)
  then show ic: "i < length cs" using b by simp
  have len: "length (take i ss) = length (map inorder (take i cs))" "length (drop i ss) = length (map inorder (drop (Suc i) cs))"
    using b i by simp_all
  have cs: "cs = take i cs @ cs ! i # drop (Suc i) cs" using ic by (rule id_take_nth_drop)
  have "inorder (Branch (take i ss @ drop i ss) as (take i cs @ cs ! i # drop (Suc i) cs)) =
      lpart (take i ss) (map inorder (take i cs)) @ inorder (cs ! i) @ rpart (drop i ss) (map inorder (drop (Suc i) cs))"
    using len by (intro inorder_focus) simp
  then show o: "inorder (Branch ss as cs) = lpart (take i ss) (map inorder (take i cs)) @ inorder (cs ! i) @ rpart (drop i ss) (map inorder (drop (Suc i) cs))"
    using cs by simp
  note sub = sorted_subseqs [OF s [unfolded o] len]
  show "sorted_keys (inorder (cs ! i))" by (rule sub)
  show sss: "sorted_keys ss" using sub(1) by simp
  note p = pos_sorted [OF sss, of k, folded i_def]
  have "sorted_keys (lpart (take i ss) (map inorder (take i cs)) @ [] @ rpart [] [])"
    using s unfolding o by (simp add: sorted_wrt_append)
  then show "\<forall>s\<in>set (lpart (take i ss) (map inorder (take i cs))). si_key s < k"
    by (rule focus_bounds(1) [OF _ len(1) _ p(1)]) simp_all
  show "\<forall>s\<in>set (rpart (drop i ss) (map inorder (drop (Suc i) cs))). k < si_key s" if n: "\<not> (i < length ss \<and> si_key (ss ! i) = k)"
    by (rule focus_bounds(2) [OF s [unfolded o] len p(1)]) (use pos_strict [OF sss, of k] n i_def in blast)
qed


section \<open>Lookup\<close>

definition node_is :: "node \<Rightarrow> ntree \<Rightarrow> bool" where
  "node_is n t \<longleftrightarrow> node_has n (nt_seps t) (nt_addrs t)"

text \<open>Keys of at most \<open>K\<close> bytes.\<close>

definition short_keys :: "nat \<Rightarrow> separator_inner list \<Rightarrow> bool" where
  "short_keys K ss \<longleftrightarrow> K < 2 ^ 32 \<and> (\<forall>s\<in>set ss. length (si_key s) \<le> K)"

lemma short_keys_simps [simp]:
  "short_keys K (s # ss) \<longleftrightarrow> length (si_key s) \<le> K \<and> short_keys K ss"
  "short_keys K (ss @ ss') \<longleftrightarrow> short_keys K ss \<and> short_keys K ss'"
  by (auto simp: short_keys_def)

lemma short_keys_sub: "short_keys K ss \<Longrightarrow> set ss' \<subseteq> set ss \<Longrightarrow> short_keys K ss'"
  by (auto simp: short_keys_def)

lemma inorder_seps:
  assumes "bal d (Branch ss as cs)"
  shows "set ss \<subseteq> set (inorder (Branch ss as cs))" "c \<in> set cs \<Longrightarrow> set (inorder c) \<subseteq> set (inorder (Branch ss as cs))"
  using assms set_weave [of "map inorder cs" ss] by (cases d; auto)+

lemma tree_shaped:
  assumes "bal d t" "length (nt_seps t) \<le> 8" "owns H (foot t)" "H 0 = None" "short_keys K (inorder t)"
  shows "shaped (nt_seps t) (nt_addrs t)" "encodable (nt_seps t)"
proof -
  obtain ss as cs where t: "t = Branch ss as cs" by (cases t)
  have z: "0 \<notin># foot t" using assms(3,4) by (auto simp: owns_def)
  then have "0 \<notin> set as" "0 \<notin> si_value ` set ss" using t by auto
  then show "shaped (nt_seps t) (nt_addrs t)" using assms(1,2) t by (cases d) (simp_all add: shaped_def)
  have "\<forall>s\<in>set ss. length (si_key s) < 2 ^ 32"
    using assms(5) inorder_seps(1) assms(1) t unfolding short_keys_def by (metis le_less_trans subsetD)
  then show "encodable (nt_seps t)" using \<open>0 \<notin> si_value ` set ss\<close> t by (force simp: encodable_def)
qed

lemma kid_ok:
  assumes "bal (Suc d) (Branch ss as cs)" "stored H (Branch ss as cs)" "owns H (foot (Branch ss as cs))" "i < length cs"
  shows "bal d (cs ! i)" "stored H (cs ! i)" "owns H (foot (cs ! i))" "H (as ! i) = Some (1, tbytes (cs ! i))" "i < length as"
proof -
  show "bal d (cs ! i)" "stored H (cs ! i)" "i < length as" using assms by simp_all
  show "H (as ! i) = Some (1, tbytes (cs ! i))" using assms(2,4) by (simp add: list_all2_conv_all_nth)
  have cs: "cs = take i cs @ cs ! i # drop (Suc i) cs" using assms(4) by (rule id_take_nth_drop)
  have e: "foot (Branch ss as cs) = foot (cs ! i) + (vals ss + mset as + sum_list (map foot (take i cs @ drop (Suc i) cs)))"
    by (subst cs) simp
  show "owns H (foot (cs ! i))" using assms(3) unfolding e owns_union by blast
qed

lemma fetch_kid:
  assumes v: "heap_view cd cp tables lq H" "tr_compression tables = cp" "H 0 = None" and n: "node_is n (Branch ss as cs)"
    and t: "bal (Suc d) (Branch ss as cs)" "stored H (Branch ss as cs)" "owns H (foot (Branch ss as cs))"
    and i: "i < length cs" and k: "length (nt_seps (cs ! i)) \<le> 8" "short_keys K (inorder (cs ! i))"
  obtains c where "fetch_child cd n i tables lq = Ok (Some c)" "node_is c (cs ! i)" "\<not> nd_changed c"
proof -
  note o = kid_ok [OF t i]
  note sh = tree_shaped [OF o(1) k(1) o(3) v(3) k(2)]
  have "fetch_child cd n i tables lq = Ok (Some (loaded (nt_seps (cs ! i)) (child_words (nt_seps (cs ! i)) (nt_addrs (cs ! i)))))"
    using n o(4,5) unfolding node_is_def tbytes_def by (intro fetch_child_heap [OF v(1,2) _ _ _ sh]) simp_all
  moreover have "node_is (loaded (nt_seps (cs ! i)) (child_words (nt_seps (cs ! i)) (nt_addrs (cs ! i)))) (cs ! i)"
    unfolding node_is_def by (rule loaded_has [OF sh(1)])
  ultimately show thesis by (rule that) (simp add: loaded_def)
qed

lemma node_get_unfold:
  "node_get cd n k tables lq =
     (let (at, i) = node_position n k in
      if at then separator_address n i
      else and_then (fetch_child cd n i tables lq) (\<lambda>c.
        case c of Some c \<Rightarrow> node_get cd c k tables lq | None \<Rightarrow> Ok None))"
proof -
  have "node_get cd n k tables lq = (case (let (at, i) = node_position n k in
       if at then and_then (separator_address n i) (\<lambda>a. Ok (Inr a))
       else and_then (fetch_child cd n i tables lq) (\<lambda>c. Ok (case c of Some c \<Rightarrow> Inl c | None \<Rightarrow> Inr None))) of
       Ok (Inl s') \<Rightarrow> node_get cd s' k tables lq | Ok (Inr r) \<Rightarrow> Ok r | Err e \<Rightarrow> Err e | Panic \<Rightarrow> Panic | Diverge \<Rightarrow> Diverge)"
    unfolding node_get_def by (subst loop_r_unfold) (simp split: result.split sum.split)
  then show ?thesis
    by (cases "node_position n k"; cases "separator_address n (snd (node_position n k))";
        cases "fetch_child cd n (snd (node_position n k)) tables lq") (auto split: option.split)
qed

abbreviation find_key :: "bytes \<Rightarrow> separator_inner list \<Rightarrow> separator_inner option" where
  "find_key k ss \<equiv> List.find (\<lambda>s. si_key s = k) ss"

lemma find_key_append: "find_key k (xs @ ys) = (case find_key k xs of Some s \<Rightarrow> Some s | None \<Rightarrow> find_key k ys)"
  by (induction xs) auto

lemma find_key_absent: "\<forall>s\<in>set xs. si_key s < k \<Longrightarrow> find_key k xs = None" "\<forall>s\<in>set xs. k < si_key s \<Longrightarrow> find_key k xs = None"
  by (auto simp: find_None_iff)

lemma find_key_pos:
  assumes "sorted_keys ss"
  shows "find_key k ss = (if pos k ss < length ss \<and> si_key (ss ! pos k ss) = k then Some (ss ! pos k ss) else None)"
  using assms
proof (induction ss)
  case (Cons a ss)
  have "si_key (ss ! pos k ss) \<noteq> k" if "k \<le> si_key a" "pos k ss < length ss"
  proof -
    have "si_key a < si_key (ss ! pos k ss)" using Cons.prems that(2) by simp
    with that(1) show ?thesis by auto
  qed
  with Cons show ?case by (auto simp: not_less)
qed simp

lemma node_get_tree:
  assumes v: "heap_view cd cp tables lq H" "tr_compression tables = cp" "H 0 = None" and n: "node_is n t"
    and t: "bal d t" "kids_fat t" "stored H t" "owns H (foot t)" "sorted_keys (inorder t)" "short_keys K (inorder t)"
  shows "node_get cd n k tables lq = Ok (map_option si_value (find_key k (inorder t)))"
  using n t
proof (induction d arbitrary: n t)
  case 0
  then obtain ss where ss: "t = Branch ss [] []" by (cases t) auto
  then have h: "node_has n ss []" "inorder t = ss" using 0 by (simp_all add: node_is_def)
  have "fetch_child cd n (pos k ss) tables lq = Ok None"
    using h(1) by (intro fetch_child_none [OF h(1)]) (auto simp: node_has_def intro: le_less_trans [OF pos_le])
  then show ?case using 0 h(2) find_key_pos [of ss k]
    by (simp add: node_get_unfold node_position_has [OF h(1)] separator_address_has [OF h(1)])
next
  case (Suc d)
  obtain ss as cs where t: "t = Branch ss as cs" by (cases t)
  have h: "node_has n ss as" using Suc.prems(1) t by (simp add: node_is_def)
  let ?i = "pos k ss"
  note pf = pos_focus [OF Suc.prems(6,2) [unfolded t] refl [of "pos k ss"]]
  show ?case
  proof (cases "?i < length ss \<and> si_key (ss ! ?i) = k")
    case True
    then have d: "drop ?i ss = ss ! ?i # drop (Suc ?i) ss" by (simp add: Cons_nth_drop_Suc)
    have "drop (Suc ?i) cs \<noteq> []" using True Suc.prems(2) t by simp
    then obtain r where r: "rpart (drop ?i ss) (map inorder (drop (Suc ?i) cs)) = ss ! ?i # r"
      unfolding d by (cases "drop (Suc ?i) cs") auto
    have "\<forall>s\<in>set (inorder (cs ! ?i)). si_key s < k"
      using Suc.prems(6) True unfolding t pf(2) r by (auto simp: sorted_wrt_append)
    then have "find_key k (inorder t) = Some (ss ! ?i)"
      unfolding t pf(2) r find_key_append using True find_key_absent(1) pf(5) by simp
    then show ?thesis using True by (simp add: node_get_unfold node_position_has [OF h] separator_address_has [OF h])
  next
    case False
    note o = kid_ok [OF Suc.prems(2,4,5) [unfolded t] pf(1)]
    have f: "fat (cs ! ?i)" using Suc.prems(3) pf(1) t by (simp add: kids_fat_def)
    then have l: "length (nt_seps (cs ! ?i)) \<le> 8" by (cases "cs ! ?i") simp
    have sk: "short_keys K (inorder (cs ! ?i))"
      using short_keys_sub [OF Suc.prems(7)] inorder_seps(2) [OF Suc.prems(2) [unfolded t]] pf(1) t by auto
    obtain c where c: "fetch_child cd n ?i tables lq = Ok (Some c)" "node_is c (cs ! ?i)"
      by (rule fetch_kid [OF v Suc.prems(1,2,4,5) [unfolded t] pf(1) l sk])
    have "find_key k (inorder t) = find_key k (inorder (cs ! ?i))"
      unfolding t pf(2) find_key_append using find_key_absent(1) [OF pf(5)] find_key_absent(2) [OF pf(6) [OF False]]
      by (auto split: option.split)
    with Suc.IH [OF c(2) o(1) fat_kids [OF f] o(2,3) pf(3) sk] c(1) False show ?thesis
      by (auto simp: node_get_unfold [of cd n] node_position_has [OF h])
  qed
qed

end
