(* ===== verification/Btree_Root.thy ===== *)
theory Btree_Root
  imports Btree_Lookup
begin

text \<open>
  The tree of a column: the header entry, the root it names and the tree below the root. \<open>tree_ok\<close>
  is the invariant of a column between two records; a lookup in such a column answers with the
  content of the tree.
\<close>

section \<open>The header\<close>

definition header_bytes :: "btree_header \<Rightarrow> bytes" where
  "header_bytes h = u64_to_le (bh_root h) @ u32_to_le (bh_depth h)"

lemma header_bytes_length [simp]: "length (header_bytes h) = 12"
  by (simp add: header_bytes_def)

lemma encode_header_bytes: "encode_header h = Ok (header_bytes h)"
proof -
  have "(entry_new [])\<lparr>en_off := 0, en_buf := replicate 12 0, en_cap := 12\<rparr> = cursor [] (replicate 12 0) 12"
    by (simp add: entry_new_def cursor_def)
  moreover have "write_u64 r (cursor [] (replicate 12 0) 12) = Ok (cursor (u64_to_le r) (replicate 4 0) 12)" for r
    by (simp add: write_u64_def write_slice_cursor)
  moreover have "write_u32 d (cursor (u64_to_le r) (replicate 4 0) 12) = Ok (cursor (u64_to_le r @ u32_to_le d) [] 12)" for r d
    by (simp add: write_u32_def write_slice_cursor)
  ultimately show ?thesis
    by (simp add: encode_header_def write_header_def header_bytes_def Let_def) (simp add: entry_new_def cursor_def)
qed

lemma header_read:
  assumes "heap_view cd cp tables lq H" "tr_compression tables = cp" "H HEADER_ADDRESS = Some (rc, header_bytes h)"
  shows "btree_header_of cd lq tables = Ok h"
proof -
  have c: "entry_new (header_bytes h) = cursor [] (u64_to_le (bh_root h) @ u32_to_le (bh_depth h) @ []) (length (header_bytes h))"
    by (simp add: entry_new_def cursor_def header_bytes_def)
  show ?thesis using heap_read [OF assms, of "Fetch False"]
    by (simp add: btree_header_of_def c check_cursor read_u64_cursor read_u32_cursor [where q = "[]", simplified] Let_def)
qed

section \<open>Rooted trees\<close>

definition root_foot :: "address option \<Rightarrow> address multiset" where
  "root_foot root = (case root of Some a \<Rightarrow> {#a#} | None \<Rightarrow> {#})"

text \<open>The root of an inner tree has a separator; no root stands for the empty tree.\<close>

definition tree_shape :: "nat \<Rightarrow> nat \<Rightarrow> ntree \<Rightarrow> bool" where
  "tree_shape K d t \<longleftrightarrow> bal d t \<and> kids_fat t \<and> (d \<noteq> 0 \<longrightarrow> nt_seps t \<noteq> []) \<and>
     sorted_keys (inorder t) \<and> short_keys K (inorder t)"

definition tree_ok :: "nat \<Rightarrow> heap \<Rightarrow> btree_header \<Rightarrow> ntree \<Rightarrow> bool" where
  "tree_ok K H h t \<longleftrightarrow> tree_shape K (unat (bh_depth h)) t \<and> stored H t \<and> H 0 = None \<and>
     H HEADER_ADDRESS = Some (1, header_bytes h) \<and>
     owns H ({#HEADER_ADDRESS#} + root_foot (if bh_root h = 0 then None else Some (bh_root h)) + foot t) \<and>
     (if bh_root h = 0 then t = Branch [] [] [] else H (bh_root h) = Some (1, tbytes t))"

definition tree_content :: "heap \<Rightarrow> ntree \<Rightarrow> bytes \<rightharpoonup> (u32 \<times> bytes)" where
  "tree_content H t = map_of (cont H (inorder t))"

lemma tree_content_find:
  "tree_content H t k = map_option (\<lambda>s. the (H (si_value s))) (find_key k (inorder t))"
proof -
  have "map_of (cont H ss) k = map_option (\<lambda>s. the (H (si_value s))) (find_key k ss)" for ss
    by (induction ss) auto
  then show ?thesis by (simp add: tree_content_def)
qed

lemma fetch_root_heap:
  assumes v: "heap_view cd cp tables lq H" "tr_compression tables = cp" "H 0 = None"
    and a: "H a = Some (rc, tbytes t)" and t: "bal d t" "kids_fat t" "owns H (foot t)" "short_keys K (inorder t)"
  shows "\<exists>n. fetch_root cd a tables lq = Ok n \<and> node_is n t \<and> \<not> nd_changed n"
proof -
  have l: "length (nt_seps t) \<le> 8" using t(2) by (simp add: kids_fat_def)
  note sh = tree_shaped [OF t(1) l t(3) v(3) t(4)]
  have "fetch_root cd a tables lq = Ok (loaded (nt_seps t) (child_words (nt_seps t) (nt_addrs t)))"
    using heap_read [OF v(1,2) a, of "Check NoHash"] from_encoded_bytes [OF sh] v(3) a
    by (auto simp: fetch_root_def get_encoded_entry_def tbytes_def nbytes_def)
  moreover have "node_is (loaded (nt_seps t) (child_words (nt_seps t) (nt_addrs t))) t"
    unfolding node_is_def by (rule loaded_has [OF sh(1)])
  ultimately show ?thesis by (auto simp: loaded_def)
qed

text \<open>\<open>BTreeTable::get\<close> answers with the content of the tree.\<close>

lemma bc_get_tree:
  assumes v: "heap_view cd cp tables lq H" "tr_compression tables = cp"
    and t: "tree_ok K H h t"
  shows "bc_get cd k lq tables = Ok (map_option snd (tree_content H t k))"
proof -
  have "H HEADER_ADDRESS = Some (1, header_bytes h)" using t by (simp add: tree_ok_def)
  note hd = header_read [OF v this]
  show ?thesis
  proof (cases "bh_root h = 0")
    case True
    then have "t = Branch [] [] []" using t by (simp add: tree_ok_def)
    then show ?thesis using True hd by (simp add: bc_get_def tree_content_def)
  next
    case False
    then have r: "H (bh_root h) = Some (1, tbytes t)" "owns H (foot t)" "H 0 = None" "stored H t"
      using t unfolding tree_ok_def owns_union by auto
    have s: "bal (unat (bh_depth h)) t" "kids_fat t" "sorted_keys (inorder t)" "short_keys K (inorder t)"
      using t by (simp_all add: tree_ok_def tree_shape_def)
    obtain n where n: "fetch_root cd (bh_root h) tables lq = Ok n" "node_is n t"
      using fetch_root_heap [OF v r(3,1) s(1,2) r(2) s(4)] by blast
    note g = node_get_tree [OF v r(3) n(2) s(1,2) r(4,2) s(3,4), of k]
    show ?thesis
    proof (cases "find_key k (inorder t)")
      case None
      then show ?thesis using hd False n(1) g
        by (simp add: bc_get_def btree_get_def root_or_null_def tree_content_find)
    next
      case (Some s)
      then have "s \<in> set (inorder t)" by (auto simp: find_Some_iff)
      then have "si_value s \<in> dom H" using inorder_values [OF s(1)] r(2) by (auto simp: owns_def)
      then obtain rc x where x: "H (si_value s) = Some (rc, x)" by auto
      with Some show ?thesis using hd False n(1) g heap_read [OF v x, of "Fetch False"]
        by (simp add: bc_get_def btree_get_def root_or_null_def tree_content_find)
    qed
  qed
qed

end
