(* ===== verification/Btree_Ops.thy ===== *)
theory Btree_Ops
  imports Btree_Root
begin

text \<open>
  The calls by which a tree changes its heap, as transfers of addresses: a node or a value is
  written to a new address, rewritten and perhaps moved, or dropped. \<open>insert_leaf\<close> and
  \<open>insert_node\<close> put a separator into a node and split it when it was full.
\<close>

section \<open>Room\<close>

text \<open>
  \<open>u\<close> bounds the slots that writing a node can take when keys have at most \<open>K\<close> bytes. \<open>ready\<close>: the
  tables and the record hold \<open>H\<close>, with room for \<open>m\<close> more slots.
\<close>

definition params :: "codec \<Rightarrow> nat \<Rightarrow> nat \<Rightarrow> bool" where
  "params cd K u \<longleftrightarrow> codec_ok cd \<and> K < 2 ^ 32 \<and> node_limit K + 65 \<le> u"

definition ready :: "codec \<Rightarrow> compress \<Rightarrow> tree_env \<Rightarrow> heap \<Rightarrow> nat \<Rightarrow> bool" where
  "ready cd cp env H m \<longleftrightarrow> heap_rel cd cp env H \<and> tr_compression (fst env) = cp \<and> space env m \<and> H 0 = None"

definition good :: "nat \<Rightarrow> separator_inner list \<Rightarrow> address list \<Rightarrow> bool" where
  "good K ss as \<longleftrightarrow> shaped ss as \<and> (\<forall>s\<in>set ss. length (si_key s) \<le> K)"

lemma ready_mono: "ready cd cp env H n \<Longrightarrow> m \<le> n \<Longrightarrow> ready cd cp env H m"
  by (auto simp: ready_def intro: space_mono)

lemma ready_next:
  assumes "ready cd cp env H n" "heap_rel cd cp env' H'" "same_env env env'" "space env' m" "H' 0 = None"
  shows "ready cd cp env' H' m"
  using assms by (simp add: ready_def same_env_fields)

lemma good_room: "params cd K u \<Longrightarrow> good K ss as \<Longrightarrow> length (nbytes ss as) + 65 \<le> u"
  using nbytes_length [of ss as K] by (simp add: params_def good_def)

section \<open>Nodes and values\<close>

lemma node_new:
  assumes p: "params cd K u" and r: "ready cd cp env H (m + u)" and n: "node_has n ss as" "good K ss as" "nd_changed n"
  obtains a env' H' where "write_node_plan cd n None env = Ok (Some a, env')" "xfer H {#} H' {#a#}"
    "H' a = Some (1, nbytes ss as)" "ready cd cp env' H' m" "same_env env env'"
proof -
  have s: "shaped ss as" using n(2) by (simp add: good_def)
  have "space env (m + length (nbytes ss as) + 65)" using r good_room [OF p n(2)] by (auto simp: ready_def intro: space_mono)
  then obtain a env' where o: "write_node_plan cd n None env = Ok (Some a, env')" "H a = None" "a \<noteq> 0"
      "heap_rel cd cp env' (H(a \<mapsto> (1, nbytes ss as)))" "same_env env env'" "space env' m"
    using r p by (auto simp: ready_def params_def intro: write_node_new [OF n(1) s n(3)])
  have "xfer H {#} (H(a \<mapsto> (1, nbytes ss as))) {#a#}" using o(2) by (rule xfer_new)
  from that [OF o(1) this _ ready_next [OF r o(4-6)] o(5)] r o(3) show thesis by (simp add: ready_def)
qed

lemma node_at:
  assumes p: "params cd K u" and r: "ready cd cp env H (m + u)" and n: "node_has n ss as" "good K ss as" "nd_changed n"
    and a: "H a \<noteq> None"
  obtains a' env' H' where "write_node_plan cd n (Some a) env = Ok (if a' = a then None else Some a', env')"
    "xfer H {#a#} H' {#a'#}" "H' a' = Some (1, nbytes ss as)" "ready cd cp env' H' m" "same_env env env'"
proof -
  have s: "shaped ss as" using n(2) by (simp add: good_def)
  obtain e where e: "H a = Some e" using a by auto
  have "space env (m + length (nbytes ss as) + 65)" using r good_room [OF p n(2)] by (auto simp: ready_def intro: space_mono)
  then obtain a' env' where o: "write_node_plan cd n (Some a) env = Ok (if a' = a then None else Some a', env')"
      "a' = a \<or> H a' = None" "a' \<noteq> 0" "heap_rel cd cp env' (H(a := None, a' \<mapsto> (1, nbytes ss as)))" "same_env env env'" "space env' m"
    using r p e by (auto simp: ready_def params_def intro: write_node_at [OF n(1) s n(3)])
  have "xfer H {#a#} (H(a := None, a' \<mapsto> (1, nbytes ss as))) {#a'#}" using a o(2) by (rule xfer_move)
  from that [OF o(1) this _ ready_next [OF r o(4-6)] o(5)] r o(3) show thesis by (simp add: ready_def)
qed

lemma value_new:
  assumes p: "params cd K u" and r: "ready cd cp env H (m + u)" and v: "length val + 65 \<le> u"
  obtains a env' H' where "create_separator cd k val None env = Ok (\<lparr>sp_modified = True, sp_separator = Some \<lparr>si_key = k, si_value = a\<rparr>\<rparr>, env')"
    "xfer H {#} H' {#a#}" "H' a = Some (1, val)" "ready cd cp env' H' m" "same_env env env'"
proof -
  have "space env (m + length val + 65)" using r v by (auto simp: ready_def intro: space_mono)
  then obtain a env' where o: "tree_new_value cd val env = Ok (a, env')" "H a = None" "a \<noteq> 0"
      "heap_rel cd cp env' (H(a \<mapsto> (1, val)))" "same_env env env'" "space env' m"
    using r p by (auto simp: ready_def params_def intro: tree_new_heap)
  have "create_separator cd k val None env = Ok (\<lparr>sp_modified = True, sp_separator = Some \<lparr>si_key = k, si_value = a\<rparr>\<rparr>, env')"
    using o(1) by (simp add: create_separator_def)
  moreover have "xfer H {#} (H(a \<mapsto> (1, val))) {#a#}" using o(2) by (rule xfer_new)
  ultimately show thesis using that [OF _ _ _ ready_next [OF r o(4-6)] o(5)] r o(3) by (simp add: ready_def)
qed

text \<open>What a \<open>Set\<close> of a stored key leaves at its address.\<close>

lemma value_at:
  assumes p: "params cd K u" and r: "ready cd cp env H (m + u)" and v: "length val + 65 \<le> u" and a: "H a = Some (rc, x)"
  obtains sep a' env' H' where "create_separator cd k val (Some a) env = Ok (sep, env')" "sp_separator sep = Some \<lparr>si_key = k, si_value = a'\<rparr>"
    "xfer H {#a#} H' {#a'#}" "H' a' = Some (if tr_ref_counted (fst env) then (more_refs rc, x) else (1, val))"
    "ready cd cp env' H' m" "same_env env env'"
proof (cases "tr_ref_counted (fst env)")
  case True
  have sp: "space env m" "heap_rel cd cp env H" using r by (auto simp: ready_def intro: space_mono)
  obtain env' where o: "tree_existing cd a (Set () val) True env = Ok ((Some Written, None), env')"
      "heap_rel cd cp env' (H(a \<mapsto> (more_refs rc, x)))" "same_env env env'" "space env' m"
    by (rule tree_ref_heap [OF sp(2) a True sp(1) disjI2 [OF refl]])
  have "create_separator cd k val (Some a) env = Ok (\<lparr>sp_modified = False, sp_separator = Some \<lparr>si_key = k, si_value = a\<rparr>\<rparr>, env')"
    using o(1) True by (simp add: create_separator_def)
  moreover have "xfer H {#a#} (H(a \<mapsto> (more_refs rc, x))) {#a#}"
    using xfer_move [of H a a "(more_refs rc, x)"] a by simp
  moreover have "a \<noteq> 0" using a r by (auto simp: ready_def)
  ultimately show thesis using that [OF _ _ _ _ ready_next [OF r o(2-4)] o(3)] True r by (simp add: ready_def)
next
  case False
  have h: "heap_rel cd cp env H" "codec_ok cd" using r p by (simp_all add: ready_def params_def)
  have "space env (m + length val + 65)" using r v by (auto simp: ready_def intro: space_mono)
  from tree_set_heap [OF h a this, of "()"] obtain q a' env' where o: "tree_existing cd a (Set () val) False env = Ok ((q, if a' = a then None else Some a'), env')"
      "a' = a \<or> H a' = None" "a' \<noteq> 0" "heap_rel cd cp env' (H(a := None, a' \<mapsto> (1, val)))" "same_env env env'" "space env' m"
    by blast
  have "create_separator cd k val (Some a) env =
      Ok (\<lparr>sp_modified = (a' \<noteq> a), sp_separator = Some \<lparr>si_key = k, si_value = a'\<rparr>\<rparr>, env')"
    using o(1) False by (simp add: create_separator_def)
  moreover have "xfer H {#a#} (H(a := None, a' \<mapsto> (1, val))) {#a'#}" using a o(2) by (intro xfer_move) simp_all
  ultimately show thesis using that [OF _ _ _ _ ready_next [OF r o(4-6)] o(5)] False r o(3) by (simp add: ready_def)
qed

lemma node_drop:
  assumes r: "ready cd cp env H m" and a: "H a \<noteq> None"
  obtains env' H' where "write_plan_remove_node cd a env = Ok env'" "xfer H {#a#} H' {#}" "ready cd cp env' H' m" "same_env env env'"
proof -
  obtain e where e: "H a = Some e" using a by auto
  have h: "heap_rel cd cp env H" "space env m" using r by (simp_all add: ready_def)
  obtain env' where o: "tree_existing cd a (Dereference ()) False env = Ok ((None, None), env')"
      "heap_rel cd cp env' (H(a := None))" "same_env env env'" "space env' m"
    by (rule tree_remove_heap [OF h(1) e h(2)])
  have "write_plan_remove_node cd a env = Ok env'" using o(1) by (simp add: write_plan_remove_node_def)
  moreover have "xfer H {#a#} (H(a := None)) {#}" using a by (rule xfer_drop)
  ultimately show thesis using that [OF _ _ ready_next [OF r o(2-4)] o(3)] r by (simp add: ready_def)
qed

section \<open>Children\<close>

text \<open>A child is stored as it is in memory, or it is marked as changed.\<close>

lemma node_has_update:
  assumes "node_has n ss as" "i < length as"
  shows "i < length (nd_children n)"
    "node_has (n\<lparr>nd_changed := c, nd_children := (nd_children n)[i := (nd_children n ! i)\<lparr>ch_entry_index := Some a\<rparr>]\<rparr>) ss (as[i := a])"
    "ch_entry_index (nd_children n ! i) = Some (as ! i)"
proof -
  have l: "length (nd_children n) = 9" "length as \<le> 9" using node_has_length [OF assms(1)] assms(1) by (simp_all add: node_has_def)
  then show i: "i < length (nd_children n)" using assms(2) by simp
  show "node_has (n\<lparr>nd_changed := c, nd_children := (nd_children n)[i := (nd_children n ! i)\<lparr>ch_entry_index := Some a\<rparr>]\<rparr>) ss (as[i := a])"
    using assms by (simp add: node_has_fill map_update fill_upd)
  have "ch_entry_index (nd_children n ! i) = kid_list n ! i" using i by simp
  also have "\<dots> = Some (as ! i)" using assms l by (simp add: node_has_fill fill_nth)
  finally show "ch_entry_index (nd_children n ! i) = Some (as ! i)" .
qed

definition moved_child :: "node \<Rightarrow> nat \<Rightarrow> address \<Rightarrow> node" where
  "moved_child n i a =
     n\<lparr>nd_changed := True, nd_children := (nd_children n)[i := (nd_children n ! i)\<lparr>ch_entry_index := Some a\<rparr>]\<rparr>"

lemma write_child_raw:
  assumes p: "params cd K u" and r: "ready cd cp env H (m + u)" and n: "i < length (nd_children self)" "ch_entry_index (nd_children self ! i) = Some a"
    and c: "node_has c ss as" "good K ss as" and a: "H a \<noteq> None" "nd_changed c \<or> H a = Some (1, nbytes ss as)"
  obtains a' env' H' where "write_child cd self i c env = Ok (if a' = a then self else moved_child self i a', env')"
    "xfer H {#a#} H' {#a'#}" "H' a' = Some (1, nbytes ss as)" "ready cd cp env' H' m" "same_env env env'"
proof (cases "nd_changed c")
  case True
  obtain a' env' H' where o: "write_node_plan cd c (Some a) env = Ok (if a' = a then None else Some a', env')"
    "xfer H {#a#} H' {#a'#}" "H' a' = Some (1, nbytes ss as)" "ready cd cp env' H' m" "same_env env env'"
    by (rule node_at [OF p r c True a(1)])
  have "write_child cd self i c env = Ok (if a' = a then self else moved_child self i a', env')"
    using True n o(1) by (simp add: write_child_def moved_child_def)
  then show thesis using o(2-5) by (rule that)
next
  case False
  have x: "xfer H {#a#} H {#a#}" using a(1) by (intro xfer_refl) (auto simp: owns_def)
  have "write_child cd self i c env = Ok (if a = a then self else moved_child self i a, env)" using False by (simp add: write_child_def)
  from that [OF this x _ ready_mono [OF r]] a False show thesis by simp
qed

lemma write_child_spec:
  assumes p: "params cd K u" and r: "ready cd cp env H (m + u)" and n: "node_has self ss as" "i < length as"
    and c: "node_has c ss' as'" "good K ss' as'" and a: "H (as ! i) \<noteq> None" "nd_changed c \<or> H (as ! i) = Some (1, nbytes ss' as')"
  obtains self' a' env' H' where "write_child cd self i c env = Ok (self', env')" "node_has self' ss (as[i := a'])"
    "xfer H {#as ! i#} H' {#a'#}" "H' a' = Some (1, nbytes ss' as')" "ready cd cp env' H' m" "same_env env env'"
    "nd_changed self' \<or> self' = self \<and> a' = as ! i" "nd_changed self \<longrightarrow> nd_changed self'"
proof -
  note u = node_has_update [OF n]
  obtain a' env' H' where o: "write_child cd self i c env = Ok (if a' = as ! i then self else moved_child self i a', env')"
    "xfer H {#as ! i#} H' {#a'#}" "H' a' = Some (1, nbytes ss' as')" "ready cd cp env' H' m" "same_env env env'"
    by (rule write_child_raw [OF p r u(1,3) c a])
  show thesis using u(2) [where c = True and a = a'] n
    by (intro that [OF o(1) _ o(2-5)]) (auto simp: moved_child_def)
qed

section \<open>Insertion into a node\<close>

text \<open>
  A separator (and a right child) was put into a node: the node has the lists \<open>S\<close> and \<open>A\<close>, or it was
  split around the separator 4 and the right half was written to a new address.
\<close>

definition grown ::
    "codec \<Rightarrow> compress \<Rightarrow> nat \<Rightarrow> separator_inner list \<Rightarrow> address list \<Rightarrow> heap \<Rightarrow> tree_env
       \<Rightarrow> ((separator \<times> child) option \<times> node \<times> tree_env) result \<Rightarrow> bool" where
  "grown cd cp m S A H env res \<longleftrightarrow>
     (if length S \<le> 8
      then \<exists>n. res = Ok (None, n, env) \<and> node_has n S A \<and> nd_changed n
      else \<exists>sep c n b env' H'. res = Ok (Some (sep, c), n, env') \<and> sp_separator sep = Some (S ! 4) \<and> ch_entry_index c = Some b \<and>
        node_has n (take 4 S) (take 5 A) \<and> nd_changed n \<and> xfer H {#} H' {#b#} \<and>
        H' b = Some (1, nbytes (drop 5 S) (drop 5 A)) \<and> ready cd cp env' H' m \<and> same_env env env')"

lemma write_split_child_spec:
  assumes p: "params cd K u" and r: "ready cd cp env H (m + u)" and n: "node_has n ss as" "good K ss as" "nd_changed n"
  obtains c b env' H' where "write_split_child cd None n env = Ok (c, env')" "ch_entry_index c = Some b" "xfer H {#} H' {#b#}"
    "H' b = Some (1, nbytes ss as)" "ready cd cp env' H' m" "same_env env env'"
proof -
  obtain b env' H' where o: "write_node_plan cd n None env = Ok (Some b, env')" "xfer H {#} H' {#b#}"
    "H' b = Some (1, nbytes ss as)" "ready cd cp env' H' m" "same_env env env'"
    by (rule node_new [OF p r n])
  show thesis using o by (intro that [of "new_child (Some b)"]) (simp_all add: write_split_child_def new_child_def)
qed

lemma grownI:
  assumes p: "params cd K u" and r: "ready cd cp env H (m + u)" and S: "length S = 9"
    and n: "node_has right (drop 5 S) (drop 5 A)" "good K (drop 5 S) (drop 5 A)" "nd_changed right"
    and l: "node_has n (take 4 S) (take 5 A)" "nd_changed n" "sp_separator sep = Some (S ! 4)"
    and e: "res = and_then (write_split_child cd None right env) (\<lambda>(right, env). Ok (Some (sep, right), n, env))"
  shows "grown cd cp m S A H env res"
proof -
  obtain c b env' H' where "write_split_child cd None right env = Ok (c, env')" "ch_entry_index c = Some b" "xfer H {#} H' {#b#}"
    "H' b = Some (1, nbytes (drop 5 S) (drop 5 A))" "ready cd cp env' H' m" "same_env env env'"
    by (rule write_split_child_spec [OF p r n])
  then show ?thesis using S l e unfolding grown_def by auto
qed

lemma ins_middle:
  assumes "length ss = 8" "length cs = 9"
  shows "take 4 (ins 4 x ss) = take 4 ss" "drop 5 (ins 4 x ss) = drop 4 ss" "ins 4 x ss ! 4 = x"
    "take 5 (ins 5 a cs) = take 5 cs" "drop 5 (ins 5 a cs) = a # drop 5 cs"
  using assms by (auto simp: ins_def nth_append)

lemma ins_9:
  assumes "length ss = 8" "length cs = 9" "i \<le> 8"
  shows "i < 4 \<Longrightarrow> take 4 (ins i x ss) = ins i x (take 3 ss)" "i < 4 \<Longrightarrow> drop 5 (ins i x ss) = drop 4 ss" "i < 4 \<Longrightarrow> ins i x ss ! 4 = ss ! 3"
    "i < 4 \<Longrightarrow> take 5 (ins (Suc i) a cs) = ins (i + 1) a (take 4 cs)" "i < 4 \<Longrightarrow> drop 5 (ins (Suc i) a cs) = drop 4 cs"
    "4 < i \<Longrightarrow> take 4 (ins i x ss) = take 4 ss" "4 < i \<Longrightarrow> ins i x ss ! 4 = ss ! 4" "4 < i \<Longrightarrow> take 5 (ins (Suc i) a cs) = take 5 cs"
  using assms by (auto simp: ins_def min_def nth_append nth_Cons' drop_Cons' take_Cons' drop_take)

lemma set_ins [simp]: "set (ins i x xs) = insert x (set xs)"
  by (simp add: ins_def) (metis append_take_drop_id set_append)

lemma good_halves:
  assumes "length S = 9" "A = [] \<or> length A = 10" "0 \<notin> set A" "\<forall>s\<in>set S. length (si_key s) \<le> K"
  shows "good K (take 4 S) (take 5 A)" "good K (drop 5 S) (drop 5 A)"
  using assms by (auto simp: good_def shaped_def dest: in_set_takeD in_set_dropD)

lemma node_drop_last:
  assumes "node_has n ss as" "i < length ss" "Suc i = length ss"
  obtains r n' where "remove_separator i n = Ok (r, n')" "sp_separator r = Some (ss ! i)" "node_has n' (take i ss) as" "nd_changed n'"
proof -
  note h = assms(1) [unfolded node_has_fill]
  obtain r n' where o: "remove_separator i n = Ok (r, n')" "sp_separator r = sep_list n ! i" "array_sizes n'"
      "sep_list n' = (sep_list n)[i := None]" "kid_list n' = kid_list n" "nd_changed n'"
    using remove_separator_lists [OF node_has_sizes [OF assms(1)], of i] assms(2) h by auto
  have ss: "ss = take i ss @ [ss ! i]" using assms(2,3) take_Suc_conv_app_nth [of i ss] by simp
  have "(fill 8 ss)[i := None] = fill 8 (take i ss)" using fill_butlast [of "take i ss" 8 "ss ! i"] ss h assms(2) by simp
  then show thesis using h o assms(2) by (intro that [OF o(1)]) (simp_all add: node_has_fill fill_nth)
qed

lemma insert_leaf_spec:
  assumes p: "params cd K u" and r: "ready cd cp env H (m + u + u)" and n: "node_has self ss []" "i \<le> length ss"
    and k: "\<forall>s\<in>set ss. length (si_key s) \<le> K" "length k \<le> K" "length val + 65 \<le> u"
  obtains a env1 H1 where "xfer H {#} H1 {#a#}" "H1 a = Some (1, val)" "same_env env env1" "ready cd cp env1 H1 (m + u)"
    "grown cd cp m (ins i \<lparr>si_key = k, si_value = a\<rparr> ss) [] H1 env1 (insert_leaf cd self i k val env)"
proof -
  obtain a env1 H1 where c: "create_separator cd k val None env = Ok (\<lparr>sp_modified = True, sp_separator = Some \<lparr>si_key = k, si_value = a\<rparr>\<rparr>, env1)"
    "xfer H {#} H1 {#a#}" "H1 a = Some (1, val)" "ready cd cp env1 H1 (m + u)" "same_env env env1"
    by (rule value_new [OF p r k(3)])
  let ?x = "\<lparr>si_key = k, si_value = a\<rparr>" and ?s = "\<lparr>sp_modified = True, sp_separator = Some \<lparr>si_key = k, si_value = a\<rparr>\<rparr>"
  let ?S = "ins i ?x ss" and ?ren = "insert_leaf cd self i k val env"
  have l8: "length ss \<le> 8" using n(1) by (simp add: node_has_fill)
  have hs: "has_separator self 7 \<longleftrightarrow> length ss = 8" using has_separator_has [OF n(1), of 7] l8 by auto
  have "grown cd cp m ?S [] H1 env1 ?ren"
  proof (cases "length ss = 8")
    case False
    then have l: "length ss < 8" using l8 by simp
    obtain n1 n' where o: "shift_from i False False self = Ok n1" "set_separator i ?s n1 = Ok n'" "node_has n' ?S []" "nd_changed n'"
      by (rule node_insert_separator [OF n l, of ?s ?x]) simp_all
    then show ?thesis using False l n(2) hs c(1) by (simp add: grown_def insert_leaf_def)
  next
    case l: True
    have S: "length ?S = 9" using n(2) l by simp
    have g: "good K (drop 5 ?S) []" using good_halves(2) [OF S, of "[]" K] k(1,2) by simp
    have t9: "length (replicate 9 (0 :: u64)) = 9" by simp
    note i9 = ins_middle [OF l t9] ins_9 [OF l t9]
    consider (at) "i = 4" | (before) "i < 4" | (after) "4 < i" "i \<le> 8" using n(2) l by linarith
    then show ?thesis
    proof cases
      case at
      obtain right n' where o: "node_split 4 True None None False self = Ok ((right, None), n')"
          "node_has n' (take 4 ss) []" "node_has right (drop 4 ss) []" "nd_changed n'" "nd_changed right"
        by (rule split_leaf_before [OF n(1) l])
      show ?thesis
        by (rule grownI [OF p c(4) S, of right "[]" n' ?s]) (use at o n(2) g hs l c(1) in \<open>simp_all add: insert_leaf_def i9\<close>)
    next
      case before
      obtain right n' where o: "node_split 4 False None None False self = Ok ((right, None), n')"
          "node_has n' (take 4 ss) []" "node_has right (drop 4 ss) []" "nd_changed n'" "nd_changed right"
        by (rule split_leaf_before [OF n(1) l])
      have t4: "take 4 ss ! 3 = ss ! 3" "take 3 (take 4 ss) = take 3 ss" "3 < length (take 4 ss)" "Suc 3 = length (take 4 ss)" using l by simp_all
      obtain up n2 where o2: "remove_separator 3 n' = Ok (up, n2)" "sp_separator up = Some (ss ! 3)" "node_has n2 (take 3 ss) []"
        using node_drop_last [OF o(2) t4(3,4)] unfolding t4(1,2) by blast
      obtain n3 n4 where o3: "shift_from i False False n2 = Ok n3" "set_separator i ?s n3 = Ok n4" "node_has n4 (ins i ?x (take 3 ss)) []" "nd_changed n4"
        by (rule node_insert_separator [OF o2(3), of i ?s ?x]) (use before l in simp_all)
      show ?thesis
        by (rule grownI [OF p c(4) S, of right "[]" n4 up]) (use before o o2 o3 n(2) g hs l c(1) in \<open>simp_all add: insert_leaf_def i9\<close>)
    next
      case after
      obtain right n' where o: "node_split 5 False (Some (i, ?s)) None False self = Ok ((right, None), n')"
          "node_has n' (take 5 ss) []" "node_has right (drop 5 ?S) []" "nd_changed n'" "nd_changed right"
        by (rule split_leaf_after [OF n(1) l after, of ?s ?x]) simp_all
      have t5: "take 5 ss ! 4 = ss ! 4" "take 4 (take 5 ss) = take 4 ss" "4 < length (take 5 ss)" "Suc 4 = length (take 5 ss)" using l by simp_all
      obtain up n2 where o2: "remove_separator 4 n' = Ok (up, n2)" "sp_separator up = Some (ss ! 4)" "node_has n2 (take 4 ss) []" "nd_changed n2"
        using node_drop_last [OF o(2) t5(3,4)] unfolding t5(1,2) by blast
      show ?thesis
        by (rule grownI [OF p c(4) S, of right "[]" n2 up]) (use after o o2 n(2) g hs l c(1) in \<open>simp_all add: insert_leaf_def i9\<close>)
    qed
  qed
  with c(2-5) show thesis by (intro that)
qed

lemma insert_node_spec:
  assumes p: "params cd K u" and r: "ready cd cp env H (m + u)" and n: "node_has self ss as" "i \<le> length ss" "length as = Suc (length ss)"
    and k: "\<forall>s\<in>set (x # ss). length (si_key s) \<le> K" "0 \<notin> set (a # as)" and sc: "sp_separator sep = Some x" "ch_entry_index c = Some a"
  shows "grown cd cp m (ins i x ss) (ins (i + 1) a as) H env (insert_node cd self (Suc d) i sep c env)"
proof -
  let ?S = "ins i x ss" and ?A = "ins (i + 1) a as"
  have l8: "length ss \<le> 8" using n(1) by (simp add: node_has_fill)
  have hs: "has_separator self 7 \<longleftrightarrow> length ss = 8" using has_separator_has [OF n(1), of 7] l8 by auto
  show ?thesis
  proof (cases "length ss = 8")
    case False
    then have l: "length ss < 8" using l8 by simp
    obtain n1 n2 n' where o: "shift_from i True False self = Ok n1" "set_separator i sep n1 = Ok n2" "set_child (i + 1) c n2 = Ok n'"
        "node_has n' ?S ?A" "nd_changed n'"
      by (rule node_insert_right [OF n(1,2) l n(3) sc])
    then show ?thesis using False l n(2) hs by (simp add: grown_def insert_node_def)
  next
    case l: True
    have a9: "length as = 9" using n(3) l by simp
    have S: "length ?S = 9" "length ?A = 10" using n(2) l a9 by simp_all
    have g: "good K (drop 5 ?S) (drop 5 ?A)" using k S by (intro good_halves(2)) simp_all
    note i9 = ins_middle [OF l a9] ins_9 [OF l a9]
    consider (at) "i = 4" | (before) "i < 4" | (after) "4 < i" "i \<le> 8" using n(2) l by linarith
    then show ?thesis
    proof cases
      case at
      obtain right right' n' where o: "node_split 4 True None None True self = Ok ((right, None), n')" "set_child 0 c right = Ok right'"
          "node_has n' (take 4 ss) (take 5 as)" "node_has right' (drop 4 ss) (a # drop 5 as)" "nd_changed n'" "nd_changed right'"
        by (rule split_node_at [OF n(1) l a9 sc(2)])
      show ?thesis
        by (rule grownI [OF p r S(1), of right' _ n' sep]) (use at o n(2) g hs l sc in \<open>simp_all add: insert_node_def i9\<close>)
    next
      case before
      obtain right n' where o: "node_split 4 False None None True self = Ok ((right, None), n')"
          "node_has n' (take 4 ss) (take 4 as)" "node_has right (drop 4 ss) (drop 4 as)" "nd_changed n'" "nd_changed right"
        by (rule split_node_before [OF n(1) l a9])
      have t4: "take 4 ss ! 3 = ss ! 3" "take 3 (take 4 ss) = take 3 ss" "3 < length (take 4 ss)" "Suc 3 = length (take 4 ss)" using l by simp_all
      obtain up n2 where o2: "remove_separator 3 n' = Ok (up, n2)" "sp_separator up = Some (ss ! 3)" "node_has n2 (take 3 ss) (take 4 as)"
        using node_drop_last [OF o(2) t4(3,4)] unfolding t4(1,2) by blast
      obtain n3 n4 n5 where o3: "shift_from i True False n2 = Ok n3" "set_separator i sep n3 = Ok n4" "set_child (i + 1) c n4 = Ok n5"
          "node_has n5 (ins i x (take 3 ss)) (ins (i + 1) a (take 4 as))" "nd_changed n5"
        by (rule node_insert_right [OF o2(3), of i sep x c a]) (use before l a9 sc in simp_all)
      show ?thesis
        by (rule grownI [OF p r S(1), of right _ n5 up]) (use before o o2 o3 n(2) g hs l in \<open>simp_all add: insert_node_def i9\<close>)
    next
      case after
      obtain right n' where o: "node_split 5 False (Some (i, sep)) (Some (i, c)) True self = Ok ((right, None), n')"
          "node_has n' (take 5 ss) (take 5 as)" "node_has right (drop 5 ?S) (drop 5 ?A)" "nd_changed n'" "nd_changed right"
        by (rule split_node_after [OF n(1) l a9 after sc])
      have t5: "take 5 ss ! 4 = ss ! 4" "take 4 (take 5 ss) = take 4 ss" "4 < length (take 5 ss)" "Suc 4 = length (take 5 ss)" using l by simp_all
      obtain up n2 where o2: "remove_separator 4 n' = Ok (up, n2)" "sp_separator up = Some (ss ! 4)" "node_has n2 (take 4 ss) (take 5 as)" "nd_changed n2"
        using node_drop_last [OF o(2) t5(3,4)] unfolding t5(1,2) by blast
      show ?thesis
        by (rule grownI [OF p r S(1), of right _ n2 up]) (use after o o2 n(2) g hs l in \<open>simp_all add: insert_node_def i9\<close>)
    qed
  qed
qed

end
