(* ===== verification/Btree_Cut.thy ===== *)
theory Btree_Cut
  imports Btree_Ops
begin

text \<open>
  Cutting a node in two around one of its separators, and joining two neighbours and the separator
  between them. Splitting a full node, moving a separator between siblings and merging siblings
  are cuts of a joined node.
\<close>

definition cutl :: "nat \<Rightarrow> ntree \<Rightarrow> ntree" where
  "cutl j t = Branch (take j (nt_seps t)) (take (Suc j) (nt_addrs t)) (take (Suc j) (nt_kids t))"

definition cutr :: "nat \<Rightarrow> ntree \<Rightarrow> ntree" where
  "cutr j t = Branch (drop (Suc j) (nt_seps t)) (drop (Suc j) (nt_addrs t)) (drop (Suc j) (nt_kids t))"

definition joined :: "ntree \<Rightarrow> separator_inner \<Rightarrow> ntree \<Rightarrow> ntree" where
  "joined l s r = Branch (nt_seps l @ s # nt_seps r) (nt_addrs l @ nt_addrs r) (nt_kids l @ nt_kids r)"

lemma cut_bal:
  assumes "bal d t" "j < length (nt_seps t)"
  shows "bal d (cutl j t)" "bal d (cutr j t)"
  using assms by (cases t; cases d; auto simp: cutl_def cutr_def dest: in_set_takeD in_set_dropD)+

lemma cut_inorder:
  assumes "bal d t" "j < length (nt_seps t)"
  shows "inorder t = inorder (cutl j t) @ nt_seps t ! j # inorder (cutr j t)"
proof -
  obtain ss as cs where t: "t = Branch ss as cs" by (cases t)
  have ss: "ss = take j ss @ ss ! j # drop (Suc j) ss" using assms(2) t by (simp add: id_take_nth_drop)
  show ?thesis
  proof (cases d)
    case 0
    then have "cs = []" using assms t by simp
    then show ?thesis using t ss by (simp add: cutl_def cutr_def)
  next
    case (Suc d')
    then have cs: "length cs = Suc (length ss)" using assms t by simp
    obtain x xs where d: "drop (Suc j) (map inorder cs) = x # xs" using assms(2) t cs by (cases "drop (Suc j) (map inorder cs)") auto
    have "map inorder cs = take (Suc j) (map inorder cs) @ x # xs" using d by (metis append_take_drop_id)
    then have "weave ss (map inorder cs) = weave (take j ss @ ss ! j # drop (Suc j) ss) (take (Suc j) (map inorder cs) @ x # xs)"
      using ss by simp
    also have "\<dots> = weave (take j ss) (take (Suc j) (map inorder cs)) @ ss ! j # weave (drop (Suc j) ss) (x # xs)"
      using assms(2) t cs by (intro weave_split) simp
    finally show ?thesis using t by (simp add: cutl_def cutr_def take_map drop_map flip: d)
  qed
qed

lemma cut_foot:
  assumes "j < length (nt_seps t)"
  shows "foot t = foot (cutl j t) + {#si_value (nt_seps t ! j)#} + foot (cutr j t)"
proof -
  obtain ss as cs where t: "t = Branch ss as cs" by (cases t)
  have "vals ss = vals (take j ss @ ss ! j # drop (Suc j) ss)" using assms t by (subst id_take_nth_drop [of j ss]) simp_all
  moreover have "mset as = mset (take (Suc j) as) + mset (drop (Suc j) as)" by (simp flip: mset_append)
  moreover have "sum_list (map foot cs) = sum_list (map foot (take (Suc j) cs)) + sum_list (map foot (drop (Suc j) cs))"
    by (simp flip: sum_list_append map_append)
  ultimately show ?thesis using t by (simp add: cutl_def cutr_def)
qed

lemma cut_stored:
  assumes "stored H t"
  shows "stored H (cutl j t)" "stored H (cutr j t)"
  using assms by (cases t; auto simp: cutl_def cutr_def dest: in_set_takeD in_set_dropD)+

lemma joined_bal: "bal d l \<Longrightarrow> bal d r \<Longrightarrow> bal d (joined l s r)"
  by (cases l; cases r; cases d) (auto simp: joined_def)

lemma joined_stored: "stored H l \<Longrightarrow> stored H r \<Longrightarrow> stored H (joined l s r)"
  by (cases l; cases r) (auto simp: joined_def list_all2_appendI)

lemma joined_foot: "foot (joined l s r) = foot l + {#si_value s#} + foot r"
  by (cases l; cases r) (simp add: joined_def)

lemma joined_inorder:
  assumes "bal d l" "bal d r"
  shows "inorder (joined l s r) = inorder l @ s # inorder r"
proof -
  have "cutl (length (nt_seps l)) (joined l s r) = l" "cutr (length (nt_seps l)) (joined l s r) = r"
    using assms by (cases l; cases r; cases d; simp add: cutl_def cutr_def joined_def)+
  then show ?thesis using cut_inorder [OF joined_bal [OF assms, of s], of "length (nt_seps l)"] by (simp add: joined_def)
qed

lemma joined_seps [simp]: "nt_seps (joined l s r) = nt_seps l @ s # nt_seps r"
  by (simp add: joined_def)

text \<open>All children of both halves are children of the node that was cut.\<close>

lemma cut_kids: "set (nt_kids (cutl j t)) \<subseteq> set (nt_kids t)" "set (nt_kids (cutr j t)) \<subseteq> set (nt_kids t)"
  by (auto simp: cutl_def cutr_def dest: in_set_takeD in_set_dropD)

lemma joined_kids: "set (nt_kids (joined l s r)) = set (nt_kids l) \<union> set (nt_kids r)"
  by (simp add: joined_def)

lemma fat_iff: "fat t \<longleftrightarrow> 4 \<le> length (nt_seps t) \<and> length (nt_seps t) \<le> 8 \<and> (\<forall>c\<in>set (nt_kids t). fat c)"
  by (cases t) simp

lemma cut_lengths: "j < length (nt_seps t) \<Longrightarrow> length (nt_seps (cutl j t)) = j \<and> length (nt_seps (cutr j t)) = length (nt_seps t) - Suc j"
  by (simp add: cutl_def cutr_def)

end
