(* ===== verification/Btree_Balance.thy ===== *)
theory Btree_Balance
  imports Btree_Cut
begin

text \<open>
  Rebalancing: \<open>rebalance\<close> leaves the order of the separators of a node as it is and makes all its
  children at least half full again; \<open>remove_last\<close> takes the greatest separator out of a subtree.
\<close>

section \<open>Moving separators between nodes\<close>

lemma node_drop_child:
  assumes "node_has n ss as" "Suc j = length as"
  obtains c n' where "remove_child j n = Ok (c, n')" "ch_entry_index c = Some (as ! j)" "node_has n' ss (take j as)" "nd_changed n'"
proof -
  note h = assms(1) [unfolded node_has_fill]
  obtain c n' where o: "remove_child j n = Ok (c, n')" "ch_entry_index c = kid_list n ! j" "array_sizes n'"
      "sep_list n' = sep_list n" "kid_list n' = (kid_list n)[j := None]" "nd_changed n'"
    using remove_child_lists [OF node_has_sizes [OF assms(1)], of j] assms(2) h by auto
  have as: "as = take j as @ [as ! j]" using assms(2) take_Suc_conv_app_nth [of j as] by simp
  have "(fill 9 as)[j := None] = fill 9 (take j as)" using fill_butlast [of "take j as" 9 "as ! j"] as h assms(2) by simp
  then show thesis using h o assms(2) by (intro that [OF o(1)]) (simp_all add: node_has_fill fill_nth)
qed

lemma node_replace_separator:
  assumes "node_has n ss as" "i < length ss" "sp_separator s = Some x"
  obtains r n1 n2 where "remove_separator i n = Ok (r, n1)" "sp_separator r = Some (ss ! i)" "set_separator i s n1 = Ok n2"
    "node_has n2 (ss[i := x]) as" "nd_changed n2"
proof -
  note h = assms(1) [unfolded node_has_fill]
  obtain r n1 where o: "remove_separator i n = Ok (r, n1)" "sp_separator r = sep_list n ! i" "array_sizes n1"
      "sep_list n1 = (sep_list n)[i := None]" "kid_list n1 = kid_list n" "nd_changed n1"
    using remove_separator_lists [OF node_has_sizes [OF assms(1)], of i] assms(2) h by auto
  obtain n2 where o2: "set_separator i s n1 = Ok n2" "array_sizes n2" "sep_list n2 = (sep_list n1)[i := sp_separator s]"
      "kid_list n2 = kid_list n1" "nd_changed n2"
    using set_separator_lists [OF o(3), of i s] assms(2) h by auto
  have "node_has n2 (ss[i := x]) as" using h o o2 assms(2,3) by (simp add: node_has_fill fill_upd)
  then show thesis using h o o2 assms(2) by (intro that [OF o(1) _ o2(1)]) (simp_all add: fill_nth)
qed

lemma node_push_back:
  assumes "node_has n ss as" "length ss < 8" "sp_separator s = Some x"
  obtains n' where "set_separator (length ss) s n = Ok n'" "node_has n' (ss @ [x]) as" "nd_changed n'"
proof -
  note h = assms(1) [unfolded node_has_fill]
  obtain n' where o: "set_separator (length ss) s n = Ok n'" "array_sizes n'" "sep_list n' = (sep_list n)[length ss := sp_separator s]"
      "kid_list n' = kid_list n" "nd_changed n'"
    using set_separator_lists [OF node_has_sizes [OF assms(1)] assms(2), of s] by auto
  then show thesis using h assms(2,3) by (intro that [OF o(1)]) (simp_all add: node_has_fill fill_snoc)
qed

lemma node_push_back_child:
  assumes "node_has n ss as" "length as < 9" "ch_entry_index c = Some a"
  obtains n' where "set_child (length as) c n = Ok n'" "node_has n' ss (as @ [a])" "nd_changed n'"
proof -
  note h = assms(1) [unfolded node_has_fill]
  obtain n' where o: "set_child (length as) c n = Ok n'" "array_sizes n'" "sep_list n' = sep_list n"
      "kid_list n' = (kid_list n)[length as := ch_entry_index c]" "nd_changed n'"
    using set_child_lists [OF node_has_sizes [OF assms(1)] assms(2), of c] by auto
  then show thesis using h assms(2,3) by (intro that [OF o(1)]) (simp_all add: node_has_fill fill_snoc)
qed

lemma node_push_front:
  assumes "node_has n ss []" "length ss < 8" "sp_separator s = Some x"
  obtains n1 n' where "shift_from 0 False True n = Ok n1" "set_separator 0 s n1 = Ok n'" "node_has n' (x # ss) []" "nd_changed n'"
proof -
  note h = assms(1) [unfolded node_has_fill]
  obtain n1 where 1: "shift_from 0 False True n = Ok n1" "array_sizes n1"
      "sep_list n1 = shift_list 0 (sep_list n ! 0) ((sep_list n)[0 := None])" "kid_list n1 = kid_list n"
    using shift_from_lists [OF node_has_sizes [OF assms(1)], of 0 False True] by auto
  obtain n' where 2: "set_separator 0 s n1 = Ok n'" "sep_list n' = (sep_list n1)[0 := sp_separator s]" "kid_list n' = kid_list n1" "nd_changed n'"
    using set_separator_lists [OF 1(2), of 0] by auto
  have "node_has n' (ins 0 x ss) []"
    using h 1(3,4) 2(2,3) assms(2,3) shift_list_ins [of 0 ss 8 x] by (simp add: node_has_fill)
  with 1(1) 2(1,4) show thesis by (intro that) (simp_all add: ins_def)
qed

lemma node_push_front_child:
  assumes "node_has n ss as" "length ss < 8" "length as < 9" "sp_separator s = Some x" "ch_entry_index c = Some a"
  obtains n1 n2 n' where "shift_from 0 True True n = Ok n1" "set_child 0 c n1 = Ok n2" "set_separator 0 s n2 = Ok n'"
    "node_has n' (x # ss) (a # as)" "nd_changed n'"
proof -
  note h = assms(1) [unfolded node_has_fill]
  obtain n1 where 1: "shift_from 0 True True n = Ok n1" "array_sizes n1"
      "sep_list n1 = shift_list 0 (sep_list n ! 0) ((sep_list n)[0 := None])"
      "kid_list n1 = shift_list 0 (kid_list n ! 0) ((kid_list n)[0 := None])"
    using shift_from_lists [OF node_has_sizes [OF assms(1)], of 0 True True] by auto
  obtain n2 where 2: "set_child 0 c n1 = Ok n2" "array_sizes n2" "sep_list n2 = sep_list n1" "kid_list n2 = (kid_list n1)[0 := ch_entry_index c]"
    using set_child_lists [OF 1(2), of 0] by auto
  obtain n' where 3: "set_separator 0 s n2 = Ok n'" "sep_list n' = (sep_list n2)[0 := sp_separator s]" "kid_list n' = kid_list n2" "nd_changed n'"
    using set_separator_lists [OF 2(2), of 0] by auto
  have "node_has n' (ins 0 x ss) (ins 0 a as)"
    using h 1(3,4) 2(3,4) 3(2,3) assms(2-) shift_list_ins [of 0 ss 8 x] shift_list_ins [of 0 as 9 a] by (simp add: node_has_fill)
  with 1(1) 2(1) 3(1,4) show thesis by (intro that) (simp_all add: ins_def)
qed

lemma node_pop_front_child:
  assumes "node_has n (x # ss) (a # as)"
  obtains c n1 r n2 where "remove_child 0 n = Ok (c, n1)" "ch_entry_index c = Some a" "remove_separator 0 n1 = Ok (r, n2)"
    "sp_separator r = Some x" "node_has (remove_from 0 True True n2) ss as" "nd_changed (remove_from 0 True True n2)"
proof -
  note h = assms(1) [unfolded node_has_fill]
  obtain c n1 where 1: "remove_child 0 n = Ok (c, n1)" "ch_entry_index c = kid_list n ! 0" "array_sizes n1"
      "sep_list n1 = sep_list n" "kid_list n1 = (kid_list n)[0 := None]"
    by (rule remove_child_lists [OF node_has_sizes [OF assms(1)], of 0]) auto
  obtain r n2 where 2: "remove_separator 0 n1 = Ok (r, n2)" "sp_separator r = sep_list n1 ! 0" "array_sizes n2"
      "sep_list n2 = (sep_list n1)[0 := None]" "kid_list n2 = kid_list n1"
    by (rule remove_separator_lists [OF 1(3), of 0]) auto
  have "node_has (remove_from 0 True True n2) ss as"
    using h 1(4,5) 2(4,5) drop_list_del [of 0 "x # ss" 8] drop_list_del [of 0 "a # as" 9]
    by (auto simp: node_has_fill remove_from_lists [OF 2(3)] del_def)
  then show thesis using h 1 2 remove_from_lists(3) [OF 2(3)] by (intro that [OF 1(1) _ 2(1)]) (simp_all add: fill_def)
qed

lemma node_pop_back:
  assumes "node_has n ss as" "ss \<noteq> []"
  obtains r n' where "remove_separator (length ss - 1) n = Ok (r, n')" "sp_separator r = Some (last ss)" "node_has n' (butlast ss) as" "nd_changed n'"
  using node_drop_last [OF assms(1), of "length ss - 1"] assms(2) by (auto simp: last_conv_nth butlast_conv_take)

section \<open>Two neighbours\<close>

abbreviation good_node :: "nat \<Rightarrow> ntree \<Rightarrow> bool" where
  "good_node K t \<equiv> good K (nt_seps t) (nt_addrs t)"

lemma write_pair:
  assumes p: "params cd K u" and r: "ready cd cp env H (m + u + u)" and n: "node_has self ss as" "Suc j < length as"
    and o: "owns H {#as ! j, as ! Suc j#}" and c: "node_is left lt" "node_is right rt" "good_node K lt" "good_node K rt"
    and ch: "nd_changed left" "nd_changed right"
  obtains self' al ar env' H' where
    "and_then (write_child cd self j left env) (\<lambda>(self, env). write_child cd self (Suc j) right env) = Ok (self', env')"
    "node_has self' ss (as[j := al, Suc j := ar])" "nd_changed self \<longrightarrow> nd_changed self'"
    "xfer H {#as ! j, as ! Suc j#} H' {#al, ar#}" "H' al = Some (1, tbytes lt)" "H' ar = Some (1, tbytes rt)"
    "ready cd cp env' H' m" "same_env env env'"
proof -
  have "as ! j \<in> dom H" "as ! Suc j \<in> dom H" using o by (simp_all add: owns_def)
  then have h: "owns H ({#as ! j#} + {#as ! Suc j#})" "H (as ! j) \<noteq> None" "H (as ! Suc j) \<noteq> None" "j < length as"
    using o n(2) by (simp_all add: add_mset_commute domIff)
  obtain s1 al env1 H1 where 1: "write_child cd self j left env = Ok (s1, env1)" "node_has s1 ss (as[j := al])"
      "xfer H {#as ! j#} H1 {#al#}" "H1 al = Some (1, tbytes lt)" "ready cd cp env1 H1 (m + u)" "same_env env env1"
      "nd_changed self \<longrightarrow> nd_changed s1"
    using c(1) unfolding node_is_def tbytes_def by (rule write_child_spec [OF p r n(1) h(4) _ c(3) h(2)]) (use ch in blast)+
  note f1 = xfer_frame [OF 1(3) h(1)]
  have h1: "H1 (as[j := al] ! Suc j) \<noteq> None" "Suc j < length (as[j := al])" using f1(2) h(3) n(2) by simp_all
  obtain s2 ar env2 H2 where 2: "write_child cd s1 (Suc j) right env1 = Ok (s2, env2)" "node_has s2 ss ((as[j := al])[Suc j := ar])"
      "xfer H1 {#as[j := al] ! Suc j#} H2 {#ar#}" "H2 ar = Some (1, tbytes rt)" "ready cd cp env2 H2 m" "same_env env1 env2"
      "nd_changed s1 \<longrightarrow> nd_changed s2"
    using c(2) unfolding node_is_def tbytes_def by (rule write_child_spec [OF p 1(5) 1(2) h1(2) _ c(4) h1(1)]) (use ch in blast)+
  have x2: "xfer H1 {#as ! Suc j#} H2 {#ar#}" using 2(3) by simp
  have "owns H1 ({#as ! Suc j#} + {#al#})" using f1(1) by (simp add: xfer_def add.commute)
  note f2 = xfer_frame [OF x2 this]
  have "xfer H {#as ! j, as ! Suc j#} H2 {#al, ar#}" using xfer_trans [OF f1(1)] f2(1) by (simp add: add_mset_commute)
  moreover have "H2 al = Some (1, tbytes lt)" using f2(2) 1(4) by simp
  moreover have "same_env env env2" using 1(6) 2(6) by (rule same_env_trans)
  ultimately show thesis using 1(1,7) 2(1,2,4,5,7) by (intro that [of s2 env2 al ar H2]) simp_all
qed

text \<open>
  The neighbours \<open>l\<close> and \<open>r\<close>, children \<open>j\<close> and \<open>j + 1\<close> of a node, and the separator \<open>s\<close> between them were
  redistributed around separator \<open>q\<close> of the three.
\<close>

definition rotated ::
    "codec \<Rightarrow> compress \<Rightarrow> nat \<Rightarrow> separator_inner list \<Rightarrow> address list \<Rightarrow> nat \<Rightarrow> ntree \<Rightarrow> nat \<Rightarrow> heap \<Rightarrow> tree_env
       \<Rightarrow> (node \<times> tree_env) result \<Rightarrow> bool" where
  "rotated cd cp m ss as j t q H env res \<longleftrightarrow>
     (\<exists>n al ar env' H'. res = Ok (n, env') \<and> node_has n (ss[j := nt_seps t ! q]) (as[j := al, Suc j := ar]) \<and> nd_changed n \<and>
        xfer H {#as ! j, as ! Suc j#} H' {#al, ar#} \<and> H' al = Some (1, tbytes (cutl q t)) \<and> H' ar = Some (1, tbytes (cutr q t)) \<and>
        ready cd cp env' H' m \<and> same_env env env')"

text \<open>The sizes of two siblings at the same depth.\<close>

definition siblings :: "bool \<Rightarrow> ntree \<Rightarrow> ntree \<Rightarrow> bool" where
  "siblings has_child l r \<longleftrightarrow>
     (if has_child then length (nt_addrs l) = Suc (length (nt_seps l)) \<and> length (nt_addrs r) = Suc (length (nt_seps r))
      else nt_addrs l = [] \<and> nt_addrs r = [])"

text \<open>The child that moves with a separator, in an inner node.\<close>

definition carried :: "bool \<Rightarrow> child option \<Rightarrow> address \<Rightarrow> bool" where
  "carried has_child co a \<longleftrightarrow>
     (if has_child then \<exists>c. co = Some c \<and> ch_entry_index c = Some a else co = None)"

lemma carried_simps [simp]: "carried False co a \<longleftrightarrow> co = None" "carried True co a \<longleftrightarrow> (\<exists>c. co = Some c \<and> ch_entry_index c = Some a)"
  by (simp_all add: carried_def)

lemma child_off_back:
  assumes "node_has n ss as" "if hc then length as = Suc (length ss) else as = []" "i = length ss"
  obtains c n' where "(if hc then and_then (remove_child i n) (\<lambda>(c, n). Ok (Some c, n)) else Ok (None, n)) = Ok (c, n')"
    "node_has n' ss (take (length ss) as)" "carried hc c (as ! length ss)"
proof (cases hc)
  case True
  then have "Suc (length ss) = length as" using assms(2) by simp
  then obtain c n' where "remove_child (length ss) n = Ok (c, n')" "ch_entry_index c = Some (as ! length ss)" "node_has n' ss (take (length ss) as)"
    by (rule node_drop_child [OF assms(1)])
  with True assms(3) show ?thesis by (intro that [of "Some c" n']) simp_all
next
  case False
  then show ?thesis using assms by (intro that [of None n]) simp_all
qed

lemma separator_on_front:
  assumes n: "node_has n ss as" "if hc then length as = Suc (length ss) else as = []" "length ss < 8"
    and s: "sp_separator s = Some x" "carried hc c a"
  obtains n' where "\<And>f :: node \<Rightarrow> (node \<times> tree_env) result.
      and_then (shift_from 0 hc True n) (\<lambda>n. and_then (case c of Some c \<Rightarrow> set_child 0 c n | None \<Rightarrow> Ok n) (\<lambda>n. and_then (set_separator 0 s n) f)) = f n'"
    "node_has n' (x # ss) (if hc then a # as else [])" "nd_changed n'"
proof (cases hc)
  case True
  then obtain c' where c': "c = Some c'" "ch_entry_index c' = Some a" using s(2) by auto
  have len: "length as < 9" using True n by simp
  obtain n1 n2 n' where "shift_from 0 True True n = Ok n1" "set_child 0 c' n1 = Ok n2" "set_separator 0 s n2 = Ok n'"
      "node_has n' (x # ss) (a # as)" "nd_changed n'"
    by (rule node_push_front_child [OF n(1,3) len s(1) c'(2)])
  with True c' show ?thesis by (intro that [of n']) simp_all
next
  case False
  have h: "node_has n ss []" using n False by simp
  obtain n1 n' where "shift_from 0 False True n = Ok n1" "set_separator 0 s n1 = Ok n'" "node_has n' (x # ss) []" "nd_changed n'"
    by (rule node_push_front [OF h n(3) s(1)])
  with False s(2) show ?thesis by (intro that [of n']) simp_all
qed

lemma separator_off_front:
  assumes n: "node_has n (x # ss) as" "if hc then length as = Suc (Suc (length ss)) else as = []"
  obtains c n1 s n2 where "(if hc then and_then (remove_child 0 n) (\<lambda>(c, n). Ok (Some c, n)) else Ok (None, n)) = Ok (c, n1)"
    "remove_separator 0 n1 = Ok (s, n2)" "sp_separator s = Some x" "carried hc c (hd as)"
    "node_has (remove_from 0 hc True n2) ss (drop 1 as)" "nd_changed (remove_from 0 hc True n2)"
proof (cases hc)
  case True
  then obtain a as' where as: "as = a # as'" using n(2) by (cases as) auto
  obtain c n1 r n2 where "remove_child 0 n = Ok (c, n1)" "ch_entry_index c = Some a" "remove_separator 0 n1 = Ok (r, n2)"
    "sp_separator r = Some x" "node_has (remove_from 0 True True n2) ss as'" "nd_changed (remove_from 0 True True n2)"
    by (rule node_pop_front_child [OF n(1) [unfolded as]])
  with True as show ?thesis by (intro that [of "Some c" n1 r n2]) simp_all
next
  case False
  have h: "node_has n (x # ss) []" using n False by simp
  have l: "0 < length (x # ss)" by simp
  obtain r n1 where "remove_separator 0 n = Ok (r, n1)" "sp_separator r = Some ((x # ss) ! 0)"
    "node_has (remove_from 0 False True n1) (del 0 (x # ss)) []" "nd_changed (remove_from 0 False True n1)"
    by (rule node_delete_separator [OF h l])
  with False n(2) show ?thesis by (intro that [of None n r n1]) (simp_all add: del_def)
qed

lemma separator_on_back:
  assumes n: "node_has n ss as" "if hc then length as = Suc (length ss) else as = []" "length ss < 8"
    and s: "sp_separator s = Some x" "carried hc c a"
  obtains n' where "\<And>f :: node \<Rightarrow> (node \<times> tree_env) result.
      and_then (set_separator (length ss) s n) (\<lambda>n.
        and_then (case c of Some c \<Rightarrow> set_child (length ss + 1) c n | None \<Rightarrow> Ok n) f) = f n'"
    "node_has n' (ss @ [x]) (if hc then as @ [a] else [])" "nd_changed n'"
proof -
  obtain n1 where 1: "set_separator (length ss) s n = Ok n1" "node_has n1 (ss @ [x]) as" "nd_changed n1"
    by (rule node_push_back [OF n(1,3) s(1)])
  show thesis
  proof (cases hc)
    case True
    then obtain c' where c': "c = Some c'" "ch_entry_index c' = Some a" using s(2) by auto
    have len: "length as = Suc (length ss)" "length as < 9" using True n by simp_all
    obtain n' where "set_child (length as) c' n1 = Ok n'" "node_has n' (ss @ [x]) (as @ [a])" "nd_changed n'"
      by (rule node_push_back_child [OF 1(2) len(2) c'(2)])
    with True c' 1 len show ?thesis by (intro that [of n']) simp_all
  next
    case False
    with n(2) s(2) 1 show ?thesis by (intro that [of n1]) simp_all
  qed
qed

lemma fetch_sibling:
  assumes r: "ready cd cp env H m" and n: "node_has self ss as" "i < length as"
    and t: "H (as ! i) = Some (rc, tbytes t)" "shaped (nt_seps t) (nt_addrs t)" "encodable (nt_seps t)"
  obtains c where "env_fetch_child cd self i env = Ok (Some c)" "node_is c t" "\<not> nd_changed c"
proof -
  have v: "heap_view cd cp (fst env) (env_query env) H" "tr_compression (fst env) = cp"
    using r heap_rel_view by (auto simp: ready_def)
  show thesis
    by (rule that [OF fetch_child_heap [OF v n t(1) [unfolded tbytes_def] t(2,3)]])
      (simp_all add: node_is_def loaded_has [OF t(2)] loaded_more(3))
qed

lemma balance_from_left_spec:
  assumes p: "params cd K u" and r: "ready cd cp env H (m + u + u)" and n: "node_has self ss as" "length as = Suc (length ss)" "j < length ss"
    and o: "owns H {#as ! j, as ! Suc j#}" and sib: "siblings hc lt rt" and l: "node_is left lt" "nt_seps lt \<noteq> []"
    and rt: "H (as ! Suc j) = Some (1, tbytes rt)" "length (nt_seps rt) < 8" "shaped (nt_seps rt) (nt_addrs rt)" "encodable (nt_seps rt)"
    and g: "good_node K (cutl (length (nt_seps lt) - 1) (joined lt (ss ! j) rt))" "good_node K (cutr (length (nt_seps lt) - 1) (joined lt (ss ! j) rt))"
  shows "rotated cd cp m ss as j (joined lt (ss ! j) rt) (length (nt_seps lt) - 1) H env (balance_from_left cd self hc (Suc j) left env)"
proof -
  let ?t = "joined lt (ss ! j) rt" and ?q = "length (nt_seps lt) - 1" and ?ls = "nt_seps lt" and ?la = "nt_addrs lt"
  have hl: "node_has left ?ls ?la" using l by (simp add: node_is_def)
  have sl: "if hc then length ?la = Suc (length ?ls) else ?la = []" "if hc then length (nt_addrs rt) = Suc (length (nt_seps rt)) else nt_addrs rt = []"
    using sib by (simp_all add: siblings_def split: if_splits)
  obtain c left1 where c: "(if hc then and_then (remove_child (length ?ls - Suc 0 + 1) left) (\<lambda>(c, left). Ok (Some c, left)) else Ok (None, left)) = Ok (c, left1)"
      "node_has left1 ?ls (take (length ?ls) ?la)" "carried hc c (?la ! length ?ls)"
    by (rule child_off_back [OF hl sl(1), of "length ?ls - Suc 0 + 1"]) (use l(2) in simp_all)
  obtain s2 left2 where s2: "remove_separator (length ?ls - 1) left1 = Ok (s2, left2)" "sp_separator s2 = Some (last ?ls)"
      "node_has left2 (butlast ?ls) (take (length ?ls) ?la)" "nd_changed left2"
    by (rule node_pop_back [OF c(2) l(2)])
  obtain sep self1 self2 where sep: "remove_separator j self = Ok (sep, self1)" "sp_separator sep = Some (ss ! j)"
      "set_separator j s2 self1 = Ok self2" "node_has self2 (ss[j := last ?ls]) as" "nd_changed self2"
    by (rule node_replace_separator [OF n(1,3) s2(2)])
  have j: "Suc j < length as" using n by simp
  obtain right where fetch: "env_fetch_child cd self2 (Suc j) env = Ok (Some right)" "node_is right rt"
    by (rule fetch_sibling [OF r sep(4) j rt(1,3,4)])
  obtain right' where right': "\<And>f :: node \<Rightarrow> (node \<times> tree_env) result. and_then (shift_from 0 hc True right) (\<lambda>n.
        and_then (case c of Some c \<Rightarrow> set_child 0 c n | None \<Rightarrow> Ok n) (\<lambda>n. and_then (set_separator 0 sep n) f)) = f right'"
      "node_has right' (ss ! j # nt_seps rt) (if hc then ?la ! length ?ls # nt_addrs rt else [])" "nd_changed right'"
    using separator_on_front [OF fetch(2) [unfolded node_is_def] sl(2) rt(2) sep(2) c(3)] by blast
  have "drop (length ?ls) ?la = [?la ! length ?ls]" if hc using that sl(1) Cons_nth_drop_Suc [of "length ?ls" ?la] by simp
  then have cut: "node_is left2 (cutl ?q ?t)" "node_is right' (cutr ?q ?t)" using s2(3) right'(2) l(2) sl
    by (cases hc; simp add: node_is_def cutl_def cutr_def joined_def butlast_conv_take)+
  have q: "nt_seps ?t ! ?q = last ?ls" using l(2) by (simp add: nth_append last_conv_nth)
  obtain self' al ar env' H' where w: "and_then (write_child cd self2 j left2 env) (\<lambda>(self, env). write_child cd self (Suc j) right' env) = Ok (self', env')"
    "node_has self' (ss[j := last ?ls]) (as[j := al, Suc j := ar])" "nd_changed self2 \<longrightarrow> nd_changed self'"
    "xfer H {#as ! j, as ! Suc j#} H' {#al, ar#}" "H' al = Some (1, tbytes (cutl ?q ?t))" "H' ar = Some (1, tbytes (cutr ?q ?t))"
    "ready cd cp env' H' m" "same_env env env'"
    by (rule write_pair [OF p r sep(4) j o cut g s2(4) right'(3)])
  have li: "last_separator_index left = Some (length ?ls - 1)" using last_separator_index_has [OF hl] l(2) by simp
  have "balance_from_left cd self hc (Suc j) left env = Ok (self', env')"
    using w(1) li c(1) s2(1) sep(1,3) fetch by (simp add: balance_from_left_def unwrap_def right'(1) split del: if_split)
  then show ?thesis using w sep(5) unfolding rotated_def q by auto
qed

lemma balance_from_right_spec:
  assumes p: "params cd K u" and r: "ready cd cp env H (m + u + u)" and n: "node_has self ss as" "length as = Suc (length ss)" "j < length ss"
    and o: "owns H {#as ! j, as ! Suc j#}" and sib: "siblings hc lt rt" and rt: "node_is right rt" "nt_seps rt \<noteq> []"
    and l: "H (as ! j) = Some (1, tbytes lt)" "length (nt_seps lt) < 8" "shaped (nt_seps lt) (nt_addrs lt)" "encodable (nt_seps lt)"
    and g: "good_node K (cutl (Suc (length (nt_seps lt))) (joined lt (ss ! j) rt))" "good_node K (cutr (Suc (length (nt_seps lt))) (joined lt (ss ! j) rt))"
  shows "rotated cd cp m ss as j (joined lt (ss ! j) rt) (Suc (length (nt_seps lt))) H env (balance_from_right cd self hc j right env)"
proof -
  let ?t = "joined lt (ss ! j) rt" and ?q = "Suc (length (nt_seps lt))" and ?ls = "nt_seps lt" and ?la = "nt_addrs lt" and ?ra = "nt_addrs rt"
  obtain x rs where rs: "nt_seps rt = x # rs" using rt(2) by (cases "nt_seps rt") auto
  have hr: "node_has right (x # rs) ?ra" using rt(1) rs by (simp add: node_is_def)
  have sl: "if hc then length ?la = Suc (length ?ls) else ?la = []" "if hc then length ?ra = Suc (Suc (length rs)) else ?ra = []"
    using sib rs by (simp_all add: siblings_def split: if_splits)
  obtain c right0 s2 right1 where o1: "(if hc then and_then (remove_child 0 right) (\<lambda>(c, n). Ok (Some c, n)) else Ok (None, right)) = Ok (c, right0)"
      "remove_separator 0 right0 = Ok (s2, right1)"
    and c: "sp_separator s2 = Some x" "carried hc c (hd ?ra)" "node_has (remove_from 0 hc True right1) rs (drop 1 ?ra)" "nd_changed (remove_from 0 hc True right1)"
    by (rule separator_off_front [OF hr sl(2)])
  let ?right2 = "remove_from 0 hc True right1"
  obtain sep self1 self2 where sep: "remove_separator j self = Ok (sep, self1)" "sp_separator sep = Some (ss ! j)"
      "set_separator j s2 self1 = Ok self2" "node_has self2 (ss[j := x]) as" "nd_changed self2"
    by (rule node_replace_separator [OF n(1,3) c(1)])
  have j: "j < length as" "Suc j < length as" using n by simp_all
  obtain left where fetch: "env_fetch_child cd self2 j env = Ok (Some left)" "node_is left lt"
    by (rule fetch_sibling [OF r sep(4) j(1) l(1,3,4)])
  note hl = fetch(2) [unfolded node_is_def]
  obtain left' where left': "\<And>f :: node \<Rightarrow> (node \<times> tree_env) result. and_then (set_separator (length ?ls) sep left) (\<lambda>n.
        and_then (case c of Some c \<Rightarrow> set_child (length ?ls + 1) c n | None \<Rightarrow> Ok n) f) = f left'"
      "node_has left' (?ls @ [ss ! j]) (if hc then ?la @ [hd ?ra] else [])" "nd_changed left'"
    using separator_on_back [OF hl sl(1) l(2) sep(2) c(2)] by blast
  have "take 1 ?ra = [hd ?ra]" if hc using that sl(2) by (cases ?ra) auto
  then have cut: "node_is left' (cutl ?q ?t)" "node_is ?right2 (cutr ?q ?t)" using left'(2) c(3) sl rs
    by (cases hc; simp add: node_is_def cutl_def cutr_def joined_def)+
  have q: "nt_seps ?t ! ?q = x" using rs by (simp add: nth_append)
  obtain self' al ar env' H' where w: "and_then (write_child cd self2 j left' env) (\<lambda>(self, env). write_child cd self (Suc j) ?right2 env) = Ok (self', env')"
    "node_has self' (ss[j := x]) (as[j := al, Suc j := ar])" "nd_changed self2 \<longrightarrow> nd_changed self'"
    "xfer H {#as ! j, as ! Suc j#} H' {#al, ar#}" "H' al = Some (1, tbytes (cutl ?q ?t))" "H' ar = Some (1, tbytes (cutr ?q ?t))"
    "ready cd cp env' H' m" "same_env env env'"
    by (rule write_pair [OF p r sep(4) j(2) o cut g left'(3) c(4)])
  have "balance_from_right cd self hc j right env = Ok (self', env')"
    using w(1) [unfolded Suc_eq_plus1] sep(1,3) fetch(1) o1
    by (simp add: balance_from_right_def unwrap_def number_separator_has [OF hl] left'(1) Let_def split del: if_split)
  then show ?thesis using w sep(5) unfolding rotated_def q by auto
qed

section \<open>Merging\<close>

lemma merge_loop_spec:
  assumes "node_has left ls la" "length ls + (k - i) \<le> 8" "hc \<longrightarrow> length la = length ls" "\<not> hc \<longrightarrow> la = []"
    and "array_sizes right" "\<forall>j. i \<le> j \<and> j < k \<longrightarrow> sep_list right ! j = Some (rs ! j)"
    and "hc \<longrightarrow> (\<forall>j. i \<le> j \<and> j \<le> k \<longrightarrow> kid_list right ! j = Some (ra ! j))" "i \<le> k" "k \<le> 8"
  shows "\<exists>left' right'. merge_loop hc [i..<k] (length ls) left right = Ok (length ls + (k - i), left', right') \<and>
    node_has left' (ls @ map ((!) rs) [i..<k]) (if hc then la @ map ((!) ra) [i..<k] else []) \<and> array_sizes right' \<and>
    (hc \<longrightarrow> kid_list right' ! k = Some (ra ! k)) \<and> (i < k \<or> nd_changed left \<longrightarrow> nd_changed left')"
  using assms
proof (induction "k - i" arbitrary: i left right ls la)
  case 0
  then show ?case by (auto simp: node_has_def)
next
  case (Suc n)
  then have i: "i < k" "i < 8" "i < 9" "[i..<k] = i # [Suc i..<k]" by (simp_all add: upt_conv_Cons)
  obtain c right1 where 1: "(if hc then and_then (remove_child i right) (\<lambda>(c, right). Ok (Some c, right)) else Ok (None, right)) = Ok (c, right1)"
      "array_sizes right1" "sep_list right1 = sep_list right" "kid_list right1 = (if hc then (kid_list right)[i := None] else kid_list right)" "carried hc c (ra ! i)"
  proof (cases hc)
    case True
    obtain c right1 where "remove_child i right = Ok (c, right1)" "ch_entry_index c = kid_list right ! i" "array_sizes right1"
        "sep_list right1 = sep_list right" "kid_list right1 = (kid_list right)[i := None]"
      by (rule remove_child_lists [OF Suc.prems(5) i(3)])
    with True Suc.prems(7) i(1) show ?thesis by (intro that [of "Some c" right1]) simp_all
  next
    case False
    with Suc.prems(5) show ?thesis by (intro that [of None right]) simp_all
  qed
  obtain sep right2 where 2: "remove_separator i right1 = Ok (sep, right2)" "sp_separator sep = sep_list right1 ! i" "array_sizes right2"
      "sep_list right2 = (sep_list right1)[i := None]" "kid_list right2 = kid_list right1"
    by (rule remove_separator_lists [OF 1(2) i(2)])
  have s: "sp_separator sep = Some (rs ! i)" "length ls < 8" using 2(2) 1(3) Suc.prems(2,6) i(1) by simp_all
  obtain left1 where 3: "set_separator (length ls) sep left = Ok left1" "node_has left1 (ls @ [rs ! i]) la" "nd_changed left1"
    by (rule node_push_back [OF Suc.prems(1) s(2,1)])
  obtain left2 where 4: "(case c of Some c \<Rightarrow> set_child (length ls) c left1 | None \<Rightarrow> Ok left1) = Ok left2"
      "node_has left2 (ls @ [rs ! i]) (if hc then la @ [ra ! i] else [])" "nd_changed left2"
  proof (cases hc)
    case True
    then obtain c' where c': "c = Some c'" "ch_entry_index c' = Some (ra ! i)" using 1(5) by auto
    have len: "length la = length ls" "length la < 9" using True Suc.prems(3) s(2) by simp_all
    obtain left2 where "set_child (length la) c' left1 = Ok left2" "node_has left2 (ls @ [rs ! i]) (la @ [ra ! i])" "nd_changed left2"
      by (rule node_push_back_child [OF 3(2) len(2) c'(2)])
    with True c' len show ?thesis by (intro that [of left2]) simp_all
  next
    case False
    with 1(5) 3 Suc.prems(4) show ?thesis by (intro that [of left1]) simp_all
  qed
  have l: "length (sep_list right) = 8" "length (kid_list right) = 9" using Suc.prems(5) by (simp_all add: array_sizes_def)
  have "\<exists>left' right'. merge_loop hc [Suc i..<k] (length (ls @ [rs ! i])) left2 right2 = Ok (length (ls @ [rs ! i]) + (k - Suc i), left', right') \<and>
    node_has left' ((ls @ [rs ! i]) @ map ((!) rs) [Suc i..<k]) (if hc then (if hc then la @ [ra ! i] else []) @ map ((!) ra) [Suc i..<k] else []) \<and> array_sizes right' \<and>
    (hc \<longrightarrow> kid_list right' ! k = Some (ra ! k)) \<and> (Suc i < k \<or> nd_changed left2 \<longrightarrow> nd_changed left')"
    by (rule Suc.hyps(1) [OF _ 4(2) _ _ _ 2(3)]) (use Suc.hyps(2) Suc.prems i(1) 1(3,4) 2(4,5) l in auto)
  then obtain left' right' where 5: "merge_loop hc [Suc i..<k] (Suc (length ls)) left2 right2 = Ok (length ls + (k - i), left', right')"
      "node_has left' (ls @ map ((!) rs) [i..<k]) (if hc then la @ map ((!) ra) [i..<k] else [])" "array_sizes right'"
      "hc \<longrightarrow> kid_list right' ! k = Some (ra ! k)" "nd_changed left'"
    by (elim exE conjE) (use i(1,4) 4(3) in \<open>cases hc; simp\<close>)
  have "merge_loop hc [i..<k] (length ls) left right = Ok (length ls + (k - i), left', right')"
    using i(4) 1(1) 2(1) 3(1) 4(1) 5(1) by (simp split del: if_split)
  with 5(2-5) show ?case by blast
qed

lemma merged_left:
  assumes l: "node_is left lt" and r: "node_is right rt" and sib: "siblings hc lt rt" and s: "sp_separator sep = Some x"
    and len: "length (nt_seps lt) + length (nt_seps rt) < 8"
  obtains left1 left2 right2 left3 where "set_separator (length (nt_seps lt)) sep left = Ok left1"
    "merge_loop hc [0..<length (nt_seps rt)] (length (nt_seps lt) + 1) left1 right = Ok (length (nt_seps lt) + 1 + length (nt_seps rt), left2, right2)"
    "(if hc then and_then (remove_child (length (nt_seps rt)) right2) (\<lambda>(c, right). set_child (Suc (length (nt_seps lt) + length (nt_seps rt))) c left2)
      else Ok left2) = Ok left3"
    "node_is left3 (joined lt x rt)" "nd_changed left3"
proof -
  let ?ls = "nt_seps lt" and ?la = "nt_addrs lt" and ?rs = "nt_seps rt" and ?ra = "nt_addrs rt"
  note h = l [unfolded node_is_def] and hr = r [unfolded node_is_def]
  note f = hr [unfolded node_has_fill]
  have sl: "hc \<longrightarrow> length ?la = Suc (length ?ls) \<and> length ?ra = Suc (length ?rs)" "\<not> hc \<longrightarrow> ?la = [] \<and> ?ra = []"
    using sib by (auto simp: siblings_def)
  have l8: "length ?ls < 8" using len by simp
  obtain left1 where 1: "set_separator (length ?ls) sep left = Ok left1" "node_has left1 (?ls @ [x]) ?la" "nd_changed left1"
    by (rule node_push_back [OF h l8 s])
  have "\<exists>left' right'. merge_loop hc [0..<length ?rs] (length (?ls @ [x])) left1 right = Ok (length (?ls @ [x]) + (length ?rs - 0), left', right') \<and>
    node_has left' ((?ls @ [x]) @ map ((!) ?rs) [0..<length ?rs]) (if hc then ?la @ map ((!) ?ra) [0..<length ?rs] else []) \<and> array_sizes right' \<and>
    (hc \<longrightarrow> kid_list right' ! length ?rs = Some (?ra ! length ?rs)) \<and> (0 < length ?rs \<or> nd_changed left1 \<longrightarrow> nd_changed left')"
    by (rule merge_loop_spec [OF 1(2)]) (use len sl f node_has_sizes [OF hr] in \<open>auto simp: fill_nth\<close>)
  then obtain left2 right2 where 2: "merge_loop hc [0..<length ?rs] (length ?ls + 1) left1 right = Ok (length ?ls + 1 + length ?rs, left2, right2)"
      "node_has left2 (?ls @ x # ?rs) (if hc then ?la @ map ((!) ?ra) [0..<length ?rs] else [])" "array_sizes right2"
      "hc \<longrightarrow> kid_list right2 ! length ?rs = Some (?ra ! length ?rs)" "nd_changed left2"
    using 1(3) map_nth [of ?rs] by auto
  obtain left3 where 3: "(if hc then and_then (remove_child (length ?rs) right2) (\<lambda>(c, right). set_child (Suc (length ?ls + length ?rs)) c left2)
      else Ok left2) = Ok left3" "node_is left3 (joined lt x rt)" "nd_changed left3"
  proof (cases hc)
    case True
    obtain c right3 where c: "remove_child (length ?rs) right2 = Ok (c, right3)" "ch_entry_index c = kid_list right2 ! length ?rs"
      by (rule remove_child_lists [OF 2(3), of "length ?rs"]) (use len in simp)
    have c': "ch_entry_index c = Some (?ra ! length ?rs)" using c(2) 2(4) True by simp
    let ?as = "?la @ map ((!) ?ra) [0..<length ?rs]"
    have "?ra = map ((!) ?ra) [0..<Suc (length ?rs)]" using map_nth [of ?ra] sl True by simp
    then have a: "?as @ [?ra ! length ?rs] = ?la @ ?ra" "length ?as = length ?ls + 1 + length ?rs" using sl True by simp_all
    have h2: "node_has left2 (?ls @ x # ?rs) ?as" using 2(2) True by simp
    have "length ?as < 9" using a(2) len by simp
    then obtain left3 where "set_child (length ?as) c left2 = Ok left3" "node_has left3 (?ls @ x # ?rs) (?as @ [?ra ! length ?rs])" "nd_changed left3"
      using node_push_back_child [OF h2 _ c'] by blast
    with True c(1) a show ?thesis by (intro that [of left3]) (simp_all add: node_is_def joined_def)
  next
    case False
    with 2 sl show ?thesis by (intro that [of left2]) (simp_all add: node_is_def joined_def)
  qed
  from 1(1) 2(1) 3 show thesis by (rule that)
qed

definition merged ::
    "codec \<Rightarrow> compress \<Rightarrow> nat \<Rightarrow> separator_inner list \<Rightarrow> address list \<Rightarrow> nat \<Rightarrow> ntree \<Rightarrow> heap \<Rightarrow> tree_env
       \<Rightarrow> (node \<times> tree_env) result \<Rightarrow> bool" where
  "merged cd cp m ss as j t H env res \<longleftrightarrow>
     (\<exists>n a env' H'. res = Ok (n, env') \<and> node_has n (del j ss) (del (Suc j) (as[j := a])) \<and> nd_changed n \<and>
        xfer H {#as ! j, as ! Suc j#} H' {#a#} \<and> H' a = Some (1, tbytes t) \<and> ready cd cp env' H' m \<and> same_env env env')"

text \<open>A node that lost separator \<open>j\<close> and child \<open>j + 1\<close>, before the gaps are closed.\<close>

lemma gap_closed:
  assumes n: "array_sizes n" "sep_list n = (fill 8 ss)[j := None]" "kid_list n = (fill 9 as)[Suc j := None]" "nd_changed n"
    and len: "j < length ss" "length as = Suc (length ss)" "length ss \<le> 8"
  shows "node_has (remove_from j True False (if a = as ! j then n else moved_child n j a)) (del j ss) (del (Suc j) (as[j := a]))"
    "nd_changed (remove_from j True False (if a = as ! j then n else moved_child n j a))"
proof -
  let ?n = "if a = as ! j then n else moved_child n j a"
  have j: "j < length (nd_children n)" using n(1) len by (simp add: array_sizes_def)
  have sz: "array_sizes ?n" using n(1) by (simp add: array_sizes_def moved_child_def)
  have f: "(fill 9 as)[Suc j := None, j := Some a] = (fill 9 (as[j := a]))[Suc j := None]"
    using len by (simp add: fill_upd flip: list_update_swap [of j "Suc j"])
  have "kid_list ?n = (fill 9 (as[j := a]))[Suc j := None]"
    using n(3) f j len by (auto simp: moved_child_def map_update)
  moreover have "sep_list ?n = (fill 8 ss)[j := None]" using n(2) by (simp add: moved_child_def)
  ultimately show "node_has (remove_from j True False ?n) (del j ss) (del (Suc j) (as[j := a]))"
    using len drop_list_del [of j ss 8] drop_list_del [of "Suc j" "as[j := a]" 9]
    by (simp add: node_has_fill remove_from_lists [OF sz] del: if_split)
  show "nd_changed (remove_from j True False ?n)" by (rule remove_from_lists(3) [OF sz])
qed

lemma merge_children_spec:
  assumes p: "params cd K u" and r: "ready cd cp env H (m + u)" and n: "node_has self ss as" "length as = Suc (length ss)" "j < length ss"
    and o: "owns H {#as ! j, as ! Suc j#}" and sib: "siblings hc lt rt" and l: "node_is left lt" "node_is right rt"
    and len: "length (nt_seps lt) + length (nt_seps rt) < 8" and g: "good_node K (joined lt (ss ! j) rt)"
  shows "merged cd cp m ss as j (joined lt (ss ! j) rt) H env (merge_children cd self hc j (Suc j) (Some left) (Some right) env)"
proof -
  let ?t = "joined lt (ss ! j) rt"
  note f = n(1) [unfolded node_has_fill]
  have l8: "j < 8" "Suc j < 9" using n(3) f by simp_all
  obtain sep self1 where 1: "remove_separator j self = Ok (sep, self1)" "sp_separator sep = sep_list self ! j" "array_sizes self1"
      "sep_list self1 = (sep_list self)[j := None]" "kid_list self1 = kid_list self" "nd_changed self1"
    by (rule remove_separator_lists [OF node_has_sizes [OF n(1)] l8(1)])
  have sep: "sp_separator sep = Some (ss ! j)" using 1(2) f n(3) by (simp add: fill_nth)
  obtain left1 left2 right2 left3 where 2: "set_separator (length (nt_seps lt)) sep left = Ok left1"
    "merge_loop hc [0..<length (nt_seps rt)] (length (nt_seps lt) + 1) left1 right = Ok (length (nt_seps lt) + 1 + length (nt_seps rt), left2, right2)"
    "(if hc then and_then (remove_child (length (nt_seps rt)) right2) (\<lambda>(c, right). set_child (Suc (length (nt_seps lt) + length (nt_seps rt))) c left2)
      else Ok left2) = Ok left3"
    "node_is left3 ?t" "nd_changed left3"
    by (rule merged_left [OF l sib sep len])
  obtain c self2 where 3: "remove_child (Suc j) self1 = Ok (c, self2)" "ch_entry_index c = kid_list self1 ! Suc j" "array_sizes self2"
      "sep_list self2 = sep_list self1" "kid_list self2 = (kid_list self1)[Suc j := None]" "nd_changed self2"
    by (rule remove_child_lists [OF 1(3) l8(2)])
  have c: "ch_entry_index c = Some (as ! Suc j)" using 3(2) 1(5) f n(2,3) by (simp add: fill_nth)
  have "owns H ({#as ! Suc j#} + {#as ! j#})" using o by (simp add: add_mset_commute)
  then have h: "H (as ! Suc j) \<noteq> None" "owns H ({#as ! Suc j#} + {#as ! j#})" by (auto simp: owns_def domIff)
  obtain env1 H1 where 4: "write_plan_remove_node cd (as ! Suc j) env = Ok env1" "xfer H {#as ! Suc j#} H1 {#}" "ready cd cp env1 H1 (m + u)" "same_env env env1"
    by (rule node_drop [OF r h(1)])
  note f1 = xfer_frame [OF 4(2) h(2)]
  have "as ! j \<in> dom H1" using f1(1) by (simp add: xfer_def owns_def)
  then have a1: "H1 (as ! j) \<noteq> None" by (simp add: domIff)
  have k: "j < length (nd_children self2)" "ch_entry_index (nd_children self2 ! j) = Some (as ! j)"
  proof -
    show j: "j < length (nd_children self2)" using 3(3) l8 by (simp add: array_sizes_def)
    then have "ch_entry_index (nd_children self2 ! j) = kid_list self2 ! j" by simp
    also have "\<dots> = Some (as ! j)" unfolding 3(5) 1(5) using f n(2,3) by (simp add: fill_nth)
    finally show "ch_entry_index (nd_children self2 ! j) = Some (as ! j)" .
  qed
  obtain a env2 H2 where 5: "write_child cd self2 j left3 env1 = Ok (if a = as ! j then self2 else moved_child self2 j a, env2)"
    "xfer H1 {#as ! j#} H2 {#a#}" "H2 a = Some (1, tbytes ?t)" "ready cd cp env2 H2 m" "same_env env1 env2"
    using 2(4) unfolding node_is_def tbytes_def by (rule write_child_raw [OF p 4(3) k _ g a1]) (use 2(5) in blast)+
  have s2: "sep_list self2 = (fill 8 ss)[j := None]" "kid_list self2 = (fill 9 as)[Suc j := None]" using 1(4,5) 3(4,5) f by simp_all
  note gc = gap_closed [OF 3(3) s2 3(6) n(3,2), of a]
  have "merge_children cd self hc j (Suc j) (Some left) (Some right) env =
      Ok (remove_from j True False (if a = as ! j then self2 else moved_child self2 j a), env2)"
    using 1(1) 2(1-3) 3(1) 4(1) 5(1) c number_separator_has [OF l(1) [unfolded node_is_def]] number_separator_has [OF l(2) [unfolded node_is_def]]
    by (simp add: merge_children_def unwrap_def Let_def split del: if_split)
  moreover have "xfer H {#as ! j, as ! Suc j#} H2 {#a#}" using xfer_trans [OF f1(1)] 5(2) by (simp add: add_mset_commute)
  ultimately show ?thesis unfolding merged_def using gc f 5(3,4) same_env_trans [OF 4(4) 5(5)] by blast
qed

end
