(* ===== verification/Btree_Rebalance.thy ===== *)
theory Btree_Rebalance
  imports Btree_Balance
begin

text \<open>
  \<open>rebalance\<close> on stored trees: a node with one child that lost a separator too many gets children that
  are all at least half full, with the same separators in the same order.
\<close>

section \<open>Redistributed neighbours\<close>

lemma pair_lists:
  assumes "Suc j < length xs"
  shows "xs = take j xs @ xs ! j # xs ! Suc j # drop (Suc (Suc j)) xs"
    "xs[j := x, Suc j := y] = take j xs @ x # y # drop (Suc (Suc j)) xs"
    "del (Suc j) (xs[j := x]) = take j xs @ x # drop (Suc (Suc j)) xs"
proof -
  show xs: "xs = take j xs @ xs ! j # xs ! Suc j # drop (Suc (Suc j)) xs"
    using assms by (simp add: Cons_nth_drop_Suc)
  have j: "length (take j xs) = j" using assms by simp
  have "(take j xs @ xs ! j # xs ! Suc j # drop (Suc (Suc j)) xs)[j := x, Suc j := y] = take j xs @ x # y # drop (Suc (Suc j)) xs"
    using j by (simp add: list_update_append)
  then show "xs[j := x, Suc j := y] = take j xs @ x # y # drop (Suc (Suc j)) xs" using xs by simp
  have "take (Suc j) (xs[j := x]) = take j xs @ [x]" using assms by (simp add: take_Suc_conv_app_nth)
  then show "del (Suc j) (xs[j := x]) = take j xs @ x # drop (Suc (Suc j)) xs" by (simp add: del_def)
qed

lemma single_lists: "j < length xs \<Longrightarrow> xs = take j xs @ xs ! j # drop (Suc j) xs" "j < length xs \<Longrightarrow> xs[j := x] = take j xs @ x # drop (Suc j) xs"
  by (simp_all add: id_take_nth_drop upd_conv_take_nth_drop)

lemma value_not_node:
  assumes "owns H (foot (Branch ss as cs))" "bal d (Branch ss as cs)" "s \<in> set (inorder (Branch ss as cs))"
  shows "si_value s \<notin> set as" "H (si_value s) \<noteq> None"
proof -
  have f: "foot (Branch ss as cs) = (vals ss + sum_list (map foot cs)) + mset as" by simp
  have "owns H ((vals ss + sum_list (map foot cs)) + mset as)" using assms(1) unfolding f .
  then have d: "set_mset (vals ss + sum_list (map foot cs)) \<inter> set as = {}" "owns H (vals ss + sum_list (map foot cs))"
    unfolding owns_union [of H _ "mset as"] by simp_all
  have "si_value s \<in># vals ss + sum_list (map foot cs)"
  proof (cases d)
    case 0
    then show ?thesis using assms by simp
  next
    case (Suc d')
    have "s \<in> set ss \<or> (\<exists>c\<in>set cs. s \<in> set (inorder c))"
      using assms(2,3) Suc set_weave [of "map inorder cs" ss] by auto
    then show ?thesis using assms(2) Suc by (auto simp: in_sum_list dest: inorder_values [of d'])
  qed
  then show "si_value s \<notin> set as" "H (si_value s) \<noteq> None" using d by (auto simp: owns_def domIff)
qed

lemma cont_same:
  assumes "owns H (foot (Branch ss as cs))" "bal d (Branch ss as cs)" "xfer H M H' M'" "set_mset M \<subseteq> set as"
  shows "cont H' (inorder (Branch ss as cs)) = cont H (inorder (Branch ss as cs))"
proof -
  have "\<forall>a\<in>#vals (inorder (Branch ss as cs)). H' a = H a"
  proof
    fix a assume "a \<in># vals (inorder (Branch ss as cs))"
    then obtain s where "s \<in> set (inorder (Branch ss as cs))" "a = si_value s" unfolding set_mset_mset by auto
    with value_not_node [OF assms(1,2)] assms(4) have "a \<notin># M" "H a \<noteq> None" by blast+
    then show "H' a = H a" by (rule xfer_outside(1) [OF assms(3)])
  qed
  then show ?thesis by (rule cont_frame)
qed

lemma joined_parts:
  assumes t: "held H (Branch ss as cs)" "bal (Suc d) (Branch ss as cs)" "j < length ss"
    and t_def: "t = joined (cs ! j) (ss ! j) (cs ! Suc j)"
  shows "bal d t" "siblings (d \<noteq> 0) (cs ! j) (cs ! Suc j)" "owns H ({#as ! j, as ! Suc j#} + foot t)"
    "inorder (Branch ss as cs) = lpart (take j ss) (map inorder (take j cs)) @ inorder t @ rpart (drop (Suc j) ss) (map inorder (drop (Suc (Suc j)) cs))"
proof -
  have len: "Suc j < length as" "Suc j < length cs" "length cs = Suc (length ss)" using t(2,3) by simp_all
  have kids: "bal d (cs ! j)" "bal d (cs ! Suc j)" using t(2) len by simp_all
  show "bal d t" unfolding t_def using kids by (rule joined_bal)
  show "siblings (d \<noteq> 0) (cs ! j) (cs ! Suc j)"
    using kids by (cases d; cases "cs ! j"; cases "cs ! Suc j") (simp_all add: siblings_def)
  have ft: "foot t = foot (cs ! j) + {#si_value (ss ! j)#} + foot (cs ! Suc j)" unfolding t_def by (rule joined_foot)
  have e: "ss = take j ss @ ss ! j # drop (Suc j) ss" "as = take j as @ as ! j # as ! Suc j # drop (Suc (Suc j)) as"
      "cs = take j cs @ cs ! j # cs ! Suc j # drop (Suc (Suc j)) cs"
    using single_lists(1) [OF t(3)] pair_lists(1) [OF len(1)] pair_lists(1) [OF len(2)] by blast+
  have "foot (Branch ss as cs) = foot (Branch (take j ss @ ss ! j # drop (Suc j) ss) (take j as @ as ! j # as ! Suc j # drop (Suc (Suc j)) as)
      (take j cs @ cs ! j # cs ! Suc j # drop (Suc (Suc j)) cs))" using e by simp
  also have "\<dots> = ({#as ! j, as ! Suc j#} + foot t) + (vals (take j ss) + vals (drop (Suc j) ss) + footl (take j as) (take j cs)
      + footl (drop (Suc (Suc j)) as) (drop (Suc (Suc j)) cs))"
    using ft by (simp add: footl_def)
  finally have f: "foot (Branch ss as cs) = \<dots>" .
  have "owns H (foot (Branch ss as cs))" using t(1) unfolding held_def by blast
  then show "owns H ({#as ! j, as ! Suc j#} + foot t)" unfolding f owns_union by blast
  have "inorder t = inorder (cs ! j) @ ss ! j # inorder (cs ! Suc j)" unfolding t_def by (rule joined_inorder [OF kids])
  then show "inorder (Branch ss as cs) = lpart (take j ss) (map inorder (take j cs)) @ inorder t @ rpart (drop (Suc j) ss) (map inorder (drop (Suc (Suc j)) cs))"
    using inorder_focus [of "take j ss" "take j cs" "ss ! j # drop (Suc j) ss" as "cs ! j" "cs ! Suc j # drop (Suc (Suc j)) cs"] e len by simp
qed

text \<open>Two neighbours and the separator between them become other neighbours with the same join.\<close>

lemma neighbours_replaced:
  assumes t: "held H (Branch ss as cs)" "bal (Suc d) (Branch ss as cs)" "j < length ss"
    and t_def: "t = joined (cs ! j) (ss ! j) (cs ! Suc j)" and x: "xfer H {#as ! j, as ! Suc j#} H' (mset as')"
    and n: "length as' = length cs'" "list_all2 (\<lambda>a c. H' a = Some (1, tbytes c)) as' cs'" "\<forall>c\<in>set cs'. stored H c"
      "vals ss' + sum_list (map foot cs') = foot t" "weave ss' (map inorder cs') = inorder t"
      "length cs' = Suc (length ss')" "\<forall>c\<in>set cs'. bal d c"
  defines "t' \<equiv> Branch (take j ss @ ss' @ drop (Suc j) ss) (take j as @ as' @ drop (Suc (Suc j)) as) (take j cs @ cs' @ drop (Suc (Suc j)) cs)"
  shows "held H' t'" "xfer H (foot (Branch ss as cs)) H' (foot t')" "inorder t' = inorder (Branch ss as cs)"
    "cont H' (inorder t') = cont H (inorder t')" "bal (Suc d) t'"
proof -
  have len: "length as = length cs" "Suc j < length as" "Suc j < length cs" "length cs = Suc (length ss)" using t(2,3) by simp_all
  note e = single_lists(1) [OF t(3)] pair_lists(1) [OF len(2)] pair_lists(1) [OF len(3)]
  have h: "held H (Branch (take j ss @ [ss ! j] @ drop (Suc j) ss) (take j as @ [as ! j, as ! Suc j] @ drop (Suc (Suc j)) as)
      (take j cs @ [cs ! j, cs ! Suc j] @ drop (Suc (Suc j)) cs))"
    using t(1) e by simp
  have ft: "foot t = foot (cs ! j) + {#si_value (ss ! j)#} + foot (cs ! Suc j)" unfolding t_def by (rule joined_foot)
  note jp = joined_parts [OF t(1-3) t_def]
  note fr = xfer_frame [OF x jp(3)]
  have m: "vals [ss ! j] + footl [as ! j, as ! Suc j] [cs ! j, cs ! Suc j] = {#as ! j, as ! Suc j#} + foot t"
    "vals ss' + footl as' cs' = mset as' + foot t" using ft n(4) by (simp_all add: footl_def ac_simps)
  have st: "stored H' c" if "c \<in> set cs'" for c
  proof (rule stored_frame)
    show "stored H c" using n(3) that by blast
    have "set_mset (foot c) \<subseteq> set_mset (foot t)" unfolding n(4) [symmetric] using that by (auto simp: in_sum_list)
    then show "\<forall>a\<in>#foot c. H' a = H a" using fr(2) by blast
  qed
  have "heldl H' as' cs'" unfolding heldl_def using n(2) st by blast
  note hm = held_middle [OF h _ _ n(1), where E = "{#}", simplified add_0_right, OF _ _ fr(1) [folded m] this]
  show "held H' t'" unfolding t'_def by (rule hm(1)) (use len in simp_all)
  show "xfer H (foot (Branch ss as cs)) H' (foot t')" using hm(2) len e unfolding t'_def by simp
  obtain c0 cs0 where cs': "cs' = c0 # cs0" "length ss' = length cs0" using n(6) by (cases cs') auto
  have "inorder t' = lpart (take j ss) (map inorder (take j cs)) @ (inorder c0 @ rpart ss' (map inorder cs0)) @ rpart (drop (Suc j) ss) (map inorder (drop (Suc (Suc j)) cs))"
    unfolding t'_def cs' using len cs'(2) inorder_focus [of "take j ss" "take j cs" "ss' @ drop (Suc j) ss" _ c0 "cs0 @ drop (Suc (Suc j)) cs"] by simp
  also have "inorder c0 @ rpart ss' (map inorder cs0) = inorder t" using n(5) unfolding cs' by (simp add: weave_Cons del: weave.simps)
  also note jp(4) [symmetric]
  finally show it: "inorder t' = inorder (Branch ss as cs)" .
  show "cont H' (inorder t') = cont H (inorder t')"
    unfolding it using t len by (intro cont_same [OF _ t(2) x]) (simp_all add: held_def)
  show "bal (Suc d) t'" using t(2) len n(1,6,7) unfolding t'_def by (auto dest: in_set_takeD in_set_dropD)
qed

section \<open>Rebalancing a node\<close>

definition rebalanced :: "codec \<Rightarrow> compress \<Rightarrow> nat \<Rightarrow> nat \<Rightarrow> ntree \<Rightarrow> heap \<Rightarrow> tree_env \<Rightarrow> (node \<times> tree_env) result \<Rightarrow> bool" where
  "rebalanced cd cp m d t H env res \<longleftrightarrow>
     (\<exists>n t' env' H'. res = Ok (n, env') \<and> node_is n t' \<and> nd_changed n \<and> bal (Suc d) t' \<and> kids_fat t' \<and> inorder t' = inorder t \<and>
        held H' t' \<and> xfer H (foot t) H' (foot t') \<and> cont H' (inorder t') = cont H (inorder t') \<and>
        length (nt_seps t) \<le> Suc (length (nt_seps t')) \<and> ready cd cp env' H' m \<and> same_env env env')"

lemma rebalancedI:
  assumes "res = Ok (n, env')" "nd_changed n" "ready cd cp env' H' m" "same_env env env'" "node_is n t'" "kids_fat t'"
    and "length (nt_seps t) \<le> Suc (length (nt_seps t'))" "held H' t'" "xfer H (foot t) H' (foot t')" "inorder t' = inorder t"
    "cont H' (inorder t') = cont H (inorder t')" "bal (Suc d) t'"
  shows "rebalanced cd cp m d t H env res"
  unfolding rebalanced_def using assms by blast

lemma rebalanced_mono: "rebalanced cd cp n d t H env res \<Longrightarrow> m \<le> n \<Longrightarrow> rebalanced cd cp m d t H env res"
  unfolding rebalanced_def using ready_mono by blast

lemma other_kids:
  assumes "\<forall>i<length cs. i \<noteq> j \<and> i \<noteq> Suc j \<longrightarrow> fat (cs ! i)" "c \<in> set (take j cs) \<union> set (drop (Suc (Suc j)) cs)"
  shows "fat c"
  using assms by (auto simp: in_set_conv_nth)

lemma rotated_rebalanced:
  assumes t: "held H (Branch ss as cs)" "bal (Suc d) (Branch ss as cs)" "j < length ss" "length ss \<le> 8"
    and f: "\<forall>i<length cs. i \<noteq> j \<and> i \<noteq> Suc j \<longrightarrow> fat (cs ! i)"
    and t_def: "t = joined (cs ! j) (ss ! j) (cs ! Suc j)" and q: "q < length (nt_seps t)" "fat (cutl q t)" "fat (cutr q t)"
    and r: "rotated cd cp m ss as j t q H env res"
  shows "rebalanced cd cp m d (Branch ss as cs) H env res"
proof -
  obtain n al ar env' H' where o: "res = Ok (n, env')" "node_has n (ss[j := nt_seps t ! q]) (as[j := al, Suc j := ar])" "nd_changed n"
      "xfer H {#as ! j, as ! Suc j#} H' {#al, ar#}" "H' al = Some (1, tbytes (cutl q t))" "H' ar = Some (1, tbytes (cutr q t))"
      "ready cd cp env' H' m" "same_env env env'"
    using r unfolding rotated_def by blast
  have len: "Suc j < length as" "Suc j < length cs" using t(2,3) by simp_all
  have kids: "bal d (cs ! j)" "bal d (cs ! Suc j)" "stored H (cs ! j)" "stored H (cs ! Suc j)" using t(1,2) len by (simp_all add: held_def)
  have tb: "bal d t" "stored H t" unfolding t_def using kids by (simp_all add: joined_bal joined_stored)
  have x: "xfer H {#as ! j, as ! Suc j#} H' (mset [al, ar])" using o(4) by simp
  note nr = neighbours_replaced [OF t(1-3) t_def x, of "[cutl q t, cutr q t]" "[nt_seps t ! q]"]
  have cuts: "length [al, ar] = length [cutl q t, cutr q t]" "list_all2 (\<lambda>a c. H' a = Some (1, tbytes c)) [al, ar] [cutl q t, cutr q t]"
      "\<forall>c\<in>set [cutl q t, cutr q t]. stored H c" "vals [nt_seps t ! q] + sum_list (map foot [cutl q t, cutr q t]) = foot t"
      "weave [nt_seps t ! q] (map inorder [cutl q t, cutr q t]) = inorder t" "length [cutl q t, cutr q t] = Suc (length [nt_seps t ! q])"
      "\<forall>c\<in>set [cutl q t, cutr q t]. bal d c"
    using o(5,6) cut_stored [OF tb(2)] cut_foot [OF q(1)] cut_inorder [OF tb(1) q(1)] cut_bal [OF tb(1) q(1)] by simp_all
  note nr = nr [OF cuts]
  let ?t = "Branch (take j ss @ [nt_seps t ! q] @ drop (Suc j) ss) (take j as @ [al, ar] @ drop (Suc (Suc j)) as) (take j cs @ [cutl q t, cutr q t] @ drop (Suc (Suc j)) cs)"
  have "node_is n ?t" using o(2) single_lists(2) [OF t(3)] pair_lists(2) [OF len(1)] by (simp add: node_is_def)
  moreover have "kids_fat ?t" using other_kids [OF f] q(2,3) t(3,4) by (auto simp: kids_fat_def)
  ultimately show ?thesis by (rule rebalancedI [OF o(1,3,7,8) _ _ _ nr]) (use t(3) in simp)
qed

lemma merged_rebalanced:
  assumes t: "held H (Branch ss as cs)" "bal (Suc d) (Branch ss as cs)" "j < length ss" "length ss \<le> 8"
    and f: "\<forall>i<length cs. i \<noteq> j \<and> i \<noteq> Suc j \<longrightarrow> fat (cs ! i)"
    and t_def: "t = joined (cs ! j) (ss ! j) (cs ! Suc j)" and q: "fat t"
    and r: "merged cd cp m ss as j t H env res"
  shows "rebalanced cd cp m d (Branch ss as cs) H env res"
proof -
  obtain n a env' H' where o: "res = Ok (n, env')" "node_has n (del j ss) (del (Suc j) (as[j := a]))" "nd_changed n"
      "xfer H {#as ! j, as ! Suc j#} H' {#a#}" "H' a = Some (1, tbytes t)" "ready cd cp env' H' m" "same_env env env'"
    using r unfolding merged_def by blast
  have len: "Suc j < length as" "Suc j < length cs" using t(2,3) by simp_all
  have kids: "bal d (cs ! j)" "bal d (cs ! Suc j)" "stored H (cs ! j)" "stored H (cs ! Suc j)" using t(1,2) len by (simp_all add: held_def)
  have tb: "bal d t" "stored H t" unfolding t_def using kids by (simp_all add: joined_bal joined_stored)
  have x: "xfer H {#as ! j, as ! Suc j#} H' (mset [a])" using o(4) by simp
  have one: "length [a] = length [t]" "list_all2 (\<lambda>a c. H' a = Some (1, tbytes c)) [a] [t]"
      "\<forall>c\<in>set [t]. stored H c" "vals [] + sum_list (map foot [t]) = foot t"
      "weave [] (map inorder [t]) = inorder t" "length [t] = Suc (length [])" "\<forall>c\<in>set [t]. bal d c"
    using o(5) tb by simp_all
  note nr = neighbours_replaced [OF t(1-3) t_def x one]
  let ?t = "Branch (take j ss @ [] @ drop (Suc j) ss) (take j as @ [a] @ drop (Suc (Suc j)) as) (take j cs @ [t] @ drop (Suc (Suc j)) cs)"
  have "node_is n ?t" using o(2) pair_lists(3) [OF len(1)] by (simp add: node_is_def del_def)
  moreover have "kids_fat ?t" using other_kids [OF f] q t(3,4) by (auto simp: kids_fat_def)
  ultimately show ?thesis by (rule rebalancedI [OF o(1,3,6,7) _ _ _ nr]) (use t(3) in simp)
qed

lemma good_tree:
  assumes "bal d t" "length (nt_seps t) \<le> 8" "owns H (foot t)" "H 0 = None" "short_keys K (inorder t)"
  shows "good_node K t" "shaped (nt_seps t) (nt_addrs t)" "encodable (nt_seps t)"
proof -
  note s = tree_shaped [OF assms]
  show "shaped (nt_seps t) (nt_addrs t)" "encodable (nt_seps t)" by (rule s)+
  obtain ss as cs where t: "t = Branch ss as cs" by (cases t)
  have "\<forall>s\<in>set (nt_seps t). length (si_key s) \<le> K" using inorder_seps(1) [OF assms(1) [unfolded t]] assms(5) unfolding t short_keys_def by auto
  with s(1) show "good_node K t" by (simp add: good_def)
qed

lemma cut_good:
  assumes t: "bal d t" "owns H (foot t)" "short_keys K (inorder t)" "H 0 = None" and k: "\<forall>c\<in>set (nt_kids t). fat c"
    and q: "4 \<le> q" "q \<le> 8" "q + 5 \<le> length (nt_seps t)" "length (nt_seps t) \<le> q + 9"
  shows "q < length (nt_seps t)" "good_node K (cutl q t)" "good_node K (cutr q t)" "fat (cutl q t)" "fat (cutr q t)"
proof -
  show l: "q < length (nt_seps t)" using q by simp
  note len = cut_lengths [OF l]
  have o: "owns H (foot (cutl q t))" "owns H (foot (cutr q t))" using t(2) unfolding cut_foot [OF l] owns_union by blast+
  have s: "short_keys K (inorder (cutl q t))" "short_keys K (inorder (cutr q t))" using t(3) unfolding cut_inorder [OF t(1) l] by simp_all
  show "good_node K (cutl q t)" by (rule good_tree(1) [OF cut_bal(1) [OF t(1) l] _ o(1) t(4) s(1)]) (use len q in simp)
  show "good_node K (cutr q t)" by (rule good_tree(1) [OF cut_bal(2) [OF t(1) l] _ o(2) t(4) s(2)]) (use len q in simp)
  show "fat (cutl q t)" "fat (cutr q t)"
    using len q k cut_kids [of q t] by (auto simp: fat_iff [of "cutl q t"] fat_iff [of "cutr q t"])
qed

text \<open>One child has three separators, all other nodes below are at least half full.\<close>

definition lean_at :: "nat \<Rightarrow> ntree list \<Rightarrow> bool" where
  "lean_at i cs \<longleftrightarrow> i < length cs \<and> length (nt_seps (cs ! i)) = 3 \<and> (\<forall>c\<in>set (nt_kids (cs ! i)). fat c) \<and>
     (\<forall>k<length cs. k \<noteq> i \<longrightarrow> fat (cs ! k))"

lemma lean_kids:
  assumes "lean_at i cs" "k < length cs"
  shows "length (nt_seps (cs ! k)) \<le> 8" "\<forall>c\<in>set (nt_kids (cs ! k)). fat c"
  using assms by (cases "k = i"; auto simp: lean_at_def fat_iff [of "cs ! k"])+

lemma fetch_kid_of:
  assumes r: "ready cd cp env H m" and n: "node_is self (Branch ss as cs)" and t: "bal (Suc d) (Branch ss as cs)" "held H (Branch ss as cs)" "short_keys K (inorder (Branch ss as cs))"
    and k: "k < length cs" "length (nt_seps (cs ! k)) \<le> 8"
  obtains c where "env_fetch_child cd self k env = Ok (Some c)" "node_is c (cs ! k)" "\<not> nd_changed c"
    "shaped (nt_seps (cs ! k)) (nt_addrs (cs ! k))" "encodable (nt_seps (cs ! k))" "H (as ! k) = Some (1, tbytes (cs ! k))"
proof -
  have h: "heap_view cd cp (fst env) (env_query env) H" "tr_compression (fst env) = cp" "H 0 = None" "stored H (Branch ss as cs)" "owns H (foot (Branch ss as cs))"
    using r heap_rel_view t(2) by (auto simp: ready_def held_def simp del: foot.simps stored.simps)
  have sk: "short_keys K (inorder (cs ! k))" using short_keys_sub [OF t(3) inorder_seps(2) [OF t(1)]] k(1) by simp
  note ko = kid_ok [OF t(1) h(4,5) k(1)]
  note g = good_tree [OF ko(1) k(2) ko(3) h(3) sk]
  obtain c where "fetch_child cd self k (fst env) (env_query env) = Ok (Some c)" "node_is c (cs ! k)" "\<not> nd_changed c"
    by (rule fetch_kid [OF h(1-3) n t(1) h(4,5) k sk])
  then show thesis using g(2,3) ko(4) by (rule that)
qed

text \<open>What the four cases of \<open>rebalance\<close> share about the neighbours \<open>j\<close> and \<open>j + 1\<close>, one of them lean.\<close>

lemma lean_pair:
  assumes r: "ready cd cp env H m" and t: "bal (Suc d) (Branch ss as cs)" "held H (Branch ss as cs)" "short_keys K (inorder (Branch ss as cs))"
    and l: "lean_at i cs" "i = j \<or> i = Suc j" "j < length ss" and t_def: "t = joined (cs ! j) (ss ! j) (cs ! Suc j)"
  shows "bal d t" "siblings (d \<noteq> 0) (cs ! j) (cs ! Suc j)" "owns H {#as ! j, as ! Suc j#}" "owns H (foot t)"
    "short_keys K (inorder t)" "H 0 = None" "\<forall>c\<in>set (nt_kids t). fat c" "\<forall>k<length cs. k \<noteq> j \<and> k \<noteq> Suc j \<longrightarrow> fat (cs ! k)"
    "length (nt_seps t) = Suc (length (nt_seps (cs ! j)) + length (nt_seps (cs ! Suc j)))"
proof -
  note jp = joined_parts [OF t(2,1) l(3) t_def]
  show "bal d t" "siblings (d \<noteq> 0) (cs ! j) (cs ! Suc j)" by (rule jp)+
  show "owns H {#as ! j, as ! Suc j#}" "owns H (foot t)" using jp(3) unfolding owns_union by blast+
  show "short_keys K (inorder t)" using t(3) unfolding jp(4) by simp
  show "H 0 = None" using r by (simp add: ready_def)
  have len: "j < length cs" "Suc j < length cs" using t(1) l(3) by simp_all
  show "\<forall>c\<in>set (nt_kids t). fat c" unfolding t_def joined_kids using lean_kids(2) [OF l(1) len(1)] lean_kids(2) [OF l(1) len(2)] by blast
  show "\<forall>k<length cs. k \<noteq> j \<and> k \<noteq> Suc j \<longrightarrow> fat (cs ! k)" using l(1,2) unfolding lean_at_def by blast
  show "length (nt_seps t) = Suc (length (nt_seps (cs ! j)) + length (nt_seps (cs ! Suc j)))" unfolding t_def by simp
qed

lemma lean_merged:
  assumes p: "params cd K u" and r: "ready cd cp env H (m + u + u)" and n: "node_is self (Branch ss as cs)"
    and t: "bal (Suc d) (Branch ss as cs)" "held H (Branch ss as cs)" "short_keys K (inorder (Branch ss as cs))" "length ss \<le> 8" "ss \<noteq> []"
    and l: "lean_at i cs" "i = j \<or> i = Suc j" "j < length ss" and c: "node_is left (cs ! j)" "node_is right (cs ! Suc j)"
    and len: "length (nt_seps (cs ! j)) + length (nt_seps (cs ! Suc j)) = 7"
  shows "rebalanced cd cp m d (Branch ss as cs) H env (merge_children cd self (d \<noteq> 0) j (Suc j) (Some left) (Some right) env)"
proof -
  let ?t = "joined (cs ! j) (ss ! j) (cs ! Suc j)"
  note lp = lean_pair [OF r t(1-3) l refl]
  have l8: "length (nt_seps ?t) = 8" using lp(9) len by simp
  have g: "good_node K ?t" by (rule good_tree(1) [OF lp(1) _ lp(4,6,5)]) (use l8 in simp)
  have f: "fat ?t" using l8 lp(7) by (auto simp: fat_iff [of ?t])
  have a: "length as = Suc (length ss)" using t(1) by simp
  have "merged cd cp (m + u) ss as j ?t H env (merge_children cd self (d \<noteq> 0) j (Suc j) (Some left) (Some right) env)"
    by (rule merge_children_spec [OF p r n [unfolded node_is_def, simplified] a l(3) lp(3,2) c _ g]) (use len in simp)
  from rebalanced_mono [OF merged_rebalanced [OF t(2,1) l(3) t(4) lp(8) refl f this]] show ?thesis by simp
qed

lemma rebalance_spec:
  assumes p: "params cd K u" and r: "ready cd cp env H (m + u + u)" and n: "node_is self (Branch ss as cs)"
    and t: "bal (Suc d) (Branch ss as cs)" "held H (Branch ss as cs)" "short_keys K (inorder (Branch ss as cs))" "length ss \<le> 8" "ss \<noteq> []"
    and l: "lean_at i cs"
  shows "rebalanced cd cp m d (Branch ss as cs) H env (rebalance cd self (Suc d) i env)"
proof -
  have h: "node_has self ss as" using n by (simp add: node_is_def)
  have len: "length as = Suc (length ss)" "length cs = Suc (length ss)" using t(1) by simp_all
  have li: "i < length cs" "length (nt_seps (cs ! i)) = 3" using l by (simp_all add: lean_at_def)
  have others: "4 \<le> length (nt_seps (cs ! k)) \<and> length (nt_seps (cs ! k)) \<le> 8" if "k < length cs" "k \<noteq> i" for k
    using l that unfolding lean_at_def by (auto simp: fat_iff [of "cs ! k"])
  have "\<exists>c. env_fetch_child cd self k env = Ok (Some c) \<and> node_is c (cs ! k) \<and> shaped (nt_seps (cs ! k)) (nt_addrs (cs ! k)) \<and>
      encodable (nt_seps (cs ! k)) \<and> H (as ! k) = Some (1, tbytes (cs ! k))" if "k < length cs" for k
    by (rule fetch_kid_of [OF r n t(1-3) that lean_kids(1) [OF l that]]) blast
  then obtain child where c: "env_fetch_child cd self k env = Ok (Some (child k))" "node_is (child k) (cs ! k)" "shaped (nt_seps (cs ! k)) (nt_addrs (cs ! k))"
      "encodable (nt_seps (cs ! k))" "H (as ! k) = Some (1, tbytes (cs ! k))" if "k < length cs" for k
    by metis
  have more: "has_separator (child k) 4 \<longleftrightarrow> 4 < length (nt_seps (cs ! k))" if "k < length cs" for k
    using has_separator_has [OF c(2) [OF that, unfolded node_is_def]] by simp
  note num = number_separator_has [OF h]
  consider (left) j where "i = Suc j" "4 < length (nt_seps (cs ! j))"
    | (right) "i > 0 \<longrightarrow> \<not> 4 < length (nt_seps (cs ! (i - 1)))" "Suc i < length cs" "4 < length (nt_seps (cs ! Suc i))"
    | (last) j where "i = Suc j" "\<not> 4 < length (nt_seps (cs ! j))" "Suc i = length cs"
    | (inner) "i > 0 \<longrightarrow> \<not> 4 < length (nt_seps (cs ! (i - 1)))" "Suc i < length cs" "\<not> 4 < length (nt_seps (cs ! Suc i))"
  proof (cases "Suc i < length cs")
    case True
    then show ?thesis using left right inner by (cases i) force+
  next
    case False
    then have "Suc i = length cs" using li(1) by simp
    moreover have "i \<noteq> 0" using calculation t(5) len by (cases ss) auto
    ultimately show ?thesis using left last by (cases i) force+
  qed
  then show ?thesis
  proof cases
    case left
    have j: "j < length ss" "j < length cs" using left li(1) len by simp_all
    note lp = lean_pair [OF r t(1-3) l disjI2 [OF left(1)] j(1) refl]
    have q: "4 \<le> length (nt_seps (cs ! j)) - 1" "length (nt_seps (cs ! j)) - 1 \<le> 8" using left others [OF j(2)] by auto
    note cg = cut_good [OF lp(1,4,5,6,7) q]
    have "rotated cd cp m ss as j (joined (cs ! j) (ss ! j) (cs ! Suc j)) (length (nt_seps (cs ! j)) - 1) H env
        (balance_from_left cd self (d \<noteq> 0) (Suc j) (child j) env)"
      by (rule balance_from_left_spec [OF p r h len(1) j(1) lp(3,2) c(2) [OF j(2)] _ c(5) _ c(3) c(4)])
        (use left li cg lp(9) in auto)
    moreover have "rebalance cd self (Suc d) i env = balance_from_left cd self (d \<noteq> 0) (Suc j) (child j) env"
      using left c(1) [OF j(2)] more [OF j(2)] by (simp add: rebalance_def unwrap_def)
    ultimately show ?thesis
      using rotated_rebalanced [OF t(2,1) j(1) t(4) lp(8) refl, of "length (nt_seps (cs ! j)) - 1"] cg lp(9) left li by simp
  next
    case right
    have j: "i < length ss" using right li(1) len by simp
    note lp = lean_pair [OF r t(1-3) l disjI1 [OF refl] j refl]
    have q: "4 \<le> Suc (length (nt_seps (cs ! i)))" "Suc (length (nt_seps (cs ! i))) \<le> 8" using li by auto
    note cg = cut_good [OF lp(1,4,5,6,7) q]
    have "rotated cd cp m ss as i (joined (cs ! i) (ss ! i) (cs ! Suc i)) (Suc (length (nt_seps (cs ! i)))) H env
        (balance_from_right cd self (d \<noteq> 0) i (child (Suc i)) env)"
      by (rule balance_from_right_spec [OF p r h len(1) j lp(3,2) c(2) [OF right(2)] _ c(5) _ c(3) c(4)])
        (use right li cg lp(9) others [OF right(2)] in auto)
    moreover have "rebalance cd self (Suc d) i env = balance_from_right cd self (d \<noteq> 0) i (child (Suc i)) env"
      using right c(1) [OF right(2)] more [OF right(2)] c(1) [of "i - 1"] more [of "i - 1"] num len li(1)
      by (cases i) (simp_all add: rebalance_def unwrap_def Let_def)
    ultimately show ?thesis
      using rotated_rebalanced [OF t(2,1) j t(4) lp(8) refl, of "Suc (length (nt_seps (cs ! i)))"] cg lp(9) right li others [OF right(2)] by simp
  next
    case last
    have j: "j < length ss" "j < length cs" using last li(1) len by simp_all
    note sib = c [OF j(2)] c [OF li(1), unfolded last(1)]
    have "rebalanced cd cp m d (Branch ss as cs) H env (merge_children cd self (d \<noteq> 0) j (Suc j) (Some (child j)) (Some (child (Suc j))) env)"
      by (rule lean_merged [OF p r n t l disjI2 [OF last(1)] j(1) sib(2,7)]) (use last li others [OF j(2)] in auto)
    moreover have "rebalance cd self (Suc d) i env = merge_children cd self (d \<noteq> 0) j (Suc j) (Some (child j)) (Some (child (Suc j))) env"
    proof -
      have "number_separator self = Suc j" using num last len by simp
      then show ?thesis unfolding last(1)
        using last(2) c(1) [OF j(2)] more [OF j(2)] c(1) [OF li(1)] last(1) by (simp add: rebalance_def unwrap_def Let_def)
    qed
    ultimately show ?thesis by simp
  next
    case inner
    have j: "i < length ss" using inner li(1) len by simp
    have "rebalanced cd cp m d (Branch ss as cs) H env (merge_children cd self (d \<noteq> 0) i (Suc i) (Some (child i)) (Some (child (Suc i))) env)"
      by (rule lean_merged [OF p r n t l disjI1 [OF refl] j c(2) [OF li(1)] c(2) [OF inner(2)]]) (use inner li others [OF inner(2)] in auto)
    moreover have "rebalance cd self (Suc d) i env = merge_children cd self (d \<noteq> 0) i (Suc i) (Some (child i)) (Some (child (Suc i))) env"
      using inner c(1) [OF inner(2)] more [OF inner(2)] c(1) [of "i - 1"] more [of "i - 1"] c(1) [OF li(1)] num len li(1)
      by (cases i) (simp_all add: rebalance_def unwrap_def Let_def)
    ultimately show ?thesis by simp
  qed
qed

end
