(* ===== verification/Btree_Remove.thy ===== *)
theory Btree_Remove
  imports Btree_Rebalance
begin

text \<open>
  A changed child goes back into its parent (\<open>child_step\<close>), and \<open>remove_last\<close>, which takes the greatest
  separator out of a subtree.
\<close>

section \<open>Children\<close>

text \<open>A node follows its tree: it is marked as changed, or nothing that is encoded changed.\<close>

definition tracks :: "node \<Rightarrow> ntree \<Rightarrow> node \<Rightarrow> ntree \<Rightarrow> bool" where
  "tracks n t n' t' \<longleftrightarrow> nd_changed n' \<or> n' = n \<and> tbytes t' = tbytes t"

lemma tracks_refl [simp]: "tracks n t n t"
  by (simp add: tracks_def)

lemma tracks_trans: "tracks n t n1 t1 \<Longrightarrow> tracks n1 t1 n2 t2 \<Longrightarrow> tracks n t n2 t2"
  by (auto simp: tracks_def)

lemma focus_lists:
  assumes "i < length xs"
  shows "xs = take i xs @ [xs ! i] @ drop (Suc i) xs" "xs[i := x] = take i xs @ [x] @ drop (Suc i) xs"
  using assms by (simp_all add: id_take_nth_drop upd_conv_take_nth_drop)

text \<open>The parent \<open>Branch ss as cs\<close> whose child \<open>i\<close> became \<open>t'\<close>, with separators \<open>sm\<close> and children \<open>ts\<close> right of it.\<close>

definition regrown :: "separator_inner list \<Rightarrow> address list \<Rightarrow> ntree list \<Rightarrow> nat \<Rightarrow> separator_inner list \<Rightarrow> address list \<Rightarrow> ntree list \<Rightarrow> ntree" where
  "regrown ss as cs i sm am cm =
     Branch (take i ss @ sm @ drop i ss) (take i as @ am @ drop (Suc i) as) (take i cs @ cm @ drop (Suc i) cs)"

lemma regrown_inorder:
  assumes "i \<le> length ss" "length cs = Suc (length ss)" "length cm = Suc (length sm)"
  shows "inorder (regrown ss as cs i sm am cm) =
    lpart (take i ss) (map inorder (take i cs)) @ weave sm (map inorder cm) @ rpart (drop i ss) (map inorder (drop (Suc i) cs))"
proof -
  obtain c cm' where c: "cm = c # cm'" "length sm = length cm'" using assms(3) by (cases cm) auto
  show ?thesis
    using inorder_focus [of "take i ss" "take i cs" "sm @ drop i ss" _ c "cm' @ drop (Suc i) cs"] assms(1,2) c
    by (simp add: regrown_def weave_Cons del: weave.simps)
qed

lemma regrown_bal:
  assumes "bal (Suc d) (Branch ss as cs)" "i < length cs" "length am = Suc (length sm)" "length cm = Suc (length sm)" "\<forall>c\<in>set cm. bal d c"
  shows "bal (Suc d) (regrown ss as cs i sm am cm)"
  using assms by (auto simp: regrown_def dest: in_set_takeD in_set_dropD)

lemma kid_foot:
  assumes "i < length cs" "length as = length cs"
  shows "foot (Branch ss as cs) = {#as ! i#} + foot (cs ! i) + (vals ss + footl (take i as) (take i cs) + footl (drop (Suc i) as) (drop (Suc i) cs))"
proof -
  have "foot (Branch ss as cs) = foot (Branch ss (take i as @ [as ! i] @ drop (Suc i) as) (take i cs @ [cs ! i] @ drop (Suc i) cs))"
    using focus_lists(1) [of i as] focus_lists(1) [of i cs] assms by simp
  then show ?thesis by (simp add: foot_Branch ac_simps del: foot.simps)
qed

lemma side_values:
  assumes t: "bal (Suc d) (Branch ss as cs)" "i < length cs" and same: "\<forall>a\<in>#vals (take i ss) + vals (drop i ss) + footl (take i as) (take i cs) + footl (drop (Suc i) as) (drop (Suc i) cs). H' a = H a"
  shows "cont H' (lpart (take i ss) (map inorder (take i cs))) = cont H (lpart (take i ss) (map inorder (take i cs)))"
    "cont H' (rpart (drop i ss) (map inorder (drop (Suc i) cs))) = cont H (rpart (drop i ss) (map inorder (drop (Suc i) cs)))"
proof -
  have l: "length (take i ss) = length (take i cs)" "length (drop i ss) = length (drop (Suc i) cs)"
      "\<forall>c\<in>set (take i cs). bal d c" "\<forall>c\<in>set (drop (Suc i) cs). bal d c"
    using t by (auto dest: in_set_takeD in_set_dropD)
  show "cont H' (lpart (take i ss) (map inorder (take i cs))) = cont H (lpart (take i ss) (map inorder (take i cs)))"
  proof (rule cont_frame)
    show "\<forall>a\<in>#vals (lpart (take i ss) (map inorder (take i cs))). H' a = H a"
      using vals_part(1) [OF l(1,3)] same unfolding footl_def set_mset_union by blast
  qed
  show "cont H' (rpart (drop i ss) (map inorder (drop (Suc i) cs))) = cont H (rpart (drop i ss) (map inorder (drop (Suc i) cs)))"
  proof (rule cont_frame)
    show "\<forall>a\<in>#vals (rpart (drop i ss) (map inorder (drop (Suc i) cs))). H' a = H a"
      using vals_part(2) [OF l(2,4)] same unfolding footl_def set_mset_union by blast
  qed
qed

lemma child_step:
  assumes p: "params cd K u" and r: "ready cd cp env H1 (m + u)" and n: "node_is self (Branch ss as cs)"
    and t: "bal (Suc d) (Branch ss as cs)" "held H (Branch ss as cs)" "i < length cs"
    and c: "node_is c t'" "good_node K t'" "tracks c0 (cs ! i) c t'" "\<not> nd_changed c0"
    and x: "xfer H (foot (cs ! i)) H1 (vals sm + foot t' + footl ar ts + E)" "heldl H1 ar ts" "stored H1 t'"
  obtains self' a env' H' where "write_child cd self i c env = Ok (self', env')" "node_has self' ss (as[i := a])"
    "nd_changed self' \<or> self' = self \<and> a = as ! i" "nd_changed self \<longrightarrow> nd_changed self'"
    "held H' (regrown ss as cs i sm (a # ar) (t' # ts))" "xfer H (foot (Branch ss as cs)) H' (foot (regrown ss as cs i sm (a # ar) (t' # ts)) + E)"
    "ready cd cp env' H' m" "same_env env env'" "\<forall>b\<in>#vals sm + foot t' + footl ar ts + E. H' b = H1 b"
    "cont H' (lpart (take i ss) (map inorder (take i cs))) = cont H (lpart (take i ss) (map inorder (take i cs)))"
    "cont H' (rpart (drop i ss) (map inorder (drop (Suc i) cs))) = cont H (rpart (drop i ss) (map inorder (drop (Suc i) cs)))"
proof -
  let ?N = "vals sm + foot t' + footl ar ts + E"
  have len: "length as = length cs" "i < length as" using t by simp_all
  have ho: "owns H (foot (Branch ss as cs))" "stored H (Branch ss as cs)" using t(2) unfolding held_def by blast+
  note ko = kid_ok [OF t(1) ho(2,1) t(3)]
  have "owns H (foot (cs ! i) + {#as ! i#})" using ho(1) unfolding kid_foot [OF t(3) len(1)] owns_union by blast
  note f1 = xfer_frame [OF x(1) this]
  have a1: "H1 (as ! i) = Some (1, tbytes (cs ! i))" using f1(2) ko(4) by simp
  have w: "nd_changed c \<or> H1 (as ! i) = Some (1, nbytes (nt_seps t') (nt_addrs t'))"
    using c(3,4) a1 by (auto simp: tracks_def tbytes_def)
  obtain self' a env' H' where o: "write_child cd self i c env = Ok (self', env')" "node_has self' ss (as[i := a])"
      "xfer H1 {#as ! i#} H' {#a#}" "H' a = Some (1, tbytes t')" "ready cd cp env' H' m" "same_env env env'"
      "nd_changed self' \<or> self' = self \<and> a = as ! i" "nd_changed self \<longrightarrow> nd_changed self'"
    unfolding tbytes_def
    by (rule write_child_spec [OF p r n [unfolded node_is_def ntree.sel] len(2) c(1) [unfolded node_is_def] c(2) _ w]) (simp add: a1)
  have "owns H1 ({#as ! i#} + ?N)" using f1(1) unfolding xfer_def by (metis add.commute)
  note f2 = xfer_frame [OF o(3) this]
  have "xfer H (foot (cs ! i) + {#as ! i#}) H' ({#a#} + ?N)" using xfer_trans [OF f1(1)] f2(1) by (metis add.commute)
  then have x2: "xfer H (vals [] + footl [as ! i] [cs ! i]) H' (vals sm + footl (a # ar) (t' # ts) + E)" by (simp add: ac_simps)
  have e: "Branch (take i ss @ [] @ drop i ss) (take i as @ [as ! i] @ drop (Suc i) as) (take i cs @ [cs ! i] @ drop (Suc i) cs) = Branch ss as cs"
    using focus_lists(1) [OF len(2)] focus_lists(1) [OF t(3)] by simp
  have "stored H' t'" "heldl H' ar ts" using f2(2) by (auto intro: stored_frame [OF x(3)] heldl_frame [OF x(2)])
  then have hl: "heldl H' (a # ar) (t' # ts)" using o(4) by simp
  have al: "length ar = length ts" by (rule heldl_length [OF x(2)])
  have la: "length (take i as) = length (take i cs)" "length [as ! i] = length [cs ! i]" "length (a # ar) = length (t' # ts)" using len al by simp_all
  note hm = held_middle [OF t(2) [folded e] la x2 hl, unfolded e, folded regrown_def]
  from side_values [OF t(1,3) hm(3)] o(1,2,5-8) f2(2) hm(1,2) show thesis by (intro that)
qed

lemma regrown_one:
  assumes "i < length as" "i < length cs"
  shows "regrown ss as cs i [] [a] [t'] = Branch ss (as[i := a]) (cs[i := t'])"
  using assms by (simp add: regrown_def focus_lists(2))

lemma parent_inorder:
  assumes "bal (Suc d) (Branch ss as cs)" "i < length cs"
  shows "inorder (Branch ss as cs) = lpart (take i ss) (map inorder (take i cs)) @ inorder (cs ! i) @ rpart (drop i ss) (map inorder (drop (Suc i) cs))"
  using regrown_inorder [of i ss cs "[cs ! i]" "[]" as "[as ! i]"] regrown_one [of i as cs ss "as ! i" "cs ! i"] assms by simp

lemma kids_fat_update: "kids_fat (Branch ss as cs) \<Longrightarrow> fat t' \<Longrightarrow> kids_fat (Branch ss as' (cs[i := t']))"
  using set_update_subset_insert by (fastforce simp: kids_fat_def)

text \<open>The child \<open>i\<close> became lean: the parent is rebalanced.\<close>

lemma lean_rebalanced:
  assumes p: "params cd K u" and r: "ready cd cp env H1 (m + u + u)" and n: "node_has n ss (as[i := a])"
    and t: "bal (Suc d) (Branch ss as cs)" "kids_fat (Branch ss as cs)" "ss \<noteq> []" "i < length cs"
    and t': "bal d t'" "kids_fat t'" "length (nt_seps t') = 3"
    and h: "held H1 (regrown ss as cs i [] [a] [t'])" "short_keys K (inorder (regrown ss as cs i [] [a] [t']))"
    and x: "xfer H M H1 (foot (regrown ss as cs i [] [a] [t']) + E)"
  obtains n' t2 env' H' where "rebalance cd n (Suc d) i env = Ok (n', env')" "node_is n' t2" "nd_changed n'" "bal (Suc d) t2" "kids_fat t2"
    "inorder t2 = inorder (regrown ss as cs i [] [a] [t'])" "held H' t2" "xfer H M H' (foot t2 + E)"
    "cont H' (inorder t2) = cont H1 (inorder t2)" "length ss \<le> Suc (length (nt_seps t2))" "\<forall>b\<in>#E. H' b = H1 b"
    "ready cd cp env' H' m" "same_env env env'"
proof -
  have i: "i < length as" "i < length cs" using t by simp_all
  note rg = regrown_one [OF i, of ss a t']
  have b: "bal (Suc d) (Branch ss (as[i := a]) (cs[i := t']))"
    using regrown_bal [OF t(1) i(2), of "[a]" "[]" "[t']"] t'(1) unfolding rg by simp
  have l: "lean_at i (cs[i := t'])" using t(2) t'(2,3) i by (auto simp: lean_at_def kids_fat_def)
  have l8: "length ss \<le> 8" using t(2) by (simp add: kids_fat_def)
  have ni: "node_is n (Branch ss (as[i := a]) (cs[i := t']))" using n by (simp add: node_is_def)
  from rebalance_spec [OF p r ni b h [unfolded rg] l8 t(3) l]
  obtain n' t2 env' H' where o: "rebalance cd n (Suc d) i env = Ok (n', env')" "node_is n' t2" "nd_changed n'" "bal (Suc d) t2" "kids_fat t2"
    "inorder t2 = inorder (regrown ss as cs i [] [a] [t'])" "held H' t2" "xfer H1 (foot (regrown ss as cs i [] [a] [t'])) H' (foot t2)"
    "cont H' (inorder t2) = cont H1 (inorder t2)" "length (nt_seps (Branch ss (as[i := a]) (cs[i := t']))) \<le> Suc (length (nt_seps t2))"
    "ready cd cp env' H' m" "same_env env env'"
    unfolding rebalanced_def rg by blast
  have "owns H1 (foot (regrown ss as cs i [] [a] [t']) + E)" using x unfolding xfer_def by blast
  note f = xfer_frame [OF o(8) this]
  show thesis by (rule that [OF o(1-7) xfer_trans [OF x f(1)] o(9) _ f(2) o(11,12)]) (use o(10) in simp)
qed

section \<open>Removing the greatest separator\<close>

definition lost_last :: "codec \<Rightarrow> compress \<Rightarrow> nat \<Rightarrow> nat \<Rightarrow> node \<Rightarrow> ntree \<Rightarrow> heap \<Rightarrow> tree_env
    \<Rightarrow> ((bool \<times> separator option) \<times> node \<times> tree_env) result \<Rightarrow> bool" where
  "lost_last cd cp m d n t H env res \<longleftrightarrow>
     (\<exists>r n' t' s env' H'. res = Ok ((length (nt_seps t') < 4, Some r), n', env') \<and> sp_separator r = Some s \<and> node_is n' t' \<and> tracks n t n' t' \<and>
        bal d t' \<and> kids_fat t' \<and> 3 \<le> length (nt_seps t') \<and> inorder t = inorder t' @ [s] \<and> held H' t' \<and>
        xfer H (foot t) H' (foot t' + {#si_value s#}) \<and> cont H' (inorder t) = cont H (inorder t) \<and>
        ready cd cp env' H' m \<and> same_env env env')"

lemma lost_lastI:
  assumes "res = Ok ((length (nt_seps t') < 4, Some r), n', env')" "sp_separator r = Some s" "node_is n' t'" "tracks n t n' t'"
    and "bal d t'" "kids_fat t'" "3 \<le> length (nt_seps t')" "inorder t = inorder t' @ [s]" "held H' t'"
    and "xfer H (foot t) H' (foot t' + {#si_value s#})" "cont H' (inorder t) = cont H (inorder t)"
    and "ready cd cp env' H' m" "same_env env env'"
  shows "lost_last cd cp m d n t H env res"
  unfolding lost_last_def using assms by blast

lemma held_good:
  assumes "held H t" "bal d t" "kids_fat t" "ready cd cp env H m" "short_keys K (inorder t)"
  shows "good_node K t"
  using assms by (intro good_tree(1) [of d t H K]) (simp_all add: held_def kids_fat_def ready_def)

lemma kids_fat_fat: "kids_fat t \<Longrightarrow> 4 \<le> length (nt_seps t) \<Longrightarrow> fat t"
  by (cases t) (simp add: kids_fat_def)

lemma remove_last_leaf:
  assumes r: "ready cd cp env H m" and n: "node_is n (Branch ss [] [])" and t: "held H (Branch ss [] [])" "4 \<le> length ss" "length ss \<le> 8"
  shows "lost_last cd cp m 0 n (Branch ss [] []) H env (remove_last 0 cd n env)"
proof -
  have h: "node_has n ss []" "ss \<noteq> []" using n t(2) by (auto simp: node_is_def)
  obtain q n' where o: "remove_separator (length ss - 1) n = Ok (q, n')" "sp_separator q = Some (last ss)" "node_has n' (butlast ss) []" "nd_changed n'"
    by (rule node_pop_back [OF h])
  have e: "ss = butlast ss @ [last ss]" using h(2) by simp
  have "vals ss = vals (butlast ss) + {#si_value (last ss)#}" by (subst e) simp
  then have f: "foot (Branch ss [] []) = foot (Branch (butlast ss) [] []) + {#si_value (last ss)#}" by simp
  have own: "owns H (foot (Branch ss [] []))" using t(1) unfolding held_def by blast
  then have "owns H (foot (Branch (butlast ss) [] []))" unfolding f owns_union by blast
  then have hd: "held H (Branch (butlast ss) [] [])" unfolding held_def by simp
  have x: "xfer H (foot (Branch ss [] [])) H (foot (Branch (butlast ss) [] []) + {#si_value (last ss)#})"
    using xfer_refl [OF own] unfolding f .
  have "need_rebalance n' \<longleftrightarrow> length (butlast ss) < 4" by (rule need_rebalance_has [OF o(3)])
  then have res: "remove_last 0 cd n env = Ok ((length (nt_seps (Branch (butlast ss) [] [])) < 4, Some q), n', env)"
    using o(1) last_separator_index_has [OF h(1)] h(2) by simp
  show ?thesis
    by (rule lost_lastI [OF res o(2) _ _ _ _ _ _ hd x]) (use o t e r in \<open>simp_all add: node_is_def tracks_def kids_fat_def\<close>)
qed

lemma remove_last_spec:
  assumes p: "params cd K u" and "ready cd cp env H (m + d * (3 * u))" "node_is n t" "bal d t" "fat t" "held H t" "short_keys K (inorder t)"
  shows "lost_last cd cp m d n t H env (remove_last d cd n env)"
  using assms(2-)
proof (induction d arbitrary: n t env H m)
  case 0
  obtain ss where t: "t = Branch ss [] []" using 0(3) by (cases t) auto
  show ?case unfolding t by (rule remove_last_leaf) (use 0 t in simp_all)
next
  case (Suc d)
  obtain ss as cs where t: "t = Branch ss as cs" by (cases t)
  note pr = Suc.prems [unfolded t]
  let ?k = "length ss"
  have h: "node_has n ss as" "ss \<noteq> []" "Suc (length ss - Suc 0) = ?k" using pr by (auto simp: node_is_def)
  have len: "length cs = Suc ?k" "?k < length cs" using pr(3) by simp_all
  have kf: "\<forall>c\<in>set cs. fat c" "length ss \<le> 8" "4 \<le> length ss" "fat (cs ! ?k)" using pr(4) len by simp_all
  have l8: "length (nt_seps (cs ! ?k)) \<le> 8" using kf(4) by (cases "cs ! ?k") simp
  have ho: "owns H (foot (Branch ss as cs))" "stored H (Branch ss as cs)" using pr(5) unfolding held_def by blast+
  note ko = kid_ok [OF pr(3) ho(2,1) len(2)]
  have sk: "short_keys K (inorder (cs ! ?k))" using short_keys_sub [OF pr(6) inorder_seps(2) [OF pr(3)]] len(2) by simp
  obtain c0 where c0: "env_fetch_child cd n ?k env = Ok (Some c0)" "node_is c0 (cs ! ?k)" "\<not> nd_changed c0"
    by (rule fetch_kid_of [OF pr(1-3,5,6) len(2) l8])
  have "ready cd cp env H ((m + u + u + u) + d * (3 * u))" by (rule ready_mono [OF pr(1)]) simp
  from Suc.IH [OF this c0(2) ko(1) kf(4) _ sk] ko(2,3)
  obtain q c t' s env1 H1 where o: "remove_last d cd c0 env = Ok ((length (nt_seps t') < 4, Some q), c, env1)" "sp_separator q = Some s"
      "node_is c t'" "tracks c0 (cs ! ?k) c t'" "bal d t'" "kids_fat t'" "3 \<le> length (nt_seps t')" "inorder (cs ! ?k) = inorder t' @ [s]" "held H1 t'"
      "xfer H (foot (cs ! ?k)) H1 (foot t' + {#si_value s#})" "cont H1 (inorder (cs ! ?k)) = cont H (inorder (cs ! ?k))"
      "ready cd cp env1 H1 (m + u + u + u)" "same_env env env1"
    unfolding lost_last_def held_def by blast
  have g: "good_node K t'" by (rule held_good [OF o(9,5,6,12)]) (use sk o(8) in simp)
  have x: "xfer H (foot (cs ! ?k)) H1 (vals [] + foot t' + footl [] [] + {#si_value s#})" using o(10) by simp
  have st: "stored H1 t'" using o(9) unfolding held_def by blast
  obtain n1 a env2 H2 where w: "write_child cd n ?k c env1 = Ok (n1, env2)" "node_has n1 ss (as[?k := a])"
      "nd_changed n1 \<or> n1 = n \<and> a = as ! ?k" "held H2 (regrown ss as cs ?k [] [a] [t'])"
      "xfer H (foot (Branch ss as cs)) H2 (foot (regrown ss as cs ?k [] [a] [t']) + {#si_value s#})"
      "ready cd cp env2 H2 (m + u + u)" "same_env env1 env2" "\<forall>b\<in>#vals [] + foot t' + footl [] [] + {#si_value s#}. H2 b = H1 b"
      "cont H2 (lpart (take ?k ss) (map inorder (take ?k cs))) = cont H (lpart (take ?k ss) (map inorder (take ?k cs)))"
    by (rule child_step [OF p o(12) pr(2,3,5) len(2) o(3) g o(4) c0(3) x _ st]) simp_all
  let ?T = "regrown ss as cs ?k [] [a] [t']"
  have i1: "inorder ?T = lpart (take ?k ss) (map inorder (take ?k cs)) @ inorder t'"
    using regrown_inorder [of ?k ss cs "[t']" "[]"] len by simp
  have "inorder (Branch ss as cs) = lpart (take ?k ss) (map inorder (take ?k cs)) @ inorder (cs ! ?k)"
    using parent_inorder [OF pr(3) len(2)] by simp
  then have io: "inorder (Branch ss as cs) = inorder ?T @ [s]"
      "inorder (Branch ss as cs) = lpart (take ?k ss) (map inorder (take ?k cs)) @ inorder t' @ [s]" using i1 o(8) by simp_all
  have "cont H2 (inorder t' @ [s]) = cont H1 (inorder t' @ [s])"
    by (rule cont_frame) (use w(8) inorder_values [OF o(5)] in auto)
  then have co: "cont H2 (inorder (Branch ss as cs)) = cont H (inorder (Branch ss as cs))"
    using w(9) o(8,11) parent_inorder [OF pr(3) len(2)] by simp
  have kids: "kids_fat (Branch ss as cs)" using kf by (simp add: kids_fat_def)
  have al: "?k < length as" using pr(3) by simp
  note rg = regrown_one [OF al len(2), of ss a t']
  have li: "last_separator_index n = Some (length ss - Suc 0)" using last_separator_index_has [OF h(1)] h(2) by simp
  note env = same_env_trans [OF o(13) w(7)]
  show ?case unfolding t
  proof (cases "length (nt_seps t') < 4")
    case True
    have sk1: "short_keys K (inorder ?T)" using pr(6) unfolding io(1) by simp
    have l3: "length (nt_seps t') = 3" using True o(7) by simp
    obtain n2 t2 env3 H3 where b: "rebalance cd n1 (Suc d) ?k env2 = Ok (n2, env3)" "node_is n2 t2" "nd_changed n2" "bal (Suc d) t2" "kids_fat t2"
        "inorder t2 = inorder ?T" "held H3 t2" "xfer H (foot (Branch ss as cs)) H3 (foot t2 + {#si_value s#})"
        "cont H3 (inorder t2) = cont H2 (inorder t2)" "length ss \<le> Suc (length (nt_seps t2))" "\<forall>b\<in>#{#si_value s#}. H3 b = H2 b"
        "ready cd cp env3 H3 m" "same_env env2 env3"
      by (rule lean_rebalanced [OF p w(6,2) pr(3) kids h(2) len(2) o(5,6) l3 w(4) sk1 w(5)])
    have "need_rebalance n2 \<longleftrightarrow> length (nt_seps t2) < 4" by (rule need_rebalance_has [OF b(2) [unfolded node_is_def]])
    then have res: "remove_last (Suc d) cd n env = Ok ((length (nt_seps t2) < 4, Some q), n2, env3)"
      using li h(3) c0(1) o(1) w(1) b(1) True by simp
    have co3: "cont H3 (inorder (Branch ss as cs)) = cont H (inorder (Branch ss as cs))" using co b(6,9,11) unfolding io(1) by simp
    show "lost_last cd cp m (Suc d) n (Branch ss as cs) H env (remove_last (Suc d) cd n env)"
      by (rule lost_lastI [OF res o(2) b(2) _ b(4,5) _ _ b(7,8) co3 b(12) same_env_trans [OF env b(13)]])
        (use b(3,6,10) kf(3) io(1) in \<open>simp_all add: tracks_def\<close>)
  next
    case False
    have f: "fat t'" using False o(6) by (intro kids_fat_fat) simp_all
    have res: "remove_last (Suc d) cd n env = Ok ((length (nt_seps ?T) < 4, Some q), n1, env2)"
      using li h(3) c0(1) o(1) w(1) False kf(3) unfolding rg by simp
    have tr: "tracks n (Branch ss as cs) n1 ?T" using w(3) unfolding rg by (auto simp: tracks_def tbytes_def)
    have bl: "bal (Suc d) ?T" using regrown_bal [OF pr(3) len(2), of "[a]" "[]" "[t']"] o(5) by simp
    have ni: "node_is n1 ?T" "kids_fat ?T" "3 \<le> length (nt_seps ?T)" unfolding rg using w(2) kids_fat_update [OF kids f] kf(3) by (simp_all add: node_is_def)
    show "lost_last cd cp m (Suc d) n (Branch ss as cs) H env (remove_last (Suc d) cd n env)"
      by (rule lost_lastI [OF res o(2) ni(1) tr bl ni(2,3) io(1) w(4,5) co ready_mono [OF w(6)] env]) simp
  qed
qed

end
