(* ===== verification/Btree_Change.thy ===== *)
theory Btree_Change
  imports Btree_Remove
begin

text \<open>
  One operation at a node: \<open>insert\<close> and \<open>on_existing\<close> change the content of the subtree as the
  operation says. \<open>changed\<close> collects what a parent needs of a changed subtree: it may have grown a
  separator and a right neighbour, and it may have become lean.
\<close>

section \<open>Content\<close>

definition apply_ops :: "bool \<Rightarrow> changes \<Rightarrow> (bytes \<rightharpoonup> (u32 \<times> bytes)) \<Rightarrow> (bytes \<rightharpoonup> (u32 \<times> bytes))" where
  "apply_ops rcd ops M = fold (apply_op rcd False) ops M"

lemma apply_ops_simps [simp]:
  "apply_ops rcd [] M = M" "apply_ops rcd (op # ops) M = apply_ops rcd ops (apply_op rcd False op M)"
  "apply_ops rcd (ops @ ops') M = apply_ops rcd ops' (apply_ops rcd ops M)"
  by (simp_all add: apply_ops_def)

lemma apply_op_middle:
  assumes "op_key op \<notin> dom A" "op_key op \<notin> dom C"
  shows "apply_op rcd pre op (C ++ B ++ A) = C ++ apply_op rcd pre op B ++ A"
proof -
  have n: "A (op_key op) = None" "C (op_key op) = None" using assms by (auto simp del: not_None_eq)
  then have k: "(C ++ B ++ A) (op_key op) = B (op_key op)" by (simp add: map_add_def split: option.split)
  have u: "(C ++ B ++ A)(op_key op := x) = C ++ B(op_key op := x) ++ A" for x
    using n by (auto simp: map_add_def fun_eq_iff split: option.split)
  show ?thesis using k u by (cases op) (auto split: option.split)
qed

lemma apply_ops_middle:
  assumes "\<forall>op\<in>set ops. op_key op \<notin> fst ` set A \<and> op_key op \<notin> fst ` set C" "map_of X' = apply_ops rcd ops (map_of X)"
  shows "map_of (A @ X' @ C) = apply_ops rcd ops (map_of (A @ X @ C))"
proof -
  have "apply_ops rcd ops (map_of C ++ B ++ map_of A) = map_of C ++ apply_ops rcd ops B ++ map_of A" for B
    using assms(1)
  proof (induction ops arbitrary: B)
    case (Cons op ops)
    then show ?case by (simp add: apply_op_middle dom_map_of_conv_image_fst)
  qed simp
  then show ?thesis using assms(2) by simp
qed

lemma apply_op_dom: "dom (apply_op rcd pre op M) \<subseteq> insert (op_key op) (dom M)"
  by (cases op) (auto split: option.splits if_splits)

lemma apply_ops_dom: "dom (apply_ops rcd ops M) \<subseteq> op_key ` set ops \<union> dom M"
proof (induction ops arbitrary: M)
  case (Cons op ops)
  have "dom (apply_ops rcd ops (apply_op rcd False op M)) \<subseteq> op_key ` set ops \<union> dom (apply_op rcd False op M)" by (rule Cons)
  also have "\<dots> \<subseteq> op_key ` set ops \<union> insert (op_key op) (dom M)" using apply_op_dom by blast
  finally show ?case by (simp add: Un_commute)
qed simp

lemma cont_keys: "fst ` set (cont H ss) = si_key ` set ss"
  by (simp add: cont_def image_image)

lemma cont_dom [simp]: "dom (map_of (cont H ss)) = si_key ` set ss"
  by (simp add: dom_map_of_conv_image_fst cont_keys)

text \<open>One separator between keys that are smaller and keys that are greater.\<close>

lemma map_of_at:
  assumes "k \<notin> fst ` set A" "k \<notin> fst ` set C"
  shows "map_of (A @ (k, v) # C) = (map_of (A @ C))(k \<mapsto> v)" "map_of (A @ C) k = None"
    "(map_of (A @ (k, v) # C))(k := None) = map_of (A @ C)"
proof -
  have n: "map_of A k = None" "map_of C k = None" using assms by (simp_all add: map_of_eq_None_iff)
  then show "map_of (A @ (k, v) # C) = (map_of (A @ C))(k \<mapsto> v)" "map_of (A @ C) k = None" "(map_of (A @ (k, v) # C))(k := None) = map_of (A @ C)"
    by (auto simp: fun_eq_iff map_add_def split: option.split)
qed

section \<open>Growing\<close>

text \<open>\<open>sm\<close>, \<open>ar\<close> and \<open>ts\<close> are what the result of \<open>insert\<close> passes up: nothing, or a separator and a right neighbour.\<close>

definition passed_up :: "(separator \<times> child) option \<Rightarrow> separator_inner list \<Rightarrow> address list \<Rightarrow> ntree list \<Rightarrow> bool" where
  "passed_up r sm ar ts \<longleftrightarrow>
     (case r of
        None \<Rightarrow> sm = [] \<and> ar = [] \<and> ts = []
      | Some (sep, right) \<Rightarrow> \<exists>s a t. sp_separator sep = Some s \<and> ch_entry_index right = Some a \<and> sm = [s] \<and> ar = [a] \<and> ts = [t])"

lemma passed_up_simps [simp]:
  "passed_up None sm ar ts \<longleftrightarrow> sm = [] \<and> ar = [] \<and> ts = []"
  "passed_up (Some (sep, right)) sm ar ts \<longleftrightarrow> (\<exists>s a t. sp_separator sep = Some s \<and> ch_entry_index right = Some a \<and> sm = [s] \<and> ar = [a] \<and> ts = [t])"
  by (simp_all add: passed_up_def)

lemma passed_up_length: "passed_up r sm ar ts \<Longrightarrow> length ar = length sm \<and> length ts = length sm"
  by (cases r) auto

lemma grown_tree:
  assumes g: "grown cd cp m S A H env res" and t: "bal d (Branch S A C)" "held H (Branch S A C)" "\<forall>c\<in>set C. fat c" "length S \<le> 9"
    and r: "ready cd cp env H m"
  obtains r n t' sm ar ts env' H' where "res = Ok (r, n, env')" "passed_up r sm ar ts" "node_is n t'" "nd_changed n" "bal d t'" "kids_fat t'"
    "held H' t'" "heldl H' ar ts" "\<forall>c\<in>set ts. bal d c \<and> fat c" "xfer H (foot (Branch S A C)) H' (vals sm + foot t' + footl ar ts)"
    "weave sm (map inorder (t' # ts)) = inorder (Branch S A C)" "cont H' (inorder (Branch S A C)) = cont H (inorder (Branch S A C))"
    "r = None \<longrightarrow> length (nt_seps t') = length S" "r \<noteq> None \<longrightarrow> fat t'" "ready cd cp env' H' m" "same_env env env'"
proof (cases "length S \<le> 8")
  case True
  then obtain n where n: "res = Ok (None, n, env)" "node_has n S A" "nd_changed n" using g by (auto simp: grown_def)
  have "xfer H (foot (Branch S A C)) H (vals [] + foot (Branch S A C) + footl [] [])"
    using t(2) unfolding held_def by (simp add: xfer_refl)
  then show thesis using t n r True
    by (intro that [of None n env "[]" "[]" "[]" "Branch S A C" H]) (simp_all add: node_is_def kids_fat_def)
next
  case False
  then have S: "length S = 9" using t(4) by simp
  let ?t = "Branch S A C"
  obtain sep c n b env' H' where o: "res = Ok (Some (sep, c), n, env')" "sp_separator sep = Some (S ! 4)" "ch_entry_index c = Some b"
      "node_has n (take 4 S) (take 5 A)" "nd_changed n" "xfer H {#} H' {#b#}" "H' b = Some (1, nbytes (drop 5 S) (drop 5 A))"
      "ready cd cp env' H' m" "same_env env env'"
    using g False by (auto simp: grown_def)
  have own: "owns H (foot ?t)" "stored H ?t" using t(2) unfolding held_def by blast+
  then have own': "owns H ({#} + foot ?t)" by simp
  note f = xfer_frame [OF o(6) own']
  have q: "4 < length (nt_seps ?t)" using S by simp
  have cut: "node_is n (cutl 4 ?t)" "H' b = Some (1, tbytes (cutr 4 ?t))"
    using o(4,7) by (simp_all add: node_is_def cutl_def cutr_def tbytes_def)
  have st: "stored H' ?t" using f(2) by (intro stored_frame [OF own(2)]) blast
  note cs = cut_stored [OF st, of 4]
  have ff: "{#b#} + foot ?t = vals [S ! 4] + foot (cutl 4 ?t) + footl [b] [cutr 4 ?t]" using cut_foot [OF q] by (simp add: ac_simps)
  have x: "xfer H (foot ?t) H' (vals [S ! 4] + foot (cutl 4 ?t) + footl [b] [cutr 4 ?t])"
    using f(1) unfolding ff by simp
  then have "owns H' (foot (cutl 4 ?t))" unfolding xfer_def owns_union by blast
  then have hl: "held H' (cutl 4 ?t)" using cs(1) unfolding held_def by blast
  have fat: "fat (cutl 4 ?t)" "fat (cutr 4 ?t)"
    using S t(3) cut_kids [of 4 ?t] cut_lengths [OF q] by (auto simp: fat_iff [of "cutl 4 ?t"] fat_iff [of "cutr 4 ?t"])
  have co: "cont H' (inorder ?t) = cont H (inorder ?t)"
    by (rule cont_frame) (use f(2) inorder_values [OF t(1)] in auto)
  have w: "weave [S ! 4] (map inorder (cutl 4 ?t # [cutr 4 ?t])) = inorder ?t" using cut_inorder [OF t(1) q] by simp
  show thesis
    by (rule that [OF o(1) _ cut(1) o(5) cut_bal(1) [OF t(1) q] fat_kids [OF fat(1)] hl _ _ x w co _ _ o(8,9)])
      (use o(2,3) cut(2) cs(2) cut_bal(2) [OF t(1) q] fat in simp_all)
qed

section \<open>Changed subtrees\<close>

text \<open>A node in memory and the tree below it in the heap; \<open>lo\<close> bounds the number of its separators from below.\<close>

definition stands :: "nat \<Rightarrow> nat \<Rightarrow> nat \<Rightarrow> heap \<Rightarrow> node \<Rightarrow> ntree \<Rightarrow> bool" where
  "stands K d lo H n t \<longleftrightarrow> node_is n t \<and> bal d t \<and> kids_fat t \<and> held H t \<and> sorted_keys (inorder t) \<and> short_keys K (inorder t) \<and>
     lo \<le> length (nt_seps t) \<and> lo \<le> 4 \<and> (d \<noteq> 0 \<longrightarrow> 1 \<le> lo)"

definition changed :: "codec \<Rightarrow> compress \<Rightarrow> nat \<Rightarrow> bool \<Rightarrow> nat \<Rightarrow> nat \<Rightarrow> nat \<Rightarrow> node \<Rightarrow> ntree \<Rightarrow> heap \<Rightarrow> tree_env \<Rightarrow> changes
    \<Rightarrow> (separator \<times> child) option \<times> bool \<Rightarrow> node \<Rightarrow> tree_env \<Rightarrow> bool" where
  "changed cd cp K rcd m d lo n t H env ops r n' env' \<longleftrightarrow>
     (\<exists>t' sm ar ts H'. passed_up (fst r) sm ar ts \<and> node_is n' t' \<and> tracks n t n' t' \<and> bal d t' \<and> kids_fat t' \<and> held H' t' \<and>
        heldl H' ar ts \<and> (\<forall>c\<in>set ts. bal d c \<and> fat c) \<and> xfer H (foot t) H' (vals sm + foot t' + footl ar ts) \<and>
        sorted_keys (weave sm (map inorder (t' # ts))) \<and> short_keys K (weave sm (map inorder (t' # ts))) \<and>
        map_of (cont H' (weave sm (map inorder (t' # ts)))) = apply_ops rcd ops (map_of (cont H (inorder t))) \<and>
        (if fst r \<noteq> None then fat t'
         else if snd r then length (nt_seps t') < 4 \<and> lo \<le> Suc (length (nt_seps t')) else lo \<le> length (nt_seps t')) \<and>
        ready cd cp env' H' m \<and> same_env env env' \<and> (fst r \<noteq> None \<longrightarrow> nd_changed n'))"

text \<open>The subtree is one node again.\<close>

lemma changed_one:
  assumes "node_is n' t'" "tracks n t n' t'" "bal d t'" "kids_fat t'" "held H' t'" "xfer H (foot t) H' (foot t')"
    and "sorted_keys (inorder t')" "short_keys K (inorder t')" "map_of (cont H' (inorder t')) = apply_ops rcd ops (map_of (cont H (inorder t)))"
    and "if need then length (nt_seps t') < 4 \<and> lo \<le> Suc (length (nt_seps t')) else lo \<le> length (nt_seps t')"
    and "ready cd cp env' H' m" "same_env env env'"
  shows "changed cd cp K rcd m d lo n t H env ops (None, need) n' env'"
  unfolding changed_def
  by (rule exI [of _ t'], rule exI [of _ "[]"], rule exI [of _ "[]"], rule exI [of _ "[]"], rule exI [of _ H'])
    (use assms in simp)

text \<open>The separators left and right of a separator of a node.\<close>

lemma around_separator:
  assumes t: "bal d t" "held H t" "sorted_keys (inorder t)" and i: "i < length (nt_seps t)" and x: "xfer H {#si_value (nt_seps t ! i)#} H' M"
  shows "cont H' (inorder (cutl i t)) = cont H (inorder (cutl i t))" "cont H' (inorder (cutr i t)) = cont H (inorder (cutr i t))"
    "\<forall>s\<in>set (inorder (cutl i t)). si_key s < si_key (nt_seps t ! i)" "\<forall>s\<in>set (inorder (cutr i t)). si_key (nt_seps t ! i) < si_key s"
    "sorted_keys (inorder (cutl i t))" "sorted_keys (inorder (cutr i t))"
proof -
  have own: "owns H ({#si_value (nt_seps t ! i)#} + (foot (cutl i t) + foot (cutr i t)))"
    using t(2) unfolding held_def cut_foot [OF i] by (simp add: ac_simps)
  note f = xfer_frame(2) [OF x own]
  show "cont H' (inorder (cutl i t)) = cont H (inorder (cutl i t))" "cont H' (inorder (cutr i t)) = cont H (inorder (cutr i t))"
    by (rule cont_frame, use f inorder_values [OF cut_bal(1) [OF t(1) i]] inorder_values [OF cut_bal(2) [OF t(1) i]] in auto)+
  show "\<forall>s\<in>set (inorder (cutl i t)). si_key s < si_key (nt_seps t ! i)" "\<forall>s\<in>set (inorder (cutr i t)). si_key (nt_seps t ! i) < si_key s"
      "sorted_keys (inorder (cutl i t))" "sorted_keys (inorder (cutr i t))"
    using t(3) unfolding cut_inorder [OF t(1) i] by (auto simp: sorted_wrt_append)
qed

lemma keys_around:
  assumes "\<forall>s\<in>set L. si_key s < k" "\<forall>s\<in>set R. k < si_key s"
  shows "k \<notin> fst ` set (cont H L)" "k \<notin> fst ` set (cont H R)"
  using assms unfolding cont_keys by auto

lemma sorted_around:
  assumes "\<forall>s\<in>set L. si_key s < k" "\<forall>s\<in>set R. k < si_key s" "sorted_keys L" "sorted_keys R"
  shows "sorted_keys (L @ R)" "si_key s = k \<Longrightarrow> sorted_keys (L @ s # R)"
  using assms by (force simp: sorted_wrt_append)+

lemma sep_replaced:
  assumes t: "bal d (Branch ss as cs)" "held H (Branch ss as cs)" "i < length ss" and x: "xfer H {#si_value (ss ! i)#} H' {#v#}"
  shows "bal d (Branch (ss[i := \<lparr>si_key = k, si_value = v\<rparr>]) as cs)" "held H' (Branch (ss[i := \<lparr>si_key = k, si_value = v\<rparr>]) as cs)"
    "xfer H (foot (Branch ss as cs)) H' (foot (Branch (ss[i := \<lparr>si_key = k, si_value = v\<rparr>]) as cs))"
    "inorder (Branch (ss[i := \<lparr>si_key = k, si_value = v\<rparr>]) as cs) = inorder (cutl i (Branch ss as cs)) @ \<lparr>si_key = k, si_value = v\<rparr> # inorder (cutr i (Branch ss as cs))"
proof -
  let ?s = "\<lparr>si_key = k, si_value = v\<rparr>"
  show b: "bal d (Branch (ss[i := ?s]) as cs)" using t(1) by (cases d) simp_all
  have e: "Branch ss as cs = Branch (take i ss @ [ss ! i] @ drop (Suc i) ss) (as @ [] @ []) (cs @ [] @ [])"
      "Branch (ss[i := ?s]) as cs = Branch (take i ss @ [?s] @ drop (Suc i) ss) (as @ [] @ []) (cs @ [] @ [])"
    using focus_lists [OF t(3)] by simp_all
  have l: "length as = length cs" "length [] = length []" by (rule bal_lengths [OF t(1)]) simp
  have x': "xfer H (vals [ss ! i] + footl [] []) H' (vals [?s] + footl [] [] + {#})" using x by simp
  note hm = held_middle [OF t(2) [unfolded e(1)] l l(2) x' heldl_simps(1), folded e]
  show "held H' (Branch (ss[i := ?s]) as cs)" by (rule hm(1))
  show "xfer H (foot (Branch ss as cs)) H' (foot (Branch (ss[i := ?s]) as cs))" using hm(2) by (simp only: add_0_right)
  have "cutl i (Branch (ss[i := ?s]) as cs) = cutl i (Branch ss as cs)" "cutr i (Branch (ss[i := ?s]) as cs) = cutr i (Branch ss as cs)"
    by (simp_all add: cutl_def cutr_def)
  then show "inorder (Branch (ss[i := ?s]) as cs) = inorder (cutl i (Branch ss as cs)) @ ?s # inorder (cutr i (Branch ss as cs))"
    using cut_inorder [OF b, of i] t(3) by simp
qed

section \<open>Operations on a stored key\<close>

lemma node_set_separator:
  assumes "node_has n ss as" "i < length ss" "sp_separator s = Some x"
  obtains n' where "set_separator i s n = Ok n'" "node_has n' (ss[i := x]) as" "nd_changed n'"
proof -
  note h = assms(1) [unfolded node_has_fill]
  obtain n' where "set_separator i s n = Ok n'" "array_sizes n'" "sep_list n' = (sep_list n)[i := sp_separator s]"
      "kid_list n' = kid_list n" "nd_changed n'"
    using set_separator_lists [OF node_has_sizes [OF assms(1)], of i s] assms(2) h by auto
  then show thesis using h assms(2,3) by (intro that) (simp_all add: node_has_fill fill_upd)
qed

text \<open>The content when the entry of separator \<open>i\<close> becomes \<open>e\<close>.\<close>

lemma content_at:
  assumes t: "bal d t" "held H t" "sorted_keys (inorder t)" and i: "i < length (nt_seps t)" and x: "xfer H {#si_value (nt_seps t ! i)#} H' M"
    and k: "k = si_key (nt_seps t ! i)" and e: "H (si_value (nt_seps t ! i)) = Some e0"
  shows "map_of (cont H (inorder t)) k = Some e0"
    "map_of (cont H' (inorder (cutl i t)) @ (k, e) # cont H' (inorder (cutr i t))) = (map_of (cont H (inorder t)))(k \<mapsto> e)"
    "map_of (cont H' (inorder (cutl i t) @ inorder (cutr i t))) = (map_of (cont H (inorder t)))(k := None)"
proof -
  note a = around_separator [OF t i x]
  have c: "cont H (inorder t) = cont H (inorder (cutl i t)) @ (k, e0) # cont H (inorder (cutr i t))"
    using cut_inorder [OF t(1) i] k e by simp
  note m = map_of_at [OF keys_around [OF a(3,4), of H, folded k]]
  show "map_of (cont H (inorder t)) k = Some e0" unfolding c m(1) by simp
  show "map_of (cont H' (inorder (cutl i t)) @ (k, e) # cont H' (inorder (cutr i t))) = (map_of (cont H (inorder t)))(k \<mapsto> e)"
    unfolding c a(1,2) m(1) by simp
  show "map_of (cont H' (inorder (cutl i t) @ inorder (cutr i t))) = (map_of (cont H (inorder t)))(k := None)"
    unfolding c m(3) using a(1,2) by simp
qed

lemma set_found:
  assumes p: "params cd K u" and r: "ready cd cp env H (m + u)" and t: "stands K d lo H n (Branch ss as cs)" "i < length ss" "si_key (ss ! i) = k"
    and v: "length val + 65 \<le> u"
  obtains n' env' where "and_then (create_separator cd k val (Some (si_value (ss ! i))) env) (\<lambda>(sep, env).
      and_then (set_separator i sep n) (\<lambda>self. Ok ((None, False), self, changes, env))) = Ok ((None, False), n', changes, env')"
    "changed cd cp K (tr_ref_counted (fst env)) m d lo n (Branch ss as cs) H env [Set k val] (None, False) n' env'"
proof -
  let ?t = "Branch ss as cs"
  have s: "node_has n ss as" "bal d ?t" "kids_fat ?t" "held H ?t" "sorted_keys (inorder ?t)" "short_keys K (inorder ?t)" "lo \<le> length ss"
    using t(1) by (simp_all add: stands_def node_is_def)
  have i: "i < length (nt_seps ?t)" using t(2) by simp
  have "si_value (ss ! i) \<in># foot ?t" using t(2) by auto
  then have "si_value (ss ! i) \<in> dom H" using s(4) unfolding held_def owns_def by blast
  then obtain rc x where e: "H (si_value (ss ! i)) = Some (rc, x)" by auto
  obtain sep v' env' H' where o: "create_separator cd k val (Some (si_value (ss ! i))) env = Ok (sep, env')" "sp_separator sep = Some \<lparr>si_key = k, si_value = v'\<rparr>"
    "xfer H {#si_value (ss ! i)#} H' {#v'#}" "H' v' = Some (if tr_ref_counted (fst env) then (more_refs rc, x) else (1, val))"
    "ready cd cp env' H' m" "same_env env env'"
    by (rule value_at [OF p r v e])
  obtain n' where n': "set_separator i sep n = Ok n'" "node_has n' (ss[i := \<lparr>si_key = k, si_value = v'\<rparr>]) as" "nd_changed n'"
    by (rule node_set_separator [OF s(1) t(2) o(2)])
  note sr = sep_replaced [OF s(2,4) t(2) o(3), of k]
  have x': "xfer H {#si_value (nt_seps ?t ! i)#} H' {#v'#}" using o(3) by simp
  note a = around_separator [OF s(2,4,5) i x']
  have k: "k = si_key (nt_seps ?t ! i)" using t(3) by simp
  note c = content_at [OF s(2,4,5) i x' k]
  let ?t' = "Branch (ss[i := \<lparr>si_key = k, si_value = v'\<rparr>]) as cs"
  have so: "sorted_keys (inorder ?t')" "short_keys K (inorder ?t')"
    unfolding sr(4) using sorted_around(2) [OF a(3-6)] s(6) cut_inorder [OF s(2) i] t(3) by auto
  have "cont H' (inorder ?t') = cont H' (inorder (cutl i ?t)) @ (k, if tr_ref_counted (fst env) then (more_refs rc, x) else (1, val)) # cont H' (inorder (cutr i ?t))"
    unfolding sr(4) using o(4) by simp
  then have mp: "map_of (cont H' (inorder ?t')) = apply_ops (tr_ref_counted (fst env)) [Set k val] (map_of (cont H (inorder ?t)))"
    using c(1,2) e by simp
  have "changed cd cp K (tr_ref_counted (fst env)) m d lo n ?t H env [Set k val] (None, False) n' env'"
    by (rule changed_one [OF _ _ sr(1) _ sr(2,3) so mp _ o(5,6)]) (use n' s in \<open>simp_all add: node_is_def tracks_def kids_fat_def\<close>)
  then show thesis using o(1) n'(1) by (intro that) simp_all
qed

text \<open>The entry that \<open>Reference\<close> and \<open>Dereference\<close> leave.\<close>

fun counted :: "bool \<Rightarrow> ('k, 'v) operation \<Rightarrow> u32 \<times> bytes \<Rightarrow> (u32 \<times> bytes) option" where
  "counted rcd (Dereference k) (rc, x) = (if rcd \<and> rc \<noteq> 1 then Some (fewer_refs rc, x) else None)"
| "counted rcd op (rc, x) = Some (if rcd then more_refs rc else rc, x)"

lemma counted_apply:
  assumes "M (op_key op) = Some e" "\<forall>k v. op \<noteq> Set k v"
  shows "apply_op rcd pre op M = M(op_key op := counted rcd op e)"
  using assms by (cases op; cases e) auto

lemma value_counted:
  assumes r: "ready cd cp env H m" and a: "H a = Some e" and op: "\<forall>k v. op \<noteq> Set k v"
  obtains q env' H' where "tree_existing cd a op (tr_ref_counted (fst env)) env = Ok ((q, None), env')"
    "q = None \<longleftrightarrow> counted (tr_ref_counted (fst env)) op e = None" "H' a = counted (tr_ref_counted (fst env)) op e"
    "xfer H {#a#} H' (if counted (tr_ref_counted (fst env)) op e = None then {#} else {#a#})"
    "ready cd cp env' H' m" "same_env env env'"
proof -
  obtain rc x where e: "e = (rc, x)" by (cases e)
  have h: "heap_rel cd cp env H" "space env m" "a \<noteq> 0" using r a by (auto simp: ready_def)
  have upd: "xfer H {#a#} (H(a \<mapsto> y)) {#a#}" for y using xfer_move [of H a a y] a by simp
  have drp: "xfer H {#a#} (H(a := None)) {#}" using a by (intro xfer_drop) simp
  have nx: "ready cd cp env' (H(a := y)) m" if "heap_rel cd cp env' (H(a := y))" "same_env env env'" "space env' m" for env' y
    using ready_next [OF r that] h(3) r by (simp add: ready_def)
  show thesis
  proof (cases "tr_ref_counted (fst env)")
    case True
    show thesis
    proof (cases op)
      case (Reference k)
      obtain env' where o: "tree_existing cd a op True env = Ok ((Some Written, None), env')" "heap_rel cd cp env' (H(a \<mapsto> (more_refs rc, x)))"
          "same_env env env'" "space env' m"
        by (rule tree_ref_heap [OF h(1) a [unfolded e] True h(2) disjI1 [OF Reference]])
      show thesis using o(1,3) upd nx [OF o(2-4)] True Reference e by (intro that [of "Some Written" env' "H(a \<mapsto> (more_refs rc, x))"]) simp_all
    next
      case (Dereference k)
      obtain env' where o: "tree_existing cd a (Dereference k) True env = Ok ((if rc = 1 then None else Some Written, None), env')"
          "heap_rel cd cp env' (H(a := if rc = 1 then None else Some (fewer_refs rc, x)))" "same_env env env'" "space env' m"
        by (rule tree_deref_heap [OF h(1) a [unfolded e] True h(2)])
      show thesis using o(1,3) upd drp nx [OF o(2-4)] True Dereference e
        by (intro that [of "if rc = 1 then None else Some Written" env' "H(a := if rc = 1 then None else Some (fewer_refs rc, x))"]) simp_all
    qed (use op in simp)
  next
    case False
    show thesis
    proof (cases op)
      case (Reference k)
      have "xfer H {#a#} H {#a#}" using a by (intro xfer_refl) (auto simp: owns_def)
      then show thesis using tree_ref_skipped [OF h(1), of a k] False Reference e a r
        by (intro that [of "Some Skipped" env H]) simp_all
    next
      case (Dereference k)
      obtain env' where o: "tree_existing cd a (Dereference k) False env = Ok ((None, None), env')"
          "heap_rel cd cp env' (H(a := None))" "same_env env env'" "space env' m"
        by (rule tree_remove_heap [OF h(1) a h(2)])
      show thesis using o(1,3) drp nx [OF o(2-4)] False Dereference e by (intro that [of None env' "H(a := None)"]) simp_all
    qed (use op in simp)
  qed
qed

section \<open>Removing a separator\<close>

text \<open>The value of separator \<open>i\<close> is gone (\<open>H\<close> became \<open>H0\<close>); the separator follows.\<close>

definition removed :: "codec \<Rightarrow> compress \<Rightarrow> nat \<Rightarrow> nat \<Rightarrow> nat \<Rightarrow> ntree \<Rightarrow> heap \<Rightarrow> heap \<Rightarrow> tree_env \<Rightarrow> (node \<times> tree_env) result \<Rightarrow> bool" where
  "removed cd cp m d i t H H0 env res \<longleftrightarrow>
     (\<exists>n t' env' H'. res = Ok (n, env') \<and> node_is n t' \<and> nd_changed n \<and> bal d t' \<and> kids_fat t' \<and>
        inorder t' = inorder (cutl i t) @ inorder (cutr i t) \<and> held H' t' \<and> xfer H (foot t) H' (foot t') \<and>
        cont H' (inorder t') = cont H0 (inorder t') \<and> length (nt_seps t) \<le> Suc (length (nt_seps t')) \<and>
        ready cd cp env' H' m \<and> same_env env env')"

lemma removedI:
  assumes "res = Ok (n, env')" "node_is n t'" "nd_changed n" "bal d t'" "kids_fat t'" "inorder t' = inorder (cutl i t) @ inorder (cutr i t)"
    and "held H' t'" "xfer H (foot t) H' (foot t')" "cont H' (inorder t') = cont H0 (inorder t')" "length (nt_seps t) \<le> Suc (length (nt_seps t'))"
    and "ready cd cp env' H' m" "same_env env env'"
  shows "removed cd cp m d i t H H0 env res"
  unfolding removed_def using assms by blast

lemma removed_leaf:
  assumes r: "ready cd cp env H0 m" and n: "node_has n ss []" and t: "held H (Branch ss [] [])" "i < length ss" "length ss \<le> 8"
    and x: "xfer H {#si_value (ss ! i)#} H0 {#}"
  shows "removed cd cp m 0 i (Branch ss [] []) H H0 env (remove_existing cd 0 n i env)"
proof -
  obtain q n1 where o: "remove_separator i n = Ok (q, n1)" "node_has (remove_from i False True n1) (del i ss) []" "nd_changed (remove_from i False True n1)"
    by (rule node_delete_separator [OF n t(2)])
  have e: "Branch ss [] [] = Branch (take i ss @ [ss ! i] @ drop (Suc i) ss) ([] @ [] @ []) ([] @ [] @ [])"
    using focus_lists(1) [OF t(2)] by simp
  have x': "xfer H (vals [ss ! i] + footl [] []) H0 (vals [] + footl [] [] + {#})" using x by simp
  have l: "length ([] :: address list) = length ([] :: ntree list)" by simp
  note hm = held_middle [OF t(1) [unfolded e] l l l x' heldl_simps(1), folded e]
  have d: "Branch (take i ss @ [] @ drop (Suc i) ss) ([] @ [] @ []) ([] @ [] @ []) = Branch (del i ss) [] []" by (simp add: del_def)
  have res: "remove_existing cd 0 n i env = Ok (remove_from i False True n1, env)" using o(1) by (simp add: remove_existing_def)
  show ?thesis
    by (rule removedI [OF res _ o(3) _ _ _ hm(1) [unfolded d] hm(2) [unfolded d add_0_right] _ _ r])
      (use o(2) t in \<open>simp_all add: node_is_def kids_fat_def cutl_def cutr_def del_def\<close>)
qed

lemma cutl_inorder:
  assumes "bal (Suc d) (Branch ss as cs)" "i < length ss"
  shows "inorder (cutl i (Branch ss as cs)) = lpart (take i ss) (map inorder (take i cs)) @ inorder (cs ! i)"
proof -
  have "take (Suc i) cs = take i cs @ [cs ! i]" using assms by (simp add: take_Suc_conv_app_nth)
  then show ?thesis using weave_focus [of "take i ss" "map inorder (take i cs)" "[]" "inorder (cs ! i)" "[]"] assms by (simp add: cutl_def)
qed

lemma remove_separator_children: "remove_separator i n = Ok (q, n') \<Longrightarrow> nd_children n' = nd_children n"
  by (auto simp: remove_separator_def put_separator_def assert_r_def split: if_splits)

lemma gap_filled:
  assumes n: "array_sizes n" "sep_list n = (fill 8 ss)[i := None]" "kid_list n = fill 9 as"
    and len: "i < length ss" "length ss \<le> 8" "i < length as" "length as \<le> 9" and s: "sp_separator q = Some s"
  obtains n' where "set_separator i q (if a = as ! i then n else moved_child n i a) = Ok n'" "node_has n' (ss[i := s]) (as[i := a])" "nd_changed n'"
proof -
  let ?n = "if a = as ! i then n else moved_child n i a"
  have sz: "array_sizes ?n" "i < 8" "i < length (nd_children n)" using n(1) len by (auto simp: array_sizes_def moved_child_def)
  obtain n' where o: "set_separator i q ?n = Ok n'" "sep_list n' = (sep_list ?n)[i := sp_separator q]" "kid_list n' = kid_list ?n" "nd_changed n'"
    by (rule set_separator_lists [OF sz(1,2), of q])
  have "kid_list ?n = fill 9 (as[i := a])" using n(3) len sz(3) by (auto simp: moved_child_def map_update fill_upd)
  moreover have "sep_list ?n = (fill 8 ss)[i := None]" using n(2) by (simp add: moved_child_def)
  ultimately have "node_has n' (ss[i := s]) (as[i := a])" using o(2,3) len s by (simp add: node_has_fill fill_upd)
  with o(1,4) show thesis by (intro that)
qed

text \<open>An inner node: the greatest separator below takes the place of the one that was removed.\<close>

lemma replaced_from_below:
  assumes p: "params cd K u" and r: "ready cd cp env H0 (m + u + d * (3 * u))" and n: "node_has n ss as"
    and t: "bal (Suc d) (Branch ss as cs)" "kids_fat (Branch ss as cs)" "held H (Branch ss as cs)" "short_keys K (inorder (Branch ss as cs))" "i < length ss"
    and x: "xfer H {#si_value (ss ! i)#} H0 {#}"
  obtains q0 n1 c0 q c t' s env1 n2 env2 n3 a H2 where "remove_separator i n = Ok (q0, n1)" "env_fetch_child cd n1 i env = Ok (Some c0)"
    "remove_last d cd c0 env = Ok ((length (nt_seps t') < 4, Some q), c, env1)" "write_child cd n1 i c env1 = Ok (n2, env2)" "set_separator i q n2 = Ok n3"
    "node_has n3 (ss[i := s]) (as[i := a])" "nd_changed n3" "bal d t'" "kids_fat t'" "3 \<le> length (nt_seps t')"
    "inorder (cs ! i) = inorder t' @ [s]" "held H2 (Branch (ss[i := s]) (as[i := a]) (cs[i := t']))"
    "xfer H (foot (Branch ss as cs)) H2 (foot (Branch (ss[i := s]) (as[i := a]) (cs[i := t'])))"
    "\<forall>b\<in>#vals (take i ss) + vals (drop (Suc i) ss) + footl (take i as) (take i cs) + footl (drop (Suc i) as) (drop (Suc i) cs). H2 b = H0 b"
    "cont H2 (inorder (cs ! i)) = cont H0 (inorder (cs ! i))" "ready cd cp env2 H2 m" "same_env env env2"
proof -
  let ?t = "Branch ss as cs" and ?c = "cs ! i" and ?v = "si_value (ss ! i)" and ?a = "as ! i"
  let ?N = "vals (take i ss) + vals (drop (Suc i) ss) + footl (take i as) (take i cs) + footl (drop (Suc i) as) (drop (Suc i) cs)"
  have len: "i < length cs" "i < length as" "length as = length cs" using t(1,5) by simp_all
  have ho: "owns H (foot ?t)" "stored H ?t" using t(3) unfolding held_def by blast+
  note ko = kid_ok [OF t(1) ho(2,1) len(1)]
  have fc: "fat ?c" using t(2) len(1) by (simp add: kids_fat_def)
  then have l8: "length (nt_seps ?c) \<le> 8" by (cases ?c) simp
  have sk: "short_keys K (inorder ?c)" using short_keys_sub [OF t(4) inorder_seps(2) [OF t(1)]] len(1) by simp
  have "vals ss = vals (take i ss @ [ss ! i] @ drop (Suc i) ss)" using focus_lists(1) [OF t(5)] by simp
  then have "foot ?t = {#?v#} + (({#?a#} + foot ?c) + ?N)" unfolding kid_foot [OF len(1,3)] by simp
  then have own: "owns H ({#?v#} + (({#?a#} + foot ?c) + ?N))" using ho(1) by metis
  note f0 = xfer_frame [OF x own]
  have own0: "owns H0 (({#?a#} + foot ?c) + ?N)" using f0(1) by (simp add: xfer_def)
  then have oc: "owns H0 (foot ?c)" "owns H0 (foot ?c + {#?a#})" unfolding owns_union by blast+
  have h0: "stored H0 ?c" "H0 ?a = Some (1, tbytes ?c)" using f0(2) ko(4) by (auto intro: stored_frame [OF ko(2)])
  have z: "H0 0 = None" using r by (simp add: ready_def)
  note g = good_tree [OF ko(1) l8 oc(1) z sk]
  have nf: "length ss \<le> 8" "length as \<le> 9" "sep_list n = fill 8 ss" "kid_list n = fill 9 as" using n by (simp_all add: node_has_fill)
  have i8: "i < 8" using t(5) nf(1) by simp
  obtain q0 n1 where q0: "remove_separator i n = Ok (q0, n1)" "array_sizes n1" "sep_list n1 = (sep_list n)[i := None]" "kid_list n1 = kid_list n"
    by (rule remove_separator_lists [OF node_has_sizes [OF n] i8])
  have kids: "nd_children n1 = nd_children n" by (rule remove_separator_children [OF q0(1)])
  obtain c0 where c0: "env_fetch_child cd n i env = Ok (Some c0)" "node_is c0 ?c" "\<not> nd_changed c0"
    by (rule fetch_sibling [OF r n len(2) h0(2) g(2,3)])
  have hc: "held H0 ?c" using h0(1) oc(1) unfolding held_def by blast
  from remove_last_spec [OF p r c0(2) ko(1) fc hc sk]
  obtain q c t' s env1 H1 where o: "remove_last d cd c0 env = Ok ((length (nt_seps t') < 4, Some q), c, env1)" "sp_separator q = Some s"
      "node_is c t'" "tracks c0 ?c c t'" "bal d t'" "kids_fat t'" "3 \<le> length (nt_seps t')" "inorder ?c = inorder t' @ [s]" "held H1 t'"
      "xfer H0 (foot ?c) H1 (foot t' + {#si_value s#})" "cont H1 (inorder ?c) = cont H0 (inorder ?c)"
      "ready cd cp env1 H1 (m + u)" "same_env env env1"
    unfolding lost_last_def by blast
  note f1 = xfer_frame [OF o(10) oc(2)]
  have gt: "good_node K t'" by (rule held_good [OF o(9,5,6,12)]) (use sk o(8) in simp)
  have a1: "H1 ?a \<noteq> None" "nd_changed c \<or> H1 ?a = Some (1, nbytes (nt_seps t') (nt_addrs t'))"
    using f1(2) h0(2) o(4) c0(3) by (auto simp: tracks_def tbytes_def)
  note nu = node_has_update [OF n len(2)]
  obtain a env2 H2 where w: "write_child cd n1 i c env1 = Ok (if a = ?a then n1 else moved_child n1 i a, env2)"
      "xfer H1 {#?a#} H2 {#a#}" "H2 a = Some (1, tbytes t')" "ready cd cp env2 H2 m" "same_env env1 env2"
    unfolding tbytes_def
    by (rule write_child_raw [OF p o(12) nu(1,3) [folded kids] o(3) [unfolded node_is_def] gt a1])
  obtain n3 where n3: "set_separator i q (if a = ?a then n1 else moved_child n1 i a) = Ok n3" "node_has n3 (ss[i := s]) (as[i := a])" "nd_changed n3"
    by (rule gap_filled [OF q0(2) q0(3,4) [unfolded nf(3,4)] t(5) nf(1) len(2) nf(2) o(2)])
  have cm: "{#?a#} + (foot t' + {#si_value s#}) = foot t' + {#si_value s#} + {#?a#}" "foot ?c + {#?a#} = {#?a#} + foot ?c" by simp_all
  have "owns H1 ({#?a#} + (foot t' + {#si_value s#}))" using f1(1) unfolding xfer_def cm(1) by blast
  note f2 = xfer_frame [OF w(2) this]
  have "xfer H ({#?v#} + ({#?a#} + foot ?c)) H2 ({#a#} + (foot t' + {#si_value s#}))"
  proof -
    have "owns H (({#?v#} + ({#?a#} + foot ?c)) + ?N)" using own unfolding add.assoc .
    then have "owns H ({#?v#} + ({#?a#} + foot ?c))" unfolding owns_union [of H "{#?v#} + ({#?a#} + foot ?c)"] by (rule conjunct1)
    from xfer_frame(1) [OF x this] have "xfer H ({#?v#} + ({#?a#} + foot ?c)) H0 (foot ?c + {#?a#})"
      unfolding add_0_left cm(2) .
    then have "xfer H ({#?v#} + ({#?a#} + foot ?c)) H1 ({#?a#} + (foot t' + {#si_value s#}))"
      unfolding cm(1) by (rule xfer_trans [OF _ f1(1)])
    then show ?thesis by (rule xfer_trans [OF _ f2(1)])
  qed
  then have x2: "xfer H (vals [ss ! i] + footl [?a] [?c]) H2 (vals [s] + footl [a] [t'] + {#})" by (simp add: ac_simps)
  have e: "?t = Branch (take i ss @ [ss ! i] @ drop (Suc i) ss) (take i as @ [?a] @ drop (Suc i) as) (take i cs @ [?c] @ drop (Suc i) cs)"
      "Branch (ss[i := s]) (as[i := a]) (cs[i := t']) =
        Branch (take i ss @ [s] @ drop (Suc i) ss) (take i as @ [a] @ drop (Suc i) as) (take i cs @ [t'] @ drop (Suc i) cs)"
    using focus_lists [OF t(5)] focus_lists [OF len(2)] focus_lists [OF len(1)] by simp_all
  have la: "length (take i as) = length (take i cs)" "length [?a] = length [?c]" "length [a] = length [t']" using len by simp_all
  have "stored H1 t'" using o(9) unfolding held_def by blast
  then have st: "stored H2 t'" by (rule stored_frame) (use f2(2) in simp)
  then have hl: "heldl H2 [a] [t']" using w(3) by simp
  note hm = held_middle [OF t(3) [unfolded e(1)] la x2 hl, folded e]
  have "\<forall>b\<in>#?N. H0 b = H b" using f0(2) unfolding set_mset_union by blast
  with hm(3) have same: "\<forall>b\<in>#?N. H2 b = H0 b" by (metis (no_types, lifting))
  have "cont H2 (inorder t' @ [s]) = cont H1 (inorder t' @ [s])"
    by (rule cont_frame) (use f2(2) inorder_values [OF o(5)] in auto)
  then have co: "cont H2 (inorder ?c) = cont H0 (inorder ?c)" using o(8,11) by simp
  have f: "env_fetch_child cd n1 i env = Ok (Some c0)" using c0(1) unfolding fetch_child_def kids .
  show thesis
    by (rule that [OF q0(1) f o(1) w(1) n3 o(5-8) hm(1) hm(2) [unfolded add_0_right] same co w(4) same_env_trans [OF o(13) w(5)]])
qed

lemma removed_inner:
  assumes p: "params cd K u" and r: "ready cd cp env H0 (m + Suc d * (3 * u))" and n: "node_has n ss as"
    and t: "bal (Suc d) (Branch ss as cs)" "kids_fat (Branch ss as cs)" "held H (Branch ss as cs)" "short_keys K (inorder (Branch ss as cs))" "i < length ss"
    and x: "xfer H {#si_value (ss ! i)#} H0 {#}"
  shows "removed cd cp m (Suc d) i (Branch ss as cs) H H0 env (remove_existing cd (Suc d) n i env)"
proof -
  let ?t = "Branch ss as cs"
  have r': "ready cd cp env H0 ((m + u + u) + u + d * (3 * u))" by (rule ready_mono [OF r]) simp
  obtain q0 n1 c0 q c t' s env1 n2 env2 n3 a H2 where o: "remove_separator i n = Ok (q0, n1)" "env_fetch_child cd n1 i env = Ok (Some c0)"
    "remove_last d cd c0 env = Ok ((length (nt_seps t') < 4, Some q), c, env1)" "write_child cd n1 i c env1 = Ok (n2, env2)" "set_separator i q n2 = Ok n3"
    "node_has n3 (ss[i := s]) (as[i := a])" "nd_changed n3" "bal d t'" "kids_fat t'" "3 \<le> length (nt_seps t')"
    "inorder (cs ! i) = inorder t' @ [s]" "held H2 (Branch (ss[i := s]) (as[i := a]) (cs[i := t']))"
    "xfer H (foot ?t) H2 (foot (Branch (ss[i := s]) (as[i := a]) (cs[i := t'])))"
    "\<forall>b\<in>#vals (take i ss) + vals (drop (Suc i) ss) + footl (take i as) (take i cs) + footl (drop (Suc i) as) (drop (Suc i) cs). H2 b = H0 b"
    "cont H2 (inorder (cs ! i)) = cont H0 (inorder (cs ! i))" "ready cd cp env2 H2 (m + u + u)" "same_env env env2"
    by (rule replaced_from_below [OF p r' n t x])
  let ?t1 = "Branch (ss[i := s]) (as[i := a]) (cs[i := t'])"
  have len: "i < length cs" "i < length as" "length (take i ss) = length (take i cs)" "length ss \<le> 8" using t(1,2,5) by (simp_all add: kids_fat_def)
  have b1: "bal (Suc d) ?t1" using t(1) o(8) by (auto dest: subsetD [OF set_update_subset_insert])
  have cl: "inorder (cutl i ?t) = lpart (take i ss) (map inorder (take i cs)) @ inorder t' @ [s]" using cutl_inorder [OF t(1,5)] o(11) by simp
  have "cutr i ?t1 = cutr i ?t" "nt_seps ?t1 ! i = s" using t(5) by (simp_all add: cutr_def)
  moreover have "inorder (cutl i ?t1) = lpart (take i ss) (map inorder (take i cs)) @ inorder t'" using cutl_inorder [OF b1, of i] t(5) len by simp
  ultimately have i1: "inorder ?t1 = inorder (cutl i ?t) @ inorder (cutr i ?t)" using cut_inorder [OF b1, of i] t(5) cl by simp
  have "cont H2 (lpart (take i ss) (map inorder (take i cs))) = cont H0 (lpart (take i ss) (map inorder (take i cs)))"
  proof (rule cont_frame)
    have "\<forall>c\<in>set (take i cs). bal d c" using t(1) by (auto dest: in_set_takeD)
    from vals_part(1) [OF len(3) this] o(14)
    show "\<forall>a\<in>#vals (lpart (take i ss) (map inorder (take i cs))). H2 a = H0 a" unfolding footl_def set_mset_union by blast
  qed
  moreover have "cont H2 (inorder (cutr i ?t)) = cont H0 (inorder (cutr i ?t))"
  proof (rule cont_frame)
    have f: "foot (cutr i ?t) = vals (drop (Suc i) ss) + footl (drop (Suc i) as) (drop (Suc i) cs)" by (simp add: cutr_def footl_def)
    have "bal (Suc d) (cutr i ?t)" using t(5) by (intro cut_bal(2) [OF t(1)]) simp
    then have "\<forall>s\<in>set (inorder (cutr i ?t)). si_value s \<in># foot (cutr i ?t)" using inorder_values by blast
    then have "\<forall>s\<in>set (inorder (cutr i ?t)). H2 (si_value s) = H0 (si_value s)" using o(14) unfolding f set_mset_union by blast
    then show "\<forall>a\<in>#vals (inorder (cutr i ?t)). H2 a = H0 a" by auto
  qed
  ultimately have co: "cont H2 (inorder ?t1) = cont H0 (inorder ?t1)" using o(15) unfolding i1 cl o(11) by simp
  show ?thesis
  proof (cases "length (nt_seps t') < 4")
    case True
    have b0: "bal (Suc d) (Branch (ss[i := s]) as cs)" "kids_fat (Branch (ss[i := s]) as cs)" "ss[i := s] \<noteq> []" "length (nt_seps t') = 3"
      using t(1,2,5) True o(10) by (auto simp: kids_fat_def)
    note rg = regrown_one [OF len(2,1), of "ss[i := s]" a t', symmetric]
    have sk: "short_keys K (inorder ?t1)" using t(4,5) cut_inorder [OF t(1), of i] unfolding i1 by simp
    have x1: "xfer H (foot ?t) H2 (foot ?t1 + {#})" using o(13) by (simp only: add_0_right)
    obtain n' t2 env' H' where b: "rebalance cd n3 (Suc d) i env2 = Ok (n', env')" "node_is n' t2" "nd_changed n'" "bal (Suc d) t2" "kids_fat t2"
        "inorder t2 = inorder ?t1" "held H' t2" "xfer H (foot ?t) H' (foot t2 + {#})" "cont H' (inorder t2) = cont H2 (inorder t2)"
        "length (ss[i := s]) \<le> Suc (length (nt_seps t2))" "ready cd cp env' H' m" "same_env env2 env'"
      unfolding rg by (rule lean_rebalanced [OF p o(16,6) b0(1-3) len(1) o(8,9) b0(4) o(12) [unfolded rg] sk [unfolded rg] x1 [unfolded rg]])
    have res: "remove_existing cd (Suc d) n i env = Ok (n', env')" using o(1-5) b(1) True by (simp add: remove_existing_def)
    show ?thesis
      by (rule removedI [OF res b(2-5) _ b(7) b(8) [unfolded add_0_right] _ _ b(11) same_env_trans [OF o(17) b(12)]])
        (use b(6,9,10) i1 co in simp_all)
  next
    case False
    have res: "remove_existing cd (Suc d) n i env = Ok (n3, env2)" using o(1-5) False by (simp add: remove_existing_def)
    have "fat t'" using False o(9) by (intro kids_fat_fat) simp_all
    then have kf: "kids_fat ?t1" using kids_fat_update [OF t(2), of t'] by (simp add: kids_fat_def)
    show ?thesis
      by (rule removedI [OF res _ o(7) b1 kf i1 o(12,13) co _ ready_mono [OF o(16)] o(17)]) (use o(6) in \<open>simp_all add: node_is_def\<close>)
  qed
qed

lemma removed_any:
  assumes p: "params cd K u" and r: "ready cd cp env H0 (m + d * (3 * u))" and t: "stands K d lo H n (Branch ss as cs)" "i < length ss"
    and x: "xfer H {#si_value (ss ! i)#} H0 {#}"
  shows "removed cd cp m d i (Branch ss as cs) H H0 env (remove_existing cd d n i env)"
proof -
  have s: "node_has n ss as" "bal d (Branch ss as cs)" "kids_fat (Branch ss as cs)" "held H (Branch ss as cs)" "short_keys K (inorder (Branch ss as cs))"
    using t(1) by (simp_all add: stands_def node_is_def)
  show ?thesis
  proof (cases d)
    case 0
    then have e: "as = []" "cs = []" using s(2) by simp_all
    have "removed cd cp m 0 i (Branch ss [] []) H H0 env (remove_existing cd 0 n i env)"
      by (rule removed_leaf [OF _ _ _ t(2) _ x]) (use r s 0 e in \<open>simp_all add: kids_fat_def\<close>)
    then show ?thesis using 0 e by simp
  next
    case (Suc d')
    show ?thesis unfolding Suc by (rule removed_inner [OF p _ s(1) _ s(3-5) t(2) x]) (use r s(2) Suc in simp_all)
  qed
qed

lemma existing_kept:
  assumes t: "stands K d lo H n (Branch ss as cs)" "i < length ss" "si_key (ss ! i) = op_key op" and op: "\<forall>k v. op \<noteq> Set k v"
    and e: "H (si_value (ss ! i)) = Some e" "counted rcd op e = Some e'" "H' (si_value (ss ! i)) = Some e'"
    and x: "xfer H {#si_value (ss ! i)#} H' {#si_value (ss ! i)#}" and r: "ready cd cp env' H' m" "same_env env env'"
  shows "changed cd cp K rcd m d lo n (Branch ss as cs) H env [op] (None, need_rebalance n) n env'"
proof -
  let ?t = "Branch ss as cs"
  have s: "node_is n ?t" "bal d ?t" "kids_fat ?t" "held H ?t" "sorted_keys (inorder ?t)" "short_keys K (inorder ?t)" "lo \<le> length ss" "lo \<le> 4"
    using t(1) by (simp_all add: stands_def)
  have "\<lparr>si_key = op_key op, si_value = si_value (ss ! i)\<rparr> = ss ! i" using t(3) by (cases "ss ! i") simp
  then have same: "ss[i := \<lparr>si_key = op_key op, si_value = si_value (ss ! i)\<rparr>] = ss" by simp
  note sr = sep_replaced [OF s(2,4) t(2) x, of "op_key op", unfolded same]
  have i: "i < length (nt_seps ?t)" "op_key op = si_key (nt_seps ?t ! i)" and x': "xfer H {#si_value (nt_seps ?t ! i)#} H' {#si_value (ss ! i)#}"
      and e': "H (si_value (nt_seps ?t ! i)) = Some e"
    using t(2,3) x e(1) by simp_all
  note c = content_at [OF s(2,4,5) i(1) x' i(2) e']
  have "cont H' (inorder ?t) = cont H' (inorder (cutl i ?t)) @ (op_key op, e') # cont H' (inorder (cutr i ?t))" unfolding sr(4) using e(3) by simp
  then have mp: "map_of (cont H' (inorder ?t)) = apply_ops rcd [op] (map_of (cont H (inorder ?t)))"
    using c(1,2) counted_apply [where M = "map_of (cont H (inorder ?t))" and pre = False, OF c(1) op] e(2) by simp
  have "need_rebalance n \<longleftrightarrow> length ss < 4" using need_rebalance_has s(1) by (simp add: node_is_def)
  then show ?thesis by (intro changed_one [OF s(1) _ sr(1) s(3) sr(2,3) s(5,6) mp _ r]) (use s(7,8) in simp_all)
qed

lemma existing_removed:
  assumes p: "params cd K u" and r: "ready cd cp env H0 (m + d * (3 * u))" and t: "stands K d lo H n (Branch ss as cs)" "i < length ss" "si_key (ss ! i) = op_key op"
    and op: "\<forall>k v. op \<noteq> Set k v" and e: "H (si_value (ss ! i)) = Some e" "counted rcd op e = None" and x: "xfer H {#si_value (ss ! i)#} H0 {#}"
    and r0: "same_env env0 env"
  obtains n' env' where "remove_existing cd d n i env = Ok (n', env')"
    "changed cd cp K rcd m d lo n (Branch ss as cs) H env0 [op] (None, need_rebalance n') n' env'"
proof -
  let ?t = "Branch ss as cs"
  have s: "bal d ?t" "held H ?t" "sorted_keys (inorder ?t)" "short_keys K (inorder ?t)" "lo \<le> length ss" "lo \<le> 4"
    using t(1) by (simp_all add: stands_def)
  from removed_any [OF p r t(1,2) x]
  obtain n' t' env' H' where o: "remove_existing cd d n i env = Ok (n', env')" "node_is n' t'" "nd_changed n'" "bal d t'" "kids_fat t'"
      "inorder t' = inorder (cutl i ?t) @ inorder (cutr i ?t)" "held H' t'" "xfer H (foot ?t) H' (foot t')" "cont H' (inorder t') = cont H0 (inorder t')"
      "length (nt_seps ?t) \<le> Suc (length (nt_seps t'))" "ready cd cp env' H' m" "same_env env env'"
    unfolding removed_def by blast
  have i: "i < length (nt_seps ?t)" "op_key op = si_key (nt_seps ?t ! i)" and x': "xfer H {#si_value (nt_seps ?t ! i)#} H0 {#}"
      and e': "H (si_value (nt_seps ?t ! i)) = Some e"
    using t(2,3) x e(1) by simp_all
  note c = content_at [OF s(1-3) i(1) x' i(2) e'] and a = around_separator [OF s(1-3) i(1) x']
  have "map_of (cont H' (inorder t')) = (map_of (cont H (inorder ?t)))(op_key op := None)" using c(3) o(6,9) by simp
  then have mp: "map_of (cont H' (inorder t')) = apply_ops rcd [op] (map_of (cont H (inorder ?t)))"
    using counted_apply [where M = "map_of (cont H (inorder ?t))" and pre = False, OF c(1) op] e(2) by simp
  have so: "sorted_keys (inorder t')" unfolding o(6) by (rule sorted_around(1) [OF a(3-6)])
  have sk: "short_keys K (inorder t')" using s(4) unfolding cut_inorder [OF s(1) i(1)] o(6) by simp
  have "need_rebalance n' \<longleftrightarrow> length (nt_seps t') < 4" by (rule need_rebalance_has [OF o(2) [unfolded node_is_def]])
  then have "changed cd cp K rcd m d lo n ?t H env0 [op] (None, need_rebalance n') n' env'"
    by (intro changed_one [OF o(2) _ o(4,5,7,8) so sk mp _ o(11) same_env_trans [OF r0 o(12)]]) (use o(3,10) s(5,6) in \<open>simp_all add: tracks_def\<close>)
  with o(1) show thesis by (rule that)
qed

lemma existing_found:
  assumes p: "params cd K u" and r: "ready cd cp env H (m + d * (3 * u))" and t: "stands K d lo H n (Branch ss as cs)" "i < length ss" "si_key (ss ! i) = op_key op"
    and op: "\<forall>k v. op \<noteq> Set k v"
  obtains n' env' where "and_then (tree_existing cd (si_value (ss ! i)) op (tr_ref_counted (fst env)) env) (\<lambda>((outcome, _), env).
        if outcome = None then remove_existing cd d n i env else Ok (n, env)) = Ok (n', env')"
    "changed cd cp K (tr_ref_counted (fst env)) m d lo n (Branch ss as cs) H env [op] (None, need_rebalance n') n' env'"
proof -
  have "si_value (ss ! i) \<in># foot (Branch ss as cs)" "held H (Branch ss as cs)" using t(1,2) by (auto simp: stands_def)
  then have "si_value (ss ! i) \<in> dom H" unfolding held_def owns_def by blast
  then obtain e where e: "H (si_value (ss ! i)) = Some e" by auto
  obtain q env' H' where o: "tree_existing cd (si_value (ss ! i)) op (tr_ref_counted (fst env)) env = Ok ((q, None), env')"
    "q = None \<longleftrightarrow> counted (tr_ref_counted (fst env)) op e = None" "H' (si_value (ss ! i)) = counted (tr_ref_counted (fst env)) op e"
    "xfer H {#si_value (ss ! i)#} H' (if counted (tr_ref_counted (fst env)) op e = None then {#} else {#si_value (ss ! i)#})"
    "ready cd cp env' H' (m + d * (3 * u))" "same_env env env'"
    by (rule value_counted [OF r e op])
  show thesis
  proof (cases "counted (tr_ref_counted (fst env)) op e")
    case None
    have x: "xfer H {#si_value (ss ! i)#} H' {#}" using o(4) None by simp
    obtain n' env2 where "remove_existing cd d n i env' = Ok (n', env2)"
        "changed cd cp K (tr_ref_counted (fst env)) m d lo n (Branch ss as cs) H env [op] (None, need_rebalance n') n' env2"
      by (rule existing_removed [OF p o(5) t op e None x o(6)])
    then show thesis using o(1,2) None by (intro that) simp_all
  next
    case (Some e')
    have x: "xfer H {#si_value (ss ! i)#} H' {#si_value (ss ! i)#}" "H' (si_value (ss ! i)) = Some e'" using o(3,4) Some by simp_all
    have m: "ready cd cp env' H' m" by (rule ready_mono [OF o(5)]) simp
    show thesis
      by (rule that [OF _ existing_kept [OF t op e Some x(2,1) m o(6)]]) (use o(1,2) Some in auto)
  qed
qed

end
