(* ===== verification/Btree_Step.thy ===== *)
theory Btree_Step
  imports Btree_Change
begin

text \<open>
  Operations on a subtree: the insertion of a new key into a leaf, the descent into a child, and the
  loop of \<open>Node::change\<close>, which applies operations as long as their keys belong below the node.
\<close>

section \<open>Insertion into a leaf\<close>

lemma changedI:
  assumes "passed_up (fst r) sm ar ts" "node_is n' t'" "tracks n t n' t'" "bal d t'" "kids_fat t'" "held H' t'"
    and "heldl H' ar ts" "\<forall>c\<in>set ts. bal d c \<and> fat c" "xfer H (foot t) H' (vals sm + foot t' + footl ar ts)"
    and "sorted_keys (weave sm (map inorder (t' # ts)))" "short_keys K (weave sm (map inorder (t' # ts)))"
    and "map_of (cont H' (weave sm (map inorder (t' # ts)))) = apply_ops rcd ops (map_of (cont H (inorder t)))"
    and "if fst r \<noteq> None then fat t'
         else if snd r then length (nt_seps t') < 4 \<and> lo \<le> Suc (length (nt_seps t')) else lo \<le> length (nt_seps t')"
    and "ready cd cp env' H' m" "same_env env env'" "fst r \<noteq> None \<longrightarrow> nd_changed n'"
  shows "changed cd cp K rcd m d lo n t H env ops r n' env'"
  unfolding changed_def using assms by blast

lemma changedE:
  assumes "changed cd cp K rcd m d lo n t H env ops r n' env'"
  obtains t' sm ar ts H' where "passed_up (fst r) sm ar ts" "node_is n' t'" "tracks n t n' t'" "bal d t'" "kids_fat t'" "held H' t'"
    "heldl H' ar ts" "\<forall>c\<in>set ts. bal d c \<and> fat c" "xfer H (foot t) H' (vals sm + foot t' + footl ar ts)"
    "sorted_keys (weave sm (map inorder (t' # ts)))" "short_keys K (weave sm (map inorder (t' # ts)))"
    "map_of (cont H' (weave sm (map inorder (t' # ts)))) = apply_ops rcd ops (map_of (cont H (inorder t)))"
    "if fst r \<noteq> None then fat t'
     else if snd r then length (nt_seps t') < 4 \<and> lo \<le> Suc (length (nt_seps t')) else lo \<le> length (nt_seps t')"
    "ready cd cp env' H' m" "same_env env env'" "fst r \<noteq> None \<longrightarrow> nd_changed n'"
  using assms unfolding changed_def by blast

lemma leaf_with:
  assumes t: "held H (Branch ss [] [])" "i \<le> length ss" and x: "xfer H {#} H' {#si_value s#}"
  shows "held H' (Branch (ins i s ss) [] [])" "xfer H (foot (Branch ss [] [])) H' (foot (Branch (ins i s ss) [] []))"
    "\<forall>a\<in>#vals ss. H' a = H a"
proof -
  have e: "Branch ss [] [] = Branch (take i ss @ [] @ drop i ss) ([] @ [] @ []) ([] @ [] @ [])"
      "Branch (ins i s ss) [] [] = Branch (take i ss @ [s] @ drop i ss) ([] @ [] @ []) ([] @ [] @ [])"
    by (simp_all add: ins_def)
  have l: "length ([] :: address list) = length ([] :: ntree list)" by simp
  have x': "xfer H (vals [] + footl [] []) H' (vals [s] + footl [] [] + {#})" using x by simp
  note hm = held_middle [OF t(1) [unfolded e(1)] l l l x' heldl_simps(1), folded e]
  show "held H' (Branch (ins i s ss) [] [])" by (rule hm(1))
  show "xfer H (foot (Branch ss [] [])) H' (foot (Branch (ins i s ss) [] []))" using hm(2) by (simp only: add_0_right)
  have "vals ss = vals (take i ss @ drop i ss)" by simp
  then show "\<forall>a\<in>#vals ss. H' a = H a" using hm(3) by (metis (no_types, lifting) add_0_right footl_simps(1) image_mset_union mset_append mset_map)
qed

lemma insert_missing:
  assumes p: "params cd K u" and r: "ready cd cp env H (m + u + u)" and t: "stands K 0 lo H n (Branch ss [] [])"
    and k: "\<not> (pos k ss < length ss \<and> si_key (ss ! pos k ss) = k)" "length k \<le> K" "length val + 65 \<le> u"
  obtains q n' env' where "insert_leaf cd n (pos k ss) k val env = Ok (q, n', env')"
    "changed cd cp K (tr_ref_counted (fst env)) m 0 lo n (Branch ss [] []) H env [Set k val] (q, False) n' env'"
proof -
  let ?t = "Branch ss [] []" and ?i = "pos k ss"
  have s: "node_has n ss []" "kids_fat ?t" "held H ?t" "sorted_keys ss" "short_keys K ss" "lo \<le> length ss"
    using t by (simp_all add: stands_def node_is_def)
  have kl: "\<forall>s\<in>set ss. length (si_key s) \<le> K" using s(5) by (simp add: short_keys_def)
  obtain a env1 H1 where o: "xfer H {#} H1 {#a#}" "H1 a = Some (1, val)" "same_env env env1" "ready cd cp env1 H1 (m + u)"
      "grown cd cp m (ins ?i \<lparr>si_key = k, si_value = a\<rparr> ss) [] H1 env1 (insert_leaf cd n ?i k val env)"
    by (rule insert_leaf_spec [OF p r s(1) pos_le kl k(2,3)])
  let ?s = "\<lparr>si_key = k, si_value = a\<rparr>"
  have x: "xfer H {#} H1 {#si_value ?s#}" using o(1) by simp
  note lw = leaf_with [OF s(3) pos_le x]
  have l9: "length (ins ?i ?s ss) \<le> 9" using s(2) by (simp add: kids_fat_def)
  have rm: "ready cd cp env1 H1 m" by (rule ready_mono [OF o(4)]) simp
  obtain q n' t' sm ar ts env' H' where g: "insert_leaf cd n ?i k val env = Ok (q, n', env')" "passed_up q sm ar ts" "node_is n' t'" "nd_changed n'" "bal 0 t'" "kids_fat t'"
    "held H' t'" "heldl H' ar ts" "\<forall>c\<in>set ts. bal 0 c \<and> fat c" "xfer H1 (foot (Branch (ins ?i ?s ss) [] [])) H' (vals sm + foot t' + footl ar ts)"
    "weave sm (map inorder (t' # ts)) = inorder (Branch (ins ?i ?s ss) [] [])" "cont H' (inorder (Branch (ins ?i ?s ss) [] [])) = cont H1 (inorder (Branch (ins ?i ?s ss) [] []))"
    "q = None \<longrightarrow> length (nt_seps t') = length (ins ?i ?s ss)" "q \<noteq> None \<longrightarrow> fat t'" "ready cd cp env' H' m" "same_env env1 env'"
    by (rule grown_tree [OF o(5), of 0 "[]"]) (use lw(1) l9 rm in simp_all)
  have sides: "\<forall>s\<in>set (take ?i ss). si_key s < k" "\<forall>s\<in>set (drop ?i ss). k < si_key s" "sorted_keys (take ?i ss)" "sorted_keys (drop ?i ss)"
    using pos_sorted(1) [OF s(4)] pos_strict [OF s(4) k(1)] sorted_wrt_take [OF s(4)] sorted_wrt_drop [OF s(4)] by (simp_all add: take_map drop_map)
  have w: "weave sm (map inorder (t' # ts)) = take ?i ss @ ?s # drop ?i ss" using g(11) by (simp add: ins_def)
  have so: "sorted_keys (weave sm (map inorder (t' # ts)))" unfolding w by (rule sorted_around(2) [OF sides]) simp
  have sk: "short_keys K (weave sm (map inorder (t' # ts)))" unfolding w
    using s(5) k(2) by (auto simp: short_keys_def dest: in_set_takeD in_set_dropD)
  have c1: "cont H1 ss = cont H ss" by (rule cont_frame [OF lw(3)])
  have "cont H' (take ?i ss @ ?s # drop ?i ss) = cont H1 (take ?i ss) @ (k, (1, val)) # cont H1 (drop ?i ss)"
    using g(12) o(2) by (simp add: ins_def)
  then have "map_of (cont H' (weave sm (map inorder (t' # ts)))) = (map_of (cont H1 (take ?i ss) @ cont H1 (drop ?i ss)))(k \<mapsto> (1, val))"
    unfolding w using map_of_at(1) [OF keys_around [OF sides(1,2)]] by metis
  also have "cont H1 (take ?i ss) @ cont H1 (drop ?i ss) = cont H ss" using c1 by (metis append_take_drop_id cont_simps(3))
  finally have m: "map_of (cont H' (weave sm (map inorder (t' # ts)))) = (map_of (cont H ss))(k \<mapsto> (1, val))" .
  have "k \<notin> si_key ` set ss" using sides(1,2) set_append [of "take ?i ss" "drop ?i ss"] by auto
  then have "map_of (cont H ss) k = None" by (simp add: map_of_eq_None_iff cont_keys)
  then have mp: "map_of (cont H' (weave sm (map inorder (t' # ts)))) = apply_ops (tr_ref_counted (fst env)) [Set k val] (map_of (cont H (inorder ?t)))"
    using m by simp
  have "changed cd cp K (tr_ref_counted (fst env)) m 0 lo n ?t H env [Set k val] (q, False) n' env'"
    by (rule changedI [OF _ g(3) _ g(5-9) xfer_trans [OF lw(2) g(10)] so sk mp _ g(15) same_env_trans [OF o(3) g(16)]])
      (use g(2,4,13,14) s(6) in \<open>auto simp: tracks_def\<close>)
  with g(1) show thesis by (rule that)
qed

section \<open>Ranges of keys\<close>

text \<open>The keys that belong below a node: \<open>R\<close> has no gaps, and a key from \<open>k0\<close> on that the parent sends to the same child is in it.\<close>

definition convex :: "bytes set \<Rightarrow> bool" where
  "convex R \<longleftrightarrow> (\<forall>a\<in>R. \<forall>b\<in>R. \<forall>k. a \<le> k \<and> k \<le> b \<longrightarrow> k \<in> R)"

definition bounded :: "(node \<times> nat) option \<Rightarrow> bytes \<Rightarrow> bytes set \<Rightarrow> bool" where
  "bounded parent k0 R \<longleftrightarrow>
     (case parent of
        None \<Rightarrow> True
      | Some (pn, p) \<Rightarrow> \<forall>k. k0 \<le> k \<longrightarrow> (case node_position pn k of (at, i) \<Rightarrow> \<not> at \<and> i = p \<and> i < number_separator pn) \<longrightarrow> k \<in> R)"

definition between :: "separator_inner list \<Rightarrow> separator_inner list \<Rightarrow> bytes set" where
  "between L R = {k. (\<forall>s\<in>set L. si_key s < k) \<and> (\<forall>s\<in>set R. k < si_key s)}"

lemma convex_between: "convex R \<Longrightarrow> convex (R \<inter> between L R')"
  unfolding convex_def
proof (intro ballI allI impI)
  fix a b k assume R: "\<forall>a\<in>R. \<forall>b\<in>R. \<forall>k. a \<le> k \<and> k \<le> b \<longrightarrow> k \<in> R" and ab: "a \<in> R \<inter> between L R'" "b \<in> R \<inter> between L R'" "a \<le> k \<and> k \<le> b"
  have "si_key s < k" if "s \<in> set L" for s using ab that less_le_trans [of "si_key s" a k] by (simp add: between_def)
  moreover have "k < si_key s" if "s \<in> set R'" for s using ab that le_less_trans [of k b "si_key s"] by (simp add: between_def)
  ultimately show "k \<in> R \<inter> between L R'" using R ab by (auto simp: between_def)
qed

lemma sorted_splice:
  assumes "sorted_keys (L @ X @ R)" "sorted_keys X'" "si_key ` set X' \<subseteq> between L R"
  shows "sorted_keys (L @ X' @ R)"
  using assms unfolding between_def by (auto simp: sorted_wrt_append)

abbreviation left_of :: "nat \<Rightarrow> ntree \<Rightarrow> separator_inner list" where
  "left_of i t \<equiv> lpart (take i (nt_seps t)) (map inorder (take i (nt_kids t)))"

abbreviation right_of :: "nat \<Rightarrow> ntree \<Rightarrow> separator_inner list" where
  "right_of i t \<equiv> rpart (drop i (nt_seps t)) (map inorder (drop (Suc i) (nt_kids t)))"

lemma child_range:
  assumes t: "bal (Suc d) (Branch ss as cs)" "sorted_keys (inorder (Branch ss as cs))" "node_has n ss as"
    and R: "convex R" "si_key ` set (inorder (Branch ss as cs)) \<subseteq> R" "k0 \<in> R"
    and k: "\<not> (pos k0 ss < length ss \<and> si_key (ss ! pos k0 ss) = k0)" and i: "i = pos k0 ss"
  defines "Rc \<equiv> R \<inter> between (left_of i (Branch ss as cs)) (right_of i (Branch ss as cs))"
  shows "i < length cs" "convex Rc" "si_key ` set (inorder (cs ! i)) \<subseteq> Rc" "k0 \<in> Rc" "bounded (Some (n, i)) k0 Rc" "sorted_keys (inorder (cs ! i))"
proof -
  note pf = pos_focus [OF t(2,1) i]
  show ic: "i < length cs" "sorted_keys (inorder (cs ! i))" by (rule pf)+
  show "convex Rc" unfolding Rc_def by (rule convex_between [OF R(1)])
  show "si_key ` set (inorder (cs ! i)) \<subseteq> Rc"
    using t(2) R(2) unfolding pf(2) Rc_def between_def by (auto simp: sorted_wrt_append)
  show "k0 \<in> Rc" using pf(5) pf(6) k R(3) i unfolding Rc_def between_def by auto
  show "bounded (Some (n, i)) k0 Rc"
  proof -
    have "k \<in> Rc" if k0: "k0 \<le> k" and p: "case node_position n k of (at, j) \<Rightarrow> \<not> at \<and> j = i \<and> j < number_separator n" for k
    proof -
      have i': "i = pos k ss" "\<not> (i < length ss \<and> si_key (ss ! i) = k)" "i < length ss"
        using p unfolding node_position_has [OF t(3)] number_separator_has [OF t(3)] by auto
      note pk = pos_focus [OF t(2,1) i'(1)]
      have "k \<le> si_key (ss ! i)"
        using pos_sorted(2) [OF pk(4), of k] i'(1,3) Cons_nth_drop_Suc [OF i'(3)] by (metis list.set_intros(1))
      moreover have "si_key (ss ! i) \<in> R" using R(2) inorder_seps(1) [OF t(1)] i'(3) nth_mem by blast
      ultimately have "k \<in> R" using R(1,3) k0 unfolding convex_def by blast
      then show ?thesis using pk(5) pk(6) [OF i'(2)] unfolding Rc_def between_def by simp
    qed
    then show ?thesis unfolding bounded_def by simp
  qed
qed

section \<open>Descending into a child\<close>

definition ops_ok :: "nat \<Rightarrow> nat \<Rightarrow> changes \<Rightarrow> bool" where
  "ops_ok K u ops \<longleftrightarrow> sorted (map op_key ops) \<and>
     (\<forall>op\<in>set ops. length (op_key op) \<le> K \<and> (\<forall>k v. op = Set k v \<longrightarrow> length v + 65 \<le> u))"

text \<open>Slots that one operation can take in a subtree of depth \<open>d\<close>.\<close>

definition cost :: "nat \<Rightarrow> nat \<Rightarrow> nat" where
  "cost u d = (3 * d + 2) * u"

definition change_result :: "codec \<Rightarrow> compress \<Rightarrow> nat \<Rightarrow> nat \<Rightarrow> nat \<Rightarrow> nat \<Rightarrow> nat \<Rightarrow> node \<Rightarrow> ntree \<Rightarrow> heap \<Rightarrow> tree_env \<Rightarrow> changes \<Rightarrow> bytes set
    \<Rightarrow> change_out result \<Rightarrow> bool" where
  "change_result cd cp K u m d lo n t H env ops R res \<longleftrightarrow>
     (\<exists>ps qs r n' env'. res = Ok (r, n', last ps # qs, env') \<and> ops = ps @ qs \<and> ps \<noteq> [] \<and> (\<forall>op\<in>set ps. op_key op \<in> R) \<and>
        changed cd cp K (tr_ref_counted (fst env)) (m + length qs * cost u d) d lo n t H env ps r n' env')"

definition changes_at :: "codec \<Rightarrow> compress \<Rightarrow> nat \<Rightarrow> nat \<Rightarrow> nat \<Rightarrow> change_fn \<Rightarrow> bool" where
  "changes_at cd cp K u d change \<longleftrightarrow>
     (\<forall>parent n t ops env H m lo R. stands K d lo H n t \<longrightarrow> ready cd cp env H (m + length ops * cost u d) \<longrightarrow> ops \<noteq> [] \<longrightarrow> ops_ok K u ops \<longrightarrow>
        convex R \<longrightarrow> si_key ` set (inorder t) \<subseteq> R \<longrightarrow> op_key (hd ops) \<in> R \<longrightarrow> bounded parent (op_key (hd ops)) R \<longrightarrow>
        change_result cd cp K u m d lo n t H env ops R (change parent n ops env))"

text \<open>The parent after the child was written back: the content is changed, the shape is not yet restored.\<close>

lemma descended:
  assumes p: "params cd K u" and n: "node_is n (Branch ss as cs)" "node_is c0 (cs ! i)" "\<not> nd_changed c0"
    and t: "bal (Suc d) (Branch ss as cs)" "held H (Branch ss as cs)" "i < length cs" "sorted_keys (inorder (Branch ss as cs))" "short_keys K (inorder (Branch ss as cs))"
    and c: "changed cd cp K rcd (m + u) d 4 c0 (cs ! i) H env ps r c env1"
    and ps: "\<forall>op\<in>set ps. op_key op \<in> between (left_of i (Branch ss as cs)) (right_of i (Branch ss as cs))"
  obtains n' a env' sm ar t' ts H' where "write_child cd n i c env1 = Ok (n', env')" "node_has n' ss (as[i := a])"
    "nd_changed n' \<or> n' = n \<and> a = as ! i" "nd_changed n \<longrightarrow> nd_changed n'" "passed_up (fst r) sm ar ts"
    "bal d t'" "kids_fat t'" "\<forall>c\<in>set ts. bal d c \<and> fat c"
    "if fst r \<noteq> None then fat t' else if snd r then length (nt_seps t') = 3 else fat t'"
    "held H' (regrown ss as cs i sm (a # ar) (t' # ts))" "bal (Suc d) (regrown ss as cs i sm (a # ar) (t' # ts))"
    "xfer H (foot (Branch ss as cs)) H' (foot (regrown ss as cs i sm (a # ar) (t' # ts)))"
    "sorted_keys (inorder (regrown ss as cs i sm (a # ar) (t' # ts)))" "short_keys K (inorder (regrown ss as cs i sm (a # ar) (t' # ts)))"
    "map_of (cont H' (inorder (regrown ss as cs i sm (a # ar) (t' # ts)))) = apply_ops rcd ps (map_of (cont H (inorder (Branch ss as cs))))"
    "ready cd cp env' H' m" "same_env env env'"
proof -
  let ?t = "Branch ss as cs" and ?L = "left_of i (Branch ss as cs)" and ?R = "right_of i (Branch ss as cs)"
  obtain t' sm ar ts H1 where o: "passed_up (fst r) sm ar ts" "node_is c t'" "tracks c0 (cs ! i) c t'" "bal d t'" "kids_fat t'" "held H1 t'"
    "heldl H1 ar ts" "\<forall>c\<in>set ts. bal d c \<and> fat c" "xfer H (foot (cs ! i)) H1 (vals sm + foot t' + footl ar ts)"
    "sorted_keys (weave sm (map inorder (t' # ts)))" "short_keys K (weave sm (map inorder (t' # ts)))"
    "map_of (cont H1 (weave sm (map inorder (t' # ts)))) = apply_ops rcd ps (map_of (cont H (inorder (cs ! i))))"
    "if fst r \<noteq> None then fat t' else if snd r then length (nt_seps t') < 4 \<and> 4 \<le> Suc (length (nt_seps t')) else 4 \<le> length (nt_seps t')"
    "ready cd cp env1 H1 (m + u)" "same_env env env1" "fst r \<noteq> None \<longrightarrow> nd_changed c"
    by (rule changedE [OF c])
  let ?X = "weave sm (map inorder (t' # ts))"
  note pl = passed_up_length [OF o(1)]
  have sx: "set ?X = set sm \<union> (\<Union>t\<in>set (t' # ts). set (inorder t))" using set_weave [of "map inorder (t' # ts)" sm] pl by simp
  have g: "good_node K t'" by (rule held_good [OF o(6,4,5,14)]) (use o(11) sx in \<open>auto simp: short_keys_def\<close>)
  have x: "xfer H (foot (cs ! i)) H1 (vals sm + foot t' + footl ar ts + {#})" using o(9) by (simp only: add_0_right)
  have st: "stored H1 t'" using o(6) unfolding held_def by blast
  obtain n' a env' H' where w: "write_child cd n i c env1 = Ok (n', env')" "node_has n' ss (as[i := a])"
    "nd_changed n' \<or> n' = n \<and> a = as ! i" "nd_changed n \<longrightarrow> nd_changed n'"
    "held H' (regrown ss as cs i sm (a # ar) (t' # ts))" "xfer H (foot ?t) H' (foot (regrown ss as cs i sm (a # ar) (t' # ts)) + {#})"
    "ready cd cp env' H' m" "same_env env1 env'" "\<forall>b\<in>#vals sm + foot t' + footl ar ts + {#}. H' b = H1 b"
    "cont H' (lpart (take i ss) (map inorder (take i cs))) = cont H (lpart (take i ss) (map inorder (take i cs)))"
    "cont H' (rpart (drop i ss) (map inorder (drop (Suc i) cs))) = cont H (rpart (drop i ss) (map inorder (drop (Suc i) cs)))"
    by (rule child_step [OF p o(14) n(1) t(1-3) o(2) g o(3) n(3) x o(7) st])
  let ?t1 = "regrown ss as cs i sm (a # ar) (t' # ts)"
  have b: "bal (Suc d) ?t1" by (rule regrown_bal [OF t(1,3)]) (use o(4,8) pl in auto)
  have i1: "inorder ?t1 = ?L @ ?X @ ?R" using regrown_inorder [of i ss cs "t' # ts" sm] t(1,3) pl by simp
  have i0: "inorder ?t = ?L @ inorder (cs ! i) @ ?R" using parent_inorder [OF t(1,3)] by simp
  have "\<forall>t\<in>set (t' # ts). \<forall>s\<in>set (inorder t). si_value s \<in># foot t" using o(4,8) inorder_values [of d] by auto
  then have "\<forall>s\<in>set ?X. si_value s \<in># vals sm + foot t' + footl ar ts" unfolding sx by (auto simp: footl_def in_sum_list) blast
  then have "cont H' ?X = cont H1 ?X" using w(9) by (intro cont_frame) auto
  then have c1: "cont H' (inorder ?t1) = cont H ?L @ cont H1 ?X @ cont H ?R" unfolding i1 using w(10,11) by simp
  have kx: "si_key ` set ?X \<subseteq> op_key ` set ps \<union> si_key ` set (inorder (cs ! i))"
    using apply_ops_dom [of rcd ps "map_of (cont H (inorder (cs ! i)))"] unfolding o(12) [symmetric] cont_dom .
  have kb: "si_key ` set ?X \<subseteq> between ?L ?R"
  proof -
    have "si_key ` set (inorder (cs ! i)) \<subseteq> between ?L ?R" using t(4) unfolding i0 between_def by (auto simp: sorted_wrt_append)
    moreover have "op_key ` set ps \<subseteq> between ?L ?R" using ps by blast
    ultimately show ?thesis by (intro subset_trans [OF kx] Un_least)
  qed
  have "sorted_keys (inorder ?t1)"
    unfolding i1 by (rule sorted_splice [OF t(4) [unfolded i0] o(10) kb])
  moreover have "short_keys K (inorder ?t1)" using t(5) o(11) unfolding i0 i1 short_keys_simps by blast
  moreover have "map_of (cont H' (inorder ?t1)) = apply_ops rcd ps (map_of (cont H (inorder ?t)))"
  proof -
    have "\<forall>op\<in>set ps. op_key op \<notin> fst ` set (cont H ?L) \<and> op_key op \<notin> fst ` set (cont H ?R)"
    proof
      fix op assume "op \<in> set ps"
      then have "\<forall>s\<in>set ?L. si_key s < op_key op" "\<forall>s\<in>set ?R. op_key op < si_key s" using ps unfolding between_def by blast+
      then show "op_key op \<notin> fst ` set (cont H ?L) \<and> op_key op \<notin> fst ` set (cont H ?R)" by (intro conjI keys_around)
    qed
    from apply_ops_middle [OF this o(12)] show ?thesis unfolding c1 i0 by simp
  qed
  moreover have "if fst r \<noteq> None then fat t' else if snd r then length (nt_seps t') = 3 else fat t'"
    using o(13) kids_fat_fat [OF o(5)] by (auto split: if_splits)
  ultimately show thesis
    using w(6) by (intro that [OF w(1-4) o(1,4,5,8) _ w(5) b _ _ _ _ w(7) same_env_trans [OF o(15) w(8)]]) (simp_all only: add_0_right)
qed

end
