(* ===== verification/Btree_Node_Change.thy ===== *)
theory Btree_Node_Change
  imports Btree_Step
begin

text \<open>
  \<open>Node::change\<close>: the parent takes in what a changed child passes up or rebalances it, and the
  loop over the operations. The result is the content with a prefix of the operations applied.
\<close>

section \<open>After the descent\<close>

lemma child_grown:
  assumes p: "params cd K u" and r: "ready cd cp env' H' (m + u)" "same_env env env'" and n: "node_has n' ss (as[i := a])"
    and t: "kids_fat (Branch ss as cs)" "length cs = Suc (length ss)" "length as = Suc (length ss)" "i < length cs" "lo \<le> length ss"
    and sep: "sp_separator sep = Some s" "ch_entry_index right = Some b" and f: "fat t'" "fat t2"
    and h: "held H' (regrown ss as cs i [s] [a, b] [t', t2])" "bal (Suc d) (regrown ss as cs i [s] [a, b] [t', t2])"
      "xfer H (foot t) H' (foot (regrown ss as cs i [s] [a, b] [t', t2]))"
      "sorted_keys (inorder (regrown ss as cs i [s] [a, b] [t', t2]))" "short_keys K (inorder (regrown ss as cs i [s] [a, b] [t', t2]))"
      "map_of (cont H' (inorder (regrown ss as cs i [s] [a, b] [t', t2]))) = apply_ops rcd ps (map_of (cont H (inorder t)))"
  obtains q n2 env2 where "insert_node cd n' (Suc d) i sep right env' = Ok (q, n2, env2)"
    "changed cd cp K rcd m (Suc d) lo n t H env ps (q, False) n2 env2"
proof -
  let ?t = "regrown ss as cs i [s] [a, b] [t', t2]" and ?S = "ins i s ss" and ?A = "ins (i + 1) b (as[i := a])"
  let ?C = "take i cs @ [t', t2] @ drop (Suc i) cs"
  have i: "i \<le> length ss" "i < length as" using t by simp_all
  have "take (Suc i) (as[i := a]) = take i as @ [a]" using i(2) by (simp add: take_Suc_conv_app_nth)
  then have e: "?t = Branch ?S ?A ?C" by (simp add: regrown_def ins_def)
  have "owns H' (foot ?t)" "H' 0 = None" using h(1) r(1) unfolding held_def by (simp_all add: ready_def)
  then have z: "0 \<notin># foot ?t" by (auto simp: owns_def)
  then have z': "0 \<notin> set (b # as[i := a])" unfolding e by simp
  have kl: "\<forall>x\<in>set (s # ss). length (si_key x) \<le> K"
    using inorder_seps(1) [OF h(2) [unfolded e]] h(5) unfolding e short_keys_def by auto
  have g: "grown cd cp m ?S ?A H' env' (insert_node cd n' (Suc d) i sep right env')"
    by (rule insert_node_spec [OF p r(1) n i(1) _ kl z' sep]) (use t(3) in simp)
  have kf: "\<forall>c\<in>set ?C. fat c" "length ?S \<le> 9" using t(1) i f by (auto simp: kids_fat_def dest: in_set_takeD in_set_dropD)
  have rm: "ready cd cp env' H' m" by (rule ready_mono [OF r(1)]) simp
  obtain q n2 t3 sm ar ts env2 H2 where o: "insert_node cd n' (Suc d) i sep right env' = Ok (q, n2, env2)" "passed_up q sm ar ts" "node_is n2 t3" "nd_changed n2"
    "bal (Suc d) t3" "kids_fat t3" "held H2 t3" "heldl H2 ar ts" "\<forall>c\<in>set ts. bal (Suc d) c \<and> fat c" "xfer H' (foot ?t) H2 (vals sm + foot t3 + footl ar ts)"
    "weave sm (map inorder (t3 # ts)) = inorder ?t" "cont H2 (inorder ?t) = cont H' (inorder ?t)"
    "q = None \<longrightarrow> length (nt_seps t3) = length ?S" "q \<noteq> None \<longrightarrow> fat t3" "ready cd cp env2 H2 m" "same_env env' env2"
    unfolding e by (rule grown_tree [OF g h(2,1) [unfolded e] kf rm])
  have "if q \<noteq> None then fat t3 else lo \<le> length (nt_seps t3)" using o(13,14) t(5) i by (cases q) simp_all
  then have size: "if fst (q, False) \<noteq> None then fat t3
      else if snd (q, False) then length (nt_seps t3) < 4 \<and> lo \<le> Suc (length (nt_seps t3)) else lo \<le> length (nt_seps t3)"
    by simp
  have "changed cd cp K rcd m (Suc d) lo n t H env ps (q, False) n2 env2"
    by (rule changedI [OF _ o(3) _ o(5-9) xfer_trans [OF h(3) o(10)] _ _ _ size o(15) same_env_trans [OF r(2) o(16)]])
      (use o(2,4) h(4-6) in \<open>simp_all only: o(11,12), simp_all add: tracks_def\<close>)
  with o(1) show thesis by (rule that)
qed

lemma child_lean:
  assumes p: "params cd K u" and r: "ready cd cp env' H' (m + u + u)" "same_env env env'" and n: "node_has n' ss (as[i := a])"
    and t: "kids_fat (Branch ss as cs)" "bal (Suc d) (Branch ss as cs)" "i < length cs" "lo \<le> length ss" "1 \<le> lo" "lo \<le> 4"
    and t': "bal d t'" "kids_fat t'" "length (nt_seps t') = 3"
    and h: "held H' (regrown ss as cs i [] [a] [t'])" "xfer H (foot t) H' (foot (regrown ss as cs i [] [a] [t']))"
      "sorted_keys (inorder (regrown ss as cs i [] [a] [t']))" "short_keys K (inorder (regrown ss as cs i [] [a] [t']))"
      "map_of (cont H' (inorder (regrown ss as cs i [] [a] [t']))) = apply_ops rcd ps (map_of (cont H (inorder t)))"
  obtains n2 env2 where "rebalance cd n' (Suc d) i env' = Ok (n2, env2)"
    "changed cd cp K rcd m (Suc d) lo n t H env ps (None, need_rebalance n2) n2 env2"
proof -
  let ?t = "regrown ss as cs i [] [a] [t']"
  have ne: "ss \<noteq> []" using t(4,5) by auto
  have x: "xfer H (foot t) H' (foot ?t + {#})" using h(2) by (simp only: add_0_right)
  obtain n2 t2 env2 H2 where o: "rebalance cd n' (Suc d) i env' = Ok (n2, env2)" "node_is n2 t2" "nd_changed n2" "bal (Suc d) t2" "kids_fat t2"
    "inorder t2 = inorder ?t" "held H2 t2" "xfer H (foot t) H2 (foot t2 + {#})"
    "cont H2 (inorder t2) = cont H' (inorder t2)" "length ss \<le> Suc (length (nt_seps t2))" "ready cd cp env2 H2 m" "same_env env' env2"
    by (rule lean_rebalanced [OF p r(1) n t(2,1) ne t(3) t' h(1,4) x])
  have nr: "need_rebalance n2 \<longleftrightarrow> length (nt_seps t2) < 4" by (rule need_rebalance_has [OF o(2) [unfolded node_is_def]])
  have "changed cd cp K rcd m (Suc d) lo n t H env ps (None, need_rebalance n2) n2 env2"
    by (rule changed_one [OF o(2) _ o(4,5,7) o(8) [unfolded add_0_right] _ _ _ _ o(11) same_env_trans [OF r(2) o(12)]])
      (use o(3,6,9,10) h(3-5) t(4,6) nr in \<open>auto simp: tracks_def\<close>)
  with o(1) show thesis by (rule that)
qed

lemma cost_Suc: "cost u (Suc d) = cost u d + 3 * u"
  by (simp add: cost_def algebra_simps)

lemma change_child_spec:
  assumes p: "params cd K u" and ih: "changes_at cd cp K u d change" and t: "stands K (Suc d) lo H n (Branch ss as cs)"
    and r: "ready cd cp env H (m + length ops * cost u (Suc d))" and ops: "ops \<noteq> []" "ops_ok K u ops"
    and R: "convex R" "si_key ` set (inorder (Branch ss as cs)) \<subseteq> R" "op_key (hd ops) \<in> R"
    and i: "i = pos (op_key (hd ops)) ss" "\<not> (i < length ss \<and> si_key (ss ! i) = op_key (hd ops))"
  shows "change_result cd cp K u m (Suc d) lo n (Branch ss as cs) H env ops R (change_child cd change (Suc d) n i ops env)"
proof -
  let ?t = "Branch ss as cs"
  have s: "node_is n ?t" "node_has n ss as" "bal (Suc d) ?t" "kids_fat ?t" "held H ?t" "sorted_keys (inorder ?t)" "short_keys K (inorder ?t)"
      "lo \<le> length ss" "lo \<le> 4" "1 \<le> lo"
    using t by (simp_all add: stands_def node_is_def)
  let ?Rc = "R \<inter> between (left_of i ?t) (right_of i ?t)"
  note cr = child_range [OF s(3,6,2) R i(2) [unfolded i(1)] i(1)]
  have fc: "fat (cs ! i)" using s(4) cr(1) by (simp add: kids_fat_def)
  have l8: "4 \<le> length (nt_seps (cs ! i))" "length (nt_seps (cs ! i)) \<le> 8" using fc by (cases "cs ! i"; simp)+
  have ho: "owns H (foot ?t)" "stored H ?t" using s(5) unfolding held_def by blast+
  note ko = kid_ok [OF s(3) ho(2,1) cr(1)]
  have sk: "short_keys K (inorder (cs ! i))" using short_keys_sub [OF s(7) inorder_seps(2) [OF s(3)]] cr(1) by simp
  obtain c0 where c0: "env_fetch_child cd n i env = Ok (Some c0)" "node_is c0 (cs ! i)" "\<not> nd_changed c0"
    by (rule fetch_kid_of [OF r s(1,3,5,7) cr(1) l8(2)])
  have st: "stands K d 4 H c0 (cs ! i)" using c0(2) ko(1-3) cr(6) sk l8 fat_kids [OF fc] by (simp add: stands_def held_def)
  have r': "ready cd cp env H ((m + length ops * (3 * u)) + length ops * cost u d)" using r by (simp add: cost_Suc algebra_simps)
  from ih [unfolded changes_at_def, rule_format, OF st r' ops cr(2,3,4,5)]
  obtain ps qs q c env1 where c: "change (Some (n, i)) c0 ops env = Ok (q, c, last ps # qs, env1)" "ops = ps @ qs" "ps \<noteq> []" "\<forall>op\<in>set ps. op_key op \<in> ?Rc"
      "changed cd cp K (tr_ref_counted (fst env)) (m + length ops * (3 * u) + length qs * cost u d) d 4 c0 (cs ! i) H env ps q c env1"
    unfolding change_result_def by blast
  let ?m = "m + length qs * cost u (Suc d)"
  have "?m + u + u + u \<le> m + length ops * (3 * u) + length qs * cost u d"
  proof -
    have "1 \<le> length ps" using c(3) by (cases ps) simp_all
    then have "1 * (3 * u) \<le> length ps * (3 * u)" by (rule mult_le_mono1)
    then show ?thesis using c(2) by (simp add: cost_Suc algebra_simps)
  qed
  then have c5: "changed cd cp K (tr_ref_counted (fst env)) (?m + u + u + u) d 4 c0 (cs ! i) H env ps q c env1"
    using c(5) unfolding changed_def by (blast intro: ready_mono)
  have pb: "\<forall>op\<in>set ps. op_key op \<in> between (left_of i ?t) (right_of i ?t)" "\<forall>op\<in>set ps. op_key op \<in> R" using c(4) by blast+
  obtain n' a env' sm ar t' ts H' where w: "write_child cd n i c env1 = Ok (n', env')" "node_has n' ss (as[i := a])"
    "nd_changed n' \<or> n' = n \<and> a = as ! i" "nd_changed n \<longrightarrow> nd_changed n'" "passed_up (fst q) sm ar ts"
    "bal d t'" "kids_fat t'" "\<forall>c\<in>set ts. bal d c \<and> fat c"
    "if fst q \<noteq> None then fat t' else if snd q then length (nt_seps t') = 3 else fat t'"
    "held H' (regrown ss as cs i sm (a # ar) (t' # ts))" "bal (Suc d) (regrown ss as cs i sm (a # ar) (t' # ts))"
    "xfer H (foot ?t) H' (foot (regrown ss as cs i sm (a # ar) (t' # ts)))"
    "sorted_keys (inorder (regrown ss as cs i sm (a # ar) (t' # ts)))" "short_keys K (inorder (regrown ss as cs i sm (a # ar) (t' # ts)))"
    "map_of (cont H' (inorder (regrown ss as cs i sm (a # ar) (t' # ts)))) = apply_ops (tr_ref_counted (fst env)) ps (map_of (cont H (inorder ?t)))"
    "ready cd cp env' H' (?m + u + u)" "same_env env env'"
    by (rule descended [OF p s(1) c0(2,3) s(3,5) cr(1) s(6,7) c5 pb(1)])
  have len: "length cs = Suc (length ss)" "length as = Suc (length ss)" using s(3) by simp_all
  have "\<exists>r' n2 env2. change_child cd change (Suc d) n i ops env = Ok (r', n2, last ps # qs, env2) \<and>
      changed cd cp K (tr_ref_counted (fst env)) ?m (Suc d) lo n ?t H env ps r' n2 env2"
  proof (cases "fst q")
    case (Some sr)
    obtain sep right where sr: "sr = (sep, right)" by (cases sr)
    obtain x b t2 where u: "sp_separator sep = Some x" "ch_entry_index right = Some b" "sm = [x]" "ar = [b]" "ts = [t2]" using w(5) Some sr by auto
    have f: "fat t'" "fat t2" using w(8,9) Some u(5) by simp_all
    have rm: "ready cd cp env' H' (?m + u)" by (rule ready_mono [OF w(16)]) simp
    obtain q2 n2 env2 where "insert_node cd n' (Suc d) i sep right env' = Ok (q2, n2, env2)"
        "changed cd cp K (tr_ref_counted (fst env)) ?m (Suc d) lo n ?t H env ps (q2, False) n2 env2"
      by (rule child_grown [OF p rm w(17,2) s(4) len cr(1) s(8) u(1,2) f w(10-15) [unfolded u(3-5)]])
    then show ?thesis using c0(1) c(1) w(1) Some sr by (cases q) (auto simp: change_child_def)
  next
    case None
    then have u: "sm = []" "ar = []" "ts = []" using w(5) by simp_all
    show ?thesis
    proof (cases "snd q")
      case True
      have l3: "length (nt_seps t') = 3" using w(9) None True by simp
      obtain n2 env2 where "rebalance cd n' (Suc d) i env' = Ok (n2, env2)"
          "changed cd cp K (tr_ref_counted (fst env)) ?m (Suc d) lo n ?t H env ps (None, need_rebalance n2) n2 env2"
        by (rule child_lean [OF p w(16,17,2) s(4,3) cr(1) s(8,10,9) w(6,7) l3 w(10,12-15) [unfolded u]])
      then show ?thesis using c0(1) c(1) w(1) None True by (cases q) (auto simp: change_child_def)
    next
      case False
      have f: "fat t'" using w(9) None False by simp
      have il: "i < length as" using cr(1) len by simp
      note rg = regrown_one [OF il cr(1), of ss a t']
      have tr: "tracks n ?t n' (regrown ss as cs i [] [a] [t'])" using w(3) unfolding rg by (auto simp: tracks_def tbytes_def)
      have kf: "kids_fat (regrown ss as cs i [] [a] [t'])" "node_is n' (regrown ss as cs i [] [a] [t'])" "length (nt_seps (regrown ss as cs i [] [a] [t'])) = length ss"
        unfolding rg using kids_fat_update [OF s(4) f] w(2) by (simp_all add: node_is_def)
      have "changed cd cp K (tr_ref_counted (fst env)) ?m (Suc d) lo n ?t H env ps (None, False) n' env'"
        by (rule changed_one [OF kf(2) tr _ kf(1) _ _ _ _ _ _ ready_mono [OF w(16)] w(17)]) (use w(10-15) [unfolded u] kf(3) s(8) in simp_all)
      then show ?thesis using c0(1) c(1) w(1) None False by (cases q) (auto simp: change_child_def)
    qed
  qed
  then show ?thesis unfolding change_result_def using c(2,3) pb(2) by blast
qed

section \<open>One operation\<close>

lemma change_result_one:
  assumes "res = Ok (r, n', op # rest, env')" "op_key op \<in> R"
    and "changed cd cp K (tr_ref_counted (fst env)) (m + length rest * cost u d) d lo n t H env [op] r n' env'"
  shows "change_result cd cp K u m d lo n t H env (op # rest) R res"
  unfolding change_result_def
  by (rule exI [of _ "[op]"], rule exI [of _ rest], rule exI [of _ r], rule exI [of _ n'], rule exI [of _ env']) (use assms in simp)

lemma unchanged:
  assumes t: "stands K d lo H n t" and r: "ready cd cp env H m" and op: "\<forall>k v. op \<noteq> Set k v" "op_key op \<notin> si_key ` set (inorder t)"
  shows "changed cd cp K rcd m d lo n t H env [op] (None, False) n env"
proof -
  have "map_of (cont H (inorder t)) (op_key op) = None" using op(2) by (simp add: map_of_eq_None_iff cont_keys)
  then have "map_of (cont H (inorder t)) = apply_ops rcd [op] (map_of (cont H (inorder t)))" using op(1) by (cases op) simp_all
  moreover have "node_is n t" "bal d t" "kids_fat t" "held H t" "sorted_keys (inorder t)" "short_keys K (inorder t)" "lo \<le> length (nt_seps t)"
    using t by (simp_all add: stands_def)
  moreover from this(4) have "xfer H (foot t) H (foot t)" unfolding held_def by (simp add: xfer_refl)
  ultimately show ?thesis using r by (intro changed_one) simp_all
qed

definition op_step :: "codec \<Rightarrow> change_fn \<Rightarrow> nat \<Rightarrow> node \<Rightarrow> changes \<Rightarrow> tree_env \<Rightarrow> change_out result" where
  "op_step cd change d n ops env =
     (case hd ops of
        Set k val \<Rightarrow> node_insert cd change d n k val ops env
      | _ \<Rightarrow> on_existing cd change d n (hd ops) ops env)"

lemma op_step_cases:
  "op_step cd change d n (Set k v # rest) env = node_insert cd change d n k v (Set k v # rest) env"
  "\<forall>k v. op \<noteq> Set k v \<Longrightarrow> op_step cd change d n (op # rest) env = on_existing cd change d n op (op # rest) env"
  by (simp_all add: op_step_def split: operation.split)

lemma node_insert_cases:
  "node_position n k = (True, i) \<Longrightarrow> separator_address n i = Ok ex \<Longrightarrow> node_insert cd change d n k v ops env =
     and_then (create_separator cd k v ex env) (\<lambda>(sep, env). and_then (set_separator i sep n) (\<lambda>self. Ok ((None, False), self, ops, env)))"
  "node_position n k = (False, i) \<Longrightarrow> d \<noteq> 0 \<Longrightarrow> node_insert cd change d n k v ops env = change_child cd change d n i ops env"
  "node_position n k = (False, i) \<Longrightarrow> node_insert cd change 0 n k v ops env =
     and_then (insert_leaf cd n i k v env) (\<lambda>(r, self, env). Ok ((r, False), self, ops, env))"
  unfolding node_insert_def by simp_all

lemma op_step_spec:
  assumes p: "params cd K u" and ih: "d \<noteq> 0 \<longrightarrow> changes_at cd cp K u (d - 1) change" and t: "stands K d lo H n t"
    and r: "ready cd cp env H (m + length ops * cost u d)" and ops: "ops \<noteq> []" "ops_ok K u ops"
    and R: "convex R" "si_key ` set (inorder t) \<subseteq> R" "op_key (hd ops) \<in> R"
  shows "change_result cd cp K u m d lo n t H env ops R (op_step cd change d n ops env)"
proof -
  obtain ss as cs where b: "t = Branch ss as cs" by (cases t)
  obtain op rest where o: "ops = op # rest" using ops(1) by (cases ops) auto
  let ?k = "op_key op" and ?i = "pos (op_key op) ss" and ?m = "m + length rest * cost u d"
  have s: "node_has n ss as" "bal d (Branch ss as cs)" "sorted_keys (inorder (Branch ss as cs))" using t b by (simp_all add: stands_def node_is_def)
  note np = node_position_has [OF s(1), of ?k]
  have room: "ready cd cp env H (?m + cost u d)" using r o by (simp add: algebra_simps)
  have cu: "u + u \<le> cost u d" "d * (3 * u) \<le> cost u d" by (simp_all add: cost_def algebra_simps)
  have ok: "length ?k \<le> K" "\<And>k v. op = Set k v \<Longrightarrow> length v + 65 \<le> u" using ops(2) o by (simp_all add: ops_ok_def)
  have kR: "?k \<in> R" using R(3) o by simp
  show ?thesis
  proof (cases "?i < length ss \<and> si_key (ss ! ?i) = ?k")
    case True
    then have f: "?i < length ss" "si_key (ss ! ?i) = ?k" by blast+
    note sa = separator_address_has [OF s(1) f(1)]
    show ?thesis
    proof (cases "\<exists>k v. op = Set k v")
      case True
      then obtain k v where op: "op = Set k v" by blast
      then have k: "?k = k" by simp
      have rm: "ready cd cp env H (?m + u)" by (rule ready_mono [OF room]) (use cu(1) in simp)
      obtain n' env' where c: "and_then (create_separator cd k v (Some (si_value (ss ! ?i))) env) (\<lambda>(sep, env).
          and_then (set_separator ?i sep n) (\<lambda>self. Ok ((None :: (separator \<times> child) option, False), self, ops, env))) = Ok ((None, False), n', ops, env')"
          "changed cd cp K (tr_ref_counted (fst env)) ?m d lo n (Branch ss as cs) H env [Set k v] (None, False) n' env'"
        by (rule set_found [OF p rm t [unfolded b] f(1) trans [OF f(2) k] ok(2) [OF op]])
      have q: "node_position n k = (True, ?i)" using np f k by simp
      have "op_step cd change d n ops env = node_insert cd change d n k v ops env" unfolding o op by (rule op_step_cases(1))
      then have "op_step cd change d n ops env = Ok ((None, False), n', ops, env')"
        unfolding node_insert_cases(1) [OF q sa] c(1) .
      then show ?thesis unfolding o b using kR c(2) op by (intro change_result_one) simp_all
    next
      case False
      then have ns: "\<forall>k v. op \<noteq> Set k v" by blast
      have rm: "ready cd cp env H (?m + d * (3 * u))" by (rule ready_mono [OF room]) (use cu(2) in simp)
      obtain n' env' where c: "and_then (tree_existing cd (si_value (ss ! ?i)) op (tr_ref_counted (fst env)) env) (\<lambda>((outcome, _), env).
          if outcome = None then remove_existing cd d n ?i env else Ok (n, env)) = Ok (n', env')"
          "changed cd cp K (tr_ref_counted (fst env)) ?m d lo n (Branch ss as cs) H env [op] (None, need_rebalance n') n' env'"
        by (rule existing_found [OF p rm t [unfolded b] f ns])
      have "op_step cd change d n ops env = on_existing cd change d n op ops env" using ns o by (cases op) (simp_all add: op_step_def)
      also have "\<dots> = Ok ((None, need_rebalance n'), n', ops, env')" using c(1) np f sa by (simp add: on_existing_def)
      finally show ?thesis unfolding o b using kR c(2) by (intro change_result_one) simp_all
    qed
  next
    case False
    show ?thesis
    proof (cases d)
      case (Suc d')
      have "change_result cd cp K u m (Suc d') lo n (Branch ss as cs) H env ops R (change_child cd change (Suc d') n ?i ops env)"
        by (rule change_child_spec [OF p]) (use ih t r ops R False Suc b o in simp_all)
      moreover have "op_step cd change d n ops env = change_child cd change (Suc d') n ?i ops env"
        using np False Suc o by (cases op) (auto simp: op_step_def node_insert_def on_existing_def)
      ultimately show ?thesis using Suc b by simp
    next
      case 0
      then have e: "as = []" "cs = []" using s(2) by simp_all
      show ?thesis
      proof (cases "\<exists>k v. op = Set k v")
        case True
        then obtain k v where op: "op = Set k v" by blast
        then have k: "?k = k" by simp
        have rm: "ready cd cp env H (?m + u + u)" by (rule ready_mono [OF room]) (use cu(1) in simp)
        obtain q n' env' where c: "insert_leaf cd n ?i k v env = Ok (q, n', env')"
            "changed cd cp K (tr_ref_counted (fst env)) ?m 0 lo n (Branch ss [] []) H env [Set k v] (q, False) n' env'"
          unfolding k by (rule insert_missing [OF p rm t [unfolded b e 0] False [unfolded k] ok(1) [unfolded k] ok(2) [OF op]])
        have "node_position n k = (False, ?i)" using np False k by auto
        then have "op_step cd change d n ops env = Ok ((q, False), n', ops, env')"
          using c(1) unfolding o op op_step_cases 0 by (simp add: node_insert_cases)
        then show ?thesis unfolding o b e 0 using kR c(2) op by (intro change_result_one) (simp_all add: 0)
      next
        case ns: False
        have "?k \<notin> si_key ` set ss"
          using find_key_pos [of ss ?k] s(3) e False by (auto simp: find_None_iff)
        then have c: "changed cd cp K (tr_ref_counted (fst env)) ?m 0 lo n (Branch ss [] []) H env [op] (None, False) n env"
          using ns t b e 0 by (intro unchanged ready_mono [OF room]) auto
        have "op_step cd change d n ops env = Ok ((None, False), n, ops, env)"
          using np False ns o 0 by (cases op) (auto simp: op_step_def on_existing_def)
        then show ?thesis unfolding o b e 0 using kR c by (intro change_result_one) (simp_all add: 0)
      qed
    qed
  qed
qed

end
