(* ===== verification/Btree_Loop.thy ===== *)
theory Btree_Loop
  imports Btree_Node_Change
begin

text \<open>
  The loop of \<open>Node::change\<close> and its recursion over the depth: the operations whose keys belong below
  the node are applied one after the other, until one of them makes the parent restore the shape.
\<close>

section \<open>The loop of change\<close>

text \<open>The two tests of the loop: an operation without effect on the result, and a next operation that stays below the node.\<close>

definition superseded :: "bool \<Rightarrow> (bytes, bytes) operation \<Rightarrow> changes \<Rightarrow> bool" where
  "superseded rcd op rest \<longleftrightarrow> \<not> rcd \<and>
     (case rest of nxt # _ \<Rightarrow> (case nxt of Reference _ \<Rightarrow> False | _ \<Rightarrow> op_key op = op_key nxt) | [] \<Rightarrow> False)"

definition goes_on :: "(node \<times> nat) option \<Rightarrow> node \<Rightarrow> changes \<Rightarrow> bool" where
  "goes_on parent n changes \<longleftrightarrow>
     (case (changes, parent) of
        (_ # nxt # _, Some (pn, p)) \<Rightarrow>
          (case node_position n (op_key nxt) of (at, i) \<Rightarrow> at \<or> i < number_separator n) \<or>
          (case node_position pn (op_key nxt) of (at, i) \<Rightarrow> \<not> at \<and> i = p \<and> i < number_separator pn)
      | _ \<Rightarrow> False)"

lemma change_body_step:
  "change_body cd change d parent (n, op # rest, env) =
     (if superseded (tr_ref_counted (fst env)) op rest then Ok (Inl (n, rest, env))
      else and_then (op_step cd change d n (op # rest) env) (\<lambda>(r, n, changes, env).
        if fst r \<noteq> None \<or> snd r then Ok (Inr (r, n, changes, env))
        else if goes_on parent n changes then Ok (Inl (n, tl changes, env)) else Ok (Inr ((None, False), n, changes, env))))"
proof -
  have g: "(case (changes, parent) of
        (_ # nxt # _, Some (pn, p)) \<Rightarrow>
          (let (at, i) = node_position n (op_key nxt) in
           if at \<or> i < number_separator n then Ok (Inl (n, tl changes, env))
           else (let (at, i) = node_position pn (op_key nxt) in
             if \<not> at \<and> i = p \<and> i < number_separator pn then Ok (Inl (n, tl changes, env)) else Ok (Inr ((None, False), n, changes, env))))
      | _ \<Rightarrow> Ok (Inr ((None, False), n, changes, env))) =
      (if goes_on parent n changes then Ok (Inl (n, tl changes, env)) else Ok (Inr ((None, False), n, changes, env)))" for n changes env
    by (auto simp: goes_on_def Let_def split: list.split option.split prod.split if_splits)
  show ?thesis unfolding change_body_def superseded_def op_step_def prod.case list.case list.sel(1) g [unfolded prod.case] by (rule refl)
qed

lemma superseded_apply:
  "superseded rcd op (nxt # rest) \<Longrightarrow> op_key op = op_key nxt \<and> apply_op rcd False nxt (apply_op rcd False op M) = apply_op rcd False nxt M"
  by (cases op; cases nxt) (auto simp: superseded_def fun_eq_iff split: option.splits)

lemma changed_then:
  assumes c: "changed cd cp K rcd m d lo n t H env ps (None, False) n' env'" and t: "stands K d lo H n t"
  obtains t' H' where "stands K d lo H' n' t'" "ready cd cp env' H' m" "same_env env env'"
    "si_key ` set (inorder t') \<subseteq> op_key ` set ps \<union> si_key ` set (inorder t)"
    "\<forall>m qs r n2 env2. changed cd cp K rcd m d lo n' t' H' env' qs r n2 env2 \<longrightarrow> changed cd cp K rcd m d lo n t H env (ps @ qs) r n2 env2"
proof -
  obtain t' sm ar ts H' where o: "passed_up (fst (None :: (separator \<times> child) option, False)) sm ar ts" "node_is n' t'" "tracks n t n' t'" "bal d t'" "kids_fat t'" "held H' t'"
    "heldl H' ar ts" "\<forall>c\<in>set ts. bal d c \<and> fat c" "xfer H (foot t) H' (vals sm + foot t' + footl ar ts)"
    "sorted_keys (weave sm (map inorder (t' # ts)))" "short_keys K (weave sm (map inorder (t' # ts)))"
    "map_of (cont H' (weave sm (map inorder (t' # ts)))) = apply_ops rcd ps (map_of (cont H (inorder t)))"
    "if fst (None :: (separator \<times> child) option, False) \<noteq> None then fat t'
     else if snd (None :: (separator \<times> child) option, False) then length (nt_seps t') < 4 \<and> lo \<le> Suc (length (nt_seps t')) else lo \<le> length (nt_seps t')"
    "ready cd cp env' H' m" "same_env env env'" "fst (None :: (separator \<times> child) option, False) \<noteq> None \<longrightarrow> nd_changed n'"
    by (rule changedE [OF c])
  have e: "sm = []" "ar = []" "ts = []" using o(1) by simp_all
  have x: "xfer H (foot t) H' (foot t')" using o(9) unfolding e by simp
  have so: "sorted_keys (inorder t')" "short_keys K (inorder t')" "map_of (cont H' (inorder t')) = apply_ops rcd ps (map_of (cont H (inorder t)))" "lo \<le> length (nt_seps t')"
    using o(10-13) unfolding e by simp_all
  have st: "stands K d lo H' n' t'" using t o(2,4-6) so by (simp add: stands_def)
  have k: "si_key ` set (inorder t') \<subseteq> op_key ` set ps \<union> si_key ` set (inorder t)"
    using apply_ops_dom [of rcd ps "map_of (cont H (inorder t))"] unfolding so(3) [symmetric] cont_dom .
  have "changed cd cp K rcd m2 d lo n t H env (ps @ qs) r n2 env2" if c2: "changed cd cp K rcd m2 d lo n' t' H' env' qs r n2 env2" for m2 qs r n2 env2
    by (rule changedE [OF c2], rule changedI, assumption+, rule tracks_trans [OF o(3)], assumption+, rule xfer_trans [OF x], assumption+)
      (use so(3) o(15) in \<open>simp_all add: same_env_trans\<close>)
  then show thesis by (intro that [OF st o(14,15) k]) blast
qed

lemma superseded_changed:
  assumes s: "superseded rcd op (hd ps # rest)" "ps \<noteq> []" and c: "changed cd cp K rcd m d lo n t H env ps r n' env'"
  shows "changed cd cp K rcd m d lo n t H env (op # ps) r n' env'"
proof -
  obtain nxt ps' where e: "ps = nxt # ps'" using s(2) by (cases ps) auto
  have "apply_ops rcd (op # ps) M = apply_ops rcd ps M" for M using superseded_apply [of rcd op nxt rest M] s(1) e by simp
  then show ?thesis using c unfolding changed_def by simp
qed

lemma ops_ok_append: "ops_ok K u (ps @ qs) \<Longrightarrow> ops_ok K u qs \<and> (\<forall>p\<in>set ps. \<forall>q\<in>set qs. op_key p \<le> op_key q)"
  unfolding ops_ok_def map_append sorted_append set_append by (simp add: ball_Un)

lemma bounded_later: "bounded parent k R \<Longrightarrow> k \<le> k' \<Longrightarrow> bounded parent k' R"
  unfolding bounded_def by (auto split: option.splits)

text \<open>The key of the next operation belongs below the node.\<close>

lemma goes_on_range:
  assumes g: "goes_on parent n (op # nxt # rest)" and n: "node_is n t" "bal d t" and R: "convex R" "si_key ` set (inorder t) \<subseteq> R"
    and k: "k0 \<in> R" "k0 \<le> op_key nxt" "bounded parent k0 R"
  shows "op_key nxt \<in> R"
proof -
  obtain ss as cs where b: "t = Branch ss as cs" by (cases t)
  have h: "node_has n ss as" using n(1) by (simp add: b node_is_def)
  let ?k = "op_key nxt" and ?i = "pos (op_key nxt) ss"
  show ?thesis
  proof (cases "?i < length ss")
    case True
    have "\<not> si_key (ss ! ?i) < ?k" using nth_length_takeWhile [of "\<lambda>s. si_key s < ?k" ss] True unfolding pos_def .
    then have "?k \<le> si_key (ss ! ?i)" by simp
    moreover have "si_key (ss ! ?i) \<in> R" using R(2) inorder_seps(1) [OF n(2) [unfolded b]] True nth_mem unfolding b by blast
    ultimately show ?thesis using R(1) k(1,2) unfolding convex_def by blast
  next
    case False
    then have "\<not> (case node_position n ?k of (at, i) \<Rightarrow> at \<or> i < number_separator n)"
      unfolding node_position_has [OF h] number_separator_has [OF h] by simp
    then obtain pn p where "parent = Some (pn, p)" "case node_position pn ?k of (at, i) \<Rightarrow> \<not> at \<and> i = p \<and> i < number_separator pn"
      using g by (auto simp: goes_on_def split: option.splits)
    then show ?thesis using k(2,3) unfolding bounded_def by simp
  qed
qed

lemma change_resultI:
  assumes "res = Ok (r, n', last ps # qs, env')" "ops = ps @ qs" "ps \<noteq> []" "\<forall>op\<in>set ps. op_key op \<in> R"
    and "changed cd cp K (tr_ref_counted (fst env)) (m + length qs * cost u d) d lo n t H env ps r n' env'"
  shows "change_result cd cp K u m d lo n t H env ops R res"
  unfolding change_result_def using assms by blast

lemma change_loop:
  assumes p: "params cd K u" and ih: "d \<noteq> 0 \<longrightarrow> changes_at cd cp K u (d - 1) change" and R: "convex R"
    and t: "stands K d lo H n t" and r: "ready cd cp env H (m + length ops * cost u d)" and ops: "ops \<noteq> []" "ops_ok K u ops"
    and k: "si_key ` set (inorder t) \<subseteq> R" "op_key (hd ops) \<in> R" "bounded parent (op_key (hd ops)) R"
  shows "change_result cd cp K u m d lo n t H env ops R (loop_r (change_body cd change d parent) (n, ops, env))"
  using t r ops k
proof (induction "length ops" arbitrary: n t H env ops rule: less_induct)
  case less
  let ?rc = "tr_ref_counted (fst env)" and ?L = "loop_r (change_body cd change d parent)"
  obtain op rest where o: "ops = op # rest" using less.prems(3) by (cases ops) auto
  show ?case
  proof (cases "superseded ?rc op rest")
    case True
    then obtain nxt rest' where n: "rest = nxt # rest'" by (auto simp: superseded_def split: list.splits)
    have same: "op_key op = op_key nxt" using superseded_apply True n by blast
    have ok: "ops_ok K u rest" using ops_ok_append [of K u "[op]" rest] less.prems(4) o by simp
    have r': "ready cd cp env H (m + length rest * cost u d)" by (rule ready_mono [OF less.prems(2)]) (simp add: o)
    have "change_result cd cp K u m d lo n t H env rest R (?L (n, rest, env))"
      by (rule less.hyps [OF _ less.prems(1) r' _ ok less.prems(5)]) (use less.prems(6,7) o n same in simp_all)
    then obtain ps qs q n' env' where q: "?L (n, rest, env) = Ok (q, n', last ps # qs, env')" "rest = ps @ qs" "ps \<noteq> []" "\<forall>op\<in>set ps. op_key op \<in> R"
        "changed cd cp K ?rc (m + length qs * cost u d) d lo n t H env ps q n' env'"
      unfolding change_result_def by blast
    have "nxt = hd ps" using q(2,3) n by (cases ps) simp_all
    then have c: "changed cd cp K ?rc (m + length qs * cost u d) d lo n t H env (op # ps) q n' env'"
      using superseded_changed [OF _ q(3,5)] True n by simp
    have "?L (n, ops, env) = ?L (n, rest, env)" unfolding o loop_r_unfold [of _ "(n, op # rest, env)"] change_body_step using True by simp
    then show ?thesis by (intro change_resultI [OF _ _ _ _ c]) (use q less.prems(6) o in simp_all)
  next
    case False
    have "change_result cd cp K u m d lo n t H env ops R (op_step cd change d n ops env)"
      by (rule op_step_spec [OF p ih less.prems(1-4) R less.prems(5,6)])
    then obtain ps qs q n' env' where q: "op_step cd change d n ops env = Ok (q, n', last ps # qs, env')" "ops = ps @ qs" "ps \<noteq> []" "\<forall>op\<in>set ps. op_key op \<in> R"
        "changed cd cp K ?rc (m + length qs * cost u d) d lo n t H env ps q n' env'"
      unfolding change_result_def by blast
    have step: "?L (n, ops, env) = and_then (if fst q \<noteq> None \<or> snd q then Ok (Inr (q, n', last ps # qs, env'))
        else if goes_on parent n' (last ps # qs) then Ok (Inl (n', qs, env')) else Ok (Inr ((None, False), n', last ps # qs, env')))
        (\<lambda>x. case x of Inl s' \<Rightarrow> ?L s' | Inr r \<Rightarrow> Ok r)"
      unfolding o loop_r_unfold [of _ "(n, op # rest, env)"] change_body_step using False q(1) o by simp
    show ?thesis
    proof (cases "\<not> (fst q \<noteq> None \<or> snd q) \<and> goes_on parent n' (last ps # qs)")
      case False
      then have "?L (n, ops, env) = Ok (q, n', last ps # qs, env')" unfolding step by (cases q; cases "fst q") auto
      then show ?thesis by (rule change_resultI [OF _ q(2-5)])
    next
      case True
      then have qe: "q = (None, False)" unfolding prod_eq_iff fst_conv snd_conv by blast
      have L: "?L (n, ops, env) = ?L (n', qs, env')" unfolding step using True by simp
      obtain nxt qs' where n: "qs = nxt # qs'" using True by (auto simp: goes_on_def split: list.splits)
      obtain t' H' where c: "stands K d lo H' n' t'" "ready cd cp env' H' (m + length qs * cost u d)" "same_env env env'"
          "si_key ` set (inorder t') \<subseteq> op_key ` set ps \<union> si_key ` set (inorder t)"
          "\<forall>m qs r n2 env2. changed cd cp K ?rc m d lo n' t' H' env' qs r n2 env2 \<longrightarrow> changed cd cp K ?rc m d lo n t H env (ps @ qs) r n2 env2"
        by (rule changed_then [OF q(5) [unfolded qe] less.prems(1)])
      have "op_key ` set ps \<subseteq> R" using q(4) by (simp add: image_subset_iff)
      then have sub: "si_key ` set (inorder t') \<subseteq> R" using less.prems(5) by (intro order_trans [OF c(4)] Un_least)
      note oa = ops_ok_append [OF less.prems(4) [unfolded q(2)]]
      have ps: "hd ops \<in> set ps" using q(2,3) by (cases ps) simp_all
      then have le: "op_key (hd ops) \<le> op_key nxt" using oa n by simp
      have g: "goes_on parent n' (last ps # nxt # qs')" using True n by blast
      have nb: "node_is n' t'" "bal d t'" using c(1) by (simp_all add: stands_def)
      have kR: "op_key nxt \<in> R" by (rule goes_on_range [OF g nb R sub less.prems(6) le less.prems(7)])
      have l: "length qs < length ops" using q(2,3) by simp
      have "change_result cd cp K u m d lo n' t' H' env' qs R (?L (n', qs, env'))"
        by (rule less.hyps [OF l c(1,2) _ _ sub]) (use oa n kR bounded_later [OF less.prems(7) le] in simp_all)
      then obtain ps2 qs2 q2 n2 env2 where z: "?L (n', qs, env') = Ok (q2, n2, last ps2 # qs2, env2)" "qs = ps2 @ qs2" "ps2 \<noteq> []" "\<forall>op\<in>set ps2. op_key op \<in> R"
          "changed cd cp K ?rc (m + length qs2 * cost u d) d lo n' t' H' env' ps2 q2 n2 env2"
        unfolding change_result_def same_env_fields(1) [OF c(3)] by blast
      have "changed cd cp K ?rc (m + length qs2 * cost u d) d lo n t H env (ps @ ps2) q2 n2 env2" using c(5) z(5) by blast
      then show ?thesis unfolding L by (intro change_resultI [where ps = "ps @ ps2" and qs = qs2]) (use z(1-4) q(2,4) in \<open>simp_all add: ball_Un\<close>)
    qed
  qed
qed

text \<open>\<open>Node::change\<close> applies a prefix of the operations to the content of the subtree, at every depth.\<close>

lemma node_change_spec:
  assumes p: "params cd K u"
  shows "changes_at cd cp K u d (node_change d cd)"
proof (induction d)
  case 0
  show ?case unfolding changes_at_def node_change.simps(1) by (intro allI impI change_loop [OF p]) simp_all
next
  case (Suc d)
  show ?case unfolding changes_at_def node_change.simps(2) by (intro allI impI change_loop [OF p]) (simp_all add: Suc.IH)
qed

end
