(* ===== verification/Btree_Write.thy ===== *)
theory Btree_Write
  imports Btree_Loop Btree_Table
begin

text \<open>
  A tree with its root and header: \<open>BTree::write_sorted_changes\<close> applies all operations, letting the
  tree grow and shrink at the root, and \<open>BTreeChangeSet::write_plan\<close> writes the header. The depth is
  bounded because the addresses of a tree are distinct 64-bit words.
\<close>

section \<open>The depth of a tree\<close>

lemma size_sum_list: "size (sum_list (map f xs) :: address multiset) = (\<Sum>x\<leftarrow>xs. size (f x))"
  by (induction xs) simp_all

lemma kids_foot:
  assumes "\<forall>c\<in>set cs. b \<le> size (foot c)"
  shows "length cs * b \<le> size (foot (Branch ss as cs))"
proof -
  have "length cs * b = (\<Sum>c\<leftarrow>cs. b)" by (simp add: sum_list_triv)
  also have "\<dots> \<le> (\<Sum>c\<leftarrow>cs. size (foot c))" using assms by (intro sum_list_mono) simp
  finally show ?thesis by (simp add: size_sum_list)
qed

lemma fat_foot: "bal d t \<Longrightarrow> fat t \<Longrightarrow> 5 ^ d \<le> size (foot t)"
proof (induction d arbitrary: t)
  case 0
  then show ?case by (cases t) simp
next
  case (Suc d)
  obtain ss as cs where t: "t = Branch ss as cs" by (cases t)
  have c: "5 \<le> length cs" "\<forall>c\<in>set cs. 5 ^ d \<le> size (foot c)" using Suc t by auto
  have "5 ^ Suc d \<le> length cs * 5 ^ d" using c(1) by simp
  also have "\<dots> \<le> size (foot t)" unfolding t by (rule kids_foot [OF c(2)])
  finally show ?case .
qed

lemma owns_size: "owns H M \<Longrightarrow> size M \<le> 2 ^ 64"
proof -
  assume o: "owns H (M :: address multiset)"
  have "size M = (\<Sum>a\<in>set_mset M. count M a)" by (rule size_multiset_overloaded_eq)
  also have "\<dots> \<le> (\<Sum>a\<in>set_mset M. 1)" using o unfolding owns_def by (intro sum_mono) blast
  also have "\<dots> \<le> card (UNIV :: address set)" by (simp add: card_mono)
  finally show ?thesis by (simp add: card_word)
qed

lemma depth_bound:
  assumes "bal d t" "kids_fat t" "owns H (foot t)"
  shows "d \<le> 28"
proof (rule ccontr)
  assume "\<not> d \<le> 28"
  then obtain d' where d: "d = Suc d'" "28 \<le> d'" by (cases d) simp_all
  obtain ss as cs where t: "t = Branch ss as cs" by (cases t)
  have "\<forall>c\<in>set cs. 5 ^ d' \<le> size (foot c)" using assms t d by (auto simp: kids_fat_def intro: fat_foot)
  from kids_foot [OF this] have "length cs * 5 ^ d' \<le> size (foot t)" unfolding t .
  moreover have "0 < length cs" using assms(1) t d by simp
  ultimately have "5 ^ d' \<le> size (foot t)" by (metis One_nat_def Suc_leI le_trans mult_le_mono1 nat_mult_1)
  moreover have "(5::nat) ^ 28 \<le> 5 ^ d'" using d(2) by (intro power_increasing) simp_all
  ultimately have "(5::nat) ^ 28 \<le> 2 ^ 64" using owns_size [OF assms(3)] by linarith
  then show False by simp
qed

section \<open>The root\<close>

text \<open>
  The tree while its operations are applied: the root is in memory, its stored form may be out of date
  or missing, and the header \<open>h\<close> is still the one of the tree before.
\<close>

definition rooted :: "nat \<Rightarrow> heap \<Rightarrow> btree_header \<Rightarrow> btree \<Rightarrow> node \<Rightarrow> ntree \<Rightarrow> bool" where
  "rooted K H h b root t \<longleftrightarrow>
     stands K (unat (bt_depth b)) (if bt_depth b = 0 then 0 else 1) H root t \<and> H HEADER_ADDRESS = Some (1, header_bytes h) \<and>
     owns H (root_foot (bt_root_index b) + ({#HEADER_ADDRESS#} + foot t)) \<and>
     (nd_changed root \<or> (case bt_root_index b of None \<Rightarrow> t = Branch [] [] [] | Some a \<Rightarrow> H a = Some (1, tbytes t)))"

definition root_changed ::
    "codec \<Rightarrow> compress \<Rightarrow> nat \<Rightarrow> nat \<Rightarrow> btree_header \<Rightarrow> (bytes \<rightharpoonup> (u32 \<times> bytes)) \<Rightarrow> tree_env \<Rightarrow> (btree \<times> node \<times> tree_env) result \<Rightarrow> bool" where
  "root_changed cd cp K m h M env res \<longleftrightarrow>
     (\<exists>b n env' t H. res = Ok (b, n, env') \<and> rooted K H h b n t \<and> tree_content H t = M \<and> ready cd cp env' H m \<and> same_env env env')"

lemma root_frame:
  assumes r: "rooted K H h b root t" and x: "xfer H (foot t) H' M"
  shows "owns H' (root_foot (bt_root_index b) + ({#HEADER_ADDRESS#} + M))" "H' HEADER_ADDRESS = Some (1, header_bytes h)"
    "\<And>a. bt_root_index b = Some a \<Longrightarrow> H' a = H a"
proof -
  let ?N = "root_foot (bt_root_index b) + {#HEADER_ADDRESS#}"
  have "owns H (foot t + ?N)" using r unfolding rooted_def by (simp add: ac_simps)
  note f = xfer_frame [OF x this]
  show "owns H' (root_foot (bt_root_index b) + ({#HEADER_ADDRESS#} + M))" using f(1) unfolding xfer_def by (simp add: ac_simps)
  show "H' HEADER_ADDRESS = Some (1, header_bytes h)" using f(2) r unfolding rooted_def by simp
  show "\<And>a. bt_root_index b = Some a \<Longrightarrow> H' a = H a" using f(2) by (simp add: root_foot_def)
qed

lemma root_written:
  assumes p: "params cd K u" and r: "ready cd cp env H (m + u)" and n: "node_is n t" "good_node K t" "nd_changed n" and o: "owns H (root_foot q)"
  obtains q' a env' H' where "write_node_plan cd n q env = Ok (q', env')" "(if q' \<noteq> None then q' else q) = Some a" "xfer H (root_foot q) H' {#a#}"
    "H' a = Some (1, tbytes t)" "ready cd cp env' H' m" "same_env env env'"
proof (cases q)
  case None
  obtain a env' H' where "write_node_plan cd n None env = Ok (Some a, env')" "xfer H {#} H' {#a#}"
    "H' a = Some (1, nbytes (nt_seps t) (nt_addrs t))" "ready cd cp env' H' m" "same_env env env'"
    by (rule node_new [OF p r n(1) [unfolded node_is_def] n(2,3)])
  then show thesis using None by (intro that [of "Some a" env' a H']) (simp_all add: root_foot_def tbytes_def)
next
  case (Some a0)
  then have "H a0 \<noteq> None" using o by (auto simp: root_foot_def owns_def)
  obtain a env' H' where "write_node_plan cd n (Some a0) env = Ok (if a = a0 then None else Some a, env')" "xfer H {#a0#} H' {#a#}"
    "H' a = Some (1, nbytes (nt_seps t) (nt_addrs t))" "ready cd cp env' H' m" "same_env env env'"
    by (rule node_at [OF p r n(1) [unfolded node_is_def] n(2,3) \<open>H a0 \<noteq> None\<close>])
  then show thesis using Some by (intro that [of "if a = a0 then None else Some a" env' a H']) (simp_all add: root_foot_def tbytes_def)
qed

lemma root_dropped:
  assumes r: "ready cd cp env H m" and o: "owns H (root_foot q)"
  obtains env' H' where "(case q of Some index \<Rightarrow> write_plan_remove_node cd index env | None \<Rightarrow> Ok env) = Ok env'" "xfer H (root_foot q) H' {#}"
    "ready cd cp env' H' m" "same_env env env'"
proof (cases q)
  case None
  then show thesis using r o by (intro that [of env H]) (simp_all add: root_foot_def xfer_refl)
next
  case (Some a)
  then have "H a \<noteq> None" using o by (auto simp: root_foot_def owns_def)
  obtain env' H' where "write_plan_remove_node cd a env = Ok env'" "xfer H {#a#} H' {#}" "ready cd cp env' H' m" "same_env env env'"
    by (rule node_drop [OF r \<open>H a \<noteq> None\<close>])
  then show thesis using Some by (intro that) (simp_all add: root_foot_def)
qed

text \<open>The root stays the root.\<close>

lemma root_kept:
  assumes r: "rooted K H h b root t" and c: "changed cd cp K rcd m (unat (bt_depth b)) (if bt_depth b = 0 then 0 else 1) root t H env ps (None, need) root' env'"
    and need: "need \<Longrightarrow> bt_depth b = 0 \<or> number_separator root' \<noteq> 0"
  shows "root_changed cd cp K m h (apply_ops rcd ps (tree_content H t)) env (Ok (b, root', env'))"
proof -
  let ?d = "unat (bt_depth b)" and ?lo = "if bt_depth b = 0 then 0 else 1 :: nat"
  obtain t' sm ar ts H' where o: "passed_up (fst (None :: (separator \<times> child) option, need)) sm ar ts" "node_is root' t'" "tracks root t root' t'" "bal ?d t'" "kids_fat t'" "held H' t'"
    "heldl H' ar ts" "\<forall>c\<in>set ts. bal ?d c \<and> fat c" "xfer H (foot t) H' (vals sm + foot t' + footl ar ts)"
    "sorted_keys (weave sm (map inorder (t' # ts)))" "short_keys K (weave sm (map inorder (t' # ts)))"
    "map_of (cont H' (weave sm (map inorder (t' # ts)))) = apply_ops rcd ps (map_of (cont H (inorder t)))"
    "if fst (None :: (separator \<times> child) option, need) \<noteq> None then fat t'
     else if snd (None :: (separator \<times> child) option, need) then length (nt_seps t') < 4 \<and> ?lo \<le> Suc (length (nt_seps t')) else ?lo \<le> length (nt_seps t')"
    "ready cd cp env' H' m" "same_env env env'" "fst (None :: (separator \<times> child) option, need) \<noteq> None \<longrightarrow> nd_changed root'"
    by (rule changedE [OF c])
  have e: "sm = []" "ar = []" "ts = []" using o(1) by simp_all
  have x: "xfer H (foot t) H' (foot t')" using o(9) unfolding e by simp
  note f = root_frame [OF r x]
  have "number_separator root' = length (nt_seps t')" using number_separator_has o(2) unfolding node_is_def by blast
  then have lo: "?lo \<le> length (nt_seps t')" using o(13) need by (cases need) (auto simp: Suc_le_eq split: if_splits)
  have st: "stands K ?d ?lo H' root' t'"
    using o(2,4-6,10,11) lo unfolding e by (simp add: stands_def unat_eq_zero)
  have "nd_changed root' \<or> (case bt_root_index b of None \<Rightarrow> t' = Branch [] [] [] | Some a \<Rightarrow> H' a = Some (1, tbytes t'))"
  proof (cases "nd_changed root'")
    case False
    then have u: "root' = root" "tbytes t' = tbytes t" "\<not> nd_changed root" using o(3) by (auto simp: tracks_def)
    show ?thesis
    proof (cases "bt_root_index b")
      case None
      then have t: "t = Branch [] [] []" using r u(3) by (simp add: rooted_def)
      have "node_has root (nt_seps t) (nt_addrs t)" "node_has root (nt_seps t') (nt_addrs t')"
        using r o(2) u(1) by (simp_all add: rooted_def stands_def node_is_def)
      from this [THEN number_separator_has] have "nt_seps t' = []" by (simp add: t)
      moreover have "?d = 0" using r t by (cases ?d) (simp_all add: rooted_def stands_def)
      ultimately have "t' = Branch [] [] []" using o(4) by (cases t') simp
      then show ?thesis using None by simp
    next
      case (Some a)
      then have "H a = Some (1, tbytes t)" using r u(3) by (simp add: rooted_def)
      then show ?thesis using f(3) [OF Some] u(2) Some by simp
    qed
  qed simp
  then have "rooted K H' h b root' t'" using st f(1,2) by (simp add: rooted_def)
  moreover have "tree_content H' t' = apply_ops rcd ps (tree_content H t)" using o(12) unfolding e tree_content_def by simp
  ultimately show ?thesis unfolding root_changed_def using o(14,15) by blast
qed

text \<open>The root loses its last separator, and its only child becomes the root.\<close>

lemma root_collapsed:
  assumes r: "rooted K H h b root t" and c: "changed cd cp K rcd m (unat (bt_depth b)) (if bt_depth b = 0 then 0 else 1) root t H env ps (None, True) root' env'"
    and d: "bt_depth b \<noteq> 0" "number_separator root' = 0"
  obtains a n root2 where "need_remove_root cd root' env' = Ok (Some (Some a, n), root2)"
    "root_changed cd cp K m h (apply_ops rcd ps (tree_content H t)) env
       (and_then (case bt_root_index b of Some index \<Rightarrow> write_plan_remove_node cd index env' | None \<Rightarrow> Ok env')
         (\<lambda>env. Ok (b\<lparr>bt_depth := bt_depth b - 1, bt_root_index := Some a\<rparr>, n, env)))"
proof -
  let ?d = "unat (bt_depth b)" and ?lo = "if bt_depth b = 0 then 0 else 1 :: nat"
  obtain t' sm ar ts H' where o: "passed_up (fst (None :: (separator \<times> child) option, True)) sm ar ts" "node_is root' t'" "tracks root t root' t'" "bal ?d t'" "kids_fat t'" "held H' t'"
    "heldl H' ar ts" "\<forall>c\<in>set ts. bal ?d c \<and> fat c" "xfer H (foot t) H' (vals sm + foot t' + footl ar ts)"
    "sorted_keys (weave sm (map inorder (t' # ts)))" "short_keys K (weave sm (map inorder (t' # ts)))"
    "map_of (cont H' (weave sm (map inorder (t' # ts)))) = apply_ops rcd ps (map_of (cont H (inorder t)))"
    "if fst (None :: (separator \<times> child) option, True) \<noteq> None then fat t'
     else if snd (None :: (separator \<times> child) option, True) then length (nt_seps t') < 4 \<and> ?lo \<le> Suc (length (nt_seps t')) else ?lo \<le> length (nt_seps t')"
    "ready cd cp env' H' m" "same_env env env'" "fst (None :: (separator \<times> child) option, True) \<noteq> None \<longrightarrow> nd_changed root'"
    by (rule changedE [OF c])
  have e: "sm = []" "ar = []" "ts = []" using o(1) by simp_all
  have x: "xfer H (foot t) H' (foot t')" using o(9) unfolding e by simp
  note f = root_frame [OF r x]
  obtain d' where d': "?d = Suc d'" using d(1) by (cases ?d) (simp_all add: unat_eq_zero)
  have "nt_seps t' = []" using d(2) number_separator_has o(2) unfolding node_is_def by fastforce
  then obtain a k where t': "t' = Branch [] [a] [k]" using o(4) d' by (cases t') (auto simp: length_Suc_conv)
  have k: "bal d' k" "fat k" "inorder t' = inorder k" using o(4,5) d' by (simp_all add: t' kids_fat_def)
  have sk: "short_keys K (inorder t')" "sorted_keys (inorder t')" using o(10,11) unfolding e by simp_all
  have l8: "length (nt_seps k) \<le> 8" "4 \<le> length (nt_seps k)" using k(2) by (cases k; simp)+
  obtain n where n: "env_fetch_child cd root' 0 env' = Ok (Some n)" "node_is n ([k] ! 0)" "\<not> nd_changed n"
      "shaped (nt_seps ([k] ! 0)) (nt_addrs ([k] ! 0))" "encodable (nt_seps ([k] ! 0))" "H' ([a] ! 0) = Some (1, tbytes ([k] ! 0))"
    by (rule fetch_kid_of [OF o(14) o(2) [unfolded t'] o(4) [unfolded t' d'] o(6) [unfolded t'] sk(1) [unfolded t'], of 0]) (use l8(1) in simp_all)
  have rh: "node_has root' [] [a]" using o(2) by (simp add: t' node_is_def)
  obtain q root2 where q: "remove_child 0 root' = Ok (q, root2)" "ch_entry_index q = kid_list root' ! 0"
    by (rule remove_child_lists [OF node_has_sizes [OF rh], of 0]) simp
  have qa: "ch_entry_index q = Some a" using q(2) rh by (simp add: node_has_fill fill_nth)
  have need: "need_remove_root cd root' env' = Ok (Some (Some a, n), root2)" using d(2) n(1) q(1) qa by (simp add: need_remove_root_def)
  have ow: "owns H' (root_foot (bt_root_index b))" using f(1) unfolding owns_union by blast
  obtain env2 H2 where w: "(case bt_root_index b of Some index \<Rightarrow> write_plan_remove_node cd index env' | None \<Rightarrow> Ok env') = Ok env2"
      "xfer H' (root_foot (bt_root_index b)) H2 {#}" "ready cd cp env2 H2 m" "same_env env' env2"
    by (rule root_dropped [OF o(14) ow])
  note g = xfer_frame [OF w(2) f(1)]
  have o2: "owns H2 ({#HEADER_ADDRESS#} + foot t')" using g(1) unfolding xfer_def by simp
  have same: "\<forall>x\<in>#foot t'. H2 x = H' x" "H2 HEADER_ADDRESS = H' HEADER_ADDRESS" using g(2) by simp_all
  have "stored H' t'" using o(6) unfolding held_def by blast
  then have "stored H2 t'" using same(1) by (rule stored_frame)
  then have hk: "stored H2 k" "H2 a = Some (1, tbytes k)" by (simp_all add: t')
  have co: "cont H2 (inorder k) = cont H' (inorder k)"
    by (rule cont_frame) (use same(1) inorder_values [OF o(4)] k(3) in auto)
  have fk: "foot t' = {#a#} + foot k" by (simp add: t')
  have ok: "owns H2 (foot k)" using o2 unfolding fk owns_union by blast
  let ?b = "b\<lparr>bt_depth := bt_depth b - 1, bt_root_index := Some a\<rparr>"
  have dd: "unat (bt_depth b - 1) = d'" using d' d(1) by (simp add: unat_minus_one)
  have "stands K d' (if bt_depth b - 1 = 0 then 0 else 1) H2 n k"
    using n(2) k fat_kids [OF k(2)] hk(1) ok sk l8 dd unfolding stands_def held_def by (auto simp: unat_eq_zero)
  moreover have "owns H2 (root_foot (Some a) + ({#HEADER_ADDRESS#} + foot k))" using o2 unfolding fk by (simp add: root_foot_def add_mset_commute)
  ultimately have "rooted K H2 h ?b n k" using dd hk(2) same(2) f(2) by (simp add: rooted_def)
  moreover have "tree_content H2 k = apply_ops rcd ps (tree_content H t)" using o(12) co k(3) unfolding e tree_content_def by simp
  ultimately have "root_changed cd cp K m h (apply_ops rcd ps (tree_content H t)) env (Ok (?b, n, env2))"
    unfolding root_changed_def using w(3) same_env_trans [OF o(15) w(4)] by blast
  with need show thesis using w(1) by (intro that) simp_all
qed

text \<open>The root was split: a new root gets the two halves as children.\<close>

lemma new_root:
  assumes "ch_entry_index right = Some b" "sp_separator sep = Some s"
  obtains n1 n2 n where "set_child 0 (new_child (Some a)) node_default = Ok n1" "set_child 1 right n1 = Ok n2" "set_separator 0 sep n2 = Ok n"
    "node_has n [s] [a, b]" "nd_changed n"
proof -
  have d: "array_sizes node_default" "sep_list node_default = replicate 8 None" "kid_list node_default = replicate 9 None"
    by (simp_all add: array_sizes_def node_default_def separator_default_def child_default_def)
  obtain n1 where 1: "set_child 0 (new_child (Some a)) node_default = Ok n1" "array_sizes n1" "sep_list n1 = sep_list node_default"
      "kid_list n1 = (kid_list node_default)[0 := ch_entry_index (new_child (Some a))]"
    by (rule set_child_lists [OF d(1), of 0]) simp
  obtain n2 where 2: "set_child 1 right n1 = Ok n2" "array_sizes n2" "sep_list n2 = sep_list n1" "kid_list n2 = (kid_list n1)[1 := ch_entry_index right]"
    by (rule set_child_lists [OF 1(2), of 1]) simp
  obtain n where 3: "set_separator 0 sep n2 = Ok n" "array_sizes n" "sep_list n = (sep_list n2)[0 := sp_separator sep]" "kid_list n = kid_list n2" "nd_changed n"
    by (rule set_separator_lists [OF 2(2), of 0]) simp
  have "node_has n [s] [a, b]"
    using 1(3,4) 2(3,4) 3(3,4) assms d(2,3) by (simp add: node_has_def new_child_def numeral_eq_Suc)
  with 1(1) 2(1) 3(1) show thesis using 3(5) by (rule that)
qed

lemma root_split:
  assumes p: "params cd K u" and r: "rooted K H h b root t"
    and c: "changed cd cp K rcd (m + u) (unat (bt_depth b)) (if bt_depth b = 0 then 0 else 1) root t H env ps (Some (sep, right), need) root' env'"
  shows "bt_depth b \<noteq> 0xffffffff" and "root_changed cd cp K m h (apply_ops rcd ps (tree_content H t)) env
    (and_then (write_node_plan cd root' (bt_root_index b) env') (\<lambda>(new_index, env).
       and_then (set_child 0 (new_child (if new_index \<noteq> None then new_index else bt_root_index b)) node_default) (\<lambda>root.
       and_then (set_child 1 right root) (\<lambda>root.
       and_then (set_separator 0 sep root) (\<lambda>root.
         Ok (b\<lparr>bt_depth := bt_depth b + 1, bt_root_index := None\<rparr>, root, env))))))"
proof -
  let ?d = "unat (bt_depth b)" and ?lo = "if bt_depth b = 0 then 0 else 1 :: nat" and ?r = "(Some (sep, right), need)"
  obtain t' sm ar ts H' where o: "passed_up (fst ?r) sm ar ts" "node_is root' t'" "tracks root t root' t'" "bal ?d t'" "kids_fat t'" "held H' t'"
    "heldl H' ar ts" "\<forall>c\<in>set ts. bal ?d c \<and> fat c" "xfer H (foot t) H' (vals sm + foot t' + footl ar ts)"
    "sorted_keys (weave sm (map inorder (t' # ts)))" "short_keys K (weave sm (map inorder (t' # ts)))"
    "map_of (cont H' (weave sm (map inorder (t' # ts)))) = apply_ops rcd ps (map_of (cont H (inorder t)))"
    "if fst ?r \<noteq> None then fat t' else if snd ?r then length (nt_seps t') < 4 \<and> ?lo \<le> Suc (length (nt_seps t')) else ?lo \<le> length (nt_seps t')"
    "ready cd cp env' H' (m + u)" "same_env env env'" "fst ?r \<noteq> None \<longrightarrow> nd_changed root'"
    by (rule changedE [OF c])
  obtain s a2 t2 where e: "sp_separator sep = Some s" "ch_entry_index right = Some a2" "sm = [s]" "ar = [a2]" "ts = [t2]" using o(1) by auto
  have ch: "nd_changed root'" "fat t'" "bal ?d t2" "fat t2" using o(8,13,16) by (simp_all add: e)
  have d28: "?d \<le> 28" using o(4-6) unfolding held_def by (blast intro: depth_bound)
  then show dm: "bt_depth b \<noteq> 0xffffffff" by auto
  have sk: "short_keys K (weave [s] (map inorder [t', t2]))" "sorted_keys (weave [s] (map inorder [t', t2]))" using o(10,11) unfolding e by simp_all
  have "short_keys K (inorder t')" using sk(1) by simp
  with o(6,4,5,14) have g: "good_node K t'" by (rule held_good)
  let ?F = "{#si_value s#} + foot t' + ({#a2#} + foot t2)"
  have x: "xfer H (foot t) H' ?F" using o(9) unfolding e by (simp add: footl_def)
  note f = root_frame [OF r x]
  have ow: "owns H' (root_foot (bt_root_index b))" using f(1) unfolding owns_union by blast
  obtain q a env2 H2 where w: "write_node_plan cd root' (bt_root_index b) env' = Ok (q, env2)" "(if q \<noteq> None then q else bt_root_index b) = Some a"
      "xfer H' (root_foot (bt_root_index b)) H2 {#a#}" "H2 a = Some (1, tbytes t')" "ready cd cp env2 H2 m" "same_env env' env2"
    by (rule root_written [OF p o(14,2) g ch(1) ow])
  note fr = xfer_frame [OF w(3) f(1)]
  have same: "\<forall>x\<in>#?F. H2 x = H' x" "H2 HEADER_ADDRESS = H' HEADER_ADDRESS" using fr(2) by simp_all
  have o2: "owns H2 ({#a#} + ({#HEADER_ADDRESS#} + ?F))" using fr(1) unfolding xfer_def by blast
  let ?t = "Branch [s] [a, a2] [t', t2]"
  have "foot ?t = {#a#} + ?F" by simp
  then have ft: "{#a#} + ({#HEADER_ADDRESS#} + ?F) = {#HEADER_ADDRESS#} + foot ?t" by (simp only: add.left_commute)
  have st: "stored H' t'" "stored H' t2" "H' a2 = Some (1, tbytes t2)" using o(6,7) unfolding held_def heldl_def e by simp_all
  have "stored H2 t'" by (rule stored_frame [OF st(1)]) (use same(1) in simp)
  moreover have "stored H2 t2" by (rule stored_frame [OF st(2)]) (use same(1) in simp)
  moreover have "H2 a2 = Some (1, tbytes t2)" using same(1) st(3) by simp
  ultimately have "stored H2 ?t" using w(4) by simp
  moreover have oh: "owns H2 ({#HEADER_ADDRESS#} + foot ?t)" using o2 unfolding ft .
  then have "owns H2 (foot ?t)" unfolding owns_union by blast
  ultimately have ht: "held H2 ?t" unfolding held_def by blast
  obtain n1 n2 n where n: "set_child 0 (new_child (Some a)) node_default = Ok n1" "set_child 1 right n1 = Ok n2" "set_separator 0 sep n2 = Ok n"
      "node_has n [s] [a, a2]" "nd_changed n"
    by (rule new_root [OF e(2,1)])
  let ?b = "b\<lparr>bt_depth := bt_depth b + 1, bt_root_index := None\<rparr>"
  have d1: "unat (bt_depth b + 1) = Suc ?d" using d28 by (simp add: unat_word_ariths)
  moreover from this have "bt_depth b + 1 \<noteq> 0" by auto
  ultimately have dd: "unat (bt_depth b + 1) = Suc ?d" "bt_depth b + 1 \<noteq> 0" by blast+
  have "stands K (Suc ?d) 1 H2 n ?t"
    using n(4) o(4) ch ht sk unfolding stands_def by (simp add: node_is_def kids_fat_def)
  then have "rooted K H2 h ?b n ?t" using dd oh same(2) f(2) n(5) by (simp add: rooted_def root_foot_def)
  moreover have "tree_content H2 ?t = apply_ops rcd ps (tree_content H t)"
  proof -
    have "\<forall>v\<in>#vals (weave [s] (map inorder [t', t2])). v \<in># ?F" using inorder_values [OF o(4)] inorder_values [OF ch(3)] by auto
    then have "cont H2 (weave [s] (map inorder [t', t2])) = cont H' (weave [s] (map inorder [t', t2]))" using same(1) by (intro cont_frame) blast
    then show ?thesis using o(12) unfolding e tree_content_def by simp
  qed
  ultimately show "root_changed cd cp K m h (apply_ops rcd ps (tree_content H t)) env
    (and_then (write_node_plan cd root' (bt_root_index b) env') (\<lambda>(new_index, env).
       and_then (set_child 0 (new_child (if new_index \<noteq> None then new_index else bt_root_index b)) node_default) (\<lambda>root.
       and_then (set_child 1 right root) (\<lambda>root.
       and_then (set_separator 0 sep root) (\<lambda>root.
         Ok (b\<lparr>bt_depth := bt_depth b + 1, bt_root_index := None\<rparr>, root, env))))))"
    unfolding w(1) and_then_simps prod.case w(2) n(1-3) root_changed_def using w(5) same_env_trans [OF o(15) w(6)] by blast
qed

section \<open>All operations\<close>

text \<open>Slots that one operation can take, whatever the depth.\<close>

definition root_cost :: "nat \<Rightarrow> nat" where
  "root_cost u = cost u 28 + u"

lemma changed_mono:
  "changed cd cp K rcd m d lo n t H env ps r n' env' \<Longrightarrow> m' \<le> m \<Longrightarrow> changed cd cp K rcd m' d lo n t H env ps r n' env'"
  unfolding changed_def by (blast intro: ready_mono)

lemma need_remove_root_kept:
  assumes n: "node_is root t" "bal (unat (bt_depth b)) t" and k: "bt_depth b = 0 \<or> number_separator root \<noteq> 0"
  shows "need_remove_root cd root env = Ok (None, root)"
proof (cases "number_separator root = 0")
  case True
  then have "nt_addrs t = []" using k n(2) by (cases t) simp
  then have "env_fetch_child cd root 0 env = Ok None" using n(1) unfolding node_is_def by (intro fetch_child_none [of root "nt_seps t" "[]"]) simp_all
  then show ?thesis by (simp add: need_remove_root_def)
qed (simp add: need_remove_root_def)

lemma node_change_root:
  assumes p: "params cd K u" and r: "rooted K H h b root t" and e: "ready cd cp env H (m + length ops * root_cost u)" and ops: "ops \<noteq> []" "ops_ok K u ops"
  obtains ps qs q root' env' where "node_change (unat (bt_depth b)) cd None root ops env = Ok (q, root', last ps # qs, env')" "ops = ps @ qs" "ps \<noteq> []"
    "changed cd cp K (tr_ref_counted (fst env)) (m + length qs * root_cost u + u) (unat (bt_depth b)) (if bt_depth b = 0 then 0 else 1) root t H env ps q root' env'"
proof -
  let ?d = "unat (bt_depth b)" and ?lo = "if bt_depth b = 0 then 0 else 1 :: nat"
  have st: "stands K ?d ?lo H root t" using r by (simp add: rooted_def)
  then have "?d \<le> 28" by (intro depth_bound [of _ t H]) (simp_all add: stands_def held_def)
  then have "cost u ?d \<le> cost u 28" unfolding cost_def by (intro mult_le_mono1) simp
  then obtain x where x: "cost u 28 = cost u ?d + x" using le_Suc_ex by blast
  let ?m = "m + length ops * (x + u)"
  have e': "ready cd cp env H (?m + length ops * cost u ?d)" using e by (simp add: root_cost_def x algebra_simps)
  have "change_result cd cp K u ?m ?d ?lo root t H env ops UNIV (node_change ?d cd None root ops env)"
    by (rule node_change_spec [OF p, unfolded changes_at_def, rule_format, OF st e' ops]) (simp_all add: convex_def bounded_def)
  then obtain ps qs q root' env' where c: "node_change ?d cd None root ops env = Ok (q, root', last ps # qs, env')" "ops = ps @ qs" "ps \<noteq> []"
      "changed cd cp K (tr_ref_counted (fst env)) (?m + length qs * cost u ?d) ?d ?lo root t H env ps q root' env'"
    unfolding change_result_def by blast
  have "Suc (length qs) \<le> length ops" using c(2,3) by (cases ps) simp_all
  then have "Suc (length qs) * (x + u) \<le> length ops * (x + u)" by (rule mult_le_mono1)
  then have "m + length qs * root_cost u + u \<le> ?m + length qs * cost u ?d" by (simp add: root_cost_def x algebra_simps)
  from changed_mono [OF c(4) this] show thesis by (rule that [OF c(1-3)])
qed

lemma root_step:
  assumes p: "params cd K u" and r: "rooted K H h b root t" and e: "ready cd cp env H (m + length ops * root_cost u)" and ops: "ops \<noteq> []" "ops_ok K u ops"
  obtains ps qs res where "ops = ps @ qs" "ps \<noteq> []" "sorted_changes_body cd (b, root, ops, env) = and_then res (\<lambda>(t, root, env). Ok (Inl (t, root, qs, env)))"
    "root_changed cd cp K (m + length qs * root_cost u) h (apply_ops (tr_ref_counted (fst env)) ps (tree_content H t)) env res"
proof -
  obtain ps qs q root' env' where c: "node_change (unat (bt_depth b)) cd None root ops env = Ok (q, root', last ps # qs, env')" "ops = ps @ qs" "ps \<noteq> []"
    "changed cd cp K (tr_ref_counted (fst env)) (m + length qs * root_cost u + u) (unat (bt_depth b)) (if bt_depth b = 0 then 0 else 1) root t H env ps q root' env'"
    by (rule node_change_root [OF assms])
  let ?M = "apply_ops (tr_ref_counted (fst env)) ps (tree_content H t)" and ?m = "m + length qs * root_cost u"
  have c4: "changed cd cp K (tr_ref_counted (fst env)) ?m (unat (bt_depth b)) (if bt_depth b = 0 then 0 else 1) root t H env ps q root' env'"
    by (rule changed_mono [OF c(4)]) simp
  consider (split) sep right need where "q = (Some (sep, right), need)" | (kept) "q = (None, False)" | (lean) "q = (None, True)"
    by (cases q rule: prod.exhaust; cases "fst q") auto
  then show thesis
  proof cases
    case split
    note s = root_split [OF p r c(4) [unfolded split]]
    have a: "assert_r (last ps # qs \<noteq> []) = Ok ()" "assert_r (bt_depth b \<noteq> 0xffffffff) = Ok ()" "(ops = []) = False" using s(1) ops(1) by simp_all
    show thesis
      by (rule that [OF c(2,3) _ s(2)])
        (unfold sorted_changes_body_def Let_def prod.case a if_False c(1) split and_then_simps option.case list.sel(3), rule refl)
  next
    case kept
    have "root_changed cd cp K ?m h ?M env (Ok (b, root', env'))" by (rule root_kept [OF r c4 [unfolded kept]]) simp
    then show thesis by (rule that [OF c(2,3), rotated]) (use c(1) ops(1) kept in \<open>simp add: sorted_changes_body_def\<close>)
  next
    case lean
    show thesis
    proof (cases "bt_depth b = 0 \<or> number_separator root' \<noteq> 0")
      case True
      have "root_changed cd cp K ?m h ?M env (Ok (b, root', env'))" by (rule root_kept [OF r c4 [unfolded lean]]) (use True in simp)
      moreover obtain t' where "node_is root' t'" "bal (unat (bt_depth b)) t'" using c4 unfolding changed_def by blast
      from need_remove_root_kept [OF this True] have "need_remove_root cd root' env' = Ok (None, root')" .
      ultimately show thesis by (intro that [OF c(2,3)]) (use c(1) ops(1) lean in \<open>simp_all add: sorted_changes_body_def\<close>)
    next
      case False
      then have f: "bt_depth b \<noteq> 0" "number_separator root' = 0" by blast+
      obtain a n root2 where o: "need_remove_root cd root' env' = Ok (Some (Some a, n), root2)"
          "root_changed cd cp K ?m h ?M env
             (and_then (case bt_root_index b of Some index \<Rightarrow> write_plan_remove_node cd index env' | None \<Rightarrow> Ok env')
               (\<lambda>env. Ok (b\<lparr>bt_depth := bt_depth b - 1, bt_root_index := Some a\<rparr>, n, env)))"
        by (rule root_collapsed [OF r c4 [unfolded lean] f])
      have a: "assert_r (last ps # qs \<noteq> []) = Ok ()" "assert_r (bt_depth b \<noteq> 0) = Ok ()" "(ops = []) = False" using f(1) ops(1) by simp_all
      show thesis
        by (rule that [OF c(2,3) _ o(2)])
          (unfold sorted_changes_body_def prod.case a if_False c(1) lean and_then_simps option.case bool.case o(1) list.sel(3), rule refl)
    qed
  qed
qed

lemma sorted_changes_loop:
  assumes p: "params cd K u" and r: "rooted K H h b root t" and e: "ready cd cp env H (m + length ops * root_cost u)" and ops: "ops_ok K u ops"
  shows "root_changed cd cp K m h (apply_ops (tr_ref_counted (fst env)) ops (tree_content H t)) env (loop_r (sorted_changes_body cd) (b, root, ops, env))"
  using r e ops
proof (induction "length ops" arbitrary: H b root t env ops rule: less_induct)
  case less
  show ?case
  proof (cases "ops = []")
    case True
    have "loop_r (sorted_changes_body cd) (b, root, ops, env) = Ok (b, root, env)"
      unfolding loop_r_unfold [of _ "(b, root, ops, env)"] by (simp add: sorted_changes_body_def True)
    then show ?thesis unfolding root_changed_def using less.prems(1,2) True by auto
  next
    case False
    obtain ps qs res where s: "ops = ps @ qs" "ps \<noteq> []" "sorted_changes_body cd (b, root, ops, env) = and_then res (\<lambda>(t, root, env). Ok (Inl (t, root, qs, env)))"
        "root_changed cd cp K (m + length qs * root_cost u) h (apply_ops (tr_ref_counted (fst env)) ps (tree_content H t)) env res"
      by (rule root_step [OF p less.prems(1,2) False less.prems(3)])
    obtain b' root' env' t' H' where o: "res = Ok (b', root', env')" "rooted K H' h b' root' t'" "tree_content H' t' = apply_ops (tr_ref_counted (fst env)) ps (tree_content H t)"
        "ready cd cp env' H' (m + length qs * root_cost u)" "same_env env env'"
      using s(4) unfolding root_changed_def by blast
    have l: "length qs < length ops" using s(1,2) by simp
    have ok: "ops_ok K u qs" using ops_ok_append less.prems(3) s(1) by blast
    have "loop_r (sorted_changes_body cd) (b, root, ops, env) = loop_r (sorted_changes_body cd) (b', root', qs, env')"
      unfolding loop_r_unfold [of _ "(b, root, ops, env)"] s(3) o(1) by simp
    moreover have "root_changed cd cp K m h (apply_ops (tr_ref_counted (fst env)) ops (tree_content H t)) env' (loop_r (sorted_changes_body cd) (b', root', qs, env'))"
      using less.hyps [OF l o(2,4) ok] unfolding o(3) s(1) same_env_fields(1) [OF o(5)] by simp
    ultimately show ?thesis using same_env_trans [OF o(5)] unfolding root_changed_def by metis
  qed
qed

end
