(* ===== verification/Btree_Header.thy ===== *)
theory Btree_Header
  imports Btree_Write
begin

text \<open>
  The header of a tree and \<open>BTreeChangeSet::write_plan\<close>, from a stored tree to a stored tree.
\<close>

section \<open>Writing the header\<close>

text \<open>The header fits a slot of the first table, compressed or not, so that it stays at its address.\<close>

lemma header_tier: "unat (addr_size_tier HEADER_ADDRESS) = 0"
  by (simp add: HEADER_ADDRESS_def addr_new_def addr_size_tier_def)

lemma small_first:
  assumes "tiers_ok col rcd vts" "length val \<le> 12" "column_compress cd cp NoHash val vts = (cv, t)"
  shows "t = 0"
proof -
  have s: "vts \<noteq> []" "vt_entry_size (vts ! 0) = 32" "\<not> vt_multipart (vts ! 0)"
    using assms(1) by (auto simp: tiers_ok_def SIZES_def)
  have "\<exists>s. value_size (vts ! 0) NoHash = Some s \<and> 12 \<le> s"
    using s(2,3) by (simp add: value_size_def encoded_size_def ref_size_def Let_def)
  then have p: "case value_size (vts ! 0) NoHash of Some s \<Rightarrow> len \<le> s | None \<Rightarrow> False" if "len \<le> 12" for len using that by auto
  have "[0..<length vts] = 0 # [1..<length vts]" using s(1) upt_conv_Cons [of 0 "length vts"] by simp
  then have "position (\<lambda>t. case value_size t NoHash of Some s \<Rightarrow> len \<le> s | None \<Rightarrow> False) vts = Some 0" if "len \<le> 12" for len
    unfolding position_def using p [OF that] by simp
  then show ?thesis using assms(2,3) by (auto simp: column_compress_def Let_def split: if_splits)
qed

lemma header_set:
  assumes cd: "codec_ok cd" and r: "ready cd cp env H (m + 77)" and h: "H HEADER_ADDRESS = Some e" and v: "length val = 12"
  obtains env' where "tree_existing cd HEADER_ADDRESS (Set () val) False env = Ok ((Some Written, None), env')"
    "ready cd cp env' (H(HEADER_ADDRESS \<mapsto> (1, val))) m" "same_env env env'"
proof -
  let ?a = HEADER_ADDRESS
  have hr: "heap_rel cd cp env H" "space env (m + 77)" using r by (simp_all add: ready_def)
  have t: "tiers_ok (tr_col (fst env)) (tr_ref_counted (fst env)) (tr_tables (fst env))" "length (tr_tables (fst env)) = 256" "\<not> tr_preimage (fst env)"
    using hr(1) by (simp_all add: heap_rel_def tiers_ok_def)
  obtain cv t where c: "column_compress cd (tr_compression (fst env)) NoHash val (tr_tables (fst env)) = (cv, t)" by (metis surj_pair)
  obtain sv b where s: "stored_form cv val = (sv, b)" by (metis surj_pair)
  have t0: "t = 0" using small_first [OF t(1) _ c] v by simp
  note p = stored_plain [OF hr(1) cd c s]
  have f: "fits (tr_tables (fst env) ! unat (addr_size_tier ?a)) NoHash sv" using p(2) t0 unfolding header_tier by simp
  have sp: "space env (m + length sv + 65)" using p(4) v by (intro space_mono [OF hr(2)]) simp
  obtain vt w where o: "write_replace_plan (tr_tables (fst env) ! unat (addr_size_tier ?a)) (addr_offset ?a) NoHash sv (snd env) b = Ok (vt, w)"
      "heap_rel cd cp (put_table (unat (addr_size_tier ?a)) vt w env) (H(?a \<mapsto> (1, val)))" "space (put_table (unat (addr_size_tier ?a)) vt w env) m"
    by (rule heap_replace [OF hr(1) h f p(3) sp])
  let ?e = "put_table (unat (addr_size_tier ?a)) vt w env"
  have "tree_existing cd ?a (Set () val) False env = Ok ((Some Written, None), ?e)"
    using c s o(1) t0 t header_tier by (simp add: tree_existing_def write_existing_value_plan_def put_table_def Let_def)
  moreover have "?a \<noteq> 0" using h r by (auto simp: ready_def)
  then have "(H(?a \<mapsto> (1, val))) 0 = None" using r by (simp add: ready_def)
  then have "ready cd cp ?e (H(?a \<mapsto> (1, val))) m" by (intro ready_next [OF r o(2) _ o(3)]) simp_all
  ultimately show thesis by (rule that) simp
qed

section \<open>Stable sorting\<close>

lemma apply_op_other: "op_key op \<noteq> k \<Longrightarrow> apply_op rcd pre op M k = M k"
  by (cases op) (simp_all split: option.split)

lemma apply_op_same: "M (op_key op) = M' (op_key op) \<Longrightarrow> apply_op rcd pre op M (op_key op) = apply_op rcd pre op M' (op_key op)"
  by (cases op) (simp_all split: option.split, blast)

lemma apply_ops_filter:
  "M k = M' k \<Longrightarrow> apply_ops rcd ops M k = apply_ops rcd (filter (\<lambda>op. op_key op = k) ops) M' k"
proof (induction ops arbitrary: M M')
  case (Cons op ops)
  show ?case
  proof (cases "op_key op = k")
    case True
    then show ?thesis using Cons.IH apply_op_same [of M op M'] Cons.prems by simp
  next
    case False
    then have "apply_op rcd False op M k = M' k" using apply_op_other Cons.prems by simp
    then show ?thesis using Cons.IH False by simp
  qed
qed simp

lemma apply_ops_sort: "apply_ops rcd (sort_key op_key ops) M = apply_ops rcd ops M"
proof
  fix k
  have "filter (\<lambda>op. op_key op = k) (sort_key op_key ops) = filter (\<lambda>op. op_key op = k) ops" by (rule sort_key_stable)
  then show "apply_ops rcd (sort_key op_key ops) M k = apply_ops rcd ops M k"
    using apply_ops_filter [of M k M rcd ops] apply_ops_filter [of M k M rcd "sort_key op_key ops"] by simp
qed

section \<open>From a stored tree to a stored tree\<close>

definition handle :: "btree_header \<Rightarrow> u64 \<Rightarrow> btree" where
  "handle h i = \<lparr>bt_depth = bh_depth h, bt_root_index = (if bh_root h = 0 then None else Some (bh_root h)), bt_record_id = i\<rparr>"

lemma handle_simps [simp]:
  "bt_depth (handle h i) = bh_depth h" "bt_root_index (handle h i) = (if bh_root h = 0 then None else Some (bh_root h))"
  "root_or_null (handle h i) = bh_root h"
  by (simp_all add: handle_def root_or_null_def NULL_ADDRESS_def)

lemma node_default_has: "node_has node_default [] []"
  by (simp add: node_has_def node_default_def separator_default_def child_default_def)

text \<open>The root of a stored tree is loaded.\<close>

lemma root_loaded:
  assumes t: "tree_ok K H h t" and r: "ready cd cp env H m"
  obtains root where "fetch_root cd (bh_root h) (fst env) (env_query env) = Ok root" "rooted K H h (handle h i) root t"
proof -
  let ?d = "unat (bh_depth h)"
  have s: "bal ?d t" "kids_fat t" "sorted_keys (inorder t)" "short_keys K (inorder t)" "stored H t" "H HEADER_ADDRESS = Some (1, header_bytes h)"
      "bh_depth h \<noteq> 0 \<longrightarrow> nt_seps t \<noteq> []"
    using t by (auto simp: tree_ok_def tree_shape_def unat_eq_zero)
  let ?F = "root_foot (if bh_root h = 0 then None else Some (bh_root h))"
  have ow: "owns H (?F + ({#HEADER_ADDRESS#} + foot t))" using t unfolding tree_ok_def by (simp only: ac_simps)
  then have of: "owns H (foot t)" unfolding owns_union by blast
  have lo: "(if bh_depth h = 0 then 0 else 1) \<le> length (nt_seps t)" using s(7) by (simp add: Suc_le_eq)
  have st: "stands K ?d (if bh_depth h = 0 then 0 else 1) H n t" if "node_is n t" for n
    using that s of lo unfolding stands_def held_def by (auto simp: unat_eq_zero)
  show thesis
  proof (cases "bh_root h = 0")
    case True
    then have "t = Branch [] [] []" using t by (simp add: tree_ok_def)
    then have "node_is node_default t" using node_default_has by (simp add: node_is_def)
    then have "rooted K H h (handle h i) node_default t" using st ow s(6) True by (simp add: rooted_def node_default_def)
    then show thesis using True by (intro that) (simp_all add: fetch_root_def NULL_ADDRESS_def)
  next
    case False
    then have h: "H (bh_root h) = Some (1, tbytes t)" using t by (simp add: tree_ok_def)
    have v: "heap_view cd cp (fst env) (env_query env) H" "tr_compression (fst env) = cp" "H 0 = None"
      using r heap_rel_view by (auto simp: ready_def)
    obtain n where n: "fetch_root cd (bh_root h) (fst env) (env_query env) = Ok n" "node_is n t" "\<not> nd_changed n"
      using fetch_root_heap [OF v h s(1,2) of s(4)] by blast
    then have "rooted K H h (handle h i) n t" using st [OF n(2)] ow s(6) False h by (simp add: rooted_def)
    with n(1) show thesis by (rule that)
  qed
qed

text \<open>The tree is stored, its header still is the old one.\<close>

definition unheaded :: "nat \<Rightarrow> heap \<Rightarrow> btree_header \<Rightarrow> btree \<Rightarrow> ntree \<Rightarrow> bool" where
  "unheaded K H h b t \<longleftrightarrow> tree_shape K (unat (bt_depth b)) t \<and> stored H t \<and> H HEADER_ADDRESS = Some (1, header_bytes h) \<and>
     owns H (root_foot (bt_root_index b) + ({#HEADER_ADDRESS#} + foot t)) \<and>
     (case bt_root_index b of None \<Rightarrow> t = Branch [] [] [] | Some a \<Rightarrow> H a = Some (1, tbytes t))"

lemma write_sorted_changes_tree:
  assumes p: "params cd K u" and t: "tree_ok K H h t" and r: "ready cd cp env H (m + u + length ops * root_cost u)" and ops: "ops_ok K u ops"
  obtains b env' t' H' where "write_sorted_changes cd (handle h i) ops env = Ok (b, env')" "unheaded K H' h b t'"
    "tree_content H' t' = apply_ops (tr_ref_counted (fst env)) ops (tree_content H t)" "ready cd cp env' H' m" "same_env env env'"
proof -
  obtain root where root: "fetch_root cd (bh_root h) (fst env) (env_query env) = Ok root" "rooted K H h (handle h i) root t"
    by (rule root_loaded [OF t r])
  from sorted_changes_loop [OF p root(2) r ops]
  obtain b n env1 t1 H1 where o: "loop_r (sorted_changes_body cd) (handle h i, root, ops, env) = Ok (b, n, env1)" "rooted K H1 h b n t1"
      "tree_content H1 t1 = apply_ops (tr_ref_counted (fst env)) ops (tree_content H t)" "ready cd cp env1 H1 (m + u)" "same_env env env1"
    unfolding root_changed_def by blast
  let ?d = "unat (bt_depth b)"
  have s: "node_is n t1" "bal ?d t1" "kids_fat t1" "held H1 t1" "sorted_keys (inorder t1)" "short_keys K (inorder t1)"
      "(if bt_depth b = 0 then 0 else 1) \<le> length (nt_seps t1)"
    using o(2) by (simp_all add: rooted_def stands_def)
  have sh: "tree_shape K ?d t1" using s by (auto simp: tree_shape_def unat_eq_zero split: if_splits)
  have w0: "write_sorted_changes cd (handle h i) ops env =
      (if nd_changed n then and_then (write_node_plan cd n (bt_root_index b) env1) (\<lambda>(new_index, env).
         Ok (if new_index \<noteq> None then b\<lparr>bt_root_index := new_index\<rparr> else b, env)) else Ok (b, env1))"
    unfolding write_sorted_changes_def handle_simps root(1) and_then_simps o(1) prod.case by (rule refl)
  show thesis
  proof (cases "nd_changed n")
    case False
    have "unheaded K H1 h b t1" using o(2) False sh s(4) unfolding rooted_def unheaded_def held_def by blast
    then show thesis using w0 False o(3,5) by (intro that [OF _ _ _ ready_mono [OF o(4)]]) simp_all
  next
    case True
    have g: "good_node K t1" by (rule held_good [OF s(4,2,3) o(4) s(6)])
    have ow: "owns H1 (root_foot (bt_root_index b) + ({#HEADER_ADDRESS#} + foot t1))" using o(2) by (simp add: rooted_def)
    then have or: "owns H1 (root_foot (bt_root_index b))" unfolding owns_union by blast
    obtain q a env' H' where w: "write_node_plan cd n (bt_root_index b) env1 = Ok (q, env')" "(if q \<noteq> None then q else bt_root_index b) = Some a"
        "xfer H1 (root_foot (bt_root_index b)) H' {#a#}" "H' a = Some (1, tbytes t1)" "ready cd cp env' H' m" "same_env env1 env'"
      by (rule root_written [OF p o(4) s(1) g True or])
    note f = xfer_frame [OF w(3) ow]
    have same: "\<forall>x\<in>#foot t1. H' x = H1 x" "H' HEADER_ADDRESS = H1 HEADER_ADDRESS" using f(2) by simp_all
    let ?b = "if q \<noteq> None then b\<lparr>bt_root_index := q\<rparr> else b"
    have b: "bt_root_index ?b = Some a" "bt_depth ?b = bt_depth b" using w(2) by (simp_all split: if_splits)
    have "stored H1 t1" using s(4) unfolding held_def by blast
    then have "stored H' t1" using same(1) by (rule stored_frame)
    moreover have "owns H' ({#a#} + ({#HEADER_ADDRESS#} + foot t1))" using f(1) unfolding xfer_def by blast
    moreover have "H' HEADER_ADDRESS = Some (1, header_bytes h)" using same(2) o(2) by (simp add: rooted_def)
    ultimately have uh: "unheaded K H' h ?b t1" unfolding unheaded_def b using sh w(4) by (simp add: root_foot_def)
    have "tree_content H' t1 = tree_content H1 t1"
      unfolding tree_content_def using same(1) inorder_values [OF s(2)] by (intro arg_cong [where f = map_of] cont_frame) auto
    then have tc: "tree_content H' t1 = apply_ops (tr_ref_counted (fst env)) ops (tree_content H t)" using o(3) by simp
    have "write_sorted_changes cd (handle h i) ops env = Ok (?b, env')" unfolding w0 w(1) using True by simp
    then show thesis using uh tc w(5) same_env_trans [OF o(5) w(6)] by (rule that)
  qed
qed

lemma tree_okI:
  assumes "tree_shape K (unat (bh_depth h)) t" "stored H t" "H 0 = None" "H HEADER_ADDRESS = Some (1, header_bytes h)"
    and "owns H (root_foot (if bh_root h = 0 then None else Some (bh_root h)) + ({#HEADER_ADDRESS#} + foot t))"
    and "if bh_root h = 0 then t = Branch [] [] [] else H (bh_root h) = Some (1, tbytes t)"
  shows "tree_ok K H h t"
  using assms unfolding tree_ok_def by (simp only: ac_simps)

text \<open>The header is rewritten when the root or the depth changed.\<close>

definition handle_header :: "btree \<Rightarrow> btree_header" where
  "handle_header b = \<lparr>bh_root = root_or_null b, bh_depth = bt_depth b\<rparr>"

lemma header_tree:
  assumes cd: "codec_ok cd" and b: "unheaded K H h b t" and r: "ready cd cp env H (m + 77)"
  obtains env' H' where "(if h \<noteq> handle_header b then
      and_then (encode_header (handle_header b)) (\<lambda>entry.
      and_then (tree_existing cd HEADER_ADDRESS (Set () (take BTREE_HEADER_SIZE entry)) False env) (\<lambda>(_, env). Ok env))
     else Ok env) = Ok env'" "tree_ok K H' (handle_header b) t" "tree_content H' t = tree_content H t" "ready cd cp env' H' m" "same_env env env'"
proof -
  have s: "tree_shape K (unat (bt_depth b)) t" "stored H t" "H HEADER_ADDRESS = Some (1, header_bytes h)"
      "owns H (root_foot (bt_root_index b) + ({#HEADER_ADDRESS#} + foot t))"
      "case bt_root_index b of None \<Rightarrow> t = Branch [] [] [] | Some a \<Rightarrow> H a = Some (1, tbytes t)"
    using b unfolding unheaded_def by blast+
  have "H 0 = None" using r by (simp add: ready_def)
  have nz: "bt_root_index b \<noteq> Some 0" using s(5) \<open>H 0 = None\<close> by (auto split: option.splits)
  then have idx: "(if bh_root (handle_header b) = 0 then None else Some (bh_root (handle_header b))) = bt_root_index b"
    by (cases "bt_root_index b") (auto simp: handle_header_def root_or_null_def NULL_ADDRESS_def)
  have root: "(if bh_root (handle_header b) = 0 then t = Branch [] [] [] else H' (bh_root (handle_header b)) = Some (1, tbytes t)) \<longleftrightarrow>
      (case bt_root_index b of None \<Rightarrow> t = Branch [] [] [] | Some a \<Rightarrow> H' a = Some (1, tbytes t))" for H'
    using nz by (cases "bt_root_index b") (auto simp: handle_header_def root_or_null_def NULL_ADDRESS_def)
  have dep: "bh_depth (handle_header b) = bt_depth b" by (simp add: handle_header_def)
  have ok: "tree_ok K H' (handle_header b) t" if "stored H' t" "H' 0 = None" "H' HEADER_ADDRESS = Some (1, header_bytes (handle_header b))"
      "owns H' (root_foot (bt_root_index b) + ({#HEADER_ADDRESS#} + foot t))" "\<forall>a. bt_root_index b = Some a \<longrightarrow> H' a = H a" for H'
    by (rule tree_okI [OF _ that(1-3)], unfold dep idx root) (use s(1,5) that(4,5) in \<open>simp_all split: option.splits\<close>)
  show thesis
  proof (cases "h = handle_header b")
    case True
    have "tree_ok K H (handle_header b) t" using ok [OF s(2) \<open>H 0 = None\<close> _ s(4)] s(3) True by simp
    then show thesis using True by (intro that [OF _ _ _ ready_mono [OF r]]) simp_all
  next
    case False
    have l: "length (header_bytes (handle_header b)) = 12" by simp
    let ?H = "H(HEADER_ADDRESS \<mapsto> (1, header_bytes (handle_header b)))"
    obtain env' where w: "tree_existing cd HEADER_ADDRESS (Set () (header_bytes (handle_header b))) False env = Ok ((Some Written, None), env')"
        "ready cd cp env' ?H m" "same_env env env'"
      by (rule header_set [OF cd r s(3) l])
    have x: "xfer H {#HEADER_ADDRESS#} ?H {#HEADER_ADDRESS#}"
      using xfer_move [of H HEADER_ADDRESS HEADER_ADDRESS] s(3) by simp
    have "owns H ({#HEADER_ADDRESS#} + (root_foot (bt_root_index b) + foot t))" using s(4) by (simp add: ac_simps)
    note f = xfer_frame [OF x this]
    have same: "\<forall>a\<in>#foot t. ?H a = H a" "\<forall>a. bt_root_index b = Some a \<longrightarrow> ?H a = H a"
      using f(2) by (simp_all add: root_foot_def del: fun_upd_apply)
    have "stored ?H t" by (rule stored_frame [OF s(2) same(1)])
    moreover have "owns ?H (root_foot (bt_root_index b) + ({#HEADER_ADDRESS#} + foot t))" using f(1) unfolding xfer_def by (simp add: ac_simps)
    moreover have "?H 0 = None" using w(2) by (simp add: ready_def del: fun_upd_apply)
    ultimately have "tree_ok K ?H (handle_header b) t" using same(2) by (intro ok) simp_all
    moreover have "tree_content ?H t = tree_content H t"
    proof -
      have "bal (unat (bt_depth b)) t" using s(1) by (simp add: tree_shape_def)
      then have "\<forall>a\<in>#vals (inorder t). ?H a = H a" using inorder_values same(1) by auto
      then show ?thesis unfolding tree_content_def by (intro arg_cong [where f = map_of] cont_frame)
    qed
    ultimately show thesis using w False l by (intro that) (simp_all add: encode_header_bytes)
  qed
qed

text \<open>\<open>BTreeChangeSet::write_plan\<close> on a stored tree: the changes are applied in the order they have for each key.\<close>

lemma bc_locked_tables: "(bc_locked bc)\<lparr>tr_tables := vts\<rparr> = bc_locked (bc\<lparr>bc_tables := vts\<rparr>)"
  by (simp add: bc_locked_def)

lemma write_plan_tree:
  assumes p: "params cd K u" and t: "tree_ok K H h t" and r: "ready cd (bc_compression bc) (bc_locked bc, w) H (m + u + u + length changes * root_cost u)"
    and ch: "\<forall>op\<in>set changes. length (op_key op) \<le> K \<and> (\<forall>k v. op = Set k v \<longrightarrow> length v + 65 \<le> u)"
  obtains bc' w' h' t' H' where "bc_write_plan cd changes bc w n = Ok (bc', w', n + word_of_nat (length changes))"
    "tree_ok K H' h' t'" "tree_content H' t' = apply_ops (bc_ref_counted bc) changes (tree_content H t)"
    "ready cd (bc_compression bc') (bc_locked bc', w') H' m" "bc' = bc\<lparr>bc_tables := bc_tables bc'\<rparr>"
proof -
  let ?cp = "bc_compression bc" and ?ops = "sort_key op_key changes" and ?env = "(bc_locked bc, w)"
  have v: "heap_view cd ?cp (bc_locked bc) (writer_query w) H" "tr_compression (bc_locked bc) = ?cp" "H HEADER_ADDRESS = Some (1, header_bytes h)"
    using r t heap_rel_view [of cd ?cp ?env H] by (auto simp: ready_def tree_ok_def env_query_def)
  have "btree_open cd (bc_locked bc) (writer_query w) (lw_record_id w) = Ok (handle h (lw_record_id w))"
    unfolding btree_open_def header_read [OF v] by (simp add: handle_def NULL_ADDRESS_def)
  note opened = this
  have hd: "\<lparr>bh_root = bh_root h, bh_depth = bh_depth h\<rparr> = h" by simp
  have ok: "ops_ok K u ?ops" using ch by (simp add: ops_ok_def)
  have u: "77 \<le> u" "codec_ok cd" using p by (simp_all add: params_def node_limit_def)
  have r1: "ready cd ?cp ?env H (m + u + u + length ?ops * root_cost u)" using r by simp
  obtain b env1 t' H1 where o: "write_sorted_changes cd (handle h (lw_record_id w)) ?ops ?env = Ok (b, env1)" "unheaded K H1 h b t'"
      "tree_content H1 t' = apply_ops (tr_ref_counted (fst ?env)) ?ops (tree_content H t)" "ready cd ?cp env1 H1 (m + u)" "same_env ?env env1"
    by (rule write_sorted_changes_tree [OF p t r1 ok])
  have r2: "ready cd ?cp env1 H1 (m + 77)" by (rule ready_mono [OF o(4)]) (use u(1) in simp)
  obtain env2 H2 where e: "(if h \<noteq> handle_header b then
      and_then (encode_header (handle_header b)) (\<lambda>entry.
      and_then (tree_existing cd HEADER_ADDRESS (Set () (take BTREE_HEADER_SIZE entry)) False env1) (\<lambda>(_, env). Ok env))
     else Ok env1) = Ok env2" "tree_ok K H2 (handle_header b) t'" "tree_content H2 t' = tree_content H1 t'" "ready cd ?cp env2 H2 m" "same_env env1 env2"
    by (rule header_tree [OF u(2) o(2) r2])
  let ?bc = "bc\<lparr>bc_tables := tr_tables (fst env2)\<rparr>"
  have plan: "bc_write_plan cd changes bc w n = Ok (?bc, snd env2, n + word_of_nat (length ?ops))"
    unfolding bc_write_plan_def Let_def opened and_then_simps handle_simps hd o(1) prod.case e(1) [unfolded handle_header_def] by (rule refl)
  have "same_env ?env env2" using o(5) e(5) by (rule same_env_trans)
  then have "env2 = (bc_locked ?bc, snd env2)" by (auto simp: same_env_def bc_locked_tables prod_eq_iff bc_locked_def)
  with e(4) have r3: "ready cd (bc_compression ?bc) (bc_locked ?bc, snd env2) H2 m" by simp
  have tc: "tree_content H2 t' = apply_ops (bc_ref_counted bc) changes (tree_content H t)"
    using e(3) o(3) by (simp add: apply_ops_sort) (simp add: bc_locked_def)
  show thesis by (rule that [OF _ e(2) tc r3]) (use plan in simp_all)
qed

end
