(* ===== verification/Btree_Scan.thy ===== *)
theory Btree_Scan
  imports Btree_Header Btree_Iter
begin

text \<open>
  Iteration over a stored tree: the stack of an iterator that moves forward stands for the separators
  that are still to come, and each call returns the first of them.
\<close>

section \<open>Positions\<close>

definition subtree :: "nat \<Rightarrow> heap \<Rightarrow> nat \<Rightarrow> ntree \<Rightarrow> bool" where
  "subtree K H d t \<longleftrightarrow> bal d t \<and> kids_fat t \<and> stored H t \<and> owns H (foot t) \<and> short_keys K (inorder t)"

text \<open>The separators of a tree from the separator \<open>i\<close> of its root on.\<close>

fun from_sep :: "nat \<Rightarrow> ntree \<Rightarrow> separator_inner list" where
  "from_sep i (Branch ss as cs) = (if cs = [] then drop i ss else rpart (drop i ss) (map inorder (drop (Suc i) cs)))"

lemma from_sep_Cons:
  assumes "bal d (Branch ss as cs)" "i < length ss"
  shows "from_sep i (Branch ss as cs) = ss ! i # (if d = 0 then drop (Suc i) ss else inorder (cs ! Suc i) @ from_sep (Suc i) (Branch ss as cs))"
proof (cases d)
  case 0
  then show ?thesis using assms by (simp add: Cons_nth_drop_Suc)
next
  case (Suc d')
  then have l: "length cs = Suc (length ss)" "cs \<noteq> []" using assms(1) by auto
  then have "drop (Suc i) cs = cs ! Suc i # drop (Suc (Suc i)) cs" using assms(2) by (simp add: Cons_nth_drop_Suc)
  moreover have "drop i ss = ss ! i # drop (Suc i) ss" using assms(2) by (simp add: Cons_nth_drop_Suc)
  ultimately show ?thesis using l(2) Suc by simp
qed

lemma from_sep_end: "bal d (Branch ss as cs) \<Longrightarrow> length ss \<le> i \<Longrightarrow> from_sep i (Branch ss as cs) = []"
  by simp

lemma inorder_first: "bal (Suc d) (Branch ss as cs) \<Longrightarrow> inorder (Branch ss as cs) = inorder (cs ! 0) @ from_sep 0 (Branch ss as cs)"
  by (cases cs) (auto simp: weave_Cons simp del: weave.simps)

lemma inorder_leaf: "bal 0 (Branch ss as cs) \<Longrightarrow> inorder (Branch ss as cs) = from_sep 0 (Branch ss as cs)"
  by simp

lemma subtree_kid:
  assumes "subtree K H (Suc d) (Branch ss as cs)" "i \<le> length ss"
  shows "subtree K H d (cs ! i)" "fat (cs ! i)" "i < length cs"
proof -
  have s: "bal (Suc d) (Branch ss as cs)" "kids_fat (Branch ss as cs)" "stored H (Branch ss as cs)" "owns H (foot (Branch ss as cs))"
      "short_keys K (inorder (Branch ss as cs))"
    using assms(1) by (simp_all add: subtree_def del: foot.simps stored.simps inorder.simps bal.simps)
  show i: "i < length cs" using s(1) assms(2) by simp
  show f: "fat (cs ! i)" using s(2) i by (simp add: kids_fat_def)
  have "short_keys K (inorder (cs ! i))" using short_keys_sub [OF s(5) inorder_seps(2) [OF s(1)]] i by simp
  then show "subtree K H d (cs ! i)" using kid_ok [OF s(1,3,4) i] fat_kids [OF f] by (simp add: subtree_def)
qed

text \<open>What the frames below the top of the stack have still to come; \<open>d\<close> is the depth of the tree above them.\<close>

fun below :: "nat \<Rightarrow> heap \<Rightarrow> nat \<Rightarrow> iter_stack \<Rightarrow> separator_inner list \<Rightarrow> bool" where
  "below K H d [] R \<longleftrightarrow> R = []"
| "below K H d ((ix, n) # rest) R \<longleftrightarrow>
     (\<exists>c t R'. ix = LiDescend c \<and> node_is n t \<and> subtree K H (Suc d) t \<and> c \<le> length (nt_seps t) \<and> R = from_sep c t @ R' \<and> below K H (Suc d) rest R')"

definition position_of :: "nat \<Rightarrow> last_index \<Rightarrow> ntree \<Rightarrow> separator_inner list \<Rightarrow> bool" where
  "position_of d ix t R \<longleftrightarrow>
     (case ix of
        LiBefore i \<Rightarrow> i \<le> length (nt_seps t) \<and> R = from_sep i t
      | LiSeeked i \<Rightarrow> i < length (nt_seps t) \<and> R = from_sep i t
      | LiAt i \<Rightarrow> i < length (nt_seps t) \<and> from_sep i t = nt_seps t ! i # R
      | LiDescend i \<Rightarrow> d \<noteq> 0 \<and> i \<le> length (nt_seps t) \<and> R = inorder (nt_kids t ! i) @ from_sep i t)"

definition ahead :: "nat \<Rightarrow> heap \<Rightarrow> nat \<Rightarrow> iter_stack \<Rightarrow> separator_inner list \<Rightarrow> bool" where
  "ahead K H D st R \<longleftrightarrow>
     (\<exists>ix n rest d t R1 R2. st = (ix, n) # rest \<and> node_is n t \<and> subtree K H d t \<and> d + length rest = D \<and>
        position_of d ix t R1 \<and> below K H d rest R2 \<and> R = R1 @ R2)"

section \<open>The next separator\<close>

definition seen :: "codec \<Rightarrow> btree_table \<Rightarrow> log_query \<Rightarrow> heap \<Rightarrow> bool" where
  "seen cd bc lq H \<longleftrightarrow> heap_view cd (bc_compression bc) (bc_locked bc) lq H \<and> H 0 = None"

definition entry_of :: "heap \<Rightarrow> separator_inner \<Rightarrow> bytes \<times> bytes" where
  "entry_of H s = (si_key s, snd (the (H (si_value s))))"

definition answers :: "nat \<Rightarrow> heap \<Rightarrow> nat \<Rightarrow> separator_inner list \<Rightarrow> (iter_item \<times> iter_stack) result \<Rightarrow> bool" where
  "answers K H D R res \<longleftrightarrow>
     (case R of [] \<Rightarrow> res = Ok (None, []) | s # R' \<Rightarrow> \<exists>st. res = Ok (Some (entry_of H s), st) \<and> ahead K H D st R')"

lemma node_of: "node_is n (Branch ss as cs) \<Longrightarrow> node_has n ss as"
  by (simp add: node_is_def)

lemma separator_key_has: "node_has n ss as \<Longrightarrow> i < length ss \<Longrightarrow> separator_key n i = Ok (Some (si_key (ss ! i)))"
proof -
  assume a: "node_has n ss as" "i < length ss"
  then have "sp_separator (nd_separators n ! i) = sep_list n ! i" using node_has_length [OF a(1)] node_has_def [of n ss as] by (subst nth_map) auto
  with a show ?thesis using node_has_length [OF a(1)] by (simp add: separator_key_def node_has_fill fill_nth)
qed

lemma separator_address_none: "node_has n ss as \<Longrightarrow> length ss \<le> i \<Longrightarrow> i < 8 \<Longrightarrow> separator_address n i = Ok None"
proof -
  assume a: "node_has n ss as" "length ss \<le> i" "i < 8"
  then have "sp_separator (nd_separators n ! i) = sep_list n ! i" using node_has_length [OF a(1)] by simp
  with a show ?thesis using node_has_length [OF a(1)] by (simp add: separator_address_def node_has_fill fill_nth)
qed

lemma value_seen:
  assumes "seen cd bc lq H" "subtree K H d (Branch ss as cs)" "i < length ss"
  shows "\<exists>tier. get_at_value_index cd bc (Fetch False) (si_value (ss ! i)) lq = Ok (Some (tier, snd (entry_of H (ss ! i))))"
proof -
  have "si_value (ss ! i) \<in># foot (Branch ss as cs)" using assms(3) by auto
  then have "si_value (ss ! i) \<in> dom H" using assms(2) unfolding subtree_def owns_def by blast
  then obtain rc x where x: "H (si_value (ss ! i)) = Some (rc, x)" by auto
  have v: "heap_view cd (bc_compression bc) (bc_locked bc) lq H" "tr_compression (bc_locked bc) = bc_compression bc"
    using assms(1) by (simp_all add: seen_def bc_locked_def)
  show ?thesis using heap_read [OF v x, of "Fetch False"] x by (simp add: get_at_value_index_def entry_of_def)
qed

text \<open>A position at a separator of the top node.\<close>

lemma at_separator:
  assumes v: "seen cd bc lq H" and t: "node_is n (Branch ss as cs)" "subtree K H d (Branch ss as cs)" "d + length rest = D" "D = unat (bt_depth tr)"
    and i: "i < length ss" "next_index Forward (d = 0) ix = Some (LiAt i)" and b: "below K H d rest R"
  shows "answers K H D (from_sep i (Branch ss as cs) @ R) (loop_r (iter_next_body cd tr bc lq Forward) ((ix, n) # rest))"
proof -
  let ?t = "Branch ss as cs"
  have leaf: "unat (bt_depth tr) + 1 = length ((ix, n) # rest) \<longleftrightarrow> d = 0" using t(3,4) by auto
  obtain tier where g: "get_at_value_index cd bc (Fetch False) (si_value (ss ! i)) lq = Ok (Some (tier, snd (entry_of H (ss ! i))))"
    using value_seen [OF v t(2) i(1)] by blast
  have "iter_next_body cd tr bc lq Forward ((ix, n) # rest) = Ok (Inr (Some (entry_of H (ss ! i)), (LiAt i, n) # rest))"
    unfolding iter_next_body_def Let_def leaf using i(2) g separator_address_has [OF node_of [OF t(1)] i(1)] separator_key_has [OF node_of [OF t(1)] i(1)]
    by (simp add: unwrap_def entry_of_def)
  then have l: "loop_r (iter_next_body cd tr bc lq Forward) ((ix, n) # rest) = Ok (Some (entry_of H (ss ! i)), (LiAt i, n) # rest)"
    by (simp add: loop_r_unfold)
  have "bal d ?t" using t(2) by (simp add: subtree_def)
  then obtain R1 where R1: "from_sep i ?t = ss ! i # R1" using from_sep_Cons i(1) by blast
  then have "position_of d (LiAt i) ?t R1" using i(1) by (simp add: position_of_def)
  then have "ahead K H D ((LiAt i, n) # rest) (R1 @ R)" unfolding ahead_def using t(1-3) b by blast
  then show ?thesis using l by (simp add: answers_def R1 del: from_sep.simps)
qed

text \<open>The top node is done.\<close>

abbreviation resume :: "codec \<Rightarrow> btree \<Rightarrow> btree_table \<Rightarrow> log_query \<Rightarrow> (iter_stack + (iter_item \<times> iter_stack)) result \<Rightarrow> (iter_item \<times> iter_stack) result" where
  "resume cd tr bc lq res \<equiv> and_then res (\<lambda>x. case x of Inl st \<Rightarrow> loop_r (iter_next_body cd tr bc lq Forward) st | Inr r \<Rightarrow> Ok r)"

lemma at_exit:
  assumes v: "seen cd bc lq H" and D: "D = unat (bt_depth tr)"
  shows "below K H d rest R \<Longrightarrow> d + length rest = D \<Longrightarrow> answers K H D R (resume cd tr bc lq (exit_or_go_on Forward (x0 # rest)))"
proof (induction rest arbitrary: d R x0)
  case Nil
  then show ?case by (simp add: exit_or_go_on_def answers_def)
next
  case (Cons f rest)
  obtain ix n where f: "f = (ix, n)" by (cases f)
  obtain c t R' where b: "ix = LiDescend c" "node_is n t" "subtree K H (Suc d) t" "c \<le> length (nt_seps t)" "R = from_sep c t @ R'" "below K H (Suc d) rest R'"
    using Cons.prems(1) f by auto
  obtain ss as cs where t: "t = Branch ss as cs" by (cases t)
  have h: "node_has n ss as" "length ss \<le> 8" using b(2,3) by (simp_all add: t node_is_def subtree_def kids_fat_def)
  show ?case
  proof (cases "c < length ss")
    case True
    then have "c \<noteq> ORDER" "sp_separator (nd_separators n ! c) \<noteq> None"
      using h has_separator_has [OF h(1), of c] by (simp_all add: has_separator_def)
    then have "exit_or_go_on Forward (x0 # f # rest) = Ok (Inl ((LiBefore c, n) # rest))"
      unfolding exit_or_go_on_def f b(1) by (cases x0) auto
    moreover have "answers K H D (from_sep c (Branch ss as cs) @ R') (loop_r (iter_next_body cd tr bc lq Forward) ((LiBefore c, n) # rest))"
      by (rule at_separator [OF v b(2,3) [unfolded t] _ D True _ b(6)]) (use Cons.prems(2) True h(2) in \<open>simp_all add: next_index_def\<close>)
    ultimately show ?thesis unfolding b(5) t by (simp del: from_sep.simps)
  next
    case False
    then have c: "c = length ss" using b(4) t by simp
    have "c = ORDER \<or> sp_separator (nd_separators n ! c) = None"
    proof (cases "c < 8")
      case True
      then show ?thesis using has_separator_has [OF h(1) True] False by (simp add: has_separator_def)
    qed (use c h(2) in simp)
    then have "exit_or_go_on Forward (x0 # f # rest) = exit_or_go_on Forward (f # rest)"
      unfolding exit_or_go_on_def f b(1) by (cases x0) auto
    moreover have "bal (Suc d) (Branch ss as cs)" using b(3) t by (simp add: subtree_def)
    then have "R = R'" using from_sep_end [of "Suc d" ss as cs c] c b(5) t by simp
    ultimately show ?thesis using Cons.IH [OF b(6)] Cons.prems(2) by simp
  qed
qed

text \<open>The first separator below a child.\<close>

lemma kid_seen:
  assumes v: "seen cd bc lq H" and t: "node_is n (Branch ss as cs)" "subtree K H (Suc d) (Branch ss as cs)" "i \<le> length ss"
  obtains c where "fetch_child cd n i (bc_locked bc) lq = Ok (Some c)" "node_is c (cs ! i)"
proof -
  note k = subtree_kid [OF t(2,3)]
  have h: "heap_view cd (bc_compression bc) (bc_locked bc) lq H" "tr_compression (bc_locked bc) = bc_compression bc" "H 0 = None"
    using v by (simp_all add: seen_def bc_locked_def)
  have s: "bal (Suc d) (Branch ss as cs)" "stored H (Branch ss as cs)" "owns H (foot (Branch ss as cs))"
      "length (nt_seps (cs ! i)) \<le> 8" "short_keys K (inorder (cs ! i))"
    using t(2) k(1) unfolding subtree_def kids_fat_def by blast+
  show thesis by (rule fetch_kid [OF h t(1) s(1-3) k(3) s(4,5)]) (rule that)
qed

lemma at_child:
  assumes v: "seen cd bc lq H" and D: "D = unat (bt_depth tr)"
  shows "node_is n (Branch ss as cs) \<Longrightarrow> subtree K H (Suc d) (Branch ss as cs) \<Longrightarrow> Suc d + length rest = D \<Longrightarrow> i \<le> length ss \<Longrightarrow>
    next_index Forward False ix = Some (LiDescend i) \<Longrightarrow> below K H (Suc d) rest R \<Longrightarrow>
    answers K H D (inorder (cs ! i) @ from_sep i (Branch ss as cs) @ R) (loop_r (iter_next_body cd tr bc lq Forward) ((ix, n) # rest))"
proof (induction d arbitrary: n ss as cs rest i ix R)
  case (0 n ss as cs rest i ix R)
  let ?t = "Branch ss as cs"
  note k = subtree_kid [OF 0(2,4)]
  obtain c where c: "fetch_child cd n i (bc_locked bc) lq = Ok (Some c)" "node_is c (cs ! i)" by (rule kid_seen [OF v 0(1,2,4)])
  obtain ss' as' cs' where b: "cs ! i = Branch ss' as' cs'" by (cases "cs ! i")
  have "iter_next_body cd tr bc lq Forward ((ix, n) # rest) = Ok (Inl ((LiBefore 0, c) # (LiDescend i, n) # rest))"
    using 0(3,5) D c(1) by (simp add: iter_next_body_def node_start_def)
  then have l: "loop_r (iter_next_body cd tr bc lq Forward) ((ix, n) # rest) = loop_r (iter_next_body cd tr bc lq Forward) ((LiBefore 0, c) # (LiDescend i, n) # rest)"
    by (simp add: loop_r_unfold [of _ "(ix, n) # rest"])
  have bl: "below K H 0 ((LiDescend i, n) # rest) (from_sep i ?t @ R)" using 0 by auto
  have "answers K H D (from_sep 0 (cs ! i) @ from_sep i ?t @ R) (loop_r (iter_next_body cd tr bc lq Forward) ((LiBefore 0, c) # (LiDescend i, n) # rest))"
    unfolding b by (rule at_separator [OF v c(2) [unfolded b] k(1) [unfolded b] _ D _ _ bl]) (use 0(3) k(2) b in \<open>auto simp: next_index_def\<close>)
  moreover have "inorder (cs ! i) = from_sep 0 (cs ! i)" using k(1) b inorder_leaf by (simp add: subtree_def del: from_sep.simps inorder.simps)
  ultimately show ?case unfolding l by simp
next
  case (Suc d n ss as cs rest i ix R)
  let ?t = "Branch ss as cs"
  note k = subtree_kid [OF Suc.prems(2,4)]
  obtain c where c: "fetch_child cd n i (bc_locked bc) lq = Ok (Some c)" "node_is c (cs ! i)" by (rule kid_seen [OF v Suc.prems(1,2,4)])
  obtain ss' as' cs' where b: "cs ! i = Branch ss' as' cs'" by (cases "cs ! i")
  have "iter_next_body cd tr bc lq Forward ((ix, n) # rest) = Ok (Inl ((LiDescend 0, c) # (LiDescend i, n) # rest))"
    using Suc.prems(3,5) D c(1) by (simp add: iter_next_body_def node_start_def)
  then have l: "loop_r (iter_next_body cd tr bc lq Forward) ((ix, n) # rest) = loop_r (iter_next_body cd tr bc lq Forward) ((LiDescend 0, c) # (LiDescend i, n) # rest)"
    by (simp add: loop_r_unfold [of _ "(ix, n) # rest"])
  have bl: "below K H (Suc d) ((LiDescend i, n) # rest) (from_sep i ?t @ R)" using Suc.prems by auto
  have "answers K H D (inorder (cs' ! 0) @ from_sep 0 (Branch ss' as' cs') @ from_sep i ?t @ R)
      (loop_r (iter_next_body cd tr bc lq Forward) ((LiDescend 0, c) # (LiDescend i, n) # rest))"
    by (rule Suc.IH [OF c(2) [unfolded b] k(1) [unfolded b] _ _ _ bl]) (use Suc.prems(3) in \<open>simp_all add: next_index_def\<close>)
  moreover have "inorder (cs ! i) = inorder (cs' ! 0) @ from_sep 0 (Branch ss' as' cs')"
    unfolding b by (rule inorder_first [of d]) (use k(1) b in \<open>simp add: subtree_def\<close>)
  ultimately show ?case unfolding l by simp
qed

lemma iter_next_ahead:
  assumes v: "seen cd bc lq H" and D: "D = unat (bt_depth tr)" and st: "ahead K H D st R"
  shows "answers K H D R (loop_r (iter_next_body cd tr bc lq Forward) st)"
proof -
  obtain ix n rest d t R1 R2 where o: "st = (ix, n) # rest" "node_is n t" "subtree K H d t" "d + length rest = D" "position_of d ix t R1"
      "below K H d rest R2" "R = R1 @ R2"
    using st unfolding ahead_def by blast
  obtain ss as cs where t: "t = Branch ss as cs" by (cases t)
  let ?t = "Branch ss as cs"
  note n = o(2,3) [unfolded t]
  have h: "node_has n ss as" "length ss \<le> 8" "bal d ?t" using n by (simp_all add: node_is_def subtree_def kids_fat_def)
  have leaf: "unat (bt_depth tr) + 1 = length st \<longleftrightarrow> d = 0" using o(1,4) D by auto
  have exit: "answers K H D R (loop_r (iter_next_body cd tr bc lq Forward) st)"
    if "R1 = []" "iter_next_body cd tr bc lq Forward st = exit_or_go_on Forward st"
    using at_exit [OF v D o(6,4), of "(ix, n)"] that(1) o(7)
    unfolding loop_r_unfold [of _ st] that(2) unfolding o(1) by (simp only: append_Nil)
  have item: "answers K H D (from_sep i ?t @ R2) (loop_r (iter_next_body cd tr bc lq Forward) st)"
    if "i < length ss" "next_index Forward (d = 0) ix = Some (LiAt i)" for i
    unfolding o(1) by (rule at_separator [OF v n o(4) D that o(6)])
  have none: "iter_next_body cd tr bc lq Forward st = exit_or_go_on Forward st"
    if "next_index Forward (d = 0) ix = None \<or> (\<exists>i. next_index Forward (d = 0) ix = Some (LiAt i) \<and> length ss \<le> i \<and> i < 8)"
    using that separator_address_none [OF h(1)] unfolding iter_next_body_def o(1) list.case prod.case Let_def leaf [unfolded o(1)] by auto
  have kid: "answers K H D (inorder (cs ! i) @ from_sep i ?t @ R2) (loop_r (iter_next_body cd tr bc lq Forward) st)"
    if "d \<noteq> 0" "i \<le> length ss" "next_index Forward False ix = Some (LiDescend i)" for i
  proof -
    obtain d' where d: "d = Suc d'" using \<open>d \<noteq> 0\<close> by (cases d) auto
    show ?thesis unfolding o(1) by (rule at_child [OF v D n(1) n(2) [unfolded d] o(4) [unfolded d] that(2,3) o(6) [unfolded d]])
  qed
  show ?thesis
  proof (cases ix)
    case (LiSeeked i)
    then have "i < length ss" "R1 = from_sep i ?t" using o(5) t by (simp_all add: position_of_def)
    then show ?thesis using item [of i] LiSeeked o(7) by (simp add: next_index_def del: from_sep.simps)
  next
    case (LiBefore i)
    then have i: "i \<le> length ss" "R1 = from_sep i ?t" using o(5) t by (simp_all add: position_of_def)
    show ?thesis
    proof (cases "i < length ss")
      case True
      then show ?thesis using item [of i] LiBefore o(7) i h(2) by (simp add: next_index_def del: from_sep.simps)
    next
      case False
      have "R1 = []" using from_sep_end [OF h(3)] False i(2) by simp
      moreover have "iter_next_body cd tr bc lq Forward st = exit_or_go_on Forward st"
        by (rule none) (use False LiBefore i(1) h(2) in \<open>auto simp: next_index_def\<close>)
      ultimately show ?thesis by (rule exit)
    qed
  next
    case (LiDescend i)
    then have "d \<noteq> 0" "i \<le> length ss" "R1 = inorder (cs ! i) @ from_sep i ?t" using o(5) t by (simp_all add: position_of_def)
    then show ?thesis using kid [of i] LiDescend o(7) by (simp add: next_index_def del: from_sep.simps)
  next
    case (LiAt i)
    then have i: "i < length ss" "from_sep i ?t = ss ! i # R1" using o(5) t by (simp_all add: position_of_def del: from_sep.simps)
    note fs = from_sep_Cons [OF h(3) i(1)]
    show ?thesis
    proof (cases "d = 0")
      case False
      then have "R1 = inorder (cs ! Suc i) @ from_sep (Suc i) ?t" using fs i(2) by simp
      then show ?thesis using kid [of "Suc i"] False LiAt o(7) i(1) by (simp add: next_index_def del: from_sep.simps)
    next
      case True
      have R1: "R1 = drop (Suc i) ss" "from_sep (Suc i) ?t = drop (Suc i) ss" using fs i(2) True h(3) by simp_all
      show ?thesis
      proof (cases "Suc i < length ss")
        case True
        then show ?thesis using item [of "Suc i"] \<open>d = 0\<close> LiAt o(7) R1 h(2) by (simp add: next_index_def del: from_sep.simps)
      next
        case False
        have "R1 = []" using R1(1) False by simp
        moreover have "iter_next_body cd tr bc lq Forward st = exit_or_go_on Forward st"
          by (rule none) (use False LiAt i(1) h(2) \<open>d = 0\<close> in \<open>auto simp: next_index_def\<close>)
        ultimately show ?thesis by (rule exit)
      qed
    qed
  qed
qed

section \<open>The iterator\<close>

lemma seen_view: "seen cd bc lq H \<Longrightarrow> heap_view cd (bc_compression bc) (bc_locked bc) lq H \<and> tr_compression (bc_locked bc) = bc_compression bc \<and> H 0 = None"
  by (simp add: seen_def bc_locked_def)

lemma tree_opened:
  assumes "seen cd bc lq H" "tree_ok K H h t"
  shows "btree_open cd (bc_locked bc) lq rid = Ok (handle h rid)"
proof -
  have v: "heap_view cd (bc_compression bc) (bc_locked bc) lq H" "tr_compression (bc_locked bc) = bc_compression bc"
      "H HEADER_ADDRESS = Some (1, header_bytes h)"
    using seen_view [OF assms(1)] assms(2) unfolding tree_ok_def by blast+
  from header_read [OF v] show ?thesis by (simp add: btree_open_def handle_def NULL_ADDRESS_def)
qed

lemma tree_ok_subtree: "tree_ok K H h t \<Longrightarrow> subtree K H (unat (bh_depth h)) t \<and> (bh_depth h \<noteq> 0 \<longrightarrow> nt_seps t \<noteq> [])"
  unfolding tree_ok_def tree_shape_def owns_union subtree_def by (auto simp: unat_eq_zero)

lemma scan_start:
  assumes v: "seen cd bc lq H" and t: "tree_ok K H h t"
  obtains root where "fetch_root cd (bh_root h) (bc_locked bc) lq = Ok root"
    "ahead K H (unat (bh_depth h)) [(node_start root Forward (bh_depth h = 0), root)] (inorder t)"
proof -
  let ?d = "unat (bh_depth h)"
  have s: "subtree K H ?d t" "bh_depth h \<noteq> 0 \<longrightarrow> nt_seps t \<noteq> []" using tree_ok_subtree [OF t] by blast+
  obtain root where root: "fetch_root cd (bh_root h) (bc_locked bc) lq = Ok root" "node_is root t"
  proof (cases "bh_root h = 0")
    case True
    then have "t = Branch [] [] []" using t by (simp add: tree_ok_def)
    then show thesis using True node_default_has by (intro that [of node_default]) (simp_all add: fetch_root_def NULL_ADDRESS_def node_is_def)
  next
    case False
    then have h: "H (bh_root h) = Some (1, tbytes t)" using t by (simp add: tree_ok_def)
    have b: "bal ?d t" "kids_fat t" "owns H (foot t)" "short_keys K (inorder t)" using s(1) unfolding subtree_def by blast+
    have w: "heap_view cd (bc_compression bc) (bc_locked bc) lq H" "tr_compression (bc_locked bc) = bc_compression bc" "H 0 = None"
      using seen_view [OF v] by blast+
    show thesis using fetch_root_heap [OF w h b] that by blast
  qed
  obtain ss as cs where e: "t = Branch ss as cs" by (cases t)
  have b: "bal ?d (Branch ss as cs)" using s(1) e by (simp add: subtree_def)
  have "position_of ?d (node_start root Forward (bh_depth h = 0)) t (inorder t)"
  proof (cases ?d)
    case 0
    then have "inorder t = from_sep 0 t" using inorder_leaf b e by (simp del: from_sep.simps inorder.simps bal.simps)
    then show ?thesis using 0 by (simp add: position_of_def node_start_def unat_eq_zero)
  next
    case (Suc d')
    then have "inorder t = inorder (nt_kids t ! 0) @ from_sep 0 t" using inorder_first b e by (simp del: from_sep.simps inorder.simps bal.simps)
    moreover have "bh_depth h \<noteq> 0" using Suc by auto
    ultimately show ?thesis using Suc by (simp add: position_of_def node_start_def)
  qed
  then have "ahead K H ?d [(node_start root Forward (bh_depth h = 0), root)] (inorder t)"
    unfolding ahead_def using root(2) s(1) by fastforce
  with root(1) show thesis by (rule that)
qed

text \<open>An iterator with \<open>R\<close> still to come, at the start or somewhere in the tree.\<close>

definition iterating :: "nat \<Rightarrow> heap \<Rightarrow> btree_header \<Rightarrow> ntree \<Rightarrow> u64 \<Rightarrow> btree_iterator \<Rightarrow> separator_inner list \<Rightarrow> bool" where
  "iterating K H h t rid it R \<longleftrightarrow> it_tree it = handle h rid \<and> bi_record_id (it_iter it) = rid \<and> it_pending it = None \<and>
     (bi_state (it_iter it) = [] \<and> R = inorder t \<or> ahead K H (unat (bh_depth h)) (bi_state (it_iter it)) R)"

lemma backend_next:
  assumes v: "seen cd bc lq H" and t: "tree_ok K H h t" and i: "iterating K H h t rid it R"
  shows "case R of
      [] \<Rightarrow> \<exists>it'. next_backend cd rid bc lq Forward it = Ok (None, it')
    | s # R' \<Rightarrow> \<exists>it'. next_backend cd rid bc lq Forward it = Ok (Some (entry_of H s), it') \<and> iterating K H h t rid it' R' \<and> it_col it' = it_col it"
proof -
  let ?d = "unat (bh_depth h)"
  have it: "it_tree it = handle h rid" "bi_record_id (it_iter it) = rid" "it_pending it = None" using i by (simp_all add: iterating_def)
  obtain st where st: "(if bi_state (it_iter it) = [] then
        and_then (fetch_root cd (root_or_null (handle h rid)) (bc_locked bc) lq) (\<lambda>root. Ok [(node_start root Forward (bt_depth (handle h rid) = 0), root)])
      else Ok (bi_state (it_iter it))) = Ok st" "ahead K H ?d st R"
  proof (cases "bi_state (it_iter it) = []")
    case True
    then have "R = inorder t" using i by (auto simp: iterating_def ahead_def)
    obtain root where "fetch_root cd (bh_root h) (bc_locked bc) lq = Ok root"
        "ahead K H ?d [(node_start root Forward (bh_depth h = 0), root)] (inorder t)"
      by (rule scan_start [OF v t])
    then show thesis using True \<open>R = inorder t\<close> by (intro that) simp_all
  next
    case False
    then show thesis using i that by (simp add: iterating_def)
  qed
  have rid: "bt_record_id (handle h rid) = rid" by (simp add: handle_def)
  have nb: "next_backend cd rid bc lq Forward it = and_then (iter_next cd (handle h rid) bc lq Forward (it_iter it)) (\<lambda>(item, iter). Ok (item, it\<lparr>it_iter := iter\<rparr>))"
    by (simp add: next_backend_def it rid)
  have ni: "iter_next cd (handle h rid) bc lq Forward (it_iter it) = and_then (loop_r (iter_next_body cd (handle h rid) bc lq Forward) st)
      (\<lambda>(item, st). Ok (item, (it_iter it)\<lparr>bi_state := st\<rparr>))"
    unfolding iter_next_def st(1) and_then_simps by (rule refl)
  have "answers K H ?d R (loop_r (iter_next_body cd (handle h rid) bc lq Forward) st)"
    by (rule iter_next_ahead [OF v _ st(2)]) simp
  then show ?thesis unfolding nb ni answers_def using it by (cases R) (auto simp: iterating_def)
qed

text \<open>Without pending commits an iterator returns the entries of the tree.\<close>

lemma iterator_next_tree:
  assumes v: "seen cd bc (overlays_query ov) H" and t: "tree_ok K H h t" and i: "iterating K H h t (last_record_id ov (it_col it)) it R"
  shows "case R of
      [] \<Rightarrow> \<exists>it'. iterator_next cd bc ov None it = Ok (None, it')
    | s # R' \<Rightarrow> \<exists>it'. iterator_next cd bc ov None it = Ok (Some (entry_of H s), it') \<and> iterating K H h t (last_record_id ov (it_col it)) it' R' \<and> it_col it' = it_col it"
proof -
  let ?rid = "last_record_id ov (it_col it)"
  have it: "it\<lparr>it_pending := None\<rparr> = it" "it_pending it = None" "bi_record_id (it_iter it) = ?rid" using i by (simp_all add: iterating_def)
  have b: "iter_inner_body cd bc ov None Forward it = and_then (next_backend cd ?rid bc (overlays_query ov) Forward it) (\<lambda>(next_tree, it).
      let (r, pending) = merge_next Forward None next_tree; it = it\<lparr>it_pending := pending\<rparr>
      in Ok (case r of Inl k \<Rightarrow> Inl (it\<lparr>it_last_key := LkAt k\<rparr>)
           | Inr (Some (k, v)) \<Rightarrow> Inr (Some (k, v), it\<lparr>it_last_key := LkAt k\<rparr>)
           | Inr None \<Rightarrow> Inr (None, it\<lparr>it_last_key := (case Forward of Backward \<Rightarrow> LkStart | Forward \<Rightarrow> LkEnd)\<rparr>)))"
    unfolding iter_inner_body_def Let_def by (simp only: it option.case simp_thms if_False)
  note n = backend_next [OF v t i]
  show ?thesis
  proof (cases R)
    case Nil
    then obtain it' where "next_backend cd ?rid bc (overlays_query ov) Forward it = Ok (None, it')" using n by auto
    then show ?thesis unfolding iterator_next_def iter_inner_def loop_r_unfold [of _ it] b by (simp add: merge_next_def Nil)
  next
    case (Cons s R')
    then obtain it' where o: "next_backend cd ?rid bc (overlays_query ov) Forward it = Ok (Some (entry_of H s), it')"
        "iterating K H h t ?rid it' R'" "it_col it' = it_col it" using n by auto
    then show ?thesis unfolding iterator_next_def iter_inner_def loop_r_unfold [of _ it] b
      by (simp add: merge_next_def Cons entry_of_def iterating_def)
  qed
qed

text \<open>The first \<open>n\<close> entries that an iterator returns.\<close>

primrec scan :: "nat \<Rightarrow> codec \<Rightarrow> btree_table \<Rightarrow> log_overlays \<Rightarrow> btree_iterator \<Rightarrow> (bytes \<times> bytes) list result" where
  "scan 0 cd bc ov it = Ok []"
| "scan (Suc n) cd bc ov it =
     and_then (iterator_next cd bc ov None it) (\<lambda>(item, it).
     case item of None \<Rightarrow> Ok [] | Some x \<Rightarrow> and_then (scan n cd bc ov it) (\<lambda>xs. Ok (x # xs)))"

lemma scan_rest:
  assumes v: "seen cd bc (overlays_query ov) H" and t: "tree_ok K H h t"
  shows "iterating K H h t (last_record_id ov (it_col it)) it R \<Longrightarrow> scan n cd bc ov it = Ok (map (entry_of H) (take n R))"
proof (induction n arbitrary: it R)
  case (Suc n)
  note i = iterator_next_tree [OF v t Suc.prems]
  show ?case
  proof (cases R)
    case Nil
    then show ?thesis using i by auto
  next
    case (Cons s R')
    then obtain it' where "iterator_next cd bc ov None it = Ok (Some (entry_of H s), it')" "iterating K H h t (last_record_id ov (it_col it')) it' R'"
      using i by auto
    then show ?thesis using Suc.IH Cons by simp
  qed
qed simp

lemma scan_tree:
  assumes v: "seen cd bc (overlays_query ov) H" and t: "tree_ok K H h t"
  shows "and_then (iterator_new cd bc col ov) (scan n cd bc ov) = Ok (map (entry_of H) (take n (inorder t)))"
proof -
  obtain it where "iterator_new cd bc col ov = Ok it" "iterating K H h t (last_record_id ov (it_col it)) it (inorder t)"
    unfolding iterator_new_def Let_def tree_opened [OF v t] by (auto simp: iterating_def handle_def)
  then show ?thesis using scan_rest [OF v t] by simp
qed

lemma entries_content:
  "map fst (map (entry_of H) ss) = map si_key ss" "map_of (map (entry_of H) ss) k = map_option snd (map_of (cont H ss) k)"
  by (simp add: entry_of_def, induction ss, auto simp: entry_of_def)

end
