(* ===== verification/Btree_Open.thy ===== *)
theory Btree_Open
  imports Btree_Header Column_Open
begin

text \<open>
  A btree column without files: \<open>BTreeTable::open\<close> writes an empty header into the first value table,
  and the column holds the empty tree.
\<close>

section \<open>The first value table\<close>

lemma overwrite_fresh_table:
  assumes "wf_table vt" "vt_last_removed vt = 0" "vt_filled vt = 1" "fits vt NoHash v" "\<not> vt_multipart vt"
  shows "overwrite_chain vt NoHash v w None False =
    Ok (1, vt\<lparr>vt_filled := 2, vt_dirty_header := True\<rparr>, insert_value (vt_id vt) 1 (last_part (entry_data vt 1 NoHash v) False) w)"
proof -
  let ?vt = "vt\<lparr>vt_filled := 2, vt_dirty_header := True\<rparr>"
  have n: "next_free vt w = Ok (1, ?vt)" using assms(2,3) by (simp add: next_free_def)
  have wf: "wf_table ?vt" using assms(1) by (simp add: wf_table_def)
  have s: "ref_size ?vt = ref_size vt" "es ?vt = es vt" "entry_data ?vt 1 NoHash v = entry_data vt 1 NoHash v" "vt_id ?vt = vt_id vt"
    by (simp_all add: ref_size_def entry_data_def rc_bytes_def)
  have r: "length v + ref_size vt + encoded_size NoHash \<le> es vt - SIZE_SIZE" using assms(4,5) by (simp add: fits_def)
  have "overwrite_chain_body NoHash v False (length v + ref_size vt + encoded_size NoHash, 0, 0, 1, False, ?vt, w) =
      Ok (Inr (1, ?vt, insert_value (vt_id vt) 1 (last_part (entry_data vt 1 NoHash v) False) w))"
    using obody_first_last [OF wf, of NoHash "length v + ref_size vt + encoded_size NoHash" v 1 False w False] r s by (simp add: valid_key_def)
  moreover have "assert_r (vt_multipart vt \<or> (case value_size vt NoHash of Some s \<Rightarrow> length v \<le> s | None \<Rightarrow> False)) = Ok ()"
    using fits_overwrite [OF assms(4,1)] by simp
  ultimately show ?thesis unfolding overwrite_chain_def n by (simp add: loop_r_unfold s(1))
qed

text \<open>The file of the table is extended by zeros, then the entry goes to slot 1 and the table header to slot 0.\<close>

definition first_file :: "bytes \<Rightarrow> bytes" where
  "first_file d = blit 0 (header_set_filled (header_set_last_removed header_default 0) 2) (blit 32 d (replicate 262144 0))"

lemma first_file_slot:
  assumes "length d \<le> 32"
  shows "length (first_file d) = 262144" "take (length d) (subslice 32 32 (first_file d)) = d"
proof -
  let ?h = "header_set_filled (header_set_last_removed header_default 0) 2"
  have h: "length ?h = 16" by (simp add: header_set_filled_def header_set_last_removed_def header_default_def)
  let ?r = "replicate (262144 - 32 - length d) (0 :: u8)"
  have b: "blit 32 d (replicate 262144 0) = replicate 32 0 @ d @ ?r" by (simp add: blit_def)
  have f: "first_file d = ?h @ replicate 16 0 @ d @ ?r"
    unfolding first_file_def b by (simp add: blit_def h)
  show "length (first_file d) = 262144" unfolding f using assms by (simp add: h)
  show "take (length d) (subslice 32 32 (first_file d)) = d"
    unfolding f subslice_def using assms by (simp add: h)
qed

definition first_table :: "u8 \<Rightarrow> bool \<Rightarrow> u32 \<Rightarrow> bytes \<Rightarrow> value_table" where
  "first_table col rcd version entry =
     (let vt = fresh_table col rcd version 0
      in vt\<lparr>vt_file := \<lparr>tf_file = Some (first_file (last_part (entry_data vt 1 NoHash entry) False)), tf_capacity = 8192\<rparr>, vt_filled := 2\<rparr>)"

lemma fresh_first:
  "vt_entry_size (fresh_table col rcd version 0) = 32" "\<not> vt_multipart (fresh_table col rcd version 0)"
  "wf_table (fresh_table col rcd version 0)" "ref_size (fresh_table col rcd version 0) \<le> 4"
  by (simp_all add: fresh_table_def SIZES_def wf_table_def ref_size_def)

lemma init_first:
  assumes l: "length entry = 12"
  shows "init_with_entry (fresh_table col rcd version 0) entry = (Ok (first_table col rcd version entry), first_table col rcd version entry)"
proof -
  let ?vt = "fresh_table col rcd version 0" and ?w = "log_writer_new overlays_default 0"
  let ?f = "\<lparr>tf_file = Some (replicate 262144 0), tf_capacity = 8192\<rparr> :: table_file"
  let ?d = "last_part (entry_data ?vt 1 NoHash entry) False"
  let ?h = "header_set_filled (header_set_last_removed header_default 0) 2"
  have g: "grow (vt_file ?vt) (vt_entry_size ?vt) = ?f"
    unfolding fresh_first(1) by (simp add: fresh_table_def grow_def set_len_def GROW_SIZE_BYTES_def Let_def)
  let ?vg = "?vt\<lparr>vt_file := ?f\<rparr>"
  have v: "wf_table ?vg" "vt_last_removed ?vg = 0" "vt_filled ?vg = 1" "fits ?vg NoHash entry" "\<not> vt_multipart ?vg" "entry_data ?vg 1 NoHash entry = entry_data ?vt 1 NoHash entry"
    using fresh_first [of col rcd version] l
    by (simp_all add: wf_table_def fits_def ref_size_def encoded_size_def entry_data_def rc_bytes_def) (simp_all add: fresh_table_def)
  have dl: "length ?d \<le> 32" using l fresh_first(4) [of col rcd version]
    by (simp add: last_part_def entry_data_def rc_bytes_def key_bytes_def)
  have o: "slot_offset vt 1 = 32" "slot_offset vt 0 = 0" if "vt_entry_size vt = 32" for vt using that by (simp_all add: slot_offset_def)
  have hl: "length ?h = 16" by (simp add: header_set_filled_def header_set_last_removed_def header_default_def)
  have w1: "write_at ?f ?d 32 = Ok (?f\<lparr>tf_file := Some (blit 32 ?d (replicate 262144 0))\<rparr>)"
    by (rule write_at_ok) (use dl in \<open>simp_all\<close>)
  have bl: "length (blit 32 ?d (replicate 262144 0)) = 262144" using dl by (simp add: blit_def)
  have w2: "write_at (?f\<lparr>tf_file := Some (blit 32 ?d (replicate 262144 0))\<rparr>) ?h 0 = Ok (?f\<lparr>tf_file := Some (first_file ?d)\<rparr>)"
    unfolding first_file_def by (subst write_at_ok) (use hl bl in \<open>simp_all\<close>)
  have c: "local_values_changes (lw_drain (insert_value (vt_id ?vt) 0 ?h (insert_value (vt_id ?vt) 1 ?d ?w))) (vt_id ?vt) = Some [(1, 0, ?d), (0, 0, ?h)]"
    by (simp add: local_values_changes_def lw_drain_def insert_value_def log_writer_new_def log_change_new_def lw_record_id_def or_default_def Let_def)
  have d0: "do_init_with_entry ?vt entry = Ok (first_table col rcd version entry)"
  proof -
    let ?v2 = "?vg\<lparr>vt_filled := 2, vt_dirty_header := True\<rparr>"
    have p: "complete_plan ?v2 w = (?vg\<lparr>vt_filled := 2, vt_dirty_header := False\<rparr>, insert_value (vt_id ?vt) 0 ?h w)" for w
      by (simp add: complete_plan_def fresh_table_def)
    have s1: "write_slot (?vg\<lparr>vt_filled := 2, vt_dirty_header := False\<rparr>) ?d 1 =
        Ok (?vg\<lparr>vt_filled := 2, vt_dirty_header := False, vt_file := ?f\<lparr>tf_file := Some (blit 32 ?d (replicate 262144 0))\<rparr>\<rparr>)"
      using w1 fresh_first(1) [of col rcd version] by (simp add: write_slot_def o)
    have s2: "write_slot (?vg\<lparr>vt_filled := 2, vt_dirty_header := False, vt_file := ?f\<lparr>tf_file := Some (blit 32 ?d (replicate 262144 0))\<rparr>\<rparr>) ?h 0 =
        Ok (first_table col rcd version entry)"
      using w2 fresh_first(1) [of col rcd version] by (simp add: write_slot_def o first_table_def Let_def) (simp add: fresh_table_def)
    have "overwrite_chain ?vg NoHash entry ?w None False = Ok (1, ?v2, insert_value (vt_id ?vt) 1 ?d ?w)"
      using overwrite_fresh_table [OF v(1-5)] v(6) by simp
    then show ?thesis unfolding do_init_with_entry_def g Let_def
      using c s1 s2 by (simp add: p write_changes_def)
  qed
  show ?thesis by (simp add: init_with_entry_def d0)
qed

lemma first_store:
  assumes "lq_value lq (table_id_new col 0) 1 = None" "length entry = 12"
  shows "store_rel (first_table col rcd version entry) lq [1 \<mapsto> (1, NoHash, entry, False)]"
proof -
  let ?t = "first_table col rcd version entry" and ?vt = "fresh_table col rcd version 0"
  let ?D = "entry_data ?vt 1 NoHash entry"
  have dl: "length (last_part ?D False) \<le> 32" using assms(2) fresh_first(4) [of col rcd version]
    by (simp add: last_part_def entry_data_def rc_bytes_def key_bytes_def)
  have f: "vt_entry_size ?t = 32" "\<not> vt_multipart ?t" "vt_id ?t = table_id_new col 0" "vt_last_removed ?t = 0" "vt_filled ?t = 2"
      "vt_file ?t = \<lparr>tf_file = Some (first_file (last_part ?D False)), tf_capacity = 8192\<rparr>" "entry_data ?t 1 NoHash entry = ?D"
    using fresh_first [of col rcd version]
    by (simp_all add: first_table_def Let_def entry_data_def rc_bytes_def) (simp_all add: fresh_table_def)
  have wf: "wf_table ?t" using fresh_first(3) [of col rcd version] by (simp add: wf_table_def first_table_def Let_def)
  note ff = first_file_slot [OF dl]
  have "slot_view ?t lq 1 = Ok (subslice 32 32 (first_file (last_part ?D False)))"
    using assms(1) ff(1) by (simp add: slot_view_def f slot_offset_def read_at_def)
  then have "slot_prefix ?t lq 1 (last_part ?D False)" using ff(2) by (simp add: slot_prefix_def)
  moreover have "length ?D \<le> 30" using dl by (simp add: last_part_def)
  ultimately have "value_chain ?t lq [1] ?D False" using f(1,2) by (simp add: value_chain_def)
  then have lo: "live_ok ?t lq ([1], 1, NoHash, entry, False)" by (simp add: live_ok_def f(7) valid_key_def stored_rc_def)
  have "{i :: u64. 0 < i \<and> i < 2} = {1}"
  proof -
    have "i = 1" if "0 < i" "i < 2" for i :: u64
    proof -
      have "unat i = 1" using that by (simp add: word_less_nat_alt)
      then show ?thesis by (simp add: word_unat_eq_iff)
    qed
    then show ?thesis by (auto simp: word_less_nat_alt)
  qed
  then have "alloc_inv ?t lq [] [1]" using wf f(4,5) by (simp add: alloc_inv_def)
  then have "table_inv ?t lq [] [([1], 1, NoHash, entry, False)]" using lo by (simp add: table_inv_def)
  then show ?thesis unfolding store_rel_def by (intro exI conjI) (auto simp: live_map_def)
qed

section \<open>Opening\<close>

definition no_tree :: btree_header where
  "no_tree = \<lparr>bh_root = NULL_ADDRESS, bh_depth = 0\<rparr>"

lemma open_heap:
  fixes col :: u8 and rcd :: bool and version :: u32 and cp :: compress
  defines "vts \<equiv> (map (fresh_table col rcd version) [0..<256])[0 := first_table col rcd version (header_bytes no_tree)]"
  defines "tables \<equiv> \<lparr>tr_tables = vts, tr_compression = cp, tr_col = col, tr_preimage = False, tr_ref_counted = rcd\<rparr>"
  assumes n: "n < 2 ^ 54"
  shows "ready cd cp (tables, log_writer_new overlays_default rid) [HEADER_ADDRESS \<mapsto> (1, header_bytes no_tree)] n"
proof -
  let ?w = "log_writer_new overlays_default rid" and ?fs = "map (fresh_table col rcd version) [0..<256]"
  let ?ms = "replicate 256 (\<lambda>_. None) :: stores" and ?e = "(1, NoHash, header_bytes no_tree, False)"
  let ?t = "first_table col rcd version (header_bytes no_tree)"
  have lq: "lq_value (writer_query ?w) (table_id_new col 0) 1 = None"
    by (simp add: writer_query_def)
  have st: "store_rel ?t (writer_query ?w) [1 \<mapsto> ?e]" by (rule first_store [OF lq]) simp
  have vi: "tiers_ok col rcd ?fs" "value_stores.stores_rel ?fs ?w ?ms" using fresh_values [of col rcd version ?w] by (simp_all add: values_inv_def)
  have f0: "?fs ! 0 = fresh_table col rcd version 0" by (simp del: upt_rec_numeral)
  have same: "vt_id ?t = vt_id (?fs ! 0)" "vt_ref_counted ?t = vt_ref_counted (?fs ! 0)" "vt_multipart ?t = vt_multipart (?fs ! 0)"
      "vt_entry_size ?t = vt_entry_size (?fs ! 0)"
    unfolding f0 by (simp_all add: first_table_def Let_def)
  have tiers: "tiers_ok col rcd vts"
  proof -
    have "vt_id (vts ! i) = vt_id (?fs ! i) \<and> vt_ref_counted (vts ! i) = vt_ref_counted (?fs ! i) \<and>
        vt_multipart (vts ! i) = vt_multipart (?fs ! i) \<and> vt_entry_size (vts ! i) = vt_entry_size (?fs ! i)" if "i < 256" for i
      using that same by (cases "i = 0") (simp_all add: vts_def del: upt_rec_numeral)
    then show ?thesis using vi(1) by (simp add: tiers_ok_def vts_def)
  qed
  have "value_stores.stores_rel vts ?w (?ms[0 := [1 \<mapsto> ?e]])"
    unfolding vts_def by (rule value_stores.stores_upd [OF vi(2)]) (use st same(1) in \<open>simp_all del: upt_rec_numeral\<close>)
  moreover have "heap_of cd cp ?ms (\<lambda>_. None)" by (simp add: heap_of_def live_at_def)
  from heap_of_upd [OF this, where t = 0 and i = 1 and x = "Some ?e" and y = "Some (1, header_bytes no_tree)"]
  have "heap_of cd cp (?ms[0 := [1 \<mapsto> ?e]]) [HEADER_ADDRESS \<mapsto> (1, header_bytes no_tree)]"
    by (simp add: plain_def HEADER_ADDRESS_def)
  ultimately have "heap_rel cd cp (tables, ?w) [HEADER_ADDRESS \<mapsto> (1, header_bytes no_tree)]"
    unfolding heap_rel_def tables_def using tiers by auto
  moreover have "space (tables, ?w) n"
  proof -
    have "unat (vt_filled (vts ! t)) \<le> 2" if "t < 256" for t
      using that by (cases "t = 0") (simp_all add: vts_def first_table_def fresh_table_def Let_def del: upt_rec_numeral)
    then show ?thesis using n by (fastforce simp: space_def tables_def)
  qed
  ultimately show ?thesis by (simp add: ready_def tables_def HEADER_ADDRESS_def addr_new_def)
qed

lemma no_tree_ok:
  assumes "K < 2 ^ 32"
  shows "tree_ok K [HEADER_ADDRESS \<mapsto> (1, header_bytes no_tree)] no_tree (Branch [] [] [])"
  using assms
  by (simp add: tree_ok_def tree_shape_def no_tree_def NULL_ADDRESS_def root_foot_def kids_fat_def short_keys_def HEADER_ADDRESS_def addr_new_def owns_def)

lemma bc_open_new:
  assumes "unat i < length (md_columns meta)"
  defines "rcd \<equiv> co_ref_counted (md_columns meta ! unat i)"
  obtains bc where "bc_open i (map (fresh_table i rcd version) [0..<256]) opt meta = Ok bc"
    "bc_locked bc = \<lparr>tr_tables = (map (fresh_table i rcd version) [0..<256])[0 := first_table i rcd version (header_bytes no_tree)],
       tr_compression = bc_compression bc, tr_col = i, tr_preimage = False, tr_ref_counted = rcd\<rparr>"
proof -
  let ?fs = "map (fresh_table i rcd version) [0..<256]"
  have f0: "?fs ! 0 = fresh_table i rcd version 0" "0 < length ?fs" by (simp_all del: upt_rec_numeral)
  have ni: "\<not> is_init (fresh_table i rcd version 0)" by (simp add: is_init_def fresh_table_def)
  have h: "init_with_entry (fresh_table i rcd version 0) (header_bytes no_tree) = (Ok (first_table i rcd version (header_bytes no_tree)), first_table i rcd version (header_bytes no_tree))"
    by (rule init_first) simp
  let ?cp = "compress_new (co_compression (md_columns meta ! unat i))
     (case map_of (op_compression_threshold opt) i of Some t \<Rightarrow> t | None \<Rightarrow> DEFAULT_COMPRESSION_THRESHOLD)"
  let ?bc = "\<lparr>bc_id = i, bc_tables = ?fs[0 := first_table i rcd version (header_bytes no_tree)], bc_ref_counted = rcd, bc_compression = ?cp\<rparr>"
  have "bc_open i ?fs opt meta = Ok ?bc"
    unfolding bc_open_def header_tier f0(1) Let_def no_tree_def [symmetric] encode_header_bytes
    using assms(1) f0(2) ni h by (simp add: rcd_def del: upt_rec_numeral)
  then show thesis by (rule that) (simp add: bc_locked_def)
qed

end
