(* ===== verification/Btree_Props.thy ===== *)
theory Btree_Props
  imports Btree_Open Column_Props
begin

text \<open>
  The properties of btree columns. A column holds the tree \<open>t\<close> with header \<open>h\<close> in the heap \<open>H\<close> of its
  value tables; \<open>tree_ok\<close> says that the tree is balanced, at least half full below the root, sorted,
  stored node by node and reachable from the header, and that no two references lead to one address.
\<close>

section \<open>An example\<close>

definition ex_btree :: btree_table where
  "ex_btree = (case bc_open 0 (map (fresh_table 0 False 8) [0..<256]) (options_with_columns 1) ex_meta of Ok bc \<Rightarrow> bc)"

definition ex_heap :: heap where
  "ex_heap = [HEADER_ADDRESS \<mapsto> (1, header_bytes no_tree)]"

lemma ex_btree_facts:
  "bc_open 0 (map (fresh_table 0 False 8) [0..<256]) (options_with_columns 1) ex_meta = Ok ex_btree"
  "n < 2 ^ 54 \<Longrightarrow> ready cd (bc_compression ex_btree) (bc_locked ex_btree, ex_log0) ex_heap n" "\<not> bc_ref_counted ex_btree"
proof -
  have c: "unat (0 :: u8) < length (md_columns ex_meta)" "co_ref_counted (md_columns ex_meta ! unat (0 :: u8)) = False"
    by (simp_all add: ex_meta_def column_options_default_def)
  obtain bc where bc: "bc_open 0 (map (fresh_table 0 False 8) [0..<256]) (options_with_columns 1) ex_meta = Ok bc"
      "bc_locked bc = \<lparr>tr_tables = (map (fresh_table 0 False 8) [0..<256])[0 := first_table 0 False 8 (header_bytes no_tree)],
         tr_compression = bc_compression bc, tr_col = 0, tr_preimage = False, tr_ref_counted = False\<rparr>"
    by (rule bc_open_new [OF c(1), unfolded c(2)])
  then have e: "ex_btree = bc" by (simp add: ex_btree_def)
  show "bc_open 0 (map (fresh_table 0 False 8) [0..<256]) (options_with_columns 1) ex_meta = Ok ex_btree" unfolding e by (rule bc(1))
  show "n < 2 ^ 54 \<Longrightarrow> ready cd (bc_compression ex_btree) (bc_locked ex_btree, ex_log0) ex_heap n"
    unfolding e bc(2) ex_log0_def ex_heap_def by (rule open_heap)
  have "tr_ref_counted (bc_locked bc) = False" unfolding bc(2) by simp
  then show "\<not> bc_ref_counted ex_btree" unfolding e by (simp add: bc_locked_def)
qed

lemma ex_params: "params ex_cd 32 601"
  by (simp add: params_def ex_cd_ok node_limit_def)

lemma ex_tree: "tree_ok 32 ex_heap no_tree (Branch [] [] [])"
  unfolding ex_heap_def by (rule no_tree_ok) simp

section \<open>Change sets\<close>

text \<open>C5: Planning a change set on a btree column (\<open>BTreeChangeSet::write_plan\<close>) never fails when the keys
  and values are within the bounds and the tables have room: it applies the operations to the content
  of the tree, for each key in the order they were pushed; afterwards the column again holds a
  balanced, sorted, completely stored tree whose header points to its root, a lookup through the log
  being written returns the new content, and the room that was not needed is left.
\<close>

theorem btree_plan:
  assumes "params cd K u" "tree_ok K H h t"
    and "ready cd (bc_compression bc) (bc_locked bc, w) H (m + u + u + length changes * root_cost u)"
    and "\<forall>op\<in>set changes. length (op_key op) \<le> K \<and> (\<forall>k v. op = Set k v \<longrightarrow> length v + 65 \<le> u)"
  shows "\<exists>bc' w' h' t' H'. bc_write_plan cd changes bc w n = Ok (bc', w', n + word_of_nat (length changes)) \<and>
    tree_ok K H' h' t' \<and> tree_content H' t' = apply_ops (bc_ref_counted bc) changes (tree_content H t) \<and>
    ready cd (bc_compression bc') (bc_locked bc', w') H' m \<and> bc' = bc\<lparr>bc_tables := bc_tables bc'\<rparr> \<and>
    (\<forall>k. bc_get cd k (writer_query w') (bc_locked bc') = Ok (map_option snd (apply_ops (bc_ref_counted bc) changes (tree_content H t) k)))"
proof -
  obtain bc' w' h' t' H' where o: "bc_write_plan cd changes bc w n = Ok (bc', w', n + word_of_nat (length changes))"
      "tree_ok K H' h' t'" "tree_content H' t' = apply_ops (bc_ref_counted bc) changes (tree_content H t)"
      "ready cd (bc_compression bc') (bc_locked bc', w') H' m" "bc' = bc\<lparr>bc_tables := bc_tables bc'\<rparr>"
    by (rule write_plan_tree [OF assms])
  have v: "heap_view cd (bc_compression bc') (bc_locked bc') (writer_query w') H'" "tr_compression (bc_locked bc') = bc_compression bc'"
    using o(4) heap_rel_view [of cd "bc_compression bc'" "(bc_locked bc', w')" H'] by (simp_all add: ready_def env_query_def)
  have "\<forall>k. bc_get cd k (writer_query w') (bc_locked bc') = Ok (map_option snd (apply_ops (bc_ref_counted bc) changes (tree_content H t) k))"
    using bc_get_tree [OF v o(2)] o(3) by simp
  with o show ?thesis by (intro exI conjI) assumption+
qed

theorem btree_plan_witness:
  "\<exists>bc' w'. bc_write_plan ex_cd [Set [2] [7], Set [1] [8, 9], Dereference [2]] ex_btree ex_log0 0 = Ok (bc', w', 3) \<and>
     bc_get ex_cd [1] (writer_query w') (bc_locked bc') = Ok (Some [8, 9]) \<and>
     bc_get ex_cd [2] (writer_query w') (bc_locked bc') = Ok None"
proof -
  let ?ch = "[Set [2] [7], Set [1] [8, 9], Dereference [2]] :: changes"
  have r: "ready ex_cd (bc_compression ex_btree) (bc_locked ex_btree, ex_log0) ex_heap (0 + 601 + 601 + length ?ch * root_cost 601)"
    by (rule ex_btree_facts(2)) (simp add: root_cost_def cost_def)
  have k: "\<forall>op\<in>set ?ch. length (op_key op) \<le> 32 \<and> (\<forall>k v. op = Set k v \<longrightarrow> length v + 65 \<le> 601)" by simp
  obtain bc' w' where o: "bc_write_plan ex_cd ?ch ex_btree ex_log0 0 = Ok (bc', w', 0 + word_of_nat (length ?ch))"
      "\<forall>k. bc_get ex_cd k (writer_query w') (bc_locked bc') = Ok (map_option snd (apply_ops (bc_ref_counted ex_btree) ?ch (tree_content ex_heap (Branch [] [] [])) k))"
    using btree_plan [OF ex_params ex_tree r k, of 0] by blast
  have "tree_content ex_heap (Branch [] [] []) = (\<lambda>_. None)" by (simp add: tree_content_def)
  then have "map_option snd (apply_ops (bc_ref_counted ex_btree) ?ch (tree_content ex_heap (Branch [] [] [])) [1]) = Some [8, 9]"
      "map_option snd (apply_ops (bc_ref_counted ex_btree) ?ch (tree_content ex_heap (Branch [] [] [])) [2]) = None"
    using ex_btree_facts(3) by simp_all
  then show ?thesis using o by (intro exI [of _ bc'] exI [of _ w'] conjI) simp_all
qed

section \<open>Sequences of change sets\<close>

text \<open>
  Btree columns provide the interface \<open>key_value\<close>, with change sets as operations. A change set needs
  room for its operations, the root and the header.
\<close>

definition btree_rel :: "codec \<Rightarrow> nat \<Rightarrow> nat \<Rightarrow> bool \<Rightarrow> btree_table \<times> log_writer \<Rightarrow> (key \<Rightarrow> (u32 \<times> bytes) option) \<Rightarrow> bool" where
  "btree_rel cd K u rcd = (\<lambda>(bc, w) M. params cd K u \<and> bc_ref_counted bc = rcd \<and>
     (\<exists>H h t. tree_ok K H h t \<and> ready cd (bc_compression bc) (bc_locked bc, w) H 0 \<and> tree_content H t = M))"

definition btree_lookup :: "codec \<Rightarrow> btree_table \<times> log_writer \<Rightarrow> key \<Rightarrow> bytes option result" where
  "btree_lookup cd = (\<lambda>(bc, w) k. bc_get cd k (writer_query w) (bc_locked bc))"

definition btree_change :: "codec \<Rightarrow> btree_table \<times> log_writer \<Rightarrow> changes \<Rightarrow> (btree_table \<times> log_writer) result" where
  "btree_change cd = (\<lambda>(bc, w) changes. and_then (bc_write_plan cd changes bc w 0) (\<lambda>(bc, w, _). Ok (bc, w)))"

definition btree_can :: "nat \<Rightarrow> nat \<Rightarrow> btree_table \<times> log_writer \<Rightarrow> changes \<Rightarrow> bool" where
  "btree_can K u = (\<lambda>(bc, w) changes. space (bc_locked bc, w) (u + u + length changes * root_cost u) \<and>
     (\<forall>op\<in>set changes. length (op_key op) \<le> K \<and> (\<forall>k v. op = Set k v \<longrightarrow> length v + 65 \<le> u)))"

interpretation btree_kv: key_value "btree_rel cd K u rcd" "btree_lookup cd" "btree_change cd" snd "\<lambda>_ _. True" "\<lambda>s _. btree_can K u s" "apply_ops rcd"
proof
  fix s M k assume "btree_rel cd K u rcd s M"
  then obtain bc w H h t where o: "s = (bc, w)" "tree_ok K H h t" "ready cd (bc_compression bc) (bc_locked bc, w) H 0" "tree_content H t = M"
    by (cases s) (auto simp: btree_rel_def)
  have v: "heap_view cd (bc_compression bc) (bc_locked bc) (writer_query w) H" "tr_compression (bc_locked bc) = bc_compression bc"
    using o(3) heap_rel_view [of cd "bc_compression bc" "(bc_locked bc, w)" H] by (simp_all add: ready_def env_query_def)
  show "btree_lookup cd s k = Ok (map_option snd (M k))" using bc_get_tree [OF v o(2)] o(1,4) by (simp add: btree_lookup_def)
next
  fix s M ch assume r: "btree_rel cd K u rcd s M" and c: "btree_can K u s ch"
  then obtain bc w H h t where o: "s = (bc, w)" "params cd K u" "bc_ref_counted bc = rcd" "tree_ok K H h t"
      "ready cd (bc_compression bc) (bc_locked bc, w) H 0" "tree_content H t = M"
    by (cases s) (auto simp: btree_rel_def)
  have e: "ready cd (bc_compression bc) (bc_locked bc, w) H (0 + u + u + length ch * root_cost u)"
      "\<forall>op\<in>set ch. length (op_key op) \<le> K \<and> (\<forall>k v. op = Set k v \<longrightarrow> length v + 65 \<le> u)"
    using o(5) c unfolding o(1) by (simp_all add: ready_def btree_can_def)
  obtain bc' w' h' t' H' where q: "bc_write_plan cd ch bc w 0 = Ok (bc', w', 0 + word_of_nat (length ch))" "tree_ok K H' h' t'"
      "tree_content H' t' = apply_ops (bc_ref_counted bc) ch (tree_content H t)" "ready cd (bc_compression bc') (bc_locked bc', w') H' 0"
      "bc' = bc\<lparr>bc_tables := bc_tables bc'\<rparr>"
    by (rule write_plan_tree [OF o(2,4) e])
  have "bc_ref_counted bc' = rcd" using o(3) by (subst q(5)) simp
  then have "btree_rel cd K u rcd (bc', w') (apply_ops rcd ch M)" using q(2-4) o(2,3,6) unfolding btree_rel_def by auto
  moreover have "btree_change cd s ch = Ok (bc', w')" using q(1) o(1) by (simp add: btree_change_def)
  ultimately show "\<exists>s'. btree_change cd s ch = Ok s' \<and> btree_rel cd K u rcd s' (apply_ops rcd ch M)" by blast
qed

text \<open>C8: Change sets that are planned into one record one after the other, on a column that holds the map
  \<open>M\<close>, give the map of all their operations in order, as long as each of them finds room; every
  lookup answers with it.
\<close>

theorem btree_run:
  assumes "btree_rel cd K u rcd (bc, w) M" "btree_kv.can_all cd K u rcd (bc, w) M css"
  shows "\<exists>bc' w'. btree_kv.run cd css (bc, w) = Ok (bc', w') \<and> btree_rel cd K u rcd (bc', w') (apply_ops rcd (concat css) M) \<and>
    (\<forall>k. bc_get cd k (writer_query w') (bc_locked bc') = Ok (map_option snd (apply_ops rcd (concat css) M k)))"
proof -
  have f: "fold (apply_ops rcd) css M = apply_ops rcd (concat css) M" by (induction css arbitrary: M) simp_all
  obtain bc' w' where o: "btree_kv.run cd css (bc, w) = Ok (bc', w')" "btree_rel cd K u rcd (bc', w') (apply_ops rcd (concat css) M)"
    using btree_kv.run_ok [OF assms] unfolding f by auto
  then show ?thesis using btree_kv.get_ok [OF o(2)] by (auto simp: btree_lookup_def)
qed

theorem btree_run_witness:
  "\<exists>bc' w'. btree_kv.run ex_cd [[Set [1] [7]]] (ex_btree, ex_log0) = Ok (bc', w') \<and>
     bc_get ex_cd [1] (writer_query w') (bc_locked bc') = Ok (Some [7])"
proof -
  have "ready ex_cd (bc_compression ex_btree) (bc_locked ex_btree, ex_log0) ex_heap 0" by (rule ex_btree_facts(2)) simp
  then have r: "btree_rel ex_cd 32 601 False (ex_btree, ex_log0) (tree_content ex_heap (Branch [] [] []))"
    unfolding btree_rel_def using ex_params ex_tree ex_btree_facts(3) by auto
  have "ready ex_cd (bc_compression ex_btree) (bc_locked ex_btree, ex_log0) ex_heap (601 + 601 + 1 * root_cost 601)"
    by (rule ex_btree_facts(2)) (simp add: root_cost_def cost_def)
  then have c: "btree_can 32 601 (ex_btree, ex_log0) [Set [1] [7]]" by (simp add: btree_can_def ready_def)
  then have "btree_kv.can_all ex_cd 32 601 False (ex_btree, ex_log0) (tree_content ex_heap (Branch [] [] [])) [[Set [1] [7]]]"
    using btree_kv.plan_ok [OF r c] by auto
  from btree_run [OF r this] obtain bc' w' where o: "btree_kv.run ex_cd [[Set [1] [7]]] (ex_btree, ex_log0) = Ok (bc', w')"
      "\<forall>k. bc_get ex_cd k (writer_query w') (bc_locked bc') = Ok (map_option snd (apply_ops False (concat [[Set [1] [7]]]) (tree_content ex_heap (Branch [] [] [])) k))"
    by blast
  then show ?thesis by (intro exI [of _ bc'] exI [of _ w']) (simp add: tree_content_def)
qed

section \<open>Lookups\<close>

text \<open>C6: A lookup in a btree column (\<open>BTreeTable::get\<close>), through any log overlays, returns the value that
  the tree has for the key and nothing for other keys; it always returns.
\<close>

theorem btree_get_content:
  assumes "heap_view cd cp tables lq H" "tr_compression tables = cp" "tree_ok K H h t"
  shows "bc_get cd k lq tables = Ok (map_option snd (tree_content H t k))"
  using assms by (rule bc_get_tree)

theorem btree_get_content_witness:
  "bc_get ex_cd [1] (writer_query ex_log0) (bc_locked ex_btree) = Ok None"
proof -
  have "ready ex_cd (bc_compression ex_btree) (bc_locked ex_btree, ex_log0) ex_heap 0" by (rule ex_btree_facts(2)) simp
  then have "heap_view ex_cd (bc_compression ex_btree) (bc_locked ex_btree) (writer_query ex_log0) ex_heap"
      "tr_compression (bc_locked ex_btree) = bc_compression ex_btree"
    using heap_rel_view [of ex_cd "bc_compression ex_btree" "(bc_locked ex_btree, ex_log0)" ex_heap] by (simp_all add: ready_def env_query_def)
  from btree_get_content [OF this ex_tree, of "[1]"] show ?thesis by (simp add: tree_content_def)
qed

section \<open>Opening\<close>

text \<open>C7: A btree column without files opens (\<open>BTreeTable::open\<close>) with the empty tree: the header is
  written into the first slot of the first value table, every lookup answers with nothing, and there
  is room to write.
\<close>

theorem btree_opens_empty:
  assumes "unat i < length (md_columns meta)" "K < 2 ^ 32" "n < 2 ^ 54"
  shows "\<exists>bc. bc_open i (map (fresh_table i (co_ref_counted (md_columns meta ! unat i)) (md_version meta)) [0..<256]) opt meta = Ok bc \<and>
    ready cd (bc_compression bc) (bc_locked bc, log_writer_new overlays_default rid) [HEADER_ADDRESS \<mapsto> (1, header_bytes no_tree)] n \<and>
    tree_ok K [HEADER_ADDRESS \<mapsto> (1, header_bytes no_tree)] no_tree (Branch [] [] []) \<and>
    (\<forall>k. bc_get cd k (writer_query (log_writer_new overlays_default rid)) (bc_locked bc) = Ok None)"
proof -
  let ?H = "[HEADER_ADDRESS \<mapsto> (1, header_bytes no_tree)]" and ?w = "log_writer_new overlays_default rid"
  let ?rc = "co_ref_counted (md_columns meta ! unat i)"
  obtain bc where bc: "bc_open i (map (fresh_table i ?rc (md_version meta)) [0..<256]) opt meta = Ok bc"
      "bc_locked bc = \<lparr>tr_tables = (map (fresh_table i ?rc (md_version meta)) [0..<256])[0 := first_table i ?rc (md_version meta) (header_bytes no_tree)],
         tr_compression = bc_compression bc, tr_col = i, tr_preimage = False, tr_ref_counted = ?rc\<rparr>"
    by (rule bc_open_new [OF assms(1)])
  have r: "ready cd (bc_compression bc) (bc_locked bc, ?w) ?H n" unfolding bc(2) by (rule open_heap [OF assms(3)])
  have t: "tree_ok K ?H no_tree (Branch [] [] [])" by (rule no_tree_ok [OF assms(2)])
  have v: "heap_view cd (bc_compression bc) (bc_locked bc) (writer_query ?w) ?H" "tr_compression (bc_locked bc) = bc_compression bc"
    using r heap_rel_view [of cd "bc_compression bc" "(bc_locked bc, ?w)" ?H] by (simp_all add: ready_def env_query_def)
  have "\<forall>k. bc_get cd k (writer_query ?w) (bc_locked bc) = Ok None" using bc_get_tree [OF v t] by (simp add: tree_content_def)
  with bc(1) r t show ?thesis by blast
qed

theorem btree_opens_empty_witness:
  "\<exists>bc. bc_open 0 (map (fresh_table 0 False 8) [0..<256]) (options_with_columns 1) ex_meta = Ok bc \<and>
     bc_get ex_cd [3] (writer_query (log_writer_new overlays_default 1)) (bc_locked bc) = Ok None"
proof -
  have c: "unat (0 :: u8) < length (md_columns ex_meta)" "co_ref_counted (md_columns ex_meta ! unat (0 :: u8)) = False" "md_version ex_meta = 8"
    by (simp_all add: ex_meta_def column_options_default_def)
  from btree_opens_empty [OF c(1), of 32 0 "options_with_columns 1" ex_cd 1, unfolded c(2,3)] show ?thesis by auto
qed

section \<open>Nodes\<close>

text \<open>C38: A node with up to eight separators and no or one more children than separators survives its
  encoding: \<open>Node::from_encoded\<close> reads what \<open>Entry::encode\<close> wrote, with the separators, children and
  their order unchanged, and the node it returns is not marked as changed.
\<close>

theorem node_roundtrip:
  assumes "node_has n ss cs" "shaped ss cs" "encodable ss"
  shows "\<exists>b n'. encode_node n = Ok b \<and> from_encoded b = Ok n' \<and> node_has n' ss cs \<and> \<not> nd_changed n'"
  using encode_node_bytes [OF assms(1,2)] from_encoded_bytes [OF assms(2,3)] loaded_has [OF assms(2)]
  by (auto simp: loaded_def)

theorem node_roundtrip_witness:
  "\<exists>b n'. encode_node (loaded [\<lparr>si_key = [1, 2], si_value = 5\<rparr>] [6, 7]) = Ok b \<and> from_encoded b = Ok n' \<and>
     node_has n' [\<lparr>si_key = [1, 2], si_value = 5\<rparr>] [6, 7] \<and> \<not> nd_changed n'"
proof -
  have s: "shaped [\<lparr>si_key = [1, 2], si_value = 5\<rparr>] [6, 7]" "encodable [\<lparr>si_key = [1, 2], si_value = 5\<rparr>]"
    by (simp_all add: shaped_def encodable_def)
  have "node_has (loaded [\<lparr>si_key = [1, 2], si_value = 5\<rparr>] [6, 7]) [\<lparr>si_key = [1, 2], si_value = 5\<rparr>] [6, 7]"
    using loaded_has [OF s(1)] by (simp add: child_words_def)
  then show ?thesis by (rule node_roundtrip [OF _ s])
qed

end
