(* ===== verification/Btree_Iter_Props.thy ===== *)
theory Btree_Iter_Props
  imports Btree_Scan Btree_Props
begin

text \<open>
  The properties of iterators over btree columns: a forward scan of a stored tree, and what
  \<open>seek_to_last\<close> does to an iterator that has reached the start.
\<close>

section \<open>Scanning\<close>

text \<open>C9: An iterator over a btree column without pending commits (\<open>BTreeIterator::new\<close> and \<open>next\<close>) returns
  every entry of the tree once, with its value, in increasing order of the keys, and then nothing: more
  calls than there are entries give exactly the content of the column.
\<close>

theorem btree_scan:
  assumes "heap_view cd (bc_compression bc) (bc_locked bc) (overlays_query ov) H" "tree_ok K H h t" "card (dom (tree_content H t)) < n"
  shows "\<exists>xs. and_then (iterator_new cd bc col ov) (scan n cd bc ov) = Ok xs \<and> sorted_wrt (<) (map fst xs) \<and>
    (\<forall>k. map_of xs k = map_option snd (tree_content H t k))"
proof -
  have v: "seen cd bc (overlays_query ov) H" using assms(1,2) by (simp add: seen_def tree_ok_def)
  have s: "sorted_wrt (<) (map si_key (inorder t))" using assms(2) by (simp add: tree_ok_def tree_shape_def)
  have "dom (tree_content H t) = set (map si_key (inorder t))" by (simp add: tree_content_def)
  then have "card (dom (tree_content H t)) = length (inorder t)"
    using distinct_card [of "map si_key (inorder t)"] s by (simp add: strict_sorted_iff)
  then have e: "take n (inorder t) = inorder t" using assms(3) by simp
  show ?thesis
    by (rule exI [of _ "map (entry_of H) (inorder t)"])
      (use scan_tree [OF v assms(2), of col n] s in \<open>simp only: e entries_content tree_content_def simp_thms\<close>)
qed

text \<open>Overlays that answer as a writer does: tables and slots are finitely many.\<close>

lemma map_of_tabulate:
  fixes f :: "'k::finite \<Rightarrow> 'v option"
  shows "\<exists>xs. \<forall>k. map_of xs k = f k"
proof -
  obtain ks where ks: "set ks = (UNIV :: 'k set)" using finite_list [of "UNIV :: 'k set"] by auto
  have "map_of (concat (map (\<lambda>k. case f k of None \<Rightarrow> [] | Some v \<Rightarrow> [(k, v)]) ks)) k = (if k \<in> set ks then f k else None)" for k
    by (induction ks) (auto simp: map_add_def split: option.split)
  then show ?thesis using ks by (intro exI [of _ "concat (map (\<lambda>k. case f k of None \<Rightarrow> [] | Some v \<Rightarrow> [(k, v)]) ks)"]) simp
qed

lemma writer_as_overlays: "\<exists>ov. overlays_query ov = writer_query w"
proof -
  have "\<exists>xs. \<forall>i. map_of xs i = map_option (\<lambda>d. (0 :: u64, d)) (writer_value w t i)" for t by (rule map_of_tabulate)
  then obtain vs where vs: "\<And>t i. map_of (vs t) i = map_option (\<lambda>d. (0 :: u64, d)) (writer_value w t i)" by metis
  have "\<exists>xs. \<forall>i. map_of xs i = map_option (\<lambda>d. (0 :: u64, 0 :: u64, d)) (writer_index w t i)" for t by (rule map_of_tabulate)
  then obtain js where js: "\<And>t i. map_of (js t) i = map_option (\<lambda>d. (0 :: u64, 0 :: u64, d)) (writer_index w t i)" by metis
  obtain v where v: "\<forall>t. map_of v t = Some (vs t)" using map_of_tabulate [of "\<lambda>t. Some (vs t)"] by blast
  obtain x where x: "\<forall>t. map_of x t = Some (js t)" using map_of_tabulate [of "\<lambda>t. Some (js t)"] by blast
  have "overlays_query \<lparr>lo_index = x, lo_value = v, lo_last_record_id = []\<rparr> = writer_query w"
    by (simp add: overlays_query_def writer_query_def index_lookup_def value_lookup_def x v vs js option.map_comp o_def fun_eq_iff option.map_ident)
  then show ?thesis by blast
qed

lemma ex_view: "heap_view ex_cd (bc_compression ex_btree) (bc_locked ex_btree) (overlays_query overlays_default) ex_heap"
proof -
  have "ready ex_cd (bc_compression ex_btree) (bc_locked ex_btree, ex_log0) ex_heap 0" by (rule ex_btree_facts(2)) simp
  then have "heap_view ex_cd (bc_compression ex_btree) (bc_locked ex_btree) (writer_query ex_log0) ex_heap"
    using heap_rel_view [of ex_cd "bc_compression ex_btree" "(bc_locked ex_btree, ex_log0)" ex_heap] by (simp add: ready_def env_query_def)
  moreover have "writer_query ex_log0 = overlays_query overlays_default"
    by (simp add: writer_query_def overlays_query_def ex_log0_value index_lookup_def value_lookup_def overlays_default_def fun_eq_iff)
  ultimately show ?thesis by simp
qed

theorem btree_scan_witness:
  "\<exists>bc w ov. bc_write_plan ex_cd [Set [2] [7], Set [1] [8, 9]] ex_btree ex_log0 0 = Ok (bc, w, 2) \<and> overlays_query ov = writer_query w \<and>
     and_then (iterator_new ex_cd bc 0 ov) (scan 3 ex_cd bc ov) = Ok [([1], [8, 9]), ([2], [7])]"
proof -
  let ?ch = "[Set [2] [7], Set [1] [8, 9]] :: changes" and ?M = "[[2] \<mapsto> (1, [7]), [1] \<mapsto> (1, [8, 9])] :: bytes \<rightharpoonup> (u32 \<times> bytes)"
  have r: "ready ex_cd (bc_compression ex_btree) (bc_locked ex_btree, ex_log0) ex_heap (0 + 601 + 601 + length ?ch * root_cost 601)"
    by (rule ex_btree_facts(2)) (simp add: root_cost_def cost_def)
  have k: "\<forall>op\<in>set ?ch. length (op_key op) \<le> 32 \<and> (\<forall>k v. op = Set k v \<longrightarrow> length v + 65 \<le> 601)" by simp
  have m: "apply_ops (bc_ref_counted ex_btree) ?ch (tree_content ex_heap (Branch [] [] [])) = ?M" by (simp add: tree_content_def)
  obtain bc w h t H where o: "bc_write_plan ex_cd ?ch ex_btree ex_log0 0 = Ok (bc, w, 0 + word_of_nat (length ?ch))"
      "tree_ok 32 H h t" "tree_content H t = ?M" "ready ex_cd (bc_compression bc) (bc_locked bc, w) H 0"
    by (rule write_plan_tree [OF ex_params ex_tree r k, where n = 0, unfolded m])
  obtain ov where ov: "overlays_query ov = writer_query w" using writer_as_overlays by blast
  have v: "heap_view ex_cd (bc_compression bc) (bc_locked bc) (overlays_query ov) H"
    using o(4) heap_rel_view [of ex_cd "bc_compression bc" "(bc_locked bc, w)" H] ov by (simp add: ready_def env_query_def)
  have c: "card (dom (tree_content H t)) < 3" unfolding o(3) by (simp add: card_insert_if)
  obtain xs where xs: "and_then (iterator_new ex_cd bc 0 ov) (scan 3 ex_cd bc ov) = Ok xs" "sorted_wrt (<) (map fst xs)" "\<forall>k. map_of xs k = map_option snd (?M k)"
    using btree_scan [OF v o(2) c, of 0] unfolding o(3) by blast
  have "xs = [([1], [8, 9]), ([2], [7])]"
  proof -
    have f: "[1] < ([2] :: bytes)" by simp
    have "map_of xs = (\<lambda>k. map_option snd (?M k))" using xs(3) by blast
    then have "dom (map_of xs) = {[1], [2]}" by (auto simp: dom_def)
    then have "set (map fst xs) = {[1], [2]}" by (simp add: dom_map_of_conv_image_fst)
    then have s: "map fst xs = [[1], [2]]" using xs(2) f by (intro sorted_distinct_set_unique) (auto simp: strict_sorted_iff)
    then obtain a b where e: "xs = [([1], a), ([2], b)]" by auto
    show ?thesis using xs(3) [rule_format, of "[1]"] xs(3) [rule_format, of "[2]"] unfolding e by simp
  qed
  then show ?thesis using o(1) ov xs(1) by auto
qed

section \<open>Seeking the last entry\<close>

text \<open>What one call of \<open>prev\<close> leaves behind when it finds nothing.\<close>

lemma prev_once:
  assumes "iterator_prev cd bc ov None it = Ok r"
  obtains item it' where "(case (if last_record_id ov (it_col it) \<noteq> bi_record_id (it_iter it) then None else it_pending it) of
        Some p \<Rightarrow> (if pb_direction p = Backward then Ok (pb_next_item p, it\<lparr>it_pending := None\<rparr>)
                   else next_backend cd (last_record_id ov (it_col it)) bc (overlays_query ov) Backward (it\<lparr>it_pending := None\<rparr>))
      | None \<Rightarrow> next_backend cd (last_record_id ov (it_col it)) bc (overlays_query ov) Backward (it\<lparr>it_pending := None\<rparr>)) = Ok (item, it')"
    "fst r = item" "item = None \<Longrightarrow> snd r = it'\<lparr>it_pending := Some \<lparr>pb_next_item = None, pb_direction = Backward\<rparr>, it_last_key := LkStart\<rparr>"
proof -
  let ?q = "case (if last_record_id ov (it_col it) \<noteq> bi_record_id (it_iter it) then None else it_pending it) of
        Some p \<Rightarrow> (if pb_direction p = Backward then Ok (pb_next_item p, it\<lparr>it_pending := None\<rparr>)
                   else next_backend cd (last_record_id ov (it_col it)) bc (overlays_query ov) Backward (it\<lparr>it_pending := None\<rparr>))
      | None \<Rightarrow> next_backend cd (last_record_id ov (it_col it)) bc (overlays_query ov) Backward (it\<lparr>it_pending := None\<rparr>)"
  have b: "iter_inner_body cd bc ov None Backward it = and_then ?q (\<lambda>(next_tree, it).
      let (r, pending) = merge_next Backward None next_tree; it = it\<lparr>it_pending := pending\<rparr>
      in Ok (case r of Inl k \<Rightarrow> Inl (it\<lparr>it_last_key := LkAt k\<rparr>)
           | Inr (Some (k, v)) \<Rightarrow> Inr (Some (k, v), it\<lparr>it_last_key := LkAt k\<rparr>)
           | Inr None \<Rightarrow> Inr (None, it\<lparr>it_last_key := (case Backward of Backward \<Rightarrow> LkStart | Forward \<Rightarrow> LkEnd)\<rparr>)))"
    unfolding iter_inner_body_def Let_def by (simp only: option.case)
  have e: "and_then (iter_inner_body cd bc ov None Backward it) (\<lambda>x. case x of Inl it \<Rightarrow> iterator_prev cd bc ov None it | Inr r \<Rightarrow> Ok r) = Ok r"
    using assms unfolding iterator_prev_def iter_inner_def loop_r_unfold [of _ it] by simp
  obtain item it' where q: "?q = Ok (item, it')" using e unfolding b by (cases ?q) (auto simp del: split_paired_All split_paired_Ex)
  show thesis using e unfolding b q
    by (cases item) (intro that [OF q]; auto simp: merge_next_def)+
qed

lemma next_backend_ids:
  assumes "next_backend cd rid bc lq dir it = Ok (item, it')" "bi_record_id (it_iter it) = bt_record_id (it_tree it)"
  shows "bt_record_id (it_tree it') = rid" "bi_record_id (it_iter it') = rid" "it_col it' = it_col it"
proof -
  have o: "btree_open cd tables lq rid = Ok tree \<Longrightarrow> bt_record_id tree = rid" for tables tree
    by (auto simp: btree_open_def result_simps)
  have n: "iter_next cd tree bc lq dir iter = Ok (x, iter') \<Longrightarrow> bi_record_id iter' = bi_record_id iter" for tree iter x iter'
    by (auto simp: iter_next_def result_simps)
  show "bt_record_id (it_tree it') = rid" "bi_record_id (it_iter it') = rid" "it_col it' = it_col it"
    using assms by (auto simp: next_backend_def result_simps dest: o n split: if_splits)
qed

text \<open>C16: After \<open>prev\<close> has reached the start of a column and answered with nothing, \<open>seek_to_last\<close> does not
  help: the next \<open>prev\<close> again answers with nothing, whatever the column holds, because \<open>seek_to_last\<close>
  keeps the pending answer that \<open>seek\<close> would have dropped.
\<close>

theorem seek_to_last_keeps_pending:
  assumes "bi_record_id (it_iter it) = bt_record_id (it_tree it)"
    and "iterator_prev cd bc ov None it = Ok (None, it1)" "seek_to_last cd bc ov it1 = Ok it2"
  shows "\<exists>it3. iterator_prev cd bc ov None it2 = Ok (None, it3)"
proof -
  let ?p = "\<lparr>pb_next_item = None, pb_direction = Backward\<rparr> :: pending_backend" and ?rid = "last_record_id ov (it_col it)"
  obtain item it' where o: "(case (if ?rid \<noteq> bi_record_id (it_iter it) then None else it_pending it) of
        Some p \<Rightarrow> (if pb_direction p = Backward then Ok (pb_next_item p, it\<lparr>it_pending := None\<rparr>)
                   else next_backend cd ?rid bc (overlays_query ov) Backward (it\<lparr>it_pending := None\<rparr>))
      | None \<Rightarrow> next_backend cd ?rid bc (overlays_query ov) Backward (it\<lparr>it_pending := None\<rparr>)) = Ok (item, it')"
      "it1 = it'\<lparr>it_pending := Some ?p, it_last_key := LkStart\<rparr>"
    by (rule prev_once [OF assms(2)]) auto
  have ids: "bt_record_id (it_tree it') = ?rid" "bi_record_id (it_iter it') = ?rid" "it_col it' = it_col it"
    using o(1) assms(1) next_backend_ids [of cd ?rid bc "overlays_query ov" Backward "it\<lparr>it_pending := None\<rparr>" item it']
    by (auto split: if_splits option.splits)
  obtain iter where "it2 = it1\<lparr>it_last_key := LkEnd, it_iter := iter\<rparr>" "bi_record_id iter = ?rid"
    using assms(3) ids unfolding seek_to_last_def o(2)
    by (auto simp: seek_backend_to_last_def reopen_tree_def iter_seek_to_last_def iter_seek_def result_simps)
  then have "it_pending it2 = Some ?p" "bi_record_id (it_iter it2) = last_record_id ov (it_col it2)" using ids(3) o(2) by simp_all
  then have "iter_inner_body cd bc ov None Backward it2 = Ok (Inr (None, it2\<lparr>it_pending := Some ?p, it_last_key := LkStart\<rparr>))"
    by (simp add: iter_inner_body_def merge_next_def)
  then show ?thesis by (simp add: iterator_prev_def iter_inner_def loop_r_unfold [of _ it2])
qed

theorem seek_to_last_keeps_pending_witness:
  "\<exists>it it1 it2 it3. iterator_new ex_cd ex_btree 0 overlays_default = Ok it \<and> iterator_prev ex_cd ex_btree overlays_default None it = Ok (None, it1) \<and>
     seek_to_last ex_cd ex_btree overlays_default it1 = Ok it2 \<and> iterator_prev ex_cd ex_btree overlays_default None it2 = Ok (None, it3)"
proof -
  let ?rid = "last_record_id overlays_default 0" and ?ov = overlays_default
  have v: "seen ex_cd ex_btree (overlays_query ?ov) ex_heap" using ex_view ex_tree by (simp add: seen_def tree_ok_def)
  let ?it = "\<lparr>it_tree = handle no_tree ?rid, it_iter = \<lparr>bi_state = [], bi_record_id = ?rid\<rparr>, it_col = 0, it_pending = None, it_last_key = LkStart\<rparr>"
  have r: "bt_record_id (handle no_tree ?rid) = ?rid" "bh_depth no_tree = 0" "bh_root no_tree = 0" by (simp_all add: handle_def no_tree_def NULL_ADDRESS_def)
  have n: "iterator_new ex_cd ex_btree 0 ?ov = Ok ?it"
    unfolding iterator_new_def Let_def tree_opened [OF v ex_tree] by (simp add: r)
  have l: "last_separator_index node_default = None" using last_separator_index_has [OF node_default_has] by simp
  have f: "fetch_root ex_cd 0 (bc_locked ex_btree) lq = Ok node_default" for lq by (simp add: fetch_root_def NULL_ADDRESS_def)
  have "iter_next_body ex_cd (handle no_tree ?rid) ex_btree (overlays_query ?ov) Backward [(LiBefore 0, node_default)] = Ok (Inr (None, []))"
    by (simp add: iter_next_body_def next_index_def exit_or_go_on_def)
  then have "iter_next ex_cd (handle no_tree ?rid) ex_btree (overlays_query ?ov) Backward (it_iter ?it) = Ok (None, it_iter ?it)"
    by (simp add: iter_next_def r f l node_start_def loop_r_unfold)
  then have "next_backend ex_cd ?rid ex_btree (overlays_query ?ov) Backward ?it = Ok (None, ?it)" by (simp add: next_backend_def r)
  then have p: "iterator_prev ex_cd ex_btree ?ov None ?it =
      Ok (None, ?it\<lparr>it_pending := Some \<lparr>pb_next_item = None, pb_direction = Backward\<rparr>, it_last_key := LkStart\<rparr>)" (is "_ = Ok (None, ?it1)")
    by (simp add: iterator_prev_def iter_inner_def loop_r_unfold [of _ ?it] iter_inner_body_def merge_next_def Let_def)
  have "node_seek 0 ex_cd node_default SeekLast (bc_locked ex_btree) lq [] = Ok [(LiBefore 0, node_default)]" for lq
    by (simp add: seek_key_def l)
  then obtain it2 where s: "seek_to_last ex_cd ex_btree ?ov ?it1 = Ok it2"
    by (simp add: seek_to_last_def seek_backend_to_last_def reopen_tree_def iter_seek_to_last_def iter_seek_def r f del: node_seek.simps)
  have "bi_record_id (it_iter ?it) = bt_record_id (it_tree ?it)" by (simp add: r)
  from seek_to_last_keeps_pending [OF this p s] n p s show ?thesis by blast
qed

end
