(* ===== verification/Spec2Isabelle.thy ===== *)
theory Spec2Isabelle
  imports Value_Props Index_Props Log_Props Meta_Props Column_Props Migration Btree_Iter_Props
begin

text \<open>
  A verification library for parity-db, an embedded key-value store (src/src).

  \<^bold>\<open>The program.\<close> A database has columns. A hash column (src/src/column.rs) hashes a key to 32 bytes
  and finds it through an index (src/src/index.rs): chunks of 64 entries, each of a few key bits and
  the address of a slot. Values are in 256 value tables of growing slot size (src/src/table.rs), the
  last of which chains slots. A table keeps a free list and, when the column counts references, a
  counter per value. Every change is first planned into a log record (src/src/log.rs): overlays of the
  log answer lookups until the record is read back, validated and enacted into the files
  (src/src/file.rs). A full index is replaced by one of twice the size, into which the old one is
  re-indexed in batches. A btree column (src/src/btree) keeps its nodes and values in the same value
  tables, under a header in the first slot of the first one. The database (src/src/db.rs) takes commits
  into a queue and an overlay; four workers plan them into the log, flush it, enact it and clean it up.
  Options and the metadata file (src/src/options.rs), compression (src/src/compress.rs), statistics
  (src/src/stats.rs) and migration to other options (src/src/migration.rs) are on the side.

  \<^bold>\<open>The model.\<close> A struct is a record whose fields carry a prefix, an enum a datatype, machine integers
  are words of their width. Fields behind locks and atomics are plain fields; an operation returns the
  records it changed. Every fallible operation returns \<open>result\<close>: \<open>Ok\<close>, an error of src/src/error.rs, a
  panic (failed assertion, slice or arithmetic check), or divergence. A loop without a bound is
  \<open>loop_r\<close> over \<open>while_option\<close>: a loop that never ends has the value \<open>Diverge\<close>, so an equation with
  \<open>Ok\<close> says that the code returns. Bounded loops are recursive functions or folds. There is no fuel.
  Third-party code is a parameter: the checksum (crc32fast) of the log functions, \<open>codec\<close> (lz4, snappy)
  with the hypothesis \<open>codec_ok\<close> that decompression inverts compression, \<open>hashers\<close> (siphash, blake2),
  and \<open>hex_codec\<close> (hex) with \<open>hex_ok\<close>.

  \<^bold>\<open>Theories and what they show.\<close>
  \<^item> \<open>Prelude\<close>: result type, loops and their rules, byte slices, little endian numbers. \<open>Table_File\<close>: a
    file as its bytes and capacity, growing in steps.
  \<^item> \<open>Table_Entry\<close>, \<open>Value_Table\<close>: entry buffers, markers, sizes and keys; slots, chains, free list,
    counters, planning, enacting, validation, iteration. \<open>Value_Table_Inv\<close>, \<open>Value_Table_Plan\<close>,
    \<open>Value_Table_Spec\<close>, \<open>Value_Table_Enact\<close> prove the invariant: the free list and the chains of live
    values partition the allocated slots, through file and log. \<open>Value_Store\<close> states the contract of a
    table as an abstract store from addresses to entries and proves that insertion, removal,
    replacement, reference counting and queries implement it, terminate and do not panic; the locale
    \<open>slot_store\<close> is the interface to the column, interpreted on the value tables as \<open>value_stores\<close>.
    \<open>Value_Filled\<close> bounds the number of allocated slots. \<open>Value_Props\<close> has the properties.
  \<^item> \<open>Index_Table\<close>: entries, chunks, the plain and the SSE2 search (with the intrinsics it uses),
    planning, enacting by changed-entry mask, validation. \<open>Index_Spec\<close>, \<open>Index_Enact\<close>: search as first
    match, equality of both searches from 18 index bits on and what the SSE2 search may report below
    that, key identity, recovery of key prefixes. \<open>Index_Props\<close> has the properties.
  \<^item> \<open>Log_Overlay\<close>, \<open>Log_Reader\<close>, \<open>Log_File\<close>: the record being written and its overlays (locale \<open>slot_log\<close>,
    interpreted for values and for chunks), the checked reader, and the queues of log files from
    appending over flushing and reading to replay and clean-up. \<open>Log_Spec\<close>, \<open>Log_Props\<close>: a record stays
    visible from the writer to the overlays, overlay entries are dropped by their own record only,
    appended records are read back, replay order, checksums.
  \<^item> \<open>Compress_Model\<close>, \<open>Options_Meta\<close>, \<open>Stats\<close>, \<open>Meta_Props\<close>: compression by type and threshold, the
    textual options and the metadata file with its round trip, the counters and their binary form.
  \<^item> \<open>Hash_Column\<close>: the hash column with opening, lookup, planning, re-indexing, enacting, validation and
    iteration. \<open>Column_Search\<close> (the search loop over a chunk), \<open>Column_Inv\<close> (invariant and lookup),
    \<open>Column_Write\<close>, \<open>Column_Index\<close>, \<open>Column_Plan\<close>, \<open>Column_Existing\<close>, \<open>Column_Move\<close>, \<open>Column_Spec\<close>
    prove that a column implements a map from keys to counters and values: each branch of
    \<open>write_plan\<close> refines \<open>apply_op\<close>. \<open>Column_Open\<close>, \<open>Column_Reindex\<close>, \<open>Column_Lost\<close> are about opening,
    re-indexing and the one case in which a value is lost. The locale \<open>key_value\<close> of \<open>Column_Props\<close> is
    the interface of a column to a transaction, interpreted as \<open>hash_kv\<close>.
  \<^item> \<open>Btree_Node\<close>, \<open>Btree_Tree\<close>, \<open>Btree_Table\<close>, \<open>Btree_Iter\<close>: nodes and their encoding; fetching, splitting,
    balancing and merging, insertion, removal and sorted change sets; the column; the iterator that
    merges the tree with the commit overlay. The proofs see the value tables as a heap of bytes at
    addresses (\<open>Btree_Store\<close>) and a stored tree as a shape over it (\<open>Btree_Shape\<close>). \<open>Btree_Codec\<close> and
    \<open>Btree_List\<close> treat nodes as lists, \<open>Btree_Lookup\<close> lookups, \<open>Btree_Root\<close>, \<open>Btree_Ops\<close>, \<open>Btree_Cut\<close>,
    \<open>Btree_Balance\<close>, \<open>Btree_Rebalance\<close>, \<open>Btree_Remove\<close>, \<open>Btree_Change\<close> and \<open>Btree_Step\<close> the operations on one
    node and its children, \<open>Btree_Node_Change\<close> and \<open>Btree_Loop\<close> the recursion over the depth and the
    batch of changes below a node, \<open>Btree_Write\<close> the loop over the root, \<open>Btree_Header\<close> the header,
    \<open>Btree_Open\<close> opening, \<open>Btree_Scan\<close> iteration. \<open>Btree_Props\<close>: planning a change set implements the
    operations on the map of the tree and keeps it balanced, sorted and completely stored;
    \<open>key_value\<close> is interpreted a second time, as \<open>btree_kv\<close>. \<open>Btree_Iter_Props\<close>: a scan gives the entries
    in the order of their keys.
  \<^item> \<open>Db_Overlay\<close>, \<open>Db\<close>: change sets, the commit overlay, opening, lookups, commits, planning,
    re-indexing, validating, enacting, flushing, cleaning. \<open>Db_Workers\<close>: the workers and the committing
    threads as a step relation, each step being what a thread does between two waits; the waits for
    room in the two queues are left out, since they only delay a step. \<open>Db_Pending\<close>, \<open>Db_System\<close>: the
    overlay of a reachable state is the sum of the pending commits. \<open>Db_Wake\<close>: the flags of the workers.
    \<open>Db_Open\<close>: the columns of an opened database. \<open>Db_Props\<close> has the properties, for every
    interleaving. \<open>Migration\<close>: choice of columns, re-populating, files of a column.
  \<^item> \<open>Examples\<close>, \<open>Column_Example\<close>: concrete states the properties are applied to.

  \<^bold>\<open>Hypotheses that recur.\<close> \<open>store_rel\<close> and \<open>col_rel\<close> are invariants that hold of fresh tables and columns
  and are kept by the operations. \<open>no_collision\<close>: no other stored key ends in the same 26 bytes, which is
  all a value table keeps of a key; a stale index entry whose slot was reused would otherwise mix keys
  up. \<open>room\<close>: slot numbers stay below \<open>2 ^ 55\<close> and the index below 49 bits, the bounds of the address
  format. \<open>prefix_exact\<close> holds from 18 index bits on (\<open>prefix_exact_large\<close>). \<open>params\<close>, \<open>ready\<close> and \<open>tree_ok\<close>
  are those of btree columns: bounds on keys and values, tables that hold exactly the heap with room for
  a number of further entries, a stored tree; \<open>root_cost\<close> is the room a change set needs, for a depth of
  at most 28. \<open>fresh_db\<close>, \<open>ids_left\<close> and \<open>change_set_allowed\<close>: an opened database without pending commits,
  commit numbers that do not wrap around, change sets that only name existing columns and count
  references only where the column does.

  \<^bold>\<open>Not modelled.\<close> Locks (src/src/parking_lot.rs), fsync and memory mapping: an operation on a column or
  the log runs alone on its records, which is what the locks of the code provide. Dumps and printed
  statistics, log messages, display of keys (src/src/display.rs) and the identity hasher
  (src/src/hash.rs). Of migration, closing and reopening the two databases between columns and replacing
  the source directory. The command line tool (src/admin) and the fuzzing harness (src/fuzz).
\<close>

end
